(* ===== verification/Prelude.thy ===== *)
theory Prelude
  imports Main "HOL-Library.Word"
begin

text \<open>
  Shared vocabulary of the development.

  \<^item> Machine integers: \<open>byte\<close>, \<open>u16\<close>, \<open>u32\<close>, \<open>u64\<close> are words of that width (wrapping
    arithmetic, the behaviour of the release profile); \<open>usize\<close> values that only count
    or index are \<open>nat\<close>.
  \<^item> Results: \<open>('e, 'a) res\<close> is Rust's \<open>Result\<close> with a third constructor for a panic
    (a slice out of range), so every early return and every panic of the source is a value.
  \<^item> Effects: \<open>('s, 'e, 'a) op\<close> passes a state through and keeps it on the error path,
    because the source mutates its device and its trees in place before it returns an error.
  \<^item> Byte codecs: little-endian integers and \<open>copy_from_slice\<close>.
\<close>

unbundle bit_operations_syntax

named_theorems codec_simps "round-trip and length equations of byte codecs"
named_theorems node_simps "field equations of tree node operations"

section \<open>Types\<close>

type_synonym byte = "8 word"
type_synonym u16 = "16 word"
type_synonym u32 = "32 word"
type_synonym u64 = "64 word"

datatype ('e, 'a) res = Ok 'a | Err 'e | Panic

type_synonym ('s, 'e, 'a) op = "'s \<Rightarrow> ('e, 'a) res \<times> 's"

section \<open>Results and effects\<close>

fun rbind :: "('e, 'a) res \<Rightarrow> ('a \<Rightarrow> ('e, 'b) res) \<Rightarrow> ('e, 'b) res" where
  "rbind (Ok a) f = f a"
| "rbind (Err e) f = Err e"
| "rbind Panic f = Panic"

fun map_err :: "('e \<Rightarrow> 'f) \<Rightarrow> ('e, 'a) res \<Rightarrow> ('f, 'a) res" where
  "map_err g (Ok a) = Ok a"
| "map_err g (Err e) = Err (g e)"
| "map_err g Panic = Panic"

definition ok_or :: "'e \<Rightarrow> 'a option \<Rightarrow> ('e, 'a) res" where
  "ok_or e x = (case x of None \<Rightarrow> Err e | Some a \<Rightarrow> Ok a)"

definition or_panic :: "'a option \<Rightarrow> ('e, 'a) res" where
  "or_panic x = (case x of None \<Rightarrow> Panic | Some a \<Rightarrow> Ok a)"

definition ret :: "'a \<Rightarrow> ('s, 'e, 'a) op" where
  "ret a s = (Ok a, s)"

definition lift_res :: "('e, 'a) res \<Rightarrow> ('s, 'e, 'a) op" where
  "lift_res r s = (r, s)"

definition sbind :: "('s, 'e, 'a) op \<Rightarrow> ('a \<Rightarrow> ('s, 'e, 'b) op) \<Rightarrow> ('s, 'e, 'b) op" where
  "sbind m f s = (case m s of
      (Ok a, s') \<Rightarrow> f a s'
    | (Err e, s') \<Rightarrow> (Err e, s')
    | (Panic, s') \<Rightarrow> (Panic, s'))"

text \<open>A \<open>for\<close> loop over a list of indices whose body may panic or return early.\<close>

fun for_res :: "('i \<Rightarrow> 'a \<Rightarrow> ('e, 'a) res) \<Rightarrow> 'i list \<Rightarrow> 'a \<Rightarrow> ('e, 'a) res" where
  "for_res f [] a = Ok a"
| "for_res f (i # is) a = rbind (f i a) (for_res f is)"

text \<open>The same with a state that is kept on the error path.\<close>

fun for_op :: "('i \<Rightarrow> ('s, 'e, unit) op) \<Rightarrow> 'i list \<Rightarrow> ('s, 'e, unit) op" where
  "for_op f [] = ret ()"
| "for_op f (x # xs) = sbind (f x) (\<lambda>_. for_op f xs)"

section \<open>Bytes\<close>

text \<open>\<open>dst[off..off + src.len()].copy_from_slice(src)\<close>, in range.\<close>

definition copy_into :: "'a list \<Rightarrow> nat \<Rightarrow> 'a list \<Rightarrow> 'a list" where
  "copy_into dst off src = take off dst @ src @ drop (off + length src) dst"

text \<open>\<open>buf[off..]\<close>: panics when \<open>off > buf.len()\<close>.\<close>

definition slice_from :: "'a list \<Rightarrow> nat \<Rightarrow> 'a list option" where
  "slice_from xs off = (if off \<le> length xs then Some (drop off xs) else None)"

fun to_le :: "nat \<Rightarrow> nat \<Rightarrow> byte list" where
  "to_le 0 x = []"
| "to_le (Suc n) x = of_nat x # to_le n (x div 256)"

fun from_le :: "byte list \<Rightarrow> nat" where
  "from_le [] = 0"
| "from_le (b # bs) = unat b + 256 * from_le bs"

text \<open>\<open>to_le_bytes\<close> and \<open>from_le_bytes\<close> of the integer types, by their width in bytes.\<close>

definition enc_word :: "nat \<Rightarrow> 'a::len word \<Rightarrow> byte list" where
  "enc_word n w = to_le n (unat w)"

definition dec_word :: "byte list \<Rightarrow> 'a::len word" where
  "dec_word bs = of_nat (from_le bs)"

section \<open>Saturating arithmetic\<close>

definition saturating_add :: "'a::len word \<Rightarrow> 'a word \<Rightarrow> 'a word" where
  "saturating_add a b = (if unat a + unat b < 2 ^ LENGTH('a) then a + b else - 1)"

definition saturating_sub :: "'a::len word \<Rightarrow> 'a word \<Rightarrow> 'a word" where
  "saturating_sub a b = (if b \<le> a then a - b else 0)"

section \<open>Lemmas\<close>

lemma rbind_eq_Ok [simp]: "rbind r f = Ok b \<longleftrightarrow> (\<exists>a. r = Ok a \<and> f a = Ok b)"
  by (cases r) auto

lemma not_image_neq: "a \<notin> f ` S \<Longrightarrow> x \<in> S \<Longrightarrow> f x \<noteq> a"
  by blast

lemma ok_or_simps [simp]:
  "ok_or e None = Err e" "ok_or e (Some a) = Ok a"
  by (simp_all add: ok_or_def)

lemma or_panic_simps [simp]:
  "or_panic None = Panic" "or_panic (Some a) = Ok a"
  by (simp_all add: or_panic_def)

lemma ret_apply [simp]: "ret a s = (Ok a, s)"
  by (simp add: ret_def)

lemma lift_res_apply [simp]: "lift_res r s = (r, s)"
  by (simp add: lift_res_def)

lemma sbind_assoc: "sbind (sbind m f) g = sbind m (\<lambda>a. sbind (f a) g)"
  by (auto simp: sbind_def fun_eq_iff split: prod.splits res.splits)

lemma sbind_simps [simp]:
  "m s = (Ok a, s') \<Longrightarrow> sbind m f s = f a s'"
  "m s = (Err e, s') \<Longrightarrow> sbind m f s = (Err e, s')"
  "m s = (Panic, s') \<Longrightarrow> sbind m f s = (Panic, s')"
  by (simp_all add: sbind_def)

lemma for_res_append: "for_res f (xs @ ys) a = rbind (for_res f xs a) (for_res f ys)"
proof (induction xs arbitrary: a)
  case (Cons x xs)
  then show ?case by (cases "f x a") simp_all
qed simp

text \<open>A loop whose body never fails on the states an invariant describes is a plain fold.\<close>

lemma for_res_fold:
  assumes "I a" and "\<And>i a. i \<in> set is \<Longrightarrow> I a \<Longrightarrow> f i a = Ok (g i a) \<and> I (g i a)"
  shows "for_res f is a = Ok (fold g is a) \<and> I (fold g is a)"
  using assms
proof (induction "is" arbitrary: a)
  case (Cons i "is")
  then have "f i a = Ok (g i a)" "I (g i a)" by auto
  with Cons show ?case by auto
qed simp

lemma find_append: "find q (xs @ ys) = (case find q xs of Some y \<Rightarrow> Some y | None \<Rightarrow> find q ys)"
  by (induction xs) auto

lemma length_copy_into [simp]:
  "off + length src \<le> length dst \<Longrightarrow> length (copy_into dst off src) = length dst"
  by (simp add: copy_into_def)

lemma slice_copy_into_same:
  "off + length src \<le> length dst \<Longrightarrow> take (length src) (drop off (copy_into dst off src)) = src"
  by (simp add: copy_into_def)

lemma slice_copy_into_before:
  "off + length src \<le> length dst \<Longrightarrow> i + n \<le> off \<Longrightarrow>
   take n (drop i (copy_into dst off src)) = take n (drop i dst)"
  by (simp add: copy_into_def take_drop)

lemma slice_copy_into_after:
  assumes "off + length src \<le> length dst" and "off + length src \<le> i"
  shows "take n (drop i (copy_into dst off src)) = take n (drop i dst)"
proof -
  have "i - length src - off + (off + length src) = i"
    using assms by simp
  then show ?thesis
    using assms by (simp add: copy_into_def add.commute)
qed

lemma length_to_le [codec_simps, simp]: "length (to_le n x) = n"
  by (induction n arbitrary: x) auto

lemma from_le_to_le [codec_simps]: "from_le (to_le n x) = x mod 256 ^ n"
proof (induction n arbitrary: x)
  case (Suc n)
  have "unat (of_nat x :: byte) = x mod 256"
    by (simp add: unat_of_nat)
  with Suc show ?case
    by (simp add: mod_mult2_eq)
qed simp

lemma from_le_bound: "from_le bs < 256 ^ length bs"
proof (induction bs)
  case (Cons b bs)
  have "unat b < 256"
    using unsigned_less [of b, where ?'a = nat] by simp
  with Cons show ?case by simp
qed simp

lemma to_le_from_le [codec_simps]: "to_le (length bs) (from_le bs) = bs"
proof (induction bs)
  case (Cons b bs)
  have "unat b < 256"
    using unsigned_less [of b, where ?'a = nat] by simp
  moreover have "(of_nat (unat b + 256 * from_le bs) :: byte) = b"
  proof -
    have "(of_nat (256 * from_le bs) :: byte) = 0"
      by (rule word_of_nat_eq_0_iff [THEN iffD2]) simp
    then show ?thesis by simp
  qed
  ultimately show ?case
    using Cons by simp
qed simp

lemma length_enc_word [codec_simps, simp]: "length (enc_word n w) = n"
  by (simp add: enc_word_def)

lemma dec_enc_word [codec_simps]:
  assumes "LENGTH('a::len) = 8 * n"
  shows "dec_word (enc_word n (w :: 'a word)) = w"
proof -
  have "(256::nat) ^ n = 2 ^ LENGTH('a)"
    using assms by (simp add: power_mult)
  then have "unat w mod 256 ^ n = unat w"
    using unsigned_less [of w, where ?'a = nat] by simp
  then show ?thesis
    by (simp add: enc_word_def dec_word_def from_le_to_le)
qed

lemma enc_dec_word [codec_simps]:
  assumes "LENGTH('a::len) = 8 * length bs"
  shows "enc_word (length bs) (dec_word bs :: 'a word) = bs"
proof -
  have "(256::nat) ^ length bs = 2 ^ LENGTH('a)"
    using assms by (simp add: power_mult)
  then have "unat (of_nat (from_le bs) :: 'a word) = from_le bs"
    using from_le_bound [of bs] by (simp add: unat_of_nat)
  then show ?thesis
    by (simp add: enc_word_def dec_word_def to_le_from_le)
qed

lemma enc_word_inj:
  "LENGTH('a::len) = 8 * n \<Longrightarrow> enc_word n (a :: 'a word) = enc_word n b \<longleftrightarrow> a = b"
  by (metis dec_enc_word)

lemma enc_word_first: "n > 0 \<Longrightarrow> enc_word n w ! 0 = of_nat (unat w)"
  by (cases n) (simp_all add: enc_word_def)

lemma unat_u16_bound: "unat (w :: u16) < 65536"
  using unsigned_less [of w, where ?'a = nat] by simp

lemma unat_u64_bound: "unat (w :: u64) < 18446744073709551616"
  using unsigned_less [of w, where ?'a = nat] by simp

section \<open>Computations that return\<close>

text \<open>Code that can only panic, and what it means that code returns, with a value that satisfies \<open>I\<close>.\<close>

type_synonym 'a pan = "(unit, 'a) res"

definition returns :: "('a \<Rightarrow> bool) \<Rightarrow> ('e, 'a) res \<Rightarrow> bool" where
  "returns I r \<longleftrightarrow> (\<exists>a. r = Ok a \<and> I a)"

lemma returns_Ok [simp]: "returns I (Ok a) \<longleftrightarrow> I a"
  by (simp add: returns_def)

lemma returns_bind: "returns I r \<Longrightarrow> (\<And>a. I a \<Longrightarrow> returns J (f a)) \<Longrightarrow> returns J (rbind r f)"
  by (auto simp: returns_def)

lemma returns_for: "I a \<Longrightarrow> (\<And>i a. i \<in> set is \<Longrightarrow> I a \<Longrightarrow> returns I (f i a)) \<Longrightarrow> returns I (for_res f is a)"
proof (induction "is" arbitrary: a)
  case (Cons i "is")
  have "returns I (rbind (f i a) (for_res f is))"
    by (rule returns_bind [where I = I]) (use Cons in auto)
  then show ?case by simp
qed simp

end
