(* ===== verification/Vfs_Types.thy ===== *)
theory Vfs_Types
  imports Prelude
begin

text \<open>
  Types shared by the VFS components: the error enumeration of
  \<^verbatim>\<open>src/crates/storage/vfs/src/error.rs\<close> with its errno codes, and file types, open modes
  and file statistics of \<^verbatim>\<open>src/crates/storage/vfs/src/file.rs\<close>, and the directory entries and
  filesystem statistics of \<^verbatim>\<open>src/crates/storage/vfs/src/lib.rs\<close>.
\<close>

section \<open>Definitions\<close>

datatype vfs_error =
    NotFound | PermissionDenied | AlreadyExists | NotADirectory | IsADirectory
  | DirectoryNotEmpty | NoSpace | ReadOnly | TooManyOpenFiles | InvalidArgument | VfsIoError
  | CrossDevice | NameTooLong | PathTooLong | InvalidPath | NotMounted | AlreadyMounted | Busy
  | NotInitialized | NotSupported | InvalidName | NotAFile | Corrupted | FsError int

fun to_errno :: "vfs_error \<Rightarrow> int" where
  "to_errno NotFound = -2"
| "to_errno PermissionDenied = -13"
| "to_errno AlreadyExists = -17"
| "to_errno NotADirectory = -20"
| "to_errno IsADirectory = -21"
| "to_errno InvalidArgument = -22"
| "to_errno NoSpace = -28"
| "to_errno ReadOnly = -30"
| "to_errno NameTooLong = -36"
| "to_errno DirectoryNotEmpty = -39"
| "to_errno TooManyOpenFiles = -24"
| "to_errno CrossDevice = -18"
| "to_errno VfsIoError = -5"
| "to_errno Busy = -16"
| "to_errno PathTooLong = -36"
| "to_errno InvalidPath = -22"
| "to_errno NotMounted = -22"
| "to_errno AlreadyMounted = -16"
| "to_errno NotInitialized = -22"
| "to_errno NotSupported = -38"
| "to_errno InvalidName = -22"
| "to_errno NotAFile = -21"
| "to_errno Corrupted = -5"
| "to_errno (FsError e) = e"

datatype file_type =
  Regular | Directory | Symlink | BlockDevice | CharDevice | Fifo | Socket | UnknownType

record file_mode =
  fm_read :: bool
  fm_write :: bool
  fm_append :: bool
  fm_create :: bool
  fm_truncate :: bool
  fm_exclusive :: bool

definition FileMode_READ :: file_mode where
  "FileMode_READ = \<lparr>fm_read = True, fm_write = False, fm_append = False, fm_create = False,
     fm_truncate = False, fm_exclusive = False\<rparr>"

definition FileMode_WRITE :: file_mode where
  "FileMode_WRITE = \<lparr>fm_read = False, fm_write = True, fm_append = False, fm_create = True,
     fm_truncate = True, fm_exclusive = False\<rparr>"

definition FileMode_READ_WRITE :: file_mode where
  "FileMode_READ_WRITE = \<lparr>fm_read = True, fm_write = True, fm_append = False, fm_create = False,
     fm_truncate = False, fm_exclusive = False\<rparr>"

definition FileMode_APPEND :: file_mode where
  "FileMode_APPEND = \<lparr>fm_read = False, fm_write = True, fm_append = True, fm_create = True,
     fm_truncate = False, fm_exclusive = False\<rparr>"

definition FileMode_CREATE_NEW :: file_mode where
  "FileMode_CREATE_NEW = \<lparr>fm_read = False, fm_write = True, fm_append = False, fm_create = True,
     fm_truncate = False, fm_exclusive = True\<rparr>"

record file_stat =
  st_type :: file_type
  st_size :: u64
  st_nlink :: u32
  st_inode :: u64
  st_dev :: u64
  st_mode :: u32
  st_uid :: u32
  st_gid :: u32
  st_blksize :: u32
  st_blocks :: u64
  st_atime :: u64
  st_mtime :: u64
  st_ctime :: u64

definition default_stat :: file_stat where
  "default_stat = \<lparr>st_type = UnknownType, st_size = 0, st_nlink = 1, st_inode = 0, st_dev = 0,
     st_mode = 0, st_uid = 0, st_gid = 0, st_blksize = 512, st_blocks = 0, st_atime = 0,
     st_mtime = 0, st_ctime = 0\<rparr>"

datatype seek_from = Start | Current | End

record vfs_dir_entry =
  vd_name :: "byte list"
  vd_file_type :: file_type
  vd_size :: u64
  vd_inode :: u64

record fs_stats =
  fst_block_size :: u32
  fst_total_blocks :: u64
  fst_free_blocks :: u64
  fst_total_inodes :: u64
  fst_free_inodes :: u64
  fst_max_name_len :: u32

section \<open>Lemmas\<close>

text \<open>Only a filesystem-specific error can be reported to a caller as success.\<close>

lemma to_errno_negative: "to_errno e < 0 \<or> (\<exists>k. e = FsError k)"
  by (cases e) auto

end
