(* ===== verification/Fat_Table.thy ===== *)
theory Fat_Table
  imports Vfs_Types
begin

text \<open>
  The on-disk layout of the FAT driver: the BIOS parameter block
  (\<^verbatim>\<open>src/crates/storage/fat/src/bpb.rs\<close>), the file allocation table in its three widths
  (\<^verbatim>\<open>src/crates/storage/fat/src/table.rs\<close>) and cluster chains
  (\<^verbatim>\<open>src/crates/storage/fat/src/cluster.rs\<close>).

  The block device is the parameter \<open>rd\<close>: given a sector and a buffer it returns the new content of the
  buffer, or nothing on a device error; reading does not change the device. The entry readers index a
  buffer of 512 bytes and panic outside of it. Arithmetic on \<open>u32\<close> and \<open>u64\<close> wraps.
\<close>

section \<open>The BIOS parameter block\<close>

type_synonym reader = "u64 \<Rightarrow> byte list \<Rightarrow> byte list option"

datatype fat_type = Fat12 | Fat16 | Fat32

record bios_parameter_block =
  bp_bytes_per_sector :: u16
  bp_sectors_per_cluster :: byte
  bp_reserved_sector_count :: u16
  bp_num_fats :: byte
  bp_root_entry_count :: u16
  bp_total_sectors_16 :: u16
  bp_media_type :: byte
  bp_fat_size_16 :: u16
  bp_sectors_per_track :: u16
  bp_num_heads :: u16
  bp_hidden_sectors :: u32
  bp_total_sectors_32 :: u32
  bp_fat_size_32 :: u32
  bp_root_cluster :: u32
  bp_fs_info_sector :: u16
  bp_backup_boot_sector :: u16
  bp_volume_label :: "byte list"
  bp_fs_type :: "byte list"

text \<open>\<open>from_le_bytes\<close> of the bytes at an offset.\<close>

definition le16 :: "byte list \<Rightarrow> nat \<Rightarrow> u16" where
  "le16 bs i = dec_word [bs ! i, bs ! (i + 1)]"

definition le32 :: "byte list \<Rightarrow> nat \<Rightarrow> u32" where
  "le32 bs i = dec_word [bs ! i, bs ! (i + 1), bs ! (i + 2), bs ! (i + 3)]"

definition bpb_parse :: "byte list \<Rightarrow> (vfs_error, bios_parameter_block) res" where
  "bpb_parse bs =
     (if length bs < 512 then Err InvalidArgument
      else if bs ! 510 \<noteq> 0x55 \<or> bs ! 511 \<noteq> 0xAA then Err InvalidArgument
      else
        let fat_size_16 = le16 bs 22;
            (fat_size_32, root_cluster, fs_info_sector, backup_boot_sector, volume_label, fs_type) =
              (if fat_size_16 = 0
               then (le32 bs 36, le32 bs 44, le16 bs 48, le16 bs 50, take 11 (drop 71 bs), take 8 (drop 82 bs))
               else (0, 0, 0, 0, take 11 (drop 43 bs), take 8 (drop 54 bs))) in
        if le16 bs 11 = 0 \<or> bs ! 13 = 0 \<or> bs ! 16 = 0 \<or> le16 bs 14 = 0 then Err InvalidArgument
        else Ok \<lparr>bp_bytes_per_sector = le16 bs 11, bp_sectors_per_cluster = bs ! 13, bp_reserved_sector_count = le16 bs 14,
          bp_num_fats = bs ! 16, bp_root_entry_count = le16 bs 17, bp_total_sectors_16 = le16 bs 19, bp_media_type = bs ! 21,
          bp_fat_size_16 = fat_size_16, bp_sectors_per_track = le16 bs 24, bp_num_heads = le16 bs 26,
          bp_hidden_sectors = le32 bs 28, bp_total_sectors_32 = le32 bs 32, bp_fat_size_32 = fat_size_32,
          bp_root_cluster = root_cluster, bp_fs_info_sector = fs_info_sector, bp_backup_boot_sector = backup_boot_sector,
          bp_volume_label = volume_label, bp_fs_type = fs_type\<rparr>)"

definition root_dir_sectors :: "bios_parameter_block \<Rightarrow> u32" where
  "root_dir_sectors b =
     (ucast (bp_root_entry_count b) * 32 + (ucast (bp_bytes_per_sector b) - 1)) div ucast (bp_bytes_per_sector b)"

definition fat_type_of :: "bios_parameter_block \<Rightarrow> fat_type" where
  "fat_type_of b =
     (if bp_fat_size_16 b = 0 then Fat32
      else
        let fat_size = ucast (bp_fat_size_16 b) :: u32;
            total_sectors = (if bp_total_sectors_16 b \<noteq> 0 then ucast (bp_total_sectors_16 b) else bp_total_sectors_32 b);
            data_sectors = total_sectors - ucast (bp_reserved_sector_count b) - ucast (bp_num_fats b) * fat_size - root_dir_sectors b;
            cluster_count = data_sectors div ucast (bp_sectors_per_cluster b) in
        if cluster_count < 4085 then Fat12 else Fat16)"

section \<open>Table entries\<close>

definition EOC_FAT12 :: u32 where "EOC_FAT12 = 0x0FF8"
definition EOC_FAT16 :: u32 where "EOC_FAT16 = 0xFFF8"
definition EOC_FAT32 :: u32 where "EOC_FAT32 = 0x0FFFFFF8"
definition BAD_FAT12 :: u32 where "BAD_FAT12 = 0x0FF7"
definition BAD_FAT16 :: u32 where "BAD_FAT16 = 0xFFF7"
definition BAD_FAT32 :: u32 where "BAD_FAT32 = 0x0FFFFFF7"
definition FREE_CLUSTER :: u32 where "FREE_CLUSTER = 0"

definition read_sector :: "reader \<Rightarrow> u64 \<Rightarrow> (vfs_error, byte list) res" where
  "read_sector rd sector = ok_or VfsIoError (rd sector (replicate 512 0))"

text \<open>\<open>buf[i]\<close>, with the panic outside of the buffer.\<close>

definition idx :: "byte list \<Rightarrow> nat \<Rightarrow> (vfs_error, byte) res" where
  "idx buf i = or_panic (if i < length buf then Some (buf ! i) else None)"

definition classify :: "u32 \<Rightarrow> u32 \<Rightarrow> u32 \<Rightarrow> u32 option" where
  "classify eoc bad value = (if value \<ge> eoc then None else if value = FREE_CLUSTER \<or> value = bad then None else Some value)"

definition fat12_value :: "u32 \<Rightarrow> byte \<Rightarrow> byte \<Rightarrow> u32" where
  "fat12_value cluster b c =
     (let low = ucast b; high = ucast c in
      if cluster AND 1 \<noteq> 0 then drop_bit 4 low OR push_bit 4 high else low OR push_bit 8 (high AND 0x0F))"

definition read_fat12_entry :: "reader \<Rightarrow> u64 \<Rightarrow> u64 \<Rightarrow> u32 \<Rightarrow> (vfs_error, u32 option) res" where
  "read_fat12_entry rd fat_start bytes_per_sector cluster =
     (let fat_offset = cluster + cluster div 2;
          sector = fat_start + ucast fat_offset div bytes_per_sector;
          offset_in_sector = unat fat_offset mod unat bytes_per_sector in
      rbind (read_sector rd sector) (\<lambda>sector_buf.
      rbind (if offset_in_sector = 511
             then rbind (read_sector rd (sector + 1)) (\<lambda>next_sector_buf.
                  rbind (idx sector_buf offset_in_sector) (\<lambda>low.
                  rbind (idx next_sector_buf 0) (\<lambda>high. Ok (fat12_value cluster low high))))
             else rbind (idx sector_buf offset_in_sector) (\<lambda>low.
                  rbind (idx sector_buf (offset_in_sector + 1)) (\<lambda>high. Ok (fat12_value cluster low high)))) (\<lambda>value.
      Ok (classify EOC_FAT12 BAD_FAT12 value))))"

definition read_fat16_entry :: "reader \<Rightarrow> u64 \<Rightarrow> u64 \<Rightarrow> u32 \<Rightarrow> (vfs_error, u32 option) res" where
  "read_fat16_entry rd fat_start bytes_per_sector cluster =
     (let fat_offset = ucast (cluster * 2);
          sector = fat_start + fat_offset div bytes_per_sector;
          offset_in_sector = unat (fat_offset mod bytes_per_sector) in
      rbind (read_sector rd sector) (\<lambda>sector_buf.
      rbind (idx sector_buf offset_in_sector) (\<lambda>b0.
      rbind (idx sector_buf (offset_in_sector + 1)) (\<lambda>b1.
      Ok (classify EOC_FAT16 BAD_FAT16 (ucast (dec_word [b0, b1] :: u16)))))))"

definition read_fat32_entry :: "reader \<Rightarrow> u64 \<Rightarrow> u64 \<Rightarrow> u32 \<Rightarrow> (vfs_error, u32 option) res" where
  "read_fat32_entry rd fat_start bytes_per_sector cluster =
     (let fat_offset = ucast (cluster * 4);
          sector = fat_start + fat_offset div bytes_per_sector;
          offset_in_sector = unat (fat_offset mod bytes_per_sector) in
      rbind (read_sector rd sector) (\<lambda>sector_buf.
      rbind (idx sector_buf offset_in_sector) (\<lambda>b0.
      rbind (idx sector_buf (offset_in_sector + 1)) (\<lambda>b1.
      rbind (idx sector_buf (offset_in_sector + 2)) (\<lambda>b2.
      rbind (idx sector_buf (offset_in_sector + 3)) (\<lambda>b3.
      Ok (classify EOC_FAT32 BAD_FAT32 (dec_word [b0, b1, b2, b3] AND 0x0FFFFFFF))))))))"

definition read_fat_entry :: "reader \<Rightarrow> bios_parameter_block \<Rightarrow> fat_type \<Rightarrow> u32 \<Rightarrow> (vfs_error, u32 option) res" where
  "read_fat_entry rd b ft cluster =
     (let fat_start = ucast (bp_reserved_sector_count b);
          bytes_per_sector = ucast (bp_bytes_per_sector b) in
      case ft of
        Fat12 \<Rightarrow> read_fat12_entry rd fat_start bytes_per_sector cluster
      | Fat16 \<Rightarrow> read_fat16_entry rd fat_start bytes_per_sector cluster
      | Fat32 \<Rightarrow> read_fat32_entry rd fat_start bytes_per_sector cluster)"

definition is_end_of_chain :: "fat_type \<Rightarrow> u32 \<Rightarrow> bool" where
  "is_end_of_chain ft cluster =
     (case ft of Fat12 \<Rightarrow> cluster \<ge> EOC_FAT12 | Fat16 \<Rightarrow> cluster \<ge> EOC_FAT16 | Fat32 \<Rightarrow> cluster \<ge> EOC_FAT32)"

definition fat_is_free :: "u32 \<Rightarrow> bool" where
  "fat_is_free cluster \<longleftrightarrow> cluster = FREE_CLUSTER"

definition is_bad :: "fat_type \<Rightarrow> u32 \<Rightarrow> bool" where
  "is_bad ft cluster =
     (case ft of Fat12 \<Rightarrow> cluster = BAD_FAT12 | Fat16 \<Rightarrow> cluster = BAD_FAT16 | Fat32 \<Rightarrow> cluster = BAD_FAT32)"

section \<open>Cluster chains\<close>

record cluster_chain =
  cc_start :: u32
  cc_clusters :: "u32 list"
  cc_cluster_size :: u32

text \<open>The loop of \<open>build\<close>, with its limit of a million clusters.\<close>

function chain_loop :: "(u32 \<Rightarrow> (vfs_error, u32 option) res) \<Rightarrow> fat_type \<Rightarrow> u32 list \<Rightarrow> u32 \<Rightarrow> (vfs_error, u32 list) res" where
  "chain_loop nxt ft clusters current =
     rbind (nxt current) (\<lambda>entry.
     case entry of
       None \<Rightarrow> Ok clusters
     | Some next \<Rightarrow>
         if next < 2 \<or> is_end_of_chain ft next then Ok clusters
         else if length (clusters @ [next]) > 1000000 then Ok (clusters @ [next])
         else chain_loop nxt ft (clusters @ [next]) next)"
  by pat_completeness auto
termination by (relation "measure (\<lambda>(nxt, ft, clusters, current). 1000000 - length clusters)") auto

definition chain_build :: "reader \<Rightarrow> bios_parameter_block \<Rightarrow> fat_type \<Rightarrow> u32 \<Rightarrow> (vfs_error, cluster_chain) res" where
  "chain_build rd b ft start_cluster =
     (let cluster_size = ucast (bp_bytes_per_sector b) * ucast (bp_sectors_per_cluster b) in
      if start_cluster < 2 then Ok \<lparr>cc_start = start_cluster, cc_clusters = [], cc_cluster_size = cluster_size\<rparr>
      else
        rbind (chain_loop (read_fat_entry rd b ft) ft [start_cluster] start_cluster) (\<lambda>clusters.
        Ok \<lparr>cc_start = start_cluster, cc_clusters = clusters, cc_cluster_size = cluster_size\<rparr>))"

definition chain_size :: "cluster_chain \<Rightarrow> u64" where
  "chain_size c = of_nat (length (cc_clusters c)) * ucast (cc_cluster_size c)"

definition cluster_at_offset :: "cluster_chain \<Rightarrow> u64 \<Rightarrow> u32 option" where
  "cluster_at_offset c off =
     (let cluster_index = unat (off div ucast (cc_cluster_size c)) in
      if cluster_index < length (cc_clusters c) then Some (cc_clusters c ! cluster_index) else None)"

definition offset_in_cluster :: "cluster_chain \<Rightarrow> u64 \<Rightarrow> u32" where
  "offset_in_cluster c off = ucast (off mod ucast (cc_cluster_size c))"

definition chain_is_empty :: "cluster_chain \<Rightarrow> bool" where
  "chain_is_empty c \<longleftrightarrow> cc_clusters c = []"

definition chain_len :: "cluster_chain \<Rightarrow> nat" where
  "chain_len c = length (cc_clusters c)"

section \<open>Tables in memory\<close>

text \<open>The bytes of a table on the device, from a start sector on.\<close>

definition table_at :: "reader \<Rightarrow> u64 \<Rightarrow> byte list \<Rightarrow> bool" where
  "table_at rd start bs \<longleftrightarrow> (\<forall>k < length bs. \<exists>buf. rd (start + of_nat (k div 512)) (replicate 512 0) = Some buf \<and>
     length buf = 512 \<and> buf ! (k mod 512) = bs ! k)"

fun pack12 :: "u32 list \<Rightarrow> byte list" where
  "pack12 [] = []"
| "pack12 [a] = [ucast a, ucast (drop_bit 8 a) AND 0x0F]"
| "pack12 (a # b # es) =
     [ucast a, (ucast (drop_bit 8 a) AND 0x0F) OR push_bit 4 (ucast b), ucast (drop_bit 4 b)] @ pack12 es"

definition pack16 :: "u32 list \<Rightarrow> byte list" where
  "pack16 es = concat (map (\<lambda>e. enc_word 2 (ucast e :: u16)) es)"

definition pack32 :: "u32 list \<Rightarrow> byte list" where
  "pack32 es = concat (map (enc_word 4) es)"

lemma concat_blocks:
  assumes "\<And>e. length (f e) = n"
  shows "length (concat (map f es)) = n * length es"
    and "c < length es \<Longrightarrow> j < n \<Longrightarrow> concat (map f es) ! (n * c + j) = f (es ! c) ! j"
proof -
  show "length (concat (map f es)) = n * length es" using assms by (induction es) auto
  show "c < length es \<Longrightarrow> j < n \<Longrightarrow> concat (map f es) ! (n * c + j) = f (es ! c) ! j"
  proof (induction es arbitrary: c)
    case (Cons e es)
    then show ?case using assms by (cases c) (auto simp: nth_append algebra_simps)
  qed simp
qed

lemma table_byte:
  assumes "table_at rd start bs" and "k < length bs"
  shows "\<exists>buf. read_sector rd (start + of_nat (k div 512)) = Ok buf \<and> length buf = 512 \<and> buf ! (k mod 512) = bs ! k"
  using assms by (fastforce simp: table_at_def read_sector_def)

lemma add_in_sector: "(r :: nat) < 512 \<Longrightarrow> (q * 512 + r) div 512 = q" "r < 512 \<Longrightarrow> (q * 512 + r) mod 512 = r"
  by simp_all

text \<open>The bytes of an entry that does not cross a sector.\<close>

lemma table_bytes:
  assumes t: "table_at rd start bs" and "k + n \<le> length bs" and "k mod 512 + n \<le> 512" and "n > 0"
  shows "\<exists>buf. read_sector rd (start + of_nat (k div 512)) = Ok buf \<and> length buf = 512 \<and>
    (\<forall>j < n. idx buf (k mod 512 + j) = Ok (bs ! (k + j)))"
proof -
  obtain buf where buf: "read_sector rd (start + of_nat (k div 512)) = Ok buf" "length buf = 512"
    using table_byte [OF t, of k] assms by auto
  have "idx buf (k mod 512 + j) = Ok (bs ! (k + j))" if "j < n" for j
  proof -
    have "k mod 512 + j < 512" using that assms(3) by linarith
    then have "(k + j) div 512 = k div 512" "(k + j) mod 512 = k mod 512 + j"
      using add_in_sector [of "k mod 512 + j" "k div 512"] by simp_all
    then show ?thesis using table_byte [OF t, of "k + j"] buf that assms(2,3) by (auto simp: idx_def)
  qed
  then show ?thesis using buf by auto
qed

lemma small_offset:
  assumes "unat (x :: u32) = k"
  shows "start + (ucast x :: u64) div 512 = start + of_nat (k div 512)" "unat ((ucast x :: u64) mod 512) = k mod 512"
proof -
  have "unat (ucast x :: u64) = k"
    using assms unsigned_less [of x, where 'a = nat] by (simp add: unsigned_ucast_eq take_bit_nat_eq_self_iff)
  then show "start + (ucast x :: u64) div 512 = start + of_nat (k div 512)" "unat ((ucast x :: u64) mod 512) = k mod 512"
    by (simp_all add: word_arith_nat_div unat_mod_distrib)
qed

section \<open>Looking up an entry\<close>

lemma aligned_in_sector: "0 < m \<Longrightarrow> n * k mod (n * m) + n \<le> n * m" for k m n :: nat
proof -
  assume "0 < m"
  then have "Suc (k mod m) \<le> m" by (simp add: Suc_le_eq)
  then have "n * Suc (k mod m) \<le> n * m" by (rule mult_le_mono2)
  then show ?thesis by (simp add: mod_mult_mult1 add.commute)
qed

lemma bit_low:
  "bit (0xFFFF :: int) n \<longleftrightarrow> n < 16" "bit (0xFFF :: int) n \<longleftrightarrow> n < 12" "bit (0x0F :: int) n \<longleftrightarrow> n < 4" "bit (0xF00 :: int) n \<longleftrightarrow> 8 \<le> n \<and> n < 12"
proof -
  have m: "(0xFFFF :: int) = mask 16" "(0xFFF :: int) = mask 12" "(0x0F :: int) = mask 4" "(0xF00 :: int) = push_bit 8 (mask 4)"
    by (simp_all add: mask_eq_exp_minus_1)
  show "bit (0xFFFF :: int) n \<longleftrightarrow> n < 16" "bit (0xFFF :: int) n \<longleftrightarrow> n < 12" "bit (0x0F :: int) n \<longleftrightarrow> n < 4"
    "bit (0xF00 :: int) n \<longleftrightarrow> 8 \<le> n \<and> n < 12"
    unfolding m by (auto simp: bit_mask_iff bit_push_bit_iff simp del: push_bit_mask_eq)
qed

lemma list_of_2: "length xs = 2 \<Longrightarrow> [xs ! 0, xs ! 1] = xs"
  and list_of_4: "length xs = 4 \<Longrightarrow> [xs ! 0, xs ! 1, xs ! 2, xs ! 3] = xs"
  by (auto simp: numeral_eq_Suc length_Suc_conv)

lemma fat16_lookup:
  assumes t: "table_at rd start (pack16 es)" and c: "unat c < length es" and small: "length es \<le> 2 ^ 28"
  shows "read_fat16_entry rd start 512 c = Ok (classify EOC_FAT16 BAD_FAT16 (es ! unat c AND 0xFFFF))"
proof -
  note len = concat_blocks(1) [of "\<lambda>e. enc_word 2 (ucast e :: u16)" 2 es, simplified]
  have u: "unat (c * 2) = 2 * unat c" using c small by (simp add: unat_word_ariths)
  have "2 * unat c mod 512 + 2 \<le> 512" using aligned_in_sector [of 256 2 "unat c"] by simp
  then obtain buf where buf: "read_sector rd (start + of_nat (2 * unat c div 512)) = Ok buf"
      "\<forall>j < 2. idx buf (2 * unat c mod 512 + j) = Ok (pack16 es ! (2 * unat c + j))"
    using table_bytes [OF t, of "2 * unat c" 2] c len by (auto simp: pack16_def)
  have b: "pack16 es ! (2 * unat c + j) = enc_word 2 (ucast (es ! unat c) :: u16) ! j" if "j < 2" for j
    unfolding pack16_def by (rule concat_blocks(2)) (use c that in auto)
  have "[pack16 es ! (2 * unat c), pack16 es ! (2 * unat c + 1)] = enc_word 2 (ucast (es ! unat c) :: u16)"
    using b [of 0] b [of 1] list_of_2 [of "enc_word 2 (ucast (es ! unat c) :: u16)"] by simp
  then have "ucast (dec_word [pack16 es ! (2 * unat c), pack16 es ! (2 * unat c + 1)] :: u16) = es ! unat c AND 0xFFFF"
    by (simp add: dec_enc_word) (rule bit_word_eqI, auto simp: bit_simps bit_low)
  then show ?thesis
    using buf small_offset(1) [OF u, of start] small_offset(2) [OF u] buf(2) [rule_format, of 0] buf(2) [rule_format, of 1]
    by (simp add: read_fat16_entry_def Let_def)
qed

lemma fat32_lookup:
  assumes t: "table_at rd start (pack32 es)" and c: "unat c < length es" and small: "length es \<le> 2 ^ 28"
  shows "read_fat32_entry rd start 512 c = Ok (classify EOC_FAT32 BAD_FAT32 (es ! unat c AND 0x0FFFFFFF))"
proof -
  note len = concat_blocks(1) [of "enc_word 4 :: u32 \<Rightarrow> byte list" 4 es, simplified]
  have u: "unat (c * 4) = 4 * unat c" using c small by (simp add: unat_word_ariths)
  have "4 * unat c mod 512 + 4 \<le> 512" using aligned_in_sector [of 128 4 "unat c"] by simp
  then obtain buf where buf: "read_sector rd (start + of_nat (4 * unat c div 512)) = Ok buf"
      "\<forall>j < 4. idx buf (4 * unat c mod 512 + j) = Ok (pack32 es ! (4 * unat c + j))"
    using table_bytes [OF t, of "4 * unat c" 4] c len by (auto simp: pack32_def)
  have b: "pack32 es ! (4 * unat c + j) = enc_word 4 (es ! unat c) ! j" if "j < 4" for j
    unfolding pack32_def by (rule concat_blocks(2)) (use c that in auto)
  have "[pack32 es ! (4 * unat c), pack32 es ! (4 * unat c + 1), pack32 es ! (4 * unat c + 2), pack32 es ! (4 * unat c + 3)]
    = enc_word 4 (es ! unat c)"
    using b [of 0] b [of 1] b [of 2] b [of 3] list_of_4 [of "enc_word 4 (es ! unat c)"] by simp
  then have "dec_word [pack32 es ! (4 * unat c), pack32 es ! (4 * unat c + 1), pack32 es ! (4 * unat c + 2), pack32 es ! (4 * unat c + 3)]
    = es ! unat c"
    by (simp add: dec_enc_word)
  then show ?thesis
    using buf small_offset(1) [OF u, of start] small_offset(2) [OF u] buf(2) [rule_format, of 0] buf(2) [rule_format, of 1]
      buf(2) [rule_format, of 2] buf(2) [rule_format, of 3]
    by (simp add: read_fat32_entry_def Let_def)
qed

lemma fat12_even: "ucast (ucast a :: byte) OR push_bit 8 (ucast (ucast (drop_bit 8 a) AND 0x0F OR push_bit 4 x) AND 0x0F) = a AND 0xFFF"
  for a :: u32 and x :: byte
  by (rule bit_word_eqI) (auto simp: bit_simps bit_low)

lemma fat12_odd: "drop_bit 4 (ucast (y AND 0x0F OR push_bit 4 (ucast b))) OR push_bit 4 (ucast (ucast (drop_bit 4 b) :: byte)) = b AND 0xFFF"
  for b :: u32 and y :: byte
proof (rule bit_word_eqI)
  fix n
  show "bit (drop_bit 4 (ucast (y AND 0x0F OR push_bit 4 (ucast b))) OR push_bit 4 (ucast (ucast (drop_bit 4 b) :: byte)) :: u32) n = bit (b AND 0xFFF) n"
    if "n < LENGTH(32)" using that by (cases "n < 4") (auto simp: bit_simps bit_low)
qed

lemma pack12_entry:
  "c < length es \<Longrightarrow> c + c div 2 + 1 < length (pack12 es) \<and>
    (let low = ucast (pack12 es ! (c + c div 2)); high = ucast (pack12 es ! (c + c div 2 + 1)) in
     if odd c then drop_bit 4 low OR push_bit 4 high else low OR push_bit 8 (high AND 0x0F)) = es ! c AND 0xFFF"
proof (induction es arbitrary: c rule: pack12.induct)
  case (2 a)
  then show ?case using fat12_even [of a 0] by simp
next
  case (3 a b es)
  consider "c = 0" | "c = 1" | c' where "c = Suc (Suc c')" "c' < length es" using "3.prems" by (cases c rule: nat.exhaust; cases "c - 1") auto
  then show ?case
  proof cases
    case 1 then show ?thesis using fat12_even [of a "ucast b"] by simp
  next
    case 2 then show ?thesis using fat12_odd [of "ucast (drop_bit 8 a)" b] by simp
  next
    case (3 c')
    then have "c + c div 2 = 3 + (c' + c' div 2)" by simp
    moreover have "pack12 (a # b # es) ! (3 + k) = pack12 es ! k" for k by (simp add: numeral_3_eq_3)
    ultimately show ?thesis using "3.IH" [of c'] 3 unfolding add.assoc [of 3] by (simp add: Let_def)
  qed
qed simp

lemma odd_word: "(w :: u32) AND 1 \<noteq> 0 \<longleftrightarrow> odd (unat w)"
proof -
  have "odd (unat w) \<longleftrightarrow> bit (unat w) 0" by (simp add: bit_0)
  also have "\<dots> \<longleftrightarrow> bit w 0" by (simp add: bit_unsigned_iff)
  finally show ?thesis by (simp add: and_one_eq mod2_eq_if bit_0)
qed

lemma fat12_lookup:
  assumes t: "table_at rd start (pack12 es)" and c: "unat c < length es" and small: "length es \<le> 2 ^ 28"
  shows "read_fat12_entry rd start 512 c = Ok (classify EOC_FAT12 BAD_FAT12 (es ! unat c AND 0xFFF))"
proof -
  let ?k = "unat c + unat c div 2" and ?v = "\<lambda>k. pack12 es ! k"
  have u: "unat (c + c div 2) = ?k" using c small by (simp add: unat_word_ariths unat_div_distrib)
  have k: "?k + 1 < length (pack12 es)" and v: "fat12_value c (?v ?k) (?v (?k + 1)) = es ! unat c AND 0xFFF"
    using pack12_entry [OF c] unfolding fat12_value_def odd_word by auto
  have sec: "start + ucast (c + c div 2) div 512 = start + of_nat (?k div 512)" by (rule small_offset(1) [OF u])
  show ?thesis
  proof (cases "?k mod 512 = 511")
    case False
    then have "?k mod 512 + 2 \<le> 512" using mod_less_divisor [of 512 ?k] by linarith
    then obtain buf where "read_sector rd (start + of_nat (?k div 512)) = Ok buf"
        "\<forall>j < 2. idx buf (?k mod 512 + j) = Ok (?v (?k + j))"
      using table_bytes [OF t, of ?k 2] k by auto
    moreover from this(2) [rule_format, of 0] this(2) [rule_format, of 1]
    have "idx buf (?k mod 512) = Ok (?v ?k)" "idx buf (?k mod 512 + 1) = Ok (?v (?k + 1))" by simp_all
    ultimately show ?thesis using v False unfolding read_fat12_entry_def Let_def sec u by simp
  next
    case True
    then have kn: "(?k + 1) div 512 = Suc (?k div 512)" "(?k + 1) mod 512 = 0" by (simp_all add: div_Suc mod_Suc)
    obtain buf where buf: "read_sector rd (start + of_nat (?k div 512)) = Ok buf" "length buf = 512" "buf ! (?k mod 512) = ?v ?k"
      using table_byte [OF t, of ?k] k by auto
    obtain buf2 where buf2: "read_sector rd (start + of_nat (?k div 512) + 1) = Ok buf2" "length buf2 = 512" "buf2 ! 0 = ?v (?k + 1)"
      using table_byte [OF t k] kn by (auto simp: add_ac)
    have "idx buf 511 = Ok (?v ?k)" "idx buf2 0 = Ok (?v (?k + 1))"
      using buf buf2 True by (simp_all add: idx_def)
    then show ?thesis using v True buf(1) buf2(1) unfolding read_fat12_entry_def Let_def sec u by simp
  qed
qed


section \<open>The three widths behind one interface\<close>

text \<open>\<open>linked nxt cs\<close>: following \<open>nxt\<close> from the head of \<open>cs\<close> visits exactly \<open>cs\<close> and ends.\<close>

fun linked :: "(u32 \<Rightarrow> (vfs_error, u32 option) res) \<Rightarrow> u32 list \<Rightarrow> bool" where
  "linked nxt [] \<longleftrightarrow> False"
| "linked nxt [c] \<longleftrightarrow> 2 \<le> c \<and> nxt c = Ok None"
| "linked nxt (c # d # cs) \<longleftrightarrow> 2 \<le> c \<and> nxt c = Ok (Some d) \<and> linked nxt (d # cs)"

text \<open>The same for a table given by its entries: \<open>val\<close> is the value bits of an entry.\<close>

fun chained :: "(u32 \<Rightarrow> u32) \<Rightarrow> u32 \<Rightarrow> u32 \<Rightarrow> u32 list \<Rightarrow> u32 list \<Rightarrow> bool" where
  "chained val eoc bad es [] \<longleftrightarrow> False"
| "chained val eoc bad es [c] \<longleftrightarrow> 2 \<le> c \<and> unat c < length es \<and> val (es ! unat c) \<ge> eoc"
| "chained val eoc bad es (c # d # cs) \<longleftrightarrow> 2 \<le> c \<and> unat c < length es \<and> val (es ! unat c) = d \<and> d < eoc \<and> d \<noteq> bad \<and>
     chained val eoc bad es (d # cs)"

locale fat_table =
  fixes read_entry :: "reader \<Rightarrow> u64 \<Rightarrow> u64 \<Rightarrow> u32 \<Rightarrow> (vfs_error, u32 option) res"
    and pack :: "u32 list \<Rightarrow> byte list" and val :: "u32 \<Rightarrow> u32" and eoc bad :: u32
  assumes lookup: "table_at rd start (pack es) \<Longrightarrow> unat c < length es \<Longrightarrow> length es \<le> 2 ^ 28 \<Longrightarrow>
    read_entry rd start 512 c = Ok (classify eoc bad (val (es ! unat c)))"
begin

lemma chained_linked:
  assumes "table_at rd start (pack es)" and "length es \<le> 2 ^ 28" and "chained val eoc bad es cs"
  shows "linked (read_entry rd start 512) cs"
  using assms(3)
proof (induction cs rule: induct_list012)
  case (2 c)
  then show ?case using lookup [OF assms(1) _ assms(2)] by (simp add: classify_def)
next
  case (3 c d cs)
  have "2 \<le> d" using "3.prems" by (cases cs) auto
  then have "d \<noteq> FREE_CLUSTER" by (auto simp: FREE_CLUSTER_def)
  then show ?case using 3 lookup [OF assms(1) _ assms(2)] by (simp add: classify_def not_le)
qed simp

end

interpretation fat12: fat_table read_fat12_entry pack12 "\<lambda>e. e AND 0xFFF" EOC_FAT12 BAD_FAT12
  by unfold_locales (rule fat12_lookup)

interpretation fat16: fat_table read_fat16_entry pack16 "\<lambda>e. e AND 0xFFFF" EOC_FAT16 BAD_FAT16
  by unfold_locales (rule fat16_lookup)

interpretation fat32: fat_table read_fat32_entry pack32 "\<lambda>e. e AND 0x0FFFFFFF" EOC_FAT32 BAD_FAT32
  by unfold_locales (rule fat32_lookup)

fun fat_pack :: "fat_type \<Rightarrow> u32 list \<Rightarrow> byte list" where
  "fat_pack Fat12 = pack12" | "fat_pack Fat16 = pack16" | "fat_pack Fat32 = pack32"

fun fat_val :: "fat_type \<Rightarrow> u32 \<Rightarrow> u32" where
  "fat_val Fat12 e = e AND 0xFFF" | "fat_val Fat16 e = e AND 0xFFFF" | "fat_val Fat32 e = e AND 0x0FFFFFFF"

fun fat_eoc :: "fat_type \<Rightarrow> u32" where
  "fat_eoc Fat12 = EOC_FAT12" | "fat_eoc Fat16 = EOC_FAT16" | "fat_eoc Fat32 = EOC_FAT32"

fun fat_bad :: "fat_type \<Rightarrow> u32" where
  "fat_bad Fat12 = BAD_FAT12" | "fat_bad Fat16 = BAD_FAT16" | "fat_bad Fat32 = BAD_FAT32"

text \<open>A file allocation table on the device, for a volume with sectors of 512 bytes.\<close>

definition has_table :: "reader \<Rightarrow> bios_parameter_block \<Rightarrow> fat_type \<Rightarrow> u32 list \<Rightarrow> bool" where
  "has_table rd b ft es \<longleftrightarrow> bp_bytes_per_sector b = 512 \<and> length es \<le> 2 ^ 28 \<and>
     table_at rd (ucast (bp_reserved_sector_count b)) (fat_pack ft es)"

abbreviation chain_of :: "fat_type \<Rightarrow> u32 list \<Rightarrow> u32 list \<Rightarrow> bool" where
  "chain_of ft \<equiv> chained (fat_val ft) (fat_eoc ft) (fat_bad ft)"

lemma has_table_linked:
  assumes "has_table rd b ft es" and "chain_of ft es cs"
  shows "linked (read_fat_entry rd b ft) cs"
proof -
  have e: "(\<lambda>c. read_fat_entry rd b ft c) = (case ft of Fat12 \<Rightarrow> read_fat12_entry | Fat16 \<Rightarrow> read_fat16_entry | Fat32 \<Rightarrow> read_fat32_entry)
      rd (ucast (bp_reserved_sector_count b)) 512"
    using assms(1) by (auto simp: has_table_def read_fat_entry_def Let_def split: fat_type.splits)
  have "fat_val Fat12 = (\<lambda>e. e AND 0xFFF)" "fat_val Fat16 = (\<lambda>e. e AND 0xFFFF)" "fat_val Fat32 = (\<lambda>e. e AND 0x0FFFFFFF)"
    by (simp_all add: fun_eq_iff)
  then show ?thesis unfolding e using assms fat12.chained_linked fat16.chained_linked fat32.chained_linked
    by (cases ft) (auto simp: has_table_def)
qed

lemma has_table_lookup:
  assumes "has_table rd b ft es" and "unat c < length es"
  shows "read_fat_entry rd b ft c = Ok (classify (fat_eoc ft) (fat_bad ft) (fat_val ft (es ! unat c)))"
  using assms fat12.lookup fat16.lookup fat32.lookup
  by (cases ft) (auto simp: has_table_def read_fat_entry_def Let_def)


text \<open>C30. A file allocation table written in any of the three widths - 12-bit entries packed in pairs of
  three bytes and crossing sectors, 16-bit and 28-bit entries - reads back entry by entry: the reserved
  bits are ignored, and end-of-chain, free and bad entries read as the end of the chain.\<close>

theorem fat_entry_lookup:
  assumes "has_table rd b ft es" and "unat c < length es"
  shows "read_fat_entry rd b ft c = Ok (classify (fat_eoc ft) (fat_bad ft) (fat_val ft (es ! unat c)))"
  using assms by (rule has_table_lookup)

text \<open>A table on a device, for the examples: the first sector of the device holds it.\<close>

definition table_device :: "byte list \<Rightarrow> reader" where
  "table_device bs s buf = (if s = 1 then Some (bs @ replicate (512 - length bs) 0) else None)"

definition example_bpb :: bios_parameter_block where
  "example_bpb = \<lparr>bp_bytes_per_sector = 512, bp_sectors_per_cluster = 1, bp_reserved_sector_count = 1, bp_num_fats = 1,
     bp_root_entry_count = 16, bp_total_sectors_16 = 64, bp_media_type = 0xF8, bp_fat_size_16 = 1, bp_sectors_per_track = 0,
     bp_num_heads = 0, bp_hidden_sectors = 0, bp_total_sectors_32 = 0, bp_fat_size_32 = 0, bp_root_cluster = 0,
     bp_fs_info_sector = 0, bp_backup_boot_sector = 0, bp_volume_label = [], bp_fs_type = []\<rparr>"

lemma table_device_has:
  assumes "length (fat_pack ft es) \<le> 512" and "length es \<le> 2 ^ 28"
  shows "has_table (table_device (fat_pack ft es)) example_bpb ft es"
proof -
  have "table_at (table_device bs) 1 bs" if "length bs \<le> 512" for bs
    using that by (auto simp: table_at_def table_device_def nth_append)
  then show ?thesis using assms by (simp add: has_table_def example_bpb_def)
qed

theorem fat_entry_lookup_witness:
  "read_fat_entry (table_device (pack12 [0xFF8, 0xFFF, 3, 5, 0, 0xFF8])) example_bpb Fat12 3 = Ok (Some 5)"
  using fat_entry_lookup [OF table_device_has [of Fat12 "[0xFF8, 0xFFF, 3, 5, 0, 0xFF8]"], of 3]
  by (simp add: classify_def EOC_FAT12_def BAD_FAT12_def FREE_CLUSTER_def)

section \<open>Building a chain\<close>

lemma unat_ucast_u64: "unat (ucast k :: u64) = unat k" for k :: u32
proof -
  have "unat k < 2 ^ 64" using unsigned_less [of k, where 'a = nat] by simp
  then show ?thesis unfolding unsigned_ucast_eq by (simp add: take_bit_nat_eq_self)
qed

declare chain_loop.simps [simp del]

lemma chain_loop_bound: "chain_loop nxt ft acc c = Ok cs \<Longrightarrow> length acc \<le> 1000000 \<Longrightarrow> length cs \<le> 1000001"
proof (induction nxt ft acc c rule: chain_loop.induct)
  case (1 nxt ft acc c)
  then show ?case by (auto simp: chain_loop.simps [of nxt ft acc c] split: option.splits if_splits)
qed

lemma chain_loop_linked:
  "linked nxt (c # cs) \<Longrightarrow> \<forall>d \<in> set cs. \<not> is_end_of_chain ft d \<Longrightarrow> length acc + length cs \<le> 1000000 \<Longrightarrow>
   chain_loop nxt ft acc c = Ok (acc @ cs)"
proof (induction cs arbitrary: c acc)
  case Nil
  then show ?case by (subst chain_loop.simps) simp
next
  case (Cons d cs)
  have "2 \<le> d" using Cons.prems(1) by (cases cs) auto
  then have "\<not> d < 2" by (simp add: not_less)
  then show ?case using Cons.IH [of d "acc @ [d]"] Cons.prems by (subst chain_loop.simps) simp
qed

lemma chained_below_eoc: "chained val eoc bad es (c # cs) \<Longrightarrow> \<forall>d \<in> set cs. d < eoc"
  by (induction cs arbitrary: c) auto

lemma linked_ge_2: "linked nxt cs \<Longrightarrow> \<forall>c \<in> set cs. 2 \<le> c"
  by (induction nxt cs rule: linked.induct) auto

text \<open>C40. \<open>ClusterChain::build\<close> returns on every device, also when the table has a cycle, with at most
  1000001 clusters; and for a chain of the table of at most a million clusters it returns exactly that
  chain, so \<open>cluster_at_offset\<close> finds the cluster of every byte of the file.\<close>

theorem chain_build_bounded_and_exact:
  assumes t: "has_table rd b ft es" and ch: "chain_of ft es cs" and len: "length cs \<le> 1000000"
  shows "(\<exists>chain. chain_build rd b ft (hd cs) = Ok chain \<and> cc_clusters chain = cs \<and>
        (\<forall>off. cc_cluster_size chain \<noteq> 0 \<longrightarrow> unat off div unat (cc_cluster_size chain) < length cs \<longrightarrow>
           cluster_at_offset chain off = Some (cs ! (unat off div unat (cc_cluster_size chain))))) \<and>
    (\<forall>rd' b' ft' c chain. chain_build rd' b' ft' c = Ok chain \<longrightarrow> length (cc_clusters chain) \<le> 1000001)"
proof (intro conjI allI impI)
  fix rd' b' ft' c chain
  assume "chain_build rd' b' ft' c = Ok chain"
  then show "length (cc_clusters chain) \<le> 1000001"
    by (auto simp: chain_build_def Let_def dest!: chain_loop_bound split: if_splits)
next
  obtain c ds where cs: "cs = c # ds" using ch by (cases cs) auto
  have l: "linked (read_fat_entry rd b ft) (c # ds)" using has_table_linked [OF t ch] cs by simp
  then have "\<not> c < 2" using linked_ge_2 [OF l] by (simp add: not_less)
  moreover have "\<forall>d \<in> set ds. \<not> is_end_of_chain ft d"
    using chained_below_eoc [OF ch [unfolded cs]] by (cases ft) (auto simp: is_end_of_chain_def not_le)
  ultimately have "chain_build rd b ft c = Ok \<lparr>cc_start = c, cc_clusters = c # ds,
      cc_cluster_size = ucast (bp_bytes_per_sector b) * ucast (bp_sectors_per_cluster b)\<rparr>"
    using chain_loop_linked [OF l, of ft "[c]"] len cs by (simp add: chain_build_def Let_def)
  moreover have "unat (off div ucast k) = unat off div unat k" for off :: u64 and k :: u32
    by (simp add: unat_div_distrib unat_ucast_u64)
  ultimately show "\<exists>chain. chain_build rd b ft (hd cs) = Ok chain \<and> cc_clusters chain = cs \<and>
        (\<forall>off. cc_cluster_size chain \<noteq> 0 \<longrightarrow> unat off div unat (cc_cluster_size chain) < length cs \<longrightarrow>
           cluster_at_offset chain off = Some (cs ! (unat off div unat (cc_cluster_size chain))))"
    using cs by (simp add: cluster_at_offset_def Let_def)
qed

theorem chain_build_bounded_and_exact_witness:
  "\<exists>chain. chain_build (table_device (pack16 [0xFFF8, 0xFFFF, 4, 0, 5, 0xFFFF])) example_bpb Fat16 2 = Ok chain \<and> cc_clusters chain = [2, 4, 5]"
  using chain_build_bounded_and_exact [OF table_device_has [of Fat16 "[0xFFF8, 0xFFFF, 4, 0, 5, 0xFFFF]"], of "[2, 4, 5]"]
  by (auto simp: pack16_def EOC_FAT16_def BAD_FAT16_def)

end
