(* ===== verification/Fat_Fs.thy ===== *)
theory Fat_Fs
  imports Fat_Table
begin

text \<open>
  The FAT driver: directory entries (\<^verbatim>\<open>src/crates/storage/fat/src/dir.rs\<close>), the filesystem and its
  file handles (\<^verbatim>\<open>src/crates/storage/fat/src/lib.rs\<close>), and the handle type of
  \<^verbatim>\<open>src/crates/storage/fat/src/file.rs\<close>, which the driver does not use.

  Strings are their UTF-8 bytes. The driver never writes: its operations are functions of the reader
  \<open>rd\<close>. The loops that follow a cluster chain of a directory have no bound; they are partial functions,
  and a loop that does not end has the value \<open>None\<close>. The lock is not modelled.
\<close>

section \<open>Directory entries\<close>

definition READ_ONLY :: byte where "READ_ONLY = 0x01"
definition HIDDEN :: byte where "HIDDEN = 0x02"
definition SYSTEM :: byte where "SYSTEM = 0x04"
definition VOLUME_ID :: byte where "VOLUME_ID = 0x08"
definition DIRECTORY :: byte where "DIRECTORY = 0x10"
definition ARCHIVE :: byte where "ARCHIVE = 0x20"
definition LONG_NAME :: byte where "LONG_NAME = READ_ONLY OR HIDDEN OR SYSTEM OR VOLUME_ID"

record fat_dir_entry =
  fd_name :: "byte list"
  fd_attributes :: byte
  fd_nt_reserved :: byte
  fd_creation_time_tenths :: byte
  fd_creation_time :: u16
  fd_creation_date :: u16
  fd_last_access_date :: u16
  fd_first_cluster_high :: u16
  fd_modification_time :: u16
  fd_modification_date :: u16
  fd_first_cluster_low :: u16
  fd_file_size :: u32

definition entry_parse :: "byte list \<Rightarrow> fat_dir_entry option" where
  "entry_parse d =
     (if length d < 32 then None
      else if d ! 0 = 0x00 then None
      else if d ! 0 = 0xE5 then None
      else Some \<lparr>fd_name = take 11 d, fd_attributes = d ! 11, fd_nt_reserved = d ! 12, fd_creation_time_tenths = d ! 13,
        fd_creation_time = le16 d 14, fd_creation_date = le16 d 16, fd_last_access_date = le16 d 18,
        fd_first_cluster_high = le16 d 20, fd_modification_time = le16 d 22, fd_modification_date = le16 d 24,
        fd_first_cluster_low = le16 d 26, fd_file_size = le32 d 28\<rparr>)"

definition root_dir :: "bios_parameter_block \<Rightarrow> fat_type \<Rightarrow> fat_dir_entry" where
  "root_dir b ft =
     \<lparr>fd_name = replicate 11 0x20, fd_attributes = DIRECTORY, fd_nt_reserved = 0, fd_creation_time_tenths = 0,
      fd_creation_time = 0, fd_creation_date = 0, fd_last_access_date = 0,
      fd_first_cluster_high = (if ft = Fat32 then ucast (drop_bit 16 (bp_root_cluster b)) else 0),
      fd_modification_time = 0, fd_modification_date = 0,
      fd_first_cluster_low = (if ft = Fat32 then ucast (bp_root_cluster b) else 0), fd_file_size = 0\<rparr>"

definition is_directory :: "fat_dir_entry \<Rightarrow> bool" where
  "is_directory e \<longleftrightarrow> fd_attributes e AND DIRECTORY \<noteq> 0"

definition is_volume_label :: "fat_dir_entry \<Rightarrow> bool" where
  "is_volume_label e \<longleftrightarrow> fd_attributes e AND VOLUME_ID \<noteq> 0"

definition is_long_name :: "fat_dir_entry \<Rightarrow> bool" where
  "is_long_name e \<longleftrightarrow> fd_attributes e AND LONG_NAME = LONG_NAME"

definition is_hidden :: "fat_dir_entry \<Rightarrow> bool" where
  "is_hidden e \<longleftrightarrow> fd_attributes e AND HIDDEN \<noteq> 0"

definition first_cluster :: "fat_dir_entry \<Rightarrow> u32" where
  "first_cluster e = push_bit 16 (ucast (fd_first_cluster_high e)) OR ucast (fd_first_cluster_low e)"

text \<open>\<open>String::push(b as char)\<close>: the UTF-8 encoding of the Latin-1 character.\<close>

definition push_latin1 :: "byte \<Rightarrow> byte list" where
  "push_latin1 b = (if b < 0x80 then [b] else [0xC0 OR drop_bit 6 b, 0x80 OR (b AND 0x3F)])"

text \<open>\<open>rposition(|c| c != b' ').map(|i| i + 1).unwrap_or(0)\<close>\<close>

definition trimmed_len :: "byte list \<Rightarrow> nat" where
  "trimmed_len bs = length (dropWhile (\<lambda>c. c = 0x20) (rev bs))"

definition short_name :: "fat_dir_entry \<Rightarrow> byte list" where
  "short_name e =
     (let name_part = take 8 (fd_name e);
          ext_part = take 3 (drop 8 (fd_name e));
          name_end = trimmed_len name_part;
          ext_end = trimmed_len ext_part;
          name_str = (if name_end > 0
            then push_latin1 (if name_part ! 0 = 0x05 then 0xE5 else name_part ! 0) @ concat (map push_latin1 (drop 1 (take name_end name_part)))
            else []) in
      name_str @ (if ext_end > 0 then 0x2E # concat (map push_latin1 (take ext_end ext_part)) else []))"

definition to_ascii_lower :: "byte \<Rightarrow> byte" where
  "to_ascii_lower b = (if 0x41 \<le> b \<and> b \<le> 0x5A then b + 0x20 else b)"

definition eq_ignore_ascii_case :: "byte list \<Rightarrow> byte list \<Rightarrow> bool" where
  "eq_ignore_ascii_case a b \<longleftrightarrow> map to_ascii_lower a = map to_ascii_lower b"

definition matches_name :: "byte list \<Rightarrow> fat_dir_entry \<Rightarrow> bool" where
  "matches_name name e \<longleftrightarrow> \<not> (is_volume_label e \<or> is_long_name e) \<and> eq_ignore_ascii_case (short_name e) name"

definition entry_file_type :: "fat_dir_entry \<Rightarrow> file_type" where
  "entry_file_type e = (if is_directory e then Directory else Regular)"

definition to_vfs_entry :: "fat_dir_entry \<Rightarrow> vfs_dir_entry option" where
  "to_vfs_entry e =
     (if is_volume_label e \<or> is_long_name e then None
      else
        let name = short_name e in
        if name = [0x2E] \<or> name = [0x2E, 0x2E] then None
        else Some \<lparr>vd_name = name, vd_file_type = entry_file_type e, vd_size = ucast (fd_file_size e),
          vd_inode = ucast (first_cluster e)\<rparr>)"

text \<open>The items of \<open>DirEntryIterator\<close> from an offset on.\<close>

function dir_iter :: "byte list \<Rightarrow> nat \<Rightarrow> fat_dir_entry list" where
  "dir_iter data off =
     (if off + 32 \<le> length data
      then
        let entry_data = take 32 (drop off data) in
        if entry_data ! 0 = 0x00 then []
        else case entry_parse entry_data of
            Some e \<Rightarrow> (if \<not> is_long_name e then e # dir_iter data (off + 32) else dir_iter data (off + 32))
          | None \<Rightarrow> dir_iter data (off + 32)
      else [])"
  by pat_completeness auto
termination by (relation "measure (\<lambda>(data, off). length data - off)") auto

section \<open>The filesystem\<close>

record fat_inner =
  fi_bpb :: bios_parameter_block
  fi_fat_type :: fat_type
  fi_first_data_sector :: u64
  fi_sectors_per_cluster :: u32
  fi_sector_size :: u32

definition cluster_to_sector :: "fat_inner \<Rightarrow> u32 \<Rightarrow> u64" where
  "cluster_to_sector f cluster = fi_first_data_sector f + (ucast cluster - 2) * ucast (fi_sectors_per_cluster f)"

definition read_cluster :: "reader \<Rightarrow> fat_inner \<Rightarrow> u32 \<Rightarrow> byte list \<Rightarrow> (vfs_error, byte list) res" where
  "read_cluster rd f cluster buffer =
     (let sector = cluster_to_sector f cluster in
      for_res (\<lambda>i buffer.
          let off = i * unat (fi_sector_size f); fin = off + unat (fi_sector_size f) in
          if fin > length buffer then Ok buffer
          else
            rbind (ok_or VfsIoError (rd (sector + of_nat i) (take (fin - off) (drop off buffer)))) (\<lambda>bytes.
            Ok (copy_into buffer off bytes)))
        [0..<unat (fi_sectors_per_cluster f)] buffer)"

definition next_cluster :: "reader \<Rightarrow> fat_inner \<Rightarrow> u32 \<Rightarrow> (vfs_error, u32 option) res" where
  "next_cluster rd f cluster = read_fat_entry rd (fi_bpb f) (fi_fat_type f) cluster"

definition cluster_size :: "fat_inner \<Rightarrow> u32" where
  "cluster_size f = fi_sectors_per_cluster f * fi_sector_size f"

text \<open>The \<open>while\<close> loop of \<open>find_in_directory\<close>.\<close>

partial_function (option) find_loop ::
  "reader \<Rightarrow> fat_inner \<Rightarrow> byte list \<Rightarrow> byte list \<Rightarrow> u32 \<Rightarrow> (vfs_error, fat_dir_entry) res option" where
  "find_loop rd f name buffer cluster =
     (if cluster \<ge> 2
      then case read_cluster rd f cluster buffer of
          Ok buffer \<Rightarrow>
            (case find (matches_name name) (dir_iter buffer 0) of
               Some e \<Rightarrow> Some (Ok e)
             | None \<Rightarrow>
                 (case next_cluster rd f cluster of
                    Ok (Some next) \<Rightarrow> find_loop rd f name buffer next
                  | Ok None \<Rightarrow> Some (Err NotFound)
                  | Err e \<Rightarrow> Some (Err e)
                  | Panic \<Rightarrow> Some Panic))
        | Err e \<Rightarrow> Some (Err e)
        | Panic \<Rightarrow> Some Panic
      else Some (Err NotFound))"

definition root_start :: "bios_parameter_block \<Rightarrow> u64" where
  "root_start b = ucast (bp_reserved_sector_count b) + ucast (bp_num_fats b) * ucast (bp_fat_size_16 b)"

fun root_find_loop :: "reader \<Rightarrow> u64 \<Rightarrow> byte list \<Rightarrow> nat list \<Rightarrow> byte list \<Rightarrow> (vfs_error, fat_dir_entry) res" where
  "root_find_loop rd start name [] sector_buf = Err NotFound"
| "root_find_loop rd start name (i # is) sector_buf =
     (case rd (start + of_nat i) sector_buf of
        None \<Rightarrow> Err VfsIoError
      | Some sector_buf \<Rightarrow>
          (case find (matches_name name) (dir_iter sector_buf 0) of
             Some e \<Rightarrow> Ok e
           | None \<Rightarrow> root_find_loop rd start name is sector_buf))"

definition find_in_root_dir :: "reader \<Rightarrow> fat_inner \<Rightarrow> byte list \<Rightarrow> (vfs_error, fat_dir_entry) res" where
  "find_in_root_dir rd f name =
     root_find_loop rd (root_start (fi_bpb f)) name [0..<unat (root_dir_sectors (fi_bpb f))] (replicate 512 0)"

definition find_in_directory :: "reader \<Rightarrow> fat_inner \<Rightarrow> fat_dir_entry \<Rightarrow> byte list \<Rightarrow> (vfs_error, fat_dir_entry) res option" where
  "find_in_directory rd f dir name =
     (let cluster = first_cluster dir in
      if cluster = 0 \<and> fi_fat_type f \<noteq> Fat32 then Some (find_in_root_dir rd f name)
      else find_loop rd f name (replicate (unat (cluster_size f)) 0) cluster)"

text \<open>\<open>path.split('/').filter(|s| !s.is_empty())\<close>\<close>

fun split_slash :: "byte list \<Rightarrow> byte list list" where
  "split_slash [] = [[]]"
| "split_slash (b # bs) =
     (if b = 0x2F then [] # split_slash bs
      else case split_slash bs of [] \<Rightarrow> [[b]] | c # cs \<Rightarrow> (b # c) # cs)"

fun find_path :: "reader \<Rightarrow> fat_inner \<Rightarrow> fat_dir_entry \<Rightarrow> byte list list \<Rightarrow> (vfs_error, fat_dir_entry) res option" where
  "find_path rd f current [] = Some (Ok current)"
| "find_path rd f current (component # components) =
     (if \<not> is_directory current then Some (Err NotADirectory)
      else case find_in_directory rd f current component of
          None \<Rightarrow> None
        | Some (Ok e) \<Rightarrow> find_path rd f e components
        | Some (Err e) \<Rightarrow> Some (Err e)
        | Some Panic \<Rightarrow> Some Panic)"

definition find_entry :: "reader \<Rightarrow> fat_inner \<Rightarrow> byte list \<Rightarrow> (vfs_error, fat_dir_entry) res option" where
  "find_entry rd f path =
     (let path = dropWhile (\<lambda>b. b = 0x2F) path in
      if path = [] then Some (Ok (root_dir (fi_bpb f) (fi_fat_type f)))
      else find_path rd f (root_dir (fi_bpb f) (fi_fat_type f)) (filter (\<lambda>s. s \<noteq> []) (split_slash path)))"

partial_function (option) dir_loop ::
  "reader \<Rightarrow> fat_inner \<Rightarrow> vfs_dir_entry list \<Rightarrow> byte list \<Rightarrow> u32 \<Rightarrow> (vfs_error, vfs_dir_entry list) res option" where
  "dir_loop rd f entries buffer cluster =
     (if cluster \<ge> 2
      then case read_cluster rd f cluster buffer of
          Ok buffer \<Rightarrow>
            (case next_cluster rd f cluster of
               Ok (Some next) \<Rightarrow> dir_loop rd f (entries @ List.map_filter to_vfs_entry (dir_iter buffer 0)) buffer next
             | Ok None \<Rightarrow> Some (Ok (entries @ List.map_filter to_vfs_entry (dir_iter buffer 0)))
             | Err e \<Rightarrow> Some (Err e)
             | Panic \<Rightarrow> Some Panic)
        | Err e \<Rightarrow> Some (Err e)
        | Panic \<Rightarrow> Some Panic
      else Some (Ok entries))"

fun root_dir_loop :: "reader \<Rightarrow> u64 \<Rightarrow> nat list \<Rightarrow> vfs_dir_entry list \<Rightarrow> byte list \<Rightarrow> (vfs_error, vfs_dir_entry list) res" where
  "root_dir_loop rd start [] entries sector_buf = Ok entries"
| "root_dir_loop rd start (i # is) entries sector_buf =
     (case rd (start + of_nat i) sector_buf of
        None \<Rightarrow> Err VfsIoError
      | Some sector_buf \<Rightarrow>
          root_dir_loop rd start is (entries @ List.map_filter to_vfs_entry (dir_iter sector_buf 0)) sector_buf)"

definition read_root_dir_entries :: "reader \<Rightarrow> fat_inner \<Rightarrow> (vfs_error, vfs_dir_entry list) res" where
  "read_root_dir_entries rd f =
     root_dir_loop rd (root_start (fi_bpb f)) [0..<unat (root_dir_sectors (fi_bpb f))] [] (replicate 512 0)"

definition read_directory :: "reader \<Rightarrow> fat_inner \<Rightarrow> fat_dir_entry \<Rightarrow> (vfs_error, vfs_dir_entry list) res option" where
  "read_directory rd f dir =
     (let cluster = first_cluster dir in
      if cluster = 0 \<and> fi_fat_type f \<noteq> Fat32 then Some (read_root_dir_entries rd f)
      else dir_loop rd f [] (replicate (unat (cluster_size f)) 0) cluster)"

text \<open>\<open>read_file_data\<close>: the walk to the cluster of the position, then the copying loop. The result is the
  number of bytes read and the content of the caller's buffer.\<close>

fun skip_loop :: "reader \<Rightarrow> fat_inner \<Rightarrow> nat \<Rightarrow> u32 \<Rightarrow> (vfs_error, u32 option) res" where
  "skip_loop rd f 0 current_cluster = Ok (Some current_cluster)"
| "skip_loop rd f (Suc n) current_cluster =
     rbind (next_cluster rd f current_cluster) (\<lambda>entry.
     case entry of Some next \<Rightarrow> skip_loop rd f n next | None \<Rightarrow> Ok None)"

partial_function (option) read_loop ::
  "reader \<Rightarrow> fat_inner \<Rightarrow> nat \<Rightarrow> byte list \<Rightarrow> nat \<Rightarrow> nat \<Rightarrow> byte list \<Rightarrow> u32 \<Rightarrow> (vfs_error, nat \<times> byte list) res option" where
  "read_loop rd f bytes_to_read buffer bytes_read off cluster_buf current_cluster =
     (if bytes_read < bytes_to_read \<and> current_cluster \<ge> 2
      then case read_cluster rd f current_cluster cluster_buf of
          Ok cluster_buf \<Rightarrow>
            (let available = unat (cluster_size f) - off;
                 to_copy = min available (bytes_to_read - bytes_read);
                 buffer = copy_into buffer bytes_read (take to_copy (drop off cluster_buf));
                 bytes_read = bytes_read + to_copy in
             case next_cluster rd f current_cluster of
               Ok (Some next) \<Rightarrow> read_loop rd f bytes_to_read buffer bytes_read 0 cluster_buf next
             | Ok None \<Rightarrow> Some (Ok (bytes_read, buffer))
             | Err e \<Rightarrow> Some (Err e)
             | Panic \<Rightarrow> Some Panic)
        | Err e \<Rightarrow> Some (Err e)
        | Panic \<Rightarrow> Some Panic
      else Some (Ok (bytes_read, buffer)))"

definition read_file_data ::
  "reader \<Rightarrow> fat_inner \<Rightarrow> u32 \<Rightarrow> u64 \<Rightarrow> u64 \<Rightarrow> byte list \<Rightarrow> (vfs_error, nat \<times> byte list) res option" where
  "read_file_data rd f start_cluster file_size position buffer =
     (if position \<ge> file_size then Some (Ok (0, buffer))
      else
        let cs = unat (cluster_size f);
            bytes_to_read = min (length buffer) (unat (file_size - position)) in
        if cs = 0 then Some Panic
        else case skip_loop rd f (unat position div cs) start_cluster of
            Ok (Some c) \<Rightarrow> read_loop rd f bytes_to_read buffer 0 (unat position mod cs) (replicate cs 0) c
          | Ok None \<Rightarrow> Some (Ok (0, buffer))
          | Err e \<Rightarrow> Some (Err e)
          | Panic \<Rightarrow> Some Panic)"

definition FatFilesystem_new :: "reader \<Rightarrow> (vfs_error, fat_inner) res" where
  "FatFilesystem_new rd =
     (case rd 0 (replicate 512 0) of
        None \<Rightarrow> Err VfsIoError
      | Some boot_sector \<Rightarrow>
          rbind (map_err (\<lambda>_. InvalidArgument) (bpb_parse boot_sector)) (\<lambda>b.
          let root_dir_secs = (if bp_root_entry_count b > 0 then root_dir_sectors b else 0);
              fat_size = (if bp_fat_size_16 b \<noteq> 0 then ucast (bp_fat_size_16 b) else bp_fat_size_32 b) in
          Ok \<lparr>fi_bpb = b, fi_fat_type = fat_type_of b,
            fi_first_data_sector = ucast (bp_reserved_sector_count b) + ucast (bp_num_fats b) * ucast fat_size + ucast root_dir_secs,
            fi_sectors_per_cluster = ucast (bp_sectors_per_cluster b), fi_sector_size = ucast (bp_bytes_per_sector b)\<rparr>))"

record fat_file_handle =
  fh_start_cluster :: u32
  fh_file_size :: u64
  fh_position :: u64
  fh_cluster_size :: u32
  fh_can_read :: bool
  fh_can_write :: bool
  fh_attributes :: byte

definition FatFileHandle_new :: "fat_dir_entry \<Rightarrow> u32 \<Rightarrow> bool \<Rightarrow> bool \<Rightarrow> fat_file_handle" where
  "FatFileHandle_new e cs can_read can_write =
     \<lparr>fh_start_cluster = first_cluster e, fh_file_size = ucast (fd_file_size e), fh_position = 0, fh_cluster_size = cs,
      fh_can_read = can_read, fh_can_write = can_write, fh_attributes = fd_attributes e\<rparr>"

text \<open>\<open>?\<close> on an operation that may not return.\<close>

definition obind :: "('e, 'a) res option \<Rightarrow> ('a \<Rightarrow> ('e, 'b) res option) \<Rightarrow> ('e, 'b) res option" where
  "obind m k = (case m of None \<Rightarrow> None | Some (Ok a) \<Rightarrow> k a | Some (Err e) \<Rightarrow> Some (Err e) | Some Panic \<Rightarrow> Some Panic)"

definition fat_open :: "reader \<Rightarrow> fat_inner \<Rightarrow> byte list \<Rightarrow> file_mode \<Rightarrow> (vfs_error, fat_file_handle) res option" where
  "fat_open rd f path mode =
     obind (find_entry rd f path) (\<lambda>e.
     if is_directory e then Some (Err IsADirectory)
     else if fm_write mode then Some (Err ReadOnly)
     else Some (Ok (FatFileHandle_new e (cluster_size f) (fm_read mode) (fm_write mode))))"

definition fat_stat :: "reader \<Rightarrow> fat_inner \<Rightarrow> byte list \<Rightarrow> (vfs_error, file_stat) res option" where
  "fat_stat rd f path =
     obind (find_entry rd f path) (\<lambda>e.
     Some (Ok \<lparr>st_type = (if is_directory e then Directory else Regular), st_size = ucast (fd_file_size e), st_nlink = 1,
       st_inode = ucast (first_cluster e), st_dev = 0, st_mode = (if fd_attributes e AND 0x01 \<noteq> 0 then 0x124 else 0x1A4),
       st_uid = 0, st_gid = 0, st_blksize = cluster_size f, st_blocks = (ucast (fd_file_size e) + 511) div 512,
       st_atime = 0, st_mtime = 0, st_ctime = 0\<rparr>))"

definition fat_mkdir :: "byte list \<Rightarrow> (vfs_error, unit) res" where "fat_mkdir path = Err ReadOnly"

definition fat_unlink :: "byte list \<Rightarrow> (vfs_error, unit) res" where "fat_unlink path = Err ReadOnly"

definition fat_rmdir :: "byte list \<Rightarrow> (vfs_error, unit) res" where "fat_rmdir path = Err ReadOnly"

definition fat_readdir :: "reader \<Rightarrow> fat_inner \<Rightarrow> byte list \<Rightarrow> (vfs_error, vfs_dir_entry list) res option" where
  "fat_readdir rd f path =
     obind (find_entry rd f path) (\<lambda>e.
     if \<not> is_directory e then Some (Err NotADirectory) else read_directory rd f e)"

definition fat_rename :: "byte list \<Rightarrow> byte list \<Rightarrow> (vfs_error, unit) res" where "fat_rename old_path new_path = Err ReadOnly"

definition fat_sync :: "(vfs_error, unit) res" where "fat_sync = Ok ()"

definition fat_statfs :: "fat_inner \<Rightarrow> fs_stats" where
  "fat_statfs f =
     (let b = fi_bpb f;
          total_sectors = (if bp_total_sectors_16 b \<noteq> 0 then ucast (bp_total_sectors_16 b) else ucast (bp_total_sectors_32 b)) :: u64;
          fat_size = (if bp_fat_size_16 b \<noteq> 0 then ucast (bp_fat_size_16 b) else ucast (bp_fat_size_32 b));
          data_sectors = total_sectors - ucast (bp_reserved_sector_count b) - ucast (bp_num_fats b) * fat_size;
          total_clusters = data_sectors div ucast (fi_sectors_per_cluster f) in
      \<lparr>fst_block_size = fi_sectors_per_cluster f * fi_sector_size f, fst_total_blocks = total_clusters, fst_free_blocks = 0,
       fst_total_inodes = 0, fst_free_inodes = 0, fst_max_name_len = 255\<rparr>)"

definition fat_chmod :: "byte list \<Rightarrow> u32 \<Rightarrow> (vfs_error, unit) res" where "fat_chmod path mode = Err NotSupported"

definition fat_chown :: "byte list \<Rightarrow> u32 \<Rightarrow> u32 \<Rightarrow> (vfs_error, unit) res" where "fat_chown path uid gid = Err NotSupported"

section \<open>File handles\<close>

definition fat_file_read ::
  "reader \<Rightarrow> fat_inner \<Rightarrow> byte list \<Rightarrow> fat_file_handle \<Rightarrow> ((vfs_error, nat \<times> byte list) res \<times> fat_file_handle) option" where
  "fat_file_read rd f buffer h =
     (if \<not> fh_can_read h then Some (Err PermissionDenied, h)
      else if fh_position h \<ge> fh_file_size h then Some (Ok (0, buffer), h)
      else
        map_option (\<lambda>r. case r of
            Ok (bytes_read, buffer) \<Rightarrow> (Ok (bytes_read, buffer), h\<lparr>fh_position := fh_position h + of_nat bytes_read\<rparr>)
          | e \<Rightarrow> (e, h))
        (read_file_data rd f (fh_start_cluster h) (fh_file_size h) (fh_position h) buffer))"

definition fat_file_write :: "byte list \<Rightarrow> (fat_file_handle, vfs_error, nat) op" where
  "fat_file_write buffer h = (if \<not> fh_can_write h then (Err PermissionDenied, h) else (Err ReadOnly, h))"

text \<open>The offset is an \<open>i64\<close>; \<open>seek_target\<close> is the common code of the two handle types.\<close>

definition seek_target :: "64 word \<Rightarrow> seek_from \<Rightarrow> u64 \<Rightarrow> u64 \<Rightarrow> u64" where
  "seek_target off whence position file_size =
     (let new_pos = (case whence of
          Start \<Rightarrow> off
        | Current \<Rightarrow> (if off <s 0 then saturating_sub position (- off) else saturating_add position off)
        | End \<Rightarrow> (if off <s 0 then saturating_sub file_size (- off) else saturating_add file_size off)) in
      min new_pos file_size)"

definition fat_file_seek :: "64 word \<Rightarrow> seek_from \<Rightarrow> (fat_file_handle, vfs_error, u64) op" where
  "fat_file_seek off whence h =
     (let p = seek_target off whence (fh_position h) (fh_file_size h) in (Ok p, h\<lparr>fh_position := p\<rparr>))"

definition fat_file_tell :: "fat_file_handle \<Rightarrow> u64" where
  "fat_file_tell h = fh_position h"

definition fat_file_sync :: "(fat_file_handle, vfs_error, unit) op" where
  "fat_file_sync h = (Ok (), h)"

definition fat_file_stat :: "fat_file_handle \<Rightarrow> file_stat" where
  "fat_file_stat h =
     \<lparr>st_type = Regular, st_size = fh_file_size h, st_nlink = 1, st_inode = ucast (fh_start_cluster h), st_dev = 0,
      st_mode = (if fh_attributes h AND 0x01 \<noteq> 0 then 0x124 else 0x1A4), st_uid = 0, st_gid = 0,
      st_blksize = fh_cluster_size h, st_blocks = (fh_file_size h + 511) div 512, st_atime = 0, st_mtime = 0, st_ctime = 0\<rparr>"

definition fat_file_truncate :: "u64 \<Rightarrow> (fat_file_handle, vfs_error, unit) op" where
  "fat_file_truncate sz h = (Err ReadOnly, h)"

text \<open>The handle of \<open>file.rs\<close>, whose reads are not implemented.\<close>

record fat_file =
  ff_entry :: fat_dir_entry
  ff_position :: u64
  ff_current_cluster :: u32
  ff_cluster_offset :: u32
  ff_cluster_size :: u32
  ff_can_read :: bool
  ff_can_write :: bool

definition FatFile_new :: "fat_dir_entry \<Rightarrow> u32 \<Rightarrow> bool \<Rightarrow> bool \<Rightarrow> fat_file" where
  "FatFile_new e cs can_read can_write =
     \<lparr>ff_entry = e, ff_position = 0, ff_current_cluster = first_cluster e, ff_cluster_offset = 0, ff_cluster_size = cs,
      ff_can_read = can_read, ff_can_write = can_write\<rparr>"

definition ff_size :: "fat_file \<Rightarrow> u64" where
  "ff_size h = ucast (fd_file_size (ff_entry h))"

definition is_eof :: "fat_file \<Rightarrow> bool" where
  "is_eof h \<longleftrightarrow> ff_position h \<ge> ff_size h"

definition ff_read :: "byte list \<Rightarrow> (fat_file, vfs_error, nat \<times> byte list) op" where
  "ff_read buffer h =
     (if \<not> ff_can_read h then (Err PermissionDenied, h)
      else if is_eof h then (Ok (0, buffer), h)
      else (Err VfsIoError, h))"

definition ff_write :: "byte list \<Rightarrow> (fat_file, vfs_error, nat) op" where
  "ff_write buffer h = (if \<not> ff_can_write h then (Err PermissionDenied, h) else (Err ReadOnly, h))"

definition ff_seek :: "64 word \<Rightarrow> seek_from \<Rightarrow> (fat_file, vfs_error, u64) op" where
  "ff_seek off whence h =
     (let p = seek_target off whence (ff_position h) (ff_size h) in
      (Ok p, h\<lparr>ff_position := p, ff_cluster_offset := ucast (p mod ucast (ff_cluster_size h))\<rparr>))"

definition ff_stat :: "fat_file \<Rightarrow> file_stat" where
  "ff_stat h =
     \<lparr>st_type = (if is_directory (ff_entry h) then Directory else Regular), st_size = ucast (fd_file_size (ff_entry h)),
      st_nlink = 1, st_inode = ucast (first_cluster (ff_entry h)), st_dev = 0,
      st_mode = (if fd_attributes (ff_entry h) AND 0x01 \<noteq> 0 then 0x124 else 0x1A4), st_uid = 0, st_gid = 0,
      st_blksize = ff_cluster_size h, st_blocks = (ucast (fd_file_size (ff_entry h)) + 511) div 512,
      st_atime = 0, st_mtime = 0, st_ctime = 0\<rparr>"

definition ff_truncate :: "u64 \<Rightarrow> (fat_file, vfs_error, unit) op" where
  "ff_truncate sz h = (if \<not> ff_can_write h then (Err PermissionDenied, h) else (Err ReadOnly, h))"

section \<open>Reading clusters\<close>

declare dir_iter.simps [simp del]

text \<open>A cluster on the device: its sectors read as the parts of \<open>bs\<close>, whatever the buffer held.\<close>

definition cluster_on :: "reader \<Rightarrow> fat_inner \<Rightarrow> u32 \<Rightarrow> byte list \<Rightarrow> bool" where
  "cluster_on rd f c bs \<longleftrightarrow>
     length bs = unat (fi_sectors_per_cluster f) * unat (fi_sector_size f) \<and>
     (\<forall>i < unat (fi_sectors_per_cluster f). \<forall>buf. length buf = unat (fi_sector_size f) \<longrightarrow>
        rd (cluster_to_sector f c + of_nat i) buf = Some (take (unat (fi_sector_size f)) (drop (i * unat (fi_sector_size f)) bs)))"

text \<open>What mounting establishes: a positive cluster size that does not overflow.\<close>

definition wf_inner :: "fat_inner \<Rightarrow> bool" where
  "wf_inner f \<longleftrightarrow> 0 < unat (fi_sectors_per_cluster f) \<and> 0 < unat (fi_sector_size f) \<and>
     unat (fi_sectors_per_cluster f) \<le> 255 \<and> unat (fi_sector_size f) \<le> 65535"

lemma wf_cluster_size:
  assumes "wf_inner f"
  shows "unat (cluster_size f) = unat (fi_sectors_per_cluster f) * unat (fi_sector_size f)" "0 < unat (cluster_size f)"
proof -
  have "unat (fi_sectors_per_cluster f) * unat (fi_sector_size f) \<le> 255 * 65535"
    using assms unfolding wf_inner_def by (intro mult_le_mono) auto
  then show *: "unat (cluster_size f) = unat (fi_sectors_per_cluster f) * unat (fi_sector_size f)"
    by (simp add: cluster_size_def unat_word_ariths)
  show "0 < unat (cluster_size f)" unfolding * using assms by (simp add: wf_inner_def)
qed

lemma bpb_parse_nonzero: "bpb_parse bs = Ok b \<Longrightarrow> bp_bytes_per_sector b \<noteq> 0 \<and> bp_sectors_per_cluster b \<noteq> 0"
  by (auto simp: bpb_parse_def Let_def split: if_splits)

lemma map_err_Ok: "map_err g r = Ok a \<longleftrightarrow> r = Ok a"
  by (cases r) auto

lemma fat_mount_wf: "FatFilesystem_new rd = Ok f \<Longrightarrow> wf_inner f"
proof -
  let ?b = "fi_bpb f"
  assume "FatFilesystem_new rd = Ok f"
  then have b: "bp_bytes_per_sector ?b \<noteq> 0" "bp_sectors_per_cluster ?b \<noteq> 0"
      "fi_sectors_per_cluster f = ucast (bp_sectors_per_cluster ?b)" "fi_sector_size f = ucast (bp_bytes_per_sector ?b)"
    by (auto simp: FatFilesystem_new_def map_err_Ok Let_def dest!: bpb_parse_nonzero split: option.splits)
  have u: "unat (ucast (bp_sectors_per_cluster ?b) :: u32) = unat (bp_sectors_per_cluster ?b)"
    "unat (ucast (bp_bytes_per_sector ?b) :: u32) = unat (bp_bytes_per_sector ?b)"
    using unsigned_less [of "bp_sectors_per_cluster ?b", where 'a = nat] unsigned_less [of "bp_bytes_per_sector ?b", where 'a = nat]
    by (simp_all add: unsigned_ucast_eq take_bit_nat_eq_self)
  show ?thesis
    using b u unsigned_less [of "bp_sectors_per_cluster ?b", where 'a = nat] unsigned_less [of "bp_bytes_per_sector ?b", where 'a = nat]
    by (auto simp: wf_inner_def unat_gt_0)
qed

lemma read_cluster_ok:
  assumes "cluster_on rd f c bs" and "length buf = length bs"
  shows "read_cluster rd f c buf = Ok bs"
proof -
  let ?ss = "unat (fi_sector_size f)" and ?n = "unat (fi_sectors_per_cluster f)"
  let ?body = "\<lambda>i buffer. let off = i * ?ss; fin = off + ?ss in if fin > length buffer then Ok buffer
    else rbind (ok_or VfsIoError (rd (cluster_to_sector f c + of_nat i) (take (fin - off) (drop off buffer)))) (\<lambda>bytes. Ok (copy_into buffer off bytes))"
  have "m \<le> ?n \<Longrightarrow> for_res ?body [0..<m] buf = Ok (take (m * ?ss) bs @ drop (m * ?ss) buf)" for m
  proof (induction m)
    case (Suc m)
    have S: "Suc m * ?ss = m * ?ss + ?ss" by simp
    let ?b = "take (m * ?ss) bs @ drop (m * ?ss) buf"
    have le: "m * ?ss + ?ss \<le> length bs"
      using Suc.prems assms(1) mult_le_mono1 [of "Suc m" ?n ?ss] by (simp add: cluster_on_def add.commute)
    then have "rd (cluster_to_sector f c + of_nat m) (take ?ss (drop (m * ?ss) ?b)) = Some (take ?ss (drop (m * ?ss) bs))"
      using assms Suc.prems by (simp add: cluster_on_def)
    then have "?body m ?b = Ok (copy_into ?b (m * ?ss) (take ?ss (drop (m * ?ss) bs)))"
      using le assms(2) by (simp add: Let_def)
    also have "copy_into ?b (m * ?ss) (take ?ss (drop (m * ?ss) bs)) = take (Suc m * ?ss) bs @ drop (Suc m * ?ss) buf"
      unfolding S using le assms(2) by (simp add: copy_into_def take_add) (simp add: add.commute)
    finally show ?case using Suc by (simp add: for_res_append del: mult_Suc)
  qed simp
  from this [of ?n] show ?thesis
    using assms by (simp add: read_cluster_def Let_def cluster_on_def)
qed

section \<open>Reading files\<close>

lemma skip_linked:
  "linked (next_cluster rd f) cs \<Longrightarrow> n < length cs \<Longrightarrow>
   skip_loop rd f n (hd cs) = Ok (Some (cs ! n)) \<and> linked (next_cluster rd f) (drop n cs)"
proof (induction n arbitrary: cs)
  case 0
  then show ?case by (cases cs) auto
next
  case (Suc n)
  then obtain c d ds where cs: "cs = c # d # ds" by (metis Suc_less_eq length_Cons less_nat_zero_code list.exhaust list.size(3))
  then show ?case using Suc.IH [of "d # ds"] Suc.prems by simp
qed


lemma take_drop_concat:
  assumes "off < length x" and "n \<le> length x - off + length (concat xs)"
  shows "take n (drop off (concat (x # xs))) = take (min (length x - off) n) (drop off x) @ take (n - min (length x - off) n) (concat xs)"
  using assms by (simp add: min_def)

lemma copy_into_append:
  assumes "k + length xs + length ys \<le> length buf"
  shows "copy_into (copy_into buf k xs) (k + length xs) ys = copy_into buf k (xs @ ys)"
  using assms by (simp add: copy_into_def add_ac)

lemma read_loop_linked:
  assumes wf: "wf_inner f"
  shows "linked (next_cluster rd f) cs \<Longrightarrow> \<forall>c \<in> set cs. cluster_on rd f c (blk c) \<Longrightarrow> off < unat (cluster_size f) \<Longrightarrow>
    br \<le> btr \<Longrightarrow> btr \<le> length buf \<Longrightarrow> btr - br + off \<le> length cs * unat (cluster_size f) \<Longrightarrow> length cb = unat (cluster_size f) \<Longrightarrow>
    read_loop rd f btr buf br off cb (hd cs) =
      Some (Ok (btr, copy_into buf br (take (btr - br) (drop off (concat (map blk cs))))))"
proof (induction cs arbitrary: off br buf cb)
  case (Cons c cs)
  let ?n = "unat (cluster_size f)"
  show ?case
  proof (cases "br < btr")
    case False
    then show ?thesis using Cons.prems by (subst read_loop.simps) (simp add: copy_into_def)
  next
    case True
    have c: "2 \<le> c" "cluster_on rd f c (blk c)" using linked_ge_2 [OF Cons.prems(1)] Cons.prems(2) by auto
    have blk: "length (blk d) = ?n" if "d \<in> set (c # cs)" for d
      using that Cons.prems(2) wf_cluster_size(1) [OF wf] by (auto simp: cluster_on_def)
    have len: "length (concat (map blk cs)) = length cs * ?n"
      using blk by (induction cs) auto
    let ?m = "min (?n - off) (btr - br)" and ?d = "take (min (?n - off) (btr - br)) (drop off (blk c))"
    have rc: "read_cluster rd f c cb = Ok (blk c)" using read_cluster_ok [OF c(2)] blk [of c] Cons.prems(7) by simp
    have d: "length ?d = ?m" using blk [of c] by simp
    have split: "take (btr - br) (drop off (concat (map blk (c # cs)))) = ?d @ take (btr - (br + ?m)) (concat (map blk cs))"
      using take_drop_concat [of off "blk c" "btr - br" "map blk cs"] Cons.prems(3,6) blk [of c] len by simp
    show ?thesis
    proof (cases cs)
      case Nil
      then have "?m = btr - br" using Cons.prems(3,6) by simp
      then show ?thesis using Nil True c rc Cons.prems(1) split by (subst read_loop.simps) (simp add: Let_def)
    next
      case cs: (Cons e es)
      have "read_loop rd f btr (copy_into buf br ?d) (br + ?m) 0 (blk c) (hd cs) =
          Some (Ok (btr, copy_into (copy_into buf br ?d) (br + ?m) (take (btr - (br + ?m)) (drop 0 (concat (map blk cs))))))"
      proof (rule Cons.IH)
      qed (use cs Cons.prems blk d wf_cluster_size(2) [OF wf] in \<open>auto simp: min_def\<close>)
      also have "copy_into (copy_into buf br ?d) (br + ?m) (take (btr - (br + ?m)) (drop 0 (concat (map blk cs)))) =
          copy_into buf br (take (btr - br) (drop off (concat (map blk (c # cs)))))"
      proof -
        let ?t = "take (btr - (br + ?m)) (concat (map blk cs))"
        have "br + ?m \<le> btr" using True by simp
        then have "br + length ?d + length ?t \<le> length buf" unfolding d length_take using Cons.prems(5) by linarith
        from copy_into_append [OF this] show ?thesis unfolding split d drop_0 .
      qed
      finally show ?thesis using cs True c rc Cons.prems(1) by (subst read_loop.simps) (simp add: Let_def)
    qed
  qed
qed simp


lemma concat_length_same: "\<forall>x \<in> set xs. length x = n \<Longrightarrow> length (concat xs) = length xs * n"
  by (induction xs) auto

lemma drop_concat_same:
  "\<forall>x \<in> set xs. length x = n \<Longrightarrow> drop (k * n) (concat xs) = concat (drop k xs)"
proof (induction k arbitrary: xs)
  case (Suc k)
  then show ?case by (cases xs) (simp_all add: add.commute)
qed simp

lemma read_file_data_linked:
  assumes wf: "wf_inner f" and l: "linked (next_cluster rd f) cs" and on: "\<forall>c \<in> set cs. cluster_on rd f c (blk c)"
    and sz: "unat fsz \<le> length cs * unat (cluster_size f)" and p: "pos < fsz"
  shows "read_file_data rd f (hd cs) fsz pos buf =
    (let n = min (length buf) (unat fsz - unat pos) in
     Some (Ok (n, copy_into buf 0 (take n (drop (unat pos) (concat (map blk cs)))))))"
proof -
  let ?c = "unat (cluster_size f)" and ?n = "min (length buf) (unat fsz - unat pos)"
  let ?k = "unat pos div ?c" and ?o = "unat pos mod ?c"
  have c0: "0 < ?c" by (rule wf_cluster_size(2) [OF wf])
  have pos: "unat pos < unat fsz" using p by (simp add: word_less_nat_alt)
  then have sub: "unat (fsz - pos) = unat fsz - unat pos" by (simp add: unat_sub word_le_nat_alt)
  have "?k * ?c \<le> unat pos" by simp
  then have "?k * ?c < length cs * ?c" using pos sz by linarith
  then have k: "?k < length cs" using c0 by simp
  have blk: "\<forall>x \<in> set (map blk cs). length x = ?c" using on wf_cluster_size(1) [OF wf] by (auto simp: cluster_on_def)
  have "read_loop rd f ?n buf 0 ?o (replicate ?c 0) (hd (drop ?k cs)) =
      Some (Ok (?n, copy_into buf 0 (take (?n - 0) (drop ?o (concat (map blk (drop ?k cs)))))))"
  proof (rule read_loop_linked [OF wf])
    have "length (drop ?k cs) * ?c = length cs * ?c - ?k * ?c" by (simp add: diff_mult_distrib)
    moreover have "?k * ?c + ?o = unat pos" by simp
    ultimately show "?n - 0 + ?o \<le> length (drop ?k cs) * ?c" using pos sz by linarith
  qed (use skip_linked [OF l k] on set_drop_subset [of ?k cs] c0 in auto)
  moreover have "drop ?o (concat (map blk (drop ?k cs))) = drop (unat pos) (concat (map blk cs))"
    using drop_concat_same [OF blk, of ?k, symmetric] by (simp add: drop_map add.commute)
  ultimately show ?thesis
    using p c0 skip_linked [OF l k] sub k by (auto simp: read_file_data_def Let_def hd_drop_conv_nth)
qed

text \<open>C15. Reading from an open file of a mounted FAT volume: when the table holds a chain that covers the
  file, a read at position \<open>p\<close> returns exactly the bytes of the clusters of the chain from \<open>p\<close> on, up to
  the end of the file or the size of the buffer, and advances the position by their number; the rest
  of the buffer is untouched. In particular the read returns.\<close>

theorem fat_file_read_data:
  assumes "FatFilesystem_new rd = Ok f" and "has_table rd (fi_bpb f) (fi_fat_type f) es"
    and "chain_of (fi_fat_type f) es cs" and "\<forall>c \<in> set cs. cluster_on rd f c (blk c)"
    and "fh_start_cluster h = hd cs" and "fh_can_read h" and "unat (fh_file_size h) \<le> length cs * unat (cluster_size f)"
  shows "let p = unat (fh_position h); n = min (length buf) (unat (fh_file_size h) - p) in
    fat_file_read rd f buf h =
      Some (Ok (n, take n (drop p (concat (map blk cs))) @ drop n buf), h\<lparr>fh_position := of_nat (p + n)\<rparr>)"
proof (cases "fh_position h < fh_file_size h")
  case False
  then have "unat (fh_file_size h) - unat (fh_position h) = 0" by (simp add: not_less word_le_nat_alt)
  then show ?thesis using False assms(6) by (simp add: fat_file_read_def not_less)
next
  case True
  let ?p = "unat (fh_position h)" and ?n = "min (length buf) (unat (fh_file_size h) - unat (fh_position h))"
  have wf: "wf_inner f" by (rule fat_mount_wf [OF assms(1)])
  have l: "linked (next_cluster rd f) cs"
    using has_table_linked [OF assms(2,3)] by (simp add: next_cluster_def [abs_def])
  have blk: "\<forall>x \<in> set (map blk cs). length x = unat (cluster_size f)"
    using assms(4) wf_cluster_size(1) [OF wf] by (auto simp: cluster_on_def)
  have "?n \<le> length (drop ?p (concat (map blk cs)))"
    using concat_length_same [OF blk] assms(7) by simp
  then have "copy_into buf 0 (take ?n (drop ?p (concat (map blk cs)))) = take ?n (drop ?p (concat (map blk cs))) @ drop ?n buf"
    by (simp add: copy_into_def)
  then show ?thesis
    using read_file_data_linked [OF wf l assms(4,7) True] True assms(5,6)
    by (simp add: fat_file_read_def Let_def)
qed


section \<open>Searching directories\<close>

lemma find_loop_linked:
  assumes len: "\<forall>c \<in> set cs. length (blk c) = n"
  shows "linked (next_cluster rd f) cs \<Longrightarrow> \<forall>c \<in> set cs. cluster_on rd f c (blk c) \<Longrightarrow> length buf = n \<Longrightarrow>
    find_loop rd f name buf (hd cs) = Some (ok_or NotFound (find (matches_name name) (concat (map (\<lambda>c. dir_iter (blk c) 0) cs))))"
  using len
proof (induction cs arbitrary: buf)
  case (Cons c cs)
  have c: "2 \<le> c" using linked_ge_2 [OF Cons.prems(1)] by simp
  have rc: "read_cluster rd f c buf = Ok (blk c)" using read_cluster_ok [of rd f c "blk c" buf] Cons.prems by simp
  show ?case
  proof (cases cs)
    case Nil
    then show ?thesis using c rc Cons.prems(1) by (subst find_loop.simps) (simp add: ok_or_def split: option.splits)
  next
    case cs: (Cons d ds)
    then have "find_loop rd f name (blk c) d = Some (ok_or NotFound (find (matches_name name) (concat (map (\<lambda>c. dir_iter (blk c) 0) cs))))"
      using Cons.IH [of "blk c"] Cons.prems by simp
    then show ?thesis using c rc cs Cons.prems(1)
      by (subst find_loop.simps) (simp add: find_append ok_or_def split: option.splits)
  qed
qed simp


lemma dir_loop_linked:
  assumes len: "\<forall>c \<in> set cs. length (blk c) = n"
  shows "linked (next_cluster rd f) cs \<Longrightarrow> \<forall>c \<in> set cs. cluster_on rd f c (blk c) \<Longrightarrow> length buf = n \<Longrightarrow>
    dir_loop rd f acc buf (hd cs) = Some (Ok (acc @ List.map_filter to_vfs_entry (concat (map (\<lambda>c. dir_iter (blk c) 0) cs))))"
  using len
proof (induction cs arbitrary: buf acc)
  case (Cons c cs)
  have c: "2 \<le> c" using linked_ge_2 [OF Cons.prems(1)] by simp
  have rc: "read_cluster rd f c buf = Ok (blk c)" using read_cluster_ok [of rd f c "blk c" buf] Cons.prems by simp
  show ?case
  proof (cases cs)
    case Nil
    then show ?thesis using c rc Cons.prems(1) by (subst dir_loop.simps) simp
  next
    case cs: (Cons d ds)
    then show ?thesis using c rc Cons.IH [of "blk c"] Cons.prems
      by (subst dir_loop.simps) (simp add: List.map_filter_def)
  qed
qed simp

lemma mounted_linked:
  assumes "FatFilesystem_new rd = Ok f" and "has_table rd (fi_bpb f) (fi_fat_type f) es"
    and "chain_of (fi_fat_type f) es cs" and "\<forall>c \<in> set cs. cluster_on rd f c (blk c)"
  shows "linked (next_cluster rd f) cs" "\<forall>c \<in> set cs. length (blk c) = unat (cluster_size f)" "2 \<le> hd cs"
proof -
  show l: "linked (next_cluster rd f) cs"
    using has_table_linked [OF assms(2,3)] by (simp add: next_cluster_def [abs_def])
  show "\<forall>c \<in> set cs. length (blk c) = unat (cluster_size f)"
    using assms(4) wf_cluster_size(1) [OF fat_mount_wf [OF assms(1)]] by (simp add: cluster_on_def)
  show "2 \<le> hd cs" using linked_ge_2 [OF l] l by (cases cs) auto
qed

text \<open>C29. On a mounted FAT volume, looking up a name in a directory whose clusters form a chain of the
  table returns, with the first entry of the clusters that matches the name or \<open>NotFound\<close>; and listing
  the directory returns, with all its entries.\<close>

theorem directory_lookup_returns:
  assumes "FatFilesystem_new rd = Ok f" and "has_table rd (fi_bpb f) (fi_fat_type f) es"
    and "chain_of (fi_fat_type f) es cs" and "\<forall>c \<in> set cs. cluster_on rd f c (blk c)" and "first_cluster dir = hd cs"
  shows "let entries = concat (map (\<lambda>c. dir_iter (blk c) 0) cs) in
    find_in_directory rd f dir name = Some (ok_or NotFound (find (matches_name name) entries)) \<and>
    read_directory rd f dir = Some (Ok (List.map_filter to_vfs_entry entries))"
proof -
  note m = mounted_linked [OF assms(1-4)]
  have nz: "hd cs \<noteq> 0" using m(3) by auto
  show ?thesis
    using find_loop_linked [OF m(2,1) assms(4), of "replicate (unat (cluster_size f)) 0" name]
      dir_loop_linked [OF m(2,1) assms(4), of "replicate (unat (cluster_size f)) 0" "[]"] nz assms(5)
    by (simp add: find_in_directory_def read_directory_def Let_def)
qed


section \<open>A small volume\<close>

text \<open>A FAT12 volume of 64 sectors: the boot sector, one sector of table, one of root directory, and
  clusters of one sector.\<close>

definition example_boot :: "byte list" where
  "example_boot = replicate 11 0 @ [0, 2, 1, 1, 0, 1, 16, 0, 64, 0, 0xF8, 1, 0] @ replicate 486 0 @ [0x55, 0xAA]"

definition example_volume :: "u32 list \<Rightarrow> byte list \<Rightarrow> (u32 \<Rightarrow> byte list) \<Rightarrow> reader" where
  "example_volume es root data s buf =
     (if s = 0 then Some example_boot
      else if s = 1 then Some (pack12 es @ replicate (512 - length (pack12 es)) 0)
      else if s = 2 then Some root
      else if s < 64 then Some (data (ucast s - 1))
      else None)"

definition example_inner :: fat_inner where
  "example_inner = (case bpb_parse example_boot of Ok b \<Rightarrow>
     \<lparr>fi_bpb = b, fi_fat_type = Fat12, fi_first_data_sector = 3, fi_sectors_per_cluster = 1, fi_sector_size = 512\<rparr>)"

lemma example_boot_parse:
  "\<exists>b. bpb_parse example_boot = Ok b \<and> bp_bytes_per_sector b = 512 \<and> bp_sectors_per_cluster b = 1 \<and> bp_reserved_sector_count b = 1 \<and>
    bp_num_fats b = 1 \<and> bp_root_entry_count b = 16 \<and> bp_total_sectors_16 b = 64 \<and> bp_fat_size_16 b = 1"
  by (simp add: bpb_parse_def example_boot_def le16_def dec_word_def Let_def nth_append)

lemma example_mount: "FatFilesystem_new (example_volume es root data) = Ok example_inner"
proof -
  obtain b where b: "bpb_parse example_boot = Ok b" "bp_bytes_per_sector b = 512" "bp_sectors_per_cluster b = 1"
      "bp_reserved_sector_count b = 1" "bp_num_fats b = 1" "bp_root_entry_count b = 16" "bp_total_sectors_16 b = 64" "bp_fat_size_16 b = 1"
    using example_boot_parse by blast
  have r: "root_dir_sectors b = 1" using b by (simp add: root_dir_sectors_def)
  have "fat_type_of b = Fat12" using b r by (simp add: fat_type_of_def Let_def)
  then show ?thesis using b r by (simp add: FatFilesystem_new_def example_volume_def example_inner_def Let_def)
qed

lemma example_inner_fields:
  "fi_fat_type example_inner = Fat12" "fi_first_data_sector example_inner = 3" "fi_sectors_per_cluster example_inner = 1"
  "fi_sector_size example_inner = 512" "bp_bytes_per_sector (fi_bpb example_inner) = 512"
  "bp_reserved_sector_count (fi_bpb example_inner) = 1" "bp_num_fats (fi_bpb example_inner) = 1"
  "bp_fat_size_16 (fi_bpb example_inner) = 1" "bp_root_entry_count (fi_bpb example_inner) = 16" "cluster_size example_inner = 512"
  using example_boot_parse by (auto simp: example_inner_def cluster_size_def)

lemma example_table:
  assumes "length (pack12 es) \<le> 512" and "length es \<le> 2 ^ 28"
  shows "has_table (example_volume es root data) (fi_bpb example_inner) (fi_fat_type example_inner) es"
  using assms by (auto simp: has_table_def example_inner_fields table_at_def example_volume_def nth_append)

lemma example_cluster:
  assumes "2 \<le> c" and "c < 60" and "length (data c) = 512"
  shows "cluster_on (example_volume es root data) example_inner c (data c)"
proof -
  have c: "2 \<le> unat c" "unat c < 60" using assms(1,2) by (simp_all add: word_le_nat_alt word_less_nat_alt)
  let ?s = "cluster_to_sector example_inner c"
  have "?s = of_nat (unat c + 1)"
    unfolding cluster_to_sector_def example_inner_fields by simp
  then have u: "unat ?s = unat c + 1" by (rule of_nat_inverse [OF sym]) (use c in simp)
  have "?s \<noteq> 0" "?s \<noteq> 1" "?s \<noteq> 2" using u c by auto
  moreover have "?s < 64" unfolding word_less_nat_alt u using c by simp
  moreover have "ucast ?s - 1 = c"
  proof -
    have "ucast ?s = (of_nat (unat ?s) :: u32)" by simp
    then show ?thesis unfolding u by simp
  qed
  ultimately show ?thesis
    using assms(3) by (simp add: cluster_on_def example_inner_fields example_volume_def)
qed

lemma fat12_consts: "EOC_FAT12 = 0xFF8" "BAD_FAT12 = 0xFF7" "FREE_CLUSTER = 0"
  by (simp_all add: EOC_FAT12_def BAD_FAT12_def FREE_CLUSTER_def)

theorem fat_file_read_data_witness:
  "fat_file_read (example_volume [0xFF8, 0xFFF, 3, 0xFFF] [] (\<lambda>c. replicate 512 (ucast c))) example_inner (replicate 20 0)
     \<lparr>fh_start_cluster = 2, fh_file_size = 600, fh_position = 500, fh_cluster_size = 512, fh_can_read = True, fh_can_write = False, fh_attributes = 0\<rparr> =
   Some (Ok (20, replicate 12 2 @ replicate 8 3),
     \<lparr>fh_start_cluster = 2, fh_file_size = 600, fh_position = 520, fh_cluster_size = 512, fh_can_read = True, fh_can_write = False, fh_attributes = 0\<rparr>)"
  using fat_file_read_data [OF example_mount example_table [of "[0xFF8, 0xFFF, 3, 0xFFF]"], of "[2, 3]" "[]" "\<lambda>c. replicate 512 (ucast c)"
    "\<lambda>c. replicate 512 (ucast c)"
    "\<lparr>fh_start_cluster = 2, fh_file_size = 600, fh_position = 500, fh_cluster_size = 512, fh_can_read = True, fh_can_write = False, fh_attributes = 0\<rparr>"
    "replicate 20 0"]
    example_cluster [of 2 "\<lambda>c. replicate 512 (ucast c)"] example_cluster [of 3 "\<lambda>c. replicate 512 (ucast c)"]
  by (simp add: example_inner_fields fat12_consts Let_def)

definition example_entry :: "byte list" where
  "example_entry = [0x41, 0x20, 0x20, 0x20, 0x20, 0x20, 0x20, 0x20, 0x54, 0x58, 0x54, 0x20] @ replicate 16 0 @ [5, 0, 0, 0]"

lemma example_entry_iter:
  "\<exists>e. dir_iter (example_entry @ replicate 480 0) 0 = [e] \<and> short_name e = [0x41, 0x2E, 0x54, 0x58, 0x54] \<and> \<not> is_volume_label e \<and>
    \<not> is_long_name e \<and> fd_file_size e = 5"
proof -
  let ?d = "example_entry @ replicate 480 0"
  obtain e where e: "entry_parse (take 32 (drop 0 ?d)) = Some e" "fd_name e = take 11 example_entry" "fd_attributes e = 0x20" "fd_file_size e = 5"
    by (simp add: entry_parse_def example_entry_def le32_def le16_def dec_word_def nth_append)
  have "\<not> is_long_name e" "\<not> is_volume_label e" using e(3) by (simp_all add: is_long_name_def is_volume_label_def LONG_NAME_def VOLUME_ID_def READ_ONLY_def HIDDEN_def SYSTEM_def)
  moreover have "dir_iter ?d 32 = []" by (subst dir_iter.simps) (simp add: example_entry_def)
  moreover have "take 32 (drop 0 ?d) ! 0 \<noteq> 0" by (simp add: example_entry_def)
  ultimately have "dir_iter ?d 0 = [e]" using e(1) by (subst dir_iter.simps) (simp add: example_entry_def)
  moreover have "short_name e = [0x41, 0x2E, 0x54, 0x58, 0x54]"
    by (simp add: short_name_def e(2) example_entry_def trimmed_len_def push_latin1_def Let_def)
  ultimately show ?thesis using e(4) \<open>\<not> is_long_name e\<close> \<open>\<not> is_volume_label e\<close> by blast
qed

theorem directory_lookup_returns_witness:
  "\<exists>e. find_in_directory (example_volume [0xFF8, 0xFFF, 0xFFF] [] (\<lambda>c. example_entry @ replicate 480 0)) example_inner
     ((root_dir (fi_bpb example_inner) Fat12)\<lparr>fd_first_cluster_low := 2\<rparr>) [0x61, 0x2E, 0x74, 0x78, 0x74] = Some (Ok e) \<and> fd_file_size e = 5"
proof -
  obtain e where e: "dir_iter (example_entry @ replicate 480 0) 0 = [e]" "short_name e = [0x41, 0x2E, 0x54, 0x58, 0x54]"
      "\<not> is_volume_label e" "\<not> is_long_name e" "fd_file_size e = 5"
    using example_entry_iter by blast
  have "matches_name [0x61, 0x2E, 0x74, 0x78, 0x74] e"
    using e by (simp add: matches_name_def eq_ignore_ascii_case_def to_ascii_lower_def)
  then show ?thesis
    using directory_lookup_returns [OF example_mount example_table [of "[0xFF8, 0xFFF, 0xFFF]"], of "[2]" "[]"
        "\<lambda>c. example_entry @ replicate 480 0" "\<lambda>c. example_entry @ replicate 480 0"
        "(root_dir (fi_bpb example_inner) Fat12)\<lparr>fd_first_cluster_low := 2\<rparr>" "[0x61, 0x2E, 0x74, 0x78, 0x74]"]
      example_cluster [of 2 "\<lambda>c. example_entry @ replicate 480 0"] e
    by (simp add: example_inner_fields fat12_consts first_cluster_def root_dir_def Let_def) (simp add: example_entry_def)
qed


section \<open>The root directory of FAT12 and FAT16\<close>

text \<open>The FAT format: a directory is a sequence of 32-byte slots, and a slot whose first byte is 0 ends it.
  Deleted and long-name slots are skipped.\<close>

definition slot_entry :: "byte list \<Rightarrow> fat_dir_entry option" where
  "slot_entry s = (case entry_parse s of Some e \<Rightarrow> if is_long_name e then None else Some e | None \<Rightarrow> None)"

definition dir_spec :: "byte list list \<Rightarrow> fat_dir_entry list" where
  "dir_spec slots = List.map_filter slot_entry (takeWhile (\<lambda>s. s ! 0 \<noteq> 0) slots)"

lemma map_filter_append: "List.map_filter g (xs @ ys) = List.map_filter g xs @ List.map_filter g ys"
  by (simp add: List.map_filter_def)

lemma dir_iter_slots:
  "\<forall>s \<in> set slots. length s = 32 \<Longrightarrow> k \<le> length slots \<Longrightarrow> dir_iter (concat slots) (k * 32) = dir_spec (drop k slots)"
proof (induction "length slots - k" arbitrary: k)
  case 0
  then show ?case using concat_length_same [of slots 32] by (subst dir_iter.simps) (simp add: dir_spec_def List.map_filter_def)
next
  case (Suc n)
  have k: "k < length slots" using Suc.hyps(2) by simp
  then have d: "drop k slots = slots ! k # drop (Suc k) slots" by (simp add: Cons_nth_drop_Suc)
  have s: "take 32 (drop (k * 32) (concat slots)) = slots ! k"
    using drop_concat_same [OF Suc.prems(1), of k] d Suc.prems(1) k by simp
  have le: "k * 32 + 32 \<le> length (concat slots)"
    using concat_length_same [OF Suc.prems(1)] k mult_le_mono1 [of "Suc k" "length slots" 32] by simp
  have "dir_iter (concat slots) (k * 32 + 32) = dir_spec (drop (Suc k) slots)"
    using Suc.hyps(1) [of "Suc k"] Suc.hyps(2) Suc.prems k by (simp add: add.commute)
  then show ?case using le unfolding d
    by (subst dir_iter.simps) (simp add: s Let_def dir_spec_def slot_entry_def List.map_filter_simps split: option.splits)
qed

text \<open>The driver stops at an end marker only within a sector; with nothing after the marker that is the
  same.\<close>

lemma dir_spec_sectors:
  "\<forall>s \<in> set (dropWhile (\<lambda>s. s ! 0 \<noteq> 0) (concat secs)). s ! 0 = 0 \<Longrightarrow> concat (map dir_spec secs) = dir_spec (concat secs)"
proof (induction secs)
  case (Cons x xs)
  note prems = Cons.prems
  show ?case
  proof (cases "\<forall>s \<in> set x. s ! 0 \<noteq> 0")
    case True
    then have "dropWhile (\<lambda>s. s ! 0 \<noteq> 0) (concat (x # xs)) = dropWhile (\<lambda>s. s ! 0 \<noteq> 0) (concat xs)"
      by (simp add: dropWhile_append2)
    from Cons.IH [OF prems [unfolded this]] have "concat (map dir_spec xs) = dir_spec (concat xs)" .
    moreover have tw: "takeWhile (\<lambda>s. s ! 0 \<noteq> 0) (x @ concat xs) = x @ takeWhile (\<lambda>s. s ! 0 \<noteq> 0) (concat xs)"
      by (rule takeWhile_append2) (use True in blast)
    moreover have twx: "takeWhile (\<lambda>s. s ! 0 \<noteq> 0) x = x" unfolding takeWhile_eq_all_conv by (rule True)
    moreover have "dir_spec (x @ concat xs) = dir_spec x @ dir_spec (concat xs)"
      unfolding dir_spec_def tw twx map_filter_append ..
    ultimately show ?thesis by simp
  next
    case False
    then obtain z where z: "z \<in> set x" "z ! 0 = 0" by auto
    then have dw: "dropWhile (\<lambda>s. s ! 0 \<noteq> 0) (concat (x # xs)) = dropWhile (\<lambda>s. s ! 0 \<noteq> 0) x @ concat xs"
      using dropWhile_append1 [of z x "\<lambda>s. s ! 0 \<noteq> 0" "concat xs"] by simp
    have "dir_spec y = []" if "y \<in> set xs" for y
    proof (cases y)
      case (Cons s ss)
      then have "s \<in> set (concat xs)" using that by (simp, metis list.set_intros(1))
      then have "s \<in> set (dropWhile (\<lambda>s. s ! 0 \<noteq> 0) x @ concat xs)" unfolding set_append by (rule UnI2)
      then have "s ! 0 = 0" using prems unfolding dw by blast
      then show ?thesis using Cons by (simp add: dir_spec_def List.map_filter_def)
    qed (simp add: dir_spec_def List.map_filter_def)
    then have "concat (map dir_spec xs) = []" by simp
    then show ?thesis using z takeWhile_append1 [of z x "\<lambda>s. s ! 0 \<noteq> 0" "concat xs"] by (simp add: dir_spec_def)
  qed
qed (simp add: dir_spec_def List.map_filter_def)

definition root_on :: "reader \<Rightarrow> u64 \<Rightarrow> byte list list list \<Rightarrow> bool" where
  "root_on rd start secs \<longleftrightarrow> (\<forall>sec \<in> set secs. length sec = 16 \<and> (\<forall>s \<in> set sec. length s = 32)) \<and>
     (\<forall>i < length secs. \<forall>buf. length buf = 512 \<longrightarrow> rd (start + of_nat i) buf = Some (concat (secs ! i)))"

lemma root_sector:
  assumes "root_on rd start secs" and "i < length secs"
  shows "length buf = 512 \<Longrightarrow> rd (start + of_nat i) buf = Some (concat (secs ! i))" "length (concat (secs ! i)) = 512"
    "dir_iter (concat (secs ! i)) 0 = dir_spec (secs ! i)"
proof -
  have m: "secs ! i \<in> set secs" using assms(2) by simp
  then have s: "length (secs ! i) = 16" "\<forall>s \<in> set (secs ! i). length s = 32" using assms(1) by (auto simp: root_on_def)
  show "length buf = 512 \<Longrightarrow> rd (start + of_nat i) buf = Some (concat (secs ! i))" using assms by (simp add: root_on_def)
  show "length (concat (secs ! i)) = 512" using concat_length_same [OF s(2)] s(1) by simp
  show "dir_iter (concat (secs ! i)) 0 = dir_spec (secs ! i)" using dir_iter_slots [OF s(2), of 0] by simp
qed

lemma root_loops:
  assumes on: "root_on rd start secs"
  shows "i \<le> length secs \<Longrightarrow> length buf = 512 \<Longrightarrow>
    root_find_loop rd start name [i..<length secs] buf = ok_or NotFound (find (matches_name name) (concat (map dir_spec (drop i secs)))) \<and>
    root_dir_loop rd start [i..<length secs] acc buf = Ok (acc @ List.map_filter to_vfs_entry (concat (map dir_spec (drop i secs))))"
proof (induction "length secs - i" arbitrary: i buf acc)
  case 0
  then show ?case by (simp add: List.map_filter_def)
next
  case (Suc n)
  have i: "i < length secs" using Suc.hyps(2) by simp
  have u: "[i..<length secs] = i # [Suc i..<length secs]" using i by (simp add: upt_conv_Cons)
  have d: "drop i secs = secs ! i # drop (Suc i) secs" using i by (simp add: Cons_nth_drop_Suc)
  note r = root_sector(1) [OF on i Suc.prems(2)] root_sector(2,3) [OF on i]
  have IH: "root_find_loop rd start name [Suc i..<length secs] (concat (secs ! i)) =
        ok_or NotFound (find (matches_name name) (concat (map dir_spec (drop (Suc i) secs))))"
      "root_dir_loop rd start [Suc i..<length secs] (acc @ List.map_filter to_vfs_entry (dir_spec (secs ! i))) (concat (secs ! i)) =
        Ok ((acc @ List.map_filter to_vfs_entry (dir_spec (secs ! i))) @ List.map_filter to_vfs_entry (concat (map dir_spec (drop (Suc i) secs))))"
    using Suc.hyps(1) [of "Suc i"] Suc.hyps(2) i r(2) by simp_all
  show ?case unfolding u d
    by (simp add: r IH find_append map_filter_append ok_or_def split: option.splits)
qed

text \<open>C39. Looking up a name in the root directory of a FAT12 or FAT16 volume finds the first entry of that
  name, and listing it returns all entries, as the FAT format defines them for the whole directory -
  provided no slot after the end marker is in use, because the driver takes the marker as the end of a
  sector only.\<close>

theorem root_directory_refines_format:
  assumes "root_on rd (root_start (fi_bpb f)) secs" and "length secs = unat (root_dir_sectors (fi_bpb f))"
    and "fi_fat_type f \<noteq> Fat32" and "first_cluster dir = 0"
    and "\<forall>s \<in> set (dropWhile (\<lambda>s. s ! 0 \<noteq> 0) (concat secs)). s ! 0 = 0"
  shows "find_in_directory rd f dir name = Some (ok_or NotFound (find (matches_name name) (dir_spec (concat secs)))) \<and>
    read_directory rd f dir = Some (Ok (List.map_filter to_vfs_entry (dir_spec (concat secs))))"
  using root_loops [OF assms(1), of 0 "replicate 512 0" name "[]"] assms dir_spec_sectors [OF assms(5)]
  by (simp add: find_in_directory_def read_directory_def find_in_root_dir_def read_root_dir_entries_def)

theorem root_directory_refines_format_witness:
  "find_in_directory (example_volume [] (replicate 512 0) (\<lambda>c. [])) example_inner (root_dir (fi_bpb example_inner) Fat12) [0x61] = Some (Err NotFound)"
proof -
  have "root_dir_sectors (fi_bpb example_inner) = 1" by (simp add: root_dir_sectors_def example_inner_fields)
  moreover have "concat (replicate 16 (replicate 32 (0 :: byte))) = replicate 512 0"
    by (rule nth_equalityI) (simp_all add: concat_length_same [of _ 32] numeral_eq_Suc)
  moreover have "find (matches_name [0x61]) (dir_spec (concat [replicate 16 (replicate 32 0)])) = None"
    by (simp add: dir_spec_def List.map_filter_def)
  ultimately show ?thesis
    using root_directory_refines_format [of "example_volume [] (replicate 512 0) (\<lambda>c. [])" example_inner "[replicate 16 (replicate 32 0)]"
      "root_dir (fi_bpb example_inner) Fat12" "[0x61]"]
    by (simp add: root_on_def root_start_def example_inner_fields example_volume_def root_dir_def first_cluster_def)
qed

end
