(* ===== verification/Phys_Mem.thy ===== *)
theory Phys_Mem
  imports Prelude
begin

text \<open>
  The physical page allocator, \<open>crates/core/mem/src/phys.rs\<close>: a bitmap of 4096 words of 64 pages,
  with a count of free pages and a hint where to look next.

  The bitmap is a list of words, counters and page numbers are \<open>nat\<close> (they stay far below
  \<open>2 ^ 64\<close>; the two subtractions that can wrap are written with \<open>usize_sub\<close>) and addresses are
  \<open>u64\<close>. The set \<open>free_set\<close> of free page numbers is the abstraction; the locale
  \<open>page_allocator\<close> states what users of an allocator rely on, and its client lemma is that pages are
  never handed out twice and never lost.
\<close>

section \<open>Model\<close>

definition PAGE_SIZE :: nat where "PAGE_SIZE = 4096"
definition MAX_PHYS_MEMORY :: nat where "MAX_PHYS_MEMORY = 1024 * 1024 * 1024"
definition MAX_PAGES :: nat where "MAX_PAGES = MAX_PHYS_MEMORY div PAGE_SIZE"
definition BITMAP_SIZE :: nat where "BITMAP_SIZE = MAX_PAGES div 64"

record phys_allocator =
  pa_bitmap :: "u64 list"
  pa_total_pages :: nat
  pa_free_pages :: nat
  pa_next_free :: nat

definition PhysAllocator_new :: phys_allocator where
  "PhysAllocator_new = \<lparr>pa_bitmap = replicate BITMAP_SIZE 0, pa_total_pages = 0, pa_free_pages = 0, pa_next_free = 0\<rparr>"

text \<open>Subtraction of \<open>usize\<close>, which wraps in the release profile.\<close>

definition usize_sub :: "nat \<Rightarrow> nat \<Rightarrow> nat" where
  "usize_sub a b = (if b \<le> a then a - b else a + 2 ^ 64 - b)"

definition page_free :: "u64 list \<Rightarrow> nat \<Rightarrow> bool" where
  "page_free bitmap page = (bitmap ! (page div 64) AND push_bit (page mod 64) 1 \<noteq> 0)"

definition mark_free :: "u64 list \<Rightarrow> nat \<Rightarrow> u64 list" where
  "mark_free bitmap page = bitmap[page div 64 := bitmap ! (page div 64) OR push_bit (page mod 64) 1]"

definition mark_used :: "u64 list \<Rightarrow> nat \<Rightarrow> u64 list" where
  "mark_used bitmap page = bitmap[page div 64 := bitmap ! (page div 64) AND NOT (push_bit (page mod 64) 1)]"

definition phys_init :: "u64 \<Rightarrow> u64 \<Rightarrow> phys_allocator \<Rightarrow> phys_allocator" where
  "phys_init start sz a =
     (let start_page = unat start div PAGE_SIZE;
          num_pages = unat sz div PAGE_SIZE;
          bitmap = foldl (\<lambda>bm i. let page = start_page + i in if page < MAX_PAGES then mark_free bm page else bm)
            (pa_bitmap a) [0..<num_pages];
          total_pages = min num_pages (usize_sub MAX_PAGES start_page) in
      a\<lparr>pa_bitmap := bitmap, pa_total_pages := total_pages, pa_free_pages := total_pages, pa_next_free := start_page\<rparr>)"

definition trailing_zeros :: "u64 \<Rightarrow> nat" where
  "trailing_zeros w = length (takeWhile (\<lambda>i. \<not> bit w i) [0..<64])"

definition alloc_page :: "phys_allocator \<Rightarrow> u64 option \<times> phys_allocator" where
  "alloc_page a =
     (if pa_free_pages a = 0 then (None, a)
      else
        case find (\<lambda>idx. pa_bitmap a ! idx \<noteq> 0)
          (map (\<lambda>i. (pa_next_free a div 64 + i) mod BITMAP_SIZE) [0..<BITMAP_SIZE]) of
          Some idx \<Rightarrow>
            let b = trailing_zeros (pa_bitmap a ! idx);
                page = idx * 64 + b in
            (Some (of_nat (page * PAGE_SIZE)),
             a\<lparr>pa_bitmap := (pa_bitmap a)[idx := pa_bitmap a ! idx AND NOT (push_bit b 1)],
               pa_free_pages := pa_free_pages a - 1, pa_next_free := page + 1\<rparr>)
        | None \<Rightarrow> (None, a))"

definition free_page :: "u64 \<Rightarrow> phys_allocator \<Rightarrow> phys_allocator" where
  "free_page phys_addr a =
     (let page = unat phys_addr div PAGE_SIZE in
      if page \<ge> MAX_PAGES then a
      else if \<not> page_free (pa_bitmap a) page then
        a\<lparr>pa_bitmap := mark_free (pa_bitmap a) page, pa_free_pages := pa_free_pages a + 1,
          pa_next_free := (if page < pa_next_free a then page else pa_next_free a)\<rparr>
      else a)"

text \<open>The scan of \<open>alloc_contiguous\<close>: the first page of a run of \<open>cnt\<close> free pages.\<close>

fun contig_scan :: "u64 list \<Rightarrow> nat \<Rightarrow> nat list \<Rightarrow> nat \<Rightarrow> nat \<Rightarrow> nat option" where
  "contig_scan bitmap cnt [] run_start run_length = None"
| "contig_scan bitmap cnt (page # pages) run_start run_length =
     (if page_free bitmap page then
        let run_start = (if run_length = 0 then page else run_start);
            run_length = run_length + 1 in
        if run_length = cnt then Some run_start
        else contig_scan bitmap cnt pages run_start run_length
      else contig_scan bitmap cnt pages run_start 0)"

definition alloc_contiguous :: "nat \<Rightarrow> phys_allocator \<Rightarrow> u64 option \<times> phys_allocator" where
  "alloc_contiguous cnt a =
     (if cnt = 0 \<or> pa_free_pages a < cnt then (None, a)
      else
        case contig_scan (pa_bitmap a) cnt [0..<MAX_PAGES] 0 0 of
          Some run_start \<Rightarrow>
            (Some (of_nat (run_start * PAGE_SIZE)),
             a\<lparr>pa_bitmap := foldl (\<lambda>bm i. mark_used bm (run_start + i)) (pa_bitmap a) [0..<cnt],
               pa_free_pages := pa_free_pages a - cnt\<rparr>)
        | None \<Rightarrow> (None, a))"

record phys_stats =
  ps_total_pages :: nat
  ps_free_pages :: nat
  ps_used_pages :: nat

definition stats :: "phys_allocator \<Rightarrow> phys_stats" where
  "stats a = \<lparr>ps_total_pages = pa_total_pages a, ps_free_pages = pa_free_pages a,
     ps_used_pages = usize_sub (pa_total_pages a) (pa_free_pages a)\<rparr>"

definition total_bytes :: "phys_stats \<Rightarrow> nat" where "total_bytes s = ps_total_pages s * PAGE_SIZE"
definition free_bytes :: "phys_stats \<Rightarrow> nat" where "free_bytes s = ps_free_pages s * PAGE_SIZE"
definition used_bytes :: "phys_stats \<Rightarrow> nat" where "used_bytes s = ps_used_pages s * PAGE_SIZE"

text \<open>All that the proofs need of the sizes.\<close>

lemma page_constants: "MAX_PAGES = BITMAP_SIZE * 64" "0 < PAGE_SIZE" "MAX_PAGES * PAGE_SIZE = 2 ^ 30" "0 < BITMAP_SIZE"
  by (simp_all add: PAGE_SIZE_def MAX_PAGES_def MAX_PHYS_MEMORY_def BITMAP_SIZE_def)

section \<open>The bitmap as a set of free pages\<close>

definition free_set :: "u64 list \<Rightarrow> nat set" where
  "free_set bitmap = {p. p < MAX_PAGES \<and> page_free bitmap p}"

definition phys_inv :: "phys_allocator \<Rightarrow> bool" where
  "phys_inv a \<longleftrightarrow> length (pa_bitmap a) = BITMAP_SIZE \<and> pa_free_pages a = card (free_set (pa_bitmap a))"

lemma word_nonzero: "w \<noteq> 0 \<longleftrightarrow> (\<exists>n < 64. bit w n)" for w :: u64
  using bit_word_eqI [of w 0] by auto

lemma page_free_bit: "page_free bm p \<longleftrightarrow> bit (bm ! (p div 64)) (p mod 64)"
proof -
  have "(w AND push_bit n 1 \<noteq> 0) \<longleftrightarrow> bit w n" if "n < 64" for w :: u64 and n
    using that by (auto simp: word_nonzero bit_simps)
  then show ?thesis by (simp add: page_free_def)
qed

lemma page_index: "p < MAX_PAGES \<Longrightarrow> p div 64 < BITMAP_SIZE"
  by (simp add: page_constants(1) less_mult_imp_div_less)

lemma same_page: "p div 64 = q div 64 \<Longrightarrow> p mod 64 = q mod 64 \<Longrightarrow> p = q" for p q :: nat
  by (metis div_mult_mod_eq)

lemma mark_length [simp]: "length (mark_free bm p) = length bm" "length (mark_used bm p) = length bm"
  by (simp_all add: mark_free_def mark_used_def)

lemma page_free_mark:
  assumes "length bm = BITMAP_SIZE" "p < MAX_PAGES"
  shows "page_free (mark_free bm p) q \<longleftrightarrow> page_free bm q \<or> q = p"
    and "page_free (mark_used bm p) q \<longleftrightarrow> page_free bm q \<and> q \<noteq> p"
  using assms page_index [OF assms(2)] same_page [of p q]
  by (cases "q div 64 = p div 64"; force simp: page_free_bit mark_free_def mark_used_def bit_simps)+

lemma free_set_mark:
  assumes "length bm = BITMAP_SIZE" "p < MAX_PAGES"
  shows "free_set (mark_free bm p) = insert p (free_set bm)" and "free_set (mark_used bm p) = free_set bm - {p}"
  using assms by (auto simp: free_set_def page_free_mark)

lemma finite_free_set [simp]: "finite (free_set bm)"
  by (simp add: free_set_def)

lemma free_set_bound: "p \<in> free_set bm \<Longrightarrow> p < MAX_PAGES"
  by (simp add: free_set_def)

lemma phys_inv_new: "phys_inv PhysAllocator_new" "free_set (pa_bitmap PhysAllocator_new) = {}"
  using page_index by (auto simp: phys_inv_def PhysAllocator_new_def free_set_def page_free_bit)

section \<open>Laws of the operations\<close>

lemma init_bitmap:
  assumes "length bm = BITMAP_SIZE"
  shows "length (foldl (\<lambda>bm i. let page = s + i in if page < MAX_PAGES then mark_free bm page else bm) bm [0..<n]) = BITMAP_SIZE \<and>
    free_set (foldl (\<lambda>bm i. let page = s + i in if page < MAX_PAGES then mark_free bm page else bm) bm [0..<n]) =
      free_set bm \<union> ({s..<s + n} \<inter> {..<MAX_PAGES})"
proof (induction n)
  case (Suc n)
  have "{s..<s + Suc n} \<inter> {..<MAX_PAGES} =
      (if s + n < MAX_PAGES then insert (s + n) ({s..<s + n} \<inter> {..<MAX_PAGES}) else {s..<s + n} \<inter> {..<MAX_PAGES})"
    by (auto simp: less_Suc_eq)
  then show ?case using Suc by (simp add: Let_def free_set_mark)
qed (simp add: assms)

lemma phys_init_law:
  fixes start sz :: u64
  assumes "unat start div PAGE_SIZE \<le> MAX_PAGES"
  defines "a \<equiv> phys_init start sz PhysAllocator_new"
  shows "phys_inv a" "pa_total_pages a = pa_free_pages a"
    "free_set (pa_bitmap a) = {unat start div PAGE_SIZE..<min (unat start div PAGE_SIZE + unat sz div PAGE_SIZE) MAX_PAGES}"
proof -
  let ?s = "unat start div PAGE_SIZE" and ?n = "unat sz div PAGE_SIZE"
  have "length (pa_bitmap PhysAllocator_new) = BITMAP_SIZE" by (simp add: PhysAllocator_new_def)
  note b = init_bitmap [OF this, of ?s ?n]
  have bm: "pa_bitmap a = foldl (\<lambda>bm i. let page = ?s + i in if page < MAX_PAGES then mark_free bm page else bm)
      (pa_bitmap PhysAllocator_new) [0..<?n]"
    and cnt: "pa_free_pages a = min ?n (usize_sub MAX_PAGES ?s)" "pa_total_pages a = pa_free_pages a"
    by (simp_all add: a_def phys_init_def Let_def)
  show set: "free_set (pa_bitmap a) = {?s..<min (?s + ?n) MAX_PAGES}"
    unfolding bm b [THEN conjunct2] phys_inv_new by auto
  show "pa_total_pages a = pa_free_pages a" by (rule cnt(2))
  have "card {?s..<min (?s + ?n) MAX_PAGES} = min ?n (usize_sub MAX_PAGES ?s)"
    using assms(1) unfolding usize_sub_def by simp
  then show "phys_inv a" unfolding phys_inv_def set cnt(1) using b bm by simp
qed

lemma trailing_zeros_bit:
  assumes "w \<noteq> 0"
  shows "trailing_zeros w < 64" "bit w (trailing_zeros w)"
proof -
  obtain n where n: "n < 64" "bit w n" using assms by (auto simp: word_nonzero)
  let ?P = "\<lambda>i. \<not> bit w i"
  have "\<exists>x \<in> set [0..<64]. \<not> ?P x" using n by auto
  then have lt: "length (takeWhile ?P [0..<64]) < length [0..<64 :: nat]"
    using takeWhile_eq_all_conv [of ?P "[0..<64]"] takeWhile_eq_take [of ?P "[0..<64]"] length_takeWhile_le
    by (metis nat_less_le take_all_iff)
  then show "trailing_zeros w < 64" by (simp add: trailing_zeros_def)
  from nth_length_takeWhile [OF lt] lt show "bit w (trailing_zeros w)" by (simp add: trailing_zeros_def)
qed

lemma free_word:
  assumes "length bm = BITMAP_SIZE"
  shows "free_set bm = {} \<longleftrightarrow> (\<forall>i < BITMAP_SIZE. bm ! i = 0)"
proof
  assume e: "free_set bm = {}"
  show "\<forall>i < BITMAP_SIZE. bm ! i = 0"
  proof (intro allI impI)
    fix i :: nat assume i: "i < BITMAP_SIZE"
    have "\<not> bit (bm ! i) n" if "n < 64" for n
    proof -
      have "i * 64 + n \<notin> free_set bm" using e by simp
      then show ?thesis using that i by (simp add: free_set_def page_free_bit page_constants(1))
    qed
    then show "bm ! i = 0" using word_nonzero by blast
  qed
qed (use page_index in \<open>auto simp: free_set_def page_free_bit\<close>)

text \<open>The rotated scan visits every word, so it fails only when no page is free.\<close>

lemma rotation: "i < n \<Longrightarrow> \<exists>j < n. (k + j) mod n = i" for i k n :: nat
proof -
  assume i: "i < n"
  let ?j = "(i + n - k mod n) mod n"
  have "(k + ?j) mod n = (k mod n + (i + n - k mod n)) mod n" by (metis mod_add_left_eq mod_add_right_eq)
  also have "k mod n + (i + n - k mod n) = i + n" using i mod_less_divisor [of n k] by linarith
  also have "(i + n) mod n = i" using i by simp
  finally show ?thesis using i by (intro exI [of _ ?j]) simp
qed

lemma alloc_page_some:
  assumes "phys_inv a" "alloc_page a = (Some x, a')"
  shows "\<exists>p \<in> free_set (pa_bitmap a). x = of_nat (p * PAGE_SIZE) \<and> phys_inv a' \<and>
    free_set (pa_bitmap a') = free_set (pa_bitmap a) - {p} \<and> pa_total_pages a' = pa_total_pages a"
proof -
  let ?bm = "pa_bitmap a"
  obtain idx where f: "find (\<lambda>idx. ?bm ! idx \<noteq> 0)
      (map (\<lambda>i. (pa_next_free a div 64 + i) mod BITMAP_SIZE) [0..<BITMAP_SIZE]) = Some idx"
    using assms(2) by (auto simp: alloc_page_def split: if_splits option.splits)
  then have idx: "?bm ! idx \<noteq> 0" "idx < BITMAP_SIZE" by (auto simp: find_Some_iff)
  note tz = trailing_zeros_bit [OF idx(1)]
  let ?p = "idx * 64 + trailing_zeros (?bm ! idx)"
  have eq: "?p div 64 = idx" "?p mod 64 = trailing_zeros (?bm ! idx)" using tz(1) by simp_all
  have a': "x = of_nat (?p * PAGE_SIZE)"
    "a' = a\<lparr>pa_bitmap := mark_used ?bm ?p, pa_free_pages := pa_free_pages a - 1, pa_next_free := ?p + 1\<rparr>"
    using assms(2) f unfolding mark_used_def eq by (auto simp: alloc_page_def Let_def split: if_splits)
  have len: "length ?bm = BITMAP_SIZE" using assms(1) by (simp add: phys_inv_def)
  have p: "?p < MAX_PAGES" using idx(2) tz(1) by (simp add: page_constants(1))
  then have mem: "?p \<in> free_set ?bm" using tz(2) unfolding free_set_def page_free_bit mem_Collect_eq eq by simp
  have fs: "free_set (pa_bitmap a') = free_set ?bm - {?p}" unfolding a'(2) using free_set_mark(2) [OF len p] by simp
  have "pa_free_pages a' = card (free_set ?bm - {?p})"
    using assms(1) mem by (simp add: a'(2) phys_inv_def)
  then have "phys_inv a'" using fs len by (simp add: phys_inv_def a'(2))
  then show ?thesis using mem a'(1) fs by (intro bexI [of _ ?p]) (simp_all add: a'(2))
qed

lemma alloc_page_none:
  assumes "phys_inv a" "alloc_page a = (None, a')"
  shows "a' = a" "free_set (pa_bitmap a) = {}"
proof -
  let ?bm = "pa_bitmap a"
  show "a' = a" using assms(2) by (auto simp: alloc_page_def Let_def split: if_splits option.splits)
  show "free_set ?bm = {}"
  proof (cases "pa_free_pages a = 0")
    case True
    then show ?thesis using assms(1) by (simp add: phys_inv_def)
  next
    case False
    then have "find (\<lambda>idx. ?bm ! idx \<noteq> 0)
      (map (\<lambda>i. (pa_next_free a div 64 + i) mod BITMAP_SIZE) [0..<BITMAP_SIZE]) = None"
      using assms(2) by (auto simp: alloc_page_def Let_def split: if_splits option.splits)
    then have "\<forall>j < BITMAP_SIZE. ?bm ! ((pa_next_free a div 64 + j) mod BITMAP_SIZE) = 0" by (auto simp: find_None_iff)
    then have "\<forall>i < BITMAP_SIZE. ?bm ! i = 0" using rotation [where n = BITMAP_SIZE] by metis
    then show ?thesis using free_word [of ?bm] assms(1) by (simp add: phys_inv_def)
  qed
qed

lemma page_of_address:
  assumes "p < MAX_PAGES"
  shows "unat (of_nat (p * PAGE_SIZE) :: u64) div PAGE_SIZE = p"
proof -
  have "p * PAGE_SIZE < MAX_PAGES * PAGE_SIZE" using assms page_constants(2) by simp
  then have "p * PAGE_SIZE < 2 ^ 64" using page_constants(3) by simp
  then show ?thesis using page_constants(2) by (simp add: unat_of_nat take_bit_nat_eq_self del: of_nat_mult)
qed

lemma free_page_law:
  assumes "phys_inv a" "p < MAX_PAGES"
  shows "phys_inv (free_page (of_nat (p * PAGE_SIZE)) a)"
    "free_set (pa_bitmap (free_page (of_nat (p * PAGE_SIZE)) a)) = insert p (free_set (pa_bitmap a))"
    "pa_total_pages (free_page (of_nat (p * PAGE_SIZE)) a) = pa_total_pages a"
proof -
  note page = page_of_address [OF assms(2)]
  have len: "length (pa_bitmap a) = BITMAP_SIZE" using assms(1) by (simp add: phys_inv_def)
  note m = free_set_mark(1) [OF len assms(2)]
  have mem: "p \<in> free_set (pa_bitmap a) \<longleftrightarrow> page_free (pa_bitmap a) p" using assms(2) by (simp add: free_set_def)
  have f: "free_page (of_nat (p * PAGE_SIZE)) a = (if p \<notin> free_set (pa_bitmap a)
      then a\<lparr>pa_bitmap := mark_free (pa_bitmap a) p, pa_free_pages := pa_free_pages a + 1,
          pa_next_free := (if p < pa_next_free a then p else pa_next_free a)\<rparr> else a)"
    unfolding free_page_def page Let_def using assms(2) mem by simp
  show "phys_inv (free_page (of_nat (p * PAGE_SIZE)) a)"
    "free_set (pa_bitmap (free_page (of_nat (p * PAGE_SIZE)) a)) = insert p (free_set (pa_bitmap a))"
    "pa_total_pages (free_page (of_nat (p * PAGE_SIZE)) a) = pa_total_pages a"
    unfolding f using assms(1) m len by (auto simp: phys_inv_def)
qed

text \<open>The scan for a run: the lowest run of \<open>cnt\<close> free pages, if there is one.\<close>

definition free_run :: "u64 list \<Rightarrow> nat \<Rightarrow> nat \<Rightarrow> bool" where
  "free_run bm cnt s \<longleftrightarrow> (\<forall>i < cnt. page_free bm (s + i))"

lemma free_runD: "free_run bm cnt s \<Longrightarrow> s \<le> i \<Longrightarrow> i < s + cnt \<Longrightarrow> page_free bm i"
  unfolding free_run_def by (metis add_diff_inverse_nat nat_add_left_cancel_less not_le)

lemma free_runI: "{s..<s + cnt} \<subseteq> free_set bm \<Longrightarrow> free_run bm cnt s"
  by (auto simp: free_run_def free_set_def subset_iff)

lemma contig_scan_spec:
  assumes "r < cnt" "r \<le> p" "0 < r \<longrightarrow> st = p - r" "\<forall>i. p - r \<le> i \<and> i < p \<longrightarrow> page_free bm i"
  shows "case contig_scan bm cnt [p..<N] st r of
      Some s \<Rightarrow> s + cnt \<le> N \<and> free_run bm cnt s \<and> (\<forall>s'. p - r \<le> s' \<and> s' < s \<longrightarrow> \<not> free_run bm cnt s')
    | None \<Rightarrow> \<forall>s'. p - r \<le> s' \<and> s' + cnt \<le> N \<longrightarrow> \<not> free_run bm cnt s'"
  using assms
proof (induction "N - p" arbitrary: p st r)
  case 0
  have "\<not> free_run bm cnt s'" if "p - r \<le> s'" "s' + cnt \<le> N" for s'
    using that 0 by linarith
  then show ?case using 0 by simp
next
  case (Suc k)
  have split: "[p..<N] = p # [Suc p..<N]" using Suc.hyps(2) by (simp add: upt_conv_Cons)
  have k: "k = N - Suc p" using Suc.hyps(2) by simp
  show ?case
  proof (cases "page_free bm p")
    case False
    have skip: "\<not> free_run bm cnt s'" if "p - r \<le> s'" "s' < Suc p" for s'
      using that False free_runD [of bm cnt s' p] Suc.prems(1,2) by linarith
    have "contig_scan bm cnt [p..<N] st r = contig_scan bm cnt [Suc p..<N] st 0" using False by (simp add: split)
    moreover note Suc.hyps(1) [OF k, of 0 st]
    ultimately show ?thesis using Suc.prems(1) skip by (force split: option.splits simp: not_less)
  next
    case free: True
    let ?st = "if r = 0 then p else st"
    have st: "?st = p - r" using Suc.prems(3) by auto
    have all: "\<forall>i. p - r \<le> i \<and> i < Suc p \<longrightarrow> page_free bm i" using Suc.prems(4) free by (auto simp: less_Suc_eq)
    show ?thesis
    proof (cases "r + 1 = cnt")
      case True
      then have "contig_scan bm cnt [p..<N] st r = Some (p - r)" using free st by (simp add: split Let_def)
      moreover have "free_run bm cnt (p - r)"
        unfolding free_run_def using all True Suc.prems(2) by (intro allI impI all [rule_format]) linarith
      moreover have "p - r + cnt \<le> N" using True Suc.prems(2) Suc.hyps(2) by linarith
      ultimately show ?thesis by auto
    next
      case False
      then have "contig_scan bm cnt [p..<N] st r = contig_scan bm cnt [Suc p..<N] ?st (r + 1)"
        using free by (simp add: split Let_def)
      then show ?thesis using Suc.hyps(1) [OF k, of "Suc r" ?st] False Suc.prems(1,2) st all
        by (simp split: option.splits)
    qed
  qed
qed

lemma mark_run:
  assumes "length bm = BITMAP_SIZE" "s + n \<le> MAX_PAGES"
  shows "length (foldl (\<lambda>bm i. mark_used bm (s + i)) bm [0..<n]) = BITMAP_SIZE \<and>
    free_set (foldl (\<lambda>bm i. mark_used bm (s + i)) bm [0..<n]) = free_set bm - {s..<s + n}"
  using assms(2)
proof (induction n)
  case (Suc n)
  let ?f = "foldl (\<lambda>bm i. mark_used bm (s + i)) bm [0..<n]"
  have f: "foldl (\<lambda>bm i. mark_used bm (s + i)) bm [0..<Suc n] = mark_used ?f (s + n)" by simp
  have IH: "length ?f = BITMAP_SIZE" "free_set ?f = free_set bm - {s..<s + n}" using Suc by simp_all
  have "free_set (mark_used ?f (s + n)) = free_set bm - {s..<s + n} - {s + n}"
    using free_set_mark(2) [OF IH(1), of "s + n"] IH(2) Suc.prems by simp
  moreover have "{s..<s + Suc n} = insert (s + n) {s..<s + n}" by auto
  ultimately show ?case unfolding f using IH(1) by (metis Diff_insert mark_length(2))
qed (simp add: assms(1))

lemma alloc_contiguous_some:
  assumes "phys_inv a" "alloc_contiguous cnt a = (Some x, a')"
  shows "\<exists>s. 0 < cnt \<and> x = of_nat (s * PAGE_SIZE) \<and> s + cnt \<le> MAX_PAGES \<and> {s..<s + cnt} \<subseteq> free_set (pa_bitmap a) \<and>
    (\<forall>s' < s. \<not> {s'..<s' + cnt} \<subseteq> free_set (pa_bitmap a)) \<and> phys_inv a' \<and>
    free_set (pa_bitmap a') = free_set (pa_bitmap a) - {s..<s + cnt} \<and> pa_total_pages a' = pa_total_pages a"
proof -
  let ?bm = "pa_bitmap a"
  have cnt: "0 < cnt" using assms(2) by (auto simp: alloc_contiguous_def split: if_splits)
  obtain s where s: "contig_scan ?bm cnt [0..<MAX_PAGES] 0 0 = Some s"
    using assms(2) by (auto simp: alloc_contiguous_def split: if_splits option.splits)
  then have a': "x = of_nat (s * PAGE_SIZE)" "a' = a\<lparr>pa_bitmap := foldl (\<lambda>bm i. mark_used bm (s + i)) ?bm [0..<cnt],
      pa_free_pages := pa_free_pages a - cnt\<rparr>"
    using assms(2) by (auto simp: alloc_contiguous_def split: if_splits)
  have run: "s + cnt \<le> MAX_PAGES" "free_run ?bm cnt s" "\<forall>s' < s. \<not> free_run ?bm cnt s'"
    using contig_scan_spec [of 0 cnt 0 0 ?bm MAX_PAGES] cnt s by simp_all
  have sub: "{s..<s + cnt} \<subseteq> free_set ?bm" using run(1) free_runD [OF run(2)] by (auto simp: free_set_def)
  have low: "\<not> {s'..<s' + cnt} \<subseteq> free_set ?bm" if "s' < s" for s'
    using run(3) that free_runI by blast
  have "length ?bm = BITMAP_SIZE" using assms(1) by (simp add: phys_inv_def)
  note m = mark_run [OF this run(1)]
  have "card (free_set ?bm - {s..<s + cnt}) = pa_free_pages a - cnt"
    using sub assms(1) by (simp add: card_Diff_subset phys_inv_def)
  then have "phys_inv a'" using m by (simp add: phys_inv_def a'(2))
  then show ?thesis using cnt a'(1) run(1) sub low m by (intro exI [of _ s]) (simp add: a'(2))
qed

lemma alloc_contiguous_none:
  assumes "phys_inv a" "alloc_contiguous cnt a = (None, a')"
  shows "a' = a" "cnt = 0 \<or> (\<forall>s. s + cnt \<le> MAX_PAGES \<longrightarrow> \<not> {s..<s + cnt} \<subseteq> free_set (pa_bitmap a))"
proof -
  let ?bm = "pa_bitmap a"
  show "a' = a" using assms(2) by (auto simp: alloc_contiguous_def split: if_splits option.splits)
  show "cnt = 0 \<or> (\<forall>s. s + cnt \<le> MAX_PAGES \<longrightarrow> \<not> {s..<s + cnt} \<subseteq> free_set ?bm)"
  proof (cases "cnt = 0 \<or> pa_free_pages a < cnt")
    case True
    have "card {s..<s + cnt} \<le> pa_free_pages a" if "{s..<s + cnt} \<subseteq> free_set ?bm" for s
      using assms(1) that card_mono [OF finite_free_set] unfolding phys_inv_def by metis
    then show ?thesis using True by fastforce
  next
    case False
    then have "contig_scan ?bm cnt [0..<MAX_PAGES] 0 0 = None"
      using assms(2) by (auto simp: alloc_contiguous_def split: option.splits)
    then have "\<forall>s. s + cnt \<le> MAX_PAGES \<longrightarrow> \<not> free_run ?bm cnt s"
      using contig_scan_spec [of 0 cnt 0 0 ?bm MAX_PAGES] False by simp
    then show ?thesis using free_runI by blast
  qed
qed

section \<open>The allocator's contract and its clients\<close>

text \<open>What the kernel does with an allocator: take a page, take a run of pages, give back a page it
  holds. \<open>run_pages\<close> keeps the list of the pages held.\<close>

datatype page_cmd = TakePage | TakeRun nat | GivePage nat

fun page_step ::
  "('a \<Rightarrow> u64 option \<times> 'a) \<Rightarrow> (nat \<Rightarrow> 'a \<Rightarrow> u64 option \<times> 'a) \<Rightarrow> (u64 \<Rightarrow> 'a \<Rightarrow> 'a) \<Rightarrow>
   page_cmd \<Rightarrow> 'a \<times> nat list \<Rightarrow> 'a \<times> nat list" where
  "page_step alloc contig free TakePage (a, held) =
     (case alloc a of (Some x, a') \<Rightarrow> (a', unat x div PAGE_SIZE # held) | (None, a') \<Rightarrow> (a', held))"
| "page_step alloc contig free (TakeRun n) (a, held) =
     (case contig n a of (Some x, a') \<Rightarrow> (a', map (\<lambda>i. unat x div PAGE_SIZE + i) [0..<n] @ held) | (None, a') \<Rightarrow> (a', held))"
| "page_step alloc contig free (GivePage p) (a, held) =
     (if p \<in> set held then (free (of_nat (p * PAGE_SIZE)) a, remove1 p held) else (a, held))"

locale page_allocator =
  fixes alloc :: "'a \<Rightarrow> u64 option \<times> 'a" and contig :: "nat \<Rightarrow> 'a \<Rightarrow> u64 option \<times> 'a" and free :: "u64 \<Rightarrow> 'a \<Rightarrow> 'a"
    and inv :: "'a \<Rightarrow> bool" and avail :: "'a \<Rightarrow> nat set"
  assumes avail_bound: "inv a \<Longrightarrow> avail a \<subseteq> {..<MAX_PAGES}"
    and alloc_law: "inv a \<Longrightarrow> alloc a = (Some x, a') \<Longrightarrow>
      \<exists>p \<in> avail a. x = of_nat (p * PAGE_SIZE) \<and> inv a' \<and> avail a' = avail a - {p}"
    and alloc_fails: "inv a \<Longrightarrow> alloc a = (None, a') \<Longrightarrow> a' = a"
    and contig_law: "inv a \<Longrightarrow> contig n a = (Some x, a') \<Longrightarrow>
      \<exists>s. x = of_nat (s * PAGE_SIZE) \<and> 0 < n \<and> {s..<s + n} \<subseteq> avail a \<and> inv a' \<and> avail a' = avail a - {s..<s + n}"
    and contig_fails: "inv a \<Longrightarrow> contig n a = (None, a') \<Longrightarrow> a' = a"
    and free_law: "inv a \<Longrightarrow> p < MAX_PAGES \<Longrightarrow>
      inv (free (of_nat (p * PAGE_SIZE)) a) \<and> avail (free (of_nat (p * PAGE_SIZE)) a) = insert p (avail a)"
begin

definition sane :: "nat set \<Rightarrow> 'a \<times> nat list \<Rightarrow> bool" where
  "sane U st \<longleftrightarrow> inv (fst st) \<and> distinct (snd st) \<and> avail (fst st) \<inter> set (snd st) = {} \<and>
     avail (fst st) \<union> set (snd st) = U"

lemma step_sane:
  assumes "sane U st" "U \<subseteq> {..<MAX_PAGES}"
  shows "sane U (page_step alloc contig free c st)"
proof -
  obtain a held where st: "st = (a, held)" by fastforce
  have s: "inv a" "distinct held" "avail a \<inter> set held = {}" "avail a \<union> set held = U"
    using assms(1) by (simp_all add: sane_def st)
  note page = page_of_address
  show ?thesis
  proof (cases c)
    case TakePage
    obtain r a' where r: "alloc a = (r, a')" by fastforce
    show ?thesis
    proof (cases r)
      case (Some x)
      then obtain p where p: "p \<in> avail a" "x = of_nat (p * PAGE_SIZE)" "inv a'" "avail a' = avail a - {p}"
        using alloc_law [OF s(1)] r by blast
      then have "unat x div PAGE_SIZE = p" using avail_bound [OF s(1)] page by blast
      then show ?thesis using Some TakePage st r p s by (auto simp: sane_def)
    qed (use TakePage st r alloc_fails [OF s(1)] assms(1) in auto)
  next
    case (TakeRun n)
    obtain r a' where r: "contig n a = (r, a')" by fastforce
    show ?thesis
    proof (cases r)
      case (Some x)
      then obtain b where b: "x = of_nat (b * PAGE_SIZE)" "0 < n" "{b..<b + n} \<subseteq> avail a" "inv a'" "avail a' = avail a - {b..<b + n}"
        using contig_law [OF s(1)] r by blast
      have "b \<in> avail a" using b(2,3) by auto
      then have "unat x div PAGE_SIZE = b" using b(1) avail_bound [OF s(1)] page by blast
      moreover have "map (\<lambda>i. b + i) [0..<n] = [b..<b + n]" using map_add_upt [of b n] by (simp add: add.commute)
      ultimately have "page_step alloc contig free c st = (a', [b..<b + n] @ held)"
        using Some TakeRun st r by simp
      then show ?thesis using b(3-5) s unfolding sane_def by auto
    qed (use TakeRun st r contig_fails [OF s(1)] assms(1) in auto)
  next
    case (GivePage p)
    show ?thesis
    proof (cases "p \<in> set held")
      case True
      then have "p < MAX_PAGES" using s(4) assms(2) by auto
      from free_law [OF s(1) this] show ?thesis using GivePage True st s by (auto simp: sane_def)
    qed (use GivePage st assms(1) in simp)
  qed
qed

lemma run_sane:
  assumes "inv a"
  shows "sane (avail a) (foldl (\<lambda>st c. page_step alloc contig free c st) (a, []) cmds)"
proof (induction cmds rule: rev_induct)
  case (snoc c cmds)
  then show ?case using step_sane [OF snoc avail_bound [OF assms]] by simp
qed (simp add: sane_def assms)

end

interpretation phys: page_allocator alloc_page alloc_contiguous free_page phys_inv "\<lambda>a. free_set (pa_bitmap a)"
proof
  show "free_set (pa_bitmap a) \<subseteq> {..<MAX_PAGES}" for a by (auto simp: free_set_def)
  show "\<exists>p \<in> free_set (pa_bitmap a). x = of_nat (p * PAGE_SIZE) \<and> phys_inv a' \<and> free_set (pa_bitmap a') = free_set (pa_bitmap a) - {p}"
    if "phys_inv a" "alloc_page a = (Some x, a')" for a x a'
    using alloc_page_some [OF that] by auto
  show "a' = a" if "phys_inv a" "alloc_page a = (None, a')" for a a' by (rule alloc_page_none(1) [OF that])
  show "\<exists>s. x = of_nat (s * PAGE_SIZE) \<and> 0 < n \<and> {s..<s + n} \<subseteq> free_set (pa_bitmap a) \<and> phys_inv a' \<and>
      free_set (pa_bitmap a') = free_set (pa_bitmap a) - {s..<s + n}"
    if "phys_inv a" "alloc_contiguous n a = (Some x, a')" for a n x a'
    using alloc_contiguous_some [OF that] by auto
  show "a' = a" if "phys_inv a" "alloc_contiguous n a = (None, a')" for a n a' by (rule alloc_contiguous_none(1) [OF that])
qed (simp_all add: free_page_law del: of_nat_mult)

abbreviation run_pages :: "page_cmd list \<Rightarrow> phys_allocator \<Rightarrow> phys_allocator \<times> nat list" where
  "run_pages cmds a \<equiv> foldl (\<lambda>st c. page_step alloc_page alloc_contiguous free_page c st) (a, []) cmds"

lemma page_step_total: "pa_total_pages (fst (page_step alloc_page alloc_contiguous free_page c st)) = pa_total_pages (fst st)"
  by (cases c; cases st)
    (auto simp: alloc_page_def alloc_contiguous_def free_page_def Let_def split: option.splits)

lemma run_pages_total: "pa_total_pages (fst (run_pages cmds a)) = pa_total_pages a"
  by (induction cmds rule: rev_induct) (simp_all add: page_step_total)

section \<open>Properties\<close>

text \<open>C16. Pages are neither handed out twice nor lost. After initialisation with a range of memory and
  any sequence of single and contiguous allocations and frees of held pages, the pages held are
  distinct, the pages free and the pages held are disjoint and together exactly the initial range,
  and the statistics report the number of held pages as used.\<close>

theorem phys_pages_conserved:
  assumes "unat start div PAGE_SIZE \<le> MAX_PAGES"
    and "run_pages cmds (phys_init start sz PhysAllocator_new) = (a, held)"
  shows "distinct held \<and> free_set (pa_bitmap a) \<inter> set held = {} \<and>
    free_set (pa_bitmap a) \<union> set held =
      {unat start div PAGE_SIZE..<min (unat start div PAGE_SIZE + unat sz div PAGE_SIZE) MAX_PAGES} \<and>
    ps_used_pages (stats a) = length held"
proof -
  let ?a0 = "phys_init start sz PhysAllocator_new" and ?U = "free_set (pa_bitmap (phys_init start sz PhysAllocator_new))"
  note i = phys_init_law [OF assms(1), where sz = sz]
  have s: "phys_inv a" "distinct held" "free_set (pa_bitmap a) \<inter> set held = {}" "free_set (pa_bitmap a) \<union> set held = ?U"
    using phys.run_sane [OF i(1), where cmds = cmds] unfolding phys.sane_def assms(2) by simp_all
  have "card ?U = card (free_set (pa_bitmap a)) + length held"
    using s(2,3) by (simp add: s(4) [symmetric] card_Un_disjoint distinct_card)
  moreover have "pa_total_pages a = card ?U"
    using run_pages_total [where cmds = cmds and a = ?a0] i(1,2) unfolding assms(2) by (simp add: phys_inv_def)
  moreover have "pa_free_pages a = card (free_set (pa_bitmap a))" using s(1) by (simp add: phys_inv_def)
  ultimately have "ps_used_pages (stats a) = length held" by (simp add: stats_def usize_sub_def)
  then show ?thesis using s(2-4) i(3) by simp
qed

theorem phys_pages_conserved_witness:
  "\<exists>a held. run_pages [TakePage, TakeRun 3, GivePage 4096] (phys_init 0x1000000 0x8000000 PhysAllocator_new) = (a, held) \<and>
     distinct held \<and> ps_used_pages (stats a) = length held"
proof -
  obtain a held where r: "run_pages [TakePage, TakeRun 3, GivePage 4096] (phys_init 0x1000000 0x8000000 PhysAllocator_new) = (a, held)"
    by (rule prod.exhaust)
  have "unat (0x1000000 :: u64) div PAGE_SIZE \<le> MAX_PAGES"
    by (simp add: PAGE_SIZE_def MAX_PAGES_def MAX_PHYS_MEMORY_def)
  from phys_pages_conserved [OF this r] r show ?thesis by blast
qed

text \<open>C34. Allocation succeeds exactly when it can. In every state that satisfies the invariant, a
  single allocation fails only when no page is free, and otherwise returns the address of a free
  page, which it alone makes used; a contiguous allocation returns the lowest run of free pages of
  that length and makes exactly these used, and fails only for length 0 or when there is no such run.\<close>

theorem phys_alloc_complete:
  assumes "phys_inv a"
  shows "(case alloc_page a of
      (Some x, a') \<Rightarrow> \<exists>p \<in> free_set (pa_bitmap a). x = of_nat (p * PAGE_SIZE) \<and> phys_inv a' \<and>
        free_set (pa_bitmap a') = free_set (pa_bitmap a) - {p}
    | (None, a') \<Rightarrow> a' = a \<and> free_set (pa_bitmap a) = {}) \<and>
    (case alloc_contiguous n a of
      (Some x, a') \<Rightarrow> \<exists>s. x = of_nat (s * PAGE_SIZE) \<and> {s..<s + n} \<subseteq> free_set (pa_bitmap a) \<and>
        (\<forall>s' < s. \<not> {s'..<s' + n} \<subseteq> free_set (pa_bitmap a)) \<and> phys_inv a' \<and>
        free_set (pa_bitmap a') = free_set (pa_bitmap a) - {s..<s + n}
    | (None, a') \<Rightarrow> a' = a \<and> (n = 0 \<or> (\<forall>s. s + n \<le> MAX_PAGES \<longrightarrow> \<not> {s..<s + n} \<subseteq> free_set (pa_bitmap a))))"
proof -
  obtain r a1 where one: "alloc_page a = (r, a1)" by fastforce
  obtain q a2 where many: "alloc_contiguous n a = (q, a2)" by fastforce
  have "case r of Some x \<Rightarrow> \<exists>p \<in> free_set (pa_bitmap a). x = of_nat (p * PAGE_SIZE) \<and> phys_inv a1 \<and>
      free_set (pa_bitmap a1) = free_set (pa_bitmap a) - {p} | None \<Rightarrow> a1 = a \<and> free_set (pa_bitmap a) = {}"
  proof (cases r)
    case (Some x)
    then show ?thesis using alloc_page_some [OF assms, of x a1] one by auto
  qed (use alloc_page_none [OF assms, of a1] one in simp)
  moreover have "case q of Some x \<Rightarrow> \<exists>s. x = of_nat (s * PAGE_SIZE) \<and> {s..<s + n} \<subseteq> free_set (pa_bitmap a) \<and>
      (\<forall>s' < s. \<not> {s'..<s' + n} \<subseteq> free_set (pa_bitmap a)) \<and> phys_inv a2 \<and>
      free_set (pa_bitmap a2) = free_set (pa_bitmap a) - {s..<s + n}
    | None \<Rightarrow> a2 = a \<and> (n = 0 \<or> (\<forall>s. s + n \<le> MAX_PAGES \<longrightarrow> \<not> {s..<s + n} \<subseteq> free_set (pa_bitmap a)))"
  proof (cases q)
    case (Some x)
    then show ?thesis using alloc_contiguous_some [OF assms, of n x a2] many by auto
  qed (use alloc_contiguous_none [OF assms, of n a2] many in simp)
  ultimately show ?thesis unfolding one many by (simp split: option.splits)
qed

theorem phys_alloc_complete_witness:
  "alloc_page PhysAllocator_new = (None, PhysAllocator_new) \<and>
   (\<exists>x a'. alloc_page (phys_init 0x1000000 0x8000000 PhysAllocator_new) = (Some x, a'))"
proof
  show "alloc_page PhysAllocator_new = (None, PhysAllocator_new)"
    by (simp add: alloc_page_def PhysAllocator_new_def)
  let ?a = "phys_init 0x1000000 0x8000000 PhysAllocator_new"
  have "unat (0x1000000 :: u64) div PAGE_SIZE \<le> MAX_PAGES"
    by (simp add: PAGE_SIZE_def MAX_PAGES_def MAX_PHYS_MEMORY_def)
  note i = phys_init_law [OF this, where sz = "0x8000000"]
  have "4096 \<in> free_set (pa_bitmap ?a)"
    unfolding i(3) by (simp add: PAGE_SIZE_def MAX_PAGES_def MAX_PHYS_MEMORY_def)
  then show "\<exists>x a'. alloc_page ?a = (Some x, a')"
    using phys_alloc_complete [OF i(1), THEN conjunct1] by (cases "alloc_page ?a") (auto split: option.splits)
qed

end
