(* ===== verification/Kern_Paging.thy ===== *)
theory Kern_Paging
  imports Phys_Mem
begin

text \<open>
  Four-level page tables, \<open>crates/core/mem/src/paging.rs\<close>.

  A table is a function from indices to 64-bit entries; the tables behind pointers live in the
  kernel's identity-mapped memory \<open>kmem\<close>, where every frame exists, so a walk through a wrong entry
  reads (and writes) some frame as the code does. The root table is a field of the manager. New
  tables come from the kernel heap, which is a parameter \<open>heap\<close>: given the addresses of the live
  allocations it returns a new one, or \<open>None\<close> when the allocation fails, which is a panic.

  The processor's own walk is \<open>translate\<close>: frame, writability and user access of a page. The main
  lemmas say what each operation does to it: growing the hierarchy, raising \<open>USER\<close> on it and splitting
  a huge page change no translation, and setting the last entry changes exactly one.
\<close>

section \<open>Model\<close>

definition LARGE_PAGE_SIZE :: nat where "LARGE_PAGE_SIZE = 0x200000"
definition KERNEL_SPACE_START :: u64 where "KERNEL_SPACE_START = 0xFFFFFFFF80000000"
definition USER_SPACE_MAX :: u64 where "USER_SPACE_MAX = 0x00007FFFFFFFFFFF"

definition PRESENT :: u64 where "PRESENT = push_bit 0 1"
definition WRITABLE :: u64 where "WRITABLE = push_bit 1 1"
definition USER :: u64 where "USER = push_bit 2 1"
definition HUGE_PAGE :: u64 where "HUGE_PAGE = push_bit 7 1"
definition GLOBAL :: u64 where "GLOBAL = push_bit 8 1"
definition ADDR_MASK :: u64 where "ADDR_MASK = 0x000FFFFFFFFFF000"

type_synonym table = "nat \<Rightarrow> u64"

text \<open>A table in use: the manager's own root or the target of a pointer.\<close>

datatype table_ref = Root | At u64

record kmem =
  km_frames :: "u64 \<Rightarrow> table"
  km_live :: "u64 list"

record process_page_table =
  ppt_pml4 :: table
  ppt_tables :: "u64 list"
  ppt_phys :: "u64 list"

type_synonym space = "process_page_table \<times> kmem"
type_synonym heap = "u64 list \<Rightarrow> u64 option"

definition PageTable_new :: table where "PageTable_new = (\<lambda>_. 0)"

fun table_of :: "space \<Rightarrow> table_ref \<Rightarrow> table" where
  "table_of (ppt, km) Root = ppt_pml4 ppt"
| "table_of (ppt, km) (At a) = km_frames km a"

definition get_entry :: "space \<Rightarrow> table_ref \<Rightarrow> nat \<Rightarrow> u64" where
  "get_entry st r idx = table_of st r idx"

fun set_entry :: "table_ref \<Rightarrow> nat \<Rightarrow> u64 \<Rightarrow> space \<Rightarrow> space" where
  "set_entry Root idx e (ppt, km) = (ppt\<lparr>ppt_pml4 := (ppt_pml4 ppt)(idx := e)\<rparr>, km)"
| "set_entry (At a) idx e (ppt, km) = (ppt, km\<lparr>km_frames := (km_frames km)(a := (km_frames km a)(idx := e))\<rparr>)"

definition is_present :: "space \<Rightarrow> table_ref \<Rightarrow> nat \<Rightarrow> bool" where
  "is_present st r idx \<longleftrightarrow> get_entry st r idx AND PRESENT \<noteq> 0"

definition pml4_idx :: "u64 \<Rightarrow> nat" where "pml4_idx v = unat (drop_bit 39 v AND 0x1FF)"
definition pdp_idx :: "u64 \<Rightarrow> nat" where "pdp_idx v = unat (drop_bit 30 v AND 0x1FF)"
definition pd_idx :: "u64 \<Rightarrow> nat" where "pd_idx v = unat (drop_bit 21 v AND 0x1FF)"
definition pt_idx :: "u64 \<Rightarrow> nat" where "pt_idx v = unat (drop_bit 12 v AND 0x1FF)"

fun allocate_table :: "heap \<Rightarrow> space \<Rightarrow> (string, u64 \<times> space) res" where
  "allocate_table heap (ppt, km) =
     (case heap (km_live km) of
        None \<Rightarrow> Panic
      | Some a \<Rightarrow> Ok (a, ppt\<lparr>ppt_tables := ppt_tables ppt @ [a]\<rparr>,
          km\<lparr>km_frames := (km_frames km)(a := PageTable_new), km_live := a # km_live km\<rparr>))"

definition hier_flags :: "u64 \<Rightarrow> u64" where
  "hier_flags flags = PRESENT OR WRITABLE OR (if flags AND USER \<noteq> 0 then USER else 0)"

text \<open>The pointer in an entry.\<close>

definition next_table :: "space \<Rightarrow> table_ref \<Rightarrow> nat \<Rightarrow> table_ref" where
  "next_table st r idx = At (get_entry st r idx AND ADDR_MASK)"

text \<open>``Ensure the next table exists, add the USER flag to its entry if needed'', which both mapping
  functions do at the two upper levels.\<close>

definition add_user :: "table_ref \<Rightarrow> nat \<Rightarrow> space \<Rightarrow> space" where
  "add_user r idx st =
     (let entry = get_entry st r idx in if entry AND USER = 0 then set_entry r idx (entry OR USER) st else st)"

definition ensure_table :: "heap \<Rightarrow> table_ref \<Rightarrow> nat \<Rightarrow> u64 \<Rightarrow> space \<Rightarrow> (string, space) res" where
  "ensure_table heap r idx flags st =
     (if \<not> is_present st r idx then
        rbind (allocate_table heap st) (\<lambda>(a, st). Ok (set_entry r idx (a OR hier_flags flags) st))
      else if flags AND USER \<noteq> 0 then Ok (add_user r idx st)
      else Ok st)"

definition map_large_page :: "heap \<Rightarrow> u64 \<Rightarrow> u64 \<Rightarrow> u64 \<Rightarrow> space \<Rightarrow> (string, space) res" where
  "map_large_page heap virt_addr phys_addr flags st =
     rbind (ensure_table heap Root (pml4_idx virt_addr) flags st) (\<lambda>st.
       let pdp = next_table st Root (pml4_idx virt_addr) in
       rbind (ensure_table heap pdp (pdp_idx virt_addr) flags st) (\<lambda>st.
         let pd = next_table st pdp (pdp_idx virt_addr) in
         Ok (set_entry pd (pd_idx virt_addr) (phys_addr OR flags OR HUGE_PAGE) st)))"

text \<open>The last level of \<open>map_4k_page\<close>: a huge page in the way is split into 512 pages.\<close>

definition ensure_pt :: "heap \<Rightarrow> table_ref \<Rightarrow> nat \<Rightarrow> u64 \<Rightarrow> space \<Rightarrow> (string, space) res" where
  "ensure_pt heap pd idx flags st =
     (let pd_entry = get_entry st pd idx in
      if \<not> is_present st pd idx then
        rbind (allocate_table heap st) (\<lambda>(pt, st). Ok (set_entry pd idx (pt OR hier_flags flags) st))
      else if pd_entry AND HUGE_PAGE \<noteq> 0 then
        let huge_phys_base = pd_entry AND ADDR_MASK;
            old_flags = pd_entry AND NOT ADDR_MASK AND NOT HUGE_PAGE in
        rbind (allocate_table heap st) (\<lambda>(pt, st).
          let st = foldl (\<lambda>st i. set_entry (At pt) i ((huge_phys_base + of_nat i * of_nat PAGE_SIZE) OR old_flags) st)
                st [0..<512] in
          Ok (set_entry pd idx (pt OR hier_flags flags) st))
      else if flags AND USER \<noteq> 0 then Ok (add_user pd idx st)
      else Ok st)"

definition map_4k_page :: "heap \<Rightarrow> u64 \<Rightarrow> u64 \<Rightarrow> u64 \<Rightarrow> space \<Rightarrow> (string, space) res" where
  "map_4k_page heap virt_addr phys_addr flags st =
     rbind (ensure_table heap Root (pml4_idx virt_addr) flags st) (\<lambda>st.
       let pdp = next_table st Root (pml4_idx virt_addr) in
       rbind (ensure_table heap pdp (pdp_idx virt_addr) flags st) (\<lambda>st.
         let pd = next_table st pdp (pdp_idx virt_addr) in
         rbind (ensure_pt heap pd (pd_idx virt_addr) flags st) (\<lambda>st.
           let pt = next_table st pd (pd_idx virt_addr) in
           Ok (set_entry pt (pt_idx virt_addr) (phys_addr OR flags) st))))"

definition map_user_page :: "heap \<Rightarrow> u64 \<Rightarrow> u64 \<Rightarrow> u64 \<Rightarrow> space \<Rightarrow> (string, space) res" where
  "map_user_page heap virt_addr phys_addr flags st =
     (if virt_addr > USER_SPACE_MAX then Err ''Virtual address outside user space''
      else map_4k_page heap virt_addr phys_addr (flags OR USER) st)"

definition page_lookup :: "space \<Rightarrow> u64 \<Rightarrow> u64 option" where
  "page_lookup st virt_addr =
     (if \<not> is_present st Root (pml4_idx virt_addr) then None
      else let pdp = next_table st Root (pml4_idx virt_addr) in
      if \<not> is_present st pdp (pdp_idx virt_addr) then None
      else let pd = next_table st pdp (pdp_idx virt_addr) in
      if \<not> is_present st pd (pd_idx virt_addr) then None
      else if get_entry st pd (pd_idx virt_addr) AND HUGE_PAGE \<noteq> 0 then
        Some ((get_entry st pd (pd_idx virt_addr) AND ADDR_MASK) + (virt_addr AND 0x1FFFFF))
      else let pt = next_table st pd (pd_idx virt_addr);
               pt_entry = get_entry st pt (pt_idx virt_addr) in
      if pt_entry AND PRESENT = 0 then None else Some (pt_entry AND ADDR_MASK))"

definition unmap_4k_page :: "u64 \<Rightarrow> space \<Rightarrow> u64 option \<times> space" where
  "unmap_4k_page virt_addr st =
     (if \<not> is_present st Root (pml4_idx virt_addr) then (None, st)
      else let pdp = next_table st Root (pml4_idx virt_addr) in
      if \<not> is_present st pdp (pdp_idx virt_addr) then (None, st)
      else let pd = next_table st pdp (pdp_idx virt_addr) in
      if \<not> is_present st pd (pd_idx virt_addr) then (None, st)
      else let pt = next_table st pd (pd_idx virt_addr);
               old_entry = get_entry st pt (pt_idx virt_addr) in
      if old_entry AND PRESENT = 0 then (None, st)
      else (Some (old_entry AND ADDR_MASK), set_entry pt (pt_idx virt_addr) 0 st))"

definition kernel_flags :: u64 where "kernel_flags = PRESENT OR WRITABLE OR GLOBAL OR USER"
definition kernel_only_flags :: u64 where "kernel_only_flags = PRESENT OR WRITABLE OR GLOBAL"

definition map_kernel_space :: "heap \<Rightarrow> space \<Rightarrow> (string, space) res" where
  "map_kernel_space heap st =
     for_res (\<lambda>i st.
       let phys_addr = of_nat i * of_nat LARGE_PAGE_SIZE in
       rbind (map_large_page heap phys_addr phys_addr kernel_flags st) (\<lambda>st.
         let high_virt = KERNEL_SPACE_START + phys_addr in
         map_large_page heap high_virt phys_addr kernel_only_flags st)) [0..<4] st"

definition ProcessPageTable_new :: "heap \<Rightarrow> kmem \<Rightarrow> (string, space) res" where
  "ProcessPageTable_new heap km =
     map_kernel_space heap (\<lparr>ppt_pml4 = PageTable_new, ppt_tables = [], ppt_phys = []\<rparr>, km)"

fun track_phys_page :: "u64 \<Rightarrow> space \<Rightarrow> space" where
  "track_phys_page phys_addr (ppt, km) = (ppt\<lparr>ppt_phys := ppt_phys ppt @ [phys_addr]\<rparr>, km)"

text \<open>\<open>Drop\<close>: the tracked pages go back to the page allocator, the tables to the heap.\<close>

fun drop_page_table :: "space \<Rightarrow> phys_allocator \<Rightarrow> kmem \<times> phys_allocator" where
  "drop_page_table (ppt, km) pa =
     (km\<lparr>km_live := foldl (\<lambda>live table. remove1 table live) (km_live km) (ppt_tables ppt)\<rparr>,
      foldl (\<lambda>pa phys_addr. free_page phys_addr pa) pa (ppt_phys ppt))"

section \<open>Bits of an entry\<close>

definition present :: "u64 \<Rightarrow> bool" where "present e = bit e 0"
definition writable :: "u64 \<Rightarrow> bool" where "writable e = bit e 1"
definition user :: "u64 \<Rightarrow> bool" where "user e = bit e 2"
definition huge :: "u64 \<Rightarrow> bool" where "huge e = bit e 7"
definition frame :: "u64 \<Rightarrow> u64" where "frame e = e AND ADDR_MASK"

lemma and_single_bit: "n < 64 \<Longrightarrow> (w AND push_bit n 1 = 0) \<longleftrightarrow> \<not> bit w n" for w :: u64
  using word_nonzero [of "w AND push_bit n 1"] by (auto simp: bit_simps)

lemma flag_tests [simp]:
  "e AND PRESENT = 0 \<longleftrightarrow> \<not> present e" "e AND USER = 0 \<longleftrightarrow> \<not> user e" "e AND HUGE_PAGE = 0 \<longleftrightarrow> \<not> huge e"
  unfolding PRESENT_def USER_def HUGE_PAGE_def present_def user_def huge_def by (subst and_single_bit; simp)+

lemma bit_ADDR_MASK: "bit ADDR_MASK n \<longleftrightarrow> 12 \<le> n \<and> n < 52"
proof -
  have "ADDR_MASK = push_bit 12 (mask 40)" by (simp add: ADDR_MASK_def mask_eq_exp_minus_1)
  then show ?thesis unfolding \<open>ADDR_MASK = _\<close> by (auto simp: bit_push_bit_iff bit_mask_iff)
qed

lemmas flag_defs = PRESENT_def WRITABLE_def USER_def HUGE_PAGE_def GLOBAL_def
lemmas bit_names = present_def writable_def user_def huge_def frame_def

lemma or_bits [simp]:
  "present (a OR b) \<longleftrightarrow> present a \<or> present b" "writable (a OR b) \<longleftrightarrow> writable a \<or> writable b"
  "user (a OR b) \<longleftrightarrow> user a \<or> user b" "huge (a OR b) \<longleftrightarrow> huge a \<or> huge b" "frame (a OR b) = frame a OR frame b"
  by (simp_all add: bit_names bit_simps bit.conj_disj_distrib2)

lemma zero_bits [simp]: "\<not> present 0" "\<not> writable 0" "\<not> user 0" "\<not> huge 0" "frame 0 = 0"
  by (simp_all add: bit_names)

lemma page_flag_bits [simp]:
  "present PRESENT" "\<not> present WRITABLE" "\<not> present USER" "\<not> present HUGE_PAGE" "\<not> present GLOBAL"
  "\<not> writable PRESENT" "writable WRITABLE" "\<not> writable USER" "\<not> writable HUGE_PAGE" "\<not> writable GLOBAL"
  "\<not> user PRESENT" "\<not> user WRITABLE" "user USER" "\<not> user HUGE_PAGE" "\<not> user GLOBAL"
  "\<not> huge PRESENT" "\<not> huge WRITABLE" "\<not> huge USER" "huge HUGE_PAGE" "\<not> huge GLOBAL"
  by (simp_all add: bit_names flag_defs bit_simps)

lemma frame_flag [simp]: "frame PRESENT = 0" "frame WRITABLE = 0" "frame USER = 0" "frame HUGE_PAGE = 0" "frame GLOBAL = 0"
  by (simp_all add: bit_names flag_defs ADDR_MASK_def)

text \<open>An address of a frame has none of the flag bits.\<close>

lemma frame_address:
  assumes "frame a = a"
  shows "\<not> present a" "\<not> writable a" "\<not> user a" "\<not> huge a"
proof -
  have "\<not> bit a n" if "n < 12" for n
  proof -
    have "bit a n = bit (a AND ADDR_MASK) n" using assms by (simp add: frame_def)
    then show ?thesis using that by (simp add: bit_simps bit_ADDR_MASK)
  qed
  then show "\<not> present a" "\<not> writable a" "\<not> user a" "\<not> huge a" by (simp_all add: bit_names)
qed

lemma frame_frame [simp]: "frame (frame e) = frame e"
  by (simp add: frame_def and.assoc)

lemma hier_bits [simp]:
  "present (hier_flags f)" "writable (hier_flags f)" "user (hier_flags f) \<longleftrightarrow> user f" "\<not> huge (hier_flags f)"
  "frame (hier_flags f) = 0"
  by (simp_all add: hier_flags_def)

lemma is_present_eq [simp]: "is_present st r i \<longleftrightarrow> present (table_of st r i)"
  by (simp add: is_present_def get_entry_def)

lemma get_entry_eq [simp]: "get_entry st r i = table_of st r i"
  by (simp add: get_entry_def)

lemma next_table_eq [simp]: "next_table st r i = At (frame (table_of st r i))"
  by (simp add: next_table_def frame_def)

lemma table_of_set [simp]: "table_of (set_entry r i e st) = (table_of st)(r := (table_of st r)(i := e))"
proof
  fix q show "table_of (set_entry r i e st) q = ((table_of st)(r := (table_of st r)(i := e))) q"
    by (cases st; cases r; cases q) auto
qed

section \<open>Walks\<close>

text \<open>A path is the list of indices taken so far, the last one first. \<open>link n e\<close> is where an entry of a
  level-\<open>n\<close> table leads: \<open>None\<close> when it is empty, a huge page, or the last level.\<close>

definition link :: "nat \<Rightarrow> u64 \<Rightarrow> table_ref option" where
  "link n e = (if n < 3 \<and> present e \<and> \<not> (n = 2 \<and> huge e) then Some (At (frame e)) else None)"

fun walk :: "(table_ref \<Rightarrow> table) \<Rightarrow> nat list \<Rightarrow> table_ref option" where
  "walk V [] = Some Root"
| "walk V (i # p) = (case walk V p of None \<Rightarrow> None | Some r \<Rightarrow> link (length p) (V r i))"

text \<open>The entry a path leads to; 0, the empty entry, where there is no table.\<close>

definition ent :: "(table_ref \<Rightarrow> table) \<Rightarrow> nat list \<Rightarrow> nat \<Rightarrow> u64" where
  "ent V p i = (case walk V p of None \<Rightarrow> 0 | Some r \<Rightarrow> V r i)"

definition unique_paths :: "(table_ref \<Rightarrow> table) \<Rightarrow> bool" where
  "unique_paths V \<longleftrightarrow> (\<forall>p q r. walk V p = Some r \<longrightarrow> walk V q = Some r \<longrightarrow> p = q)"

lemma link_0 [simp]: "link n 0 = None" "link (Suc (Suc (Suc n))) e = None"
  by (simp_all add: link_def)

lemma link_not_Root [simp]: "link n e \<noteq> Some Root"
  by (simp add: link_def)

lemma walk_link: "walk V (i # p) = link (length p) (ent V p i)"
  by (simp add: ent_def split: option.splits)

lemma walk_length: "walk V p \<noteq> None \<Longrightarrow> length p \<le> 3"
  by (cases p) (auto simp: walk_link link_def simp del: walk.simps(2) split: if_splits)

lemma ent_none: "walk V p = None \<Longrightarrow> ent V p i = 0"
  by (simp add: ent_def)

lemma ent_some: "walk V p = Some r \<Longrightarrow> ent V p i = V r i"
  by (simp add: ent_def)

lemma walk_set:
  assumes "unique_paths V" "walk V p0 = Some r" "link (length p0) e = link (length p0) (V r x)"
  shows "walk (V(r := (V r)(x := e))) p = walk V p"
proof (induction p)
  case (Cons i p)
  have "p = p0" if "walk V p = Some r" using assms(1,2) that by (auto simp: unique_paths_def)
  then show ?case using Cons assms(3) by (auto split: option.splits)
qed simp

lemma walk_cut:
  assumes "unique_paths V" "walk V p0 = Some r" "length p0 = 2" "link 2 e = None"
  shows "walk (V(r := (V r)(x := e))) p = (if p = x # p0 then None else walk V p)"
proof (induction p)
  case (Cons i p)
  have u: "p = p0" if "walk V p = Some r" using assms(1,2) that by (auto simp: unique_paths_def)
  have l: "link (length p) w = None" if "p = x # p0" for w using assms(3) that by (simp add: link_def)
  show ?case
  proof (cases "p = x # p0")
    case True
    then have "walk V (i # p) = None" using l by (simp split: option.splits)
    then show ?thesis using True Cons by simp
  next
    case False
    then show ?thesis using Cons u assms(2-4) by (cases "walk V p") auto
  qed
qed simp

lemma walk_grow:
  assumes "unique_paths V" "walk V p0 = Some r" "link (length p0) (V r x) = None"
    and "link (length p0) e = Some (At a)" "\<And>p. walk V p \<noteq> Some (At a)" "\<And>i. link (Suc (length p0)) (t i) = None"
  shows "walk (V(At a := t, r := (V r)(x := e))) p = (if p = x # p0 then Some (At a) else walk V p)"
proof (induction p)
  case (Cons i p)
  have u: "p = p0" if "walk V p = Some r" using assms(1,2) that by (auto simp: unique_paths_def)
  have r: "r \<noteq> At a" using assms(2,5) by metis
  show ?case
  proof (cases "p = x # p0")
    case True
    then have "walk V p = None" using assms(2,3) by simp
    then show ?thesis using True Cons assms(6) r by (simp del: walk.simps(2) add: walk.simps(2) [of _ i])
  next
    case False
    then show ?thesis using Cons u assms(2,3,4,5) r by (cases "walk V p") auto
  qed
qed simp

lemma unique_path: "unique_paths V \<Longrightarrow> walk V p0 = Some r \<Longrightarrow> walk V p = Some r \<longleftrightarrow> p = p0"
  by (auto simp: unique_paths_def)

text \<open>The three updates as updates of the entries: \<open>e\<close> at one path, \<open>t\<close> the table below it.\<close>

definition eupd :: "(nat list \<Rightarrow> table) \<Rightarrow> nat list \<Rightarrow> nat \<Rightarrow> u64 \<Rightarrow> table \<Rightarrow> nat list \<Rightarrow> table" where
  "eupd E p0 x e t p i = (if p = p0 \<and> i = x then e else if p = x # p0 then t i else E p i)"

lemma ent_set:
  assumes "unique_paths V" "walk V p0 = Some r" "link (length p0) e = link (length p0) (V r x)"
  shows "ent (V(r := (V r)(x := e))) = eupd (ent V) p0 x e (ent V (x # p0))"
proof (intro ext)
  fix p i
  show "ent (V(r := (V r)(x := e))) p i = eupd (ent V) p0 x e (ent V (x # p0)) p i"
    using unique_path [OF assms(1,2), of p]
    by (cases "walk V p") (auto simp: ent_def eupd_def walk_set [OF assms])
qed

lemma ent_cut:
  assumes "unique_paths V" "walk V p0 = Some r" "length p0 = 2" "link 2 e = None"
  shows "ent (V(r := (V r)(x := e))) = eupd (ent V) p0 x e (\<lambda>_. 0)"
proof (intro ext)
  fix p i
  show "ent (V(r := (V r)(x := e))) p i = eupd (ent V) p0 x e (\<lambda>_. 0) p i"
    using unique_path [OF assms(1,2), of p]
    by (cases "walk V p") (auto simp: ent_def eupd_def walk_cut [OF assms])
qed

lemma ent_grow:
  assumes "unique_paths V" "walk V p0 = Some r" "link (length p0) (V r x) = None"
    and "link (length p0) e = Some (At a)" "\<And>p. walk V p \<noteq> Some (At a)" "\<And>i. link (Suc (length p0)) (t i) = None"
  shows "ent (V(At a := t, r := (V r)(x := e))) = eupd (ent V) p0 x e t"
proof (intro ext)
  fix p i
  have "r \<noteq> At a" using assms(2,5) by metis
  then show "ent (V(At a := t, r := (V r)(x := e))) p i = eupd (ent V) p0 x e t p i"
    using unique_path [OF assms(1,2), of p] assms(5) [of p]
    by (cases "walk V p") (auto simp: ent_def eupd_def walk_grow [OF assms])
qed

section \<open>Invariant and translation\<close>

text \<open>The pages as the entries describe them: the huge page or the last-level entry of a path.\<close>

definition leaf :: "(nat list \<Rightarrow> table) \<Rightarrow> nat \<Rightarrow> nat \<Rightarrow> nat \<Rightarrow> nat \<Rightarrow> (u64 \<times> bool \<times> bool) option" where
  "leaf E i j k l =
     (let e2 = E [j, i] k; e1 = E [k, j, i] l in
      if 512 \<le> l then None
      else if present e2 \<and> huge e2 then Some (frame e2 + of_nat (l * PAGE_SIZE), writable e2, user e2)
      else if present e1 then Some (frame e1, writable e1, user e1) else None)"

definition aligned_2m :: "u64 \<Rightarrow> bool" where "aligned_2m w \<longleftrightarrow> take_bit 21 w = 0"

definition entries_ok :: "(nat list \<Rightarrow> table) \<Rightarrow> bool" where
  "entries_ok E \<longleftrightarrow>
     (\<forall>p i. link (length p) (E p i) \<noteq> None \<longrightarrow> writable (E p i) \<and> \<not> huge (E p i)) \<and>
     (\<forall>p j i. present (E (j # p) i) \<and> user (E (j # p) i) \<longrightarrow> user (E p j)) \<and>
     (\<forall>p i. length p = 2 \<and> present (E p i) \<and> huge (E p i) \<longrightarrow> aligned_2m (frame (E p i)))"

lemma entries_okD:
  assumes "entries_ok E"
  shows "link (length p) (E p i) \<noteq> None \<Longrightarrow> writable (E p i) \<and> \<not> huge (E p i)"
    and "present (E (j # p) i) \<Longrightarrow> user (E (j # p) i) \<Longrightarrow> user (E p j)"
    and "length p = 2 \<Longrightarrow> present (E p i) \<Longrightarrow> huge (E p i) \<Longrightarrow> aligned_2m (frame (E p i))"
  using assms unfolding entries_ok_def by blast+

lemma eupd_same [simp]: "eupd E p0 x e t p0 x = e" "eupd E p0 x e t (x # p0) i = t i"
  by (simp_all add: eupd_def)

lemma entries_ok_eupd:
  assumes "entries_ok E"
    and "link (length p0) e \<noteq> None \<Longrightarrow> writable e \<and> \<not> huge e"
    and "\<And>i. link (Suc (length p0)) (t i) \<noteq> None \<Longrightarrow> writable (t i) \<and> \<not> huge (t i)"
    and "\<And>j q. present e \<Longrightarrow> user e \<Longrightarrow> p0 = j # q \<Longrightarrow> user (E q j)"
    and "\<And>i. present (t i) \<Longrightarrow> user (t i) \<Longrightarrow> user e"
    and "\<And>y i. present (E (y # x # p0) i) \<Longrightarrow> user (E (y # x # p0) i) \<Longrightarrow> user (t y)"
    and "length p0 = 2 \<Longrightarrow> present e \<Longrightarrow> huge e \<Longrightarrow> aligned_2m (frame e)"
    and "\<And>i. length p0 = 1 \<Longrightarrow> present (t i) \<Longrightarrow> huge (t i) \<Longrightarrow> aligned_2m (frame (t i))"
  shows "entries_ok (eupd E p0 x e t)"
proof -
  have "writable (eupd E p0 x e t p i) \<and> \<not> huge (eupd E p0 x e t p i)"
    if "link (length p) (eupd E p0 x e t p i) \<noteq> None" for p i
    using that assms(1-3) unfolding entries_ok_def eupd_def by (auto split: if_splits)
  moreover have "user (eupd E p0 x e t p j)"
    if "present (eupd E p0 x e t (j # p) i)" "user (eupd E p0 x e t (j # p) i)" for p j i
  proof -
    consider "j # p = p0" "i = x" | "p = p0" "j = x" | "p = x # p0" | "j # p \<noteq> p0 \<or> i \<noteq> x" "p \<noteq> p0 \<or> j \<noteq> x" "p \<noteq> x # p0" by blast
    then show ?thesis
    proof cases
      case 1
      then show ?thesis using that assms(4) [of j p] by (auto simp: eupd_def)
    next
      case 4
      then have "eupd E p0 x e t (j # p) i = E (j # p) i" "eupd E p0 x e t p j = E p j" by (auto simp: eupd_def)
      then show ?thesis using that entries_okD(2) [OF assms(1)] by metis
    qed (use that assms(5,6) in \<open>auto simp: eupd_def\<close>)
  qed
  moreover have "aligned_2m (frame (eupd E p0 x e t p i))"
    if "length p = 2" "present (eupd E p0 x e t p i)" "huge (eupd E p0 x e t p i)" for p i
    using that assms(1,7,8) unfolding entries_ok_def eupd_def by (auto split: if_splits)
  ultimately show ?thesis unfolding entries_ok_def by blast
qed

text \<open>Changing the hierarchy above the pages keeps the pages.\<close>

lemma leaf_hier:
  assumes "length p0 \<le> 2" "t = E (x # p0)"
    and "length p0 = 2 \<Longrightarrow> \<not> (present e \<and> huge e) \<and> \<not> (present (E p0 x) \<and> huge (E p0 x))"
  shows "leaf (eupd E p0 x e t) = leaf E"
proof (intro ext)
  fix i j k l
  have "eupd E p0 x e t [k, j, i] l = E [k, j, i] l" using assms(1,2) by (auto simp: eupd_def)
  moreover have "eupd E p0 x e t [j, i] k = E [j, i] k \<or>
      \<not> (present (eupd E p0 x e t [j, i] k) \<and> huge (eupd E p0 x e t [j, i] k)) \<and> \<not> (present (E [j, i] k) \<and> huge (E [j, i] k))"
    using assms by (auto simp: eupd_def)
  ultimately show "leaf (eupd E p0 x e t) i j k l = leaf E i j k l" by (auto simp: leaf_def Let_def)
qed

definition pt_wf :: "(table_ref \<Rightarrow> table) \<Rightarrow> u64 set \<Rightarrow> bool" where
  "pt_wf V T \<longleftrightarrow> unique_paths V \<and> (\<forall>p a. walk V p = Some (At a) \<longrightarrow> a \<in> T) \<and> entries_ok (ent V)"

fun space_wf :: "space \<Rightarrow> bool" where
  "space_wf (ppt, km) \<longleftrightarrow> pt_wf (table_of (ppt, km)) (set (ppt_tables ppt)) \<and> set (ppt_tables ppt) \<subseteq> set (km_live km)"

text \<open>What every operation leaves alone: all frames but the manager's tables, and the list of tracked
  pages; new tables come from the heap.\<close>

fun extends :: "space \<Rightarrow> space \<Rightarrow> bool" where
  "extends (ppt, km) (ppt', km') \<longleftrightarrow>
     (\<exists>new. ppt_tables ppt' = ppt_tables ppt @ new \<and> set new \<inter> set (km_live km) = {} \<and>
        km_live km' = rev new @ km_live km \<and> distinct new) \<and>
     ppt_phys ppt' = ppt_phys ppt \<and>
     (\<forall>a. a \<notin> set (ppt_tables ppt') \<longrightarrow> km_frames km' a = km_frames km a)"

lemma extends_refl: "extends st st"
  by (cases st) simp

lemma extends_trans:
  assumes "extends st st'" "extends st' st''"
  shows "extends st st''"
proof -
  obtain p k p' k' p'' k'' where s: "st = (p, k)" "st' = (p', k')" "st'' = (p'', k'')" by (metis prod.exhaust)
  obtain n where n: "ppt_tables p' = ppt_tables p @ n" "set n \<inter> set (km_live k) = {}" "km_live k' = rev n @ km_live k" "distinct n"
    using assms(1) s by auto
  obtain m where m: "ppt_tables p'' = ppt_tables p' @ m" "set m \<inter> set (km_live k') = {}" "km_live k'' = rev m @ km_live k'" "distinct m"
    using assms(2) s by auto
  have "\<exists>new. ppt_tables p'' = ppt_tables p @ new \<and> set new \<inter> set (km_live k) = {} \<and>
      km_live k'' = rev new @ km_live k \<and> distinct new"
    by (rule exI [of _ "n @ m"]) (use n m in auto)
  then show ?thesis using assms s m(1) by auto
qed

text \<open>What the heap promises: a live address is not handed out again, and a table is page-aligned.\<close>

definition heap_ok :: "heap \<Rightarrow> bool" where
  "heap_ok heap \<longleftrightarrow> (\<forall>live a. heap live = Some a \<longrightarrow> a \<notin> set live \<and> frame a = a)"

lemma space_wfD:
  assumes "space_wf st"
  shows "unique_paths (table_of st)" "entries_ok (ent (table_of st))"
    "walk (table_of st) p = Some (At a) \<Longrightarrow> a \<in> set (ppt_tables (fst st)) \<and> a \<in> set (km_live (snd st))"
  using assms by (cases st; auto simp: pt_wf_def)+

text \<open>Setting an entry of a reachable table.\<close>

lemma set_entry_extends:
  assumes "space_wf st" "walk (table_of st) p = Some r"
  shows "extends st (set_entry r x e st)"
proof (cases r)
  case (At a)
  then show ?thesis using space_wfD(3) [OF assms(1), of p a] assms(2) by (cases st) auto
qed (cases st; simp)

lemma set_entry_fields: "ppt_tables (fst (set_entry r x e st)) = ppt_tables (fst st)"
  "km_live (snd (set_entry r x e st)) = km_live (snd st)" "ppt_phys (fst (set_entry r x e st)) = ppt_phys (fst st)"
  by (cases st; cases r; simp)+

lemma space_wf_eq: "space_wf st \<longleftrightarrow> pt_wf (table_of st) (set (ppt_tables (fst st))) \<and>
    set (ppt_tables (fst st)) \<subseteq> set (km_live (snd st))"
  by (cases st) simp

lemma space_wf_set:
  assumes "space_wf st" "walk (table_of st) p0 = Some r"
    and "link (length p0) e = link (length p0) (table_of st r x)"
    and "entries_ok (eupd (ent (table_of st)) p0 x e (ent (table_of st) (x # p0)))"
  shows "space_wf (set_entry r x e st)"
proof -
  let ?V = "table_of st"
  note d = space_wfD [OF assms(1)]
  have w: "walk (?V(r := (?V r)(x := e))) = walk ?V" using walk_set [OF d(1) assms(2,3)] by auto
  then show ?thesis using assms(1,4) ent_set [OF d(1) assms(2,3)]
    by (simp add: space_wf_eq pt_wf_def set_entry_fields unique_paths_def)
qed

section \<open>Steps of the mapping functions\<close>

lemma allocate_table_ok:
  assumes "space_wf st" "heap_ok heap" "allocate_table heap st = Ok (a, st')"
  shows "frame a = a" "a \<notin> set (km_live (snd st))" "walk (table_of st) p \<noteq> Some (At a)"
    "table_of st' = (table_of st)(At a := PageTable_new)"
    "ppt_tables (fst st') = ppt_tables (fst st) @ [a]" "km_live (snd st') = a # km_live (snd st)"
    "ppt_phys (fst st') = ppt_phys (fst st)"
proof -
  obtain ppt km where st: "st = (ppt, km)" by fastforce
  have h: "heap (km_live km) = Some a" using assms(3) st by (simp split: option.splits)
  then have st': "st' = (ppt\<lparr>ppt_tables := ppt_tables ppt @ [a]\<rparr>,
      km\<lparr>km_frames := (km_frames km)(a := PageTable_new), km_live := a # km_live km\<rparr>)"
    using assms(3) st by simp
  show "frame a = a" "a \<notin> set (km_live (snd st))" using assms(2) h st by (auto simp: heap_ok_def)
  then show "walk (table_of st) p \<noteq> Some (At a)" using space_wfD(3) [OF assms(1), of p a] by auto
  show "table_of st' = (table_of st)(At a := PageTable_new)"
  proof
    fix r show "table_of st' r = ((table_of st)(At a := PageTable_new)) r" by (cases r) (simp_all add: st st')
  qed
  show "ppt_tables (fst st') = ppt_tables (fst st) @ [a]" "km_live (snd st') = a # km_live (snd st)"
    "ppt_phys (fst st') = ppt_phys (fst st)" by (simp_all add: st st')
qed

text \<open>Hanging a new table with entries \<open>t\<close> below an entry that has no table.\<close>

lemma space_wf_grow:
  assumes "space_wf st" "walk (table_of st) p0 = Some r" "link (length p0) (table_of st r x) = None"
    and "link (length p0) e = Some (At a)" "\<And>p. walk (table_of st) p \<noteq> Some (At a)"
    and "\<And>i. link (Suc (length p0)) (t i) = None"
    and "entries_ok (eupd (ent (table_of st)) p0 x e t)" "a \<notin> set (km_live (snd st))"
    and "table_of st' = (table_of st)(At a := t, r := (table_of st r)(x := e))"
    and "ppt_tables (fst st') = ppt_tables (fst st) @ [a]" "km_live (snd st') = a # km_live (snd st)"
    and "ppt_phys (fst st') = ppt_phys (fst st)"
  shows "space_wf st' \<and> extends st st'"
proof -
  let ?V = "table_of st"
  note d = space_wfD [OF assms(1)]
  have w: "walk (table_of st') p = (if p = x # p0 then Some (At a) else walk ?V p)" for p
    using walk_grow [OF d(1) assms(2-6)] assms(9) by simp
  have "unique_paths (table_of st')"
    using d(1) assms(5) unfolding unique_paths_def w by (auto split: if_splits)
  moreover have "entries_ok (ent (table_of st'))"
    using ent_grow [OF d(1) assms(2-6)] assms(7,9) by simp
  moreover have "b \<in> insert a (set (ppt_tables (fst st)))" if "walk (table_of st') p = Some (At b)" for p b
    using that d(3) [of p b] unfolding w by (auto split: if_splits)
  ultimately have "space_wf st'" using assms(1,10,11) unfolding space_wf_eq pt_wf_def by auto
  moreover have "extends st st'"
  proof -
    obtain ppt km ppt' km' where s: "st = (ppt, km)" "st' = (ppt', km')" by fastforce
    have "km_frames km' b = km_frames km b" if "b \<notin> set (ppt_tables ppt')" for b
    proof -
      have "b \<noteq> a" "r \<noteq> At b" using that assms(2,10) d(3) [of p0 b] s by auto
      then show ?thesis using fun_cong [OF assms(9), of "At b"] by (simp add: s)
    qed
    then show ?thesis using assms(8,10-12) s by auto
  qed
  ultimately show ?thesis by simp
qed

text \<open>The invariant of a mapping in progress: the path taken so far, whose entries carry \<open>USER\<close> when
  the page to map does.\<close>

definition parent_user :: "(table_ref \<Rightarrow> table) \<Rightarrow> nat list \<Rightarrow> bool" where
  "parent_user V p = (case p of [] \<Rightarrow> True | j # q \<Rightarrow> user (ent V q j))"

definition step_ok :: "u64 \<Rightarrow> nat list \<Rightarrow> space \<Rightarrow> space \<Rightarrow> table_ref \<Rightarrow> bool" where
  "step_ok f p st st' r \<longleftrightarrow> space_wf st' \<and> extends st st' \<and> leaf (ent (table_of st')) = leaf (ent (table_of st)) \<and>
     walk (table_of st') p = Some r \<and> (user f \<longrightarrow> parent_user (table_of st') p)"

lemma present_link: "length p < 2 \<Longrightarrow> present e \<Longrightarrow> link (length p) e = Some (At (frame e))"
  by (simp add: link_def)

text \<open>An empty entry gets a new empty table.\<close>

lemma grow_step:
  assumes "space_wf st" "heap_ok heap" "walk (table_of st) p0 = Some r" "length p0 \<le> 2"
    and "user f \<longrightarrow> parent_user (table_of st) p0" "\<not> present (table_of st r x)"
    and "allocate_table heap st = Ok (a, st1)"
  shows "step_ok f (x # p0) st (set_entry r x (a OR hier_flags f) st1) (next_table (set_entry r x (a OR hier_flags f) st1) r x)"
proof -
  let ?V = "table_of st" and ?e = "a OR hier_flags f" and ?st = "set_entry r x (a OR hier_flags f) st1"
  note al = allocate_table_ok [OF assms(1,2,7)]
  note d = space_wfD [OF assms(1)]
  have r: "r \<noteq> At a" using al(3) assms(3) by auto
  have V: "table_of ?st = ?V(At a := PageTable_new, r := (?V r)(x := ?e))" using al(4) r by (simp add: fun_upd_twist)
  have l0: "link (length p0) (?V r x) = None" using assms(6) by (simp add: link_def)
  have l: "link (length p0) ?e = Some (At a)" using assms(4) al(1) frame_address [OF al(1)] by (simp add: link_def)
  have E: "ent (table_of ?st) = eupd (ent ?V) p0 x ?e PageTable_new" unfolding V
    by (rule ent_grow [OF d(1) assms(3) l0 l al(3)]) (simp add: PageTable_new_def)
  have n: "walk ?V (x # p0) = None" using assms(3) l0 by simp
  have below: "ent ?V (y # x # p0) i = 0" for y i using n by (simp add: ent_def)
  have "ent ?V (x # p0) = PageTable_new" using n by (auto simp: ent_def PageTable_new_def)
  then have leaf: "leaf (ent (table_of ?st)) = leaf (ent ?V)" unfolding E
    using assms(3,4,6) frame_address [OF al(1)] by (intro leaf_hier) (auto simp: ent_def)
  have ok: "entries_ok (eupd (ent ?V) p0 x ?e PageTable_new)"
    using assms(5) frame_address [OF al(1)]
    by (intro entries_ok_eupd [OF d(2)]) (auto simp: PageTable_new_def below parent_user_def)
  have w: "space_wf ?st \<and> extends st ?st"
    by (rule space_wf_grow [OF assms(1,3) l0 l al(3) _ ok al(2) V])
      (simp_all add: set_entry_fields al PageTable_new_def)
  have "walk (table_of ?st) (x # p0) = Some (At a)"
    unfolding V by (subst walk_grow [OF d(1) assms(3) l0 l al(3)]) (simp_all add: PageTable_new_def)
  moreover have "next_table ?st r x = At a" using al(1) by simp
  moreover have "user f \<longrightarrow> parent_user (table_of ?st) (x # p0)" unfolding parent_user_def E by simp
  ultimately show ?thesis using w leaf by (simp add: step_ok_def)
qed

text \<open>An entry that leads to a table gets the user flag.\<close>

lemma raise_step:
  assumes "space_wf st" "walk (table_of st) p0 = Some r" "length p0 \<le> 2"
    and "user f \<longrightarrow> parent_user (table_of st) p0" "walk (table_of st) (x # p0) = Some q"
  shows "step_ok f (x # p0) st (if user f then add_user r x st else st)
    (next_table (if user f then add_user r x st else st) r x)"
proof -
  let ?V = "table_of st" and ?e = "table_of st r x OR USER"
  note d = space_wfD [OF assms(1)]
  have l: "link (length p0) (?V r x) = Some q" using assms(2,5) by simp
  then have q: "q = At (frame (?V r x))" by (simp add: link_def split: if_splits)
  have ex: "ent ?V p0 x = ?V r x" using assms(2) by (simp add: ent_def)
  have nh: "writable (?V r x)" "\<not> huge (?V r x)" using entries_okD(1) [OF d(2), of p0 x] l ex by simp_all
  have l': "link (length p0) ?e = link (length p0) (?V r x)" by (simp add: link_def)
  have E: "ent (?V(r := (?V r)(x := ?e))) = eupd (ent ?V) p0 x ?e (ent ?V (x # p0))"
    by (rule ent_set [OF d(1) assms(2) l'])
  have p: "present (?V r x)" using l by (simp add: link_def split: if_splits)
  show ?thesis
  proof (cases "user f \<and> \<not> user (?V r x)")
    case True
    have ok: "entries_ok (eupd (ent ?V) p0 x ?e (ent ?V (x # p0)))"
      using True assms(4) nh entries_okD [OF d(2)]
      by (intro entries_ok_eupd [OF d(2)]) (auto simp: parent_user_def)
    have "space_wf (set_entry r x ?e st)" by (rule space_wf_set [OF assms(1,2) l' ok])
    moreover have "leaf (ent (?V(r := (?V r)(x := ?e)))) = leaf (ent ?V)" unfolding E
      by (rule leaf_hier [OF assms(3) refl]) (use nh ex in auto)
    moreover have "walk (?V(r := (?V r)(x := ?e))) (x # p0) = Some q"
      unfolding walk_set [OF d(1) assms(2) l'] by (rule assms(5))
    moreover have "parent_user (?V(r := (?V r)(x := ?e))) (x # p0)" unfolding parent_user_def E by simp
    moreover have "extends st (set_entry r x ?e st)" by (rule set_entry_extends [OF assms(1,2)])
    ultimately show ?thesis using True q by (simp add: step_ok_def add_user_def Let_def)
  next
    case False
    then have "(if user f then add_user r x st else st) = st" by (auto simp: add_user_def Let_def)
    then show ?thesis using False assms(1,5) q extends_refl ex by (auto simp: step_ok_def parent_user_def)
  qed
qed

lemma ensure_table_step:
  assumes "space_wf st" "heap_ok heap" "walk (table_of st) p0 = Some r" "length p0 < 2"
    and "user f \<longrightarrow> parent_user (table_of st) p0" "ensure_table heap r x f st = Ok st'"
  shows "step_ok f (x # p0) st st' (next_table st' r x)"
proof (cases "present (table_of st r x)")
  case True
  then have "walk (table_of st) (x # p0) = Some (At (frame (table_of st r x)))"
    using assms(3,4) by (simp add: present_link)
  from raise_step [OF assms(1,3) _ assms(5) this] assms(4,6) True show ?thesis
    by (auto simp: ensure_table_def split: if_splits)
next
  case False
  then obtain a st1 where "allocate_table heap st = Ok (a, st1)" "st' = set_entry r x (a OR hier_flags f) st1"
    using assms(6) by (auto simp: ensure_table_def)
  then show ?thesis using grow_step [OF assms(1-3) _ assms(5) False] assms(4) by simp
qed

subsection \<open>Splitting a huge page\<close>

definition split_entry :: "u64 \<Rightarrow> nat \<Rightarrow> u64" where
  "split_entry e i = (frame e + of_nat i * of_nat PAGE_SIZE) OR (e AND NOT ADDR_MASK AND NOT HUGE_PAGE)"

definition split_table :: "u64 \<Rightarrow> table" where
  "split_table e i = (if i < 512 then split_entry e i else 0)"

lemma fill_table: "table_of (foldl (\<lambda>st i. set_entry (At a) i (g i) st) st [0..<n]) =
    (table_of st)(At a := (\<lambda>i. if i < n then g i else table_of st (At a) i))"
  by (induction n) (auto simp: fun_eq_iff)

lemma fill_table_fields:
  "ppt_tables (fst (foldl (\<lambda>st i. set_entry r i (g i) st) st is)) = ppt_tables (fst st)"
  "km_live (snd (foldl (\<lambda>st i. set_entry r i (g i) st) st is)) = km_live (snd st)"
  "ppt_phys (fst (foldl (\<lambda>st i. set_entry r i (g i) st) st is)) = ppt_phys (fst st)"
  by (induction "is" arbitrary: st) (simp_all add: set_entry_fields)

lemma split_address:
  assumes "aligned_2m (frame e)" "i < 512"
  shows "frame e + of_nat i * of_nat PAGE_SIZE = frame e OR push_bit 12 (of_nat i)"
    "frame (frame e OR push_bit 12 (of_nat i)) = frame e OR push_bit 12 (of_nat i)"
proof -
  have i: "bit (of_nat i :: u64) n \<Longrightarrow> n < 9" for n
  proof -
    assume "bit (of_nat i :: u64) n"
    moreover have "of_nat i = (take_bit 9 (of_nat i) :: u64)"
      using assms(2) by (simp flip: of_nat_take_bit add: take_bit_nat_eq_self)
    ultimately have "bit (take_bit 9 (of_nat i :: u64)) n" by simp
    then show "n < 9" by (simp add: bit_take_bit_iff)
  qed
  have low: "\<not> bit (frame e) n" if "n < 21" for n
    using assms(1) that unfolding aligned_2m_def by (metis bit_take_bit_iff bit_0_eq bot_apply bot_bool_def)
  have hi: "bit (push_bit 12 (of_nat i :: u64)) n \<Longrightarrow> 12 \<le> n \<and> n < 21" for n
  proof -
    assume "bit (push_bit 12 (of_nat i :: u64)) n"
    then have "12 \<le> n \<and> bit (of_nat i :: u64) (n - 12)" unfolding bit_push_bit_iff by blast
    with i [of "n - 12"] show "12 \<le> n \<and> n < 21" by linarith
  qed
  have "frame e AND push_bit 12 (of_nat i) = 0"
    using low hi by (intro bit_word_eqI) (auto simp: bit_and_iff)
  moreover have "(of_nat i * of_nat PAGE_SIZE :: u64) = push_bit 12 (of_nat i)"
    by (simp add: push_bit_eq_mult PAGE_SIZE_def)
  ultimately show "frame e + of_nat i * of_nat PAGE_SIZE = frame e OR push_bit 12 (of_nat i)"
    using word_plus_and_or [of "frame e" "push_bit 12 (of_nat i)"] by (simp del: push_bit_of_nat)
  show "frame (frame e OR push_bit 12 (of_nat i)) = frame e OR push_bit 12 (of_nat i)"
    by (intro bit_word_eqI) (auto simp: frame_def bit_and_iff bit_or_iff bit_ADDR_MASK simp del: push_bit_of_nat dest: hi)
qed

lemma split_entry_bits:
  assumes "aligned_2m (frame e)" "i < 512"
  shows "frame (split_entry e i) = frame e + of_nat (i * PAGE_SIZE)" "present (split_entry e i) \<longleftrightarrow> present e"
    "writable (split_entry e i) \<longleftrightarrow> writable e" "user (split_entry e i) \<longleftrightarrow> user e"
proof -
  note a = split_address [OF assms]
  let ?b = "frame e OR push_bit 12 (of_nat i)"
  note nb = frame_address [OF a(2)]
  have "frame (e AND NOT ADDR_MASK AND NOT HUGE_PAGE) = 0"
    by (intro bit_word_eqI) (auto simp: frame_def bit_and_iff bit_not_iff)
  then show "frame (split_entry e i) = frame e + of_nat (i * PAGE_SIZE)" using a by (simp add: split_entry_def)
  have "bit (split_entry e i) n \<longleftrightarrow> bit e n" if "n \<in> {0, 1, 2}" for n
  proof -
    have "\<not> bit ?b n" using nb that by (auto simp: bit_names)
    moreover have "\<not> bit ADDR_MASK n" "\<not> bit HUGE_PAGE n" "n < 64"
      using that by (auto simp: bit_ADDR_MASK HUGE_PAGE_def bit_simps)
    ultimately show ?thesis unfolding split_entry_def a(1) by (simp add: bit_and_iff bit_or_iff bit_not_iff)
  qed
  then show "present (split_entry e i) \<longleftrightarrow> present e" "writable (split_entry e i) \<longleftrightarrow> writable e" "user (split_entry e i) \<longleftrightarrow> user e"
    by (simp_all add: bit_names)
qed

lemma leaf_split:
  assumes "length p0 = 2" "present (E p0 x)" "huge (E p0 x)" "aligned_2m (frame (E p0 x))" "\<not> huge e"
  shows "leaf (eupd E p0 x e (split_table (E p0 x))) = leaf E"
proof (intro ext)
  fix i j k l
  let ?E = "eupd E p0 x e (split_table (E p0 x))"
  have "?E [k, j, i] l = (if k # [j, i] = x # p0 then split_table (E p0 x) l else E [k, j, i] l)"
    "?E [j, i] k = (if k # [j, i] = x # p0 then e else E [j, i] k)"
    using assms(1) by (auto simp: eupd_def)
  then show "leaf ?E i j k l = leaf E i j k l"
    using assms split_entry_bits [OF assms(4), of l] by (auto simp: leaf_def split_table_def)
qed

lemma split_step:
  assumes "space_wf st" "heap_ok heap" "walk (table_of st) p0 = Some r" "length p0 = 2"
    and "user f" "parent_user (table_of st) p0" "present (table_of st r x)" "huge (table_of st r x)"
    and "allocate_table heap st = Ok (a, st1)"
    and "st' = set_entry r x (a OR hier_flags f) (foldl (\<lambda>st i. set_entry (At a) i (split_entry (table_of st0 r x) i) st) st1 [0..<512])"
    and "st0 = st"
  shows "step_ok f (x # p0) st st' (next_table st' r x)"
proof -
  let ?V = "table_of st" and ?e = "a OR hier_flags f" and ?old = "table_of st r x"
  note al = allocate_table_ok [OF assms(1,2,9)]
  note d = space_wfD [OF assms(1)]
  have r: "r \<noteq> At a" using al(3) assms(3) by auto
  have V: "table_of st' = ?V(At a := split_table ?old, r := (?V r)(x := ?e))"
    using r unfolding assms(10,11) by (auto simp: fill_table al(4) PageTable_new_def split_table_def fun_eq_iff)
  have old: "ent ?V p0 x = ?old" using assms(3) by (simp add: ent_def)
  have al2: "aligned_2m (frame ?old)" using entries_okD(3) [OF d(2), of p0 x] assms(4,7,8) old by simp
  have t: "link (Suc (length p0)) w = None" for w using assms(4) by (simp add: link_def)
  have l0: "link (length p0) ?old = None" using assms(4,8) by (simp add: link_def)
  have l: "link (length p0) ?e = Some (At a)" using assms(4) al(1) frame_address [OF al(1)] by (simp add: link_def)
  have E: "ent (table_of st') = eupd (ent ?V) p0 x ?e (split_table ?old)" unfolding V
    by (rule ent_grow [OF d(1) assms(3) l0 l al(3) t])
  have "walk ?V (x # p0) = None" using assms(3) l0 by simp
  then have below: "ent ?V (y # x # p0) i = 0" for y i by (simp add: ent_def)
  have leaf: "leaf (ent (table_of st')) = leaf (ent ?V)" unfolding E
    using leaf_split [of p0 "ent ?V" x ?e] assms(4,7,8) al2 frame_address [OF al(1)] by (simp add: old)
  have ok: "entries_ok (eupd (ent ?V) p0 x ?e (split_table ?old))"
    using assms(4,5,6) t frame_address [OF al(1)]
    by (intro entries_ok_eupd [OF d(2)]) (auto simp: below parent_user_def)
  have w: "space_wf st' \<and> extends st st'"
    by (rule space_wf_grow [OF assms(1,3) l0 l al(3) t ok al(2) V])
      (simp_all add: assms(10) set_entry_fields fill_table_fields al)
  have "walk (table_of st') (x # p0) = Some (At a)"
    unfolding V by (subst walk_grow [OF d(1) assms(3) l0 l al(3) t]) simp
  moreover have "next_table st' r x = At a" using al(1) V r by simp
  moreover have "parent_user (table_of st') (x # p0)" using assms(5) unfolding parent_user_def E by simp
  ultimately show ?thesis using w leaf by (simp add: step_ok_def)
qed

lemma ensure_pt_step:
  assumes "space_wf st" "heap_ok heap" "walk (table_of st) p0 = Some r" "length p0 = 2"
    and "user f" "parent_user (table_of st) p0" "ensure_pt heap r x f st = Ok st'"
  shows "step_ok f (x # p0) st st' (next_table st' r x)"
proof -
  consider (empty) "\<not> present (table_of st r x)" | (split) "present (table_of st r x)" "huge (table_of st r x)"
    | (table) "present (table_of st r x)" "\<not> huge (table_of st r x)" by blast
  then show ?thesis
  proof cases
    case empty
    then obtain a st1 where "allocate_table heap st = Ok (a, st1)" "st' = set_entry r x (a OR hier_flags f) st1"
      using assms(7) by (auto simp: ensure_pt_def)
    then show ?thesis using grow_step [OF assms(1-3)] assms(4,6) empty by simp
  next
    case split
    then obtain a st1 where "allocate_table heap st = Ok (a, st1)"
      "st' = set_entry r x (a OR hier_flags f) (foldl (\<lambda>s i. set_entry (At a) i (split_entry (table_of st r x) i) s) st1 [0..<512])"
      using assms(7) by (auto simp: ensure_pt_def Let_def split_entry_def frame_def)
    from split_step [OF assms(1-6) split this refl] show ?thesis .
  next
    case table
    then have "walk (table_of st) (x # p0) = Some (At (frame (table_of st r x)))"
      using assms(3,4) by (simp add: link_def)
    from raise_step [OF assms(1,3) _ _ this, of f] assms(4-7) table show ?thesis
      by (simp add: ensure_pt_def Let_def)
  qed
qed

text \<open>The last step: one page changes.\<close>

lemma leaf_set:
  assumes "length p0 = 3" "\<not> (present (E (tl p0) (hd p0)) \<and> huge (E (tl p0) (hd p0)))"
  shows "leaf (eupd E p0 x e t) i j k l =
    (if [l, k, j, i] = x # p0 \<and> l < 512 then if present e then Some (frame e, writable e, user e) else None else leaf E i j k l)"
proof -
  have "eupd E p0 x e t [j, i] k = E [j, i] k" using assms(1) by (auto simp: eupd_def)
  moreover have "eupd E p0 x e t [k, j, i] l = (if [l, k, j, i] = x # p0 then e else E [k, j, i] l)"
    using assms(1) by (auto simp: eupd_def)
  ultimately show ?thesis using assms(2) by (auto simp: leaf_def)
qed

section \<open>The processor's translation\<close>

text \<open>The walk of the processor: the frame of the page of an address and whether every level lets it be
  written and accessed in user mode.\<close>

definition translate :: "space \<Rightarrow> u64 \<Rightarrow> (u64 \<times> bool \<times> bool) option" where
  "translate st v =
     (let e4 = table_of st Root (pml4_idx v);
          e3 = table_of st (At (frame e4)) (pdp_idx v);
          e2 = table_of st (At (frame e3)) (pd_idx v);
          e1 = table_of st (At (frame e2)) (pt_idx v) in
      if \<not> present e4 \<or> \<not> present e3 then None
      else if huge e3 then Some (frame e3 + (v AND 0x3FFFF000), list_all writable [e4, e3], list_all user [e4, e3])
      else if \<not> present e2 then None
      else if huge e2 then Some (frame e2 + (v AND 0x1FF000), list_all writable [e4, e3, e2], list_all user [e4, e3, e2])
      else if \<not> present e1 then None
      else Some (frame e1, list_all writable [e4, e3, e2, e1], list_all user [e4, e3, e2, e1]))"

definition page_path :: "u64 \<Rightarrow> nat list" where
  "page_path v = [pt_idx v, pd_idx v, pdp_idx v, pml4_idx v]"

lemma and_511: "w AND 0x1FF = take_bit 9 w" for w :: u64
  using take_bit_eq_mask [of 9 w] by (simp add: mask_eq_exp_minus_1)

lemma pt_idx_less: "pt_idx v < 512"
proof -
  have "unat (take_bit 9 (drop_bit 12 v)) = take_bit 9 (unat (drop_bit 12 v))" by (rule unsigned_take_bit_eq)
  then show ?thesis using take_bit_nat_less_exp [of 9 "unat (drop_bit 12 v)"] by (simp add: pt_idx_def and_511)
qed

lemma offset_of_page: "v AND 0x1FF000 = of_nat (pt_idx v * PAGE_SIZE)"
proof -
  have m: "(0x1FF000 :: u64) = push_bit 12 (mask 9)" by (simp add: mask_eq_exp_minus_1)
  have "v AND 0x1FF000 = push_bit 12 (take_bit 9 (drop_bit 12 v))"
    unfolding m by (rule bit_word_eqI) (auto simp: bit_and_iff bit_push_bit_iff bit_take_bit_iff bit_drop_bit_eq bit_mask_iff)
  then show ?thesis by (simp add: pt_idx_def and_511 PAGE_SIZE_def push_bit_eq_mult mult.commute)
qed

lemma translate_leaf:
  assumes "space_wf st"
  shows "translate st v = leaf (ent (table_of st)) (pml4_idx v) (pdp_idx v) (pd_idx v) (pt_idx v)"
proof -
  let ?V = "table_of st" and ?E = "ent (table_of st)" and ?i = "pml4_idx v" and ?j = "pdp_idx v" and ?k = "pd_idx v" and ?l = "pt_idx v"
  note d = entries_okD [OF space_wfD(2) [OF assms]]
  define e4 where "e4 = ?V Root ?i"
  define e3 where "e3 = ?V (At (frame e4)) ?j"
  define e2 where "e2 = ?V (At (frame e3)) ?k"
  define e1 where "e1 = ?V (At (frame e2)) ?l"
  note t = translate_def [of st v, folded e4_def, unfolded Let_def, folded e3_def, folded e2_def, folded e1_def]
  have E4: "?E [] ?i = e4" by (simp add: ent_def e4_def)
  have w3: "walk ?V [?i] = link 0 e4" by (simp only: walk_link E4) simp
  have w2: "walk ?V [?j, ?i] = link 1 (?E [?i] ?j)" by (simp only: walk_link) simp
  have w1: "walk ?V [?k, ?j, ?i] = link 2 (?E [?j, ?i] ?k)" by (simp only: walk_link) (simp add: numeral_2_eq_2)
  consider (four) "\<not> present e4" | (three) "present e4" "\<not> present e3" | (two) "present e4" "present e3" "\<not> present e2"
    | (big) "present e4" "present e3" "present e2" "huge e2" | (small) "present e4" "present e3" "present e2" "\<not> huge e2" by blast
  then show ?thesis
  proof cases
    case four
    then have "walk ?V [?i] = None" "walk ?V [?j, ?i] = None" "walk ?V [?k, ?j, ?i] = None"
      using w3 by (simp_all add: link_def)
    then show ?thesis using four t by (simp add: leaf_def ent_none)
  next
    case three
    then have "?E [?i] ?j = e3" using w3 by (simp add: ent_some link_def e3_def del: walk.simps)
    then have "walk ?V [?j, ?i] = None" using w2 three by (simp add: link_def)
    moreover from this have "walk ?V [?k, ?j, ?i] = None" by simp
    ultimately show ?thesis using three t by (simp add: leaf_def ent_none del: walk.simps)
  next
    case two
    then have E3: "?E [?i] ?j = e3" using w3 by (simp add: ent_some link_def e3_def del: walk.simps)
    moreover have "\<not> huge e3" using d(1) [of "[?i]" ?j] two E3 by (simp add: link_def)
    moreover have E2: "?E [?j, ?i] ?k = e2" using w2 two E3 by (simp add: ent_some link_def e2_def del: walk.simps)
    moreover have "walk ?V [?k, ?j, ?i] = None" using w1 E2 two by (simp add: link_def)
    ultimately show ?thesis using two t by (simp add: leaf_def ent_none del: walk.simps)
  next
    case big
    then have E3: "?E [?i] ?j = e3" using w3 by (simp add: ent_some link_def e3_def del: walk.simps)
    have W: "writable e4" "writable e3" "\<not> huge e3"
      using d(1) [of "[]" ?i] d(1) [of "[?i]" ?j] big E4 E3 by (simp_all add: link_def)
    have E2: "?E [?j, ?i] ?k = e2" using w2 big E3 by (simp add: ent_some link_def e2_def del: walk.simps)
    have "user e2 \<Longrightarrow> user e3" "user e3 \<Longrightarrow> user e4"
      using d(2) [of ?j "[?i]" ?k] d(2) [of ?i "[]" ?j] big E2 E3 E4 by simp_all
    then show ?thesis using big t W E2 pt_idx_less [of v] by (auto simp: leaf_def offset_of_page)
  next
    case small
    then have E3: "?E [?i] ?j = e3" using w3 by (simp add: ent_some link_def e3_def del: walk.simps)
    have E2: "?E [?j, ?i] ?k = e2" using w2 small E3 by (simp add: ent_some link_def e2_def del: walk.simps)
    have W: "writable e4" "writable e3" "\<not> huge e3" "writable e2"
      using d(1) [of "[]" ?i] d(1) [of "[?i]" ?j] d(1) [of "[?j, ?i]" ?k] small E4 E3 E2 by (simp_all add: link_def)
    have E1: "?E [?k, ?j, ?i] ?l = e1" using w1 small E2 by (simp add: ent_some link_def e1_def del: walk.simps)
    have "present e1 \<Longrightarrow> user e1 \<Longrightarrow> user e2" "user e2 \<Longrightarrow> user e3" "user e3 \<Longrightarrow> user e4"
      using d(2) [of ?k "[?j, ?i]" ?l] d(2) [of ?j "[?i]" ?k] d(2) [of ?i "[]" ?j] small E1 E2 E3 E4 by simp_all
    then show ?thesis using small t W E2 E1 pt_idx_less [of v] by (auto simp: leaf_def)
  qed
qed

lemma map_4k_page_spec:
  assumes "space_wf st" "heap_ok heap" "user f" "frame p = p" "frame f = 0" "map_4k_page heap v p f st = Ok st'"
  shows "space_wf st' \<and> extends st st' \<and>
    (\<forall>v'. translate st' v' = (if page_path v' = page_path v
      then if present f then Some (p, writable f, True) else None else translate st v'))"
proof -
  let ?i = "pml4_idx v" and ?j = "pdp_idx v" and ?k = "pd_idx v" and ?l = "pt_idx v"
  obtain s1 where s1: "ensure_table heap Root ?i f st = Ok s1" using assms(6) by (auto simp: map_4k_page_def)
  obtain s2 where s2: "ensure_table heap (next_table s1 Root ?i) ?j f s1 = Ok s2"
    using assms(6) s1 by (auto simp: map_4k_page_def Let_def)
  obtain s3 where s3: "ensure_pt heap (next_table s2 (next_table s1 Root ?i) ?j) ?k f s2 = Ok s3"
    using assms(6) s1 s2 by (auto simp: map_4k_page_def Let_def)
  define pd where "pd = next_table s2 (next_table s1 Root ?i) ?j"
  define pt where "pt = next_table s3 pd ?k"
  have st': "st' = set_entry pt ?l (p OR f) s3"
    using assms(6) s1 s2 s3 by (simp add: map_4k_page_def Let_def pt_def pd_def del: rbind_eq_Ok)
  have r1: "step_ok f [?i] st s1 (next_table s1 Root ?i)"
    by (rule ensure_table_step [OF assms(1,2) _ _ _ s1]) (simp_all add: parent_user_def)
  then have r2: "step_ok f [?j, ?i] s1 s2 pd" unfolding pd_def
    by (intro ensure_table_step [OF _ assms(2) _ _ _ s2]) (auto simp: step_ok_def simp del: walk.simps)
  then have r3: "step_ok f [?k, ?j, ?i] s2 s3 pt" unfolding pt_def
    by (intro ensure_pt_step [OF _ assms(2) _ _ assms(3) _ s3 [folded pd_def]]) (use assms(3) in \<open>auto simp: step_ok_def simp del: walk.simps\<close>)
  let ?V = "table_of s3" and ?p = "[?k, ?j, ?i]"
  have w: "walk ?V ?p = Some pt" and wf: "space_wf s3" using r3 by (simp_all add: step_ok_def del: walk.simps)
  note d = space_wfD [OF wf]
  have l: "link (length ?p) (p OR f) = link (length ?p) (?V pt ?l)" by simp
  have E: "ent (table_of st') = eupd (ent ?V) ?p ?l (p OR f) (ent ?V (?l # ?p))"
    unfolding st' table_of_set by (rule ent_set [OF d(1) w l])
  have nw: "walk ?V (y # ?l # ?p) = None" "walk ?V (?l # ?p) = None" for y by (simp_all add: walk_link del: walk.simps)
  have ok: "entries_ok (eupd (ent ?V) ?p ?l (p OR f) (ent ?V (?l # ?p)))"
    using r3 assms(3) by (intro entries_ok_eupd [OF d(2)]) (auto simp: ent_none nw step_ok_def parent_user_def simp del: walk.simps)
  have wf': "space_wf st'" unfolding st' by (rule space_wf_set [OF wf w l ok])
  have nh: "\<not> (present (ent ?V [?j, ?i] ?k) \<and> huge (ent ?V [?j, ?i] ?k))"
  proof -
    have "link 2 (ent ?V [?j, ?i] ?k) = Some pt" using w unfolding walk_link by (simp add: numeral_2_eq_2)
    then show ?thesis by (auto simp: link_def split: if_splits)
  qed
  have leaf: "leaf (ent ?V) = leaf (ent (table_of st))" using r1 r2 r3 by (simp add: step_ok_def)
  have "translate st' v' = (if page_path v' = page_path v
      then if present f then Some (p, writable f, True) else None else translate st v')" for v'
    unfolding translate_leaf [OF wf'] translate_leaf [OF assms(1)] E leaf [symmetric]
    using nh by (subst leaf_set) (auto simp: page_path_def assms(3,4,5) frame_address [OF assms(4)] pt_idx_less)
  moreover have "extends st st'"
    using r1 r2 r3 set_entry_extends [OF wf w] unfolding st' step_ok_def by (meson extends_trans)
  ultimately show ?thesis using wf' by blast
qed

lemma extends_translate:
  assumes "space_wf (ppt, km)" "km_frames km' = km_frames km" "set (km_live km) \<subseteq> set (km_live km')"
  shows "space_wf (ppt, km')" "translate (ppt, km') v = translate (ppt, km) v"
proof -
  have "table_of (ppt, km') r = table_of (ppt, km) r" for r using assms(2) by (cases r) simp_all
  then have "table_of (ppt, km') = table_of (ppt, km)" by auto
  then show "space_wf (ppt, km')" "translate (ppt, km') v = translate (ppt, km) v"
    using assms(1,3) by (auto simp: translate_def)
qed

text \<open>\<open>lookup\<close> is the processor's translation of the page.\<close>

lemma lookup_translate:
  assumes "space_wf st" "take_bit 12 v = 0"
  shows "page_lookup st v = map_option fst (translate st v)"
proof -
  have m: "(0x1FFFFF :: u64) = mask 21" "(0x1FF000 :: u64) = push_bit 12 (mask 9)" by (simp_all add: mask_eq_exp_minus_1)
  have low: "12 \<le> n" if "bit v n" for n
    using assms(2) that by (metis bit_take_bit_iff bit_0_eq bot_apply bot_bool_def not_less)
  have o: "v AND 0x1FFFFF = v AND 0x1FF000" unfolding m
    by (intro bit_word_eqI) (auto simp: bit_and_iff bit_push_bit_iff bit_mask_iff dest: low)
  have nh: "\<not> huge (table_of st (At (frame (table_of st Root (pml4_idx v)))) (pdp_idx v))"
    if "present (table_of st Root (pml4_idx v))" "present (table_of st (At (frame (table_of st Root (pml4_idx v)))) (pdp_idx v))"
    using entries_okD(1) [OF space_wfD(2) [OF assms(1)], of "[pml4_idx v]" "pdp_idx v"] that
    by (simp add: ent_def link_def split: if_splits)
  show ?thesis using nh by (auto simp: page_lookup_def translate_def Let_def o frame_def [symmetric])
qed

section \<open>Large pages and the kernel's mapping\<close>

lemma leaf_cut:
  assumes "length p0 = 2" "present e" "huge e"
  shows "leaf (eupd E p0 x e (\<lambda>_. 0)) i j k l =
    (if [k, j, i] = x # p0 then if l < 512 then Some (frame e + of_nat (l * PAGE_SIZE), writable e, user e) else None
     else leaf E i j k l)"
proof -
  have "eupd E p0 x e (\<lambda>_. 0) [j, i] k = (if [k, j, i] = x # p0 then e else E [j, i] k)"
    using assms(1) by (auto simp: eupd_def)
  moreover have "eupd E p0 x e (\<lambda>_. 0) [k, j, i] l = (if [k, j, i] = x # p0 then 0 else E [k, j, i] l)"
    using assms(1) by (auto simp: eupd_def)
  ultimately show ?thesis using assms by (auto simp: leaf_def Let_def)
qed

lemma map_large_page_spec:
  assumes "space_wf st" "heap_ok heap" "present f" "frame p = p" "aligned_2m p" "frame f = 0" "map_large_page heap v p f st = Ok st'"
  shows "space_wf st' \<and> extends st st' \<and>
    (\<forall>v'. translate st' v' = (if tl (page_path v') = tl (page_path v)
      then Some (p + of_nat (pt_idx v' * PAGE_SIZE), writable f, user f) else translate st v'))"
proof -
  let ?i = "pml4_idx v" and ?j = "pdp_idx v" and ?k = "pd_idx v"
  define e where "e = p OR f OR HUGE_PAGE"
  obtain s1 where s1: "ensure_table heap Root ?i f st = Ok s1" using assms(7) by (auto simp: map_large_page_def)
  obtain s2 where s2: "ensure_table heap (next_table s1 Root ?i) ?j f s1 = Ok s2"
    using assms(7) s1 by (auto simp: map_large_page_def Let_def)
  define pd where "pd = next_table s2 (next_table s1 Root ?i) ?j"
  have st': "st' = set_entry pd ?k e s2"
    using assms(7) s1 s2 by (simp add: map_large_page_def Let_def pd_def e_def del: rbind_eq_Ok)
  have r1: "step_ok f [?i] st s1 (next_table s1 Root ?i)"
    by (rule ensure_table_step [OF assms(1,2) _ _ _ s1]) (simp_all add: parent_user_def)
  then have r2: "step_ok f [?j, ?i] s1 s2 pd" unfolding pd_def
    by (intro ensure_table_step [OF _ assms(2) _ _ _ s2]) (auto simp: step_ok_def simp del: walk.simps)
  let ?V = "table_of s2" and ?p = "[?j, ?i]"
  have w: "walk ?V ?p = Some pd" and wf: "space_wf s2" using r2 by (simp_all add: step_ok_def del: walk.simps)
  note d = space_wfD [OF wf]
  have e: "present e" "huge e" "frame e = p" "writable e = writable f" "user e = user f"
    using assms(3,4,6) frame_address [OF assms(4)] by (simp_all add: e_def)
  have l: "length ?p = 2" "link 2 e = None" "link (length ?p) e = None" using e by (simp_all add: link_def)
  have E: "ent (table_of st') = eupd (ent ?V) ?p ?k e (\<lambda>_. 0)"
    unfolding st' table_of_set by (rule ent_cut [OF d(1) w l(1,2)])
  have nw: "ent ?V (y # ?k # ?p) i = 0" for y i by (simp add: ent_none walk_link del: walk.simps)
  have ok: "entries_ok (ent (table_of st'))" unfolding E
    using r2 l(3) e assms(5) by (intro entries_ok_eupd [OF d(2)]) (auto simp: nw step_ok_def parent_user_def simp del: walk.simps)
  have wk: "walk (table_of st') q = (if q = ?k # ?p then None else walk ?V q)" for q
    unfolding st' table_of_set by (rule walk_cut [OF d(1) w l(1,2)])
  have wf': "space_wf st'"
    using wf ok unfolding space_wf_eq pt_wf_def unique_paths_def wk by (auto simp: st' set_entry_fields split: if_splits)
  have leaf: "leaf (ent ?V) = leaf (ent (table_of st))" using r1 r2 by (simp add: step_ok_def)
  have "translate st' v' = (if tl (page_path v') = tl (page_path v)
      then Some (p + of_nat (pt_idx v' * PAGE_SIZE), writable f, user f) else translate st v')" for v'
    unfolding translate_leaf [OF wf'] translate_leaf [OF assms(1)] E leaf [symmetric] leaf_cut [OF l(1) e(1,2)]
    by (auto simp: page_path_def e pt_idx_less)
  moreover have "extends st st'"
    using r1 r2 set_entry_extends [OF wf w] unfolding st' step_ok_def by (meson extends_trans)
  ultimately show ?thesis using wf' by blast
qed

lemma kernel_indices:
  assumes "i < 4"
  shows "tl (page_path (of_nat i * of_nat LARGE_PAGE_SIZE)) = [i, 0, 0]"
    "tl (page_path (KERNEL_SPACE_START + of_nat i * of_nat LARGE_PAGE_SIZE)) = [i, 510, 511]"
    "frame (of_nat i * of_nat LARGE_PAGE_SIZE) = of_nat i * of_nat LARGE_PAGE_SIZE" "aligned_2m (of_nat i * of_nat LARGE_PAGE_SIZE)"
proof -
  have "i = 0 \<or> i = 1 \<or> i = 2 \<or> i = 3" using assms by auto
  then show "tl (page_path (of_nat i * of_nat LARGE_PAGE_SIZE)) = [i, 0, 0]"
    "tl (page_path (KERNEL_SPACE_START + of_nat i * of_nat LARGE_PAGE_SIZE)) = [i, 510, 511]"
    "frame (of_nat i * of_nat LARGE_PAGE_SIZE) = of_nat i * of_nat LARGE_PAGE_SIZE" "aligned_2m (of_nat i * of_nat LARGE_PAGE_SIZE)"
    by (auto simp: page_path_def pd_idx_def pdp_idx_def pml4_idx_def LARGE_PAGE_SIZE_def KERNEL_SPACE_START_def
      frame_def ADDR_MASK_def aligned_2m_def drop_bit_eq_div and_511 take_bit_eq_mod)
qed

text \<open>The kernel's view of the first \<open>n\<close> large pages: identity-mapped for everyone and mapped at
  \<open>KERNEL_SPACE_START\<close> for the kernel.\<close>

definition kernel_pages :: "nat \<Rightarrow> u64 \<Rightarrow> (u64 \<times> bool \<times> bool) option" where
  "kernel_pages n v =
     (if pd_idx v < n \<and> pml4_idx v = 0 \<and> pdp_idx v = 0 then
        Some (of_nat (pd_idx v) * of_nat LARGE_PAGE_SIZE + of_nat (pt_idx v * PAGE_SIZE), True, True)
      else if pd_idx v < n \<and> pml4_idx v = 511 \<and> pdp_idx v = 510 then
        Some (of_nat (pd_idx v) * of_nat LARGE_PAGE_SIZE + of_nat (pt_idx v * PAGE_SIZE), True, False)
      else None)"

lemma empty_space:
  assumes "ppt_pml4 ppt = PageTable_new" "ppt_tables ppt = []"
  shows "space_wf (ppt, km)" "translate (ppt, km) v = None"
proof -
  let ?V = "table_of (ppt, km)"
  have w: "walk ?V p = (if p = [] then Some Root else None)" for p
  proof (induction p)
    case (Cons i p)
    then show ?case using assms(1) by (cases "p = []") (simp_all add: PageTable_new_def)
  qed simp
  then have e: "ent ?V p i = 0" for p i using assms(1) by (simp add: ent_def PageTable_new_def)
  show "space_wf (ppt, km)" using assms(2) by (auto simp: pt_wf_def unique_paths_def w e entries_ok_def split: if_splits)
  show "translate (ppt, km) v = None" using assms(1) by (simp add: translate_def PageTable_new_def)
qed

lemma kernel_flags_bits [simp]:
  "present kernel_flags" "writable kernel_flags" "user kernel_flags" "frame kernel_flags = 0"
  "present kernel_only_flags" "writable kernel_only_flags" "\<not> user kernel_only_flags" "frame kernel_only_flags = 0"
  by (simp_all add: kernel_flags_def kernel_only_flags_def)

lemma ProcessPageTable_new_spec:
  assumes "heap_ok heap" "ProcessPageTable_new heap km = Ok (ppt, km')"
  shows "space_wf (ppt, km') \<and> ppt_phys ppt = [] \<and> set (ppt_tables ppt) \<inter> set (km_live km) = {} \<and>
    km_live km' = rev (ppt_tables ppt) @ km_live km \<and> distinct (ppt_tables ppt) \<and>
    (\<forall>a. a \<notin> set (ppt_tables ppt) \<longrightarrow> km_frames km' a = km_frames km a) \<and>
    (\<forall>v. translate (ppt, km') v = kernel_pages 4 v)"
proof -
  define st0 :: space where "st0 = (\<lparr>ppt_pml4 = PageTable_new, ppt_tables = [], ppt_phys = []\<rparr>, km)"
  define body where "body = (\<lambda>i st. let phys_addr = of_nat i * of_nat LARGE_PAGE_SIZE in
       rbind (map_large_page heap phys_addr phys_addr kernel_flags st) (\<lambda>st.
         let high_virt = KERNEL_SPACE_START + phys_addr in
         map_large_page heap high_virt phys_addr kernel_only_flags st))"
  have "space_wf st \<and> extends st0 st \<and> (\<forall>v. translate st v = kernel_pages n v)"
    if "n \<le> 4" "for_res body [0..<n] st0 = Ok st" for n st
    using that
  proof (induction n arbitrary: st)
    case 0
    then show ?case using empty_space [of "fst st0" km] extends_refl by (auto simp: st0_def kernel_pages_def)
  next
    case (Suc n)
    obtain s1 where s1: "for_res body [0..<n] st0 = Ok s1" using Suc.prems(2) by (auto simp: for_res_append)
    then have b: "body n s1 = Ok st" using Suc.prems(2) by (auto simp: for_res_append)
    note IH = Suc.IH [OF _ s1]
    let ?p = "of_nat n * of_nat LARGE_PAGE_SIZE :: u64"
    obtain s2 where s2: "map_large_page heap ?p ?p kernel_flags s1 = Ok s2"
      "map_large_page heap (KERNEL_SPACE_START + ?p) ?p kernel_only_flags s2 = Ok st"
      using b by (auto simp: body_def Let_def)
    have n: "n < 4" using Suc.prems by simp
    note k = kernel_indices [OF n]
    have wf1: "space_wf s1" using IH n by simp
    note m1 = map_large_page_spec [OF wf1 assms(1) kernel_flags_bits(1) k(3,4) kernel_flags_bits(4) s2(1)]
    note m2 = map_large_page_spec [OF conjunct1 [OF m1] assms(1) kernel_flags_bits(5) k(3,4) kernel_flags_bits(8) s2(2)]
    have "translate st v = kernel_pages (Suc n) v" for v
      using m1 m2 IH n unfolding k
      by (auto simp: kernel_pages_def page_path_def less_Suc_eq)
    moreover have "extends st0 st" using m1 m2 IH n extends_trans by (meson less_imp_le_nat)
    ultimately show ?case using m2 by blast
  qed
  from this [of 4 "(ppt, km')"] have "space_wf (ppt, km') \<and> extends st0 (ppt, km') \<and> (\<forall>v. translate (ppt, km') v = kernel_pages 4 v)"
    using assms(2) unfolding ProcessPageTable_new_def map_kernel_space_def body_def st0_def by simp
  then show ?thesis by (auto simp: st0_def)
qed

section \<open>The operations return while the heap has room\<close>

definition heap_room :: "heap \<Rightarrow> nat \<Rightarrow> space \<Rightarrow> bool" where
  "heap_room heap n st \<longleftrightarrow> (\<forall>live. length live < length (km_live (snd st)) + n \<longrightarrow> heap live \<noteq> None)"

lemma allocate_table_room:
  assumes "heap_room heap (Suc n) st"
  shows "returns (\<lambda>(a, st'). heap_room heap n st') (allocate_table heap st)"
proof -
  obtain ppt km where st: "st = (ppt, km)" by fastforce
  have "heap (km_live km) \<noteq> None" using assms st by (simp add: heap_room_def)
  then obtain a where "heap (km_live km) = Some a" by blast
  then show ?thesis using assms st by (simp add: heap_room_def)
qed

lemma heap_room_set [simp]: "heap_room heap n (set_entry r x e st) = heap_room heap n st"
  by (simp add: heap_room_def set_entry_fields)

lemma heap_room_fill [simp]: "heap_room heap n (foldl (\<lambda>st i. set_entry r i (g i) st) st is) = heap_room heap n st"
  by (simp add: heap_room_def fill_table_fields)

lemma heap_room_mono: "heap_room heap n st \<Longrightarrow> m \<le> n \<Longrightarrow> heap_room heap m st"
  by (simp add: heap_room_def)

lemma add_user_room [simp]: "heap_room heap n (add_user r x st) = heap_room heap n st"
  by (simp add: add_user_def Let_def)

lemma ensure_room:
  assumes "heap_room heap (Suc n) st"
  shows "returns (heap_room heap n) (ensure_table heap r x f st)" "returns (heap_room heap n) (ensure_pt heap r x f st)"
proof -
  note a = returns_bind [OF allocate_table_room [OF assms]]
  have m: "heap_room heap n st" using assms by (rule heap_room_mono) simp
  show "returns (heap_room heap n) (ensure_table heap r x f st)"
    using m unfolding ensure_table_def by (auto intro!: a)
  show "returns (heap_room heap n) (ensure_pt heap r x f st)"
    using m unfolding ensure_pt_def Let_def by (auto intro!: a)
qed

lemma map_large_page_room:
  assumes "heap_room heap (n + 2) st"
  shows "returns (heap_room heap n) (map_large_page heap v p f st)"
  unfolding map_large_page_def Let_def
  by (rule returns_bind [OF ensure_room(1) [of _ "Suc n"]], use assms in simp)
    (rule returns_bind [OF ensure_room(1) [of _ n]], auto)

lemma map_4k_page_room:
  assumes "heap_room heap (n + 3) st"
  shows "returns (heap_room heap n) (map_4k_page heap v p f st)"
  unfolding map_4k_page_def Let_def
  by (rule returns_bind [OF ensure_room(1) [of _ "Suc (Suc n)"]], use assms in \<open>simp add: numeral_3_eq_3\<close>)
    (rule returns_bind [OF ensure_room(1) [of _ "Suc n"]], simp, rule returns_bind [OF ensure_room(2) [of _ n]], auto)

lemma ProcessPageTable_new_room:
  assumes "heap_room heap (n + 16) (ppt, km)"
  shows "returns (heap_room heap n) (ProcessPageTable_new heap km)"
proof -
  have step: "returns (heap_room heap m) (rbind (map_large_page heap v p f st) (\<lambda>st. map_large_page heap v' p' f' st))"
    if "heap_room heap (m + 4) st" for m st v p f v' p' f'
    by (rule returns_bind [OF map_large_page_room [of _ "m + 2"]]) (use that in \<open>auto intro: map_large_page_room simp: numeral_eq_Suc\<close>)
  have "returns (heap_room heap n) (for_res (\<lambda>i st.
       let phys_addr = of_nat i * of_nat LARGE_PAGE_SIZE in
       rbind (map_large_page heap phys_addr phys_addr kernel_flags st) (\<lambda>st.
         let high_virt = KERNEL_SPACE_START + phys_addr in
         map_large_page heap high_virt phys_addr kernel_only_flags st)) is st)"
    if "heap_room heap (n + 4 * length is) st" for "is" st
    using that
  proof (induction "is" arbitrary: st)
    case (Cons i "is")
    have room: "heap_room heap (n + 4 * length is + 4) st" using Cons.prems by (simp add: algebra_simps)
    from Cons.IH show ?case unfolding for_res.simps Let_def by (rule returns_bind [OF step [OF room]])
  qed simp
  from this [of "[0..<4]"] show ?thesis
    using assms by (simp add: ProcessPageTable_new_def map_kernel_space_def heap_room_def)
qed

lemma map_4k_page_no_error: "map_4k_page heap v p f st \<noteq> Err x"
proof -
  have a: "allocate_table heap s \<noteq> Err x" for s by (cases s) (simp split: option.splits)
  have r: "rbind m g \<noteq> Err x" if "m \<noteq> Err x" "\<And>y. g y \<noteq> Err x" for m :: "(string, 'b) res" and g :: "'b \<Rightarrow> (string, 'c) res"
    using that by (cases m) auto
  have b: "rbind (allocate_table heap s) (\<lambda>(a, st). Ok (g a st)) \<noteq> Err x" for s and g :: "u64 \<Rightarrow> space \<Rightarrow> space"
    by (rule r [OF a]) (simp add: split_beta)
  have e: "ensure_table heap q i f s \<noteq> Err x" "ensure_pt heap q i f s \<noteq> Err x" for q i s
    by (auto simp: ensure_table_def ensure_pt_def Let_def b)
  show ?thesis unfolding map_4k_page_def Let_def by (intro r e) simp
qed

section \<open>Several address spaces\<close>

text \<open>Tables of other managers are untouched, so their translations stay.\<close>

lemma extends_other:
  assumes "extends (ppt, km) (ppt', km')" "space_wf (ppt2, km)" "set (ppt_tables ppt) \<inter> set (ppt_tables ppt2) = {}"
  shows "space_wf (ppt2, km')" "translate (ppt2, km') v = translate (ppt2, km) v"
    "set (ppt_tables ppt') \<inter> set (ppt_tables ppt2) = {}"
proof -
  let ?V = "table_of (ppt2, km)" and ?V' = "table_of (ppt2, km')"
  obtain new where n: "ppt_tables ppt' = ppt_tables ppt @ new" "set new \<inter> set (km_live km) = {}" "km_live km' = rev new @ km_live km"
    using assms(1) by auto
  have live: "set (ppt_tables ppt2) \<subseteq> set (km_live km)" using assms(2) by simp
  show dis: "set (ppt_tables ppt') \<inter> set (ppt_tables ppt2) = {}" using n live assms(3) by auto
  have fr: "km_frames km' a = km_frames km a" if "a \<in> set (ppt_tables ppt2)" for a
    using assms(1) dis that by auto
  have in2: "a \<in> set (ppt_tables ppt2)" if "walk ?V p = Some (At a)" for p a using space_wfD(3) [OF assms(2) that] by simp
  have same: "?V' r i = ?V r i" if "walk ?V p = Some r" for p r i
    using in2 fr that by (cases r) auto
  have w: "walk ?V' p = walk ?V p" for p
  proof (induction p)
    case (Cons i p)
    then show ?case using same by (cases "walk ?V p") auto
  qed simp
  then have e: "ent ?V' = ent ?V" using same by (auto simp: ent_def fun_eq_iff split: option.splits)
  show wf: "space_wf (ppt2, km')" using assms(2) n(3) by (auto simp: pt_wf_def unique_paths_def w e)
  show "translate (ppt2, km') v = translate (ppt2, km) v"
    unfolding translate_leaf [OF wf] translate_leaf [OF assms(2)] e ..
qed

section \<open>The interface to the loader\<close>

definition page_base :: "u64 \<Rightarrow> u64" where "page_base v = v AND NOT (mask 12)"
definition page_off :: "u64 \<Rightarrow> u64" where "page_off v = v AND mask 12"

text \<open>A byte of user memory, read through the page table.\<close>

definition user_image :: "(u64 \<Rightarrow> u64 option) \<Rightarrow> (u64 \<Rightarrow> byte) \<Rightarrow> u64 \<Rightarrow> byte option" where
  "user_image lk mem v = (case lk (page_base v) of None \<Rightarrow> None | Some p \<Rightarrow> Some (mem (p + page_off v)))"

lemma page_base_idem [simp]: "page_base (page_base v) = page_base v"
  by (simp add: page_base_def and.assoc)

lemma page_base_bits: "page_base v = v \<longleftrightarrow> (\<forall>n < 12. \<not> bit v n)"
proof
  assume "page_base v = v"
  then show "\<forall>n < 12. \<not> bit v n" unfolding page_base_def by (metis bit_and_iff bit_not_iff bit_mask_iff)
next
  assume "\<forall>n < 12. \<not> bit v n"
  then show "page_base v = v" unfolding page_base_def
    by (intro bit_word_eqI) (auto simp: bit_and_iff bit_not_iff bit_mask_iff)
qed

lemma page_base_take_bit: "page_base v = v \<Longrightarrow> take_bit 12 v = 0"
  unfolding page_base_bits by (intro bit_word_eqI) (auto simp: bit_take_bit_iff)

lemma frame_page_base: "frame p = p \<Longrightarrow> page_base p = p"
  unfolding page_base_bits by (metis frame_def bit_and_iff bit_ADDR_MASK not_le)

lemma page_base_le: "page_base v \<le> v"
  unfolding page_base_def by (rule word_and_le2)

lemma page_split: "page_base v + page_off v = v"
proof -
  have "page_base v AND page_off v = 0" "page_base v OR page_off v = v"
    unfolding page_base_def page_off_def by (intro bit_word_eqI; auto simp: bit_and_iff bit_or_iff bit_not_iff bit_mask_iff)+
  then show ?thesis using word_plus_and_or [of "page_base v" "page_off v"] by simp
qed

lemma page_base_add:
  assumes "page_base p = p"
  shows "page_base (p + page_off v) = p"
proof -
  have lo: "12 \<le> n" if "bit p n" for n using assms that unfolding page_base_bits by (metis not_less)
  have z: "p AND page_off v = 0"
    unfolding page_off_def by (intro bit_word_eqI) (auto simp: bit_and_iff bit_mask_iff dest: lo)
  have "p + page_off v = p OR page_off v" using word_plus_and_or [of p "page_off v"] z by simp
  then show ?thesis unfolding page_base_def page_off_def
    by (intro bit_word_eqI) (auto simp: bit_and_iff bit_or_iff bit_not_iff bit_mask_iff not_less dest: lo)
qed

text \<open>The address of a frame from its number.\<close>

lemma frame_number:
  assumes "n < 2 ^ 40"
  shows "frame (push_bit 12 (of_nat n)) = push_bit 12 (of_nat n)" "unat (push_bit 12 (of_nat n) :: u64) = n * 4096"
proof -
  have b: "m < 40" if "bit (of_nat n :: u64) m" for m
  proof -
    have "of_nat n = (take_bit 40 (of_nat n) :: u64)" using assms by (simp flip: of_nat_take_bit add: take_bit_nat_eq_self)
    then have "bit (take_bit 40 (of_nat n :: u64)) m" using that by simp
    then show ?thesis by (simp add: bit_take_bit_iff)
  qed
  show "frame (push_bit 12 (of_nat n)) = push_bit 12 (of_nat n)"
  proof (rule bit_word_eqI)
    fix m
    have "m < 52" if "12 \<le> m" "bit (of_nat n :: u64) (m - 12)" using b [OF that(2)] by linarith
    then show "bit (frame (push_bit 12 (of_nat n))) m = bit (push_bit 12 (of_nat n) :: u64) m"
      by (auto simp: frame_def bit_and_iff bit_ADDR_MASK bit_push_bit_iff simp del: push_bit_of_nat)
  qed
  have "(push_bit 12 (of_nat n) :: u64) = of_nat (n * 4096)" by (simp add: push_bit_eq_mult)
  moreover have "n * 4096 < 2 ^ 64" using assms by simp
  ultimately show "unat (push_bit 12 (of_nat n) :: u64) = n * 4096" by (simp only: unat_of_nat) (simp add: take_bit_nat_eq_self)
qed

text \<open>What the loader relies on: mapping a page of user space changes the lookup of that page only.\<close>

locale address_space =
  fixes lookup :: "'s \<Rightarrow> u64 \<Rightarrow> u64 option" and map_page :: "u64 \<Rightarrow> u64 \<Rightarrow> u64 \<Rightarrow> 's \<Rightarrow> (string, 's) res" and inv :: "'s \<Rightarrow> bool"
  assumes map_law: "inv s \<Longrightarrow> page_base v = v \<Longrightarrow> frame p = p \<Longrightarrow> frame f = 0 \<Longrightarrow> map_page v p f s = Ok s' \<Longrightarrow>
      inv s' \<and> v \<le> USER_SPACE_MAX \<and> (\<forall>v'. page_base v' = v' \<longrightarrow> v' \<le> USER_SPACE_MAX \<longrightarrow>
        lookup s' v' = (if v' = v then if present f then Some p else None else lookup s v'))"
    and lookup_page: "inv s \<Longrightarrow> page_base v = v \<Longrightarrow> lookup s v = Some p \<Longrightarrow> page_base p = p"
begin

text \<open>Filling a frame no page is mapped to and mapping it replaces one page of the image.\<close>

lemma remap_image:
  assumes "inv s" "page_base v = v" "frame p = p" "frame f = 0" "map_page v p f s = Ok s'" "present f"
    and fresh: "\<And>v'. page_base v' = v' \<Longrightarrow> v' \<le> USER_SPACE_MAX \<Longrightarrow> lookup s v' \<noteq> Some p"
    and outside: "\<And>a. page_base a \<noteq> p \<Longrightarrow> mem' a = mem a"
    and w: "w \<le> USER_SPACE_MAX"
  shows "user_image (lookup s') mem' w =
    (if page_base w = v then Some (mem' (p + page_off w)) else user_image (lookup s) mem w)"
proof -
  have b: "page_base w \<le> USER_SPACE_MAX" using page_base_le [of w] w by (rule order_trans)
  have lk: "lookup s' (page_base w) = (if page_base w = v then Some p else lookup s (page_base w))"
    using map_law [OF assms(1-5)] b assms(6) by simp
  show ?thesis
  proof (cases "page_base w = v \<or> lookup s (page_base w) = None")
    case False
    then obtain q where q: "lookup s (page_base w) = Some q" by blast
    have "page_base (q + page_off w) = q"
      using lookup_page [OF assms(1) _ q] by (intro page_base_add) simp
    moreover have "q \<noteq> p" using fresh [OF _ b] q by auto
    ultimately have "mem' (q + page_off w) = mem (q + page_off w)" using outside by simp
    then show ?thesis using lk q False by (simp add: user_image_def)
  qed (use lk in \<open>auto simp: user_image_def\<close>)
qed

end

lemma idx_bits:
  fixes v v' :: u64
  assumes "unat (drop_bit n v AND 0x1FF) = unat (drop_bit n v' AND 0x1FF)" "m < 9"
  shows "bit v (n + m) = bit v' (n + m)"
proof -
  have "take_bit 9 (drop_bit n v) = take_bit 9 (drop_bit n v')" using assms(1) unfolding and_511 by (simp only: word_unat_eq_iff)
  then have "bit (take_bit 9 (drop_bit n v)) m = bit (take_bit 9 (drop_bit n v')) m" by simp
  then show ?thesis using assms(2) by (simp add: bit_take_bit_iff bit_drop_bit_eq)
qed

lemma page_path_user:
  assumes "page_base v = v" "page_base v' = v'" "v \<le> USER_SPACE_MAX" "v' \<le> USER_SPACE_MAX" "page_path v = page_path v'"
  shows "v = v'"
proof (rule bit_word_eqI)
  fix n assume "n < LENGTH(64)"
  have hi: "\<not> bit w n" if "w \<le> USER_SPACE_MAX" "47 \<le> n" for w n
  proof
    assume "bit w n"
    then have "bit (unat w) n" by (simp add: bit_unsigned_iff)
    then have "2 ^ n \<le> unat w" by (metis bit_nat_iff not_less take_bit_nat_eq_self bit_take_bit_iff less_irrefl_nat take_bit_nat_eq_self_iff)
    moreover have "unat w < 2 ^ 47" using that(1) by (simp add: USER_SPACE_MAX_def word_le_nat_alt)
    moreover have "(2::nat) ^ 47 \<le> 2 ^ n" using that(2) by (intro power_increasing) simp_all
    ultimately show False by linarith
  qed
  have i: "bit v (39 + m) = bit v' (39 + m)" "bit v (30 + m) = bit v' (30 + m)" "bit v (21 + m) = bit v' (21 + m)"
      "bit v (12 + m) = bit v' (12 + m)" if "m < 9" for m
    using assms(5) idx_bits [OF _ that] unfolding page_path_def pml4_idx_def pdp_idx_def pd_idx_def pt_idx_def by blast+
  have "n < 12 \<or> (\<exists>m < 9. n = 12 + m) \<or> (\<exists>m < 9. n = 21 + m) \<or> (\<exists>m < 9. n = 30 + m) \<or> (\<exists>m < 9. n = 39 + m) \<or> 47 \<le> n"
    by presburger
  moreover have "\<not> bit v n \<and> \<not> bit v' n" if "n < 12" using assms(1,2) that unfolding page_base_bits by blast
  ultimately show "bit v n = bit v' n" using i hi [OF assms(3)] hi [OF assms(4)] by blast
qed

lemma lookup_frame:
  assumes "space_wf st" "page_base v = v" "page_lookup st v = Some p"
  shows "page_base p = p"
proof -
  let ?E = "ent (table_of st)"
  obtain w u where "translate st v = Some (p, w, u)"
    using lookup_translate [OF assms(1) page_base_take_bit [OF assms(2)]] assms(3) by (cases "translate st v") auto
  then have l: "leaf ?E (pml4_idx v) (pdp_idx v) (pd_idx v) (pt_idx v) = Some (p, w, u)"
    using translate_leaf [OF assms(1)] by simp
  let ?e2 = "?E [pdp_idx v, pml4_idx v] (pd_idx v)" and ?e1 = "?E [pd_idx v, pdp_idx v, pml4_idx v] (pt_idx v)"
  show ?thesis
  proof (cases "present ?e2 \<and> huge ?e2")
    case True
    then have a: "aligned_2m (frame ?e2)" using entries_okD(3) [OF space_wfD(2) [OF assms(1)]] by simp
    have "p = frame ?e2 + of_nat (pt_idx v) * of_nat PAGE_SIZE" using l True pt_idx_less [of v] by (simp add: leaf_def Let_def)
    then have "frame p = p" using split_address [OF a pt_idx_less [of v]] by simp
    then show ?thesis by (rule frame_page_base)
  next
    case False
    then have "p = frame ?e1" using l pt_idx_less [of v] by (auto simp: leaf_def Let_def split: if_splits)
    then show ?thesis by (intro frame_page_base) simp
  qed
qed

lemma map_user_page_ok:
  assumes "map_user_page heap v p f st = Ok st'"
  shows "v \<le> USER_SPACE_MAX" "map_4k_page heap v p (f OR USER) st = Ok st'"
  using assms by (auto simp: map_user_page_def split: if_splits)

interpretation kspace: address_space page_lookup "map_user_page heap" "\<lambda>st. heap_ok heap \<and> space_wf st" for heap
proof
  fix s s' v p f
  assume a: "heap_ok heap \<and> space_wf s" "page_base v = v" "frame p = p" "frame f = 0" "map_user_page heap v p f s = Ok s'"
  note m = map_user_page_ok [OF a(5)]
  have u: "user (f OR USER)" "frame (f OR USER) = 0" using a(4) by simp_all
  have s: "space_wf s" "heap_ok heap" using a(1) by blast+
  note sp = map_4k_page_spec [OF s u(1) a(3) u(2) m(2)]
  have "page_lookup s' v' = (if v' = v then if present f then Some p else None else page_lookup s v')"
    if "page_base v' = v'" "v' \<le> USER_SPACE_MAX" for v'
  proof -
    note t = page_base_take_bit [OF that(1)]
    have "page_path v' = page_path v \<longleftrightarrow> v' = v" using page_path_user [OF that(1) a(2) that(2) m(1)] by auto
    then show ?thesis using sp lookup_translate [OF conjunct1 [OF sp] t] lookup_translate [OF s(1) t] by simp
  qed
  then show "(heap_ok heap \<and> space_wf s') \<and> v \<le> USER_SPACE_MAX \<and> (\<forall>v'. page_base v' = v' \<longrightarrow> v' \<le> USER_SPACE_MAX \<longrightarrow>
      page_lookup s' v' = (if v' = v then if present f then Some p else None else page_lookup s v'))"
    using sp s m(1) by blast
qed (use lookup_frame in blast)

section \<open>Unmapping and dropping\<close>

text \<open>Unmapping a page that a last-level table maps removes exactly that page.\<close>

lemma unmap_4k_page_spec:
  assumes "space_wf st" "walk (table_of st) [pd_idx v, pdp_idx v, pml4_idx v] \<noteq> None" "unmap_4k_page v st = (r, st')"
  shows "r = map_option fst (translate st v)"
    "space_wf st' \<and> (\<forall>v'. translate st' v' = (if page_path v' = page_path v then None else translate st v'))"
proof -
  let ?V = "table_of st" and ?i = "pml4_idx v" and ?j = "pdp_idx v" and ?k = "pd_idx v" and ?l = "pt_idx v"
  let ?p = "[?k, ?j, ?i]"
  note d = space_wfD [OF assms(1)]
  obtain pt where w1: "walk ?V ?p = Some pt" using assms(2) by blast
  obtain pd where w2: "walk ?V [?j, ?i] = Some pd" using w1 by (cases "walk ?V [?j, ?i]") auto
  obtain pdp where w3: "walk ?V [?i] = Some pdp" using w2 by (cases "walk ?V [?i]") auto
  have l3: "link 0 (?V Root ?i) = Some pdp" using w3 by simp
  have l2: "link 1 (?V pdp ?j) = Some pd" using w2 w3 by (simp del: walk.simps add: walk.simps(2) [of _ ?j])
  have l1: "link 2 (?V pd ?k) = Some pt"
    using w1 w2 by (simp del: walk.simps add: walk.simps(2) [of _ ?k] numeral_2_eq_2)
  have p: "present (?V Root ?i)" "pdp = At (frame (?V Root ?i))" "present (?V pdp ?j)" "pd = At (frame (?V pdp ?j))"
    "present (?V pd ?k)" "\<not> huge (?V pd ?k)" "pt = At (frame (?V pd ?k))"
    using l3 l2 l1 by (auto simp: link_def split: if_splits)
  have u: "unmap_4k_page v st = (if present (?V pt ?l) then (Some (frame (?V pt ?l)), set_entry pt ?l 0 st) else (None, st))"
    using p by (simp add: unmap_4k_page_def Let_def frame_def [symmetric])
  have e: "ent ?V [?j, ?i] ?k = ?V pd ?k" "ent ?V ?p ?l = ?V pt ?l" using w1 w2 by (simp_all add: ent_def del: walk.simps)
  have t: "translate st v = (if present (?V pt ?l) then Some (frame (?V pt ?l), writable (?V pt ?l), user (?V pt ?l)) else None)"
    using p(6) pt_idx_less [of v] by (simp add: translate_leaf [OF assms(1)] leaf_def e Let_def)
  show "r = map_option fst (translate st v)" using assms(3) u t by (auto split: if_splits)
  show "space_wf st' \<and> (\<forall>v'. translate st' v' = (if page_path v' = page_path v then None else translate st v'))"
  proof (cases "present (?V pt ?l)")
    case True
    then have st': "st' = set_entry pt ?l 0 st" using assms(3) u by simp
    have l: "link (length ?p) 0 = link (length ?p) (?V pt ?l)" by simp
    have E: "ent (table_of st') = eupd (ent ?V) ?p ?l 0 (ent ?V (?l # ?p))"
      unfolding st' table_of_set by (rule ent_set [OF d(1) w1 l])
    have nw: "ent ?V (y # ?l # ?p) n = 0" "ent ?V (?l # ?p) n = 0" for y n by (simp_all add: ent_none walk_link del: walk.simps)
    have ok: "entries_ok (eupd (ent ?V) ?p ?l 0 (ent ?V (?l # ?p)))"
      by (intro entries_ok_eupd [OF d(2)]) (simp_all add: nw)
    have wf': "space_wf st'" unfolding st' by (rule space_wf_set [OF assms(1) w1 l ok])
    have "translate st' v' = (if page_path v' = page_path v then None else translate st v')" for v'
      unfolding translate_leaf [OF wf'] translate_leaf [OF assms(1)] E using p(6)
      by (subst leaf_set) (auto simp: page_path_def e pt_idx_less)
    then show ?thesis using wf' by blast
  next
    case False
    then have "st' = st" "translate st v = None" using assms(3) u t by simp_all
    moreover have "translate st v' = None" if "page_path v' = page_path v" for v'
      using that calculation(2) unfolding translate_leaf [OF assms(1)] page_path_def by simp
    ultimately show ?thesis using assms(1) by simp
  qed
qed

text \<open>Unmapping an address in a huge page does not unmap anything: the page's own memory is taken for
  a table, and one word of it is cleared when its lowest bit is set.\<close>

lemma unmap_huge_page_clobbers:
  assumes "translate st v = Some x" "unmap_4k_page v st = (r, st')"
    and "e2 = table_of st (At (frame (table_of st (At (frame (table_of st Root (pml4_idx v)))) (pdp_idx v)))) (pd_idx v)"
    and "\<not> huge (table_of st (At (frame (table_of st Root (pml4_idx v)))) (pdp_idx v))" "huge e2"
    and "bit (km_frames (snd st) (frame e2) (pt_idx v)) 0"
  shows "st' = set_entry (At (frame e2)) (pt_idx v) 0 st"
proof -
  have "table_of st (At a) = km_frames (snd st) a" for a by (cases st) simp
  then show ?thesis using assms
    by (auto simp: translate_def unmap_4k_page_def Let_def present_def [symmetric] frame_def [symmetric] split: if_splits)
qed

section \<open>Properties\<close>

text \<open>C9. Mapping a user page does what the processor sees and nothing else. In a well-formed address
  space, with page-aligned frame and flags that are flags, \<open>map_user_page\<close> either refuses an address
  outside user space, or runs out of heap for at most three new tables, or returns: then the page of
  that address, and no other, has a new translation (the frame, writable as asked, accessible to the
  user; unmapped when the flags lack \<open>PRESENT\<close>), whether or not a huge page had to be split, the
  tables stay well formed, and every other address space keeps its translation.\<close>

theorem map_user_page_exact:
  assumes "heap_ok heap" "space_wf (ppt, km)" "frame p = p" "frame f = 0"
    and "space_wf (other, km)" "set (ppt_tables ppt) \<inter> set (ppt_tables other) = {}"
  shows "case map_user_page heap v p f (ppt, km) of
      Ok (ppt', km') \<Rightarrow> v \<le> USER_SPACE_MAX \<and> space_wf (ppt', km') \<and>
        (\<forall>v'. translate (ppt', km') v' = (if page_path v' = page_path v
          then if present f then Some (p, writable f, True) else None else translate (ppt, km) v')) \<and>
        space_wf (other, km') \<and> set (ppt_tables ppt') \<inter> set (ppt_tables other) = {} \<and>
        (\<forall>v'. translate (other, km') v' = translate (other, km) v')
    | Err e \<Rightarrow> e = ''Virtual address outside user space'' \<and> v > USER_SPACE_MAX
    | Panic \<Rightarrow> v \<le> USER_SPACE_MAX \<and> \<not> heap_room heap 3 (ppt, km)"
proof (cases "map_user_page heap v p f (ppt, km)")
  case (Ok st')
  obtain ppt' km' where st': "st' = (ppt', km')" by fastforce
  note m = map_user_page_ok [OF Ok]
  have u: "user (f OR USER)" "frame (f OR USER) = 0" using assms(4) by simp_all
  note sp = map_4k_page_spec [OF assms(2,1) u(1) assms(3) u(2) m(2), unfolded st']
  note o = extends_other [OF conjunct1 [OF conjunct2 [OF sp]] assms(5,6)]
  show ?thesis using Ok st' m(1) sp o by simp
next
  case (Err e)
  then show ?thesis using map_4k_page_no_error [of heap v p "f OR USER"] by (auto simp: map_user_page_def split: if_splits)
next
  case Panic
  then have "v \<le> USER_SPACE_MAX" "map_4k_page heap v p (f OR USER) (ppt, km) = Panic"
    by (auto simp: map_user_page_def split: if_splits)
  moreover from this(2) have "\<not> heap_room heap 3 (ppt, km)"
    using map_4k_page_room [of heap 0 "(ppt, km)" v p "f OR USER"] by (auto simp: returns_def)
  ultimately show ?thesis using Panic by simp
qed

text \<open>A heap of the size and place of the kernel's, 4 MB from 2 MB on, that serves the first free page.\<close>

definition first_fit :: heap where
  "first_fit live = find (\<lambda>a. a \<notin> set live) (map (\<lambda>i. push_bit 12 (of_nat (512 + i))) [0..<1024])"

lemma first_fit_ok: "heap_ok first_fit"
  unfolding heap_ok_def first_fit_def
  by (auto simp: find_Some_iff frame_number simp del: push_bit_of_nat of_nat_add)

lemma first_fit_room: "length (km_live km) + n \<le> 1024 \<Longrightarrow> heap_room first_fit n (ppt, km)"
proof -
  let ?c = "map (\<lambda>i. push_bit 12 (of_nat (512 + i)) :: u64) [0..<1024]"
  have "inj_on (\<lambda>i. push_bit 12 (of_nat (512 + i)) :: u64) {0..<1024}"
    by (rule inj_onI, drule arg_cong [where f = unat]) (simp add: frame_number del: push_bit_of_nat of_nat_add)
  then have c: "card (set ?c) = 1024" by (simp add: card_image del: push_bit_of_nat of_nat_add)
  assume "length (km_live km) + n \<le> 1024"
  moreover have "first_fit live \<noteq> None" if "length live < 1024" for live
  proof
    assume "first_fit live = None"
    then have "set ?c \<subseteq> set live" unfolding first_fit_def find_None_iff by auto
    then have "card (set ?c) \<le> card (set live)" by (rule card_mono [OF finite_set])
    then show False using that card_length [of live] c by linarith
  qed
  ultimately show ?thesis by (simp add: heap_room_def)
qed

definition fresh_kmem :: kmem where "fresh_kmem = \<lparr>km_frames = (\<lambda>_ _. 0), km_live = []\<rparr>"

lemma two_spaces:
  obtains a b km where "space_wf (a, km)" "space_wf (b, km)" "set (ppt_tables b) \<inter> set (ppt_tables a) = {}"
    "heap_room first_fit 992 (b, km)"
proof -
  have r0: "heap_room first_fit (1008 + 16) (p, fresh_kmem)" for p by (rule first_fit_room) (simp add: fresh_kmem_def)
  obtain a k1 where a: "ProcessPageTable_new first_fit fresh_kmem = Ok (a, k1)" "heap_room first_fit 1008 (a, k1)"
    using ProcessPageTable_new_room [OF r0] by (auto simp: returns_def)
  note sa = ProcessPageTable_new_spec [OF first_fit_ok a(1)]
  obtain b k2 where b: "ProcessPageTable_new first_fit k1 = Ok (b, k2)" "heap_room first_fit 992 (b, k2)"
    using ProcessPageTable_new_room [of first_fit 992 a k1] a(2) by (auto simp: returns_def)
  note sb = ProcessPageTable_new_spec [OF first_fit_ok b(1)]
  have dis: "set (ppt_tables b) \<inter> set (ppt_tables a) = {}" using sa sb by auto
  have "extends (\<lparr>ppt_pml4 = PageTable_new, ppt_tables = [], ppt_phys = []\<rparr>, k1) (b, k2)" using sb by auto
  from extends_other(1) [OF this, of a] have "space_wf (a, k2)" using sa by simp
  with that sb dis b(2) show ?thesis by blast
qed

theorem map_user_page_exact_witness:
  "\<exists>ppt other km ppt' km'. map_user_page first_fit 0x1000000 0x2000000 (PRESENT OR WRITABLE) (ppt, km) = Ok (ppt', km') \<and>
     translate (ppt', km') 0x1000ABC = Some (0x2000000, True, True) \<and> translate (other, km') 0 = translate (other, km) 0"
proof -
  obtain a b km where s: "space_wf (a, km)" "space_wf (b, km)" "set (ppt_tables b) \<inter> set (ppt_tables a) = {}"
    "heap_room first_fit 992 (b, km)" by (rule two_spaces)
  have f: "frame 0x2000000 = 0x2000000" "frame (PRESENT OR WRITABLE) = 0" by (simp_all add: frame_def ADDR_MASK_def flag_defs)
  note m = map_user_page_exact [OF first_fit_ok s(2) f s(1) s(3), of "0x1000000"]
  have "heap_room first_fit 3 (b, km)" using s(4) by (rule heap_room_mono) simp
  then obtain ppt' km' where o: "map_user_page first_fit 0x1000000 0x2000000 (PRESENT OR WRITABLE) (b, km) = Ok (ppt', km')"
    using m by (cases "map_user_page first_fit 0x1000000 0x2000000 (PRESENT OR WRITABLE) (b, km)")
      (auto simp: USER_SPACE_MAX_def)
  have "page_path 0x1000ABC = page_path 0x1000000"
    by (simp add: page_path_def pt_idx_def pd_idx_def pdp_idx_def pml4_idx_def drop_bit_eq_div and_511 take_bit_eq_mod)
  then have "translate (ppt', km') 0x1000ABC = Some (0x2000000, True, True)" "translate (a, km') 0 = translate (a, km) 0"
    using m unfolding o by simp_all
  with o show ?thesis by blast
qed

text \<open>A new process sees the kernel and nothing else. With room for its tables a new page table is
  built, no page is tracked by it, it leaves other memory alone, and it translates exactly the first
  8 MB, to themselves and accessible to the user, and the 8 MB from \<open>KERNEL_SPACE_START\<close>, to the same
  frames and only for the kernel; \<open>lookup\<close> agrees with the processor on every page.\<close>

lemma new_process_space:
  assumes "heap_ok heap" "heap_room heap 16 (p, km)"
  shows "\<exists>ppt km'. ProcessPageTable_new heap km = Ok (ppt, km') \<and> space_wf (ppt, km') \<and> ppt_phys ppt = [] \<and>
    (\<forall>a. a \<in> set (km_live km) \<longrightarrow> a \<in> set (km_live km') \<and> km_frames km' a = km_frames km a) \<and>
    (\<forall>v. translate (ppt, km') v = kernel_pages 4 v) \<and>
    (\<forall>v. page_base v = v \<longrightarrow> page_lookup (ppt, km') v = map_option fst (kernel_pages 4 v))"
proof -
  obtain ppt km' where n: "ProcessPageTable_new heap km = Ok (ppt, km')"
    using ProcessPageTable_new_room [of heap 0 p km] assms(2) by (auto simp: returns_def)
  note s = ProcessPageTable_new_spec [OF assms(1) n]
  have "page_lookup (ppt, km') v = map_option fst (kernel_pages 4 v)" if "page_base v = v" for v
    using lookup_translate [OF conjunct1 [OF s] page_base_take_bit [OF that]] s by simp
  with n s show ?thesis by auto
qed

lemma new_process_space_example:
  "\<exists>ppt km'. ProcessPageTable_new first_fit fresh_kmem = Ok (ppt, km') \<and>
     translate (ppt, km') 0x123456 = Some (0x123000, True, True) \<and> translate (ppt, km') 0x1000000 = None"
proof -
  have "heap_room first_fit 16 (p, fresh_kmem)" for p by (rule first_fit_room) (simp add: fresh_kmem_def)
  from new_process_space [OF first_fit_ok this] obtain ppt km' where
    o: "ProcessPageTable_new first_fit fresh_kmem = Ok (ppt, km')" and t: "\<forall>v. translate (ppt, km') v = kernel_pages 4 v" by blast
  have "kernel_pages 4 0x123456 = Some (0x123000, True, True)" "kernel_pages 4 0x1000000 = None"
    by (simp_all add: kernel_pages_def pt_idx_def pd_idx_def pdp_idx_def pml4_idx_def drop_bit_eq_div and_511 take_bit_eq_mod
      LARGE_PAGE_SIZE_def PAGE_SIZE_def)
  with o t show ?thesis by auto
qed

end
