(* ===== verification/Kern_Elf.thy ===== *)
theory Kern_Elf
  imports Kern_Paging
begin

text \<open>
  The ELF parser and the loader, \<open>crates/sys/process/src/elf.rs\<close>.

  A file is a list of bytes. The program headers are read from the raw bytes behind a pointer; a
  header that does not lie inside the file is \<open>None\<close>, and looking at it is undefined, the value
  \<open>Panic\<close>, as is copying bytes from beyond the file. Sums of offsets are those of \<open>u64\<close>, which wrap.

  The loader works on the page table, the page allocator and physical memory, the record \<open>machine\<close>;
  physical memory is byte-addressed and, as the page tables come from the kernel heap and the pages
  from the allocator's range, separate from the frames of the tables. The contract is the image of
  the program: \<open>seg_image\<close> says what one segment makes of the user's memory.
\<close>

section \<open>Model\<close>

record elf64_header =
  eh_magic :: "byte list"
  eh_class :: byte
  eh_endian :: byte
  eh_version :: byte
  eh_os_abi :: byte
  eh_abi_version :: byte
  eh_etype :: u16
  eh_machine :: u16
  eh_version2 :: u32
  eh_entry :: u64
  eh_phoff :: u64
  eh_shoff :: u64
  eh_flags :: u32
  eh_ehsize :: u16
  eh_phentsize :: u16
  eh_phnum :: u16
  eh_shentsize :: u16
  eh_shnum :: u16
  eh_shstrndx :: u16

record elf64_phdr =
  ph_ptype :: u32
  ph_flags :: u32
  ph_offset :: u64
  ph_vaddr :: u64
  ph_paddr :: u64
  ph_filesz :: u64
  ph_memsz :: u64
  ph_align :: u64

definition PT_LOAD :: u32 where "PT_LOAD = 1"
definition PF_W :: u32 where "PF_W = 2"
definition EM_X86_64 :: u16 where "EM_X86_64 = 0x3E"
definition ET_EXEC :: u16 where "ET_EXEC = 2"
definition ET_DYN :: u16 where "ET_DYN = 3"

record elf64 =
  elf_entry :: u64
  elf_phdrs :: "elf64_phdr option list"
  elf_is_pie :: bool

definition field :: "byte list \<Rightarrow> nat \<Rightarrow> nat \<Rightarrow> 'a::len word" where
  "field bs off n = dec_word (take n (drop off bs))"

definition read_header :: "byte list \<Rightarrow> elf64_header" where
  "read_header d = \<lparr>eh_magic = take 4 d, eh_class = field d 4 1, eh_endian = field d 5 1,
     eh_version = field d 6 1, eh_os_abi = field d 7 1, eh_abi_version = field d 8 1, eh_etype = field d 16 2,
     eh_machine = field d 18 2, eh_version2 = field d 20 4, eh_entry = field d 24 8, eh_phoff = field d 32 8,
     eh_shoff = field d 40 8, eh_flags = field d 48 4, eh_ehsize = field d 52 2, eh_phentsize = field d 54 2,
     eh_phnum = field d 56 2, eh_shentsize = field d 58 2, eh_shnum = field d 60 2, eh_shstrndx = field d 62 2\<rparr>"

definition read_phdr :: "byte list \<Rightarrow> nat \<Rightarrow> elf64_phdr option" where
  "read_phdr d off =
     (if off + 56 \<le> length d then
        let bs = drop off d in
        Some \<lparr>ph_ptype = field bs 0 4, ph_flags = field bs 4 4, ph_offset = field bs 8 8, ph_vaddr = field bs 16 8,
          ph_paddr = field bs 24 8, ph_filesz = field bs 32 8, ph_memsz = field bs 40 8, ph_align = field bs 48 8\<rparr>
      else None)"

definition elf_parse :: "byte list \<Rightarrow> (string, elf64) res" where
  "elf_parse data =
     (if length data < 64 then Err ''File too small for ELF header''
      else let header = read_header data in
      if eh_magic header \<noteq> [0x7F, 0x45, 0x4C, 0x46] then Err ''Invalid ELF magic''
      else if eh_class header \<noteq> 2 then Err ''Not a 64-bit ELF''
      else if eh_endian header \<noteq> 1 then Err ''Not little-endian''
      else if eh_machine header \<noteq> EM_X86_64 then Err ''Not x86-64''
      else let is_pie = (eh_etype header = ET_DYN) in
      if eh_etype header \<noteq> ET_EXEC \<and> eh_etype header \<noteq> ET_DYN then Err ''Not an executable''
      else let ph_offset = eh_phoff header;
               ph_count = unat (eh_phnum header);
               ph_size = unat (eh_phentsize header) in
      if unat (ph_offset + of_nat (ph_count * ph_size)) > length data then Err ''Program headers outside file''
      else Ok \<lparr>elf_entry = eh_entry header,
          elf_phdrs = map (\<lambda>i. read_phdr data (unat ph_offset + 56 * i)) [0..<ph_count], elf_is_pie = is_pie\<rparr>)"

record machine =
  mc_space :: space
  mc_phys :: phys_allocator
  mc_mem :: "u64 \<Rightarrow> byte"

text \<open>A run of bytes of physical memory is written; the addresses are below 1 GB.\<close>

definition write_at :: "(u64 \<Rightarrow> byte) \<Rightarrow> u64 \<Rightarrow> byte list \<Rightarrow> u64 \<Rightarrow> byte" where
  "write_at mem a bs = (\<lambda>x. if unat a \<le> unat x \<and> unat x < unat a + length bs then bs ! (unat x - unat a) else mem x)"

text \<open>The body of the page loop. The offsets in the segment are \<open>nat\<close>: \<open>page_offset\<close> is at most the
  loop counter times the page size, and there are fewer than \<open>2 ^ 18\<close> pages to allocate.\<close>

definition page_contents :: "byte list \<Rightarrow> u64 \<Rightarrow> nat \<Rightarrow> nat \<Rightarrow> nat \<Rightarrow> u64 \<Rightarrow> u64 \<Rightarrow> u64 option \<Rightarrow> (u64 \<Rightarrow> byte) \<Rightarrow>
    (string, u64 \<Rightarrow> byte) res" where
  "page_contents data virt_addr src_offset file_size mem_size page_virt phys_page existing mem =
     (let page_offset = (if page_virt < virt_addr then 0 else unat (page_virt - virt_addr));
          dest_in_page = (if page_virt < virt_addr then unat (virt_addr - page_virt) else 0);
          mem1 = (case existing of
              Some old_phys \<Rightarrow> write_at mem phys_page (map (\<lambda>i. mem (old_phys + of_nat i)) [0..<PAGE_SIZE])
            | None \<Rightarrow> write_at mem phys_page (replicate PAGE_SIZE 0));
          copy_start = page_offset;
          copy_end = min (min (page_offset + PAGE_SIZE - dest_in_page) file_size) (copy_start + PAGE_SIZE - dest_in_page);
          copy_len = copy_end - copy_start in
      rbind (if page_offset < file_size \<and> copy_len > 0 then
               if src_offset + copy_start + copy_len \<le> length data
               then Ok (write_at mem1 (phys_page + of_nat dest_in_page) (take copy_len (drop (src_offset + copy_start) data)))
               else Panic
             else Ok mem1) (\<lambda>mem2.
        let page_end_offset = page_offset + (PAGE_SIZE - dest_in_page);
            bss_in_page_start = max file_size page_offset;
            bss_in_page_end = min mem_size page_end_offset in
        if mem_size > file_size \<and> bss_in_page_end > bss_in_page_start then
          let zero_offset_in_page = dest_in_page + (bss_in_page_start - page_offset);
              zero_len = bss_in_page_end - bss_in_page_start in
          Ok (write_at mem2 (phys_page + of_nat zero_offset_in_page) (replicate zero_len 0))
        else Ok mem2))"

definition load_page :: "heap \<Rightarrow> byte list \<Rightarrow> u64 \<Rightarrow> nat \<Rightarrow> nat \<Rightarrow> nat \<Rightarrow> u64 \<Rightarrow> u64 \<Rightarrow> (machine, string, unit) op" where
  "load_page heap data virt_addr src_offset file_size mem_size flags page_virt m =
     (let existing_phys = page_lookup (mc_space m) page_virt in
      case alloc_page (mc_phys m) of
        (None, pa) \<Rightarrow> (Err ''Out of physical memory'', m\<lparr>mc_phys := pa\<rparr>)
      | (Some phys_page, pa) \<Rightarrow>
          let m = m\<lparr>mc_phys := pa, mc_space := track_phys_page phys_page (mc_space m)\<rparr> in
          case page_contents data virt_addr src_offset file_size mem_size page_virt phys_page existing_phys (mc_mem m) of
            Ok mem \<Rightarrow>
              let m = m\<lparr>mc_mem := mem\<rparr> in
              (case map_user_page heap page_virt phys_page flags (mc_space m) of
                 Ok sp \<Rightarrow> (Ok (), m\<lparr>mc_space := sp\<rparr>)
               | Err e \<Rightarrow> (Err e, m)
               | Panic \<Rightarrow> (Panic, m))
          | Err e \<Rightarrow> (Err e, m)
          | Panic \<Rightarrow> (Panic, m))"

definition seg_addr :: "elf64 \<Rightarrow> u64 \<Rightarrow> u64 \<Rightarrow> elf64_phdr \<Rightarrow> u64" where
  "seg_addr elf load_base min_vaddr ph =
     (if elf_is_pie elf then load_base + (ph_vaddr ph - min_vaddr) else ph_vaddr ph)"

definition seg_flags :: "elf64_phdr \<Rightarrow> u64" where
  "seg_flags ph = (if ph_flags ph AND PF_W \<noteq> 0 then PRESENT OR WRITABLE else PRESENT)"

text \<open>The pages of a segment.\<close>

definition seg_pages :: "u64 \<Rightarrow> u64 \<Rightarrow> u64 list" where
  "seg_pages virt_addr mem_size =
     (let page_start = virt_addr AND NOT (of_nat PAGE_SIZE - 1);
          page_end = (virt_addr + mem_size + of_nat PAGE_SIZE - 1) AND NOT (of_nat PAGE_SIZE - 1);
          num_pages = unat (page_end - page_start) div PAGE_SIZE in
      map (\<lambda>i. page_start + of_nat i * of_nat PAGE_SIZE) [0..<num_pages])"

definition load_segment :: "heap \<Rightarrow> elf64 \<Rightarrow> byte list \<Rightarrow> u64 \<Rightarrow> u64 \<Rightarrow> elf64_phdr \<Rightarrow> (machine, string, unit) op" where
  "load_segment heap elf data load_base min_vaddr ph =
     (if ph_ptype ph \<noteq> PT_LOAD then ret ()
      else let virt_addr = seg_addr elf load_base min_vaddr ph in
      if unat (ph_offset ph + ph_filesz ph) > length data then lift_res (Err ''Segment outside file'')
      else for_op (load_page heap data virt_addr (unat (ph_offset ph)) (unat (ph_filesz ph)) (unat (ph_memsz ph)) (seg_flags ph))
        (seg_pages virt_addr (ph_memsz ph)))"

definition min_vaddr_of :: "elf64_phdr list \<Rightarrow> u64" where
  "min_vaddr_of phs =
     (case map ph_vaddr (filter (\<lambda>p. ph_ptype p = PT_LOAD) phs) of [] \<Rightarrow> 0 | v # vs \<Rightarrow> fold min vs v)"

definition load_segments_protected :: "heap \<Rightarrow> elf64 \<Rightarrow> byte list \<Rightarrow> u64 \<Rightarrow> (machine, string, unit) op" where
  "load_segments_protected heap elf data load_base =
     (case those (elf_phdrs elf) of
        None \<Rightarrow> lift_res Panic
      | Some phs \<Rightarrow> for_op (load_segment heap elf data load_base (min_vaddr_of phs)) phs)"

section \<open>Pages and offsets\<close>

lemma page_off_nat: "n < 4096 \<Longrightarrow> page_off (of_nat n) = of_nat n"
proof -
  assume "n < 4096"
  have "(of_nat n AND mask 12 :: u64) = take_bit 12 (of_nat n)" by (simp add: take_bit_eq_mask)
  also have "\<dots> = of_nat n" using \<open>n < 4096\<close> by (simp flip: of_nat_take_bit add: take_bit_nat_eq_self)
  finally show ?thesis by (simp add: page_off_def)
qed

lemma page_off_less: "unat (page_off w) < 4096"
proof -
  have "page_off w = take_bit 12 w" by (simp add: page_off_def take_bit_eq_mask)
  then have "unat (page_off w) = take_bit 12 (unat w)" by (simp add: unsigned_take_bit_eq)
  then show ?thesis using take_bit_nat_less_exp [of 12 "unat w"] by simp
qed

lemma page_decomp:
  obtains n where "n < 4096" "w = page_base w + of_nat n" "page_off w = of_nat n"
  using page_off_less [of w] page_split [of w] by (intro that [of "unat (page_off w)"]) simp_all

lemma page_base_nat: "page_base p = p \<Longrightarrow> n < 4096 \<Longrightarrow> page_base (p + of_nat n) = p \<and> page_off (p + of_nat n) = of_nat n"
proof -
  assume a: "page_base p = p" "n < 4096"
  have b: "page_base (p + of_nat n) = p" using page_base_add [OF a(1), of "of_nat n"] page_off_nat [OF a(2)] by simp
  then show ?thesis using page_split [of "p + of_nat n"] by simp
qed

lemma unat_page: "unat p + 4096 \<le> 2 ^ 64 \<Longrightarrow> n < 4096 \<Longrightarrow> unat (p + of_nat n) = unat p + n" for p :: u64
  by (simp add: unat_word_ariths unat_of_nat)

lemma in_page:
  assumes "page_base p = p" "unat p \<le> unat a" "unat a < unat p + 4096"
  shows "page_base a = p"
proof -
  have "a = p + of_nat (unat a - unat p)" using assms(2) by (simp add: of_nat_diff)
  then show ?thesis using page_base_nat [OF assms(1), of "unat a - unat p"] assms(2,3) by simp
qed

lemma write_at_page:
  assumes "unat p + 4096 \<le> 2 ^ 64" "d < 4096" "n < 4096"
  shows "write_at mem (p + of_nat d) bs (p + of_nat n) = (if d \<le> n \<and> n < d + length bs then bs ! (n - d) else mem (p + of_nat n))"
  using assms by (simp add: write_at_def unat_page)

lemma write_at_outside:
  assumes "page_base p = p" "unat p + 4096 \<le> 2 ^ 64" "d + length bs \<le> 4096" "page_base a \<noteq> p"
  shows "write_at mem (p + of_nat d) bs a = mem a"
proof -
  have "\<not> (unat (p + of_nat d) \<le> unat a \<and> unat a < unat (p + of_nat d) + length bs)" if "bs \<noteq> []"
  proof -
    have "d < 4096" using that assms(3) by (cases bs) auto
    then show ?thesis using in_page [OF assms(1), of a] assms(2-4) by (auto simp: unat_page)
  qed
  then show ?thesis by (cases "bs = []") (auto simp: write_at_def)
qed

text \<open>What a segment makes of one byte of its pages, given what was there.\<close>

definition byte_image :: "byte list \<Rightarrow> u64 \<Rightarrow> nat \<Rightarrow> nat \<Rightarrow> nat \<Rightarrow> byte option \<Rightarrow> u64 \<Rightarrow> byte" where
  "byte_image data va src fsz msz old w =
     (if unat va \<le> unat w \<and> unat w < unat va + fsz then data ! (src + (unat w - unat va))
      else if unat va \<le> unat w \<and> unat w < unat va + msz then 0
      else case old of Some b \<Rightarrow> b | None \<Rightarrow> 0)"

lemma page_contents_spec:
  assumes "page_base pv = pv" "unat pv + 4096 \<le> 2 ^ 64" "page_base p = p" "unat p + 4096 \<le> 2 ^ 64"
    and "unat va < unat pv + 4096" "src + fsz \<le> length data"
  shows "\<exists>mem'. page_contents data va src fsz msz pv p existing mem = Ok mem' \<and>
    (\<forall>a. page_base a \<noteq> p \<longrightarrow> mem' a = mem a) \<and>
    (\<forall>n < 4096. mem' (p + of_nat n) =
      byte_image data va src fsz msz (map_option (\<lambda>old. mem (old + of_nat n)) existing) (pv + of_nat n))"
proof -
  define po where "po = (if pv < va then 0 else unat (pv - va))"
  define de where "de = (if pv < va then unat (va - pv) else 0)"
  have pd: "(de = 0 \<and> unat pv = unat va + po) \<or> (po = 0 \<and> 0 < de \<and> de < 4096 \<and> unat va = unat pv + de)"
    using assms(5) unfolding po_def de_def by (auto simp: word_less_nat_alt unat_sub word_le_nat_alt)
  then have de: "de < 4096" by auto
  define mem1 where "mem1 = (case existing of
      Some old \<Rightarrow> write_at mem p (map (\<lambda>i. mem (old + of_nat i)) [0..<PAGE_SIZE]) | None \<Rightarrow> write_at mem p (replicate PAGE_SIZE 0))"
  define cl where "cl = min (min (po + PAGE_SIZE - de) fsz) (po + PAGE_SIZE - de) - po"
  define mem2 where "mem2 = (if po < fsz \<and> cl > 0 then write_at mem1 (p + of_nat de) (take cl (drop (src + po) data)) else mem1)"
  define z0 where "z0 = max fsz po"
  define z1 where "z1 = min msz (po + (PAGE_SIZE - de))"
  define mem3 where "mem3 = (if msz > fsz \<and> z1 > z0 then write_at mem2 (p + of_nat (de + (z0 - po))) (replicate (z1 - z0) 0) else mem2)"
  have P: "PAGE_SIZE = 4096" by (simp add: PAGE_SIZE_def)
  have cl: "de + cl \<le> 4096" "po < fsz \<Longrightarrow> po + cl \<le> fsz" "po < fsz \<Longrightarrow> cl = min (4096 - de) (fsz - po)" using de by (auto simp: cl_def P)
  have eq: "page_contents data va src fsz msz pv p existing mem = Ok mem3"
    unfolding page_contents_def Let_def po_def [symmetric] de_def [symmetric]
    unfolding mem1_def [symmetric] cl_def [symmetric] z0_def [symmetric] z1_def [symmetric]
    using cl(2) assms(6) by (cases "po < fsz \<and> cl > 0"; cases "msz > fsz \<and> z1 > z0") (auto simp: mem2_def mem3_def)
  have len: "length (take cl (drop (src + po) data)) = cl" if "po < fsz" using cl(2) [OF that] assms(6) that by simp
  have o1: "mem1 a = mem a" if "page_base a \<noteq> p" for a
    using write_at_outside [OF assms(3,4), of 0 _ a mem] that by (simp add: mem1_def P split: option.splits)
  have o2: "mem2 a = mem a" if "page_base a \<noteq> p" for a
    using write_at_outside [OF assms(3,4) _ that, of de "take cl (drop (src + po) data)" mem1] o1 [OF that] cl(1) len by (auto simp: mem2_def)
  have o3: "mem3 a = mem a" if "page_base a \<noteq> p" for a
  proof -
    have "z0 < z1 \<Longrightarrow> de + (z0 - po) + (z1 - z0) \<le> 4096" using de by (auto simp: z0_def z1_def P)
    then show ?thesis using write_at_outside [OF assms(3,4) _ that, of "de + (z0 - po)" "replicate (z1 - z0) 0" mem2] o2 [OF that]
      by (auto simp: mem3_def)
  qed
  have n1: "mem1 (p + of_nat n) = (case map_option (\<lambda>old. mem (old + of_nat n)) existing of Some b \<Rightarrow> b | None \<Rightarrow> 0)" if "n < 4096" for n
    using write_at_page [OF assms(4) _ that, of 0 mem] that by (simp add: mem1_def P split: option.splits)
  have n2: "mem2 (p + of_nat n) = (if po < fsz \<and> de \<le> n \<and> n < de + (fsz - po) then data ! (src + po + (n - de)) else mem1 (p + of_nat n))"
    if "n < 4096" for n
  proof (cases "po < fsz \<and> cl > 0")
    case True
    then have "mem2 (p + of_nat n) = (if de \<le> n \<and> n < de + cl then take cl (drop (src + po) data) ! (n - de) else mem1 (p + of_nat n))"
      using write_at_page [OF assms(4) de that, of mem1 "take cl (drop (src + po) data)"] len by (simp add: mem2_def)
    moreover have "take cl (drop (src + po) data) ! (n - de) = data ! (src + po + (n - de))" if "de \<le> n" "n < de + cl"
      using that True cl(2) assms(6) by (simp add: nth_drop)
    moreover have "de \<le> n \<and> n < de + cl \<longleftrightarrow> de \<le> n \<and> n < de + (fsz - po)" using True cl(3) that by auto
    ultimately show ?thesis using True by metis
  next
    case False
    then show ?thesis using cl(3) that de by (auto simp: mem2_def)
  qed
  have n3: "mem3 (p + of_nat n) = (if msz > fsz \<and> de \<le> n \<and> fsz \<le> po + (n - de) \<and> po + (n - de) < msz then 0 else mem2 (p + of_nat n))"
    if "n < 4096" for n
  proof (cases "msz > fsz \<and> z1 > z0")
    case True
    then have zl: "de + (z0 - po) < 4096" using de by (auto simp: z0_def z1_def P)
    have "mem3 (p + of_nat n) = (if de + (z0 - po) \<le> n \<and> n < de + (z0 - po) + (z1 - z0) then 0 else mem2 (p + of_nat n))"
      using write_at_page [OF assms(4) zl that, of mem2 "replicate (z1 - z0) 0"] True by (auto simp: mem3_def)
    moreover have "de + (z0 - po) \<le> n \<and> n < de + (z0 - po) + (z1 - z0) \<longleftrightarrow> de \<le> n \<and> fsz \<le> po + (n - de) \<and> po + (n - de) < msz"
      using True that de by (auto simp: z0_def z1_def P)
    ultimately show ?thesis using True by simp
  next
    case False
    then show ?thesis using that de by (auto simp: mem3_def z0_def z1_def P)
  qed
  have "mem3 (p + of_nat n) = byte_image data va src fsz msz (map_option (\<lambda>old. mem (old + of_nat n)) existing) (pv + of_nat n)"
    if "n < 4096" for n
  proof -
    have u: "unat (pv + of_nat n) = unat pv + n" by (rule unat_page [OF assms(2) that])
    have w: "unat va \<le> unat pv + n \<longleftrightarrow> de \<le> n" "de \<le> n \<Longrightarrow> unat pv + n - unat va = po + (n - de)" using pd by auto
    show ?thesis unfolding byte_image_def u n3 [OF that] n2 [OF that] n1 [OF that] using w by (auto simp: add.assoc)
  qed
  with eq o3 show ?thesis by blast
qed

section \<open>The loader's invariant\<close>

abbreviation mc_free :: "machine \<Rightarrow> nat set" where "mc_free m \<equiv> free_set (pa_bitmap (mc_phys m))"

text \<open>The address space is well formed and no page of it is a free page of the allocator.\<close>

definition machine_ok :: "heap \<Rightarrow> machine \<Rightarrow> bool" where
  "machine_ok heap m \<longleftrightarrow> heap_ok heap \<and> space_wf (mc_space m) \<and> phys_inv (mc_phys m) \<and>
     (\<forall>v p. page_base v = v \<longrightarrow> v \<le> USER_SPACE_MAX \<longrightarrow> page_lookup (mc_space m) v = Some (of_nat (p * PAGE_SIZE)) \<longrightarrow>
        p < MAX_PAGES \<longrightarrow> p \<notin> mc_free m)"

text \<open>What loading takes: pages from the allocator, all of them tracked, and tables from the heap.\<close>

definition takes :: "machine \<Rightarrow> machine \<Rightarrow> bool" where
  "takes m m' \<longleftrightarrow>
     (\<exists>new. ppt_phys (fst (mc_space m')) = ppt_phys (fst (mc_space m)) @ map (\<lambda>p. of_nat (p * PAGE_SIZE)) new \<and>
        distinct new \<and> set new \<subseteq> mc_free m \<and> mc_free m' = mc_free m - set new) \<and>
     (\<exists>new. ppt_tables (fst (mc_space m')) = ppt_tables (fst (mc_space m)) @ new \<and> distinct new \<and>
        set new \<inter> set (km_live (snd (mc_space m))) = {} \<and>
        km_live (snd (mc_space m')) = rev new @ km_live (snd (mc_space m))) \<and>
     (\<forall>a. a \<notin> set (ppt_tables (fst (mc_space m'))) \<longrightarrow> km_frames (snd (mc_space m')) a = km_frames (snd (mc_space m)) a) \<and>
     (\<forall>a. unat a div PAGE_SIZE \<notin> mc_free m \<longrightarrow> mc_mem m' a = mc_mem m a)"

lemma takes_refl: "takes m m"
  by (simp add: takes_def)

lemma takes_trans:
  assumes "takes m m'" "takes m' m''"
  shows "takes m m''"
proof -
  obtain a where a: "ppt_phys (fst (mc_space m')) = ppt_phys (fst (mc_space m)) @ map (\<lambda>p. of_nat (p * PAGE_SIZE)) a"
      "distinct a" "set a \<subseteq> mc_free m" "mc_free m' = mc_free m - set a"
    using assms(1) unfolding takes_def by blast
  obtain b where b: "ppt_phys (fst (mc_space m'')) = ppt_phys (fst (mc_space m')) @ map (\<lambda>p. of_nat (p * PAGE_SIZE)) b"
      "distinct b" "set b \<subseteq> mc_free m'" "mc_free m'' = mc_free m' - set b"
    using assms(2) unfolding takes_def by blast
  obtain c where c: "ppt_tables (fst (mc_space m')) = ppt_tables (fst (mc_space m)) @ c" "distinct c"
      "set c \<inter> set (km_live (snd (mc_space m))) = {}" "km_live (snd (mc_space m')) = rev c @ km_live (snd (mc_space m))"
    using assms(1) unfolding takes_def by blast
  obtain d where d: "ppt_tables (fst (mc_space m'')) = ppt_tables (fst (mc_space m')) @ d" "distinct d"
      "set d \<inter> set (km_live (snd (mc_space m'))) = {}" "km_live (snd (mc_space m'')) = rev d @ km_live (snd (mc_space m'))"
    using assms(2) unfolding takes_def by blast
  have "\<exists>new. ppt_phys (fst (mc_space m'')) = ppt_phys (fst (mc_space m)) @ map (\<lambda>p. of_nat (p * PAGE_SIZE)) new \<and>
      distinct new \<and> set new \<subseteq> mc_free m \<and> mc_free m'' = mc_free m - set new"
    by (rule exI [of _ "a @ b"]) (use a b in auto)
  moreover have "\<exists>new. ppt_tables (fst (mc_space m'')) = ppt_tables (fst (mc_space m)) @ new \<and> distinct new \<and>
        set new \<inter> set (km_live (snd (mc_space m))) = {} \<and> km_live (snd (mc_space m'')) = rev new @ km_live (snd (mc_space m))"
    by (rule exI [of _ "c @ d"]) (use c d in auto)
  moreover have "km_frames (snd (mc_space m'')) x = km_frames (snd (mc_space m)) x" if "x \<notin> set (ppt_tables (fst (mc_space m'')))" for x
    using assms that d(1) unfolding takes_def by simp
  moreover have "mc_mem m'' x = mc_mem m x" if "unat x div PAGE_SIZE \<notin> mc_free m" for x
    using assms that a(4) unfolding takes_def by simp
  ultimately show ?thesis unfolding takes_def by blast
qed

lemma track_phys_page_fields [simp]:
  "table_of (track_phys_page p st) = table_of st" "ppt_tables (fst (track_phys_page p st)) = ppt_tables (fst st)"
  "snd (track_phys_page p st) = snd st" "ppt_phys (fst (track_phys_page p st)) = ppt_phys (fst st) @ [p]"
proof -
  obtain ppt km where st: "st = (ppt, km)" by fastforce
  have "table_of (track_phys_page p st) r = table_of st r" for r by (cases r) (simp_all add: st)
  then show "table_of (track_phys_page p st) = table_of st" by auto
  show "ppt_tables (fst (track_phys_page p st)) = ppt_tables (fst st)"
    "snd (track_phys_page p st) = snd st" "ppt_phys (fst (track_phys_page p st)) = ppt_phys (fst st) @ [p]"
    by (simp_all add: st)
qed

lemma track_phys_page_wf [simp]: "space_wf (track_phys_page p st) = space_wf st" "page_lookup (track_phys_page p st) = page_lookup st"
  "heap_room heap n (track_phys_page p st) = heap_room heap n st"
  by (simp_all add: space_wf_eq page_lookup_def is_present_def get_entry_def next_table_def fun_eq_iff heap_room_def Let_def)

lemma page_address:
  assumes "p < MAX_PAGES"
  shows "frame (of_nat (p * PAGE_SIZE)) = of_nat (p * PAGE_SIZE)" "unat (of_nat (p * PAGE_SIZE) :: u64) = p * PAGE_SIZE"
    "p * PAGE_SIZE + 4096 \<le> 2 ^ 30"
proof -
  have p: "p < 2 ^ 18" using assms by (simp add: MAX_PAGES_def MAX_PHYS_MEMORY_def PAGE_SIZE_def)
  then have "p < 2 ^ 40" by simp
  moreover have "(push_bit 12 (of_nat p) :: u64) = of_nat (p * PAGE_SIZE)" by (simp add: push_bit_eq_mult PAGE_SIZE_def)
  ultimately show "frame (of_nat (p * PAGE_SIZE)) = of_nat (p * PAGE_SIZE)" "unat (of_nat (p * PAGE_SIZE) :: u64) = p * PAGE_SIZE"
    using frame_number [of p] by (simp_all add: PAGE_SIZE_def)
  show "p * PAGE_SIZE + 4096 \<le> 2 ^ 30" using p by (simp add: PAGE_SIZE_def)
qed

lemma extends_eq: "extends st st' \<longleftrightarrow>
    (\<exists>new. ppt_tables (fst st') = ppt_tables (fst st) @ new \<and> set new \<inter> set (km_live (snd st)) = {} \<and>
        km_live (snd st') = rev new @ km_live (snd st) \<and> distinct new) \<and>
     ppt_phys (fst st') = ppt_phys (fst st) \<and>
     (\<forall>a. a \<notin> set (ppt_tables (fst st')) \<longrightarrow> km_frames (snd st') a = km_frames (snd st) a)"
  by (cases st; cases st') simp

abbreviation mc_image :: "machine \<Rightarrow> u64 \<Rightarrow> byte option" where
  "mc_image m \<equiv> user_image (page_lookup (mc_space m)) (mc_mem m)"

lemma page_number_inj: "p < MAX_PAGES \<Longrightarrow> q < MAX_PAGES \<Longrightarrow> (of_nat (p * PAGE_SIZE) :: u64) = of_nat (q * PAGE_SIZE) \<Longrightarrow> p = q"
  using page_address(2) page_constants(2) by (metis mult_right_cancel not_gr_zero)

lemma page_of: "page_base a = of_nat (p * PAGE_SIZE) \<Longrightarrow> p < MAX_PAGES \<Longrightarrow> unat a div PAGE_SIZE = p"
proof -
  assume a: "page_base a = of_nat (p * PAGE_SIZE)" "p < MAX_PAGES"
  obtain n where n: "n < 4096" "a = page_base a + of_nat n" by (rule page_decomp)
  have "unat (of_nat (p * PAGE_SIZE) :: u64) + 4096 \<le> 2 ^ 64" using page_address(2,3) [OF a(2)] by simp
  then have "unat a = p * PAGE_SIZE + n" using n a page_address(2) [OF a(2)] unat_page by metis
  then show ?thesis using n(1) by (simp add: PAGE_SIZE_def)
qed

text \<open>A fresh page is filled and mapped. All of loading and of building the stack and the heap is made
  of such steps.\<close>

lemma fill_and_map:
  assumes ok: "machine_ok heap m" and al: "alloc_page (mc_phys m) = (Some x, pa)"
    and mem: "\<forall>a. page_base a \<noteq> x \<longrightarrow> mem' a = mc_mem m a"
    and pv: "page_base pv = pv" and f: "frame f = 0"
    and m1: "m1 = m\<lparr>mc_phys := pa, mc_space := track_phys_page x (mc_space m), mc_mem := mem'\<rparr>"
    and mp: "map_user_page heap pv x f (mc_space m1) = r"
  shows "machine_ok heap m1 \<and> takes m m1" and "card (mc_free m) = Suc (card (mc_free m1))"
    and "\<And>sp. r = Ok sp \<Longrightarrow> machine_ok heap (m1\<lparr>mc_space := sp\<rparr>) \<and> takes m (m1\<lparr>mc_space := sp\<rparr>) \<and> pv \<le> USER_SPACE_MAX"
    and "\<And>sp w. r = Ok sp \<Longrightarrow> present f \<Longrightarrow> w \<le> USER_SPACE_MAX \<Longrightarrow> mc_image (m1\<lparr>mc_space := sp\<rparr>) w =
        (if page_base w = pv then Some (mem' (x + page_off w)) else mc_image m w)"
proof -
  have o: "heap_ok heap" "space_wf (mc_space m)" "phys_inv (mc_phys m)"
    and sep: "\<And>v p. page_base v = v \<Longrightarrow> v \<le> USER_SPACE_MAX \<Longrightarrow> page_lookup (mc_space m) v = Some (of_nat (p * PAGE_SIZE)) \<Longrightarrow>
        p < MAX_PAGES \<Longrightarrow> p \<notin> mc_free m"
    using ok unfolding machine_ok_def by blast+
  obtain p where p: "p \<in> mc_free m" "x = of_nat (p * PAGE_SIZE)" "phys_inv pa" "free_set (pa_bitmap pa) = mc_free m - {p}"
    using alloc_page_some [OF o(3) al] by blast
  have P: "p < MAX_PAGES" by (rule free_set_bound [OF p(1)])
  note x = page_address [OF P, folded p(2)]
  have fs: "mc_free m1 = mc_free m - {p}" using p(4) by (simp add: m1)
  show "card (mc_free m) = Suc (card (mc_free m1))" unfolding fs by (rule card_Suc_Diff1 [OF finite_free_set p(1), symmetric])
  show A: "machine_ok heap m1 \<and> takes m m1"
  proof
    show "machine_ok heap m1" using o(1,2) p(3) sep fs unfolding machine_ok_def by (auto simp: m1)
    have "mem' a = mc_mem m a" if "unat a div PAGE_SIZE \<notin> mc_free m" for a
      using mem page_of [of a p] P p(1,2) that by auto
    then show "takes m m1" using p(1,2) fs unfolding takes_def by (auto simp: m1 intro!: exI [of _ "[p]"])
  qed
  have wf1: "heap_ok heap \<and> space_wf (mc_space m1)" using A unfolding machine_ok_def by blast
  fix sp
  assume "r = Ok sp"
  then have mp': "map_user_page heap pv x f (mc_space m1) = Ok sp" using mp by simp
  note law = kspace.map_law [OF wf1 pv x(1) f mp']
  have u: "user (f OR USER)" "frame (f OR USER) = 0" using f by simp_all
  have ex: "extends (mc_space m1) sp"
    using map_4k_page_spec [OF _ o(1) u(1) x(1) u(2) map_user_page_ok(2) [OF mp']] wf1 by blast
  let ?m = "m1\<lparr>mc_space := sp\<rparr>"
  show "machine_ok heap ?m \<and> takes m ?m \<and> pv \<le> USER_SPACE_MAX"
  proof (intro conjI)
    have "q \<notin> mc_free ?m"
      if "page_base v = v" "v \<le> USER_SPACE_MAX" "page_lookup sp v = Some (of_nat (q * PAGE_SIZE))" "q < MAX_PAGES" for v q
    proof (cases "v = pv")
      case True
      then have "(of_nat (q * PAGE_SIZE) :: u64) = x" using law that by (auto split: if_splits)
      then have "q = p" using page_number_inj [OF that(4) P] p(2) by simp
      then show ?thesis using fs by simp
    next
      case False
      then have "page_lookup (mc_space m) v = Some (of_nat (q * PAGE_SIZE))" using law that by (simp add: m1)
      then show ?thesis using sep that fs by simp
    qed
    then show "machine_ok heap ?m" using law A unfolding machine_ok_def by auto
    have "takes m1 ?m" using ex unfolding takes_def extends_eq by auto
    then show "takes m ?m" using A takes_trans by blast
    show "pv \<le> USER_SPACE_MAX" using law by blast
  qed
  fix w assume w: "present f" "w \<le> USER_SPACE_MAX"
  have fresh: "page_lookup (mc_space m1) v' \<noteq> Some x" if "page_base v' = v'" "v' \<le> USER_SPACE_MAX" for v'
    using sep [OF that _ P] p(1,2) by (auto simp: m1)
  have "mc_image ?m w = (if page_base w = pv then Some (mem' (x + page_off w)) else user_image (page_lookup (mc_space m1)) (mc_mem m) w)"
    using kspace.remap_image [OF wf1 pv x(1) f mp' w(1) fresh mem [rule_format] w(2)] by (simp add: m1)
  then show "mc_image ?m w = (if page_base w = pv then Some (mem' (x + page_off w)) else mc_image m w)"
    by (simp add: m1)
qed

lemma load_page_spec:
  assumes ok: "machine_ok heap m" and pv: "page_base pv = pv" "unat pv + 4096 \<le> 2 ^ 64" "unat va < unat pv + 4096"
    and src: "src + fsz \<le> length data" and f: "frame f = 0" "present f"
    and ld: "load_page heap data va src fsz msz f pv m = (r, m')"
  shows "r \<noteq> Panic \<Longrightarrow> machine_ok heap m' \<and> takes m m'"
    and "r = Ok () \<Longrightarrow> pv \<le> USER_SPACE_MAX \<and> card (mc_free m) = Suc (card (mc_free m')) \<and> (\<forall>w. w \<le> USER_SPACE_MAX \<longrightarrow>
      mc_image m' w = (if page_base w = pv then Some (byte_image data va src fsz msz (mc_image m w) w) else mc_image m w))"
    and "r = Err e \<Longrightarrow> mc_free m = {} \<or> USER_SPACE_MAX < pv"
    and "heap_room heap (n + 3) (mc_space m) \<Longrightarrow> r \<noteq> Panic \<and> (r = Ok () \<longrightarrow> heap_room heap n (mc_space m'))"
proof -
  obtain ro pa where al: "alloc_page (mc_phys m) = (ro, pa)" by fastforce
  have inv: "phys_inv (mc_phys m)" using ok by (simp add: machine_ok_def)
  have "(r \<noteq> Panic \<longrightarrow> machine_ok heap m' \<and> takes m m') \<and>
    (r = Ok () \<longrightarrow> pv \<le> USER_SPACE_MAX \<and> card (mc_free m) = Suc (card (mc_free m')) \<and> (\<forall>w. w \<le> USER_SPACE_MAX \<longrightarrow>
      mc_image m' w = (if page_base w = pv then Some (byte_image data va src fsz msz (mc_image m w) w) else mc_image m w))) \<and>
    (r = Err e \<longrightarrow> mc_free m = {} \<or> USER_SPACE_MAX < pv) \<and>
    (heap_room heap (n + 3) (mc_space m) \<longrightarrow> r \<noteq> Panic \<and> (r = Ok () \<longrightarrow> heap_room heap n (mc_space m')))"
  proof (cases ro)
    case None
    then have "pa = mc_phys m" "mc_free m = {}" using alloc_page_none [OF inv, of pa] al by simp_all
    then have "r = Err ''Out of physical memory''" "m' = m" using ld al None by (auto simp: load_page_def)
    then show ?thesis using ok takes_refl \<open>mc_free m = {}\<close> by auto
  next
    case (Some x)
    note al = al [unfolded Some]
    obtain q where q: "q \<in> mc_free m" "x = of_nat (q * PAGE_SIZE)" using alloc_page_some [OF inv al] by blast
    note xa = page_address [OF free_set_bound [OF q(1)], folded q(2)]
    have xb: "page_base x = x" "unat x + 4096 \<le> 2 ^ 64" using frame_page_base [OF xa(1)] xa(2,3) by simp_all
    obtain mem' where mem': "page_contents data va src fsz msz pv x (page_lookup (mc_space m) pv) (mc_mem m) = Ok mem'"
      "\<forall>a. page_base a \<noteq> x \<longrightarrow> mem' a = mc_mem m a"
      "\<And>n. n < 4096 \<Longrightarrow> mem' (x + of_nat n) = byte_image data va src fsz msz
        (map_option (\<lambda>old. mc_mem m (old + of_nat n)) (page_lookup (mc_space m) pv)) (pv + of_nat n)"
      using page_contents_spec [OF pv(1,2) xb pv(3) src] by blast
    define m1 where "m1 = m\<lparr>mc_phys := pa, mc_space := track_phys_page x (mc_space m), mc_mem := mem'\<rparr>"
    note fm = fill_and_map [OF ok al mem'(2) pv(1) f(1) m1_def refl]
    have res: "(r, m') = (case map_user_page heap pv x f (mc_space m1) of
        Ok sp \<Rightarrow> (Ok (), m1\<lparr>mc_space := sp\<rparr>) | Err e \<Rightarrow> (Err e, m1) | Panic \<Rightarrow> (Panic, m1))"
      unfolding m1_def using ld al mem'(1) by (simp add: load_page_def Let_def)
    have img: "mem' (x + page_off w) = byte_image data va src fsz msz (mc_image m w) w" if "page_base w = pv" for w
    proof -
      obtain k where k: "k < 4096" "w = page_base w + of_nat k" "page_off w = of_nat k" by (rule page_decomp)
      have "map_option (\<lambda>old. mc_mem m (old + of_nat k)) (page_lookup (mc_space m) pv) = mc_image m w"
        using that k(3) by (simp add: user_image_def split: option.splits)
      then show ?thesis using mem'(3) [OF k(1)] k that by simp
    qed
    have room: "map_user_page heap pv x f (mc_space m1) \<noteq> Panic \<and>
        (\<forall>sp. map_user_page heap pv x f (mc_space m1) = Ok sp \<longrightarrow> heap_room heap n sp)" if "heap_room heap (n + 3) (mc_space m)"
      using map_4k_page_room [of heap n "mc_space m1" pv x "f OR USER"] that
      by (auto simp: m1_def map_user_page_def returns_def split: if_splits)
    show ?thesis
    proof (cases "map_user_page heap pv x f (mc_space m1)")
      case (Ok sp)
      then show ?thesis using res fm(2) fm(3,4) [OF Ok] img room f(2) by auto
    next
      case (Err e')
      then have "USER_SPACE_MAX < pv" using map_4k_page_no_error [of heap pv x "f OR USER" "mc_space m1"]
        by (auto simp: map_user_page_def split: if_splits)
      then show ?thesis using res fm(1) Err by simp
    next
      case Panic
      then show ?thesis using res room by auto
    qed
  qed
  then show "r \<noteq> Panic \<Longrightarrow> machine_ok heap m' \<and> takes m m'"
    and "r = Ok () \<Longrightarrow> pv \<le> USER_SPACE_MAX \<and> card (mc_free m) = Suc (card (mc_free m')) \<and> (\<forall>w. w \<le> USER_SPACE_MAX \<longrightarrow>
      mc_image m' w = (if page_base w = pv then Some (byte_image data va src fsz msz (mc_image m w) w) else mc_image m w))"
    and "r = Err e \<Longrightarrow> mc_free m = {} \<or> USER_SPACE_MAX < pv"
    and "heap_room heap (n + 3) (mc_space m) \<Longrightarrow> r \<noteq> Panic \<and> (r = Ok () \<longrightarrow> heap_room heap n (mc_space m'))"
    by blast+
qed

lemma load_pages_spec:
  assumes "machine_ok heap m" "distinct pvs" "src + fsz \<le> length data" "frame f = 0" "present f"
    and "\<And>pv. pv \<in> set pvs \<Longrightarrow> page_base pv = pv \<and> unat pv + 4096 \<le> 2 ^ 64 \<and> unat va < unat pv + 4096"
    and "for_op (load_page heap data va src fsz msz f) pvs m = (r, m')"
  shows "(r \<noteq> Panic \<longrightarrow> machine_ok heap m' \<and> takes m m') \<and>
    (r = Ok () \<longrightarrow> card (mc_free m) = length pvs + card (mc_free m') \<and> (\<forall>w. w \<le> USER_SPACE_MAX \<longrightarrow>
      mc_image m' w = (if page_base w \<in> set pvs then Some (byte_image data va src fsz msz (mc_image m w) w) else mc_image m w))) \<and>
    (r = Err e \<longrightarrow> card (mc_free m) < length pvs \<or> (\<exists>pv \<in> set pvs. USER_SPACE_MAX < pv)) \<and>
    (heap_room heap (n + 3 * length pvs) (mc_space m) \<longrightarrow> r \<noteq> Panic \<and> (r = Ok () \<longrightarrow> heap_room heap n (mc_space m')))"
  using assms
proof (induction pvs arbitrary: m)
  case Nil
  then show ?case using takes_refl by auto
next
  case (Cons pv pvs)
  obtain r1 m1 where l: "load_page heap data va src fsz msz f pv m = (r1, m1)" by fastforce
  have c: "page_base pv = pv" "unat pv + 4096 \<le> 2 ^ 64" "unat va < unat pv + 4096" using Cons.prems(6) by simp_all
  note s = load_page_spec [OF Cons.prems(1) c Cons.prems(3-5) l]
  show ?case
  proof (cases r1)
    case (Ok u)
    then have r1: "r1 = Ok ()" by simp
    have k: "for_op (load_page heap data va src fsz msz f) pvs m1 = (r, m')" using Cons.prems(7) l r1 by simp
    have m1: "machine_ok heap m1" "takes m m1" using s(1) r1 by simp_all
    have IH: "(r \<noteq> Panic \<longrightarrow> machine_ok heap m' \<and> takes m1 m') \<and>
      (r = Ok () \<longrightarrow> card (mc_free m1) = length pvs + card (mc_free m') \<and> (\<forall>w. w \<le> USER_SPACE_MAX \<longrightarrow>
        mc_image m' w = (if page_base w \<in> set pvs then Some (byte_image data va src fsz msz (mc_image m1 w) w) else mc_image m1 w))) \<and>
      (r = Err e \<longrightarrow> card (mc_free m1) < length pvs \<or> (\<exists>pv \<in> set pvs. USER_SPACE_MAX < pv)) \<and>
      (heap_room heap (n + 3 * length pvs) (mc_space m1) \<longrightarrow> r \<noteq> Panic \<and> (r = Ok () \<longrightarrow> heap_room heap n (mc_space m')))"
      using Cons.IH [OF m1(1) _ Cons.prems(3-5) _ k] Cons.prems(2,6) by simp
    have room: "heap_room heap (n + 3 * length pvs) (mc_space m1)" if "heap_room heap (n + 3 * length (pv # pvs)) (mc_space m)"
      using s(4) [of "n + 3 * length pvs"] that r1 by (simp add: algebra_simps)
    have img: "mc_image m' w = (if page_base w \<in> set (pv # pvs) then Some (byte_image data va src fsz msz (mc_image m w) w) else mc_image m w)"
      if "r = Ok ()" "w \<le> USER_SPACE_MAX" for w
      using IH s(2) [OF r1] that Cons.prems(2) by auto
    show ?thesis using IH s(2) [OF r1] room img takes_trans [OF m1(2)] by auto
  next
    case (Err e')
    then have "r = Err e'" "m' = m1" using Cons.prems(7) l by simp_all
    then show ?thesis using s(1) s(3) [of e'] Err by auto
  next
    case Panic
    then have "r = Panic" using Cons.prems(7) l by simp
    then show ?thesis using s(4) [of "n + 3 * length pvs"] Panic by (auto simp: algebra_simps)
  qed
qed

section \<open>Segments\<close>

lemma page_base_unat: "unat (page_base w) = unat w div 4096 * 4096"
proof -
  have "unat (page_off w) = unat w mod 4096"
    by (simp add: page_off_def take_bit_eq_mask [symmetric] unsigned_take_bit_eq take_bit_nat_def)
  moreover have "page_base w = w - page_off w" using page_split [of w] by (simp add: eq_diff_eq)
  moreover have "page_off w \<le> w" using calculation(1) by (simp add: word_le_nat_alt)
  ultimately have "unat (page_base w) = unat w - unat w mod 4096" by (simp add: unat_sub)
  then show ?thesis by (simp add: minus_mod_eq_div_mult)
qed

lemma page_k:
  assumes "k < 2 ^ 40"
  shows "unat (of_nat (k * 4096) :: u64) = k * 4096" "page_base (of_nat (k * 4096)) = of_nat (k * 4096)"
proof -
  have "(push_bit 12 (of_nat k) :: u64) = of_nat (k * 4096)" by (simp add: push_bit_eq_mult)
  then show "unat (of_nat (k * 4096) :: u64) = k * 4096" "page_base (of_nat (k * 4096)) = of_nat (k * 4096)"
    using frame_number [OF assms] frame_page_base by simp_all
qed

text \<open>In user space the pages of a segment are those of its addresses.\<close>

definition last_page :: "u64 \<Rightarrow> nat \<Rightarrow> nat" where "last_page va msz = (unat va + msz + 4095) div 4096"

lemma seg_pages_eq:
  assumes "unat va + unat msz \<le> 2 ^ 47"
  shows "seg_pages va msz = map (\<lambda>k. of_nat (k * 4096)) [unat va div 4096..<last_page va (unat msz)]"
proof -
  have n: "(NOT (of_nat PAGE_SIZE - 1) :: u64) = NOT (mask 12)" by (simp add: PAGE_SIZE_def mask_eq_exp_minus_1)
  let ?e = "va + msz + of_nat PAGE_SIZE - 1"
  have e: "unat ?e = unat va + unat msz + 4095"
  proof -
    have "?e = of_nat (unat va + unat msz + 4095)" by (simp add: PAGE_SIZE_def)
    moreover have "unat va + unat msz + 4095 < 2 ^ 64" using assms by simp
    ultimately show ?thesis by (simp only: unat_of_nat) (simp add: take_bit_nat_eq_self)
  qed
  let ?s = "page_base va" and ?t = "page_base ?e"
  have st: "unat ?s = unat va div 4096 * 4096" "unat ?t = last_page va (unat msz) * 4096"
    by (simp_all add: page_base_unat e last_page_def)
  have le: "unat va div 4096 \<le> last_page va (unat msz)" by (simp add: last_page_def div_le_mono)
  then have "?s \<le> ?t" using st by (simp add: word_le_nat_alt)
  then have cnt: "unat (?t - ?s) div PAGE_SIZE = last_page va (unat msz) - unat va div 4096"
    using st by (simp add: unat_sub PAGE_SIZE_def diff_mult_distrib [symmetric])
  have s: "?s = of_nat (unat va div 4096 * 4096)" unfolding st(1) [symmetric] by simp
  have "seg_pages va msz = map (\<lambda>i. ?s + of_nat i * of_nat PAGE_SIZE) [0..<last_page va (unat msz) - unat va div 4096]"
    unfolding seg_pages_def Let_def n page_base_def [symmetric] cnt ..
  also have "\<dots> = map (\<lambda>k. of_nat (k * 4096)) (map (\<lambda>i. i + unat va div 4096) [0..<last_page va (unat msz) - unat va div 4096])"
    by (simp add: s PAGE_SIZE_def algebra_simps)
  also have "map (\<lambda>i. i + unat va div 4096) [0..<last_page va (unat msz) - unat va div 4096] = [unat va div 4096..<last_page va (unat msz)]"
    using le by (simp add: map_add_upt)
  finally show ?thesis .
qed

lemma seg_pages_props:
  assumes "unat va + unat msz \<le> 2 ^ 47"
  shows "distinct (seg_pages va msz)"
    and "pv \<in> set (seg_pages va msz) \<Longrightarrow> page_base pv = pv \<and> unat pv + 4096 \<le> 2 ^ 64 \<and> unat va < unat pv + 4096 \<and> pv \<le> USER_SPACE_MAX"
    and "length (seg_pages va msz) = last_page va (unat msz) - unat va div 4096"
    and "page_base w \<in> set (seg_pages va msz) \<longleftrightarrow> unat va div 4096 \<le> unat w div 4096 \<and> unat w div 4096 < last_page va (unat msz)"
proof -
  have L: "last_page va (unat msz) \<le> 2 ^ 35"
  proof -
    have "(unat va + unat msz + 4095) div 4096 \<le> (2 ^ 47 + 4095) div 4096" using assms by (intro div_le_mono) simp
    then show ?thesis by (simp add: last_page_def)
  qed
  note eq = seg_pages_eq [OF assms]
  have k: "k < 2 ^ 40" if "k < last_page va (unat msz)" for k using that L by simp
  show "distinct (seg_pages va msz)" unfolding eq distinct_map
  proof
    show "inj_on (\<lambda>k. of_nat (k * 4096) :: u64) (set [unat va div 4096..<last_page va (unat msz)])"
      by (rule inj_onI, drule arg_cong [where f = unat]) (use k in \<open>simp add: page_k del: of_nat_mult\<close>)
  qed simp
  show "page_base pv = pv \<and> unat pv + 4096 \<le> 2 ^ 64 \<and> unat va < unat pv + 4096 \<and> pv \<le> USER_SPACE_MAX" if pv: "pv \<in> set (seg_pages va msz)"
  proof -
    obtain j where j: "pv = of_nat (j * 4096)" "unat va div 4096 \<le> j" "j < last_page va (unat msz)" using pv unfolding eq by auto
    note pk = page_k [OF k [OF j(3)], folded j(1)]
    have "unat va < (unat va div 4096 + 1) * 4096" by (metis Suc_eq_plus1 dividend_less_div_times mult_Suc add.commute zero_less_numeral)
    also have "\<dots> \<le> (j + 1) * 4096" using j(2) by simp
    finally have a: "unat va < unat pv + 4096" using pk(1) by simp
    have "(j + 1) * 4096 \<le> 2 ^ 35 * 4096" using j(3) L by (intro mult_right_mono) simp_all
    then have "unat pv + 4096 \<le> 2 ^ 47" using pk(1) by simp
    then show ?thesis using a pk(2) by (simp add: USER_SPACE_MAX_def word_le_nat_alt)
  qed
  show "length (seg_pages va msz) = last_page va (unat msz) - unat va div 4096" by (simp add: eq)
  have pb: "page_base w = of_nat (unat w div 4096 * 4096)" unfolding page_base_unat [symmetric] by simp
  show "page_base w \<in> set (seg_pages va msz) \<longleftrightarrow> unat va div 4096 \<le> unat w div 4096 \<and> unat w div 4096 < last_page va (unat msz)"
  proof
    assume "page_base w \<in> set (seg_pages va msz)"
    then obtain j where j: "page_base w = of_nat (j * 4096)" "unat va div 4096 \<le> j" "j < last_page va (unat msz)" unfolding eq by auto
    then have "unat w div 4096 * 4096 = j * 4096" using page_base_unat [of w] page_k(1) [OF k [OF j(3)]] by simp
    then show "unat va div 4096 \<le> unat w div 4096 \<and> unat w div 4096 < last_page va (unat msz)" using j by simp
  next
    assume "unat va div 4096 \<le> unat w div 4096 \<and> unat w div 4096 < last_page va (unat msz)"
    then show "page_base w \<in> set (seg_pages va msz)" unfolding eq pb by (auto intro!: image_eqI)
  qed
qed

text \<open>What a program header makes of the user's memory.\<close>

definition seg_image :: "elf64 \<Rightarrow> byte list \<Rightarrow> u64 \<Rightarrow> u64 \<Rightarrow> elf64_phdr \<Rightarrow> (u64 \<Rightarrow> byte option) \<Rightarrow> u64 \<Rightarrow> byte option" where
  "seg_image elf data load_base min_vaddr ph img w =
     (let va = seg_addr elf load_base min_vaddr ph in
      if ph_ptype ph = PT_LOAD \<and> unat va div 4096 \<le> unat w div 4096 \<and> unat w div 4096 < last_page va (unat (ph_memsz ph))
      then Some (byte_image data va (unat (ph_offset ph)) (unat (ph_filesz ph)) (unat (ph_memsz ph)) (img w) w)
      else img w)"

definition seg_npages :: "elf64 \<Rightarrow> u64 \<Rightarrow> u64 \<Rightarrow> elf64_phdr \<Rightarrow> nat" where
  "seg_npages elf load_base min_vaddr ph =
     (let va = seg_addr elf load_base min_vaddr ph in
      if ph_ptype ph = PT_LOAD then last_page va (unat (ph_memsz ph)) - unat va div 4096 else 0)"

text \<open>A segment lies in user space and its offsets do not wrap.\<close>

definition seg_fits :: "elf64 \<Rightarrow> u64 \<Rightarrow> u64 \<Rightarrow> elf64_phdr \<Rightarrow> bool" where
  "seg_fits elf load_base min_vaddr ph \<longleftrightarrow> ph_ptype ph \<noteq> PT_LOAD \<or>
     unat (seg_addr elf load_base min_vaddr ph) + unat (ph_memsz ph) \<le> 2 ^ 47 \<and> unat (ph_offset ph) + unat (ph_filesz ph) < 2 ^ 64"

definition seg_outside :: "byte list \<Rightarrow> elf64_phdr \<Rightarrow> bool" where
  "seg_outside data ph \<longleftrightarrow> ph_ptype ph = PT_LOAD \<and> length data < unat (ph_offset ph) + unat (ph_filesz ph)"

lemma seg_flags_bits [simp]: "frame (seg_flags ph) = 0" "present (seg_flags ph)"
  by (simp_all add: seg_flags_def)

lemma load_segment_spec:
  assumes "machine_ok heap m" "seg_fits elf base mv ph" "load_segment heap elf data base mv ph m = (r, m')"
  shows "(r \<noteq> Panic \<longrightarrow> machine_ok heap m' \<and> takes m m') \<and>
    (r = Ok () \<longrightarrow> card (mc_free m) = seg_npages elf base mv ph + card (mc_free m') \<and>
      (\<forall>w. w \<le> USER_SPACE_MAX \<longrightarrow> mc_image m' w = seg_image elf data base mv ph (mc_image m) w)) \<and>
    (r = Err e \<longrightarrow> seg_outside data ph \<or> card (mc_free m) < seg_npages elf base mv ph) \<and>
    (heap_room heap (n + 3 * seg_npages elf base mv ph) (mc_space m) \<longrightarrow> r \<noteq> Panic \<and> (r = Ok () \<longrightarrow> heap_room heap n (mc_space m')))"
proof -
  let ?va = "seg_addr elf base mv ph"
  consider (skip) "ph_ptype ph \<noteq> PT_LOAD" | (outside) "ph_ptype ph = PT_LOAD" "seg_outside data ph"
    | (load) "ph_ptype ph = PT_LOAD" "\<not> seg_outside data ph" by blast
  then show ?thesis
  proof cases
    case skip
    then have "r = Ok ()" "m' = m" using assms(3) by (simp_all add: load_segment_def)
    then show ?thesis using skip assms(1) takes_refl by (simp add: seg_npages_def seg_image_def)
  next
    case outside
    then have "length data < unat (ph_offset ph + ph_filesz ph)"
      using assms(2) by (simp add: seg_fits_def seg_outside_def unat_add_lem [THEN iffD1])
    then have "r = Err ''Segment outside file''" "m' = m" using assms(3) outside by (simp_all add: load_segment_def)
    then show ?thesis using outside assms(1) takes_refl by auto
  next
    case load
    have fit: "unat ?va + unat (ph_memsz ph) \<le> 2 ^ 47" "unat (ph_offset ph) + unat (ph_filesz ph) \<le> length data"
      "unat (ph_offset ph + ph_filesz ph) = unat (ph_offset ph) + unat (ph_filesz ph)"
      using assms(2) load by (simp_all add: seg_fits_def seg_outside_def unat_add_lem [THEN iffD1])
    then have l: "for_op (load_page heap data ?va (unat (ph_offset ph)) (unat (ph_filesz ph)) (unat (ph_memsz ph)) (seg_flags ph))
        (seg_pages ?va (ph_memsz ph)) m = (r, m')"
      using assms(3) load by (simp add: load_segment_def Let_def)
    note sp = seg_pages_props [OF fit(1)]
    have pages: "page_base pv = pv \<and> unat pv + 4096 \<le> 2 ^ 64 \<and> unat ?va < unat pv + 4096" if "pv \<in> set (seg_pages ?va (ph_memsz ph))" for pv
      using sp(2) [OF that] by simp
    have "\<not> (\<exists>pv \<in> set (seg_pages ?va (ph_memsz ph)). USER_SPACE_MAX < pv)" using sp(2) by fastforce
    then show ?thesis
      using load_pages_spec [OF assms(1) sp(1) fit(2) seg_flags_bits pages l, of e n] load
      unfolding sp(3,4) by (simp add: seg_npages_def seg_image_def Let_def)
  qed
qed

lemma seg_images_cong:
  "f w = g w \<Longrightarrow> foldl (\<lambda>img ph. seg_image elf data base mv ph img) f phs w = foldl (\<lambda>img ph. seg_image elf data base mv ph img) g phs w"
proof (induction phs arbitrary: f g)
  case (Cons ph phs)
  have "seg_image elf data base mv ph f w = seg_image elf data base mv ph g w" using Cons.prems by (simp add: seg_image_def Let_def)
  with Cons.IH [of "seg_image elf data base mv ph f" "seg_image elf data base mv ph g"] show ?case by simp
qed simp

lemma load_segments_spec:
  assumes "machine_ok heap m" "\<forall>ph \<in> set phs. seg_fits elf base mv ph"
    and "for_op (load_segment heap elf data base mv) phs m = (r, m')"
  shows "(r \<noteq> Panic \<longrightarrow> machine_ok heap m' \<and> takes m m') \<and>
    (r = Ok () \<longrightarrow> card (mc_free m) = sum_list (map (seg_npages elf base mv) phs) + card (mc_free m') \<and>
      (\<forall>w. w \<le> USER_SPACE_MAX \<longrightarrow> mc_image m' w = foldl (\<lambda>img ph. seg_image elf data base mv ph img) (mc_image m) phs w)) \<and>
    (r = Err e \<longrightarrow> (\<exists>ph \<in> set phs. seg_outside data ph) \<or> card (mc_free m) < sum_list (map (seg_npages elf base mv) phs)) \<and>
    (heap_room heap (n + 3 * sum_list (map (seg_npages elf base mv) phs)) (mc_space m) \<longrightarrow>
      r \<noteq> Panic \<and> (r = Ok () \<longrightarrow> heap_room heap n (mc_space m')))"
  using assms
proof (induction phs arbitrary: m)
  case Nil
  then show ?case using takes_refl by auto
next
  case (Cons ph phs)
  obtain r1 m1 where l: "load_segment heap elf data base mv ph m = (r1, m1)" by fastforce
  let ?n = "sum_list (map (seg_npages elf base mv) phs)"
  have "seg_fits elf base mv ph" using Cons.prems(2) by simp
  note s = load_segment_spec [OF Cons.prems(1) this l]
  have s4: "heap_room heap (k + 3 * seg_npages elf base mv ph) (mc_space m) \<Longrightarrow> r1 \<noteq> Panic \<and> (r1 = Ok () \<longrightarrow> heap_room heap k (mc_space m1))" for k
    using s [of undefined k] by blast
  have sum: "n + 3 * sum_list (map (seg_npages elf base mv) (ph # phs)) = (n + 3 * ?n) + 3 * seg_npages elf base mv ph" by simp
  show ?case
  proof (cases r1)
    case (Ok u)
    then have r1: "r1 = Ok ()" by simp
    have k: "for_op (load_segment heap elf data base mv) phs m1 = (r, m')" using Cons.prems(3) l r1 by simp
    have m1: "machine_ok heap m1" "takes m m1" "card (mc_free m) = seg_npages elf base mv ph + card (mc_free m1)"
      "\<And>w. w \<le> USER_SPACE_MAX \<Longrightarrow> mc_image m1 w = seg_image elf data base mv ph (mc_image m) w"
      using s r1 by simp_all
    have "\<forall>ph \<in> set phs. seg_fits elf base mv ph" using Cons.prems(2) by simp
    note IH = Cons.IH [OF m1(1) this k]
    have room: "heap_room heap (n + 3 * ?n) (mc_space m1)" if "heap_room heap (n + 3 * sum_list (map (seg_npages elf base mv) (ph # phs))) (mc_space m)"
      using s4 that r1 unfolding sum by blast
    have "mc_image m' w = foldl (\<lambda>img ph. seg_image elf data base mv ph img) (mc_image m) (ph # phs) w"
      if "r = Ok ()" "w \<le> USER_SPACE_MAX" for w
      using IH that seg_images_cong [of "mc_image m1" w "seg_image elf data base mv ph (mc_image m)"] m1(4) by simp
    moreover have "card (mc_free m) < sum_list (map (seg_npages elf base mv) (ph # phs))" if "card (mc_free m1) < ?n"
      using that m1(3) by simp
    moreover have "card (mc_free m) = sum_list (map (seg_npages elf base mv) (ph # phs)) + card (mc_free m')" if "card (mc_free m1) = ?n + card (mc_free m')"
      using that m1(3) by simp
    moreover have "takes m m'" if "takes m1 m'" using takes_trans [OF m1(2) that] .
    ultimately show ?thesis using IH room by (metis list.set_intros(2))
  next
    case (Err e')
    then have "r = Err e'" "m' = m1" using Cons.prems(3) l by simp_all
    then show ?thesis using s [of e' n] Err by auto
  next
    case Panic
    then have "r = Panic" using Cons.prems(3) l by simp
    then show ?thesis using s4 Panic unfolding sum by blast
  qed
qed

lemma those_Some: "those (map Some xs) = Some xs"
  by (induction xs) auto

section \<open>Properties\<close>

text \<open>C10. The loader builds the image the program headers describe. For an address space whose pages
  are not free pages, and segments that lie in user space and whose offsets do not wrap, loading ends
  with a result: success, and then every byte of user space is what the segments say in their order
  (bytes of the file, zeros of the bss, and in the rest of a page what was there before, zero in a new
  page) and only pages that were free, all of them tracked for the process, and the manager's own
  tables were written; or an error, because a segment lies outside the file or there are fewer free
  pages than the segments need; a panic only when the heap runs out of room for the tables.\<close>

theorem load_segments_image:
  assumes "machine_ok heap m" "elf_phdrs elf = map Some phs" "\<forall>ph \<in> set phs. seg_fits elf base (min_vaddr_of phs) ph"
  shows "case load_segments_protected heap elf data base m of
      (Ok _, m') \<Rightarrow> machine_ok heap m' \<and> takes m m' \<and> (\<forall>w. w \<le> USER_SPACE_MAX \<longrightarrow>
        mc_image m' w = foldl (\<lambda>img ph. seg_image elf data base (min_vaddr_of phs) ph img) (mc_image m) phs w)
    | (Err e, m') \<Rightarrow> machine_ok heap m' \<and> takes m m' \<and>
        ((\<exists>ph \<in> set phs. seg_outside data ph) \<or> card (mc_free m) < sum_list (map (seg_npages elf base (min_vaddr_of phs)) phs))
    | (Panic, m') \<Rightarrow> \<not> heap_room heap (3 * sum_list (map (seg_npages elf base (min_vaddr_of phs)) phs)) (mc_space m)"
proof -
  obtain r m' where l: "load_segments_protected heap elf data base m = (r, m')" by fastforce
  then have "for_op (load_segment heap elf data base (min_vaddr_of phs)) phs m = (r, m')"
    by (simp add: load_segments_protected_def assms(2) those_Some)
  note s = load_segments_spec [OF assms(1,3) this]
  show ?thesis unfolding l using s [of _ 0] by (cases r) auto
qed

text \<open>The state in which a program is loaded: a new page table, and free pages above the kernel's 8 MB.\<close>

lemma machine_ok_new:
  assumes "heap_ok heap" "ProcessPageTable_new heap km = Ok sp" "phys_inv pa" "free_set (pa_bitmap pa) \<subseteq> {2048..}"
  shows "machine_ok heap \<lparr>mc_space = sp, mc_phys = pa, mc_mem = mem\<rparr>"
proof -
  obtain ppt km' where sp: "sp = (ppt, km')" by fastforce
  note s = ProcessPageTable_new_spec [OF assms(1) assms(2) [unfolded sp]]
  have "p \<notin> free_set (pa_bitmap pa)"
    if v: "page_base v = v" "page_lookup sp v = Some (of_nat (p * PAGE_SIZE))" "p < MAX_PAGES" for v p
  proof -
    have "page_lookup sp v = map_option fst (kernel_pages 4 v)"
      using lookup_translate [OF conjunct1 [OF s] page_base_take_bit [OF v(1)]] s sp by simp
    then have "pd_idx v < 4" and
      x: "(of_nat (p * PAGE_SIZE) :: u64) = of_nat (pd_idx v) * of_nat LARGE_PAGE_SIZE + of_nat (pt_idx v * PAGE_SIZE)"
      using v(2) by (auto simp: kernel_pages_def split: if_splits)
    then have n: "pd_idx v * 512 + pt_idx v < 2048" using pt_idx_less [of v] by simp
    have "(of_nat (p * PAGE_SIZE) :: u64) = of_nat ((pd_idx v * 512 + pt_idx v) * PAGE_SIZE)"
      using x by (simp add: LARGE_PAGE_SIZE_def PAGE_SIZE_def algebra_simps)
    moreover have "pd_idx v * 512 + pt_idx v < MAX_PAGES" using n by (simp add: MAX_PAGES_def MAX_PHYS_MEMORY_def PAGE_SIZE_def)
    ultimately have "p = pd_idx v * 512 + pt_idx v" using page_number_inj [OF v(3)] by blast
    then show ?thesis using n assms(4) by auto
  qed
  then show ?thesis using s assms(1,3) sp by (auto simp: machine_ok_def)
qed

lemma boot_phys:
  "phys_inv (phys_init 0x1000000 0x8000000 PhysAllocator_new)"
  "free_set (pa_bitmap (phys_init 0x1000000 0x8000000 PhysAllocator_new)) = {4096..<36864}"
proof -
  have "unat (0x1000000 :: u64) div PAGE_SIZE \<le> MAX_PAGES" by (simp add: PAGE_SIZE_def MAX_PAGES_def MAX_PHYS_MEMORY_def)
  note i = phys_init_law [OF this, where sz = "0x8000000"]
  show "phys_inv (phys_init 0x1000000 0x8000000 PhysAllocator_new)" by (rule i(1))
  show "free_set (pa_bitmap (phys_init 0x1000000 0x8000000 PhysAllocator_new)) = {4096..<36864}"
    unfolding i(3) by (simp add: PAGE_SIZE_def MAX_PAGES_def MAX_PHYS_MEMORY_def)
qed

lemma boot_machine:
  obtains m where "machine_ok first_fit m" "heap_room first_fit 1008 (mc_space m)" "card (mc_free m) = 32768"
    "\<And>v. mc_image m v = (case kernel_pages 4 (page_base v) of None \<Rightarrow> None | Some (p, _, _) \<Rightarrow> Some (mc_mem m (p + page_off v)))"
proof -
  have r0: "heap_room first_fit (1008 + 16) (p, fresh_kmem)" for p by (rule first_fit_room) (simp add: fresh_kmem_def)
  obtain sp where sp: "ProcessPageTable_new first_fit fresh_kmem = Ok sp" "heap_room first_fit 1008 sp"
    using ProcessPageTable_new_room [OF r0] by (auto simp: returns_def)
  obtain ppt km' where s: "sp = (ppt, km')" by fastforce
  note n = ProcessPageTable_new_spec [OF first_fit_ok sp(1) [unfolded s]]
  have lk: "page_lookup sp (page_base v) = map_option fst (kernel_pages 4 (page_base v))" for v
    using lookup_translate [OF conjunct1 [OF n] page_base_take_bit [of "page_base v"]] n s by simp
  let ?m = "\<lparr>mc_space = sp, mc_phys = phys_init 0x1000000 0x8000000 PhysAllocator_new, mc_mem = \<lambda>_. 0\<rparr>"
  have "machine_ok first_fit ?m" by (rule machine_ok_new [OF first_fit_ok sp(1) boot_phys(1)]) (auto simp: boot_phys(2))
  moreover have "card (mc_free ?m) = 32768" by (simp add: boot_phys(2))
  ultimately show ?thesis using that [of ?m] sp(2) lk by (simp add: user_image_def split: option.splits prod.splits)
qed

definition tiny_elf :: elf64 where
  "tiny_elf = \<lparr>elf_entry = 0x1000ABC, elf_phdrs = [Some \<lparr>ph_ptype = PT_LOAD, ph_flags = 5, ph_offset = 1, ph_vaddr = 0x1000FFE, ph_paddr = 0,
     ph_filesz = 3, ph_memsz = 6, ph_align = 1\<rparr>], elf_is_pie = False\<rparr>"

theorem load_segments_image_witness:
  "\<exists>m m'. load_segments_protected first_fit tiny_elf [7, 8, 9, 10] 0x1000000 m = (Ok (), m') \<and>
     map (mc_image m') [0x1000FFD, 0x1000FFE, 0x1000FFF, 0x1001000, 0x1001001, 0x1001FFF, 0x1002000] =
       [Some 0, Some 8, Some 9, Some 10, Some 0, Some 0, None]"
proof -
  obtain m where m: "machine_ok first_fit m" "heap_room first_fit 1008 (mc_space m)" "card (mc_free m) = 32768"
    "\<And>v. mc_image m v = (case kernel_pages 4 (page_base v) of None \<Rightarrow> None | Some (p, _, _) \<Rightarrow> Some (mc_mem m (p + page_off v)))"
    using boot_machine by metis
  define ph where "ph = \<lparr>ph_ptype = PT_LOAD, ph_flags = 5, ph_offset = 1, ph_vaddr = 0x1000FFE, ph_paddr = 0,
     ph_filesz = 3, ph_memsz = 6, ph_align = 1\<rparr>"
  have e: "elf_phdrs tiny_elf = map Some [ph]" by (simp add: tiny_elf_def ph_def)
  have a: "seg_addr tiny_elf 0x1000000 (min_vaddr_of [ph]) ph = 0x1000FFE" by (simp add: seg_addr_def tiny_elf_def ph_def)
  have fits: "\<forall>p \<in> set [ph]. seg_fits tiny_elf 0x1000000 (min_vaddr_of [ph]) p"
    by (simp add: seg_fits_def a) (simp add: ph_def)
  have np: "sum_list (map (seg_npages tiny_elf 0x1000000 (min_vaddr_of [ph])) [ph]) = 2"
    by (simp add: seg_npages_def a last_page_def) (simp add: ph_def)
  have "\<not> seg_outside [7, 8, 9, 10] ph" by (simp add: seg_outside_def ph_def)
  moreover have "heap_room first_fit 6 (mc_space m)" using m(2) by (rule heap_room_mono) simp
  ultimately obtain m' where o: "load_segments_protected first_fit tiny_elf [7, 8, 9, 10] 0x1000000 m = (Ok (), m')"
    and img: "\<And>w. w \<le> USER_SPACE_MAX \<Longrightarrow> mc_image m' w = seg_image tiny_elf [7, 8, 9, 10] 0x1000000 (min_vaddr_of [ph]) ph (mc_image m) w"
    using load_segments_image [OF m(1) e fits, of "[7, 8, 9, 10]"] m(3) unfolding np
    by (cases "load_segments_protected first_fit tiny_elf [7, 8, 9, 10] 0x1000000 m" rule: prod.exhaust)
      (auto split: res.splits)
  have k: "kernel_pages 4 0x1000000 = None" "kernel_pages 4 0x1001000 = None" "kernel_pages 4 0x1002000 = None"
    by (simp_all add: kernel_pages_def pt_idx_def pd_idx_def pdp_idx_def pml4_idx_def drop_bit_eq_div and_511 take_bit_eq_mod)
  have b: "page_base 0x1000FFD = 0x1000000" "page_base 0x1000FFE = 0x1000000" "page_base 0x1000FFF = 0x1000000"
    "page_base 0x1001000 = 0x1001000" "page_base 0x1001001 = 0x1001000" "page_base 0x1001FFF = 0x1001000" "page_base 0x1002000 = 0x1002000"
    by (simp_all add: page_base_def mask_eq_exp_minus_1)
  have "map (mc_image m') [0x1000FFD, 0x1000FFE, 0x1000FFF, 0x1001000, 0x1001001, 0x1001FFF, 0x1002000] =
       [Some 0, Some 8, Some 9, Some 10, Some 0, Some 0, None]"
    by (simp add: img USER_SPACE_MAX_def seg_image_def a last_page_def byte_image_def m(4) b k Let_def) (simp add: ph_def)
  with o show ?thesis by (intro exI conjI)
qed

section \<open>Parsing\<close>

text \<open>An ELF file as a linker writes it: the header, the program headers right after it, and the rest.\<close>

definition enc_phdr :: "elf64_phdr \<Rightarrow> byte list" where
  "enc_phdr ph = enc_word 4 (ph_ptype ph) @ enc_word 4 (ph_flags ph) @ enc_word 8 (ph_offset ph) @ enc_word 8 (ph_vaddr ph) @
     enc_word 8 (ph_paddr ph) @ enc_word 8 (ph_filesz ph) @ enc_word 8 (ph_memsz ph) @ enc_word 8 (ph_align ph)"

definition elf_file :: "u16 \<Rightarrow> u64 \<Rightarrow> elf64_phdr list \<Rightarrow> byte list \<Rightarrow> byte list" where
  "elf_file etype entry phs payload =
     [0x7F, 0x45, 0x4C, 0x46, 2, 1, 1, 0] @ replicate 8 0 @ enc_word 2 etype @ enc_word 2 EM_X86_64 @ enc_word 4 (1 :: u32) @
     enc_word 8 entry @ enc_word 8 (64 :: u64) @ enc_word 8 (0 :: u64) @ enc_word 4 (0 :: u32) @ enc_word 2 (64 :: u16) @
     enc_word 2 (56 :: u16) @ enc_word 2 (of_nat (length phs) :: u16) @ replicate 6 0 @ concat (map enc_phdr phs) @ payload"

lemma length_enc_phdr [simp]: "length (enc_phdr ph) = 56"
  by (simp add: enc_phdr_def)

lemma length_enc_phdrs [simp]: "length (concat (map enc_phdr phs)) = 56 * length phs"
  by (induction phs) simp_all

lemma field_here:
  assumes "length a = off" "LENGTH('a) = 8 * n"
  shows "field (a @ enc_word n (w :: 'a::len word) @ rest) off n = w"
  using assms by (simp add: field_def dec_enc_word)

lemma read_phdr_here:
  assumes "length a = off"
  shows "read_phdr (a @ enc_phdr ph @ rest) off = Some ph"
proof -
  have f: "field (enc_phdr ph @ rest) 0 4 = ph_ptype ph" "field (enc_phdr ph @ rest) 4 4 = ph_flags ph"
    "field (enc_phdr ph @ rest) 8 8 = ph_offset ph" "field (enc_phdr ph @ rest) 16 8 = ph_vaddr ph"
    "field (enc_phdr ph @ rest) 24 8 = ph_paddr ph" "field (enc_phdr ph @ rest) 32 8 = ph_filesz ph"
    "field (enc_phdr ph @ rest) 40 8 = ph_memsz ph" "field (enc_phdr ph @ rest) 48 8 = ph_align ph"
    by (simp_all add: field_def enc_phdr_def dec_enc_word)
  show ?thesis using assms by (simp add: read_phdr_def f)
qed

lemma read_phdrs_here:
  assumes "length a = off"
  shows "map (\<lambda>i. read_phdr (a @ concat (map enc_phdr phs) @ rest) (off + 56 * i)) [0..<length phs] = map Some phs"
proof (rule nth_equalityI)
  fix i assume "i < length (map (\<lambda>i. read_phdr (a @ concat (map enc_phdr phs) @ rest) (off + 56 * i)) [0..<length phs])"
  then have i: "i < length phs" by simp
  have "concat (map enc_phdr phs) = concat (map enc_phdr (take i phs)) @ enc_phdr (phs ! i) @ concat (map enc_phdr (drop (Suc i) phs))"
    by (subst id_take_nth_drop [OF i]) simp
  then have "a @ concat (map enc_phdr phs) @ rest =
      (a @ concat (map enc_phdr (take i phs))) @ enc_phdr (phs ! i) @ (concat (map enc_phdr (drop (Suc i) phs)) @ rest)" by simp
  moreover have "length (a @ concat (map enc_phdr (take i phs))) = off + 56 * i" using i assms by simp
  ultimately have "read_phdr (a @ concat (map enc_phdr phs) @ rest) (off + 56 * i) = Some (phs ! i)" using read_phdr_here by metis
  then show "map (\<lambda>i. read_phdr (a @ concat (map enc_phdr phs) @ rest) (off + 56 * i)) [0..<length phs] ! i = map Some phs ! i"
    using i by simp
qed simp

text \<open>Parsing gives back the program headers of a file: entry point, program headers and type of
  every x86-64 executable or position-independent file with its headers in the usual place.\<close>

lemma elf_parse_roundtrip:
  assumes "etype = ET_EXEC \<or> etype = ET_DYN" "length phs < 2 ^ 16"
  shows "elf_parse (elf_file etype entry phs payload) =
    Ok \<lparr>elf_entry = entry, elf_phdrs = map Some phs, elf_is_pie = (etype = ET_DYN)\<rparr>"
proof -
  let ?d = "elf_file etype entry phs payload"
  have len: "length ?d = 64 + 56 * length phs + length payload" by (simp add: elf_file_def)
  have h: "eh_magic (read_header ?d) = [0x7F, 0x45, 0x4C, 0x46]" "eh_class (read_header ?d) = 2" "eh_endian (read_header ?d) = 1"
    "eh_etype (read_header ?d) = etype" "eh_machine (read_header ?d) = EM_X86_64" "eh_entry (read_header ?d) = entry"
    "eh_phoff (read_header ?d) = 64" "eh_phentsize (read_header ?d) = 56" "eh_phnum (read_header ?d) = of_nat (length phs)"
    by (simp_all add: read_header_def field_def elf_file_def dec_enc_word) (simp_all add: dec_word_def)
  have n: "unat (of_nat (length phs) :: u16) = length phs" using assms(2) by (simp add: unat_of_nat take_bit_nat_eq_self)
  have "unat (64 + of_nat (length phs * 56) :: u64) = 64 + length phs * 56"
  proof -
    have "(64 + of_nat (length phs * 56) :: u64) = of_nat (64 + length phs * 56)" by simp
    moreover have "64 + length phs * 56 < 2 ^ 64" using assms(2) by simp
    ultimately show ?thesis by (simp only: unat_of_nat) (simp add: take_bit_nat_eq_self)
  qed
  then have in_file: "\<not> unat (64 + of_nat (length phs * 56) :: u64) > length ?d" using len by simp
  have "map (\<lambda>i. read_phdr ?d (64 + 56 * i)) [0..<length phs] = map Some phs"
    using read_phdrs_here [of "[0x7F, 0x45, 0x4C, 0x46, 2, 1, 1, 0] @ replicate 8 0 @ enc_word 2 etype @ enc_word 2 EM_X86_64 @
      enc_word 4 (1 :: u32) @ enc_word 8 entry @ enc_word 8 (64 :: u64) @ enc_word 8 (0 :: u64) @ enc_word 4 (0 :: u32) @
      enc_word 2 (64 :: u16) @ enc_word 2 (56 :: u16) @ enc_word 2 (of_nat (length phs) :: u16) @ replicate 6 0" 64 phs payload]
    by (simp add: elf_file_def)
  then show ?thesis using assms(1) h n in_file len by (auto simp: elf_parse_def Let_def)
qed

lemma elf_parse_roundtrip_example:
  "elf_parse (elf_file ET_DYN 0x1000 [\<lparr>ph_ptype = 1, ph_flags = 5, ph_offset = 0, ph_vaddr = 0, ph_paddr = 0, ph_filesz = 8,
     ph_memsz = 16, ph_align = 4096\<rparr>] [1, 2, 3]) =
   Ok \<lparr>elf_entry = 0x1000, elf_phdrs = [Some \<lparr>ph_ptype = 1, ph_flags = 5, ph_offset = 0, ph_vaddr = 0, ph_paddr = 0, ph_filesz = 8,
     ph_memsz = 16, ph_align = 4096\<rparr>], elf_is_pie = True\<rparr>"
  using elf_parse_roundtrip [of ET_DYN "[\<lparr>ph_ptype = 1, ph_flags = 5, ph_offset = 0, ph_vaddr = 0, ph_paddr = 0, ph_filesz = 8,
     ph_memsz = 16, ph_align = 4096\<rparr>]"] by simp

section \<open>Any file\<close>

text \<open>Whatever the program headers say, loading only writes pages it took: a segment whose addresses
  wrap stops at the first page outside user space.\<close>

lemma page_contents_outside:
  assumes "page_base p = p" "unat p + 4096 \<le> 2 ^ 64" "unat va < unat pv + 4096"
    and "page_contents data va src fsz msz pv p existing mem = r"
  shows "r \<noteq> Err e" "r = Ok mem' \<Longrightarrow> page_base a \<noteq> p \<Longrightarrow> mem' a = mem a"
proof -
  define po where "po = (if pv < va then 0 else unat (pv - va))"
  define de where "de = (if pv < va then unat (va - pv) else 0)"
  have de: "de < 4096" using assms(3) unfolding de_def by (auto simp: word_less_nat_alt unat_sub word_le_nat_alt)
  define mem1 where "mem1 = (case existing of
      Some old \<Rightarrow> write_at mem p (map (\<lambda>i. mem (old + of_nat i)) [0..<PAGE_SIZE]) | None \<Rightarrow> write_at mem p (replicate PAGE_SIZE 0))"
  define cl where "cl = min (min (po + PAGE_SIZE - de) fsz) (po + PAGE_SIZE - de) - po"
  define z0 where "z0 = max fsz po"
  define z1 where "z1 = min msz (po + (PAGE_SIZE - de))"
  define bs where "bs = take cl (drop (src + po) data)"
  have P: "PAGE_SIZE = 4096" by (simp add: PAGE_SIZE_def)
  have r: "r = rbind (if po < fsz \<and> cl > 0 then if src + po + cl \<le> length data then Ok (write_at mem1 (p + of_nat de) bs) else Panic
      else Ok mem1) (\<lambda>mem2. if msz > fsz \<and> z1 > z0
        then Ok (write_at mem2 (p + of_nat (de + (z0 - po))) (replicate (z1 - z0) 0)) else Ok mem2)"
    unfolding assms(4) [symmetric] page_contents_def Let_def po_def [symmetric] de_def [symmetric]
    unfolding mem1_def [symmetric] cl_def [symmetric] z0_def [symmetric] z1_def [symmetric] bs_def ..
  then show "r \<noteq> Err e" by simp
  assume a: "r = Ok mem'" "page_base a \<noteq> p"
  have o1: "mem1 a = mem a"
    using write_at_outside [OF assms(1,2), of 0 _ a mem] a(2) by (simp add: mem1_def P split: option.splits)
  have "length bs \<le> cl" by (simp add: bs_def)
  then have o2: "write_at mem1 (p + of_nat de) bs a = mem1 a" using de
    by (intro write_at_outside [OF assms(1,2) _ a(2)]) (auto simp: cl_def P)
  have o3: "write_at mem2 (p + of_nat (de + (z0 - po))) (replicate (z1 - z0) 0) a = mem2 a" if "z0 < z1" for mem2
    using de that by (intro write_at_outside [OF assms(1,2) _ a(2)]) (auto simp: z0_def z1_def P)
  show "mem' a = mem a" using a(1) r o1 o2 o3 by (auto split: if_splits)
qed

lemma load_page_safe:
  assumes ok: "machine_ok heap m" and pv: "page_base pv = pv" "unat va < unat pv + 4096"
    and f: "frame f = 0" and ld: "load_page heap data va src fsz msz f pv m = (r, m')" "r \<noteq> Panic"
  shows "machine_ok heap m' \<and> takes m m' \<and> (r = Ok () \<longrightarrow> pv \<le> USER_SPACE_MAX)"
proof -
  obtain ro pa where al: "alloc_page (mc_phys m) = (ro, pa)" by fastforce
  have inv: "phys_inv (mc_phys m)" using ok by (simp add: machine_ok_def)
  show ?thesis
  proof (cases ro)
    case None
    then have "pa = mc_phys m" using alloc_page_none [OF inv, of pa] al by simp
    then have "m' = m" "r \<noteq> Ok ()" using ld al None by (auto simp: load_page_def)
    then show ?thesis using ok takes_refl by simp
  next
    case (Some x)
    note al = al [unfolded Some]
    obtain q where q: "q \<in> mc_free m" "x = of_nat (q * PAGE_SIZE)" using alloc_page_some [OF inv al] by blast
    note xa = page_address [OF free_set_bound [OF q(1)], folded q(2)]
    have xb: "page_base x = x" "unat x + 4096 \<le> 2 ^ 64" using frame_page_base [OF xa(1)] xa(2,3) by simp_all
    note pc = page_contents_outside [OF xb pv(2) refl]
    let ?pc = "page_contents data va src fsz msz pv x (page_lookup (mc_space m) pv) (mc_mem m)"
    obtain mem' where mem': "?pc = Ok mem'" using ld al pc(1) by (cases ?pc) (auto simp: load_page_def Let_def)
    have out: "\<forall>a. page_base a \<noteq> x \<longrightarrow> mem' a = mc_mem m a" using pc(2) [OF mem'] by blast
    define m1 where "m1 = m\<lparr>mc_phys := pa, mc_space := track_phys_page x (mc_space m), mc_mem := mem'\<rparr>"
    note fm = fill_and_map [OF ok al out pv(1) f m1_def refl]
    have "(r, m') = (case map_user_page heap pv x f (mc_space m1) of
        Ok sp \<Rightarrow> (Ok (), m1\<lparr>mc_space := sp\<rparr>) | Err e \<Rightarrow> (Err e, m1) | Panic \<Rightarrow> (Panic, m1))"
      unfolding m1_def using ld(1) al mem' by (simp add: load_page_def Let_def)
    then show ?thesis using fm(1) fm(3) ld(2) by (auto split: res.splits)
  qed
qed

lemma load_pages_safe:
  assumes "machine_ok heap m" "page_base s = s" "unat va < unat s + 4096" "unat s + j * 4096 < 2 ^ 64" "frame f = 0"
    and "for_op (load_page heap data va src fsz msz f) (map (\<lambda>i. s + of_nat i * of_nat PAGE_SIZE) [j..<n]) m = (r, m')" "r \<noteq> Panic"
  shows "machine_ok heap m' \<and> takes m m'"
  using assms
proof (induction "n - j" arbitrary: j m)
  case 0
  then show ?case using takes_refl by auto
next
  case (Suc d)
  then have j: "[j..<n] = j # [Suc j..<n]" by (simp add: upt_conv_Cons)
  let ?pv = "s + of_nat j * of_nat PAGE_SIZE" and ?f = "load_page heap data va src fsz msz f"
  obtain r1 m1 where l: "?f ?pv m = (r1, m1)" by fastforce
  have eq: "?pv = s + of_nat (j * 4096)" by (simp add: PAGE_SIZE_def)
  have jl: "j * 4096 < 2 ^ 64" using Suc.prems(4) by simp
  have u: "unat ?pv = unat s + j * 4096" unfolding eq using Suc.prems(4) jl
    by (subst unat_add_lem [THEN iffD1]) (simp_all add: unat_of_nat take_bit_nat_eq_self del: of_nat_mult)
  have pv: "page_base ?pv = ?pv"
  proof -
    have "unat s mod 4096 = 0" using Suc.prems(2) page_base_unat [of s] by (metis mod_mult_self2_is_0)
    then have "unat ?pv mod 4096 = 0" using u by (metis mod_mult_self3 add.commute)
    then have "unat (page_base ?pv) = unat ?pv" unfolding page_base_unat by (metis add.right_neutral div_mult_mod_eq)
    then show ?thesis by (rule unsigned_word_eqI)
  qed
  have va: "unat va < unat ?pv + 4096" using Suc.prems(3) u by simp
  have r1: "r1 \<noteq> Panic" using Suc.prems(6,7) l by (auto simp: j)
  note s1 = load_page_safe [OF Suc.prems(1) pv va Suc.prems(5) l r1]
  show ?case
  proof (cases "r1 = Ok ()")
    case True
    then have "?pv \<le> USER_SPACE_MAX" using s1 by blast
    then have "unat s + j * 4096 < 2 ^ 47" using u by (simp add: word_le_nat_alt USER_SPACE_MAX_def)
    then have j': "unat s + Suc j * 4096 < 2 ^ 64" by simp
    have k: "for_op ?f (map (\<lambda>i. s + of_nat i * of_nat PAGE_SIZE) [Suc j..<n]) m1 = (r, m')"
      using Suc.prems(6) l True by (simp add: j)
    have d: "d = n - Suc j" using Suc.hyps(2) by simp
    from Suc.hyps(1) [OF d conjunct1 [OF s1] Suc.prems(2,3) j' Suc.prems(5) k Suc.prems(7)] show ?thesis
      using s1 takes_trans by blast
  next
    case False
    then obtain e where "r1 = Err e" using r1 by (cases r1) auto
    then have "m' = m1" using Suc.prems(6) l by (simp add: j)
    then show ?thesis using s1 by blast
  qed
qed

lemma load_segment_safe:
  assumes "machine_ok heap m" "load_segment heap elf data base mv ph m = (r, m')" "r \<noteq> Panic"
  shows "machine_ok heap m' \<and> takes m m'"
proof (cases "ph_ptype ph \<noteq> PT_LOAD \<or> unat (ph_offset ph + ph_filesz ph) > length data")
  case True
  then have "m' = m" using assms(2) by (auto simp: load_segment_def Let_def split: if_splits)
  then show ?thesis using assms(1) takes_refl by simp
next
  case False
  let ?va = "seg_addr elf base mv ph"
  have n: "(NOT (of_nat PAGE_SIZE - 1) :: u64) = NOT (mask 12)" by (simp add: PAGE_SIZE_def mask_eq_exp_minus_1)
  obtain k where k: "seg_pages ?va (ph_memsz ph) = map (\<lambda>i. page_base ?va + of_nat i * of_nat PAGE_SIZE) [0..<k]"
    unfolding seg_pages_def Let_def n page_base_def [symmetric] by blast
  have "unat ?va < unat (page_base ?va) + 4096" unfolding page_base_unat using mod_less_divisor [of 4096 "unat ?va"]
    by (metis add.commute add_less_cancel_left div_mult_mod_eq zero_less_numeral)
  moreover have "for_op (load_page heap data ?va (unat (ph_offset ph)) (unat (ph_filesz ph)) (unat (ph_memsz ph)) (seg_flags ph))
      (map (\<lambda>i. page_base ?va + of_nat i * of_nat PAGE_SIZE) [0..<k]) m = (r, m')"
    using assms(2) False by (simp add: load_segment_def Let_def k)
  moreover have "unat (page_base ?va) + 0 * 4096 < 2 ^ 64" using unsigned_less [of "page_base ?va", where ?'a = nat] by simp
  ultimately show ?thesis by (intro load_pages_safe [OF assms(1) page_base_idem _ _ seg_flags_bits(1) _ assms(3)])
qed

lemma for_op_safe:
  assumes step: "\<And>x m r m'. machine_ok heap m \<Longrightarrow> f x m = (r, m') \<Longrightarrow> r \<noteq> Panic \<Longrightarrow> x \<in> A \<Longrightarrow> takes m0 m \<Longrightarrow> machine_ok heap m' \<and> takes m m'"
  shows "machine_ok heap m \<Longrightarrow> takes m0 m \<Longrightarrow> set xs \<subseteq> A \<Longrightarrow> for_op f xs m = (r, m') \<Longrightarrow> r \<noteq> Panic \<Longrightarrow> machine_ok heap m' \<and> takes m m'"
proof (induction xs arbitrary: m)
  case Nil
  then show ?case using takes_refl by simp
next
  case (Cons x xs)
  obtain r1 m1 where l: "f x m = (r1, m1)" by fastforce
  have r1: "r1 \<noteq> Panic" using Cons.prems(4,5) l by (cases r1) simp_all
  have s1: "machine_ok heap m1 \<and> takes m m1" using step [OF Cons.prems(1) l r1 _ Cons.prems(2)] Cons.prems(3) by simp
  show ?case
  proof (cases r1)
    case (Ok u)
    have k: "for_op f xs m1 = (r, m')" using Cons.prems(4) l Ok by simp
    have t: "takes m0 m1" using Cons.prems(2) s1 takes_trans by blast
    have A: "set xs \<subseteq> A" using Cons.prems(3) by simp
    have "machine_ok heap m' \<and> takes m1 m'" by (rule Cons.IH [OF conjunct1 [OF s1] t A k Cons.prems(5)])
    then show ?thesis using s1 takes_trans by blast
  next
    case (Err e)
    then show ?thesis using Cons.prems(4) l s1 by simp
  qed (use r1 in simp)
qed

lemma load_segments_safe:
  assumes "machine_ok heap m" "load_segments_protected heap elf data base m = (r, m')" "r \<noteq> Panic"
  shows "machine_ok heap m' \<and> takes m m'"
proof (cases "those (elf_phdrs elf)")
  case (Some phs)
  then have "for_op (load_segment heap elf data base (min_vaddr_of phs)) phs m = (r, m')"
    using assms(2) by (simp add: load_segments_protected_def)
  then show ?thesis
    using for_op_safe [where f = "load_segment heap elf data base (min_vaddr_of phs)" and A = UNIV and ?m0.0 = m, OF _ assms(1) takes_refl _ _ assms(3)]
      load_segment_safe by blast
qed (use assms(2,3) in \<open>simp add: load_segments_protected_def\<close>)

end
