(* ===== verification/Rl_Buffer.thy ===== *)
theory Rl_Buffer
  imports Prelude
begin

text \<open>
  The edit buffer of the line editor: \<^verbatim>\<open>src/crates/sys/readline/src/buffer.rs\<close>.

  A character is its Unicode scalar value. An index or a slice outside of the vector is a panic; the buffer is
  shown to refine the pair of the characters before and after the cursor.
\<close>

section \<open>Characters\<close>

type_synonym uchar = nat

definition is_whitespace :: "uchar \<Rightarrow> bool" where
  "is_whitespace c \<longleftrightarrow> 9 \<le> c \<and> c \<le> 13 \<or> c = 32 \<or> c = 0x85 \<or> c = 0xA0 \<or> c = 0x1680 \<or> 0x2000 \<le> c \<and> c \<le> 0x200A \<or>
     c = 0x2028 \<or> c = 0x2029 \<or> c = 0x202F \<or> c = 0x205F \<or> c = 0x3000"

definition lower_case :: "uchar \<Rightarrow> bool" where "lower_case c \<longleftrightarrow> 97 \<le> c \<and> c \<le> 122"
definition upper_case :: "uchar \<Rightarrow> bool" where "upper_case c \<longleftrightarrow> 65 \<le> c \<and> c \<le> 90"

section \<open>The buffer\<close>

record edit_buffer =
  eb_chars :: "uchar list"
  eb_cursor :: nat
  eb_mark :: "nat option"

definition EditBuffer_new :: edit_buffer where
  "EditBuffer_new = \<lparr>eb_chars = [], eb_cursor = 0, eb_mark = None\<rparr>"

definition with_content :: "uchar list \<Rightarrow> edit_buffer" where
  "with_content s = \<lparr>eb_chars = s, eb_cursor = length s, eb_mark = None\<rparr>"

definition set_content :: "uchar list \<Rightarrow> edit_buffer \<Rightarrow> edit_buffer" where
  "set_content s b = b\<lparr>eb_chars := s, eb_cursor := length s, eb_mark := None\<rparr>"

definition set_cursor :: "nat \<Rightarrow> edit_buffer \<Rightarrow> edit_buffer" where
  "set_cursor pos b = b\<lparr>eb_cursor := min pos (length (eb_chars b))\<rparr>"

definition char_at :: "nat \<Rightarrow> edit_buffer \<Rightarrow> uchar option" where
  "char_at pos b = (if pos < length (eb_chars b) then Some (eb_chars b ! pos) else None)"

definition current_char :: "edit_buffer \<Rightarrow> uchar option" where
  "current_char b = char_at (eb_cursor b) b"

definition prev_char :: "edit_buffer \<Rightarrow> uchar option" where
  "prev_char b = (if eb_cursor b > 0 then char_at (eb_cursor b - 1) b else None)"

text \<open>\<open>Vec::insert\<close>, \<open>Vec::remove\<close>, \<open>Vec::drain\<close> and slices.\<close>

definition vec_insert :: "nat \<Rightarrow> 'a \<Rightarrow> 'a list \<Rightarrow> 'a list pan" where
  "vec_insert i x xs = (if i \<le> length xs then Ok (take i xs @ x # drop i xs) else Panic)"

definition vec_remove :: "nat \<Rightarrow> 'a list \<Rightarrow> ('a \<times> 'a list) pan" where
  "vec_remove i xs = (if i < length xs then Ok (xs ! i, take i xs @ drop (i + 1) xs) else Panic)"

definition vec_slice :: "nat \<Rightarrow> nat \<Rightarrow> 'a list \<Rightarrow> 'a list pan" where
  "vec_slice i j xs = (if i \<le> j \<and> j \<le> length xs then Ok (take (j - i) (drop i xs)) else Panic)"

definition vec_drain :: "nat \<Rightarrow> nat \<Rightarrow> 'a list \<Rightarrow> 'a list pan" where
  "vec_drain i j xs = (if i \<le> j \<and> j \<le> length xs then Ok (take i xs @ drop j xs) else Panic)"

definition vec_swap :: "nat \<Rightarrow> nat \<Rightarrow> 'a list \<Rightarrow> 'a list pan" where
  "vec_swap i j xs = (if i < length xs \<and> j < length xs then Ok (xs[i := xs ! j, j := xs ! i]) else Panic)"

definition buf_insert :: "uchar \<Rightarrow> edit_buffer \<Rightarrow> edit_buffer pan" where
  "buf_insert ch b = rbind (vec_insert (eb_cursor b) ch (eb_chars b)) (\<lambda>cs. Ok (b\<lparr>eb_chars := cs, eb_cursor := eb_cursor b + 1\<rparr>))"

definition insert_str :: "uchar list \<Rightarrow> edit_buffer \<Rightarrow> edit_buffer pan" where
  "insert_str s b = for_res buf_insert s b"

definition delete_char :: "edit_buffer \<Rightarrow> uchar option \<times> edit_buffer" where
  "delete_char b =
     (if eb_cursor b < length (eb_chars b)
      then (Some (eb_chars b ! eb_cursor b), b\<lparr>eb_chars := take (eb_cursor b) (eb_chars b) @ drop (eb_cursor b + 1) (eb_chars b)\<rparr>)
      else (None, b))"

definition backspace :: "edit_buffer \<Rightarrow> (uchar option \<times> edit_buffer) pan" where
  "backspace b =
     (if eb_cursor b > 0
      then rbind (vec_remove (eb_cursor b - 1) (eb_chars b)) (\<lambda>(c, cs). Ok (Some c, b\<lparr>eb_cursor := eb_cursor b - 1, eb_chars := cs\<rparr>))
      else Ok (None, b))"

definition delete_to_end :: "edit_buffer \<Rightarrow> (uchar list \<times> edit_buffer) pan" where
  "delete_to_end b =
     rbind (vec_slice (eb_cursor b) (length (eb_chars b)) (eb_chars b)) (\<lambda>deleted.
     Ok (deleted, b\<lparr>eb_chars := take (eb_cursor b) (eb_chars b)\<rparr>))"

definition delete_to_start :: "edit_buffer \<Rightarrow> (uchar list \<times> edit_buffer) pan" where
  "delete_to_start b =
     rbind (vec_slice 0 (eb_cursor b) (eb_chars b)) (\<lambda>deleted.
     rbind (vec_slice (eb_cursor b) (length (eb_chars b)) (eb_chars b)) (\<lambda>rest.
     Ok (deleted, b\<lparr>eb_chars := rest, eb_cursor := 0\<rparr>)))"

text \<open>\<open>while i > 0 && p(chars[i - 1]) { i -= 1 }\<close> and \<open>while i < len && p(chars[i]) { i += 1 }\<close>.\<close>

fun back_while :: "(uchar \<Rightarrow> bool) \<Rightarrow> uchar list \<Rightarrow> nat \<Rightarrow> nat pan" where
  "back_while p cs 0 = Ok 0"
| "back_while p cs (Suc i) = (if i < length cs then (if p (cs ! i) then back_while p cs i else Ok (Suc i)) else Panic)"

function fwd_while :: "(uchar \<Rightarrow> bool) \<Rightarrow> uchar list \<Rightarrow> nat \<Rightarrow> nat" where
  "fwd_while p cs i = (if i < length cs \<and> p (cs ! i) then fwd_while p cs (i + 1) else i)"
  by pat_completeness auto
termination by (relation "measure (\<lambda>(p, cs, i). length cs - i)") auto

declare fwd_while.simps [simp del]

definition delete_word_back :: "edit_buffer \<Rightarrow> (uchar list \<times> edit_buffer) pan" where
  "delete_word_back b =
     (if eb_cursor b = 0 then Ok ([], b)
      else
        rbind (back_while is_whitespace (eb_chars b) (eb_cursor b)) (\<lambda>e.
        rbind (back_while (\<lambda>c. \<not> is_whitespace c) (eb_chars b) e) (\<lambda>start.
        rbind (vec_slice start (eb_cursor b) (eb_chars b)) (\<lambda>deleted.
        rbind (vec_drain start (eb_cursor b) (eb_chars b)) (\<lambda>cs.
        Ok (deleted, b\<lparr>eb_chars := cs, eb_cursor := start\<rparr>))))))"

definition delete_word_forward :: "edit_buffer \<Rightarrow> (uchar list \<times> edit_buffer) pan" where
  "delete_word_forward b =
     (if eb_cursor b \<ge> length (eb_chars b) then Ok ([], b)
      else
        let start = eb_cursor b;
            e = fwd_while is_whitespace (eb_chars b) start;
            e = fwd_while (\<lambda>c. \<not> is_whitespace c) (eb_chars b) e in
        rbind (vec_slice start e (eb_chars b)) (\<lambda>deleted.
        rbind (vec_drain start e (eb_chars b)) (\<lambda>cs.
        Ok (deleted, b\<lparr>eb_chars := cs\<rparr>))))"

definition move_left :: "edit_buffer \<Rightarrow> edit_buffer" where
  "move_left b = (if eb_cursor b > 0 then b\<lparr>eb_cursor := eb_cursor b - 1\<rparr> else b)"

definition move_right :: "edit_buffer \<Rightarrow> edit_buffer" where
  "move_right b = (if eb_cursor b < length (eb_chars b) then b\<lparr>eb_cursor := eb_cursor b + 1\<rparr> else b)"

definition move_home :: "edit_buffer \<Rightarrow> edit_buffer" where
  "move_home b = b\<lparr>eb_cursor := 0\<rparr>"

definition move_end :: "edit_buffer \<Rightarrow> edit_buffer" where
  "move_end b = b\<lparr>eb_cursor := length (eb_chars b)\<rparr>"

definition move_word_left :: "edit_buffer \<Rightarrow> edit_buffer pan" where
  "move_word_left b =
     (if eb_cursor b = 0 then Ok b
      else
        rbind (back_while is_whitespace (eb_chars b) (eb_cursor b)) (\<lambda>i.
        rbind (back_while (\<lambda>c. \<not> is_whitespace c) (eb_chars b) i) (\<lambda>i.
        Ok (b\<lparr>eb_cursor := i\<rparr>))))"

definition move_word_right :: "edit_buffer \<Rightarrow> edit_buffer" where
  "move_word_right b =
     (let i = fwd_while (\<lambda>c. \<not> is_whitespace c) (eb_chars b) (eb_cursor b) in
      b\<lparr>eb_cursor := fwd_while is_whitespace (eb_chars b) i\<rparr>)"

definition move_word_end :: "edit_buffer \<Rightarrow> edit_buffer" where
  "move_word_end b =
     (if eb_cursor b \<ge> length (eb_chars b) then b
      else
        let i = fwd_while is_whitespace (eb_chars b) (eb_cursor b + 1);
            i = fwd_while (\<lambda>c. \<not> is_whitespace c) (eb_chars b) i in
        b\<lparr>eb_cursor := (if i > 0 \<and> i \<le> length (eb_chars b) then i - 1 else i)\<rparr>)"

definition find_char_forward :: "uchar \<Rightarrow> edit_buffer \<Rightarrow> bool \<times> edit_buffer" where
  "find_char_forward ch b =
     (case find (\<lambda>i. eb_chars b ! i = ch) [eb_cursor b + 1..<length (eb_chars b)] of
        Some i \<Rightarrow> (True, b\<lparr>eb_cursor := i\<rparr>)
      | None \<Rightarrow> (False, b))"

definition find_char_backward :: "uchar \<Rightarrow> edit_buffer \<Rightarrow> (bool \<times> edit_buffer) pan" where
  "find_char_backward ch b =
     (if eb_cursor b > length (eb_chars b) then Panic
      else case find (\<lambda>i. eb_chars b ! i = ch) (rev [0..<eb_cursor b]) of
        Some i \<Rightarrow> Ok (True, b\<lparr>eb_cursor := i\<rparr>)
      | None \<Rightarrow> Ok (False, b))"

definition set_mark :: "edit_buffer \<Rightarrow> edit_buffer" where
  "set_mark b = b\<lparr>eb_mark := Some (eb_cursor b)\<rparr>"

definition clear_mark :: "edit_buffer \<Rightarrow> edit_buffer" where
  "clear_mark b = b\<lparr>eb_mark := None\<rparr>"

definition exchange_point_and_mark :: "edit_buffer \<Rightarrow> edit_buffer" where
  "exchange_point_and_mark b =
     (case eb_mark b of Some m \<Rightarrow> b\<lparr>eb_cursor := m, eb_mark := Some (eb_cursor b)\<rparr> | None \<Rightarrow> b)"

definition buf_clear :: "edit_buffer \<Rightarrow> edit_buffer" where
  "buf_clear b = b\<lparr>eb_chars := [], eb_cursor := 0, eb_mark := None\<rparr>"

definition buf_replace :: "uchar list \<Rightarrow> edit_buffer \<Rightarrow> edit_buffer" where
  "buf_replace s b = b\<lparr>eb_chars := s, eb_cursor := length s, eb_mark := None\<rparr>"

definition transpose_chars :: "edit_buffer \<Rightarrow> edit_buffer pan" where
  "transpose_chars b =
     (if eb_cursor b \<ge> 2 then rbind (vec_swap (eb_cursor b - 1) (eb_cursor b - 2) (eb_chars b)) (\<lambda>cs. Ok (b\<lparr>eb_chars := cs\<rparr>))
      else if eb_cursor b = 1 \<and> length (eb_chars b) \<ge> 2
      then rbind (vec_swap 0 1 (eb_chars b)) (\<lambda>cs. Ok (b\<lparr>eb_chars := cs, eb_cursor := min 2 (length cs)\<rparr>))
      else Ok b)"

definition toggle_case :: "edit_buffer \<Rightarrow> edit_buffer" where
  "toggle_case b =
     (if eb_cursor b < length (eb_chars b)
      then let ch = eb_chars b ! eb_cursor b in
        if lower_case ch then b\<lparr>eb_chars := (eb_chars b)[eb_cursor b := ch - 32]\<rparr>
        else if upper_case ch then b\<lparr>eb_chars := (eb_chars b)[eb_cursor b := ch + 32]\<rparr>
        else b
      else b)"

definition undo :: "edit_buffer \<Rightarrow> edit_buffer" where "undo b = b"

definition text_range :: "nat \<Rightarrow> nat \<Rightarrow> edit_buffer \<Rightarrow> uchar list pan" where
  "text_range start fin b =
     (let s = min start (length (eb_chars b)); e = min fin (length (eb_chars b)) in
      if s \<le> e then vec_slice s e (eb_chars b) else vec_slice e s (eb_chars b))"

definition delete_range :: "nat \<Rightarrow> nat \<Rightarrow> edit_buffer \<Rightarrow> (uchar list \<times> edit_buffer) pan" where
  "delete_range start fin b =
     (let s = min start (length (eb_chars b)); e = min fin (length (eb_chars b)); (i, j) = (if s \<le> e then (s, e) else (e, s)) in
      rbind (vec_slice i j (eb_chars b)) (\<lambda>deleted.
      rbind (vec_drain i j (eb_chars b)) (\<lambda>cs.
      Ok (deleted, b\<lparr>eb_chars := cs, eb_cursor := i\<rparr>))))"

section \<open>The zipper\<close>

definition wf_buffer :: "edit_buffer \<Rightarrow> bool" where
  "wf_buffer b \<longleftrightarrow> eb_cursor b \<le> length (eb_chars b)"

type_synonym zipper = "uchar list \<times> uchar list"

definition zip_of :: "edit_buffer \<Rightarrow> zipper" where
  "zip_of b = (take (eb_cursor b) (eb_chars b), drop (eb_cursor b) (eb_chars b))"

lemma back_while_eq: "i \<le> length cs \<Longrightarrow> back_while p cs i = Ok (length (dropWhile p (rev (take i cs))))"
  by (induction i) (auto simp: take_Suc_conv_app_nth)

lemma fwd_while_eq: "i \<le> length cs \<Longrightarrow> fwd_while p cs i = i + length (takeWhile p (drop i cs))"
proof (induction p cs i rule: fwd_while.induct)
  case (1 p cs i)
  show ?case
  proof (cases "i < length cs")
    case True
    then show ?thesis using 1 by (subst fwd_while.simps) (auto simp: Cons_nth_drop_Suc [symmetric])
  next
    case False
    then show ?thesis using 1(2) by (subst fwd_while.simps) simp
  qed
qed

text \<open>The words before and after the cursor.\<close>

definition without_word_back :: "uchar list \<Rightarrow> uchar list" where
  "without_word_back l = rev (dropWhile (\<lambda>c. \<not> is_whitespace c) (dropWhile is_whitespace (rev l)))"

definition after_word :: "uchar list \<Rightarrow> uchar list" where
  "after_word r = dropWhile (\<lambda>c. \<not> is_whitespace c) (dropWhile is_whitespace r)"

definition after_gap :: "uchar list \<Rightarrow> uchar list" where
  "after_gap r = dropWhile is_whitespace (dropWhile (\<lambda>c. \<not> is_whitespace c) r)"

lemma dropWhile_suffix: "\<exists>p. xs = p @ dropWhile q xs"
  by (metis takeWhile_dropWhile_id)

lemma without_word_back_prefix: "\<exists>w. l = without_word_back l @ w"
proof -
  obtain p where p: "rev l = p @ dropWhile is_whitespace (rev l)" using dropWhile_suffix by blast
  obtain q where "dropWhile is_whitespace (rev l) = q @ rev (without_word_back l)"
    using dropWhile_suffix [of "dropWhile is_whitespace (rev l)"] by (auto simp: without_word_back_def)
  with p have "rev l = (p @ q) @ rev (without_word_back l)" by simp
  then have "l = without_word_back l @ rev (p @ q)" by (metis rev_append rev_rev_ident)
  then show ?thesis by blast
qed

lemma after_word_suffix: "\<exists>w. r = w @ after_word r"
proof -
  obtain p where p: "r = p @ dropWhile is_whitespace r" using dropWhile_suffix by blast
  obtain q where "dropWhile is_whitespace r = q @ after_word r"
    using dropWhile_suffix [of "dropWhile is_whitespace r"] by (auto simp: after_word_def)
  with p have "r = (p @ q) @ after_word r" by simp
  then show ?thesis by blast
qed

lemma back_word:
  assumes "i \<le> length cs"
  shows "rbind (back_while is_whitespace cs i) (back_while (\<lambda>c. \<not> is_whitespace c) cs) = Ok (length (without_word_back (take i cs)))"
proof -
  let ?d = "dropWhile is_whitespace (rev (take i cs))"
  obtain p where p: "rev (take i cs) = p @ ?d" using dropWhile_suffix by blast
  then have e: "take i cs = rev ?d @ rev p" by (metis rev_append rev_rev_ident)
  have l: "length ?d \<le> i" using assms length_dropWhile_le [of is_whitespace "rev (take i cs)"] by simp
  have "take (length ?d) cs = take (length ?d) (take i cs)" using l by simp
  also have "\<dots> = rev ?d" by (subst e) simp
  finally have "rev (take (length ?d) cs) = ?d" by simp
  then show ?thesis using assms l by (simp add: back_while_eq without_word_back_def)
qed

lemma fwd_words:
  assumes "i \<le> length cs"
  shows "fwd_while p cs (fwd_while q cs i) = i + (length (drop i cs) - length (dropWhile p (dropWhile q (drop i cs))))"
    "drop (fwd_while p cs (fwd_while q cs i)) cs = dropWhile p (dropWhile q (drop i cs))"
    "fwd_while p cs (fwd_while q cs i) \<le> length cs" "i \<le> fwd_while p cs (fwd_while q cs i)"
proof -
  let ?t = "takeWhile q (drop i cs)"
  have d: "drop i cs = ?t @ dropWhile q (drop i cs)" by simp
  have l: "i + length ?t \<le> length cs" using assms length_takeWhile_le [of q "drop i cs"] by simp
  have d1: "drop (i + length ?t) cs = dropWhile q (drop i cs)"
    by (metis append_eq_conv_conj drop_drop add.commute d)
  let ?u = "takeWhile p (dropWhile q (drop i cs))"
  have e: "fwd_while p cs (fwd_while q cs i) = i + length ?t + length ?u" using assms l d1 by (simp add: fwd_while_eq)
  have tot: "length (drop i cs) = length ?t + length ?u + length (dropWhile p (dropWhile q (drop i cs)))"
    by (metis add.assoc length_append takeWhile_dropWhile_id)
  then show "fwd_while p cs (fwd_while q cs i) = i + (length (drop i cs) - length (dropWhile p (dropWhile q (drop i cs))))"
    "fwd_while p cs (fwd_while q cs i) \<le> length cs" "i \<le> fwd_while p cs (fwd_while q cs i)" using e assms by auto
  show "drop (fwd_while p cs (fwd_while q cs i)) cs = dropWhile p (dropWhile q (drop i cs))"
    unfolding e by (metis append_eq_conv_conj drop_drop add.commute d1 takeWhile_dropWhile_id)
qed


section \<open>Editing operations\<close>

datatype edit_op = Ins uchar | InsStr "uchar list" | DelChar | DelBack | KillEnd | KillStart | KillWordBack | KillWord
  | GoLeft | GoRight | GoHome | GoEnd | GoWordLeft | GoWordRight | SwapChars | SwapCase | Wipe | Content "uchar list"
  | Replace "uchar list" | SetCursor nat | GoWordEnd | FindForward uchar | FindBackward uchar | SetMark | ClearMark | Undo | DelRange nat nat

definition opt_list :: "'a option \<Rightarrow> 'a list" where
  "opt_list x = (case x of Some c \<Rightarrow> [c] | None \<Rightarrow> [])"

text \<open>The operation on a buffer with the text it removes.\<close>

fun edit_step :: "edit_op \<Rightarrow> edit_buffer \<Rightarrow> (uchar list \<times> edit_buffer) pan" where
  "edit_step (Ins c) b = rbind (buf_insert c b) (\<lambda>b. Ok ([], b))"
| "edit_step (InsStr s) b = rbind (insert_str s b) (\<lambda>b. Ok ([], b))"
| "edit_step DelChar b = (let (c, b) = delete_char b in Ok (opt_list c, b))"
| "edit_step DelBack b = rbind (backspace b) (\<lambda>(c, b). Ok (opt_list c, b))"
| "edit_step KillEnd b = delete_to_end b"
| "edit_step KillStart b = delete_to_start b"
| "edit_step KillWordBack b = delete_word_back b"
| "edit_step KillWord b = delete_word_forward b"
| "edit_step GoLeft b = Ok ([], move_left b)"
| "edit_step GoRight b = Ok ([], move_right b)"
| "edit_step GoHome b = Ok ([], move_home b)"
| "edit_step GoEnd b = Ok ([], move_end b)"
| "edit_step GoWordLeft b = rbind (move_word_left b) (\<lambda>b. Ok ([], b))"
| "edit_step GoWordRight b = Ok ([], move_word_right b)"
| "edit_step SwapChars b = rbind (transpose_chars b) (\<lambda>b. Ok ([], b))"
| "edit_step SwapCase b = Ok ([], toggle_case b)"
| "edit_step Wipe b = Ok ([], buf_clear b)"
| "edit_step (Content s) b = Ok ([], set_content s b)"
| "edit_step (Replace s) b = Ok ([], buf_replace s b)"
| "edit_step (SetCursor i) b = Ok ([], set_cursor i b)"
| "edit_step GoWordEnd b = Ok ([], move_word_end b)"
| "edit_step (FindForward c) b = Ok ([], snd (find_char_forward c b))"
| "edit_step (FindBackward c) b = rbind (find_char_backward c b) (\<lambda>(_, b). Ok ([], b))"
| "edit_step SetMark b = Ok ([], set_mark b)"
| "edit_step ClearMark b = Ok ([], clear_mark b)"
| "edit_step Undo b = Ok ([], undo b)"
| "edit_step (DelRange i j) b = delete_range i j b"

text \<open>The same on a zipper.\<close>

definition flip_case :: "uchar \<Rightarrow> uchar" where
  "flip_case c = (if lower_case c then c - 32 else if upper_case c then c + 32 else c)"

fun zip_step :: "edit_op \<Rightarrow> zipper \<Rightarrow> uchar list \<times> zipper" where
  "zip_step (Ins c) (l, r) = ([], l @ [c], r)"
| "zip_step (InsStr s) (l, r) = ([], l @ s, r)"
| "zip_step DelChar (l, r) = (take 1 r, l, drop 1 r)"
| "zip_step DelBack (l, r) = (take 1 (rev l), butlast l, r)"
| "zip_step KillEnd (l, r) = (r, l, [])"
| "zip_step KillStart (l, r) = (l, [], r)"
| "zip_step KillWordBack (l, r) = (drop (length (without_word_back l)) l, without_word_back l, r)"
| "zip_step KillWord (l, r) = (take (length r - length (after_word r)) r, l, after_word r)"
| "zip_step GoLeft (l, r) = ([], butlast l, take 1 (rev l) @ r)"
| "zip_step GoRight (l, r) = ([], l @ take 1 r, drop 1 r)"
| "zip_step GoHome (l, r) = ([], [], l @ r)"
| "zip_step GoEnd (l, r) = ([], l @ r, [])"
| "zip_step GoWordLeft (l, r) = ([], without_word_back l, drop (length (without_word_back l)) l @ r)"
| "zip_step GoWordRight (l, r) = ([], l @ take (length r - length (after_gap r)) r, after_gap r)"
| "zip_step SwapChars (l, r) =
     ([], if length l \<ge> 2 then (take (length l - 2) l @ [l ! (length l - 1), l ! (length l - 2)], r)
          else if length l = 1 \<and> r \<noteq> [] then ([hd r, hd l], tl r) else (l, r))"
| "zip_step SwapCase (l, r) = ([], l, map flip_case (take 1 r) @ drop 1 r)"
| "zip_step Wipe (l, r) = ([], [], [])"
| "zip_step (Content s) (l, r) = ([], s, [])"
| "zip_step (Replace s) (l, r) = ([], s, [])"
| "zip_step (SetCursor i) (l, r) = ([], take i (l @ r), drop i (l @ r))"
| "zip_step GoWordEnd (l, r) =
     (let n = length (drop 1 r) - length (after_word (drop 1 r)) in ([], l @ take n r, drop n r))"
| "zip_step (FindForward c) (l, r) =
     ([], if c \<in> set (drop 1 r) then (l @ take 1 r @ takeWhile (\<lambda>d. d \<noteq> c) (drop 1 r), dropWhile (\<lambda>d. d \<noteq> c) (drop 1 r)) else (l, r))"
| "zip_step (FindBackward c) (l, r) =
     ([], if c \<in> set l then (rev (drop 1 (dropWhile (\<lambda>d. d \<noteq> c) (rev l))), c # rev (takeWhile (\<lambda>d. d \<noteq> c) (rev l)) @ r) else (l, r))"
| "zip_step SetMark (l, r) = ([], l, r)"
| "zip_step ClearMark (l, r) = ([], l, r)"
| "zip_step Undo (l, r) = ([], l, r)"
| "zip_step (DelRange i j) (l, r) =
     (take (max i j - min i j) (drop (min i j) (l @ r)), take (min i j) (l @ r), drop (max i j) (l @ r))"

definition refines_zip :: "edit_op \<Rightarrow> edit_buffer \<Rightarrow> bool" where
  "refines_zip op b \<longleftrightarrow> (\<exists>b'. edit_step op b = Ok (fst (zip_step op (zip_of b)), b') \<and> wf_buffer b' \<and> zip_of b' = snd (zip_step op (zip_of b)))"

lemma buf_insert_zip:
  assumes "wf_buffer b"
  shows "\<exists>b'. buf_insert c b = Ok b' \<and> wf_buffer b' \<and> zip_of b' = (fst (zip_of b) @ [c], snd (zip_of b))"
  using assms by (auto simp: buf_insert_def vec_insert_def wf_buffer_def zip_of_def)

lemma insert_str_zip:
  "wf_buffer b \<Longrightarrow> \<exists>b'. insert_str s b = Ok b' \<and> wf_buffer b' \<and> zip_of b' = (fst (zip_of b) @ s, snd (zip_of b))"
proof (induction s arbitrary: b)
  case (Cons c s)
  obtain b1 where b1: "buf_insert c b = Ok b1" "wf_buffer b1" "zip_of b1 = (fst (zip_of b) @ [c], snd (zip_of b))"
    using buf_insert_zip [OF Cons.prems] by blast
  from Cons.IH [OF b1(2)] show ?case using b1 by (auto simp: insert_str_def)
qed (simp add: insert_str_def)

lemmas zip_simps = wf_buffer_def zip_of_def opt_list_def take_Suc_conv_app_nth Cons_nth_drop_Suc [symmetric]

lemma delete_zip:
  assumes "wf_buffer b"
  shows "refines_zip DelChar b" "refines_zip DelBack b" "refines_zip KillEnd b" "refines_zip KillStart b"
proof -
  show "refines_zip DelChar b" "refines_zip KillEnd b" "refines_zip KillStart b"
    using assms by (auto simp: refines_zip_def delete_char_def delete_to_end_def delete_to_start_def vec_slice_def zip_simps)
  show "refines_zip DelBack b"
    using assms by (cases "eb_cursor b") (auto simp: refines_zip_def backspace_def vec_remove_def zip_simps)
qed

lemma move_zip:
  assumes "wf_buffer b"
  shows "refines_zip GoLeft b" "refines_zip GoRight b" "refines_zip GoHome b" "refines_zip GoEnd b"
proof -
  show "refines_zip GoRight b" "refines_zip GoHome b" "refines_zip GoEnd b"
    using assms by (auto simp: refines_zip_def move_right_def move_home_def move_end_def zip_simps)
  show "refines_zip GoLeft b"
    using assms by (cases "eb_cursor b") (auto simp: refines_zip_def move_left_def zip_simps)
qed

lemma word_back_zip:
  assumes "wf_buffer b"
  shows "refines_zip KillWordBack b" "refines_zip GoWordLeft b"
proof -
  let ?i = "eb_cursor b" and ?cs = "eb_chars b"
  let ?w = "without_word_back (take ?i ?cs)"
  obtain u where u: "take ?i ?cs = ?w @ u" using without_word_back_prefix by blast
  have i: "?i \<le> length ?cs" using assms by (simp add: wf_buffer_def)
  have l: "length ?w \<le> ?i" using arg_cong [OF u, of length] i by simp
  have t: "take (length ?w) ?cs = ?w" using l u by (metis append_eq_conv_conj min.absorb1 take_take)
  have d: "drop (length ?w) ?cs = u @ drop ?i ?cs" using u t by (metis append.assoc append_same_eq append_take_drop_id same_append_eq)
  have d': "take (?i - length ?w) (drop (length ?w) ?cs) = u" using l i arg_cong [OF u, of length] by (simp add: d)
  have b: "rbind (back_while is_whitespace ?cs ?i) (\<lambda>e. rbind (back_while (\<lambda>c. \<not> is_whitespace c) ?cs e) f) = f (length ?w)" for f :: "nat \<Rightarrow> 'c pan"
    using back_word [OF i] by (cases "back_while is_whitespace ?cs ?i") auto
  have z: "?w = [] \<and> u = []" if "?i = 0" using that u by simp
  have du: "drop (length ?w) (take ?i ?cs) = u" by (metis append_eq_conv_conj u)
  show "refines_zip KillWordBack b"
    using i l t d d' z du
    by (cases "?i = 0") (auto simp: refines_zip_def delete_word_back_def b vec_slice_def vec_drain_def wf_buffer_def zip_of_def)
  show "refines_zip GoWordLeft b"
    using i l t d z du
    by (cases "?i = 0") (auto simp: refines_zip_def move_word_left_def b wf_buffer_def zip_of_def)
qed

lemma word_forward_zip:
  assumes "wf_buffer b"
  shows "refines_zip KillWord b" "refines_zip GoWordRight b"
proof -
  let ?i = "eb_cursor b" and ?cs = "eb_chars b"
  have i: "?i \<le> length ?cs" using assms by (simp add: wf_buffer_def)
  have split: "take k (drop ?i ?cs) @ r = drop ?i ?cs" "take ?i ?cs @ take k (drop ?i ?cs) = take (?i + k) ?cs"
    if "drop (?i + k) ?cs = r" for k r
    using that by (metis add.commute append_take_drop_id drop_drop, simp add: take_add)
  note f = fwd_words [OF i, of "\<lambda>c. \<not> is_whitespace c" is_whitespace] and g = fwd_words [OF i, of is_whitespace "\<lambda>c. \<not> is_whitespace c"]
  show "refines_zip KillWord b"
  proof (cases "?i = length ?cs")
    case False
    define e where "e = fwd_while (\<lambda>c. \<not> is_whitespace c) ?cs (fwd_while is_whitespace ?cs ?i)"
    have "drop e ?cs = after_word (drop ?i ?cs)" "e \<le> length ?cs" "?i \<le> e" "e - ?i = length (drop ?i ?cs) - length (after_word (drop ?i ?cs))"
      using f by (auto simp: e_def after_word_def)
    then show ?thesis using i False
      by (auto simp: refines_zip_def delete_word_forward_def Let_def e_def [symmetric] vec_slice_def vec_drain_def wf_buffer_def zip_of_def)
  qed (simp add: refines_zip_def delete_word_forward_def wf_buffer_def zip_of_def after_word_def)
  define e where "e = fwd_while is_whitespace ?cs (fwd_while (\<lambda>c. \<not> is_whitespace c) ?cs ?i)"
  have e: "drop e ?cs = after_gap (drop ?i ?cs)" "e \<le> length ?cs" "?i \<le> e" "e = ?i + (length (drop ?i ?cs) - length (after_gap (drop ?i ?cs)))"
    using g by (auto simp: e_def after_gap_def)
  then show "refines_zip GoWordRight b"
    using split(2) [of "length (drop ?i ?cs) - length (after_gap (drop ?i ?cs))"] 
    by (auto simp: refines_zip_def move_word_right_def Let_def e_def [symmetric] wf_buffer_def zip_of_def)
qed

lemma swap_zip:
  assumes "wf_buffer b"
  shows "refines_zip SwapChars b" "refines_zip SwapCase b"
proof -
  let ?i = "eb_cursor b" and ?cs = "eb_chars b"
  have i: "?i \<le> length ?cs" using assms by (simp add: wf_buffer_def)
  show "refines_zip SwapCase b"
  proof (cases "?i < length ?cs")
    case True
    then have "drop ?i ?cs = ?cs ! ?i # drop (?i + 1) ?cs" by (simp add: Cons_nth_drop_Suc)
    then show ?thesis using True
      by (auto simp: refines_zip_def toggle_case_def Let_def wf_buffer_def zip_of_def flip_case_def drop_update_swap)
  qed (use i in \<open>simp add: refines_zip_def toggle_case_def wf_buffer_def zip_of_def\<close>)
  consider "?i = 0" | "?i = 1" | k where "?i = k + 2" by (metis One_nat_def Suc_1 add_2_eq_Suc' not0_implies_Suc)
  then show "refines_zip SwapChars b"
  proof cases
    case 1
    then show ?thesis by (simp add: refines_zip_def transpose_chars_def wf_buffer_def zip_of_def)
  next
    case 2
    then obtain x r where cs: "?cs = x # r" using i by (cases ?cs) auto
    show ?thesis
    proof (cases r)
      case Nil
      then show ?thesis using 2 cs by (simp add: refines_zip_def transpose_chars_def wf_buffer_def zip_of_def)
    next
      case (Cons y r')
      then show ?thesis using 2 cs by (simp add: refines_zip_def transpose_chars_def vec_swap_def wf_buffer_def zip_of_def numeral_2_eq_2)
    qed
  next
    case (3 k)
    have s: "take ?i ?cs = take k ?cs @ [?cs ! k, ?cs ! (k + 1)]"
      using 3 i by (simp add: take_Suc_conv_app_nth)
    have "?cs = take k ?cs @ [?cs ! k, ?cs ! (k + 1)] @ drop ?i ?cs" using s by (metis append.assoc append_take_drop_id)
    then obtain u a c v where cs: "?cs = u @ [a, c] @ v" and u: "length u = k" using 3 i
      by (metis add_leD1 length_take min.absorb2)
    show ?thesis using 3 cs u
      by (simp add: refines_zip_def transpose_chars_def vec_swap_def wf_buffer_def zip_of_def nth_append list_update_append)
  qed
qed

text \<open>Searching in the text: the first match of a scan upwards and of one downwards.\<close>

lemma find_upt: "find (\<lambda>i. xs ! i = c) [k..<length xs] =
    (if c \<in> set (drop k xs) then Some (k + length (takeWhile (\<lambda>d. d \<noteq> c) (drop k xs))) else None)"
proof (induction "length xs - k" arbitrary: k)
  case (Suc n)
  then have "k < length xs" by simp
  then have "drop k xs = xs ! k # drop (Suc k) xs" "[k..<length xs] = k # [Suc k..<length xs]"
    by (simp_all add: Cons_nth_drop_Suc upt_conv_Cons)
  then show ?case using Suc(1) [of "Suc k"] Suc(2) by auto
qed simp

lemma find_down: "k \<le> length xs \<Longrightarrow> find (\<lambda>i. xs ! i = c) (rev [0..<k]) =
    (if c \<in> set (take k xs) then Some (k - 1 - length (takeWhile (\<lambda>d. d \<noteq> c) (rev (take k xs)))) else None)"
  by (induction k) (auto simp: take_Suc_conv_app_nth)

lemma find_forward_zip:
  assumes "wf_buffer b"
  shows "refines_zip (FindForward c) b" "fst (find_char_forward c b) \<longleftrightarrow> c \<in> set (drop 1 (snd (zip_of b)))"
proof -
  let ?i = "eb_cursor b" and ?cs = "eb_chars b"
  define t where "t = takeWhile (\<lambda>d. d \<noteq> c) (drop (?i + 1) ?cs)"
  have n: "find (\<lambda>i. ?cs ! i = c) [?i + 1..<length ?cs] = (if c \<in> set (drop (?i + 1) ?cs) then Some (?i + 1 + length t) else None)"
    unfolding t_def by (rule find_upt)
  show "fst (find_char_forward c b) \<longleftrightarrow> c \<in> set (drop 1 (snd (zip_of b)))"
    using n by (simp add: find_char_forward_def zip_of_def)
  show "refines_zip (FindForward c) b"
  proof (cases "c \<in> set (drop (?i + 1) ?cs)")
    case True
    then have i: "?i < length ?cs" by (cases "?i < length ?cs") auto
    have d: "drop (?i + 1) ?cs = t @ dropWhile (\<lambda>d. d \<noteq> c) (drop (?i + 1) ?cs)" by (simp add: t_def)
    have l: "?i + 1 + length t \<le> length ?cs" using arg_cong [OF d, of length] i by simp
    have dt: "drop (?i + 1 + length t) ?cs = dropWhile (\<lambda>d. d \<noteq> c) (drop (?i + 1) ?cs)"
      using d by (metis add.commute append_eq_conv_conj drop_drop)
    have "take (length t) (drop (?i + 1) ?cs) = t" using d by (metis append_eq_conv_conj)
    then have "take (?i + 1 + length t) ?cs = take ?i ?cs @ [?cs ! ?i] @ t" using i by (simp only: take_add) (simp add: take_Suc_conv_app_nth)
    moreover have "take (Suc 0) (drop ?i ?cs) = [?cs ! ?i]" using i by (simp add: Cons_nth_drop_Suc [symmetric])
    ultimately show ?thesis using n True l dt by (simp add: refines_zip_def find_char_forward_def wf_buffer_def zip_of_def t_def)
  qed (use n assms in \<open>simp add: refines_zip_def find_char_forward_def wf_buffer_def zip_of_def\<close>)
qed

lemma find_backward_zip:
  assumes "wf_buffer b"
  shows "refines_zip (FindBackward c) b" "\<exists>b'. find_char_backward c b = Ok (c \<in> set (fst (zip_of b)), b')"
proof -
  let ?l = "take (eb_cursor b) (eb_chars b)"
  define t where "t = takeWhile (\<lambda>d. d \<noteq> c) (rev ?l)"
  have i: "eb_cursor b \<le> length (eb_chars b)" using assms by (simp add: wf_buffer_def)
  note n = find_down [OF i, of c, folded t_def]
  show "\<exists>b'. find_char_backward c b = Ok (c \<in> set (fst (zip_of b)), b')"
    using n i by (simp add: find_char_backward_def zip_of_def)
  show "refines_zip (FindBackward c) b"
  proof (cases "c \<in> set ?l")
    case True
    define u where "u = rev (drop 1 (dropWhile (\<lambda>d. d \<noteq> c) (rev ?l)))"
    have "dropWhile (\<lambda>d. d \<noteq> c) (rev ?l) \<noteq> []" using True by simp
    then have "dropWhile (\<lambda>d. d \<noteq> c) (rev ?l) = c # rev u"
      unfolding u_def using hd_dropWhile [of "\<lambda>d. d \<noteq> c" "rev ?l"] by (cases "dropWhile (\<lambda>d. d \<noteq> c) (rev ?l)") auto
    then have "rev ?l = t @ c # rev u" unfolding t_def by (metis takeWhile_dropWhile_id)
    then have l: "?l = u @ c # rev t" by (metis append.assoc append_Cons append_Nil rev.simps(2) rev_append rev_rev_ident)
    have len: "eb_cursor b - 1 - length t = length u" "length u \<le> length (eb_chars b)" using arg_cong [OF l, of length] i by simp_all
    have cs: "eb_chars b = u @ c # rev t @ drop (eb_cursor b) (eb_chars b)" using l by (metis append.assoc append_Cons append_take_drop_id)
    have "take (length u) (eb_chars b) = u" "drop (length u) (eb_chars b) = c # rev t @ drop (eb_cursor b) (eb_chars b)"
      by (subst cs, simp)+
    then show ?thesis using n True len i by (simp add: refines_zip_def find_char_backward_def wf_buffer_def zip_of_def u_def t_def)
  qed (use n i in \<open>simp add: refines_zip_def find_char_backward_def wf_buffer_def zip_of_def\<close>)
qed

lemma word_end_zip:
  assumes "wf_buffer b"
  shows "refines_zip GoWordEnd b"
proof (cases "eb_cursor b < length (eb_chars b)")
  case True
  let ?i = "eb_cursor b" and ?cs = "eb_chars b"
  define e where "e = fwd_while (\<lambda>c. \<not> is_whitespace c) ?cs (fwd_while is_whitespace ?cs (?i + 1))"
  define n where "n = length (drop (?i + 1) ?cs) - length (after_word (drop (?i + 1) ?cs))"
  have i: "?i + 1 \<le> length ?cs" using True by simp
  note f = fwd_words [OF i, of "\<lambda>c. \<not> is_whitespace c" is_whitespace, folded e_def]
  have e: "e = ?i + 1 + n" "e \<le> length ?cs" using f by (simp_all add: n_def after_word_def)
  have "move_word_end b = b\<lparr>eb_cursor := ?i + n\<rparr>" using True e by (simp only: move_word_end_def Let_def e_def [symmetric]) simp
  moreover have "zip_step GoWordEnd (zip_of b) = ([], take (?i + n) ?cs, drop (?i + n) ?cs)"
  proof -
    have "drop 1 (drop ?i ?cs) = drop (?i + 1) ?cs" by simp
    then have "zip_step GoWordEnd (zip_of b) = ([], take ?i ?cs @ take n (drop ?i ?cs), drop n (drop ?i ?cs))"
      by (simp only: zip_of_def zip_step.simps n_def Let_def)
    then show ?thesis by (simp only: take_add drop_drop) (simp add: add.commute)
  qed
  ultimately show ?thesis using e by (simp add: refines_zip_def wf_buffer_def zip_of_def)
qed (use assms in \<open>simp add: refines_zip_def move_word_end_def wf_buffer_def zip_of_def Let_def after_word_def\<close>)

lemma range_zip:
  assumes "wf_buffer b"
  shows "refines_zip (DelRange i j) b"
proof -
  let ?n = "length (eb_chars b)"
  define s where "s = min (min i j) ?n"
  define e where "e = min (max i j) ?n"
  have se: "s \<le> e" "e \<le> ?n" by (simp_all add: s_def e_def)
  have ord: "(if min i ?n \<le> min j ?n then (min i ?n, min j ?n) else (min j ?n, min i ?n)) = (s, e)"
    by (auto simp: s_def e_def min_def max_def)
  have "delete_range i j b = Ok (take (e - s) (drop s (eb_chars b)), b\<lparr>eb_chars := take s (eb_chars b) @ drop e (eb_chars b), eb_cursor := s\<rparr>)"
    unfolding delete_range_def Let_def ord prod.case using se by (simp add: vec_slice_def vec_drain_def)
  moreover have "take (e - s) (drop s (eb_chars b)) = take (max i j - min i j) (drop (min i j) (eb_chars b))"
    by (auto simp: s_def e_def min_def max_def)
  moreover have "take s (eb_chars b) = take (min i j) (eb_chars b)" "drop e (eb_chars b) = drop (max i j) (eb_chars b)"
    by (auto simp: s_def e_def min_def max_def)
  moreover have "wf_buffer (b\<lparr>eb_chars := take s (eb_chars b) @ drop e (eb_chars b), eb_cursor := s\<rparr>)"
    "zip_of (b\<lparr>eb_chars := take s (eb_chars b) @ drop e (eb_chars b), eb_cursor := s\<rparr>) = (take s (eb_chars b), drop e (eb_chars b))"
    using se by (simp_all add: wf_buffer_def zip_of_def)
  ultimately show ?thesis by (simp add: refines_zip_def zip_of_def [of b])
qed

lemma edit_buffer_step:
  assumes "wf_buffer b"
  shows "refines_zip op b"
proof (cases op)
  case (Ins c)
  then show ?thesis using buf_insert_zip [OF assms, of c] by (cases "zip_of b") (auto simp: refines_zip_def)
next
  case (InsStr s)
  then show ?thesis using insert_str_zip [OF assms, of s] by (cases "zip_of b") (auto simp: refines_zip_def)
next
  case Wipe
  then show ?thesis by (cases "zip_of b") (simp add: refines_zip_def buf_clear_def wf_buffer_def, simp add: zip_of_def)
next
  case (Content s)
  then show ?thesis by (cases "zip_of b") (simp add: refines_zip_def set_content_def wf_buffer_def, simp add: zip_of_def)
next
  case (Replace s)
  then show ?thesis by (cases "zip_of b") (simp add: refines_zip_def buf_replace_def wf_buffer_def, simp add: zip_of_def)
next
  case (SetCursor i)
  then show ?thesis using assms by (simp add: refines_zip_def set_cursor_def wf_buffer_def zip_of_def) (simp add: min_def)
qed (use assms in \<open>simp_all add: delete_zip move_zip word_back_zip word_forward_zip swap_zip find_forward_zip find_backward_zip word_end_zip
      range_zip, simp_all add: refines_zip_def set_mark_def clear_mark_def undo_def wf_buffer_def zip_of_def\<close>)

section \<open>Properties\<close>

text \<open>C24. The edit buffer refines a zipper. With the cursor inside the text, every operation that changes the buffer,
  exchanging cursor and mark apart (inserting, deleting characters, words, line ends and ranges, moving by characters and
  words, setting the cursor, finding a character, transposing, changing case, setting and clearing the mark, the empty
  undo, replacing the text), returns without a panic, keeps the cursor inside the text, acts as the operation on the
  pair of the characters before and after the cursor, and returns exactly the characters it removes; a search
  reports whether the character is there. Exchanging cursor and mark puts the cursor at the mark and keeps it
  inside the text exactly when the mark, which deletions do not adjust, still is.\<close>

theorem edit_buffer_refines_zipper:
  assumes "wf_buffer b"
  shows "(\<exists>b'. edit_step op b = Ok (fst (zip_step op (zip_of b)), b') \<and> wf_buffer b' \<and> zip_of b' = snd (zip_step op (zip_of b))) \<and>
    (fst (find_char_forward c b) \<longleftrightarrow> c \<in> set (drop 1 (snd (zip_of b)))) \<and>
    (\<exists>b'. find_char_backward c b = Ok (c \<in> set (fst (zip_of b)), b')) \<and>
    (wf_buffer (exchange_point_and_mark b) \<longleftrightarrow> (case eb_mark b of None \<Rightarrow> True | Some m \<Rightarrow> m \<le> length (eb_chars b))) \<and>
    zip_of (exchange_point_and_mark b) =
      (case eb_mark b of None \<Rightarrow> zip_of b | Some m \<Rightarrow> (take m (eb_chars b), drop m (eb_chars b)))"
proof (intro conjI)
  show "\<exists>b'. edit_step op b = Ok (fst (zip_step op (zip_of b)), b') \<and> wf_buffer b' \<and> zip_of b' = snd (zip_step op (zip_of b))"
    using edit_buffer_step [OF assms, of op] by (simp add: refines_zip_def)
  show "fst (find_char_forward c b) \<longleftrightarrow> c \<in> set (drop 1 (snd (zip_of b)))" "\<exists>b'. find_char_backward c b = Ok (c \<in> set (fst (zip_of b)), b')"
    using find_forward_zip(2) [OF assms] find_backward_zip(2) [OF assms] by blast+
qed (use assms in \<open>auto simp: exchange_point_and_mark_def wf_buffer_def zip_of_def split: option.splits\<close>)

theorem edit_buffer_refines_zipper_witness:
  "\<exists>b'. edit_step KillWordBack (with_content [104, 105, 32, 97, 98, 32]) = Ok ([97, 98, 32], b') \<and> zip_of b' = ([104, 105, 32], [])"
proof -
  have "wf_buffer (with_content [104, 105, 32, 97, 98, 32])" by (simp add: wf_buffer_def with_content_def)
  from edit_buffer_refines_zipper [OF this, of KillWordBack] show ?thesis
    by (auto simp: zip_of_def with_content_def without_word_back_def is_whitespace_def)
qed

end
