(* ===== verification/Rl_Modes.thy ===== *)
theory Rl_Modes
  imports Rl_Buffer
begin

text \<open>
  The editing modes of the line editor: \<^verbatim>\<open>src/crates/sys/readline/src/key.rs\<close> (keys), \<^verbatim>\<open>emacs.rs\<close> and \<^verbatim>\<open>vi.rs\<close>.
  A key is applied to the state of the mode and to the edit buffer. The repeat command of the vi mode calls the
  command handler again, so that handler is a partial function.
\<close>

section \<open>Keys and actions\<close>

datatype key =
    KChar uchar | KCtrl uchar | KAlt uchar | KUp | KDown | KLeft | KRight | KHome | KEnd | KDelete | KBackspace | KTab | KEnter
  | KEscape | KPageUp | KPageDown | KInsert | KUnknown byte

abbreviation K :: "char \<Rightarrow> key" where "K c \<equiv> KChar (of_char c)"
abbreviation C :: "char \<Rightarrow> key" where "C c \<equiv> KCtrl (of_char c)"
abbreviation A :: "char \<Rightarrow> key" where "A c \<equiv> KAlt (of_char c)"

text \<open>\<open>Action\<close> of both modes and \<open>LoopAction\<close> of the editor; the emacs mode does not use \<open>ModeChanged\<close>.\<close>

datatype action =
    Continue | Done | Interrupt | Eof | HistoryPrev | HistoryNext | HistorySearch | Complete | Refresh | ModeChanged

section \<open>Emacs mode\<close>

record emacs_mode =
  em_kill_ring :: "uchar list"
  em_last_was_yank :: bool
  em_arg_prefix :: "int option"

definition EmacsMode_new :: emacs_mode where
  "EmacsMode_new = \<lparr>em_kill_ring = [], em_last_was_yank = False, em_arg_prefix = None\<rparr>"

definition emacs_reset :: "emacs_mode \<Rightarrow> emacs_mode" where
  "emacs_reset e = e\<lparr>em_arg_prefix := None, em_last_was_yank := False\<rparr>"

text \<open>The four kill commands keep what they delete, if anything.\<close>

definition kill :: "(edit_buffer \<Rightarrow> (uchar list \<times> edit_buffer) pan) \<Rightarrow> emacs_mode \<Rightarrow> edit_buffer \<Rightarrow> (action \<times> emacs_mode \<times> edit_buffer) pan" where
  "kill f e b = rbind (f b) (\<lambda>(killed, b). Ok (Continue, if killed \<noteq> [] then e\<lparr>em_kill_ring := killed\<rparr> else e, b))"

definition emacs_handle_key :: "key \<Rightarrow> emacs_mode \<Rightarrow> edit_buffer \<Rightarrow> (action \<times> emacs_mode \<times> edit_buffer) pan" where
  "emacs_handle_key key e0 b =
     (let e = e0\<lparr>em_last_was_yank := False\<rparr> in
      if key = KEnter then Ok (Done, e, b)
      else if key = C (CHR ''c'') then Ok (Interrupt, e, b)
      else if key = C (CHR ''d'') then
        (if eb_chars b = [] then Ok (Eof, e, b) else Ok (Continue, e, snd (delete_char b)))
      else if key = KBackspace \<or> key = C (CHR ''h'') then rbind (backspace b) (\<lambda>(_, b). Ok (Continue, e, b))
      else if key = KDelete then Ok (Continue, e, snd (delete_char b))
      else if key = C (CHR ''k'') then kill delete_to_end e b
      else if key = C (CHR ''u'') then kill delete_to_start e b
      else if key = C (CHR ''w'') then kill delete_word_back e b
      else if key = A (CHR ''d'') then kill delete_word_forward e b
      else if key = C (CHR ''y'') then
        rbind (insert_str (em_kill_ring e) b) (\<lambda>b. Ok (Continue, e\<lparr>em_last_was_yank := True\<rparr>, b))
      else if key = KLeft \<or> key = C (CHR ''b'') then Ok (Continue, e, move_left b)
      else if key = KRight \<or> key = C (CHR ''f'') then Ok (Continue, e, move_right b)
      else if key = KHome \<or> key = C (CHR ''a'') then Ok (Continue, e, move_home b)
      else if key = KEnd \<or> key = C (CHR ''e'') then Ok (Continue, e, move_end b)
      else if key = A (CHR ''b'') then rbind (move_word_left b) (\<lambda>b. Ok (Continue, e, b))
      else if key = A (CHR ''f'') then Ok (Continue, e, move_word_right b)
      else if key = KUp \<or> key = C (CHR ''p'') then Ok (HistoryPrev, e, b)
      else if key = KDown \<or> key = C (CHR ''n'') then Ok (HistoryNext, e, b)
      else if key = C (CHR ''r'') then Ok (HistorySearch, e, b)
      else if key = KTab then Ok (Complete, e, b)
      else if key = C (CHR ''l'') then Ok (Refresh, e, b)
      else if key = C (CHR ''t'') then rbind (transpose_chars b) (\<lambda>b. Ok (Continue, e, b))
      else case key of
          KChar ch \<Rightarrow> rbind (buf_insert ch b) (\<lambda>b. Ok (Continue, e, b))
        | _ \<Rightarrow> Ok (Continue, e, b))"

section \<open>Vi mode\<close>

datatype vi_state = Insert | Command | Replace

record vi_mode =
  vi_state :: vi_state
  vi_repeat_count :: "nat option"
  vi_yank_buffer :: "uchar list"
  vi_last_command :: "key option"
  vi_pending_operator :: "uchar option"

definition ViMode_new :: vi_mode where
  "ViMode_new = \<lparr>vi_state = Insert, vi_repeat_count = None, vi_yank_buffer = [], vi_last_command = None, vi_pending_operator = None\<rparr>"

definition vi_reset :: "vi_mode \<Rightarrow> vi_mode" where
  "vi_reset v = v\<lparr>vi_state := Insert, vi_repeat_count := None, vi_pending_operator := None\<rparr>"

definition enter_command_mode :: "vi_mode \<Rightarrow> vi_mode" where
  "enter_command_mode v = v\<lparr>vi_state := Command\<rparr>"

type_synonym vi_result = "(action \<times> vi_mode \<times> edit_buffer) pan"

definition handle_insert_mode :: "key \<Rightarrow> vi_mode \<Rightarrow> edit_buffer \<Rightarrow> vi_result" where
  "handle_insert_mode key v b =
     (if key = KEscape then Ok (ModeChanged, v\<lparr>vi_state := Command\<rparr>, if eb_cursor b > 0 then move_left b else b)
      else if key = KEnter then Ok (Done, v, b)
      else if key = C (CHR ''c'') then Ok (Interrupt, v, b)
      else if key = C (CHR ''d'') then
        (if eb_chars b = [] then Ok (Eof, v, b) else Ok (Continue, v, snd (delete_char b)))
      else if key = KBackspace \<or> key = C (CHR ''h'') then rbind (backspace b) (\<lambda>(_, b). Ok (Continue, v, b))
      else if key = KDelete then Ok (Continue, v, snd (delete_char b))
      else if key = C (CHR ''w'') then rbind (delete_word_back b) (\<lambda>(_, b). Ok (Continue, v, b))
      else if key = C (CHR ''u'') then rbind (delete_to_start b) (\<lambda>(_, b). Ok (Continue, v, b))
      else if key = KLeft then Ok (Continue, v, move_left b)
      else if key = KRight then Ok (Continue, v, move_right b)
      else if key = KHome then Ok (Continue, v, move_home b)
      else if key = KEnd then Ok (Continue, v, move_end b)
      else if key = KUp then Ok (HistoryPrev, v, b)
      else if key = KDown then Ok (HistoryNext, v, b)
      else if key = KTab then Ok (Complete, v, b)
      else if key = C (CHR ''l'') then Ok (Refresh, v, b)
      else case key of
          KChar ch \<Rightarrow> rbind (buf_insert ch b) (\<lambda>b. Ok (Continue, v, b))
        | _ \<Rightarrow> Ok (Continue, v, b))"

text \<open>\<open>for _ in 0..count\<close>\<close>

definition times :: "nat \<Rightarrow> ('s \<Rightarrow> 's pan) \<Rightarrow> 's \<Rightarrow> 's pan" where
  "times count f s = for_res (\<lambda>_. f) [0..<count] s"

definition del_chars :: "nat \<Rightarrow> edit_buffer \<Rightarrow> uchar list \<times> edit_buffer" where
  "del_chars count b = ((\<lambda>(d, b). let (c, b) = delete_char b in (d @ opt_list c, b)) ^^ count) ([], b)"

definition back_chars :: "nat \<Rightarrow> edit_buffer \<Rightarrow> (uchar list \<times> edit_buffer) pan" where
  "back_chars count b = times count (\<lambda>(d, b). rbind (backspace b) (\<lambda>(c, b). Ok (opt_list c @ d, b))) ([], b)"

definition yanked :: "uchar list \<Rightarrow> vi_mode \<Rightarrow> vi_mode" where
  "yanked d v = (if d \<noteq> [] then v\<lparr>vi_yank_buffer := d\<rparr> else v)"

text \<open>The motion of an operator; \<open>None\<close> for a key that is not a motion.\<close>

definition operator_motion :: "key \<Rightarrow> nat \<Rightarrow> edit_buffer \<Rightarrow> edit_buffer option pan" where
  "operator_motion motion count b =
     (if motion = K (CHR ''w'') \<or> motion = K (CHR ''e'') then Ok (Some ((move_word_right ^^ count) b))
      else if motion = K (CHR ''b'') then rbind (times count move_word_left b) (\<lambda>b. Ok (Some b))
      else if motion = K (CHR ''$'') \<or> motion = KEnd then Ok (Some (move_end b))
      else if motion = K (CHR ''0'') \<or> motion = KHome then Ok (Some (move_home b))
      else if motion = K (CHR ''h'') \<or> motion = KLeft then Ok (Some ((move_left ^^ count) b))
      else if motion = K (CHR ''l'') \<or> motion = KRight then Ok (Some ((move_right ^^ count) b))
      else Ok None)"

definition whole_line :: "uchar \<Rightarrow> vi_mode \<Rightarrow> edit_buffer \<Rightarrow> vi_result" where
  "whole_line op v b =
     (if op = of_char (CHR ''d'')
      then Ok (Continue, v\<lparr>vi_yank_buffer := eb_chars b, vi_last_command := Some (K (CHR ''d''))\<rparr>, buf_clear b)
      else if op = of_char (CHR ''c'')
      then Ok (ModeChanged, v\<lparr>vi_yank_buffer := eb_chars b, vi_state := Insert, vi_last_command := Some (K (CHR ''c''))\<rparr>, buf_clear b)
      else if op = of_char (CHR ''y'') then Ok (Continue, v\<lparr>vi_yank_buffer := eb_chars b\<rparr>, b)
      else Ok (Continue, v, b))"

definition handle_operator_motion :: "uchar \<Rightarrow> key \<Rightarrow> nat \<Rightarrow> vi_mode \<Rightarrow> edit_buffer \<Rightarrow> vi_result" where
  "handle_operator_motion op motion count v0 b0 =
     (let v = v0\<lparr>vi_pending_operator := None\<rparr> in
      if motion = KChar op then whole_line op v b0
      else
        let start = eb_cursor b0 in
        rbind (operator_motion motion count b0) (\<lambda>m. case m of
          None \<Rightarrow> Ok (Continue, v, b0)
        | Some b \<Rightarrow>
            let fin = eb_cursor b; (from, to) = (if start < fin then (start, fin) else (fin, start)) in
            rbind (vec_slice from to (eb_chars b)) (\<lambda>extracted.
            let b = b\<lparr>eb_cursor := min (eb_cursor b) from\<rparr> in
            if op = of_char (CHR ''d'')
            then Ok (Continue, v\<lparr>vi_yank_buffer := extracted, vi_last_command := Some (K (CHR ''d''))\<rparr>, snd (del_chars (to - from) b))
            else if op = of_char (CHR ''c'')
            then Ok (ModeChanged, v\<lparr>vi_yank_buffer := extracted, vi_state := Insert, vi_last_command := Some (K (CHR ''c''))\<rparr>,
                   snd (del_chars (to - from) b))
            else if op = of_char (CHR ''y'')
            then Ok (Continue, v\<lparr>vi_yank_buffer := extracted\<rparr>,
                   b\<lparr>eb_cursor := max (eb_cursor b) (min start (length (eb_chars b)))\<rparr>)
            else Ok (Continue, v, b))))"

text \<open>The command keys after the deletions: operators, put, history, line operations.\<close>

definition command_rest :: "key \<Rightarrow> nat \<Rightarrow> vi_mode \<Rightarrow> edit_buffer \<Rightarrow> vi_result" where
  "command_rest key count v b =
     (let done = v\<lparr>vi_last_command := Some key\<rparr> in
      if key = K (CHR ''d'') then Ok (Continue, v\<lparr>vi_pending_operator := Some (of_char (CHR ''d''))\<rparr>, b)
      else if key = K (CHR ''c'') then Ok (Continue, v\<lparr>vi_pending_operator := Some (of_char (CHR ''c''))\<rparr>, b)
      else if key = K (CHR ''y'') then Ok (Continue, v\<lparr>vi_pending_operator := Some (of_char (CHR ''y''))\<rparr>, b)
      else if key = K (CHR ''Y'') then Ok (Continue, v\<lparr>vi_yank_buffer := eb_chars b\<rparr>, b)
      else if key = K (CHR ''p'') then
        (if vi_yank_buffer v \<noteq> []
         then rbind (times count (insert_str (vi_yank_buffer v)) (if eb_chars b \<noteq> [] then move_right b else b)) (\<lambda>b. Ok (Continue, done, b))
         else Ok (Continue, done, b))
      else if key = K (CHR ''P'') then rbind (times count (insert_str (vi_yank_buffer v)) b) (\<lambda>b. Ok (Continue, done, b))
      else if key = K (CHR ''u'') then Ok (Continue, v, undo b)
      else if key = C (CHR ''r'') then Ok (HistorySearch, v, b)
      else if key = K (CHR ''j'') \<or> key = KDown then Ok (HistoryNext, v, b)
      else if key = K (CHR ''k'') \<or> key = KUp then Ok (HistoryPrev, v, b)
      else if key = K (CHR ''/'') then Ok (HistorySearch, v, b)
      else if key = KEnter then Ok (Done, v, b)
      else if key = C (CHR ''c'') then Ok (Interrupt, v, b)
      else if key = C (CHR ''d'') then Ok (if eb_chars b = [] then Eof else Continue, v, b)
      else if key = C (CHR ''l'') then Ok (Refresh, v, b)
      else if key = K (CHR ''r'') then Ok (Continue, v\<lparr>vi_state := Replace\<rparr>, b)
      else if key = K (CHR 0x7E) then Ok (Continue, done, ((\<lambda>b. move_right (toggle_case b)) ^^ count) b)
      else Ok (Continue, v, b))"

text \<open>The command keys other than the repeat command.\<close>

definition command_step :: "key \<Rightarrow> nat \<Rightarrow> vi_mode \<Rightarrow> edit_buffer \<Rightarrow> vi_result" where
  "command_step key count v b =
     (let done = v\<lparr>vi_last_command := Some key\<rparr>; insert = v\<lparr>vi_state := Insert, vi_last_command := Some key\<rparr> in
      if key = K (CHR ''i'') then Ok (ModeChanged, insert, b)
      else if key = K (CHR ''I'') then Ok (ModeChanged, insert, move_home b)
      else if key = K (CHR ''a'') then Ok (ModeChanged, insert, if eb_chars b \<noteq> [] then move_right b else b)
      else if key = K (CHR ''A'') then Ok (ModeChanged, insert, move_end b)
      else if key = K (CHR ''R'') then Ok (ModeChanged, done\<lparr>vi_state := Replace\<rparr>, b)
      else if key = K (CHR ''h'') \<or> key = KLeft \<or> key = KBackspace then Ok (Continue, v, (move_left ^^ count) b)
      else if key = K (CHR ''l'') \<or> key = KRight \<or> key = K (CHR '' '') then Ok (Continue, v, (move_right ^^ count) b)
      else if key = K (CHR ''0'') \<or> key = KHome then Ok (Continue, v, move_home b)
      else if key = K (CHR ''$'') \<or> key = KEnd then
        Ok (Continue, v, let b = move_end b in if eb_cursor b > 0 \<and> eb_chars b \<noteq> [] then move_left b else b)
      else if key = K (CHR 0x5E) then
        Ok (Continue, v, let b = move_home b in b\<lparr>eb_cursor := fwd_while is_whitespace (eb_chars b) (eb_cursor b)\<rparr>)
      else if key = K (CHR ''w'') then Ok (Continue, v, (move_word_right ^^ count) b)
      else if key = K (CHR ''b'') then rbind (times count move_word_left b) (\<lambda>b. Ok (Continue, v, b))
      else if key = K (CHR ''e'') then
        Ok (Continue, v, ((\<lambda>b. let b = move_word_right b in if eb_cursor b > 0 then move_left b else b) ^^ count) b)
      else if key = K (CHR ''x'') \<or> key = KDelete then
        (let (d, b) = del_chars count b in Ok (Continue, yanked d done, b))
      else if key = K (CHR ''X'') then rbind (back_chars count b) (\<lambda>(d, b). Ok (Continue, yanked d done, b))
      else if key = K (CHR ''D'') then rbind (delete_to_end b) (\<lambda>(d, b). Ok (Continue, yanked d done, b))
      else if key = K (CHR ''C'') then rbind (delete_to_end b) (\<lambda>(d, b). Ok (ModeChanged, yanked d insert, b))
      else if key = K (CHR ''S'') then Ok (ModeChanged, insert\<lparr>vi_yank_buffer := eb_chars b\<rparr>, buf_clear b)
      else if key = K (CHR ''s'') then
        (let (d, b) = del_chars count b in Ok (ModeChanged, yanked d insert, b))
      else command_rest key count v b)"

definition count_digit :: "key \<Rightarrow> nat option" where
  "count_digit key = (case key of KChar ch \<Rightarrow> if 49 \<le> ch \<and> ch \<le> 57 then Some (ch - 48) else None | _ \<Rightarrow> None)"

partial_function (option) handle_command_mode :: "key \<Rightarrow> vi_mode \<Rightarrow> edit_buffer \<Rightarrow> vi_result option" where
  "handle_command_mode key v b =
     (case count_digit key of
        Some digit \<Rightarrow>
          Some (Ok (Continue, v\<lparr>vi_repeat_count := Some (((case vi_repeat_count v of Some n \<Rightarrow> n | None \<Rightarrow> 0) * 10 + digit) mod 2 ^ 64)\<rparr>, b))
      | None \<Rightarrow>
          (let count = (case vi_repeat_count v of Some n \<Rightarrow> n | None \<Rightarrow> 1); v = v\<lparr>vi_repeat_count := None\<rparr> in
           case vi_pending_operator v of
             Some op \<Rightarrow> Some (handle_operator_motion op key count v b)
           | None \<Rightarrow>
               if key = K (CHR ''.'')
               then (case vi_last_command v of
                       Some again \<Rightarrow> handle_command_mode again v b
                     | None \<Rightarrow> Some (Ok (Continue, v, b)))
               else Some (command_step key count v b)))"

definition handle_replace_mode :: "key \<Rightarrow> vi_mode \<Rightarrow> edit_buffer \<Rightarrow> vi_result" where
  "handle_replace_mode key v b =
     (case key of
        KEscape \<Rightarrow> Ok (ModeChanged, v\<lparr>vi_state := Command\<rparr>, b)
      | KChar ch \<Rightarrow> rbind (buf_insert ch (snd (delete_char b))) (\<lambda>b. Ok (Continue, v, b))
      | KBackspace \<Rightarrow> Ok (Continue, v, move_left b)
      | KEnter \<Rightarrow> Ok (Done, v, b)
      | _ \<Rightarrow> Ok (Continue, v, b))"

definition vi_handle_key :: "key \<Rightarrow> vi_mode \<Rightarrow> edit_buffer \<Rightarrow> vi_result option" where
  "vi_handle_key key v b =
     (case vi_state v of
        Insert \<Rightarrow> Some (handle_insert_mode key v b)
      | Command \<Rightarrow> handle_command_mode key v b
      | Replace \<Rightarrow> Some (handle_replace_mode key v b))"

section \<open>The invariant\<close>

text \<open>Every key returns, with the cursor inside the text.\<close>

lemma zip_returns:
  assumes "wf_buffer b"
  shows "returns (\<lambda>(_, b). wf_buffer b) (edit_step op b)"
  using edit_buffer_step [OF assms, of op] by (auto simp: returns_def refines_zip_def)

lemma buffer_ops_wf:
  assumes "wf_buffer b"
  shows "wf_buffer (move_left b)" "wf_buffer (move_right b)" "wf_buffer (move_home b)" "wf_buffer (move_end b)" "wf_buffer (move_word_right b)"
    "wf_buffer (toggle_case b)" "wf_buffer (buf_clear b)" "wf_buffer (set_content s b)" "wf_buffer (snd (delete_char b))"
    "wf_buffer (b\<lparr>eb_cursor := min i (eb_cursor b)\<rparr>)" "wf_buffer (undo b)"
  using zip_returns [OF assms, of GoLeft] zip_returns [OF assms, of GoRight] zip_returns [OF assms, of GoHome] zip_returns [OF assms, of GoEnd]
    zip_returns [OF assms, of GoWordRight] zip_returns [OF assms, of SwapCase] zip_returns [OF assms, of Wipe] zip_returns [OF assms, of "Content s"]
    zip_returns [OF assms, of DelChar] assms
  by (auto simp: returns_def undo_def wf_buffer_def split: prod.splits)

lemma buffer_ops_returns:
  assumes "wf_buffer b"
  shows "returns (\<lambda>(_, b). wf_buffer b) (backspace b)" "returns (\<lambda>(_, b). wf_buffer b) (delete_to_end b)"
    "returns (\<lambda>(_, b). wf_buffer b) (delete_to_start b)" "returns (\<lambda>(_, b). wf_buffer b) (delete_word_back b)"
    "returns (\<lambda>(_, b). wf_buffer b) (delete_word_forward b)" "returns wf_buffer (buf_insert c b)" "returns wf_buffer (insert_str s b)"
    "returns wf_buffer (move_word_left b)" "returns wf_buffer (transpose_chars b)"
  using zip_returns [OF assms, of DelBack] zip_returns [OF assms, of KillEnd] zip_returns [OF assms, of KillStart]
    zip_returns [OF assms, of KillWordBack] zip_returns [OF assms, of KillWord] zip_returns [OF assms, of "Ins c"] zip_returns [OF assms, of "InsStr s"]
    zip_returns [OF assms, of GoWordLeft] zip_returns [OF assms, of SwapChars]
  by (auto simp: returns_def)

lemma bind_buffer:
  "returns (\<lambda>(_, b). wf_buffer b) m \<Longrightarrow> returns (\<lambda>(_, _, b). wf_buffer b) (rbind m (\<lambda>(d, b). Ok (x d, y d, b)))"
  "returns wf_buffer m' \<Longrightarrow> returns (\<lambda>(_, _, b). wf_buffer b) (rbind m' (\<lambda>b. Ok (x', y', b)))"
  by (rule returns_bind, assumption, auto)+

lemma emacs_handle_key_returns:
  assumes "wf_buffer b"
  shows "returns (\<lambda>(_, _, b). wf_buffer b) (emacs_handle_key key e b)"
  unfolding emacs_handle_key_def kill_def Let_def
  using buffer_ops_wf [OF assms] assms
  by (auto intro!: bind_buffer buffer_ops_returns [OF assms] split: key.split)

section \<open>The vi mode returns\<close>

lemma funpow_wf: "(\<And>b. wf_buffer b \<Longrightarrow> wf_buffer (f b)) \<Longrightarrow> wf_buffer b \<Longrightarrow> wf_buffer ((f ^^ n) b)"
  by (induction n) auto

lemma times_returns: "(\<And>s. I s \<Longrightarrow> returns I (f s)) \<Longrightarrow> I s \<Longrightarrow> returns I (times n f s)"
  unfolding times_def by (rule returns_for) auto

lemma del_chars_wf: "wf_buffer b \<Longrightarrow> wf_buffer (snd (del_chars n b))"
proof -
  define f where "f = (\<lambda>(d, b). let (c, b) = delete_char b in (d @ opt_list c, b))"
  have f: "wf_buffer (snd (f s))" if "wf_buffer (snd s)" for s
    using buffer_ops_wf(9) [OF that] by (auto simp: f_def Let_def split: prod.splits)
  assume "wf_buffer b"
  then have "wf_buffer (snd ((f ^^ n) ([], b)))" by (induction n) (auto intro: f)
  then show ?thesis by (simp add: del_chars_def f_def)
qed

lemma back_chars_returns: "wf_buffer b \<Longrightarrow> returns (\<lambda>(_, b). wf_buffer b) (back_chars n b)"
  unfolding back_chars_def
proof (rule times_returns)
  fix s :: "uchar list \<times> edit_buffer"
  assume "case s of (_, b) \<Rightarrow> wf_buffer b"
  then show "returns (\<lambda>(_, b). wf_buffer b) (case s of (d, b) \<Rightarrow> rbind (backspace b) (\<lambda>(c, b). Ok (opt_list c @ d, b)))"
    using buffer_ops_returns(1) by (auto intro!: returns_bind)
qed simp

text \<open>A motion moves the cursor only.\<close>

lemma motion_chars:
  "eb_chars (move_left b) = eb_chars b" "eb_chars (move_right b) = eb_chars b" "eb_chars (move_home b) = eb_chars b"
  "eb_chars (move_end b) = eb_chars b" "eb_chars (move_word_right b) = eb_chars b"
  by (simp_all add: move_left_def move_right_def move_home_def move_end_def move_word_right_def Let_def)

lemma operator_motion_returns:
  assumes "wf_buffer b"
  shows "returns (\<lambda>m. \<forall>b'. m = Some b' \<longrightarrow> wf_buffer b' \<and> eb_chars b' = eb_chars b) (operator_motion motion count b)"
proof -
  let ?I = "\<lambda>b'. wf_buffer b' \<and> eb_chars b' = eb_chars b"
  have fp: "?I ((f ^^ n) b)" if "\<And>b. wf_buffer b \<Longrightarrow> wf_buffer (f b)" "\<And>b. eb_chars (f b) = eb_chars b" for f n
    using assms that by (induction n) auto
  have "returns ?I (move_word_left b')" if "?I b'" for b'
    using buffer_ops_returns(8) [of b'] that by (auto simp: returns_def move_word_left_def split: if_splits)
  then have wl: "returns ?I (times count move_word_left b)" by (rule times_returns) (simp_all add: assms)
  show ?thesis unfolding operator_motion_def
    using wl fp [OF buffer_ops_wf(1) motion_chars(1)] fp [OF buffer_ops_wf(2) motion_chars(2)] fp [OF buffer_ops_wf(5) motion_chars(5)]
      buffer_ops_wf(3,4) [OF assms] motion_chars
    by (auto intro!: returns_bind [where I = ?I])
qed

lemma del_chars_eq:
  "eb_cursor b + n \<le> length (eb_chars b) \<Longrightarrow>
    del_chars n b = (take n (drop (eb_cursor b) (eb_chars b)), b\<lparr>eb_chars := take (eb_cursor b) (eb_chars b) @ drop (eb_cursor b + n) (eb_chars b)\<rparr>)"
proof (induction n)
  case 0
  then show ?case by (simp add: del_chars_def)
next
  case (Suc n)
  let ?b = "b\<lparr>eb_chars := take (eb_cursor b) (eb_chars b) @ drop (eb_cursor b + n) (eb_chars b)\<rparr>"
  have n: "eb_cursor b + n < length (eb_chars b)" using Suc.prems by simp
  have d: "drop (eb_cursor b + n) (eb_chars b) = eb_chars b ! (eb_cursor b + n) # drop (eb_cursor b + Suc n) (eb_chars b)"
    using n by (simp add: Cons_nth_drop_Suc)
  have "delete_char ?b = (Some (eb_chars b ! (eb_cursor b + n)), b\<lparr>eb_chars := take (eb_cursor b) (eb_chars b) @ drop (eb_cursor b + Suc n) (eb_chars b)\<rparr>)"
    using n by (simp add: delete_char_def d nth_append)
  moreover have "take (Suc n) (drop (eb_cursor b) (eb_chars b)) = take n (drop (eb_cursor b) (eb_chars b)) @ [eb_chars b ! (eb_cursor b + n)]"
    using n by (simp add: take_Suc_conv_app_nth)
  ultimately show ?case using Suc by (simp add: del_chars_def opt_list_def)
qed

text \<open>What an operator does with the range of its motion.\<close>

lemma operator_range:
  assumes m: "operator_motion motion count b = Ok (Some b')" and ne: "motion \<noteq> KChar op" and wf: "wf_buffer b"
  defines "i \<equiv> min (eb_cursor b) (eb_cursor b')" and "j \<equiv> max (eb_cursor b) (eb_cursor b')"
  shows "wf_buffer b'" "eb_chars b' = eb_chars b" "i \<le> j" "j \<le> length (eb_chars b)"
    "handle_operator_motion op motion count v b =
      (let v = v\<lparr>vi_pending_operator := None\<rparr>; ex = take (j - i) (drop i (eb_chars b)); b1 = b'\<lparr>eb_cursor := i, eb_chars := take i (eb_chars b) @ drop j (eb_chars b)\<rparr> in
       if op = 100 then Ok (Continue, v\<lparr>vi_yank_buffer := ex, vi_last_command := Some (KChar 100)\<rparr>, b1)
       else if op = 99 then Ok (ModeChanged, v\<lparr>vi_yank_buffer := ex, vi_state := Insert, vi_last_command := Some (KChar 99)\<rparr>, b1)
       else if op = 121 then Ok (Continue, v\<lparr>vi_yank_buffer := ex\<rparr>, b'\<lparr>eb_cursor := max i (eb_cursor b)\<rparr>)
       else Ok (Continue, v, b'\<lparr>eb_cursor := i\<rparr>))"
proof -
  have b': "wf_buffer b'" "eb_chars b' = eb_chars b" using operator_motion_returns [OF wf, of motion count] m by auto
  then show "wf_buffer b'" "eb_chars b' = eb_chars b" by auto
  show l: "i \<le> j" "j \<le> length (eb_chars b)" using wf b' by (auto simp: i_def j_def wf_buffer_def)
  have ft: "(if eb_cursor b < eb_cursor b' then (eb_cursor b, eb_cursor b') else (eb_cursor b', eb_cursor b)) = (i, j)" by (auto simp: i_def j_def)
  have c: "min (eb_cursor b') i = i" "min (eb_cursor b) (length (eb_chars b)) = eb_cursor b" using wf by (auto simp: i_def wf_buffer_def)
  have d: "snd (del_chars (j - i) (b'\<lparr>eb_cursor := i\<rparr>)) = b'\<lparr>eb_cursor := i, eb_chars := take i (eb_chars b) @ drop j (eb_chars b)\<rparr>"
    using del_chars_eq [of "b'\<lparr>eb_cursor := i\<rparr>" "j - i"] l b'(2) by simp
  show "handle_operator_motion op motion count v b =
      (let v = v\<lparr>vi_pending_operator := None\<rparr>; ex = take (j - i) (drop i (eb_chars b)); b1 = b'\<lparr>eb_cursor := i, eb_chars := take i (eb_chars b) @ drop j (eb_chars b)\<rparr> in
       if op = 100 then Ok (Continue, v\<lparr>vi_yank_buffer := ex, vi_last_command := Some (KChar 100)\<rparr>, b1)
       else if op = 99 then Ok (ModeChanged, v\<lparr>vi_yank_buffer := ex, vi_state := Insert, vi_last_command := Some (KChar 99)\<rparr>, b1)
       else if op = 121 then Ok (Continue, v\<lparr>vi_yank_buffer := ex\<rparr>, b'\<lparr>eb_cursor := max i (eb_cursor b)\<rparr>)
       else Ok (Continue, v, b'\<lparr>eb_cursor := i\<rparr>))"
    using ne m b'(2) l by (simp add: handle_operator_motion_def Let_def ft c d vec_slice_def)
qed

lemma handle_operator_motion_returns:
  assumes "wf_buffer b"
  shows "returns (\<lambda>(_, v', b). wf_buffer b \<and> (vi_last_command v' = vi_last_command v \<or> vi_last_command v' \<in> {Some (KChar 100), Some (KChar 99)}))
    (handle_operator_motion op motion count v b)"
proof (cases "motion = KChar op")
  case True
  then show ?thesis using assms buffer_ops_wf(7) [OF assms] by (simp add: handle_operator_motion_def whole_line_def Let_def)
next
  case False
  obtain m where m: "operator_motion motion count b = Ok m" using operator_motion_returns [OF assms, of motion count] by (auto simp: returns_def)
  show ?thesis
  proof (cases m)
    case None
    then show ?thesis using False m(1) assms by (simp add: handle_operator_motion_def)
  next
    case (Some b')
    note r = operator_range [OF m [unfolded Some] False assms]
    then show ?thesis using assms by (auto simp: r(5) Let_def wf_buffer_def min_def max_def)
  qed
qed

text \<open>The repeat command is never the command it repeats.\<close>

definition vi_ok :: "vi_mode \<times> edit_buffer \<Rightarrow> bool" where
  "vi_ok = (\<lambda>(v, b). wf_buffer b \<and> vi_last_command v \<noteq> Some (K (CHR ''.'')))"

lemma vi_ok_update [simp]:
  "vi_ok (v\<lparr>vi_state := s\<rparr>, b) = vi_ok (v, b)" "vi_ok (v\<lparr>vi_repeat_count := n\<rparr>, b) = vi_ok (v, b)"
  "vi_ok (v\<lparr>vi_pending_operator := p\<rparr>, b) = vi_ok (v, b)" "vi_ok (v\<lparr>vi_yank_buffer := y\<rparr>, b) = vi_ok (v, b)"
  "vi_ok (yanked d v, b) = vi_ok (v, b)"
  by (simp_all add: vi_ok_def yanked_def)

lemma vi_ok_last [simp]: "vi_ok (v\<lparr>vi_last_command := Some k\<rparr>, b) \<longleftrightarrow> wf_buffer b \<and> k \<noteq> K (CHR ''.'')"
  by (simp add: vi_ok_def)

lemma bind_vi:
  "returns (\<lambda>(_, b). wf_buffer b) m \<Longrightarrow> (\<And>d b. wf_buffer b \<Longrightarrow> vi_ok (y d, b)) \<Longrightarrow> returns (\<lambda>(_, s). vi_ok s) (rbind m (\<lambda>(d, b). Ok (x d, y d, b)))"
  "returns wf_buffer m' \<Longrightarrow> (\<And>b. wf_buffer b \<Longrightarrow> vi_ok (y', b)) \<Longrightarrow> returns (\<lambda>(_, s). vi_ok s) (rbind m' (\<lambda>b. Ok (x', y', b)))"
  by (rule returns_bind, assumption, auto)+

lemma handle_insert_mode_returns:
  assumes "vi_ok (v, b)"
  shows "returns (\<lambda>(_, s). vi_ok s) (handle_insert_mode key v b)"
proof -
  have wf: "wf_buffer b" and v: "\<And>b. wf_buffer b \<Longrightarrow> vi_ok (v, b)" using assms by (auto simp: vi_ok_def)
  show ?thesis unfolding handle_insert_mode_def
    using buffer_ops_wf [OF wf] wf v by (auto intro!: bind_vi buffer_ops_returns [OF wf] split: key.split)
qed

lemma handle_replace_mode_returns:
  assumes "vi_ok (v, b)"
  shows "returns (\<lambda>(_, s). vi_ok s) (handle_replace_mode key v b)"
proof -
  have wf: "wf_buffer b" and v: "\<And>b. wf_buffer b \<Longrightarrow> vi_ok (v, b)" using assms by (auto simp: vi_ok_def)
  show ?thesis unfolding handle_replace_mode_def
    using buffer_ops_wf [OF wf] wf v by (auto intro!: bind_vi buffer_ops_returns [OF buffer_ops_wf(9) [OF wf]] split: key.split)
qed

lemma command_moves_wf:
  assumes "wf_buffer b"
  shows "wf_buffer ((move_left ^^ n) b)" "wf_buffer ((move_right ^^ n) b)" "wf_buffer ((move_word_right ^^ n) b)"
    "wf_buffer (((\<lambda>b. let b = move_word_right b in if eb_cursor b > 0 then move_left b else b) ^^ n) b)"
    "wf_buffer (((\<lambda>b. move_right (toggle_case b)) ^^ n) b)"
    "wf_buffer (let b = move_end b in if eb_cursor b > 0 \<and> eb_chars b \<noteq> [] then move_left b else b)"
    "wf_buffer (let b = move_home b in b\<lparr>eb_cursor := fwd_while is_whitespace (eb_chars b) (eb_cursor b)\<rparr>)"
proof -
  show "wf_buffer (let b = move_home b in b\<lparr>eb_cursor := fwd_while is_whitespace (eb_chars b) (eb_cursor b)\<rparr>)"
    using fwd_while_eq [of 0 "eb_chars b" is_whitespace] by (simp add: move_home_def wf_buffer_def length_takeWhile_le)
qed (use assms in \<open>auto intro!: funpow_wf buffer_ops_wf simp: Let_def\<close>)

lemma command_step_returns:
  assumes "vi_ok (v, b)" and key: "key \<noteq> K (CHR ''.'')"
  shows "returns (\<lambda>(_, s). vi_ok s) (command_step key count v b)"
proof -
  have wf: "wf_buffer b" and v: "\<And>b. wf_buffer b \<Longrightarrow> vi_ok (v, b)" using assms by (auto simp: vi_ok_def)
  have w: "wf_buffer (if c then f b else b)" if "wf_buffer (f b)" for c f using that wf by simp
  have wl: "returns wf_buffer (times count move_word_left b)" by (rule times_returns) (auto intro: buffer_ops_returns wf)
  have ins: "returns wf_buffer (times count (insert_str s) b')" if "wf_buffer b'" for s b'
    by (rule times_returns) (auto intro: buffer_ops_returns that)
  show ?thesis unfolding command_step_def command_rest_def
    using buffer_ops_wf [OF wf] command_moves_wf(1-5) [OF wf, of count] command_moves_wf(6,7) [OF wf] wf v key del_chars_wf [OF wf, of count]
    by (auto intro!: bind_vi buffer_ops_returns [OF wf] wl ins back_chars_returns simp: Let_def split: prod.split)
qed

text \<open>The handler of a command returns: the repeat command runs one other command.\<close>

lemma handle_command_mode_not_repeat:
  assumes "vi_ok (v, b)" and "key \<noteq> K (CHR ''.'')"
  shows "\<exists>r. handle_command_mode key v b = Some r \<and> returns (\<lambda>(_, s). vi_ok s) r"
proof -
  have wf: "wf_buffer b" using assms by (simp add: vi_ok_def)
  have "returns (\<lambda>(_, s). vi_ok s) (handle_operator_motion op key n w b)" if "vi_last_command w = vi_last_command v" for op n w
    using handle_operator_motion_returns [OF wf, of w op key n] assms that by (auto simp: returns_def vi_ok_def)
  then show ?thesis
    using assms by (subst handle_command_mode.simps) (auto simp: Let_def split: option.split intro!: command_step_returns)
qed

lemma handle_command_mode_returns:
  assumes "vi_ok (v, b)"
  shows "\<exists>r. handle_command_mode key v b = Some r \<and> returns (\<lambda>(_, s). vi_ok s) r"
proof (cases "key = K (CHR ''.'') \<and> vi_pending_operator v = None \<and> vi_last_command v \<noteq> None")
  case True
  then obtain again where again: "vi_last_command v = Some again" by auto
  then have "handle_command_mode key v b = handle_command_mode again (v\<lparr>vi_repeat_count := None\<rparr>) b"
    using True by (subst handle_command_mode.simps) (simp add: count_digit_def Let_def)
  moreover have "again \<noteq> K (CHR ''.'')" using assms again by (auto simp: vi_ok_def)
  ultimately show ?thesis using handle_command_mode_not_repeat [of "v\<lparr>vi_repeat_count := None\<rparr>" b again] assms by simp
next
  case False
  have wf: "wf_buffer b" using assms by (simp add: vi_ok_def)
  have "returns (\<lambda>(_, s). vi_ok s) (handle_operator_motion op key n w b)" if "vi_last_command w = vi_last_command v" for op n w
    using handle_operator_motion_returns [OF wf, of w op key n] assms that by (auto simp: returns_def vi_ok_def)
  then show ?thesis using assms False
    by (subst handle_command_mode.simps) (auto simp: Let_def split: option.split intro!: command_step_returns)
qed

lemma vi_handle_key_returns:
  assumes "vi_ok (v, b)"
  shows "\<exists>r. vi_handle_key key v b = Some r \<and> returns (\<lambda>(_, s). vi_ok s) r"
  using handle_insert_mode_returns [OF assms, of key] handle_command_mode_returns [OF assms, of key] handle_replace_mode_returns [OF assms, of key]
  by (simp add: vi_handle_key_def split: vi_state.split)

section \<open>Kill and yank\<close>

definition emacs_typed :: "key list \<Rightarrow> emacs_mode \<times> edit_buffer \<Rightarrow> (emacs_mode \<times> edit_buffer) pan" where
  "emacs_typed = for_res (\<lambda>key (e, b). rbind (emacs_handle_key key e b) (\<lambda>(_, e, b). Ok (e, b)))"

fun vi_typed :: "key list \<Rightarrow> vi_mode \<times> edit_buffer \<Rightarrow> (vi_mode \<times> edit_buffer) pan option" where
  "vi_typed [] s = Some (Ok s)"
| "vi_typed (key # keys) (v, b) =
     (case vi_handle_key key v b of None \<Rightarrow> None | Some (Ok (_, s)) \<Rightarrow> vi_typed keys s | Some _ \<Rightarrow> Some Panic)"

text \<open>The kill keys of the emacs mode and the motion keys of a vi operator.\<close>

definition kill_op :: "key \<Rightarrow> edit_op option" where
  "kill_op = [C (CHR ''k'') \<mapsto> KillEnd, C (CHR ''u'') \<mapsto> KillStart, C (CHR ''w'') \<mapsto> KillWordBack, A (CHR ''d'') \<mapsto> KillWord]"

definition motion_keys :: "key list" where
  "motion_keys = [K (CHR ''w''), K (CHR ''e''), K (CHR ''b''), K (CHR ''$''), K (CHR ''0''), K (CHR ''h''), K (CHR ''l''), KEnd, KHome, KLeft, KRight]"

lemma zip_chars: "eb_chars b = fst (zip_of b) @ snd (zip_of b)"
  by (simp add: zip_of_def)

lemma kill_splits:
  assumes "kill_op key = Some op"
  shows "\<exists>d l' r'. zip_step op (l, r) = (d, l', r') \<and> l @ r = l' @ d @ r'"
proof -
  obtain u where "l = without_word_back l @ u" using without_word_back_prefix by blast
  then have l: "without_word_back l @ drop (length (without_word_back l)) l @ r = l @ r" by (metis append_assoc append_eq_conv_conj)
  obtain w where w: "r = w @ after_word r" using after_word_suffix by blast
  then have "take (length r - length (after_word r)) r = w" by (metis add_diff_cancel_right' append_eq_conv_conj length_append)
  then have r: "take (length r - length (after_word r)) r @ after_word r = r" using w by simp
  have "op \<in> {KillEnd, KillStart, KillWordBack, KillWord}" using assms by (auto simp: kill_op_def split: if_splits)
  then show ?thesis using l r by auto
qed

lemma emacs_kill:
  assumes "kill_op key = Some op"
  shows "emacs_handle_key key e b = kill (edit_step op) (e\<lparr>em_last_was_yank := False\<rparr>) b"
  using assms by (auto simp: kill_op_def emacs_handle_key_def kill_def Let_def split: if_splits)

lemma emacs_kill_yank:
  assumes wf: "wf_buffer b" and op: "kill_op key = Some op" and d: "edit_step op b = Ok (d, b1)" "d \<noteq> []"
  shows "\<exists>e' b'. emacs_typed [key, C (CHR ''y'')] (e, b) = Ok (e', b') \<and> eb_chars b' = eb_chars b \<and> em_kill_ring e' = d"
proof -
  obtain l r where z: "zip_of b = (l, r)" by fastforce
  from kill_splits [OF op, of l r] obtain d' l' r' where s: "zip_step op (l, r) = (d', l', r')" "l @ r = l' @ d' @ r'" by blast
  with edit_buffer_step [OF wf, of op] d z have b1: "d' = d" "wf_buffer b1" "zip_of b1 = (l', r')" by (auto simp: refines_zip_def)
  obtain b2 where b2: "insert_str d b1 = Ok b2" "zip_of b2 = (l' @ d, r')" using insert_str_zip [OF b1(2), of d] b1(3) by auto
  have "eb_chars b2 = eb_chars b" unfolding zip_chars using b2(2) z s(2) b1(1) by simp
  moreover have "emacs_handle_key key e b = Ok (Continue, e\<lparr>em_last_was_yank := False, em_kill_ring := d\<rparr>, b1)"
    using d by (simp add: emacs_kill [OF op] kill_def)
  moreover have "emacs_handle_key (C (CHR ''y'')) e1 b1 = Ok (Continue, e1\<lparr>em_last_was_yank := True\<rparr>, b2)" if "em_kill_ring e1 = d" for e1
    using that b2(1) by (simp add: emacs_handle_key_def)
  ultimately show ?thesis by (simp add: emacs_typed_def)
qed

lemma typed_digits:
  assumes "vi_state v = Command" and "set ds \<subseteq> {49..57}"
  shows "\<exists>n. vi_typed (map KChar ds @ keys) (v, b) = vi_typed keys (v\<lparr>vi_repeat_count := n\<rparr>, b)"
  using assms
proof (induction ds arbitrary: v)
  case Nil
  show ?case by (rule exI [of _ "vi_repeat_count v"]) simp
next
  case (Cons d ds)
  then have "\<exists>n. vi_typed (map KChar (d # ds) @ keys) (v, b) = vi_typed (map KChar ds @ keys) (v\<lparr>vi_repeat_count := n\<rparr>, b)"
    by (simp add: vi_handle_key_def handle_command_mode.simps [of "KChar d"] count_digit_def) blast
  then show ?case using Cons.IH [of "v\<lparr>vi_repeat_count := n\<rparr>" for n] Cons.prems by auto
qed

lemma motion_moves:
  assumes "wf_buffer b" and "motion \<in> set motion_keys"
  shows "\<exists>b'. operator_motion motion count b = Ok (Some b')"
  using operator_motion_returns [OF assms(1), of motion count] assms(2)
  by (auto simp: returns_def motion_keys_def operator_motion_def)

lemma vi_delete_put:
  assumes wf: "wf_buffer b" and v: "vi_state v = Command" "vi_pending_operator v = None"
    and ds: "set ds \<subseteq> {49..57}" and motion: "motion \<in> set motion_keys"
  shows "\<exists>v' b'. vi_typed (K (CHR ''d'') # map KChar ds @ [motion, K (CHR ''P'')]) (v, b) = Some (Ok (v', b')) \<and> eb_chars b' = eb_chars b"
proof -
  define w where "w = v\<lparr>vi_repeat_count := None, vi_pending_operator := Some 100\<rparr>"
  have "vi_handle_key (K (CHR ''d'')) v b = Some (Ok (Continue, w, b))"
    using v by (simp add: vi_handle_key_def handle_command_mode.simps count_digit_def command_step_def command_rest_def w_def Let_def)
  moreover obtain n where "vi_typed (map KChar ds @ [motion, K (CHR ''P'')]) (w, b) = vi_typed [motion, K (CHR ''P'')] (w\<lparr>vi_repeat_count := n\<rparr>, b)"
    using typed_digits [of w ds "[motion, K (CHR ''P'')]" b] v(1) ds by (auto simp: w_def)
  ultimately have 1: "vi_typed (K (CHR ''d'') # map KChar ds @ [motion, K (CHR ''P'')]) (v, b) = vi_typed [motion, K (CHR ''P'')] (w\<lparr>vi_repeat_count := n\<rparr>, b)"
    by simp
  define count where "count = (case n of Some n \<Rightarrow> n | None \<Rightarrow> 1)"
  obtain b' where b': "operator_motion motion count b = Ok (Some b')" using motion_moves [OF wf motion] by blast
  have ne: "motion \<noteq> KChar 100" "count_digit motion = None" using motion by (auto simp: motion_keys_def count_digit_def)
  note r = operator_range [OF b' ne(1) wf]
  define i j where "i = min (eb_cursor b) (eb_cursor b')" and "j = max (eb_cursor b) (eb_cursor b')"
  define b1 where "b1 = b'\<lparr>eb_cursor := i, eb_chars := take i (eb_chars b) @ drop j (eb_chars b)\<rparr>"
  define d where "d = take (j - i) (drop i (eb_chars b))"
  define w1 where "w1 = v\<lparr>vi_repeat_count := None, vi_pending_operator := None, vi_yank_buffer := d, vi_last_command := Some (KChar 100)\<rparr>"
  have 2: "vi_handle_key motion (w\<lparr>vi_repeat_count := n\<rparr>) b = Some (Ok (Continue, w1, b1))"
    using v ne r(5) by (simp add: vi_handle_key_def handle_command_mode.simps [of motion] w_def Let_def w1_def b1_def d_def i_def j_def flip: count_def)
  have b1: "wf_buffer b1" "zip_of b1 = (take i (eb_chars b), drop j (eb_chars b))"
    using r(3,4) by (auto simp: wf_buffer_def zip_of_def b1_def i_def j_def)
  obtain b2 where b2: "insert_str d b1 = Ok b2" "zip_of b2 = (take i (eb_chars b) @ d, drop j (eb_chars b))"
    using insert_str_zip [OF b1(1), of d] b1(2) by auto
  have 3: "vi_handle_key (K (CHR ''P'')) w1 b1 = Some (Ok (Continue, w1\<lparr>vi_last_command := Some (K (CHR ''P''))\<rparr>, b2))"
    using v b2(1) by (simp add: vi_handle_key_def handle_command_mode.simps count_digit_def command_step_def command_rest_def w1_def Let_def times_def)
  have "take i (eb_chars b) @ d = take j (eb_chars b)" using r(3) by (simp add: d_def i_def j_def flip: take_add)
  then have "eb_chars b2 = eb_chars b" using b2(2) by (simp add: zip_chars [of b2])
  then show ?thesis using 1 2 3 by simp
qed

section \<open>Properties\<close>

text \<open>C27. What is killed can be put back. In emacs mode, killing to the end or the start of the line, or the word
  before or after the cursor, and then yanking, gives back the text, whenever the kill removed something. In vi
  mode, deleting over a motion (with any count typed after the operator) and putting the text back before the cursor
  with \<open>P\<close> gives back the text, also when the motion went backwards or did not move.\<close>

theorem kill_and_yank_restore:
  assumes "wf_buffer b"
  shows "(\<forall>key op d b1 e. kill_op key = Some op \<and> edit_step op b = Ok (d, b1) \<and> d \<noteq> [] \<longrightarrow>
      (\<exists>e' b'. emacs_typed [key, C (CHR ''y'')] (e, b) = Ok (e', b') \<and> eb_chars b' = eb_chars b \<and> em_kill_ring e' = d)) \<and>
    (\<forall>v ds motion. vi_state v = Command \<and> vi_pending_operator v = None \<and> set ds \<subseteq> {49..57} \<and> motion \<in> set motion_keys \<longrightarrow>
      (\<exists>v' b'. vi_typed (K (CHR ''d'') # map KChar ds @ [motion, K (CHR ''P'')]) (v, b) = Some (Ok (v', b')) \<and> eb_chars b' = eb_chars b))"
  using emacs_kill_yank [OF assms] vi_delete_put [OF assms] by blast

theorem kill_and_yank_restore_witness:
  "\<exists>v' b'. vi_typed [K (CHR ''d''), K (CHR ''2''), K (CHR ''b''), K (CHR ''P'')] (ViMode_new\<lparr>vi_state := Command\<rparr>, with_content [97, 32, 98]) = Some (Ok (v', b')) \<and>
    eb_chars b' = [97, 32, 98]"
proof -
  have "wf_buffer (with_content [97, 32, 98])" by (simp add: wf_buffer_def with_content_def)
  from conjunct2 [OF kill_and_yank_restore [OF this], rule_format, of "ViMode_new\<lparr>vi_state := Command\<rparr>" "[50]" "K (CHR ''b'')"]
  show ?thesis by (simp add: ViMode_new_def with_content_def motion_keys_def)
qed

end
