(* ===== verification/Term_Grid.thy ===== *)
theory Term_Grid
  imports Prelude
begin

text \<open>
  Colours, cells and the grid of the terminal: \<^verbatim>\<open>src/crates/sys/terminal/src/color.rs\<close>, \<^verbatim>\<open>cell.rs\<close> and
  \<^verbatim>\<open>grid.rs\<close>.

  A colour is its \<open>u32\<close>; a character is a byte, since the parser prints single bytes. The grid is an array
  of 50 rows of 160 cells of which the first \<open>gr_rows\<close> and \<open>gr_cols\<close> are in use. Access outside of the
  array is a panic.
\<close>

section \<open>Colours\<close>

type_synonym color = u32

definition BLACK :: color where "BLACK = 0xFF000000"
definition WHITE :: color where "WHITE = 0xFFFFFFFF"

definition argb :: "byte \<Rightarrow> byte \<Rightarrow> byte \<Rightarrow> byte \<Rightarrow> color" where
  "argb a r g b = push_bit 24 (ucast a) OR push_bit 16 (ucast r) OR push_bit 8 (ucast g) OR ucast b"

definition rgb :: "byte \<Rightarrow> byte \<Rightarrow> byte \<Rightarrow> color" where
  "rgb r g b = argb 255 r g b"

definition color_a :: "color \<Rightarrow> byte" where "color_a c = ucast (drop_bit 24 c AND 0xFF)"
definition color_r :: "color \<Rightarrow> byte" where "color_r c = ucast (drop_bit 16 c AND 0xFF)"
definition color_g :: "color \<Rightarrow> byte" where "color_g c = ucast (drop_bit 8 c AND 0xFF)"
definition color_b :: "color \<Rightarrow> byte" where "color_b c = ucast (c AND 0xFF)"

definition to_bgr :: "color \<Rightarrow> u32" where
  "to_bgr c = push_bit 24 (ucast (color_a c)) OR push_bit 16 (ucast (color_b c)) OR push_bit 8 (ucast (color_g c)) OR ucast (color_r c)"

definition is_transparent :: "color \<Rightarrow> bool" where "is_transparent c \<longleftrightarrow> color_a c = 0"
definition is_opaque :: "color \<Rightarrow> bool" where "is_opaque c \<longleftrightarrow> color_a c = 255"

definition blend :: "color \<Rightarrow> color \<Rightarrow> color" where
  "blend c background =
     (let alpha = ucast (color_a c) :: u32 in
      if alpha = 255 then c
      else if alpha = 0 then background
      else
        let inv_alpha = 255 - alpha;
            mix = (\<lambda>s d. ucast ((ucast s * alpha + ucast d * inv_alpha) div 255)) in
        rgb (mix (color_r c) (color_r background)) (mix (color_g c) (color_g background)) (mix (color_b c) (color_b background)))"

definition ANSI_COLORS :: "color list" where
  "ANSI_COLORS = [rgb 0 0 0, rgb 170 0 0, rgb 0 170 0, rgb 170 85 0, rgb 0 0 170, rgb 170 0 170, rgb 0 170 170, rgb 170 170 170,
     rgb 85 85 85, rgb 255 85 85, rgb 85 255 85, rgb 255 255 85, rgb 85 85 255, rgb 255 85 255, rgb 85 255 255, rgb 255 255 255]"

definition color_256 :: "byte \<Rightarrow> color" where
  "color_256 index =
     (if index \<le> 15 then ANSI_COLORS ! unat index
      else if index \<le> 231 then
        let idx = index - 16; r = (idx div 36) mod 6; g = (idx div 6) mod 6; b = idx mod 6;
            to_val = (\<lambda>v :: byte. if v = 0 then 0 else 55 + v * 40) in
        rgb (to_val r) (to_val g) (to_val b)
      else
        let gray = 8 + (index - 232) * 10 in rgb gray gray gray)"

section \<open>Cells\<close>

definition BOLD :: byte where "BOLD = 0x01"
definition ITALIC :: byte where "ITALIC = 0x02"
definition UNDERLINE :: byte where "UNDERLINE = 0x04"
definition REVERSE :: byte where "REVERSE = 0x08"
definition BLINK :: byte where "BLINK = 0x10"
definition STRIKETHROUGH :: byte where "STRIKETHROUGH = 0x20"
definition WIDE_CHAR :: byte where "WIDE_CHAR = 0x40"
definition WIDE_SPACER :: byte where "WIDE_SPACER = 0x80"

record cell =
  ce_ch :: byte
  ce_fg :: color
  ce_bg :: color
  ce_flags :: byte

definition Cell_new :: "byte \<Rightarrow> color \<Rightarrow> color \<Rightarrow> cell" where
  "Cell_new ch fg bg = \<lparr>ce_ch = ch, ce_fg = fg, ce_bg = bg, ce_flags = 0\<rparr>"

definition Cell_with_flags :: "byte \<Rightarrow> color \<Rightarrow> color \<Rightarrow> byte \<Rightarrow> cell" where
  "Cell_with_flags ch fg bg flags = \<lparr>ce_ch = ch, ce_fg = fg, ce_bg = bg, ce_flags = flags\<rparr>"

definition Cell_empty :: "color \<Rightarrow> color \<Rightarrow> cell" where
  "Cell_empty fg bg = Cell_new 0x20 fg bg"

definition Cell_default_colors :: "byte \<Rightarrow> cell" where
  "Cell_default_colors ch = Cell_new ch WHITE BLACK"

definition cell_is_empty :: "cell \<Rightarrow> bool" where
  "cell_is_empty c \<longleftrightarrow> ce_ch c = 0x20 \<and> ce_flags c = 0"

definition flags_contains :: "byte \<Rightarrow> byte \<Rightarrow> bool" where
  "flags_contains flags f \<longleftrightarrow> flags AND f = f"

definition is_wide :: "cell \<Rightarrow> bool" where "is_wide c = flags_contains (ce_flags c) WIDE_CHAR"

definition is_wide_spacer :: "cell \<Rightarrow> bool" where "is_wide_spacer c = flags_contains (ce_flags c) WIDE_SPACER"

definition effective_fg :: "cell \<Rightarrow> color" where
  "effective_fg c = (if flags_contains (ce_flags c) REVERSE then ce_bg c else ce_fg c)"

definition effective_bg :: "cell \<Rightarrow> color" where
  "effective_bg c = (if flags_contains (ce_flags c) REVERSE then ce_fg c else ce_bg c)"

definition cell_reset :: "color \<Rightarrow> color \<Rightarrow> cell \<Rightarrow> cell" where
  "cell_reset fg bg c = c\<lparr>ce_ch := 0x20, ce_fg := fg, ce_bg := bg, ce_flags := 0\<rparr>"

section \<open>The grid\<close>

definition MAX_COLS :: nat where "MAX_COLS = 160"
definition MAX_ROWS :: nat where "MAX_ROWS = 50"

record grid =
  gr_cells :: "cell list list"
  gr_cols :: nat
  gr_rows :: nat
  gr_default_fg :: color
  gr_default_bg :: color
  gr_dirty :: "bool list"
  gr_full_redraw :: bool

text \<open>\<open>self.cells[row][col] = c\<close> and \<open>self.dirty[row] = b\<close>.\<close>

definition put_cell :: "nat \<Rightarrow> nat \<Rightarrow> cell \<Rightarrow> grid \<Rightarrow> grid pan" where
  "put_cell row col c g =
     (if row < length (gr_cells g) \<and> col < length (gr_cells g ! row)
      then Ok (g\<lparr>gr_cells := (gr_cells g)[row := (gr_cells g ! row)[col := c]]\<rparr>) else Panic)"

definition put_dirty :: "nat \<Rightarrow> bool \<Rightarrow> grid \<Rightarrow> grid pan" where
  "put_dirty row b g = (if row < length (gr_dirty g) then Ok (g\<lparr>gr_dirty := (gr_dirty g)[row := b]\<rparr>) else Panic)"

text \<open>\<open>self.cells[row] = self.cells[src]\<close>\<close>

definition copy_row :: "nat \<Rightarrow> nat \<Rightarrow> grid \<Rightarrow> grid pan" where
  "copy_row row src g =
     (if row < length (gr_cells g) \<and> src < length (gr_cells g) then Ok (g\<lparr>gr_cells := (gr_cells g)[row := gr_cells g ! src]\<rparr>) else Panic)"

definition put_cells :: "nat \<Rightarrow> nat list \<Rightarrow> cell \<Rightarrow> grid \<Rightarrow> grid pan" where
  "put_cells row cols c g = for_res (\<lambda>col. put_cell row col c) cols g"

definition blank :: "grid \<Rightarrow> cell" where
  "blank g = Cell_empty (gr_default_fg g) (gr_default_bg g)"

definition Grid_new :: "nat \<Rightarrow> nat \<Rightarrow> color \<Rightarrow> color \<Rightarrow> grid pan" where
  "Grid_new cols0 rows0 fg bg =
     (let cols = min cols0 MAX_COLS; rows = min rows0 MAX_ROWS; empty_cell = Cell_empty fg bg;
          g = \<lparr>gr_cells = replicate MAX_ROWS (replicate MAX_COLS empty_cell), gr_cols = cols, gr_rows = rows, gr_default_fg = fg,
            gr_default_bg = bg, gr_dirty = replicate MAX_ROWS True, gr_full_redraw = True\<rparr> in
      for_res (\<lambda>row. put_cells row [0..<cols] empty_cell) [0..<rows] g)"

definition grid_resize :: "nat \<Rightarrow> nat \<Rightarrow> grid \<Rightarrow> grid pan" where
  "grid_resize new_cols0 new_rows0 g =
     (let new_cols = min new_cols0 MAX_COLS; new_rows = min new_rows0 MAX_ROWS; cols = gr_cols g; rows = gr_rows g in
      rbind (if new_cols > cols
             then for_res (\<lambda>row. put_cells row [cols..<new_cols] (blank g)) [0..<min new_rows rows] g else Ok g) (\<lambda>g.
      rbind (if new_rows > rows
             then for_res (\<lambda>row. put_cells row [0..<new_cols] (blank g)) [rows..<new_rows] g else Ok g) (\<lambda>g.
      Ok (g\<lparr>gr_cols := new_cols, gr_rows := new_rows, gr_full_redraw := True\<rparr>))))"

definition grid_get :: "nat \<Rightarrow> nat \<Rightarrow> grid \<Rightarrow> cell option" where
  "grid_get col row g = (if col < gr_cols g \<and> row < gr_rows g then Some (gr_cells g ! row ! col) else None)"

definition grid_set :: "nat \<Rightarrow> nat \<Rightarrow> cell \<Rightarrow> grid \<Rightarrow> grid pan" where
  "grid_set col row c g =
     (if col < gr_cols g \<and> row < gr_rows g then rbind (put_cell row col c g) (put_dirty row True) else Ok g)"

definition grid_clear :: "grid \<Rightarrow> grid pan" where
  "grid_clear g =
     rbind (for_res (\<lambda>row g'. rbind (put_cells row [0..<gr_cols g] (blank g) g') (put_dirty row True)) [0..<gr_rows g] g) (\<lambda>g.
     Ok (g\<lparr>gr_full_redraw := True\<rparr>))"

definition clear_row :: "nat \<Rightarrow> grid \<Rightarrow> grid pan" where
  "clear_row row g =
     (if row < gr_rows g then rbind (put_cells row [0..<gr_cols g] (blank g) g) (put_dirty row True) else Ok g)"

definition clear_row_from :: "nat \<Rightarrow> nat \<Rightarrow> grid \<Rightarrow> grid pan" where
  "clear_row_from row from_col g =
     (if row < gr_rows g then rbind (put_cells row [from_col..<gr_cols g] (blank g) g) (put_dirty row True) else Ok g)"

text \<open>\<open>0..=to_col.min(self.cols - 1)\<close>; the subtraction wraps for a grid without columns.\<close>

definition clear_row_to :: "nat \<Rightarrow> nat \<Rightarrow> grid \<Rightarrow> grid pan" where
  "clear_row_to row to_col g =
     (if row < gr_rows g
      then rbind (put_cells row [0..<Suc (if gr_cols g = 0 then to_col else min to_col (gr_cols g - 1))] (blank g) g) (put_dirty row True)
      else Ok g)"

definition grid_scroll_up :: "nat \<Rightarrow> nat \<Rightarrow> nat \<Rightarrow> grid \<Rightarrow> grid pan" where
  "grid_scroll_up tp bt n0 g =
     (if tp \<ge> bt \<or> bt > gr_rows g \<or> n0 = 0 then Ok g
      else
        let n = min n0 (bt - tp) in
        rbind (for_res (\<lambda>row g. rbind (copy_row row (row + n) g) (put_dirty row True)) [tp..<bt - n] g) (\<lambda>g'.
        for_res (\<lambda>row g'. rbind (put_cells row [0..<gr_cols g] (blank g) g') (put_dirty row True)) [bt - n..<bt] g'))"

definition grid_scroll_down :: "nat \<Rightarrow> nat \<Rightarrow> nat \<Rightarrow> grid \<Rightarrow> grid pan" where
  "grid_scroll_down tp bt n0 g =
     (if tp \<ge> bt \<or> bt > gr_rows g \<or> n0 = 0 then Ok g
      else
        let n = min n0 (bt - tp) in
        rbind (for_res (\<lambda>row g. rbind (copy_row row (row - n) g) (put_dirty row True)) (rev [tp + n..<bt]) g) (\<lambda>g'.
        for_res (\<lambda>row g'. rbind (put_cells row [0..<gr_cols g] (blank g) g') (put_dirty row True)) [tp..<tp + n] g'))"

definition is_row_dirty :: "nat \<Rightarrow> grid \<Rightarrow> bool" where
  "is_row_dirty row g \<longleftrightarrow> row < gr_rows g \<and> gr_dirty g ! row"

definition needs_full_redraw :: "grid \<Rightarrow> bool" where
  "needs_full_redraw g = gr_full_redraw g"

definition mark_row_clean :: "nat \<Rightarrow> grid \<Rightarrow> grid pan" where
  "mark_row_clean row g = (if row < gr_rows g then put_dirty row False g else Ok g)"

definition mark_all_clean :: "grid \<Rightarrow> grid pan" where
  "mark_all_clean g =
     rbind (for_res (\<lambda>row. put_dirty row False) [0..<gr_rows g] g) (\<lambda>g. Ok (g\<lparr>gr_full_redraw := False\<rparr>))"

definition mark_all_dirty :: "grid \<Rightarrow> grid pan" where
  "mark_all_dirty g =
     rbind (for_res (\<lambda>row. put_dirty row True) [0..<gr_rows g] g) (\<lambda>g. Ok (g\<lparr>gr_full_redraw := True\<rparr>))"

definition mark_row_dirty :: "nat \<Rightarrow> grid \<Rightarrow> grid pan" where
  "mark_row_dirty row g = (if row < gr_rows g then put_dirty row True g else Ok g)"

definition set_default_colors :: "color \<Rightarrow> color \<Rightarrow> grid \<Rightarrow> grid" where
  "set_default_colors fg bg g = g\<lparr>gr_default_fg := fg, gr_default_bg := bg\<rparr>"

definition grid_row :: "nat \<Rightarrow> grid \<Rightarrow> cell list option" where
  "grid_row row g = (if row < gr_rows g then Some (take (gr_cols g) (gr_cells g ! row)) else None)"

section \<open>Well-formed grids\<close>

definition wf_grid :: "grid \<Rightarrow> bool" where
  "wf_grid g \<longleftrightarrow> length (gr_cells g) = MAX_ROWS \<and> (\<forall>r \<in> set (gr_cells g). length r = MAX_COLS) \<and> length (gr_dirty g) = MAX_ROWS \<and>
     gr_cols g \<le> MAX_COLS \<and> gr_rows g \<le> MAX_ROWS"

text \<open>The dirty flags account for the changes from one grid to another: a row that is not dirty is as it was and
  was not dirty before, and a pending full redraw is not forgotten.\<close>

definition accounted :: "grid \<Rightarrow> grid \<Rightarrow> bool" where
  "accounted g g' \<longleftrightarrow> (\<forall>i < MAX_ROWS. \<not> gr_dirty g' ! i \<longrightarrow> \<not> gr_dirty g ! i \<and> gr_cells g' ! i = gr_cells g ! i) \<and>
     (gr_full_redraw g \<longrightarrow> gr_full_redraw g')"

lemma accounted_refl [simp]: "accounted g g"
  by (simp add: accounted_def)

lemma accounted_trans: "accounted g g' \<Longrightarrow> accounted g' g'' \<Longrightarrow> accounted g g''"
  by (auto simp: accounted_def)

text \<open>What the operations never change: the dimensions and the default colours. Every change is accounted for.\<close>

definition keeps :: "grid \<Rightarrow> grid \<Rightarrow> bool" where
  "keeps g g' \<longleftrightarrow> wf_grid g' \<and> gr_cols g' = gr_cols g \<and> gr_rows g' = gr_rows g \<and>
     gr_default_fg g' = gr_default_fg g \<and> gr_default_bg g' = gr_default_bg g \<and> accounted g g'"

lemma grid_keeps_refl: "wf_grid g \<Longrightarrow> keeps g g"
  by (simp add: keeps_def)

lemma grid_keeps_trans: "keeps g g' \<Longrightarrow> keeps g' g'' \<Longrightarrow> keeps g g''"
  using accounted_trans by (auto simp: keeps_def)

lemma wf_row: "wf_grid g \<Longrightarrow> row < MAX_ROWS \<Longrightarrow> length (gr_cells g ! row) = MAX_COLS"
  by (simp add: wf_grid_def)

lemma wf_update_row: "wf_grid g \<Longrightarrow> length r = MAX_COLS \<Longrightarrow> wf_grid (g\<lparr>gr_cells := (gr_cells g)[row := r]\<rparr>)"
  by (auto simp: wf_grid_def dest: set_update_subset_insert [THEN subsetD])

text \<open>Filling columns \<open>a\<close> to \<open>b\<close> of a row.\<close>

definition fill :: "nat \<Rightarrow> nat \<Rightarrow> 'a \<Rightarrow> 'a list \<Rightarrow> 'a list" where
  "fill a b c r = map (\<lambda>i. if a \<le> i \<and> i < b then c else r ! i) [0..<length r]"

lemma fill_nth [simp]: "length (fill a b c r) = length r" "i < length r \<Longrightarrow> fill a b c r ! i = (if a \<le> i \<and> i < b then c else r ! i)"
  by (simp_all add: fill_def)

lemma fill_empty: "b \<le> a \<Longrightarrow> fill a b c r = r"
  by (rule nth_equalityI) auto

lemma put_cells_fill:
  assumes "wf_grid g" and "row < MAX_ROWS"
  shows "a \<le> b \<Longrightarrow> b \<le> MAX_COLS \<Longrightarrow> put_cells row [a..<b] c g = Ok (g\<lparr>gr_cells := (gr_cells g)[row := fill a b c (gr_cells g ! row)]\<rparr>)"
proof (induction b)
  case 0
  then show ?case by (simp add: put_cells_def fill_empty)
next
  case (Suc b)
  show ?case
  proof (cases "a = Suc b")
    case True
    then show ?thesis by (simp add: put_cells_def fill_empty)
  next
    case False
    let ?g = "g\<lparr>gr_cells := (gr_cells g)[row := fill a b c (gr_cells g ! row)]\<rparr>"
    have l: "length (gr_cells g) = MAX_ROWS" "length (gr_cells g ! row) = MAX_COLS" using assms wf_row by (auto simp: wf_grid_def)
    have "put_cell row b c ?g = Ok (g\<lparr>gr_cells := (gr_cells g)[row := (fill a b c (gr_cells g ! row))[b := c]]\<rparr>)"
      using assms Suc.prems l by (simp add: put_cell_def)
    moreover have "(fill a b c (gr_cells g ! row))[b := c] = fill a (Suc b) c (gr_cells g ! row)"
      using False Suc.prems l by (intro nth_equalityI) (auto simp: nth_list_update less_Suc_eq)
    moreover have "for_res (\<lambda>col. put_cell row col c) [a..<b] g = Ok ?g"
      using Suc.IH Suc.prems False by (simp add: put_cells_def)
    ultimately show ?thesis using False Suc.prems by (simp add: put_cells_def for_res_append)
  qed
qed

text \<open>A loop over distinct rows, each assigned a value that does not depend on the rows assigned before.\<close>

definition set_row :: "nat \<Rightarrow> cell list \<Rightarrow> grid \<Rightarrow> grid" where
  "set_row row r g = g\<lparr>gr_cells := (gr_cells g)[row := r], gr_dirty := (gr_dirty g)[row := True]\<rparr>"

definition set_rows :: "nat set \<Rightarrow> (nat \<Rightarrow> cell list) \<Rightarrow> grid \<Rightarrow> grid" where
  "set_rows S f g = g\<lparr>gr_cells := map (\<lambda>i. if i \<in> S then f i else gr_cells g ! i) [0..<length (gr_cells g)],
     gr_dirty := map (\<lambda>i. i \<in> S \<or> gr_dirty g ! i) [0..<length (gr_dirty g)]\<rparr>"

lemma set_rows_keeps:
  assumes "wf_grid g" and "\<And>i. i \<in> S \<Longrightarrow> i < MAX_ROWS \<Longrightarrow> length (f i) = MAX_COLS"
  shows "keeps g (set_rows S f g)"
  using assms by (auto simp: keeps_def wf_grid_def set_rows_def accounted_def)

lemma rows_loop:
  assumes wf: "wf_grid g"
    and body: "\<And>row g'. row \<in> set rows \<Longrightarrow> keeps g g' \<Longrightarrow> body row g' = Ok (set_row row (f row (gr_cells g')) g')"
    and len: "\<And>row. row \<in> set rows \<Longrightarrow> row < MAX_ROWS \<and> length (f row (gr_cells g)) = MAX_COLS"
    and "distinct rows"
    and indep: "\<And>k cs cs'. k < length rows \<Longrightarrow> \<forall>j. j \<notin> set (take k rows) \<longrightarrow> j < MAX_ROWS \<longrightarrow> cs ! j = cs' ! j \<Longrightarrow> f (rows ! k) cs = f (rows ! k) cs'"
  shows "for_res body rows g = Ok (set_rows (set rows) (\<lambda>i. f i (gr_cells g)) g)"
  using body len \<open>distinct rows\<close> indep
proof (induction rows rule: rev_induct)
  case Nil
  then show ?case using map_nth [of "gr_cells g"] map_nth [of "gr_dirty g"] by (simp add: set_rows_def)
next
  case (snoc row rows)
  let ?g = "set_rows (set rows) (\<lambda>i. f i (gr_cells g)) g"
  have IH: "for_res body rows g = Ok ?g"
  proof (rule snoc.IH)
    fix k and cs cs' :: "cell list list"
    assume "k < length rows" "\<forall>j. j \<notin> set (take k rows) \<longrightarrow> j < MAX_ROWS \<longrightarrow> cs ! j = cs' ! j"
    then show "f (rows ! k) cs = f (rows ! k) cs'" using snoc.prems(4) [of k cs cs'] by (simp add: nth_append)
  qed (use snoc.prems in auto)
  have lg: "length (gr_cells g) = MAX_ROWS" "length (gr_dirty g) = MAX_ROWS" using wf by (simp_all add: wf_grid_def)
  have "body row ?g = Ok (set_row row (f row (gr_cells ?g)) ?g)"
    using snoc.prems(1) [of row ?g] set_rows_keeps [OF wf] snoc.prems(2) by auto
  moreover have "f row (gr_cells ?g) = f row (gr_cells g)"
    using snoc.prems(4) [of "length rows" "gr_cells ?g" "gr_cells g"] lg by (simp add: set_rows_def)
  moreover have "set_row row (f row (gr_cells g)) ?g = set_rows (set (rows @ [row])) (\<lambda>i. f i (gr_cells g)) g"
  proof -
    let ?n = "[0..<MAX_ROWS]" and ?F = "\<lambda>i. f i (gr_cells g)"
    have upd: "(map h ?n)[row := v] ! i = (if i = row then v else h i)" if "i < MAX_ROWS" for h :: "nat \<Rightarrow> 'z" and v i
      using that by (cases "i = row") simp_all
    have "(map (\<lambda>i. if i \<in> set rows then ?F i else gr_cells g ! i) ?n)[row := ?F row] =
        map (\<lambda>i. if i \<in> set (rows @ [row]) then ?F i else gr_cells g ! i) ?n"
      by (rule nth_equalityI) (auto simp: upd)
    moreover have "(map (\<lambda>i. i \<in> set rows \<or> gr_dirty g ! i) ?n)[row := True] = map (\<lambda>i. i \<in> set (rows @ [row]) \<or> gr_dirty g ! i) ?n"
      by (rule nth_equalityI) (auto simp: upd)
    ultimately show ?thesis by (simp add: set_row_def set_rows_def lg)
  qed
  ultimately show ?case using IH by (simp add: for_res_append)
qed


section \<open>The operations on well-formed grids\<close>

lemma put_dirty_ok: "wf_grid g \<Longrightarrow> row < MAX_ROWS \<Longrightarrow> put_dirty row b g = Ok (g\<lparr>gr_dirty := (gr_dirty g)[row := b]\<rparr>)"
  by (simp add: put_dirty_def wf_grid_def)

lemma fill_row_ok:
  assumes "wf_grid g" and "row < MAX_ROWS" and "a \<le> b" and "b \<le> MAX_COLS"
  shows "rbind (put_cells row [a..<b] c g) (put_dirty row True) = Ok (set_row row (fill a b c (gr_cells g ! row)) g)"
proof -
  have "wf_grid (g\<lparr>gr_cells := (gr_cells g)[row := fill a b c (gr_cells g ! row)]\<rparr>)"
    using assms by (intro wf_update_row) (simp_all add: wf_row)
  then show ?thesis using assms by (simp add: put_cells_fill put_dirty_ok set_row_def)
qed

lemma accounted_set_row:
  assumes "wf_grid g"
  shows "accounted g (set_row row r g)" "accounted g (g\<lparr>gr_dirty := (gr_dirty g)[row := True]\<rparr>)"
proof -
  have "(gr_dirty g)[row := True] ! i = (i = row \<or> gr_dirty g ! i)" if "i < MAX_ROWS" for i
    using that assms by (cases "i = row") (auto simp: wf_grid_def)
  then show "accounted g (set_row row r g)" "accounted g (g\<lparr>gr_dirty := (gr_dirty g)[row := True]\<rparr>)"
    by (auto simp: accounted_def set_row_def)
qed

lemma accounted_redraw [simp]: "accounted g g' \<Longrightarrow> accounted g (g'\<lparr>gr_full_redraw := True\<rparr>)"
  by (simp add: accounted_def)

lemma set_row_keeps: "wf_grid g \<Longrightarrow> length r = MAX_COLS \<Longrightarrow> keeps g (set_row row r g)"
  using wf_update_row [of g r row] accounted_set_row(1) [of g row r] by (simp add: keeps_def set_row_def wf_grid_def)

lemma copy_row_ok:
  assumes "wf_grid g" and "row < MAX_ROWS" and "src < MAX_ROWS"
  shows "rbind (copy_row row src g) (put_dirty row True) = Ok (set_row row (gr_cells g ! src) g)"
  using assms by (simp add: copy_row_def put_dirty_def set_row_def wf_grid_def)

lemma fill_rows_ok:
  assumes "wf_grid g" and "e \<le> MAX_ROWS" and "w \<le> MAX_COLS"
  shows "for_res (\<lambda>row g'. rbind (put_cells row [0..<w] c g') (put_dirty row True)) [s..<e] g =
    Ok (set_rows {s..<e} (\<lambda>i. fill 0 w c (gr_cells g ! i)) g)"
proof -
  have "for_res (\<lambda>row g'. rbind (put_cells row [0..<w] c g') (put_dirty row True)) [s..<e] g =
      Ok (set_rows (set [s..<e]) (\<lambda>i. fill 0 w c (gr_cells g ! i)) g)"
  proof (rule rows_loop [OF assms(1), where f = "\<lambda>i cs. fill 0 w c (cs ! i)"])
    show "rbind (put_cells row [0..<w] c g') (put_dirty row True) = Ok (set_row row (fill 0 w c (gr_cells g' ! row)) g')"
      if "row \<in> set [s..<e]" "keeps g g'" for row g'
      using that assms by (intro fill_row_ok) (auto simp: keeps_def)
    show "fill 0 w c (cs ! ([s..<e] ! k)) = fill 0 w c (cs' ! ([s..<e] ! k))"
      if "k < length [s..<e]" "\<forall>j. j \<notin> set (take k [s..<e]) \<longrightarrow> j < MAX_ROWS \<longrightarrow> cs ! j = cs' ! j" for k and cs cs' :: "cell list list"
      using that assms(2) by simp
  qed (use assms wf_row [OF assms(1)] in auto)
  then show ?thesis by simp
qed

lemma shift_up_ok:
  assumes "wf_grid g" and "e + n \<le> MAX_ROWS" and "n > 0"
  shows "for_res (\<lambda>row g. rbind (copy_row row (row + n) g) (put_dirty row True)) [s..<e] g = Ok (set_rows {s..<e} (\<lambda>i. gr_cells g ! (i + n)) g)"
proof -
  have "for_res (\<lambda>row g. rbind (copy_row row (row + n) g) (put_dirty row True)) [s..<e] g =
      Ok (set_rows (set [s..<e]) (\<lambda>i. gr_cells g ! (i + n)) g)"
  proof (rule rows_loop [OF assms(1), where f = "\<lambda>i cs. cs ! (i + n)"])
    show "rbind (copy_row row (row + n) g') (put_dirty row True) = Ok (set_row row (gr_cells g' ! (row + n)) g')"
      if "row \<in> set [s..<e]" "keeps g g'" for row g'
      using that assms by (intro copy_row_ok) (auto simp: keeps_def)
    show "cs ! ([s..<e] ! k + n) = cs' ! ([s..<e] ! k + n)"
      if "k < length [s..<e]" "\<forall>j. j \<notin> set (take k [s..<e]) \<longrightarrow> j < MAX_ROWS \<longrightarrow> cs ! j = cs' ! j" for k and cs cs' :: "cell list list"
      using that assms(2,3) by simp
  qed (use assms wf_row [OF assms(1)] in auto)
  then show ?thesis by simp
qed

lemma shift_down_ok:
  assumes "wf_grid g" and "e \<le> MAX_ROWS" and "n > 0" and "n \<le> s"
  shows "for_res (\<lambda>row g. rbind (copy_row row (row - n) g) (put_dirty row True)) (rev [s..<e]) g = Ok (set_rows {s..<e} (\<lambda>i. gr_cells g ! (i - n)) g)"
proof -
  have "for_res (\<lambda>row g. rbind (copy_row row (row - n) g) (put_dirty row True)) (rev [s..<e]) g =
      Ok (set_rows (set (rev [s..<e])) (\<lambda>i. gr_cells g ! (i - n)) g)"
  proof (rule rows_loop [OF assms(1), where f = "\<lambda>i cs. cs ! (i - n)"])
    show "rbind (copy_row row (row - n) g') (put_dirty row True) = Ok (set_row row (gr_cells g' ! (row - n)) g')"
      if "row \<in> set (rev [s..<e])" "keeps g g'" for row g'
      using that assms by (intro copy_row_ok) (auto simp: keeps_def)
    show "cs ! (rev [s..<e] ! k - n) = cs' ! (rev [s..<e] ! k - n)"
      if "k < length (rev [s..<e])" "\<forall>j. j \<notin> set (take k (rev [s..<e])) \<longrightarrow> j < MAX_ROWS \<longrightarrow> cs ! j = cs' ! j" for k and cs cs' :: "cell list list"
      using that(1) assms(2-4) that(2) [rule_format, of "e - Suc (k + n)"] by (simp add: rev_nth take_rev)
  qed (use assms wf_row [OF assms(1)] in auto)
  then show ?thesis by simp
qed

lemma set_rows_nth:
  "i < length (gr_cells g) \<Longrightarrow> gr_cells (set_rows S f g) ! i = (if i \<in> S then f i else gr_cells g ! i)"
  by (simp add: set_rows_def)

text \<open>The visible part of the grid, as rows of cells.\<close>

definition screen :: "grid \<Rightarrow> cell list list" where
  "screen g = map (take (gr_cols g)) (take (gr_rows g) (gr_cells g))"

lemma screen_nth: "wf_grid g \<Longrightarrow> length (screen g) = gr_rows g" "wf_grid g \<Longrightarrow> i < gr_rows g \<Longrightarrow> screen g ! i = take (gr_cols g) (gr_cells g ! i)"
  by (simp_all add: screen_def wf_grid_def)

lemma take_fill_all: "w \<le> length r \<Longrightarrow> take w (fill 0 w c r) = replicate w c"
  by (rule nth_equalityI) auto

lemma shift_up_list:
  assumes "length s = r" and "t < b" and "b \<le> r" and "n > 0" and m: "m = min n (b - t)"
  shows "map (\<lambda>i. if b - m \<le> i \<and> i < b then x else if t \<le> i \<and> i < b - m then s ! (i + m) else s ! i) [0..<r] =
    take t s @ take (b - t - n) (drop (t + n) s) @ replicate m x @ drop b s" (is "?l = ?r")
proof (rule nth_equalityI)
  have "m = n \<and> t + n \<le> b \<or> m = b - t \<and> b < t + n" using m by auto
  then show "length ?l = length ?r" using assms(1-4) by auto
  show "?l ! i = ?r ! i" if "i < length ?l" for i
    using that assms(1-4) \<open>m = n \<and> t + n \<le> b \<or> m = b - t \<and> b < t + n\<close> by (auto simp: nth_append add.commute)
qed

lemma shift_down_list:
  assumes "length s = r" and "t < b" and "b \<le> r" and "n > 0" and m: "m = min n (b - t)"
  shows "map (\<lambda>i. if t \<le> i \<and> i < t + m then x else if t + m \<le> i \<and> i < b then s ! (i - m) else s ! i) [0..<r] =
    take t s @ replicate m x @ take (b - t - n) (drop t s) @ drop b s" (is "?l = ?r")
proof (rule nth_equalityI)
  have "m = n \<and> t + n \<le> b \<or> m = b - t \<and> b < t + n" using m by auto
  then show "length ?l = length ?r" using assms(1-4) by auto
  show "?l ! i = ?r ! i" if "i < length ?l" for i
    using that assms(1-4) \<open>m = n \<and> t + n \<le> b \<or> m = b - t \<and> b < t + n\<close> by (auto simp: nth_append)
qed

text \<open>Moving some rows and then blanking others.\<close>

lemma move_and_blank:
  assumes wf: "wf_grid g" and S: "\<And>i. i \<in> S \<Longrightarrow> i < MAX_ROWS \<Longrightarrow> src i < MAX_ROWS"
    and g1: "g1 = set_rows S (\<lambda>i. gr_cells g ! src i) g"
    and g2: "g2 = set_rows B (\<lambda>i. fill 0 (gr_cols g) (blank g) (gr_cells g1 ! i)) g1"
  shows "wf_grid g1" "keeps g g2"
    "(\<And>i. i \<in> S \<Longrightarrow> src i < gr_rows g) \<Longrightarrow> screen g2 =
      map (\<lambda>i. if i \<in> B then replicate (gr_cols g) (blank g) else if i \<in> S then screen g ! src i else screen g ! i) [0..<gr_rows g]"
proof -
  have l: "length (gr_cells g) = MAX_ROWS" "gr_cols g \<le> MAX_COLS" "gr_rows g \<le> MAX_ROWS" using wf by (simp_all add: wf_grid_def)
  have k1: "keeps g g1" unfolding g1 by (rule set_rows_keeps [OF wf]) (use S wf_row [OF wf] in auto)
  then show wf1: "wf_grid g1" by (simp add: keeps_def)
  have k2: "keeps g1 g2" unfolding g2 by (rule set_rows_keeps [OF wf1]) (use wf_row [OF wf1] in auto)
  show k: "keeps g g2" by (rule grid_keeps_trans [OF k1 k2])
  then have d: "wf_grid g2" "gr_rows g2 = gr_rows g" "gr_cols g2 = gr_cols g" by (simp_all add: keeps_def)
  have l1: "length (gr_cells g1) = MAX_ROWS" using wf1 by (simp add: wf_grid_def)
  assume src: "\<And>i. i \<in> S \<Longrightarrow> src i < gr_rows g"
  show "screen g2 = map (\<lambda>i. if i \<in> B then replicate (gr_cols g) (blank g) else if i \<in> S then screen g ! src i else screen g ! i) [0..<gr_rows g]"
  proof (rule nth_equalityI)
    show "length (screen g2) = length (map (\<lambda>i. if i \<in> B then replicate (gr_cols g) (blank g) else if i \<in> S then screen g ! src i else screen g ! i) [0..<gr_rows g])"
      using screen_nth(1) [OF d(1)] d by simp
    fix i assume "i < length (screen g2)"
    then have i: "i < gr_rows g" "i < MAX_ROWS" using screen_nth(1) [OF d(1)] d l by simp_all
    have c2: "gr_cells g2 ! i = (if i \<in> B then fill 0 (gr_cols g) (blank g) (gr_cells g1 ! i) else gr_cells g1 ! i)"
      unfolding g2 using i l1 by (simp add: set_rows_nth)
    have c1: "gr_cells g1 ! i = (if i \<in> S then gr_cells g ! src i else gr_cells g ! i)"
      unfolding g1 using i l by (simp add: set_rows_nth)
    have f: "take (gr_cols g) (fill 0 (gr_cols g) (blank g) (gr_cells g1 ! i)) = replicate (gr_cols g) (blank g)"
      using wf_row [OF wf1 i(2)] l by (simp add: take_fill_all)
    show "screen g2 ! i = map (\<lambda>i. if i \<in> B then replicate (gr_cols g) (blank g) else if i \<in> S then screen g ! src i else screen g ! i) [0..<gr_rows g] ! i"
      using screen_nth(2) [OF d(1), of i] screen_nth(2) [OF wf] i d(2,3) c1 c2 f src by simp
  qed
qed

lemma scroll_up_ok:
  assumes wf: "wf_grid g" and "t < b" and "b \<le> gr_rows g" and "n > 0"
  shows "\<exists>g'. grid_scroll_up t b n g = Ok g' \<and> keeps g g' \<and>
    screen g' = take t (screen g) @ take (b - t - n) (drop (t + n) (screen g)) @ replicate (min n (b - t)) (replicate (gr_cols g) (blank g)) @
      drop b (screen g)"
proof -
  define m where "m = min n (b - t)"
  define g1 where "g1 = set_rows {t..<b - m} (\<lambda>i. gr_cells g ! (i + m)) g"
  define g2 where "g2 = set_rows {b - m..<b} (\<lambda>i. fill 0 (gr_cols g) (blank g) (gr_cells g1 ! i)) g1"
  have lim: "b \<le> MAX_ROWS" "gr_cols g \<le> MAX_COLS" using wf assms(3) by (auto simp: wf_grid_def)
  have m: "0 < m" "m \<le> b - t" using assms by (auto simp: m_def)
  note mb = move_and_blank [OF wf _ g1_def g2_def]
  have wf1: "wf_grid g1" by (rule mb(1)) (use lim m in auto)
  have k: "keeps g g2" by (rule mb(2)) (use lim m in auto)
  have "screen g2 = map (\<lambda>i. if i \<in> {b - m..<b} then replicate (gr_cols g) (blank g) else if i \<in> {t..<b - m} then screen g ! (i + m) else screen g ! i) [0..<gr_rows g]"
    by (rule mb(3)) (use lim m assms in auto)
  also have "\<dots> = take t (screen g) @ take (b - t - n) (drop (t + n) (screen g)) @ replicate m (replicate (gr_cols g) (blank g)) @ drop b (screen g)"
    unfolding atLeastLessThan_iff by (rule shift_up_list [OF screen_nth(1) [OF wf] assms(2-4) m_def])
  finally have s: "screen g2 = \<dots>" .
  have "grid_scroll_up t b n g = Ok g2"
    using shift_up_ok [OF wf, of "b - m" m t] fill_rows_ok [OF wf1 lim, of "blank g" "b - m"] assms lim m
    unfolding grid_scroll_up_def Let_def m_def [symmetric] g1_def [symmetric] g2_def [symmetric] by simp
  then show ?thesis using k s unfolding m_def by blast
qed

lemma scroll_down_ok:
  assumes wf: "wf_grid g" and "t < b" and "b \<le> gr_rows g" and "n > 0"
  shows "\<exists>g'. grid_scroll_down t b n g = Ok g' \<and> keeps g g' \<and>
    screen g' = take t (screen g) @ replicate (min n (b - t)) (replicate (gr_cols g) (blank g)) @
      take (b - t - n) (drop t (screen g)) @ drop b (screen g)"
proof -
  define m where "m = min n (b - t)"
  define g1 where "g1 = set_rows {t + m..<b} (\<lambda>i. gr_cells g ! (i - m)) g"
  define g2 where "g2 = set_rows {t..<t + m} (\<lambda>i. fill 0 (gr_cols g) (blank g) (gr_cells g1 ! i)) g1"
  have lim: "b \<le> MAX_ROWS" "gr_cols g \<le> MAX_COLS" using wf assms(3) by (auto simp: wf_grid_def)
  have m: "0 < m" "m \<le> b - t" using assms by (auto simp: m_def)
  note mb = move_and_blank [OF wf _ g1_def g2_def]
  have wf1: "wf_grid g1" by (rule mb(1)) (use lim m in auto)
  have k: "keeps g g2" by (rule mb(2)) (use lim m in auto)
  have "screen g2 = map (\<lambda>i. if i \<in> {t..<t + m} then replicate (gr_cols g) (blank g) else if i \<in> {t + m..<b} then screen g ! (i - m) else screen g ! i) [0..<gr_rows g]"
    by (rule mb(3)) (use lim m assms in auto)
  also have "\<dots> = take t (screen g) @ replicate m (replicate (gr_cols g) (blank g)) @ take (b - t - n) (drop t (screen g)) @ drop b (screen g)"
    unfolding atLeastLessThan_iff by (rule shift_down_list [OF screen_nth(1) [OF wf] assms(2-4) m_def])
  finally have s: "screen g2 = \<dots>" .
  have "grid_scroll_down t b n g = Ok g2"
    using shift_down_ok [OF wf lim(1), of m "t + m"] fill_rows_ok [OF wf1 _ lim(2), of "t + m" "blank g" t] assms lim m
    unfolding grid_scroll_down_def Let_def m_def [symmetric] g1_def [symmetric] g2_def [symmetric] by simp
  then show ?thesis using k s unfolding m_def by blast
qed


section \<open>No operation panics\<close>

text \<open>\<open>safe f\<close>: the operation returns and keeps the grid well formed, with its dimensions and colours.\<close>

definition safe :: "(grid \<Rightarrow> grid pan) \<Rightarrow> bool" where
  "safe f \<longleftrightarrow> (\<forall>g. wf_grid g \<longrightarrow> (\<exists>g'. f g = Ok g' \<and> keeps g g'))"

lemma safe_bind: "safe f \<Longrightarrow> safe h \<Longrightarrow> safe (\<lambda>g. rbind (f g) h)"
  unfolding safe_def by (metis keeps_def grid_keeps_trans rbind.simps(1))

lemma safe_for: "(\<And>i. i \<in> set is \<Longrightarrow> safe (f i)) \<Longrightarrow> safe (for_res f is)"
proof (induction "is")
  case (Cons i "is")
  then have "safe (\<lambda>g. rbind (f i g) (for_res f is))" by (intro safe_bind) auto
  then show ?case by (simp add: safe_def)
qed (simp add: safe_def grid_keeps_refl)

lemma safe_fill_row:
  assumes "wf_grid g" and "row < MAX_ROWS" and "b \<le> MAX_COLS"
  shows "\<exists>g'. rbind (put_cells row [a..<b] c g) (put_dirty row True) = Ok g' \<and> keeps g g'"
proof (cases "a \<le> b")
  case True
  have "keeps g (set_row row (fill a b c (gr_cells g ! row)) g)" by (rule set_row_keeps [OF assms(1)]) (simp add: wf_row [OF assms(1,2)])
  then show ?thesis using fill_row_ok [OF assms(1,2) True assms(3), of c] by blast
next
  case False
  then have "put_cells row [a..<b] c g = Ok g" by (simp add: put_cells_def)
  then show ?thesis using assms(1,2) accounted_set_row(2) [OF assms(1)] by (simp add: put_dirty_ok keeps_def wf_grid_def)
qed

lemma safe_grid_set: "safe (grid_set col row c)"
proof -
  have "\<exists>g'. grid_set col row c g = Ok g' \<and> keeps g g'" if "wf_grid g" for g
  proof (cases "col < gr_cols g \<and> row < gr_rows g")
    case True
    then have r: "row < MAX_ROWS" "col < MAX_COLS" using that by (auto simp: wf_grid_def)
    have "grid_set col row c g = Ok (set_row row ((gr_cells g ! row)[col := c]) g)"
      using True r that wf_row [OF that r(1)] by (simp add: grid_set_def put_cell_def put_dirty_def set_row_def wf_grid_def)
    then show ?thesis using set_row_keeps [OF that, of "(gr_cells g ! row)[col := c]" row] wf_row [OF that r(1)] by auto
  qed (use that in \<open>auto simp: grid_set_def grid_keeps_refl\<close>)
  then show ?thesis by (simp add: safe_def)
qed

lemma safe_clear_row: "safe (clear_row row)" "safe (clear_row_from row a)" "0 < gr_cols g \<or> a < MAX_COLS \<Longrightarrow> wf_grid g \<Longrightarrow>
    \<exists>g'. clear_row_to row a g = Ok g' \<and> keeps g g'"
proof -
  have w: "row < MAX_ROWS \<and> gr_cols g \<le> MAX_COLS" if "wf_grid g" "row < gr_rows g" for g using that by (auto simp: wf_grid_def)
  show "safe (clear_row row)" "safe (clear_row_from row a)"
    using w safe_fill_row by (auto simp: safe_def clear_row_def clear_row_from_def grid_keeps_refl)
  show "\<exists>g'. clear_row_to row a g = Ok g' \<and> keeps g g'" if "0 < gr_cols g \<or> a < MAX_COLS" "wf_grid g"
  proof (cases "row < gr_rows g")
    case True
    have "Suc (if gr_cols g = 0 then a else min a (gr_cols g - 1)) \<le> MAX_COLS" using that w [OF that(2) True] by auto
    then show ?thesis using safe_fill_row [OF that(2)] w [OF that(2) True] True by (simp add: clear_row_to_def del: upt_Suc)
  qed (use that in \<open>simp add: clear_row_to_def grid_keeps_refl\<close>)
qed

lemma safe_grid_clear: "safe grid_clear"
proof -
  have "\<exists>g'. grid_clear g = Ok g' \<and> keeps g g'" if "wf_grid g" for g
  proof -
    have l: "gr_rows g \<le> MAX_ROWS" "gr_cols g \<le> MAX_COLS" using that by (simp_all add: wf_grid_def)
    have "keeps g (set_rows {0..<gr_rows g} (\<lambda>i. fill 0 (gr_cols g) (blank g) (gr_cells g ! i)) g)"
      using wf_row [OF that] by (intro set_rows_keeps [OF that]) auto
    then show ?thesis using fill_rows_ok [OF that l, of "blank g" 0] by (simp add: grid_clear_def keeps_def wf_grid_def)
  qed
  then show ?thesis by (simp add: safe_def)
qed

lemma safe_scroll: "safe (grid_scroll_up t b n)" "safe (grid_scroll_down t b n)"
proof -
  have "\<exists>g'. grid_scroll_up t b n g = Ok g' \<and> keeps g g'" if "wf_grid g" for g
    using scroll_up_ok [OF that, of t b n] that by (cases "t < b \<and> b \<le> gr_rows g \<and> n > 0") (auto simp: grid_scroll_up_def grid_keeps_refl not_less)
  moreover have "\<exists>g'. grid_scroll_down t b n g = Ok g' \<and> keeps g g'" if "wf_grid g" for g
    using scroll_down_ok [OF that, of t b n] that by (cases "t < b \<and> b \<le> gr_rows g \<and> n > 0") (auto simp: grid_scroll_down_def grid_keeps_refl not_less)
  ultimately show "safe (grid_scroll_up t b n)" "safe (grid_scroll_down t b n)" by (simp_all add: safe_def)
qed

lemma Grid_new_ok:
  "\<exists>g. Grid_new cols rows fg bg = Ok g \<and> wf_grid g \<and> gr_cols g = min cols MAX_COLS \<and> gr_rows g = min rows MAX_ROWS \<and>
    gr_default_fg g = fg \<and> gr_default_bg g = bg"
proof -
  let ?g = "\<lparr>gr_cells = replicate MAX_ROWS (replicate MAX_COLS (Cell_empty fg bg)), gr_cols = min cols MAX_COLS, gr_rows = min rows MAX_ROWS,
    gr_default_fg = fg, gr_default_bg = bg, gr_dirty = replicate MAX_ROWS True, gr_full_redraw = True\<rparr>"
  have wf: "wf_grid ?g" by (simp add: wf_grid_def)
  have "put_cells row [0..<min cols MAX_COLS] (Cell_empty fg bg) ?g = Ok ?g" if "row < MAX_ROWS" for row
  proof -
    have "fill 0 (min cols MAX_COLS) (Cell_empty fg bg) (replicate MAX_COLS (Cell_empty fg bg)) = replicate MAX_COLS (Cell_empty fg bg)"
      by (rule nth_equalityI) auto
    moreover have "(replicate MAX_ROWS x)[row := x] = replicate MAX_ROWS x" for x :: "cell list"
      using that by (simp add: list_update_same_conv)
    ultimately show ?thesis using put_cells_fill [OF wf that, of 0 "min cols MAX_COLS"] that by simp
  qed
  then have "k \<le> MAX_ROWS \<Longrightarrow> for_res (\<lambda>row. put_cells row [0..<min cols MAX_COLS] (Cell_empty fg bg)) [0..<k] ?g = Ok ?g" for k
    by (induction k) (simp_all add: for_res_append)
  then have "Grid_new cols rows fg bg = Ok ?g" by (simp add: Grid_new_def Let_def)
  then show ?thesis using wf by auto
qed

end
