(* ===== verification/Term_Parser.thy ===== *)
theory Term_Parser
  imports Prelude
begin

text \<open>
  The escape-sequence parser of the terminal, \<^verbatim>\<open>src/crates/sys/terminal/src/parser.rs\<close>: a state machine
  that takes one byte at a time and may produce an event.

  An \<open>i32\<close> is an \<open>int\<close> with its wrap-around written as \<open>i32\<close>. The parameter array has 16 entries, and
  every write to it is guarded by that bound.
\<close>

section \<open>Definitions\<close>

definition MAX_PARAMS :: nat where "MAX_PARAMS = 16"
definition MAX_OSC_LEN :: nat where "MAX_OSC_LEN = 256"

definition i32 :: "int \<Rightarrow> int" where
  "i32 x = signed_take_bit 31 x"

datatype parser_state = Ground | Escape | CsiEntry | CsiParam | CsiPrivate | OscString | CharsetSelect

datatype event =
    Print byte
  | Execute byte
  | Csi (csi_params: "int list") (csi_param_count: nat) (csi_intermediate: byte) (csi_final_byte: byte) (csi_private: bool)
  | Osc byte
  | EscDispatch byte
  | Charset byte byte

record parser =
  pa_state :: parser_state
  pa_params :: "int list"
  pa_param_count :: nat
  pa_current_param :: int
  pa_intermediate :: byte
  pa_private :: bool
  pa_charset_slot :: byte
  pa_osc_cmd :: byte
  pa_osc_len :: nat

definition Parser_new :: parser where
  "Parser_new = \<lparr>pa_state = Ground, pa_params = replicate MAX_PARAMS 0, pa_param_count = 0, pa_current_param = 0,
     pa_intermediate = 0, pa_private = False, pa_charset_slot = 0, pa_osc_cmd = 0, pa_osc_len = 0\<rparr>"

definition parser_reset :: "parser \<Rightarrow> parser" where
  "parser_reset p = p\<lparr>pa_state := Ground, pa_params := replicate MAX_PARAMS 0, pa_param_count := 0, pa_current_param := 0,
     pa_intermediate := 0, pa_private := False\<rparr>"

definition enter_csi :: "parser \<Rightarrow> parser" where
  "enter_csi p = p\<lparr>pa_state := CsiEntry, pa_params := replicate MAX_PARAMS 0, pa_param_count := 0, pa_current_param := 0,
     pa_intermediate := 0, pa_private := False\<rparr>"

definition enter_osc :: "parser \<Rightarrow> parser" where
  "enter_osc p = p\<lparr>pa_state := OscString, pa_osc_cmd := 0, pa_osc_len := 0\<rparr>"

definition between :: "byte \<Rightarrow> byte \<Rightarrow> byte \<Rightarrow> bool" where
  "between lo hi b \<longleftrightarrow> lo \<le> b \<and> b \<le> hi"

text \<open>\<open>if self.param_count < MAX_PARAMS { self.params[self.param_count] = v; self.param_count += 1 }\<close>\<close>

definition push_param :: "int \<Rightarrow> parser \<Rightarrow> parser" where
  "push_param v p =
     (if pa_param_count p < MAX_PARAMS
      then p\<lparr>pa_params := (pa_params p)[pa_param_count p := v], pa_param_count := pa_param_count p + 1\<rparr> else p)"

definition add_digit :: "byte \<Rightarrow> parser \<Rightarrow> parser" where
  "add_digit b p = p\<lparr>pa_current_param := i32 (pa_current_param p * 10 + uint (b - 0x30))\<rparr>"

definition csi_event :: "byte \<Rightarrow> bool \<Rightarrow> parser \<Rightarrow> event" where
  "csi_event b priv p = Csi (pa_params p) (pa_param_count p) (pa_intermediate p) b priv"

definition ground :: "byte \<Rightarrow> parser \<Rightarrow> event option \<times> parser" where
  "ground b p =
     (if b \<le> 0x1F then (if b = 0x1B then (None, p\<lparr>pa_state := Escape\<rparr>) else (Some (Execute b), p))
      else if b \<le> 0x7E then (Some (Print b), p)
      else if b = 0x7F then (None, p)
      else if b \<le> 0x9F then
        (if b = 0x9B then (None, enter_csi p) else if b = 0x9D then (None, enter_osc p) else (Some (Execute b), p))
      else (Some (Print b), p))"

definition escape :: "byte \<Rightarrow> parser \<Rightarrow> event option \<times> parser" where
  "escape b p =
     (if b = 0x5B then (None, enter_csi p)
      else if b = 0x5D then (None, enter_osc p)
      else if b = 0x28 \<or> b = 0x29 then (None, p\<lparr>pa_state := CharsetSelect, pa_charset_slot := b\<rparr>)
      else if b \<in> set [0x37, 0x38, 0x3D, 0x3E, 0x63, 0x44, 0x45, 0x48, 0x4D, 0x5A]
        then (Some (EscDispatch b), p\<lparr>pa_state := Ground\<rparr>)
      else (None, p\<lparr>pa_state := Ground\<rparr>))"

definition csi_entry :: "byte \<Rightarrow> parser \<Rightarrow> event option \<times> parser" where
  "csi_entry b p =
     (if b = 0x3F then (None, p\<lparr>pa_private := True, pa_state := CsiPrivate\<rparr>)
      else if between 0x30 0x39 b then (None, p\<lparr>pa_current_param := uint (b - 0x30), pa_state := CsiParam\<rparr>)
      else if b = 0x3B then (None, (push_param 0 p)\<lparr>pa_state := CsiParam\<rparr>)
      else if between 0x40 0x7E b then (Some (csi_event b False p), p\<lparr>pa_state := Ground\<rparr>)
      else if between 0x20 0x2F b then (None, p\<lparr>pa_intermediate := b\<rparr>)
      else if b = 0x18 \<or> b = 0x1A then (None, p\<lparr>pa_state := Ground\<rparr>)
      else if b = 0x1B then (None, p\<lparr>pa_state := Escape\<rparr>)
      else (None, p))"

definition csi_param_state :: "byte \<Rightarrow> parser \<Rightarrow> event option \<times> parser" where
  "csi_param_state b p =
     (if between 0x30 0x39 b then (None, add_digit b p)
      else if b = 0x3B then (None, (push_param (pa_current_param p) p)\<lparr>pa_current_param := 0\<rparr>)
      else if between 0x40 0x7E b then
        (let p = (push_param (pa_current_param p) p)\<lparr>pa_state := Ground\<rparr> in (Some (csi_event b (pa_private p) p), p))
      else if between 0x20 0x2F b then (None, p\<lparr>pa_intermediate := b\<rparr>)
      else if b = 0x18 \<or> b = 0x1A then (None, p\<lparr>pa_state := Ground\<rparr>)
      else if b = 0x1B then (None, p\<lparr>pa_state := Escape\<rparr>)
      else (None, p))"

definition csi_private_state :: "byte \<Rightarrow> parser \<Rightarrow> event option \<times> parser" where
  "csi_private_state b p0 =
     (let p = p0\<lparr>pa_private := True\<rparr> in
      if between 0x30 0x39 b then (None, (add_digit b p)\<lparr>pa_state := CsiParam\<rparr>)
      else if b = 0x3B then (None, (push_param (pa_current_param p) p)\<lparr>pa_current_param := 0, pa_state := CsiParam\<rparr>)
      else if between 0x40 0x7E b then
        (let p = (push_param (pa_current_param p) p)\<lparr>pa_state := Ground\<rparr> in (Some (csi_event b True p), p))
      else if b = 0x18 \<or> b = 0x1A then (None, p\<lparr>pa_state := Ground\<rparr>)
      else if b = 0x1B then (None, p\<lparr>pa_state := Escape\<rparr>)
      else (None, p\<lparr>pa_state := CsiParam\<rparr>))"

definition osc_string :: "byte \<Rightarrow> parser \<Rightarrow> event option \<times> parser" where
  "osc_string b p =
     (if b = 0x07 \<or> b = 0x1B \<or> b = 0x9C then (Some (Osc (pa_osc_cmd p)), p\<lparr>pa_state := Ground\<rparr>)
      else if between 0x30 0x39 b \<and> pa_osc_len p = 0
        then (None, p\<lparr>pa_osc_cmd := b - 0x30, pa_osc_len := pa_osc_len p + 1\<rparr>)
      else
        let p = p\<lparr>pa_osc_len := pa_osc_len p + 1\<rparr> in
        (None, if pa_osc_len p > MAX_OSC_LEN then p\<lparr>pa_state := Ground\<rparr> else p))"

definition charset_select :: "byte \<Rightarrow> parser \<Rightarrow> event option \<times> parser" where
  "charset_select b p = (Some (Charset (pa_charset_slot p) b), p\<lparr>pa_state := Ground\<rparr>)"

definition parser_advance :: "byte \<Rightarrow> parser \<Rightarrow> event option \<times> parser" where
  "parser_advance b p =
     (case pa_state p of
        Ground \<Rightarrow> ground b p
      | Escape \<Rightarrow> escape b p
      | CsiEntry \<Rightarrow> csi_entry b p
      | CsiParam \<Rightarrow> csi_param_state b p
      | CsiPrivate \<Rightarrow> csi_private_state b p
      | OscString \<Rightarrow> osc_string b p
      | CharsetSelect \<Rightarrow> charset_select b p)"

text \<open>The free function \<open>csi_param\<close>. Its array access is guarded by \<open>count\<close>, which never exceeds 16.\<close>

definition csi_param :: "int list \<Rightarrow> nat \<Rightarrow> nat \<Rightarrow> int \<Rightarrow> int" where
  "csi_param params count index dflt = (if index < count \<and> params ! index \<noteq> 0 then params ! index else dflt)"

text \<open>Feeding bytes one after the other, collecting the events.\<close>

fun parser_run :: "byte list \<Rightarrow> parser \<Rightarrow> event list \<times> parser" where
  "parser_run [] p = ([], p)"
| "parser_run (b # bs) p =
     (let (ev, p) = parser_advance b p; (evs, p) = parser_run bs p in
      (case ev of None \<Rightarrow> evs | Some e \<Rightarrow> e # evs, p))"

section \<open>Well-formedness\<close>

definition is_i32 :: "int \<Rightarrow> bool" where
  "is_i32 x \<longleftrightarrow> - (2 ^ 31) \<le> x \<and> x < 2 ^ 31"

definition wf_params :: "int list \<Rightarrow> nat \<Rightarrow> bool" where
  "wf_params ps n \<longleftrightarrow> length ps = MAX_PARAMS \<and> n \<le> MAX_PARAMS \<and> (\<forall>x \<in> set ps. is_i32 x)"

definition wf_parser :: "parser \<Rightarrow> bool" where
  "wf_parser p \<longleftrightarrow> wf_params (pa_params p) (pa_param_count p) \<and> is_i32 (pa_current_param p) \<and> pa_osc_len p \<le> MAX_OSC_LEN + 1 \<and>
     (pa_state p = OscString \<longrightarrow> pa_osc_len p \<le> MAX_OSC_LEN)"

fun wf_event :: "event \<Rightarrow> bool" where
  "wf_event (Csi ps n i f priv) = (wf_params ps n \<and> between 0x40 0x7E f)"
| "wf_event _ = True"

lemma is_i32_i32 [simp]: "is_i32 (i32 x)"
  using signed_take_bit_int_less_exp [of 31 x] signed_take_bit_int_greater_eq_minus_exp [of 31 x] by (simp add: is_i32_def i32_def)

lemma i32_id: "is_i32 x \<Longrightarrow> i32 x = x"
  by (simp add: is_i32_def i32_def signed_take_bit_int_eq_self_iff)

lemma is_i32_small: "0 \<le> x \<Longrightarrow> x < 256 \<Longrightarrow> is_i32 x"
  by (simp add: is_i32_def)

lemma is_i32_zero [simp]: "is_i32 0"
  by (simp add: is_i32_def)

lemma is_i32_digit [simp]: "is_i32 (uint (b :: byte))"
  by (rule is_i32_small) (use unsigned_less [of b, where 'a = int] in simp_all)

lemma wf_push_param [simp]: "wf_parser p \<Longrightarrow> is_i32 v \<Longrightarrow> wf_params (pa_params (push_param v p)) (pa_param_count (push_param v p))"
  by (auto simp: wf_parser_def wf_params_def push_param_def dest: set_update_subset_insert [THEN subsetD])

lemma push_param_fields [simp]:
  "pa_state (push_param v p) = pa_state p" "pa_current_param (push_param v p) = pa_current_param p"
  "pa_osc_len (push_param v p) = pa_osc_len p" "pa_private (push_param v p) = pa_private p" "pa_intermediate (push_param v p) = pa_intermediate p"
  by (simp_all add: push_param_def)

lemma wf_replicate [simp]: "wf_params (replicate MAX_PARAMS 0) 0"
  by (simp add: wf_params_def is_i32_def)

lemma wf_Parser_new: "wf_parser Parser_new"
  by (simp add: wf_parser_def Parser_new_def is_i32_def)

lemmas parser_defs = ground_def escape_def csi_entry_def csi_param_state_def csi_private_state_def osc_string_def
  charset_select_def enter_csi_def enter_osc_def add_digit_def csi_event_def Let_def

lemma wf_parser_step:
  assumes "wf_parser p"
  shows "wf_parser (snd (parser_advance b p)) \<and> (\<forall>e. fst (parser_advance b p) = Some e \<longrightarrow> wf_event e)"
  using assms wf_push_param [OF assms]
  by (cases "pa_state p") (auto simp: parser_advance_def parser_defs wf_parser_def MAX_OSC_LEN_def)

section \<open>Control sequences\<close>

text \<open>Printing a control sequence: decimal parameters separated by semicolons.\<close>

fun digits :: "nat \<Rightarrow> byte list" where
  "digits n = (if n < 10 then [of_nat (48 + n)] else digits (n div 10) @ [of_nat (48 + n mod 10)])"

declare digits.simps [simp del]

fun params_bytes :: "nat list \<Rightarrow> byte list" where
  "params_bytes [] = []"
| "params_bytes [n] = digits n"
| "params_bytes (n # m # ns) = digits n @ 0x3B # params_bytes (m # ns)"

definition csi_bytes :: "bool \<Rightarrow> nat list \<Rightarrow> byte \<Rightarrow> byte list" where
  "csi_bytes priv ps final = [0x1B, 0x5B] @ (if priv then [0x3F] else []) @ params_bytes ps @ [final]"

lemma parser_run_append: "parser_run (xs @ ys) p = (let (es, p) = parser_run xs p; (fs, p) = parser_run ys p in (es @ fs, p))"
  by (induction xs arbitrary: p) (auto simp: Let_def split: prod.splits option.splits)

lemma digit_byte:
  assumes "k < 10"
  shows "between 0x30 0x39 (of_nat (48 + k))" "uint (of_nat (48 + k) - 0x30 :: byte) = int k" "of_nat (48 + k) \<noteq> (0x3F :: byte)"
proof -
  have "k \<in> {0, 1, 2, 3, 4, 5, 6, 7, 8, 9}" using assms by auto
  then show "between 0x30 0x39 (of_nat (48 + k))" "uint (of_nat (48 + k) - 0x30 :: byte) = int k" "of_nat (48 + k) \<noteq> (0x3F :: byte)"
    by (auto simp: between_def)
qed

definition csi_state :: "parser \<Rightarrow> bool" where
  "csi_state p \<longleftrightarrow> pa_state p = CsiParam \<or> pa_state p = CsiEntry \<and> pa_current_param p = 0 \<or>
     pa_state p = CsiPrivate \<and> pa_current_param p = 0 \<and> pa_private p"

lemma run_digit:
  assumes "csi_state p" and "k < 10" and "is_i32 (pa_current_param p * 10 + int k)"
  shows "parser_advance (of_nat (48 + k)) p = (None, p\<lparr>pa_current_param := pa_current_param p * 10 + int k, pa_state := CsiParam\<rparr>)"
  using assms digit_byte [OF assms(2)] i32_id [OF assms(3)]
  by (auto simp: csi_state_def parser_advance_def csi_entry_def csi_param_state_def csi_private_state_def add_digit_def Let_def
    simp del: of_nat_add)

lemma run_digits:
  "csi_state p \<Longrightarrow> pa_current_param p = 0 \<Longrightarrow> n < 2 ^ 31 \<Longrightarrow>
   parser_run (digits n) p = ([], p\<lparr>pa_current_param := int n, pa_state := CsiParam\<rparr>)"
proof (induction n rule: digits.induct)
  case (1 n)
  show ?case
  proof (cases "n < 10")
    case True
    then show ?thesis using 1 run_digit [of p n] by (simp add: digits.simps [of n] is_i32_def del: of_nat_add)
  next
    case False
    let ?q = "p\<lparr>pa_current_param := int (n div 10), pa_state := CsiParam\<rparr>"
    have q: "parser_run (digits (n div 10)) p = ([], ?q)" using 1 False by simp
    have n: "int (n div 10) * 10 + int (n mod 10) = int n" by (metis div_mult_mod_eq of_nat_add of_nat_mult of_nat_numeral)
    then have "parser_advance (of_nat (48 + n mod 10)) ?q = (None, ?q\<lparr>pa_current_param := int n\<rparr>)"
      using run_digit [of ?q "n mod 10"] 1(4) by (simp add: csi_state_def is_i32_def del: of_nat_add)
    then show ?thesis using False q by (simp add: digits.simps [of n] parser_run_append del: of_nat_add)
  qed
qed

lemma update_at_count: "c < length xs \<Longrightarrow> take c xs @ v # drop (Suc c) xs = xs[c := v]"
  by (simp add: upd_conv_take_nth_drop)

lemma run_params:
  assumes "between 0x40 0x7E final"
  shows "ps \<noteq> [] \<Longrightarrow> csi_state p \<Longrightarrow> pa_current_param p = 0 \<Longrightarrow> \<forall>n \<in> set ps. n < 2 ^ 31 \<Longrightarrow> length (pa_params p) = 16 \<Longrightarrow>
    pa_param_count p + length ps \<le> 16 \<Longrightarrow>
    \<exists>q. parser_run (params_bytes ps @ [final]) p = ([Csi (take (pa_param_count p) (pa_params p) @ map int ps @
        drop (pa_param_count p + length ps) (pa_params p)) (pa_param_count p + length ps) (pa_intermediate p) final (pa_private p)], q) \<and>
      pa_state q = Ground"
proof (induction ps arbitrary: p rule: params_bytes.induct)
  case (2 n)
  have f: "\<not> between 0x30 0x39 final" "final \<noteq> 0x3B"
    using assms by (auto simp: between_def word_le_nat_alt)
  have "parser_run (digits n) p = ([], p\<lparr>pa_current_param := int n, pa_state := CsiParam\<rparr>)"
    using 2 by (intro run_digits) auto
  then show ?case using 2 f assms update_at_count [of "pa_param_count p" "pa_params p" "int n"]
    by (simp add: parser_run_append parser_advance_def csi_param_state_def push_param_def csi_event_def MAX_PARAMS_def Let_def)
next
  case (3 n m ns)
  let ?q = "p\<lparr>pa_params := (pa_params p)[pa_param_count p := int n], pa_param_count := pa_param_count p + 1, pa_current_param := 0, pa_state := CsiParam\<rparr>"
  have "parser_run (digits n) p = ([], p\<lparr>pa_current_param := int n, pa_state := CsiParam\<rparr>)"
    using 3 by (intro run_digits) auto
  then have "parser_run (digits n @ [0x3B]) p = ([], ?q)"
    using "3.prems" by (simp add: parser_run_append parser_advance_def csi_param_state_def push_param_def MAX_PARAMS_def between_def)
  moreover have "csi_state ?q" by (simp add: csi_state_def)
  then obtain q where "parser_run (params_bytes (m # ns) @ [final]) ?q = ([Csi (take (pa_param_count p + 1) (pa_params ?q) @ map int (m # ns) @
        drop (pa_param_count p + 1 + length (m # ns)) (pa_params ?q)) (pa_param_count p + 1 + length (m # ns)) (pa_intermediate p) final (pa_private p)], q)"
      "pa_state q = Ground"
    using "3.IH" [of ?q] "3.prems" by auto
  moreover have "take (pa_param_count p + 1) (pa_params ?q) = take (pa_param_count p) (pa_params p) @ [int n]"
    using "3.prems" by (simp add: take_Suc_conv_app_nth)
  ultimately show ?case
    using parser_run_append [of "digits n @ [0x3B]" "params_bytes (m # ns) @ [final]" p] by simp
qed simp

text \<open>C32. Parsing inverts printing for control sequences: from the ground state, the bytes of a sequence with
  one to 16 parameters below \<open>2\<^sup>3\<^sup>1\<close>, private or not, produce exactly one event with those parameters and
  that final byte, and the parser is back in the ground state.\<close>

theorem csi_roundtrip:
  assumes "pa_state p = Ground" and "ps \<noteq> []" and "length ps \<le> 16" and "\<forall>n \<in> set ps. n < 2 ^ 31" and "between 0x40 0x7E final"
  shows "\<exists>q. parser_run (csi_bytes priv ps final) p =
      ([Csi (map int ps @ replicate (16 - length ps) 0) (length ps) 0 final priv], q) \<and> pa_state q = Ground"
proof -
  let ?p = "enter_csi (p\<lparr>pa_state := Escape\<rparr>)"
  let ?q = "if priv then ?p\<lparr>pa_private := True, pa_state := CsiPrivate\<rparr> else ?p"
  have "csi_state ?q" "pa_current_param ?q = 0" "pa_params ?q = replicate 16 0" "pa_param_count ?q = 0" "pa_intermediate ?q = 0" "pa_private ?q = priv"
    by (simp_all add: csi_state_def enter_csi_def MAX_PARAMS_def)
  then obtain r where "parser_run (params_bytes ps @ [final]) ?q = ([Csi (map int ps @ replicate (16 - length ps) 0) (length ps) 0 final priv], r)"
      "pa_state r = Ground"
    using run_params [OF assms(5) assms(2), of ?q] assms(3,4) by auto
  moreover have "parser_run ([0x1B, 0x5B] @ (if priv then [0x3F] else [])) p = ([], ?q)"
    using assms(1) by (simp add: parser_advance_def ground_def escape_def csi_entry_def enter_csi_def)
  ultimately show ?thesis
    using parser_run_append [of "[0x1B, 0x5B] @ (if priv then [0x3F] else [])" "params_bytes ps @ [final]" p]
    by (simp add: csi_bytes_def)
qed

theorem csi_roundtrip_witness:
  "\<exists>q. parser_run (csi_bytes False [12, 40] 0x48) Parser_new = ([Csi (map int [12, 40] @ replicate 14 0) (Suc (Suc 0)) 0 0x48 False], q) \<and> pa_state q = Ground"
  using csi_roundtrip [of Parser_new "[12, 40]" "0x48" False] by (simp add: Parser_new_def between_def)

end
