(* ===== verification/Term_State.thy ===== *)
theory Term_State
  imports Term_Grid Term_Parser
begin

text \<open>
  The terminal and its state: \<^verbatim>\<open>src/crates/sys/terminal/src/state.rs\<close> (cursor, colours, modes, scroll region,
  tab stops) and \<^verbatim>\<open>src/crates/sys/terminal/src/terminal.rs\<close> (the emulator that applies parser events to the
  state and the grid).

  Coordinates are \<open>i32\<close>: integers whose arithmetic wraps. \<open>i32::clamp\<close> panics when its bounds are out of
  order, and so does every access outside of an array.
\<close>

section \<open>The state\<close>

datatype mode = Normal | ApplicationCursor | ApplicationKeypad

record term_state =
  ts_cursor_x :: int
  ts_cursor_y :: int
  ts_width :: int
  ts_height :: int
  ts_fg :: color
  ts_bg :: color
  ts_default_fg :: color
  ts_default_bg :: color
  ts_flags :: byte
  ts_mode :: mode
  ts_autowrap :: bool
  ts_cursor_visible :: bool
  ts_reverse_video :: bool
  ts_origin_mode :: bool
  ts_scroll_top :: int
  ts_scroll_bottom :: int
  ts_saved_x :: int
  ts_saved_y :: int
  ts_saved_fg :: color
  ts_saved_bg :: color
  ts_saved_flags :: byte
  ts_pending_wrap :: bool
  ts_tab_stops :: "byte list"

text \<open>\<open>as usize\<close> of an \<open>i32\<close>, with sign extension.\<close>

definition as_usize :: "int \<Rightarrow> nat" where
  "as_usize x = nat (x mod 2 ^ 64)"

definition clamp :: "int \<Rightarrow> int \<Rightarrow> int \<Rightarrow> int pan" where
  "clamp x lo hi = (if lo > hi then Panic else Ok (if x < lo then lo else if x > hi then hi else x))"

definition set_tab_stop :: "nat \<Rightarrow> term_state \<Rightarrow> term_state" where
  "set_tab_stop col s =
     (if col < 160 then s\<lparr>ts_tab_stops := (ts_tab_stops s)[col div 8 := ts_tab_stops s ! (col div 8) OR push_bit (col mod 8) 1]\<rparr> else s)"

definition clear_tab_stop :: "nat \<Rightarrow> term_state \<Rightarrow> term_state" where
  "clear_tab_stop col s =
     (if col < 160 then s\<lparr>ts_tab_stops := (ts_tab_stops s)[col div 8 := ts_tab_stops s ! (col div 8) AND NOT (push_bit (col mod 8) 1)]\<rparr> else s)"

definition clear_all_tab_stops :: "term_state \<Rightarrow> term_state" where
  "clear_all_tab_stops s = s\<lparr>ts_tab_stops := replicate 20 0\<rparr>"

definition reset_tab_stops :: "term_state \<Rightarrow> term_state" where
  "reset_tab_stops s = fold (\<lambda>k. set_tab_stop (8 * k)) [0..<20] (s\<lparr>ts_tab_stops := replicate 20 0\<rparr>)"

definition is_tab_stop :: "nat \<Rightarrow> term_state \<Rightarrow> bool" where
  "is_tab_stop col s \<longleftrightarrow> col < 160 \<and> ts_tab_stops s ! (col div 8) AND push_bit (col mod 8) 1 \<noteq> 0"

definition TerminalState_new :: "nat \<Rightarrow> nat \<Rightarrow> color \<Rightarrow> color \<Rightarrow> term_state" where
  "TerminalState_new width height fg bg =
     reset_tab_stops \<lparr>ts_cursor_x = 0, ts_cursor_y = 0, ts_width = i32 (int width), ts_height = i32 (int height), ts_fg = fg, ts_bg = bg,
       ts_default_fg = fg, ts_default_bg = bg, ts_flags = 0, ts_mode = Normal, ts_autowrap = True, ts_cursor_visible = True,
       ts_reverse_video = False, ts_origin_mode = False, ts_scroll_top = 0, ts_scroll_bottom = i32 (i32 (int height) - 1),
       ts_saved_x = 0, ts_saved_y = 0, ts_saved_fg = fg, ts_saved_bg = bg, ts_saved_flags = 0, ts_pending_wrap = False,
       ts_tab_stops = replicate 20 0\<rparr>"

definition state_reset :: "term_state \<Rightarrow> term_state" where
  "state_reset s =
     reset_tab_stops (s\<lparr>ts_cursor_x := 0, ts_cursor_y := 0, ts_fg := ts_default_fg s, ts_bg := ts_default_bg s, ts_flags := 0,
       ts_mode := Normal, ts_autowrap := True, ts_cursor_visible := True, ts_reverse_video := False, ts_origin_mode := False,
       ts_scroll_top := 0, ts_scroll_bottom := i32 (ts_height s - 1), ts_pending_wrap := False\<rparr>)"

definition state_resize :: "nat \<Rightarrow> nat \<Rightarrow> term_state \<Rightarrow> term_state" where
  "state_resize width height s =
     (let w = i32 (int width); h = i32 (int height) in
      s\<lparr>ts_width := w, ts_height := h, ts_scroll_bottom := i32 (h - 1),
        ts_cursor_x := max (min (ts_cursor_x s) (i32 (w - 1))) 0, ts_cursor_y := max (min (ts_cursor_y s) (i32 (h - 1))) 0\<rparr>)"

definition clamp_cursor :: "term_state \<Rightarrow> term_state pan" where
  "clamp_cursor s =
     rbind (clamp (ts_cursor_x s) 0 (i32 (ts_width s - 1))) (\<lambda>x.
     let tp = (if ts_origin_mode s then ts_scroll_top s else 0);
         bt = (if ts_origin_mode s then ts_scroll_bottom s else i32 (ts_height s - 1)) in
     rbind (clamp (ts_cursor_y s) tp bt) (\<lambda>y. Ok (s\<lparr>ts_cursor_x := x, ts_cursor_y := y\<rparr>)))"

definition cursor_up :: "int \<Rightarrow> term_state \<Rightarrow> term_state pan" where
  "cursor_up n s = clamp_cursor (s\<lparr>ts_pending_wrap := False, ts_cursor_y := i32 (ts_cursor_y s - n)\<rparr>)"

definition cursor_down :: "int \<Rightarrow> term_state \<Rightarrow> term_state pan" where
  "cursor_down n s = clamp_cursor (s\<lparr>ts_pending_wrap := False, ts_cursor_y := i32 (ts_cursor_y s + n)\<rparr>)"

definition cursor_left :: "int \<Rightarrow> term_state \<Rightarrow> term_state pan" where
  "cursor_left n s = clamp_cursor (s\<lparr>ts_pending_wrap := False, ts_cursor_x := i32 (ts_cursor_x s - n)\<rparr>)"

definition cursor_right :: "int \<Rightarrow> term_state \<Rightarrow> term_state pan" where
  "cursor_right n s = clamp_cursor (s\<lparr>ts_pending_wrap := False, ts_cursor_x := i32 (ts_cursor_x s + n)\<rparr>)"

definition cursor_to :: "int \<Rightarrow> int \<Rightarrow> term_state \<Rightarrow> term_state pan" where
  "cursor_to x y s =
     clamp_cursor (s\<lparr>ts_pending_wrap := False, ts_cursor_x := x,
       ts_cursor_y := (if ts_origin_mode s then i32 (y + ts_scroll_top s) else y)\<rparr>)"

definition cursor_to_col :: "int \<Rightarrow> term_state \<Rightarrow> term_state pan" where
  "cursor_to_col x s = clamp_cursor (s\<lparr>ts_pending_wrap := False, ts_cursor_x := x\<rparr>)"

definition carriage_return :: "term_state \<Rightarrow> term_state" where
  "carriage_return s = s\<lparr>ts_pending_wrap := False, ts_cursor_x := 0\<rparr>"

definition newline :: "term_state \<Rightarrow> bool \<times> term_state" where
  "newline s =
     (let y = i32 (ts_cursor_y s + 1); s = s\<lparr>ts_pending_wrap := False, ts_cursor_y := y\<rparr> in
      if y > ts_scroll_bottom s then (True, s\<lparr>ts_cursor_y := ts_scroll_bottom s\<rparr>) else (False, s))"

definition advance_cursor :: "term_state \<Rightarrow> bool \<times> term_state" where
  "advance_cursor s =
     (if ts_pending_wrap s then newline (s\<lparr>ts_pending_wrap := False, ts_cursor_x := 0\<rparr>)
      else
        let x = i32 (ts_cursor_x s + 1) in
        if x \<ge> ts_width s
        then (False, if ts_autowrap s then s\<lparr>ts_pending_wrap := True, ts_cursor_x := i32 (ts_width s - 1)\<rparr>
                     else s\<lparr>ts_cursor_x := i32 (ts_width s - 1)\<rparr>)
        else (False, s\<lparr>ts_cursor_x := x\<rparr>))"

definition save_cursor :: "term_state \<Rightarrow> term_state" where
  "save_cursor s = s\<lparr>ts_saved_x := ts_cursor_x s, ts_saved_y := ts_cursor_y s, ts_saved_fg := ts_fg s, ts_saved_bg := ts_bg s,
     ts_saved_flags := ts_flags s\<rparr>"

definition restore_cursor :: "term_state \<Rightarrow> term_state pan" where
  "restore_cursor s =
     clamp_cursor (s\<lparr>ts_cursor_x := ts_saved_x s, ts_cursor_y := ts_saved_y s, ts_fg := ts_saved_fg s, ts_bg := ts_saved_bg s,
       ts_flags := ts_saved_flags s, ts_pending_wrap := False\<rparr>)"

definition set_scroll_region :: "int \<Rightarrow> int \<Rightarrow> term_state \<Rightarrow> term_state pan" where
  "set_scroll_region tp0 bt0 s =
     rbind (clamp tp0 0 (i32 (ts_height s - 1))) (\<lambda>tp.
     rbind (clamp bt0 tp (i32 (ts_height s - 1))) (\<lambda>bt.
     Ok (s\<lparr>ts_scroll_top := tp, ts_scroll_bottom := bt, ts_cursor_x := 0, ts_cursor_y := (if ts_origin_mode s then tp else 0)\<rparr>)))"

definition next_tab_stop :: "term_state \<Rightarrow> int" where
  "next_tab_stop s =
     (case find (\<lambda>col. is_tab_stop col s) [as_usize (i32 (ts_cursor_x s + 1))..<as_usize (ts_width s)] of
        Some col \<Rightarrow> i32 (int col)
      | None \<Rightarrow> i32 (ts_width s - 1))"

definition tab :: "term_state \<Rightarrow> term_state" where
  "tab s = (let s = s\<lparr>ts_pending_wrap := False\<rparr> in s\<lparr>ts_cursor_x := next_tab_stop s\<rparr>)"

definition reset_attributes :: "term_state \<Rightarrow> term_state" where
  "reset_attributes s = s\<lparr>ts_fg := ts_default_fg s, ts_bg := ts_default_bg s, ts_flags := 0, ts_reverse_video := False\<rparr>"

text \<open>The six attribute setters differ in the flag; \<open>set_reverse\<close> also records the mode.\<close>

definition set_flag :: "byte \<Rightarrow> bool \<Rightarrow> term_state \<Rightarrow> term_state" where
  "set_flag f on s = s\<lparr>ts_flags := (if on then ts_flags s OR f else ts_flags s AND NOT f)\<rparr>"

definition set_bold :: "bool \<Rightarrow> term_state \<Rightarrow> term_state" where "set_bold = set_flag BOLD"
definition set_italic :: "bool \<Rightarrow> term_state \<Rightarrow> term_state" where "set_italic = set_flag ITALIC"
definition set_underline :: "bool \<Rightarrow> term_state \<Rightarrow> term_state" where "set_underline = set_flag UNDERLINE"
definition set_blink :: "bool \<Rightarrow> term_state \<Rightarrow> term_state" where "set_blink = set_flag BLINK"
definition set_strikethrough :: "bool \<Rightarrow> term_state \<Rightarrow> term_state" where "set_strikethrough = set_flag STRIKETHROUGH"

definition set_reverse :: "bool \<Rightarrow> term_state \<Rightarrow> term_state" where
  "set_reverse on s = set_flag REVERSE on (s\<lparr>ts_reverse_video := on\<rparr>)"

section \<open>The terminal\<close>

record terminal =
  te_grid :: grid
  te_state :: term_state
  te_parser :: parser

definition Terminal_new :: "nat \<Rightarrow> nat \<Rightarrow> terminal pan" where
  "Terminal_new cols rows =
     rbind (Grid_new cols rows WHITE BLACK) (\<lambda>g.
     Ok \<lparr>te_grid = g, te_state = TerminalState_new cols rows WHITE BLACK, te_parser = Parser_new\<rparr>)"

definition terminal_resize :: "nat \<Rightarrow> nat \<Rightarrow> terminal \<Rightarrow> terminal pan" where
  "terminal_resize cols rows t =
     rbind (grid_resize cols rows (te_grid t)) (\<lambda>g. Ok (t\<lparr>te_grid := g, te_state := state_resize cols rows (te_state t)\<rparr>))"

definition terminal_size :: "terminal \<Rightarrow> nat \<times> nat" where
  "terminal_size t = (gr_cols (te_grid t), gr_rows (te_grid t))"

definition terminal_cursor :: "terminal \<Rightarrow> nat \<times> nat" where
  "terminal_cursor t = (as_usize (ts_cursor_x (te_state t)), as_usize (ts_cursor_y (te_state t)))"

text \<open>Operations on one part of the terminal.\<close>

definition on_grid :: "(grid \<Rightarrow> grid pan) \<Rightarrow> terminal \<Rightarrow> terminal pan" where
  "on_grid f t = rbind (f (te_grid t)) (\<lambda>g. Ok (t\<lparr>te_grid := g\<rparr>))"

definition on_state :: "(term_state \<Rightarrow> term_state pan) \<Rightarrow> terminal \<Rightarrow> terminal pan" where
  "on_state f t = rbind (f (te_state t)) (\<lambda>s. Ok (t\<lparr>te_state := s\<rparr>))"

definition upd_state :: "(term_state \<Rightarrow> term_state) \<Rightarrow> terminal \<Rightarrow> terminal pan" where
  "upd_state f t = Ok (t\<lparr>te_state := f (te_state t)\<rparr>)"

definition term_scroll_up :: "nat \<Rightarrow> terminal \<Rightarrow> terminal pan" where
  "term_scroll_up n t =
     on_grid (grid_scroll_up (as_usize (ts_scroll_top (te_state t))) (as_usize (i32 (ts_scroll_bottom (te_state t) + 1))) n) t"

definition term_scroll_down :: "nat \<Rightarrow> terminal \<Rightarrow> terminal pan" where
  "term_scroll_down n t =
     on_grid (grid_scroll_down (as_usize (ts_scroll_top (te_state t))) (as_usize (i32 (ts_scroll_bottom (te_state t) + 1))) n) t"

definition insert_lines :: "nat \<Rightarrow> terminal \<Rightarrow> terminal pan" where
  "insert_lines n t =
     on_grid (grid_scroll_down (as_usize (ts_cursor_y (te_state t))) (as_usize (i32 (ts_scroll_bottom (te_state t) + 1))) n) t"

definition delete_lines :: "nat \<Rightarrow> terminal \<Rightarrow> terminal pan" where
  "delete_lines n t =
     on_grid (grid_scroll_up (as_usize (ts_cursor_y (te_state t))) (as_usize (i32 (ts_scroll_bottom (te_state t) + 1))) n) t"

definition insert_chars :: "nat \<Rightarrow> terminal \<Rightarrow> terminal pan" where "insert_chars n t = Ok t"

definition delete_chars :: "nat \<Rightarrow> terminal \<Rightarrow> terminal pan" where "delete_chars n t = Ok t"

text \<open>\<open>if self.state.newline() { self.scroll_up(1) }\<close>, and the same for \<open>advance_cursor\<close>.\<close>

definition step_scroll :: "(term_state \<Rightarrow> bool \<times> term_state) \<Rightarrow> terminal \<Rightarrow> terminal pan" where
  "step_scroll f t = (let (scroll, s) = f (te_state t); t = t\<lparr>te_state := s\<rparr> in if scroll then term_scroll_up 1 t else Ok t)"

definition print_char :: "byte \<Rightarrow> terminal \<Rightarrow> terminal pan" where
  "print_char ch t =
     (let s = te_state t; x = as_usize (ts_cursor_x s); y = as_usize (ts_cursor_y s) in
      rbind (on_grid (grid_set x y (Cell_with_flags ch (ts_fg s) (ts_bg s) (ts_flags s))) t) (step_scroll advance_cursor))"

definition execute :: "byte \<Rightarrow> terminal \<Rightarrow> terminal pan" where
  "execute b t =
     (if b = 0x08 then on_state (cursor_left 1) t
      else if b = 0x09 then upd_state tab t
      else if b = 0x0A \<or> b = 0x0B \<or> b = 0x0C then rbind (upd_state carriage_return t) (step_scroll newline)
      else if b = 0x0D then upd_state carriage_return t
      else Ok t)"

definition erase_in_line :: "int \<Rightarrow> terminal \<Rightarrow> terminal pan" where
  "erase_in_line m t =
     (let cy = as_usize (ts_cursor_y (te_state t)); cx = as_usize (ts_cursor_x (te_state t)) in
      if m = 0 then on_grid (clear_row_from cy cx) t
      else if m = 1 then on_grid (clear_row_to cy cx) t
      else if m = 2 then on_grid (clear_row cy) t
      else Ok t)"

definition erase_in_display :: "int \<Rightarrow> terminal \<Rightarrow> terminal pan" where
  "erase_in_display m t =
     (let cy = as_usize (ts_cursor_y (te_state t)); cx = as_usize (ts_cursor_x (te_state t)) in
      if m = 0 then rbind (on_grid (clear_row_from cy cx) t) (\<lambda>t. on_grid (for_res clear_row [cy + 1..<gr_rows (te_grid t)]) t)
      else if m = 1 then rbind (on_grid (for_res clear_row [0..<cy]) t) (on_grid (clear_row_to cy cx))
      else if m = 2 \<or> m = 3 then on_grid grid_clear t
      else Ok t)"

text \<open>An extended colour (38 and 48): the colour, if any, and how many parameters it takes.\<close>

definition byte_of :: "int \<Rightarrow> byte" where
  "byte_of x = word_of_int x"

definition extended_color :: "int list \<Rightarrow> nat \<Rightarrow> nat \<Rightarrow> (color \<times> nat) option pan" where
  "extended_color ps count i =
     (if i + 1 < count
      then rbind (or_panic (if i + 1 < length ps then Some (ps ! (i + 1)) else None)) (\<lambda>k.
        if k = 5 \<and> i + 2 < count
        then rbind (or_panic (if i + 2 < length ps then Some (ps ! (i + 2)) else None)) (\<lambda>c. Ok (Some (color_256 (byte_of c), 2)))
        else if k = 2 \<and> i + 4 < count
        then rbind (or_panic (if i + 4 < length ps then Some (ps ! (i + 2), ps ! (i + 3), ps ! (i + 4)) else None)) (\<lambda>(r, g, b).
             Ok (Some (rgb (byte_of r) (byte_of g) (byte_of b), 4)))
        else Ok None)
      else Ok None)"

text \<open>A parameter of \<open>handle_sgr\<close> that stands for itself.\<close>

definition sgr_attr :: "int \<Rightarrow> term_state \<Rightarrow> term_state" where
  "sgr_attr p s =
      (if p = 0 then reset_attributes s
       else if p = 1 then set_bold True s
       else if p = 3 then set_italic True s
       else if p = 4 then set_underline True s
       else if p = 5 \<or> p = 6 then set_blink True s
       else if p = 7 then set_reverse True s
       else if p = 9 then set_strikethrough True s
       else if p = 21 \<or> p = 22 then set_bold False s
       else if p = 23 then set_italic False s
       else if p = 24 then set_underline False s
       else if p = 25 then set_blink False s
       else if p = 27 then set_reverse False s
       else if p = 29 then set_strikethrough False s
       else if 30 \<le> p \<and> p \<le> 37 then s\<lparr>ts_fg := ANSI_COLORS ! nat (p - 30)\<rparr>
       else if p = 39 then s\<lparr>ts_fg := ts_default_fg s\<rparr>
       else if 40 \<le> p \<and> p \<le> 47 then s\<lparr>ts_bg := ANSI_COLORS ! nat (p - 40)\<rparr>
       else if p = 49 then s\<lparr>ts_bg := ts_default_bg s\<rparr>
       else if 90 \<le> p \<and> p \<le> 97 then s\<lparr>ts_fg := ANSI_COLORS ! nat (p - 90 + 8)\<rparr>
       else if 100 \<le> p \<and> p \<le> 107 then s\<lparr>ts_bg := ANSI_COLORS ! nat (p - 100 + 8)\<rparr>
       else s)"

text \<open>One parameter of \<open>handle_sgr\<close>: the new state and the next index.\<close>

definition sgr_step :: "int list \<Rightarrow> nat \<Rightarrow> nat \<Rightarrow> term_state \<Rightarrow> (nat \<times> term_state) pan" where
  "sgr_step ps count i s =
     rbind (or_panic (if i < length ps then Some (ps ! i) else None)) (\<lambda>p.
     if p = 38 then rbind (extended_color ps count i) (\<lambda>e. case e of Some (c, n) \<Rightarrow> Ok (i + n + 1, s\<lparr>ts_fg := c\<rparr>) | None \<Rightarrow> Ok (i + 1, s))
     else if p = 48 then rbind (extended_color ps count i) (\<lambda>e. case e of Some (c, n) \<Rightarrow> Ok (i + n + 1, s\<lparr>ts_bg := c\<rparr>) | None \<Rightarrow> Ok (i + 1, s))
     else Ok (i + 1, sgr_attr p s))"

lemma sgr_step_advances: "sgr_step ps count i s = Ok (j, s') \<Longrightarrow> i < j"
  by (auto simp: sgr_step_def split: if_splits option.splits)

function sgr_loop :: "int list \<Rightarrow> nat \<Rightarrow> nat \<Rightarrow> term_state \<Rightarrow> term_state pan" where
  "sgr_loop ps count i s =
     (if i < count
      then case sgr_step ps count i s of
          Ok (j, s') \<Rightarrow> sgr_loop ps count j s'
        | Err e \<Rightarrow> Err e
        | Panic \<Rightarrow> Panic
      else Ok s)"
  by pat_completeness auto
termination by (relation "measure (\<lambda>(ps, count, i, s). count - i)") (auto dest: sgr_step_advances)

definition handle_sgr :: "int list \<Rightarrow> nat \<Rightarrow> term_state \<Rightarrow> term_state pan" where
  "handle_sgr ps count s = (if count = 0 then Ok (reset_attributes s) else sgr_loop ps count 0 s)"

definition handle_csi_private :: "int list \<Rightarrow> nat \<Rightarrow> byte \<Rightarrow> terminal \<Rightarrow> terminal pan" where
  "handle_csi_private ps count cmd t =
     (let m = csi_param ps count 0 0 in
      if cmd = 0x68 then
        (if m = 1 then upd_state (\<lambda>s. s\<lparr>ts_mode := ApplicationCursor\<rparr>) t
         else if m = 7 then upd_state (\<lambda>s. s\<lparr>ts_autowrap := True\<rparr>) t
         else if m = 25 then upd_state (\<lambda>s. s\<lparr>ts_cursor_visible := True\<rparr>) t
         else Ok t)
      else if cmd = 0x6C then
        (if m = 1 then upd_state (\<lambda>s. s\<lparr>ts_mode := Normal\<rparr>) t
         else if m = 7 then upd_state (\<lambda>s. s\<lparr>ts_autowrap := False\<rparr>) t
         else if m = 25 then upd_state (\<lambda>s. s\<lparr>ts_cursor_visible := False\<rparr>) t
         else Ok t)
      else Ok t)"

definition handle_csi :: "int list \<Rightarrow> nat \<Rightarrow> byte \<Rightarrow> bool \<Rightarrow> terminal \<Rightarrow> terminal pan" where
  "handle_csi ps count cmd priv t =
     (let n = csi_param ps count 0 1; un = as_usize n; m = csi_param ps count 0 0 in
      if priv then handle_csi_private ps count cmd t
      else if cmd = 0x41 then on_state (cursor_up n) t
      else if cmd = 0x42 then on_state (cursor_down n) t
      else if cmd = 0x43 then on_state (cursor_right n) t
      else if cmd = 0x44 then on_state (cursor_left n) t
      else if cmd = 0x45 then rbind (on_state (cursor_down n) t) (upd_state carriage_return)
      else if cmd = 0x46 then rbind (on_state (cursor_up n) t) (upd_state carriage_return)
      else if cmd = 0x47 \<or> cmd = 0x60 then on_state (cursor_to_col (i32 (n - 1))) t
      else if cmd = 0x48 \<or> cmd = 0x66 then on_state (cursor_to (i32 (csi_param ps count 1 1 - 1)) (i32 (n - 1))) t
      else if cmd = 0x64 then on_state (\<lambda>s. cursor_to (ts_cursor_x s) (i32 (n - 1)) s) t
      else if cmd = 0x4A then erase_in_display m t
      else if cmd = 0x4B then erase_in_line m t
      else if cmd = 0x4C then insert_lines un t
      else if cmd = 0x4D then delete_lines un t
      else if cmd = 0x50 then delete_chars un t
      else if cmd = 0x40 then insert_chars un t
      else if cmd = 0x53 then term_scroll_up un t
      else if cmd = 0x54 then term_scroll_down un t
      else if cmd = 0x6D then on_state (handle_sgr ps count) t
      else if cmd = 0x72 then
        on_state (\<lambda>s. set_scroll_region (i32 (n - 1)) (i32 (csi_param ps count 1 (ts_height s) - 1)) s) t
      else if cmd = 0x67 then
        (if m = 0 then upd_state (\<lambda>s. clear_tab_stop (as_usize (ts_cursor_x s)) s) t
         else if m = 3 then upd_state clear_all_tab_stops t
         else Ok t)
      else if cmd = 0x73 then upd_state save_cursor t
      else if cmd = 0x75 then on_state restore_cursor t
      else Ok t)"

definition terminal_reset :: "terminal \<Rightarrow> terminal pan" where
  "terminal_reset t =
     rbind (on_grid grid_clear (t\<lparr>te_state := state_reset (te_state t)\<rparr>)) (\<lambda>t. Ok (t\<lparr>te_parser := parser_reset (te_parser t)\<rparr>))"

definition handle_esc :: "byte \<Rightarrow> terminal \<Rightarrow> terminal pan" where
  "handle_esc b t =
     (if b = 0x37 then upd_state save_cursor t
      else if b = 0x38 then on_state restore_cursor t
      else if b = 0x63 then terminal_reset t
      else if b = 0x44 then step_scroll newline t
      else if b = 0x45 then rbind (upd_state carriage_return t) (step_scroll newline)
      else if b = 0x48 then upd_state (\<lambda>s. set_tab_stop (as_usize (ts_cursor_x s)) s) t
      else if b = 0x4D then
        (if ts_cursor_y (te_state t) \<le> ts_scroll_top (te_state t) then term_scroll_down 1 t else on_state (cursor_up 1) t)
      else Ok t)"

definition handle_event :: "event \<Rightarrow> terminal \<Rightarrow> terminal pan" where
  "handle_event e t =
     (case e of
        Print ch \<Rightarrow> print_char ch t
      | Execute b \<Rightarrow> execute b t
      | Csi ps count _ final priv \<Rightarrow> handle_csi ps count final priv t
      | EscDispatch b \<Rightarrow> handle_esc b t
      | Osc _ \<Rightarrow> Ok t
      | Charset _ _ \<Rightarrow> Ok t)"

definition process_byte :: "byte \<Rightarrow> terminal \<Rightarrow> terminal pan" where
  "process_byte b t =
     (let (ev, p) = parser_advance b (te_parser t); t = t\<lparr>te_parser := p\<rparr> in
      case ev of Some e \<Rightarrow> handle_event e t | None \<Rightarrow> Ok t)"

definition process_bytes :: "byte list \<Rightarrow> terminal \<Rightarrow> terminal pan" where
  "process_bytes bs t = for_res process_byte bs t"

definition terminal_clear :: "terminal \<Rightarrow> terminal pan" where
  "terminal_clear t = rbind (on_grid grid_clear t) (on_state (cursor_to 0 0))"

section \<open>The invariant\<close>

declare sgr_loop.simps [simp del]

definition wf_frame :: "nat \<Rightarrow> nat \<Rightarrow> term_state \<Rightarrow> bool" where
  "wf_frame w h s \<longleftrightarrow> 1 \<le> w \<and> w \<le> 160 \<and> 1 \<le> h \<and> h \<le> 50 \<and> ts_width s = int w \<and> ts_height s = int h \<and>
     0 \<le> ts_scroll_top s \<and> ts_scroll_top s \<le> ts_scroll_bottom s \<and> ts_scroll_bottom s < int h \<and>
     \<not> ts_origin_mode s \<and> length (ts_tab_stops s) = 20"

definition wf_state :: "nat \<Rightarrow> nat \<Rightarrow> term_state \<Rightarrow> bool" where
  "wf_state w h s \<longleftrightarrow> wf_frame w h s \<and> 0 \<le> ts_cursor_x s \<and> ts_cursor_x s < int w \<and> 0 \<le> ts_cursor_y s \<and> ts_cursor_y s < int h"

definition wf_terminal :: "nat \<Rightarrow> nat \<Rightarrow> terminal \<Rightarrow> bool" where
  "wf_terminal w h t \<longleftrightarrow> wf_state w h (te_state t) \<and> wf_grid (te_grid t) \<and> gr_cols (te_grid t) = w \<and> gr_rows (te_grid t) = h \<and>
     wf_parser (te_parser t)"

lemma small_i32: "- 300 \<le> x \<Longrightarrow> x \<le> 300 \<Longrightarrow> i32 x = x"
  by (rule i32_id) (simp add: is_i32_def)

lemma clamp_cursor_returns: "wf_frame w h s \<Longrightarrow> returns (wf_state w h) (clamp_cursor s)"
  by (auto simp: wf_frame_def wf_state_def clamp_cursor_def clamp_def returns_def small_i32 Let_def)

lemma wf_frame_cursor [simp]:
  "wf_frame w h (s\<lparr>ts_cursor_x := x\<rparr>) = wf_frame w h s" "wf_frame w h (s\<lparr>ts_cursor_y := y\<rparr>) = wf_frame w h s"
  "wf_frame w h (s\<lparr>ts_pending_wrap := b\<rparr>) = wf_frame w h s" "wf_frame w h (s\<lparr>ts_fg := c\<rparr>) = wf_frame w h s"
  "wf_frame w h (s\<lparr>ts_bg := c\<rparr>) = wf_frame w h s" "wf_frame w h (s\<lparr>ts_flags := f\<rparr>) = wf_frame w h s"
  "wf_frame w h (s\<lparr>ts_reverse_video := b\<rparr>) = wf_frame w h s" "wf_frame w h (s\<lparr>ts_mode := m\<rparr>) = wf_frame w h s"
  "wf_frame w h (s\<lparr>ts_autowrap := b\<rparr>) = wf_frame w h s" "wf_frame w h (s\<lparr>ts_cursor_visible := b\<rparr>) = wf_frame w h s"
  by (simp_all add: wf_frame_def)

lemma wf_state_attr [simp]:
  "wf_state w h (s\<lparr>ts_pending_wrap := b\<rparr>) = wf_state w h s" "wf_state w h (s\<lparr>ts_fg := c\<rparr>) = wf_state w h s"
  "wf_state w h (s\<lparr>ts_bg := c\<rparr>) = wf_state w h s" "wf_state w h (s\<lparr>ts_flags := f\<rparr>) = wf_state w h s"
  "wf_state w h (s\<lparr>ts_reverse_video := b\<rparr>) = wf_state w h s" "wf_state w h (s\<lparr>ts_mode := m\<rparr>) = wf_state w h s"
  "wf_state w h (s\<lparr>ts_autowrap := b\<rparr>) = wf_state w h s" "wf_state w h (s\<lparr>ts_cursor_visible := b\<rparr>) = wf_state w h s"
  by (simp_all add: wf_state_def)

lemma wf_set_tab_stop [simp]: "wf_state w h (set_tab_stop c s) = wf_state w h s" "wf_state w h (clear_tab_stop c s) = wf_state w h s"
  "wf_frame w h (set_tab_stop c s) = wf_frame w h s"
  by (simp_all add: set_tab_stop_def clear_tab_stop_def wf_state_def wf_frame_def)

lemma wf_reset_tab_stops: "wf_state w h s \<Longrightarrow> wf_state w h (reset_tab_stops s)"
proof -
  assume "wf_state w h s"
  then have "wf_state w h (s\<lparr>ts_tab_stops := replicate 20 0\<rparr>)" by (simp add: wf_state_def wf_frame_def)
  then have "wf_state w h (fold (\<lambda>k. set_tab_stop (8 * k)) ks (s\<lparr>ts_tab_stops := replicate 20 0\<rparr>))" for ks
    by (induction ks rule: rev_induct) auto
  then show ?thesis by (simp add: reset_tab_stops_def)
qed

lemma wf_pure_state:
  assumes "wf_state w h s"
  shows "wf_state w h (carriage_return s)" "wf_state w h (save_cursor s)" "wf_state w h (reset_attributes s)"
    "wf_state w h (set_flag f b s)" "wf_state w h (clear_all_tab_stops s)" "wf_state w h (state_reset s)" "wf_state w h (tab s)"
    "wf_state w h (snd (newline s))" "wf_state w h (snd (advance_cursor s))"
proof -
  show "wf_state w h (carriage_return s)" "wf_state w h (save_cursor s)" "wf_state w h (reset_attributes s)"
    "wf_state w h (set_flag f b s)" "wf_state w h (clear_all_tab_stops s)"
    using assms by (simp_all add: carriage_return_def save_cursor_def reset_attributes_def set_flag_def clear_all_tab_stops_def
      wf_state_def wf_frame_def)
  show "wf_state w h (state_reset s)" unfolding state_reset_def
    by (rule wf_reset_tab_stops) (use assms in \<open>auto simp: wf_state_def wf_frame_def small_i32\<close>)
  have nl: "wf_state w h (snd (newline s))" if "wf_state w h s" for s
    using that by (auto simp: newline_def wf_state_def wf_frame_def small_i32 Let_def)
  show "wf_state w h (snd (newline s))" by (rule nl [OF assms])
  have "wf_state w h (s\<lparr>ts_pending_wrap := False, ts_cursor_x := 0\<rparr>)" using assms by (simp add: wf_state_def wf_frame_def)
  from nl [OF this] show "wf_state w h (snd (advance_cursor s))"
    using assms by (auto simp: advance_cursor_def wf_state_def wf_frame_def small_i32 Let_def)
  have "0 \<le> next_tab_stop s \<and> next_tab_stop s < int w" if "wf_state w h s" for s
  proof (cases "find (\<lambda>col. is_tab_stop col s) [as_usize (i32 (ts_cursor_x s + 1))..<as_usize (ts_width s)]")
    case (Some col)
    then have "col < as_usize (ts_width s)" by (auto simp: find_Some_iff)
    then have "col < w" using that by (simp add: as_usize_def wf_state_def wf_frame_def)
    then show ?thesis using Some that by (simp add: next_tab_stop_def wf_state_def wf_frame_def small_i32)
  next
    case None
    then show ?thesis using that by (auto simp: next_tab_stop_def wf_state_def wf_frame_def small_i32)
  qed
  from this [of "s\<lparr>ts_pending_wrap := False\<rparr>"] show "wf_state w h (tab s)" using assms by (simp add: tab_def wf_state_def Let_def)
qed

lemma cursor_returns:
  assumes "wf_state w h s"
  shows "returns (wf_state w h) (cursor_up n s)" "returns (wf_state w h) (cursor_down n s)" "returns (wf_state w h) (cursor_left n s)"
    "returns (wf_state w h) (cursor_right n s)" "returns (wf_state w h) (cursor_to x y s)" "returns (wf_state w h) (cursor_to_col x s)"
    "returns (wf_state w h) (restore_cursor s)" "returns (wf_state w h) (set_scroll_region n m s)"
proof -
  have f: "wf_frame w h s" using assms by (simp add: wf_state_def)
  show "returns (wf_state w h) (cursor_up n s)" "returns (wf_state w h) (cursor_down n s)" "returns (wf_state w h) (cursor_left n s)"
    "returns (wf_state w h) (cursor_right n s)" "returns (wf_state w h) (cursor_to x y s)" "returns (wf_state w h) (cursor_to_col x s)"
    "returns (wf_state w h) (restore_cursor s)"
    using f unfolding cursor_up_def cursor_down_def cursor_left_def cursor_right_def cursor_to_def cursor_to_col_def restore_cursor_def
    by (auto intro!: clamp_cursor_returns)
  show "returns (wf_state w h) (set_scroll_region n m s)"
    using f by (auto simp: set_scroll_region_def clamp_def returns_def wf_state_def wf_frame_def small_i32)
qed


lemma wf_set_flag [simp]: "wf_state w h (set_flag f b s) = wf_state w h s"
  by (simp add: set_flag_def)

lemma wf_sgr_attr: "wf_state w h s \<Longrightarrow> wf_state w h (sgr_attr p s)"
  using wf_pure_state(3) [of w h s]
  by (simp add: sgr_attr_def set_bold_def set_italic_def set_underline_def set_blink_def set_strikethrough_def set_reverse_def)

lemma extended_color_ok: "length ps = 16 \<Longrightarrow> count \<le> 16 \<Longrightarrow> \<exists>e. extended_color ps count i = Ok e"
  by (simp add: extended_color_def)

lemma sgr_step_ok:
  assumes "wf_state w h s" "length ps = 16" "count \<le> 16" "i < count"
  shows "\<exists>j s'. sgr_step ps count i s = Ok (j, s') \<and> wf_state w h s'"
proof -
  obtain e where "extended_color ps count i = Ok e" using extended_color_ok assms(2,3) by blast
  then show ?thesis using assms wf_sgr_attr [OF assms(1)]
    by (cases e) (auto simp: sgr_step_def)
qed

lemma sgr_loop_returns:
  "wf_state w h s \<Longrightarrow> length ps = 16 \<Longrightarrow> count \<le> 16 \<Longrightarrow> returns (wf_state w h) (sgr_loop ps count i s)"
proof (induction ps count i s rule: sgr_loop.induct)
  case (1 ps count i s)
  show ?case
  proof (cases "i < count")
    case True
    obtain j s' where j: "sgr_step ps count i s = Ok (j, s')" and "wf_state w h s'" using sgr_step_ok [OF 1(2-4) True] by blast
    then show ?thesis using 1(1) [OF True j refl] 1(3,4) True j by (subst sgr_loop.simps) simp
  next
    case False
    then show ?thesis using 1(2) by (subst sgr_loop.simps) simp
  qed
qed

lemma handle_sgr_returns: "wf_state w h s \<Longrightarrow> length ps = 16 \<Longrightarrow> count \<le> 16 \<Longrightarrow> returns (wf_state w h) (handle_sgr ps count s)"
  by (simp add: handle_sgr_def sgr_loop_returns wf_pure_state)

text \<open>The invariant of a run: the terminal is well formed, and the dirty flags account for every change of the grid
  since \<open>g0\<close>.\<close>

definition tracks :: "grid \<Rightarrow> nat \<Rightarrow> nat \<Rightarrow> terminal \<Rightarrow> bool" where
  "tracks g0 w h t \<longleftrightarrow> wf_terminal w h t \<and> accounted g0 (te_grid t) \<and> gr_default_fg (te_grid t) = gr_default_fg g0 \<and>
     gr_default_bg (te_grid t) = gr_default_bg g0"

lemma on_grid_returns:
  assumes "tracks g0 w h t" and "\<exists>g'. f (te_grid t) = Ok g' \<and> keeps (te_grid t) g'"
  shows "returns (tracks g0 w h) (on_grid f t)"
  using assms by (auto simp: on_grid_def tracks_def wf_terminal_def keeps_def intro: accounted_trans)

lemma on_grid_safe: "safe f \<Longrightarrow> tracks g0 w h t \<Longrightarrow> returns (tracks g0 w h) (on_grid f t)"
  by (rule on_grid_returns) (auto simp: safe_def tracks_def wf_terminal_def)

lemma on_state_returns:
  "tracks g0 w h t \<Longrightarrow> returns (wf_state w h) (f (te_state t)) \<Longrightarrow> returns (tracks g0 w h) (on_state f t)"
  by (auto simp: on_state_def tracks_def wf_terminal_def returns_def)

lemma upd_state_returns:
  "tracks g0 w h t \<Longrightarrow> wf_state w h (f (te_state t)) \<Longrightarrow> returns (tracks g0 w h) (upd_state f t)"
  by (simp add: upd_state_def tracks_def wf_terminal_def)

lemma scroll_returns:
  assumes "tracks g0 w h t"
  shows "returns (tracks g0 w h) (term_scroll_up n t)" "returns (tracks g0 w h) (term_scroll_down n t)"
    "returns (tracks g0 w h) (insert_lines n t)" "returns (tracks g0 w h) (delete_lines n t)"
  unfolding term_scroll_up_def term_scroll_down_def insert_lines_def delete_lines_def
  using assms by (auto intro!: on_grid_safe safe_scroll)

lemma step_scroll_returns:
  assumes "tracks g0 w h t" and "wf_state w h (snd (f (te_state t)))"
  shows "returns (tracks g0 w h) (step_scroll f t)"
proof -
  obtain b s where f: "f (te_state t) = (b, s)" by (rule prod.exhaust)
  then have "tracks g0 w h (t\<lparr>te_state := s\<rparr>)" using assms by (simp add: tracks_def wf_terminal_def)
  then show ?thesis using scroll_returns(1) [of g0 w h "t\<lparr>te_state := s\<rparr>" 1] by (simp add: step_scroll_def f Let_def)
qed

lemma tracksD: "tracks g0 w h t \<Longrightarrow> wf_state w h (te_state t)"
  by (simp add: tracks_def wf_terminal_def)

lemmas pure_returns = wf_pure_state [OF tracksD] and cursor_steps = cursor_returns [OF tracksD]

lemma print_char_returns: "tracks g0 w h t \<Longrightarrow> returns (tracks g0 w h) (print_char ch t)"
  unfolding print_char_def Let_def
  by (rule returns_bind [OF on_grid_safe [OF safe_grid_set]]) (auto intro!: step_scroll_returns pure_returns)

lemma execute_returns: "tracks g0 w h t \<Longrightarrow> returns (tracks g0 w h) (execute b t)"
  unfolding execute_def
  by (auto intro!: on_state_returns upd_state_returns cursor_steps pure_returns returns_bind [where I = "tracks g0 w h"] step_scroll_returns)

lemma clear_row_to_returns:
  assumes "tracks g0 w h t"
  shows "returns (tracks g0 w h) (on_grid (clear_row_to row a) t)"
  using assms by (intro on_grid_returns safe_clear_row(3)) (auto simp: tracks_def wf_terminal_def wf_state_def wf_frame_def)

lemma erase_returns:
  assumes "tracks g0 w h t"
  shows "returns (tracks g0 w h) (erase_in_line m t)" "returns (tracks g0 w h) (erase_in_display m t)"
  using assms unfolding erase_in_line_def erase_in_display_def Let_def
  by (auto intro!: on_grid_safe safe_clear_row(1,2) safe_grid_clear safe_for clear_row_to_returns returns_bind [where I = "tracks g0 w h"])

lemma handle_csi_returns:
  assumes "tracks g0 w h t" and "wf_params ps count"
  shows "returns (tracks g0 w h) (handle_csi ps count cmd priv t)"
proof -
  have p: "length ps = 16" "count \<le> 16" using assms(2) by (simp_all add: wf_params_def MAX_PARAMS_def)
  have s: "wf_state w h (te_state t)" by (rule tracksD [OF assms(1)])
  have priv: "returns (tracks g0 w h) (handle_csi_private ps count cmd t)"
    using assms(1) s unfolding handle_csi_private_def Let_def by (auto intro!: upd_state_returns)
  show ?thesis
    unfolding handle_csi_def Let_def
    using assms(1) s priv p erase_returns [OF assms(1)] scroll_returns [OF assms(1)]
    by (auto simp: insert_chars_def delete_chars_def intro!: on_state_returns upd_state_returns cursor_steps cursor_returns pure_returns
      handle_sgr_returns returns_bind [where I = "tracks g0 w h"])
qed

lemma handle_esc_returns: "tracks g0 w h t \<Longrightarrow> returns (tracks g0 w h) (handle_esc b t)"
proof -
  assume wf: "tracks g0 w h t"
  have reset: "returns (tracks g0 w h) (terminal_reset t)"
  proof -
    have "tracks g0 w h (t\<lparr>te_state := state_reset (te_state t)\<rparr>)"
      using wf pure_returns(6) [OF wf] by (simp add: tracks_def wf_terminal_def)
    from on_grid_safe [OF safe_grid_clear this] show ?thesis
      by (auto simp: terminal_reset_def returns_def tracks_def wf_terminal_def wf_parser_def parser_reset_def)
  qed
  show ?thesis
    unfolding handle_esc_def using wf reset scroll_returns [OF wf] tracksD [OF wf]
    by (auto intro!: on_state_returns upd_state_returns cursor_steps pure_returns returns_bind [where I = "tracks g0 w h"] step_scroll_returns)
qed

lemma process_byte_returns:
  assumes "tracks g0 w h t"
  shows "returns (tracks g0 w h) (process_byte b t)"
proof -
  obtain ev p where a: "parser_advance b (te_parser t) = (ev, p)" by (rule prod.exhaust)
  have p: "wf_parser p" and e: "\<And>e. ev = Some e \<Longrightarrow> wf_event e"
    using wf_parser_step [of "te_parser t" b] a assms by (auto simp: tracks_def wf_terminal_def)
  have wf: "tracks g0 w h (t\<lparr>te_parser := p\<rparr>)" using assms p by (simp add: tracks_def wf_terminal_def)
  show ?thesis
  proof (cases ev)
    case (Some e')
    have "returns (tracks g0 w h) (handle_event e' (t\<lparr>te_parser := p\<rparr>))"
      using e [OF Some] by (cases e')
        (simp_all add: handle_event_def print_char_returns [OF wf] execute_returns [OF wf] handle_csi_returns [OF wf]
          handle_esc_returns [OF wf] wf)
    then show ?thesis by (simp add: process_byte_def a Some)
  qed (simp add: process_byte_def a wf)
qed

lemma process_bytes_returns: "tracks g0 w h t \<Longrightarrow> returns (tracks g0 w h) (process_bytes bs t)"
  unfolding process_bytes_def by (rule returns_for) (auto intro: process_byte_returns)

text \<open>The same without the history of the grid.\<close>

lemma wf_terminalD: "wf_terminal w h t \<Longrightarrow> wf_state w h (te_state t)"
  by (simp add: wf_terminal_def)

lemma tracks_refl: "wf_terminal w h t \<Longrightarrow> tracks (te_grid t) w h t"
  by (simp add: tracks_def)

lemma returns_wf: "returns (tracks g0 w h) r \<Longrightarrow> returns (wf_terminal w h) r"
  by (auto simp: returns_def tracks_def)

lemmas wf_print_char = print_char_returns [OF tracks_refl, THEN returns_wf]
  and wf_process_byte = process_byte_returns [OF tracks_refl, THEN returns_wf]
  and wf_process_bytes = process_bytes_returns [OF tracks_refl, THEN returns_wf]

lemma Terminal_new_ok:
  assumes "1 \<le> cols" "cols \<le> 160" "1 \<le> rows" "rows \<le> 50"
  shows "\<exists>t. Terminal_new cols rows = Ok t \<and> wf_terminal cols rows t"
proof -
  obtain g where "Grid_new cols rows WHITE BLACK = Ok g" "wf_grid g" "gr_cols g = cols" "gr_rows g = rows"
    using Grid_new_ok [of cols rows WHITE BLACK] assms by (auto simp: MAX_COLS_def MAX_ROWS_def)
  moreover have "wf_state cols rows (TerminalState_new cols rows WHITE BLACK)"
    unfolding TerminalState_new_def by (rule wf_reset_tab_stops) (use assms in \<open>simp add: wf_state_def wf_frame_def small_i32\<close>)
  ultimately show ?thesis by (simp add: Terminal_new_def wf_terminal_def wf_Parser_new)
qed

section \<open>Printing\<close>

lemma grid_set_screen:
  assumes wf: "wf_grid g" and "x < gr_cols g" "y < gr_rows g"
  shows "\<exists>g'. grid_set x y c g = Ok g' \<and> keeps g g' \<and> screen g' = (screen g)[y := (screen g ! y)[x := c]]"
proof -
  have r: "y < MAX_ROWS" "x < MAX_COLS" using assms by (auto simp: wf_grid_def)
  have "grid_set x y c g = Ok (set_row y ((gr_cells g ! y)[x := c]) g)"
    using assms r wf_row [OF wf r(1)] by (simp add: grid_set_def put_cell_def put_dirty_def set_row_def wf_grid_def)
  moreover have "keeps g (set_row y ((gr_cells g ! y)[x := c]) g)"
    using set_row_keeps [OF wf, of "(gr_cells g ! y)[x := c]" y] wf_row [OF wf r(1)] by simp
  moreover have "screen (set_row y ((gr_cells g ! y)[x := c]) g) = (screen g)[y := (screen g ! y)[x := c]]"
    using assms r by (auto simp: screen_def set_row_def take_update_swap map_update wf_grid_def)
  ultimately show ?thesis by blast
qed

definition printable :: "byte \<Rightarrow> bool" where
  "printable b \<longleftrightarrow> 0x20 \<le> b \<and> b \<le> 0x7E"

lemma process_printable:
  "pa_state (te_parser t) = Ground \<Longrightarrow> printable b \<Longrightarrow> process_byte b t = print_char b t"
  by (auto simp: process_byte_def parser_advance_def ground_def printable_def handle_event_def word_le_nat_alt)

text \<open>The cell that a character gets under the current attributes, and writing cells over a row.\<close>

definition pen :: "term_state \<Rightarrow> byte \<Rightarrow> cell" where
  "pen s ch = Cell_with_flags ch (ts_fg s) (ts_bg s) (ts_flags s)"

definition overlay :: "nat \<Rightarrow> 'a list \<Rightarrow> 'a list \<Rightarrow> 'a list" where
  "overlay x cs r = take x r @ cs @ drop (x + length cs) r"

lemma overlay_Nil [simp]: "overlay x [] r = r"
  by (simp add: overlay_def)

lemma overlay_Cons: "x < length r \<Longrightarrow> overlay (Suc x) cs (r[x := c]) = overlay x (c # cs) r"
  by (simp add: overlay_def take_Suc_conv_app_nth drop_update_cancel take_update_cancel)

lemma as_usize_cursor:
  assumes "wf_state w h s"
  shows "as_usize (ts_cursor_x s) = nat (ts_cursor_x s)" "as_usize (ts_cursor_y s) = nat (ts_cursor_y s)"
    "nat (ts_cursor_x s) < w" "nat (ts_cursor_y s) < h"
  using assms by (auto simp: as_usize_def wf_state_def wf_frame_def)

lemma print_char_screen:
  assumes wf: "wf_terminal w h t" and x: "x = nat (ts_cursor_x (te_state t))" and y: "y = nat (ts_cursor_y (te_state t))"
  shows "\<exists>g. wf_terminal w h (t\<lparr>te_grid := g\<rparr>) \<and> screen g = (screen (te_grid t))[y := (screen (te_grid t) ! y)[x := pen (te_state t) ch]] \<and>
    print_char ch t = step_scroll advance_cursor (t\<lparr>te_grid := g\<rparr>)"
proof -
  note u = as_usize_cursor [OF wf_terminalD [OF wf]]
  obtain g where g: "grid_set x y (pen (te_state t) ch) (te_grid t) = Ok g" "keeps (te_grid t) g"
      "screen g = (screen (te_grid t))[y := (screen (te_grid t) ! y)[x := pen (te_state t) ch]]"
    using grid_set_screen [of "te_grid t" x y "pen (te_state t) ch"] u(3,4) wf x y by (auto simp: wf_terminal_def)
  moreover have "wf_terminal w h (t\<lparr>te_grid := g\<rparr>)" using wf g(2) by (simp add: wf_terminal_def keeps_def)
  ultimately show ?thesis using u(1,2) x y by (auto simp: print_char_def on_grid_def pen_def Let_def)
qed

text \<open>The state after \<open>n\<close> characters that fit on the line.\<close>

definition advanced :: "nat \<Rightarrow> nat \<Rightarrow> term_state \<Rightarrow> term_state" where
  "advanced w n s = (let x = ts_cursor_x s + int n in
     s\<lparr>ts_cursor_x := (if x = int w then int w - 1 else x), ts_pending_wrap := ts_autowrap s \<and> x = int w\<rparr>)"

lemma advance_cursor_advanced:
  "wf_state w h s \<Longrightarrow> \<not> ts_pending_wrap s \<Longrightarrow> advance_cursor s = (False, advanced w 1 s)"
  by (auto simp: advance_cursor_def advanced_def wf_state_def wf_frame_def small_i32 Let_def)

lemma advanced_0: "wf_state w h s \<Longrightarrow> \<not> ts_pending_wrap s \<Longrightarrow> advanced w 0 s = s"
  by (simp add: advanced_def wf_state_def)

lemma advanced_Suc: "ts_cursor_x s + 1 < int w \<Longrightarrow> advanced w n (advanced w (Suc 0) s) = advanced w (Suc n) s"
  by (simp add: advanced_def Let_def algebra_simps)

lemma pen_advanced [simp]: "pen (advanced w n s) = pen s"
  by (rule ext) (simp add: pen_def advanced_def Let_def)

lemma print_char_fits:
  assumes wf: "wf_terminal w h t" and np: "\<not> ts_pending_wrap (te_state t)"
    and x: "x = nat (ts_cursor_x (te_state t))" and y: "y = nat (ts_cursor_y (te_state t))"
  shows "\<exists>t'. print_char ch t = Ok t' \<and> wf_terminal w h t' \<and> te_state t' = advanced w 1 (te_state t) \<and> te_parser t' = te_parser t \<and>
    screen (te_grid t') = (screen (te_grid t))[y := (screen (te_grid t) ! y)[x := pen (te_state t) ch]]"
proof -
  obtain g where g: "wf_terminal w h (t\<lparr>te_grid := g\<rparr>)" "print_char ch t = step_scroll advance_cursor (t\<lparr>te_grid := g\<rparr>)"
      "screen g = (screen (te_grid t))[y := (screen (te_grid t) ! y)[x := pen (te_state t) ch]]"
    using print_char_screen [OF wf x y, of ch] by blast
  define t' where "t' = t\<lparr>te_grid := g, te_state := advanced w 1 (te_state t)\<rparr>"
  have "print_char ch t = Ok t'"
    using advance_cursor_advanced [OF wf_terminalD [OF wf] np] by (simp add: g(2) step_scroll_def t'_def)
  moreover from this have "wf_terminal w h t'" using wf_print_char [OF wf, of ch] by simp
  ultimately show ?thesis using g(3) by (simp add: t'_def)
qed

lemma print_text:
  assumes "wf_terminal w h t" "pa_state (te_parser t) = Ground" "\<not> ts_pending_wrap (te_state t)" "list_all printable txs"
    "x = nat (ts_cursor_x (te_state t))" "y = nat (ts_cursor_y (te_state t))" "x + length txs \<le> w"
  shows "\<exists>t'. process_bytes txs t = Ok t' \<and> wf_terminal w h t' \<and> te_state t' = advanced w (length txs) (te_state t) \<and>
    te_parser t' = te_parser t \<and>
    screen (te_grid t') = (screen (te_grid t))[y := overlay x (map (pen (te_state t)) txs) (screen (te_grid t) ! y)]"
  using assms
proof (induction txs arbitrary: t x)
  case Nil
  then show ?case by (simp add: process_bytes_def advanced_0 [OF wf_terminalD])
next
  case (Cons b bs)
  note wf = Cons.prems(1) and s = wf_terminalD [OF Cons.prems(1)]
  obtain t1 where t1: "print_char b t = Ok t1" "wf_terminal w h t1" "te_state t1 = advanced w 1 (te_state t)" "te_parser t1 = te_parser t"
      "screen (te_grid t1) = (screen (te_grid t))[y := (screen (te_grid t) ! y)[x := pen (te_state t) b]]"
    using print_char_fits [OF wf Cons.prems(3,5,6), of b] by blast
  have step: "process_bytes (b # bs) t = process_bytes bs t1"
    using t1(1) process_printable [OF Cons.prems(2), of b] Cons.prems(4) by (simp add: process_bytes_def)
  have yx: "y < length (screen (te_grid t))" "x < length (screen (te_grid t) ! y)"
    using as_usize_cursor(3,4) [OF s] wf Cons.prems(5,6) by (auto simp: wf_terminal_def screen_nth wf_grid_def screen_def)
  show ?case
  proof (cases "x + 1 < w")
    case True
    have x1: "ts_cursor_x (te_state t) + 1 < int w" "0 \<le> ts_cursor_x (te_state t)" using True Cons.prems(5) s by (auto simp: wf_state_def)
    have "\<not> ts_pending_wrap (te_state t1)" "Suc x = nat (ts_cursor_x (te_state t1))" "y = nat (ts_cursor_y (te_state t1))"
      using x1 Cons.prems(5,6) by (auto simp: t1(3) advanced_def Let_def nat_add_distrib)
    then show ?thesis
      using Cons.IH [OF t1(2), of "Suc x"] Cons.prems(2,4,7) yx t1(4) step overlay_Cons [OF yx(2)]
      by (auto simp: t1(3,5) advanced_Suc [OF x1(1)])
  next
    case False
    then have "bs = []" using Cons.prems(7) by (cases bs) auto
    then show ?thesis using step t1 overlay_Cons [OF yx(2), of "[]"] by (simp add: process_bytes_def)
  qed
qed


lemma reset_tab_stops_fields [simp]:
  "ts_pending_wrap (reset_tab_stops s) = ts_pending_wrap s" "ts_autowrap (reset_tab_stops s) = ts_autowrap s"
  "ts_cursor_x (reset_tab_stops s) = ts_cursor_x s" "ts_cursor_y (reset_tab_stops s) = ts_cursor_y s"
  "ts_scroll_bottom (reset_tab_stops s) = ts_scroll_bottom s"
proof -
  have "\<exists>ts. fold (\<lambda>k. set_tab_stop (8 * k)) ks s = s\<lparr>ts_tab_stops := ts\<rparr>" for ks s
    by (induction ks rule: rev_induct) (auto simp: set_tab_stop_def intro: exI [of _ "ts_tab_stops s"])
  from this [of "[0..<20]" "s\<lparr>ts_tab_stops := replicate 20 0\<rparr>"]
  obtain ts where "reset_tab_stops s = s\<lparr>ts_tab_stops := ts\<rparr>" by (auto simp: reset_tab_stops_def)
  then show "ts_pending_wrap (reset_tab_stops s) = ts_pending_wrap s" "ts_autowrap (reset_tab_stops s) = ts_autowrap s"
    "ts_cursor_x (reset_tab_stops s) = ts_cursor_x s" "ts_cursor_y (reset_tab_stops s) = ts_cursor_y s"
    "ts_scroll_bottom (reset_tab_stops s) = ts_scroll_bottom s" by simp_all
qed

section \<open>Properties\<close>

text \<open>C12. The terminal never panics. For every size from 1x1 to the 160x50 of the static buffer, a new terminal
  is created and processes every sequence of bytes whatsoever (text, control characters, escape sequences with any
  parameters, malformed and truncated ones) to the end; afterwards the cursor is on the screen, the scroll region
  lies on the screen, the parser's buffers are within their bounds, and the grid still has the size it was
  created with.\<close>

theorem terminal_never_panics:
  assumes "1 \<le> cols" and "cols \<le> 160" and "1 \<le> rows" and "rows \<le> 50"
  shows "\<exists>t0. Terminal_new cols rows = Ok t0 \<and>
    (\<forall>bs. \<exists>t. process_bytes bs t0 = Ok t \<and> wf_terminal cols rows t \<and> terminal_size t = (cols, rows) \<and>
       fst (terminal_cursor t) < cols \<and> snd (terminal_cursor t) < rows)"
proof -
  obtain t0 where t0: "Terminal_new cols rows = Ok t0" "wf_terminal cols rows t0" using Terminal_new_ok assms by blast
  have "\<exists>t. process_bytes bs t0 = Ok t \<and> wf_terminal cols rows t" for bs
    using wf_process_bytes [OF t0(2), of bs] by (simp add: returns_def)
  moreover have "terminal_size t = (cols, rows) \<and> fst (terminal_cursor t) < cols \<and> snd (terminal_cursor t) < rows"
    if "wf_terminal cols rows t" for t
    using that as_usize_cursor [OF wf_terminalD [OF that]] by (simp add: terminal_size_def terminal_cursor_def wf_terminal_def)
  ultimately show ?thesis using t0(1) by blast
qed

theorem terminal_never_panics_witness:
  "\<exists>t0 t. Terminal_new 80 25 = Ok t0 \<and> process_bytes [0x1B, 0x5B, 0x39, 0x39, 0x42, 0x0A, 0x41] t0 = Ok t \<and> wf_terminal 80 25 t"
  using terminal_never_panics [of 80 25] by simp blast

text \<open>C31. Printing text. In the ground state and with no wrap pending, printable characters that fit between the
  cursor and the end of the line are written, with the current colours and flags, into consecutive cells of the
  cursor's row; nothing else on the screen changes. The cursor ends behind the last character, or in the last
  column, with the wrap pending under autowrap, when the text fills the line. The first printable character that
  then follows is written over the last column before the cursor moves to the start of the next line, so the
  character that filled the line is lost.\<close>

theorem text_printed_and_last_lost:
  assumes wf: "wf_terminal w h t" and st: "pa_state (te_parser t) = Ground" "\<not> ts_pending_wrap (te_state t)" and "list_all printable txs"
    and x: "x = nat (ts_cursor_x (te_state t))" and y: "y = nat (ts_cursor_y (te_state t))" and fits: "x + length txs \<le> w"
  shows "\<exists>t'. process_bytes txs t = Ok t' \<and> te_state t' = advanced w (length txs) (te_state t) \<and>
    screen (te_grid t') = (screen (te_grid t))[y := overlay x (map (pen (te_state t)) txs) (screen (te_grid t) ! y)] \<and>
    (x + length txs = w \<and> ts_autowrap (te_state t) \<and> ts_cursor_y (te_state t) < ts_scroll_bottom (te_state t) \<longrightarrow>
      (\<forall>c. printable c \<longrightarrow> (\<exists>t''. process_byte c t' = Ok t'' \<and> ts_cursor_x (te_state t'') = 0 \<and> nat (ts_cursor_y (te_state t'')) = y + 1 \<and>
         screen (te_grid t'') = (screen (te_grid t'))[y := (screen (te_grid t') ! y)[w - 1 := pen (te_state t) c]])))"
proof -
  obtain t' where t': "process_bytes txs t = Ok t'" "wf_terminal w h t'" "te_state t' = advanced w (length txs) (te_state t)"
      "te_parser t' = te_parser t"
      "screen (te_grid t') = (screen (te_grid t))[y := overlay x (map (pen (te_state t)) txs) (screen (te_grid t) ! y)]"
    using print_text [OF assms] by blast
  have "\<exists>t''. process_byte c t' = Ok t'' \<and> ts_cursor_x (te_state t'') = 0 \<and> nat (ts_cursor_y (te_state t'')) = y + 1 \<and>
         screen (te_grid t'') = (screen (te_grid t'))[y := (screen (te_grid t') ! y)[w - 1 := pen (te_state t) c]]"
    if full: "x + length txs = w" and a: "ts_autowrap (te_state t)" "ts_cursor_y (te_state t) < ts_scroll_bottom (te_state t)" and c: "printable c" for c
  proof -
    have s: "ts_cursor_x (te_state t') = int w - 1" "ts_pending_wrap (te_state t')" "ts_cursor_y (te_state t') = ts_cursor_y (te_state t)"
        "ts_scroll_bottom (te_state t') = ts_scroll_bottom (te_state t)" "0 \<le> ts_cursor_y (te_state t)" "ts_cursor_y (te_state t) < 50"
      using full a x wf_terminalD [OF wf] by (auto simp: t'(3) advanced_def Let_def wf_state_def wf_frame_def)
    have xy: "w - 1 = nat (ts_cursor_x (te_state t'))" "y = nat (ts_cursor_y (te_state t'))" using s y by auto
    obtain g where "print_char c t' = step_scroll advance_cursor (t'\<lparr>te_grid := g\<rparr>)"
        "screen g = (screen (te_grid t'))[y := (screen (te_grid t') ! y)[w - 1 := pen (te_state t') c]]"
      using print_char_screen [OF t'(2) xy, of c] by blast
    then show ?thesis using process_printable [of t' c] c s a st(1) y
      by (simp add: t'(3,4) step_scroll_def advance_cursor_def newline_def small_i32 Let_def nat_add_distrib)
  qed
  then show ?thesis using t' by blast
qed

theorem text_printed_and_last_lost_witness:
  "\<exists>t0 t t'. Terminal_new 2 2 = Ok t0 \<and> process_bytes [0x41, 0x42] t0 = Ok t \<and> process_byte 0x43 t = Ok t' \<and>
     ts_cursor_x (te_state t') = 0 \<and> nat (ts_cursor_y (te_state t')) = 1"
proof -
  obtain t0 where t0: "Terminal_new 2 2 = Ok t0" "wf_terminal 2 2 t0" using Terminal_new_ok [of 2 2] by auto
  then have e: "te_state t0 = TerminalState_new 2 2 WHITE BLACK" "te_parser t0 = Parser_new"
    by (auto simp: Terminal_new_def)
  then have "pa_state (te_parser t0) = Ground" "\<not> ts_pending_wrap (te_state t0)" "ts_autowrap (te_state t0)"
    "ts_cursor_x (te_state t0) = 0" "ts_cursor_y (te_state t0) = 0" "ts_scroll_bottom (te_state t0) = 1"
    by (simp_all add: Parser_new_def TerminalState_new_def small_i32)
  moreover have "list_all printable [0x41, 0x42]" "printable 0x43" by (simp_all add: printable_def)
  ultimately show ?thesis
    using text_printed_and_last_lost [OF t0(2), of "[0x41, 0x42]" 0 0] t0(1) by simp blast
qed

text \<open>Scrolling the lines \<open>tp..<bt\<close> of a screen by \<open>n\<close>, as an operation on the list of its lines.\<close>

definition lines_up :: "nat \<Rightarrow> nat \<Rightarrow> nat \<Rightarrow> 'a \<Rightarrow> 'a list \<Rightarrow> 'a list" where
  "lines_up tp bt n e s = take tp s @ take (bt - tp - n) (drop (tp + n) s) @ replicate (min n (bt - tp)) e @ drop bt s"

definition lines_down :: "nat \<Rightarrow> nat \<Rightarrow> nat \<Rightarrow> 'a \<Rightarrow> 'a list \<Rightarrow> 'a list" where
  "lines_down tp bt n e s = take tp s @ replicate (min n (bt - tp)) e @ take (bt - tp - n) (drop tp s) @ drop bt s"

lemma on_grid_scroll:
  assumes "wf_terminal w h t" and "tp < bt" and "bt \<le> h" and "n > 0"
  shows "\<exists>t'. on_grid (grid_scroll_up tp bt n) t = Ok t' \<and> te_state t' = te_state t \<and>
      screen (te_grid t') = lines_up tp bt n (replicate w (blank (te_grid t))) (screen (te_grid t))" (is ?up)
    and "\<exists>t'. on_grid (grid_scroll_down tp bt n) t = Ok t' \<and> te_state t' = te_state t \<and>
      screen (te_grid t') = lines_down tp bt n (replicate w (blank (te_grid t))) (screen (te_grid t))" (is ?down)
proof -
  have g: "wf_grid (te_grid t)" "gr_cols (te_grid t) = w" "bt \<le> gr_rows (te_grid t)" using assms by (auto simp: wf_terminal_def)
  show ?up using scroll_up_ok [OF g(1) assms(2) g(3) assms(4)] g(2) by (auto simp: on_grid_def lines_up_def)
  show ?down using scroll_down_ok [OF g(1) assms(2) g(3) assms(4)] g(2) by (auto simp: on_grid_def lines_down_def)
qed

lemma as_usize_region:
  assumes "wf_state w h s"
  shows "as_usize (ts_scroll_top s) = nat (ts_scroll_top s)" "as_usize (i32 (ts_scroll_bottom s + 1)) = Suc (nat (ts_scroll_bottom s))"
    "nat (ts_scroll_top s) < Suc (nat (ts_scroll_bottom s))" "Suc (nat (ts_scroll_bottom s)) \<le> h"
  using assms by (auto simp: as_usize_def wf_state_def wf_frame_def small_i32 nat_add_distrib)

text \<open>C22. The four line operations refine operations on the list of the screen's lines. CSI S and CSI T with a
  positive count move the lines of the scroll region up and down, CSI M and CSI L (delete and insert lines) those
  from the cursor's line to the end of the region, with as many blank lines of the default colours coming in as
  lines leave, even for counts larger than the region; the lines outside of it, the cursor and the attributes stay
  as they are. Below the region, insert and delete do nothing.\<close>

theorem line_operations_refine_lists:
  assumes wf: "wf_terminal w h t" and n: "n = as_usize (csi_param ps count 0 1)" "n > 0"
    and r: "tp = nat (ts_scroll_top (te_state t))" "bt = Suc (nat (ts_scroll_bottom (te_state t)))" "y = nat (ts_cursor_y (te_state t))"
    and e: "e = replicate w (blank (te_grid t))"
  shows "(\<exists>t'. handle_csi ps count 0x53 False t = Ok t' \<and> te_state t' = te_state t \<and> screen (te_grid t') = lines_up tp bt n e (screen (te_grid t))) \<and>
    (\<exists>t'. handle_csi ps count 0x54 False t = Ok t' \<and> te_state t' = te_state t \<and> screen (te_grid t') = lines_down tp bt n e (screen (te_grid t))) \<and>
    (\<exists>t'. handle_csi ps count 0x4D False t = Ok t' \<and> te_state t' = te_state t \<and>
       screen (te_grid t') = (if y < bt then lines_up y bt n e (screen (te_grid t)) else screen (te_grid t))) \<and>
    (\<exists>t'. handle_csi ps count 0x4C False t = Ok t' \<and> te_state t' = te_state t \<and>
       screen (te_grid t') = (if y < bt then lines_down y bt n e (screen (te_grid t)) else screen (te_grid t)))"
proof -
  note reg = as_usize_region [OF wf_terminalD [OF wf], folded r] and cur = as_usize_cursor(2) [OF wf_terminalD [OF wf], folded r]
  note whole = on_grid_scroll [OF wf reg(3,4) n(2), folded e] and part = on_grid_scroll [OF wf _ reg(4) n(2), of y, folded e]
  have up: "handle_csi ps count 0x53 False t = on_grid (grid_scroll_up tp bt n) t" "handle_csi ps count 0x54 False t = on_grid (grid_scroll_down tp bt n) t"
      "handle_csi ps count 0x4D False t = on_grid (grid_scroll_up y bt n) t" "handle_csi ps count 0x4C False t = on_grid (grid_scroll_down y bt n) t"
    by (simp_all add: handle_csi_def term_scroll_up_def term_scroll_down_def insert_lines_def delete_lines_def reg cur n(1))
  have out: "on_grid (grid_scroll_up y bt n) t = Ok t \<and> on_grid (grid_scroll_down y bt n) t = Ok t" if "\<not> y < bt"
    using that by (simp add: on_grid_def grid_scroll_up_def grid_scroll_down_def)
  show ?thesis using whole part out by (cases "y < bt") (simp_all add: up)
qed

theorem line_operations_refine_lists_witness:
  "\<exists>t0 t'. Terminal_new 4 3 = Ok t0 \<and> handle_csi [2] 1 0x53 False t0 = Ok t' \<and>
     screen (te_grid t') = lines_up (nat (ts_scroll_top (te_state t0))) (Suc (nat (ts_scroll_bottom (te_state t0)))) 2
       (replicate 4 (blank (te_grid t0))) (screen (te_grid t0))"
proof -
  obtain t0 where t0: "Terminal_new 4 3 = Ok t0" "wf_terminal 4 3 t0" using Terminal_new_ok [of 4 3] by auto
  have "as_usize (csi_param [2] 1 0 1) = 2" by (simp add: csi_param_def as_usize_def)
  then show ?thesis using line_operations_refine_lists [OF t0(2) _ _ refl refl refl refl, of 2 "[2]" 1] t0(1) by auto
qed

end
