(* ===== verification/Term_Keyboard.thy ===== *)
theory Term_Keyboard
  imports Term_State
begin

text \<open>
  The keyboard of the terminal: \<^verbatim>\<open>src/crates/sys/terminal/src/keyboard.rs\<close>. Raw scancodes of set 1 are decoded to
  key events, with the modifiers tracked across events; events translate to characters and to escape sequences.
\<close>

section \<open>Keys and modifiers\<close>

definition SHIFT :: byte where "SHIFT = 0x01"
definition CTRL :: byte where "CTRL = 0x02"
definition ALT :: byte where "ALT = 0x04"
definition CAPSLOCK :: byte where "CAPSLOCK = 0x08"
definition NUMLOCK :: byte where "NUMLOCK = 0x10"

datatype key_code =
    Char_key char
  | F1 | F2 | F3 | F4 | F5 | F6 | F7 | F8 | F9 | F10 | F11 | F12
  | Up_key | Down_key | Left_key | Right_key | Home_key | End_key | PageUp | PageDown | Insert_key | Delete_key
  | Escape_key | Tab_key | Backspace | Enter_key | Space_key
  | LeftShift | RightShift | LeftCtrl | RightCtrl | LeftAlt | RightAlt | CapsLock | NumLock | ScrollLock
  | KpEnter | Kp0 | Kp1 | Kp2 | Kp3 | Kp4 | Kp5 | Kp6 | Kp7 | Kp8 | Kp9
  | KpPlus | KpMinus | KpMultiply | KpDivide | KpDecimal
  | Unknown byte

record key_event =
  ke_key :: key_code
  ke_pressed :: bool
  ke_modifiers :: byte

record keyboard =
  kb_modifiers :: byte
  kb_extended :: bool

definition Keyboard_new :: keyboard where
  "Keyboard_new = \<lparr>kb_modifiers = 0, kb_extended = False\<rparr>"

definition keyboard_reset :: "keyboard \<Rightarrow> keyboard" where
  "keyboard_reset k = k\<lparr>kb_modifiers := 0, kb_extended := False\<rparr>"

section \<open>Decoding\<close>

definition decode_standard :: "byte \<Rightarrow> key_code" where
  "decode_standard code =
     (if code = 0x01 then Escape_key
      else if code = 0x02 then Char_key (CHR ''1'')
      else if code = 0x03 then Char_key (CHR ''2'')
      else if code = 0x04 then Char_key (CHR ''3'')
      else if code = 0x05 then Char_key (CHR ''4'')
      else if code = 0x06 then Char_key (CHR ''5'')
      else if code = 0x07 then Char_key (CHR ''6'')
      else if code = 0x08 then Char_key (CHR ''7'')
      else if code = 0x09 then Char_key (CHR ''8'')
      else if code = 0x0A then Char_key (CHR ''9'')
      else if code = 0x0B then Char_key (CHR ''0'')
      else if code = 0x0C then Char_key (CHR ''-'')
      else if code = 0x0D then Char_key (CHR ''='')
      else if code = 0x0E then Backspace
      else if code = 0x0F then Tab_key
      else if code = 0x10 then Char_key (CHR ''q'')
      else if code = 0x11 then Char_key (CHR ''w'')
      else if code = 0x12 then Char_key (CHR ''e'')
      else if code = 0x13 then Char_key (CHR ''r'')
      else if code = 0x14 then Char_key (CHR ''t'')
      else if code = 0x15 then Char_key (CHR ''y'')
      else if code = 0x16 then Char_key (CHR ''u'')
      else if code = 0x17 then Char_key (CHR ''i'')
      else if code = 0x18 then Char_key (CHR ''o'')
      else if code = 0x19 then Char_key (CHR ''p'')
      else if code = 0x1A then Char_key (CHR ''['')
      else if code = 0x1B then Char_key (CHR '']'')
      else if code = 0x1C then Enter_key
      else if code = 0x1D then LeftCtrl
      else if code = 0x1E then Char_key (CHR ''a'')
      else if code = 0x1F then Char_key (CHR ''s'')
      else if code = 0x20 then Char_key (CHR ''d'')
      else if code = 0x21 then Char_key (CHR ''f'')
      else if code = 0x22 then Char_key (CHR ''g'')
      else if code = 0x23 then Char_key (CHR ''h'')
      else if code = 0x24 then Char_key (CHR ''j'')
      else if code = 0x25 then Char_key (CHR ''k'')
      else if code = 0x26 then Char_key (CHR ''l'')
      else if code = 0x27 then Char_key (CHR '';'')
      else if code = 0x28 then Char_key (CHR 0x27)
      else if code = 0x29 then Char_key (CHR 0x60)
      else if code = 0x2A then LeftShift
      else if code = 0x2B then Char_key (CHR 0x5C)
      else if code = 0x2C then Char_key (CHR ''z'')
      else if code = 0x2D then Char_key (CHR ''x'')
      else if code = 0x2E then Char_key (CHR ''c'')
      else if code = 0x2F then Char_key (CHR ''v'')
      else if code = 0x30 then Char_key (CHR ''b'')
      else if code = 0x31 then Char_key (CHR ''n'')
      else if code = 0x32 then Char_key (CHR ''m'')
      else if code = 0x33 then Char_key (CHR '','')
      else if code = 0x34 then Char_key (CHR ''.'')
      else if code = 0x35 then Char_key (CHR ''/'')
      else if code = 0x36 then RightShift
      else if code = 0x37 then KpMultiply
      else if code = 0x38 then LeftAlt
      else if code = 0x39 then Space_key
      else if code = 0x3A then CapsLock
      else if code = 0x3B then F1
      else if code = 0x3C then F2
      else if code = 0x3D then F3
      else if code = 0x3E then F4
      else if code = 0x3F then F5
      else if code = 0x40 then F6
      else if code = 0x41 then F7
      else if code = 0x42 then F8
      else if code = 0x43 then F9
      else if code = 0x44 then F10
      else if code = 0x45 then NumLock
      else if code = 0x46 then ScrollLock
      else if code = 0x47 then Kp7
      else if code = 0x48 then Kp8
      else if code = 0x49 then Kp9
      else if code = 0x4A then KpMinus
      else if code = 0x4B then Kp4
      else if code = 0x4C then Kp5
      else if code = 0x4D then Kp6
      else if code = 0x4E then KpPlus
      else if code = 0x4F then Kp1
      else if code = 0x50 then Kp2
      else if code = 0x51 then Kp3
      else if code = 0x52 then Kp0
      else if code = 0x53 then KpDecimal
      else if code = 0x57 then F11
      else if code = 0x58 then F12
      else Unknown code)"

definition decode_extended :: "byte \<Rightarrow> key_code" where
  "decode_extended code =
     (if code = 0x1C then KpEnter
      else if code = 0x1D then RightCtrl
      else if code = 0x35 then KpDivide
      else if code = 0x38 then RightAlt
      else if code = 0x47 then Home_key
      else if code = 0x48 then Up_key
      else if code = 0x49 then PageUp
      else if code = 0x4B then Left_key
      else if code = 0x4D then Right_key
      else if code = 0x4F then End_key
      else if code = 0x50 then Down_key
      else if code = 0x51 then PageDown
      else if code = 0x52 then Insert_key
      else if code = 0x53 then Delete_key
      else Unknown (code OR 0x80))"

fun modifier_of :: "key_code \<Rightarrow> byte option" where
  "modifier_of LeftShift = Some SHIFT"
| "modifier_of RightShift = Some SHIFT"
| "modifier_of LeftCtrl = Some CTRL"
| "modifier_of RightCtrl = Some CTRL"
| "modifier_of LeftAlt = Some ALT"
| "modifier_of RightAlt = Some ALT"
| "modifier_of _ = None"

definition update_modifiers :: "key_code \<Rightarrow> bool \<Rightarrow> byte \<Rightarrow> byte" where
  "update_modifiers key pressed m =
     (if key = CapsLock \<and> pressed then m XOR CAPSLOCK
      else if key = NumLock \<and> pressed then m XOR NUMLOCK
      else case modifier_of key of
          Some f \<Rightarrow> if pressed then m OR f else m AND NOT f
        | None \<Rightarrow> m)"

definition is_modifier :: "key_code \<Rightarrow> bool" where
  "is_modifier key \<longleftrightarrow>
     key \<in> {LeftShift, RightShift, LeftCtrl, RightCtrl, LeftAlt, RightAlt, CapsLock, NumLock, ScrollLock}"

definition process_scancode :: "byte \<Rightarrow> keyboard \<Rightarrow> key_event option \<times> keyboard" where
  "process_scancode scancode k =
     (if scancode = 0xE0 then (None, k\<lparr>kb_extended := True\<rparr>)
      else
        let pressed = (scancode AND 0x80 = 0);
            code = scancode AND 0x7F;
            key = (if kb_extended k then decode_extended code else decode_standard code);
            m = update_modifiers key pressed (kb_modifiers k);
            k' = k\<lparr>kb_extended := False, kb_modifiers := m\<rparr> in
        if is_modifier key then (None, k')
        else (Some \<lparr>ke_key = key, ke_pressed = pressed, ke_modifiers = m\<rparr>, k'))"

section \<open>Characters and escape sequences\<close>

definition has :: "byte \<Rightarrow> byte \<Rightarrow> bool" where
  "has m f \<longleftrightarrow> m AND f = f"

definition is_ascii_lowercase :: "char \<Rightarrow> bool" where
  "is_ascii_lowercase c \<longleftrightarrow> 97 \<le> (of_char c :: nat) \<and> (of_char c :: nat) \<le> 122"

definition is_ascii_uppercase :: "char \<Rightarrow> bool" where
  "is_ascii_uppercase c \<longleftrightarrow> 65 \<le> (of_char c :: nat) \<and> (of_char c :: nat) \<le> 90"

definition ascii_upper :: "char \<Rightarrow> char" where
  "ascii_upper c = (if is_ascii_lowercase c then char_of ((of_char c :: nat) - 32) else c)"

definition ascii_lower :: "char \<Rightarrow> char" where
  "ascii_lower c = (if is_ascii_uppercase c then char_of ((of_char c :: nat) + 32) else c)"

definition shift_symbol :: "char \<Rightarrow> char" where
  "shift_symbol c =
     (if c = CHR ''1'' then CHR ''!''
      else if c = CHR ''2'' then CHR 0x40
      else if c = CHR ''3'' then CHR ''#''
      else if c = CHR ''4'' then CHR ''$''
      else if c = CHR ''5'' then CHR ''%''
      else if c = CHR ''6'' then CHR 0x5E
      else if c = CHR ''7'' then CHR ''&''
      else if c = CHR ''8'' then CHR ''*''
      else if c = CHR ''9'' then CHR ''(''
      else if c = CHR ''0'' then CHR '')''
      else if c = CHR ''-'' then CHR ''_''
      else if c = CHR ''='' then CHR ''+''
      else if c = CHR ''['' then CHR 0x7B
      else if c = CHR '']'' then CHR 0x7D
      else if c = CHR 0x5C then CHR 0x7C
      else if c = CHR '';'' then CHR '':''
      else if c = CHR 0x27 then CHR 0x22
      else if c = CHR '','' then CHR ''<''
      else if c = CHR ''.'' then CHR ''>''
      else if c = CHR ''/'' then CHR ''?''
      else if c = CHR 0x60 then CHR 0x7E
      else c)"

definition to_char :: "key_event \<Rightarrow> char option" where
  "to_char e =
     (if \<not> ke_pressed e then None
      else
        let shift = has (ke_modifiers e) SHIFT; caps = has (ke_modifiers e) CAPSLOCK; ctrl = has (ke_modifiers e) CTRL in
        case ke_key e of
          Char_key c \<Rightarrow>
            if ctrl then (if is_ascii_lowercase c then Some (char_of ((of_char c :: nat) - 97 + 1)) else None)
            else if is_ascii_lowercase c \<or> is_ascii_uppercase c
            then Some (if shift \<noteq> caps then ascii_upper c else ascii_lower c)
            else if shift then Some (shift_symbol c)
            else Some c
        | Space_key \<Rightarrow> Some (CHR '' '')
        | Enter_key \<Rightarrow> Some (CHR 0x0A)
        | KpEnter \<Rightarrow> Some (CHR 0x0A)
        | Tab_key \<Rightarrow> Some (CHR 0x09)
        | Backspace \<Rightarrow> Some (CHR 0x08)
        | _ \<Rightarrow> None)"

definition to_escape_sequence :: "key_event \<Rightarrow> string option" where
  "to_escape_sequence e =
     (if \<not> ke_pressed e then None
      else case ke_key e of
       Up_key \<Rightarrow> Some (CHR 0x1B # ''[A'')
     | Down_key \<Rightarrow> Some (CHR 0x1B # ''[B'')
     | Right_key \<Rightarrow> Some (CHR 0x1B # ''[C'')
     | Left_key \<Rightarrow> Some (CHR 0x1B # ''[D'')
     | Home_key \<Rightarrow> Some (CHR 0x1B # ''[H'')
     | End_key \<Rightarrow> Some (CHR 0x1B # ''[F'')
     | Insert_key \<Rightarrow> Some (CHR 0x1B # ''[2~'')
     | Delete_key \<Rightarrow> Some (CHR 0x1B # ''[3~'')
     | PageUp \<Rightarrow> Some (CHR 0x1B # ''[5~'')
     | PageDown \<Rightarrow> Some (CHR 0x1B # ''[6~'')
     | F1 \<Rightarrow> Some (CHR 0x1B # ''OP'')
     | F2 \<Rightarrow> Some (CHR 0x1B # ''OQ'')
     | F3 \<Rightarrow> Some (CHR 0x1B # ''OR'')
     | F4 \<Rightarrow> Some (CHR 0x1B # ''OS'')
     | F5 \<Rightarrow> Some (CHR 0x1B # ''[15~'')
     | F6 \<Rightarrow> Some (CHR 0x1B # ''[17~'')
     | F7 \<Rightarrow> Some (CHR 0x1B # ''[18~'')
     | F8 \<Rightarrow> Some (CHR 0x1B # ''[19~'')
     | F9 \<Rightarrow> Some (CHR 0x1B # ''[20~'')
     | F10 \<Rightarrow> Some (CHR 0x1B # ''[21~'')
     | F11 \<Rightarrow> Some (CHR 0x1B # ''[23~'')
     | F12 \<Rightarrow> Some (CHR 0x1B # ''[24~'')
     | Escape_key \<Rightarrow> Some (CHR 0x1B # '''')
     | _ \<Rightarrow> None)"

section \<open>What a key can type\<close>

text \<open>The characters of the decoding tables: no upper case letters and no control characters.\<close>

definition plain :: "char \<Rightarrow> bool" where
  "plain c \<longleftrightarrow> 0x20 < (of_char c :: nat) \<and> (of_char c :: nat) < 0x7F \<and> \<not> is_ascii_uppercase c"

fun plain_key :: "key_code \<Rightarrow> bool" where
  "plain_key (Char_key c) = plain c"
| "plain_key _ = True"

lemma decode_plain: "plain_key (decode_standard code)" "plain_key (decode_extended code)"
  by (simp_all add: decode_standard_def decode_extended_def plain_def is_ascii_uppercase_def)

definition typed :: "char \<Rightarrow> bool" where
  "typed c \<longleftrightarrow> (of_char c :: nat) \<in> {0x20..<0x7F} \<union> {1..26}"

lemma shift_symbol_typed: "plain c \<Longrightarrow> typed (shift_symbol c)"
  by (simp add: shift_symbol_def typed_def plain_def)

lemma to_char_typed:
  assumes "plain_key (ke_key e)" and "to_char e = Some c"
  shows "typed c"
proof (cases "ke_key e")
  case (Char_key d)
  then have d: "plain d" using assms(1) by simp
  show ?thesis using assms(2) Char_key d shift_symbol_typed [OF d]
    by (auto simp: to_char_def Let_def typed_def plain_def is_ascii_lowercase_def is_ascii_uppercase_def ascii_upper_def
      ascii_lower_def split: if_splits)
qed (use assms in \<open>auto simp: to_char_def Let_def typed_def split: if_splits\<close>)

section \<open>The history of the modifiers\<close>

text \<open>A run of the keyboard, and the key presses and releases that its scancodes encode.\<close>

fun kb_run :: "byte list \<Rightarrow> keyboard \<Rightarrow> keyboard" where
  "kb_run [] k = k"
| "kb_run (b # bs) k = kb_run bs (snd (process_scancode b k))"

fun key_trace :: "bool \<Rightarrow> byte list \<Rightarrow> (key_code \<times> bool) list" where
  "key_trace ext [] = []"
| "key_trace ext (b # bs) =
     (if b = 0xE0 then key_trace True bs
      else ((if ext then decode_extended else decode_standard) (b AND 0x7F), b AND 0x80 = 0) # key_trace False bs)"

lemma kb_run_trace: "kb_modifiers (kb_run bs k) = fold (\<lambda>(key, p). update_modifiers key p) (key_trace (kb_extended k) bs) (kb_modifiers k)"
  by (induction bs arbitrary: k) (auto simp: process_scancode_def Let_def)

lemma has_bit: "has m SHIFT = bit m 0" "has m CTRL = bit m 1" "has m ALT = bit m 2" "has m CAPSLOCK = bit m 3" "has m NUMLOCK = bit m 4"
proof -
  have "(m AND push_bit n 1 = push_bit n 1) = bit m n" if "n < 8" for n
  proof
    assume "m AND push_bit n 1 = push_bit n 1"
    then have "bit (m AND push_bit n 1) n = bit (push_bit n 1 :: byte) n" by (rule arg_cong)
    then show "bit m n" using that by (simp add: bit_simps)
  next
    assume "bit m n"
    then show "m AND push_bit n 1 = push_bit n 1" by (intro bit_word_eqI) (auto simp: bit_simps)
  qed
  from this [of 0] this [of 1] this [of 2] this [of 3] this [of 4]
  show "has m SHIFT = bit m 0" "has m CTRL = bit m 1" "has m ALT = bit m 2" "has m CAPSLOCK = bit m 3" "has m NUMLOCK = bit m 4"
    by (simp_all add: has_def SHIFT_def CTRL_def ALT_def CAPSLOCK_def NUMLOCK_def)
qed

lemma flag_bits [simp]:
  "bit SHIFT n = (n = 0)" "bit CTRL n = (n = 1)" "bit ALT n = (n = 2)" "bit CAPSLOCK n = (n = 3)" "bit NUMLOCK n = (n = 4)"
proof -
  have "bit (push_bit k 1 :: byte) n = (n = k)" if "k < 8" for k using that by (auto simp: bit_simps)
  from this [of 0] this [of 1] this [of 2] this [of 3] this [of 4]
  show "bit SHIFT n = (n = 0)" "bit CTRL n = (n = 1)" "bit ALT n = (n = 2)" "bit CAPSLOCK n = (n = 3)" "bit NUMLOCK n = (n = 4)"
    by (simp_all add: SHIFT_def CTRL_def ALT_def CAPSLOCK_def NUMLOCK_def)
qed

text \<open>The specification, by the make codes of scancode set 1: an event is the prefix \<open>E0\<close> or none, the code of
  the key, and whether the key went down. The two shift keys have the codes 2A and 36, the control keys 1D and
  E0 1D, the alt keys 38 and E0 38, caps lock 3A and num lock 45.\<close>

fun scan_events :: "bool \<Rightarrow> byte list \<Rightarrow> (bool \<times> nat \<times> bool) list" where
  "scan_events ext [] = []"
| "scan_events ext (b # bs) =
     (if b = 0xE0 then scan_events True bs else (ext, unat b mod 128, unat b < 128) # scan_events False bs)"

text \<open>A modifier counts as held when the last event of one of its keys is a press, a lock as on when its key was
  pressed an odd number of times.\<close>

definition held :: "(bool \<times> nat) set \<Rightarrow> (bool \<times> nat \<times> bool) list \<Rightarrow> bool" where
  "held keys es \<longleftrightarrow> (let ks = filter (\<lambda>(x, c, p). (x, c) \<in> keys) es in ks \<noteq> [] \<and> snd (snd (last ks)))"

definition locked :: "nat \<Rightarrow> (bool \<times> nat \<times> bool) list \<Rightarrow> bool" where
  "locked code es \<longleftrightarrow> odd (length (filter (\<lambda>e. e = (False, code, True)) es))"

definition modifiers_spec :: "(bool \<times> nat \<times> bool) list \<Rightarrow> byte \<Rightarrow> bool" where
  "modifiers_spec es m \<longleftrightarrow> bit m 0 = held {(False, 0x2A), (False, 0x36)} es \<and> bit m 1 = held {(False, 0x1D), (True, 0x1D)} es \<and>
     bit m 2 = held {(False, 0x38), (True, 0x38)} es \<and> bit m 3 = locked 0x3A es \<and> bit m 4 = locked 0x45 es \<and> unat m < 32"

definition scan_key :: "bool \<Rightarrow> nat \<Rightarrow> key_code" where
  "scan_key ext c = (if ext then decode_extended else decode_standard) (of_nat c)"

lemma key_trace_events: "key_trace ext bs = map (\<lambda>(x, c, p). (scan_key x c, p)) (scan_events ext bs)"
proof (induction ext bs rule: key_trace.induct)
  case (2 ext b bs)
  have m: "b AND 0x7F = of_nat (unat b mod 128)"
  proof -
    have "b AND 0x7F = take_bit 7 b" using take_bit_eq_mask [of 7 b] by (simp add: mask_eq_exp_minus_1)
    also have "\<dots> = of_nat (unat (take_bit 7 b))" by simp
    also have "unat (take_bit 7 b) = unat b mod 128" by (simp add: unsigned_take_bit_eq take_bit_nat_def)
    finally show ?thesis .
  qed
  have p: "b AND 0x80 = 0 \<longleftrightarrow> unat b < 128"
  proof -
    have "bit b 7 \<longleftrightarrow> bit (unat b) 7" by (simp add: bit_unsigned_iff)
    also have "\<dots> \<longleftrightarrow> odd (unat b div 128)" by (simp add: bit_iff_odd)
    also have "\<dots> \<longleftrightarrow> 128 \<le> unat b"
    proof (cases "128 \<le> unat b")
      case True
      have "unat b < 256" using unsigned_less [of b, where ?'a = nat] by simp
      with True have "unat b div 128 = 1" by (intro div_nat_eqI) simp_all
      then show ?thesis using True by simp
    qed simp
    finally have "bit b 7 \<longleftrightarrow> 128 \<le> unat b" .
    moreover have "b AND 0x80 = 0 \<longleftrightarrow> \<not> bit b 7"
    proof -
      have "bit (0x80 :: byte) n \<longleftrightarrow> n = 7" for n
      proof -
        have "(0x80 :: byte) = push_bit 7 1" by simp
        then have "bit (0x80 :: byte) n \<longleftrightarrow> bit (push_bit 7 1 :: byte) n" by (simp only:)
        also have "\<dots> \<longleftrightarrow> n = 7" by (auto simp: bit_push_bit_iff bit_1_iff simp del: push_bit_of_1)
        finally show ?thesis .
      qed
      then have "bit (b AND 0x80) n \<longleftrightarrow> bit b 7 \<and> n = 7" for n by (auto simp: bit_and_iff)
      then show ?thesis by (metis bit_0_eq bit_word_eqI bot_apply bot_bool_def)
    qed
    ultimately show ?thesis by (simp add: not_le)
  qed
  show ?case using 2 by (simp add: m p scan_key_def)
qed simp

lemma scan_events_code: "(x, c, p) \<in> set (scan_events ext bs) \<Longrightarrow> c < 128"
  by (induction ext bs rule: scan_events.induct) (auto split: if_splits)

text \<open>The keys that count, by their codes.\<close>

lemma scan_key_modifier:
  assumes "c < 128"
  shows "modifier_of (scan_key x c) = Some SHIFT \<longleftrightarrow> (x, c) \<in> {(False, 0x2A), (False, 0x36)}"
    "modifier_of (scan_key x c) = Some CTRL \<longleftrightarrow> (x, c) \<in> {(False, 0x1D), (True, 0x1D)}"
    "modifier_of (scan_key x c) = Some ALT \<longleftrightarrow> (x, c) \<in> {(False, 0x38), (True, 0x38)}"
    "scan_key x c = CapsLock \<longleftrightarrow> (x, c) = (False, 0x3A)" "scan_key x c = NumLock \<longleftrightarrow> (x, c) = (False, 0x45)"
proof -
  have n: "(of_nat c :: byte) = of_nat d \<longleftrightarrow> c = d" if "d < 128" for d
    using assms that by (simp add: word_of_nat_eq_iff take_bit_nat_def)
  note n = n [of "0x2A", simplified] n [of "0x36", simplified] n [of "0x1D", simplified] n [of "0x38", simplified]
    n [of "0x3A", simplified] n [of "0x45", simplified]
  have d: "modifier_of (decode_standard code) = Some SHIFT \<longleftrightarrow> code = 0x2A \<or> code = 0x36"
    "modifier_of (decode_standard code) = Some CTRL \<longleftrightarrow> code = 0x1D" "modifier_of (decode_standard code) = Some ALT \<longleftrightarrow> code = 0x38"
    "decode_standard code = CapsLock \<longleftrightarrow> code = 0x3A" "decode_standard code = NumLock \<longleftrightarrow> code = 0x45"
    "modifier_of (decode_extended code) \<noteq> Some SHIFT" "modifier_of (decode_extended code) = Some CTRL \<longleftrightarrow> code = 0x1D"
    "modifier_of (decode_extended code) = Some ALT \<longleftrightarrow> code = 0x38" "decode_extended code \<noteq> CapsLock" "decode_extended code \<noteq> NumLock" for code
    by (simp_all add: decode_standard_def decode_extended_def SHIFT_def CTRL_def ALT_def)
  show "modifier_of (scan_key x c) = Some SHIFT \<longleftrightarrow> (x, c) \<in> {(False, 0x2A), (False, 0x36)}"
    "modifier_of (scan_key x c) = Some CTRL \<longleftrightarrow> (x, c) \<in> {(False, 0x1D), (True, 0x1D)}"
    "modifier_of (scan_key x c) = Some ALT \<longleftrightarrow> (x, c) \<in> {(False, 0x38), (True, 0x38)}"
    "scan_key x c = CapsLock \<longleftrightarrow> (x, c) = (False, 0x3A)" "scan_key x c = NumLock \<longleftrightarrow> (x, c) = (False, 0x45)"
    by (cases x; simp add: scan_key_def d n)+
qed

lemma held_snoc: "held keys (es @ [(x, c, p)]) = (if (x, c) \<in> keys then p else held keys es)"
  by (simp add: held_def Let_def)

lemma locked_snoc: "locked code (es @ [(x, c, p)]) = (locked code es \<noteq> (\<not> x \<and> c = code \<and> p))"
  by (auto simp: locked_def)

lemma small_flags: "unat m < 32 \<longleftrightarrow> (\<forall>n \<ge> 5. \<not> bit m n)" for m :: byte
proof -
  have "unat m < 32 \<longleftrightarrow> take_bit 5 (unat m) = unat m" by (simp add: take_bit_nat_eq_self_iff)
  also have "\<dots> \<longleftrightarrow> take_bit 5 m = m" by (simp add: word_unat_eq_iff unsigned_take_bit_eq)
  also have "\<dots> \<longleftrightarrow> (\<forall>n \<ge> 5. \<not> bit m n)"
  proof
    assume "take_bit 5 m = m"
    then show "\<forall>n \<ge> 5. \<not> bit m n" by (metis bit_take_bit_iff not_less)
  next
    assume "\<forall>n \<ge> 5. \<not> bit m n"
    then show "take_bit 5 m = m" by (intro bit_word_eqI) (auto simp: bit_take_bit_iff not_less intro: ccontr)
  qed
  finally show ?thesis .
qed

lemma set_flag_bits:
  "bit (if p then m OR f else m AND NOT f) n \<longleftrightarrow> n < 8 \<and> (if bit f n then p else bit m n)" for m f :: byte
  by (auto simp: bit_or_iff bit_and_iff bit_not_iff dest: bit_imp_le_length)

lemma modifiers_fold:
  "\<forall>(x, c, p) \<in> set es. c < 128 \<Longrightarrow> modifiers_spec es (fold (\<lambda>(key, p). update_modifiers key p) (map (\<lambda>(x, c, p). (scan_key x c, p)) es) 0)"
proof (induction es rule: rev_induct)
  case Nil
  show ?case by (simp add: modifiers_spec_def held_def locked_def)
next
  case (snoc e es)
  obtain x c p where e: "e = (x, c, p)" by (metis prod.exhaust)
  have c: "c < 128" using snoc.prems e by simp
  note k = scan_key_modifier [OF c, of x]
  define m where "m = fold (\<lambda>(key, p). update_modifiers key p) (map (\<lambda>(x, c, p). (scan_key x c, p)) es) 0"
  have IH: "modifiers_spec es m" using snoc by (simp add: m_def)
  have "modifier_of (scan_key x c) \<in> {None, Some SHIFT, Some CTRL, Some ALT}" by (cases "scan_key x c") simp_all
  then consider (caps) "(x, c) = (False, 0x3A)" "scan_key x c = CapsLock" | (num) "(x, c) = (False, 0x45)" "scan_key x c = NumLock"
    | (shift) "(x, c) \<in> {(False, 0x2A), (False, 0x36)}" "modifier_of (scan_key x c) = Some SHIFT"
    | (ctrl) "(x, c) \<in> {(False, 0x1D), (True, 0x1D)}" "modifier_of (scan_key x c) = Some CTRL"
    | (alt) "(x, c) \<in> {(False, 0x38), (True, 0x38)}" "modifier_of (scan_key x c) = Some ALT"
    | (other) "modifier_of (scan_key x c) = None" "scan_key x c \<noteq> CapsLock" "scan_key x c \<noteq> NumLock"
    using k by (cases "scan_key x c = CapsLock"; cases "scan_key x c = NumLock"; cases "modifier_of (scan_key x c)") fastforce+
  then have "modifiers_spec (es @ [(x, c, p)]) (update_modifiers (scan_key x c) p m)"
  proof cases
    case other
    then have n: "(x, c) \<notin> {(False, 0x2A), (False, 0x36)}" "(x, c) \<notin> {(False, 0x1D), (True, 0x1D)}" "(x, c) \<notin> {(False, 0x38), (True, 0x38)}"
      "\<not> (\<not> x \<and> c = 0x3A \<and> p)" "\<not> (\<not> x \<and> c = 0x45 \<and> p)" using k by auto
    have u: "update_modifiers (scan_key x c) p m = m" using other by (auto simp: update_modifiers_def)
    show ?thesis using IH unfolding modifiers_spec_def held_snoc locked_snoc u by (simp only: n if_False simp_thms)
  next
    case caps
    then have "update_modifiers (scan_key x c) p m = (if p then m XOR CAPSLOCK else m)" by (simp add: update_modifiers_def)
    then show ?thesis using IH caps(1) by (cases p) (simp_all add: modifiers_spec_def held_snoc locked_snoc small_flags bit_xor_iff)
  next
    case num
    then have "update_modifiers (scan_key x c) p m = (if p then m XOR NUMLOCK else m)" by (simp add: update_modifiers_def)
    then show ?thesis using IH num(1) by (cases p) (simp_all add: modifiers_spec_def held_snoc locked_snoc small_flags bit_xor_iff)
  next
    case shift
    then have u: "update_modifiers (scan_key x c) p m = (if p then m OR SHIFT else m AND NOT SHIFT)" by (auto simp: update_modifiers_def)
    from shift(1) have "c \<noteq> 0x3A" "c \<noteq> 0x45" "(x, c) \<in> {(False, 0x2A), (False, 0x36)} \<longleftrightarrow> True" "(x, c) \<in> {(False, 0x1D), (True, 0x1D)} \<longleftrightarrow> False"
      "(x, c) \<in> {(False, 0x38), (True, 0x38)} \<longleftrightarrow> False" by auto
    then show ?thesis using IH
      unfolding u modifiers_spec_def held_snoc locked_snoc small_flags set_flag_bits flag_bits by (simp only: if_True if_False) simp
  next
    case ctrl
    then have u: "update_modifiers (scan_key x c) p m = (if p then m OR CTRL else m AND NOT CTRL)" by (auto simp: update_modifiers_def)
    from ctrl(1) have "c \<noteq> 0x3A" "c \<noteq> 0x45" "(x, c) \<in> {(False, 0x2A), (False, 0x36)} \<longleftrightarrow> False" "(x, c) \<in> {(False, 0x1D), (True, 0x1D)} \<longleftrightarrow> True"
      "(x, c) \<in> {(False, 0x38), (True, 0x38)} \<longleftrightarrow> False" by auto
    then show ?thesis using IH
      unfolding u modifiers_spec_def held_snoc locked_snoc small_flags set_flag_bits flag_bits by (simp only: if_True if_False) simp
  next
    case alt
    then have u: "update_modifiers (scan_key x c) p m = (if p then m OR ALT else m AND NOT ALT)" by (auto simp: update_modifiers_def)
    from alt(1) have "c \<noteq> 0x3A" "c \<noteq> 0x45" "(x, c) \<in> {(False, 0x2A), (False, 0x36)} \<longleftrightarrow> False" "(x, c) \<in> {(False, 0x1D), (True, 0x1D)} \<longleftrightarrow> False"
      "(x, c) \<in> {(False, 0x38), (True, 0x38)} \<longleftrightarrow> True" by auto
    then show ?thesis using IH
      unfolding u modifiers_spec_def held_snoc locked_snoc small_flags set_flag_bits flag_bits by (simp only: if_True if_False) simp
  qed
  then show ?case by (simp add: e m_def)
qed

section \<open>Properties\<close>

text \<open>C33. The modifiers refine the history of the keyboard. After any sequence of scancodes of set 1, the shift, control
  and alt flags (bits 0, 1 and 2) say whether the last event of one of the modifier's two keys, given by their
  make codes, was a press, and the caps lock and num lock flags (bits 3 and 4) whether that key was pressed an odd
  number of times; no other scancode, extended or unknown, changes a flag, and no other bit is ever set.\<close>

theorem keyboard_modifiers_follow_history:
  "modifiers_spec (scan_events False bs) (kb_modifiers (kb_run bs Keyboard_new))"
proof -
  have "\<forall>(x, c, p) \<in> set (scan_events False bs). c < 128" using scan_events_code by blast
  from modifiers_fold [OF this] show ?thesis by (simp add: kb_run_trace Keyboard_new_def key_trace_events)
qed

lemma unat_of_char: "unat (of_char c :: byte) = of_char c"
proof -
  have "(of_char c :: byte) = of_nat (of_char c)" by (simp only: of_nat_of_char)
  then have "unat (of_char c :: byte) = of_char c mod 256" by (simp only: unat_of_nat) simp
  then show ?thesis by simp
qed

lemma grid_state_keep_parser:
  "on_grid f t = Ok t' \<Longrightarrow> te_parser t' = te_parser t" "on_state f' t = Ok t' \<Longrightarrow> te_parser t' = te_parser t"
  "upd_state f'' t = Ok t' \<Longrightarrow> te_parser t' = te_parser t" "step_scroll s t = Ok t' \<Longrightarrow> te_parser t' = te_parser t"
  by (auto simp: on_grid_def on_state_def upd_state_def step_scroll_def term_scroll_up_def Let_def split: prod.splits if_splits)

lemma print_execute_keep_parser:
  "print_char ch t = Ok t' \<Longrightarrow> te_parser t' = te_parser t" "execute b t = Ok t' \<Longrightarrow> te_parser t' = te_parser t"
  by (auto simp: print_char_def execute_def Let_def dest!: grid_state_keep_parser split: if_splits)

lemma typed_event:
  assumes "typed c" and "pa_state p = Ground"
  shows "\<exists>e. parser_advance (of_char c) p = (Some e, p) \<and> (e = Print (of_char c) \<or> e = Execute (of_char c))"
proof -
  have "unat (of_char c :: byte) \<in> {0x20..<0x7F} \<union> {1..26}" using assms by (simp add: typed_def unat_of_char)
  then show ?thesis using assms(2) by (auto simp: parser_advance_def ground_def word_le_nat_alt word_unat_eq_iff)
qed

text \<open>Typing and echoing. Whatever scancode arrives, the character that a key event types is a printable ASCII
  character or a control code from 1 to 26 (control letters, backspace, tab and newline), never an escape
  character. Echoed to a terminal whose parser is in the ground state, it is processed without a panic,
  keeps the terminal well-formed and leaves the parser in the ground state.\<close>

lemma typed_character_echoes:
  assumes "process_scancode b k = (Some e, k')" and "to_char e = Some c" and "wf_terminal w h t" and "pa_state (te_parser t) = Ground"
  shows "(of_char c :: nat) \<in> {0x20..<0x7F} \<union> {1..26} \<and>
    (\<exists>t'. process_byte (of_char c) t = Ok t' \<and> wf_terminal w h t' \<and> pa_state (te_parser t') = Ground)"
proof -
  have "plain_key (ke_key e)" using assms(1) decode_plain by (auto simp: process_scancode_def Let_def split: if_splits)
  then have c: "typed c" using to_char_typed assms(2) by blast
  obtain ev where ev: "parser_advance (of_char c) (te_parser t) = (Some ev, te_parser t)" "ev = Print (of_char c) \<or> ev = Execute (of_char c)"
    using typed_event [OF c assms(4)] by blast
  obtain t' where t': "process_byte (of_char c) t = Ok t'" "wf_terminal w h t'"
    using wf_process_byte [OF assms(3), of "of_char c"] by (auto simp: returns_def)
  have "te_parser t' = te_parser t"
    using t'(1) ev by (auto simp: process_byte_def handle_event_def dest: print_execute_keep_parser)
  then show ?thesis using c t' assms(4) by (simp add: typed_def)
qed

lemma typed_character_echoes_example:
  "\<exists>e k' t0 t'. process_scancode 0x1E Keyboard_new = (Some e, k') \<and> to_char e = Some (CHR ''a'') \<and> Terminal_new 80 25 = Ok t0 \<and>
     process_byte (of_char (CHR ''a'')) t0 = Ok t' \<and> pa_state (te_parser t') = Ground"
proof -
  obtain t0 where t0: "Terminal_new 80 25 = Ok t0" "wf_terminal 80 25 t0" using Terminal_new_ok [of 80 25] by auto
  then have p: "pa_state (te_parser t0) = Ground" by (auto simp: Terminal_new_def Parser_new_def)
  define e where "e = \<lparr>ke_key = Char_key (CHR ''a''), ke_pressed = True, ke_modifiers = 0\<rparr>"
  have e: "process_scancode 0x1E Keyboard_new = (Some e, Keyboard_new)"
    by (simp add: e_def process_scancode_def Keyboard_new_def decode_standard_def update_modifiers_def is_modifier_def)
  moreover have c: "to_char e = Some (CHR ''a'')"
    by (simp add: e_def to_char_def has_def SHIFT_def CTRL_def CAPSLOCK_def is_ascii_lowercase_def ascii_lower_def is_ascii_uppercase_def)
  ultimately show ?thesis using typed_character_echoes [OF e c t0(2) p] t0(1) by blast
qed

end
