(* ===== verification/Rl_Io.thy ===== *)
theory Rl_Io
  imports Rl_Modes Term_Keyboard Term_State
begin

text \<open>
  Input and output of the line editor: \<open>KeyReader\<close> in \<^verbatim>\<open>src/crates/sys/readline/src/key.rs\<close> and \<open>Terminal\<close> in
  \<^verbatim>\<open>terminal.rs\<close>. The input is the list of the bytes that successive \<open>SYS_GETKEY\<close> calls return, 0 when no key is
  there; \<open>None\<close> means that the reader is still waiting when the list ends. The output is the list of bytes
  written to standard output.
\<close>

section \<open>Reading keys\<close>

type_synonym polls = "byte list"

text \<open>\<open>for _ in 0..5000\<close>; 0 when the time is over.\<close>

fun read_char_within :: "nat \<Rightarrow> polls \<Rightarrow> (byte \<times> polls) option" where
  "read_char_within 0 p = Some (0, p)"
| "read_char_within (Suc n) [] = None"
| "read_char_within (Suc n) (ch # p) = (if ch \<noteq> 0 then Some (ch, p) else read_char_within n p)"

definition read_char_timeout :: "polls \<Rightarrow> (byte \<times> polls) option" where
  "read_char_timeout = read_char_within 5000"

text \<open>Saturating arithmetic at 32 bits.\<close>

fun parse_digits :: "nat \<Rightarrow> byte list \<Rightarrow> nat" where
  "parse_digits n [] = n"
| "parse_digits n (b # bs) =
     (if 0x30 \<le> b \<and> b \<le> 0x39 then parse_digits (min (min (n * 10) (2 ^ 32 - 1) + unat (b - 0x30)) (2 ^ 32 - 1)) bs
      else if b = 0x3B then n else parse_digits n bs)"

definition parse_number :: "byte list \<Rightarrow> nat" where
  "parse_number = parse_digits 0"

definition csi_key :: "byte \<Rightarrow> byte list \<Rightarrow> key" where
  "csi_key ch params =
     (if ch = 0x41 then KUp else if ch = 0x42 then KDown else if ch = 0x43 then KRight else if ch = 0x44 then KLeft
      else if ch = 0x48 then KHome else if ch = 0x46 then KEnd
      else if ch = 0x7E then
        (let n = parse_number params in
         if n = 1 then KHome else if n = 2 then KInsert else if n = 3 then KDelete else if n = 4 then KEnd
         else if n = 5 then KPageUp else if n = 6 then KPageDown else if n = 7 then KHome else if n = 8 then KEnd
         else KUnknown ch)
      else KUnknown ch)"

lemma read_char_within_shorter: "read_char_within n p = Some (ch, q) \<Longrightarrow> ch \<noteq> 0 \<Longrightarrow> length q < length p"
  by (induction n p rule: read_char_within.induct) (auto split: if_splits)

lemma read_char_timeout_shorter: "read_char_timeout p = Some (ch, q) \<Longrightarrow> ch \<noteq> 0 \<Longrightarrow> length q < length p"
  by (simp add: read_char_timeout_def read_char_within_shorter)

function parse_csi_sequence :: "byte list \<Rightarrow> polls \<Rightarrow> (key \<times> polls) option" where
  "parse_csi_sequence params p =
     (case read_char_timeout p of
        None \<Rightarrow> None
      | Some (ch, p) \<Rightarrow>
          if ch = 0 then Some (KUnknown 0, p)
          else if (0x30 \<le> ch \<and> ch \<le> 0x39) \<or> ch = 0x3B
          then parse_csi_sequence (if length params < 8 then params @ [ch] else params) p
          else Some (csi_key ch params, p))"
  by pat_completeness auto
termination by (relation "measure (\<lambda>(_, p). length p)") (auto dest!: read_char_timeout_shorter)

declare parse_csi_sequence.simps [simp del]

definition parse_ss3_sequence :: "polls \<Rightarrow> (key \<times> polls) option" where
  "parse_ss3_sequence p =
     (case read_char_timeout p of
        None \<Rightarrow> None
      | Some (ch, p) \<Rightarrow>
          Some (if ch = 0x41 then KUp else if ch = 0x42 then KDown else if ch = 0x43 then KRight else if ch = 0x44 then KLeft
                else if ch = 0x48 then KHome else if ch = 0x46 then KEnd else KUnknown ch, p))"

definition control_key :: "byte \<Rightarrow> key" where
  "control_key ch =
     (if ch = 0x08 then KBackspace else if ch = 0x09 then KTab else if ch = 0x0A \<or> ch = 0x0D then KEnter
      else if ch \<le> 0x1A then KCtrl (unat (0x61 + ch - 1)) else KCtrl (unat (0x40 + ch)))"

fun read_key :: "polls \<Rightarrow> (key \<times> polls) option" where
  "read_key [] = None"
| "read_key (ch # p) =
     (if ch = 0 then read_key p
      else if ch = 0x1B then
        (case read_char_timeout p of
           None \<Rightarrow> None
         | Some (ch2, p) \<Rightarrow>
             if ch2 = 0 then Some (KEscape, p)
             else if ch2 = 0x5B then parse_csi_sequence [] p
             else if ch2 = 0x4F then parse_ss3_sequence p
             else Some (KAlt (unat ch2), p))
      else if ch < 32 then Some (control_key ch, p)
      else if ch = 0x7F then Some (KBackspace, p)
      else Some (KChar (unat ch), p))"

definition key_is_printable :: "key \<Rightarrow> bool" where
  "key_is_printable key = (case key of KChar c \<Rightarrow> (33 \<le> c \<and> c \<le> 126) \<or> c = 32 | _ \<Rightarrow> False)"

definition key_char :: "key \<Rightarrow> uchar option" where
  "key_char key = (case key of KChar c \<Rightarrow> Some c | KCtrl c \<Rightarrow> Some c | KAlt c \<Rightarrow> Some c | _ \<Rightarrow> None)"

definition key_is_ctrl :: "key \<Rightarrow> bool" where
  "key_is_ctrl key = (case key of KCtrl _ \<Rightarrow> True | _ \<Rightarrow> False)"

definition key_is_alt :: "key \<Rightarrow> bool" where
  "key_is_alt key = (case key of KAlt _ \<Rightarrow> True | _ \<Rightarrow> False)"

section \<open>Writing\<close>

text \<open>The UTF-8 encoding of a Unicode scalar value (\<open>char::encode_utf8\<close>).\<close>

definition utf8_char :: "uchar \<Rightarrow> byte list" where
  "utf8_char c =
     (if c < 0x80 then [of_nat c]
      else if c < 0x800 then [of_nat (0xC0 + c div 64), of_nat (0x80 + c mod 64)]
      else if c < 0x10000 then [of_nat (0xE0 + c div 4096), of_nat (0x80 + c div 64 mod 64), of_nat (0x80 + c mod 64)]
      else [of_nat (0xF0 + c div 262144), of_nat (0x80 + c div 4096 mod 64), of_nat (0x80 + c div 64 mod 64), of_nat (0x80 + c mod 64)])"

definition utf8 :: "uchar list \<Rightarrow> byte list" where
  "utf8 s = concat (map utf8_char s)"

text \<open>The decimal digits in reverse, in an array of ten bytes.\<close>

fun rev_digits :: "nat \<Rightarrow> byte list" where
  "rev_digits val = (if val = 0 then [] else of_nat (48 + val mod 10) # rev_digits (val div 10))"

declare rev_digits.simps [simp del]

definition write_csi_param :: "nat \<Rightarrow> byte \<Rightarrow> byte list pan" where
  "write_csi_param n cmd =
     (if n = 0 then Ok [0x1B, 0x5B, 0x30, cmd]
      else if length (rev_digits n) > 10 then Panic
      else Ok ([0x1B, 0x5B] @ rev (rev_digits n) @ [cmd]))"

definition move_cursor_left :: "nat \<Rightarrow> byte list pan" where
  "move_cursor_left n = (if n > 0 then write_csi_param n 0x44 else Ok [])"

definition move_cursor_right :: "nat \<Rightarrow> byte list pan" where
  "move_cursor_right n = (if n > 0 then write_csi_param n 0x43 else Ok [])"

definition move_cursor_up :: "nat \<Rightarrow> byte list pan" where
  "move_cursor_up n = (if n > 0 then write_csi_param n 0x41 else Ok [])"

definition move_cursor_down :: "nat \<Rightarrow> byte list pan" where
  "move_cursor_down n = (if n > 0 then write_csi_param n 0x42 else Ok [])"

definition move_to_column :: "nat \<Rightarrow> byte list pan" where
  "move_to_column col = write_csi_param col 0x47"

definition clear_to_end :: "byte list" where "clear_to_end = [0x1B, 0x5B, 0x4B]"
definition clear_to_start :: "byte list" where "clear_to_start = [0x1B, 0x5B, 0x31, 0x4B]"
definition clear_line :: "byte list" where "clear_line = [0x1B, 0x5B, 0x32, 0x4B]"
definition clear_screen :: "byte list" where "clear_screen = [0x1B, 0x5B, 0x32, 0x4A, 0x1B, 0x5B, 0x48]"
definition rl_save_cursor :: "byte list" where "rl_save_cursor = [0x1B, 0x5B, 0x73]"
definition rl_restore_cursor :: "byte list" where "rl_restore_cursor = [0x1B, 0x5B, 0x75]"
definition beep :: "byte list" where "beep = [0x07]"
definition rl_carriage_return :: "byte list" where "rl_carriage_return = [0x0D]"
definition rl_newline :: "byte list" where "rl_newline = [0x0D, 0x0A]"
definition hide_cursor :: "byte list" where "hide_cursor = [0x1B, 0x5B, 0x3F, 0x32, 0x35, 0x6C]"
definition show_cursor :: "byte list" where "show_cursor = [0x1B, 0x5B, 0x3F, 0x32, 0x35, 0x68]"

definition set_attribute :: "byte \<Rightarrow> byte list pan" where
  "set_attribute attr = write_csi_param (unat attr) 0x6D"

definition rl_reset_attributes :: "byte list" where "rl_reset_attributes = [0x1B, 0x5B, 0x30, 0x6D]"
definition set_fg_color :: "byte \<Rightarrow> byte list pan" where "set_fg_color color = set_attribute (30 + color)"
definition set_bg_color :: "byte \<Rightarrow> byte list pan" where "set_bg_color color = set_attribute (40 + color)"
definition rl_set_bold :: "byte list pan" where "rl_set_bold = set_attribute 1"
definition rl_set_underline :: "byte list pan" where "rl_set_underline = set_attribute 4"
definition rl_set_reverse :: "byte list pan" where "rl_set_reverse = set_attribute 7"

section \<open>Keys and their bytes\<close>

lemma read_char_timeout_Cons: "ch \<noteq> 0 \<Longrightarrow> read_char_timeout (ch # p) = Some (ch, p)"
  using read_char_within.simps(3) [of 4999 ch p] by (simp add: read_char_timeout_def)

lemma read_char_timeout_zeros: "read_char_timeout (replicate 5000 0 @ p) = Some (0, p)"
proof -
  have "read_char_within n (replicate n 0 @ p) = Some (0, p)" for n by (induction n) simp_all
  then show ?thesis by (simp add: read_char_timeout_def)
qed

text \<open>What the line editor reads for a key of the keyboard driver: the function keys are unknown to it.\<close>

fun editor_key :: "key_code \<Rightarrow> key" where
  "editor_key Up_key = KUp"
| "editor_key Down_key = KDown"
| "editor_key Left_key = KLeft"
| "editor_key Right_key = KRight"
| "editor_key Home_key = KHome"
| "editor_key End_key = KEnd"
| "editor_key Insert_key = KInsert"
| "editor_key Delete_key = KDelete"
| "editor_key PageUp = KPageUp"
| "editor_key PageDown = KPageDown"
| "editor_key F1 = KUnknown 0x50"
| "editor_key F2 = KUnknown 0x51"
| "editor_key F3 = KUnknown 0x52"
| "editor_key F4 = KUnknown 0x53"
| "editor_key Escape_key = KEscape"
| "editor_key _ = KUnknown 0x7E"

text \<open>What it reads for a typed character.\<close>

definition char_key :: "char \<Rightarrow> key" where
  "char_key c =
     (let n = (of_char c :: nat) in
      if n = 8 then KBackspace else if n = 9 then KTab else if n = 10 \<or> n = 13 then KEnter
      else if n < 32 then KCtrl (n + 96) else KChar n)"

lemma byte_of_nat_of_char: "(of_char c :: byte) = of_nat (of_char c)"
  by (metis of_nat_of_char)

lemma read_typed:
  assumes "typed c"
  shows "read_key (of_char c # rest) = Some (char_key c, rest)"
proof -
  define n where "n = (of_char c :: nat)"
  have n: "n \<in> {0x20..<0x7F} \<union> {1..26}" using assms by (simp add: typed_def n_def)
  have u: "unat (of_char c :: byte) = n" by (simp add: n_def unat_of_char)
  have e: "(of_char c :: byte) = k \<longleftrightarrow> n = unat k" for k by (metis u word_unat_eq_iff)
  have l: "(of_char c :: byte) < k \<longleftrightarrow> n < unat k" "(of_char c :: byte) \<le> k \<longleftrightarrow> n \<le> unat k" for k
    by (simp_all add: word_less_nat_alt word_le_nat_alt u)
  have "(0x61 + of_char c - 1 :: byte) = of_nat (n + 96)" by (simp add: byte_of_nat_of_char n_def)
  then have "unat (0x61 + of_char c - 1 :: byte) = n + 96" if "n \<le> 26" using that by (simp only: unat_of_nat) simp
  then show ?thesis using n by (auto simp: char_key_def control_key_def e l u n_def [symmetric] Let_def)
qed

lemma read_escape_sequence:
  assumes "to_escape_sequence e = Some s" and "ke_key e \<noteq> Escape_key"
  shows "read_key (map of_char s @ rest) = Some (editor_key (ke_key e), rest)"
  using assms
  by (cases "ke_key e")
    (auto simp: to_escape_sequence_def read_char_timeout_Cons parse_csi_sequence.simps parse_ss3_sequence_def csi_key_def parse_number_def
      split: if_splits)

section \<open>Properties\<close>

text \<open>The bytes of a key lead back to the key. The escape sequence that the keyboard driver defines for a cursor or editing
  key is read by the line editor as that key, and leaves the bytes behind it unread; the sequences of the twelve function
  keys are consumed whole and read as unknown. The escape key is recognised when no byte follows for 5000 polls.
  A typed character is read as itself, and a control character as the control key, except that Ctrl-H,
  Ctrl-I, Ctrl-J and Ctrl-M are backspace, tab and enter.\<close>

lemma key_bytes_decode:
  assumes "process_scancode b k = (Some e, k')"
  shows "(\<forall>s. to_escape_sequence e = Some s \<longrightarrow>
      read_key (map of_char s @ (if ke_key e = Escape_key then replicate 5000 0 else []) @ rest) = Some (editor_key (ke_key e), rest)) \<and>
    (\<forall>c. to_char e = Some c \<longrightarrow> read_key (of_char c # rest) = Some (char_key c, rest))"
proof -
  have "plain_key (ke_key e)" using assms decode_plain by (auto simp: process_scancode_def Let_def split: if_splits)
  then have "read_key (of_char c # rest) = Some (char_key c, rest)" if "to_char e = Some c" for c
    using read_typed to_char_typed that by blast
  moreover have "read_key (map of_char s @ replicate 5000 0 @ rest) = Some (KEscape, rest)"
    if "to_escape_sequence e = Some s" "ke_key e = Escape_key" for s
    using that by (auto simp: to_escape_sequence_def read_char_timeout_zeros split: if_splits)
  ultimately show ?thesis using read_escape_sequence [of e _ rest] by simp
qed

lemma key_bytes_decode_example:
  "\<exists>e k'. process_scancode 0x53 (Keyboard_new\<lparr>kb_extended := True\<rparr>) = (Some e, k') \<and> read_key [0x1B, 0x5B, 0x33, 0x7E, 0x61] = Some (KDelete, [0x61])"
proof -
  obtain e k' where e: "process_scancode 0x53 (Keyboard_new\<lparr>kb_extended := True\<rparr>) = (Some e, k')" "ke_key e = Delete_key" "ke_pressed e"
    by (simp add: process_scancode_def Keyboard_new_def decode_extended_def update_modifiers_def is_modifier_def)
  from conjunct1 [OF key_bytes_decode [OF e(1)], of "[0x61]", rule_format, of "CHR 0x1B # ''[3~''"] show ?thesis
    using e by (simp add: to_escape_sequence_def)
qed

end
