(* ===== verification/Rl_Complete.thy ===== *)
theory Rl_Complete
  imports Rl_Io
begin

text \<open>
  Tab completion: \<^verbatim>\<open>src/crates/sys/readline/src/completer.rs\<close>. A line is a list of characters, its byte indices are
  those of the UTF-8 encoding, and slicing a line at an index inside a character panics. The answers of the three
  system calls (working directory, environment, directory listing) are a parameter: the returned length with the
  contents of the buffer.
\<close>

section \<open>Byte indices\<close>

text \<open>The number of characters before a byte index, if the index is a character boundary.\<close>

fun char_boundary :: "uchar list \<Rightarrow> nat \<Rightarrow> nat option" where
  "char_boundary cs 0 = Some 0"
| "char_boundary [] (Suc n) = None"
| "char_boundary (c # cs) (Suc n) =
     (if Suc n < length (utf8_char c) then None else map_option Suc (char_boundary cs (Suc n - length (utf8_char c))))"

definition str_slice :: "nat \<Rightarrow> nat \<Rightarrow> uchar list \<Rightarrow> uchar list pan" where
  "str_slice a b s =
     (case (char_boundary s a, char_boundary s b) of
        (Some i, Some j) \<Rightarrow> if a \<le> b then Ok (take (j - i) (drop i s)) else Panic
      | _ \<Rightarrow> Panic)"

text \<open>Decoding: one character, or \<open>None\<close> for an invalid sequence, of which the longest valid beginning is skipped.\<close>

definition cont :: "byte \<Rightarrow> bool" where
  "cont b \<longleftrightarrow> 0x80 \<le> b \<and> b \<le> 0xBF"

definition second_ok :: "byte \<Rightarrow> byte \<Rightarrow> bool" where
  "second_ok a b \<longleftrightarrow>
     (if a = 0xE0 then 0xA0 \<le> b \<and> b \<le> 0xBF else if a = 0xED then 0x80 \<le> b \<and> b \<le> 0x9F
      else if a = 0xF0 then 0x90 \<le> b \<and> b \<le> 0xBF else if a = 0xF4 then 0x80 \<le> b \<and> b \<le> 0x8F else cont b)"

definition low6 :: "byte \<Rightarrow> nat" where
  "low6 b = unat b mod 64"

definition utf8_next :: "byte \<Rightarrow> byte list \<Rightarrow> uchar option \<times> byte list" where
  "utf8_next a bs =
     (if a < 0x80 then (Some (unat a), bs)
      else if 0xC2 \<le> a \<and> a \<le> 0xDF then
        (case bs of b # cs \<Rightarrow> if cont b then (Some (unat a mod 32 * 64 + low6 b), cs) else (None, bs) | [] \<Rightarrow> (None, bs))
      else if 0xE0 \<le> a \<and> a \<le> 0xEF then
        (case bs of
           b # cs \<Rightarrow>
             if second_ok a b
             then (case cs of c # ds \<Rightarrow> if cont c then (Some (unat a mod 16 * 4096 + low6 b * 64 + low6 c), ds) else (None, cs) | [] \<Rightarrow> (None, cs))
             else (None, bs)
         | [] \<Rightarrow> (None, bs))
      else if 0xF0 \<le> a \<and> a \<le> 0xF4 then
        (case bs of
           b # cs \<Rightarrow>
             if second_ok a b
             then (case cs of
                c # ds \<Rightarrow>
                  if cont c
                  then (case ds of
                     d # es \<Rightarrow>
                       if cont d then (Some (unat a mod 8 * 262144 + low6 b * 4096 + low6 c * 64 + low6 d), es) else (None, ds)
                   | [] \<Rightarrow> (None, ds))
                  else (None, cs)
              | [] \<Rightarrow> (None, cs))
             else (None, bs)
         | [] \<Rightarrow> (None, bs))
      else (None, bs))"

lemma utf8_next_shorter: "utf8_next a bs = (x, cs) \<Longrightarrow> length cs \<le> length bs"
  by (auto simp: utf8_next_def split: if_splits list.splits)

function utf8_chunks :: "byte list \<Rightarrow> uchar option list" where
  "utf8_chunks [] = []"
| "utf8_chunks (a # bs) = (let (x, cs) = utf8_next a bs in x # utf8_chunks cs)"
  by pat_completeness auto
termination by (relation "measure length") (auto dest!: utf8_next_shorter [OF sym])

text \<open>\<open>core::str::from_utf8\<close> and \<open>String::from_utf8_lossy\<close>\<close>

definition from_utf8 :: "byte list \<Rightarrow> uchar list option" where
  "from_utf8 bs = (let cs = utf8_chunks bs in if None \<in> set cs then None else Some (map the cs))"

definition from_utf8_lossy :: "byte list \<Rightarrow> uchar list" where
  "from_utf8_lossy bs = map (\<lambda>x. case x of Some c \<Rightarrow> c | None \<Rightarrow> 0xFFFD) (utf8_chunks bs)"

section \<open>Completions\<close>

record completion =
  co_text :: "uchar list"
  co_display :: "uchar list"
  co_suffix :: "uchar option"

definition Completion_new :: "uchar list \<Rightarrow> completion" where
  "Completion_new content = \<lparr>co_text = content, co_display = content, co_suffix = None\<rparr>"

definition Completion_with_suffix :: "uchar list \<Rightarrow> uchar \<Rightarrow> completion" where
  "Completion_with_suffix content suffix = \<lparr>co_text = content, co_display = content, co_suffix = Some suffix\<rparr>"

definition completion_display :: "uchar list \<Rightarrow> completion \<Rightarrow> completion" where
  "completion_display display c = c\<lparr>co_display := display\<rparr>"

text \<open>The trait: a completer gives the candidates and the boundaries of the word at the cursor.\<close>

record completer =
  cp_complete :: "uchar list \<Rightarrow> nat \<Rightarrow> completion list pan"
  cp_word_boundaries :: "uchar list \<Rightarrow> nat \<Rightarrow> (nat \<times> nat) pan"

definition is_ascii_whitespace :: "byte \<Rightarrow> bool" where
  "is_ascii_whitespace b \<longleftrightarrow> b \<in> {0x20, 0x09, 0x0A, 0x0C, 0x0D}"

fun word_start_from :: "byte list \<Rightarrow> nat \<Rightarrow> nat pan" where
  "word_start_from bytes 0 = Ok 0"
| "word_start_from bytes (Suc start) =
     (if start < length bytes then if \<not> is_ascii_whitespace (bytes ! start) then word_start_from bytes start else Ok (Suc start)
      else Panic)"

definition word_end_from :: "byte list \<Rightarrow> nat \<Rightarrow> nat" where
  "word_end_from bytes fin = fin + length (takeWhile (\<lambda>b. \<not> is_ascii_whitespace b) (drop fin bytes))"

definition word_boundaries :: "uchar list \<Rightarrow> nat \<Rightarrow> (nat \<times> nat) pan" where
  "word_boundaries line cursor =
     (let bytes = utf8 line in rbind (word_start_from bytes cursor) (\<lambda>start. Ok (start, word_end_from bytes cursor)))"

section \<open>Paths\<close>

record os_env =
  os_getcwd :: "nat \<times> byte list"
  os_readdir :: "byte list \<Rightarrow> nat \<times> byte list"
  os_getenv :: "byte list \<Rightarrow> nat \<times> byte list"

definition get_cwd :: "os_env \<Rightarrow> uchar list" where
  "get_cwd os = (let (len, buf) = os_getcwd os in if len > 0 \<and> len < 256 then from_utf8_lossy (take len buf) else [0x2F])"

text \<open>\<open>data.split(|&b| b == sep)\<close> and \<open>path.split(sep)\<close>\<close>

fun split_at :: "'a \<Rightarrow> 'a list \<Rightarrow> 'a list list" where
  "split_at sep [] = [[]]"
| "split_at sep (x # xs) =
     (if x = sep then [] # split_at sep xs else (case split_at sep xs of p # ps \<Rightarrow> (x # p) # ps | [] \<Rightarrow> [[x]]))"

definition parse_entry :: "byte list \<Rightarrow> (uchar list \<times> bool) option" where
  "parse_entry line =
     (if length line \<ge> 3 \<and> line ! 1 = 0x09
      then case from_utf8 (takeWhile (\<lambda>b. b \<noteq> 0x20) (drop 2 line)) of
          Some name \<Rightarrow> if name \<noteq> [] \<and> name \<noteq> [0x2E] \<and> name \<noteq> [0x2E, 0x2E] then Some (name, line ! 0 = 0x44) else None
        | None \<Rightarrow> None
      else None)"

definition list_directory :: "os_env \<Rightarrow> uchar list \<Rightarrow> (uchar list \<times> bool) list" where
  "list_directory os path =
     (let (len, buf) = os_readdir os (utf8 path) in
      if len > 0 \<and> len < 4096 then List.map_filter parse_entry (split_at 0x0A (take len buf)) else [])"

definition starts_with :: "uchar list \<Rightarrow> uchar list \<Rightarrow> bool" where
  "starts_with s p \<longleftrightarrow> take (length p) s = p"

definition expand_tilde :: "os_env \<Rightarrow> uchar list \<Rightarrow> uchar list" where
  "expand_tilde os partial =
     (if starts_with partial [0x7E]
      then
        let (len, buf) = os_getenv os (map of_char ''HOME'') in
        if len > 0 \<and> len < 128
        then
          let home = (case from_utf8 (take len buf) of Some h \<Rightarrow> h | None \<Rightarrow> [0x2F]); rest = drop 1 partial in
          home @ (if \<not> starts_with rest [0x2F] \<and> rest \<noteq> [] then [0x2F] else []) @ rest
        else partial
      else partial)"

text \<open>The part up to the last slash and the part behind it (\<open>rfind\<close>).\<close>

definition split_dir :: "uchar list \<Rightarrow> (uchar list \<times> uchar list) option" where
  "split_dir s =
     (if 0x2F \<in> set s
      then let n = length (takeWhile (\<lambda>c. c \<noteq> 0x2F) (rev s)) in Some (take (length s - n) s, drop (length s - n) s)
      else None)"

definition dir_suffix :: "bool \<Rightarrow> uchar" where
  "dir_suffix is_dir = (if is_dir then 0x2F else 0x20)"

definition complete_path :: "os_env \<Rightarrow> uchar list \<Rightarrow> completion list" where
  "complete_path os partial =
     (let expanded = expand_tilde os partial in
      case split_dir expanded of
        Some (dir, prefix) \<Rightarrow>
          map (\<lambda>(name, is_dir). \<lparr>co_text = dir @ name, co_display = name, co_suffix = Some (dir_suffix is_dir)\<rparr>)
            (filter (\<lambda>(name, _). starts_with name prefix) (list_directory os dir))
      | None \<Rightarrow>
          map (\<lambda>(name, is_dir). Completion_with_suffix name (dir_suffix is_dir))
            (filter (\<lambda>(name, _). starts_with name expanded) (list_directory os (get_cwd os))))"

definition word_before :: "uchar list \<Rightarrow> nat \<Rightarrow> uchar list pan" where
  "word_before line cursor = rbind (word_boundaries line cursor) (\<lambda>(start, _). str_slice start cursor line)"

definition PathCompleter_complete :: "os_env \<Rightarrow> uchar list \<Rightarrow> nat \<Rightarrow> completion list pan" where
  "PathCompleter_complete os line cursor = rbind (word_before line cursor) (\<lambda>word. Ok (complete_path os word))"

section \<open>Commands\<close>

definition get_path_dirs :: "os_env \<Rightarrow> uchar list list" where
  "get_path_dirs os =
     (let (len, buf) = os_getenv os (map of_char ''PATH'');
          dirs = (if len > 0 \<and> len < 512
                  then (case from_utf8 (take len buf) of Some path \<Rightarrow> filter (\<lambda>d. d \<noteq> []) (split_at 0x3A path) | None \<Rightarrow> []) else []) in
      if dirs = [] then [map of_char ''C:/apps/system''] else dirs)"

definition add_command :: "uchar list \<Rightarrow> uchar list \<times> bool \<Rightarrow> completion list \<times> uchar list list \<Rightarrow> completion list \<times> uchar list list" where
  "add_command partial entry s =
     (let (name, _) = entry; (completions, seen) = s in
      if starts_with name partial \<and> name \<notin> set seen then (completions @ [Completion_with_suffix name 0x20], seen @ [name]) else s)"

definition complete_command :: "os_env \<Rightarrow> uchar list \<Rightarrow> completion list" where
  "complete_command os partial =
     fst (fold (\<lambda>dir s. fold (add_command partial) (list_directory os dir) s) (get_path_dirs os) ([], []))"

definition CommandCompleter_complete :: "os_env \<Rightarrow> uchar list \<Rightarrow> nat \<Rightarrow> completion list pan" where
  "CommandCompleter_complete os line cursor = rbind (word_before line cursor) (\<lambda>word. Ok (complete_command os word))"

section \<open>The shell's completer\<close>

definition is_path_like :: "uchar list \<Rightarrow> bool" where
  "is_path_like word \<longleftrightarrow> starts_with word [0x2F] \<or> starts_with word [0x2E] \<or> starts_with word [0x7E] \<or> 0x2F \<in> set word"

definition command_position :: "uchar list \<Rightarrow> bool" where
  "command_position before \<longleftrightarrow> before = [] \<or> last before \<in> {0x20, 0x7C, 0x26, 0x3B}"

definition ShellCompleter_complete :: "os_env \<Rightarrow> uchar list \<Rightarrow> nat \<Rightarrow> completion list pan" where
  "ShellCompleter_complete os line cursor =
     rbind (word_boundaries line cursor) (\<lambda>(start, _).
     rbind (str_slice start cursor line) (\<lambda>word.
     if is_path_like word then PathCompleter_complete os line cursor
     else
       rbind (str_slice 0 start line) (\<lambda>before.
       if command_position before
       then rbind (CommandCompleter_complete os line cursor) (\<lambda>cs.
            rbind (PathCompleter_complete os line cursor) (\<lambda>ps. Ok (cs @ ps)))
       else PathCompleter_complete os line cursor)))"

definition PathCompleter :: "os_env \<Rightarrow> completer" where
  "PathCompleter os = \<lparr>cp_complete = PathCompleter_complete os, cp_word_boundaries = word_boundaries\<rparr>"

definition CommandCompleter :: "os_env \<Rightarrow> completer" where
  "CommandCompleter os = \<lparr>cp_complete = CommandCompleter_complete os, cp_word_boundaries = word_boundaries\<rparr>"

definition ShellCompleter :: "os_env \<Rightarrow> completer" where
  "ShellCompleter os = \<lparr>cp_complete = ShellCompleter_complete os, cp_word_boundaries = word_boundaries\<rparr>"

end
