(* ===== verification/Kern_User_Access.thy ===== *)
theory Kern_User_Access
  imports Kern_Paging Rl_Complete
begin

text \<open>
  Access to user memory, \<open>crates/core/mem/src/user_access.rs\<close>.

  User memory is read and written through the active page table: a byte that is not mapped is \<open>None\<close>,
  and touching it is a page fault of the kernel, the value \<open>Panic\<close>. The buffer of \<open>copy_from_user\<close> is
  represented by its length on the way in and its contents on the way out.
\<close>

section \<open>Model\<close>

definition ACCESS_MAX :: u64 where "ACCESS_MAX = 0x0000800000000000"

datatype user_access_error = NullPointer | KernelPointer | Overflow | OutOfBounds | NotMapped | InvalidUtf8

type_synonym umem = "u64 \<Rightarrow> byte option"

definition validate_user_ptr :: "u64 \<Rightarrow> u64 \<Rightarrow> (user_access_error, unit) res" where
  "validate_user_ptr ptr len =
     (if ptr = 0 then Err NullPointer
      else if ptr \<ge> ACCESS_MAX then Err KernelPointer
      else rbind (ok_or Overflow (if unat ptr + unat len < 2 ^ 64 then Some (ptr + len) else None)) (\<lambda>end_addr.
        if end_addr > ACCESS_MAX then Err OutOfBounds else Ok ()))"

text \<open>\<open>iter().position(|&b| b == 0)\<close> on the raw slice and the copy of what precedes: bytes are read one
  by one up to the terminator.\<close>

fun scan_user :: "umem \<Rightarrow> u64 \<Rightarrow> nat \<Rightarrow> byte list option" where
  "scan_user mem ptr 0 = Some []"
| "scan_user mem ptr (Suc n) =
     (case mem ptr of
        None \<Rightarrow> None
      | Some b \<Rightarrow> if b = 0 then Some [] else map_option (Cons b) (scan_user mem (ptr + 1) n))"

definition read_user_string :: "umem \<Rightarrow> u64 \<Rightarrow> u64 \<Rightarrow> (user_access_error, uchar list) res" where
  "read_user_string mem ptr max_len =
     rbind (validate_user_ptr ptr max_len) (\<lambda>_.
       rbind (or_panic (scan_user mem ptr (unat max_len))) (\<lambda>bytes. ok_or InvalidUtf8 (from_utf8 bytes)))"

fun load_user :: "umem \<Rightarrow> u64 \<Rightarrow> nat \<Rightarrow> byte list option" where
  "load_user mem ptr 0 = Some []"
| "load_user mem ptr (Suc n) =
     (case mem ptr of None \<Rightarrow> None | Some b \<Rightarrow> map_option (Cons b) (load_user mem (ptr + 1) n))"

fun store_user :: "umem \<Rightarrow> u64 \<Rightarrow> byte list \<Rightarrow> umem option" where
  "store_user mem ptr [] = Some mem"
| "store_user mem ptr (b # bs) =
     (case mem ptr of None \<Rightarrow> None | Some _ \<Rightarrow> store_user (mem(ptr \<mapsto> b)) (ptr + 1) bs)"

definition copy_from_user :: "umem \<Rightarrow> u64 \<Rightarrow> nat \<Rightarrow> (user_access_error, byte list) res" where
  "copy_from_user mem user_ptr buf_len =
     rbind (validate_user_ptr user_ptr (of_nat buf_len)) (\<lambda>_. or_panic (load_user mem user_ptr buf_len))"

definition copy_to_user :: "umem \<Rightarrow> byte list \<Rightarrow> u64 \<Rightarrow> (user_access_error, umem) res" where
  "copy_to_user mem kernel_buf user_ptr =
     rbind (validate_user_ptr user_ptr (of_nat (length kernel_buf))) (\<lambda>_. or_panic (store_user mem user_ptr kernel_buf))"

section \<open>Ranges\<close>

lemma validate_ok:
  "validate_user_ptr ptr len = Ok () \<longleftrightarrow> ptr \<noteq> 0 \<and> unat ptr < 2 ^ 47 \<and> unat ptr + unat len \<le> 2 ^ 47"
  by (auto simp: validate_user_ptr_def ok_or_def ACCESS_MAX_def word_le_nat_alt word_less_nat_alt unat_add_lem [THEN iffD1] not_le not_less
    split: if_splits)

lemma unat_Suc_ptr: "unat ptr + Suc n < 2 ^ 64 \<Longrightarrow> unat (ptr + 1) = unat ptr + 1" for ptr :: u64
  by (simp add: unat_word_ariths)

lemma store_user_spec:
  assumes "unat ptr + length bs < 2 ^ 64" "store_user mem ptr bs = Some mem'"
  shows "mem' a = (if unat ptr \<le> unat a \<and> unat a < unat ptr + length bs then Some (bs ! (unat a - unat ptr)) else mem a)"
  using assms
proof (induction bs arbitrary: mem ptr)
  case (Cons b bs)
  have n: "unat (ptr + 1) = unat ptr + 1" using Cons.prems(1) by (intro unat_Suc_ptr) simp
  have IH: "mem' a = (if unat ptr + 1 \<le> unat a \<and> unat a < unat ptr + 1 + length bs
      then Some (bs ! (unat a - (unat ptr + 1))) else (mem(ptr \<mapsto> b)) a)"
  proof -
    have "store_user (mem(ptr \<mapsto> b)) (ptr + 1) bs = Some mem'" using Cons.prems(2) by (simp split: option.splits)
    from Cons.IH [OF _ this, unfolded n] show ?thesis using Cons.prems(1) by simp
  qed
  consider "a = ptr" | "unat a < unat ptr" | "unat ptr < unat a" by (metis linorder_neqE_nat word_unat_eq_iff)
  then show ?case
  proof cases
    case 3
    then have "unat a - unat ptr = Suc (unat a - (unat ptr + 1))" by simp
    then show ?thesis using IH 3 by auto
  qed (use IH in auto)
qed auto

lemma load_user_spec:
  assumes "unat ptr + length bs < 2 ^ 64"
    and "\<And>a. unat ptr \<le> unat a \<Longrightarrow> unat a < unat ptr + length bs \<Longrightarrow> mem a = Some (bs ! (unat a - unat ptr))"
  shows "load_user mem ptr (length bs) = Some bs"
  using assms
proof (induction bs arbitrary: ptr)
  case (Cons b bs)
  have n: "unat (ptr + 1) = unat ptr + 1" using Cons.prems(1) by (intro unat_Suc_ptr) simp
  have "mem a = Some (bs ! (unat a - unat (ptr + 1)))" if "unat (ptr + 1) \<le> unat a" "unat a < unat (ptr + 1) + length bs" for a
  proof -
    have "unat a - unat ptr = Suc (unat a - unat (ptr + 1))" using that n by simp
    then show ?thesis using Cons.prems(2) [of a] that n by simp
  qed
  then have "load_user mem (ptr + 1) (length bs) = Some bs" using Cons.IH [of "ptr + 1"] Cons.prems(1) n by simp
  then show ?case using Cons.prems(2) [of ptr] by simp
qed simp

lemma scan_user_spec:
  assumes "scan_user mem ptr n = Some bs"
  shows "length bs \<le> n \<and> 0 \<notin> set bs \<and> (\<forall>i < length bs. mem (ptr + of_nat i) = Some (bs ! i)) \<and>
    (length bs < n \<longrightarrow> mem (ptr + of_nat (length bs)) = Some 0)"
  using assms
proof (induction mem ptr n arbitrary: bs rule: scan_user.induct)
  case (2 mem ptr n)
  obtain b where b: "mem ptr = Some b" using 2(2) by (cases "mem ptr") auto
  show ?case
  proof (cases "b = 0")
    case True
    then show ?thesis using 2(2) b by auto
  next
    case False
    then obtain cs where cs: "scan_user mem (ptr + 1) n = Some cs" "bs = b # cs" using 2(2) b by auto
    have IH: "length cs \<le> n \<and> 0 \<notin> set cs \<and> (\<forall>i < length cs. mem (ptr + 1 + of_nat i) = Some (cs ! i)) \<and>
        (length cs < n \<longrightarrow> mem (ptr + 1 + of_nat (length cs)) = Some 0)"
      using 2(1) [OF b False cs(1)] by simp
    have "mem (ptr + of_nat i) = Some (bs ! i)" if "i < length bs" for i
      using that IH b cs(2) by (cases i) (simp_all add: algebra_simps)
    then show ?thesis using IH False cs(2) by (auto simp: algebra_simps)
  qed
qed simp

section \<open>Properties\<close>

text \<open>A pointer range passes the check exactly when it lies in the lower half of the address space
  and does not start at 0; the address arithmetic never wraps in an accepted range, and every
  rejection has the reason it names.\<close>

lemma validate_user_ptr_exact:
  "case validate_user_ptr ptr len of
     Ok _ \<Rightarrow> ptr \<noteq> 0 \<and> unat ptr < 2 ^ 47 \<and> unat ptr + unat len \<le> 2 ^ 47 \<and> unat (ptr + len) = unat ptr + unat len
   | Err NullPointer \<Rightarrow> ptr = 0
   | Err KernelPointer \<Rightarrow> 2 ^ 47 \<le> unat ptr
   | Err Overflow \<Rightarrow> 0 < unat ptr \<and> unat ptr < 2 ^ 47 \<and> 2 ^ 64 \<le> unat ptr + unat len
   | Err OutOfBounds \<Rightarrow> 0 < unat ptr \<and> unat ptr < 2 ^ 47 \<and> unat ptr + unat len < 2 ^ 64 \<and> 2 ^ 47 < unat ptr + unat len
   | Err _ \<Rightarrow> False
   | Panic \<Rightarrow> False"
proof -
  consider "ptr = 0" | "ptr \<noteq> 0" "2 ^ 47 \<le> unat ptr" | "ptr \<noteq> 0" "unat ptr < 2 ^ 47" "2 ^ 64 \<le> unat ptr + unat len"
    | "ptr \<noteq> 0" "unat ptr < 2 ^ 47" "unat ptr + unat len < 2 ^ 64" by linarith
  then show ?thesis
  proof cases
    case 4
    then have "unat (ptr + len) = unat ptr + unat len" by (simp add: unat_add_lem [THEN iffD1])
    then show ?thesis using 4
      by (simp add: validate_user_ptr_def ok_or_def ACCESS_MAX_def word_le_nat_alt word_less_nat_alt unat_gt_0)
  qed (simp_all add: validate_user_ptr_def ok_or_def ACCESS_MAX_def word_le_nat_alt unat_gt_0)
qed

text \<open>What is copied to user memory is read back, and nothing else changes: in particular no byte
  of the upper half of the address space.\<close>

lemma copy_to_from_user:
  assumes "copy_to_user mem buf ptr = Ok mem'" "length buf < 2 ^ 64"
  shows "copy_from_user mem' ptr (length buf) = Ok buf \<and>
    (\<forall>a. unat a < unat ptr \<or> unat ptr + length buf \<le> unat a \<longrightarrow> mem' a = mem a) \<and>
    (\<forall>a. 2 ^ 47 \<le> unat a \<longrightarrow> mem' a = mem a)"
proof -
  have v: "validate_user_ptr ptr (of_nat (length buf)) = Ok ()" and s: "store_user mem ptr buf = Some mem'"
    using assms(1) by (auto simp: copy_to_user_def or_panic_def split: option.splits)
  have l: "unat (of_nat (length buf) :: u64) = length buf" using assms(2) by (simp add: unat_of_nat)
  have r: "unat ptr + length buf \<le> 2 ^ 47" using v unfolding validate_ok l by simp
  then have r': "unat ptr + length buf < 2 ^ 64" by (rule le_less_trans) simp
  note sp = store_user_spec [OF r' s]
  have "load_user mem' ptr (length buf) = Some buf" by (rule load_user_spec [OF r']) (simp add: sp)
  then have "copy_from_user mem' ptr (length buf) = Ok buf" by (simp add: copy_from_user_def v or_panic_def)
  moreover have "mem' a = mem a" if "unat a < unat ptr \<or> unat ptr + length buf \<le> unat a" for a using that sp [of a] by auto
  ultimately show ?thesis using r by (meson le_trans)
qed

lemma copy_to_from_user_example:
  "\<exists>mem'. copy_to_user (\<lambda>_. Some 0) [1, 2, 3] 0x1000 = Ok mem' \<and> copy_from_user mem' 0x1000 3 = Ok [1, 2, 3] \<and> mem' 0x1003 = Some 0"
proof -
  have "validate_user_ptr 0x1000 3 = Ok ()" by (simp add: validate_ok)
  then obtain mem' where m: "copy_to_user (\<lambda>_. Some 0) [1, 2, 3] 0x1000 = Ok mem'"
    by (simp add: copy_to_user_def or_panic_def)
  from copy_to_from_user [OF m] have "copy_from_user mem' 0x1000 3 = Ok [1, 2, 3]" "mem' 0x1003 = Some 0" by (simp_all add: numeral_3_eq_3)
  with m show ?thesis by blast
qed

end
