(* ===== verification/Paths.thy ===== *)
theory Paths
  imports Prelude
begin

text \<open>
  The universal path module, \<^verbatim>\<open>src/crates/core/path/src/lib.rs\<close>, and the VFS wrapper
  type \<open>Path\<close> of \<^verbatim>\<open>src/crates/storage/vfs/src/path.rs\<close>.

  Strings are lists of bytes (Isabelle's \<open>char\<close> is a byte), which is how the separator
  tests of the source act on UTF-8 text: a separator is one ASCII byte and never part of a
  longer encoding. The only function that looks at whole code points, \<open>to_lowercase\<close>, is a
  parameter of the two comparison functions.

  Definitions first, in the order of the source; then the lemmas on splitting and joining,
  the normal form of component lists, and the properties.
\<close>

section \<open>Definitions\<close>

definition SEPARATOR :: char where
  "SEPARATOR = CHR ''/''"

definition WIN_SEPARATOR :: char where
  "WIN_SEPARATOR = CHR 0x5C"

definition MAX_FILENAME :: nat where
  "MAX_FILENAME = 255"

datatype path_type = Unix | Drive char

record parsed_path =
  pp_type :: path_type
  pp_path :: string

text \<open>Library functions the source uses: \<open>str::split\<close>, \<open>[&str]::join\<close>, \<open>trim_end_matches\<close>,
  \<open>rfind\<close>, \<open>to_ascii_uppercase\<close>.\<close>

fun split_on :: "char \<Rightarrow> string \<Rightarrow> string list" where
  "split_on c [] = [[]]"
| "split_on c (x # xs) =
     (if x = c then [] # split_on c xs
      else (case split_on c xs of [] \<Rightarrow> [[x]] | p # ps \<Rightarrow> (x # p) # ps))"

fun join_with :: "string \<Rightarrow> string list \<Rightarrow> string" where
  "join_with sep [] = []"
| "join_with sep [p] = p"
| "join_with sep (p # ps) = p @ sep @ join_with sep ps"

definition trim_end_matches :: "char \<Rightarrow> string \<Rightarrow> string" where
  "trim_end_matches c s = rev (dropWhile (\<lambda>x. x = c) (rev s))"

definition rfind :: "char \<Rightarrow> string \<Rightarrow> nat option" where
  "rfind c s = (case dropWhile (\<lambda>x. x \<noteq> c) (rev s) of [] \<Rightarrow> None | _ # t \<Rightarrow> Some (length t))"

definition to_ascii_uppercase :: "char \<Rightarrow> char" where
  "to_ascii_uppercase c =
     (let n = (of_char c :: nat) in if 97 \<le> n \<and> n \<le> 122 then char_of (n - 32) else c)"

definition starts_with :: "char \<Rightarrow> string \<Rightarrow> bool" where
  "starts_with c s = (s \<noteq> [] \<and> hd s = c)"

definition parsed_is_drive :: "parsed_path \<Rightarrow> bool" where
  "parsed_is_drive p = (case pp_type p of Drive _ \<Rightarrow> True | Unix \<Rightarrow> False)"

definition parsed_drive_letter :: "parsed_path \<Rightarrow> char option" where
  "parsed_drive_letter p = (case pp_type p of Drive c \<Rightarrow> Some c | Unix \<Rightarrow> None)"

definition to_display :: "parsed_path \<Rightarrow> bool \<Rightarrow> string" where
  "to_display p windows_style =
     (case pp_type p of
        Unix \<Rightarrow> pp_path p
      | Drive letter \<Rightarrow>
          (if windows_style
           then letter # CHR '':'' # map (\<lambda>c. if c = CHR ''/'' then CHR 0x5C else c) (pp_path p)
           else letter # CHR '':'' # pp_path p))"

definition is_drive_letter :: "string \<Rightarrow> char option" where
  "is_drive_letter s =
     (case s of
        first # second # _ \<Rightarrow>
          (let n = (of_char first :: nat) in
           if second = CHR '':'' \<and> (65 \<le> n \<and> n \<le> 90 \<or> 97 \<le> n \<and> n \<le> 122)
           then Some (to_ascii_uppercase first) else None)
      | _ \<Rightarrow> None)"

text \<open>One iteration of the loop over the parts of a path: \<open>components\<close> is the vector.\<close>

definition norm_step :: "bool \<Rightarrow> string \<Rightarrow> string list \<Rightarrow> string list" where
  "norm_step is_abs part components =
     (if part = [] \<or> part = ''.'' then components
      else if part = ''..'' then
        (if \<not> is_abs \<and> components = [] then components @ [''..'']
         else if components \<noteq> [] \<and> last components = ''..'' then components @ [''..'']
         else if components \<noteq> [] then butlast components
         else components)
      else components @ [part])"

definition normalize :: "string \<Rightarrow> string" where
  "normalize path =
     (if path = [] then ''.''
      else
        let is_abs = starts_with SEPARATOR path;
            components = fold (norm_step is_abs) (split_on SEPARATOR path) []
        in if is_abs then (if components = [] then ''/'' else CHR ''/'' # join_with ''/'' components)
           else if components = [] then ''.''
           else join_with ''/'' components)"

definition jail_step :: "string \<Rightarrow> string list \<Rightarrow> string list" where
  "jail_step part components =
     (if part = [] \<or> part = ''.'' then components
      else if part = ''..'' then (if components \<noteq> [] then butlast components else components)
      else components @ [part])"

definition normalize_jailed :: "string \<Rightarrow> string" where
  "normalize_jailed path =
     (if path = [] then ''/''
      else
        let components = fold jail_step (split_on SEPARATOR path) []
        in if components = [] then ''/'' else CHR ''/'' # join_with ''/'' components)"

definition parse :: "string \<Rightarrow> parsed_path" where
  "parse path =
     (case is_drive_letter path of
        Some drive \<Rightarrow>
          (let converted = map (\<lambda>c. if c = WIN_SEPARATOR then SEPARATOR else c) (drop 2 path)
           in \<lparr>pp_type = Drive drive, pp_path = normalize_jailed converted\<rparr>)
      | None \<Rightarrow>
          (let converted = map (\<lambda>c. if c = WIN_SEPARATOR then SEPARATOR else c) path
           in \<lparr>pp_type = Unix, pp_path = normalize converted\<rparr>))"

definition split :: "string \<Rightarrow> string \<times> string" where
  "split path =
     (let normalized = trim_end_matches SEPARATOR path
      in case rfind SEPARATOR normalized of
           Some pos \<Rightarrow>
             if pos = 0 then (''/'', drop 1 normalized)
             else (take pos normalized, drop (pos + 1) normalized)
         | None \<Rightarrow> (''.'', normalized))"

definition parent :: "string \<Rightarrow> string option" where
  "parent path =
     (let trimmed = trim_end_matches SEPARATOR path
      in if trimmed = [] \<or> trimmed = ''/'' then None
         else case rfind SEPARATOR trimmed of
             Some pos \<Rightarrow> if pos = 0 then Some ''/'' else Some (take pos trimmed)
           | None \<Rightarrow> Some ''.'')"

definition filename :: "string \<Rightarrow> string option" where
  "filename path =
     (let trimmed = trim_end_matches SEPARATOR path
      in if trimmed = [] \<or> trimmed = ''/'' then None
         else case rfind SEPARATOR trimmed of
             Some pos \<Rightarrow> Some (drop (pos + 1) trimmed)
           | None \<Rightarrow> Some trimmed)"

definition extension :: "string \<Rightarrow> string option" where
  "extension path =
     (case filename path of
        None \<Rightarrow> None
      | Some name \<Rightarrow>
          (case rfind (CHR ''.'') name of
             None \<Rightarrow> None
           | Some pos \<Rightarrow> if pos = 0 then None else Some (drop (pos + 1) name)))"

definition join :: "string \<Rightarrow> string \<Rightarrow> string" where
  "join base component =
     (if starts_with SEPARATOR component \<or> is_drive_letter component \<noteq> None then component
      else if base = [] \<or> base = ''.'' then component
      else if last base = SEPARATOR then base @ component
      else base @ ''/'' @ component)"

definition is_valid_name :: "string \<Rightarrow> bool" where
  "is_valid_name name =
     (name \<noteq> [] \<and> name \<noteq> ''.'' \<and> name \<noteq> ''..''
      \<and> SEPARATOR \<notin> set name \<and> WIN_SEPARATOR \<notin> set name \<and> CHR 0x00 \<notin> set name
      \<and> length name \<le> MAX_FILENAME)"

definition paths_equal :: "(string \<Rightarrow> string) \<Rightarrow> string \<Rightarrow> string \<Rightarrow> bool \<Rightarrow> bool" where
  "paths_equal to_lowercase a b case_insensitive =
     (let parsed_a = parse a; parsed_b = parse b
      in if pp_type parsed_a \<noteq> pp_type parsed_b then False
         else if case_insensitive
           then to_lowercase (pp_path parsed_a) = to_lowercase (pp_path parsed_b)
         else pp_path parsed_a = pp_path parsed_b)"

definition filenames_equal :: "(string \<Rightarrow> string) \<Rightarrow> string \<Rightarrow> string \<Rightarrow> bool \<Rightarrow> bool" where
  "filenames_equal to_lowercase a b case_insensitive =
     (if case_insensitive then to_lowercase a = to_lowercase b else a = b)"

definition components :: "string \<Rightarrow> string list" where
  "components path = filter (\<lambda>s. s \<noteq> []) (split_on SEPARATOR path)"

definition is_absolute :: "string \<Rightarrow> bool" where
  "is_absolute path = (starts_with SEPARATOR path \<or> is_drive_letter path \<noteq> None)"

definition is_relative :: "string \<Rightarrow> bool" where
  "is_relative path = (\<not> is_absolute path)"

subsection \<open>The VFS wrapper\<close>

definition Path_new :: "string \<Rightarrow> parsed_path" where
  "Path_new s = parse s"

definition Path_with_type :: "string \<Rightarrow> path_type \<Rightarrow> parsed_path" where
  "Path_with_type s ty =
     \<lparr>pp_type = ty,
      pp_path = (case ty of Unix \<Rightarrow> normalize s | Drive _ \<Rightarrow> normalize_jailed s)\<rparr>"

definition Path_is_absolute :: "parsed_path \<Rightarrow> bool" where
  "Path_is_absolute p = (parsed_is_drive p \<or> starts_with SEPARATOR (pp_path p))"

definition Path_parent :: "parsed_path \<Rightarrow> parsed_path option" where
  "Path_parent p = map_option (\<lambda>q. Path_with_type q (pp_type p)) (parent (pp_path p))"

definition Path_join :: "parsed_path \<Rightarrow> string \<Rightarrow> parsed_path" where
  "Path_join p other = Path_new (join (pp_path p) other)"

section \<open>Splitting and joining\<close>

lemma split_on_ne [simp]: "split_on c s \<noteq> []"
  by (cases s) (auto split: list.splits)

lemma split_on_no_sep: "c \<notin> set s \<Longrightarrow> split_on c s = [s]"
  by (induction s) auto

lemma split_on_append: "c \<notin> set s \<Longrightarrow> split_on c (s @ c # t) = s # split_on c t"
  by (induction s) auto

lemma split_on_parts: "p \<in> set (split_on c s) \<Longrightarrow> c \<notin> set p"
proof (induction s arbitrary: p)
  case (Cons x xs)
  then show ?case
    by (cases "split_on c xs") (auto split: if_splits)
qed simp

lemma split_on_join:
  "ps \<noteq> [] \<Longrightarrow> (\<And>p. p \<in> set ps \<Longrightarrow> c \<notin> set p) \<Longrightarrow> split_on c (join_with [c] ps) = ps"
  by (induction "[c]" ps rule: join_with.induct) (auto simp: split_on_no_sep split_on_append)

lemma join_with_eq_Nil: "join_with sep ps = [] \<Longrightarrow> p \<in> set ps \<Longrightarrow> p \<noteq> [] \<Longrightarrow> False"
  by (induction sep ps rule: join_with.induct) auto

lemma join_with_hd:
  "ps \<noteq> [] \<Longrightarrow> hd ps \<noteq> [] \<Longrightarrow> join_with sep ps \<noteq> [] \<and> hd (join_with sep ps) = hd (hd ps)"
  by (cases "(sep, ps)" rule: join_with.cases) auto

section \<open>The normal form of a component list\<close>

text \<open>What the loops keep true of the vector: no empty part, no \<open>.\<close>, no separator inside a
  part, and \<open>..\<close> only as a prefix, which an absolute path does not have.\<close>

definition norm_ok :: "bool \<Rightarrow> string list \<Rightarrow> bool" where
  "norm_ok is_abs cs \<longleftrightarrow>
     (\<forall>c \<in> set cs. c \<noteq> [] \<and> c \<noteq> ''.'' \<and> SEPARATOR \<notin> set c) \<and>
     (\<exists>k rest. cs = replicate k ''..'' @ rest \<and> ''..'' \<notin> set rest \<and> (is_abs \<longrightarrow> k = 0))"

lemma norm_ok_Nil [simp]: "norm_ok b []"
  by (auto simp: norm_ok_def)

lemma norm_ok_abs: "norm_ok True cs \<longleftrightarrow>
    (\<forall>c \<in> set cs. c \<noteq> [] \<and> c \<noteq> ''.'' \<and> c \<noteq> ''..'' \<and> SEPARATOR \<notin> set c)"
  by (auto simp: norm_ok_def)

lemma norm_ok_snoc_name:
  "norm_ok b cs \<Longrightarrow> c \<noteq> [] \<Longrightarrow> c \<noteq> ''.'' \<Longrightarrow> c \<noteq> ''..'' \<Longrightarrow> SEPARATOR \<notin> set c \<Longrightarrow> norm_ok b (cs @ [c])"
  unfolding norm_ok_def
proof (elim conjE exE, intro conjI)
  fix k rest
  assume new: "c \<noteq> []" "c \<noteq> ''.''" "c \<noteq> ''..''" "SEPARATOR \<notin> set c"
    and parts: "\<forall>c \<in> set cs. c \<noteq> [] \<and> c \<noteq> ''.'' \<and> SEPARATOR \<notin> set c"
    and shape: "cs = replicate k ''..'' @ rest" "''..'' \<notin> set rest" "b \<longrightarrow> k = 0"
  show "\<forall>c \<in> set (cs @ [c]). c \<noteq> [] \<and> c \<noteq> ''.'' \<and> SEPARATOR \<notin> set c"
    using new parts by simp
  show "\<exists>k rest. cs @ [c] = replicate k ''..'' @ rest \<and> ''..'' \<notin> set rest \<and> (b \<longrightarrow> k = 0)"
    using new shape by (intro exI [of _ k] exI [of _ "rest @ [c]"]) simp
qed

lemma norm_ok_snoc_up:
  assumes "norm_ok False cs" and "cs = [] \<or> last cs = ''..''"
  shows "norm_ok False (cs @ [''..''])"
proof -
  obtain k rest where cs: "cs = replicate k ''..'' @ rest" "''..'' \<notin> set rest"
    using assms(1) by (auto simp: norm_ok_def)
  have "rest = []"
  proof (rule ccontr)
    assume "rest \<noteq> []"
    then have "last rest \<in> set rest" and "last cs = last rest" and "cs \<noteq> []"
      using cs by auto
    with assms(2) cs show False by auto
  qed
  then have "cs @ [''..''] = replicate (Suc k) ''..'' @ []"
    using cs by (simp add: replicate_append_same)
  then show ?thesis
    using assms(1) unfolding norm_ok_def SEPARATOR_def by (auto intro: exI [of _ "Suc k"])
qed

lemma norm_ok_butlast: "norm_ok b cs \<Longrightarrow> norm_ok b (butlast cs)"
proof (cases cs rule: rev_cases)
  case (snoc ds d)
  assume "norm_ok b cs"
  then obtain k rest where cs: "cs = replicate k ''..'' @ rest" "''..'' \<notin> set rest" "b \<longrightarrow> k = 0"
    and parts: "\<forall>c \<in> set cs. c \<noteq> [] \<and> c \<noteq> ''.'' \<and> SEPARATOR \<notin> set c"
    by (auto simp: norm_ok_def)
  have "\<exists>k' rest'. butlast cs = replicate k' ''..'' @ rest' \<and> ''..'' \<notin> set rest' \<and> (b \<longrightarrow> k' = 0)"
  proof (cases "rest = []")
    case True
    then have "butlast cs = replicate (k - 1) ''..'' @ []"
      using cs by (simp add: butlast_conv_take)
    then show ?thesis using cs by (intro exI [of _ "k - 1"] exI [of _ "[]"]) simp
  next
    case False
    then have "butlast cs = replicate k ''..'' @ butlast rest"
      using cs by (simp add: butlast_append)
    then show ?thesis using cs by (blast dest: in_set_butlastD)
  qed
  then show ?thesis
    using parts unfolding norm_ok_def by (auto dest: in_set_butlastD)
qed simp

lemma norm_step_ok: "norm_ok b cs \<Longrightarrow> SEPARATOR \<notin> set p \<Longrightarrow> norm_ok b (norm_step b p cs)"
  using norm_ok_snoc_name [of b cs p] norm_ok_snoc_up [of cs] norm_ok_butlast [of b cs]
  by (cases b; cases "cs = []")
    (auto simp: norm_step_def norm_ok_abs dest: in_set_butlastD)

lemma fold_norm_step_ok:
  "norm_ok b cs \<Longrightarrow> (\<And>p. p \<in> set ps \<Longrightarrow> SEPARATOR \<notin> set p) \<Longrightarrow> norm_ok b (fold (norm_step b) ps cs)"
  by (induction ps arbitrary: cs) (auto intro: norm_step_ok)

lemma norm_components_ok: "norm_ok b (fold (norm_step b) (split_on SEPARATOR path) [])"
  by (rule fold_norm_step_ok) (auto dest: split_on_parts)

lemma norm_ok_snocD:
  assumes "norm_ok b (cs @ [c])"
  shows "norm_ok b cs \<and> norm_step b c cs = cs @ [c]"
proof -
  have cs: "norm_ok b cs"
    using norm_ok_butlast [OF assms] by simp
  obtain k rest where app: "cs @ [c] = replicate k ''..'' @ rest" "''..'' \<notin> set rest" "b \<longrightarrow> k = 0"
    using assms by (auto simp: norm_ok_def)
  have c: "c \<noteq> []" "c \<noteq> ''.''"
    using assms by (auto simp: norm_ok_def)
  have "rest = [] \<and> \<not> b \<and> (cs = [] \<or> last cs = ''..'')" if "c = ''..''"
  proof -
    have "rest = []"
      using app that by (cases rest rule: rev_cases) auto
    with app have "cs @ [c] = replicate k ''..''" by simp
    moreover from this have "k \<noteq> 0" by (cases k) auto
    moreover have "cs = replicate (k - 1) ''..''"
      using \<open>cs @ [c] = replicate k ''..''\<close>
      by (metis butlast_snoc butlast_conv_take diff_le_self length_replicate min.absorb1 take_replicate)
    ultimately show ?thesis
      using \<open>rest = []\<close> app(3) by (cases "k - 1") auto
  qed
  then show ?thesis
    using cs c by (auto simp: norm_step_def)
qed

text \<open>The loop leaves a component list in normal form as it is.\<close>

lemma fold_norm_step_id: "norm_ok b cs \<Longrightarrow> fold (norm_step b) cs [] = cs"
proof (induction cs rule: rev_induct)
  case (snoc c cs)
  then show ?case using norm_ok_snocD [OF snoc.prems] by simp
qed simp

lemma norm_step_Nil [simp]: "norm_step b [] cs = cs"
  by (simp add: norm_step_def)

lemma jail_step_eq: "norm_ok True cs \<Longrightarrow> jail_step p cs = norm_step True p cs"
  by (cases "cs = []") (auto simp: jail_step_def norm_step_def norm_ok_abs)

lemma fold_jail_step_eq:
  "norm_ok True cs \<Longrightarrow> (\<And>p. p \<in> set ps \<Longrightarrow> SEPARATOR \<notin> set p) \<Longrightarrow>
   fold jail_step ps cs = fold (norm_step True) ps cs"
  by (induction ps arbitrary: cs) (auto simp: jail_step_eq norm_step_ok)

lemma jail_components_ok: "norm_ok True (fold jail_step (split_on SEPARATOR path) [])"
  using norm_components_ok [of True path]
  by (subst fold_jail_step_eq) (auto dest: split_on_parts)

text \<open>The string a component list in normal form is printed as.\<close>

definition show_components :: "bool \<Rightarrow> string list \<Rightarrow> string" where
  "show_components is_abs cs =
     (if is_abs then CHR ''/'' # join_with ''/'' cs
      else if cs = [] then ''.'' else join_with ''/'' cs)"

lemma split_show_components:
  assumes "norm_ok b cs" "cs \<noteq> []"
  shows "split_on SEPARATOR (show_components b cs) = (if b then [] # cs else cs)"
proof -
  have "split_on SEPARATOR (join_with ''/'' cs) = cs"
    using assms split_on_join [of cs SEPARATOR] by (auto simp: norm_ok_def SEPARATOR_def)
  then show ?thesis
    using assms by (simp add: show_components_def SEPARATOR_def)
qed

lemma starts_show_components:
  assumes "norm_ok b cs"
  shows "starts_with SEPARATOR (show_components b cs) = b"
proof (cases b)
  case False
  show ?thesis
  proof (cases "cs = []")
    case cs: False
    then have "hd cs \<noteq> [] \<and> SEPARATOR \<notin> set (hd cs)"
      using assms hd_in_set [of cs] by (simp add: norm_ok_def)
    then have hd: "hd cs \<noteq> []" "hd (hd cs) \<noteq> SEPARATOR"
      by (metis, metis hd_in_set)
    show ?thesis
      using join_with_hd [OF cs hd(1), of "''/''"] hd False cs
      by (simp add: show_components_def starts_with_def)
  qed (simp add: False show_components_def starts_with_def SEPARATOR_def)
qed (simp add: show_components_def starts_with_def SEPARATOR_def)

lemma show_components_ne: "norm_ok b cs \<Longrightarrow> show_components b cs \<noteq> []"
  using join_with_hd [of cs "''/''"]
  by (auto simp: show_components_def norm_ok_def dest: hd_in_set)

lemma normalize_show:
  "path \<noteq> [] \<Longrightarrow> normalize path =
     show_components (starts_with SEPARATOR path)
       (fold (norm_step (starts_with SEPARATOR path)) (split_on SEPARATOR path) [])"
  by (simp add: normalize_def show_components_def Let_def)

lemma normalize_jailed_show:
  "normalize_jailed path = show_components True (fold jail_step (split_on SEPARATOR path) [])"
  by (simp add: normalize_jailed_def show_components_def Let_def jail_step_def)

lemma normalize_of_show:
  assumes "norm_ok b cs"
  shows "normalize (show_components b cs) = show_components b cs"
proof (cases "cs = []")
  case True
  then show ?thesis
    by (cases b) (simp_all add: show_components_def normalize_def starts_with_def SEPARATOR_def
        norm_step_def)
next
  case False
  have "fold (norm_step b) (if b then [] # cs else cs) [] = cs"
    using fold_norm_step_id [OF assms] by (cases b) simp_all
  then show ?thesis
    using assms False
    by (subst normalize_show)
      (simp_all add: show_components_ne starts_show_components split_show_components)
qed

lemma normalize_jailed_of_show:
  assumes "norm_ok True cs"
  shows "normalize_jailed (show_components True cs) = show_components True cs"
proof (cases "cs = []")
  case True
  then show ?thesis
    by (simp add: show_components_def normalize_jailed_def SEPARATOR_def jail_step_def)
next
  case False
  have "fold jail_step ([] # cs) [] = fold (norm_step True) ([] # cs) []"
  proof (rule fold_jail_step_eq)
    show "SEPARATOR \<notin> set p" if "p \<in> set ([] # cs)" for p
      using that assms by (cases "p = []") (simp_all add: norm_ok_abs)
  qed simp
  also have "\<dots> = cs"
    using fold_norm_step_id [OF assms] by simp
  finally show ?thesis
    by (simp only: normalize_jailed_show split_show_components [OF assms False] if_True)
qed

lemma normalize_is_show: "\<exists>b cs. norm_ok b cs \<and> normalize path = show_components b cs"
proof (cases "path = []")
  case True
  then show ?thesis
    by (intro exI [of _ False] exI [of _ "[]"]) (simp add: normalize_def show_components_def)
next
  case False
  then show ?thesis using norm_components_ok normalize_show by blast
qed

lemma components_show:
  assumes "norm_ok True cs"
  shows "components (show_components True cs) = cs"
proof -
  have "filter (\<lambda>s. s \<noteq> []) cs = cs"
    using assms by (auto simp: norm_ok_abs intro!: filter_True)
  then show ?thesis
    using assms split_show_components [OF assms]
    by (cases "cs = []") (simp_all add: components_def show_components_def SEPARATOR_def)
qed


section \<open>Drive letters and display strings\<close>

lemma of_char_less: "(of_char c :: nat) < 256"
  by simp

lemma is_drive_letter_eq_Some:
  "is_drive_letter s = Some d \<longleftrightarrow>
     (\<exists>x t. s = x # CHR '':'' # t \<and> d = to_ascii_uppercase x \<and>
        (65 \<le> (of_char x :: nat) \<and> (of_char x :: nat) \<le> 90 \<or>
         97 \<le> (of_char x :: nat) \<and> (of_char x :: nat) \<le> 122))"
  by (auto simp: is_drive_letter_def Let_def split: list.splits if_splits)

lemma drive_letter_range:
  assumes "is_drive_letter s = Some d"
  shows "65 \<le> (of_char d :: nat)" and "(of_char d :: nat) \<le> 90"
  using assms by (auto simp: is_drive_letter_eq_Some to_ascii_uppercase_def Let_def)

lemma uppercase_id:
  "65 \<le> (of_char d :: nat) \<Longrightarrow> (of_char d :: nat) \<le> 90 \<Longrightarrow> to_ascii_uppercase d = d"
  by (simp add: to_ascii_uppercase_def)

lemma is_drive_letter_self:
  "is_drive_letter s = Some d \<Longrightarrow> is_drive_letter (d # CHR '':'' # t) = Some d"
  using drive_letter_range [of s d] uppercase_id [of d] by (simp add: is_drive_letter_eq_Some)

lemma is_drive_letter_sep: "starts_with SEPARATOR s \<Longrightarrow> is_drive_letter s = None"
  by (cases s) (auto simp: starts_with_def SEPARATOR_def is_drive_letter_def Let_def split: list.splits)

text \<open>Normalisation introduces no character that the path does not have, but for \<open>/\<close> and \<open>.\<close>.\<close>

lemma set_split_on: "p \<in> set (split_on c s) \<Longrightarrow> set p \<subseteq> set s"
proof (induction s arbitrary: p)
  case (Cons x xs)
  show ?case
  proof (cases "x = c")
    case True
    with Cons.prems have "p = [] \<or> p \<in> set (split_on c xs)" by simp
    with Cons.IH show ?thesis by auto
  next
    case False
    obtain q qs where qs: "split_on c xs = q # qs"
      by (cases "split_on c xs") auto
    with False Cons.prems have "p = x # q \<or> p \<in> set qs" by simp
    with Cons.IH [of q] Cons.IH [of p] qs show ?thesis by auto
  qed
qed simp

lemma set_join_with: "set (join_with sep ps) \<subseteq> set sep \<union> \<Union> (set ` set ps)"
  by (induction sep ps rule: join_with.induct) auto

lemma set_norm_step:
  "\<Union> (set ` set (norm_step b p cs)) \<subseteq> insert (CHR ''.'') (set p \<union> \<Union> (set ` set cs))"
  by (auto simp: norm_step_def dest: in_set_butlastD)

lemma set_fold_norm_step:
  "\<Union> (set ` set (fold (norm_step b) ps cs)) \<subseteq> insert (CHR ''.'') (\<Union> (set ` set ps) \<union> \<Union> (set ` set cs))"
proof (induction ps arbitrary: cs)
  case (Cons p ps)
  then show ?case
    using set_norm_step [of b p cs] Cons.IH [of "norm_step b p cs"] by auto
qed (simp add: subset_insertI)

lemma set_normalize: "set (normalize s) \<subseteq> set s \<union> {CHR ''/'', CHR ''.''}"
proof (cases "s = []")
  case False
  define cs where "cs = fold (norm_step (starts_with SEPARATOR s)) (split_on SEPARATOR s) []"
  have "\<Union> (set ` set (split_on SEPARATOR s)) \<subseteq> set s"
    using set_split_on [of _ SEPARATOR s] by auto
  then have "\<Union> (set ` set cs) \<subseteq> insert (CHR ''.'') (set s)"
    using set_fold_norm_step [of "starts_with SEPARATOR s" "split_on SEPARATOR s" "[]"]
    unfolding cs_def by (simp add: subset_iff) blast
  moreover have "set (show_components b cs) \<subseteq> {CHR ''/'', CHR ''.''} \<union> \<Union> (set ` set cs)" for b
    using set_join_with [of "''/''" cs] by (auto simp: show_components_def)
  ultimately show ?thesis
    using False by (simp add: normalize_show flip: cs_def) blast
qed (simp add: normalize_def)

text \<open>Jailed normalisation is normalisation of the path read from the root.\<close>

lemma jailed_is_absolute: "normalize_jailed p = normalize (CHR ''/'' # p)"
proof -
  have "fold jail_step (split_on SEPARATOR p) [] = fold (norm_step True) (split_on SEPARATOR p) []"
    by (rule fold_jail_step_eq) (auto dest: split_on_parts)
  then show ?thesis
    by (subst normalize_show) (simp_all add: normalize_jailed_show starts_with_def SEPARATOR_def)
qed

lemma jailed_idem: "normalize_jailed (normalize_jailed p) = normalize_jailed p"
  by (simp only: normalize_jailed_show [of p] normalize_jailed_of_show [OF jail_components_ok])

lemma jailed_starts: "starts_with SEPARATOR (normalize_jailed p)"
  by (simp add: normalize_jailed_show starts_show_components jail_components_ok)

lemma components_jailed:
  "components (normalize_jailed p) = fold jail_step (split_on SEPARATOR p) []"
  by (simp add: normalize_jailed_show components_show jail_components_ok)

abbreviation unback :: "char \<Rightarrow> char" where
  "unback c \<equiv> (if c = WIN_SEPARATOR then SEPARATOR else c)"

lemma map_unback_id: "WIN_SEPARATOR \<notin> set s \<Longrightarrow> map unback s = s"
  by (induction s) auto

lemma no_back_map: "WIN_SEPARATOR \<notin> set (map unback s)"
  by (auto simp: WIN_SEPARATOR_def SEPARATOR_def)

lemma no_back_normalize: "WIN_SEPARATOR \<notin> set s \<Longrightarrow> WIN_SEPARATOR \<notin> set (normalize s)"
  using set_normalize [of s] by (auto simp: WIN_SEPARATOR_def)

lemma no_back_jailed: "WIN_SEPARATOR \<notin> set s \<Longrightarrow> WIN_SEPARATOR \<notin> set (normalize_jailed s)"
  unfolding jailed_is_absolute by (rule no_back_normalize) (simp add: WIN_SEPARATOR_def)

lemma unback_display: "WIN_SEPARATOR \<notin> set s \<Longrightarrow>
    map unback (map (\<lambda>c. if c = CHR ''/'' then CHR 0x5C else c) s) = s"
  by (induction s) (auto simp: WIN_SEPARATOR_def SEPARATOR_def)

lemma parse_drive:
  "is_drive_letter s = Some d \<Longrightarrow>
   parse s = \<lparr>pp_type = Drive d, pp_path = normalize_jailed (map unback (drop 2 s))\<rparr>"
  by (simp add: parse_def)

lemma parse_unix:
  "is_drive_letter s = None \<Longrightarrow> parse s = \<lparr>pp_type = Unix, pp_path = normalize (map unback s)\<rparr>"
  by (simp add: parse_def)

lemma normalize_starts:
  "s \<noteq> [] \<Longrightarrow> starts_with SEPARATOR (normalize s) = starts_with SEPARATOR s"
  by (simp add: normalize_show starts_show_components norm_components_ok)

section \<open>Last components\<close>

lemma trim_end_id: "s \<noteq> [] \<Longrightarrow> last s \<noteq> c \<Longrightarrow> trim_end_matches c s = s"
  by (cases s rule: rev_cases) (auto simp: trim_end_matches_def)

lemma rfind_append: "c \<notin> set t \<Longrightarrow> rfind c (s @ c # t) = Some (length s)"
  by (simp add: rfind_def dropWhile_append)

lemma rfind_None: "c \<notin> set s \<Longrightarrow> rfind c s = None"
proof -
  assume "c \<notin> set s"
  then have "dropWhile (\<lambda>x. x \<noteq> c) (rev s) = []" by (auto simp: dropWhile_eq_Nil_conv)
  then show ?thesis by (simp only: rfind_def list.case)
qed

lemma join_cases:
  assumes "is_valid_name n" and "is_drive_letter n = None"
  shows "join base n = n \<and> (base = [] \<or> base = ''.'') \<or>
    (\<exists>pre. join base n = pre @ SEPARATOR # n \<and> (base = pre \<or> base = pre @ [SEPARATOR]))"
proof -
  have "\<not> starts_with SEPARATOR n"
    using assms(1) by (auto simp: is_valid_name_def starts_with_def dest: hd_in_set)
  then show ?thesis
    using assms(2)
    by (cases base rule: rev_cases) (auto simp: join_def SEPARATOR_def)
qed

section \<open>Properties\<close>

text \<open>Normalisation is idempotent: a normalised path is its own normal form, for every
  input string, absolute or relative.\<close>

lemma normalize_idempotent: "normalize (normalize path) = normalize path"
  using normalize_is_show [of path] normalize_of_show by metis

text \<open>C4. Drive paths are jailed: whatever the text after the drive letter (any number of
  \<open>..\<close>, either separator), the parsed path is absolute within the drive and has no \<open>..\<close> or
  \<open>.\<close> component left, so it cannot climb out of the drive root, and normalising it again
  changes nothing.\<close>

theorem drive_path_jailed:
  assumes "is_drive_letter s = Some d"
  shows "pp_type (parse s) = Drive d \<and> starts_with SEPARATOR (pp_path (parse s)) \<and>
    ''..'' \<notin> set (components (pp_path (parse s))) \<and> ''.'' \<notin> set (components (pp_path (parse s))) \<and>
    normalize_jailed (pp_path (parse s)) = pp_path (parse s)"
  using jail_components_ok [of "map unback (drop 2 s)"] assms
  by (simp add: parse_drive jailed_starts jailed_idem components_jailed norm_ok_abs) blast

theorem drive_path_jailed_witness:
  "is_drive_letter ''c:/../..'' = Some (CHR ''C'') \<and>
   pp_type (parse ''c:/../..'') = Drive (CHR ''C'') \<and> pp_path (parse ''c:/../..'') = ''/''"
proof -
  have h: "is_drive_letter ''c:/../..'' = Some (CHR ''C'')" by code_simp
  have "pp_path (parse ''c:/../..'') = ''/''" by code_simp
  then show ?thesis using h drive_path_jailed [OF h] by simp
qed

text \<open>Parsing and printing round-trip for absolute paths, in both display styles: the
  printed form of a parsed absolute path parses back to the same type and path.\<close>

lemma parse_display_roundtrip:
  assumes "is_absolute s"
  shows "parse (to_display (parse s) windows_style) = parse s"
proof (cases "is_drive_letter s")
  case (Some d)
  define p where "p = normalize_jailed (map unback (drop 2 s))"
  have p: "normalize_jailed p = p" "WIN_SEPARATOR \<notin> set p"
    unfolding p_def by (rule jailed_idem) (rule no_back_jailed, rule no_back_map)
  have d: "is_drive_letter (d # CHR '':'' # t) = Some d" for t
    by (rule is_drive_letter_self [OF Some])
  have "parse s = \<lparr>pp_type = Drive d, pp_path = p\<rparr>"
    using Some by (simp add: parse_drive p_def)
  then show ?thesis
    using d p by (cases windows_style) (simp_all add: to_display_def parse_drive unback_display map_unback_id
        del: map_map list.map_comp)
next
  case None
  with assms have st: "starts_with SEPARATOR s" by (simp add: is_absolute_def)
  define p where "p = normalize (map unback s)"
  have ne: "map unback s \<noteq> []" "starts_with SEPARATOR (map unback s)"
    using st by (cases s; auto simp: starts_with_def SEPARATOR_def WIN_SEPARATOR_def)+
  have "is_drive_letter p = None"
    using ne normalize_starts [OF ne(1)] by (simp add: p_def is_drive_letter_sep)
  moreover have "normalize p = p"
    using normalize_is_show [of "map unback s"] normalize_of_show unfolding p_def by metis
  moreover have "map unback p = p"
    unfolding p_def by (rule map_unback_id, rule no_back_normalize, rule no_back_map)
  moreover have "parse s = \<lparr>pp_type = Unix, pp_path = p\<rparr>"
    using None by (simp add: parse_unix p_def)
  ultimately show ?thesis
    by (simp add: to_display_def parse_unix)
qed

lemma parse_display_roundtrip_example:
  "is_absolute ''C:/a/../b'' \<and>
   parse (to_display (parse ''C:/a/../b'') True) = parse ''C:/a/../b''"
proof -
  have h: "is_absolute ''C:/a/../b''" by code_simp
  show ?thesis using h parse_display_roundtrip [OF h, of True] by simp
qed

text \<open>The last component of a join is the name that was joined: for a valid file name
  that is not itself a drive prefix, \<open>filename (join base name)\<close> is that name, and where the
  base is a proper directory path, \<open>parent\<close> gives the base back.\<close>

lemma filename_of_join:
  assumes "is_valid_name name" and "is_drive_letter name = None"
  shows "filename (join base name) = Some name \<and>
    (base = [] \<or> base = ''.'' \<or> last base = SEPARATOR \<or> parent (join base name) = Some base)"
proof -
  have name: "SEPARATOR \<notin> set name" "name \<noteq> []" "last name \<noteq> SEPARATOR" "name \<noteq> ''/''"
    using assms(1) by (auto simp: is_valid_name_def SEPARATOR_def dest: last_in_set)
  have trim: "trim_end_matches SEPARATOR (pre @ name) = pre @ name" for pre
    using name by (intro trim_end_id) auto
  have nosplit: "filename name = Some name"
    using name trim [of "[]"] by (simp add: filename_def rfind_None)
  have split: "filename (pre @ SEPARATOR # name) = Some name" for pre
    using name trim [of "pre @ [SEPARATOR]"] by (simp add: filename_def rfind_append Let_def)
      (auto simp: SEPARATOR_def append_eq_Cons_conv)
  have up: "pre \<noteq> [] \<Longrightarrow> parent (pre @ SEPARATOR # name) = Some pre" for pre
    using name trim [of "pre @ [SEPARATOR]"] by (auto simp: parent_def rfind_append Let_def append_eq_Cons_conv)
  show ?thesis
    using join_cases [OF assms, of base] nosplit split up by auto
qed

lemma filename_of_join_example:
  "is_valid_name ''readme'' \<and> is_drive_letter ''readme'' = None \<and>
   filename (join ''/home/guest'' ''readme'') = Some ''readme''"
proof -
  have h: "is_valid_name ''readme''" "is_drive_letter ''readme'' = None" by code_simp+
  show ?thesis using h filename_of_join [OF h, of "''/home/guest''"] by simp
qed

end
