(* ===== verification/Rl_History.thy ===== *)
theory Rl_History
  imports Rl_Buffer
begin

text \<open>
  The history of the line editor: \<^verbatim>\<open>src/crates/sys/readline/src/history.rs\<close>. Entries are kept oldest first; a
  position counts from the newest entry, 0 being the line under edit. Index arithmetic that would leave the
  entries is a panic.
\<close>

section \<open>The history\<close>

record history =
  hi_entries :: "uchar list list"
  hi_max_size :: nat
  hi_position :: nat
  hi_current_edit :: "uchar list"
  hi_navigating :: bool

definition History_new :: "nat \<Rightarrow> history" where
  "History_new max_size = \<lparr>hi_entries = [], hi_max_size = max_size, hi_position = 0, hi_current_edit = [], hi_navigating = False\<rparr>"

definition trim :: "uchar list \<Rightarrow> uchar list" where
  "trim s = rev (dropWhile is_whitespace (rev (dropWhile is_whitespace s)))"

definition reset_position :: "history \<Rightarrow> history" where
  "reset_position h = h\<lparr>hi_position := 0, hi_navigating := False, hi_current_edit := []\<rparr>"

definition history_add :: "uchar list \<Rightarrow> history \<Rightarrow> history" where
  "history_add line h =
     (let trimmed = trim line in
      if trimmed = [] then h
      else if hi_entries h \<noteq> [] \<and> last (hi_entries h) = trimmed then h
      else
        let es = (if length (hi_entries h) \<ge> hi_max_size h then tl (hi_entries h) else hi_entries h) in
        reset_position (h\<lparr>hi_entries := es @ [trimmed]\<rparr>))"

definition history_clear :: "history \<Rightarrow> history" where
  "history_clear h = reset_position (h\<lparr>hi_entries := []\<rparr>)"

definition start_navigation :: "uchar list \<Rightarrow> history \<Rightarrow> history" where
  "start_navigation current h =
     (if \<not> hi_navigating h then h\<lparr>hi_current_edit := current, hi_navigating := True, hi_position := 0\<rparr> else h)"

text \<open>\<open>&self.entries[self.entries.len() - pos]\<close>\<close>

definition entry_at :: "nat \<Rightarrow> history \<Rightarrow> uchar list pan" where
  "entry_at pos h =
     (let n = length (hi_entries h) in if 0 < pos \<and> pos \<le> n then Ok (hi_entries h ! (n - pos)) else Panic)"

definition history_prev :: "uchar list \<Rightarrow> history \<Rightarrow> (uchar list option \<times> history) pan" where
  "history_prev current h =
     (if hi_entries h = [] then Ok (None, h)
      else
        let h = start_navigation current h in
        if hi_position h < length (hi_entries h)
        then let h = h\<lparr>hi_position := hi_position h + 1\<rparr> in rbind (entry_at (hi_position h) h) (\<lambda>e. Ok (Some e, h))
        else Ok (None, h))"

definition history_next :: "history \<Rightarrow> (uchar list option \<times> history) pan" where
  "history_next h =
     (if \<not> hi_navigating h then Ok (None, h)
      else if hi_position h > 0
      then let h = h\<lparr>hi_position := hi_position h - 1\<rparr> in
        if hi_position h = 0 then Ok (Some (hi_current_edit h), h\<lparr>hi_navigating := False\<rparr>)
        else rbind (entry_at (hi_position h) h) (\<lambda>e. Ok (Some e, h))
      else Ok (None, h))"

text \<open>\<open>str::contains\<close>\<close>

definition str_contains :: "uchar list \<Rightarrow> uchar list \<Rightarrow> bool" where
  "str_contains s pattern \<longleftrightarrow> (\<exists>i \<in> set [0..<length s + 1]. take (length pattern) (drop i s) = pattern)"

fun search_back_loop :: "uchar list \<Rightarrow> nat list \<Rightarrow> history \<Rightarrow> (uchar list option \<times> history) pan" where
  "search_back_loop pattern [] h = Ok (None, h)"
| "search_back_loop pattern (pos # ps) h =
     (if pos > length (hi_entries h) then Ok (None, h)
      else rbind (entry_at pos h) (\<lambda>e.
        if str_contains e pattern then Ok (Some e, h\<lparr>hi_position := pos\<rparr>) else search_back_loop pattern ps h))"

definition search_backward :: "uchar list \<Rightarrow> uchar list \<Rightarrow> history \<Rightarrow> (uchar list option \<times> history) pan" where
  "search_backward pattern current h =
     (if hi_entries h = [] \<or> pattern = [] then Ok (None, h)
      else
        let h = start_navigation current h in
        search_back_loop pattern (map (\<lambda>offset. hi_position h + offset) [1..<length (hi_entries h) + 1]) h)"

fun search_fwd_loop :: "uchar list \<Rightarrow> nat list \<Rightarrow> history \<Rightarrow> (uchar list option \<times> history) pan" where
  "search_fwd_loop pattern [] h =
     (if str_contains (hi_current_edit h) pattern
      then Ok (Some (hi_current_edit h), h\<lparr>hi_position := 0, hi_navigating := False\<rparr>) else Ok (None, h))"
| "search_fwd_loop pattern (pos # ps) h =
     rbind (entry_at pos h) (\<lambda>e.
       if str_contains e pattern then Ok (Some e, h\<lparr>hi_position := pos\<rparr>) else search_fwd_loop pattern ps h)"

definition search_forward :: "uchar list \<Rightarrow> history \<Rightarrow> (uchar list option \<times> history) pan" where
  "search_forward pattern h =
     (if \<not> hi_navigating h \<or> hi_position h = 0 \<or> pattern = [] then Ok (None, h)
      else search_fwd_loop pattern (rev [1..<hi_position h]) h)"

definition history_get :: "nat \<Rightarrow> history \<Rightarrow> uchar list option" where
  "history_get index h =
     (let n = length (hi_entries h) in if index < n then Some (hi_entries h ! (n - 1 - index)) else None)"

definition history_iter :: "history \<Rightarrow> uchar list list" where
  "history_iter h = rev (hi_entries h)"

section \<open>The invariant\<close>

definition wf_history :: "history \<Rightarrow> bool" where
  "wf_history h \<longleftrightarrow> hi_position h \<le> length (hi_entries h) \<and> length (hi_entries h) \<le> max 1 (hi_max_size h) \<and>
     (\<forall>e \<in> set (hi_entries h). e \<noteq> [] \<and> trim e = e) \<and> distinct_adj (hi_entries h)"

lemma trim_idem: "trim (trim s) = trim s"
proof -
  have d: "dropWhile is_whitespace (dropWhile is_whitespace xs) = dropWhile is_whitespace xs" for xs
    by (rule dropWhile_idem)
  have "dropWhile is_whitespace (trim s) = trim s"
  proof (cases "trim s")
    case (Cons c r)
    obtain p where "rev (dropWhile is_whitespace s) = p @ rev (trim s)"
      using dropWhile_suffix [of "rev (dropWhile is_whitespace s)" is_whitespace] by (auto simp: trim_def)
    then have "dropWhile is_whitespace s = trim s @ rev p" by (metis rev_append rev_rev_ident)
    then have "dropWhile is_whitespace s = c # (r @ rev p)" using Cons by simp
    then have "\<not> is_whitespace c" by (metis dropWhile_eq_Cons_conv)
    then show ?thesis using Cons by simp
  qed simp
  then show ?thesis by (simp add: trim_def d)
qed

lemma distinct_adj_tl: "distinct_adj xs \<Longrightarrow> distinct_adj (tl xs)"
  by (cases xs) (auto simp: distinct_adj_Cons)

lemma wf_history_new: "wf_history (History_new n)"
  by (simp add: wf_history_def History_new_def)

lemma history_add_wf:
  assumes "wf_history h"
  shows "wf_history (history_add line h)"
proof -
  have new: "distinct_adj (xs @ [trim line])" if "distinct_adj xs" "xs \<noteq> [] \<Longrightarrow> last xs \<noteq> trim line" for xs
    using that by (auto simp: distinct_adj_append_iff)
  show ?thesis
  proof (cases "hi_entries h")
    case Nil
    then show ?thesis using assms trim_idem [of line] by (simp add: wf_history_def history_add_def reset_position_def Let_def)
  next
    case (Cons x xs)
    then show ?thesis using assms trim_idem [of line] new [of xs] new [of "x # xs"] distinct_adj_tl [of "hi_entries h"]
      by (auto simp: wf_history_def history_add_def reset_position_def Let_def split: if_splits)
  qed
qed

section \<open>Navigation\<close>

text \<open>The line \<open>pos\<close> steps up, counted from the line under edit.\<close>

definition line_at :: "history \<Rightarrow> uchar list \<Rightarrow> nat \<Rightarrow> uchar list" where
  "line_at h current pos = (current # rev (hi_entries h)) ! pos"

lemma entry_at_line:
  assumes "hi_entries h' = hi_entries h" "0 < pos" "pos \<le> length (hi_entries h)"
  shows "entry_at pos h' = Ok (line_at h current pos)"
  using assms by (cases pos) (auto simp: entry_at_def line_at_def rev_nth Let_def)

definition at_position :: "history \<Rightarrow> uchar list \<Rightarrow> nat \<Rightarrow> history" where
  "at_position h current pos = h\<lparr>hi_position := pos, hi_current_edit := current, hi_navigating := pos > 0\<rparr>"

lemma prev_step:
  assumes "pos < length (hi_entries h)" and "pos = 0 \<Longrightarrow> c = current"
  shows "history_prev c (at_position h current pos) = Ok (Some (line_at h current (Suc pos)), at_position h current (Suc pos))"
  using assms Suc_leI [OF assms(1)]
  by (cases "pos = 0") (auto simp: history_prev_def start_navigation_def at_position_def Let_def entry_at_line [of _ h _ current])

lemma next_step:
  assumes "0 < pos" "pos \<le> length (hi_entries h)"
  shows "history_next (at_position h current pos) = Ok (Some (line_at h current (pos - 1)), at_position h current (pos - 1))"
proof (cases "pos = 1")
  case True
  then show ?thesis by (simp add: history_next_def at_position_def line_at_def Let_def)
next
  case False
  then show ?thesis using assms by (simp add: history_next_def at_position_def Let_def entry_at_line [of _ h _ current])
qed

text \<open>Pressing up or down \<open>n\<close> times, with what each press shows. Pressing up passes the line on display.\<close>

fun ups :: "nat \<Rightarrow> uchar list \<Rightarrow> history \<Rightarrow> (uchar list option list \<times> history) pan" where
  "ups 0 shown h = Ok ([], h)"
| "ups (Suc n) shown h =
     rbind (history_prev shown h) (\<lambda>(e, h).
     rbind (ups n (case e of Some l \<Rightarrow> l | None \<Rightarrow> shown) h) (\<lambda>(es, h). Ok (e # es, h)))"

fun downs :: "nat \<Rightarrow> history \<Rightarrow> (uchar list option list \<times> history) pan" where
  "downs 0 h = Ok ([], h)"
| "downs (Suc n) h = rbind (history_next h) (\<lambda>(e, h). rbind (downs n h) (\<lambda>(es, h). Ok (e # es, h)))"

lemma ups_from:
  "pos + n \<le> length (hi_entries h) \<Longrightarrow> (pos = 0 \<Longrightarrow> c = current) \<Longrightarrow>
    ups n c (at_position h current pos) = Ok (map (\<lambda>i. Some (line_at h current i)) [pos + 1..<pos + n + 1], at_position h current (pos + n))"
proof (induction n arbitrary: pos c)
  case (Suc n)
  have "ups n (line_at h current (Suc pos)) (at_position h current (Suc pos)) =
      Ok (map (\<lambda>i. Some (line_at h current i)) [Suc pos + 1..<Suc pos + n + 1], at_position h current (Suc pos + n))"
    by (rule Suc.IH) (use Suc.prems in auto)
  then show ?case using prev_step [of pos h c current] Suc.prems by (simp add: upt_conv_Cons del: upt_Suc)
qed simp

lemma downs_from:
  "n \<le> pos \<Longrightarrow> pos \<le> length (hi_entries h) \<Longrightarrow>
    downs n (at_position h current pos) = Ok (map (\<lambda>i. Some (line_at h current i)) (rev [pos - n..<pos]), at_position h current (pos - n))"
proof (induction n arbitrary: pos)
  case (Suc n)
  have "downs n (at_position h current (pos - 1)) =
      Ok (map (\<lambda>i. Some (line_at h current i)) (rev [pos - 1 - n..<pos - 1]), at_position h current (pos - 1 - n))"
    by (rule Suc.IH) (use Suc.prems in auto)
  moreover have "rev [pos - Suc n..<pos] = (pos - 1) # rev [pos - 1 - n..<pos - 1]"
    using Suc.prems by (cases pos) auto
  ultimately show ?case using next_step [of pos h current] Suc.prems by simp
qed simp

lemma idle_at_position:
  "\<not> hi_navigating h \<Longrightarrow> hi_position h = 0 \<Longrightarrow> hi_entries h \<noteq> [] \<Longrightarrow> 0 < n \<Longrightarrow> ups n current h = ups n current (at_position h current 0)"
  by (cases n) (simp_all add: history_prev_def start_navigation_def at_position_def Let_def)

section \<open>Properties\<close>

text \<open>Going up and down the history. From a line that is being edited, going up \<open>n\<close> times, for every \<open>n\<close> up to the
  number of entries, shows the last \<open>n\<close> entries from the newest on; one more step up shows nothing; going down
  \<open>n\<close> times then shows them in the opposite order and ends with the line that was being edited. Neither
  panics, and the entries are never changed.\<close>

lemma history_up_and_down:
  assumes "\<not> hi_navigating h" and "hi_position h = 0" and n: "0 < n" "n \<le> length (hi_entries h)"
  shows "\<exists>h'. ups n current h = Ok (map Some (take n (rev (hi_entries h))), h') \<and>
    (n = length (hi_entries h) \<longrightarrow> (\<forall>c. history_prev c h' = Ok (None, h'))) \<and>
    (\<exists>h''. downs n h' = Ok (map Some (rev (take (n - 1) (rev (hi_entries h)))) @ [Some current], h'') \<and>
       hi_entries h'' = hi_entries h \<and> \<not> hi_navigating h'' \<and> hi_position h'' = 0)"
proof -
  let ?h = "at_position h current n"
  have "hi_entries h \<noteq> []" using n by auto
  note idle = idle_at_position [OF assms(1,2) this n(1), of current]
  have up: "ups n current h = Ok (map (\<lambda>i. Some (line_at h current i)) [1..<n + 1], ?h)"
    using ups_from [of 0 n h current current] n by (simp add: idle)
  have "map (\<lambda>i. Some (line_at h current i)) [1..<n + 1] = map Some (take n (rev (hi_entries h)))"
    using n by (intro nth_equalityI) (auto simp: line_at_def nth_append simp del: upt_Suc)
  moreover have "\<forall>c. history_prev c ?h = Ok (None, ?h)" if "n = length (hi_entries h)"
    using that n by (auto simp: history_prev_def start_navigation_def at_position_def Let_def)
  moreover have "downs n ?h = Ok (map (\<lambda>i. Some (line_at h current i)) (rev [0..<n]), at_position h current 0)"
    using downs_from [of n n h current] n by simp
  moreover have "map (\<lambda>i. Some (line_at h current i)) (rev [0..<n]) = map Some (rev (take (n - 1) (rev (hi_entries h)))) @ [Some current]"
  proof -
    have "map (\<lambda>i. Some (line_at h current i)) [0..<n] = Some current # map Some (take (n - 1) (rev (hi_entries h)))"
      using n by (intro nth_equalityI) (auto simp: line_at_def nth_Cons split: nat.split)
    then show ?thesis by (metis rev_map rev.simps(2))
  qed
  ultimately show ?thesis using up by (auto simp: at_position_def)
qed

lemma history_up_and_down_example:
  "\<exists>h' h''. ups 2 [120] (history_add [98] (history_add [97] (History_new 10))) = Ok ([Some [98], Some [97]], h') \<and>
     downs 2 h' = Ok ([Some [98], Some [120]], h'')"
proof -
  let ?h = "history_add [98] (history_add [97] (History_new 10))"
  have e: "hi_entries ?h = [[97], [98]]" "\<not> hi_navigating ?h" "hi_position ?h = 0"
    by (simp_all add: history_add_def History_new_def trim_def is_whitespace_def reset_position_def)
  from history_up_and_down [OF e(2,3), of 2 "[120]"] show ?thesis by (auto simp: e(1))
qed

section \<open>Operations keep the invariant\<close>

abbreviation history_ok :: "uchar list option \<times> history \<Rightarrow> bool" where
  "history_ok \<equiv> \<lambda>(_, h). wf_history h"

lemma wf_history_update [simp]:
  "wf_history (h\<lparr>hi_current_edit := e\<rparr>) = wf_history h" "wf_history (h\<lparr>hi_navigating := b\<rparr>) = wf_history h"
  by (simp_all add: wf_history_def)

lemma wf_history_position: "wf_history h \<Longrightarrow> i \<le> length (hi_entries h) \<Longrightarrow> wf_history (h\<lparr>hi_position := i\<rparr>)"
  by (simp add: wf_history_def)

lemma navigation_wf:
  assumes "wf_history h"
  shows "wf_history (start_navigation c h)" "wf_history (reset_position h)" "hi_entries (start_navigation c h) = hi_entries h"
  using assms by (simp_all add: start_navigation_def reset_position_def wf_history_def)

lemma entry_at_Ok: "0 < pos \<Longrightarrow> pos \<le> length (hi_entries h) \<Longrightarrow> \<exists>e. entry_at pos h = Ok e"
  by (simp add: entry_at_def Let_def)

lemma history_prev_returns:
  assumes "wf_history h"
  shows "returns history_ok (history_prev c h)"
proof -
  let ?h = "start_navigation c h"
  have wf: "wf_history ?h" by (rule navigation_wf [OF assms])
  show ?thesis
  proof (cases "hi_position ?h < length (hi_entries ?h)")
    case True
    then obtain e where "entry_at (hi_position ?h + 1) (?h\<lparr>hi_position := hi_position ?h + 1\<rparr>) = Ok e"
      using entry_at_Ok [of "hi_position ?h + 1" "?h\<lparr>hi_position := hi_position ?h + 1\<rparr>"] by auto
    then show ?thesis using True wf wf_history_position [OF wf, of "hi_position ?h + 1"] assms by (simp add: history_prev_def Let_def)
  qed (use wf assms in \<open>simp add: history_prev_def Let_def\<close>)
qed

lemma history_next_returns:
  assumes "wf_history h"
  shows "returns history_ok (history_next h)"
proof (cases "hi_position h")
  case (Suc n)
  have n: "n \<le> length (hi_entries h)" using assms Suc by (simp add: wf_history_def)
  show ?thesis
  proof (cases "n = 0")
    case False
    then obtain e where "entry_at n (h\<lparr>hi_position := n\<rparr>) = Ok e" using entry_at_Ok [of n "h\<lparr>hi_position := n\<rparr>"] n by auto
    then show ?thesis using Suc False assms wf_history_position [OF assms n] by (simp add: history_next_def Let_def)
  qed (use Suc assms wf_history_position [OF assms n] in \<open>simp add: history_next_def Let_def\<close>)
qed (use assms in \<open>simp add: history_next_def\<close>)

lemma search_back_loop_returns:
  assumes "wf_history h" and "\<forall>pos \<in> set ps. 0 < pos"
  shows "returns history_ok (search_back_loop pattern ps h)"
  using assms(2)
proof (induction ps)
  case (Cons pos ps)
  then show ?case using assms(1) entry_at_Ok [of pos h] wf_history_position [OF assms(1), of pos] by auto
qed (use assms(1) in simp)

lemma search_fwd_loop_returns:
  assumes "wf_history h" and "\<forall>pos \<in> set ps. 0 < pos \<and> pos \<le> length (hi_entries h)"
  shows "returns history_ok (search_fwd_loop pattern ps h)"
  using assms(2)
proof (induction ps)
  case (Cons pos ps)
  then show ?case using entry_at_Ok [of pos h] wf_history_position [OF assms(1), of pos] by auto
qed (use assms(1) wf_history_position [OF assms(1), of 0] in simp)

lemma search_returns:
  assumes "wf_history h"
  shows "returns history_ok (search_backward pattern c h)" "returns history_ok (search_forward pattern h)"
proof -
  show "returns history_ok (search_backward pattern c h)"
    using assms by (auto simp: search_backward_def Let_def simp del: upt_Suc intro!: search_back_loop_returns navigation_wf)
  show "returns history_ok (search_forward pattern h)"
    using assms search_fwd_loop_returns [OF assms] by (auto simp: search_forward_def wf_history_def)
qed

end
