(* ===== verification/Rl_Editor.thy ===== *)
theory Rl_Editor
  imports Rl_Complete Rl_History
begin

text \<open>
  The line editor: \<^verbatim>\<open>src/crates/sys/readline/src/editor.rs\<close> and \<^verbatim>\<open>lib.rs\<close>. The editor reads keys from the list of polls and
  appends to its output. A computation that needs more polls than there are, or that never ends, has the value
  \<open>None\<close>.
\<close>

section \<open>State\<close>

datatype edit_mode = EmacsMode | ViMode

record completion_state =
  cs_original :: "uchar list"
  cs_original_cursor :: nat
  cs_completions :: "completion list"
  cs_index :: nat
  cs_word_start :: nat

record line_editor =
  le_buffer :: edit_buffer
  le_prompt :: "uchar list"
  le_prompt_width :: nat
  le_mode :: edit_mode
  le_emacs :: emacs_mode
  le_vi :: vi_mode
  le_completers :: "completer list"
  le_completion :: "completion_state option"

definition LineEditor_new :: line_editor where
  "LineEditor_new =
     \<lparr>le_buffer = EditBuffer_new, le_prompt = [], le_prompt_width = 0, le_mode = EmacsMode, le_emacs = EmacsMode_new, le_vi = ViMode_new,
      le_completers = [], le_completion = None\<rparr>"

definition editor_set_mode :: "edit_mode \<Rightarrow> line_editor \<Rightarrow> line_editor" where
  "editor_set_mode mode ed = ed\<lparr>le_mode := mode\<rparr>"

definition editor_add_completer :: "completer \<Rightarrow> line_editor \<Rightarrow> line_editor" where
  "editor_add_completer c ed = ed\<lparr>le_completers := le_completers ed @ [c]\<rparr>"

definition editor_clear_completers :: "line_editor \<Rightarrow> line_editor" where
  "editor_clear_completers ed = ed\<lparr>le_completers := []\<rparr>"

definition refresh_line :: "line_editor \<Rightarrow> byte list pan" where
  "refresh_line ed =
     rbind (move_to_column (le_prompt_width ed + eb_cursor (le_buffer ed) + 1)) (\<lambda>col.
     Ok (rl_carriage_return @ utf8 (le_prompt ed) @ utf8 (eb_chars (le_buffer ed)) @ clear_to_end @ col))"

section \<open>Completion\<close>

text \<open>\<open>while cursor < original_cursor { delete_char() }\<close>\<close>

partial_function (option) delete_until :: "nat \<Rightarrow> edit_buffer \<Rightarrow> edit_buffer option" where
  "delete_until n b = (if eb_cursor b < n then delete_until n (snd (delete_char b)) else Some b)"

text \<open>\<open>while cursor > word_start { backspace() }\<close>: each backspace moves the cursor by one.\<close>

definition backspace_to :: "nat \<Rightarrow> edit_buffer \<Rightarrow> edit_buffer pan" where
  "backspace_to n b = times (eb_cursor b - n) (\<lambda>b. rbind (backspace b) (\<lambda>(_, b). Ok b)) b"

definition insert_completion :: "completion \<Rightarrow> edit_buffer \<Rightarrow> edit_buffer pan" where
  "insert_completion c b =
     rbind (insert_str (co_text c) b) (\<lambda>b. case co_suffix c of Some suffix \<Rightarrow> buf_insert suffix b | None \<Rightarrow> Ok b)"

definition common_len :: "uchar list \<Rightarrow> uchar list \<Rightarrow> nat" where
  "common_len xs ys = length (takeWhile (\<lambda>(a, b). a = b) (zip xs ys))"

definition common_prefix :: "completion list \<Rightarrow> uchar list" where
  "common_prefix cs =
     (case cs of
        [] \<Rightarrow> []
      | c # rest \<Rightarrow>
          let first = co_text c in
          take (fold (\<lambda>d n. min n (common_len first (co_text d))) rest (length (utf8 first))) first)"

definition show_one :: "nat \<Rightarrow> nat \<Rightarrow> completion \<Rightarrow> byte list \<times> nat \<Rightarrow> byte list \<times> nat" where
  "show_one col_width cols c s =
     (let (out, col) = s;
          out = out @ utf8 (co_display c) @ replicate (col_width - length (utf8 (co_display c))) 0x20 in
      if col + 1 \<ge> cols then (out @ rl_newline, 0) else (out, col + 1))"

definition show_completions :: "completion list \<Rightarrow> byte list" where
  "show_completions cs =
     (let max_len = (if cs = [] then 10 else Max (set (map (\<lambda>c. length (utf8 (co_display c))) cs)));
          col_width = max_len + 2; cols = max (78 div col_width) 1;
          (out, col) = fold (show_one col_width cols) cs ([], 0) in
      if col > 0 then out @ rl_newline else out)"

definition cycle_completion :: "completion_state \<Rightarrow> line_editor \<Rightarrow> (line_editor \<times> byte list) pan option" where
  "cycle_completion st ed =
     (if cs_completions st = [] then Some Panic
      else
        let index = (cs_index st + 1) mod length (cs_completions st);
            ed = ed\<lparr>le_completion := Some (st\<lparr>cs_index := index\<rparr>)\<rparr>;
            b = set_cursor (cs_word_start st) (set_content (cs_original st) (le_buffer ed)) in
        case delete_until (cs_original_cursor st) b of
          None \<Rightarrow> None
        | Some b \<Rightarrow> Some (rbind (insert_completion (cs_completions st ! index) b) (\<lambda>b. Ok (ed\<lparr>le_buffer := b\<rparr>, []))))"

definition collect_completions :: "line_editor \<Rightarrow> uchar list \<Rightarrow> nat \<Rightarrow> completion list pan" where
  "collect_completions ed line cursor =
     for_res (\<lambda>c acc. rbind (cp_complete c line cursor) (\<lambda>cs. Ok (acc @ cs))) (le_completers ed) []"

definition start_completion :: "line_editor \<Rightarrow> (line_editor \<times> byte list) pan" where
  "start_completion ed =
     (let line = eb_chars (le_buffer ed); cursor = eb_cursor (le_buffer ed) in
      rbind (collect_completions ed line cursor) (\<lambda>all.
      if all = [] then Ok (ed, beep)
      else
        rbind (case le_completers ed of c # _ \<Rightarrow> rbind (cp_word_boundaries c line cursor) (\<lambda>(start, _). Ok start) | [] \<Rightarrow> Ok cursor) (\<lambda>word_start.
        if length all = 1
        then rbind (backspace_to word_start (le_buffer ed)) (\<lambda>b. rbind (insert_completion (hd all) b) (\<lambda>b. Ok (ed\<lparr>le_buffer := b\<rparr>, [])))
        else
          let common = common_prefix all in
          rbind (str_slice word_start cursor line) (\<lambda>word.
          if length (utf8 common) > length (utf8 word)
          then rbind (backspace_to word_start (le_buffer ed)) (\<lambda>b. rbind (insert_str common b) (\<lambda>b. Ok (ed\<lparr>le_buffer := b\<rparr>, [])))
          else
            Ok (ed\<lparr>le_completion := Some \<lparr>cs_original = line, cs_original_cursor = cursor, cs_completions = all, cs_index = 0, cs_word_start = word_start\<rparr>\<rparr>,
                rl_newline @ show_completions all @ utf8 (le_prompt ed))))))"

definition do_completion :: "line_editor \<Rightarrow> (line_editor \<times> byte list) pan option" where
  "do_completion ed =
     (if le_completers ed = [] then Some (Ok (ed, beep))
      else case le_completion ed of
          Some st \<Rightarrow> cycle_completion st ed
        | None \<Rightarrow> Some (start_completion ed))"

section \<open>Searching the history\<close>

record search_state =
  ss_pattern :: "uchar list"
  ss_buffer :: edit_buffer
  ss_history :: history
  ss_out :: "byte list"

definition ascii :: "string \<Rightarrow> byte list" where
  "ascii = map of_char"

text \<open>A found line replaces the buffer.\<close>

definition found :: "uchar list option \<Rightarrow> edit_buffer \<Rightarrow> edit_buffer" where
  "found line b = (case line of Some s \<Rightarrow> set_content s b | None \<Rightarrow> b)"

text \<open>One key of the search; the flag says that the loop ends.\<close>

definition search_key :: "uchar list \<Rightarrow> key \<Rightarrow> search_state \<Rightarrow> (bool \<times> search_state) pan" where
  "search_key original key s =
     (if key = C (CHR ''r'') then
        rbind (search_backward (ss_pattern s) original (ss_history s)) (\<lambda>(line, h).
        Ok (False, s\<lparr>ss_buffer := found line (ss_buffer s), ss_history := h\<rparr>))
      else if key = C (CHR ''s'') then
        rbind (search_forward (ss_pattern s) (ss_history s)) (\<lambda>(line, h).
        Ok (False, s\<lparr>ss_buffer := found line (ss_buffer s), ss_history := h\<rparr>))
      else if key = C (CHR ''g'') \<or> key = KEscape then
        Ok (True, s\<lparr>ss_buffer := set_content original (ss_buffer s), ss_history := reset_position (ss_history s)\<rparr>)
      else if key = KEnter then Ok (True, s)
      else if key = KBackspace \<or> key = C (CHR ''h'') then Ok (False, s\<lparr>ss_pattern := butlast (ss_pattern s)\<rparr>)
      else case key of
          KChar ch \<Rightarrow>
            let pattern = ss_pattern s @ [ch] in
            rbind (search_backward pattern original (ss_history s)) (\<lambda>(line, h).
            Ok (False, s\<lparr>ss_pattern := pattern, ss_buffer := found line (ss_buffer s), ss_history := h,
                         ss_out := ss_out s @ (if line = None then beep else [])\<rparr>))
        | _ \<Rightarrow> Ok (True, s))"

definition search_display :: "search_state \<Rightarrow> byte list" where
  "search_display s =
     rl_carriage_return @ clear_to_end @ ascii ''(reverse-i-search)`'' @ utf8 (ss_pattern s) @ ascii (CHR 0x27 # '': '') @
     utf8 (eb_chars (ss_buffer s))"

lemma read_key_shorter: "read_key p = Some (key, q) \<Longrightarrow> length q < length p"
proof (induction p)
  case (Cons ch p)
  have t: "length q \<le> length p" if "read_char_timeout p = Some (c, q)" for c p q
  proof -
    have "read_char_within n p = Some (c, q) \<Longrightarrow> length q \<le> length p" for n
      by (induction n p rule: read_char_within.induct) (auto split: if_splits)
    then show ?thesis using that by (simp add: read_char_timeout_def)
  qed
  have c: "length q \<le> length p" if "parse_csi_sequence ps p = Some (key, q)" for ps p q key
    using that
  proof (induction ps p rule: parse_csi_sequence.induct)
    case (1 ps p)
    from "1.prems" obtain ch p1 where r: "read_char_timeout p = Some (ch, p1)"
      by (auto simp: parse_csi_sequence.simps [of ps p] split: option.splits)
    have "length q \<le> length p1"
      using "1.prems" "1.IH" [OF r refl] by (auto simp: parse_csi_sequence.simps [of ps p] r split: if_splits)
    then show ?case using t [OF r] by simp
  qed
  show ?case using Cons by (auto simp: parse_ss3_sequence_def split: if_splits option.splits dest!: t c)
qed simp

function search_loop :: "uchar list \<Rightarrow> search_state \<Rightarrow> polls \<Rightarrow> (search_state \<times> polls) pan option" where
  "search_loop original s p =
     (case read_key p of
        None \<Rightarrow> None
      | Some (key, p) \<Rightarrow>
          (case search_key original key s of
             Ok (True, s) \<Rightarrow> Some (Ok (s, p))
           | Ok (False, s) \<Rightarrow> search_loop original (s\<lparr>ss_out := ss_out s @ search_display s\<rparr>) p
           | _ \<Rightarrow> Some Panic))"
  by pat_completeness auto
termination by (relation "measure (\<lambda>(_, _, p). length p)") (auto dest: read_key_shorter)

declare search_loop.simps [simp del]

definition do_history_search :: "line_editor \<Rightarrow> history \<Rightarrow> byte list \<Rightarrow> polls \<Rightarrow> (line_editor \<times> history \<times> byte list \<times> polls) pan option" where
  "do_history_search ed h out p =
     (let out = out @ rl_carriage_return @ clear_to_end @ ascii (''(reverse-i-search)`'' @ [CHR 0x27] @ '': '');
          s = \<lparr>ss_pattern = [], ss_buffer = le_buffer ed, ss_history = h, ss_out = out\<rparr> in
      case search_loop (eb_chars (le_buffer ed)) s p of
        None \<Rightarrow> None
      | Some (Ok (s, p)) \<Rightarrow>
          Some (Ok (ed\<lparr>le_buffer := ss_buffer s\<rparr>, ss_history s,
                    ss_out s @ rl_carriage_return @ clear_to_end @ utf8 (le_prompt ed), p))
      | Some _ \<Rightarrow> Some Panic)"

section \<open>The editing loop\<close>

datatype read_result = Line "uchar list" | Interrupted | Eof_result

definition handle_mode_key :: "key \<Rightarrow> line_editor \<Rightarrow> (action \<times> line_editor) pan option" where
  "handle_mode_key key ed =
     (case le_mode ed of
        EmacsMode \<Rightarrow> Some (rbind (emacs_handle_key key (le_emacs ed) (le_buffer ed)) (\<lambda>(a, e, b). Ok (a, ed\<lparr>le_emacs := e, le_buffer := b\<rparr>)))
      | ViMode \<Rightarrow> map_option (\<lambda>r. rbind r (\<lambda>(a, v, b). Ok (a, ed\<lparr>le_vi := v, le_buffer := b\<rparr>))) (vi_handle_key key (le_vi ed) (le_buffer ed)))"

datatype loop_step = Return read_result line_editor history "byte list" | Again line_editor history "byte list" polls

text \<open>What the loop does with an action. Every branch that does not return redraws the line at its end; the loop
  below does that.\<close>

definition loop_action :: "action \<Rightarrow> line_editor \<Rightarrow> history \<Rightarrow> byte list \<Rightarrow> polls \<Rightarrow> loop_step pan option" where
  "loop_action a ed h out p =
     (case a of
        Continue \<Rightarrow> Some (Ok (Again ed h out p))
      | ModeChanged \<Rightarrow> Some (Ok (Again ed h out p))
      | Done \<Rightarrow> let line = eb_chars (le_buffer ed) in Some (Ok (Return (Line line) ed (history_add line h) (out @ rl_newline)))
      | Interrupt \<Rightarrow> Some (Ok (Return Interrupted ed h (out @ ascii (CHR 0x5E # ''C'') @ rl_newline)))
      | Eof \<Rightarrow> Some (Ok (Return Eof_result ed h out))
      | Refresh \<Rightarrow> Some (Ok (Again ed h (out @ clear_screen @ utf8 (le_prompt ed)) p))
      | Complete \<Rightarrow> map_option (\<lambda>r. rbind r (\<lambda>(ed, bs). Ok (Again ed h (out @ bs) p))) (do_completion ed)
      | HistoryPrev \<Rightarrow>
          Some (rbind (history_prev (eb_chars (le_buffer ed)) h) (\<lambda>(line, h). Ok (Again (ed\<lparr>le_buffer := found line (le_buffer ed)\<rparr>) h out p)))
      | HistoryNext \<Rightarrow>
          Some (rbind (history_next h) (\<lambda>(line, h). Ok (Again (ed\<lparr>le_buffer := found line (le_buffer ed)\<rparr>) h out p)))
      | HistorySearch \<Rightarrow> map_option (\<lambda>r. rbind r (\<lambda>(ed, h, out, p). Ok (Again ed h out p))) (do_history_search ed h out p))"

definition loop_key :: "key \<Rightarrow> line_editor \<Rightarrow> history \<Rightarrow> byte list \<Rightarrow> polls \<Rightarrow> loop_step pan option" where
  "loop_key key ed h out p =
     (let ed = (if key \<noteq> KTab then ed\<lparr>le_completion := None\<rparr> else ed) in
      case handle_mode_key key ed of
        None \<Rightarrow> None
      | Some (Ok (a, ed)) \<Rightarrow> loop_action a ed h out p
      | Some _ \<Rightarrow> Some Panic)"

lemma search_loop_shorter: "search_loop original s p = Some (Ok (s', q)) \<Longrightarrow> length q \<le> length p"
proof (induction original s p rule: search_loop.induct)
  case (1 original s p)
  from "1.prems" obtain key p1 where r: "read_key p = Some (key, p1)" by (auto simp: search_loop.simps [of _ s p] split: option.splits)
  have "length q \<le> length p1"
    using "1.prems" "1.IH" [OF r refl] by (auto simp: search_loop.simps [of _ s p] r split: res.splits bool.splits)
  then show ?case using read_key_shorter [OF r] by simp
qed

lemma loop_key_shorter: "loop_key key ed h out p = Some (Ok (Again ed' h' out' q)) \<Longrightarrow> length q \<le> length p"
  by (auto simp: loop_key_def loop_action_def do_history_search_def Let_def split: option.splits res.splits action.splits if_splits
      dest: search_loop_shorter)

function readline_loop :: "line_editor \<Rightarrow> history \<Rightarrow> byte list \<Rightarrow> polls \<Rightarrow> (read_result \<times> line_editor \<times> history \<times> byte list) pan option" where
  "readline_loop ed h out p =
     (case read_key p of
        None \<Rightarrow> None
      | Some (key, p) \<Rightarrow>
          (case loop_key key ed h out p of
             None \<Rightarrow> None
           | Some (Ok (Return r ed h out)) \<Rightarrow> Some (Ok (r, ed, h, out))
           | Some (Ok (Again ed h out p)) \<Rightarrow>
               (case refresh_line ed of Ok bs \<Rightarrow> readline_loop ed h (out @ bs) p | _ \<Rightarrow> Some Panic)
           | Some _ \<Rightarrow> Some Panic))"
  by pat_completeness auto
termination by (relation "measure (\<lambda>(_, _, _, p). length p)") (auto dest!: read_key_shorter loop_key_shorter)

declare readline_loop.simps [simp del]

definition readline_start :: "uchar list \<Rightarrow> line_editor \<Rightarrow> line_editor" where
  "readline_start prompt ed =
     ed\<lparr>le_buffer := buf_clear (le_buffer ed), le_prompt := prompt, le_prompt_width := length prompt, le_completion := None,
        le_emacs := emacs_reset (le_emacs ed), le_vi := vi_reset (le_vi ed)\<rparr>"

definition editor_readline :: "uchar list \<Rightarrow> line_editor \<Rightarrow> history \<Rightarrow> polls \<Rightarrow> (read_result \<times> line_editor \<times> history \<times> byte list) pan option" where
  "editor_readline prompt ed h p = readline_loop (readline_start prompt ed) (reset_position h) (utf8 prompt) p"

datatype readline_error = RInterrupted | REof | IoError

definition line_or_error :: "read_result \<Rightarrow> (readline_error, uchar list) res" where
  "line_or_error r = (case r of Line s \<Rightarrow> Ok s | Interrupted \<Rightarrow> Err RInterrupted | Eof_result \<Rightarrow> Err REof)"

definition edit_line :: "uchar list \<Rightarrow> edit_mode \<Rightarrow> line_editor \<Rightarrow> history \<Rightarrow> polls \<Rightarrow>
    ((readline_error, uchar list) res \<times> line_editor \<times> history \<times> byte list) pan option" where
  "edit_line prompt mode ed h p =
     map_option (\<lambda>r. rbind r (\<lambda>(r, s). Ok (line_or_error r, s))) (editor_readline prompt (editor_set_mode mode ed) h p)"

section \<open>The library interface\<close>

record readline =
  rl_editor :: line_editor
  rl_history :: history
  rl_mode :: edit_mode

definition with_history_size :: "nat \<Rightarrow> readline" where
  "with_history_size n = \<lparr>rl_editor = LineEditor_new, rl_history = History_new n, rl_mode = EmacsMode\<rparr>"

definition Readline_new :: readline where
  "Readline_new = with_history_size 1000"

definition rl_set_mode :: "edit_mode \<Rightarrow> readline \<Rightarrow> readline" where
  "rl_set_mode mode rl = rl\<lparr>rl_mode := mode\<rparr>"

definition rl_add_completer :: "completer \<Rightarrow> readline \<Rightarrow> readline" where
  "rl_add_completer c rl = rl\<lparr>rl_editor := editor_add_completer c (rl_editor rl)\<rparr>"

definition rl_clear_completers :: "readline \<Rightarrow> readline" where
  "rl_clear_completers rl = rl\<lparr>rl_editor := editor_clear_completers (rl_editor rl)\<rparr>"

definition rl_add_history :: "uchar list \<Rightarrow> readline \<Rightarrow> readline" where
  "rl_add_history line rl = rl\<lparr>rl_history := history_add line (rl_history rl)\<rparr>"

definition rl_clear_history :: "readline \<Rightarrow> readline" where
  "rl_clear_history rl = rl\<lparr>rl_history := history_clear (rl_history rl)\<rparr>"

definition rl_readline :: "uchar list \<Rightarrow> readline \<Rightarrow> polls \<Rightarrow> ((readline_error, uchar list) res \<times> readline \<times> byte list) pan option" where
  "rl_readline prompt rl p =
     map_option (\<lambda>r. rbind r (\<lambda>(r, ed, h, out). Ok (line_or_error r, rl\<lparr>rl_editor := ed, rl_history := h\<rparr>, out)))
       (editor_readline prompt (editor_set_mode (rl_mode rl) (rl_editor rl)) (rl_history rl) p)"

section \<open>The invariant\<close>

definition editor_ok :: "line_editor \<Rightarrow> history \<Rightarrow> bool" where
  "editor_ok ed h \<longleftrightarrow> vi_ok (le_vi ed, le_buffer ed) \<and> wf_history h"

lemma editor_ok_update [simp]:
  "editor_ok (ed\<lparr>le_completion := c\<rparr>) h = editor_ok ed h" "editor_ok (ed\<lparr>le_emacs := e\<rparr>) h = editor_ok ed h"
  by (simp_all add: editor_ok_def)

lemma editor_ok_found: "editor_ok ed h \<Longrightarrow> wf_history h' \<Longrightarrow> editor_ok (ed\<lparr>le_buffer := found line (le_buffer ed)\<rparr>) h'"
  using buffer_ops_wf(8) by (auto simp: editor_ok_def vi_ok_def found_def split: option.split)

lemma handle_mode_key_ok:
  assumes "editor_ok ed h"
  shows "\<exists>a ed'. handle_mode_key key ed = Some (Ok (a, ed')) \<and> editor_ok ed' h \<and> le_mode ed' = le_mode ed"
proof (cases "le_mode ed")
  case EmacsMode
  have "returns (\<lambda>(_, _, b). wf_buffer b) (emacs_handle_key key (le_emacs ed) (le_buffer ed))"
    by (rule emacs_handle_key_returns) (use assms in \<open>auto simp: editor_ok_def vi_ok_def\<close>)
  then show ?thesis using EmacsMode assms by (auto simp: handle_mode_key_def returns_def editor_ok_def vi_ok_def)
next
  case ViMode
  have "\<exists>r. vi_handle_key key (le_vi ed) (le_buffer ed) = Some r \<and> returns (\<lambda>(_, s). vi_ok s) r"
    by (rule vi_handle_key_returns) (use assms in \<open>simp add: editor_ok_def\<close>)
  then show ?thesis using ViMode assms by (auto simp: handle_mode_key_def returns_def editor_ok_def)
qed

definition search_ok :: "search_state \<Rightarrow> bool" where
  "search_ok s \<longleftrightarrow> wf_buffer (ss_buffer s) \<and> wf_history (ss_history s)"

lemma found_wf: "wf_buffer b \<Longrightarrow> wf_buffer (found line b)"
  using buffer_ops_wf(8) by (auto simp: found_def split: option.split)

lemma search_key_returns:
  assumes "search_ok s"
  shows "returns (\<lambda>(_, s). search_ok s) (search_key original key s)"
proof -
  have wf: "wf_buffer (ss_buffer s)" "wf_history (ss_history s)" using assms by (auto simp: search_ok_def)
  note r = search_returns [OF wf(2)]
  show ?thesis
    unfolding search_key_def Let_def using found_wf [OF wf(1)] wf buffer_ops_wf(8) [OF wf(1)] navigation_wf(2) [OF wf(2)]
    by (auto simp: search_ok_def intro!: returns_bind [OF r(1)] returns_bind [OF r(2)] split: key.split)
qed

section \<open>Two enter keys end the line\<close>

text \<open>Polls that end with \<open>n\<close> carriage returns. A key takes at most one of them, as the last byte of a broken
  escape sequence.\<close>

definition enter_like :: "key \<Rightarrow> bool" where
  "enter_like key \<longleftrightarrow> key \<in> {KEnter, KAlt 13, KUnknown 13}"

definition ends :: "nat \<Rightarrow> polls \<Rightarrow> bool" where
  "ends n p \<longleftrightarrow> (\<exists>r. p = r @ replicate n 13)"

text \<open>Reading from polls that end with \<open>n + 1\<close> carriage returns either leaves all of them or takes one.\<close>

definition takes :: "nat \<Rightarrow> bool \<Rightarrow> polls \<Rightarrow> bool" where
  "takes n one q \<longleftrightarrow> ends (Suc n) q \<or> one \<and> q = replicate n 13"

lemma within_enters:
  "ends (Suc n) p \<Longrightarrow> \<exists>ch q. read_char_within m p = Some (ch, q) \<and> takes n (ch = 13) q"
proof (induction m p rule: read_char_within.induct)
  case (3 m ch p)
  have p: "ends (Suc n) p \<or> ch = 13 \<and> p = replicate n 13"
    using "3.prems" by (auto simp: ends_def Cons_eq_append_conv)
  then show ?case using "3.IH" by (auto simp: takes_def)
qed (auto simp: ends_def takes_def)

lemma timeout_enters: "ends (Suc n) p \<Longrightarrow> \<exists>ch q. read_char_timeout p = Some (ch, q) \<and> takes n (ch = 13) q"
  by (simp add: read_char_timeout_def within_enters)

lemma csi_key_13: "csi_key 13 ps = KUnknown 13"
  by (simp add: csi_key_def)

lemma csi_enters:
  "ends (Suc n) p \<Longrightarrow> \<exists>key q. parse_csi_sequence ps p = Some (key, q) \<and> takes n (enter_like key) q"
proof (induction ps p rule: parse_csi_sequence.induct)
  case (1 ps p)
  obtain ch q where r: "read_char_timeout p = Some (ch, q)" "takes n (ch = 13) q" using timeout_enters [OF "1.prems"] by blast
  show ?case
  proof (cases "ch = 13")
    case True
    then show ?thesis using r by (simp add: parse_csi_sequence.simps [of ps p] csi_key_13 enter_like_def)
  next
    case False
    then show ?thesis using r "1.IH" [OF r(1) refl] by (auto simp: parse_csi_sequence.simps [of ps p] takes_def)
  qed
qed

lemma read_key_enters:
  "ends (Suc n) p \<Longrightarrow> \<exists>key q. read_key p = Some (key, q) \<and> takes n (enter_like key) q"
proof (induction p)
  case (Cons ch p)
  show ?case
  proof (cases "ends (Suc n) p")
    case False
    then have "ch = 13" "p = replicate n 13" using Cons.prems by (auto simp: ends_def Cons_eq_append_conv)
    then show ?thesis by (simp add: control_key_def enter_like_def takes_def)
  next
    case True
    obtain c q where r: "read_char_timeout p = Some (c, q)" "takes n (c = 13) q" using timeout_enters [OF True] by blast
    have esc: "\<exists>key q'. read_key (0x1B # p) = Some (key, q') \<and> takes n (enter_like key) q'"
    proof (cases "c = 13")
      case True
      then show ?thesis using r by (simp add: enter_like_def)
    next
      case False
      then have q: "ends (Suc n) q" using r(2) by (simp add: takes_def)
      have "\<exists>key q'. parse_ss3_sequence q = Some (key, q') \<and> takes n (enter_like key) q'"
        using timeout_enters [OF q] by (auto simp: parse_ss3_sequence_def enter_like_def takes_def)
      then show ?thesis using r csi_enters [OF q, of "[]"] q by (auto simp: takes_def)
    qed
    show ?thesis using esc Cons.IH [OF True] True by (auto simp: takes_def)
  qed
qed (simp add: ends_def)

text \<open>What is left unread is a part of the polls, and only the byte 9 is the tab key.\<close>

lemma within_part: "read_char_within n p = Some (ch, q) \<Longrightarrow> set q \<subseteq> set p"
  by (induction n p rule: read_char_within.induct) (auto split: if_splits)

lemma timeout_part: "read_char_timeout p = Some (ch, q) \<Longrightarrow> set q \<subseteq> set p"
  by (simp add: read_char_timeout_def within_part)

lemma csi_part: "parse_csi_sequence ps p = Some (key, q) \<Longrightarrow> set q \<subseteq> set p \<and> key \<noteq> KTab"
proof (induction ps p rule: parse_csi_sequence.induct)
  case (1 ps p)
  from "1.prems" obtain ch p1 where r: "read_char_timeout p = Some (ch, p1)" by (auto simp: parse_csi_sequence.simps [of ps p] split: option.splits)
  have "csi_key ch ps \<noteq> KTab" by (simp add: csi_key_def Let_def)
  then have "set q \<subseteq> set p1 \<and> key \<noteq> KTab"
    using "1.prems" "1.IH" [OF r refl] by (auto simp: parse_csi_sequence.simps [of ps p] r split: if_splits)
  then show ?case using timeout_part [OF r] by blast
qed

lemma read_key_part: "read_key p = Some (key, q) \<Longrightarrow> set q \<subseteq> set p \<and> (key = KTab \<longrightarrow> 9 \<in> set p)"
proof (induction p)
  case (Cons ch p)
  have c: "control_key ch = KTab \<Longrightarrow> ch = 9" by (auto simp: control_key_def split: if_splits)
  have s: "set q \<subseteq> set p \<and> key \<noteq> KTab" if "parse_ss3_sequence p = Some (key, q)" for p
    using that by (auto simp: parse_ss3_sequence_def split: option.splits if_splits dest: timeout_part)
  show ?case
  proof (cases "ch = 0x1B")
    case True
    with Cons.prems obtain d p1 where r: "read_char_timeout p = Some (d, p1)" by (auto split: option.splits)
    then have "set q \<subseteq> set p1 \<and> key \<noteq> KTab"
      using Cons.prems True s [of p1] csi_part [of "[]" p1 key q] by (auto split: if_splits)
    then show ?thesis using timeout_part [OF r] by auto
  next
    case False
    then show ?thesis using Cons c by (auto split: if_splits)
  qed
qed simp

section \<open>Actions\<close>

lemma operator_action: "handle_operator_motion op key n v b = Ok (a, s) \<Longrightarrow> a \<in> {Continue, ModeChanged}"
  by (auto simp: handle_operator_motion_def whole_line_def Let_def split: if_splits option.splits prod.splits)

lemma command_step_action:
  assumes "command_step key n v b = Ok (a, v', b')"
  shows "a \<noteq> Complete \<and> (a = HistorySearch \<longrightarrow> v' = v)"
  using assms by (auto simp: command_step_def command_rest_def Let_def split: if_splits prod.splits)

lemma command_action:
  assumes "vi_ok (v, b)" and "handle_command_mode key v b = Some (Ok (a, v', b'))"
  shows "a \<noteq> Complete \<and> (a = HistorySearch \<longrightarrow> vi_pending_operator v' = None)"
proof -
  have base: ?thesis if "key \<noteq> K (CHR ''.'')" "handle_command_mode key v b = Some (Ok (a, v', b'))" for key v
    using that by (auto simp: handle_command_mode.simps [of key] Let_def split: option.splits dest: operator_action command_step_action)
  show ?thesis
  proof (cases "key = K (CHR ''.'')")
    case True
    obtain again where "again \<noteq> K (CHR ''.'') \<and> handle_command_mode again (v\<lparr>vi_repeat_count := None\<rparr>) b = Some (Ok (a, v', b')) \<or> a \<in> {Continue, ModeChanged}"
      using assms True by (auto simp: handle_command_mode.simps [of "KChar 46"] vi_ok_def count_digit_def Let_def split: option.splits dest: operator_action)
    then show ?thesis using base by auto
  qed (use base assms(2) in blast)
qed

definition enter_done :: "line_editor \<Rightarrow> bool" where
  "enter_done ed \<longleftrightarrow> le_mode ed = EmacsMode \<or> vi_state (le_vi ed) \<noteq> Command \<or> vi_pending_operator (le_vi ed) = None"

lemma mode_actions:
  assumes "editor_ok ed h" and "handle_mode_key key ed = Some (Ok (a, ed'))"
  shows "a = Complete \<Longrightarrow> key = KTab" "a = HistorySearch \<Longrightarrow> enter_done ed'"
proof -
  have "(a = Complete \<longrightarrow> key = KTab) \<and> (a = HistorySearch \<longrightarrow> enter_done ed')"
  proof (cases "le_mode ed")
    case EmacsMode
    then show ?thesis using assms(2)
      by (auto simp: handle_mode_key_def enter_done_def emacs_handle_key_def kill_def Let_def split: if_splits key.splits)
  next
    case ViMode
    have "vi_ok (le_vi ed, le_buffer ed)" using assms(1) by (simp add: editor_ok_def)
    note c = command_action [OF this]
    show ?thesis
    proof (cases "vi_state (le_vi ed)")
      case Insert
      then show ?thesis using assms(2) ViMode
        by (auto simp: handle_mode_key_def vi_handle_key_def handle_insert_mode_def split: if_splits key.splits)
    next
      case Command
      then show ?thesis using assms(2) ViMode c by (auto simp: handle_mode_key_def vi_handle_key_def enter_done_def)
    next
      case Replace
      then show ?thesis using assms(2) ViMode
        by (auto simp: handle_mode_key_def vi_handle_key_def handle_replace_mode_def split: key.splits)
    qed
  qed
  then show "a = Complete \<Longrightarrow> key = KTab" "a = HistorySearch \<Longrightarrow> enter_done ed'" by auto
qed

lemma enter_like_action:
  assumes "handle_mode_key key ed = Some (Ok (a, ed'))" and "enter_like key"
  shows "a = Done \<or> a = Continue \<and> enter_done ed'" "key = KEnter \<Longrightarrow> enter_done ed \<Longrightarrow> a = Done"
proof -
  have d: "count_digit key = None" using assms(2) by (auto simp: enter_like_def count_digit_def)
  have m: "operator_motion key n b = Ok None" "key \<noteq> KChar op" for n b op using assms(2) by (auto simp: enter_like_def operator_motion_def)
  have "(a = Done \<or> a = Continue \<and> enter_done ed') \<and> (key = KEnter \<longrightarrow> enter_done ed \<longrightarrow> a = Done)"
  proof (cases "le_mode ed")
    case EmacsMode
    then show ?thesis using assms by (auto simp: handle_mode_key_def enter_done_def emacs_handle_key_def enter_like_def Let_def)
  next
    case ViMode
    show ?thesis
    proof (cases "vi_state (le_vi ed)")
      case Insert
      then show ?thesis using assms ViMode by (auto simp: handle_mode_key_def vi_handle_key_def handle_insert_mode_def enter_like_def enter_done_def)
    next
      case Command
      then show ?thesis using assms ViMode d m
        by (auto simp: handle_mode_key_def vi_handle_key_def enter_like_def enter_done_def handle_command_mode.simps [of key]
            handle_operator_motion_def command_step_def command_rest_def Let_def split: option.splits)
    next
      case Replace
      then show ?thesis using assms ViMode by (auto simp: handle_mode_key_def vi_handle_key_def handle_replace_mode_def enter_like_def enter_done_def)
    qed
  qed
  then show "a = Done \<or> a = Continue \<and> enter_done ed'" "key = KEnter \<Longrightarrow> enter_done ed \<Longrightarrow> a = Done" by auto
qed

section \<open>The loop returns\<close>

lemma read_key_enters2: "ends 2 p \<Longrightarrow> \<exists>key q. read_key p = Some (key, q) \<and> takes 1 (enter_like key) q"
  using read_key_enters [of 1 p] by (simp add: numeral_2_eq_2)

lemma read_key_enter: "read_key [13] = Some (KEnter, [])"
  by (simp add: control_key_def)

lemma search_loop_returns:
  assumes "search_ok s" and "ends 2 p"
  shows "\<exists>s' q. search_loop original s p = Some (Ok (s', q)) \<and> search_ok s' \<and> set q \<subseteq> set p \<and> (ends 2 q \<or> q = [13])"
  using assms
proof (induction original s p rule: search_loop.induct)
  case (1 original s p)
  obtain key q where r: "read_key p = Some (key, q)" "takes 1 (enter_like key) q"
    using read_key_enters2 "1.prems"(2) by blast
  obtain stop s1 where k: "search_key original key s = Ok (stop, s1)" "search_ok s1"
    using search_key_returns [OF "1.prems"(1), of original key] by (auto simp: returns_def)
  have q: "ends 2 q \<or> q = [13]" "set q \<subseteq> set p" using r read_key_part [OF r(1)] by (auto simp: takes_def numeral_2_eq_2)
  show ?case
  proof (cases stop)
    case True
    then show ?thesis using r k q by (simp add: search_loop.simps [of original s p])
  next
    case False
    then have "\<not> enter_like key" using k by (auto simp: enter_like_def search_key_def)
    then have "ends 2 q" using r(2) by (simp add: takes_def numeral_2_eq_2)
    moreover have "search_ok (s1\<lparr>ss_out := x\<rparr>)" for x using k(2) by (simp add: search_ok_def)
    ultimately obtain s' q' where "search_loop original (s1\<lparr>ss_out := ss_out s1 @ search_display s1\<rparr>) q = Some (Ok (s', q'))"
        "search_ok s'" "set q' \<subseteq> set q" "ends 2 q' \<or> q' = [13]"
      using "1.IH" [OF r(1) refl k(1) refl] False by blast
    then show ?thesis using r(1) k(1) q(2) False by (auto simp: search_loop.simps [of original s p])
  qed
qed

text \<open>The polls that are left, and what an enter key does next.\<close>

definition ending :: "line_editor \<Rightarrow> polls \<Rightarrow> bool" where
  "ending ed p \<longleftrightarrow> ends 2 p \<or> p = [13] \<and> enter_done ed"

fun step_ok :: "polls \<Rightarrow> loop_step \<Rightarrow> bool" where
  "step_ok p (Return r ed h out) = editor_ok ed h"
| "step_ok p (Again ed h out q) = (editor_ok ed h \<and> set q \<subseteq> set p \<and> ending ed q)"

lemma enter_done_buffer [simp]:
  "enter_done (ed\<lparr>le_buffer := b\<rparr>) = enter_done ed" "enter_done (ed\<lparr>le_completion := c\<rparr>) = enter_done ed"
  by (simp_all add: enter_done_def)

lemma do_history_search_returns:
  assumes "editor_ok ed h" and "ends 2 p" and "enter_done ed"
  shows "\<exists>ed' h' out' q. do_history_search ed h out p = Some (Ok (ed', h', out', q)) \<and> step_ok p (Again ed' h' out' q)"
proof -
  define s where "s = \<lparr>ss_pattern = [], ss_buffer = le_buffer ed, ss_history = h,
    ss_out = out @ rl_carriage_return @ clear_to_end @ ascii (''(reverse-i-search)`'' @ [CHR 0x27] @ '': '')\<rparr>"
  have "search_ok s" using assms(1) by (simp add: s_def search_ok_def editor_ok_def vi_ok_def)
  then obtain s' q where "search_loop (eb_chars (le_buffer ed)) s p = Some (Ok (s', q))" "search_ok s'" "set q \<subseteq> set p" "ends 2 q \<or> q = [13]"
    using search_loop_returns [OF _ assms(2)] by blast
  then show ?thesis using assms by (auto simp: do_history_search_def s_def Let_def ending_def editor_ok_def vi_ok_def search_ok_def)
qed

lemma loop_key_returns:
  assumes ok: "editor_ok ed h" and tab: "key \<noteq> KTab" and q: "takes 1 (enter_like key) q"
  shows "\<exists>st. loop_key key ed h out q = Some (Ok st) \<and> step_ok q st"
proof -
  have "editor_ok (ed\<lparr>le_completion := None\<rparr>) h" using ok by simp
  then obtain a ed' where m: "handle_mode_key key (ed\<lparr>le_completion := None\<rparr>) = Some (Ok (a, ed'))" "editor_ok ed' h"
    using handle_mode_key_ok by blast
  note acts = mode_actions [OF \<open>editor_ok (ed\<lparr>le_completion := None\<rparr>) h\<close> m(1)] and enter = enter_like_action [OF m(1)]
  have l: "loop_key key ed h out q = loop_action a ed' h out q" using tab m(1) by (simp add: loop_key_def)
  have e: "ending ed' q" if "a \<noteq> Done" using q enter(1) that by (auto simp: takes_def ending_def numeral_2_eq_2)
  have two: "ends 2 q" if "a \<noteq> Done" "a \<noteq> Continue" using q enter(1) that by (auto simp: takes_def numeral_2_eq_2)
  have wf: "wf_history h" using ok by (simp add: editor_ok_def)
  show ?thesis
  proof (cases a)
    case HistorySearch
    then show ?thesis using do_history_search_returns [OF m(2) two acts(2), of out] l by (auto simp: loop_action_def)
  next
    case HistoryPrev
    then show ?thesis using l e m(2) history_prev_returns [OF wf, of "eb_chars (le_buffer ed')"] editor_ok_found [OF m(2)]
      by (auto simp: loop_action_def returns_def ending_def)
  next
    case HistoryNext
    then show ?thesis using l e m(2) history_next_returns [OF wf] editor_ok_found [OF m(2)]
      by (auto simp: loop_action_def returns_def ending_def)
  next
    case Done
    then show ?thesis using l m(2) history_add_wf [of h] by (auto simp: loop_action_def editor_ok_def Let_def)
  qed (use l e m(2) acts(1) tab in \<open>auto simp: loop_action_def\<close>)
qed

text \<open>The states of the loop: what the keys have made of the line.\<close>

inductive edits :: "line_editor \<times> history \<times> polls \<Rightarrow> line_editor \<times> history \<times> polls \<Rightarrow> bool" where
  edits_refl: "edits s s"
| edits_step: "read_key p = Some (key, p1) \<Longrightarrow> loop_key key ed h out p1 = Some (Ok (Again ed' h' out' p')) \<Longrightarrow>
    edits (ed', h', p') s \<Longrightarrow> edits (ed, h, p) s"

definition too_wide :: "line_editor \<Rightarrow> bool" where
  "too_wide ed \<longleftrightarrow> le_prompt_width ed + eb_cursor (le_buffer ed) + 1 \<ge> 10 ^ 10"

lemma rev_digits_length: "val < 10 ^ n \<Longrightarrow> length (rev_digits val) \<le> n"
proof (induction val arbitrary: n rule: rev_digits.induct)
  case (1 val)
  show ?case
  proof (cases n)
    case (Suc m)
    then show ?thesis using "1.IH" [of m] "1.prems" by (subst rev_digits.simps) (auto simp: less_mult_imp_div_less)
  qed (use "1.prems" in \<open>simp add: rev_digits.simps\<close>)
qed

lemma refresh_line_Ok: "\<not> too_wide ed \<Longrightarrow> \<exists>bs. refresh_line ed = Ok bs"
  using rev_digits_length [of "le_prompt_width ed + eb_cursor (le_buffer ed) + 1" 10]
  by (auto simp: too_wide_def refresh_line_def move_to_column_def write_csi_param_def)

lemma readline_loop_returns:
  assumes "editor_ok ed h" and "9 \<notin> set p" and "ending ed p"
  shows "\<exists>r. readline_loop ed h out p = Some r \<and>
    ((\<exists>res ed' h' out'. r = Ok (res, ed', h', out') \<and> editor_ok ed' h') \<or>
     r = Panic \<and> (\<exists>ed' h' q. edits (ed, h, p) (ed', h', q) \<and> too_wide ed'))"
  using assms
proof (induction ed h out p rule: readline_loop.induct)
  case (1 ed h out p)
  obtain key q where r: "read_key p = Some (key, q)" "takes 1 (enter_like key) q \<or> p = [13]"
    using read_key_enters2 [of p] read_key_enter "1.prems"(3) unfolding ending_def by blast
  have tab: "key \<noteq> KTab" and q: "9 \<notin> set q" using read_key_part [OF r(1)] "1.prems"(2) by auto
  show ?case
  proof (cases "takes 1 (enter_like key) q")
    case True
    then obtain st where st: "loop_key key ed h out q = Some (Ok st)" "step_ok q st"
      using loop_key_returns [OF "1.prems"(1) tab] by blast
    show ?thesis
    proof (cases st)
      case (Return res ed' h' out')
      then show ?thesis using st r(1) by (simp add: readline_loop.simps [of ed h out p])
    next
      case (Again ed' h' out' p')
      have s: "edits (ed, h, p) s" if "edits (ed', h', p') s" for s using edits_step [OF r(1) st(1) [unfolded Again] that] .
      show ?thesis
      proof (cases "refresh_line ed'")
        case (Ok bs)
        have eq: "readline_loop ed h out p = readline_loop ed' h' (out' @ bs) p'"
          using r(1) st(1) Again Ok by (simp add: readline_loop.simps [of ed h out p])
        have p': "editor_ok ed' h'" "9 \<notin> set p'" "ending ed' p'" using st(2) Again q by auto
        obtain x where x: "readline_loop ed' h' (out' @ bs) p' = Some x"
          "(\<exists>res ed' h' out'. x = res.Ok (res, ed', h', out') \<and> editor_ok ed' h') \<or>
           x = res.Panic \<and> (\<exists>ed'' h'' q. edits (ed', h', p') (ed'', h'', q) \<and> too_wide ed'')"
          using "1.IH" [OF r(1) refl st(1) refl Again Ok p'] by blast
        from x(2) consider (returned) res e hh ou where "x = res.Ok (res, e, hh, ou)" "editor_ok e hh"
          | (stopped) e hh q' where "x = res.Panic" "edits (ed', h', p') (e, hh, q')" "too_wide e" by blast
        then show ?thesis
        proof cases
          case stopped
          then show ?thesis using eq x(1) s [OF stopped(2)] by auto
        qed (use eq x(1) in auto)
      next
        case (Err e)
        then show ?thesis using refresh_line_Ok [of ed'] r(1) st(1) Again s edits_refl [of "(ed', h', p')"]
          by (simp add: readline_loop.simps [of ed h out p]) blast
      next
        case Panic
        then show ?thesis using refresh_line_Ok [of ed'] r(1) st(1) Again s edits_refl [of "(ed', h', p')"]
          by (simp add: readline_loop.simps [of ed h out p]) blast
      qed
    qed
  next
    case False
    then have k: "p = [13]" "key = KEnter" "q = []" using r read_key_enter by auto
    then have "enter_done (ed\<lparr>le_completion := None\<rparr>)" using "1.prems"(3) by (auto simp: ending_def ends_def Cons_eq_append_conv numeral_2_eq_2)
    moreover obtain a ed' where m: "handle_mode_key key (ed\<lparr>le_completion := None\<rparr>) = Some (Ok (a, ed'))" "editor_ok ed' h"
      using handle_mode_key_ok [of "ed\<lparr>le_completion := None\<rparr>" h key] "1.prems"(1) by auto
    ultimately have "a = Done" using enter_like_action(2) [OF m(1)] k by (simp add: enter_like_def)
    then have "loop_key key ed h out q = Some (Ok (Return (Line (eb_chars (le_buffer ed'))) ed' (history_add (eb_chars (le_buffer ed')) h) (out @ rl_newline)))"
      using m(1) tab by (simp add: loop_key_def loop_action_def Let_def)
    then show ?thesis using r(1) m(2) history_add_wf [of h] by (auto simp: readline_loop.simps [of ed h out p] editor_ok_def)
  qed
qed

section \<open>Completion cycles\<close>

lemma delete_until_diverges: "delete_until n b = Some b' \<Longrightarrow> \<not> eb_cursor b < n"
proof (induction n b b' rule: delete_until.raw_induct [rotated 1, consumes 1])
  case (1 loop n b b')
  have "eb_cursor (snd (delete_char b)) = eb_cursor b" by (simp add: delete_char_def split: if_splits)
  then show ?case using "1.hyps" "1.IH" [of n "snd (delete_char b)"] by (auto split: if_splits)
qed

section \<open>Properties\<close>

text \<open>C13. Reading a line ends. In emacs and in vi mode, with any editor whose buffer and history are well-formed and any
  completers, whatever bytes were typed before (tabs excepted), two carriage returns end the line: the loop
  returns with a line, an interrupt or an end of file, and the editor and the history are well-formed again. The only way to
  panic is redrawing a line whose cursor column has more than ten digits.\<close>

theorem two_enters_end_the_line:
  assumes "editor_ok ed h" and "9 \<notin> set p"
  shows "\<exists>r. editor_readline prompt ed h (p @ [13, 13]) = Some r \<and>
    ((\<exists>res ed' h' out. r = Ok (res, ed', h', out) \<and> editor_ok ed' h') \<or>
     r = Panic \<and> (\<exists>ed' h' q. edits (readline_start prompt ed, reset_position h, p @ [13, 13]) (ed', h', q) \<and> too_wide ed'))"
proof -
  have "wf_buffer (buf_clear (le_buffer ed))" using assms(1) by (auto simp: editor_ok_def vi_ok_def intro: buffer_ops_wf)
  then have "editor_ok (readline_start prompt ed) (reset_position h)"
    using assms(1) navigation_wf(2) [of h] by (simp add: editor_ok_def readline_start_def vi_ok_def vi_reset_def)
  moreover have "9 \<notin> set (p @ [13, 13])" using assms(2) by simp
  moreover have "ends 2 (p @ [13, 13])" unfolding ends_def by (rule exI [of _ p]) (simp add: numeral_2_eq_2)
  then have "ending (readline_start prompt ed) (p @ [13, 13])" by (simp add: ending_def)
  ultimately show ?thesis unfolding editor_readline_def by (rule readline_loop_returns)
qed

theorem two_enters_end_the_line_witness:
  "\<exists>r. editor_readline [36] (LineEditor_new\<lparr>le_mode := ViMode\<rparr>) (History_new 10) ([104, 27, 91, 49] @ [13, 13]) = Some r"
proof -
  have "editor_ok (LineEditor_new\<lparr>le_mode := ViMode\<rparr>) (History_new 10)"
    using wf_history_new by (simp add: editor_ok_def LineEditor_new_def vi_ok_def ViMode_new_def EditBuffer_new_def wf_buffer_def)
  moreover have "9 \<notin> set [104, 27, 91, 49 :: byte]" by simp
  ultimately show ?thesis using two_enters_end_the_line [of "LineEditor_new\<lparr>le_mode := ViMode\<rparr>" "History_new 10" "[104, 27, 91, 49]" "[36]"] by blast
qed

section \<open>ASCII lines\<close>

definition ascii_line :: "uchar list \<Rightarrow> bool" where
  "ascii_line s \<longleftrightarrow> (\<forall>c \<in> set s. c < 128)"

lemma utf8_ascii: "ascii_line s \<Longrightarrow> utf8 s = map of_nat s"
  by (induction s) (auto simp: utf8_def utf8_char_def ascii_line_def)

lemma char_boundary_ascii: "ascii_line s \<Longrightarrow> n \<le> length s \<Longrightarrow> char_boundary s n = Some n"
proof (induction s arbitrary: n)
  case (Cons c s)
  then show ?case by (cases n) (auto simp: ascii_line_def utf8_char_def)
qed (simp add: ascii_line_def)

lemma str_slice_ascii: "ascii_line s \<Longrightarrow> a \<le> b \<Longrightarrow> b \<le> length s \<Longrightarrow> str_slice a b s = Ok (take (b - a) (drop a s))"
  by (simp add: str_slice_def char_boundary_ascii)

text \<open>The ASCII blanks that end a word, and the text before the word at the end of a line.\<close>

definition blank_char :: "uchar \<Rightarrow> bool" where
  "blank_char c \<longleftrightarrow> c \<in> {0x20, 0x09, 0x0A, 0x0C, 0x0D}"

definition before_word :: "uchar list \<Rightarrow> uchar list" where
  "before_word s = rev (dropWhile (\<lambda>c. \<not> blank_char c) (rev s))"

lemma blank_byte:
  assumes "c < 128"
  shows "is_ascii_whitespace (of_nat c) = blank_char c"
proof -
  have "(of_nat c :: byte) = of_nat d \<longleftrightarrow> c = d" if "d < 128" for d using assms that by (simp add: word_of_nat_eq_iff take_bit_nat_def)
  from this [of "0x20"] this [of "0x09"] this [of "0x0A"] this [of "0x0C"] this [of "0x0D"] show ?thesis
    by (simp add: is_ascii_whitespace_def blank_char_def)
qed

lemma word_start_ascii:
  "ascii_line s \<Longrightarrow> n \<le> length s \<Longrightarrow> word_start_from (map of_nat s) n = Ok (length (before_word (take n s)))"
proof (induction n)
  case (Suc n)
  then have "s ! n < 128" by (auto simp: ascii_line_def)
  then show ?case using Suc by (simp add: take_Suc_conv_app_nth before_word_def blank_byte)
qed (simp add: before_word_def)

lemma before_word_prefix: "\<exists>w. s = before_word s @ w"
  using dropWhile_suffix [of "rev s" "\<lambda>c. \<not> blank_char c"] unfolding before_word_def by (metis rev_append rev_rev_ident)

lemma word_boundaries_ascii:
  assumes "ascii_line s" and "n \<le> length s"
  shows "\<exists>e. word_boundaries s n = Ok (length (before_word (take n s)), e)"
  using assms by (simp add: word_boundaries_def utf8_ascii word_start_ascii Let_def)

section \<open>Replacing the word before the cursor\<close>

lemma backspace_Suc:
  assumes "wf_buffer b" and "eb_cursor b = Suc n"
  shows "\<exists>b'. rbind (backspace b) (\<lambda>(_, b). Ok b) = Ok b' \<and> wf_buffer b' \<and> eb_cursor b' = n \<and> zip_of b' = (take n (fst (zip_of b)), snd (zip_of b))"
proof -
  obtain l r where z: "zip_of b = (l, r)" by fastforce
  have l: "length l = Suc n" using assms z by (auto simp: zip_of_def wf_buffer_def)
  obtain x b' where b': "backspace b = Ok (x, b')" "wf_buffer b'" "zip_of b' = (butlast l, r)"
    using edit_buffer_step [OF assms(1), of DelBack] z by (auto simp: refines_zip_def)
  have "length (fst (zip_of b')) = eb_cursor b'" using b'(2) by (simp add: zip_of_def wf_buffer_def)
  then show ?thesis using b' z l by (simp add: butlast_conv_take)
qed

lemma backspace_to_zip:
  assumes "wf_buffer b" and "n \<le> eb_cursor b"
  shows "\<exists>b'. backspace_to n b = Ok b' \<and> wf_buffer b' \<and> zip_of b' = (take n (fst (zip_of b)), snd (zip_of b))"
proof -
  have "\<exists>b'. for_res (\<lambda>_ b. rbind (backspace b) (\<lambda>(_, b). Ok b)) xs b = Ok b' \<and> wf_buffer b' \<and> zip_of b' = (take n (fst (zip_of b)), snd (zip_of b))"
    if "wf_buffer b" "eb_cursor b = n + length xs" for xs :: "nat list" and b
    using that
  proof (induction xs arbitrary: b)
    case Nil
    then show ?case by (cases "zip_of b") (auto simp: zip_of_def wf_buffer_def)
  next
    case (Cons x xs)
    then obtain b1 where b1: "rbind (backspace b) (\<lambda>(_, b). Ok b) = Ok b1" "wf_buffer b1" "eb_cursor b1 = n + length xs"
        "zip_of b1 = (take (n + length xs) (fst (zip_of b)), snd (zip_of b))"
      using backspace_Suc [OF Cons.prems(1), of "n + length xs"] by auto
    show ?case using Cons.IH [OF b1(2,3)] by (simp add: b1(1,4))
  qed
  from this [OF assms(1), of "[0..<eb_cursor b - n]"] show ?thesis using assms(2) by (simp add: backspace_to_def times_def)
qed

definition completion_text :: "completion \<Rightarrow> uchar list" where
  "completion_text c = co_text c @ opt_list (co_suffix c)"

lemma insert_completion_zip:
  assumes "wf_buffer b"
  shows "\<exists>b'. insert_completion c b = Ok b' \<and> wf_buffer b' \<and> zip_of b' = (fst (zip_of b) @ completion_text c, snd (zip_of b))"
proof -
  obtain b1 where b1: "insert_str (co_text c) b = Ok b1" "wf_buffer b1" "zip_of b1 = (fst (zip_of b) @ co_text c, snd (zip_of b))"
    using insert_str_zip [OF assms] by blast
  show ?thesis
  proof (cases "co_suffix c")
    case (Some x)
    then show ?thesis using b1 buf_insert_zip [OF b1(2), of x] by (auto simp: insert_completion_def completion_text_def opt_list_def)
  qed (use b1 in \<open>simp add: insert_completion_def completion_text_def opt_list_def\<close>)
qed

lemma word_start_Ok: "n \<le> length bytes \<Longrightarrow> \<exists>k. word_start_from bytes n = Ok k"
  by (induction n) auto

lemma utf8_longer: "length s \<le> length (utf8 s)"
proof (induction s)
  case (Cons c s)
  have "1 \<le> length (utf8_char c)" by (simp add: utf8_char_def)
  then show ?case using Cons by (simp add: utf8_def)
qed (simp add: utf8_def)

lemma char_boundary_prefix: "char_boundary s a = Some i \<Longrightarrow> length (utf8 (take i s)) = a"
proof (induction s arbitrary: a i)
  case (Cons c s)
  then show ?case by (cases a) (auto simp: utf8_def split: if_splits)
next
  case Nil
  then show ?case by (cases a) (simp_all add: utf8_def)
qed

lemma completion_inside_character:
  assumes "n \<le> length line" and "\<forall>k. length (utf8 (take k line)) \<noteq> n"
  shows "ShellCompleter_complete os line n = Panic"
proof -
  obtain k where "word_start_from (utf8 line) n = Ok k" using word_start_Ok assms(1) utf8_longer [of line] by (meson le_trans)
  moreover have "char_boundary line n = None" using char_boundary_prefix assms(2) by (metis not_None_eq)
  ultimately show ?thesis
    by (simp add: ShellCompleter_complete_def word_boundaries_def str_slice_def Let_def split: option.split)
qed

text \<open>C26. Completing a word. With an ASCII line and the completer of the shell, a tab with exactly one candidate replaces the
  word before the cursor, back to the last blank, by the candidate and its suffix, and leaves the rest of the line
  as it is. The cursor counts characters and is used as a byte index: on any line where no beginning has as many
  bytes as there are characters before the cursor, so that the index lies inside of a character, the tab panics
  (as it does behind a single non-ASCII character after ASCII ones).\<close>

theorem tab_completes_word:
  assumes wf: "wf_buffer (le_buffer ed)" and ed: "le_completers ed = [ShellCompleter os]" "le_completion ed = None"
    and line: "line = eb_chars (le_buffer ed)" "n = eb_cursor (le_buffer ed)"
  shows "(\<forall>c. ascii_line line \<and> ShellCompleter_complete os line n = Ok [c] \<longrightarrow>
      (\<exists>b'. do_completion ed = Some (Ok (ed\<lparr>le_buffer := b'\<rparr>, [])) \<and> wf_buffer b' \<and>
        zip_of b' = (before_word (take n line) @ completion_text c, drop n line))) \<and>
    ((\<forall>k. length (utf8 (take k line)) \<noteq> n) \<longrightarrow> do_completion ed = Some Panic)"
proof -
  have n: "n \<le> length line" using wf line by (simp add: wf_buffer_def)
  have z: "zip_of (le_buffer ed) = (take n line, drop n line)" by (simp add: zip_of_def line)
  have "\<exists>b'. do_completion ed = Some (Ok (ed\<lparr>le_buffer := b'\<rparr>, [])) \<and> wf_buffer b' \<and> zip_of b' = (before_word (take n line) @ completion_text c, drop n line)"
    if a: "ascii_line line" and c: "ShellCompleter_complete os line n = Ok [c]" for c
  proof -
    let ?k = "length (before_word (take n line))"
    obtain w where w: "take n line = before_word (take n line) @ w" using before_word_prefix by blast
    then have k: "?k \<le> n" "take ?k (take n line) = before_word (take n line)"
      using n by (metis append_eq_conv_conj length_append length_take le_add1 min.absorb2, metis append_eq_conv_conj)
    obtain b1 where b1: "backspace_to ?k (le_buffer ed) = Ok b1" "wf_buffer b1" "zip_of b1 = (before_word (take n line), drop n line)"
      using backspace_to_zip [OF wf, of ?k] k line z by auto
    obtain b2 where b2: "insert_completion c b1 = Ok b2" "wf_buffer b2" "zip_of b2 = (before_word (take n line) @ completion_text c, drop n line)"
      using insert_completion_zip [OF b1(2), of c] b1(3) by auto
    have "start_completion ed = Ok (ed\<lparr>le_buffer := b2\<rparr>, [])"
      using word_boundaries_ascii [OF a n] c ed b1 b2
      by (auto simp: start_completion_def collect_completions_def ShellCompleter_def line)
    then show ?thesis using ed b2 by (simp add: do_completion_def) blast
  qed
  moreover have "do_completion ed = Some Panic" if "\<forall>k. length (utf8 (take k line)) \<noteq> n"
    using completion_inside_character [OF n that, of os] ed line
    by (simp add: do_completion_def start_completion_def collect_completions_def ShellCompleter_def)
  ultimately show ?thesis by blast
qed

definition demo_os :: os_env where
  "demo_os =
     \<lparr>os_getcwd = (1, [0x2F]),
      os_readdir = (\<lambda>_. (14, [0x46, 9, 0x61, 0x62, 0x20, 0x31, 10, 0x46, 9, 0x61, 0x63, 0x20, 0x31, 10])),
      os_getenv = (\<lambda>_. (0, []))\<rparr>"

lemma demo_split: "split_at 10 [0x46, 9, 0x61, 0x62, 0x20, 0x31, 10, 0x46, 9, 0x61, 0x63, 0x20, 0x31, 10 :: byte] = [[0x46, 9, 0x61, 0x62, 0x20, 0x31], [0x46, 9, 0x61, 0x63, 0x20, 0x31], []]"
  by simp

lemma demo_entries:
  "parse_entry [0x46, 9, 0x61, 0x62, 0x20, 0x31] = Some ([0x61, 0x62], False)"
  "parse_entry [0x46, 9, 0x61, 0x63, 0x20, 0x31] = Some ([0x61, 0x63], False)" "parse_entry [] = None"
  by (simp_all add: parse_entry_def from_utf8_def utf8_next_def Let_def)

lemma demo_listing: "list_directory demo_os path = [([0x61, 0x62], False), ([0x61, 0x63], False)]"
  by (auto simp: list_directory_def demo_os_def demo_split demo_entries List.map_filter_def)

lemma demo_path:
  assumes "set word \<subseteq> {0x61..0x7A}"
  shows "complete_path demo_os (0x2F # word) =
    map (\<lambda>name. \<lparr>co_text = 0x2F # name, co_display = name, co_suffix = Some 0x20\<rparr>) (filter (\<lambda>name. starts_with name word) [[0x61, 0x62], [0x61, 0x63]])"
proof -
  have "0x2F \<notin> set word" using assms by auto
  then have t: "takeWhile (\<lambda>c. c \<noteq> 0x2F) (rev word @ [0x2F]) = rev word" by (subst takeWhile_append2) auto
  have "split_dir (0x2F # word) = Some ([0x2F], word)" by (simp add: split_dir_def t Let_def)
  then show ?thesis by (simp add: complete_path_def expand_tilde_def starts_with_def demo_listing dir_suffix_def)
qed

lemma demo_shell:
  assumes "set word \<subseteq> {0x61..0x7A}"
  shows "ShellCompleter_complete demo_os (0x2F # word) (Suc (length word)) = Ok (complete_path demo_os (0x2F # word))"
    "\<exists>e. word_boundaries (0x2F # word) (Suc (length word)) = Ok (0, e)" "str_slice 0 (Suc (length word)) (0x2F # word) = Ok (0x2F # word)"
proof -
  have a: "ascii_line (0x2F # word)" using assms by (auto simp: ascii_line_def)
  have "dropWhile (\<lambda>c. \<not> blank_char c) (rev (0x2F # word)) = []" using assms by (auto simp: dropWhile_eq_Nil_conv blank_char_def)
  then have b: "before_word (0x2F # word) = []" by (simp add: before_word_def)
  then obtain e where e: "word_boundaries (0x2F # word) (Suc (length word)) = Ok (0, e)" using word_boundaries_ascii [OF a, of "Suc (length word)"] by auto
  then show "\<exists>e. word_boundaries (0x2F # word) (Suc (length word)) = Ok (0, e)" by blast
  show s: "str_slice 0 (Suc (length word)) (0x2F # word) = Ok (0x2F # word)" using str_slice_ascii [OF a, of 0 "Suc (length word)"] by simp
  show "ShellCompleter_complete demo_os (0x2F # word) (Suc (length word)) = Ok (complete_path demo_os (0x2F # word))"
    by (simp add: ShellCompleter_complete_def PathCompleter_complete_def word_before_def e s is_path_like_def)
qed

definition demo_editor :: "uchar list \<Rightarrow> line_editor" where
  "demo_editor line = LineEditor_new\<lparr>le_buffer := with_content line, le_completers := [ShellCompleter demo_os]\<rparr>"

theorem tab_completes_word_witness:
  "(\<exists>b'. do_completion (demo_editor [47, 97, 98]) = Some (Ok ((demo_editor [47, 97, 98])\<lparr>le_buffer := b'\<rparr>, [])) \<and> zip_of b' = ([47, 97, 98, 32], [])) \<and>
   do_completion (demo_editor [233]) = Some Panic"
proof -
  have wf: "wf_buffer (le_buffer (demo_editor s))" for s by (simp add: demo_editor_def wf_buffer_def with_content_def)
  have ed: "le_completers (demo_editor s) = [ShellCompleter demo_os]" "le_completion (demo_editor s) = None"
    "eb_chars (le_buffer (demo_editor s)) = s" "eb_cursor (le_buffer (demo_editor s)) = length s" for s
    by (simp_all add: demo_editor_def LineEditor_new_def with_content_def)
  note t = tab_completes_word [OF wf ed(1,2) refl refl, unfolded ed(3,4)]
  have "ShellCompleter_complete demo_os [47, 97, 98] (length [47, 97, 98 :: uchar]) = Ok [\<lparr>co_text = [47, 97, 98], co_display = [97, 98], co_suffix = Some 32\<rparr>]"
    using demo_shell(1) [of "[97, 98]"] demo_path [of "[97, 98]"] by (simp add: starts_with_def)
  moreover have "length (utf8 (take k [233 :: uchar])) \<noteq> length [233 :: uchar]" for k by (cases k) (simp_all add: utf8_def utf8_char_def)
  ultimately show ?thesis using conjunct1 [OF t [of "[47, 97, 98]"]] conjunct2 [OF t [of "[233]"]]
    by (auto simp: ascii_line_def before_word_def blank_char_def completion_text_def opt_list_def)
qed

text \<open>C25. The second tab. When a tab has several candidates, no longer common beginning and a word of at least one
  character before the cursor, it lists the candidates, and the next tab never returns, whatever is typed
  behind it: the loop that should remove the word waits for the cursor to reach the end of the word, and deleting
  under the cursor does not move it.\<close>

theorem second_tab_hangs:
  assumes ed: "le_completers ed = [c]" "le_completion ed = None" "le_mode ed = EmacsMode"
    and line: "line = eb_chars (le_buffer ed)" "n = eb_cursor (le_buffer ed)"
    and c: "cp_complete c line n = Ok cs" "2 \<le> length cs" "cp_word_boundaries c line n = Ok (k, e)" "k < n"
    and w: "str_slice k n line = Ok word" "length (utf8 (common_prefix cs)) \<le> length (utf8 word)"
  shows "\<exists>ed'. do_completion ed = Some (Ok (ed', rl_newline @ show_completions cs @ utf8 (le_prompt ed))) \<and> le_buffer ed' = le_buffer ed \<and>
    do_completion ed' = None \<and> (\<forall>h out p. readline_loop ed' h out (9 # p) = None)"
proof -
  define st where "st = \<lparr>cs_original = line, cs_original_cursor = n, cs_completions = cs, cs_index = 0, cs_word_start = k\<rparr>"
  have "start_completion ed = Ok (ed\<lparr>le_completion := Some st\<rparr>, rl_newline @ show_completions cs @ utf8 (le_prompt ed))"
    using ed line c w by (auto simp: start_completion_def collect_completions_def Let_def st_def)
  then have 1: "do_completion ed = Some (Ok (ed\<lparr>le_completion := Some st\<rparr>, rl_newline @ show_completions cs @ utf8 (le_prompt ed)))"
    using ed by (simp add: do_completion_def)
  have "delete_until n (set_cursor k (set_content line b)) = None" for b
  proof (rule ccontr)
    assume "delete_until n (set_cursor k (set_content line b)) \<noteq> None"
    then obtain b' where "delete_until n (set_cursor k (set_content line b)) = Some b'" by auto
    from delete_until_diverges [OF this] show False using c(4) by (simp add: set_cursor_def set_content_def)
  qed
  then have 2: "do_completion (ed\<lparr>le_completion := Some st, le_emacs := x\<rparr>) = None" for x
    using ed c(2) by (auto simp: do_completion_def cycle_completion_def st_def Let_def)
  have "read_key (9 # p) = Some (KTab, p)" for p by (simp add: control_key_def)
  then have 3: "readline_loop (ed\<lparr>le_completion := Some st\<rparr>) h out (9 # p) = None" for h out p
    using ed 2 by (simp add: readline_loop.simps loop_key_def handle_mode_key_def emacs_handle_key_def loop_action_def del: read_key.simps)
  have "do_completion (ed\<lparr>le_completion := Some st\<rparr>) = None" using 2 [of "le_emacs ed"] by simp
  then show ?thesis using 1 3 by (intro exI [of _ "ed\<lparr>le_completion := Some st\<rparr>"]) simp
qed

theorem second_tab_hangs_witness:
  "\<exists>ed' out'. do_completion (demo_editor [47, 97]) = Some (Ok (ed', out')) \<and> (\<forall>h out p. readline_loop ed' h out (9 # p) = None)"
proof -
  have ed: "le_completers (demo_editor s) = [ShellCompleter demo_os]" "le_completion (demo_editor s) = None" "le_mode (demo_editor s) = EmacsMode"
    "eb_chars (le_buffer (demo_editor s)) = s" "eb_cursor (le_buffer (demo_editor s)) = length s" for s
    by (simp_all add: demo_editor_def LineEditor_new_def with_content_def)
  have c: "cp_complete (ShellCompleter demo_os) = ShellCompleter_complete demo_os" "cp_word_boundaries (ShellCompleter demo_os) = word_boundaries"
    by (simp_all add: ShellCompleter_def)
  define cs :: "completion list" where
    "cs = [\<lparr>co_text = [47, 97, 98], co_display = [97, 98], co_suffix = Some 32\<rparr>, \<lparr>co_text = [47, 97, 99], co_display = [97, 99], co_suffix = Some 32\<rparr>]"
  have w: "set [97 :: uchar] \<subseteq> {0x61..0x7A}" by simp
  have 1: "ShellCompleter_complete demo_os [47, 97] (length [47, 97 :: uchar]) = Ok cs" "2 \<le> length cs"
    using demo_shell(1) [OF w] demo_path [OF w] by (simp_all add: starts_with_def cs_def)
  obtain e where 2: "word_boundaries [47, 97] (length [47, 97 :: uchar]) = Ok (0, e)" using demo_shell(2) [OF w] by auto
  have 3: "str_slice 0 (length [47, 97 :: uchar]) [47, 97] = Ok [47, 97]" using demo_shell(3) [OF w] by simp
  have 4: "length (utf8 (common_prefix cs)) \<le> length (utf8 [47, 97])"
    by (simp add: common_prefix_def cs_def common_len_def utf8_def utf8_char_def)
  from second_tab_hangs [OF ed(1-3) refl refl, unfolded ed(4,5) c, OF 1 2 _ 3 4] show ?thesis by auto
qed

end
