(* ===== verification/Rl_Display.thy ===== *)
theory Rl_Display
  imports Rl_Editor
begin

text \<open>
  The line editor on the terminal: the bytes that \<open>refresh_line\<close> of \<^verbatim>\<open>src/crates/sys/readline/src/editor.rs\<close> writes, processed by the
  terminal emulator of \<^verbatim>\<open>src/crates/sys/terminal/src\<close>.
\<close>

section \<open>Control sequences on a terminal\<close>

lemma process_quiet: "parser_run bs (te_parser t) = ([], q) \<Longrightarrow> process_bytes bs t = Ok (t\<lparr>te_parser := q\<rparr>)"
proof (induction bs arbitrary: t)
  case (Cons b bs)
  obtain p where p: "parser_advance b (te_parser t) = (None, p)" "parser_run bs p = ([], q)"
    using Cons.prems by (auto simp: Let_def split: prod.splits option.splits)
  then have "process_byte b t = Ok (t\<lparr>te_parser := p\<rparr>)" by (simp add: process_byte_def)
  then show ?case using Cons.IH [of "t\<lparr>te_parser := p\<rparr>"] p(2) by (simp add: process_bytes_def)
qed (simp add: process_bytes_def)

lemma process_bytes_append: "process_bytes (xs @ ys) t = rbind (process_bytes xs t) (process_bytes ys)"
  by (simp add: process_bytes_def [abs_def] for_res_append)

lemma process_event:
  assumes "parser_run bs (te_parser t) = ([], p)" and "parser_advance b p = (Some e, q)"
  shows "process_bytes (bs @ [b]) t = handle_event e (t\<lparr>te_parser := q\<rparr>)"
proof -
  have "process_byte b (t\<lparr>te_parser := p\<rparr>) = handle_event e (t\<lparr>te_parser := q\<rparr>)" using assms(2) by (simp add: process_byte_def)
  moreover have "rbind r Ok = r" for r :: "terminal pan" by (cases r) simp_all
  moreover have "process_bytes [b] = process_byte b"
    by (rule ext) (simp add: process_bytes_def \<open>\<And>r. rbind r Ok = r\<close> [unfolded] for_res.simps(1) [abs_def])
  ultimately show ?thesis using process_quiet [OF assms(1)] by (simp add: process_bytes_append)
qed

lemma run_csi_start:
  "pa_state p = Ground \<Longrightarrow> parser_run [0x1B, 0x5B] p = ([], enter_csi (p\<lparr>pa_state := Escape\<rparr>))"
  by (simp add: parser_advance_def ground_def escape_def enter_csi_def)

lemma process_clear_to_end:
  assumes "pa_state (te_parser t) = Ground"
  shows "\<exists>q. pa_state q = Ground \<and> process_bytes clear_to_end t = erase_in_line 0 (t\<lparr>te_parser := q\<rparr>)"
proof -
  let ?p = "enter_csi ((te_parser t)\<lparr>pa_state := Escape\<rparr>)"
  have "parser_advance 0x4B ?p = (Some (csi_event 0x4B False ?p), ?p\<lparr>pa_state := Ground\<rparr>)"
    by (simp add: parser_advance_def enter_csi_def csi_entry_def between_def)
  from process_event [OF run_csi_start [OF assms] this] show ?thesis
    by (intro exI [of _ "?p\<lparr>pa_state := Ground\<rparr>"])
      (simp add: clear_to_end_def csi_event_def handle_event_def handle_csi_def csi_param_def enter_csi_def)
qed

lemma rev_rev_digits: "0 < n \<Longrightarrow> rev (rev_digits n) = digits n"
proof (induction n rule: rev_digits.induct)
  case (1 n)
  then show ?case
    by (cases "n < 10") (simp_all add: rev_digits.simps [of n] digits.simps [of n] rev_digits.simps [of 0] div_greater_zero_iff)
qed

lemma process_column:
  assumes g: "pa_state (te_parser t) = Ground" and n: "0 < n" "n < 2 ^ 31"
  shows "\<exists>q bs. pa_state q = Ground \<and> move_to_column n = Ok bs \<and>
    process_bytes bs t = on_state (cursor_to_col (i32 (int n - 1))) (t\<lparr>te_parser := q\<rparr>)"
proof -
  let ?p = "enter_csi ((te_parser t)\<lparr>pa_state := Escape\<rparr>)"
  let ?q = "?p\<lparr>pa_current_param := int n, pa_state := CsiParam\<rparr>"
  have "csi_state ?p" "pa_current_param ?p = 0" by (simp_all add: csi_state_def enter_csi_def)
  then have "parser_run ([0x1B, 0x5B] @ digits n) (te_parser t) = ([], ?q)"
    using run_csi_start [OF g] run_digits [of ?p n] n(2) parser_run_append [of "[0x1B, 0x5B]" "digits n" "te_parser t"] by (simp del: parser_run.simps append.simps)
  moreover have "parser_advance 0x47 ?q = (Some (Csi ((pa_params ?p)[0 := int n]) 1 (pa_intermediate ?p) 0x47 False), (push_param (int n) ?q)\<lparr>pa_state := Ground\<rparr>)"
    by (simp add: parser_advance_def csi_param_state_def between_def push_param_def csi_event_def enter_csi_def MAX_PARAMS_def Let_def)
  ultimately have "process_bytes (([0x1B, 0x5B] @ digits n) @ [0x47]) t =
      handle_event (Csi ((pa_params ?p)[0 := int n]) 1 (pa_intermediate ?p) 0x47 False) (t\<lparr>te_parser := (push_param (int n) ?q)\<lparr>pa_state := Ground\<rparr>\<rparr>)"
    by (rule process_event)
  moreover have "csi_param ((pa_params ?p)[0 := int n]) 1 0 1 = int n" using n(1) by (simp add: csi_param_def enter_csi_def MAX_PARAMS_def)
  moreover have "move_to_column n = Ok (([0x1B, 0x5B] @ digits n) @ [0x47])"
    using rev_rev_digits [OF n(1)] rev_digits_length [of n 10] n by (simp add: move_to_column_def write_csi_param_def)
  ultimately show ?thesis
    by (intro exI [of _ "(push_param (int n) ?q)\<lparr>pa_state := Ground\<rparr>"]) (simp add: handle_event_def handle_csi_def)
qed

lemma clear_row_from_screen:
  assumes wf: "wf_grid g" and "x \<le> gr_cols g" "y < gr_rows g"
  shows "\<exists>g'. clear_row_from y x g = Ok g' \<and> keeps g g' \<and> screen g' = (screen g)[y := take x (screen g ! y) @ replicate (gr_cols g - x) (blank g)]"
proof -
  have r: "y < MAX_ROWS" "gr_cols g \<le> MAX_COLS" "gr_rows g \<le> MAX_ROWS" using assms by (auto simp: wf_grid_def)
  let ?r = "fill x (gr_cols g) (blank g) (gr_cells g ! y)"
  have l: "length (gr_cells g ! y) = MAX_COLS" by (rule wf_row [OF wf r(1)])
  have "clear_row_from y x g = Ok (set_row y ?r g)"
    using fill_row_ok [OF wf r(1) assms(2) r(2), of "blank g"] assms(3) by (simp add: clear_row_from_def)
  moreover have "keeps g (set_row y ?r g)" using set_row_keeps [OF wf, of ?r y] l by simp
  moreover have "take (gr_cols g) ?r = take x (take (gr_cols g) (gr_cells g ! y)) @ replicate (gr_cols g - x) (blank g)"
    using assms(2) r(2) l by (intro nth_equalityI) (auto simp: nth_append)
  then have "screen (set_row y ?r g) = (screen g)[y := take x (screen g ! y) @ replicate (gr_cols g - x) (blank g)]"
    using assms r by (simp add: screen_def set_row_def take_update_swap map_update wf_grid_def)
  ultimately show ?thesis by blast
qed

section \<open>Redrawing\<close>

definition graphic_line :: "uchar list \<Rightarrow> bool" where
  "graphic_line s \<longleftrightarrow> (\<forall>c \<in> set s. 32 \<le> c \<and> c \<le> 126)"

lemma graphic_bytes:
  assumes "graphic_line s"
  shows "utf8 s = map of_nat s" "list_all printable (map of_nat s)"
proof -
  show "utf8 s = map of_nat s" by (rule utf8_ascii) (use assms in \<open>auto simp: graphic_line_def ascii_line_def\<close>)
  have "printable (of_nat c)" if "32 \<le> c" "c \<le> 126" for c
    using that by (simp add: printable_def word_le_nat_alt unat_of_nat take_bit_nat_def)
  then show "list_all printable (map of_nat s)" using assms by (auto simp: graphic_line_def list_all_iff)
qed

lemma process_return:
  "pa_state (te_parser t) = Ground \<Longrightarrow> process_bytes rl_carriage_return t = Ok (t\<lparr>te_state := carriage_return (te_state t)\<rparr>)"
  by (simp add: process_bytes_def rl_carriage_return_def process_byte_def parser_advance_def ground_def handle_event_def execute_def upd_state_def)

lemma erase_to_end:
  assumes wf: "wf_terminal w h t" and x: "x = nat (ts_cursor_x (te_state t))" and y: "y = nat (ts_cursor_y (te_state t))"
  shows "\<exists>g. erase_in_line 0 (t\<lparr>te_parser := q\<rparr>) = Ok (t\<lparr>te_parser := q, te_grid := g\<rparr>) \<and>
    screen g = (screen (te_grid t))[y := take x (screen (te_grid t) ! y) @ replicate (w - x) (blank (te_grid t))]"
proof -
  note u = as_usize_cursor [OF wf_terminalD [OF wf]]
  have g: "wf_grid (te_grid t)" "gr_cols (te_grid t) = w" "gr_rows (te_grid t) = h" using wf by (auto simp: wf_terminal_def)
  have "x \<le> gr_cols (te_grid t)" "y < gr_rows (te_grid t)" using u(3,4) x y g by auto
  from clear_row_from_screen [OF g(1) this] g(2) show ?thesis using u(1,2) x y by (auto simp: erase_in_line_def on_grid_def)
qed

lemma blank_kept: "process_bytes bs t = Ok t' \<Longrightarrow> wf_terminal w h t \<Longrightarrow> blank (te_grid t') = blank (te_grid t)"
  using process_bytes_returns [OF tracks_refl, of w h t bs] by (auto simp: returns_def tracks_def blank_def)

lemma cursor_to_col_wf:
  assumes "wf_state w h s" and "n < w"
  shows "cursor_to_col (i32 (int (n + 1) - 1)) s = Ok (s\<lparr>ts_pending_wrap := False, ts_cursor_x := int n\<rparr>)"
  using assms by (simp add: cursor_to_col_def clamp_cursor_def clamp_def wf_state_def wf_frame_def small_i32 Let_def)

text \<open>A carriage return and text that fits: the cells from the first column on are written.\<close>

lemma return_and_print:
  assumes wf: "wf_terminal w h t" and ground: "pa_state (te_parser t) = Ground" and txs: "list_all printable txs" "length txs < w"
    and y: "y = nat (ts_cursor_y (te_state t))"
  shows "\<exists>t'. process_bytes (rl_carriage_return @ txs) t = Ok t' \<and> wf_terminal w h t' \<and> pa_state (te_parser t') = Ground \<and>
    ts_cursor_x (te_state t') = int (length txs) \<and> ts_cursor_y (te_state t') = ts_cursor_y (te_state t) \<and>
    screen (te_grid t') = (screen (te_grid t))[y := map (pen (te_state t)) txs @ drop (length txs) (screen (te_grid t) ! y)]"
proof -
  define t1 where "t1 = t\<lparr>te_state := carriage_return (te_state t)\<rparr>"
  have t1: "process_bytes rl_carriage_return t = Ok t1" unfolding t1_def by (rule process_return [OF ground])
  have "wf_terminal w h t1" using wf wf_pure_state(1) by (auto simp: wf_terminal_def t1_def)
  moreover have "pa_state (te_parser t1) = Ground" "\<not> ts_pending_wrap (te_state t1)" "0 = nat (ts_cursor_x (te_state t1))" "y = nat (ts_cursor_y (te_state t1))"
    using ground y by (simp_all add: t1_def carriage_return_def)
  ultimately obtain t2 where t2: "process_bytes txs t1 = Ok t2" "wf_terminal w h t2" "te_state t2 = advanced w (length txs) (te_state t1)"
      "te_parser t2 = te_parser t1" "screen (te_grid t2) = (screen (te_grid t))[y := overlay 0 (map (pen (te_state t1)) txs) (screen (te_grid t) ! y)]"
    using print_text [of w h t1 txs 0 y] txs by (auto simp: t1_def)
  have "pen (te_state t1) = pen (te_state t)" by (rule ext) (simp add: pen_def t1_def carriage_return_def)
  then show ?thesis using t1 t2 txs(2) ground
    by (intro exI [of _ t2]) (simp add: process_bytes_append overlay_def advanced_def t1_def carriage_return_def Let_def)
qed

section \<open>Properties\<close>

text \<open>C14. What the user sees. On a terminal of any size whose parser is in the ground state, the bytes of a redraw
  leave in the row of the cursor exactly the prompt, the line under edit and blanks to the end of the row, all other rows as
  they were, and the cursor of the terminal at the cursor of the edit buffer behind the prompt, provided that
  prompt and line are printable and together shorter than the row.\<close>

theorem redraw_shows_line:
  assumes wf: "wf_terminal w h t" and ground: "pa_state (te_parser t) = Ground" and b: "wf_buffer (le_buffer ed)"
    and line: "line = le_prompt ed @ eb_chars (le_buffer ed)" "graphic_line line" "length line < w" and pw: "le_prompt_width ed = length (le_prompt ed)"
    and y: "y = nat (ts_cursor_y (te_state t))"
  shows "\<exists>bs t'. refresh_line ed = Ok bs \<and> process_bytes bs t = Ok t' \<and> wf_terminal w h t' \<and> pa_state (te_parser t') = Ground \<and>
    screen (te_grid t') = (screen (te_grid t))[y := map (pen (te_state t)) (map of_nat line) @ replicate (w - length line) (blank (te_grid t))] \<and>
    terminal_cursor t' = (length (le_prompt ed) + eb_cursor (le_buffer ed), y)"
proof -
  let ?n = "length (le_prompt ed) + eb_cursor (le_buffer ed)"
  have w: "w \<le> 160" "?n < w" using wf_terminalD [OF wf] b line by (auto simp: wf_state_def wf_frame_def wf_buffer_def)
  note g = graphic_bytes [OF line(2)]
  obtain t2 where t2: "process_bytes (rl_carriage_return @ map of_nat line) t = Ok t2" "wf_terminal w h t2" "pa_state (te_parser t2) = Ground"
      "ts_cursor_x (te_state t2) = int (length line)" "ts_cursor_y (te_state t2) = ts_cursor_y (te_state t)"
      "screen (te_grid t2) = (screen (te_grid t))[y := map (pen (te_state t)) (map of_nat line) @ drop (length line) (screen (te_grid t) ! y)]"
    using return_and_print [OF wf ground g(2) _ y] line(3) by auto
  have yl: "y < length (screen (te_grid t))" using as_usize_cursor(4) [OF wf_terminalD [OF wf]] wf y by (auto simp: wf_terminal_def screen_nth)
  obtain q where q: "pa_state q = Ground" "process_bytes clear_to_end t2 = erase_in_line 0 (t2\<lparr>te_parser := q\<rparr>)"
    using process_clear_to_end [OF t2(3)] by blast
  obtain gr where gr: "erase_in_line 0 (t2\<lparr>te_parser := q\<rparr>) = Ok (t2\<lparr>te_parser := q, te_grid := gr\<rparr>)"
      "screen gr = (screen (te_grid t2))[y := take (length line) (screen (te_grid t2) ! y) @ replicate (w - length line) (blank (te_grid t2))]"
    using erase_to_end [OF t2(2), of "length line" y q] t2(4,5) y by auto
  define t3 where "t3 = t2\<lparr>te_parser := q, te_grid := gr\<rparr>"
  have t3: "process_bytes clear_to_end t2 = Ok t3" using q(2) gr(1) by (simp add: t3_def)
  have wf3: "wf_state w h (te_state t3)" using wf_terminalD [OF t2(2)] by (simp add: t3_def)
  obtain q' bs where q': "pa_state q' = Ground" "move_to_column (?n + 1) = Ok bs"
      "process_bytes bs t3 = on_state (cursor_to_col (i32 (int (?n + 1) - 1))) (t3\<lparr>te_parser := q'\<rparr>)"
    using process_column [of t3 "?n + 1"] q(1) w by (auto simp: t3_def)
  define t4 where "t4 = t3\<lparr>te_parser := q', te_state := (te_state t3)\<lparr>ts_pending_wrap := False, ts_cursor_x := int ?n\<rparr>\<rparr>"
  have t4: "process_bytes bs t3 = Ok t4" using q'(3) cursor_to_col_wf [OF wf3 w(2)] by (simp add: on_state_def t4_def)
  let ?bs = "rl_carriage_return @ map of_nat line @ clear_to_end @ bs"
  have all: "process_bytes ?bs t = Ok t4" using t2(1) t3 t4 by (auto simp: process_bytes_append)
  have "refresh_line ed = Ok ?bs" using q'(2) g(1) by (simp add: refresh_line_def pw line(1) utf8_def)
  moreover have "wf_terminal w h t4" using wf_process_bytes [OF wf, of ?bs] all by simp
  moreover have "blank (te_grid t2) = blank (te_grid t)" by (rule blank_kept [OF t2(1) wf])
  then have "screen (te_grid t4) = (screen (te_grid t))[y := map (pen (te_state t)) (map of_nat line) @ replicate (w - length line) (blank (te_grid t))]"
    using yl gr(2) t2(6) by (simp add: t4_def t3_def)
  moreover have "terminal_cursor t4 = (?n, y)" using w t2(5) y wf_terminalD [OF wf] by (simp add: terminal_cursor_def t4_def t3_def as_usize_def wf_state_def wf_frame_def)
  ultimately show ?thesis using all q'(1) by (intro exI [of _ ?bs] exI [of _ t4]) (simp add: t4_def)
qed

theorem redraw_shows_line_witness:
  "\<exists>t bs t'. Terminal_new 80 25 = Ok t \<and>
    refresh_line (LineEditor_new\<lparr>le_prompt := [36, 32], le_prompt_width := 2, le_buffer := set_cursor 1 (with_content [108, 115])\<rparr>) = Ok bs \<and>
    process_bytes bs t = Ok t' \<and> terminal_cursor t' = (3, 0)"
proof -
  obtain t where t: "Terminal_new 80 25 = Ok t" "wf_terminal 80 25 t" using Terminal_new_ok [of 80 25] by auto
  then have "pa_state (te_parser t) = Ground" "ts_cursor_y (te_state t) = 0"
    by (auto simp: Terminal_new_def Parser_new_def TerminalState_new_def)
  moreover have "wf_buffer (set_cursor 1 (with_content [108, 115]))" by (simp add: wf_buffer_def set_cursor_def with_content_def)
  ultimately show ?thesis
    using redraw_shows_line [OF t(2), of "LineEditor_new\<lparr>le_prompt := [36, 32], le_prompt_width := 2, le_buffer := set_cursor 1 (with_content [108, 115])\<rparr>", OF _ _ refl] t(1)
    by (auto simp: graphic_line_def set_cursor_def with_content_def)
qed

end
