(* ===== verification/Term_Render.thy ===== *)
theory Term_Render
  imports Term_State
begin

text \<open>
  The renderer: \<^verbatim>\<open>src/crates/sys/terminal/src/framebuffer.rs\<close> (drawing into the pixels of a framebuffer) and
  \<^verbatim>\<open>src/crates/sys/terminal/src/renderer.rs\<close> (cells, glyphs and the cursor of a grid, the whole of it or the dirty
  rows only).

  The back buffer is memory: a function from pixel offsets to 32-bit values. Coordinates and offsets are \<open>u32\<close>:
  natural numbers whose arithmetic wraps.
\<close>

section \<open>The framebuffer\<close>

datatype pixel_format = Rgb | Bgr

record fb_info =
  fi_width :: nat
  fi_height :: nat
  fi_pitch :: nat
  fi_bpp :: nat
  fi_format :: pixel_format

record framebuffer =
  fb_info :: fb_info
  fb_buffer :: "nat \<Rightarrow> u32"

definition wrap32 :: "nat \<Rightarrow> nat" where
  "wrap32 n = n mod 2 ^ 32"

definition info_cols :: "nat \<Rightarrow> fb_info \<Rightarrow> nat" where "info_cols font_width i = fi_width i div font_width"

definition info_rows :: "nat \<Rightarrow> fb_info \<Rightarrow> nat" where "info_rows font_height i = fi_height i div font_height"

definition pixel :: "fb_info \<Rightarrow> color \<Rightarrow> u32" where
  "pixel i c = (case fi_format i of Rgb \<Rightarrow> c | Bgr \<Rightarrow> to_bgr c)"

definition set_pixel :: "nat \<Rightarrow> nat \<Rightarrow> color \<Rightarrow> framebuffer \<Rightarrow> framebuffer" where
  "set_pixel x y c fb =
     (let i = fb_info fb in
      if x \<ge> fi_width i \<or> y \<ge> fi_height i then fb
      else fb\<lparr>fb_buffer := (fb_buffer fb)(wrap32 (wrap32 (y * fi_pitch i) div 4 + x) := pixel i c)\<rparr>)"

definition fill_rect :: "nat \<Rightarrow> nat \<Rightarrow> nat \<Rightarrow> nat \<Rightarrow> color \<Rightarrow> framebuffer \<Rightarrow> framebuffer" where
  "fill_rect x y w h c fb =
     (let i = fb_info fb; x_end = min (wrap32 (x + w)) (fi_width i); y_end = min (wrap32 (y + h)) (fi_height i); pitch = fi_pitch i div 4 in
      fb\<lparr>fb_buffer :=
        fold (\<lambda>py. fold (\<lambda>px b. b(wrap32 (wrap32 (py * pitch) + px) := pixel i c)) [x..<x_end]) [y..<y_end] (fb_buffer fb)\<rparr>)"

definition fb_clear :: "color \<Rightarrow> framebuffer \<Rightarrow> framebuffer" where
  "fb_clear c fb = fill_rect 0 0 (fi_width (fb_info fb)) (fi_height (fb_info fb)) c fb"

definition copy_rect :: "nat \<Rightarrow> nat \<Rightarrow> nat \<Rightarrow> nat \<Rightarrow> nat \<Rightarrow> nat \<Rightarrow> framebuffer \<Rightarrow> framebuffer" where
  "copy_rect src_x src_y dst_x dst_y w h fb =
     (let pitch = fi_pitch (fb_info fb) div 4;
          copy_up = (dst_y < src_y \<or> dst_y = src_y \<and> dst_x < src_x);
          offset = (\<lambda>x y row col. wrap32 (wrap32 (wrap32 (wrap32 (y + row) * pitch) + x) + col));
          cell = (\<lambda>row col b. b(offset dst_x dst_y row col := b (offset src_x src_y row col))) in
      fb\<lparr>fb_buffer :=
        (if copy_up then fold (\<lambda>row. fold (cell row) [0..<w]) [0..<h] (fb_buffer fb)
         else fold (\<lambda>row. fold (cell row) (rev [0..<w])) (rev [0..<h]) (fb_buffer fb))\<rparr>)"

section \<open>The renderer\<close>

definition FONT_WIDTH :: nat where "FONT_WIDTH = 8"
definition FONT_HEIGHT :: nat where "FONT_HEIGHT = 16"

text \<open>The glyphs of the printable characters; all others are blank.\<close>

definition FONT_8X16 :: "byte list list" where
  "FONT_8X16 = replicate 32 (replicate 16 0) @
     [[0, 0, 0, 0, 0, 0, 0, 0, 0, 0, 0, 0, 0, 0, 0, 0],
      [0, 0, 24, 24, 24, 24, 24, 24, 24, 0, 24, 24, 0, 0, 0, 0],
      [0, 102, 102, 102, 36, 0, 0, 0, 0, 0, 0, 0, 0, 0, 0, 0],
      [0, 0, 108, 108, 254, 108, 108, 108, 254, 108, 108, 0, 0, 0, 0, 0],
      [0, 24, 24, 60, 102, 96, 60, 6, 102, 60, 24, 24, 0, 0, 0, 0],
      [0, 0, 0, 98, 102, 12, 24, 48, 102, 70, 0, 0, 0, 0, 0, 0],
      [0, 0, 56, 108, 108, 56, 118, 220, 204, 204, 118, 0, 0, 0, 0, 0],
      [0, 24, 24, 24, 48, 0, 0, 0, 0, 0, 0, 0, 0, 0, 0, 0],
      [0, 0, 12, 24, 48, 48, 48, 48, 48, 24, 12, 0, 0, 0, 0, 0],
      [0, 0, 48, 24, 12, 12, 12, 12, 12, 24, 48, 0, 0, 0, 0, 0],
      [0, 0, 0, 0, 102, 60, 255, 60, 102, 0, 0, 0, 0, 0, 0, 0],
      [0, 0, 0, 0, 24, 24, 126, 24, 24, 0, 0, 0, 0, 0, 0, 0],
      [0, 0, 0, 0, 0, 0, 0, 0, 0, 24, 24, 24, 48, 0, 0, 0],
      [0, 0, 0, 0, 0, 0, 126, 0, 0, 0, 0, 0, 0, 0, 0, 0],
      [0, 0, 0, 0, 0, 0, 0, 0, 0, 0, 24, 24, 0, 0, 0, 0],
      [0, 0, 2, 6, 12, 24, 48, 96, 192, 128, 0, 0, 0, 0, 0, 0],
      [0, 0, 60, 102, 102, 102, 110, 118, 102, 102, 102, 60, 0, 0, 0, 0],
      [0, 0, 24, 56, 120, 24, 24, 24, 24, 24, 24, 126, 0, 0, 0, 0],
      [0, 0, 60, 102, 102, 6, 12, 24, 48, 96, 102, 126, 0, 0, 0, 0],
      [0, 0, 60, 102, 6, 6, 28, 6, 6, 6, 102, 60, 0, 0, 0, 0],
      [0, 0, 12, 28, 60, 108, 204, 254, 12, 12, 12, 30, 0, 0, 0, 0],
      [0, 0, 126, 96, 96, 96, 124, 6, 6, 6, 102, 60, 0, 0, 0, 0],
      [0, 0, 28, 48, 96, 96, 124, 102, 102, 102, 102, 60, 0, 0, 0, 0],
      [0, 0, 126, 102, 6, 12, 12, 24, 24, 24, 24, 24, 0, 0, 0, 0],
      [0, 0, 60, 102, 102, 102, 60, 102, 102, 102, 102, 60, 0, 0, 0, 0],
      [0, 0, 60, 102, 102, 102, 62, 6, 6, 6, 12, 56, 0, 0, 0, 0],
      [0, 0, 0, 0, 24, 24, 0, 0, 0, 24, 24, 0, 0, 0, 0, 0],
      [0, 0, 0, 0, 24, 24, 0, 0, 0, 24, 24, 48, 0, 0, 0, 0],
      [0, 0, 6, 12, 24, 48, 96, 48, 24, 12, 6, 0, 0, 0, 0, 0],
      [0, 0, 0, 0, 0, 126, 0, 0, 126, 0, 0, 0, 0, 0, 0, 0],
      [0, 0, 96, 48, 24, 12, 6, 12, 24, 48, 96, 0, 0, 0, 0, 0],
      [0, 0, 60, 102, 102, 6, 12, 24, 24, 0, 24, 24, 0, 0, 0, 0],
      [0, 0, 124, 198, 198, 222, 222, 222, 220, 192, 192, 124, 0, 0, 0, 0],
      [0, 0, 24, 60, 102, 102, 102, 126, 102, 102, 102, 102, 0, 0, 0, 0],
      [0, 0, 124, 102, 102, 102, 124, 102, 102, 102, 102, 124, 0, 0, 0, 0],
      [0, 0, 60, 102, 102, 96, 96, 96, 96, 102, 102, 60, 0, 0, 0, 0],
      [0, 0, 120, 108, 102, 102, 102, 102, 102, 102, 108, 120, 0, 0, 0, 0],
      [0, 0, 126, 96, 96, 96, 124, 96, 96, 96, 96, 126, 0, 0, 0, 0],
      [0, 0, 126, 96, 96, 96, 124, 96, 96, 96, 96, 96, 0, 0, 0, 0],
      [0, 0, 60, 102, 102, 96, 96, 110, 102, 102, 102, 62, 0, 0, 0, 0],
      [0, 0, 102, 102, 102, 102, 126, 102, 102, 102, 102, 102, 0, 0, 0, 0],
      [0, 0, 60, 24, 24, 24, 24, 24, 24, 24, 24, 60, 0, 0, 0, 0],
      [0, 0, 30, 12, 12, 12, 12, 12, 12, 108, 108, 56, 0, 0, 0, 0],
      [0, 0, 102, 102, 108, 108, 120, 120, 108, 108, 102, 102, 0, 0, 0, 0],
      [0, 0, 96, 96, 96, 96, 96, 96, 96, 96, 96, 126, 0, 0, 0, 0],
      [0, 0, 198, 238, 254, 254, 214, 198, 198, 198, 198, 198, 0, 0, 0, 0],
      [0, 0, 102, 102, 118, 118, 126, 110, 110, 102, 102, 102, 0, 0, 0, 0],
      [0, 0, 60, 102, 102, 102, 102, 102, 102, 102, 102, 60, 0, 0, 0, 0],
      [0, 0, 124, 102, 102, 102, 124, 96, 96, 96, 96, 96, 0, 0, 0, 0],
      [0, 0, 60, 102, 102, 102, 102, 102, 102, 118, 108, 60, 6, 0, 0, 0],
      [0, 0, 124, 102, 102, 102, 124, 120, 108, 102, 102, 102, 0, 0, 0, 0],
      [0, 0, 60, 102, 96, 96, 60, 6, 6, 6, 102, 60, 0, 0, 0, 0],
      [0, 0, 126, 24, 24, 24, 24, 24, 24, 24, 24, 24, 0, 0, 0, 0],
      [0, 0, 102, 102, 102, 102, 102, 102, 102, 102, 102, 60, 0, 0, 0, 0],
      [0, 0, 102, 102, 102, 102, 102, 102, 102, 60, 60, 24, 0, 0, 0, 0],
      [0, 0, 198, 198, 198, 198, 214, 254, 254, 238, 198, 198, 0, 0, 0, 0],
      [0, 0, 102, 102, 102, 60, 24, 60, 102, 102, 102, 102, 0, 0, 0, 0],
      [0, 0, 102, 102, 102, 102, 60, 24, 24, 24, 24, 24, 0, 0, 0, 0],
      [0, 0, 126, 6, 6, 12, 24, 48, 96, 96, 96, 126, 0, 0, 0, 0],
      [0, 0, 60, 48, 48, 48, 48, 48, 48, 48, 48, 60, 0, 0, 0, 0],
      [0, 0, 128, 192, 96, 48, 24, 12, 6, 2, 0, 0, 0, 0, 0, 0],
      [0, 0, 60, 12, 12, 12, 12, 12, 12, 12, 12, 60, 0, 0, 0, 0],
      [0, 24, 60, 102, 0, 0, 0, 0, 0, 0, 0, 0, 0, 0, 0, 0],
      [0, 0, 0, 0, 0, 0, 0, 0, 0, 0, 0, 0, 255, 0, 0, 0],
      [0, 48, 24, 12, 0, 0, 0, 0, 0, 0, 0, 0, 0, 0, 0, 0],
      [0, 0, 0, 0, 0, 60, 6, 62, 102, 102, 102, 62, 0, 0, 0, 0],
      [0, 0, 96, 96, 96, 124, 102, 102, 102, 102, 102, 124, 0, 0, 0, 0],
      [0, 0, 0, 0, 0, 60, 102, 96, 96, 96, 102, 60, 0, 0, 0, 0],
      [0, 0, 6, 6, 6, 62, 102, 102, 102, 102, 102, 62, 0, 0, 0, 0],
      [0, 0, 0, 0, 0, 60, 102, 102, 126, 96, 96, 60, 0, 0, 0, 0],
      [0, 0, 28, 54, 48, 48, 124, 48, 48, 48, 48, 48, 0, 0, 0, 0],
      [0, 0, 0, 0, 0, 62, 102, 102, 102, 102, 62, 6, 102, 60, 0, 0],
      [0, 0, 96, 96, 96, 124, 102, 102, 102, 102, 102, 102, 0, 0, 0, 0],
      [0, 0, 24, 24, 0, 56, 24, 24, 24, 24, 24, 60, 0, 0, 0, 0],
      [0, 0, 12, 12, 0, 28, 12, 12, 12, 12, 12, 108, 108, 56, 0, 0],
      [0, 0, 96, 96, 96, 102, 108, 120, 120, 108, 102, 102, 0, 0, 0, 0],
      [0, 0, 56, 24, 24, 24, 24, 24, 24, 24, 24, 60, 0, 0, 0, 0],
      [0, 0, 0, 0, 0, 236, 254, 214, 214, 198, 198, 198, 0, 0, 0, 0],
      [0, 0, 0, 0, 0, 124, 102, 102, 102, 102, 102, 102, 0, 0, 0, 0],
      [0, 0, 0, 0, 0, 60, 102, 102, 102, 102, 102, 60, 0, 0, 0, 0],
      [0, 0, 0, 0, 0, 124, 102, 102, 102, 102, 124, 96, 96, 96, 0, 0],
      [0, 0, 0, 0, 0, 62, 102, 102, 102, 102, 62, 6, 6, 6, 0, 0],
      [0, 0, 0, 0, 0, 124, 102, 96, 96, 96, 96, 96, 0, 0, 0, 0],
      [0, 0, 0, 0, 0, 60, 102, 96, 60, 6, 102, 60, 0, 0, 0, 0],
      [0, 0, 48, 48, 48, 124, 48, 48, 48, 48, 54, 28, 0, 0, 0, 0],
      [0, 0, 0, 0, 0, 102, 102, 102, 102, 102, 102, 62, 0, 0, 0, 0],
      [0, 0, 0, 0, 0, 102, 102, 102, 102, 102, 60, 24, 0, 0, 0, 0],
      [0, 0, 0, 0, 0, 198, 198, 214, 214, 254, 238, 198, 0, 0, 0, 0],
      [0, 0, 0, 0, 0, 102, 102, 60, 24, 60, 102, 102, 0, 0, 0, 0],
      [0, 0, 0, 0, 0, 102, 102, 102, 102, 102, 62, 6, 102, 60, 0, 0],
      [0, 0, 0, 0, 0, 126, 6, 12, 24, 48, 96, 126, 0, 0, 0, 0],
      [0, 0, 14, 24, 24, 24, 112, 24, 24, 24, 24, 14, 0, 0, 0, 0],
      [0, 0, 24, 24, 24, 24, 24, 24, 24, 24, 24, 24, 0, 0, 0, 0],
      [0, 0, 112, 24, 24, 24, 14, 24, 24, 24, 24, 112, 0, 0, 0, 0],
      [0, 0, 118, 220, 0, 0, 0, 0, 0, 0, 0, 0, 0, 0, 0, 0]] @
     replicate 129 (replicate 16 0)"

record renderer =
  rn_cursor_visible :: bool
  rn_cursor_blink_count :: nat
  rn_cursor_blink_rate :: nat
  rn_last_cursor_pos :: "(nat \<times> nat) option"

definition Renderer_new :: renderer where
  "Renderer_new = \<lparr>rn_cursor_visible = True, rn_cursor_blink_count = 0, rn_cursor_blink_rate = 30, rn_last_cursor_pos = None\<rparr>"

text \<open>The characters of the cells are bytes, so each has a glyph of its own.\<close>

definition glyph_bits :: "byte \<Rightarrow> byte \<Rightarrow> nat \<Rightarrow> byte" where
  "glyph_bits ch flags row =
     (let bits = FONT_8X16 ! unat ch ! row in if flags_contains flags BOLD then bits OR drop_bit 1 bits else bits)"

definition draw_glyph :: "nat \<Rightarrow> nat \<Rightarrow> byte \<Rightarrow> color \<Rightarrow> byte \<Rightarrow> framebuffer \<Rightarrow> framebuffer" where
  "draw_glyph x y ch fg flags =
     fold (\<lambda>row. let bits = glyph_bits ch flags row in
       fold (\<lambda>col fb. if drop_bit (7 - col) bits AND 1 \<noteq> 0 then set_pixel (wrap32 (x + col)) (wrap32 (y + row)) fg fb else fb) [0..<8]) [0..<16]"

definition render_cell :: "nat \<Rightarrow> nat \<Rightarrow> cell \<Rightarrow> framebuffer \<Rightarrow> framebuffer" where
  "render_cell col row c fb =
     (let x = wrap32 (wrap32 col * FONT_WIDTH); y = wrap32 (wrap32 row * FONT_HEIGHT); fg = effective_fg c; bg = effective_bg c;
          fb = fill_rect x y FONT_WIDTH FONT_HEIGHT bg fb;
          fb = (if ce_ch c \<noteq> 0x20 \<and> \<not> is_wide_spacer c then draw_glyph x y (ce_ch c) fg (ce_flags c) fb else fb);
          fb = (if flags_contains (ce_flags c) UNDERLINE then fill_rect x (wrap32 (y + FONT_HEIGHT - 1)) FONT_WIDTH 1 fg fb else fb) in
      if flags_contains (ce_flags c) STRIKETHROUGH then fill_rect x (wrap32 (y + FONT_HEIGHT div 2)) FONT_WIDTH 1 fg fb else fb)"

definition render_cursor :: "nat \<Rightarrow> nat \<Rightarrow> grid \<Rightarrow> framebuffer \<Rightarrow> framebuffer" where
  "render_cursor col row g fb =
     (let x = wrap32 (wrap32 col * FONT_WIDTH); y = wrap32 (wrap32 row * FONT_HEIGHT);
          fg = (case grid_get col row g of Some c \<Rightarrow> effective_fg c | None \<Rightarrow> WHITE) in
      fill_rect x (wrap32 (y + FONT_HEIGHT - 2)) FONT_WIDTH 2 fg fb)"

text \<open>\<open>if let Some(cell) = grid.get(col, row) { self.render_cell(..) }\<close>, a row of them, and the cursor.\<close>

definition render_at :: "grid \<Rightarrow> nat \<Rightarrow> nat \<Rightarrow> framebuffer \<Rightarrow> framebuffer" where
  "render_at g row col fb = (case grid_get col row g of Some c \<Rightarrow> render_cell col row c fb | None \<Rightarrow> fb)"

definition render_row :: "grid \<Rightarrow> nat \<Rightarrow> framebuffer \<Rightarrow> framebuffer" where
  "render_row g row = fold (render_at g row) [0..<gr_cols g]"

definition draw_cursor :: "renderer \<Rightarrow> grid \<Rightarrow> (nat \<times> nat) option \<Rightarrow> framebuffer \<Rightarrow> framebuffer" where
  "draw_cursor r g cursor fb =
     (case cursor of Some (cx, cy) \<Rightarrow> if rn_cursor_visible r then render_cursor cx cy g fb else fb | None \<Rightarrow> fb)"

definition render_full :: "grid \<Rightarrow> (nat \<times> nat) option \<Rightarrow> renderer \<times> framebuffer \<Rightarrow> renderer \<times> framebuffer" where
  "render_full g cursor = (\<lambda>(r, fb).
     let fb = fb_clear (gr_default_bg g) fb;
         fb = fold (render_row g) [0..<gr_rows g] fb;
         fb = draw_cursor r g cursor fb in
     (r\<lparr>rn_last_cursor_pos := cursor\<rparr>, fb))"

definition erase_old_cursor :: "grid \<Rightarrow> (nat \<times> nat) option \<Rightarrow> renderer \<Rightarrow> framebuffer \<Rightarrow> framebuffer" where
  "erase_old_cursor g cursor r fb =
     (case rn_last_cursor_pos r of
        Some (old_col, old_row) \<Rightarrow> if cursor \<noteq> rn_last_cursor_pos r then render_at g old_row old_col fb else fb
      | None \<Rightarrow> fb)"

definition render_dirty :: "(nat \<times> nat) option \<Rightarrow> renderer \<times> framebuffer \<times> grid \<Rightarrow> (renderer \<times> framebuffer \<times> grid) pan" where
  "render_dirty cursor = (\<lambda>(r, fb, g).
     if needs_full_redraw g
     then let (r, fb) = render_full g cursor (r, fb) in
          rbind (mark_all_clean g) (\<lambda>g. Ok (r\<lparr>rn_last_cursor_pos := cursor\<rparr>, fb, g))
     else
       let fb = erase_old_cursor g cursor r fb in
       rbind (for_res (\<lambda>row (fb, g). if is_row_dirty row g
           then rbind (mark_row_clean row g) (\<lambda>g'. Ok (render_row g row fb, g'))
           else Ok (fb, g)) [0..<gr_rows g] (fb, g)) (\<lambda>(fb, g).
       Ok (r\<lparr>rn_last_cursor_pos := cursor\<rparr>, draw_cursor r g cursor fb, g)))"

definition tick_cursor :: "renderer \<Rightarrow> bool \<times> renderer" where
  "tick_cursor r = (True, r\<lparr>rn_cursor_visible := \<not> rn_cursor_visible r\<rparr>)"

definition render_cursor_cell :: "nat \<Rightarrow> nat \<Rightarrow> grid \<Rightarrow> renderer \<times> framebuffer \<Rightarrow> renderer \<times> framebuffer" where
  "render_cursor_cell col row g = (\<lambda>(r, fb).
     let fb = erase_old_cursor g (Some (col, row)) r fb;
         fb = render_at g row col fb;
         fb = (if rn_cursor_visible r then render_cursor col row g fb else fb) in
     (r\<lparr>rn_last_cursor_pos := Some (col, row)\<rparr>, fb))"

definition show_cursor :: "renderer \<Rightarrow> renderer" where
  "show_cursor r = r\<lparr>rn_cursor_visible := True, rn_cursor_blink_count := 0\<rparr>"

definition set_blink_rate :: "nat \<Rightarrow> renderer \<Rightarrow> renderer" where
  "set_blink_rate rate r = r\<lparr>rn_cursor_blink_rate := rate\<rparr>"

section \<open>What is on the screen\<close>

text \<open>A framebuffer whose rows do not overlap and whose offsets fit 32 bits, and the pixels it shows.\<close>

definition wf_fb :: "framebuffer \<Rightarrow> bool" where
  "wf_fb fb \<longleftrightarrow> (let i = fb_info fb in fi_pitch i mod 4 = 0 \<and> fi_width i \<le> fi_pitch i div 4 \<and> fi_height i * fi_pitch i < 2 ^ 32 \<and>
     fi_width i < 2 ^ 32 \<and> fi_height i < 2 ^ 32)"

definition on :: "framebuffer \<Rightarrow> nat \<Rightarrow> nat \<Rightarrow> bool" where
  "on fb x y \<longleftrightarrow> x < fi_width (fb_info fb) \<and> y < fi_height (fb_info fb)"

definition view :: "framebuffer \<Rightarrow> nat \<Rightarrow> nat \<Rightarrow> u32 option" where
  "view fb x y = (if on fb x y then Some (fb_buffer fb (y * (fi_pitch (fb_info fb) div 4) + x)) else None)"

lemma wrap32_small [simp]: "n < 2 ^ 32 \<Longrightarrow> wrap32 n = n"
  by (simp add: wrap32_def)

lemma offsets:
  assumes "wf_fb fb" and "on fb x y"
  defines "p \<equiv> fi_pitch (fb_info fb)"
  shows "wrap32 (wrap32 (y * p) div 4 + x) = y * (p div 4) + x" "wrap32 (wrap32 (y * (p div 4)) + x) = y * (p div 4) + x"
    "on fb x' y' \<Longrightarrow> y * (p div 4) + x = y' * (p div 4) + x' \<longleftrightarrow> x = x' \<and> y = y'"
proof -
  obtain q where q: "p = 4 * q" using assms(1) by (auto simp: wf_fb_def p_def Let_def)
  have w: "fi_width (fb_info fb) \<le> p div 4" and b: "fi_height (fb_info fb) * p < 2 ^ 32" using assms(1) by (simp_all add: wf_fb_def p_def Let_def)
  have x: "x < q" "y < fi_height (fb_info fb)" using assms(2) w q by (auto simp: on_def)
  have "Suc y * q \<le> fi_height (fb_info fb) * q" using x by (intro mult_le_mono1) simp
  then have "4 * (y * q + x) < 2 ^ 32" using x b q by (simp add: mult.commute)
  then have lim: "y * (4 * q) < 2 ^ 32" "y * q + x < 2 ^ 32" "y * q < 2 ^ 32" by (simp_all add: mult.commute)
  then show "wrap32 (wrap32 (y * p) div 4 + x) = y * (p div 4) + x" "wrap32 (wrap32 (y * (p div 4)) + x) = y * (p div 4) + x"
    by (simp_all add: q)
  show "y * (p div 4) + x = y' * (p div 4) + x' \<longleftrightarrow> x = x' \<and> y = y'" if "on fb x' y'"
  proof
    assume e: "y * (p div 4) + x = y' * (p div 4) + x'"
    have "x' < q" using that w q by (auto simp: on_def)
    then have "(y * q + x) div q = y" "(y' * q + x') div q = y'" using x by auto
    then show "x = x' \<and> y = y'" using e q by auto
  qed simp
qed

lemma set_pixel_info [simp]: "fb_info (set_pixel x y c fb) = fb_info fb"
  by (simp add: set_pixel_def Let_def)

lemma fill_rect_info [simp]: "fb_info (fill_rect x y w h c fb) = fb_info fb"
  by (simp add: fill_rect_def Let_def)

lemma same_info: "fb_info fb' = fb_info fb \<Longrightarrow> wf_fb fb' = wf_fb fb" "fb_info fb' = fb_info fb \<Longrightarrow> on fb' = on fb"
  by (auto simp: wf_fb_def on_def fun_eq_iff)

lemma info_keeps [simp]: "wf_fb (set_pixel x y c fb) = wf_fb fb" "on (set_pixel x y c fb) = on fb"
  "wf_fb (fill_rect x y w h c fb) = wf_fb fb" "on (fill_rect x y w h c fb) = on fb"
  using same_info [OF set_pixel_info] same_info [OF fill_rect_info] by auto

lemma view_set_pixel:
  assumes "wf_fb fb"
  shows "view (set_pixel x y c fb) px py = (if on fb px py \<and> px = x \<and> py = y then Some (pixel (fb_info fb) c) else view fb px py)"
proof (cases "on fb x y")
  case True
  then have s: "set_pixel x y c fb = fb\<lparr>fb_buffer := (fb_buffer fb)(y * (fi_pitch (fb_info fb) div 4) + x := pixel (fb_info fb) c)\<rparr>"
    using offsets(1) [OF assms True] by (auto simp: set_pixel_def on_def Let_def)
  show ?thesis using offsets(3) [OF assms True, of px py] by (auto simp: s view_def on_def)
qed (auto simp: set_pixel_def on_def Let_def not_less)

lemma fold_upd:
  "fold (\<lambda>py. fold (\<lambda>px b. b(g py px := v)) xs) ys b = (\<lambda>k. if \<exists>py \<in> set ys. \<exists>px \<in> set xs. k = g py px then v else b k)"
proof -
  have inner: "fold (\<lambda>px b. b(f px := v)) xs b = (\<lambda>k. if \<exists>px \<in> set xs. k = f px then v else b k)" for f and b :: "'a \<Rightarrow> 'b"
    by (induction xs arbitrary: b) (auto simp: fun_eq_iff)
  show ?thesis by (induction ys arbitrary: b) (auto simp: inner fun_eq_iff)
qed

lemma view_fill_rect:
  assumes wf: "wf_fb fb" and "x + w < 2 ^ 32" "y + h < 2 ^ 32"
  shows "view (fill_rect x y w h c fb) px py =
    (if on fb px py \<and> x \<le> px \<and> px < x + w \<and> y \<le> py \<and> py < y + h then Some (pixel (fb_info fb) c) else view fb px py)"
proof (cases "on fb px py")
  case True
  let ?p = "fi_pitch (fb_info fb) div 4"
  have "(\<exists>y' \<in> set [y..<min (y + h) (fi_height (fb_info fb))]. \<exists>x' \<in> set [x..<min (x + w) (fi_width (fb_info fb))].
      py * ?p + px = wrap32 (wrap32 (y' * ?p) + x')) = (x \<le> px \<and> px < x + w \<and> y \<le> py \<and> py < y + h)" (is "?l = ?r")
  proof
    assume ?l
    then obtain x' y' where xy: "x \<le> x'" "x' < x + w" "y \<le> y'" "y' < y + h" "on fb x' y'" "py * ?p + px = wrap32 (wrap32 (y' * ?p) + x')"
      by (auto simp: on_def)
    then show ?r using offsets(2) [OF wf xy(5)] offsets(3) [OF wf True xy(5)] by simp
  next
    assume ?r
    then show ?l using offsets(2) [OF wf True] True by (intro bexI [of _ py] bexI [of _ px]) (auto simp: on_def)
  qed
  then show ?thesis using True assms(2,3) by (simp add: view_def on_def fill_rect_def Let_def fold_upd del: set_upt)
qed (simp add: view_def)

section \<open>Cells\<close>

lemma fold_info: "(\<And>i fb. fb_info (f i fb) = fb_info fb) \<Longrightarrow> fb_info (fold f is fb) = fb_info fb"
  by (induction "is" arbitrary: fb) simp_all

text \<open>A loop whose steps each paint the pixels of a set, in a colour that does not depend on the step.\<close>

lemma view_fold:
  assumes step: "\<And>i fb. i \<in> set is \<Longrightarrow> wf_fb fb \<Longrightarrow> fb_info fb = fi \<Longrightarrow> fb_info (f i fb) = fi \<and>
      (\<forall>px py. view (f i fb) px py = (if on fb px py \<and> P i px py then Some (v px py) else view fb px py))"
    and "wf_fb fb" and "fb_info fb = fi"
  shows "fb_info (fold f is fb) = fi \<and>
    view (fold f is fb) px py = (if on fb px py \<and> (\<exists>i \<in> set is. P i px py) then Some (v px py) else view fb px py)"
  using assms
proof (induction "is" arbitrary: fb)
  case (Cons i "is")
  have s: "fb_info (f i fb) = fb_info fb" "view (f i fb) px py = (if on fb px py \<and> P i px py then Some (v px py) else view fb px py)"
    using Cons.prems(1) [of i fb] Cons.prems(2,3) by auto
  have "fb_info (fold f is (f i fb)) = fi \<and>
      view (fold f is (f i fb)) px py = (if on fb px py \<and> (\<exists>i \<in> set is. P i px py) then Some (v px py) else view (f i fb) px py)"
    using Cons.IH [of "f i fb"] Cons.prems same_info [OF s(1)] s(1) by simp
  then show ?case using s(2) by auto
qed auto

lemma bit_test: "drop_bit n (b :: byte) AND 1 \<noteq> 0 \<longleftrightarrow> bit b n"
  by (simp add: and_one_eq bit_iff_odd_drop_bit odd_iff_mod_2_eq_one)

lemma view_draw_glyph:
  assumes "wf_fb fb" and "X + 8 < 2 ^ 32" "Y + 16 < 2 ^ 32"
  shows "fb_info (draw_glyph X Y ch fg flags fb) = fb_info fb \<and>
    view (draw_glyph X Y ch fg flags fb) px py = (if on fb px py \<and> X \<le> px \<and> px < X + 8 \<and> Y \<le> py \<and> py < Y + 16 \<and>
      bit (glyph_bits ch flags (py - Y)) (7 - (px - X)) then Some (pixel (fb_info fb) fg) else view fb px py)"
proof -
  let ?B = "glyph_bits ch flags"
  define f where "f row = fold (\<lambda>col fb. if drop_bit (7 - col) (?B row) AND 1 \<noteq> 0 then set_pixel (wrap32 (X + col)) (wrap32 (Y + row)) fg fb else fb) [0..<8]"
    for row
  have row: "fb_info (f row fb') = fb_info fb \<and> view (f row fb') px py = (if on fb' px py \<and>
      (\<exists>col \<in> set [0..<8]. bit (?B row) (7 - col) \<and> px = X + col \<and> py = Y + row) then Some (pixel (fb_info fb) fg) else view fb' px py)"
    if "row \<in> set [0..<16]" "wf_fb fb'" "fb_info fb' = fb_info fb" for row fb' px py
    unfolding f_def
    by (rule view_fold [of _ "fb_info fb" _ "\<lambda>col px py. bit (?B row) (7 - col) \<and> px = X + col \<and> py = Y + row" "\<lambda>_ _. pixel (fb_info fb) fg"])
      (use that assms in \<open>auto simp: bit_test view_set_pixel\<close>)
  have "fb_info (fold f [0..<16] fb) = fb_info fb \<and> view (fold f [0..<16] fb) px py = (if on fb px py \<and>
      (\<exists>row \<in> set [0..<16]. \<exists>col \<in> set [0..<8]. bit (?B row) (7 - col) \<and> px = X + col \<and> py = Y + row) then Some (pixel (fb_info fb) fg) else view fb px py)"
    by (rule view_fold [of _ "fb_info fb" f "\<lambda>row px py. \<exists>col \<in> set [0..<8]. bit (?B row) (7 - col) \<and> px = X + col \<and> py = Y + row"
        "\<lambda>_ _. pixel (fb_info fb) fg"]) (use row assms(1) in auto)
  moreover have "(\<exists>row \<in> set [0..<16]. \<exists>col \<in> set [0..<8]. bit (?B row) (7 - col) \<and> px = X + col \<and> py = Y + row) \<longleftrightarrow>
      X \<le> px \<and> px < X + 8 \<and> Y \<le> py \<and> py < Y + 16 \<and> bit (?B (py - Y)) (7 - (px - X))"
    (is "?l = ?r")
  proof
    assume ?r
    then show ?l by (intro bexI [of _ "py - Y"] bexI [of _ "px - X"]) auto
  qed auto
  moreover have "draw_glyph X Y ch fg flags fb = fold f [0..<16] fb" by (simp add: draw_glyph_def f_def [abs_def] Let_def del: upt.simps upt_conv_Cons)
  ultimately show ?thesis by (simp del: upt.simps upt_conv_Cons)
qed


text \<open>The pixels of a cell.\<close>

definition cell_pixel :: "cell \<Rightarrow> nat \<Rightarrow> nat \<Rightarrow> color" where
  "cell_pixel c dx dy =
     (if flags_contains (ce_flags c) STRIKETHROUGH \<and> dy = 8 \<or> flags_contains (ce_flags c) UNDERLINE \<and> dy = 15 \<or>
         ce_ch c \<noteq> 0x20 \<and> \<not> is_wide_spacer c \<and> bit (glyph_bits (ce_ch c) (ce_flags c) dy) (7 - dx)
      then effective_fg c else effective_bg c)"

lemma in_block: "8 * col \<le> px \<and> px < 8 * col + 8 \<longleftrightarrow> px div 8 = col" "16 * row \<le> py \<and> py < 16 * row + 16 \<longleftrightarrow> py div 16 = row"
  for px py col row :: nat
  by auto

lemma in_lines:
  fixes row k n py :: nat
  assumes "k + n \<le> 16"
  shows "16 * row + k \<le> py \<and> py < 16 * row + k + n \<longleftrightarrow> py div 16 = row \<and> k \<le> py mod 16 \<and> py mod 16 < k + n"
proof (cases "py div 16 = row")
  case True
  then have "py = 16 * row + py mod 16" using mult_div_mod_eq [of 16 py] by simp
  then show ?thesis using True by linarith
next
  case False
  then show ?thesis using in_block(2) [of row py] assms by linarith
qed

lemma view_fill_lines:
  assumes "wf_fb fb" and "col < 160" "row < 50" and k: "k + n \<le> 16"
  shows "view (fill_rect (8 * col) (16 * row + k) 8 n c fb) px py = (if on fb px py \<and> px div 8 = col \<and> py div 16 = row \<and> k \<le> py mod 16 \<and>
    py mod 16 < k + n then Some (pixel (fb_info fb) c) else view fb px py)"
proof -
  have e: "8 * col \<le> px \<and> px < 8 * col + 8 \<and> 16 * row + k \<le> py \<and> py < 16 * row + k + n \<longleftrightarrow>
      px div 8 = col \<and> py div 16 = row \<and> k \<le> py mod 16 \<and> py mod 16 < k + n"
    using in_block(1) in_lines [OF k] by blast
  have "8 * col + 8 < 2 ^ 32" "16 * row + k + n < 2 ^ 32" using assms by simp_all
  from view_fill_rect [OF assms(1) this, of c px py] show ?thesis unfolding e .
qed

text \<open>The pixels that \<open>render_cell\<close> paints after the background.\<close>

lemma view_cell_glyph:
  assumes "wf_fb fb" and "col < 160" "row < 50"
  shows "fb_info (draw_glyph (8 * col) (16 * row) ch fg flags fb) = fb_info fb \<and> view (draw_glyph (8 * col) (16 * row) ch fg flags fb) px py =
    (if on fb px py \<and> px div 8 = col \<and> py div 16 = row \<and> bit (glyph_bits ch flags (py mod 16)) (7 - px mod 8)
     then Some (pixel (fb_info fb) fg) else view fb px py)"
proof -
  have m: "py div 16 = row \<Longrightarrow> py - 16 * row = py mod 16" "px div 8 = col \<Longrightarrow> px - 8 * col = px mod 8"
    using div_mult_mod_eq [of py 16] div_mult_mod_eq [of px 8] by auto
  have e: "8 * col \<le> px \<and> px < 8 * col + 8 \<and> 16 * row \<le> py \<and> py < 16 * row + 16 \<and> bit (glyph_bits ch flags (py - 16 * row)) (7 - (px - 8 * col))
      \<longleftrightarrow> px div 8 = col \<and> py div 16 = row \<and> bit (glyph_bits ch flags (py mod 16)) (7 - px mod 8)"
    using in_block(1) [of col px] in_block(2) [of row py] m by metis
  have "8 * col + 8 < 2 ^ 32" "16 * row + 16 < 2 ^ 32" using assms by simp_all
  from view_draw_glyph [OF assms(1) this, of ch fg flags px py] show ?thesis unfolding e .
qed

lemma view_render_cell:
  assumes wf: "wf_fb fb" and lim: "col < 160" "row < 50"
  shows "fb_info (render_cell col row c fb) = fb_info fb \<and> view (render_cell col row c fb) px py =
    (if on fb px py \<and> px div 8 = col \<and> py div 16 = row then Some (pixel (fb_info fb) (cell_pixel c (px mod 8) (py mod 16))) else view fb px py)"
proof -
  let ?X = "8 * col" and ?Y = "16 * row" and ?i = "fb_info fb" and ?fg = "effective_fg c" and ?bg = "effective_bg c"
  define inb where "inb \<longleftrightarrow> on fb px py \<and> px div 8 = col \<and> py div 16 = row"
  define f1 where "f1 = fill_rect ?X (?Y + 0) 8 16 ?bg fb"
  define f2 where "f2 = (if ce_ch c \<noteq> 0x20 \<and> \<not> is_wide_spacer c then draw_glyph ?X ?Y (ce_ch c) ?fg (ce_flags c) f1 else f1)"
  define f3 where "f3 = (if flags_contains (ce_flags c) UNDERLINE then fill_rect ?X (?Y + 15) 8 1 ?fg f2 else f2)"
  define f4 where "f4 = (if flags_contains (ce_flags c) STRIKETHROUGH then fill_rect ?X (?Y + 8) 8 1 ?fg f3 else f3)"
  have r: "render_cell col row c fb = f4"
    using lim by (simp add: render_cell_def Let_def FONT_WIDTH_def FONT_HEIGHT_def f4_def f3_def f2_def f1_def mult.commute add.commute)
  have i1: "fb_info f1 = ?i" by (simp add: f1_def)
  have v1: "view f1 px py = (if inb then Some (pixel ?i ?bg) else view fb px py)"
    unfolding f1_def inb_def by (subst view_fill_lines [OF wf lim]) simp_all
  note o1 = same_info(2) [OF i1]
  note g = view_cell_glyph [OF same_info(1) [OF i1, THEN iffD2, OF wf] lim, of "ce_ch c" ?fg "ce_flags c" px py, unfolded i1 o1]
  have i2: "fb_info f2 = ?i" using g i1 by (simp add: f2_def)
  have v2: "view f2 px py = (if inb \<and> ce_ch c \<noteq> 0x20 \<and> \<not> is_wide_spacer c \<and> bit (glyph_bits (ce_ch c) (ce_flags c) (py mod 16)) (7 - px mod 8)
      then Some (pixel ?i ?fg) else view f1 px py)" using g by (simp add: f2_def inb_def)
  have line: "view (fill_rect ?X (?Y + k) 8 1 ?fg f) px py = (if inb \<and> py mod 16 = k then Some (pixel ?i ?fg) else view f px py)"
    if "fb_info f = ?i" "k < 16" for f k
    using view_fill_lines [OF same_info(1) [OF that(1), THEN iffD2, OF wf] lim, of k 1 ?fg px py] that same_info(2) [OF that(1)]
    by (simp add: inb_def le_less_Suc_eq conj_assoc)
  have i3: "fb_info f3 = ?i" using i2 by (simp add: f3_def)
  have v3: "view f3 px py = (if inb \<and> flags_contains (ce_flags c) UNDERLINE \<and> py mod 16 = 15 then Some (pixel ?i ?fg) else view f2 px py)"
    using line [OF i2, of 15] by (simp add: f3_def)
  have v4: "view f4 px py = (if inb \<and> flags_contains (ce_flags c) STRIKETHROUGH \<and> py mod 16 = 8 then Some (pixel ?i ?fg) else view f3 px py)"
    using line [OF i3, of 8] by (simp add: f4_def)
  have "fb_info f4 = ?i" using i3 by (simp add: f4_def)
  moreover have "view f4 px py = (if inb then Some (pixel ?i (cell_pixel c (px mod 8) (py mod 16))) else view fb px py)"
    unfolding v4 v3 v2 v1 cell_pixel_def by (simp split: if_split)
  ultimately show ?thesis unfolding r inb_def by simp
qed

section \<open>Pictures\<close>

text \<open>What a framebuffer should show of a grid, with a cursor or without: every cell in its block, the default
  background elsewhere, and the cursor in the last two lines of its block.\<close>

definition background :: "grid \<Rightarrow> nat \<Rightarrow> nat \<Rightarrow> color" where
  "background g px py =
     (case grid_get (px div 8) (py div 16) g of Some c \<Rightarrow> cell_pixel c (px mod 8) (py mod 16) | None \<Rightarrow> gr_default_bg g)"

definition in_cursor :: "(nat \<times> nat) option \<Rightarrow> nat \<Rightarrow> nat \<Rightarrow> bool" where
  "in_cursor cur px py \<longleftrightarrow> cur = Some (px div 8, py div 16) \<and> 14 \<le> py mod 16"

definition cursor_color :: "grid \<Rightarrow> nat \<Rightarrow> nat \<Rightarrow> color" where
  "cursor_color g px py = (case grid_get (px div 8) (py div 16) g of Some c \<Rightarrow> effective_fg c | None \<Rightarrow> WHITE)"

definition displays :: "framebuffer \<Rightarrow> grid \<Rightarrow> (nat \<times> nat) option \<Rightarrow> bool" where
  "displays fb g cur \<longleftrightarrow> (\<forall>px py. on fb px py \<longrightarrow>
     view fb px py = Some (pixel (fb_info fb) (if in_cursor cur px py then cursor_color g px py else background g px py)))"

definition inside :: "grid \<Rightarrow> nat \<Rightarrow> nat \<Rightarrow> bool" where
  "inside g px py \<longleftrightarrow> px div 8 < gr_cols g \<and> py div 16 < gr_rows g"

lemma view_render_at:
  assumes "wf_fb fb" and "wf_grid g"
  shows "fb_info (render_at g row col fb) = fb_info fb \<and> view (render_at g row col fb) px py =
    (if on fb px py \<and> px div 8 = col \<and> py div 16 = row \<and> inside g px py then Some (pixel (fb_info fb) (background g px py)) else view fb px py)"
proof (cases "col < gr_cols g \<and> row < gr_rows g")
  case True
  then have "col < 160" "row < 50" using assms(2) by (auto simp: wf_grid_def MAX_COLS_def MAX_ROWS_def)
  from view_render_cell [OF assms(1) this, of "gr_cells g ! row ! col" px py] True show ?thesis
    by (auto simp: render_at_def grid_get_def background_def inside_def)
qed (auto simp: render_at_def grid_get_def inside_def)

lemma view_render_row:
  assumes "wf_fb fb" and "wf_grid g"
  shows "fb_info (render_row g row fb) = fb_info fb \<and> view (render_row g row fb) px py =
    (if on fb px py \<and> py div 16 = row \<and> inside g px py then Some (pixel (fb_info fb) (background g px py)) else view fb px py)"
  using view_fold [of "[0..<gr_cols g]" "fb_info fb" "render_at g row" "\<lambda>col px py. px div 8 = col \<and> py div 16 = row \<and> inside g px py"
      "\<lambda>px py. pixel (fb_info fb) (background g px py)" fb px py] view_render_at [OF _ assms(2)] assms(1)
  by (auto simp: render_row_def inside_def)

lemma view_render_rows:
  assumes "wf_fb fb" and "wf_grid g"
  shows "fb_info (fold (render_row g) rows fb) = fb_info fb \<and> view (fold (render_row g) rows fb) px py =
    (if on fb px py \<and> py div 16 \<in> set rows \<and> inside g px py then Some (pixel (fb_info fb) (background g px py)) else view fb px py)"
  using view_fold [of rows "fb_info fb" "render_row g" "\<lambda>row px py. py div 16 = row \<and> inside g px py"
      "\<lambda>px py. pixel (fb_info fb) (background g px py)" fb px py] view_render_row [OF _ assms(2)] assms(1)
  by auto

text \<open>A cursor that a terminal can have: on the grid.\<close>

definition on_screen :: "grid \<Rightarrow> (nat \<times> nat) option \<Rightarrow> bool" where
  "on_screen g cur \<longleftrightarrow> (\<forall>cx cy. cur = Some (cx, cy) \<longrightarrow> cx < gr_cols g \<and> cy < gr_rows g)"

lemma view_draw_cursor:
  assumes "wf_fb fb" and "wf_grid g" and "on_screen g cur"
  shows "fb_info (draw_cursor r g cur fb) = fb_info fb \<and> view (draw_cursor r g cur fb) px py =
    (if on fb px py \<and> rn_cursor_visible r \<and> in_cursor cur px py then Some (pixel (fb_info fb) (cursor_color g px py)) else view fb px py)"
proof (cases "cur \<noteq> None \<and> rn_cursor_visible r")
  case True
  then obtain cx cy where cur: "cur = Some (cx, cy)" by auto
  then have lim: "cx < 160" "cy < 50" using assms(2,3) by (auto simp: on_screen_def wf_grid_def MAX_COLS_def MAX_ROWS_def)
  let ?fg = "case grid_get cx cy g of Some c \<Rightarrow> effective_fg c | None \<Rightarrow> WHITE"
  have d: "draw_cursor r g cur fb = fill_rect (8 * cx) (16 * cy + 14) 8 2 ?fg fb"
    using True lim by (simp add: cur draw_cursor_def render_cursor_def FONT_WIDTH_def FONT_HEIGHT_def Let_def mult.commute add.commute)
  have "py mod 16 < 14 + 2" using mod_less_divisor [of 16 py] by linarith
  then have "in_cursor cur px py \<longleftrightarrow> px div 8 = cx \<and> py div 16 = cy \<and> 14 \<le> py mod 16 \<and> py mod 16 < 14 + 2"
    unfolding in_cursor_def cur by blast
  moreover have "in_cursor cur px py \<Longrightarrow> ?fg = cursor_color g px py" by (simp add: in_cursor_def cur cursor_color_def)
  ultimately show ?thesis
    using view_fill_lines [OF assms(1) lim, of 14 2 ?fg px py] True unfolding d by simp
qed (auto simp: draw_cursor_def in_cursor_def split: option.splits)

text \<open>The cursor that is drawn: none while it is blinked off.\<close>

definition drawn :: "renderer \<Rightarrow> (nat \<times> nat) option \<Rightarrow> (nat \<times> nat) option" where
  "drawn r cur = (if rn_cursor_visible r then cur else None)"

lemma displays_draw_cursor:
  assumes "wf_fb fb" "wf_grid g" "on_screen g cur" "displays fb g None"
  shows "displays (draw_cursor r g cur fb) g (drawn r cur)"
  using view_draw_cursor [OF assms(1-3), of r] assms(4) same_info(2) [of "draw_cursor r g cur fb" fb]
  by (auto simp: displays_def drawn_def in_cursor_def)

lemma fb_clear_background:
  assumes "wf_fb fb"
  shows "fb_info (fb_clear c fb) = fb_info fb" "on fb px py \<Longrightarrow> view (fb_clear c fb) px py = Some (pixel (fb_info fb) c)"
  using view_fill_rect [OF assms, of 0 "fi_width (fb_info fb)" 0 "fi_height (fb_info fb)" c px py] assms
  by (auto simp: fb_clear_def on_def wf_fb_def Let_def)

lemma render_full_displays:
  assumes wf: "wf_fb fb" "wf_grid g" "on_screen g cur"
  shows "\<exists>fb'. render_full g cur (r, fb) = (r\<lparr>rn_last_cursor_pos := cur\<rparr>, fb') \<and> fb_info fb' = fb_info fb \<and> displays fb' g (drawn r cur)"
proof -
  define f1 where "f1 = fb_clear (gr_default_bg g) fb"
  define f2 where "f2 = fold (render_row g) [0..<gr_rows g] f1"
  have i1: "fb_info f1 = fb_info fb" by (simp add: f1_def fb_clear_background [OF wf(1)])
  have w1: "wf_fb f1" and o1: "on f1 = on fb" using same_info [OF i1] wf(1) by auto
  note rows = view_render_rows [OF w1 wf(2), of "[0..<gr_rows g]", folded f2_def, unfolded i1 o1]
  have w2: "wf_fb f2" and o2: "on f2 = on fb" using same_info [of f2 fb] rows wf(1) by auto
  have "view f2 px py = Some (pixel (fb_info f2) (background g px py))" if "on fb px py" for px py
  proof (cases "inside g px py")
    case True
    then show ?thesis using rows [of px py] that by (auto simp: inside_def)
  next
    case False
    then have "background g px py = gr_default_bg g" by (auto simp: background_def grid_get_def inside_def)
    then show ?thesis using rows [of px py] that False fb_clear_background(2) [OF wf(1) that] by (simp add: f1_def)
  qed
  then have "displays f2 g None" by (simp add: displays_def o2 in_cursor_def)
  then have "displays (draw_cursor r g cur f2) g (drawn r cur)" by (rule displays_draw_cursor [OF w2 wf(2,3)])
  moreover have "render_full g cur (r, fb) = (r\<lparr>rn_last_cursor_pos := cur\<rparr>, draw_cursor r g cur f2)"
    by (simp add: render_full_def f2_def f1_def Let_def)
  moreover have "fb_info (draw_cursor r g cur f2) = fb_info fb" using view_draw_cursor [OF w2 wf(2,3)] rows by simp
  ultimately show ?thesis by blast
qed

section \<open>Incremental rendering\<close>

lemma grid_get_dirty [simp]: "grid_get col row (g\<lparr>gr_dirty := d\<rparr>) = grid_get col row g"
  by (simp add: grid_get_def)

lemma render_row_dirty [simp]: "render_row (g\<lparr>gr_dirty := d\<rparr>) = render_row g"
proof -
  have "render_at (g\<lparr>gr_dirty := d\<rparr>) = render_at g" by (simp add: fun_eq_iff render_at_def)
  then show ?thesis by (intro ext) (simp add: render_row_def)
qed

lemma dirty_loop:
  assumes "wf_grid g" "distinct rows" "set rows \<subseteq> {0..<gr_rows g}"
  shows "\<exists>d. for_res (\<lambda>row (fb, g). if is_row_dirty row g then rbind (mark_row_clean row g) (\<lambda>g'. Ok (render_row g row fb, g')) else Ok (fb, g)) rows (fb, g) =
      Ok (fold (render_row g) (filter (\<lambda>row. gr_dirty g ! row) rows) fb, g\<lparr>gr_dirty := d\<rparr>) \<and> length d = MAX_ROWS \<and>
      (\<forall>row < MAX_ROWS. d ! row = (gr_dirty g ! row \<and> row \<notin> set rows))"
  using assms
proof (induction rows arbitrary: fb g)
  case Nil
  then show ?case by (auto simp: wf_grid_def intro!: exI [of _ "gr_dirty g"])
next
  case (Cons row rows)
  have row: "row < gr_rows g" "row < MAX_ROWS" "length (gr_dirty g) = MAX_ROWS" using Cons.prems by (auto simp: wf_grid_def)
  show ?case
  proof (cases "gr_dirty g ! row")
    case True
    let ?g = "g\<lparr>gr_dirty := (gr_dirty g)[row := False]\<rparr>"
    have "wf_grid ?g" using Cons.prems(1) by (simp add: wf_grid_def)
    then obtain d where d: "for_res (\<lambda>row (fb, g). if is_row_dirty row g then rbind (mark_row_clean row g) (\<lambda>g'. Ok (render_row g row fb, g')) else Ok (fb, g)) rows
          (render_row g row fb, ?g) =
        Ok (fold (render_row ?g) (filter (\<lambda>row. gr_dirty ?g ! row) rows) (render_row g row fb), ?g\<lparr>gr_dirty := d\<rparr>)" "length d = MAX_ROWS"
        "\<forall>row < MAX_ROWS. d ! row = (gr_dirty ?g ! row \<and> row \<notin> set rows)"
      using Cons.IH [of ?g "render_row g row fb"] Cons.prems by auto
    have "filter (\<lambda>r. gr_dirty ?g ! r) rows = filter (\<lambda>r. gr_dirty g ! r) rows"
    proof (rule filter_cong)
      fix r
      assume "r \<in> set rows"
      then have "row \<noteq> r" using Cons.prems(2) by auto
      then show "gr_dirty ?g ! r = gr_dirty g ! r" by simp
    qed simp
    moreover have "\<forall>r < MAX_ROWS. d ! r = (gr_dirty g ! r \<and> r \<notin> set (row # rows))"
      using d(3) row by (auto simp: nth_list_update)
    ultimately show ?thesis using d(1,2) True row
      by (intro exI [of _ d]) (simp add: is_row_dirty_def mark_row_clean_def put_dirty_def)
  next
    case False
    then show ?thesis using Cons.IH [of g fb] Cons.prems row by (auto simp: is_row_dirty_def)
  qed
qed


text \<open>The grids a picture may be out of date with: same size, same background.\<close>

definition same_frame :: "grid \<Rightarrow> grid \<Rightarrow> bool" where
  "same_frame g0 g \<longleftrightarrow> wf_grid g0 \<and> wf_grid g \<and> gr_cols g = gr_cols g0 \<and> gr_rows g = gr_rows g0 \<and> gr_default_bg g = gr_default_bg g0"

lemma unchanged_clean:
  assumes "same_frame g0 g" "accounted g0 g" "inside g px py \<Longrightarrow> \<not> gr_dirty g ! (py div 16)"
  shows "background g px py = background g0 px py" "cursor_color g px py = cursor_color g0 px py"
proof -
  have "grid_get (px div 8) (py div 16) g = grid_get (px div 8) (py div 16) g0"
  proof (cases "inside g px py")
    case True
    then have "py div 16 < MAX_ROWS" using assms(1) by (auto simp: inside_def same_frame_def wf_grid_def)
    then have "gr_cells g ! (py div 16) = gr_cells g0 ! (py div 16)" using assms(2,3) True by (simp add: accounted_def)
    then show ?thesis using assms(1) by (simp add: grid_get_def same_frame_def)
  qed (use assms(1) in \<open>auto simp: grid_get_def same_frame_def inside_def\<close>)
  then show "background g px py = background g0 px py" "cursor_color g px py = cursor_color g0 px py"
    using assms(1) by (simp_all add: background_def cursor_color_def same_frame_def split: option.split)
qed

lemma erase_view:
  assumes "wf_fb fb" "wf_grid g"
  shows "fb_info (erase_old_cursor g cur r fb) = fb_info fb \<and> view (erase_old_cursor g cur r fb) px py =
    (if on fb px py \<and> cur \<noteq> rn_last_cursor_pos r \<and> rn_last_cursor_pos r = Some (px div 8, py div 16) \<and> inside g px py
     then Some (pixel (fb_info fb) (background g px py)) else view fb px py)"
proof (cases "rn_last_cursor_pos r")
  case (Some p)
  obtain col row where "p = (col, row)" by (rule prod.exhaust)
  then show ?thesis using view_render_at [OF assms, of row col px py] Some by (auto simp: erase_old_cursor_def)
qed (simp add: erase_old_cursor_def)

text \<open>What the framebuffer shows of the rows that are not dirty.\<close>

definition shows_clean :: "framebuffer \<Rightarrow> grid \<Rightarrow> (nat \<times> nat) option \<Rightarrow> bool" where
  "shows_clean fb g cur \<longleftrightarrow> (\<forall>px py. on fb px py \<and> (inside g px py \<longrightarrow> \<not> gr_dirty g ! (py div 16)) \<longrightarrow>
     view fb px py = Some (pixel (fb_info fb) (if in_cursor cur px py then cursor_color g px py else background g px py)))"

lemma shows_clean_step:
  assumes "same_frame g0 g" "accounted g0 g" "shows_clean fb g0 cur"
  shows "shows_clean fb g cur"
proof -
  have i: "inside g = inside g0" using assms(1) by (simp add: fun_eq_iff inside_def same_frame_def)
  have c: "inside g0 px py \<longrightarrow> \<not> gr_dirty g0 ! (py div 16)" "cursor_color g px py = cursor_color g0 px py"
    "background g px py = background g0 px py" if "inside g px py \<longrightarrow> \<not> gr_dirty g ! (py div 16)" for px py
    using unchanged_clean [OF assms(1,2)] that assms(1,2) by (auto simp: i accounted_def same_frame_def wf_grid_def inside_def)
  show ?thesis unfolding shows_clean_def
  proof (intro allI impI)
    fix px py
    assume "on fb px py \<and> (inside g px py \<longrightarrow> \<not> gr_dirty g ! (py div 16))"
    then show "view fb px py = Some (pixel (fb_info fb) (if in_cursor cur px py then cursor_color g px py else background g px py))"
      using assms(3) c [of px py] by (simp add: shows_clean_def)
  qed
qed

lemma update_displays:
  assumes wf: "wf_fb fb" and g: "wf_grid g" and cur: "on_screen g c" "on_screen g c0"
    and shown: "shows_clean fb g (drawn r c0)" and last: "rn_last_cursor_pos r = c0"
  defines "f \<equiv> fold (render_row g) (filter (\<lambda>row. gr_dirty g ! row) [0..<gr_rows g]) (erase_old_cursor g c r fb)"
  shows "fb_info (draw_cursor r g c f) = fb_info fb \<and> displays (draw_cursor r g c f) g (drawn r c)"
proof -
  let ?e = "erase_old_cursor g c r fb"
  note e = erase_view [OF wf g, of c r]
  have we: "wf_fb ?e" "on ?e = on fb" using same_info [of ?e fb] e wf by auto
  note rows = view_render_rows [OF we(1) g, of "filter (\<lambda>row. gr_dirty g ! row) [0..<gr_rows g]", folded f_def, unfolded we(2) conjunct1 [OF e]]
  have wf': "wf_fb f" "on f = on fb" using same_info [of f fb] rows wf by auto
  note d = view_draw_cursor [OF wf'(1) g cur(1), of r, unfolded wf'(2) conjunct1 [OF rows]]
  have "view (draw_cursor r g c f) px py = Some (pixel (fb_info fb) (if in_cursor (drawn r c) px py then cursor_color g px py else background g px py))"
    if on: "on fb px py" for px py
  proof (cases "rn_cursor_visible r \<and> in_cursor c px py")
    case True
    then show ?thesis using d [of px py] on by (simp add: drawn_def)
  next
    case nc: False
    then have nd: "\<not> in_cursor (drawn r c) px py" by (auto simp: drawn_def in_cursor_def)
    have v: "view (draw_cursor r g c f) px py = view f px py" using d [of px py] nc by auto
    show ?thesis
    proof (cases "inside g px py \<and> (gr_dirty g ! (py div 16) \<or> c \<noteq> c0 \<and> c0 = Some (px div 8, py div 16))")
      case True
      then show ?thesis using rows [of px py] e [of px py] on nd v last by (auto simp: inside_def)
    next
      case False
      have "view f px py = view fb px py" using rows [of px py] e [of px py] False last by (auto simp: inside_def)
      moreover have "\<not> in_cursor (drawn r c0) px py"
      proof
        assume "in_cursor (drawn r c0) px py"
        then have "rn_cursor_visible r" "in_cursor c0 px py" "c0 = Some (px div 8, py div 16)" by (auto simp: drawn_def in_cursor_def split: if_splits)
        moreover have "inside g px py" using cur(2) calculation(3) by (simp add: on_screen_def inside_def)
        ultimately show False using False nc by auto
      qed
      ultimately show ?thesis using shown on v nd False by (auto simp: shows_clean_def)
    qed
  qed
  moreover have "fb_info (draw_cursor r g c f) = fb_info fb" using d by blast
  ultimately show ?thesis using same_info(2) [of "draw_cursor r g c f" fb] by (simp add: displays_def)
qed

lemma displays_clean [simp]: "displays fb (g\<lparr>gr_dirty := d, gr_full_redraw := b\<rparr>) cur = displays fb g cur" "displays fb (g\<lparr>gr_dirty := d\<rparr>) cur = displays fb g cur"
  by (simp_all add: displays_def background_def cursor_color_def grid_get_def)

lemma put_dirty_loop:
  "set rows \<subseteq> {0..<MAX_ROWS} \<Longrightarrow> length (gr_dirty g) = MAX_ROWS \<Longrightarrow>
    \<exists>d. for_res (\<lambda>row. put_dirty row b) rows g = Ok (g\<lparr>gr_dirty := d\<rparr>) \<and> length d = MAX_ROWS"
proof (induction rows arbitrary: g)
  case Nil
  then show ?case by (auto intro!: exI [of _ "gr_dirty g"])
next
  case (Cons row rows)
  then show ?case using Cons.IH [of "g\<lparr>gr_dirty := (gr_dirty g)[row := b]\<rparr>"] by (auto simp: put_dirty_def)
qed

lemma mark_all_ok:
  assumes "wf_grid g"
  shows "\<exists>d. mark_all_clean g = Ok (g\<lparr>gr_dirty := d, gr_full_redraw := False\<rparr>) \<and> length d = MAX_ROWS"
    "\<exists>d. mark_all_dirty g = Ok (g\<lparr>gr_dirty := d, gr_full_redraw := True\<rparr>) \<and> length d = MAX_ROWS"
  using put_dirty_loop [of "[0..<gr_rows g]" g] assms by (fastforce simp: mark_all_clean_def mark_all_dirty_def wf_grid_def)+

text \<open>The picture is up to date with a grid, apart from the dirty rows, or will be redrawn as a whole.\<close>

definition synced :: "renderer \<Rightarrow> framebuffer \<Rightarrow> grid \<Rightarrow> bool" where
  "synced r fb g \<longleftrightarrow> gr_full_redraw g \<or> shows_clean fb g (drawn r (rn_last_cursor_pos r)) \<and> on_screen g (rn_last_cursor_pos r)"

lemma synced_step: "same_frame g0 g \<Longrightarrow> accounted g0 g \<Longrightarrow> synced r fb g0 \<Longrightarrow> synced r fb g"
  using shows_clean_step by (auto simp: synced_def accounted_def on_screen_def same_frame_def)

lemma displays_synced: "displays fb g (drawn r c) \<Longrightarrow> on_screen g c \<Longrightarrow> synced (r\<lparr>rn_last_cursor_pos := c\<rparr>) fb (g\<lparr>gr_dirty := d, gr_full_redraw := False\<rparr>)"
  by (auto simp: synced_def displays_def shows_clean_def drawn_def on_screen_def background_def cursor_color_def grid_get_def)

lemma render_dirty_ok:
  assumes wf: "wf_fb fb" and g: "wf_grid g" and s: "synced r fb g" and c: "on_screen g c"
  shows "\<exists>fb' d. render_dirty c (r, fb, g) = Ok (r\<lparr>rn_last_cursor_pos := c\<rparr>, fb', g\<lparr>gr_dirty := d, gr_full_redraw := False\<rparr>) \<and>
    length d = MAX_ROWS \<and> fb_info fb' = fb_info fb \<and> displays fb' g (drawn r c)"
proof (cases "gr_full_redraw g")
  case True
  obtain fb' where "render_full g c (r, fb) = (r\<lparr>rn_last_cursor_pos := c\<rparr>, fb')" "fb_info fb' = fb_info fb" "displays fb' g (drawn r c)"
    using render_full_displays [OF wf g c, of r] by blast
  then show ?thesis using mark_all_ok(1) [OF g] True by (auto simp: render_dirty_def needs_full_redraw_def)
next
  case False
  have s: "shows_clean fb g (drawn r (rn_last_cursor_pos r))" "on_screen g (rn_last_cursor_pos r)"
    using s False by (auto simp: synced_def)
  let ?f = "fold (render_row g) (filter (\<lambda>row. gr_dirty g ! row) [0..<gr_rows g]) (erase_old_cursor g c r fb)"
  obtain d where d: "render_dirty c (r, fb, g) = Ok (r\<lparr>rn_last_cursor_pos := c\<rparr>, draw_cursor r (g\<lparr>gr_dirty := d\<rparr>) c ?f, g\<lparr>gr_dirty := d\<rparr>)" "length d = MAX_ROWS"
    using dirty_loop [OF g, of "[0..<gr_rows g]" "erase_old_cursor g c r fb"] False by (auto simp: render_dirty_def needs_full_redraw_def Let_def)
  have "draw_cursor r (g\<lparr>gr_dirty := d\<rparr>) c ?f = draw_cursor r g c ?f" by (simp add: draw_cursor_def render_cursor_def split: option.splits)
  moreover have "g\<lparr>gr_dirty := d\<rparr> = g\<lparr>gr_dirty := d, gr_full_redraw := False\<rparr>" using False by (cases g) simp
  ultimately show ?thesis using d update_displays [OF wf g c s(2,1) refl] by auto
qed

text \<open>Redrawing the cell of the cursor, after the cursor blinked or moved.\<close>

lemma render_cursor_cell_synced:
  assumes wf: "wf_fb fb" and g: "wf_grid g" and c: "on_screen g (Some (col, row))" and old: "on_screen g (rn_last_cursor_pos r)"
    and shown: "shows_clean fb g x" and x: "x = None \<or> x = rn_last_cursor_pos r"
  shows "\<exists>fb'. render_cursor_cell col row g (r, fb) = (r\<lparr>rn_last_cursor_pos := Some (col, row)\<rparr>, fb') \<and> fb_info fb' = fb_info fb \<and>
    shows_clean fb' g (drawn r (Some (col, row)))"
proof -
  define f1 where "f1 = erase_old_cursor g (Some (col, row)) r fb"
  define f2 where "f2 = render_at g row col f1"
  note e = erase_view [OF wf g, of "Some (col, row)" r, folded f1_def]
  have w1: "wf_fb f1" "on f1 = on fb" using same_info [of f1 fb] e wf by auto
  note a = view_render_at [OF w1(1) g, of row col, folded f2_def, unfolded w1(2) conjunct1 [OF e]]
  have w2: "wf_fb f2" "on f2 = on fb" using same_info [of f2 fb] a wf by auto
  note d = view_draw_cursor [OF w2(1) g c, of r, unfolded w2(2) conjunct1 [OF a]]
  have "view (draw_cursor r g (Some (col, row)) f2) px py =
      Some (pixel (fb_info fb) (if in_cursor (drawn r (Some (col, row))) px py then cursor_color g px py else background g px py))"
    if on: "on fb px py" and nd: "inside g px py \<longrightarrow> \<not> gr_dirty g ! (py div 16)" for px py
  proof (cases "rn_cursor_visible r \<and> in_cursor (Some (col, row)) px py")
    case True
    then show ?thesis using d [of px py] on by (simp add: drawn_def)
  next
    case False
    then have v: "view (draw_cursor r g (Some (col, row)) f2) px py = view f2 px py" "\<not> in_cursor (drawn r (Some (col, row))) px py"
      using d [of px py] by (auto simp: drawn_def in_cursor_def)
    show ?thesis
    proof (cases "inside g px py \<and> ((col, row) = (px div 8, py div 16) \<or> rn_last_cursor_pos r = Some (px div 8, py div 16))")
      case True
      then show ?thesis using v a [of px py] e [of px py] on by auto
    next
      case out: False
      have "\<not> in_cursor x px py" using out old x unfolding in_cursor_def on_screen_def inside_def by auto metis+
      moreover have "view f2 px py = view fb px py" using out a [of px py] e [of px py] by auto
      ultimately show ?thesis using v shown on nd by (simp add: shows_clean_def)
    qed
  qed
  moreover have i: "fb_info (draw_cursor r g (Some (col, row)) f2) = fb_info fb" using d by blast
  ultimately have "shows_clean (draw_cursor r g (Some (col, row)) f2) g (drawn r (Some (col, row)))"
    using same_info(2) [OF i] by (simp add: shows_clean_def)
  moreover have "render_cursor_cell col row g (r, fb) = (r\<lparr>rn_last_cursor_pos := Some (col, row)\<rparr>, draw_cursor r g (Some (col, row)) f2)"
    by (simp add: render_cursor_cell_def draw_cursor_def f2_def f1_def Let_def)
  ultimately show ?thesis using i by blast
qed

lemma displays_unique:
  "displays fb g c \<Longrightarrow> displays fb' g c \<Longrightarrow> fb_info fb' = fb_info fb \<Longrightarrow> view fb' = view fb"
  using same_info(2) [of fb' fb] by (intro ext) (auto simp: displays_def view_def)

text \<open>The cursor that \<open>ConsoleManager::render\<close> passes on.\<close>

definition render_pos :: "terminal \<Rightarrow> (nat \<times> nat) option" where
  "render_pos t = (if ts_cursor_visible (te_state t) then Some (terminal_cursor t) else None)"

lemma render_pos_on_screen: "wf_terminal w h t \<Longrightarrow> on_screen (te_grid t) (render_pos t)"
  using as_usize_cursor [OF wf_terminalD] by (fastforce simp: on_screen_def render_pos_def terminal_cursor_def wf_terminal_def)

lemma Grid_new_redraw: "Grid_new cols rows fg bg = Ok g \<Longrightarrow> gr_full_redraw g"
proof -
  have step: "put_cells row cs c g = Ok g' \<Longrightarrow> gr_full_redraw g' = gr_full_redraw g" for row cs c g g'
    unfolding put_cells_def by (induction cs arbitrary: g) (auto simp: put_cell_def split: if_splits)
  have "for_res (\<lambda>row. put_cells row cs c) rs g = Ok g' \<Longrightarrow> gr_full_redraw g' = gr_full_redraw g" for cs c rs g g'
    by (induction rs arbitrary: g) (auto dest!: step)
  then show "Grid_new cols rows fg bg = Ok g \<Longrightarrow> gr_full_redraw g" by (fastforce simp: Grid_new_def Let_def)
qed

section \<open>Properties\<close>

text \<open>C21. Redrawing the dirty rows is as good as redrawing everything. If the framebuffer is up to date with a
  terminal (or a full redraw is pending, as for a new one) and the terminal then processes any bytes at all, then
  the dirty-row renderer does not panic, and every pixel it leaves on the screen is the pixel that a full redraw of
  the new contents produces, the cursor included; afterwards the framebuffer is up to date again.\<close>

theorem incremental_rendering_exact:
  assumes wf: "wf_terminal w h t" and fb: "wf_fb fb" and s: "synced r fb (te_grid t)"
  shows "\<exists>t' r' fb' g'. process_bytes bs t = Ok t' \<and> render_dirty (render_pos t') (r, fb, te_grid t') = Ok (r', fb', g') \<and>
    (\<forall>fb0. wf_fb fb0 \<and> fb_info fb0 = fb_info fb \<longrightarrow> view fb' = view (snd (render_full (te_grid t') (render_pos t') (r, fb0)))) \<and>
    wf_terminal w h (t'\<lparr>te_grid := g'\<rparr>) \<and> wf_fb fb' \<and> synced r' fb' g'"
proof -
  obtain t' where t': "process_bytes bs t = Ok t'" "tracks (te_grid t) w h t'"
    using process_bytes_returns [OF tracks_refl [OF wf], of bs] by (auto simp: returns_def)
  have wf': "wf_terminal w h t'" using t'(2) by (simp add: tracks_def)
  have fr: "same_frame (te_grid t) (te_grid t')" "accounted (te_grid t) (te_grid t')"
    using t'(2) wf by (auto simp: tracks_def same_frame_def wf_terminal_def)
  note c = render_pos_on_screen [OF wf']
  obtain fb' d where d: "render_dirty (render_pos t') (r, fb, te_grid t') =
      Ok (r\<lparr>rn_last_cursor_pos := render_pos t'\<rparr>, fb', te_grid t'\<lparr>gr_dirty := d, gr_full_redraw := False\<rparr>)" "length d = MAX_ROWS"
      "fb_info fb' = fb_info fb" "displays fb' (te_grid t') (drawn r (render_pos t'))"
    using render_dirty_ok [OF fb _ synced_step [OF fr s] c] fr(1) by (auto simp: same_frame_def)
  have "view fb' = view (snd (render_full (te_grid t') (render_pos t') (r, fb0)))" if w0: "wf_fb fb0" "fb_info fb0 = fb_info fb" for fb0
  proof -
    obtain f where f: "render_full (te_grid t') (render_pos t') (r, fb0) = (r\<lparr>rn_last_cursor_pos := render_pos t'\<rparr>, f)" "fb_info f = fb_info fb0"
        "displays f (te_grid t') (drawn r (render_pos t'))"
      using render_full_displays [OF w0(1) _ c, of r] fr(1) by (auto simp: same_frame_def)
    then show ?thesis using displays_unique [OF f(3) d(4)] d(3) w0(2) by simp
  qed
  moreover have "synced (r\<lparr>rn_last_cursor_pos := render_pos t'\<rparr>) fb' (te_grid t'\<lparr>gr_dirty := d, gr_full_redraw := False\<rparr>)"
    by (rule displays_synced [OF d(4) c])
  moreover have "wf_terminal w h (t'\<lparr>te_grid := te_grid t'\<lparr>gr_dirty := d, gr_full_redraw := False\<rparr>\<rparr>)"
    using wf' d(2) by (simp add: wf_terminal_def wf_grid_def)
  moreover have "wf_fb fb'" using same_info(1) [OF d(3)] fb by simp
  ultimately show ?thesis using t'(1) d(1) by blast
qed


theorem incremental_rendering_exact_witness:
  "\<exists>t0 t' r' fb' g'. Terminal_new 80 25 = Ok t0 \<and> process_bytes [0x41, 0x0A, 0x1B, 0x5B, 0x41] t0 = Ok t' \<and>
     render_dirty (render_pos t') (Renderer_new, \<lparr>fb_info = \<lparr>fi_width = 640, fi_height = 400, fi_pitch = 2560, fi_bpp = 32, fi_format = Bgr\<rparr>,
       fb_buffer = (\<lambda>_. 0)\<rparr>, te_grid t') = Ok (r', fb', g') \<and> synced r' fb' g'"
proof -
  obtain t0 where t0: "Terminal_new 80 25 = Ok t0" "wf_terminal 80 25 t0" using Terminal_new_ok [of 80 25] by auto
  have full: "gr_full_redraw (te_grid t0)" using t0(1) by (auto simp: Terminal_new_def dest: Grid_new_redraw)
  have "wf_fb \<lparr>fb_info = \<lparr>fi_width = 640, fi_height = 400, fi_pitch = 2560, fi_bpp = 32, fi_format = Bgr\<rparr>, fb_buffer = (\<lambda>_. 0)\<rparr>"
    by (simp add: wf_fb_def)
  from incremental_rendering_exact [OF t0(2) this, of Renderer_new "[0x41, 0x0A, 0x1B, 0x5B, 0x41]"] full
  show ?thesis unfolding synced_def using t0(1) by blast
qed

end
