(* ===== verification/Term_Console.thy ===== *)
theory Term_Console
  imports Term_Render Term_Keyboard
begin

text \<open>
  The console manager: \<^verbatim>\<open>src/crates/sys/terminal/src/console.rs\<close>. It owns the virtual terminals, the keyboard and the
  renderer; the console process writes to it, feeds it scancodes, lets the cursor blink and renders to a framebuffer.
\<close>

section \<open>The manager\<close>

definition MAX_CONSOLES :: nat where "MAX_CONSOLES = 1"

record console_manager =
  cm_terminals :: "terminal option list"
  cm_active :: nat
  cm_keyboard :: keyboard
  cm_renderer :: renderer
  cm_cols :: nat
  cm_rows :: nat
  cm_console_count :: nat

definition ConsoleManager_new :: "nat \<Rightarrow> nat \<Rightarrow> console_manager" where
  "ConsoleManager_new cols rows =
     \<lparr>cm_terminals = replicate MAX_CONSOLES None, cm_active = 0, cm_keyboard = Keyboard_new, cm_renderer = Renderer_new,
      cm_cols = cols, cm_rows = rows, cm_console_count = 0\<rparr>"

definition init_consoles :: "nat \<Rightarrow> console_manager \<Rightarrow> console_manager pan" where
  "init_consoles count0 m =
     (let count = min count0 MAX_CONSOLES in
      rbind (for_res (\<lambda>i m. if i < length (cm_terminals m)
          then rbind (Terminal_new (cm_cols m) (cm_rows m)) (\<lambda>t. Ok (m\<lparr>cm_terminals := (cm_terminals m)[i := Some t]\<rparr>)) else Panic) [0..<count] m) (\<lambda>m.
      Ok (m\<lparr>cm_console_count := count\<rparr>)))"

definition console_terminal :: "nat \<Rightarrow> console_manager \<Rightarrow> terminal option pan" where
  "console_terminal i m = (if i < length (cm_terminals m) then Ok (cm_terminals m ! i) else Panic)"

text \<open>\<open>if let Some(term) = &mut self.terminals[i] { f(term) }\<close>\<close>

definition on_terminal :: "(terminal \<Rightarrow> terminal pan) \<Rightarrow> nat \<Rightarrow> console_manager \<Rightarrow> console_manager pan" where
  "on_terminal f i m =
     rbind (console_terminal i m) (\<lambda>t. case t of
        None \<Rightarrow> Ok m
      | Some t \<Rightarrow> rbind (f t) (\<lambda>t. Ok (m\<lparr>cm_terminals := (cm_terminals m)[i := Some t]\<rparr>)))"

definition switch_to :: "nat \<Rightarrow> console_manager \<Rightarrow> console_manager pan" where
  "switch_to index m =
     (if index < cm_console_count m
      then rbind (console_terminal index m) (\<lambda>t.
        if t \<noteq> None then on_terminal (on_grid mark_all_dirty) index (m\<lparr>cm_active := index\<rparr>) else Ok m)
      else Ok m)"

fun console_index :: "key_code \<Rightarrow> nat option" where
  "console_index F1 = Some 0"
| "console_index F2 = Some 1"
| "console_index F3 = Some 2"
| "console_index F4 = Some 3"
| "console_index F5 = Some 4"
| "console_index F6 = Some 5"
| "console_index F7 = Some 6"
| "console_index F8 = Some 7"
| "console_index F9 = Some 8"
| "console_index F10 = Some 9"
| "console_index F11 = Some 10"
| "console_index F12 = Some 11"
| "console_index _ = None"

definition console_scancode :: "byte \<Rightarrow> console_manager \<Rightarrow> (key_event option \<times> console_manager) pan" where
  "console_scancode scancode m =
     (let (ev, k) = process_scancode scancode (cm_keyboard m); m = m\<lparr>cm_keyboard := k\<rparr> in
      case ev of
        None \<Rightarrow> Ok (None, m)
      | Some e \<Rightarrow>
          (case (if ke_pressed e \<and> has (ke_modifiers e) ALT then console_index (ke_key e) else None) of
             Some i \<Rightarrow> rbind (switch_to i m) (\<lambda>m. Ok (None, m))
           | None \<Rightarrow> Ok (Some e, m)))"

definition console_write :: "byte list \<Rightarrow> console_manager \<Rightarrow> console_manager pan" where
  "console_write bytes m = on_terminal (process_bytes bytes) (cm_active m) m"

definition console_render :: "console_manager \<times> framebuffer \<Rightarrow> (console_manager \<times> framebuffer) pan" where
  "console_render = (\<lambda>(m, fb).
     rbind (console_terminal (cm_active m) m) (\<lambda>t. case t of
        None \<Rightarrow> Ok (m, fb)
      | Some t \<Rightarrow> rbind (render_dirty (render_pos t) (cm_renderer m, fb, te_grid t)) (\<lambda>(r, fb, g).
          Ok (m\<lparr>cm_renderer := r, cm_terminals := (cm_terminals m)[cm_active m := Some (t\<lparr>te_grid := g\<rparr>)]\<rparr>, fb))))"

definition console_invalidate :: "console_manager \<Rightarrow> console_manager pan" where
  "console_invalidate m = on_terminal (on_grid mark_all_dirty) (cm_active m) m"

definition console_tick :: "console_manager \<Rightarrow> bool \<times> console_manager" where
  "console_tick m = (let (b, r) = tick_cursor (cm_renderer m) in (b, m\<lparr>cm_renderer := r\<rparr>))"

definition console_render_cursor :: "console_manager \<times> framebuffer \<Rightarrow> (console_manager \<times> framebuffer) pan" where
  "console_render_cursor = (\<lambda>(m, fb).
     rbind (console_terminal (cm_active m) m) (\<lambda>t. case t of
        None \<Rightarrow> Ok (m, fb)
      | Some t \<Rightarrow>
          (let (col, row) = terminal_cursor t; (r, fb) = render_cursor_cell col row (te_grid t) (cm_renderer m, fb) in
           Ok (m\<lparr>cm_renderer := r\<rparr>, fb))))"

definition console_resize :: "nat \<Rightarrow> nat \<Rightarrow> console_manager \<Rightarrow> console_manager pan" where
  "console_resize cols rows m =
     for_res (on_terminal (terminal_resize cols rows)) [0..<length (cm_terminals m)] (m\<lparr>cm_cols := cols, cm_rows := rows\<rparr>)"

section \<open>Sequences of operations\<close>

text \<open>What the console process does with its manager and its framebuffer between two resizes. It ticks the cursor
  and redraws its cell in one go.\<close>

datatype console_op = Write "byte list" | Scancode byte | Invalidate | Render | Blink

fun console_step :: "console_op \<Rightarrow> console_manager \<times> framebuffer \<Rightarrow> (console_manager \<times> framebuffer) pan" where
  "console_step (Write bs) (m, fb) = rbind (console_write bs m) (\<lambda>m. Ok (m, fb))"
| "console_step (Scancode b) (m, fb) = rbind (console_scancode b m) (\<lambda>(_, m). Ok (m, fb))"
| "console_step Invalidate (m, fb) = rbind (console_invalidate m) (\<lambda>m. Ok (m, fb))"
| "console_step Render (m, fb) = console_render (m, fb)"
| "console_step Blink (m, fb) = (let (b, m) = console_tick m in if b then console_render_cursor (m, fb) else Ok (m, fb))"

definition console_run :: "console_op list \<Rightarrow> console_manager \<times> framebuffer \<Rightarrow> (console_manager \<times> framebuffer) pan" where
  "console_run ops s = for_res console_step ops s"

section \<open>The invariant\<close>

text \<open>One well-formed terminal, and a framebuffer that is up to date with it but for the dirty rows.\<close>

definition console_inv :: "nat \<Rightarrow> nat \<Rightarrow> console_manager \<times> framebuffer \<Rightarrow> bool" where
  "console_inv w h = (\<lambda>(m, fb). \<exists>t. cm_terminals m = [Some t] \<and> cm_active m = 0 \<and> cm_console_count m = 1 \<and> wf_terminal w h t \<and> wf_fb fb \<and>
     synced (cm_renderer m) fb (te_grid t))"

lemma on_terminal_single [simp]:
  "cm_terminals m = [Some t] \<Longrightarrow> on_terminal f 0 m = rbind (f t) (\<lambda>t. Ok (m\<lparr>cm_terminals := [Some t]\<rparr>))"
  by (simp add: on_terminal_def console_terminal_def)

lemma invalidate_inv:
  assumes "cm_terminals m = [Some t]" "cm_active m = 0" "cm_console_count m = 1" "wf_terminal w h t" "wf_fb fb"
  shows "returns (\<lambda>m. console_inv w h (m, fb)) (on_terminal (on_grid mark_all_dirty) 0 m)"
proof -
  have "wf_grid (te_grid t)" using assms(4) by (simp add: wf_terminal_def)
  from mark_all_ok(2) [OF this] show ?thesis using assms
    by (auto simp: on_grid_def console_inv_def wf_terminal_def wf_grid_def synced_def)
qed

lemma write_inv:
  assumes "console_inv w h (m, fb)"
  shows "returns (\<lambda>m. console_inv w h (m, fb)) (console_write bs m)"
proof -
  obtain t where t: "cm_terminals m = [Some t]" "cm_active m = 0" "cm_console_count m = 1" "wf_terminal w h t" "wf_fb fb"
      "synced (cm_renderer m) fb (te_grid t)" using assms by (auto simp: console_inv_def)
  obtain t' where t': "process_bytes bs t = Ok t'" "tracks (te_grid t) w h t'"
    using process_bytes_returns [OF tracks_refl [OF t(4)], of bs] by (auto simp: returns_def)
  have "synced (cm_renderer m) fb (te_grid t')"
    by (rule synced_step [OF _ _ t(6)]) (use t'(2) t(4) in \<open>auto simp: tracks_def same_frame_def wf_terminal_def\<close>)
  then show ?thesis using t t' by (simp add: console_write_def console_inv_def tracks_def)
qed

lemma scancode_inv:
  assumes "console_inv w h (m, fb)"
  shows "returns (\<lambda>(_, m). console_inv w h (m, fb)) (console_scancode b m)"
proof -
  have k: "console_inv w h (m\<lparr>cm_keyboard := k\<rparr>, fb)" for k using assms by (simp add: console_inv_def)
  have sw: "returns (\<lambda>m. console_inv w h (m, fb)) (switch_to i m)" if i: "console_inv w h (m, fb)" for i m
  proof -
    obtain t where t: "cm_terminals m = [Some t]" "cm_active m = 0" "cm_console_count m = 1" "wf_terminal w h t" "wf_fb fb"
      using i by (auto simp: console_inv_def)
    have "m\<lparr>cm_active := 0\<rparr> = m" using t(2) by (cases m) simp
    then show ?thesis using invalidate_inv [OF t] i t(1,3) by (cases "i = 0") (simp_all add: switch_to_def console_terminal_def)
  qed
  obtain ev k' where e: "process_scancode b (cm_keyboard m) = (ev, k')" by (rule prod.exhaust)
  have "\<exists>a. switch_to i (m\<lparr>cm_keyboard := k'\<rparr>) = Ok a \<and> console_inv w h (a, fb)" for i
    using sw [OF k [of k'], of i] by (simp add: returns_def)
  then show ?thesis using k [of k'] e
    by (cases ev) (auto simp: console_scancode_def returns_def Let_def split: option.split)
qed

lemma render_inv:
  assumes "console_inv w h (m, fb)"
  shows "\<exists>m' fb' t. console_render (m, fb) = Ok (m', fb') \<and> console_inv w h (m', fb') \<and> fb_info fb' = fb_info fb \<and> cm_terminals m' = [Some t] \<and>
    displays fb' (te_grid t) (drawn (cm_renderer m') (render_pos t))"
proof -
  obtain t where t: "cm_terminals m = [Some t]" "cm_active m = 0" "cm_console_count m = 1" "wf_terminal w h t" "wf_fb fb"
      "synced (cm_renderer m) fb (te_grid t)" using assms by (auto simp: console_inv_def)
  have g: "wf_grid (te_grid t)" using t(4) by (simp add: wf_terminal_def)
  note c = render_pos_on_screen [OF t(4)]
  obtain fb' d where d: "render_dirty (render_pos t) (cm_renderer m, fb, te_grid t) =
      Ok (cm_renderer m\<lparr>rn_last_cursor_pos := render_pos t\<rparr>, fb', te_grid t\<lparr>gr_dirty := d, gr_full_redraw := False\<rparr>)" "length d = MAX_ROWS"
      "fb_info fb' = fb_info fb" "displays fb' (te_grid t) (drawn (cm_renderer m) (render_pos t))"
    using render_dirty_ok [OF t(5) g t(6) c] by blast
  let ?t = "t\<lparr>te_grid := te_grid t\<lparr>gr_dirty := d, gr_full_redraw := False\<rparr>\<rparr>"
  let ?m = "m\<lparr>cm_renderer := cm_renderer m\<lparr>rn_last_cursor_pos := render_pos t\<rparr>, cm_terminals := [Some ?t]\<rparr>"
  have "console_render (m, fb) = Ok (?m, fb')" using t(1,2) d(1) by (simp add: console_render_def console_terminal_def)
  moreover have "wf_terminal w h ?t" using t(4) d(2) by (simp add: wf_terminal_def wf_grid_def)
  moreover have "wf_fb fb'" using same_info(1) [OF d(3)] t(5) by simp
  moreover have "render_pos ?t = render_pos t" by (simp add: render_pos_def terminal_cursor_def)
  ultimately show ?thesis using displays_synced [OF d(4) c, of d] d(3,4) t(2,3) by (auto simp: console_inv_def drawn_def)
qed


lemma render_cursor_cell_info:
  assumes "wf_fb fb" "wf_grid g" "on_screen g (Some (col, row))"
  shows "\<exists>fb'. render_cursor_cell col row g (r, fb) = (r\<lparr>rn_last_cursor_pos := Some (col, row)\<rparr>, fb') \<and> fb_info fb' = fb_info fb"
proof -
  define f1 where "f1 = erase_old_cursor g (Some (col, row)) r fb"
  define f2 where "f2 = render_at g row col f1"
  have i1: "fb_info f1 = fb_info fb" using erase_view [OF assms(1,2)] by (simp add: f1_def)
  have i2: "fb_info f2 = fb_info fb" using view_render_at [OF _ assms(2), of f1] same_info(1) [OF i1] assms(1) i1 by (simp add: f2_def)
  have "fb_info (draw_cursor r g (Some (col, row)) f2) = fb_info fb"
    using view_draw_cursor [OF _ assms(2,3), of f2 r] same_info(1) [OF i2] assms(1) i2 by simp
  then show ?thesis by (simp add: render_cursor_cell_def draw_cursor_def f2_def f1_def Let_def)
qed

lemma blink_inv:
  assumes "console_inv w h (m, fb)"
  shows "returns (console_inv w h) (console_step Blink (m, fb))"
proof -
  obtain t where t: "cm_terminals m = [Some t]" "cm_active m = 0" "cm_console_count m = 1" "wf_terminal w h t" "wf_fb fb"
      "synced (cm_renderer m) fb (te_grid t)" using assms by (auto simp: console_inv_def)
  have g: "wf_grid (te_grid t)" using t(4) by (simp add: wf_terminal_def)
  obtain col row where cr: "terminal_cursor t = (col, row)" by (rule prod.exhaust)
  have c: "on_screen (te_grid t) (Some (col, row))"
    using cr as_usize_cursor [OF wf_terminalD [OF t(4)]] t(4) by (auto simp: on_screen_def terminal_cursor_def wf_terminal_def)
  define r where "r = cm_renderer m\<lparr>rn_cursor_visible := \<not> rn_cursor_visible (cm_renderer m)\<rparr>"
  obtain fb' where fb': "render_cursor_cell col row (te_grid t) (r, fb) = (r\<lparr>rn_last_cursor_pos := Some (col, row)\<rparr>, fb')" "fb_info fb' = fb_info fb"
    using render_cursor_cell_info [OF t(5) g c, of r] by blast
  have "synced (r\<lparr>rn_last_cursor_pos := Some (col, row)\<rparr>) fb' (te_grid t)"
  proof (cases "gr_full_redraw (te_grid t)")
    case False
    then have "shows_clean fb (te_grid t) (drawn (cm_renderer m) (rn_last_cursor_pos r))" "on_screen (te_grid t) (rn_last_cursor_pos r)"
      using t(6) by (simp_all add: synced_def r_def)
    from render_cursor_cell_synced [OF t(5) g c this(2,1)] fb' show ?thesis
      using c by (auto simp: synced_def drawn_def on_screen_def split: if_splits)
  qed (simp add: synced_def)
  then show ?thesis using t fb' same_info(1) [OF fb'(2)] cr
    by (simp add: console_tick_def tick_cursor_def console_render_cursor_def console_terminal_def r_def [symmetric] console_inv_def)
qed

lemma console_step_inv: "console_inv w h s \<Longrightarrow> returns (console_inv w h) (console_step op s)"
proof -
  assume i: "console_inv w h s"
  obtain m fb where s: "s = (m, fb)" by (rule prod.exhaust)
  note i = i [unfolded s]
  have inval: "returns (\<lambda>m. console_inv w h (m, fb)) (console_invalidate m)"
    using invalidate_inv [of m] i by (auto simp: console_invalidate_def console_inv_def)
  show ?thesis
  proof (cases op)
    case (Write bs)
    then show ?thesis using write_inv [OF i, of bs] by (auto simp: s returns_def)
  next
    case (Scancode b)
    then show ?thesis using scancode_inv [OF i, of b] by (auto simp: s returns_def)
  next
    case Invalidate
    then show ?thesis using inval by (auto simp: s returns_def)
  next
    case Render
    then show ?thesis using render_inv [OF i] by (auto simp: s returns_def)
  next
    case Blink
    then show ?thesis using blink_inv [OF i] by (simp add: s)
  qed
qed

lemma console_start:
  assumes "1 \<le> cols" "cols \<le> 160" "1 \<le> rows" "rows \<le> 50" "wf_fb fb"
  shows "\<exists>m. init_consoles 1 (ConsoleManager_new cols rows) = Ok m \<and> console_inv cols rows (m, fb)"
proof -
  obtain t where t: "Terminal_new cols rows = Ok t" "wf_terminal cols rows t" using Terminal_new_ok assms by blast
  then have "gr_full_redraw (te_grid t)" by (auto simp: Terminal_new_def dest: Grid_new_redraw)
  then show ?thesis using t assms(5)
    by (auto simp: init_consoles_def ConsoleManager_new_def MAX_CONSOLES_def console_inv_def synced_def)
qed

section \<open>Properties\<close>

text \<open>C11. The console never panics and never shows a stale picture. For a console of at most 160x50 characters on any
  framebuffer, every sequence of writes, scancodes (console switches included), invalidations, blinks of the cursor
  and renderings is carried out without a panic, and whenever a rendering ends it, every pixel of the framebuffer is
  the one of the terminal's current contents, with the cursor where the terminal has it unless it is hidden or
  blinked off.\<close>

theorem console_shows_terminal:
  assumes "1 \<le> cols" "cols \<le> 160" "1 \<le> rows" "rows \<le> 50" "wf_fb fb"
  shows "\<exists>m0. init_consoles 1 (ConsoleManager_new cols rows) = Ok m0 \<and>
    (\<forall>ops. \<exists>m fb' t. console_run (ops @ [Render]) (m0, fb) = Ok (m, fb') \<and> cm_terminals m = [Some t] \<and> wf_terminal cols rows t \<and>
       displays fb' (te_grid t) (drawn (cm_renderer m) (render_pos t)))"
proof -
  obtain m0 where m0: "init_consoles 1 (ConsoleManager_new cols rows) = Ok m0" "console_inv cols rows (m0, fb)"
    using console_start [OF assms] by blast
  have "\<exists>m fb' t. console_run (ops @ [Render]) (m0, fb) = Ok (m, fb') \<and> cm_terminals m = [Some t] \<and> wf_terminal cols rows t \<and>
      displays fb' (te_grid t) (drawn (cm_renderer m) (render_pos t))" for ops
  proof -
    have "returns (console_inv cols rows) (for_res console_step ops (m0, fb))"
      by (rule returns_for) (use m0(2) console_step_inv in auto)
    then obtain m1 fb1 where r: "for_res console_step ops (m0, fb) = Ok (m1, fb1)" "console_inv cols rows (m1, fb1)"
      by (auto simp: returns_def)
    from render_inv [OF r(2)] r(1) show ?thesis by (auto simp: console_run_def for_res_append console_inv_def)
  qed
  then show ?thesis using m0(1) by blast
qed

theorem console_shows_terminal_witness:
  "\<exists>m0 m fb' t. init_consoles 1 (ConsoleManager_new 80 25) = Ok m0 \<and>
    console_run ([Write [0x68, 0x69], Blink, Scancode 0x38, Scancode 0x3B] @ [Render]) (m0, \<lparr>fb_info = \<lparr>fi_width = 640, fi_height = 400, fi_pitch = 2560,
      fi_bpp = 32, fi_format = Rgb\<rparr>, fb_buffer = (\<lambda>_. 0)\<rparr>) = Ok (m, fb') \<and> cm_terminals m = [Some t] \<and>
    displays fb' (te_grid t) (drawn (cm_renderer m) (render_pos t))"
proof -
  have "wf_fb \<lparr>fb_info = \<lparr>fi_width = 640, fi_height = 400, fi_pitch = 2560, fi_bpp = 32, fi_format = Rgb\<rparr>, fb_buffer = (\<lambda>_. 0)\<rparr>"
    by (simp add: wf_fb_def)
  from console_shows_terminal [of 80 25, OF _ _ _ _ this] show ?thesis by (simp del: append.simps) blast
qed

end
