(* ===== verification/Users.thy ===== *)
theory Users
  imports Prelude
begin

text \<open>
  The user database, \<^verbatim>\<open>src/crates/sys/users/src/lib.rs\<close>: users and groups in fixed tables,
  authentication by a password hash, the \<open>/etc/passwd\<close> and \<open>/etc/group\<close> parsers and loaders, and
  credentials.

  Byte strings are byte lists; the fixed arrays keep their length (\<open>wf_user\<close>, \<open>wf_db\<close>), so the
  slices the source takes are in range. The counter that \<open>generate_guid\<close> keeps in a static is the
  field \<open>ud_guid\<close> of the database. The lock around the single instance is not modelled.
\<close>

section \<open>Definitions\<close>

definition MAX_USERS :: nat where "MAX_USERS = 32"
definition MAX_GROUPS :: nat where "MAX_GROUPS = 16"
definition MAX_USERNAME_LEN :: nat where "MAX_USERNAME_LEN = 32"
definition MAX_GROUPNAME_LEN :: nat where "MAX_GROUPNAME_LEN = 32"
definition UID_ROOT :: u32 where "UID_ROOT = 0"
definition UID_GUEST :: u32 where "UID_GUEST = 1000"
definition GID_ROOT :: u32 where "GID_ROOT = 0"
definition GID_USERS :: u32 where "GID_USERS = 100"
definition MAX_GECOS_LEN :: nat where "MAX_GECOS_LEN = 128"
definition MAX_HOME_LEN :: nat where "MAX_HOME_LEN = 64"
definition MAX_SHELL_LEN :: nat where "MAX_SHELL_LEN = 64"
definition NGROUPS_MAX :: nat where "NGROUPS_MAX = 16"

lemmas user_limits = MAX_USERS_def MAX_GROUPS_def MAX_USERNAME_LEN_def MAX_GROUPNAME_LEN_def MAX_GECOS_LEN_def
  MAX_HOME_LEN_def MAX_SHELL_LEN_def NGROUPS_MAX_def

type_synonym u128 = "128 word"

record user =
  u_uid :: u32
  u_gid :: u32
  u_guid :: u128
  u_username :: "byte list"
  u_username_len :: nat
  u_password_hash :: u64
  u_gecos :: "byte list"
  u_gecos_len :: nat
  u_home_dir :: "byte list"
  u_home_len :: nat
  u_shell :: "byte list"
  u_shell_len :: nat
  u_groups :: "u32 list"
  u_group_count :: nat
  u_active :: bool

definition User_empty :: user where
  "User_empty = \<lparr>u_uid = 0, u_gid = 0, u_guid = 0, u_username = replicate MAX_USERNAME_LEN 0, u_username_len = 0,
     u_password_hash = 0, u_gecos = replicate MAX_GECOS_LEN 0, u_gecos_len = 0, u_home_dir = replicate MAX_HOME_LEN 0,
     u_home_len = 0, u_shell = replicate MAX_SHELL_LEN 0, u_shell_len = 0, u_groups = replicate 8 0, u_group_count = 0,
     u_active = False\<rparr>"

definition username_bytes :: "user \<Rightarrow> byte list" where "username_bytes u = take (u_username_len u) (u_username u)"
definition gecos_bytes :: "user \<Rightarrow> byte list" where "gecos_bytes u = take (u_gecos_len u) (u_gecos u)"
definition home_bytes :: "user \<Rightarrow> byte list" where "home_bytes u = take (u_home_len u) (u_home_dir u)"
definition shell_bytes :: "user \<Rightarrow> byte list" where "shell_bytes u = take (u_shell_len u) (u_shell u)"

definition set_gecos :: "byte list \<Rightarrow> user \<Rightarrow> user" where
  "set_gecos gecos u =
     (let len = min (length gecos) MAX_GECOS_LEN in
      u\<lparr>u_gecos := copy_into (u_gecos u) 0 (take len gecos), u_gecos_len := len\<rparr>)"

definition set_home :: "byte list \<Rightarrow> user \<Rightarrow> user" where
  "set_home home u =
     (let len = min (length home) MAX_HOME_LEN in
      u\<lparr>u_home_dir := copy_into (u_home_dir u) 0 (take len home), u_home_len := len\<rparr>)"

definition set_shell :: "byte list \<Rightarrow> user \<Rightarrow> user" where
  "set_shell shell u =
     (let len = min (length shell) MAX_SHELL_LEN in
      u\<lparr>u_shell := copy_into (u_shell u) 0 (take len shell), u_shell_len := len\<rparr>)"

definition user_in_group :: "user \<Rightarrow> u32 \<Rightarrow> bool" where
  "user_in_group u gid \<longleftrightarrow> u_gid u = gid \<or> (\<exists>i \<in> set [0..<u_group_count u]. u_groups u ! i = gid)"

record group =
  g_gid :: u32
  g_name :: "byte list"
  g_name_len :: nat
  g_active :: bool

definition Group_empty :: group where
  "Group_empty = \<lparr>g_gid = 0, g_name = replicate MAX_GROUPNAME_LEN 0, g_name_len = 0, g_active = False\<rparr>"

definition name_bytes :: "group \<Rightarrow> byte list" where
  "name_bytes g = take (g_name_len g) (g_name g)"

record user_db =
  ud_users :: "user list"
  ud_groups :: "group list"
  ud_next_uid :: u32
  ud_next_gid :: u32
  ud_guid :: u128

definition UserDatabase_new :: user_db where
  "UserDatabase_new = \<lparr>ud_users = replicate MAX_USERS User_empty, ud_groups = replicate MAX_GROUPS Group_empty,
     ud_next_uid = 1001, ud_next_gid = 101, ud_guid = 0\<rparr>"

text \<open>\<open>for x in &mut xs { if p(x) { *x = f(x); return } }\<close>: the first match is changed.\<close>

fun update_first :: "('a \<Rightarrow> bool) \<Rightarrow> ('a \<Rightarrow> 'a) \<Rightarrow> 'a list \<Rightarrow> 'a list option" where
  "update_first p f [] = None"
| "update_first p f (x # xs) = (if p x then Some (f x # xs) else map_option (Cons x) (update_first p f xs))"

definition hash_password :: "byte list \<Rightarrow> u64" where
  "hash_password password =
     foldl (\<lambda>hash (i, b). word_rotl 7 (hash XOR push_bit ((i mod 8) * 8) (ucast b))) 0x5555AAAA5555AAAA
       (enumerate 0 password)"

definition generate_guid :: "user_db \<Rightarrow> u128 \<times> user_db" where
  "generate_guid db = (ud_guid db + 1, db\<lparr>ud_guid := ud_guid db + 1\<rparr>)"

definition add_group_with_id :: "u32 \<Rightarrow> byte list \<Rightarrow> user_db \<Rightarrow> bool \<times> user_db" where
  "add_group_with_id gid name db =
     (if name = [] \<or> length name > MAX_GROUPNAME_LEN then (False, db)
      else
        case update_first (\<lambda>g. \<not> g_active g)
            (\<lambda>g. g\<lparr>g_gid := gid, g_name := copy_into (g_name g) 0 name, g_name_len := length name, g_active := True\<rparr>) (ud_groups db) of
          Some gs \<Rightarrow> (True, db\<lparr>ud_groups := gs\<rparr>)
        | None \<Rightarrow> (False, db))"

definition add_user_full_internal ::
  "u32 \<Rightarrow> byte list \<Rightarrow> byte list \<Rightarrow> u32 \<Rightarrow> u128 \<Rightarrow> byte list \<Rightarrow> byte list \<Rightarrow> byte list \<Rightarrow> user_db \<Rightarrow> bool \<times> user_db" where
  "add_user_full_internal uid username password gid guid gecos home shell db =
     (if username = [] \<or> length username > MAX_USERNAME_LEN then (False, db)
      else
        case update_first (\<lambda>u. \<not> u_active u)
            (\<lambda>u. (set_shell shell (set_home home (set_gecos gecos
              (u\<lparr>u_uid := uid, u_gid := gid, u_guid := guid, u_username := copy_into (u_username u) 0 username,
                 u_username_len := length username, u_password_hash := hash_password password\<rparr>))))
              \<lparr>u_group_count := 0, u_active := True\<rparr>) (ud_users db) of
          Some us \<Rightarrow> (True, db\<lparr>ud_users := us\<rparr>)
        | None \<Rightarrow> (False, db))"

definition str :: "string \<Rightarrow> byte list" where
  "str s = map of_char s"

definition add_user_with_id :: "u32 \<Rightarrow> byte list \<Rightarrow> byte list \<Rightarrow> u32 \<Rightarrow> u128 \<Rightarrow> user_db \<Rightarrow> bool \<times> user_db" where
  "add_user_with_id uid username password gid guid =
     add_user_full_internal uid username password gid guid [] (str ''/'') (str ''/apps/system/shell'')"

definition add_user_full ::
  "u32 \<Rightarrow> byte list \<Rightarrow> byte list \<Rightarrow> u32 \<Rightarrow> byte list \<Rightarrow> byte list \<Rightarrow> byte list \<Rightarrow> user_db \<Rightarrow> bool \<times> user_db" where
  "add_user_full uid username password gid gecos home shell db =
     (let (guid, db) = generate_guid db in
      add_user_full_internal uid username password gid guid gecos home shell db)"

definition add_user :: "byte list \<Rightarrow> byte list \<Rightarrow> u32 \<Rightarrow> user_db \<Rightarrow> u32 option \<times> user_db" where
  "add_user username password gid db =
     (let uid = ud_next_uid db;
          (guid, db) = generate_guid db;
          (added, db) = add_user_with_id uid username password gid guid db in
      if added then (Some uid, db\<lparr>ud_next_uid := ud_next_uid db + 1\<rparr>) else (None, db))"

definition init_users :: "user_db \<Rightarrow> user_db" where
  "init_users db =
     (let db = snd (add_group_with_id GID_ROOT (str ''root'') db);
          db = snd (add_group_with_id GID_USERS (str ''users'') db);
          db = snd (add_group_with_id 10 (str ''wheel'') db);
          db = snd (add_user_full UID_ROOT (str ''root'') (str ''root'') GID_ROOT (str ''System Administrator'')
            (str ''/root'') (str ''C:/apps/system/shell'') db) in
      snd (add_user_full UID_GUEST (str ''guest'') (str ''guest'') GID_USERS (str ''Guest User'')
            (str ''/home/guest'') (str ''C:/apps/system/shell'') db))"

definition has_name :: "byte list \<Rightarrow> user \<Rightarrow> bool" where
  "has_name username u \<longleftrightarrow> u_active u \<and> u_username_len u = length username \<and> take (u_username_len u) (u_username u) = username"

definition authenticate :: "user_db \<Rightarrow> byte list \<Rightarrow> byte list \<Rightarrow> u32 option" where
  "authenticate db username password =
     (let password_hash = hash_password password in
      case find (has_name username) (ud_users db) of
        Some u \<Rightarrow> if u_password_hash u = password_hash then Some (u_uid u) else None
      | None \<Rightarrow> None)"

definition get_user :: "user_db \<Rightarrow> u32 \<Rightarrow> user option" where
  "get_user db uid = find (\<lambda>u. u_active u \<and> u_uid u = uid) (ud_users db)"

definition get_user_by_name :: "user_db \<Rightarrow> byte list \<Rightarrow> user option" where
  "get_user_by_name db username = find (has_name username) (ud_users db)"

definition get_group :: "user_db \<Rightarrow> u32 \<Rightarrow> group option" where
  "get_group db gid = find (\<lambda>g. g_active g \<and> g_gid g = gid) (ud_groups db)"

definition get_group_by_name :: "user_db \<Rightarrow> byte list \<Rightarrow> group option" where
  "get_group_by_name db name =
     find (\<lambda>g. g_active g \<and> g_name_len g = length name \<and> take (g_name_len g) (g_name g) = name) (ud_groups db)"

definition list_users :: "user_db \<Rightarrow> user option list" where
  "list_users db = map (\<lambda>u. if u_active u then Some u else None) (ud_users db)"

definition list_groups :: "user_db \<Rightarrow> group option list" where
  "list_groups db = map (\<lambda>g. if g_active g then Some g else None) (ud_groups db)"

subsection \<open>Parsing\<close>

definition checked_mul :: "u32 \<Rightarrow> u32 \<Rightarrow> u32 option" where
  "checked_mul a b = (if unat a * unat b < 2 ^ 32 then Some (a * b) else None)"

definition checked_add :: "u32 \<Rightarrow> u32 \<Rightarrow> u32 option" where
  "checked_add a b = (if unat a + unat b < 2 ^ 32 then Some (a + b) else None)"

fun parse_u32_loop :: "u32 \<Rightarrow> byte list \<Rightarrow> u32 option" where
  "parse_u32_loop result [] = Some result"
| "parse_u32_loop result (b # bs) =
     (if b < 48 \<or> b > 57 then None
      else case checked_mul result 10 of
        None \<Rightarrow> None
      | Some r \<Rightarrow> (case checked_add r (ucast (b - 48)) of None \<Rightarrow> None | Some r \<Rightarrow> parse_u32_loop r bs))"

definition parse_u32 :: "byte list \<Rightarrow> u32 option" where
  "parse_u32 bytes = (if bytes = [] then None else parse_u32_loop 0 bytes)"

text \<open>\<open>split_line\<close>: at most eight parts, the last with the rest of the line. The parts found so far, the
  start of the current part and the position are the variables of the loop.\<close>

fun split_loop :: "byte list \<Rightarrow> byte \<Rightarrow> nat list \<Rightarrow> byte list list \<Rightarrow> nat \<Rightarrow> byte list list \<times> nat" where
  "split_loop line delim [] parts start = (parts, start)"
| "split_loop line delim (i # is) parts start =
     (if line ! i = delim \<and> length parts < 7
      then split_loop line delim is (parts @ [take (i - start) (drop start line)]) (i + 1)
      else split_loop line delim is parts start)"

definition split_line :: "byte list \<Rightarrow> byte \<Rightarrow> byte list list" where
  "split_line line delim =
     (let (parts, start) = split_loop line delim [0..<length line] [] 0 in
      if length parts < 8 then parts @ [drop start line] else parts)"

definition parse_passwd_line :: "byte list \<Rightarrow> user_db \<Rightarrow> user option \<times> user_db" where
  "parse_passwd_line line db =
     (if line = [] \<or> hd line = 0x23 then (None, db)
      else
        let parts = split_line line 0x3A in
        if length parts < 7 then (None, db)
        else
          let username = parts ! 0 in
          if username = [] \<or> length username > MAX_USERNAME_LEN then (None, db)
          else
            case (parse_u32 (parts ! 2), parse_u32 (parts ! 3)) of
              (Some uid, Some gid) \<Rightarrow>
                let (guid, db) = generate_guid db;
                    u = User_empty\<lparr>u_uid := uid, u_gid := gid, u_guid := guid,
                      u_username := copy_into (u_username User_empty) 0 username, u_username_len := length username,
                      u_password_hash := 0\<rparr> in
                (Some ((set_shell (parts ! 6) (set_home (parts ! 5) (set_gecos (parts ! 4) u)))
                   \<lparr>u_group_count := 0, u_active := True\<rparr>), db)
            | _ \<Rightarrow> (None, db))"

definition parse_group_line :: "byte list \<Rightarrow> group option" where
  "parse_group_line line =
     (if line = [] \<or> hd line = 0x23 then None
      else
        let parts = split_line line 0x3A in
        if length parts < 3 then None
        else
          let name = parts ! 0 in
          if name = [] \<or> length name > MAX_GROUPNAME_LEN then None
          else
            case parse_u32 (parts ! 2) of
              Some gid \<Rightarrow> Some (Group_empty\<lparr>g_gid := gid, g_name := copy_into (g_name Group_empty) 0 name,
                g_name_len := length name, g_active := True\<rparr>)
            | None \<Rightarrow> None)"

text \<open>The lines of a file: cut at every newline and at the end, a trailing carriage return dropped.\<close>

fun file_lines :: "byte list \<Rightarrow> byte list list" where
  "file_lines [] = [[]]"
| "file_lines (b # bs) =
     (if b = 0x0A then [] # file_lines bs
      else case file_lines bs of [] \<Rightarrow> [[b]] | l # ls \<Rightarrow> (b # l) # ls)"

definition strip_cr :: "byte list \<Rightarrow> byte list" where
  "strip_cr line = (if line \<noteq> [] \<and> last line = 0x0D then butlast line else line)"

text \<open>The entry with the same id is replaced, else the first free slot is taken, else nothing happens.\<close>

definition place :: "('a \<Rightarrow> bool) \<Rightarrow> ('a \<Rightarrow> bool) \<Rightarrow> 'a \<Rightarrow> 'a list \<Rightarrow> 'a list" where
  "place same free x xs =
     (case update_first same (\<lambda>_. x) xs of
        Some xs' \<Rightarrow> xs'
      | None \<Rightarrow> (case update_first free (\<lambda>_. x) xs of Some xs' \<Rightarrow> xs' | None \<Rightarrow> xs))"

definition load_passwd_line :: "user_db \<Rightarrow> byte list \<Rightarrow> user_db" where
  "load_passwd_line db line =
     (case parse_passwd_line (strip_cr line) db of
        (Some user, db) \<Rightarrow>
          db\<lparr>ud_users := place (\<lambda>u. u_active u \<and> u_uid u = u_uid user) (\<lambda>u. \<not> u_active u) user (ud_users db)\<rparr>
      | (None, db) \<Rightarrow> db)"

definition load_passwd :: "byte list \<Rightarrow> user_db \<Rightarrow> user_db" where
  "load_passwd data db = foldl load_passwd_line db (file_lines data)"

definition load_group_line :: "user_db \<Rightarrow> byte list \<Rightarrow> user_db" where
  "load_group_line db line =
     (case parse_group_line (strip_cr line) of
        Some g \<Rightarrow> db\<lparr>ud_groups := place (\<lambda>h. g_active h \<and> g_gid h = g_gid g) (\<lambda>h. \<not> g_active h) g (ud_groups db)\<rparr>
      | None \<Rightarrow> db)"

definition load_group :: "byte list \<Rightarrow> user_db \<Rightarrow> user_db" where
  "load_group data db = foldl load_group_line db (file_lines data)"

subsection \<open>Credentials\<close>

record credential_info =
  ci_uid :: u32
  ci_gid :: u32
  ci_euid :: u32
  ci_egid :: u32
  ci_groups :: "u32 list"
  ci_ngroups :: nat

definition CredentialInfo_root :: credential_info where
  "CredentialInfo_root = \<lparr>ci_uid = 0, ci_gid = 0, ci_euid = 0, ci_egid = 0, ci_groups = replicate NGROUPS_MAX 0, ci_ngroups = 0\<rparr>"

definition CredentialInfo_new :: "u32 \<Rightarrow> u32 \<Rightarrow> credential_info" where
  "CredentialInfo_new uid gid =
     \<lparr>ci_uid = uid, ci_gid = gid, ci_euid = uid, ci_egid = gid, ci_groups = replicate NGROUPS_MAX 0, ci_ngroups = 0\<rparr>"

definition ci_is_root :: "credential_info \<Rightarrow> bool" where
  "ci_is_root c \<longleftrightarrow> ci_euid c = 0"

definition ci_in_group :: "credential_info \<Rightarrow> u32 \<Rightarrow> bool" where
  "ci_in_group c gid \<longleftrightarrow> ci_egid c = gid \<or> (\<exists>i \<in> set [0..<ci_ngroups c]. ci_groups c ! i = gid)"

definition get_credential_info :: "user_db \<Rightarrow> u32 \<Rightarrow> u32 \<Rightarrow> credential_info" where
  "get_credential_info db uid gid =
     (let cred = CredentialInfo_new uid gid in
      case get_user db uid of
        Some u \<Rightarrow> foldl (\<lambda>cred i. if ci_ngroups cred < NGROUPS_MAX
            then cred\<lparr>ci_groups := (ci_groups cred)[ci_ngroups cred := u_groups u ! i], ci_ngroups := ci_ngroups cred + 1\<rparr>
            else cred) cred [0..<u_group_count u]
      | None \<Rightarrow> cred)"

section \<open>The password hash\<close>

lemma rotl_xor: "word_rotl n (x XOR y) = word_rotl n x XOR word_rotl n y" for x y :: u64
  by (rule bit_word_eqI) (simp add: bit_word_rotl_iff bit_xor_iff)

lemma rotl7: "word_rotl 7 w = push_bit 7 w OR drop_bit 57 w" for w :: u64
proof (rule bit_word_eqI)
  fix n assume "n < LENGTH(64)"
  then have "n < 64" by simp
  then show "bit (word_rotl 7 w) n = bit (push_bit 7 w OR drop_bit 57 w) n"
    by (cases "n < 7") (auto simp: bit_simps mod_if not_less add.commute [of 57 n] dest: bit_imp_le_length)
qed

text \<open>Bit 1 of a byte and bit 0 of the next meet in the same bit of the hash.\<close>

lemma hash_twist: "hash_password ((a XOR 2) # (b XOR 1) # ps) = hash_password (a # b # ps)"
proof -
  have "word_rotl 7 (2 :: u64) = 256" by (simp add: rotl7)
  then have rot: "word_rotl 7 (x XOR 2) = word_rotl 7 x XOR 256" for x :: u64 by (simp add: rotl_xor)
  have a: "ucast (a XOR 2) = (ucast a XOR 2 :: u64)" by (rule bit_word_eqI) (auto simp: bit_simps)
  have "ucast (b XOR 1) = (ucast b XOR 1 :: u64)" by (rule bit_word_eqI) (auto simp: bit_simps)
  then have b: "push_bit 8 (ucast (b XOR 1)) = (push_bit 8 (ucast b) XOR 256 :: u64)" by (simp add: push_bit_xor)
  have c: "(x XOR 256) XOR (y XOR 256) = x XOR y" for x y :: u64 by (simp add: xor.assoc xor.left_commute xor.commute)
  have "word_rotl 7 (k XOR ucast (a XOR 2)) XOR push_bit 8 (ucast (b XOR 1)) = word_rotl 7 (k XOR ucast a) XOR push_bit 8 (ucast b)" for k :: u64
    unfolding a b xor.assoc [symmetric, of k] rot c ..
  then show ?thesis by (simp add: hash_password_def)
qed

section \<open>The tables\<close>

lemma update_first_Some:
  "update_first p f xs = Some xs' \<Longrightarrow> \<exists>as x bs. xs = as @ x # bs \<and> (\<forall>a \<in> set as. \<not> p a) \<and> p x \<and> xs' = as @ f x # bs"
proof (induction xs arbitrary: xs')
  case (Cons y ys)
  show ?case
  proof (cases "p y")
    case True
    then show ?thesis using Cons.prems by (intro exI [of _ "[]"]) auto
  next
    case False
    then obtain zs where zs: "update_first p f ys = Some zs" "xs' = y # zs" using Cons.prems by auto
    from Cons.IH [OF zs(1)] obtain as x bs where "ys = as @ x # bs" "\<forall>a \<in> set as. \<not> p a" "p x" "zs = as @ f x # bs" by blast
    then show ?thesis using False zs(2) by (intro exI [of _ "y # as"] exI [of _ x] exI [of _ bs]) simp
  qed
qed simp

lemma update_first_None: "update_first p f xs = None \<longleftrightarrow> (\<forall>x \<in> set xs. \<not> p x)"
  by (induction xs) auto

lemma find_split: "find q (as @ x # bs) = (case find q as of Some y \<Rightarrow> Some y | None \<Rightarrow> if q x then Some x else find q bs)"
  by (induction as) auto

definition wf_user :: "user \<Rightarrow> bool" where
  "wf_user u \<longleftrightarrow> length (u_username u) = MAX_USERNAME_LEN \<and> u_username_len u \<le> MAX_USERNAME_LEN \<and>
     length (u_gecos u) = MAX_GECOS_LEN \<and> u_gecos_len u \<le> MAX_GECOS_LEN \<and>
     length (u_home_dir u) = MAX_HOME_LEN \<and> u_home_len u \<le> MAX_HOME_LEN \<and>
     length (u_shell u) = MAX_SHELL_LEN \<and> u_shell_len u \<le> MAX_SHELL_LEN \<and>
     length (u_groups u) = 8 \<and> u_group_count u \<le> 8"

definition wf_db :: "user_db \<Rightarrow> bool" where
  "wf_db db \<longleftrightarrow> length (ud_users db) = MAX_USERS \<and> (\<forall>u \<in> set (ud_users db). wf_user u) \<and>
     length (ud_groups db) = MAX_GROUPS \<and>
     (\<forall>g \<in> set (ud_groups db). length (g_name g) = MAX_GROUPNAME_LEN \<and> g_name_len g \<le> MAX_GROUPNAME_LEN)"

definition fill_slot :: "u32 \<Rightarrow> byte list \<Rightarrow> u64 \<Rightarrow> u32 \<Rightarrow> u128 \<Rightarrow> byte list \<Rightarrow> byte list \<Rightarrow> byte list \<Rightarrow> user \<Rightarrow> user" where
  "fill_slot uid username ph gid guid gecos home shell u =
     (set_shell shell (set_home home (set_gecos gecos
        (u\<lparr>u_uid := uid, u_gid := gid, u_guid := guid, u_username := copy_into (u_username u) 0 username,
           u_username_len := length username, u_password_hash := ph\<rparr>))))\<lparr>u_group_count := 0, u_active := True\<rparr>"

lemma fill_slot_fields [simp]:
  "u_uid (fill_slot uid nm ph gid guid ge ho sh u) = uid" "u_gid (fill_slot uid nm ph gid guid ge ho sh u) = gid"
  "u_password_hash (fill_slot uid nm ph gid guid ge ho sh u) = ph" "u_active (fill_slot uid nm ph gid guid ge ho sh u)"
  "u_username_len (fill_slot uid nm ph gid guid ge ho sh u) = length nm" "u_guid (fill_slot uid nm ph gid guid ge ho sh u) = guid"
  "u_username (fill_slot uid nm ph gid guid ge ho sh u) = copy_into (u_username u) 0 nm"
  by (simp_all add: fill_slot_def set_shell_def set_home_def set_gecos_def Let_def)

lemma wf_fill_slot: "wf_user u \<Longrightarrow> length nm \<le> MAX_USERNAME_LEN \<Longrightarrow> wf_user (fill_slot uid nm ph gid guid ge ho sh u)"
  by (auto simp: wf_user_def fill_slot_def set_shell_def set_home_def set_gecos_def Let_def copy_into_def min_def)

lemma has_name_fill_slot: "has_name nm' (fill_slot uid nm ph gid guid ge ho sh u) \<longleftrightarrow> nm' = nm"
  by (auto simp: has_name_def copy_into_def)

lemma wf_User_empty: "wf_user User_empty"
  by (simp add: wf_user_def User_empty_def user_limits)

lemma wf_db_new: "wf_db UserDatabase_new"
  using wf_User_empty by (simp add: wf_db_def UserDatabase_new_def Group_empty_def)

section \<open>Splitting lines\<close>

text \<open>What the index loop of \<open>split_line\<close> computes: at most \<open>n\<close> cuts, from the left.\<close>

fun split_ref :: "nat \<Rightarrow> byte \<Rightarrow> byte list \<Rightarrow> byte list list" where
  "split_ref 0 d l = [l]"
| "split_ref (Suc n) d l =
     (if d \<in> set l then takeWhile (\<lambda>b. b \<noteq> d) l # split_ref n d (tl (dropWhile (\<lambda>b. b \<noteq> d) l)) else [l])"

fun join_fields :: "byte \<Rightarrow> byte list list \<Rightarrow> byte list" where
  "join_fields d [] = []"
| "join_fields d [f] = f"
| "join_fields d (f # g # fs) = f @ d # join_fields d (g # fs)"

lemma split_ref_cut: "d \<notin> set a \<Longrightarrow> split_ref (Suc n) d (a @ d # b) = a # split_ref n d b"
  by (simp add: takeWhile_append dropWhile_append)

lemma split_ref_uncut: "d \<notin> set a \<Longrightarrow> split_ref n d a = [a]"
  by (cases n) auto

lemma split_loop_spec:
  assumes "start \<le> i" "i \<le> length line" "length parts \<le> 7"
    and "length parts < 7 \<longrightarrow> d \<notin> set (take (i - start) (drop start line))"
  shows "case split_loop line d [i..<length line] parts start of (ps, st) \<Rightarrow>
    length ps \<le> 7 \<and> ps @ [drop st line] = parts @ split_ref (7 - length parts) d (drop start line)"
  using assms
proof (induction "length line - i" arbitrary: i parts start)
  case 0
  then have "take (i - start) (drop start line) = drop start line" by simp
  then show ?case using 0 split_ref_uncut by (cases "length parts < 7") auto
next
  case (Suc k)
  let ?a = "take (i - start) (drop start line)"
  have i: "[i..<length line] = i # [Suc i..<length line]" "k = length line - Suc i" "i < length line"
    using Suc.hyps(2) by (simp_all add: upt_conv_Cons)
  have line: "drop start line = ?a @ line ! i # drop (Suc i) line"
    using i(3) Suc.prems(1) by (metis Cons_nth_drop_Suc append_take_drop_id drop_drop le_add_diff_inverse2)
  show ?case
  proof (cases "line ! i = d \<and> length parts < 7")
    case True
    obtain m where m: "7 - length parts = Suc m" "7 - length (parts @ [?a]) = m" using True by (cases "7 - length parts") auto
    have "split_ref (Suc m) d (drop start line) = ?a # split_ref m d (drop (Suc i) line)"
      using True Suc.prems(4) split_ref_cut [of d ?a m "drop (Suc i) line"] line by metis
    moreover have "case split_loop line d [Suc i..<length line] (parts @ [?a]) (Suc i) of (ps, st) \<Rightarrow>
      length ps \<le> 7 \<and> ps @ [drop st line] = (parts @ [?a]) @ split_ref m d (drop (Suc i) line)"
      using Suc.hyps(1) [OF i(2), of "Suc i" "parts @ [?a]"] i(3) True m(2) by simp
    ultimately show ?thesis using True m(1) by (simp add: i(1) del: split_ref.simps)
  next
    case False
    have "length parts < 7 \<longrightarrow> d \<notin> set (take (Suc i - start) (drop start line))"
      using False Suc.prems(1,4) i(3) by (auto simp: Suc_diff_le take_Suc_conv_app_nth)
    then show ?thesis using Suc.hyps(1) [OF i(2), of start parts] Suc.prems(1,3) i False
      by (auto simp del: split_ref.simps)
  qed
qed

lemma split_line_ref: "split_line line d = split_ref 7 d line"
  using split_loop_spec [of 0 0 line "[]" d]
  by (auto simp: split_line_def split: prod.splits)

lemma split_ref_join:
  "fs \<noteq> [] \<Longrightarrow> \<forall>f \<in> set fs. d \<notin> set f \<Longrightarrow>
   split_ref n d (join_fields d fs) = (if length fs \<le> Suc n then fs else take n fs @ [join_fields d (drop n fs)])"
proof (induction n arbitrary: fs)
  case 0
  then show ?case by (cases "(d, fs)" rule: join_fields.cases) auto
next
  case (Suc n)
  then show ?case
  proof (cases "(d, fs)" rule: join_fields.cases)
    case (3 d' f g fs')
    then show ?thesis using Suc.IH [of "g # fs'"] Suc.prems by (simp add: split_ref_cut del: split_ref.simps)
  qed (use Suc.prems split_ref_uncut in \<open>auto simp del: split_ref.simps\<close>)
qed

section \<open>Numbers\<close>

definition decimal :: "byte list \<Rightarrow> nat" where
  "decimal bs = foldl (\<lambda>n b. n * 10 + unat (b - 48)) 0 bs"

definition is_digit :: "byte \<Rightarrow> bool" where
  "is_digit b \<longleftrightarrow> 48 \<le> b \<and> b \<le> 57"

lemma foldl_decimal_mono: "n \<le> foldl (\<lambda>n b. n * 10 + unat (b - 48 :: byte)) n bs"
proof (induction bs arbitrary: n)
  case (Cons b bs)
  have "n \<le> n * 10 + unat (b - 48)" by simp
  also have "\<dots> \<le> foldl (\<lambda>n b. n * 10 + unat (b - 48)) (n * 10 + unat (b - 48)) bs" by (rule Cons.IH)
  finally show ?case by simp
qed simp

lemma parse_step:
  assumes "is_digit b"
  shows "(case checked_mul r 10 of None \<Rightarrow> None | Some r \<Rightarrow> checked_add r (ucast (b - 48))) =
    (if unat r * 10 + unat (b - 48) < 2 ^ 32 then Some (of_nat (unat r * 10 + unat (b - 48))) else None)"
proof -
  have "unat (ucast (b - 48) :: u32) = unat (b - 48)" by (simp add: unsigned_ucast_eq take_bit_nat_eq_self_iff order.strict_trans2 [OF unsigned_less])
  moreover have "unat (r * 10) = unat r * 10" if "unat r * 10 < 2 ^ 32"
    using that by (simp add: unat_word_ariths)
  ultimately show ?thesis by (auto simp: checked_mul_def checked_add_def)
qed

lemma parse_u32_loop_spec:
  "parse_u32_loop r bs =
     (let n = foldl (\<lambda>n b. n * 10 + unat (b - 48)) (unat r) bs in
      if (\<forall>b \<in> set bs. is_digit b) \<and> n < 2 ^ 32 then Some (of_nat n) else None)"
proof (induction bs arbitrary: r)
  case Nil
  then show ?case using unsigned_less [of r, where 'a = nat] by simp
next
  case (Cons b bs)
  let ?m = "unat r * 10 + unat (b - 48)"
  show ?case
  proof (cases "is_digit b \<and> ?m < 2 ^ 32")
    case False
    have "?m \<le> foldl (\<lambda>n b. n * 10 + unat (b - 48)) ?m bs" by (rule foldl_decimal_mono)
    then show ?thesis using False parse_step [of b r] by (auto simp: Let_def is_digit_def not_less split: option.splits)
  next
    case True
    then have "unat (of_nat ?m :: u32) = ?m" using of_nat_inverse [of ?m "of_nat ?m :: u32"] by simp
    then show ?thesis using True parse_step [of b r] Cons.IH [of "of_nat ?m"]
      by (auto simp: Let_def is_digit_def not_less split: option.splits)
  qed
qed

lemma parse_u32_spec:
  "parse_u32 bs = (if bs \<noteq> [] \<and> (\<forall>b \<in> set bs. is_digit b) \<and> decimal bs < 2 ^ 32 then Some (of_nat (decimal bs)) else None)"
  using parse_u32_loop_spec [of 0 bs] by (simp add: parse_u32_def decimal_def Let_def)


section \<open>Filling a slot\<close>

lemma add_full_eq:
  "add_user_full_internal uid nm pw gid guid ge ho sh db =
     (if nm = [] \<or> length nm > MAX_USERNAME_LEN then (False, db)
      else case update_first (\<lambda>u. \<not> u_active u) (fill_slot uid nm (hash_password pw) gid guid ge ho sh) (ud_users db) of
          Some us \<Rightarrow> (True, db\<lparr>ud_users := us\<rparr>)
        | None \<Rightarrow> (False, db))"
  by (simp add: add_user_full_internal_def fill_slot_def [abs_def])

lemma wf_db_update:
  assumes "wf_db db" and "update_first p f (ud_users db) = Some us" and "\<And>u. wf_user u \<Longrightarrow> wf_user (f u)"
  shows "wf_db (db\<lparr>ud_users := us\<rparr>)"
  using assms update_first_Some [OF assms(2)] by (force simp: wf_db_def)

text \<open>Adding a user whose name is new.\<close>

lemma find_name_added:
  assumes "update_first (\<lambda>u. \<not> u_active u) (fill_slot uid nm ph gid guid ge ho sh) us = Some us'"
    and "find (has_name nm) us = None"
  shows "\<exists>u. \<not> u_active u \<and> u \<in> set us \<and> (\<forall>nm'. find (has_name nm') us' =
     (if nm' = nm then Some (fill_slot uid nm ph gid guid ge ho sh u) else find (has_name nm') us))"
proof -
  obtain as x bs where s: "us = as @ x # bs" "\<not> u_active x" "us' = as @ fill_slot uid nm ph gid guid ge ho sh x # bs"
    using update_first_Some [OF assms(1)] by blast
  have "\<not> has_name nm' x" for nm' using s(2) by (simp add: has_name_def)
  moreover have "find (has_name nm) as = None" using assms(2) s(1) by (auto simp: find_split split: option.splits)
  ultimately show ?thesis using s
    by (intro exI [of _ x]) (auto simp: find_split has_name_fill_slot split: option.splits)
qed

text \<open>C20. Adding a user under a name that is not in use either succeeds - then the new user
  authenticates with exactly the passwords of the same hash, under the next UID, which is used up, and
  every other name authenticates as before - or fails, for a name that is empty or too long or because
  the table is full, and then authentication is unchanged. The tables stay well formed.\<close>

theorem add_user_authenticates:
  assumes wf: "wf_db db" and new: "get_user_by_name db nm = None"
  shows "case add_user nm pw gid db of
     (Some uid, db') \<Rightarrow> uid = ud_next_uid db \<and> ud_next_uid db' = uid + 1 \<and> wf_db db' \<and>
       (\<forall>nm' pw'. authenticate db' nm' pw' =
         (if nm' = nm then if hash_password pw' = hash_password pw then Some uid else None else authenticate db nm' pw'))
   | (None, db') \<Rightarrow> (nm = [] \<or> length nm > 32 \<or> (\<forall>u \<in> set (ud_users db). u_active u)) \<and>
       wf_db db' \<and> ud_users db' = ud_users db \<and> ud_next_uid db' = ud_next_uid db"
proof (cases "nm = [] \<or> length nm > 32")
  case True
  then show ?thesis using wf
    by (auto simp: add_user_def generate_guid_def add_user_with_id_def add_full_eq Let_def wf_db_def user_limits)
next
  case False
  let ?f = "fill_slot (ud_next_uid db) nm (hash_password pw) gid (ud_guid db + 1) [] (str ''/'') (str ''/apps/system/shell'')"
  show ?thesis
  proof (cases "update_first (\<lambda>u. \<not> u_active u) ?f (ud_users db)")
    case None
    then show ?thesis using False wf update_first_None [of "\<lambda>u. \<not> u_active u" ?f "ud_users db"]
      by (auto simp: add_user_def generate_guid_def add_user_with_id_def add_full_eq Let_def wf_db_def MAX_USERNAME_LEN_def)
  next
    case (Some us)
    have eq: "add_user nm pw gid db = (Some (ud_next_uid db), db\<lparr>ud_guid := ud_guid db + 1, ud_users := us, ud_next_uid := ud_next_uid db + 1\<rparr>)"
      using False Some by (simp add: add_user_def generate_guid_def add_user_with_id_def add_full_eq Let_def MAX_USERNAME_LEN_def)
    have "wf_db (db\<lparr>ud_users := us\<rparr>)"
      by (rule wf_db_update [OF wf Some]) (use False in \<open>simp add: wf_fill_slot MAX_USERNAME_LEN_def\<close>)
    then have "wf_db (db\<lparr>ud_guid := ud_guid db + 1, ud_users := us, ud_next_uid := ud_next_uid db + 1\<rparr>)" by (simp add: wf_db_def)
    moreover obtain u where "\<forall>nm'. find (has_name nm') us = (if nm' = nm then Some (?f u) else find (has_name nm') (ud_users db))"
      using find_name_added [OF Some] new by (auto simp: get_user_by_name_def)
    ultimately show ?thesis unfolding eq by (auto simp: authenticate_def Let_def)
  qed
qed

theorem add_user_authenticates_witness:
  "\<exists>db'. add_user (str ''bob'') (str ''pw'') 100 UserDatabase_new = (Some 1001, db') \<and> authenticate db' (str ''bob'') (str ''pw'') = Some 1001"
proof -
  have f: "find (has_name (str ''bob'')) (replicate n User_empty) = None" for n
    by (induction n) (auto simp: has_name_def User_empty_def)
  have act: "\<exists>u \<in> set (ud_users UserDatabase_new). \<not> u_active u"
    by (simp add: UserDatabase_new_def user_limits User_empty_def)
  show ?thesis
    using add_user_authenticates [OF wf_db_new, of "str ''bob''" "str ''pw''" 100] f act
    by (auto simp: get_user_by_name_def UserDatabase_new_def str_def split: prod.splits option.splits)
qed

text \<open>Any two passwords that differ by flipping bit 1 of the first byte and bit 0 of the second
  authenticate alike, in every database and for every name: the rotation of the hash moves the first flip
  onto the second. So the password \<open>pnot\<close> opens the \<open>root\<close> account that \<open>init\<close> creates.\<close>

lemma password_twist_accepted:
  "authenticate db nm ((a XOR 2) # (b XOR 1) # ps) = authenticate db nm (a # b # ps)"
  by (simp add: authenticate_def hash_twist)

section \<open>The password file\<close>

lemma parse_passwd_fields_lemma:
  assumes len: "length fs = 7" and sep: "\<forall>f \<in> set fs. 0x3A \<notin> set f"
    and start: "fs ! 0 \<noteq> []" "hd (fs ! 0) \<noteq> 0x23"
  shows "parse_passwd_line (join_fields 0x3A fs) db =
    (case (parse_u32 (fs ! 2), parse_u32 (fs ! 3)) of
       (Some uid, Some gid) \<Rightarrow>
         if length (fs ! 0) > 32 then (None, db)
         else (Some (fill_slot uid (fs ! 0) 0 gid (ud_guid db + 1) (fs ! 4) (fs ! 5) (fs ! 6) User_empty), db\<lparr>ud_guid := ud_guid db + 1\<rparr>)
     | _ \<Rightarrow> (None, db))"
proof -
  obtain nm g r where fs: "fs = nm # g # r" using len by (metis (no_types) length_Suc_conv numeral_eq_Suc pred_numeral_simps(2,3) One_nat_def)
  have line: "join_fields 0x3A fs \<noteq> []" "hd (join_fields 0x3A fs) \<noteq> 0x23"
    using start fs by (auto simp: hd_append)
  have "split_line (join_fields 0x3A fs) 0x3A = fs"
    unfolding split_line_ref using split_ref_join [of fs "0x3A" 7] sep len fs by simp
  then show ?thesis using line start len
    by (auto simp: parse_passwd_line_def generate_guid_def fill_slot_def MAX_USERNAME_LEN_def Let_def split: option.splits)
qed

lemma find_place:
  assumes same: "\<forall>u \<in> set xs. u_active u \<longrightarrow> (has_name nm u \<longleftrightarrow> u_uid u = uid)"
    and room: "\<exists>u \<in> set xs. \<not> u_active u \<or> u_uid u = uid" and x: "has_name nm x"
  shows "find (has_name nm) (place (\<lambda>u. u_active u \<and> u_uid u = uid) (\<lambda>u. \<not> u_active u) x xs) = Some x"
proof (cases "update_first (\<lambda>u. u_active u \<and> u_uid u = uid) (\<lambda>_. x) xs")
  case (Some xs')
  then obtain as y bs where s: "xs = as @ y # bs" "\<forall>a \<in> set as. \<not> (u_active a \<and> u_uid a = uid)" "xs' = as @ x # bs"
    using update_first_Some [OF Some] by blast
  then have "find (has_name nm) as = None" using same by (auto simp: find_None_iff has_name_def)
  then show ?thesis using Some s x by (simp add: place_def find_split)
next
  case None
  then have none: "\<forall>u \<in> set xs. \<not> has_name nm u" using same by (auto simp: update_first_None has_name_def)
  have "update_first (\<lambda>u. \<not> u_active u) (\<lambda>_. x) xs \<noteq> None" using None room by (auto simp: update_first_None)
  then obtain xs' where xs': "update_first (\<lambda>u. \<not> u_active u) (\<lambda>_. x) xs = Some xs'" by blast
  then obtain as y bs where s: "xs = as @ y # bs" "xs' = as @ x # bs" using update_first_Some [OF xs'] by blast
  then have "find (has_name nm) as = None" using none by (auto simp: find_None_iff)
  then show ?thesis using None xs' s x by (simp add: place_def find_split)
qed

text \<open>Decimal numbers, by the table of the ten digits: the value of a non-empty row of digits, and no
  value for anything else.\<close>

definition digit_value :: "byte \<Rightarrow> nat option" where
  "digit_value = map_of (zip (str ''0123456789'') [0..<10])"

definition decimal_number :: "byte list \<Rightarrow> nat option" where
  "decimal_number bs =
     (if bs = [] \<or> None \<in> digit_value ` set bs then None else Some (foldl (\<lambda>n b. 10 * n + the (digit_value b)) 0 bs))"

lemma digit_value_eq: "digit_value b = (if is_digit b then Some (unat (b - 48)) else None)"
proof (cases "is_digit b")
  case True
  then have "unat b \<in> {48..57}" by (simp add: is_digit_def word_le_nat_alt)
  then have "unat b = 48 \<or> unat b = 49 \<or> unat b = 50 \<or> unat b = 51 \<or> unat b = 52 \<or> unat b = 53 \<or> unat b = 54 \<or>
      unat b = 55 \<or> unat b = 56 \<or> unat b = 57" unfolding atLeastAtMost_iff by presburger
  then have "b = 48 \<or> b = 49 \<or> b = 50 \<or> b = 51 \<or> b = 52 \<or> b = 53 \<or> b = 54 \<or> b = 55 \<or> b = 56 \<or> b = 57"
    by (simp add: word_unat_eq_iff)
  then show ?thesis using True by (auto simp: digit_value_def str_def upt_rec)
next
  case False
  then have "b \<notin> set (str ''0123456789'')" by (auto simp: str_def is_digit_def)
  moreover have "length (str ''0123456789'') = length [0..<10]" by (simp add: str_def)
  ultimately show ?thesis using False map_of_zip_is_None by (metis digit_value_def)
qed

lemma decimal_number_eq:
  "decimal_number bs = (if bs \<noteq> [] \<and> (\<forall>b \<in> set bs. is_digit b) then Some (decimal bs) else None)"
proof -
  have "foldl (\<lambda>n b. 10 * n + the (digit_value b)) n bs = foldl (\<lambda>n b. n * 10 + unat (b - 48)) n bs" if "\<forall>b \<in> set bs. is_digit b" for n
    using that by (induction bs arbitrary: n) (simp_all add: digit_value_eq mult.commute)
  moreover have "None \<in> digit_value ` set bs \<longleftrightarrow> \<not> (\<forall>b \<in> set bs. is_digit b)" by (force simp: digit_value_eq)
  ultimately show ?thesis by (simp add: decimal_number_def decimal_def)
qed

text \<open>C37. A \<open>passwd\<close> line of seven colon-free fields, the first not empty and no comment, parses to exactly those fields - the
  user gets the name, the two numbers, which are decimal numbers below \<open>2\<^sup>3\<^sup>2\<close>, and the text fields cut to their tables -
  and is rejected exactly when the name is longer than 32 bytes or one of the two fields is not such a number.\<close>

theorem parse_passwd_fields:
  assumes "length fs = 7" and "\<forall>f \<in> set fs. 0x3A \<notin> set f" and "fs ! 0 \<noteq> []" and "hd (fs ! 0) \<noteq> 0x23"
  shows "case fst (parse_passwd_line (join_fields 0x3A fs) db) of
     None \<Rightarrow> length (fs ! 0) > 32 \<or> (\<exists>i \<in> {2, 3}. decimal_number (fs ! i) \<notin> Some ` {..<2 ^ 32})
   | Some u \<Rightarrow> length (fs ! 0) \<le> 32 \<and> username_bytes u = fs ! 0 \<and>
       decimal_number (fs ! 2) = Some (unat (u_uid u)) \<and> decimal_number (fs ! 3) = Some (unat (u_gid u)) \<and>
       gecos_bytes u = take 128 (fs ! 4) \<and> home_bytes u = take 64 (fs ! 5) \<and> shell_bytes u = take 64 (fs ! 6) \<and>
       u_active u \<and> wf_user u"
proof -
  have num: "parse_u32 bs = Some n \<Longrightarrow> decimal_number bs = Some (unat n)" for bs n
    by (auto simp: parse_u32_spec decimal_number_eq unat_of_nat split: if_splits)
  have bad: "parse_u32 bs = None \<Longrightarrow> decimal_number bs \<notin> Some ` {..<2 ^ 32}" for bs
    by (auto simp: parse_u32_spec decimal_number_eq split: if_splits)
  let ?P = "parse_passwd_line (join_fields 0x3A fs) db"
  note P = parse_passwd_fields_lemma [OF assms, of db]
  consider "parse_u32 (fs ! 2) = None" | "parse_u32 (fs ! 3) = None" | "length (fs ! 0) > 32"
    | uid gid where "parse_u32 (fs ! 2) = Some uid" "parse_u32 (fs ! 3) = Some gid" "length (fs ! 0) \<le> 32" by force
  then show ?thesis
  proof cases
    case 1 then show ?thesis using P bad [of "fs ! 2"] by (simp split: option.splits)
  next
    case 2 then show ?thesis using P bad [of "fs ! 3"] by (simp split: option.splits)
  next
    case 3 then show ?thesis using P by (auto split: option.splits)
  next
    case 4
    then have "fst ?P = Some (fill_slot uid (fs ! 0) 0 gid (ud_guid db + 1) (fs ! 4) (fs ! 5) (fs ! 6) User_empty)"
      using P by simp
    moreover have "wf_user (fill_slot uid (fs ! 0) 0 gid (ud_guid db + 1) (fs ! 4) (fs ! 5) (fs ! 6) User_empty)"
      using 4 by (intro wf_fill_slot wf_User_empty) (simp add: MAX_USERNAME_LEN_def)
    ultimately show ?thesis using 4 num
      by (simp add: username_bytes_def gecos_bytes_def home_bytes_def shell_bytes_def fill_slot_def set_shell_def set_home_def
        set_gecos_def Let_def copy_into_def User_empty_def user_limits min_def)
  qed
qed

theorem parse_passwd_fields_witness:
  "(case fst (parse_passwd_line (join_fields 0x3A [str ''bob'', str ''x'', str ''1001'', str ''100'', str ''Bob'', str ''/home/bob'', str ''/sh'']) UserDatabase_new) of
     None \<Rightarrow> False | Some u \<Rightarrow> shell_bytes u = str ''/sh'')"
  using parse_passwd_fields [of "[str ''bob'', str ''x'', str ''1001'', str ''100'', str ''Bob'', str ''/home/bob'', str ''/sh'']" UserDatabase_new]
  by (auto simp: str_def decimal_number_eq is_digit_def decimal_def split: option.splits)

text \<open>Loading a \<open>passwd\<close> line for a user that is already there (or a new one, if a slot is free)
  throws the password away: the account then opens exactly for the passwords whose hash is 0, and the
  configured password no longer does. Here no two active users share the name or the UID.\<close>

lemma load_passwd_resets_password:
  assumes "length fs = 7" and "\<forall>f \<in> set fs. 0x3A \<notin> set f \<and> 0x0D \<notin> set f" and "fs ! 0 \<noteq> []" and "hd (fs ! 0) \<noteq> 0x23"
    and "length (fs ! 0) \<le> 32" and "parse_u32 (fs ! 2) = Some uid" and "parse_u32 (fs ! 3) = Some gid"
    and "\<forall>u \<in> set (ud_users db). u_active u \<longrightarrow> (has_name (fs ! 0) u \<longleftrightarrow> u_uid u = uid)"
    and "\<exists>u \<in> set (ud_users db). \<not> u_active u \<or> u_uid u = uid"
  shows "authenticate (load_passwd_line db (join_fields 0x3A fs)) (fs ! 0) pw = (if hash_password pw = 0 then Some uid else None)"
proof -
  let ?u = "fill_slot uid (fs ! 0) 0 gid (ud_guid db + 1) (fs ! 4) (fs ! 5) (fs ! 6) User_empty"
  have jf: "set (join_fields d gs) \<subseteq> insert d (\<Union> (set ` set gs))" for d gs by (induction d gs rule: join_fields.induct) auto
  have "0x0D \<notin> set (join_fields 0x3A fs)" using jf [of "0x3A" fs] assms(2) by auto
  then have "strip_cr (join_fields 0x3A fs) = join_fields 0x3A fs"
    by (metis last_in_set strip_cr_def)
  moreover have "\<forall>f \<in> set fs. 0x3A \<notin> set f" using assms(2) by blast
  ultimately have "parse_passwd_line (strip_cr (join_fields 0x3A fs)) db = (Some ?u, db\<lparr>ud_guid := ud_guid db + 1\<rparr>)"
    using parse_passwd_fields_lemma [of fs db] assms(1,3-7) by simp
  moreover have "find (has_name (fs ! 0)) (place (\<lambda>u. u_active u \<and> u_uid u = uid) (\<lambda>u. \<not> u_active u) ?u (ud_users db)) = Some ?u"
    by (rule find_place) (use assms has_name_fill_slot in auto)
  ultimately show ?thesis by (simp add: authenticate_def load_passwd_line_def Let_def)
qed

lemma update_first_replicate: "p x \<Longrightarrow> update_first p f (replicate (Suc n) x) = Some (f x # replicate n x)"
  by simp

lemma add_full_slot:
  assumes "nm \<noteq> []" "length nm \<le> 32" "ud_users db = us @ replicate (Suc n) User_empty" "\<forall>u \<in> set us. u_active u"
  shows "add_user_full uid nm pw gid ge ho sh db = (True, db\<lparr>ud_guid := ud_guid db + 1,
    ud_users := us @ fill_slot uid nm (hash_password pw) gid (ud_guid db + 1) ge ho sh User_empty # replicate n User_empty\<rparr>)"
proof -
  have "update_first (\<lambda>u. \<not> u_active u) f (us @ replicate (Suc n) User_empty) = Some (us @ f User_empty # replicate n User_empty)" for f
    using assms(4) by (induction us) (auto simp: User_empty_def)
  then show ?thesis using assms(1-3)
    by (simp add: add_user_full_def generate_guid_def add_full_eq MAX_USERNAME_LEN_def del: replicate_Suc)
qed

lemma add_group_users: "ud_users (snd (add_group_with_id gid nm db)) = ud_users db" "ud_guid (snd (add_group_with_id gid nm db)) = ud_guid db"
  by (simp_all add: add_group_with_id_def split: option.splits)

lemma init_users_users:
  "\<exists>root guest. ud_users (init_users UserDatabase_new) = root # guest # replicate 30 User_empty \<and>
     root = fill_slot 0 (str ''root'') (hash_password (str ''root'')) 0 1 (str ''System Administrator'')
       (str ''/root'') (str ''C:/apps/system/shell'') User_empty \<and>
     guest = fill_slot 1000 (str ''guest'') (hash_password (str ''guest'')) 100 2 (str ''Guest User'')
       (str ''/home/guest'') (str ''C:/apps/system/shell'') User_empty"
proof -
  let ?gs = "snd (add_group_with_id 10 (str ''wheel'') (snd (add_group_with_id GID_USERS (str ''users'')
    (snd (add_group_with_id GID_ROOT (str ''root'') UserDatabase_new)))))"
  have "ud_users ?gs = [] @ replicate (Suc 31) User_empty" "ud_guid ?gs = 0"
    by (simp_all only: add_group_users) (simp_all add: UserDatabase_new_def MAX_USERS_def)
  note root = add_full_slot [OF _ _ this(1), of "str ''root''" UID_ROOT "str ''root''" GID_ROOT "str ''System Administrator''"
    "str ''/root''" "str ''C:/apps/system/shell''"] this(2)
  let ?db = "snd (add_user_full UID_ROOT (str ''root'') (str ''root'') GID_ROOT (str ''System Administrator'')
    (str ''/root'') (str ''C:/apps/system/shell'') ?gs)"
  have db: "ud_users ?db = [fill_slot 0 (str ''root'') (hash_password (str ''root'')) 0 1 (str ''System Administrator'')
       (str ''/root'') (str ''C:/apps/system/shell'') User_empty] @ replicate (Suc 30) User_empty" "ud_guid ?db = 1"
    using root by (simp_all add: str_def UID_ROOT_def GID_ROOT_def del: replicate_Suc)
  show ?thesis
    using add_full_slot [OF _ _ db(1), of "str ''guest''" UID_GUEST "str ''guest''" GID_USERS "str ''Guest User''"
      "str ''/home/guest''" "str ''C:/apps/system/shell''"] db(2)
    by (simp add: init_users_def Let_def str_def UID_GUEST_def GID_USERS_def)
qed

text \<open>A printable password whose hash is 0.\<close>

lemma hash_zero: "hash_password (str ''h```h`h`h`h`hh`h`h`h`h`h`h`h``h`h`h`h`h`h`h`hh`h`h`h`h`h`h`h'') = 0"
  by (simp add: hash_password_def str_def rotl7)

lemma load_passwd_resets_password_example:
  "let db = load_passwd_line (init_users UserDatabase_new)
       (join_fields 0x3A [str ''root'', str ''x'', str ''0'', str ''0'', str ''System Administrator'', str ''/root'', str ''/sh'']) in
   authenticate db (str ''root'') (str ''root'') = None \<and>
   authenticate db (str ''root'') (str ''h```h`h`h`h`hh`h`h`h`h`h`h`h``h`h`h`h`h`h`h`hh`h`h`h`h`h`h`h'') = Some 0"
proof -
  let ?fs = "[str ''root'', str ''x'', str ''0'', str ''0'', str ''System Administrator'', str ''/root'', str ''/sh'']"
  obtain root guest where us: "ud_users (init_users UserDatabase_new) = root # guest # replicate 30 User_empty"
    and u: "root = fill_slot 0 (str ''root'') (hash_password (str ''root'')) 0 1 (str ''System Administrator'')
       (str ''/root'') (str ''C:/apps/system/shell'') User_empty"
     "guest = fill_slot 1000 (str ''guest'') (hash_password (str ''guest'')) 100 2 (str ''Guest User'')
       (str ''/home/guest'') (str ''C:/apps/system/shell'') User_empty"
    using init_users_users by blast
  have e: "\<not> u_active User_empty" by (simp add: User_empty_def)
  have names: "\<forall>v \<in> set (ud_users (init_users UserDatabase_new)). u_active v \<longrightarrow> (has_name (str ''root'') v \<longleftrightarrow> u_uid v = 0)"
    unfolding us using e by (auto simp: u has_name_fill_slot) (simp_all add: str_def)
  have room: "\<exists>v \<in> set (ud_users (init_users UserDatabase_new)). \<not> u_active v \<or> u_uid v = 0"
    unfolding us using u(1) by simp
  have p: "parse_u32 (str ''0'') = Some 0" by (simp add: str_def parse_u32_spec is_digit_def decimal_def)
  have "hash_password (str ''root'') \<noteq> 0" by (simp add: hash_password_def str_def rotl7)
  then show ?thesis
    using load_passwd_resets_password [of ?fs 0 0 "init_users UserDatabase_new" "str ''root''"]
      load_passwd_resets_password [of ?fs 0 0 "init_users UserDatabase_new"
        "str ''h```h`h`h`h`hh`h`h`h`h`h`h`h``h`h`h`h`h`h`h`hh`h`h`h`h`h`h`h''"] names room p hash_zero
    by (simp add: Let_def) (simp add: str_def)
qed

end
