(* ===== verification/Vfs_Mount.thy ===== *)
theory Vfs_Mount
  imports Vfs_Types Paths
begin

text \<open>
  The mount table of \<^verbatim>\<open>src/crates/storage/vfs/src/mount.rs\<close> (path mounts, drive letters,
  resolution of a path to a filesystem and a path inside it) and the \<open>Vfs\<close> manager of
  \<^verbatim>\<open>src/crates/storage/vfs/src/lib.rs\<close> that dispatches on it.

  A boxed filesystem is an object of type \<open>'fs\<close>; the trait methods the manager calls are the
  fields of the dictionary \<open>fs_dict\<close>, operations on a world state \<open>'w\<close> (filesystems mutate
  themselves behind a shared reference). Two filesystem references are the same pointer when
  they are the same object.
\<close>

section \<open>Definitions\<close>

definition MAX_MOUNTS :: nat where
  "MAX_MOUNTS = 16"

definition MAX_DRIVES :: nat where
  "MAX_DRIVES = 26"

record 'fs mount_point =
  mp_path :: string
  mp_fs :: 'fs

definition MountPoint_new :: "string \<Rightarrow> 'fs \<Rightarrow> 'fs mount_point" where
  "MountPoint_new path fs = \<lparr>mp_path = normalize path, mp_fs = fs\<rparr>"

record 'fs drive_mount =
  dm_letter :: char
  dm_fs :: 'fs
  dm_label :: "string option"

definition DriveMount_new :: "char \<Rightarrow> 'fs \<Rightarrow> 'fs drive_mount" where
  "DriveMount_new letter fs =
     \<lparr>dm_letter = to_ascii_uppercase letter, dm_fs = fs, dm_label = None\<rparr>"

definition DriveMount_with_label :: "char \<Rightarrow> 'fs \<Rightarrow> string \<Rightarrow> 'fs drive_mount" where
  "DriveMount_with_label letter fs label =
     \<lparr>dm_letter = to_ascii_uppercase letter, dm_fs = fs, dm_label = Some label\<rparr>"

record 'fs mount_table =
  mt_mounts :: "'fs mount_point list"
  mt_drives :: "'fs drive_mount option list"

definition drive_index :: "char \<Rightarrow> nat option" where
  "drive_index letter =
     (let upper = (of_char (to_ascii_uppercase letter) :: nat)
      in if 65 \<le> upper \<and> upper \<le> 90 then Some (upper - 65) else None)"

definition MountTable_new :: "'fs mount_table" where
  "MountTable_new = \<lparr>mt_mounts = [], mt_drives = replicate MAX_DRIVES None\<rparr>"

text \<open>\<open>sort_by\<close> is a stable sort; comparing \<open>b.path.len()\<close> with \<open>a.path.len()\<close> orders by
  descending length.\<close>

definition mount :: "string \<Rightarrow> 'fs \<Rightarrow> ('fs mount_table, vfs_error, unit) op" where
  "mount path fs t =
     (let normalized = normalize path in
      if \<exists>m \<in> set (mt_mounts t). mp_path m = normalized then (Err AlreadyMounted, t)
      else if length (mt_mounts t) \<ge> MAX_MOUNTS then (Err TooManyOpenFiles, t)
      else (Ok (), t\<lparr>mt_mounts :=
              sort_key (\<lambda>m. - int (length (mp_path m))) (mt_mounts t @ [MountPoint_new normalized fs])\<rparr>))"

fun position :: "('a \<Rightarrow> bool) \<Rightarrow> 'a list \<Rightarrow> nat option" where
  "position P [] = None"
| "position P (x # xs) = (if P x then Some 0 else map_option Suc (position P xs))"

definition unmount :: "string \<Rightarrow> ('fs mount_table, vfs_error, unit) op" where
  "unmount path t =
     (let normalized = normalize path in
      case position (\<lambda>m. mp_path m = normalized) (mt_mounts t) of
        Some idx \<Rightarrow> (Ok (), t\<lparr>mt_mounts := take idx (mt_mounts t) @ drop (Suc idx) (mt_mounts t)\<rparr>)
      | None \<Rightarrow> (Err NotMounted, t))"

definition mount_drive :: "char \<Rightarrow> 'fs \<Rightarrow> ('fs mount_table, vfs_error, unit) op" where
  "mount_drive letter fs t =
     (case drive_index letter of
        None \<Rightarrow> (Err InvalidArgument, t)
      | Some idx \<Rightarrow>
          if mt_drives t ! idx \<noteq> None then (Err AlreadyMounted, t)
          else (Ok (), t\<lparr>mt_drives := (mt_drives t)[idx := Some (DriveMount_new letter fs)]\<rparr>))"

definition mount_drive_labeled ::
  "char \<Rightarrow> 'fs \<Rightarrow> string \<Rightarrow> ('fs mount_table, vfs_error, unit) op" where
  "mount_drive_labeled letter fs label t =
     (case drive_index letter of
        None \<Rightarrow> (Err InvalidArgument, t)
      | Some idx \<Rightarrow>
          if mt_drives t ! idx \<noteq> None then (Err AlreadyMounted, t)
          else (Ok (), t\<lparr>mt_drives := (mt_drives t)[idx := Some (DriveMount_with_label letter fs label)]\<rparr>))"

definition unmount_drive :: "char \<Rightarrow> ('fs mount_table, vfs_error, unit) op" where
  "unmount_drive letter t =
     (case drive_index letter of
        None \<Rightarrow> (Err InvalidArgument, t)
      | Some idx \<Rightarrow>
          if mt_drives t ! idx = None then (Err NotMounted, t)
          else (Ok (), t\<lparr>mt_drives := (mt_drives t)[idx := None]\<rparr>))"

definition get_drive :: "'fs mount_table \<Rightarrow> char \<Rightarrow> 'fs drive_mount option" where
  "get_drive t letter =
     (case drive_index letter of None \<Rightarrow> None | Some idx \<Rightarrow> mt_drives t ! idx)"

definition list_drives :: "'fs mount_table \<Rightarrow> 'fs drive_mount list" where
  "list_drives t = map the (filter (\<lambda>d. d \<noteq> None) (mt_drives t))"

definition resolve_drive ::
  "'fs mount_table \<Rightarrow> char \<Rightarrow> string \<Rightarrow> (vfs_error, 'fs \<times> string) res" where
  "resolve_drive t letter rel_path =
     (case drive_index letter of
        None \<Rightarrow> Err InvalidArgument
      | Some idx \<Rightarrow>
          (case mt_drives t ! idx of
             Some drive \<Rightarrow> Ok (dm_fs drive, rel_path)
           | None \<Rightarrow> Err NotMounted))"

text \<open>The loop over the mounts, which the table keeps longest path first.\<close>

fun find_mount :: "'fs mount_point list \<Rightarrow> string \<Rightarrow> (vfs_error, 'fs \<times> string) res" where
  "find_mount [] normalized = Err NotMounted"
| "find_mount (m # ms) normalized =
     (if normalized = mp_path m then Ok (mp_fs m, ''/'')
      else if take (length (mp_path m)) normalized = mp_path m then
        (let after = drop (length (mp_path m)) normalized
         in if mp_path m = ''/'' \<or> starts_with (CHR ''/'') after
            then Ok (mp_fs m, if mp_path m = ''/'' then normalized else after)
            else find_mount ms normalized)
      else find_mount ms normalized)"

definition resolve_path :: "'fs mount_table \<Rightarrow> string \<Rightarrow> (vfs_error, 'fs \<times> string) res" where
  "resolve_path t path = find_mount (mt_mounts t) (normalize path)"

definition resolve :: "'fs mount_table \<Rightarrow> string \<Rightarrow> (vfs_error, 'fs \<times> string) res" where
  "resolve t path =
     (let parsed = parse path
      in case pp_type parsed of
           Drive letter \<Rightarrow> resolve_drive t letter (pp_path parsed)
         | Unix \<Rightarrow> resolve_path t (pp_path parsed))"

definition is_mount_point :: "'fs mount_table \<Rightarrow> string \<Rightarrow> bool" where
  "is_mount_point t path = (\<exists>m \<in> set (mt_mounts t). mp_path m = normalize path)"

definition get_mount :: "'fs mount_table \<Rightarrow> string \<Rightarrow> 'fs mount_point option" where
  "get_mount t path = find (\<lambda>m. mp_path m = normalize path) (mt_mounts t)"

subsection \<open>The VFS manager\<close>

record ('fs, 'w, 'h, 'd) fs_dict =
  fs_open :: "'fs \<Rightarrow> string \<Rightarrow> file_mode \<Rightarrow> ('w, vfs_error, 'h) op"
  fs_stat :: "'fs \<Rightarrow> string \<Rightarrow> ('w, vfs_error, file_stat) op"
  fs_mkdir :: "'fs \<Rightarrow> string \<Rightarrow> ('w, vfs_error, unit) op"
  fs_unlink :: "'fs \<Rightarrow> string \<Rightarrow> ('w, vfs_error, unit) op"
  fs_rmdir :: "'fs \<Rightarrow> string \<Rightarrow> ('w, vfs_error, unit) op"
  fs_readdir :: "'fs \<Rightarrow> string \<Rightarrow> ('w, vfs_error, 'd list) op"
  fs_rename :: "'fs \<Rightarrow> string \<Rightarrow> string \<Rightarrow> ('w, vfs_error, unit) op"
  fs_chmod :: "'fs \<Rightarrow> string \<Rightarrow> u32 \<Rightarrow> ('w, vfs_error, unit) op"
  fs_chown :: "'fs \<Rightarrow> string \<Rightarrow> u32 \<Rightarrow> u32 \<Rightarrow> ('w, vfs_error, unit) op"

definition vfs_open where
  "vfs_open D t path mode = sbind (lift_res (resolve t path)) (\<lambda>(fs, rel). fs_open D fs rel mode)"

definition vfs_stat where
  "vfs_stat D t path = sbind (lift_res (resolve t path)) (\<lambda>(fs, rel). fs_stat D fs rel)"

definition vfs_mkdir where
  "vfs_mkdir D t path = sbind (lift_res (resolve t path)) (\<lambda>(fs, rel). fs_mkdir D fs rel)"

definition vfs_unlink where
  "vfs_unlink D t path = sbind (lift_res (resolve t path)) (\<lambda>(fs, rel). fs_unlink D fs rel)"

definition vfs_rmdir where
  "vfs_rmdir D t path = sbind (lift_res (resolve t path)) (\<lambda>(fs, rel). fs_rmdir D fs rel)"

definition vfs_readdir where
  "vfs_readdir D t path = sbind (lift_res (resolve t path)) (\<lambda>(fs, rel). fs_readdir D fs rel)"

definition vfs_rename ::
  "('fs, 'w, 'h, 'd) fs_dict \<Rightarrow> 'fs mount_table \<Rightarrow> string \<Rightarrow> string \<Rightarrow> ('w, vfs_error, unit) op" where
  "vfs_rename D t old_path new_path =
     sbind (lift_res (resolve t old_path)) (\<lambda>(old_fs, old_rel).
     sbind (lift_res (resolve t new_path)) (\<lambda>(new_fs, new_rel).
       if old_fs \<noteq> new_fs then lift_res (Err CrossDevice)
       else fs_rename D old_fs old_rel new_rel))"

definition vfs_chmod where
  "vfs_chmod D t path mode = sbind (lift_res (resolve t path)) (\<lambda>(fs, rel). fs_chmod D fs rel mode)"

definition vfs_chown where
  "vfs_chown D t path uid gid =
     sbind (lift_res (resolve t path)) (\<lambda>(fs, rel). fs_chown D fs rel uid gid)"

text \<open>The global instance: \<open>None\<close> until \<open>init\<close> runs.\<close>

definition vfs_init :: "'fs mount_table option" where
  "vfs_init = Some MountTable_new"

definition with_vfs ::
  "('fs mount_table, vfs_error, 'a) op \<Rightarrow> ('fs mount_table option, vfs_error, 'a) op" where
  "with_vfs f g = (case g of
      Some v \<Rightarrow> (let (r, v') = f v in (r, Some v'))
    | None \<Rightarrow> (Err NotInitialized, None))"

definition global_mount :: "string \<Rightarrow> 'fs \<Rightarrow> ('fs mount_table option, vfs_error, unit) op" where
  "global_mount path fs = with_vfs (mount path fs)"

definition global_mount_drive :: "char \<Rightarrow> 'fs \<Rightarrow> ('fs mount_table option, vfs_error, unit) op" where
  "global_mount_drive letter fs = with_vfs (mount_drive letter fs)"

definition global_mount_drive_labeled ::
  "char \<Rightarrow> 'fs \<Rightarrow> string \<Rightarrow> ('fs mount_table option, vfs_error, unit) op" where
  "global_mount_drive_labeled letter fs label = with_vfs (mount_drive_labeled letter fs label)"

definition global_unmount_drive :: "char \<Rightarrow> ('fs mount_table option, vfs_error, unit) op" where
  "global_unmount_drive letter = with_vfs (unmount_drive letter)"

section \<open>Invariant and specification\<close>

definition wf_mounts :: "'fs mount_point list \<Rightarrow> bool" where
  "wf_mounts ms \<longleftrightarrow>
     sorted (map (\<lambda>m. - int (length (mp_path m))) ms) \<and> distinct (map mp_path ms) \<and>
     length ms \<le> MAX_MOUNTS \<and> (\<forall>m \<in> set ms. normalize (mp_path m) = mp_path m)"

definition wf_drive :: "nat \<Rightarrow> 'fs drive_mount option \<Rightarrow> bool" where
  "wf_drive i d \<longleftrightarrow> (case d of None \<Rightarrow> True | Some m \<Rightarrow> drive_index (dm_letter m) = Some i)"

definition wf_table :: "'fs mount_table \<Rightarrow> bool" where
  "wf_table t \<longleftrightarrow> wf_mounts (mt_mounts t) \<and> length (mt_drives t) = MAX_DRIVES \<and>
     (\<forall>i < MAX_DRIVES. wf_drive i (mt_drives t ! i))"

text \<open>A mount covers a normalised path when the path is the mount point or lies below it.\<close>

definition covers :: "string \<Rightarrow> string \<Rightarrow> bool" where
  "covers mp p \<longleftrightarrow> p = mp \<or> mp = ''/'' \<and> starts_with (CHR ''/'') p \<or> (\<exists>rest. p = mp @ CHR ''/'' # rest)"

definition best_mount :: "'fs mount_table \<Rightarrow> string \<Rightarrow> 'fs mount_point \<Rightarrow> bool" where
  "best_mount t p m \<longleftrightarrow> m \<in> set (mt_mounts t) \<and> covers (mp_path m) p \<and>
     (\<forall>m' \<in> set (mt_mounts t). covers (mp_path m') p \<longrightarrow> m' = m \<or> length (mp_path m') < length (mp_path m))"

definition path_below :: "string \<Rightarrow> string \<Rightarrow> string" where
  "path_below mp p = (if p = mp then ''/'' else if mp = ''/'' then p else drop (length mp) p)"

section \<open>Lemmas\<close>

lemma covers_take: "covers mp p \<Longrightarrow> take (length mp) p = mp"
  by (auto simp: covers_def starts_with_def) (cases p; auto)

lemma find_mount_test:
  "(take (length mp) p = mp \<and> (mp = ''/'' \<or> starts_with (CHR ''/'') (drop (length mp) p)) \<or> p = mp) = covers mp p"
proof
  assume "take (length mp) p = mp \<and> (mp = ''/'' \<or> starts_with (CHR ''/'') (drop (length mp) p)) \<or> p = mp"
  then show "covers mp p"
  proof (elim disjE conjE)
    assume t: "take (length mp) p = mp" and "starts_with (CHR ''/'') (drop (length mp) p)"
    then obtain rest where "drop (length mp) p = CHR ''/'' # rest"
      by (cases "drop (length mp) p") (auto simp: starts_with_def)
    then have "p = mp @ CHR ''/'' # rest" using t by (metis append_take_drop_id)
    then show ?thesis by (auto simp: covers_def)
  qed (cases p; auto simp: covers_def starts_with_def)+
next
  assume "covers mp p"
  then show "take (length mp) p = mp \<and> (mp = ''/'' \<or> starts_with (CHR ''/'') (drop (length mp) p)) \<or> p = mp"
    using covers_take [of mp p] by (auto simp: covers_def starts_with_def)
qed

lemma find_mount_step:
  "find_mount (m # ms) p =
     (if covers (mp_path m) p then Ok (mp_fs m, path_below (mp_path m) p) else find_mount ms p)"
  unfolding find_mount_test [symmetric] by (auto simp: path_below_def Let_def)

lemma covers_same_length: "covers a p \<Longrightarrow> covers b p \<Longrightarrow> length a = length b \<Longrightarrow> a = b"
  by (metis covers_take)

lemma find_mount_find:
  "find_mount ms p = (case find (\<lambda>m. covers (mp_path m) p) ms of
      None \<Rightarrow> Err NotMounted
    | Some m \<Rightarrow> Ok (mp_fs m, path_below (mp_path m) p))"
  by (induction ms) (simp_all add: find_mount_step del: find_mount.simps(2))

lemma find_longest:
  assumes "sorted (map (\<lambda>m. - int (length (mp_path m))) ms)" "distinct (map mp_path ms)"
    and "find (\<lambda>m. covers (mp_path m) p) ms = Some m"
    and "m' \<in> set ms" "covers (mp_path m') p"
  shows "m' = m \<or> length (mp_path m') < length (mp_path m)"
  using assms
proof (induction ms)
  case (Cons x ms)
  show ?case
  proof (cases "covers (mp_path x) p")
    case True
    then have m: "m = x" using Cons.prems(3) by simp
    show ?thesis
    proof (cases "m' = x")
      case False
      then have "m' \<in> set ms" using Cons.prems(4) by simp
      moreover have "mp_path x \<notin> mp_path ` set ms" using Cons.prems(2) by simp
      ultimately have "mp_path m' \<noteq> mp_path x" by (rule not_image_neq [rotated])
      moreover have "length (mp_path m') \<le> length (mp_path x)"
        using Cons.prems(1) \<open>m' \<in> set ms\<close> by simp
      ultimately show ?thesis
        using covers_same_length [OF Cons.prems(5) True] m le_neq_implies_less by blast
    qed (simp add: m)
  next
    case False
    then have "m' \<in> set ms" using Cons.prems(4,5) by auto
    with False show ?thesis using Cons.IH Cons.prems by simp
  qed
qed simp

lemma best_mount_iff_find:
  assumes "wf_mounts (mt_mounts t)"
  shows "best_mount t p m \<longleftrightarrow> find (\<lambda>m. covers (mp_path m) p) (mt_mounts t) = Some m"
proof
  assume best: "best_mount t p m"
  then obtain x where x: "find (\<lambda>m. covers (mp_path m) p) (mt_mounts t) = Some x"
    by (cases "find (\<lambda>m. covers (mp_path m) p) (mt_mounts t)")
      (auto simp: best_mount_def find_None_iff)
  then have "x \<in> set (mt_mounts t)" "covers (mp_path x) p"
    by (metis find_Some_iff nth_mem)+
  moreover have "m = x \<or> length (mp_path m) < length (mp_path x)"
    using find_longest [OF _ _ x, of m] assms best by (simp add: wf_mounts_def best_mount_def)
  ultimately have "x = m" using best unfolding best_mount_def by (metis less_asym)
  then show "find (\<lambda>m. covers (mp_path m) p) (mt_mounts t) = Some m" using x by simp
next
  assume f: "find (\<lambda>m. covers (mp_path m) p) (mt_mounts t) = Some m"
  then have "m \<in> set (mt_mounts t)" "covers (mp_path m) p"
    by (metis find_Some_iff nth_mem)+
  then show "best_mount t p m"
    using find_longest [OF _ _ f] assms by (simp add: best_mount_def wf_mounts_def)
qed

lemma find_mount_Ok:
  assumes "wf_mounts (mt_mounts t)"
  shows "resolve_path t path = Ok (fs, rel) \<longleftrightarrow>
    (\<exists>m. best_mount t (normalize path) m \<and> fs = mp_fs m \<and> rel = path_below (mp_path m) (normalize path))"
  unfolding resolve_path_def find_mount_find best_mount_iff_find [OF assms]
  by (auto split: option.splits)

lemma wf_mounts_mount:
  assumes "wf_mounts ms" "normalize p \<notin> mp_path ` set ms" "length ms < MAX_MOUNTS"
  shows "wf_mounts (sort_key (\<lambda>m. - int (length (mp_path m))) (ms @ [MountPoint_new (normalize p) fs]))"
    (is "wf_mounts ?ms")
proof -
  have idem: "normalize (normalize p) = normalize p"
    using normalize_is_show [of p] normalize_of_show by metis
  have set: "set ?ms = set (ms @ [MountPoint_new (normalize p) fs])" by simp
  have "distinct (map mp_path (ms @ [MountPoint_new (normalize p) fs]))"
    using assms by (auto simp: wf_mounts_def MountPoint_new_def idem)
  then have "distinct (map mp_path ?ms)"
    by (metis distinct_map distinct_sort set)
  then show ?thesis
    using assms by (auto simp: wf_mounts_def MountPoint_new_def idem)
qed

lemma position_Some:
  "position P xs = Some i \<Longrightarrow> i < length xs \<and> P (xs ! i)"
  by (induction xs arbitrary: i) (auto split: if_splits)

lemma position_None: "position P xs = None \<longleftrightarrow> (\<forall>x \<in> set xs. \<not> P x)"
  by (induction xs) auto

lemma wf_mounts_remove:
  assumes "wf_mounts ms"
  shows "wf_mounts (take i ms @ drop (Suc i) ms)"
proof (cases "i < length ms")
  case True
  have "ms = take i ms @ ms ! i # drop (Suc i) ms"
    using True by (rule id_take_nth_drop)
  then obtain l x r where ms: "ms = l @ x # r" "take i ms @ drop (Suc i) ms = l @ r" by metis
  then show ?thesis using assms by (auto simp: wf_mounts_def sorted_append)
next
  case False
  then show ?thesis using assms by simp
qed

lemma drive_index_bound: "drive_index c = Some i \<Longrightarrow> i < MAX_DRIVES"
  by (auto simp: drive_index_def MAX_DRIVES_def Let_def split: if_splits)

lemma drive_index_upper: "drive_index (to_ascii_uppercase c) = drive_index c"
  by (auto simp: drive_index_def to_ascii_uppercase_def Let_def)

lemma wf_table_new: "wf_table MountTable_new"
  by (simp add: wf_table_def MountTable_new_def wf_mounts_def wf_drive_def)

lemma wf_drives_upd:
  "wf_table t \<Longrightarrow> wf_drive idx d \<Longrightarrow> wf_table (t\<lparr>mt_drives := (mt_drives t)[idx := d]\<rparr>)"
  by (cases "idx < length (mt_drives t)") (auto simp: wf_table_def nth_list_update list_update_beyond)

lemma mount_wf: "wf_table t \<Longrightarrow> mount p fs t = (r, t') \<Longrightarrow> wf_table t'"
proof (cases "normalize p \<in> mp_path ` set (mt_mounts t) \<or> length (mt_mounts t) \<ge> MAX_MOUNTS")
  case True
  moreover assume "wf_table t" "mount p fs t = (r, t')"
  ultimately show ?thesis by (auto simp: mount_def Let_def split: if_splits)
next
  case False
  assume "wf_table t" "mount p fs t = (r, t')"
  then show ?thesis
    using False wf_mounts_mount [of "mt_mounts t" p fs]
    by (auto simp: mount_def wf_table_def Let_def split: if_splits)
qed

lemma unmount_wf: "wf_table t \<Longrightarrow> unmount p t = (r, t') \<Longrightarrow> wf_table t'"
  using wf_mounts_remove [of "mt_mounts t"]
  by (auto simp: unmount_def wf_table_def Let_def split: option.splits)

lemma mount_drive_wf: "wf_table t \<Longrightarrow> mount_drive c fs t = (r, t') \<Longrightarrow> wf_table t'"
  by (auto simp: mount_drive_def split: option.splits if_splits
      intro!: wf_drives_upd simp: wf_drive_def DriveMount_new_def drive_index_upper)

lemma mount_drive_labeled_wf: "wf_table t \<Longrightarrow> mount_drive_labeled c fs l t = (r, t') \<Longrightarrow> wf_table t'"
  by (auto simp: mount_drive_labeled_def split: option.splits if_splits
      intro!: wf_drives_upd simp: wf_drive_def DriveMount_with_label_def drive_index_upper)

lemma unmount_drive_wf: "wf_table t \<Longrightarrow> unmount_drive c t = (r, t') \<Longrightarrow> wf_table t'"
  by (auto simp: unmount_drive_def split: option.splits if_splits intro!: wf_drives_upd simp: wf_drive_def)

lemmas table_ops_wf = mount_wf unmount_wf mount_drive_wf mount_drive_labeled_wf unmount_drive_wf


lemma resolve_path_NotMounted:
  "resolve_path t path = Err NotMounted \<longleftrightarrow> (\<forall>m \<in> set (mt_mounts t). \<not> covers (mp_path m) (normalize path))"
proof -
  have "resolve_path t path = Err NotMounted \<longleftrightarrow>
      find (\<lambda>m. covers (mp_path m) (normalize path)) (mt_mounts t) = None"
    unfolding resolve_path_def find_mount_find by (auto split: option.splits)
  then show ?thesis by (auto simp: find_None_iff)
qed

lemma resolve_path_cases: "(\<exists>f r. resolve_path t q = Ok (f, r)) \<or> resolve_path t q = Err NotMounted"
  unfolding resolve_path_def find_mount_find by (auto split: option.splits)

lemma mount_Ok:
  assumes "mount p fs t = (Ok (), t')"
  shows "set (mt_mounts t') = insert \<lparr>mp_path = normalize p, mp_fs = fs\<rparr> (set (mt_mounts t))"
    and "normalize p \<notin> mp_path ` set (mt_mounts t)"
    and "mt_mounts t' = sort_key (\<lambda>m. - int (length (mp_path m))) (mt_mounts t @ [\<lparr>mp_path = normalize p, mp_fs = fs\<rparr>])"
    and "mt_drives t' = mt_drives t"
  using assms normalize_is_show [of p] normalize_of_show
  by (auto simp: mount_def MountPoint_new_def Let_def split: if_splits)

lemma covers_refl: "covers p p"
  by (simp add: covers_def)

lemma covers_length: "covers mp p \<Longrightarrow> length mp \<le> length p"
  by (metis covers_take length_take min.cobounded1 min.commute)

lemma remove_position:
  "distinct (map f xs) \<Longrightarrow> position (\<lambda>x. f x = a) xs = Some i \<Longrightarrow>
   take i xs @ drop (Suc i) xs = filter (\<lambda>x. f x \<noteq> a) xs"
proof (induction xs arbitrary: i)
  case (Cons x xs)
  show ?case
  proof (cases "f x = a")
    case True
    then have "a \<notin> f ` set xs" using Cons.prems by auto
    then have "\<forall>y \<in> set xs. f y \<noteq> a" by blast
    then have "filter (\<lambda>y. f y \<noteq> a) xs = xs" by simp
    then show ?thesis using True Cons.prems by auto
  next
    case False
    then show ?thesis using Cons by auto
  qed
qed simp

section \<open>Properties\<close>

text \<open>C19. Every operation on the mount table keeps it well formed, whether it succeeds or fails:
  mounts sorted by descending path length, mount paths normalised and pairwise different, at
  most sixteen of them, and every drive slot holding only the drive of its own letter.\<close>

theorem mount_table_invariant:
  assumes "wf_table t"
  shows "wf_table (snd (mount p fs t)) \<and> wf_table (snd (unmount p t)) \<and>
    wf_table (snd (mount_drive c fs t)) \<and> wf_table (snd (mount_drive_labeled c fs l t)) \<and>
    wf_table (snd (unmount_drive c t))"
  by (intro conjI table_ops_wf [OF assms prod.collapse [symmetric]])

theorem mount_table_invariant_witness:
  "wf_table (MountTable_new :: nat mount_table) \<and>
   wf_table (snd (mount ''/mnt'' (1 :: nat) MountTable_new))"
proof -
  have h: "wf_table (MountTable_new :: nat mount_table)" by (rule wf_table_new)
  show ?thesis using h mount_table_invariant [OF h] by blast
qed

text \<open>C18. Resolution is longest-prefix matching: a path resolves to a filesystem exactly when
  some mount covers its normal form and every other covering mount has a strictly shorter path;
  the result is that mount's filesystem and the part of the path below the mount point. It fails
  with \<open>NotMounted\<close> exactly when no mount covers the path.\<close>

theorem resolve_path_longest_prefix:
  assumes "wf_table t"
  shows "(resolve_path t path = Ok (fs, rel) \<longleftrightarrow>
      (\<exists>m. best_mount t (normalize path) m \<and> fs = mp_fs m \<and> rel = path_below (mp_path m) (normalize path))) \<and>
    (resolve_path t path = Err NotMounted \<longleftrightarrow>
      \<not> (\<exists>m. m \<in> set (mt_mounts t) \<and> covers (mp_path m) (normalize path)))"
  using assms by (auto simp: wf_table_def find_mount_Ok resolve_path_NotMounted)

theorem resolve_path_longest_prefix_witness:
  "wf_table (snd (mount ''/'' (1 :: nat) MountTable_new)) \<and>
   \<not> (resolve_path (snd (mount ''/'' (1 :: nat) MountTable_new)) ''/etc'' = Err NotMounted)"
proof -
  have h: "wf_table (snd (mount ''/'' (1 :: nat) MountTable_new))"
    by (rule mount_wf [OF wf_table_new prod.collapse [symmetric]])
  have n: "normalize ''/'' = ''/''" "normalize ''/etc'' = ''/etc''" by code_simp+
  have "\<lparr>mp_path = ''/'', mp_fs = 1\<rparr> \<in> set (mt_mounts (snd (mount ''/'' (1 :: nat) MountTable_new)))"
    by (simp add: mount_def MountTable_new_def MountPoint_new_def MAX_MOUNTS_def n)
  moreover have "covers ''/'' ''/etc''" by (simp add: covers_def starts_with_def)
  ultimately show ?thesis
    using h resolve_path_longest_prefix [OF h, of "''/etc''"] n(2)
    by (metis mount_point.select_convs(1))
qed

text \<open>Mounting makes the filesystem reachable at its path and changes nothing else: after a
  successful mount the path resolves to the root of that filesystem, and every path that does
  not lie at or below the new mount point resolves as before.\<close>

lemma mount_then_resolve:
  assumes "wf_table t" and "mount p fs t = (Ok (), t')"
  shows "resolve_path t' p = Ok (fs, ''/'') \<and>
    (covers (normalize p) (normalize q) \<or> resolve_path t' q = resolve_path t q)"
proof
  let ?m = "\<lparr>mp_path = normalize p, mp_fs = fs\<rparr>"
  note new = mount_Ok [OF assms(2)]
  have wf': "wf_mounts (mt_mounts t')" and wf: "wf_mounts (mt_mounts t)"
    using mount_wf [OF assms] assms(1) by (auto simp: wf_table_def)
  have "m' = ?m \<or> length (mp_path m') < length (normalize p)"
    if "m' \<in> set (mt_mounts t')" "covers (mp_path m') (normalize p)" for m'
  proof (cases "m' = ?m")
    case False
    then have "m' \<in> set (mt_mounts t)" using that(1) new(1) by simp
    then have "mp_path m' \<noteq> normalize p" using new(2) by (rule not_image_neq [rotated])
    then show ?thesis
      using covers_length [OF that(2)] covers_same_length [OF that(2) covers_refl] by force
  qed simp
  then have "best_mount t' (normalize p) ?m"
    using new(1) by (simp add: best_mount_def covers_refl)
  then show "resolve_path t' p = Ok (fs, ''/'')"
    unfolding find_mount_Ok [OF wf'] by (intro exI [of _ ?m]) (simp add: path_below_def)
  show "covers (normalize p) (normalize q) \<or> resolve_path t' q = resolve_path t q"
  proof (cases "covers (normalize p) (normalize q)")
    case False
    then have b: "best_mount t' (normalize q) m \<longleftrightarrow> best_mount t (normalize q) m" for m
      using new(1) by (auto simp: best_mount_def)
    have "resolve_path t' q = Err NotMounted \<longleftrightarrow> resolve_path t q = Err NotMounted"
      using False new(1) by (simp add: resolve_path_NotMounted)
    moreover have "resolve_path t' q = Ok (f, r) \<longleftrightarrow> resolve_path t q = Ok (f, r)" for f r
      by (simp add: find_mount_Ok wf wf' b)
    moreover have "(\<exists>f r. resolve_path t q = Ok (f, r)) \<or> resolve_path t q = Err NotMounted"
      by (rule resolve_path_cases)
    ultimately show ?thesis by metis
  qed simp
qed

lemma mount_then_resolve_example:
  "\<exists>t'. mount ''/mnt'' (1 :: nat) MountTable_new = (Ok (), t') \<and> resolve_path t' ''/mnt'' = Ok (1, ''/'')"
proof -
  obtain t' where h: "mount ''/mnt'' (1 :: nat) MountTable_new = (Ok (), t')"
    by (simp add: mount_def MountTable_new_def MAX_MOUNTS_def Let_def)
  show ?thesis using h mount_then_resolve [OF wf_table_new h] by blast
qed

text \<open>Unmounting undoes mounting: on a well-formed table, unmounting the path that was just
  mounted restores the table exactly, order included.\<close>

lemma unmount_mount_roundtrip:
  assumes "wf_table t" and "mount p fs t = (Ok (), t')"
  shows "unmount p t' = (Ok (), t)"
proof -
  let ?k = "\<lambda>m :: 'a mount_point. - int (length (mp_path m))" and ?m = "\<lparr>mp_path = normalize p, mp_fs = fs\<rparr>"
  note new = mount_Ok [OF assms(2)]
  have wf': "wf_mounts (mt_mounts t')" and wf: "wf_mounts (mt_mounts t)"
    using mount_wf [OF assms] assms(1) by (auto simp: wf_table_def)
  obtain i where i: "position (\<lambda>m. mp_path m = normalize p) (mt_mounts t') = Some i"
    using position_None [of "\<lambda>m. mp_path m = normalize p" "mt_mounts t'"] new(1)
    by (cases "position (\<lambda>m. mp_path m = normalize p) (mt_mounts t')") auto
  have "take i (mt_mounts t') @ drop (Suc i) (mt_mounts t') = filter (\<lambda>m. mp_path m \<noteq> normalize p) (mt_mounts t')"
    by (rule remove_position [OF _ i]) (use wf' in \<open>simp add: wf_mounts_def\<close>)
  also have "\<dots> = sort_key ?k (filter (\<lambda>m. mp_path m \<noteq> normalize p) (mt_mounts t @ [?m]))"
    by (simp add: new(3) filter_sort)
  also have "filter (\<lambda>m. mp_path m \<noteq> normalize p) (mt_mounts t @ [?m]) = mt_mounts t"
    using not_image_neq [OF new(2)] by simp
  also have "sort_key ?k (mt_mounts t) = mt_mounts t"
    by (rule sort_key_id_if_sorted) (use wf in \<open>simp add: wf_mounts_def\<close>)
  finally have "take i (mt_mounts t') @ drop (Suc i) (mt_mounts t') = mt_mounts t" .
  moreover have "t' = t\<lparr>mt_mounts := mt_mounts t'\<rparr>"
    using assms(2) by (auto simp: mount_def Let_def split: if_splits)
  ultimately show ?thesis
    using i by (simp add: unmount_def) (metis mount_table.surjective mount_table.update_convs(1))
qed

lemma unmount_mount_roundtrip_example:
  "\<exists>t'. mount ''/mnt'' (1 :: nat) MountTable_new = (Ok (), t') \<and> unmount ''/mnt'' t' = (Ok (), MountTable_new)"
proof -
  obtain t' where h: "mount ''/mnt'' (1 :: nat) MountTable_new = (Ok (), t')"
    by (simp add: mount_def MountTable_new_def MAX_MOUNTS_def Let_def)
  show ?thesis using h unmount_mount_roundtrip [OF wf_table_new h] by blast
qed

end
