(* ===== verification/Vfs_Permissions.thy ===== *)
theory Vfs_Permissions
  imports Vfs_Types
begin

text \<open>
  Permission checking, \<^verbatim>\<open>src/crates/storage/vfs/src/permissions.rs\<close>: credentials with
  supplementary groups, the access check on mode bits, chmod/chown/delete rules and the mode
  formatters. \<open>get_current_credentials\<close> (inline system calls) is not modelled.

  The abstract specification is a policy on sets of permissions: every file grants a set of
  permissions to a process, by owner, group or other class, and the root user is granted
  everything but execution of a file nobody may execute.
\<close>

section \<open>Definitions\<close>

definition S_IRUSR :: u32 where "S_IRUSR = 0x100"
definition S_IWUSR :: u32 where "S_IWUSR = 0x80"
definition S_IXUSR :: u32 where "S_IXUSR = 0x40"
definition S_IRGRP :: u32 where "S_IRGRP = 0x20"
definition S_IWGRP :: u32 where "S_IWGRP = 0x10"
definition S_IXGRP :: u32 where "S_IXGRP = 0x8"
definition S_IROTH :: u32 where "S_IROTH = 0x4"
definition S_IWOTH :: u32 where "S_IWOTH = 0x2"
definition S_IXOTH :: u32 where "S_IXOTH = 0x1"
definition S_ISUID :: u32 where "S_ISUID = 0x800"
definition S_ISGID :: u32 where "S_ISGID = 0x400"
definition S_ISVTX :: u32 where "S_ISVTX = 0x200"
definition NGROUPS_MAX :: nat where "NGROUPS_MAX = 16"

lemmas mode_bits = S_IRUSR_def S_IWUSR_def S_IXUSR_def S_IRGRP_def S_IWGRP_def S_IXGRP_def
  S_IROTH_def S_IWOTH_def S_IXOTH_def S_ISUID_def S_ISGID_def S_ISVTX_def

datatype access_mode = Read | Write | Execute | ReadWrite | Exists

record credentials =
  cr_uid :: u32
  cr_gid :: u32
  cr_euid :: u32
  cr_egid :: u32
  cr_groups :: "u32 list"
  cr_ngroups :: nat

definition Credentials_root :: credentials where
  "Credentials_root = \<lparr>cr_uid = 0, cr_gid = 0, cr_euid = 0, cr_egid = 0,
     cr_groups = replicate NGROUPS_MAX 0, cr_ngroups = 0\<rparr>"

definition Credentials_new :: "u32 \<Rightarrow> u32 \<Rightarrow> credentials" where
  "Credentials_new uid gid = \<lparr>cr_uid = uid, cr_gid = gid, cr_euid = uid, cr_egid = gid,
     cr_groups = replicate NGROUPS_MAX 0, cr_ngroups = 0\<rparr>"

definition is_root :: "credentials \<Rightarrow> bool" where
  "is_root creds = (cr_euid creds = 0)"

text \<open>The loop \<open>for i in 0..self.ngroups\<close>: the array access panics past the array, which the
  public field \<open>ngroups\<close> allows.\<close>

fun group_loop :: "u32 list \<Rightarrow> u32 \<Rightarrow> nat list \<Rightarrow> (vfs_error, bool) res" where
  "group_loop groups gid [] = Ok False"
| "group_loop groups gid (i # is) =
     (if i < length groups
      then (if groups ! i = gid then Ok True else group_loop groups gid is)
      else Panic)"

definition in_group :: "credentials \<Rightarrow> u32 \<Rightarrow> (vfs_error, bool) res" where
  "in_group creds gid =
     (if cr_egid creds = gid then Ok True
      else group_loop (cr_groups creds) gid [0..<cr_ngroups creds])"

definition add_group :: "credentials \<Rightarrow> u32 \<Rightarrow> (vfs_error, bool \<times> credentials) res" where
  "add_group creds gid =
     (if cr_ngroups creds \<ge> NGROUPS_MAX then Ok (False, creds)
      else rbind (in_group creds gid) (\<lambda>already.
        if already then Ok (True, creds)
        else Ok (True, creds\<lparr>cr_groups := (cr_groups creds)[cr_ngroups creds := gid],
                             cr_ngroups := cr_ngroups creds + 1\<rparr>)))"

definition required_bits :: "access_mode \<Rightarrow> u32" where
  "required_bits a =
     (case a of Read \<Rightarrow> 4 | Write \<Rightarrow> 2 | Execute \<Rightarrow> 1 | ReadWrite \<Rightarrow> 6 | Exists \<Rightarrow> 0)"

definition check_permission ::
  "credentials \<Rightarrow> file_stat \<Rightarrow> access_mode \<Rightarrow> (vfs_error, unit) res" where
  "check_permission creds stat acc =
     (if acc = Exists then Ok ()
      else if is_root creds then
        (if acc = Execute \<and> st_mode stat AND (S_IXUSR OR S_IXGRP OR S_IXOTH) = 0
         then Err PermissionDenied else Ok ())
      else
        rbind (if cr_euid creds = st_uid stat then Ok (drop_bit 6 (st_mode stat) AND 7)
               else rbind (in_group creds (st_gid stat)) (\<lambda>g.
                 if g then Ok (drop_bit 3 (st_mode stat) AND 7) else Ok (st_mode stat AND 7)))
          (\<lambda>perm_bits.
             if perm_bits AND required_bits acc = required_bits acc then Ok ()
             else Err PermissionDenied))"

definition can_chmod :: "credentials \<Rightarrow> file_stat \<Rightarrow> bool" where
  "can_chmod creds stat = (is_root creds \<or> cr_euid creds = st_uid stat)"

definition can_chown :: "credentials \<Rightarrow> bool" where
  "can_chown creds = is_root creds"

definition can_delete ::
  "credentials \<Rightarrow> file_stat \<Rightarrow> file_stat \<Rightarrow> (vfs_error, unit) res" where
  "can_delete creds dir_stat fstat =
     rbind (check_permission creds dir_stat Write) (\<lambda>_.
       if st_mode dir_stat AND S_ISVTX \<noteq> 0
          \<and> \<not> is_root creds \<and> cr_euid creds \<noteq> st_uid fstat \<and> cr_euid creds \<noteq> st_uid dir_stat
       then Err PermissionDenied else Ok ())"

definition format_mode_octal :: "u32 \<Rightarrow> byte list" where
  "format_mode_octal mode =
     (let perms = mode AND 0xFFF in
      [48 + ucast (drop_bit 9 perms AND 7), 48 + ucast (drop_bit 6 perms AND 7),
       48 + ucast (drop_bit 3 perms AND 7), 48 + ucast (perms AND 7)])"

definition exec_char :: "bool \<Rightarrow> bool \<Rightarrow> char \<Rightarrow> char \<Rightarrow> char" where
  "exec_char x special lower upper =
     (if x then (if special then lower else CHR ''x'') else if special then upper else CHR ''-'')"

definition format_mode_string :: "u32 \<Rightarrow> string" where
  "format_mode_string mode =
     [if mode AND S_IRUSR \<noteq> 0 then CHR ''r'' else CHR ''-'',
      if mode AND S_IWUSR \<noteq> 0 then CHR ''w'' else CHR ''-'',
      exec_char (mode AND S_IXUSR \<noteq> 0) (mode AND S_ISUID \<noteq> 0) (CHR ''s'') (CHR ''S''),
      if mode AND S_IRGRP \<noteq> 0 then CHR ''r'' else CHR ''-'',
      if mode AND S_IWGRP \<noteq> 0 then CHR ''w'' else CHR ''-'',
      exec_char (mode AND S_IXGRP \<noteq> 0) (mode AND S_ISGID \<noteq> 0) (CHR ''s'') (CHR ''S''),
      if mode AND S_IROTH \<noteq> 0 then CHR ''r'' else CHR ''-'',
      if mode AND S_IWOTH \<noteq> 0 then CHR ''w'' else CHR ''-'',
      exec_char (mode AND S_IXOTH \<noteq> 0) (mode AND S_ISVTX \<noteq> 0) (CHR ''t'') (CHR ''T'')]"

section \<open>The policy\<close>

datatype perm = R | W | X

definition wf_creds :: "credentials \<Rightarrow> bool" where
  "wf_creds creds \<longleftrightarrow> length (cr_groups creds) = NGROUPS_MAX \<and> cr_ngroups creds \<le> NGROUPS_MAX"

definition member_of :: "credentials \<Rightarrow> u32 \<Rightarrow> bool" where
  "member_of creds gid \<longleftrightarrow>
     cr_egid creds = gid \<or> gid \<in> set (take (cr_ngroups creds) (cr_groups creds))"

text \<open>The permissions a mode grants to a class, whose three bits start at bit \<open>k\<close>.\<close>

definition class_perms :: "u32 \<Rightarrow> nat \<Rightarrow> perm set" where
  "class_perms mode k =
     (if bit mode (k + 2) then {R} else {}) \<union> (if bit mode (k + 1) then {W} else {}) \<union>
     (if bit mode k then {X} else {})"

definition granted :: "credentials \<Rightarrow> file_stat \<Rightarrow> perm set" where
  "granted creds stat =
     (if is_root creds then {R, W} \<union>
        (if bit (st_mode stat) 6 \<or> bit (st_mode stat) 3 \<or> bit (st_mode stat) 0 then {X} else {})
      else if cr_euid creds = st_uid stat then class_perms (st_mode stat) 6
      else if member_of creds (st_gid stat) then class_perms (st_mode stat) 3
      else class_perms (st_mode stat) 0)"

fun needed :: "access_mode \<Rightarrow> perm set" where
  "needed Read = {R}"
| "needed Write = {W}"
| "needed Execute = {X}"
| "needed ReadWrite = {R, W}"
| "needed Exists = {}"

section \<open>Lemmas\<close>

lemma and_eq_bits: "(w :: u32) AND r = r \<longleftrightarrow> (\<forall>i. bit r i \<longrightarrow> bit w i)"
proof
  assume "w AND r = r"
  then show "\<forall>i. bit r i \<longrightarrow> bit w i" by (metis bit_and_iff)
next
  assume "\<forall>i. bit r i \<longrightarrow> bit w i"
  then show "w AND r = r" by (intro bit_word_eqI) (auto simp: bit_and_iff)
qed

lemma const_bits:
  "bit (4 :: u32) i \<longleftrightarrow> i = 2" "bit (2 :: u32) i \<longleftrightarrow> i = 1" "bit (1 :: u32) i \<longleftrightarrow> i = 0"
  "bit (6 :: u32) i \<longleftrightarrow> i = 1 \<or> i = 2" "bit (7 :: u32) i \<longleftrightarrow> i < 3"
proof -
  have e: "bit ((2 :: u32) ^ n) i \<longleftrightarrow> i = n \<and> n < 32" for n
    by (auto simp: bit_exp_iff)
  show "bit (4 :: u32) i \<longleftrightarrow> i = 2" "bit (2 :: u32) i \<longleftrightarrow> i = 1" "bit (1 :: u32) i \<longleftrightarrow> i = 0"
    using e [of 2] e [of 1] e [of 0] by simp_all
  have "(6 :: u32) = 2 ^ 2 OR 2 ^ 1" by simp
  then have "bit (6 :: u32) i \<longleftrightarrow> bit ((2 :: u32) ^ 2 OR 2 ^ 1) i" by (simp only:)
  then show "bit (6 :: u32) i \<longleftrightarrow> i = 1 \<or> i = 2"
    unfolding bit_or_iff e by auto
  have "(7 :: u32) = 2 ^ 2 OR 2 ^ 1 OR 2 ^ 0" by simp
  then have "bit (7 :: u32) i \<longleftrightarrow> bit ((2 :: u32) ^ 2 OR 2 ^ 1 OR 2 ^ 0) i" by (simp only:)
  then have "bit (7 :: u32) i \<longleftrightarrow> i = 2 \<or> i = 1 \<or> i = 0"
    unfolding bit_or_iff e by simp
  then show "bit (7 :: u32) i \<longleftrightarrow> i < 3" by auto
qed

lemma mask_test_ne: "n < 32 \<Longrightarrow> (w :: u32) AND 2 ^ n \<noteq> 0 \<longleftrightarrow> bit w n"
  by (simp add: and_exp_eq_0_iff_not_bit)

lemma class_bits: "bit (drop_bit k (m :: u32) AND 7) i \<longleftrightarrow> i < 3 \<and> bit m (k + i)"
  unfolding bit_and_iff bit_drop_bit_eq const_bits by (auto simp: add.commute)

lemma required_subset:
  "(drop_bit k (m :: u32) AND 7) AND required_bits acc = required_bits acc \<longleftrightarrow> needed acc \<subseteq> class_perms m k"
  unfolding and_eq_bits class_bits
  by (cases acc; simp only: required_bits_def access_mode.case const_bits bit_0_eq bot_fun_def)
    (auto simp: class_perms_def less_Suc_eq numeral_3_eq_3)

lemma any_exec: "(m :: u32) AND (S_IXUSR OR S_IXGRP OR S_IXOTH) = 0 \<longleftrightarrow> \<not> (bit m 6 \<or> bit m 3 \<or> bit m 0)"
proof -
  have "S_IXUSR = 2 ^ 6" "S_IXGRP = 2 ^ 3" "S_IXOTH = 2 ^ 0" by (simp_all add: mode_bits)
  then have "m AND (S_IXUSR OR S_IXGRP OR S_IXOTH) = (m AND 2 ^ 6) OR (m AND 2 ^ 3) OR (m AND 2 ^ 0)"
    by (simp only: bit.conj_disj_distrib)
  then show ?thesis
    by (simp only: or_eq_0_iff and_exp_eq_0_iff_not_bit) simp
qed

lemma group_loop_eq:
  "(\<And>i. i \<in> set is \<Longrightarrow> i < length gs) \<Longrightarrow> group_loop gs gid is = Ok (\<exists>i \<in> set is. gs ! i = gid)"
  by (induction "is") auto

lemma in_group_eq: "wf_creds creds \<Longrightarrow> in_group creds gid = Ok (member_of creds gid)"
proof -
  assume wf: "wf_creds creds"
  then have "group_loop (cr_groups creds) gid [0..<cr_ngroups creds] =
      Ok (\<exists>i \<in> set [0..<cr_ngroups creds]. cr_groups creds ! i = gid)"
    by (intro group_loop_eq) (auto simp: wf_creds_def)
  with wf show ?thesis
    by (auto simp: in_group_def wf_creds_def member_of_def in_set_conv_nth)
qed

lemma check_permission_eq:
  assumes "wf_creds creds"
  shows "check_permission creds stat acc =
    (if needed acc \<subseteq> granted creds stat then Ok () else Err PermissionDenied)"
proof -
  have sub: "(st_mode stat AND 7) AND required_bits acc = required_bits acc \<longleftrightarrow>
      needed acc \<subseteq> class_perms (st_mode stat) 0"
    using required_subset [of 0 "st_mode stat" acc] by simp
  show ?thesis
  proof (cases "is_root creds")
    case True
    then show ?thesis
      by (cases acc) (auto simp: check_permission_def granted_def any_exec)
  next
    case False
    then show ?thesis
      using assms sub
      by (simp add: check_permission_def granted_def in_group_eq required_subset)
  qed
qed

lemma sticky_bit: "(m :: u32) AND S_ISVTX \<noteq> 0 \<longleftrightarrow> bit m 9"
  using mask_test_ne [of 9 m] by (simp add: S_ISVTX_def)

section \<open>Properties\<close>

text \<open>C3. \<open>check_permission\<close> implements the permission policy: it succeeds exactly when the set
  of permissions the access needs is granted to the caller (owner class first, then group,
  then other; root gets read and write always and execute when some execute bit is set), and
  every refusal is \<open>PermissionDenied\<close>.\<close>

theorem check_permission_policy:
  assumes "wf_creds creds"
  shows "check_permission creds stat acc =
    (if needed acc \<subseteq> granted creds stat then Ok () else Err PermissionDenied)"
  using assms by (rule check_permission_eq)

theorem check_permission_policy_witness:
  "wf_creds (Credentials_new 1000 100) \<and>
   check_permission (Credentials_new 1000 100) (default_stat\<lparr>st_mode := 0x1A4, st_uid := 1000\<rparr>) ReadWrite = Ok ()"
proof -
  have h: "wf_creds (Credentials_new 1000 100)"
    by (simp add: wf_creds_def Credentials_new_def NGROUPS_MAX_def)
  have "needed ReadWrite \<subseteq> granted (Credentials_new 1000 100) (default_stat\<lparr>st_mode := 0x1A4, st_uid := 1000\<rparr>)"
    by (simp add: granted_def class_perms_def Credentials_new_def is_root_def)
  then show ?thesis
    using h check_permission_policy [OF h, of "default_stat\<lparr>st_mode := 0x1A4, st_uid := 1000\<rparr>" ReadWrite]
    by simp
qed

text \<open>Deletion: a file may be deleted exactly when the caller may write the directory and,
  where the directory has the sticky bit, the caller is root, owns the file or owns the
  directory.\<close>

lemma can_delete_iff:
  assumes "wf_creds creds"
  shows "can_delete creds dir_stat fstat = Ok () \<longleftrightarrow>
    W \<in> granted creds dir_stat \<and>
    (\<not> bit (st_mode dir_stat) 9 \<or> is_root creds \<or> cr_euid creds = st_uid fstat \<or> cr_euid creds = st_uid dir_stat)"
  using assms by (auto simp: can_delete_def check_permission_eq sticky_bit)

lemma can_delete_iff_example:
  "wf_creds (Credentials_new 1000 100) \<and>
   can_delete (Credentials_new 1000 100) (default_stat\<lparr>st_mode := 0x3FF\<rparr>) (default_stat\<lparr>st_uid := 7\<rparr>) \<noteq> Ok ()"
proof -
  have h: "wf_creds (Credentials_new 1000 100)"
    by (simp add: wf_creds_def Credentials_new_def NGROUPS_MAX_def)
  show ?thesis
    using h can_delete_iff [OF h, of "default_stat\<lparr>st_mode := 0x3FF\<rparr>" "default_stat\<lparr>st_uid := 7\<rparr>"]
    by (simp add: is_root_def Credentials_new_def default_stat_def)
qed

text \<open>Adding a supplementary group keeps the credentials well formed, never panics, and makes
  the caller a member of that group unless the sixteen slots are used up; memberships are only
  added, never lost.\<close>

lemma add_group_correct:
  assumes "wf_creds creds"
  shows "\<exists>added creds'. add_group creds gid = Ok (added, creds') \<and> wf_creds creds' \<and>
    (\<forall>g. member_of creds' g = (member_of creds g \<or> added \<and> g = gid)) \<and>
    added = (cr_ngroups creds < NGROUPS_MAX)"
proof (cases "cr_ngroups creds < NGROUPS_MAX \<and> \<not> member_of creds gid")
  case True
  then have "set (take (Suc (cr_ngroups creds)) ((cr_groups creds)[cr_ngroups creds := gid])) =
      insert gid (set (take (cr_ngroups creds) (cr_groups creds)))"
    using assms by (simp add: wf_creds_def take_Suc_conv_app_nth)
  then show ?thesis
    using True assms
    by (auto simp: add_group_def in_group_eq wf_creds_def member_of_def)
next
  case False
  then show ?thesis
    using assms by (auto simp: add_group_def in_group_eq)
qed

lemma add_group_correct_example:
  "wf_creds (Credentials_new 1000 100) \<and>
   (\<exists>c. add_group (Credentials_new 1000 100) 27 = Ok (True, c) \<and> member_of c 27)"
proof -
  have h: "wf_creds (Credentials_new 1000 100)"
    by (simp add: wf_creds_def Credentials_new_def NGROUPS_MAX_def)
  have "cr_ngroups (Credentials_new 1000 100) < NGROUPS_MAX"
    by (simp add: Credentials_new_def NGROUPS_MAX_def)
  then show ?thesis using h add_group_correct [OF h, of 27] by auto
qed

end
