(* ===== verification/Vfs_Pipe.thy ===== *)
theory Vfs_Pipe
  imports Vfs_Types
begin

text \<open>
  Pipes, \<^verbatim>\<open>src/crates/storage/vfs/src/pipe.rs\<close>: the shared buffer, the two ends of an
  anonymous pipe, and named pipes with their counts of open readers and writers.

  A buffer behind \<open>Arc<Mutex<_>>\<close> is a state that each operation takes and returns: an
  operation holds the lock for its whole body. A read returns the caller's buffer with the
  bytes filled in. The unsupported operations of the two ends are the constant errors the
  source returns.

  The locale \<open>byte_channel\<close> is the contract of a pair of pipe ends; that a channel delivers
  bytes in order, once each, is proved once inside it and holds of both kinds of pipe. Opening
  and closing ends of a named pipe is a step relation, because which process moves next is not
  determined.
\<close>

section \<open>Definitions\<close>

definition PIPE_BUF_SIZE :: nat where
  "PIPE_BUF_SIZE = 65536"

record pipe_buffer =
  pb_data :: "byte list"
  pb_capacity :: nat
  pb_write_closed :: bool
  pb_read_closed :: bool

definition pipe_with_capacity :: "nat \<Rightarrow> pipe_buffer" where
  "pipe_with_capacity cap =
     \<lparr>pb_data = [], pb_capacity = cap, pb_write_closed = False, pb_read_closed = False\<rparr>"

definition pipe_new :: pipe_buffer where
  "pipe_new = pipe_with_capacity PIPE_BUF_SIZE"

definition pipe_is_empty :: "pipe_buffer \<Rightarrow> bool" where
  "pipe_is_empty p = (pb_data p = [])"

definition pipe_is_full :: "pipe_buffer \<Rightarrow> bool" where
  "pipe_is_full p = (length (pb_data p) \<ge> pb_capacity p)"

definition available_space :: "pipe_buffer \<Rightarrow> nat" where
  "available_space p = pb_capacity p - length (pb_data p)"

definition available_data :: "pipe_buffer \<Rightarrow> nat" where
  "available_data p = length (pb_data p)"

text \<open>\<open>for i in 0..to_read { buf[i] = pipe.data.pop_front().unwrap() }\<close>.\<close>

fun pop_loop :: "nat list \<Rightarrow> byte list \<Rightarrow> byte list \<Rightarrow> (vfs_error, byte list \<times> byte list) res" where
  "pop_loop [] buf data = Ok (buf, data)"
| "pop_loop (i # is) buf data =
     (case data of
        [] \<Rightarrow> Panic
      | b # rest \<Rightarrow> if i < length buf then pop_loop is (buf[i := b]) rest else Panic)"

definition read_end_read ::
  "byte list \<Rightarrow> (pipe_buffer, vfs_error, nat \<times> byte list) op" where
  "read_end_read buf p =
     (if pipe_is_empty p then (Ok (0, buf), p)
      else
        let to_read = min (length buf) (available_data p)
        in case pop_loop [0..<to_read] buf (pb_data p) of
             Ok (buf', rest) \<Rightarrow> (Ok (to_read, buf'), p\<lparr>pb_data := rest\<rparr>)
           | Err e \<Rightarrow> (Err e, p)
           | Panic \<Rightarrow> (Panic, p))"

definition read_end_write :: "byte list \<Rightarrow> (pipe_buffer, vfs_error, nat) op" where
  "read_end_write buf p = (Err PermissionDenied, p)"

definition read_end_stat :: "pipe_buffer \<Rightarrow> file_stat" where
  "read_end_stat p =
     default_stat\<lparr>st_type := Fifo, st_size := of_nat (available_data p), st_mode := 0x124\<rparr>"

definition read_end_drop :: "pipe_buffer \<Rightarrow> pipe_buffer" where
  "read_end_drop p = p\<lparr>pb_read_closed := True\<rparr>"

definition write_end_read :: "byte list \<Rightarrow> (pipe_buffer, vfs_error, nat \<times> byte list) op" where
  "write_end_read buf p = (Err PermissionDenied, p)"

definition write_end_write :: "byte list \<Rightarrow> (pipe_buffer, vfs_error, nat) op" where
  "write_end_write buf p =
     (if pb_read_closed p then (Err VfsIoError, p)
      else if pipe_is_full p then (Ok 0, p)
      else
        let to_write = min (length buf) (available_space p)
        in (Ok to_write, p\<lparr>pb_data := fold (\<lambda>b d. d @ [b]) (take to_write buf) (pb_data p)\<rparr>))"

definition write_end_stat :: "pipe_buffer \<Rightarrow> file_stat" where
  "write_end_stat p =
     default_stat\<lparr>st_type := Fifo, st_size := of_nat (available_space p), st_mode := 0x92\<rparr>"

definition write_end_drop :: "pipe_buffer \<Rightarrow> pipe_buffer" where
  "write_end_drop p = p\<lparr>pb_write_closed := True\<rparr>"

text \<open>Operations both ends refuse or answer with a constant.\<close>

definition pipe_seek :: "int \<Rightarrow> seek_from \<Rightarrow> (vfs_error, u64) res" where
  "pipe_seek offset whence = Err InvalidArgument"

definition pipe_truncate :: "u64 \<Rightarrow> (vfs_error, unit) res" where
  "pipe_truncate sz = Err InvalidArgument"

subsection \<open>Named pipes\<close>

record named_pipe =
  np_buffer :: pipe_buffer
  np_readers :: u64
  np_writers :: u64

definition named_new :: named_pipe where
  "named_new = \<lparr>np_buffer = pipe_new, np_readers = 0, np_writers = 0\<rparr>"

definition open_read :: "named_pipe \<Rightarrow> named_pipe" where
  "open_read np = np\<lparr>np_readers := np_readers np + 1,
     np_buffer := (np_buffer np)\<lparr>pb_read_closed := False\<rparr>\<rparr>"

definition open_write :: "named_pipe \<Rightarrow> named_pipe" where
  "open_write np = np\<lparr>np_writers := np_writers np + 1,
     np_buffer := (np_buffer np)\<lparr>pb_write_closed := False\<rparr>\<rparr>"

definition named_stat :: "named_pipe \<Rightarrow> file_stat" where
  "named_stat np = default_stat\<lparr>st_type := Fifo,
     st_size := of_nat (available_data (np_buffer np)), st_mode := 0x1B6\<rparr>"

definition named_read :: "byte list \<Rightarrow> (named_pipe, vfs_error, nat \<times> byte list) op" where
  "named_read buf np =
     (let p = np_buffer np in
      if pipe_is_empty p then (Ok (0, buf), np)
      else
        let to_read = min (length buf) (available_data p)
        in case pop_loop [0..<to_read] buf (pb_data p) of
             Ok (buf', rest) \<Rightarrow> (Ok (to_read, buf'), np\<lparr>np_buffer := p\<lparr>pb_data := rest\<rparr>\<rparr>)
           | Err e \<Rightarrow> (Err e, np)
           | Panic \<Rightarrow> (Panic, np))"

definition named_write :: "byte list \<Rightarrow> (named_pipe, vfs_error, nat) op" where
  "named_write buf np =
     (let p = np_buffer np in
      if pb_read_closed p then (Err VfsIoError, np)
      else if pipe_is_full p then (Ok 0, np)
      else
        let to_write = min (length buf) (available_space p)
        in (Ok to_write,
            np\<lparr>np_buffer := p\<lparr>pb_data := fold (\<lambda>b d. d @ [b]) (take to_write buf) (pb_data p)\<rparr>\<rparr>))"

definition named_read_drop :: "named_pipe \<Rightarrow> named_pipe" where
  "named_read_drop np =
     (let count = np_readers np - 1; np' = np\<lparr>np_readers := count\<rparr>
      in if count = 0 then np'\<lparr>np_buffer := (np_buffer np)\<lparr>pb_read_closed := True\<rparr>\<rparr> else np')"

definition named_write_drop :: "named_pipe \<Rightarrow> named_pipe" where
  "named_write_drop np =
     (let count = np_writers np - 1; np' = np\<lparr>np_writers := count\<rparr>
      in if count = 0 then np'\<lparr>np_buffer := (np_buffer np)\<lparr>pb_write_closed := True\<rparr>\<rparr> else np')"

subsection \<open>Runs of a channel\<close>

text \<open>A client's sequence of calls: a read with a buffer of the given size, or a write. A run
  collects the bytes the reads delivered and the bytes the writes accepted.\<close>

datatype chan_op = Rd nat | Wr "byte list"

fun chan_run ::
  "(byte list \<Rightarrow> ('s, vfs_error, nat \<times> byte list) op) \<Rightarrow> (byte list \<Rightarrow> ('s, vfs_error, nat) op) \<Rightarrow>
   chan_op list \<Rightarrow> 's \<Rightarrow> byte list \<times> byte list \<times> 's" where
  "chan_run rd wr [] s = ([], [], s)"
| "chan_run rd wr (Rd n # ops) s =
     (case rd (replicate n 0) s of
        (Ok (k, buf), s') \<Rightarrow>
          (let (got, sent, t) = chan_run rd wr ops s' in (take k buf @ got, sent, t))
      | (_, s') \<Rightarrow> chan_run rd wr ops s')"
| "chan_run rd wr (Wr bs # ops) s =
     (case wr bs s of
        (Ok k, s') \<Rightarrow> (let (got, sent, t) = chan_run rd wr ops s' in (got, take k bs @ sent, t))
      | (_, s') \<Rightarrow> chan_run rd wr ops s')"

subsection \<open>A named pipe and its open ends\<close>

text \<open>\<open>live_readers\<close> and \<open>live_writers\<close> count the end objects that exist. A step is one call by
  some process: opening an end, using or dropping one that is open. An end object occupies
  memory, so there are always fewer than \<open>2 ^ 64\<close> of them.\<close>

record pipe_sys =
  ps_pipe :: named_pipe
  live_readers :: nat
  live_writers :: nat

definition pipe_sys_init :: pipe_sys where
  "pipe_sys_init = \<lparr>ps_pipe = named_new, live_readers = 0, live_writers = 0\<rparr>"

inductive pipe_step :: "pipe_sys \<Rightarrow> pipe_sys \<Rightarrow> bool" where
  open_reader: "live_readers s + 1 < 2 ^ 64 \<Longrightarrow>
     pipe_step s (s\<lparr>ps_pipe := open_read (ps_pipe s), live_readers := live_readers s + 1\<rparr>)"
| open_writer: "live_writers s + 1 < 2 ^ 64 \<Longrightarrow>
     pipe_step s (s\<lparr>ps_pipe := open_write (ps_pipe s), live_writers := live_writers s + 1\<rparr>)"
| reading: "0 < live_readers s \<Longrightarrow> named_read buf (ps_pipe s) = (r, np') \<Longrightarrow>
     pipe_step s (s\<lparr>ps_pipe := np'\<rparr>)"
| writing: "0 < live_writers s \<Longrightarrow> named_write buf (ps_pipe s) = (r, np') \<Longrightarrow>
     pipe_step s (s\<lparr>ps_pipe := np'\<rparr>)"
| drop_reader: "0 < live_readers s \<Longrightarrow>
     pipe_step s (s\<lparr>ps_pipe := named_read_drop (ps_pipe s), live_readers := live_readers s - 1\<rparr>)"
| drop_writer: "0 < live_writers s \<Longrightarrow>
     pipe_step s (s\<lparr>ps_pipe := named_write_drop (ps_pipe s), live_writers := live_writers s - 1\<rparr>)"

inductive pipe_reachable :: "pipe_sys \<Rightarrow> bool" where
  start: "pipe_reachable pipe_sys_init"
| step: "pipe_reachable s \<Longrightarrow> pipe_step s t \<Longrightarrow> pipe_reachable t"

definition wf_pipe :: "pipe_buffer \<Rightarrow> bool" where
  "wf_pipe p \<longleftrightarrow> length (pb_data p) \<le> pb_capacity p"

definition pipe_sys_inv :: "pipe_sys \<Rightarrow> bool" where
  "pipe_sys_inv s \<longleftrightarrow>
     wf_pipe (np_buffer (ps_pipe s)) \<and>
     unat (np_readers (ps_pipe s)) = live_readers s \<and> unat (np_writers (ps_pipe s)) = live_writers s \<and>
     (pb_read_closed (np_buffer (ps_pipe s)) \<longrightarrow> live_readers s = 0) \<and>
     (pb_write_closed (np_buffer (ps_pipe s)) \<longrightarrow> live_writers s = 0)"

section \<open>The contract of a channel\<close>

locale byte_channel =
  fixes rd :: "byte list \<Rightarrow> ('s, vfs_error, nat \<times> byte list) op"
    and wr :: "byte list \<Rightarrow> ('s, vfs_error, nat) op"
    and pending :: "'s \<Rightarrow> byte list"
    and inv :: "'s \<Rightarrow> bool"
  assumes rd_law: "inv s \<Longrightarrow> rd buf s = (r, s') \<Longrightarrow>
      inv s' \<and> pending s' = drop (length buf) (pending s) \<and>
      r = Ok (min (length buf) (length (pending s)),
              take (length buf) (pending s) @ drop (length (pending s)) buf)"
    and wr_law: "inv s \<Longrightarrow> wr bs s = (q, s') \<Longrightarrow>
      inv s' \<and> (\<exists>k. q = Ok k \<and> k \<le> length bs \<and> pending s' = pending s @ take k bs)
      \<or> s' = s \<and> (\<exists>e. q = Err e)"
begin

text \<open>First in, first out: what was pending plus what was accepted is what was delivered plus
  what is pending, in this order.\<close>

lemma run_fifo:
  "inv s \<Longrightarrow> chan_run rd wr ops s = (got, sent, t) \<Longrightarrow> inv t \<and> pending s @ sent = got @ pending t"
proof (induction ops arbitrary: s got sent t)
  case (Cons op ops)
  show ?case
  proof (cases op)
    case (Rd n)
    obtain r s' where rd: "rd (replicate n 0) s = (r, s')" by fastforce
    obtain got' sent' t' where run: "chan_run rd wr ops s' = (got', sent', t')"
      by (cases "chan_run rd wr ops s'") auto
    from rd_law [OF Cons.prems(1) rd] have s': "inv s'" "pending s' = drop n (pending s)"
      and r: "r = Ok (min n (length (pending s)), take n (pending s) @ drop (length (pending s)) (replicate n 0))"
      by auto
    have "got = take n (pending s) @ got'" "sent = sent'" "t = t'"
      using Cons.prems(2) run by (auto simp: Rd rd r min_def)
    moreover have "inv t' \<and> pending s' @ sent' = got' @ pending t'"
      using Cons.IH [OF s'(1) run] .
    moreover have "pending s = take n (pending s) @ pending s'"
      by (simp add: s')
    ultimately show ?thesis by (metis append.assoc)
  next
    case (Wr bs)
    obtain r s' where wr: "wr bs s = (r, s')" by fastforce
    obtain got' sent' t' where run: "chan_run rd wr ops s' = (got', sent', t')"
      by (cases "chan_run rd wr ops s'") auto
    from wr_law [OF Cons.prems(1) wr] show ?thesis
    proof (elim disjE conjE exE)
      fix k assume s': "inv s'" and r: "r = Ok k" and p: "pending s' = pending s @ take k bs"
      have "got = got'" "sent = take k bs @ sent'" "t = t'"
        using Cons.prems(2) run by (auto simp: Wr wr r)
      then show ?thesis using Cons.IH [OF s' run] p by simp
    next
      fix e assume s': "s' = s" and r: "r = Err e"
      have "chan_run rd wr ops s = (got, sent, t)"
        using Cons.prems(2) by (simp add: Wr wr r s')
      then show ?thesis using Cons.IH [OF Cons.prems(1)] by simp
    qed
  qed
qed simp

end

section \<open>Lemmas\<close>

lemma pop_loop_eq:
  "i + n \<le> length buf \<Longrightarrow> n \<le> length data \<Longrightarrow>
   pop_loop [i..<i + n] buf data = Ok (take i buf @ take n data @ drop (i + n) buf, drop n data)"
proof (induction n arbitrary: i buf data)
  case (Suc n)
  then obtain b rest where data: "data = b # rest" by (cases data) auto
  have "[i..<i + Suc n] = i # [Suc i..<Suc i + n]"
    by (simp add: upt_conv_Cons)
  moreover have "pop_loop [Suc i..<Suc i + n] (buf[i := b]) rest =
      Ok (take (Suc i) (buf[i := b]) @ take n rest @ drop (Suc i + n) (buf[i := b]), drop n rest)"
    using Suc.prems by (intro Suc.IH) (simp_all add: data)
  moreover have "take (Suc i) (buf[i := b]) = take i buf @ [b]"
    using Suc.prems by (simp add: take_Suc_conv_app_nth)
  ultimately show ?case
    using Suc.prems by (simp add: data)
qed simp

lemma push_loop_eq: "fold (\<lambda>b d. d @ [b]) bs data = data @ bs"
  by (induction bs arbitrary: data) auto

lemma pop_read:
  "pop_loop [0..<min (length buf) (length data)] buf data =
     Ok (take (length buf) data @ drop (length data) buf, drop (length buf) data)"
proof -
  have "pop_loop [0..<0 + min (length buf) (length data)] buf data =
     Ok (take 0 buf @ take (min (length buf) (length data)) data @ drop (0 + min (length buf) (length data)) buf,
         drop (min (length buf) (length data)) data)"
    by (rule pop_loop_eq) auto
  then show ?thesis by (auto simp: min_def split: if_splits)
qed

lemma read_end_read_eq:
  "read_end_read buf p =
     (Ok (min (length buf) (length (pb_data p)), take (length buf) (pb_data p) @ drop (length (pb_data p)) buf),
      p\<lparr>pb_data := drop (length buf) (pb_data p)\<rparr>)"
  by (cases "pb_data p = []")
    (simp_all add: read_end_read_def pipe_is_empty_def available_data_def pop_read Let_def)

lemma named_read_eq:
  "named_read buf np =
     (let p = np_buffer np in
      (Ok (min (length buf) (length (pb_data p)), take (length buf) (pb_data p) @ drop (length (pb_data p)) buf),
       np\<lparr>np_buffer := p\<lparr>pb_data := drop (length buf) (pb_data p)\<rparr>\<rparr>))"
  by (cases "pb_data (np_buffer np) = []")
    (simp_all add: named_read_def pipe_is_empty_def available_data_def pop_read Let_def)

lemma write_end_write_cases:
  "wf_pipe p \<Longrightarrow> write_end_write bs p = (r, p') \<Longrightarrow>
   p' = p \<and> r = Err VfsIoError \<and> pb_read_closed p \<or>
   \<not> pb_read_closed p \<and> r = Ok (min (length bs) (pb_capacity p - length (pb_data p))) \<and>
     p' = p\<lparr>pb_data := pb_data p @ take (pb_capacity p - length (pb_data p)) bs\<rparr>"
  by (auto simp: write_end_write_def pipe_is_full_def available_space_def push_loop_eq Let_def min_def
      split: if_splits)

lemma named_write_via_end:
  "named_write bs np = (let (r, p') = write_end_write bs (np_buffer np) in (r, np\<lparr>np_buffer := p'\<rparr>))"
  by (simp add: named_write_def write_end_write_def Let_def)

interpretation anon: byte_channel read_end_read write_end_write pb_data wf_pipe
proof
  fix p p' buf r assume "wf_pipe p" "read_end_read buf p = (r, p')"
  then show "wf_pipe p' \<and> pb_data p' = drop (length buf) (pb_data p) \<and>
      r = Ok (min (length buf) (length (pb_data p)), take (length buf) (pb_data p) @ drop (length (pb_data p)) buf)"
    by (auto simp: read_end_read_eq wf_pipe_def)
next
  fix p p' bs r assume wf: "wf_pipe p" and wr: "write_end_write bs p = (r, p')"
  show "wf_pipe p' \<and> (\<exists>k. r = Ok k \<and> k \<le> length bs \<and> pb_data p' = pb_data p @ take k bs)
      \<or> p' = p \<and> (\<exists>e. r = Err e)"
    using write_end_write_cases [OF wf wr] wf by (auto simp: wf_pipe_def min_def)
qed

interpretation named: byte_channel named_read named_write "\<lambda>np. pb_data (np_buffer np)" "\<lambda>np. wf_pipe (np_buffer np)"
proof
  fix p p' buf r assume "wf_pipe (np_buffer p)" "named_read buf p = (r, p')"
  then show "wf_pipe (np_buffer p') \<and> pb_data (np_buffer p') = drop (length buf) (pb_data (np_buffer p)) \<and>
      r = Ok (min (length buf) (length (pb_data (np_buffer p))),
        take (length buf) (pb_data (np_buffer p)) @ drop (length (pb_data (np_buffer p))) buf)"
    by (auto simp: named_read_eq wf_pipe_def Let_def)
next
  fix p p' bs r assume wf: "wf_pipe (np_buffer p)" and wr: "named_write bs p = (r, p')"
  obtain q where q: "write_end_write bs (np_buffer p) = (r, q)" "p' = p\<lparr>np_buffer := q\<rparr>"
    using wr by (auto simp: named_write_via_end split: prod.splits)
  show "wf_pipe (np_buffer p') \<and> (\<exists>k. r = Ok k \<and> k \<le> length bs \<and>
      pb_data (np_buffer p') = pb_data (np_buffer p) @ take k bs) \<or> p' = p \<and> (\<exists>e. r = Err e)"
    using anon.wr_law [OF wf q(1)] q(2) by auto
qed

lemma named_read_frame:
  "named_read buf np = (r, np') \<Longrightarrow> np_readers np' = np_readers np \<and> np_writers np' = np_writers np \<and>
     pb_read_closed (np_buffer np') = pb_read_closed (np_buffer np) \<and>
     pb_write_closed (np_buffer np') = pb_write_closed (np_buffer np)"
  by (auto simp: named_read_eq Let_def)

lemma named_write_frame:
  "named_write buf np = (r, np') \<Longrightarrow> np_readers np' = np_readers np \<and> np_writers np' = np_writers np \<and>
     pb_read_closed (np_buffer np') = pb_read_closed (np_buffer np) \<and>
     pb_write_closed (np_buffer np') = pb_write_closed (np_buffer np)"
  by (auto simp: named_write_def Let_def split: if_splits)

lemma unat_suc: "unat (w :: u64) + 1 < 2 ^ 64 \<Longrightarrow> unat (w + 1) = unat w + 1"
  by (simp add: unat_word_ariths)

lemma unat_pred: "0 < unat (w :: u64) \<Longrightarrow> unat (w - 1) = unat w - 1"
proof -
  assume "0 < unat w"
  then have "1 \<le> w" by (simp add: word_le_nat_alt)
  then show ?thesis by (simp add: unat_sub)
qed

lemma pipe_step_inv: "pipe_step s t \<Longrightarrow> pipe_sys_inv s \<Longrightarrow> pipe_sys_inv t"
proof (induction rule: pipe_step.induct)
  case (open_reader s)
  then show ?case using unat_suc [of "np_readers (ps_pipe s)"]
    by (auto simp: pipe_sys_inv_def open_read_def wf_pipe_def)
next
  case (open_writer s)
  then show ?case using unat_suc [of "np_writers (ps_pipe s)"]
    by (auto simp: pipe_sys_inv_def open_write_def wf_pipe_def)
next
  case (reading s buf r np')
  then show ?case using named.rd_law [of "ps_pipe s" buf r np'] named_read_frame [of buf "ps_pipe s" r np']
    by (auto simp: pipe_sys_inv_def)
next
  case (writing s buf r np')
  then show ?case using named.wr_law [of "ps_pipe s" buf r np'] named_write_frame [of buf "ps_pipe s" r np']
    by (auto simp: pipe_sys_inv_def)
next
  case (drop_reader s)
  then have "unat (np_readers (ps_pipe s) - 1) = live_readers s - 1"
    using unat_pred [of "np_readers (ps_pipe s)"] by (simp add: pipe_sys_inv_def)
  with drop_reader show ?case
    by (auto simp: pipe_sys_inv_def named_read_drop_def wf_pipe_def Let_def simp flip: unat_eq_zero)
next
  case (drop_writer s)
  then have "unat (np_writers (ps_pipe s) - 1) = live_writers s - 1"
    using unat_pred [of "np_writers (ps_pipe s)"] by (simp add: pipe_sys_inv_def)
  with drop_writer show ?case
    by (auto simp: pipe_sys_inv_def named_write_drop_def wf_pipe_def Let_def simp flip: unat_eq_zero)
qed

lemma pipe_reachable_inv: "pipe_reachable s \<Longrightarrow> pipe_sys_inv s"
proof (induction rule: pipe_reachable.induct)
  case start
  show ?case
    by (simp add: pipe_sys_inv_def pipe_sys_init_def named_new_def pipe_new_def pipe_with_capacity_def wf_pipe_def)
next
  case (step s t)
  then show ?case by (blast intro: pipe_step_inv)
qed

section \<open>Properties\<close>

text \<open>C17. Anonymous pipes are first in, first out: over any sequence of reads and writes, with
  any buffer sizes, the bytes delivered followed by the bytes still buffered are exactly the
  bytes that were buffered followed by the bytes the writes accepted; nothing is lost,
  duplicated or reordered, and the buffer never exceeds its capacity.\<close>

theorem pipe_fifo:
  assumes "wf_pipe p" and "chan_run read_end_read write_end_write ops p = (got, sent, p')"
  shows "got @ pb_data p' = pb_data p @ sent \<and> length (pb_data p') \<le> pb_capacity p'"
  using anon.run_fifo [OF assms] by (simp add: wf_pipe_def)

theorem pipe_fifo_witness:
  "wf_pipe (pipe_with_capacity 2) \<and>
   (\<exists>p'. chan_run read_end_read write_end_write [Wr [1, 2, 3], Rd 1, Wr [4]] (pipe_with_capacity 2) = ([1], [1, 2, 4], p')
     \<and> [1] @ pb_data p' = [1, 2, 4])"
proof -
  have h: "wf_pipe (pipe_with_capacity 2)" by (simp add: wf_pipe_def pipe_with_capacity_def)
  obtain p' where r: "chan_run read_end_read write_end_write [Wr [1, 2, 3], Rd 1, Wr [4]] (pipe_with_capacity 2) = ([1], [1, 2, 4], p')"
    by (simp add: read_end_read_eq write_end_write_def push_loop_eq pipe_with_capacity_def
        pipe_is_full_def available_space_def)
  show ?thesis using h r pipe_fifo [OF h r] by (auto simp: pipe_with_capacity_def)
qed

text \<open>A write to a named pipe fails with a broken-pipe error only when no reader is open, in
  every state the opening, closing, reading and writing of any number of ends can reach; with a
  reader open and room left it accepts at least one byte of a non-empty buffer.\<close>

lemma named_write_broken_only_without_readers:
  assumes "pipe_reachable s"
  shows "(live_readers s = 0 \<or> fst (named_write bs (ps_pipe s)) \<noteq> Err VfsIoError) \<and>
    (live_readers s = 0 \<or> bs = [] \<or> pipe_is_full (np_buffer (ps_pipe s)) \<or>
      (\<exists>k. fst (named_write bs (ps_pipe s)) = Ok k \<and> 0 < k))"
proof -
  have "pb_read_closed (np_buffer (ps_pipe s)) \<Longrightarrow> live_readers s = 0"
    using pipe_reachable_inv [OF assms] by (simp add: pipe_sys_inv_def)
  then show ?thesis
    by (auto simp: named_write_def Let_def pipe_is_full_def available_space_def)
qed

lemma named_write_broken_only_without_readers_example:
  "pipe_reachable (pipe_sys_init\<lparr>ps_pipe := open_read named_new, live_readers := 1\<rparr>) \<and>
   (\<exists>k. fst (named_write [7] (open_read named_new)) = Ok k \<and> 0 < k)"
proof -
  have h: "pipe_reachable (pipe_sys_init\<lparr>ps_pipe := open_read named_new, live_readers := 1\<rparr>)"
    using pipe_reachable.step [OF pipe_reachable.start pipe_step.open_reader]
    by (simp add: pipe_sys_init_def)
  have "\<not> pipe_is_full (np_buffer (open_read named_new))"
    by (simp add: open_read_def named_new_def pipe_new_def pipe_with_capacity_def pipe_is_full_def PIPE_BUF_SIZE_def)
  then show ?thesis
    using h named_write_broken_only_without_readers [OF h, of "[7]"] by simp
qed

end
