(* ===== verification/Vfs_Symlink.thy ===== *)
theory Vfs_Symlink
  imports Vfs_Types Paths
begin

text \<open>
  Symbolic links of \<^verbatim>\<open>src/crates/storage/vfs/src/symlink.rs\<close>: what a link target is and how it is
  resolved against the directory of the link, and the depth counter that bounds a chain of
  links. \<open>SymlinkFilesystem\<close> is a trait no filesystem of the repository implements.
\<close>

section \<open>Definitions\<close>

definition MAX_SYMLINK_DEPTH :: nat where
  "MAX_SYMLINK_DEPTH = 40"

record symlink_target =
  st_raw :: string
  st_parsed :: parsed_path

definition SymlinkTarget_new :: "string \<Rightarrow> symlink_target" where
  "SymlinkTarget_new target = \<lparr>st_raw = target, st_parsed = parse target\<rparr>"

definition symlink_is_relative :: "symlink_target \<Rightarrow> bool" where
  "symlink_is_relative t = (\<not> starts_with (CHR ''/'') (pp_path (st_parsed t)))"

definition symlink_is_absolute :: "symlink_target \<Rightarrow> bool" where
  "symlink_is_absolute t = starts_with (CHR ''/'') (pp_path (st_parsed t))"

definition symlink_is_drive :: "symlink_target \<Rightarrow> bool" where
  "symlink_is_drive t = (case pp_type (st_parsed t) of Drive _ \<Rightarrow> True | Unix \<Rightarrow> False)"

definition symlink_resolve :: "symlink_target \<Rightarrow> string \<Rightarrow> string" where
  "symlink_resolve t symlink_dir =
     (if symlink_is_absolute t \<or> symlink_is_drive t then st_raw t
      else (let base = Path_new symlink_dir;
                joined = Path_join base (st_raw t)
            in to_display joined False))"

record symlink_resolver =
  sr_depth :: nat

definition SymlinkResolver_new :: symlink_resolver where
  "SymlinkResolver_new = \<lparr>sr_depth = 0\<rparr>"

definition enter :: "(symlink_resolver, vfs_error, unit) op" where
  "enter r = (let r' = r\<lparr>sr_depth := sr_depth r + 1\<rparr>
              in if sr_depth r' > MAX_SYMLINK_DEPTH then (Err InvalidPath, r') else (Ok (), r'))"

definition leave :: "symlink_resolver \<Rightarrow> symlink_resolver" where
  "leave r = (if sr_depth r > 0 then r\<lparr>sr_depth := sr_depth r - 1\<rparr> else r)"

record resolved_path =
  rp_path :: string
  rp_symlinks_followed :: nat
  rp_has_symlinks :: bool

definition no_symlinks :: "string \<Rightarrow> resolved_path" where
  "no_symlinks path = \<lparr>rp_path = path, rp_symlinks_followed = 0, rp_has_symlinks = False\<rparr>"

definition with_symlinks :: "string \<Rightarrow> nat \<Rightarrow> resolved_path" where
  "with_symlinks path count =
     \<lparr>rp_path = path, rp_symlinks_followed = count, rp_has_symlinks = (count > 0)\<rparr>"

record resolve_options =
  ro_follow_symlinks :: bool
  ro_follow_final :: bool

definition ResolveOptions_default :: resolve_options where
  "ResolveOptions_default = \<lparr>ro_follow_symlinks = True, ro_follow_final = True\<rparr>"

definition no_follow :: resolve_options where
  "no_follow = \<lparr>ro_follow_symlinks = False, ro_follow_final = False\<rparr>"

definition no_follow_final :: resolve_options where
  "no_follow_final = \<lparr>ro_follow_symlinks = True, ro_follow_final = False\<rparr>"

text \<open>A chain of \<open>n\<close> links: the \<open>n\<close> calls of \<open>enter\<close> a path walk makes, up to the first refusal.\<close>

fun enters :: "nat \<Rightarrow> (symlink_resolver, vfs_error, unit) op" where
  "enters 0 = ret ()"
| "enters (Suc n) = sbind enter (\<lambda>_. enters n)"

section \<open>Lemmas\<close>

lemma enters_depth:
  "enters n r = (if sr_depth r + n \<le> MAX_SYMLINK_DEPTH \<or> n = 0
      then (Ok (), r\<lparr>sr_depth := sr_depth r + n\<rparr>)
      else (Err InvalidPath, r\<lparr>sr_depth := max (sr_depth r) MAX_SYMLINK_DEPTH + 1\<rparr>))"
proof (induction n arbitrary: r)
  case (Suc n)
  show ?case
    by (simp add: sbind_def enter_def Suc Let_def)
qed simp

lemma leave_inverse: "(leave ^^ n) (r\<lparr>sr_depth := sr_depth r + n\<rparr>) = r"
proof (induction n arbitrary: r)
  case (Suc n)
  have "(leave ^^ Suc n) (r\<lparr>sr_depth := sr_depth r + Suc n\<rparr>) =
      (leave ^^ n) (leave (r\<lparr>sr_depth := sr_depth r + Suc n\<rparr>))"
    by (simp add: funpow_swap1)
  also have "leave (r\<lparr>sr_depth := sr_depth r + Suc n\<rparr>) = r\<lparr>sr_depth := sr_depth r + n\<rparr>"
    by (simp add: leave_def)
  finally show ?case using Suc by simp
qed simp

lemma join_absolute:
  "starts_with SEPARATOR base \<Longrightarrow> is_drive_letter other = None \<Longrightarrow> starts_with SEPARATOR (join base other)"
  by (auto simp: join_def starts_with_def SEPARATOR_def)

lemma parse_of_absolute:
  assumes "starts_with SEPARATOR s"
  shows "pp_type (parse s) = Unix" "starts_with SEPARATOR (pp_path (parse s))"
proof -
  have d: "is_drive_letter s = None" and n: "map unback s \<noteq> []" "starts_with SEPARATOR (map unback s)"
    using assms by (auto simp: is_drive_letter_sep starts_with_def hd_map)
  show "pp_type (parse s) = Unix" "starts_with SEPARATOR (pp_path (parse s))"
    using n(2) normalize_starts [OF n(1)] by (simp_all only: parse_unix [OF d] parsed_path.select_convs)
qed

section \<open>Properties\<close>

text \<open>The resolver stops every chain of symbolic links: from a fresh resolver a walk through
  \<open>n\<close> links succeeds exactly when \<open>n \<le> 40\<close>, a longer chain ends with the error, and leaving as
  many links as were entered restores the resolver.\<close>

lemma symlink_chain_bounded:
  "(fst (enters n SymlinkResolver_new) = Ok () \<longleftrightarrow> n \<le> MAX_SYMLINK_DEPTH) \<and>
   (fst (enters n SymlinkResolver_new) = Err InvalidPath \<longleftrightarrow> n > MAX_SYMLINK_DEPTH) \<and>
   (leave ^^ min n (Suc MAX_SYMLINK_DEPTH)) (snd (enters n SymlinkResolver_new)) = SymlinkResolver_new"
  using leave_inverse [of "min n (Suc MAX_SYMLINK_DEPTH)" SymlinkResolver_new]
  by (auto simp: enters_depth SymlinkResolver_new_def)

text \<open>A relative link that lies on a drive resolves to a path off the drive: the directory's
  drive letter is dropped and the result is a Unix path, which the mount table looks up among
  the path mounts. (Every drive directory and every relative target without a drive prefix.)\<close>

lemma relative_symlink_leaves_drive:
  assumes "pp_type (parse symlink_dir) = Drive letter"
    and "\<not> symlink_is_absolute (SymlinkTarget_new target)"
    and "\<not> symlink_is_drive (SymlinkTarget_new target)"
  shows "pp_type (parse (symlink_resolve (SymlinkTarget_new target) symlink_dir)) = Unix"
proof -
  have "starts_with SEPARATOR (pp_path (parse symlink_dir))"
    using assms(1) jailed_starts by (auto simp: parse_def Let_def split: option.splits)
  moreover have "is_drive_letter target = None"
    using assms(3) by (cases "is_drive_letter target")
      (simp_all add: symlink_is_drive_def SymlinkTarget_new_def parse_drive)
  ultimately have "starts_with SEPARATOR (join (pp_path (parse symlink_dir)) target)"
    by (rule join_absolute)
  note joined = parse_of_absolute [OF this]
  have "symlink_resolve (SymlinkTarget_new target) symlink_dir =
      pp_path (parse (join (pp_path (parse symlink_dir)) target))"
    using assms(2,3) joined(1)
    by (simp add: symlink_resolve_def Path_join_def Path_new_def to_display_def Let_def)
      (simp add: SymlinkTarget_new_def)
  then show ?thesis using parse_of_absolute(1) [OF joined(2)] by simp
qed

lemma relative_symlink_leaves_drive_example:
  "pp_type (parse (symlink_resolve (SymlinkTarget_new ''x'') ''C:/dir'')) = Unix"
  by (rule relative_symlink_leaves_drive [where letter = "CHR ''C''"]; code_simp)

end
