(* ===== verification/Wfs_Structures.thy ===== *)
theory Wfs_Structures
  imports Prelude
begin

text \<open>
  On-disk structures of WFS: the CRC-32 of \<^verbatim>\<open>src/crates/storage/wfs/src/lib.rs\<close> and the constants
  and the superblock of \<^verbatim>\<open>src/crates/storage/wfs/src/core/structures.rs\<close>.

  A \<open>repr(C)\<close> structure is a record together with its bytes in memory order (little endian, as
  on the supported x86-64 target); reading the bytes through a raw pointer is the inverse
  function. The CRC-32 lemmas show that one round is injective, so that two inputs of the same
  length which differ in one byte have different checksums.
\<close>

section \<open>Definitions\<close>

subsection \<open>CRC-32\<close>

definition CRC_POLY :: u32 where
  "CRC_POLY = 0xEDB88320"

definition crc_bit :: "u32 \<Rightarrow> u32" where
  "crc_bit crc = (if crc AND 1 \<noteq> 0 then drop_bit 1 crc XOR CRC_POLY else drop_bit 1 crc)"

definition crc_byte :: "byte \<Rightarrow> u32 \<Rightarrow> u32" where
  "crc_byte b crc = (crc_bit ^^ 8) (crc XOR ucast b)"

definition crc32 :: "byte list \<Rightarrow> u32" where
  "crc32 data = NOT (fold crc_byte data 0xFFFFFFFF)"

subsection \<open>Constants\<close>

definition WFS_MAGIC :: u32 where "WFS_MAGIC = 0x57465331"
definition WFS_VERSION :: u16 where "WFS_VERSION = 1"
definition BLOCK_SIZE :: nat where "BLOCK_SIZE = 4096"
definition DEFAULT_CHUNK_SIZE :: nat where "DEFAULT_CHUNK_SIZE = 65536"
definition SUPERBLOCK_SIZE :: nat where "SUPERBLOCK_SIZE = 256"
definition ROOT_INODE :: u64 where "ROOT_INODE = 1"
definition MAX_FILENAME :: nat where "MAX_FILENAME = 255"
definition INLINE_DATA_MAX :: nat where "INLINE_DATA_MAX = 160"
definition SUPERBLOCK_CRC_OFFSET :: nat where "SUPERBLOCK_CRC_OFFSET = 248"

definition bytes_of_string :: "string \<Rightarrow> byte list" where
  "bytes_of_string s = map (\<lambda>c. of_nat (of_char c)) s"

definition WFS_SIGNATURE :: "byte list" where
  "WFS_SIGNATURE =
     bytes_of_string ''WFS CoW FileSystem - Chris Watkins <chris@watkinslabs.com>'' @ replicate 6 0"

definition S_IFREG :: u32 where "S_IFREG = 0x8000"
definition S_IFDIR :: u32 where "S_IFDIR = 0x4000"
definition S_IFLNK :: u32 where "S_IFLNK = 0xA000"
definition S_IFMT :: u32 where "S_IFMT = 0xF000"

subsection \<open>Superblock\<close>

record superblock =
  sb_magic :: u32
  sb_version :: u16
  sb_flags :: u16
  sb_signature :: "byte list"
  sb_block_size :: u32
  sb_chunk_size :: u32
  sb_total_blocks :: u64
  sb_free_blocks :: u64
  sb_root_tree_block :: u64
  sb_root_generation :: u64
  sb_free_tree_block :: u64
  sb_inode_count :: u64
  sb_next_inode :: u64
  sb_data_start_block :: u64
  sb_reserved :: "byte list"
  sb_crc32 :: u32
  sb_pad :: u32

definition Superblock_new :: "u64 \<Rightarrow> superblock" where
  "Superblock_new total_blocks =
     \<lparr>sb_magic = WFS_MAGIC, sb_version = WFS_VERSION, sb_flags = 0, sb_signature = WFS_SIGNATURE,
      sb_block_size = of_nat BLOCK_SIZE, sb_chunk_size = of_nat DEFAULT_CHUNK_SIZE,
      sb_total_blocks = total_blocks, sb_free_blocks = saturating_sub total_blocks 4,
      sb_root_tree_block = 0, sb_root_generation = 0, sb_free_tree_block = 0,
      sb_inode_count = 0, sb_next_inode = ROOT_INODE, sb_data_start_block = 2,
      sb_reserved = replicate 104 0, sb_crc32 = 0, sb_pad = 0\<rparr>"

text \<open>The bytes before the \<open>crc32\<close> field (offset 248) and the whole structure.\<close>

definition sb_head_bytes :: "superblock \<Rightarrow> byte list" where
  "sb_head_bytes sb =
     enc_word 4 (sb_magic sb) @ enc_word 2 (sb_version sb) @ enc_word 2 (sb_flags sb) @
     sb_signature sb @
     enc_word 4 (sb_block_size sb) @ enc_word 4 (sb_chunk_size sb) @
     enc_word 8 (sb_total_blocks sb) @ enc_word 8 (sb_free_blocks sb) @
     enc_word 8 (sb_root_tree_block sb) @ enc_word 8 (sb_root_generation sb) @
     enc_word 8 (sb_free_tree_block sb) @
     enc_word 8 (sb_inode_count sb) @ enc_word 8 (sb_next_inode sb) @
     enc_word 8 (sb_data_start_block sb) @
     sb_reserved sb"

definition superblock_bytes :: "superblock \<Rightarrow> byte list" where
  "superblock_bytes sb = sb_head_bytes sb @ enc_word 4 (sb_crc32 sb) @ enc_word 4 (sb_pad sb)"

definition superblock_of_bytes :: "byte list \<Rightarrow> superblock" where
  "superblock_of_bytes bs =
     \<lparr>sb_magic = dec_word (take 4 bs),
      sb_version = dec_word (take 2 (drop 4 bs)),
      sb_flags = dec_word (take 2 (drop 6 bs)),
      sb_signature = take 64 (drop 8 bs),
      sb_block_size = dec_word (take 4 (drop 72 bs)),
      sb_chunk_size = dec_word (take 4 (drop 76 bs)),
      sb_total_blocks = dec_word (take 8 (drop 80 bs)),
      sb_free_blocks = dec_word (take 8 (drop 88 bs)),
      sb_root_tree_block = dec_word (take 8 (drop 96 bs)),
      sb_root_generation = dec_word (take 8 (drop 104 bs)),
      sb_free_tree_block = dec_word (take 8 (drop 112 bs)),
      sb_inode_count = dec_word (take 8 (drop 120 bs)),
      sb_next_inode = dec_word (take 8 (drop 128 bs)),
      sb_data_start_block = dec_word (take 8 (drop 136 bs)),
      sb_reserved = take 104 (drop 144 bs),
      sb_crc32 = dec_word (take 4 (drop 248 bs)),
      sb_pad = dec_word (take 4 (drop 252 bs))\<rparr>"

definition sb_calculate_crc :: "superblock \<Rightarrow> u32" where
  "sb_calculate_crc sb = crc32 (take SUPERBLOCK_CRC_OFFSET (superblock_bytes sb))"

definition sb_update_crc :: "superblock \<Rightarrow> superblock" where
  "sb_update_crc sb = sb\<lparr>sb_crc32 := sb_calculate_crc sb\<rparr>"

definition sb_verify_crc :: "superblock \<Rightarrow> bool" where
  "sb_verify_crc sb \<longleftrightarrow> sb_crc32 sb = sb_calculate_crc sb"

definition sb_is_valid :: "superblock \<Rightarrow> bool" where
  "sb_is_valid sb \<longleftrightarrow> sb_magic sb = WFS_MAGIC \<and> sb_version sb = WFS_VERSION \<and> sb_verify_crc sb"

text \<open>The array fields have their declared lengths.\<close>

definition wf_superblock :: "superblock \<Rightarrow> bool" where
  "wf_superblock sb \<longleftrightarrow> length (sb_signature sb) = 64 \<and> length (sb_reserved sb) = 104"

section \<open>Lemmas\<close>

subsection \<open>CRC-32 is injective on one byte\<close>

lemma crc_bit_top: "bit (crc_bit c) 31 \<longleftrightarrow> bit c 0"
proof -
  have "bit CRC_POLY 31" by (simp add: CRC_POLY_def)
  then show ?thesis
    by (auto simp: crc_bit_def bit_xor_iff bit_drop_bit_eq and_one_eq odd_iff_mod_2_eq_one [symmetric]
        bit_0 dest: bit_imp_le_length)
qed

lemma inj_crc_bit: "inj crc_bit"
proof (rule injI, rule bit_word_eqI)
  fix x y :: u32 and n
  assume eq: "crc_bit x = crc_bit y" and n: "n < LENGTH(32)"
  have low: "bit x 0 = bit y 0" using eq crc_bit_top by metis
  have shift: "drop_bit 1 x = drop_bit 1 y"
  proof -
    have lsb: "(x AND 1 \<noteq> 0) = (y AND 1 \<noteq> 0)"
      using low by (simp add: and_one_eq bit_0 odd_iff_mod_2_eq_one)
    show ?thesis
    proof (cases "x AND 1 \<noteq> 0")
      case True
      then have "drop_bit 1 x XOR CRC_POLY = drop_bit 1 y XOR CRC_POLY"
        using eq lsb by (simp add: crc_bit_def)
      then have "(drop_bit 1 x XOR CRC_POLY) XOR CRC_POLY = (drop_bit 1 y XOR CRC_POLY) XOR CRC_POLY"
        by simp
      then show ?thesis by (simp add: ac_simps)
    next
      case False
      then show ?thesis using eq lsb by (simp add: crc_bit_def)
    qed
  qed
  show "bit x n \<longleftrightarrow> bit y n"
  proof (cases n)
    case (Suc m)
    have "bit (drop_bit 1 x) m = bit (drop_bit 1 y) m" using shift by simp
    then show ?thesis by (simp add: bit_drop_bit_eq Suc)
  qed (use low in simp)
qed

lemma crc_byte_inj_state: "crc_byte b x = crc_byte b y \<Longrightarrow> x = y"
proof -
  assume "crc_byte b x = crc_byte b y"
  then have "x XOR ucast b = y XOR ucast b"
    using inj_fn [OF inj_crc_bit, of 8] by (auto simp: crc_byte_def dest: injD)
  then have "(x XOR ucast b) XOR ucast b = (y XOR ucast b) XOR ucast b" by simp
  then show ?thesis by (simp add: ac_simps)
qed

lemma crc_byte_inj_byte: "crc_byte a x = crc_byte b x \<Longrightarrow> a = b"
proof -
  assume "crc_byte a x = crc_byte b x"
  then have "x XOR ucast a = x XOR ucast b"
    using inj_fn [OF inj_crc_bit, of 8] by (auto simp: crc_byte_def dest: injD)
  then have "x XOR (x XOR ucast a) = x XOR (x XOR ucast b)" by simp
  then have "(ucast a :: u32) = ucast b" by (simp add: xor.assoc [symmetric])
  then have eq: "bit (ucast a :: u32) n = bit (ucast b :: u32) n" for n by simp
  show ?thesis
  proof (rule bit_word_eqI)
    fix n assume "n < LENGTH(8)"
    then show "bit a n = bit b n" using eq [of n] by (simp add: bit_unsigned_iff)
  qed
qed

lemma fold_crc_inj: "fold crc_byte bs x = fold crc_byte bs y \<Longrightarrow> x = y"
  by (induction bs arbitrary: x y) (auto dest: crc_byte_inj_state)

lemma crc32_one_byte: "crc32 (xs @ a # ys) = crc32 (xs @ b # ys) \<longleftrightarrow> a = b"
proof
  assume "crc32 (xs @ a # ys) = crc32 (xs @ b # ys)"
  then have "fold crc_byte (xs @ a # ys) 0xFFFFFFFF = fold crc_byte (xs @ b # ys) 0xFFFFFFFF"
    by (simp add: crc32_def del: fold_append)
  then show "a = b"
    by (auto dest!: fold_crc_inj crc_byte_inj_byte)
qed simp

lemma crc32_update: "i < length bs \<Longrightarrow> crc32 (bs[i := b]) = crc32 bs \<longleftrightarrow> b = bs ! i"
  using crc32_one_byte [of "take i bs" b "drop (Suc i) bs" "bs ! i"]
  by (simp add: upd_conv_take_nth_drop id_take_nth_drop [symmetric])

subsection \<open>Superblock bytes\<close>

lemma length_sb_head_bytes: "wf_superblock sb \<Longrightarrow> length (sb_head_bytes sb) = 248"
  by (simp add: sb_head_bytes_def wf_superblock_def)

lemma length_superblock_bytes [simp]: "wf_superblock sb \<Longrightarrow> length (superblock_bytes sb) = 256"
  by (simp add: superblock_bytes_def length_sb_head_bytes)

lemma superblock_of_bytes_append:
  "wf_superblock sb \<Longrightarrow> superblock_of_bytes (superblock_bytes sb @ rest) = sb"
  by (simp add: superblock_of_bytes_def superblock_bytes_def sb_head_bytes_def wf_superblock_def
      dec_enc_word drop_Cons' take_Cons')

lemma wf_superblock_of_bytes: "length bs \<ge> 256 \<Longrightarrow> wf_superblock (superblock_of_bytes bs)"
  by (simp add: superblock_of_bytes_def wf_superblock_def)

text \<open>Decoding and encoding a field gives back its bytes.\<close>

lemma enc_dec_slice:
  "LENGTH('a::len) = 8 * n \<Longrightarrow> length bs \<ge> i + n \<Longrightarrow>
   enc_word n (dec_word (take n (drop i bs)) :: 'a word) = take n (drop i bs)"
  using enc_dec_word [of "take n (drop i bs)", where 'a = 'a] by simp

lemma take_drop_step: "i + n = m \<Longrightarrow> take n (drop i bs) @ drop m bs = drop i bs"
  by (metis add.commute append_take_drop_id drop_drop)

lemma sb_calculate_crc_head: "wf_superblock sb \<Longrightarrow> sb_calculate_crc sb = crc32 (sb_head_bytes sb)"
  by (simp add: sb_calculate_crc_def superblock_bytes_def SUPERBLOCK_CRC_OFFSET_def length_sb_head_bytes)

lemma sb_update_crc_verifies: "wf_superblock sb \<Longrightarrow> sb_verify_crc (sb_update_crc sb)"
  by (simp add: sb_verify_crc_def sb_update_crc_def sb_calculate_crc_head wf_superblock_def sb_head_bytes_def)

lemma wf_superblock_new: "wf_superblock (Superblock_new n)"
  by (simp add: wf_superblock_def Superblock_new_def WFS_SIGNATURE_def bytes_of_string_def)

lemma superblock_bytes_of_bytes:
  assumes "length bs = 256"
  shows "superblock_bytes (superblock_of_bytes bs) = bs"
proof -
  have "enc_word 4 (dec_word (drop 252 bs) :: u32) = drop 252 bs"
    using enc_dec_word [of "drop 252 bs", where 'a = 32] assms by simp
  then show ?thesis
    using assms
    by (simp add: superblock_bytes_def sb_head_bytes_def superblock_of_bytes_def enc_dec_slice
        enc_dec_slice [where i = 0, simplified] take_drop_step
        take_drop_step [where i = 0, simplified])
qed

lemma superblock_bytes_parts:
  assumes "wf_superblock sb"
  shows "sb_head_bytes sb = take 248 (superblock_bytes sb)"
    and "enc_word 4 (sb_crc32 sb) = take 4 (drop 248 (superblock_bytes sb))"
  using length_sb_head_bytes [OF assms] by (simp_all add: superblock_bytes_def)

lemma superblock_bytes_first: "superblock_bytes sb ! 0 = of_nat (unat (sb_magic sb))"
  by (simp add: superblock_bytes_def sb_head_bytes_def nth_append enc_word_first)

section \<open>Properties\<close>

text \<open>CRC-32 detects every corrupted byte: two inputs of the same length that differ in
  exactly one position have different checksums.\<close>

lemma crc32_detects_corrupted_byte:
  assumes "i < length data" and "b \<noteq> data ! i"
  shows "crc32 (data[i := b]) \<noteq> crc32 data"
  using crc32_update [OF assms(1)] assms(2) by simp

lemma crc32_detects_corrupted_byte_example:
  "crc32 ([1, 2, 3][1 := 7]) \<noteq> crc32 [1, 2, 3]"
  by (rule crc32_detects_corrupted_byte) simp_all

text \<open>A superblock survives its trip through the bytes of a block, and corruption is caught:
  reading the 256 bytes back gives the superblock, whatever follows them; and when its checksum
  was set by \<open>update_crc\<close>, changing any one of the 252 bytes up to and including the checksum
  makes the superblock that is read fail \<open>verify_crc\<close>.\<close>

lemma superblock_roundtrip_and_detection:
  assumes "wf_superblock sb" and "sb_verify_crc sb"
    and "i < 252" and "b \<noteq> superblock_bytes sb ! i"
  shows "superblock_of_bytes (superblock_bytes sb @ rest) = sb \<and>
    \<not> sb_verify_crc (superblock_of_bytes ((superblock_bytes sb)[i := b]))"
proof
  let ?bs = "(superblock_bytes sb)[i := b]" and ?sb = "superblock_of_bytes ((superblock_bytes sb)[i := b])"
  have bs: "superblock_bytes ?sb = ?bs" and wf': "wf_superblock ?sb"
    using assms(1) by (simp_all add: superblock_bytes_of_bytes wf_superblock_of_bytes)
  note parts = superblock_bytes_parts [OF wf', unfolded bs] and old = superblock_bytes_parts [OF assms(1)]
  show "\<not> sb_verify_crc ?sb"
  proof (cases "i < 248")
    case True
    then have "enc_word 4 (sb_crc32 ?sb) = enc_word 4 (sb_crc32 sb)"
      by (simp add: parts old drop_update_cancel)
    then have "sb_crc32 ?sb = sb_crc32 sb"
      by (subst (asm) enc_word_inj) simp_all
    moreover have "sb_head_bytes ?sb = (sb_head_bytes sb)[i := b]"
      by (simp add: parts old take_update_swap)
    moreover have "crc32 ((sb_head_bytes sb)[i := b]) \<noteq> crc32 (sb_head_bytes sb)"
      using True assms(4) length_sb_head_bytes [OF assms(1)]
      by (subst crc32_update) (simp_all add: old)
    ultimately show ?thesis
      using assms(1,2) wf' by (simp add: sb_verify_crc_def sb_calculate_crc_head)
  next
    case False
    have "sb_head_bytes ?sb = sb_head_bytes sb"
      using False by (simp add: parts old)
    moreover have "sb_crc32 ?sb \<noteq> sb_crc32 sb"
    proof
      assume "sb_crc32 ?sb = sb_crc32 sb"
      then have eq: "take 4 (drop 248 ?bs) = take 4 (drop 248 (superblock_bytes sb))"
        using parts(2) old(2) by simp
      have "take 4 (drop 248 ?bs) ! (i - 248) = b"
        using False assms(1,3) by simp
      moreover have "take 4 (drop 248 (superblock_bytes sb)) ! (i - 248) = superblock_bytes sb ! i"
        using False assms(1,3) by simp
      ultimately show False using eq assms(4) by simp
    qed
    ultimately show ?thesis
      using assms(1,2) wf' by (simp add: sb_verify_crc_def sb_calculate_crc_head)
  qed
qed (rule superblock_of_bytes_append [OF assms(1)])

lemma superblock_roundtrip_and_detection_example:
  "\<not> sb_verify_crc (superblock_of_bytes
     ((superblock_bytes (sb_update_crc (Superblock_new 1000)))[0 := 0x32]))"
proof -
  have wf: "wf_superblock (sb_update_crc (Superblock_new 1000))"
    using wf_superblock_new by (simp add: wf_superblock_def sb_update_crc_def)
  have "superblock_bytes (sb_update_crc (Superblock_new 1000)) ! 0 = 0x31"
    by (simp add: superblock_bytes_first sb_update_crc_def Superblock_new_def WFS_MAGIC_def)
  then show ?thesis
    using superblock_roundtrip_and_detection [OF wf sb_update_crc_verifies [OF wf_superblock_new], of 0 "0x32"]
    by simp
qed

end
