(* ===== verification/Wfs_Node.thy ===== *)
theory Wfs_Node
  imports Wfs_Structures
begin

text \<open>
  The tree node of \<^verbatim>\<open>src/crates/storage/wfs/src/core/node.rs\<close>: a 4096-byte block with a 32-byte
  header and a data area, its checksum and its validity test. The \<open>update_crc\<close> lemmas keep
  the checksum opaque for the tree proofs.
\<close>

section \<open>Definitions\<close>

definition NODE_HEADER_SIZE :: nat where "NODE_HEADER_SIZE = 32"
definition NODE_DATA_SIZE :: nat where "NODE_DATA_SIZE = BLOCK_SIZE - NODE_HEADER_SIZE"
definition NODE_MAGIC_INODE :: u32 where "NODE_MAGIC_INODE = 0x494E4F44"
definition NODE_MAGIC_DIR :: u32 where "NODE_MAGIC_DIR = 0x44495245"
definition NODE_MAGIC_EXTENT :: u32 where "NODE_MAGIC_EXTENT = 0x45585445"
definition NODE_MAGIC_FREE :: u32 where "NODE_MAGIC_FREE = 0x46524545"

datatype node_type = NInode | NDirectory | NExtent | NFreeSpace

fun node_type_magic :: "node_type \<Rightarrow> u32" where
  "node_type_magic NInode = NODE_MAGIC_INODE"
| "node_type_magic NDirectory = NODE_MAGIC_DIR"
| "node_type_magic NExtent = NODE_MAGIC_EXTENT"
| "node_type_magic NFreeSpace = NODE_MAGIC_FREE"

definition from_magic :: "u32 \<Rightarrow> node_type option" where
  "from_magic magic =
     (if magic = NODE_MAGIC_INODE then Some NInode
      else if magic = NODE_MAGIC_DIR then Some NDirectory
      else if magic = NODE_MAGIC_EXTENT then Some NExtent
      else if magic = NODE_MAGIC_FREE then Some NFreeSpace
      else None)"

record tree_node =
  tn_magic :: u32
  tn_level :: u16
  tn_item_count :: u16
  tn_generation :: u64
  tn_parent_block :: u64
  tn_crc32 :: u32
  tn_pad :: u32
  tn_data :: "byte list"

definition TreeNode_new :: "node_type \<Rightarrow> u16 \<Rightarrow> u64 \<Rightarrow> tree_node" where
  "TreeNode_new ty level generation =
     \<lparr>tn_magic = node_type_magic ty, tn_level = level, tn_item_count = 0,
      tn_generation = generation, tn_parent_block = 0, tn_crc32 = 0, tn_pad = 0,
      tn_data = replicate NODE_DATA_SIZE 0\<rparr>"

definition new_leaf :: "node_type \<Rightarrow> u64 \<Rightarrow> tree_node" where
  "new_leaf ty generation = TreeNode_new ty 0 generation"

text \<open>\<open>new_internal\<close> asserts a positive level.\<close>

definition new_internal :: "node_type \<Rightarrow> u16 \<Rightarrow> u64 \<Rightarrow> ('e, tree_node) res" where
  "new_internal ty level generation =
     (if level > 0 then Ok (TreeNode_new ty level generation) else Panic)"

definition TreeNode_default :: tree_node where
  "TreeNode_default = TreeNode_new NInode 0 0"

definition is_leaf :: "tree_node \<Rightarrow> bool" where
  "is_leaf n \<longleftrightarrow> tn_level n = 0"

definition is_internal :: "tree_node \<Rightarrow> bool" where
  "is_internal n \<longleftrightarrow> tn_level n > 0"

definition tn_node_type :: "tree_node \<Rightarrow> node_type option" where
  "tn_node_type n = from_magic (tn_magic n)"

definition node_bytes :: "tree_node \<Rightarrow> byte list" where
  "node_bytes n =
     enc_word 4 (tn_magic n) @ enc_word 2 (tn_level n) @ enc_word 2 (tn_item_count n) @
     enc_word 8 (tn_generation n) @ enc_word 8 (tn_parent_block n) @
     enc_word 4 (tn_crc32 n) @ enc_word 4 (tn_pad n) @ tn_data n"

definition calculate_crc :: "tree_node \<Rightarrow> u32" where
  "calculate_crc n = crc32 (take 24 (node_bytes n) @ drop 28 (node_bytes n))"

definition update_crc :: "tree_node \<Rightarrow> tree_node" where
  "update_crc n = n\<lparr>tn_crc32 := calculate_crc n\<rparr>"

definition verify_crc :: "tree_node \<Rightarrow> bool" where
  "verify_crc n \<longleftrightarrow> tn_crc32 n = calculate_crc n"

definition node_is_valid :: "tree_node \<Rightarrow> bool" where
  "node_is_valid n \<longleftrightarrow> tn_node_type n \<noteq> None \<and> verify_crc n"

definition max_items :: "nat \<Rightarrow> nat \<Rightarrow> nat" where
  "max_items key_size value_size = NODE_DATA_SIZE div (key_size + value_size)"

definition node_is_full :: "tree_node \<Rightarrow> nat \<Rightarrow> nat \<Rightarrow> bool" where
  "node_is_full n key_size value_size \<longleftrightarrow> unat (tn_item_count n) \<ge> max_items key_size value_size"

definition node_needs_split :: "tree_node \<Rightarrow> nat \<Rightarrow> nat \<Rightarrow> bool" where
  "node_needs_split n key_size value_size \<longleftrightarrow> unat (tn_item_count n) > max_items key_size value_size div 2"

definition INTERNAL_ENTRY_SIZE :: nat where "INTERNAL_ENTRY_SIZE = 16"
definition MAX_INTERNAL_ENTRIES :: nat where
  "MAX_INTERNAL_ENTRIES = NODE_DATA_SIZE div INTERNAL_ENTRY_SIZE"

definition wf_node :: "tree_node \<Rightarrow> bool" where
  "wf_node n \<longleftrightarrow> length (tn_data n) = NODE_DATA_SIZE"

section \<open>Lemmas\<close>

lemma NODE_DATA_SIZE_eq [simp]: "NODE_DATA_SIZE = 4064"
  by (simp add: NODE_DATA_SIZE_def BLOCK_SIZE_def NODE_HEADER_SIZE_def)

lemma MAX_INTERNAL_ENTRIES_eq [simp]: "MAX_INTERNAL_ENTRIES = 254"
  by (simp add: MAX_INTERNAL_ENTRIES_def INTERNAL_ENTRY_SIZE_def)

lemma from_magic_inverse [simp]: "from_magic (node_type_magic ty) = Some ty"
  by (cases ty) (simp_all add: from_magic_def NODE_MAGIC_INODE_def NODE_MAGIC_DIR_def
      NODE_MAGIC_EXTENT_def NODE_MAGIC_FREE_def)

declare node_type_magic.simps [simp del]

lemma calculate_crc_eq:
  "calculate_crc n = crc32 (
     enc_word 4 (tn_magic n) @ enc_word 2 (tn_level n) @ enc_word 2 (tn_item_count n) @
     enc_word 8 (tn_generation n) @ enc_word 8 (tn_parent_block n) @ enc_word 4 (tn_pad n) @ tn_data n)"
  by (simp add: calculate_crc_def node_bytes_def)

lemma verify_update_crc [simp]: "verify_crc (update_crc n)"
  by (simp add: verify_crc_def update_crc_def calculate_crc_eq)

lemma update_crc_fields [node_simps, simp]:
  "tn_magic (update_crc n) = tn_magic n" "tn_level (update_crc n) = tn_level n"
  "tn_item_count (update_crc n) = tn_item_count n" "tn_generation (update_crc n) = tn_generation n"
  "tn_parent_block (update_crc n) = tn_parent_block n" "tn_pad (update_crc n) = tn_pad n"
  "tn_data (update_crc n) = tn_data n"
  by (simp_all add: update_crc_def)

lemma update_crc_valid: "tn_node_type n \<noteq> None \<Longrightarrow> node_is_valid (update_crc n)"
  by (simp add: node_is_valid_def tn_node_type_def)

lemma new_leaf_fields [node_simps, simp]:
  "tn_magic (new_leaf ty g) = node_type_magic ty" "tn_level (new_leaf ty g) = 0"
  "tn_item_count (new_leaf ty g) = 0" "tn_generation (new_leaf ty g) = g"
  "tn_data (new_leaf ty g) = replicate 4064 0"
  by (simp_all add: new_leaf_def TreeNode_new_def)

lemma wf_node_new_leaf [simp]: "wf_node (new_leaf ty g)"
  by (simp add: wf_node_def)

lemma wf_node_update_crc [simp]: "wf_node (update_crc n) = wf_node n"
  by (simp add: wf_node_def)

section \<open>Properties\<close>

text \<open>A node whose checksum was set is accepted, and a node with any one byte of its data area
  changed afterwards is refused.\<close>

lemma node_crc_detects_corruption:
  assumes "tn_node_type n \<noteq> None"
    and "i < length (tn_data n)" and "b \<noteq> tn_data n ! i"
  shows "node_is_valid (update_crc n) \<and>
    \<not> node_is_valid ((update_crc n)\<lparr>tn_data := (tn_data n)[i := b]\<rparr>)"
proof
  let ?h = "enc_word 4 (tn_magic n) @ enc_word 2 (tn_level n) @ enc_word 2 (tn_item_count n) @
     enc_word 8 (tn_generation n) @ enc_word 8 (tn_parent_block n) @ enc_word 4 (tn_pad n)"
  have "crc32 ((?h @ tn_data n)[length ?h + i := b]) \<noteq> crc32 (?h @ tn_data n)"
    using assms(2,3) by (subst crc32_update) (simp_all add: nth_append)
  then have "crc32 (?h @ (tn_data n)[i := b]) \<noteq> crc32 (?h @ tn_data n)"
    by (simp only: list_update_append) simp
  then show "\<not> node_is_valid ((update_crc n)\<lparr>tn_data := (tn_data n)[i := b]\<rparr>)"
    by (simp add: node_is_valid_def verify_crc_def calculate_crc_eq update_crc_def)
qed (rule update_crc_valid [OF assms(1)])

lemma node_crc_detects_corruption_example:
  "\<not> node_is_valid ((update_crc (new_leaf NInode 1))\<lparr>tn_data := (tn_data (new_leaf NInode 1))[5 := 9]\<rparr>)"
  using node_crc_detects_corruption [of "new_leaf NInode 1" 5 9]
  by (simp add: tn_node_type_def)

end
