(* ===== verification/Wfs_Codec.thy ===== *)
theory Wfs_Codec
  imports Wfs_Node
begin

text \<open>
  The \<open>TreeKey\<close> and \<open>TreeValue\<close> traits of \<^verbatim>\<open>src/crates/storage/wfs/src/core/tree.rs\<close> and their
  implementations for \<open>u64\<close>. A trait implementation is a dictionary \<open>'v value_dict\<close>; keys are
  always \<open>u64\<close>, the only implementation of \<open>TreeKey\<close>. The contract of \<open>TreeValue\<close> that the tree
  code relies on (fixed width, decoding inverts encoding on well-formed values, at least two
  entries per node) is the locale \<open>tree_value\<close>; each value type interprets it in its theory.
\<close>

section \<open>Definitions\<close>

text \<open>The common shape of \<open>serialize\<close>: \<open>bytes\<close> into the front of the buffer when they fit. The
  result is the number of bytes written and the buffer afterwards.\<close>

definition write_front :: "byte list \<Rightarrow> nat \<Rightarrow> byte list \<Rightarrow> nat \<times> byte list" where
  "write_front bytes n buf = (if length buf \<ge> n then (n, copy_into buf 0 bytes) else (0, buf))"

definition key_serialize :: "u64 \<Rightarrow> byte list \<Rightarrow> nat \<times> byte list" where
  "key_serialize key buf = write_front (enc_word 8 key) 8 buf"

definition key_deserialize :: "byte list \<Rightarrow> (u64 \<times> nat) option" where
  "key_deserialize buf = (if length buf \<ge> 8 then Some (dec_word (take 8 buf), 8) else None)"

record 'v value_dict =
  vd_size :: nat
  vd_serialize :: "'v \<Rightarrow> byte list \<Rightarrow> nat \<times> byte list"
  vd_deserialize :: "byte list \<Rightarrow> ('v \<times> nat) option"

definition u64_serialize :: "u64 \<Rightarrow> byte list \<Rightarrow> nat \<times> byte list" where
  "u64_serialize v buf = write_front (enc_word 8 v) 8 buf"

definition u64_deserialize :: "byte list \<Rightarrow> (u64 \<times> nat) option" where
  "u64_deserialize buf = (if length buf \<ge> 8 then Some (dec_word (take 8 buf), 8) else None)"

definition u64_value :: "u64 value_dict" where
  "u64_value = \<lparr>vd_size = 8, vd_serialize = u64_serialize, vd_deserialize = u64_deserialize\<rparr>"

text \<open>\<open>LeafNode::entry_size\<close> and \<open>max_entries\<close>, with \<open>size_of::<u64>() = 8\<close>.\<close>

definition entry_size :: "'v value_dict \<Rightarrow> nat" where
  "entry_size V = 8 + vd_size V"

definition max_entries :: "'v value_dict \<Rightarrow> nat" where
  "max_entries V = NODE_DATA_SIZE div entry_size V"

text \<open>The key as \<open>u64\<close>: \<open>search\<close> and \<open>split_leaf\<close> serialize it into an 8-byte buffer and read the
  buffer back.\<close>

definition key_bytes :: "u64 \<Rightarrow> u64" where
  "key_bytes key = dec_word (snd (key_serialize key (replicate 8 0)))"

section \<open>The contract of tree values\<close>

locale tree_value =
  fixes V :: "'v value_dict"
    and enc :: "'v \<Rightarrow> byte list"
    and dec :: "byte list \<Rightarrow> 'v"
    and valid :: "'v \<Rightarrow> bool"
  assumes size_bound: "2 * (8 + vd_size V) \<le> NODE_DATA_SIZE"
    and serialize: "vd_serialize V v buf = write_front (enc v) (vd_size V) buf"
    and deserialize: "vd_deserialize V buf =
      (if length buf \<ge> vd_size V then Some (dec (take (vd_size V) buf), vd_size V) else None)"
    and enc_length: "valid v \<Longrightarrow> length (enc v) = vd_size V"
    and dec_enc: "valid v \<Longrightarrow> dec (enc v) = v"
    and dec_valid: "length buf = vd_size V \<Longrightarrow> valid (dec buf)"
begin

lemma two_entries: "2 \<le> max_entries V"
proof -
  have "2 \<le> 4064 div (8 + vd_size V)"
    using size_bound by (simp add: less_eq_div_iff_mult_less_eq)
  then show ?thesis by (simp add: max_entries_def entry_size_def)
qed

lemma max_entries_fit: "max_entries V * entry_size V \<le> 4064"
  by (simp add: max_entries_def)

lemma max_entries_u16: "max_entries V < 65536"
proof -
  have "4064 div (8 + vd_size V) \<le> 4064" by (rule div_le_dividend)
  then have "4064 div (8 + vd_size V) < 65536" by (rule le_less_trans) simp
  then show ?thesis by (simp add: max_entries_def entry_size_def)
qed

lemma entry_fits: "i < max_entries V \<Longrightarrow> i * entry_size V + entry_size V \<le> 4064"
proof -
  assume "i < max_entries V"
  then have "Suc i * entry_size V \<le> max_entries V * entry_size V"
    by (intro mult_le_mono1) simp
  then show ?thesis using max_entries_fit by simp
qed

end

lemma write_front_at:
  assumes "off + length bs \<le> length d"
  shows "take off d @ snd (write_front bs (length bs) (drop off d)) = copy_into d off bs"
proof -
  have "length bs \<le> length d - off" using assms by arith
  then show ?thesis by (simp add: write_front_def copy_into_def add.commute)
qed

lemma key_bytes_id [simp]: "key_bytes key = key"
  by (simp add: key_bytes_def key_serialize_def write_front_def copy_into_def dec_enc_word)

interpretation u64v: tree_value u64_value "enc_word 8" dec_word "\<lambda>_. True"
  by unfold_locales
    (simp_all add: u64_value_def u64_serialize_def u64_deserialize_def dec_enc_word)

lemma vd_size_u64 [simp]: "vd_size u64_value = 8"
  by (simp add: u64_value_def)

lemma entry_size_u64 [simp]: "entry_size u64_value = 16"
  by (simp add: entry_size_def u64_value_def)

lemma max_entries_u64 [simp]: "max_entries u64_value = 254"
  by (simp add: max_entries_def)

end
