(* ===== verification/Wfs_Leaf.thy ===== *)
theory Wfs_Leaf
  imports Wfs_Codec
begin

text \<open>
  \<open>LeafNode\<close> of \<^verbatim>\<open>src/crates/storage/wfs/src/core/tree.rs\<close>: sorted fixed-size entries packed into
  the data area of a node, with binary search, insertion and deletion by shifting.

  The abstraction \<open>leaf_entries\<close> lists the entries \<open>get_entry\<close> returns. In the context of a
  well-behaved value type (\<open>tree_value\<close>) every operation on a well-formed leaf is related to
  the operation on sorted association lists (\<open>ins_list\<close>, \<open>del_list\<close>) and shown not to panic.
\<close>

section \<open>Definitions\<close>

datatype tree_error =
  NodeNotFound | InvalidNode | CrcError | NodeFull | KeyNotFound | DuplicateKey
| TreeIoError | EmptyTree | InvalidOperation

datatype search_pos = FoundAt nat | InsertAt nat

definition get_entry ::
  "'v value_dict \<Rightarrow> tree_node \<Rightarrow> nat \<Rightarrow> (tree_error, (u64 \<times> 'v) option) res" where
  "get_entry V n index =
     (if index \<ge> unat (tn_item_count n) then Ok None
      else
        let offset = index * entry_size V in
        rbind (or_panic (slice_from (tn_data n) offset)) (\<lambda>kbuf.
        case key_deserialize kbuf of
          None \<Rightarrow> Ok None
        | Some (key, _) \<Rightarrow>
            rbind (or_panic (slice_from (tn_data n) (offset + 8))) (\<lambda>vbuf.
            case vd_deserialize V vbuf of
              None \<Rightarrow> Ok None
            | Some (value, _) \<Rightarrow> Ok (Some (key, value)))))"

definition set_entry ::
  "'v value_dict \<Rightarrow> tree_node \<Rightarrow> nat \<Rightarrow> u64 \<Rightarrow> 'v \<Rightarrow> (tree_error, bool \<times> tree_node) res" where
  "set_entry V n index key value =
     (if index > unat (tn_item_count n) then Ok (False, n)
      else
        let offset = index * entry_size V in
        rbind (or_panic (slice_from (tn_data n) offset)) (\<lambda>kbuf.
        let data = take offset (tn_data n) @ snd (key_serialize key kbuf) in
        rbind (or_panic (slice_from data (offset + 8))) (\<lambda>vbuf.
        let data' = take (offset + 8) data @ snd (vd_serialize V value vbuf) in
        Ok (True, n\<lparr>tn_data := data'\<rparr>))))"

text \<open>The binary search loop.\<close>

function leaf_search_loop ::
  "'v value_dict \<Rightarrow> tree_node \<Rightarrow> u64 \<Rightarrow> nat \<Rightarrow> nat \<Rightarrow> (tree_error, search_pos) res" where
  "leaf_search_loop V n key left right =
     (if left < right then
        let mid = left + (right - left) div 2 in
        case get_entry V n mid of
          Ok (Some (mid_key, _)) \<Rightarrow>
            if mid_key < key then leaf_search_loop V n key (mid + 1) right
            else if key < mid_key then leaf_search_loop V n key left mid
            else Ok (FoundAt mid)
        | Ok None \<Rightarrow> Ok (InsertAt left)
        | Err e \<Rightarrow> Err e
        | Panic \<Rightarrow> Panic
      else Ok (InsertAt left))"
  by pat_completeness auto
termination
  by (relation "measure (\<lambda>(V, n, key, left, right). right - left)") auto

declare leaf_search_loop.simps [simp del]

definition leaf_search :: "'v value_dict \<Rightarrow> tree_node \<Rightarrow> u64 \<Rightarrow> (tree_error, search_pos) res" where
  "leaf_search V n key = leaf_search_loop V n key 0 (unat (tn_item_count n))"

text \<open>The body of the loop that moves entry \<open>src\<close> to \<open>dst\<close>.\<close>

definition move_entry ::
  "'v value_dict \<Rightarrow> nat \<Rightarrow> nat \<Rightarrow> tree_node \<Rightarrow> (tree_error, tree_node) res" where
  "move_entry V src dst n =
     rbind (get_entry V n src) (\<lambda>e.
     case e of
       Some (k, v) \<Rightarrow> rbind (set_entry V n dst k v) (\<lambda>(_, n'). Ok n')
     | None \<Rightarrow> Ok n)"

definition leaf_insert ::
  "'v value_dict \<Rightarrow> tree_node \<Rightarrow> u64 \<Rightarrow> 'v \<Rightarrow> (tree_error, tree_node) res" where
  "leaf_insert V n key value =
     (if unat (tn_item_count n) \<ge> max_entries V then Err NodeFull
      else
        rbind (leaf_search V n key) (\<lambda>r.
        case r of
          FoundAt _ \<Rightarrow> Err DuplicateKey
        | InsertAt pos \<Rightarrow>
            (let count = unat (tn_item_count n) in
             rbind (for_res (\<lambda>i. move_entry V i (i + 1)) (rev [pos..<count]) n) (\<lambda>n1.
             rbind (set_entry V n1 pos key value) (\<lambda>(_, n2).
             Ok (n2\<lparr>tn_item_count := tn_item_count n2 + 1\<rparr>))))))"

definition leaf_delete ::
  "'v value_dict \<Rightarrow> tree_node \<Rightarrow> u64 \<Rightarrow> (tree_error, 'v \<times> tree_node) res" where
  "leaf_delete V n key =
     rbind (leaf_search V n key) (\<lambda>r.
     case r of
       FoundAt pos \<Rightarrow>
         rbind (get_entry V n pos) (\<lambda>e.
         rbind (ok_or InvalidNode e) (\<lambda>(_, value).
         let count = unat (tn_item_count n) in
         rbind (for_res (\<lambda>i. move_entry V (i + 1) i) [pos..<count - 1] n) (\<lambda>n1.
         Ok (value, n1\<lparr>tn_item_count := tn_item_count n1 - 1\<rparr>))))
     | InsertAt _ \<Rightarrow> Err KeyNotFound)"

definition leaf_update ::
  "'v value_dict \<Rightarrow> tree_node \<Rightarrow> u64 \<Rightarrow> 'v \<Rightarrow> (tree_error, 'v \<times> tree_node) res" where
  "leaf_update V n key value =
     rbind (leaf_search V n key) (\<lambda>r.
     case r of
       FoundAt pos \<Rightarrow>
         rbind (get_entry V n pos) (\<lambda>e.
         rbind (ok_or InvalidNode e) (\<lambda>(_, old_value).
         rbind (set_entry V n pos key value) (\<lambda>(_, n').
         Ok (old_value, n'))))
     | InsertAt _ \<Rightarrow> Err KeyNotFound)"

definition leaf_is_full :: "'v value_dict \<Rightarrow> tree_node \<Rightarrow> bool" where
  "leaf_is_full V n \<longleftrightarrow> unat (tn_item_count n) \<ge> max_entries V"

definition leaf_needs_split :: "'v value_dict \<Rightarrow> tree_node \<Rightarrow> bool" where
  "leaf_needs_split V n \<longleftrightarrow> unat (tn_item_count n) > max_entries V div 2"

section \<open>Specification\<close>

text \<open>Sorted association lists.\<close>

fun ins_list :: "'k::linorder \<Rightarrow> 'v \<Rightarrow> ('k \<times> 'v) list \<Rightarrow> ('k \<times> 'v) list" where
  "ins_list k v [] = [(k, v)]"
| "ins_list k v ((k', v') # xs) =
     (if k < k' then (k, v) # (k', v') # xs
      else if k = k' then (k, v) # xs
      else (k', v') # ins_list k v xs)"

definition del_list :: "'k \<Rightarrow> ('k \<times> 'v) list \<Rightarrow> ('k \<times> 'v) list" where
  "del_list k xs = filter (\<lambda>(k', _). k' \<noteq> k) xs"

abbreviation sorted_keys :: "('k::linorder \<times> 'v) list \<Rightarrow> bool" where
  "sorted_keys xs \<equiv> sorted_wrt (<) (map fst xs)"

definition leaf_entries :: "'v value_dict \<Rightarrow> tree_node \<Rightarrow> (u64 \<times> 'v) list" where
  "leaf_entries V n =
     List.map_filter (\<lambda>i. case get_entry V n i of Ok e \<Rightarrow> e | Err _ \<Rightarrow> None | Panic \<Rightarrow> None)
       [0..<unat (tn_item_count n)]"

definition wf_leaf :: "'v value_dict \<Rightarrow> tree_node \<Rightarrow> bool" where
  "wf_leaf V n \<longleftrightarrow>
     wf_node n \<and> unat (tn_item_count n) \<le> max_entries V \<and> sorted_keys (leaf_entries V n)"

text \<open>What a search returns: the index of the key, or the position that keeps the list sorted.\<close>

fun pos_spec :: "('k::linorder \<times> 'v) list \<Rightarrow> 'k \<Rightarrow> search_pos \<Rightarrow> bool" where
  "pos_spec es key (FoundAt i) \<longleftrightarrow> i < length es \<and> fst (es ! i) = key"
| "pos_spec es key (InsertAt p) \<longleftrightarrow> p \<le> length es \<and>
     (\<forall>i < p. fst (es ! i) < key) \<and> (\<forall>i. p \<le> i \<longrightarrow> i < length es \<longrightarrow> key < fst (es ! i))"

section \<open>Sorted association lists\<close>

lemma ins_list_split:
  "sorted_keys (xs @ ys) \<Longrightarrow> \<forall>k' \<in> fst ` set xs. k' < k \<Longrightarrow> \<forall>k' \<in> fst ` set ys. k < k' \<Longrightarrow>
   ins_list k v (xs @ ys) = xs @ (k, v) # ys"
proof (induction xs)
  case Nil
  then show ?case by (cases ys) auto
next
  case (Cons x xs)
  then show ?case by (cases x) (auto simp: not_less_iff_gr_or_eq)
qed

lemma set_keys_ins_list: "fst ` set (ins_list k v xs) = insert k (fst ` set xs)"
  by (induction k v xs rule: ins_list.induct) auto

lemma sorted_ins_list: "sorted_keys xs \<Longrightarrow> sorted_keys (ins_list k v xs)"
proof (induction k v xs rule: ins_list.induct)
  case (2 k v k' v' xs)
  have "set (map fst (ins_list k v xs)) = insert k (set (map fst xs))"
    using set_keys_ins_list [of k v xs] by simp
  with 2 show ?case by (auto simp: not_less_iff_gr_or_eq simp del: set_map)
qed simp

lemma map_of_ins_list: "sorted_keys xs \<Longrightarrow> map_of (ins_list k v xs) = (map_of xs)(k \<mapsto> v)"
  by (induction k v xs rule: ins_list.induct) (auto simp: fun_eq_iff)

lemma length_ins_list: "k \<notin> fst ` set xs \<Longrightarrow> length (ins_list k v xs) = Suc (length xs)"
  by (induction k v xs rule: ins_list.induct) auto

lemma map_of_del_list: "map_of (del_list k xs) = (map_of xs)(k := None)"
  by (induction xs) (auto simp: del_list_def fun_eq_iff)

lemma sorted_del_list: "sorted_keys xs \<Longrightarrow> sorted_keys (del_list k xs)"
  by (induction xs) (auto simp: del_list_def)

lemma set_keys_del_list: "fst ` set (del_list k xs) = fst ` set xs - {k}"
  by (auto simp: del_list_def image_iff)

lemma del_list_append: "del_list k (xs @ ys) = del_list k xs @ del_list k ys"
  by (simp add: del_list_def)

lemma del_list_absent: "k \<notin> fst ` set xs \<Longrightarrow> del_list k xs = xs"
  by (auto simp: del_list_def filter_id_conv image_iff)

lemma del_list_Cons: "del_list k (e # xs) = (if fst e = k then del_list k xs else e # del_list k xs)"
  by (simp add: del_list_def split_beta)

lemma keys_take: "p \<le> length es \<Longrightarrow> (\<forall>k \<in> fst ` set (take p es). P k) \<longleftrightarrow> (\<forall>i < p. P (fst (es ! i)))"
  by (simp add: all_set_conv_all_nth)

lemma keys_drop:
  "(\<forall>k \<in> fst ` set (drop p es). P k) \<longleftrightarrow> (\<forall>i. p \<le> i \<longrightarrow> i < length es \<longrightarrow> P (fst (es ! i)))"
proof -
  have "(\<forall>i. p \<le> i \<longrightarrow> i < length es \<longrightarrow> P (fst (es ! i)))"
    if all: "\<forall>i < length es - p. P (fst (es ! (p + i)))"
  proof (intro allI impI)
    fix i assume "p \<le> i" "i < length es"
    then show "P (fst (es ! i))" using all [rule_format, of "i - p"] by simp
  qed
  then have "(\<forall>i < length es - p. P (fst (es ! (p + i)))) \<longleftrightarrow> (\<forall>i. p \<le> i \<longrightarrow> i < length es \<longrightarrow> P (fst (es ! i)))"
    by auto
  then show ?thesis by (cases "p \<le> length es") (simp_all add: all_set_conv_all_nth)
qed

lemma sorted_keys_distinct: "sorted_keys xs \<Longrightarrow> distinct (map fst xs)"
  using strict_sorted_iff by blast

lemma map_of_list_update:
  "distinct (map fst xs) \<Longrightarrow> i < length xs \<Longrightarrow> fst (xs ! i) = k \<Longrightarrow> map_of (xs[i := (k, v)]) = (map_of xs)(k \<mapsto> v)"
proof (induction xs arbitrary: i)
  case (Cons x xs)
  show ?case
  proof (cases i)
    case (Suc j)
    then have "xs ! j \<in> set xs" using Cons.prems by simp
    then have "fst (xs ! j) \<in> fst ` set xs" by (rule imageI)
    then have "fst x \<noteq> k" using Cons.prems Suc by auto
    then show ?thesis using Cons Suc by (auto simp: fun_eq_iff)
  qed (use Cons.prems in \<open>auto simp: fun_eq_iff\<close>)
qed simp

lemma ins_list_append:
  assumes "\<forall>k' \<in> fst ` set xs. k' < k" and "\<forall>k' \<in> fst ` set zs. k < k'"
  shows "ins_list k v (xs @ ys @ zs) = xs @ ins_list k v ys @ zs"
proof -
  have *: "ins_list k v (ys @ zs) = ins_list k v ys @ zs"
    using assms(2) by (induction k v ys rule: ins_list.induct) (auto, cases zs, auto)
  show ?thesis
    using assms(1) by (induction xs) (auto simp: * not_less_iff_gr_or_eq)
qed

text \<open>Shifting a list to the right from a position on, and to the left.\<close>

lemma shift_right:
  "pos \<le> m \<Longrightarrow> m < length es \<Longrightarrow>
   fold (\<lambda>i es. es[Suc i := es ! i]) (rev [pos..<m]) es = take (Suc pos) es @ drop pos (take m es) @ drop (Suc m) es"
proof (induction m arbitrary: es)
  case (Suc m)
  show ?case
  proof (cases "pos = Suc m")
    case False
    then have le: "pos \<le> m" using Suc.prems by simp
    let ?es = "es[Suc m := es ! m]"
    have "fold (\<lambda>i es. es[Suc i := es ! i]) (rev [pos..<Suc m]) es =
        take (Suc pos) ?es @ drop pos (take m ?es) @ drop (Suc m) ?es"
      using Suc.IH [of ?es] Suc.prems le by simp
    also have "drop (Suc m) ?es = es ! m # drop (Suc (Suc m)) es"
      using Suc.prems by (simp add: drop_update_swap Cons_nth_drop_Suc [symmetric])
    also have "take m ?es = take m es" by simp
    also have "take (Suc pos) ?es = take (Suc pos) es" using le by simp
    also have "drop pos (take m es) @ es ! m # drop (Suc (Suc m)) es = drop pos (take (Suc m) es) @ drop (Suc (Suc m)) es"
      using Suc.prems le by (simp add: take_Suc_conv_app_nth)
    finally show ?thesis .
  qed (use Suc.prems in \<open>simp add: id_take_nth_drop [symmetric]\<close>)
qed simp

lemma shift_left:
  "pos \<le> m \<Longrightarrow> m < length es \<Longrightarrow>
   fold (\<lambda>i es. es[i := es ! Suc i]) [pos..<m] es = take pos es @ drop (Suc pos) (take (Suc m) es) @ drop m es"
proof (induction m)
  case (Suc m)
  show ?case
  proof (cases "pos = Suc m")
    case False
    then have le: "pos \<le> m" using Suc.prems by simp
    let ?es = "take pos es @ drop (Suc pos) (take (Suc m) es) @ drop m es"
    have "fold (\<lambda>i es. es[i := es ! Suc i]) [pos..<Suc m] es = ?es[m := ?es ! Suc m]"
      using Suc le by simp
    also have "\<dots> = take pos es @ drop (Suc pos) (take (Suc m) es) @ (drop m es)[0 := es ! Suc m]"
      using Suc.prems le by (simp add: list_update_append nth_append)
    also have "(drop m es)[0 := es ! Suc m] = es ! Suc m # drop (Suc m) es"
      using Suc.prems by (simp add: Cons_nth_drop_Suc [symmetric])
    also have "drop (Suc pos) (take (Suc m) es) @ es ! Suc m # drop (Suc m) es =
        drop (Suc pos) (take (Suc (Suc m)) es) @ drop (Suc m) es"
      using Suc.prems le by (simp add: take_Suc_conv_app_nth [of "Suc m"])
    finally show ?thesis .
  qed (use Suc.prems in simp)
qed simp

section \<open>Entries in the data area\<close>

context tree_value
begin

definition entry_at :: "byte list \<Rightarrow> nat \<Rightarrow> u64 \<times> 'v" where
  "entry_at data i =
     (dec_word (take 8 (drop (i * entry_size V) data)),
      dec (take (vd_size V) (drop (i * entry_size V + 8) data)))"

definition put_entry :: "byte list \<Rightarrow> nat \<Rightarrow> u64 \<times> 'v \<Rightarrow> byte list" where
  "put_entry data i e =
     copy_into (copy_into data (i * entry_size V) (enc_word 8 (fst e))) (i * entry_size V + 8) (enc (snd e))"

definition entries :: "byte list \<Rightarrow> nat \<Rightarrow> (u64 \<times> 'v) list" where
  "entries data n = map (entry_at data) [0..<n]"

lemma entry_slots: "j < i \<Longrightarrow> j * entry_size V + entry_size V \<le> i * entry_size V"
  by (metis Suc_leI add.commute mult_Suc mult_le_mono1)

lemma length_put_entry:
  assumes "length data = 4064" "i < max_entries V" "valid (snd e)"
  shows "length (put_entry data i e) = 4064"
  using entry_fits [OF assms(2)] assms by (simp add: put_entry_def enc_length entry_size_def)

lemma entry_at_put_entry:
  assumes "length data = 4064" "i < max_entries V" "valid (snd e)" "j < max_entries V"
  shows "entry_at (put_entry data i e) j = (if j = i then e else entry_at data j)"
proof -
  note fit = entry_fits [OF assms(2)] and size = enc_length [OF assms(3)]
  consider (before) "j < i" | (same) "j = i" | (after) "i < j" by linarith
  then show ?thesis
  proof cases
    case before
    then show ?thesis
      using entry_slots [OF before] fit assms(1) size
      by (simp add: entry_at_def put_entry_def slice_copy_into_before entry_size_def)
  next
    case same
    then show ?thesis
      using fit assms(1,3) size
        slice_copy_into_same [of "i * entry_size V + 8" "enc (snd e)"
          "copy_into data (i * entry_size V) (enc_word 8 (fst e))"]
        slice_copy_into_same [of "i * entry_size V" "enc_word 8 (fst e)" data]
      by (simp add: entry_at_def put_entry_def slice_copy_into_before entry_size_def dec_enc dec_enc_word)
  next
    case after
    then show ?thesis
      using entry_slots [OF after] fit assms(1) size
      by (simp add: entry_at_def put_entry_def slice_copy_into_after entry_size_def)
  qed
qed

lemma valid_entry_at:
  "length data = 4064 \<Longrightarrow> i < max_entries V \<Longrightarrow> valid (snd (entry_at data i))"
  using entry_fits [of i] by (simp add: entry_at_def dec_valid entry_size_def)

lemma entries_put_entry:
  assumes "length data = 4064" "i < max_entries V" "valid (snd e)" "n \<le> max_entries V"
  shows "entries (put_entry data i e) n = (entries data n)[i := e]"
  by (rule nth_equalityI) (use assms in \<open>auto simp: entries_def entry_at_put_entry nth_list_update\<close>)

lemma length_entries [simp]: "length (entries data n) = n"
  by (simp add: entries_def)

lemma nth_entries [simp]: "i < n \<Longrightarrow> entries data n ! i = entry_at data i"
  by (simp add: entries_def)

lemma entries_Suc: "entries data (Suc n) = entries data n @ [entry_at data n]"
  by (simp add: entries_def)

lemma take_entries: "m \<le> n \<Longrightarrow> take m (entries data n) = entries data m"
  by (simp add: entries_def take_map)

text \<open>Reading and writing an entry of a node.\<close>

lemma get_entry_at:
  assumes "wf_node n" "i < unat (tn_item_count n)" "i < max_entries V"
  shows "get_entry V n i = Ok (Some (entry_at (tn_data n) i))"
proof -
  have len: "length (tn_data n) = 4064" using assms(1) by (simp add: wf_node_def)
  note fit = entry_fits [OF assms(3)]
  have "slice_from (tn_data n) (i * entry_size V) = Some (drop (i * entry_size V) (tn_data n))"
    "slice_from (tn_data n) (i * entry_size V + 8) = Some (drop (i * entry_size V + 8) (tn_data n))"
    using fit len by (simp_all add: slice_from_def entry_size_def)
  moreover have "key_deserialize (drop (i * entry_size V) (tn_data n)) =
      Some (dec_word (take 8 (drop (i * entry_size V) (tn_data n))), 8)"
    using fit len by (simp add: key_deserialize_def entry_size_def)
  moreover have "vd_deserialize V (drop (i * entry_size V + 8) (tn_data n)) =
      Some (dec (take (vd_size V) (drop (i * entry_size V + 8) (tn_data n))), vd_size V)"
    using fit len by (simp add: deserialize entry_size_def)
  ultimately show ?thesis
    using assms(2) by (simp add: get_entry_def entry_at_def Let_def)
qed

lemma set_entry_at:
  assumes "wf_node n" "i \<le> unat (tn_item_count n)" "i < max_entries V" "valid v"
  shows "set_entry V n i k v = Ok (True, n\<lparr>tn_data := put_entry (tn_data n) i (k, v)\<rparr>)"
proof -
  let ?off = "i * entry_size V" and ?d = "tn_data n"
  have len: "length ?d = 4064" using assms(1) by (simp add: wf_node_def)
  have fit: "?off + 8 + vd_size V \<le> 4064"
    using entry_fits [OF assms(3)] by (simp add: entry_size_def)
  have d1: "take ?off ?d @ snd (key_serialize k (drop ?off ?d)) = copy_into ?d ?off (enc_word 8 k)"
    using write_front_at [of ?off "enc_word 8 k" ?d] fit len by (simp add: key_serialize_def)
  have len1: "length (copy_into ?d ?off (enc_word 8 k)) = 4064"
    using fit len by simp
  have d2: "take (?off + 8) (copy_into ?d ?off (enc_word 8 k)) @
      snd (vd_serialize V v (drop (?off + 8) (copy_into ?d ?off (enc_word 8 k)))) =
      put_entry ?d i (k, v)"
    using write_front_at [of "?off + 8" "enc v" "copy_into ?d ?off (enc_word 8 k)"] fit len1
    by (simp add: serialize enc_length [OF assms(4)] put_entry_def)
  have s: "slice_from (copy_into ?d ?off (enc_word 8 k)) (?off + 8) =
      Some (drop (?off + 8) (copy_into ?d ?off (enc_word 8 k)))"
    using fit len1 by (simp add: slice_from_def)
  show ?thesis
  proof -
    have s0: "slice_from ?d ?off = Some (drop ?off ?d)" using fit len by (simp add: slice_from_def)
    have "\<not> i > unat (tn_item_count n)" using assms(2) by simp
    then show ?thesis
      unfolding set_entry_def Let_def s0 or_panic_simps rbind.simps d1 s d2 by simp
  qed
qed

lemma leaf_entries_eq:
  assumes "wf_node n" "unat (tn_item_count n) \<le> max_entries V"
  shows "leaf_entries V n = entries (tn_data n) (unat (tn_item_count n))"
proof -
  have "List.map_filter (\<lambda>i. case get_entry V n i of Ok e \<Rightarrow> e | Err _ \<Rightarrow> None | Panic \<Rightarrow> None) is =
      map (entry_at (tn_data n)) is" if "set is \<subseteq> {..<unat (tn_item_count n)}" for "is"
    using that
  proof (induction "is")
    case (Cons i "is")
    then show ?case using assms by (simp add: map_filter_simps get_entry_at)
  qed (simp add: map_filter_simps)
  then show ?thesis by (simp add: leaf_entries_def entries_def atLeast0LessThan)
qed

subsection \<open>Binary search\<close>

lemma leaf_search_loop_spec:
  assumes "wf_leaf V n" "left \<le> right" "right \<le> unat (tn_item_count n)"
    and "\<forall>i < left. fst (leaf_entries V n ! i) < key"
    and "\<forall>i. right \<le> i \<longrightarrow> i < unat (tn_item_count n) \<longrightarrow> key < fst (leaf_entries V n ! i)"
  shows "\<exists>r. leaf_search_loop V n key left right = Ok r \<and> pos_spec (leaf_entries V n) key r"
  using assms
proof (induction "right - left" arbitrary: left right rule: less_induct)
  case less
  let ?es = "leaf_entries V n"
  define mid where "mid = left + (right - left) div 2"
  have wf: "wf_node n" "unat (tn_item_count n) \<le> max_entries V" "sorted_keys ?es"
    using less.prems(1) by (simp_all add: wf_leaf_def)
  have es: "?es = entries (tn_data n) (unat (tn_item_count n))"
    using leaf_entries_eq wf by blast
  show ?case
  proof (cases "left < right")
    case False
    then show ?thesis using less.prems es by (subst leaf_search_loop.simps) auto
  next
    case True
    then have mid: "left \<le> mid" "mid < right" by (auto simp: mid_def)
    then have get: "get_entry V n mid = Ok (Some (?es ! mid))"
      using get_entry_at wf less.prems(3) es by simp
    obtain mk mv where mkv: "?es ! mid = (mk, mv)" by fastforce
    have smaller: "fst (?es ! i) < mk" if "i < mid" for i
      using sorted_wrt_nth_less [OF wf(3), of i mid] that mid less.prems(3) mkv es by simp
    have larger: "mk < fst (?es ! i)" if "mid < i" "i < unat (tn_item_count n)" for i
      using sorted_wrt_nth_less [OF wf(3), of mid i] that mid less.prems(3) mkv es by simp
    consider (lt) "mk < key" | (greater) "key < mk" | (equal) "mk = key" by fastforce
    then show ?thesis
    proof cases
      case lt
      have "fst (?es ! i) < key" if "i < mid + 1" for i
        by (cases "i = mid") (use that smaller [of i] lt mkv in \<open>auto dest: order.strict_trans\<close>)
      then show ?thesis
        using less.hyps [of right "mid + 1"] less.prems mid True lt get mkv
        by (subst leaf_search_loop.simps) (simp add: Let_def mid_def [symmetric])
    next
      case greater
      have "key < fst (?es ! i)" if "mid \<le> i" "i < unat (tn_item_count n)" for i
        by (cases "i = mid") (use that larger [of i] greater mkv in \<open>auto dest: order.strict_trans\<close>)
      then show ?thesis
        using less.hyps [of mid left] less.prems mid True greater less_not_sym [OF greater] get mkv
        by (subst leaf_search_loop.simps) (simp add: Let_def mid_def [symmetric])
    next
      case equal
      then show ?thesis
        using less.prems mid True get mkv es
        by (subst leaf_search_loop.simps) (simp add: Let_def mid_def [symmetric])
    qed
  qed
qed

lemma leaf_search_spec:
  assumes "wf_leaf V n"
  obtains r where "leaf_search V n key = Ok r" "pos_spec (leaf_entries V n) key r"
  using leaf_search_loop_spec [OF assms, of 0 "unat (tn_item_count n)" key] that
  by (auto simp: leaf_search_def)

subsection \<open>Shifting loops\<close>

text \<open>A loop whose body copies entry \<open>src i\<close> to slot \<open>dst i\<close>.\<close>

lemma shift_loop:
  assumes "wf_node n" "m \<le> max_entries V" "\<forall>i \<in> set is. src i < m \<and> dst i < m"
    and step: "\<And>i n'. i \<in> set is \<Longrightarrow> wf_node n' \<Longrightarrow> tn_item_count n' = tn_item_count n \<Longrightarrow>
      f i n' = Ok (n'\<lparr>tn_data := put_entry (tn_data n') (dst i) (entry_at (tn_data n') (src i))\<rparr>)"
  shows "\<exists>d. for_res f is n = Ok (n\<lparr>tn_data := d\<rparr>) \<and> length d = 4064 \<and>
      entries d m = fold (\<lambda>i es. es[dst i := es ! src i]) is (entries (tn_data n) m)"
  using assms
proof (induction "is" arbitrary: n)
  case Nil
  then show ?case by (intro exI [of _ "tn_data n"]) (simp add: wf_node_def)
next
  case (Cons i "is")
  let ?d = "put_entry (tn_data n) (dst i) (entry_at (tn_data n) (src i))"
  have len: "length (tn_data n) = 4064" using Cons.prems(1) by (simp add: wf_node_def)
  have bounds: "src i < max_entries V" "dst i < max_entries V" using Cons.prems by auto
  note val = valid_entry_at [OF len bounds(1)]
  have len': "length ?d = 4064" using length_put_entry [OF len bounds(2) val] .
  have es: "entries ?d m = (entries (tn_data n) m)[dst i := entries (tn_data n) m ! src i]"
    using entries_put_entry [OF len bounds(2) val Cons.prems(2)] Cons.prems(3) by simp
  have "\<exists>d. for_res f is (n\<lparr>tn_data := ?d\<rparr>) = Ok (n\<lparr>tn_data := ?d\<rparr>\<lparr>tn_data := d\<rparr>) \<and>
      length d = 4064 \<and> entries d m = fold (\<lambda>i es. es[dst i := es ! src i]) is (entries ?d m)"
    using Cons.IH [of "n\<lparr>tn_data := ?d\<rparr>"] Cons.prems len' by (simp add: wf_node_def)
  moreover have "f i n = Ok (n\<lparr>tn_data := ?d\<rparr>)" using Cons.prems by simp
  ultimately show ?case by (auto simp: es)
qed

lemma move_entry_at:
  assumes "wf_node n" "i < unat (tn_item_count n)" "i < max_entries V"
    and "j \<le> unat (tn_item_count n)" "j < max_entries V"
  shows "move_entry V i j n = Ok (n\<lparr>tn_data := put_entry (tn_data n) j (entry_at (tn_data n) i)\<rparr>)"
proof -
  let ?e = "entry_at (tn_data n) i"
  have "valid (snd ?e)" using valid_entry_at assms(1,3) by (simp add: wf_node_def)
  then have "set_entry V n j (fst ?e) (snd ?e) = Ok (True, n\<lparr>tn_data := put_entry (tn_data n) j ?e\<rparr>)"
    using set_entry_at [OF assms(1,4,5), of "snd ?e" "fst ?e"] by simp
  then show ?thesis using get_entry_at [OF assms(1-3)] by (simp add: move_entry_def split_beta)
qed

lemma move_loop:
  assumes "wf_node n" "m \<le> max_entries V"
    and "\<forall>i \<in> set is. src i < unat (tn_item_count n) \<and> dst i \<le> unat (tn_item_count n) \<and> src i < m \<and> dst i < m"
  shows "\<exists>d. for_res (\<lambda>i. move_entry V (src i) (dst i)) is n = Ok (n\<lparr>tn_data := d\<rparr>) \<and> length d = 4064 \<and>
      entries d m = fold (\<lambda>i es. es[dst i := es ! src i]) is (entries (tn_data n) m)"
  by (rule shift_loop) (use assms in \<open>auto intro!: move_entry_at\<close>)

text \<open>Shifting right and storing an entry inserts it into the list of entries.\<close>

lemma entries_inserted:
  assumes "length d = 4064" "pos \<le> c" "c < max_entries V" "valid (snd e)"
    and "entries d (Suc c) = fold (\<lambda>i es. es[Suc i := es ! i]) (rev [pos..<c]) (entries data (Suc c))"
  shows "entries (put_entry d pos e) (Suc c) = take pos (entries data c) @ e # drop pos (entries data c)"
proof -
  let ?E = "entries data (Suc c)"
  have t: "take c ?E = entries data c" by (simp add: take_entries)
  have "entries (put_entry d pos e) (Suc c) = (take (Suc pos) ?E @ drop pos (entries data c))[pos := e]"
    using entries_put_entry [OF assms(1)] assms(2-4) by (simp add: assms(5) shift_right t)
  also have "take (Suc pos) ?E = entries data (Suc pos)"
    using assms(2) by (simp add: take_entries)
  also have "\<dots> = take pos (entries data c) @ [entry_at data pos]"
    using assms(2) by (simp add: take_entries entries_Suc [of _ pos])
  finally show ?thesis using assms(2) by (simp add: list_update_append)
qed

subsection \<open>Operations on well-formed leaves\<close>

lemma pos_spec_found: "sorted_keys es \<Longrightarrow> pos_spec es key (FoundAt i) \<Longrightarrow> map_of es key = Some (snd (es ! i))"
  by (intro map_of_is_SomeI sorted_keys_distinct) (auto simp: in_set_conv_nth)

lemma pos_spec_absent: "pos_spec es key (InsertAt p) \<Longrightarrow> key \<notin> fst ` set es"
proof
  assume p: "pos_spec es key (InsertAt p)" and "key \<in> fst ` set es"
  then obtain i where "i < length es" "fst (es ! i) = key"
    by (auto simp: in_set_conv_nth)
  then show False using p by (cases "i < p") (auto simp: not_less)
qed

lemma leaf_search_found_iff:
  assumes "wf_leaf V n"
  shows "(\<exists>i. leaf_search V n key = Ok (FoundAt i)) \<longleftrightarrow> key \<in> fst ` set (leaf_entries V n)"
proof -
  obtain r where r: "leaf_search V n key = Ok r" "pos_spec (leaf_entries V n) key r"
    using leaf_search_spec [OF assms] .
  show ?thesis
  proof (cases r)
    case (FoundAt i)
    then have "key \<in> fst ` set (leaf_entries V n)" using r(2) by (force simp: in_set_conv_nth)
    then show ?thesis using r FoundAt by simp
  next
    case (InsertAt p)
    then show ?thesis using r pos_spec_absent by simp
  qed
qed

lemma unat_succ_count:
  "unat (tn_item_count n) < max_entries V \<Longrightarrow> unat (tn_item_count n + 1) = Suc (unat (tn_item_count n))"
  using max_entries_u16 by (simp add: unat_word_ariths)

text \<open>Insertion: refused when full or present, otherwise sorted insertion into the entry list.\<close>

lemma leaf_insert_full: "leaf_is_full V n \<Longrightarrow> leaf_insert V n key v = Err NodeFull"
  by (simp add: leaf_insert_def leaf_is_full_def)

lemma leaf_insert_duplicate:
  assumes "wf_leaf V n" "\<not> leaf_is_full V n" "key \<in> fst ` set (leaf_entries V n)"
  shows "leaf_insert V n key v = Err DuplicateKey"
  using leaf_search_found_iff [OF assms(1), of key] assms(2,3)
  by (auto simp: leaf_insert_def leaf_is_full_def)

lemma leaf_insert_new:
  assumes "wf_leaf V n" "\<not> leaf_is_full V n" "key \<notin> fst ` set (leaf_entries V n)" "valid v"
  obtains d where
    "leaf_insert V n key v = Ok (n\<lparr>tn_data := d, tn_item_count := tn_item_count n + 1\<rparr>)"
    "wf_leaf V (n\<lparr>tn_data := d, tn_item_count := tn_item_count n + 1\<rparr>)"
    "leaf_entries V (n\<lparr>tn_data := d, tn_item_count := tn_item_count n + 1\<rparr>) = ins_list key v (leaf_entries V n)"
proof -
  let ?c = "unat (tn_item_count n)" and ?es = "leaf_entries V n"
  have wf: "wf_node n" "sorted_keys ?es" and room: "?c < max_entries V"
    using assms(1,2) by (auto simp: wf_leaf_def leaf_is_full_def)
  have es: "?es = entries (tn_data n) ?c" using leaf_entries_eq wf(1) room by simp
  obtain r where r: "leaf_search V n key = Ok r" "pos_spec ?es key r"
    using leaf_search_spec [OF assms(1)] .
  then obtain pos where pos: "r = InsertAt pos"
    using leaf_search_found_iff [OF assms(1), of key] assms(3) by (cases r) auto
  have spec: "pos \<le> ?c" "\<forall>i < pos. fst (?es ! i) < key" "\<forall>i. pos \<le> i \<longrightarrow> i < ?c \<longrightarrow> key < fst (?es ! i)"
    using r(2) es by (auto simp: pos)
  obtain d where d: "for_res (\<lambda>i. move_entry V i (i + 1)) (rev [pos..<?c]) n = Ok (n\<lparr>tn_data := d\<rparr>)"
      "length d = 4064"
      "entries d (Suc ?c) = fold (\<lambda>i es. es[Suc i := es ! i]) (rev [pos..<?c]) (entries (tn_data n) (Suc ?c))"
    using move_loop [of n "Suc ?c" "rev [pos..<?c]" "\<lambda>i. i" "\<lambda>i. i + 1"] wf(1) room by auto
  let ?d = "put_entry d pos (key, v)"
  let ?n = "n\<lparr>tn_data := ?d, tn_item_count := tn_item_count n + 1\<rparr>"
  have len: "length ?d = 4064" using length_put_entry [OF d(2)] spec(1) room assms(4) by simp
  have set: "set_entry V (n\<lparr>tn_data := d\<rparr>) pos key v = Ok (True, n\<lparr>tn_data := ?d\<rparr>)"
    using set_entry_at [of "n\<lparr>tn_data := d\<rparr>" pos v key] d(2) spec(1) room assms(4) by (simp add: wf_node_def)
  have ins: "leaf_insert V n key v = Ok ?n"
    using room r(1) d(1) set by (simp add: leaf_insert_def pos)
  have count: "unat (tn_item_count ?n) = Suc ?c" using unat_succ_count room by simp
  have "entries ?d (Suc ?c) = take pos ?es @ (key, v) # drop pos ?es"
    unfolding es by (rule entries_inserted) (use d spec(1) room assms(4) in simp_all)
  also have "\<dots> = ins_list key v ?es"
  proof -
    have "\<forall>k' \<in> fst ` set (take pos ?es). k' < key" "\<forall>k' \<in> fst ` set (drop pos ?es). key < k'"
      using spec es by (simp_all only: keys_take keys_drop length_entries)
    then show ?thesis using ins_list_split [of "take pos ?es" "drop pos ?es" key v] wf(2) by simp
  qed
  finally have entries: "leaf_entries V ?n = ins_list key v ?es"
    using leaf_entries_eq [of ?n] len count room by (simp add: wf_node_def)
  then have "wf_leaf V ?n"
    using len count room sorted_ins_list [OF wf(2)] by (simp add: wf_leaf_def wf_node_def)
  then show ?thesis using that ins entries by blast
qed

text \<open>Deletion: returns the value and filters the key out of the entry list.\<close>

lemma del_list_nth:
  assumes "sorted_keys es" "i < length es" "fst (es ! i) = k"
  shows "del_list k es = take i es @ drop (Suc i) es"
proof -
  have "\<forall>k' \<in> fst ` set (take i es). k' < k" "\<forall>k' \<in> fst ` set (drop (Suc i) es). k < k'"
    unfolding keys_drop keys_take [OF less_imp_le [OF assms(2)]]
    using assms(2) sorted_wrt_nth_less [OF assms(1)] assms(3) by auto
  then have "k \<notin> fst ` set (take i es)" "k \<notin> fst ` set (drop (Suc i) es)" by blast+
  then have "del_list k (take i es @ es ! i # drop (Suc i) es) = take i es @ drop (Suc i) es"
    using assms(3) by (simp add: del_list_append del_list_Cons del_list_absent)
  then show ?thesis using assms(2) by (simp add: id_take_nth_drop [symmetric])
qed

lemma leaf_delete_absent:
  assumes "wf_leaf V n" "key \<notin> fst ` set (leaf_entries V n)"
  shows "leaf_delete V n key = Err KeyNotFound"
proof -
  obtain r where r: "leaf_search V n key = Ok r" "pos_spec (leaf_entries V n) key r"
    using leaf_search_spec [OF assms(1)] .
  then show ?thesis
    using leaf_search_found_iff [OF assms(1), of key] assms(2) by (cases r) (auto simp: leaf_delete_def)
qed

lemma leaf_delete_present:
  assumes "wf_leaf V n" "map_of (leaf_entries V n) key = Some v"
  obtains d where
    "leaf_delete V n key = Ok (v, n\<lparr>tn_data := d, tn_item_count := tn_item_count n - 1\<rparr>)"
    "wf_leaf V (n\<lparr>tn_data := d, tn_item_count := tn_item_count n - 1\<rparr>)"
    "leaf_entries V (n\<lparr>tn_data := d, tn_item_count := tn_item_count n - 1\<rparr>) = del_list key (leaf_entries V n)"
proof -
  let ?c = "unat (tn_item_count n)" and ?es = "leaf_entries V n"
  have wf: "wf_node n" "sorted_keys ?es" and room: "?c \<le> max_entries V"
    using assms(1) by (auto simp: wf_leaf_def)
  have es: "?es = entries (tn_data n) ?c" using leaf_entries_eq wf(1) room by simp
  have "key \<in> fst ` set ?es" using map_of_SomeD [OF assms(2)] by force
  then obtain pos where search: "leaf_search V n key = Ok (FoundAt pos)"
    using leaf_search_found_iff [OF assms(1)] by blast
  then have spec: "pos_spec ?es key (FoundAt pos)"
    using leaf_search_spec [OF assms(1), of key] by fastforce
  then have pos: "pos < ?c" and v: "?es ! pos = (key, v)"
    using pos_spec_found [OF wf(2) spec] assms(2) es by (auto simp: prod_eq_iff)
  have get: "get_entry V n pos = Ok (Some (key, v))"
    using get_entry_at [OF wf(1) pos] pos room v es by simp
  obtain d where d: "for_res (\<lambda>i. move_entry V (i + 1) i) [pos..<?c - 1] n = Ok (n\<lparr>tn_data := d\<rparr>)"
      "length d = 4064"
      "entries d ?c = fold (\<lambda>i es. es[i := es ! Suc i]) [pos..<?c - 1] (entries (tn_data n) ?c)"
  proof -
    have "\<forall>i \<in> set [pos..<?c - 1]. i + 1 < ?c \<and> i \<le> ?c \<and> i + 1 < ?c \<and> i < ?c" by auto
    then show ?thesis
      using move_loop [OF wf(1) room, of "[pos..<?c - 1]" "\<lambda>i. i + 1" "\<lambda>i. i"] that by simp blast
  qed
  let ?n = "n\<lparr>tn_data := d, tn_item_count := tn_item_count n - 1\<rparr>"
  have del: "leaf_delete V n key = Ok (v, ?n)"
    using search get d(1) by (simp add: leaf_delete_def)
  have count: "unat (tn_item_count ?n) = ?c - 1"
    using unat_minus_one [of "tn_item_count n"] pos by (cases "tn_item_count n = 0") simp_all
  have "entries d ?c = take pos ?es @ drop (Suc pos) ?es @ drop (?c - 1) ?es"
    using shift_left [of pos "?c - 1" "entries (tn_data n) ?c"] pos by (simp add: d(3) es)
  then have "entries d (?c - 1) = take pos ?es @ drop (Suc pos) ?es"
    using take_entries [of "?c - 1" ?c d] pos es by simp
  also have "\<dots> = del_list key ?es"
    using del_list_nth [OF wf(2), of pos key] pos v es by simp
  finally have entries: "leaf_entries V ?n = del_list key ?es"
    using leaf_entries_eq [of ?n] d(2) count room by (simp add: wf_node_def)
  then have "wf_leaf V ?n"
    using d(2) count room sorted_del_list [OF wf(2)] by (simp add: wf_leaf_def wf_node_def)
  then show ?thesis using that del entries by blast
qed

text \<open>Update in place.\<close>

lemma leaf_update_present:
  assumes "wf_leaf V n" "map_of (leaf_entries V n) key = Some old" "valid v"
  obtains d where
    "leaf_update V n key v = Ok (old, n\<lparr>tn_data := d\<rparr>)"
    "wf_leaf V (n\<lparr>tn_data := d\<rparr>)"
    "map_of (leaf_entries V (n\<lparr>tn_data := d\<rparr>)) = (map_of (leaf_entries V n))(key \<mapsto> v)"
proof -
  let ?c = "unat (tn_item_count n)" and ?es = "leaf_entries V n"
  have wf: "wf_node n" "sorted_keys ?es" and room: "?c \<le> max_entries V"
    using assms(1) by (auto simp: wf_leaf_def)
  have es: "?es = entries (tn_data n) ?c" using leaf_entries_eq wf(1) room by simp
  have len: "length (tn_data n) = 4064" using wf(1) by (simp add: wf_node_def)
  have "key \<in> fst ` set ?es" using map_of_SomeD [OF assms(2)] by force
  then obtain pos where search: "leaf_search V n key = Ok (FoundAt pos)"
    using leaf_search_found_iff [OF assms(1)] by blast
  then have spec: "pos_spec ?es key (FoundAt pos)"
    using leaf_search_spec [OF assms(1), of key] by fastforce
  then have pos: "pos < ?c" and old: "?es ! pos = (key, old)"
    using pos_spec_found [OF wf(2) spec] assms(2) es by (auto simp: prod_eq_iff)
  have get: "get_entry V n pos = Ok (Some (key, old))"
    using get_entry_at [OF wf(1) pos] pos room old es by simp
  let ?n = "n\<lparr>tn_data := put_entry (tn_data n) pos (key, v)\<rparr>"
  have upd: "leaf_update V n key v = Ok (old, ?n)"
    using search get set_entry_at [OF wf(1) _ _ assms(3), of pos key] pos room
    by (simp add: leaf_update_def)
  have entries: "leaf_entries V ?n = ?es[pos := (key, v)]"
    using leaf_entries_eq [of ?n] entries_put_entry [OF len _ _ room, of pos "(key, v)"]
      length_put_entry [OF len, of pos "(key, v)"] pos room assms(3) es
    by (simp add: wf_node_def)
  have keys: "map fst (?es[pos := (key, v)]) = map fst ?es"
    using old pos es by (simp add: map_update list_update_same_conv)
  have "map_of (?es[pos := (key, v)]) = (map_of ?es)(key \<mapsto> v)"
    using map_of_list_update [OF sorted_keys_distinct [OF wf(2)], of pos key v] pos es old by simp
  moreover have "wf_leaf V ?n"
    using entries keys wf room length_put_entry [OF len, of pos "(key, v)"] pos assms(3)
    by (simp add: wf_leaf_def wf_node_def)
  ultimately show ?thesis using that [of "put_entry (tn_data n) pos (key, v)"] upd entries by simp
qed

end

section \<open>Properties\<close>

text \<open>Inserting into a leaf refines sorted insertion, for every value type that keeps the
  \<open>TreeValue\<close> contract: on a well-formed leaf it never panics; it is refused with \<open>NodeFull\<close>
  exactly when the leaf is full, else with \<open>DuplicateKey\<close> exactly when the key is present, and
  otherwise the new leaf is well formed and holds the old entries and the new one, in order.\<close>

lemma leaf_insert_refines:
  assumes "tree_value V enc dec valid" and "wf_leaf V n" and "valid v"
  shows "case leaf_insert V n key v of
      Ok n' \<Rightarrow> \<not> leaf_is_full V n \<and> key \<notin> fst ` set (leaf_entries V n) \<and> wf_leaf V n' \<and>
        leaf_entries V n' = ins_list key v (leaf_entries V n)
    | Err e \<Rightarrow> (if leaf_is_full V n then e = NodeFull
        else e = DuplicateKey \<and> key \<in> fst ` set (leaf_entries V n))
    | Panic \<Rightarrow> False"
proof (cases "leaf_is_full V n")
  case True
  then show ?thesis by (simp add: tree_value.leaf_insert_full [OF assms(1)])
next
  case False
  show ?thesis
  proof (cases "key \<in> fst ` set (leaf_entries V n)")
    case True
    then show ?thesis
      using tree_value.leaf_insert_duplicate [OF assms(1,2) False] False by simp
  next
    case absent: False
    obtain d where
      "leaf_insert V n key v = Ok (n\<lparr>tn_data := d, tn_item_count := tn_item_count n + 1\<rparr>)"
      "wf_leaf V (n\<lparr>tn_data := d, tn_item_count := tn_item_count n + 1\<rparr>)"
      "leaf_entries V (n\<lparr>tn_data := d, tn_item_count := tn_item_count n + 1\<rparr>) = ins_list key v (leaf_entries V n)"
      using tree_value.leaf_insert_new [OF assms(1,2) False absent assms(3)] .
    then show ?thesis using False absent by simp
  qed
qed

lemma wf_leaf_new [simp]: "wf_leaf V (new_leaf ty g)"
  by (simp add: wf_leaf_def leaf_entries_def map_filter_simps)

lemma leaf_entries_new [simp]: "leaf_entries V (new_leaf ty g) = []"
  by (simp add: leaf_entries_def map_filter_simps)

lemma leaf_insert_refines_example:
  "case leaf_insert u64_value (new_leaf NFreeSpace 1) 5 100 of
     Ok n' \<Rightarrow> leaf_entries u64_value n' = [(5, 100)] | _ \<Rightarrow> False"
  using leaf_insert_refines [OF u64v.tree_value_axioms, where n = "new_leaf NFreeSpace 1" and v = 100 and key = 5]
  by (simp add: leaf_is_full_def split: res.splits)

text \<open>Deleting from a well-formed leaf refines deletion from the sorted list: it never panics,
  fails with \<open>KeyNotFound\<close> exactly when the key is absent, and otherwise returns the value that
  was stored and leaves a well-formed leaf with exactly the other entries.\<close>

lemma leaf_delete_refines:
  assumes "tree_value V enc dec valid" and "wf_leaf V n"
  shows "case leaf_delete V n key of
      Ok (v, n') \<Rightarrow> map_of (leaf_entries V n) key = Some v \<and> wf_leaf V n' \<and>
        leaf_entries V n' = del_list key (leaf_entries V n)
    | Err e \<Rightarrow> e = KeyNotFound \<and> map_of (leaf_entries V n) key = None
    | Panic \<Rightarrow> False"
proof (cases "map_of (leaf_entries V n) key")
  case None
  then have "key \<notin> fst ` set (leaf_entries V n)" by (simp add: map_of_eq_None_iff)
  then show ?thesis using tree_value.leaf_delete_absent [OF assms] None by simp
next
  case (Some v)
  then obtain d where
    "leaf_delete V n key = Ok (v, n\<lparr>tn_data := d, tn_item_count := tn_item_count n - 1\<rparr>)"
    "wf_leaf V (n\<lparr>tn_data := d, tn_item_count := tn_item_count n - 1\<rparr>)"
    "leaf_entries V (n\<lparr>tn_data := d, tn_item_count := tn_item_count n - 1\<rparr>) = del_list key (leaf_entries V n)"
    using tree_value.leaf_delete_present [OF assms] by blast
  then show ?thesis using Some by simp
qed

lemma leaf_delete_refines_example:
  "leaf_delete u64_value (new_leaf NFreeSpace 1) 5 = Err KeyNotFound"
  using leaf_delete_refines [OF u64v.tree_value_axioms, where n = "new_leaf NFreeSpace 1" and key = 5]
  by (simp split: res.splits)

end
