(* ===== verification/Wfs_Internal.thy ===== *)
theory Wfs_Internal
  imports Wfs_Leaf
begin

text \<open>
  \<open>InternalNode\<close> of \<^verbatim>\<open>src/crates/storage/wfs/src/core/tree.rs\<close>: (key, child block) pairs of 16
  bytes, the search for the child that covers a key, and insertion. The layout is that of a leaf
  of \<open>u64\<close> values, so the lemmas on entries come from the interpretation \<open>u64v\<close>.
\<close>

section \<open>Definitions\<close>

definition get_child :: "tree_node \<Rightarrow> nat \<Rightarrow> u64 option" where
  "get_child n index =
     (if index \<ge> unat (tn_item_count n) then None
      else
        let offset = index * INTERNAL_ENTRY_SIZE + 8 in
        if offset + 8 \<le> length (tn_data n) then Some (dec_word (take 8 (drop offset (tn_data n))))
        else None)"

definition get_key :: "tree_node \<Rightarrow> nat \<Rightarrow> u64 option" where
  "get_key n index =
     (if index \<ge> unat (tn_item_count n) then None
      else
        let offset = index * INTERNAL_ENTRY_SIZE in
        if offset + 8 \<le> length (tn_data n) then Some (dec_word (take 8 (drop offset (tn_data n))))
        else None)"

definition int_set_entry :: "tree_node \<Rightarrow> nat \<Rightarrow> u64 \<Rightarrow> u64 \<Rightarrow> (tree_error, tree_node) res" where
  "int_set_entry n index key child =
     (let offset = index * INTERNAL_ENTRY_SIZE in
      if offset + 16 \<le> length (tn_data n)
      then Ok (n\<lparr>tn_data := copy_into (copy_into (tn_data n) offset (enc_word 8 key)) (offset + 8) (enc_word 8 child)\<rparr>)
      else Panic)"

text \<open>The binary search loop of \<open>find_child\<close>: the index where it stops.\<close>

function find_child_loop :: "tree_node \<Rightarrow> u64 \<Rightarrow> nat \<Rightarrow> nat \<Rightarrow> nat" where
  "find_child_loop n key left right =
     (if left < right then
        let mid = left + (right - left) div 2 in
        case get_key n mid of
          Some mid_key \<Rightarrow>
            if key < mid_key then find_child_loop n key left mid
            else find_child_loop n key (mid + 1) right
        | None \<Rightarrow> left
      else left)"
  by pat_completeness auto
termination
  by (relation "measure (\<lambda>(n, key, left, right). right - left)") auto

declare find_child_loop.simps [simp del]

definition find_child :: "tree_node \<Rightarrow> u64 \<Rightarrow> (nat \<times> u64) option" where
  "find_child n key =
     (let count = unat (tn_item_count n) in
      if count = 0 then None
      else
        let left = find_child_loop n key 0 count;
            child_idx = (if left > 0 then left - 1 else 0)
        in map_option (\<lambda>c. (child_idx, c)) (get_child n child_idx))"

text \<open>The scan for the insert position: \<open>break\<close> at the first larger key.\<close>

fun insert_pos_loop :: "tree_node \<Rightarrow> u64 \<Rightarrow> nat list \<Rightarrow> nat \<Rightarrow> nat" where
  "insert_pos_loop n key [] pos = pos"
| "insert_pos_loop n key (i # is) pos =
     (case get_key n i of
        Some k \<Rightarrow> if key < k then pos else insert_pos_loop n key is (i + 1)
      | None \<Rightarrow> insert_pos_loop n key is pos)"

definition int_shift :: "nat \<Rightarrow> tree_node \<Rightarrow> (tree_error, tree_node) res" where
  "int_shift i n =
     (case (get_key n i, get_child n i) of
        (Some k, Some c) \<Rightarrow> int_set_entry n (i + 1) k c
      | _ \<Rightarrow> Ok n)"

definition int_insert :: "tree_node \<Rightarrow> u64 \<Rightarrow> u64 \<Rightarrow> (tree_error, tree_node) res" where
  "int_insert n key child =
     (if unat (tn_item_count n) \<ge> MAX_INTERNAL_ENTRIES then Err NodeFull
      else
        let count = unat (tn_item_count n);
            pos = insert_pos_loop n key [0..<count] 0 in
        rbind (for_res int_shift (rev [pos..<count]) n) (\<lambda>n1.
        rbind (int_set_entry n1 pos key child) (\<lambda>n2.
        Ok (n2\<lparr>tn_item_count := tn_item_count n2 + 1\<rparr>))))"

section \<open>Specification\<close>

definition int_entries :: "tree_node \<Rightarrow> (u64 \<times> u64) list" where
  "int_entries n = map (\<lambda>i. (the (get_key n i), the (get_child n i))) [0..<unat (tn_item_count n)]"

definition wf_internal :: "tree_node \<Rightarrow> bool" where
  "wf_internal n \<longleftrightarrow> wf_node n \<and> unat (tn_item_count n) \<le> MAX_INTERNAL_ENTRIES \<and> sorted_keys (int_entries n)"

text \<open>The child that covers a key: the last one whose key is not above it, or the first one.\<close>

definition routes :: "(u64 \<times> u64) list \<Rightarrow> u64 \<Rightarrow> nat \<Rightarrow> bool" where
  "routes es key i \<longleftrightarrow> i < length es \<and> (i = 0 \<or> fst (es ! i) \<le> key) \<and>
     (\<forall>j. i < j \<longrightarrow> j < length es \<longrightarrow> key < fst (es ! j))"

section \<open>Lemmas\<close>

lemma get_key_at:
  assumes "wf_node n" "i < unat (tn_item_count n)" "i < 254"
  shows "get_key n i = Some (fst (u64v.entry_at (tn_data n) i))"
    and "get_child n i = Some (snd (u64v.entry_at (tn_data n) i))"
  using assms
  by (simp_all add: get_key_def get_child_def INTERNAL_ENTRY_SIZE_def wf_node_def Let_def
      u64v.entry_at_def)

lemma int_set_entry_at:
  assumes "wf_node n" "i < 254"
  shows "int_set_entry n i k c = Ok (n\<lparr>tn_data := u64v.put_entry (tn_data n) i (k, c)\<rparr>)"
  using assms
  by (simp add: int_set_entry_def INTERNAL_ENTRY_SIZE_def wf_node_def Let_def u64v.put_entry_def)

lemma int_entries_eq:
  assumes "wf_node n" "unat (tn_item_count n) \<le> 254"
  shows "int_entries n = u64v.entries (tn_data n) (unat (tn_item_count n))"
  using assms by (simp add: int_entries_def u64v.entries_def get_key_at)

lemma length_int_entries [simp]: "length (int_entries n) = unat (tn_item_count n)"
  by (simp add: int_entries_def)

lemma get_key_entries:
  assumes "wf_internal n" "i < unat (tn_item_count n)"
  shows "get_key n i = Some (fst (int_entries n ! i))" "get_child n i = Some (snd (int_entries n ! i))"
  using assms get_key_at [of n i] by (simp_all add: wf_internal_def int_entries_eq)

lemma find_child_loop_spec:
  assumes "wf_internal n" "left \<le> right" "right \<le> unat (tn_item_count n)"
    and "\<forall>i < left. fst (int_entries n ! i) \<le> key"
    and "\<forall>i. right \<le> i \<longrightarrow> i < unat (tn_item_count n) \<longrightarrow> key < fst (int_entries n ! i)"
  shows "find_child_loop n key left right \<le> unat (tn_item_count n) \<and>
    (\<forall>i < find_child_loop n key left right. fst (int_entries n ! i) \<le> key) \<and>
    (\<forall>i. find_child_loop n key left right \<le> i \<longrightarrow> i < unat (tn_item_count n) \<longrightarrow> key < fst (int_entries n ! i))"
  using assms
proof (induction "right - left" arbitrary: left right rule: less_induct)
  case less
  let ?es = "int_entries n"
  define mid where "mid = left + (right - left) div 2"
  have sorted: "sorted_keys ?es" using less.prems(1) by (simp add: wf_internal_def)
  show ?case
  proof (cases "left < right")
    case False
    then show ?thesis using less.prems by (subst (1 2 3) find_child_loop.simps) auto
  next
    case True
    then have mid: "left \<le> mid" "mid < right" by (auto simp: mid_def)
    have key: "get_key n mid = Some (fst (?es ! mid))"
      using get_key_entries less.prems mid by simp
    have smaller: "fst (?es ! i) < fst (?es ! mid)" if "i < mid" for i
      using sorted_wrt_nth_less [OF sorted, of i mid] that mid less.prems(3) by simp
    have larger: "fst (?es ! mid) < fst (?es ! i)" if "mid < i" "i < unat (tn_item_count n)" for i
      using sorted_wrt_nth_less [OF sorted, of mid i] that by simp
    show ?thesis
    proof (cases "key < fst (?es ! mid)")
      case lt: True
      have up: "\<forall>i. mid \<le> i \<longrightarrow> i < unat (tn_item_count n) \<longrightarrow> key < fst (?es ! i)"
      proof (intro allI impI)
        fix i assume "mid \<le> i" "i < unat (tn_item_count n)"
        then show "key < fst (?es ! i)"
          using lt order.strict_trans [OF lt larger [of i]] by (cases "i = mid") simp_all
      qed
      have "find_child_loop n key left right = find_child_loop n key left mid"
        using True lt key by (subst find_child_loop.simps) (simp add: Let_def mid_def [symmetric])
      then show ?thesis
        using less.hyps [OF _ less.prems(1) mid(1) _ less.prems(4) up] less.prems(3) mid by simp
    next
      case ge: False
      have low: "\<forall>i < mid + 1. fst (?es ! i) \<le> key"
      proof (intro allI impI)
        fix i assume "i < mid + 1"
        then show "fst (?es ! i) \<le> key"
          using ge smaller [of i] by (cases "i = mid") simp_all
      qed
      have "find_child_loop n key left right = find_child_loop n key (mid + 1) right"
        using True ge key by (subst find_child_loop.simps) (simp add: Let_def mid_def [symmetric])
      then show ?thesis
        using less.hyps [OF _ less.prems(1) _ less.prems(3) low less.prems(5)] mid by simp
    qed
  qed
qed

lemma find_child_routes:
  assumes "wf_internal n" "int_entries n \<noteq> []"
  obtains i where "routes (int_entries n) key i" "find_child n key = Some (i, snd (int_entries n ! i))"
proof -
  let ?l = "find_child_loop n key 0 (unat (tn_item_count n))"
  have pos: "0 < unat (tn_item_count n)"
    using assms(2) length_int_entries [of n] by (metis gr0I length_0_conv)
  note l = find_child_loop_spec [OF assms(1), of 0 "unat (tn_item_count n)" key, simplified]
  have "routes (int_entries n) key (?l - 1)"
    using l pos by (cases ?l) (auto simp: routes_def)
  moreover have "get_child n (?l - 1) = Some (snd (int_entries n ! (?l - 1)))"
    using get_key_entries(2) [OF assms(1), of "?l - 1"] l pos by (cases ?l) auto
  then have "find_child n key = Some (?l - 1, snd (int_entries n ! (?l - 1)))"
    using pos by (cases ?l) (simp_all add: find_child_def)
  ultimately show ?thesis using that by blast
qed

lemma insert_pos_loop_spec:
  assumes "wf_internal n" "i \<le> unat (tn_item_count n)" "\<forall>j < i. fst (int_entries n ! j) \<le> key"
  shows "insert_pos_loop n key [i..<unat (tn_item_count n)] i \<le> unat (tn_item_count n) \<and>
    (\<forall>j < insert_pos_loop n key [i..<unat (tn_item_count n)] i. fst (int_entries n ! j) \<le> key) \<and>
    (\<forall>j. insert_pos_loop n key [i..<unat (tn_item_count n)] i \<le> j \<longrightarrow> j < unat (tn_item_count n) \<longrightarrow>
      key < fst (int_entries n ! j))"
  using assms
proof (induction "unat (tn_item_count n) - i" arbitrary: i)
  case (Suc m)
  let ?es = "int_entries n"
  have i: "i < unat (tn_item_count n)" using Suc.hyps(2) by simp
  have sorted: "sorted_keys ?es" using Suc.prems(1) by (simp add: wf_internal_def)
  note key = get_key_entries(1) [OF Suc.prems(1) i]
  show ?case
  proof (cases "key < fst (?es ! i)")
    case lt: True
    have "key < fst (?es ! j)" if "i \<le> j" "j < unat (tn_item_count n)" for j
      using sorted_wrt_nth_less [OF sorted, of i j] that lt order.strict_trans [OF lt]
      by (cases "i = j") simp_all
    then show ?thesis using lt key i Suc.prems by (simp add: upt_conv_Cons [OF i])
  next
    case False
    then have "\<forall>j < Suc i. fst (?es ! j) \<le> key"
      using Suc.prems(3) by (simp add: less_Suc_eq all_conj_distrib not_less)
    then show ?thesis
      using Suc.hyps(1) [of "Suc i"] Suc.hyps(2) Suc.prems(1) i False key
      by (simp add: upt_conv_Cons [OF i])
  qed
qed simp

lemma int_shift_at:
  assumes "wf_node n" "i < unat (tn_item_count n)" "i < 253"
  shows "int_shift i n = Ok (n\<lparr>tn_data := u64v.put_entry (tn_data n) (i + 1) (u64v.entry_at (tn_data n) i)\<rparr>)"
  using assms get_key_at [of n i] by (simp add: int_shift_def int_set_entry_at)

lemma int_insert_full: "unat (tn_item_count n) \<ge> MAX_INTERNAL_ENTRIES \<Longrightarrow> int_insert n key child = Err NodeFull"
  by (simp add: int_insert_def)

lemma int_insert_new:
  assumes "wf_internal n" "unat (tn_item_count n) < MAX_INTERNAL_ENTRIES" "key \<notin> fst ` set (int_entries n)"
  obtains d where
    "int_insert n key child = Ok (n\<lparr>tn_data := d, tn_item_count := tn_item_count n + 1\<rparr>)"
    "wf_internal (n\<lparr>tn_data := d, tn_item_count := tn_item_count n + 1\<rparr>)"
    "int_entries (n\<lparr>tn_data := d, tn_item_count := tn_item_count n + 1\<rparr>) = ins_list key child (int_entries n)"
proof -
  let ?c = "unat (tn_item_count n)" and ?es = "int_entries n"
  define pos where "pos = insert_pos_loop n key [0..<?c] 0"
  have wf: "wf_node n" "sorted_keys ?es" and room: "?c < 254"
    using assms(1,2) by (auto simp: wf_internal_def)
  have es: "?es = u64v.entries (tn_data n) ?c" using int_entries_eq wf(1) room by simp
  have spec: "pos \<le> ?c" "\<forall>i < pos. fst (?es ! i) \<le> key"
      "\<forall>i. pos \<le> i \<longrightarrow> i < ?c \<longrightarrow> key < fst (?es ! i)"
    using insert_pos_loop_spec [OF assms(1), of 0 key] by (simp_all add: pos_def)
  have below: "\<forall>i < pos. fst (?es ! i) < key"
  proof (intro allI impI)
    fix i assume "i < pos"
    then have "?es ! i \<in> set ?es" using spec(1) by (intro nth_mem) simp
    then have "fst (?es ! i) \<noteq> key" using assms(3) by (metis image_eqI)
    then show "fst (?es ! i) < key" using spec(2) \<open>i < pos\<close> by (simp add: order.not_eq_order_implies_strict)
  qed
  obtain d where d: "for_res int_shift (rev [pos..<?c]) n = Ok (n\<lparr>tn_data := d\<rparr>)" "length d = 4064"
      "u64v.entries d (Suc ?c) = fold (\<lambda>i es. es[Suc i := es ! i]) (rev [pos..<?c]) (u64v.entries (tn_data n) (Suc ?c))"
    using u64v.shift_loop [of n "Suc ?c" "rev [pos..<?c]" "\<lambda>i. i" "\<lambda>i. i + 1" int_shift] wf(1) room
      int_shift_at by auto
  let ?d = "u64v.put_entry d pos (key, child)"
  let ?n = "n\<lparr>tn_data := ?d, tn_item_count := tn_item_count n + 1\<rparr>"
  have len: "length ?d = 4064" using u64v.length_put_entry [OF d(2)] spec(1) room by simp
  have ins: "int_insert n key child = Ok ?n"
    using room d(1,2) int_set_entry_at [of "n\<lparr>tn_data := d\<rparr>" pos key child] spec(1)
    by (simp add: int_insert_def pos_def [symmetric] wf_node_def)
  have count: "unat (tn_item_count ?n) = Suc ?c" using u64v.unat_succ_count room by simp
  have "u64v.entries ?d (Suc ?c) = take pos ?es @ (key, child) # drop pos ?es"
    unfolding es by (rule u64v.entries_inserted) (use d spec(1) room in simp_all)
  also have "\<dots> = ins_list key child ?es"
  proof -
    have "\<forall>k' \<in> fst ` set (take pos ?es). k' < key" "\<forall>k' \<in> fst ` set (drop pos ?es). key < k'"
      using spec(1,3) below by (simp_all only: keys_take keys_drop length_int_entries)
    then show ?thesis using ins_list_split [of "take pos ?es" "drop pos ?es" key child] wf(2) by simp
  qed
  finally have entries: "int_entries ?n = ins_list key child ?es"
    using int_entries_eq [of ?n] len count room by (simp add: wf_node_def)
  then have "wf_internal ?n"
    using len count room sorted_ins_list [OF wf(2)] by (simp add: wf_internal_def wf_node_def)
  then show ?thesis using that ins entries by blast
qed

lemma int_set_entry_child:
  assumes "wf_internal n" "i < unat (tn_item_count n)"
  obtains d where
    "int_set_entry n i (fst (int_entries n ! i)) child = Ok (n\<lparr>tn_data := d\<rparr>)"
    "wf_internal (n\<lparr>tn_data := d\<rparr>)"
    "int_entries (n\<lparr>tn_data := d\<rparr>) = (int_entries n)[i := (fst (int_entries n ! i), child)]"
proof -
  let ?e = "(fst (int_entries n ! i), child)"
  let ?d = "u64v.put_entry (tn_data n) i ?e"
  have wf: "wf_node n" "sorted_keys (int_entries n)" "unat (tn_item_count n) \<le> 254"
    using assms(1) by (simp_all add: wf_internal_def)
  have len: "length (tn_data n) = 4064" using wf(1) by (simp add: wf_node_def)
  have len': "length ?d = 4064" using u64v.length_put_entry [OF len] assms(2) wf(3) by simp
  have set: "int_set_entry n i (fst (int_entries n ! i)) child = Ok (n\<lparr>tn_data := ?d\<rparr>)"
    using int_set_entry_at [OF wf(1)] assms(2) wf(3) by simp
  have entries: "int_entries (n\<lparr>tn_data := ?d\<rparr>) = (int_entries n)[i := ?e]"
    using int_entries_eq [of "n\<lparr>tn_data := ?d\<rparr>"] int_entries_eq [OF wf(1,3)]
      u64v.entries_put_entry [OF len, where i = i and e = ?e and n = "unat (tn_item_count n)"] len' assms(2) wf(3)
    by (simp add: wf_node_def)
  have "map fst ((int_entries n)[i := ?e]) = map fst (int_entries n)"
    using assms(2) by (simp add: map_update list_update_same_conv)
  then have "wf_internal (n\<lparr>tn_data := ?d\<rparr>)"
    using wf entries len' by (simp add: wf_internal_def wf_node_def)
  then show ?thesis using that set entries by blast
qed

end
