(* ===== verification/Wfs_Tree.thy ===== *)
theory Wfs_Tree
  imports Wfs_Internal
begin

text \<open>
  The copy-on-write B+tree of \<^verbatim>\<open>src/crates/storage/wfs/src/core/tree.rs\<close>: \<open>BPlusTree\<close>, the traits
  \<open>BlockDevice\<close> and \<open>BlockAllocator\<close>, and \<open>TreeOps\<close> (search, insertion with leaf splits, deletion,
  propagation of copied nodes up the path).

  The device and the allocator are two trait objects the operations mutate; the model passes one
  state \<open>'s\<close> that holds both, and the dictionary \<open>'s store\<close> of their methods. An operation on a
  tree runs on the state \<open>'s \<times> bplus_tree\<close>, so the generation and root updates made before an
  error are visible after it.
\<close>

section \<open>Definitions\<close>

subsection \<open>Data\<close>

datatype 'v search_result = Found 'v | NotFound | SearchError tree_error

fun is_found :: "'v search_result \<Rightarrow> bool" where
  "is_found (Found v) = True"
| "is_found NotFound = False"
| "is_found (SearchError e) = False"

fun result_value :: "'v search_result \<Rightarrow> 'v option" where
  "result_value (Found v) = Some v"
| "result_value NotFound = None"
| "result_value (SearchError e) = None"

text \<open>\<open>TreePath\<close>: (block, index of the child taken), root first.\<close>

type_synonym tree_path = "(u64 \<times> nat) list"

definition path_leaf_block :: "tree_path \<Rightarrow> u64 option" where
  "path_leaf_block p = (if p = [] then None else Some (fst (last p)))"

definition path_root_block :: "tree_path \<Rightarrow> u64 option" where
  "path_root_block p = (if p = [] then None else Some (fst (hd p)))"

record bplus_tree =
  bt_root_block :: u64
  bt_height :: u32
  bt_node_type :: node_type
  bt_generation :: u64

definition BPlusTree_new :: "u64 \<Rightarrow> node_type \<Rightarrow> u64 \<Rightarrow> bplus_tree" where
  "BPlusTree_new root_block node_type generation =
     \<lparr>bt_root_block = root_block, bt_height = 0, bt_node_type = node_type, bt_generation = generation\<rparr>"

definition from_root :: "u64 \<Rightarrow> u32 \<Rightarrow> node_type \<Rightarrow> u64 \<Rightarrow> bplus_tree" where
  "from_root root_block height node_type generation =
     \<lparr>bt_root_block = root_block, bt_height = height, bt_node_type = node_type, bt_generation = generation\<rparr>"

definition bt_is_empty :: "bplus_tree \<Rightarrow> bool" where
  "bt_is_empty t \<longleftrightarrow> bt_root_block t = 0"

record 's store =
  st_read :: "u64 \<Rightarrow> 's \<Rightarrow> (tree_error, tree_node) res"
  st_write :: "u64 \<Rightarrow> tree_node \<Rightarrow> ('s, tree_error, unit) op"
  st_sync :: "('s, tree_error, unit) op"
  st_alloc :: "('s, tree_error, u64) op"
  st_free :: "u64 \<Rightarrow> ('s, tree_error, unit) op"

text \<open>Operations of the device and of the tree in the combined state.\<close>

definition on_dev :: "('s, tree_error, 'a) op \<Rightarrow> ('s \<times> bplus_tree, tree_error, 'a) op" where
  "on_dev m st = (let (r, s') = m (fst st) in (r, (s', snd st)))"

definition dev_read :: "'s store \<Rightarrow> u64 \<Rightarrow> ('s, tree_error, tree_node) op" where
  "dev_read D block s = (st_read D block s, s)"

definition next_generation :: "('s \<times> bplus_tree, tree_error, u64) op" where
  "next_generation st =
     (let g = bt_generation (snd st) + 1 in (Ok g, (fst st, (snd st)\<lparr>bt_generation := g\<rparr>)))"

definition set_root :: "u64 \<Rightarrow> ('s \<times> bplus_tree, tree_error, u64) op" where
  "set_root block st = (Ok block, (fst st, (snd st)\<lparr>bt_root_block := block\<rparr>))"

definition get_tree :: "('s \<times> bplus_tree, tree_error, bplus_tree) op" where
  "get_tree st = (Ok (snd st), st)"

subsection \<open>Search\<close>

text \<open>The \<open>for level in (0..=height).rev()\<close> loop; level 0 always returns.\<close>

fun search_level ::
  "'s store \<Rightarrow> 'v value_dict \<Rightarrow> nat \<Rightarrow> u64 \<Rightarrow> u64 \<Rightarrow> tree_path \<Rightarrow> 's \<Rightarrow>
   (tree_error, 'v search_result \<times> tree_path) res" where
  "search_level D V 0 block key path s =
     rbind (st_read D block s) (\<lambda>node.
     if \<not> node_is_valid node then Err CrcError
     else
       let path' = path @ [(block, 0)] in
       rbind (leaf_search V node key) (\<lambda>r.
       case r of
         FoundAt idx \<Rightarrow>
           rbind (get_entry V node idx) (\<lambda>e.
           case e of
             Some (_, value) \<Rightarrow> Ok (Found value, path')
           | None \<Rightarrow> Ok (NotFound, path'))
       | InsertAt _ \<Rightarrow> Ok (NotFound, path')))"
| "search_level D V (Suc level) block key path s =
     rbind (st_read D block s) (\<lambda>node.
     if \<not> node_is_valid node then Err CrcError
     else
       case find_child node (key_bytes key) of
         Some (idx, child) \<Rightarrow> search_level D V level child key (path @ [(block, idx)]) s
       | None \<Rightarrow> Err InvalidNode)"

definition tree_search ::
  "'s store \<Rightarrow> 'v value_dict \<Rightarrow> bplus_tree \<Rightarrow> u64 \<Rightarrow> 's \<Rightarrow>
   (tree_error, 'v search_result \<times> tree_path) res" where
  "tree_search D V t key s =
     (if bt_is_empty t then Ok (NotFound, [])
      else search_level D V (unat (bt_height t)) (bt_root_block t) key [] s)"

subsection \<open>Insertion\<close>

text \<open>\<open>propagate_cow\<close>: the parents from the last one up, each copied with its child pointer
  replaced.\<close>

fun cow_loop :: "'s store \<Rightarrow> u64 \<Rightarrow> tree_path \<Rightarrow> u64 \<Rightarrow> ('s, tree_error, u64) op" where
  "cow_loop D generation [] current_new_block = ret current_new_block"
| "cow_loop D generation ((parent_block, child_idx) # rest) current_new_block =
     sbind (dev_read D parent_block) (\<lambda>parent.
     sbind (lift_res (case get_key parent child_idx of
         Some key \<Rightarrow> int_set_entry parent child_idx key current_new_block
       | None \<Rightarrow> Ok parent)) (\<lambda>parent.
     let parent = update_crc (parent\<lparr>tn_generation := generation\<rparr>) in
     sbind (st_alloc D) (\<lambda>new_block.
     sbind (st_write D new_block parent) (\<lambda>_.
     cow_loop D generation rest new_block))))"

definition propagate_cow ::
  "'s store \<Rightarrow> tree_path \<Rightarrow> u64 \<Rightarrow> ('s \<times> bplus_tree, tree_error, u64) op" where
  "propagate_cow D path new_child_block =
     (if length path \<le> 1 then set_root new_child_block
      else
        sbind get_tree (\<lambda>tree.
        sbind (on_dev (cow_loop D (bt_generation tree) (rev (butlast path)) new_child_block)) (\<lambda>current_new_block.
        set_root current_new_block)))"

text \<open>\<open>split_leaf\<close>: the entries from the middle on move to the right node, then the new entry goes
  to the side its key belongs to. Returns the split key and both nodes.\<close>

definition first_key :: "'v value_dict \<Rightarrow> tree_node \<Rightarrow> (tree_error, u64) res" where
  "first_key V n =
     rbind (get_entry V n 0) (\<lambda>e.
     case e of Some (k, _) \<Rightarrow> Ok (key_bytes k) | None \<Rightarrow> Ok 0)"

definition split_leaf ::
  "'v value_dict \<Rightarrow> tree_node \<Rightarrow> tree_node \<Rightarrow> u64 \<Rightarrow> 'v \<Rightarrow> (tree_error, u64 \<times> tree_node \<times> tree_node) res" where
  "split_leaf V left right new_key new_value =
     (let mid = unat (tn_item_count left) div 2;
          item_count = unat (tn_item_count left) in
      rbind (for_res (\<lambda>i es. rbind (get_entry V left i) (\<lambda>e.
          case e of Some entry \<Rightarrow> Ok (es @ [entry]) | None \<Rightarrow> Ok es)) [mid..<item_count] []) (\<lambda>right_entries.
      let new_key_bytes = key_bytes new_key;
          left = left\<lparr>tn_item_count := of_nat mid\<rparr> in
      rbind (for_res (\<lambda>(k, v) n. leaf_insert V n k v) right_entries right) (\<lambda>right.
      rbind (first_key V right) (\<lambda>first_right_key.
      rbind (if new_key_bytes < first_right_key
         then rbind (leaf_insert V left new_key new_value) (\<lambda>left. Ok (left, right))
         else rbind (leaf_insert V right new_key new_value) (\<lambda>right. Ok (left, right))) (\<lambda>(left, right).
      rbind (first_key V right) (\<lambda>split_key.
      Ok (split_key, left, right)))))))"

definition propagate_split ::
  "'s store \<Rightarrow> tree_path \<Rightarrow> u64 \<Rightarrow> u64 \<Rightarrow> u64 \<Rightarrow> ('s \<times> bplus_tree, tree_error, u64) op" where
  "propagate_split D path left_block split_key right_block =
     (if length path \<le> 1 then
        sbind (on_dev (st_alloc D)) (\<lambda>new_root_block.
        sbind get_tree (\<lambda>tree.
        sbind (lift_res (new_internal (bt_node_type tree) (ucast (bt_height tree) + 1) (bt_generation tree))) (\<lambda>new_root.
        sbind (lift_res (int_insert new_root 0 left_block)) (\<lambda>new_root.
        sbind (lift_res (int_insert new_root split_key right_block)) (\<lambda>new_root.
        let new_root = update_crc new_root in
        sbind (on_dev (st_write D new_root_block new_root)) (\<lambda>_.
        (\<lambda>st. (Ok new_root_block,
          (fst st, (snd st)\<lparr>bt_root_block := new_root_block, bt_height := bt_height (snd st) + 1\<rparr>)))))))))
      else
        let parent_idx = length path - 2;
            (parent_block, child_idx) = path ! parent_idx in
        sbind (on_dev (dev_read D parent_block)) (\<lambda>parent.
        sbind (lift_res (case get_key parent child_idx of
            Some old_key \<Rightarrow> int_set_entry parent child_idx old_key left_block
          | None \<Rightarrow> Ok parent)) (\<lambda>parent.
        if unat (tn_item_count parent) < MAX_INTERNAL_ENTRIES then
          sbind (lift_res (int_insert parent split_key right_block)) (\<lambda>parent.
          sbind get_tree (\<lambda>tree.
          let parent = update_crc (parent\<lparr>tn_generation := bt_generation tree\<rparr>) in
          sbind (on_dev (st_alloc D)) (\<lambda>new_parent_block.
          sbind (on_dev (st_write D new_parent_block parent)) (\<lambda>_.
          propagate_cow D (take parent_idx path @ [(parent_block, child_idx)]) new_parent_block))))
        else lift_res (Err NodeFull))))"

definition insert_with_split ::
  "'s store \<Rightarrow> 'v value_dict \<Rightarrow> tree_path \<Rightarrow> u64 \<Rightarrow> 'v \<Rightarrow> ('s \<times> bplus_tree, tree_error, u64) op" where
  "insert_with_split D V path key value =
     sbind (lift_res (ok_or EmptyTree (path_leaf_block path))) (\<lambda>leaf_block.
     sbind (on_dev (dev_read D leaf_block)) (\<lambda>node.
     sbind next_generation (\<lambda>generation.
     sbind get_tree (\<lambda>tree.
     sbind (lift_res (split_leaf V node (new_leaf (bt_node_type tree) generation) key value))
       (\<lambda>(split_key, node, new_sibling).
     let node = update_crc (node\<lparr>tn_generation := generation\<rparr>);
         new_sibling = update_crc new_sibling in
     sbind (on_dev (st_alloc D)) (\<lambda>left_block.
     sbind (on_dev (st_alloc D)) (\<lambda>right_block.
     sbind (on_dev (st_write D left_block node)) (\<lambda>_.
     sbind (on_dev (st_write D right_block new_sibling)) (\<lambda>_.
     propagate_split D path left_block split_key right_block)))))))))"

definition tree_insert ::
  "'s store \<Rightarrow> 'v value_dict \<Rightarrow> u64 \<Rightarrow> 'v \<Rightarrow> ('s \<times> bplus_tree, tree_error, u64) op" where
  "tree_insert D V key value =
     sbind get_tree (\<lambda>tree.
     if bt_is_empty tree then
       sbind (on_dev (st_alloc D)) (\<lambda>new_block.
       sbind next_generation (\<lambda>generation.
       sbind (lift_res (leaf_insert V (new_leaf (bt_node_type tree) generation) key value)) (\<lambda>node.
       sbind (on_dev (st_write D new_block (update_crc node))) (\<lambda>_.
       set_root new_block))))
     else
       sbind (on_dev (\<lambda>s. (tree_search D V tree key s, s))) (\<lambda>(result, path).
       if is_found result then lift_res (Err DuplicateKey)
       else
         sbind (lift_res (ok_or EmptyTree (path_leaf_block path))) (\<lambda>leaf_block.
         sbind (on_dev (dev_read D leaf_block)) (\<lambda>node.
         sbind next_generation (\<lambda>generation.
         let node = node\<lparr>tn_generation := generation\<rparr> in
         if \<not> leaf_is_full V node then
           sbind (lift_res (leaf_insert V node key value)) (\<lambda>node.
           sbind (on_dev (st_alloc D)) (\<lambda>new_block.
           sbind (on_dev (st_write D new_block (update_crc node))) (\<lambda>_.
           propagate_cow D path new_block)))
         else insert_with_split D V path key value)))))"

subsection \<open>Deletion\<close>

definition tree_delete ::
  "'s store \<Rightarrow> 'v value_dict \<Rightarrow> u64 \<Rightarrow> ('s \<times> bplus_tree, tree_error, 'v) op" where
  "tree_delete D V key =
     sbind get_tree (\<lambda>tree.
     if bt_is_empty tree then lift_res (Err EmptyTree)
     else
       sbind (on_dev (\<lambda>s. (tree_search D V tree key s, s))) (\<lambda>(result, path).
       case result of
         Found value \<Rightarrow>
           sbind (lift_res (ok_or EmptyTree (path_leaf_block path))) (\<lambda>leaf_block.
           sbind (on_dev (dev_read D leaf_block)) (\<lambda>node.
           sbind next_generation (\<lambda>generation.
           let node = node\<lparr>tn_generation := generation\<rparr> in
           sbind (lift_res (leaf_delete V node key)) (\<lambda>(_, node).
           sbind (on_dev (st_alloc D)) (\<lambda>new_block.
           sbind (on_dev (st_write D new_block (update_crc node))) (\<lambda>_.
           sbind (propagate_cow D path new_block) (\<lambda>_.
           ret value)))))))
       | NotFound \<Rightarrow> lift_res (Err KeyNotFound)
       | SearchError e \<Rightarrow> lift_res (Err e)))"

end
