(* ===== verification/Wfs_Cow.thy ===== *)
theory Wfs_Cow
  imports Wfs_Tree
begin

text \<open>
  Correctness of the copy-on-write B+tree. \<open>wf_tree\<close> is the tree invariant over the blocks a
  read function shows (valid checksums, sorted nodes, key ranges, every block of the tree among
  the live ones), \<open>tree_list\<close> the sorted association list a tree stores.

  The locale \<open>block_store\<close> is what the tree relies on of its device and allocator: a fresh block
  is not live and live blocks keep their contents, except the one that is written. An operation
  may fail at any point, with an error of the set \<open>faults\<close>; where that set is empty nothing fails
  while there is room. Every lemma on the tree operations is proved once in these contexts, for an
  arbitrary device and an arbitrary value type.
\<close>

section \<open>Specification\<close>

text \<open>The key range of the \<open>i\<close>-th child of a node with entries \<open>es\<close> and range \<open>[lo, hi)\<close>.\<close>

definition kid_lo :: "(u64 \<times> u64) list \<Rightarrow> nat \<Rightarrow> nat \<Rightarrow> nat" where
  "kid_lo es lo i = (if i = 0 then lo else unat (fst (es ! i)))"

definition kid_hi :: "(u64 \<times> u64) list \<Rightarrow> nat \<Rightarrow> nat \<Rightarrow> nat" where
  "kid_hi es hi i = (if Suc i < length es then unat (fst (es ! Suc i)) else hi)"

definition wf_kids :: "(u64 \<Rightarrow> nat \<Rightarrow> nat \<Rightarrow> bool) \<Rightarrow> nat \<Rightarrow> nat \<Rightarrow> (u64 \<times> u64) list \<Rightarrow> bool" where
  "wf_kids P lo hi es \<longleftrightarrow> es \<noteq> [] \<and> unat (fst (es ! 0)) \<le> lo \<and>
     (\<forall>i < length es. kid_lo es lo i < kid_hi es hi i \<and> P (snd (es ! i)) (kid_lo es lo i) (kid_hi es hi i))"

fun wf_tree ::
  "(u64 \<Rightarrow> (tree_error, tree_node) res) \<Rightarrow> u64 set \<Rightarrow> 'v value_dict \<Rightarrow> nat \<Rightarrow> u64 \<Rightarrow> nat \<Rightarrow> nat \<Rightarrow> bool" where
  "wf_tree rd A V 0 b lo hi \<longleftrightarrow> b \<in> A \<and>
     (case rd b of
        Ok n \<Rightarrow> node_is_valid n \<and> wf_leaf V n \<and>
          (\<forall>k \<in> fst ` set (leaf_entries V n). lo \<le> unat k \<and> unat k < hi)
      | Err _ \<Rightarrow> False | Panic \<Rightarrow> False)"
| "wf_tree rd A V (Suc h) b lo hi \<longleftrightarrow> b \<in> A \<and>
     (case rd b of
        Ok n \<Rightarrow> node_is_valid n \<and> wf_internal n \<and> wf_kids (wf_tree rd A V h) lo hi (int_entries n)
      | Err _ \<Rightarrow> False | Panic \<Rightarrow> False)"

fun tree_list ::
  "(u64 \<Rightarrow> (tree_error, tree_node) res) \<Rightarrow> 'v value_dict \<Rightarrow> nat \<Rightarrow> u64 \<Rightarrow> (u64 \<times> 'v) list" where
  "tree_list rd V 0 b = (case rd b of Ok n \<Rightarrow> leaf_entries V n | Err _ \<Rightarrow> [] | Panic \<Rightarrow> [])"
| "tree_list rd V (Suc h) b =
     (case rd b of
        Ok n \<Rightarrow> concat (map (\<lambda>e. tree_list rd V h (snd e)) (int_entries n))
      | Err _ \<Rightarrow> [] | Panic \<Rightarrow> [])"

definition wf_btree ::
  "(u64 \<Rightarrow> (tree_error, tree_node) res) \<Rightarrow> u64 set \<Rightarrow> 'v value_dict \<Rightarrow> bplus_tree \<Rightarrow> bool" where
  "wf_btree rd A V t \<longleftrightarrow> bt_root_block t = 0 \<or>
     wf_tree rd A V (unat (bt_height t)) (bt_root_block t) 0 (2 ^ 64)"

definition btree_list ::
  "(u64 \<Rightarrow> (tree_error, tree_node) res) \<Rightarrow> 'v value_dict \<Rightarrow> bplus_tree \<Rightarrow> (u64 \<times> 'v) list" where
  "btree_list rd V t =
     (if bt_root_block t = 0 then [] else tree_list rd V (unat (bt_height t)) (bt_root_block t))"

text \<open>The path the search takes.\<close>

fun path_to :: "(u64 \<Rightarrow> (tree_error, tree_node) res) \<Rightarrow> nat \<Rightarrow> u64 \<Rightarrow> u64 \<Rightarrow> tree_path" where
  "path_to rd 0 b key = [(b, 0)]"
| "path_to rd (Suc h) b key =
     (case rd b of
        Ok n \<Rightarrow> (case find_child n key of Some (i, c) \<Rightarrow> (b, i) # path_to rd h c key | None \<Rightarrow> [])
      | Err _ \<Rightarrow> [] | Panic \<Rightarrow> [])"

section \<open>Facts about the specification\<close>

lemma kid_bounds_mono:
  assumes "sorted_keys es" "j < i" "i < length es"
  shows "kid_hi es hi j \<le> kid_lo es lo i"
proof (cases "Suc j = i")
  case False
  then have "fst (es ! Suc j) < fst (es ! i)"
    using sorted_wrt_nth_less [OF assms(1), of "Suc j" i] assms(2,3) by simp
  then show ?thesis using assms by (simp add: kid_hi_def kid_lo_def word_less_nat_alt)
qed (use assms in \<open>auto simp: kid_hi_def kid_lo_def\<close>)

lemma kid_lo_ge: "wf_kids P lo hi es \<Longrightarrow> i < length es \<Longrightarrow> lo \<le> kid_lo es lo i"
proof (induction i)
  case (Suc i)
  then have "lo \<le> kid_lo es lo i" "kid_lo es lo i < kid_hi es hi i" by (auto simp: wf_kids_def)
  then show ?case using Suc.prems by (simp add: kid_hi_def kid_lo_def [of es lo "Suc i"])
qed (simp add: kid_lo_def)

lemma kid_hi_le: "wf_kids P lo hi es \<Longrightarrow> i < length es \<Longrightarrow> kid_hi es hi i \<le> hi"
proof (induction "length es - i" arbitrary: i)
  case (Suc m)
  show ?case
  proof (cases "Suc i < length es")
    case True
    then have "kid_hi es hi (Suc i) \<le> hi" using Suc by simp
    moreover have "kid_lo es lo (Suc i) < kid_hi es hi (Suc i)" using Suc.prems True by (simp add: wf_kids_def)
    ultimately show ?thesis using True by (simp add: kid_hi_def [of es hi i] kid_lo_def)
  qed (simp add: kid_hi_def)
qed simp

lemma routes_range:
  assumes "wf_kids P lo hi es" "routes es key i" "lo \<le> unat key" "unat key < hi"
  shows "kid_lo es lo i \<le> unat key" "unat key < kid_hi es hi i"
  using assms by (auto simp: routes_def kid_lo_def kid_hi_def word_le_nat_alt word_less_nat_alt)

lemma wf_kids_mono:
  "wf_kids P lo hi es \<Longrightarrow> (\<And>c l u. P c l u \<Longrightarrow> Q c l u) \<Longrightarrow> wf_kids Q lo hi es"
  by (auto simp: wf_kids_def)

lemma wf_kids_mem:
  assumes "wf_kids P lo hi es" "e \<in> set es"
  obtains l u where "P (snd e) l u"
proof -
  obtain j where "j < length es" "es ! j = e" using assms(2) unfolding in_set_conv_nth by blast
  then have "P (snd e) (kid_lo es lo j) (kid_hi es hi j)" using assms(1) by (auto simp: wf_kids_def)
  then show ?thesis by (rule that)
qed

text \<open>A tree is unaffected by changes outside its live blocks.\<close>

definition same_on :: "u64 set \<Rightarrow> (u64 \<Rightarrow> 'a) \<Rightarrow> u64 set \<Rightarrow> (u64 \<Rightarrow> 'a) \<Rightarrow> bool" where
  "same_on A rd A' rd' \<longleftrightarrow> (\<forall>x \<in> A. x \<in> A' \<and> rd' x = rd x)"

lemma same_on_refl [simp]: "same_on A rd A rd"
  by (simp add: same_on_def)

lemma same_on_trans: "same_on A rd A' rd' \<Longrightarrow> same_on A' rd' A'' rd'' \<Longrightarrow> same_on A rd A'' rd''"
  by (simp add: same_on_def)

lemma wf_tree_same: "wf_tree rd A V h b lo hi \<Longrightarrow> same_on A rd A' rd' \<Longrightarrow> wf_tree rd' A' V h b lo hi"
proof (induction h arbitrary: b lo hi)
  case (Suc h)
  then show ?case
    by (auto simp: same_on_def split: res.splits elim!: wf_kids_mono)
qed (auto simp: same_on_def)

lemma tree_list_same:
  "wf_tree rd A V h b lo hi \<Longrightarrow> same_on A rd A' rd' \<Longrightarrow> tree_list rd' V h b = tree_list rd V h b"
proof (induction h arbitrary: b lo hi)
  case (Suc h)
  obtain n where n: "rd b = Ok n" "b \<in> A" "wf_kids (wf_tree rd A V h) lo hi (int_entries n)"
    using Suc.prems(1) by (auto split: res.splits)
  then have "tree_list rd' V h (snd e) = tree_list rd V h (snd e)" if "e \<in> set (int_entries n)" for e
    using Suc.IH [OF _ Suc.prems(2)] that by (auto simp: wf_kids_def in_set_conv_nth)
  then show ?case using n Suc.prems(2) by (simp add: same_on_def cong: map_cong)
qed (auto simp: same_on_def split: res.splits)

lemma wf_btree_same: "wf_btree rd A V t \<Longrightarrow> same_on A rd A' rd' \<Longrightarrow> wf_btree rd' A' V t"
  unfolding wf_btree_def using wf_tree_same by blast

lemma btree_list_same: "wf_btree rd A V t \<Longrightarrow> same_on A rd A' rd' \<Longrightarrow> btree_list rd' V t = btree_list rd V t"
  unfolding wf_btree_def btree_list_def by (metis tree_list_same)

text \<open>Keys lie in the range of the tree and are sorted.\<close>

lemma tree_list_range:
  "wf_tree rd A V h b lo hi \<Longrightarrow> k \<in> fst ` set (tree_list rd V h b) \<Longrightarrow> lo \<le> unat k \<and> unat k < hi"
proof (induction h arbitrary: b lo hi)
  case (Suc h)
  obtain n where n: "rd b = Ok n" "wf_kids (wf_tree rd A V h) lo hi (int_entries n)"
    using Suc.prems(1) by (auto split: res.splits)
  have "k \<in> (\<Union>e \<in> set (int_entries n). fst ` set (tree_list rd V h (snd e)))"
    using Suc.prems(2) n(1) by (simp add: image_UN)
  then obtain e where "e \<in> set (int_entries n)" "k \<in> fst ` set (tree_list rd V h (snd e))" by blast
  then obtain i where i: "i < length (int_entries n)" "k \<in> fst ` set (tree_list rd V h (snd (int_entries n ! i)))"
    unfolding in_set_conv_nth by blast
  have "wf_tree rd A V h (snd (int_entries n ! i)) (kid_lo (int_entries n) lo i) (kid_hi (int_entries n) hi i)"
    using n(2) i(1) by (simp add: wf_kids_def)
  from Suc.IH [OF this i(2)]
  have "kid_lo (int_entries n) lo i \<le> unat k \<and> unat k < kid_hi (int_entries n) hi i" .
  then show ?case using kid_lo_ge [OF n(2) i(1)] kid_hi_le [OF n(2) i(1)] by linarith
qed (auto split: res.splits)

lemma sorted_wrt_concat:
  assumes "\<forall>xs \<in> set xss. sorted_wrt R xs"
    and "\<And>i j x y. i < j \<Longrightarrow> j < length xss \<Longrightarrow> x \<in> set (xss ! i) \<Longrightarrow> y \<in> set (xss ! j) \<Longrightarrow> R x y"
  shows "sorted_wrt R (concat xss)"
  using assms
proof (induction xss)
  case (Cons xs xss)
  have "sorted_wrt R (concat xss)"
  proof (rule Cons.IH)
    show "R x y" if "i < j" "j < length xss" "x \<in> set (xss ! i)" "y \<in> set (xss ! j)" for i j x y
      using Cons.prems(2) [of "Suc i" "Suc j" x y] that by simp
  qed (use Cons.prems(1) in simp)
  moreover have "R x y" if x: "x \<in> set xs" and y: "y \<in> set (concat xss)" for x y
  proof -
    obtain j where "j < length xss" "y \<in> set (xss ! j)" using y by (auto simp: in_set_conv_nth [of _ xss])
    then show ?thesis using Cons.prems(2) [of 0 "Suc j" x y] x by simp
  qed
  ultimately show ?case using Cons.prems(1) by (simp add: sorted_wrt_append)
qed simp

lemma tree_list_sorted: "wf_tree rd A V h b lo hi \<Longrightarrow> sorted_keys (tree_list rd V h b)"
proof (induction h arbitrary: b lo hi)
  case (Suc h)
  obtain n where n: "rd b = Ok n" "wf_internal n" "wf_kids (wf_tree rd A V h) lo hi (int_entries n)"
    using Suc.prems(1) by (auto split: res.splits)
  let ?es = "int_entries n" and ?kids = "map (\<lambda>e. map fst (tree_list rd V h (snd e))) (int_entries n)"
  have kid: "wf_tree rd A V h (snd (?es ! i)) (kid_lo ?es lo i) (kid_hi ?es hi i)" if "i < length ?es" for i
    using n(3) that by (simp add: wf_kids_def)
  have "sorted_wrt (<) (concat ?kids)"
  proof (rule sorted_wrt_concat)
    show "\<forall>xs \<in> set ?kids. sorted_wrt (<) xs"
      unfolding all_set_conv_all_nth using Suc.IH [OF kid] by simp
  next
    fix i j x y
    assume "i < j" "j < length ?kids" "x \<in> set (?kids ! i)" "y \<in> set (?kids ! j)"
    then have "unat x < kid_hi ?es hi i" "kid_lo ?es lo j \<le> unat y" "kid_hi ?es hi i \<le> kid_lo ?es lo j"
      using tree_list_range [OF kid [of i]] tree_list_range [OF kid [of j]] kid_bounds_mono [of ?es i j] n(2)
      by (auto simp: wf_internal_def)
    then show "x < y" by (simp add: word_less_nat_alt)
  qed
  then show ?case by (simp add: n(1) map_concat comp_def)
qed (auto simp: wf_leaf_def split: res.splits)

section \<open>Replacing a subtree\<close>

lemma kid_bounds_update [simp]:
  "kid_lo (es[i := (fst (es ! i), c)]) lo j = kid_lo es lo j"
  "kid_hi (es[i := (fst (es ! i), c)]) hi j = kid_hi es hi j"
  by (cases "i < length es"; auto simp: kid_lo_def kid_hi_def nth_list_update list_update_beyond)+

lemma wf_kids_replace:
  assumes "wf_kids P lo hi es" "i < length es"
    and "\<And>c l u. P c l u \<Longrightarrow> Q c l u" "Q c' (kid_lo es lo i) (kid_hi es hi i)"
  shows "wf_kids Q lo hi (es[i := (fst (es ! i), c')])"
  using assms by (auto simp: wf_kids_def nth_list_update)

lemma concat_focus:
  assumes "i < length es"
  shows "concat (map f es) = concat (map f (take i es)) @ f (es ! i) @ concat (map f (drop (Suc i) es))"
proof -
  have "map f es = map f (take i es @ es ! i # drop (Suc i) es)"
    using id_take_nth_drop [OF assms] by metis
  then show ?thesis by simp
qed

text \<open>The lists of the children left and right of child \<open>i\<close> are below and above its range.\<close>

lemma kids_left:
  assumes "wf_kids (wf_tree rd A V h) lo hi es" "sorted_keys es" "i < length es"
    and "k \<in> fst ` set (concat (map (\<lambda>e. tree_list rd V h (snd e)) (take i es)))"
  shows "unat k < kid_lo es lo i"
proof -
  have "k \<in> (\<Union>e \<in> set (take i es). fst ` set (tree_list rd V h (snd e)))"
    using assms(4) by (simp add: image_UN)
  then obtain e where "e \<in> set (take i es)" and k: "k \<in> fst ` set (tree_list rd V h (snd e))" by blast
  then obtain j where j: "j < i" "e = es ! j" using assms(3) by (auto simp: in_set_conv_nth)
  then have "wf_tree rd A V h (snd e) (kid_lo es lo j) (kid_hi es hi j)"
    using assms(1,3) by (simp add: wf_kids_def)
  then have "unat k < kid_hi es hi j" using tree_list_range k by blast
  then show ?thesis using kid_bounds_mono [OF assms(2) j(1) assms(3)] by (meson less_le_trans)
qed

lemma kids_right:
  assumes "wf_kids (wf_tree rd A V h) lo hi es" "sorted_keys es" "i < length es"
    and "k \<in> fst ` set (concat (map (\<lambda>e. tree_list rd V h (snd e)) (drop (Suc i) es)))"
  shows "kid_hi es hi i \<le> unat k"
proof -
  have "k \<in> (\<Union>e \<in> set (drop (Suc i) es). fst ` set (tree_list rd V h (snd e)))"
    using assms(4) by (simp add: image_UN)
  then obtain e where "e \<in> set (drop (Suc i) es)" and k: "k \<in> fst ` set (tree_list rd V h (snd e))" by blast
  then obtain j where j: "j < length es - Suc i" "e = es ! (Suc i + j)"
    unfolding in_set_conv_nth by (auto simp: add.commute)
  then have "wf_tree rd A V h (snd e) (kid_lo es lo (Suc i + j)) (kid_hi es hi (Suc i + j))"
    using assms(1) by (simp add: wf_kids_def)
  then have "kid_lo es lo (Suc i + j) \<le> unat k" using tree_list_range k by blast
  moreover have "kid_hi es hi i \<le> kid_lo es lo (Suc i + j)"
    using kid_bounds_mono [OF assms(2), of i "Suc i + j"] j(1) by simp
  ultimately show ?thesis by simp
qed

lemma int_entries_cong:
  "tn_data n = tn_data n' \<Longrightarrow> tn_item_count n = tn_item_count n' \<Longrightarrow> int_entries n = int_entries n'"
  by (simp only: int_entries_def get_key_def get_child_def)

lemma leaf_entries_cong:
  "tn_data n = tn_data n' \<Longrightarrow> tn_item_count n = tn_item_count n' \<Longrightarrow> leaf_entries V n = leaf_entries V n'"
  by (simp only: leaf_entries_def get_entry_def)

text \<open>Stamping a node with a generation and its checksum keeps the entries and makes it valid.\<close>

lemma stamped_node:
  assumes "tn_node_type n \<noteq> None"
  shows "node_is_valid (update_crc (n\<lparr>tn_generation := g\<rparr>))"
    "int_entries (update_crc (n\<lparr>tn_generation := g\<rparr>)) = int_entries n"
    "leaf_entries V (update_crc (n\<lparr>tn_generation := g\<rparr>)) = leaf_entries V n"
    "wf_internal (update_crc (n\<lparr>tn_generation := g\<rparr>)) = wf_internal n"
    "wf_leaf V (update_crc (n\<lparr>tn_generation := g\<rparr>)) = wf_leaf V n"
proof -
  show i: "int_entries (update_crc (n\<lparr>tn_generation := g\<rparr>)) = int_entries n"
    by (rule int_entries_cong) simp_all
  show l: "leaf_entries V (update_crc (n\<lparr>tn_generation := g\<rparr>)) = leaf_entries V n"
    by (rule leaf_entries_cong) simp_all
  show "node_is_valid (update_crc (n\<lparr>tn_generation := g\<rparr>))"
    by (rule update_crc_valid) (use assms in \<open>simp add: tn_node_type_def\<close>)
  show "wf_internal (update_crc (n\<lparr>tn_generation := g\<rparr>)) = wf_internal n"
    using i by (simp add: wf_internal_def wf_node_def)
  show "wf_leaf V (update_crc (n\<lparr>tn_generation := g\<rparr>)) = wf_leaf V n"
    using l by (simp add: wf_leaf_def wf_node_def)
qed

lemma crc_leaf [simp]:
  "leaf_entries V (update_crc n) = leaf_entries V n" "wf_leaf V (update_crc n) = wf_leaf V n"
proof -
  show l: "leaf_entries V (update_crc n) = leaf_entries V n" by (rule leaf_entries_cong) simp_all
  show "wf_leaf V (update_crc n) = wf_leaf V n" using l by (simp add: wf_leaf_def wf_node_def)
qed

lemma generation_leaf [simp]:
  "leaf_entries V (n\<lparr>tn_generation := g\<rparr>) = leaf_entries V n" "wf_leaf V (n\<lparr>tn_generation := g\<rparr>) = wf_leaf V n"
  "leaf_is_full V (n\<lparr>tn_generation := g\<rparr>) = leaf_is_full V n"
proof -
  show l: "leaf_entries V (n\<lparr>tn_generation := g\<rparr>) = leaf_entries V n" by (rule leaf_entries_cong) simp_all
  show "wf_leaf V (n\<lparr>tn_generation := g\<rparr>) = wf_leaf V n" using l by (simp add: wf_leaf_def wf_node_def)
qed (simp add: leaf_is_full_def)

lemma cow_loop_append:
  "cow_loop D g (xs @ ys) c = sbind (cow_loop D g xs c) (cow_loop D g ys)"
proof (induction D g xs c rule: cow_loop.induct)
  case (1 D generation c)
  then show ?case by (simp add: fun_eq_iff sbind_def)
next
  case (2 D generation parent_block child_idx rest c)
  then show ?case by (simp add: sbind_assoc Let_def)
qed

section \<open>What the tree relies on of its device and allocator\<close>

locale block_store =
  fixes D :: "'s store"
    and alive :: "'s \<Rightarrow> u64 set"
    and room :: "'s \<Rightarrow> nat \<Rightarrow> bool"
    and faults :: "tree_error set"
  assumes room_less: "room s (Suc m) \<Longrightarrow> room s m"
    and alloc_law: "room s (Suc m) \<Longrightarrow> st_alloc D s = (rb, s') \<Longrightarrow>
      rb \<noteq> Panic \<and> (\<forall>e. rb = Err e \<longrightarrow> e \<in> faults) \<and> room s' m \<and>
      same_on (alive s) (\<lambda>x. st_read D x s) (alive s') (\<lambda>x. st_read D x s') \<and>
      (\<forall>b. rb = Ok b \<longrightarrow> b \<noteq> 0 \<and> b \<notin> alive s \<and> b \<in> alive s')"
    and write_law: "b \<in> alive s \<Longrightarrow> wf_node nd \<Longrightarrow> room s m \<Longrightarrow> st_write D b nd s = (ru, s') \<Longrightarrow>
      ru \<noteq> Panic \<and> (\<forall>e. ru = Err e \<longrightarrow> e \<in> faults) \<and> room s' m \<and>
      same_on (alive s - {b}) (\<lambda>x. st_read D x s) (alive s') (\<lambda>x. st_read D x s') \<and>
      b \<in> alive s' \<and> (ru = Ok () \<longrightarrow> st_read D b s' = Ok nd)"
begin

abbreviation rdf :: "'s \<Rightarrow> u64 \<Rightarrow> (tree_error, tree_node) res" where
  "rdf s \<equiv> (\<lambda>x. st_read D x s)"

definition keeps :: "'s \<Rightarrow> 's \<Rightarrow> bool" where
  "keeps s s' \<longleftrightarrow> same_on (alive s) (rdf s) (alive s') (rdf s')"

lemma keeps_refl [simp]: "keeps s s"
  by (simp add: keeps_def)

lemma keeps_trans: "keeps s s' \<Longrightarrow> keeps s' s'' \<Longrightarrow> keeps s s''"
  unfolding keeps_def by (rule same_on_trans)

lemma keeps_read: "keeps s s' \<Longrightarrow> b \<in> alive s \<Longrightarrow> st_read D b s' = st_read D b s"
  by (simp add: keeps_def same_on_def)

lemma keeps_alive: "keeps s s' \<Longrightarrow> b \<in> alive s \<Longrightarrow> b \<in> alive s'"
  by (simp add: keeps_def same_on_def)

lemma wf_tree_keeps: "wf_tree (rdf s) (alive s) V h b lo hi \<Longrightarrow> keeps s s' \<Longrightarrow> wf_tree (rdf s') (alive s') V h b lo hi"
  unfolding keeps_def by (rule wf_tree_same)

lemma tree_list_keeps:
  "wf_tree (rdf s) (alive s) V h b lo hi \<Longrightarrow> keeps s s' \<Longrightarrow> tree_list (rdf s') V h b = tree_list (rdf s) V h b"
  unfolding keeps_def by (rule tree_list_same)

lemma room_diff: "room s (m + k) \<Longrightarrow> room s m"
  by (induction k) (auto dest: room_less)

text \<open>Allocating a block and writing it: the step every copy takes.\<close>

definition store_node :: "tree_node \<Rightarrow> ('s, tree_error, u64) op" where
  "store_node nd = sbind (st_alloc D) (\<lambda>b. sbind (st_write D b nd) (\<lambda>_. ret b))"

lemma alloc_keeps:
  assumes "room s (Suc m)" "st_alloc D s = (r, s')"
  shows "r \<noteq> Panic" "room s' m" "keeps s s'" "r = Ok b \<Longrightarrow> b \<noteq> 0 \<and> b \<notin> alive s \<and> b \<in> alive s'"
    "r = Err e \<Longrightarrow> e \<in> faults"
  using alloc_law [OF assms] by (simp_all add: keeps_def)

lemma write_fresh:
  assumes "keeps s0 s" "wf_node nd" "room s m" "st_write D b nd s = (r, s')" "b \<notin> alive s0" "b \<in> alive s"
  shows "r \<noteq> Panic" "room s' m" "keeps s0 s'" "b \<in> alive s'"
    "r = Ok () \<Longrightarrow> st_read D b s' = Ok nd" "r = Err e \<Longrightarrow> e \<in> faults"
proof -
  note law = write_law [OF assms(6,2,3,4)]
  show "r \<noteq> Panic" "room s' m" "b \<in> alive s'" "r = Ok () \<Longrightarrow> st_read D b s' = Ok nd"
    "r = Err e \<Longrightarrow> e \<in> faults"
    using law by simp_all
  have "x \<in> alive s' \<and> rdf s' x = rdf s0 x" if "x \<in> alive s0" for x
  proof -
    have "x \<in> alive s - {b}" "rdf s x = rdf s0 x" using that assms(1,5) by (auto simp: keeps_def same_on_def)
    then show ?thesis using law by (simp add: same_on_def)
  qed
  then show "keeps s0 s'" by (simp add: keeps_def same_on_def)
qed

lemma store_node_law:
  assumes "room s (Suc m)" "wf_node nd" "store_node nd s = (r, s')"
  shows "r \<noteq> Panic" "room s' m" "keeps s s'"
    "r = Ok b \<Longrightarrow> b \<noteq> 0 \<and> b \<in> alive s' \<and> st_read D b s' = Ok nd"
    "r = Err e \<Longrightarrow> e \<in> faults"
proof -
  obtain ra sa where a: "st_alloc D s = (ra, sa)" by fastforce
  note al = alloc_keeps [OF assms(1) a]
  have "r \<noteq> Panic \<and> room s' m \<and> keeps s s' \<and>
      (r = Ok b \<longrightarrow> b \<noteq> 0 \<and> b \<in> alive s' \<and> st_read D b s' = Ok nd) \<and> (r = Err e \<longrightarrow> e \<in> faults)"
  proof (cases ra)
    case (Ok nb)
    obtain rw sw where w: "st_write D nb nd sa = (rw, sw)" by fastforce
    note fresh = al(4) [OF Ok]
    note wr = write_fresh [OF al(3) assms(2) al(2) w]
    have "r = (case rw of Ok _ \<Rightarrow> Ok nb | Err e \<Rightarrow> Err e | Panic \<Rightarrow> Panic)" "s' = sw"
      using assms(3) by (auto simp: store_node_def sbind_def a Ok w split: res.splits)
    then show ?thesis using wr fresh al(2) by (auto split: res.splits)
  next
    case (Err e)
    then show ?thesis using assms(3) al by (auto simp: store_node_def sbind_def a)
  next
    case Panic
    then show ?thesis using al(1) by simp
  qed
  then show "r \<noteq> Panic" "room s' m" "keeps s s'"
    "r = Ok b \<Longrightarrow> b \<noteq> 0 \<and> b \<in> alive s' \<and> st_read D b s' = Ok nd"
    "r = Err e \<Longrightarrow> e \<in> faults" by blast+
qed

end

section \<open>Splitting a leaf\<close>

context tree_value
begin

lemma wf_leafD:
  assumes "wf_leaf V n"
  shows "wf_node n" "unat (tn_item_count n) \<le> max_entries V" "sorted_keys (leaf_entries V n)"
    "leaf_entries V n = entries (tn_data n) (unat (tn_item_count n))"
    "length (leaf_entries V n) = unat (tn_item_count n)"
  using assms leaf_entries_eq [of n] by (simp_all add: wf_leaf_def)

lemma get_leaf_entry:
  assumes "wf_leaf V n" "i < length (leaf_entries V n)"
  shows "get_entry V n i = Ok (Some (leaf_entries V n ! i))" "valid (snd (leaf_entries V n ! i))"
  using assms wf_leafD [OF assms(1)] get_entry_at [of n i] valid_entry_at [of "tn_data n" i]
  by (simp_all add: wf_node_def)

lemma first_key_leaf:
  assumes "wf_leaf V n" "leaf_entries V n \<noteq> []"
  shows "first_key V n = Ok (fst (hd (leaf_entries V n)))"
  using get_leaf_entry(1) [OF assms(1), of 0] assms(2) by (simp add: first_key_def hd_conv_nth split_beta)

text \<open>Collecting the entries from a position on.\<close>

lemma collect_entries:
  assumes "wf_leaf V n" "i \<le> unat (tn_item_count n)"
  shows "for_res (\<lambda>i es. rbind (get_entry V n i) (\<lambda>e.
      case e of Some entry \<Rightarrow> Ok (es @ [entry]) | None \<Rightarrow> Ok es)) [i..<unat (tn_item_count n)] acc =
    Ok (acc @ drop i (leaf_entries V n))"
  using assms(2)
proof (induction "unat (tn_item_count n) - i" arbitrary: i acc)
  case 0
  then show ?case using wf_leafD(5) [OF assms(1)] by simp
next
  case (Suc x)
  then have i: "i < unat (tn_item_count n)" by simp
  then have "drop i (leaf_entries V n) = leaf_entries V n ! i # drop (Suc i) (leaf_entries V n)"
    using wf_leafD(5) [OF assms(1)] by (simp add: Cons_nth_drop_Suc)
  then show ?case
    using Suc.hyps(1) [of "Suc i"] Suc.hyps(2) i get_leaf_entry(1) [OF assms(1), of i] wf_leafD(5) [OF assms(1)]
    by (simp add: upt_conv_Cons)
qed

text \<open>Truncating a leaf.\<close>

lemma truncate_leaf:
  assumes "wf_leaf V n" "k \<le> unat (tn_item_count n)"
  shows "wf_leaf V (n\<lparr>tn_item_count := of_nat k\<rparr>)"
    "leaf_entries V (n\<lparr>tn_item_count := of_nat k\<rparr>) = take k (leaf_entries V n)"
    "unat (of_nat k :: u16) = k"
proof -
  let ?n = "n\<lparr>tn_item_count := of_nat k\<rparr>"
  note wf = wf_leafD [OF assms(1)]
  show k: "unat (of_nat k :: u16) = k"
    using assms(2) unat_u16_bound [of "tn_item_count n"] by (simp add: unat_of_nat)
  show e: "leaf_entries V ?n = take k (leaf_entries V n)"
    using leaf_entries_eq [of ?n] wf assms(2) k by (simp add: wf_node_def take_entries)
  show "wf_leaf V ?n"
    using e k wf assms(2) by (simp add: wf_leaf_def wf_node_def sorted_wrt_take take_map [symmetric])
qed

text \<open>Appending sorted entries one by one.\<close>

lemma insert_entries:
  assumes "wf_leaf V n" "sorted_keys (leaf_entries V n @ xs)" "\<forall>e \<in> set xs. valid (snd e)"
    and "length (leaf_entries V n) + length xs \<le> max_entries V"
  shows "\<exists>n'. for_res (\<lambda>(k, v) n. leaf_insert V n k v) xs n = Ok n' \<and> wf_leaf V n' \<and>
    leaf_entries V n' = leaf_entries V n @ xs \<and> tn_magic n' = tn_magic n"
  using assms
proof (induction xs arbitrary: n)
  case (Cons e xs)
  obtain k v where e: "e = (k, v)" by fastforce
  have less: "\<forall>k' \<in> fst ` set (leaf_entries V n). k' < k"
    using Cons.prems(2) by (auto simp: e sorted_wrt_append)
  then have absent: "k \<notin> fst ` set (leaf_entries V n)" by blast
  have nf: "\<not> leaf_is_full V n"
    using Cons.prems(4) wf_leafD(5) [OF Cons.prems(1)] by (simp add: leaf_is_full_def)
  have "valid v" using Cons.prems(3) e by simp
  then obtain d where d:
    "leaf_insert V n k v = Ok (n\<lparr>tn_data := d, tn_item_count := tn_item_count n + 1\<rparr>)"
    "wf_leaf V (n\<lparr>tn_data := d, tn_item_count := tn_item_count n + 1\<rparr>)"
    "leaf_entries V (n\<lparr>tn_data := d, tn_item_count := tn_item_count n + 1\<rparr>) = ins_list k v (leaf_entries V n)"
    using leaf_insert_new [OF Cons.prems(1) nf absent] by blast
  have "ins_list k v (leaf_entries V n) = leaf_entries V n @ [e]"
    using ins_list_split [of "leaf_entries V n" "[]" k v] less Cons.prems(2) e by (simp add: sorted_wrt_append)
  then show ?case
    using Cons.IH [OF d(2)] d Cons.prems e by auto
qed auto

lemma sorted_first_right:
  assumes "sorted_keys es" "0 < mid" "mid < length es"
  shows "\<forall>k \<in> fst ` set (take mid es). k < fst (es ! mid)"
    "\<forall>k \<in> fst ` set (drop mid es). fst (es ! mid) \<le> k"
proof -
  show "\<forall>k \<in> fst ` set (take mid es). k < fst (es ! mid)"
    unfolding keys_take [OF less_imp_le [OF assms(3)]]
    using sorted_wrt_nth_less [OF assms(1)] assms(3) by simp
  show "\<forall>k \<in> fst ` set (drop mid es). fst (es ! mid) \<le> k"
    unfolding keys_drop
  proof (intro allI impI)
    fix i assume "mid \<le> i" "i < length es"
    then show "fst (es ! mid) \<le> fst (es ! i)"
      using sorted_wrt_nth_less [OF assms(1), of mid i] by (cases "mid = i") simp_all
  qed
qed

lemma split_leaf_correct:
  assumes "wf_leaf V n" "leaf_is_full V n" "key \<notin> fst ` set (leaf_entries V n)" "valid v"
  obtains sk L R where
    "split_leaf V n (new_leaf ty g) key v = Ok (sk, L, R)" "wf_leaf V L" "wf_leaf V R"
    "leaf_entries V L @ leaf_entries V R = ins_list key v (leaf_entries V n)"
    "leaf_entries V L \<noteq> []" "leaf_entries V R \<noteq> []" "sk = fst (hd (leaf_entries V R))"
    "tn_magic L = tn_magic n" "tn_magic R = node_type_magic ty"
proof -
  let ?es = "leaf_entries V n" and ?c = "unat (tn_item_count n)" and ?mid = "unat (tn_item_count n) div 2"
  note wf = wf_leafD [OF assms(1)]
  have c: "?c = max_entries V" using assms(2) wf(2) by (simp add: leaf_is_full_def)
  then have mid: "0 < ?mid" "?mid < ?c" using two_entries by simp_all
  let ?left = "n\<lparr>tn_item_count := of_nat ?mid\<rparr>"
  note left = truncate_leaf [OF assms(1), of ?mid]
  have lwf: "wf_leaf V ?left" "leaf_entries V ?left = take ?mid ?es" using left mid by simp_all
  have vals: "\<forall>e \<in> set (drop ?mid ?es). valid (snd e)"
    using get_leaf_entry(2) [OF assms(1)] by (metis in_set_conv_nth in_set_dropD)
  have "sorted_keys (drop ?mid ?es)" using wf(3) by (simp add: sorted_wrt_drop drop_map [symmetric])
  then obtain right where right:
    "for_res (\<lambda>(k, v) n. leaf_insert V n k v) (drop ?mid ?es) (new_leaf ty g) = Ok right" "wf_leaf V right"
    "leaf_entries V right = drop ?mid ?es" "tn_magic right = node_type_magic ty"
    using insert_entries [of "new_leaf ty g" "drop ?mid ?es"] vals wf(5) c by auto
  have rne: "leaf_entries V right \<noteq> []" using right(3) mid wf(5) by simp
  have fk: "first_key V right = Ok (fst (?es ! ?mid))"
    using first_key_leaf [OF right(2) rne] right(3) mid wf(5) by (simp add: hd_drop_conv_nth)
  note first = sorted_first_right [OF wf(3) mid(1)]
  show ?thesis
  proof (cases "key < fst (?es ! ?mid)")
    case True
    have nf: "\<not> leaf_is_full V ?left" using left(3) mid c by (simp add: leaf_is_full_def)
    have absent: "key \<notin> fst ` set (leaf_entries V ?left)" using assms(3) lwf(2) by (auto dest: in_set_takeD)
    obtain d where d: "leaf_insert V ?left key v = Ok (?left\<lparr>tn_data := d, tn_item_count := tn_item_count ?left + 1\<rparr>)"
      "wf_leaf V (?left\<lparr>tn_data := d, tn_item_count := tn_item_count ?left + 1\<rparr>)"
      "leaf_entries V (?left\<lparr>tn_data := d, tn_item_count := tn_item_count ?left + 1\<rparr>) = ins_list key v (take ?mid ?es)"
      using leaf_insert_new [OF lwf(1) nf absent assms(4)] lwf(2) by auto
    let ?L = "?left\<lparr>tn_data := d, tn_item_count := tn_item_count ?left + 1\<rparr>"
    have "\<forall>k' \<in> fst ` set (drop ?mid ?es). key < k'"
      using first(2) True mid(2) wf(5) by (auto intro: less_le_trans)
    then have app: "ins_list key v (take ?mid ?es) @ drop ?mid ?es = ins_list key v ?es"
      using ins_list_append [of "[]" key "drop ?mid ?es" v "take ?mid ?es"] by simp
    have ne: "ins_list key v (take ?mid ?es) \<noteq> []"
      by (metis image_empty insert_not_empty list.set(1) set_keys_ins_list)
    have split: "split_leaf V n (new_leaf ty g) key v = Ok (fst (?es ! ?mid), ?L, right)"
      using collect_entries [OF assms(1), of ?mid "[]"] right(1) fk True d(1) mid by (simp add: split_leaf_def Let_def)
    have hd: "fst (?es ! ?mid) = fst (hd (leaf_entries V right))"
      using right(3) mid wf(5) by (simp add: hd_drop_conv_nth)
    show ?thesis
      by (rule that [OF split d(2) right(2) _ _ rne hd _ right(4)]) (simp_all only: d(3) right(3) app ne, simp_all)
  next
    case False
    have nf: "\<not> leaf_is_full V right"
      using wf_leafD(5) [OF right(2)] right(3) wf(5) mid c by (simp add: leaf_is_full_def)
    have absent: "key \<notin> fst ` set (leaf_entries V right)" using assms(3) right(3) by (auto dest: in_set_dropD)
    obtain d where d: "leaf_insert V right key v = Ok (right\<lparr>tn_data := d, tn_item_count := tn_item_count right + 1\<rparr>)"
      "wf_leaf V (right\<lparr>tn_data := d, tn_item_count := tn_item_count right + 1\<rparr>)"
      "leaf_entries V (right\<lparr>tn_data := d, tn_item_count := tn_item_count right + 1\<rparr>) = ins_list key v (drop ?mid ?es)"
      using leaf_insert_new [OF right(2) nf absent assms(4)] right(3) by auto
    let ?R = "right\<lparr>tn_data := d, tn_item_count := tn_item_count right + 1\<rparr>"
    have "\<forall>k' \<in> fst ` set (take ?mid ?es). k' < key"
      using first(1) False mid(2) wf(5) by (auto intro: less_le_trans simp: not_less)
    then have app: "take ?mid ?es @ ins_list key v (drop ?mid ?es) = ins_list key v ?es"
      using ins_list_append [of "take ?mid ?es" key "[]" v "drop ?mid ?es"] by simp
    have rne': "leaf_entries V ?R \<noteq> []"
      unfolding d(3) by (metis image_empty insert_not_empty list.set(1) set_keys_ins_list)
    have split: "split_leaf V n (new_leaf ty g) key v = Ok (fst (hd (leaf_entries V ?R)), ?left, ?R)"
      using collect_entries [OF assms(1), of ?mid "[]"] right(1) fk False d(1) mid first_key_leaf [OF d(2) rne']
      by (simp add: split_leaf_def Let_def)
    have lne: "take ?mid ?es \<noteq> []" using mid wf(5) by auto
    show ?thesis
      by (rule that [OF split lwf(1) d(2) _ _ rne' refl]) (simp_all only: d(3) lwf(2) app lne, simp_all add: right(4))
  qed
qed

end

section \<open>Trees on a block store\<close>

locale cow_tree = block_store D alive room faults + tree_value V enc dec valid
  for D :: "'s store" and alive room faults and V :: "'v value_dict" and enc dec valid
begin

lemma sbind_store_node:
  "sbind (st_alloc D) (\<lambda>b. sbind (st_write D b nd) (\<lambda>_. K b)) = sbind (store_node nd) K"
  by (auto simp: store_node_def sbind_def fun_eq_iff split: prod.splits res.splits)

lemma internal_node:
  assumes "wf_tree rd A V (Suc h) b lo hi"
  obtains n where "rd b = Ok n" "b \<in> A" "node_is_valid n" "wf_internal n"
    "wf_kids (wf_tree rd A V h) lo hi (int_entries n)" "sorted_keys (int_entries n)" "int_entries n \<noteq> []"
  using assms that by (auto simp: wf_internal_def wf_kids_def split: res.splits)

text \<open>The child the search descends to.\<close>

lemma descend:
  assumes "wf_tree rd A V (Suc h) b lo hi" "lo \<le> unat key" "unat key < hi"
  obtains n i where "rd b = Ok n" "b \<in> A" "node_is_valid n" "wf_internal n"
    "wf_kids (wf_tree rd A V h) lo hi (int_entries n)" "sorted_keys (int_entries n)"
    "i < length (int_entries n)" "find_child n key = Some (i, snd (int_entries n ! i))"
    "wf_tree rd A V h (snd (int_entries n ! i)) (kid_lo (int_entries n) lo i) (kid_hi (int_entries n) hi i)"
    "kid_lo (int_entries n) lo i \<le> unat key" "unat key < kid_hi (int_entries n) hi i"
proof -
  obtain n where n: "rd b = Ok n" "b \<in> A" "node_is_valid n" "wf_internal n"
    "wf_kids (wf_tree rd A V h) lo hi (int_entries n)" "sorted_keys (int_entries n)" "int_entries n \<noteq> []"
    using internal_node [OF assms(1)] .
  obtain i where i: "routes (int_entries n) key i" "find_child n key = Some (i, snd (int_entries n ! i))"
    using find_child_routes [OF n(4,7)] .
  then have "i < length (int_entries n)" by (simp add: routes_def)
  moreover have "wf_tree rd A V h (snd (int_entries n ! i)) (kid_lo (int_entries n) lo i) (kid_hi (int_entries n) hi i)"
    using n(5) calculation by (simp add: wf_kids_def)
  ultimately show ?thesis
    using that n i(2) routes_range [OF n(5) i(1) assms(2,3)] by blast
qed

lemma length_path_to:
  "wf_tree rd A V h b lo hi \<Longrightarrow> lo \<le> unat key \<Longrightarrow> unat key < hi \<Longrightarrow> length (path_to rd h b key) = Suc h"
proof (induction h arbitrary: b lo hi)
  case (Suc h)
  from descend [OF Suc.prems] obtain n i where
    "rd b = Ok n" "find_child n key = Some (i, snd (int_entries n ! i))"
    "wf_tree rd A V h (snd (int_entries n ! i)) (kid_lo (int_entries n) lo i) (kid_hi (int_entries n) hi i)"
    "kid_lo (int_entries n) lo i \<le> unat key" "unat key < kid_hi (int_entries n) hi i" .
  then show ?case using Suc.IH by simp
qed simp

text \<open>A subtree on the search path, at height \<open>j\<close>, with the lists left and right of it; and what
  copying the path above it yields when it is replaced.\<close>

definition replaces ::
  "'s \<Rightarrow> nat \<Rightarrow> tree_path \<Rightarrow> nat \<Rightarrow> nat \<Rightarrow> nat \<Rightarrow> nat \<Rightarrow> nat \<Rightarrow> (u64 \<times> 'v) list \<Rightarrow> (u64 \<times> 'v) list \<Rightarrow> bool" where
  "replaces s0 h path lo hi j l u pre post \<longleftrightarrow>
     (\<forall>s g nb m r s'. keeps s0 s \<longrightarrow> room s (m + (h - j)) \<longrightarrow> nb \<noteq> 0 \<longrightarrow>
        wf_tree (rdf s) (alive s) V j nb l u \<longrightarrow>
        cow_loop D g (rev (take (h - j) path)) nb s = (r, s') \<longrightarrow>
        r \<noteq> Panic \<and> keeps s s' \<and> room s' m \<and> (\<forall>e. r = Err e \<longrightarrow> e \<in> faults) \<and>
        (\<forall>b'. r = Ok b' \<longrightarrow> b' \<noteq> 0 \<and> wf_tree (rdf s') (alive s') V h b' lo hi \<and>
           tree_list (rdf s') V h b' = pre @ tree_list (rdf s) V j nb @ post))"

text \<open>One step: the parent of a replaced child.\<close>

lemma cow_step:
  assumes n: "st_read D b s0 = Ok n" "b \<in> alive s0" "node_is_valid n" "wf_internal n"
      "wf_kids (wf_tree (rdf s0) (alive s0) V h) lo hi (int_entries n)" "i < length (int_entries n)"
    and s: "keeps s0 s" "room s (Suc m)"
    and c: "wf_tree (rdf s) (alive s) V h c (kid_lo (int_entries n) lo i) (kid_hi (int_entries n) hi i)"
    and run: "cow_loop D g [(b, i)] c s = (r, s')"
  shows "r \<noteq> Panic \<and> keeps s s' \<and> room s' m \<and> (\<forall>e. r = Err e \<longrightarrow> e \<in> faults) \<and>
    (\<forall>b'. r = Ok b' \<longrightarrow> b' \<noteq> 0 \<and> wf_tree (rdf s') (alive s') V (Suc h) b' lo hi \<and>
       tree_list (rdf s') V (Suc h) b' =
         concat (map (\<lambda>e. tree_list (rdf s0) V h (snd e)) (take i (int_entries n))) @
         tree_list (rdf s) V h c @
         concat (map (\<lambda>e. tree_list (rdf s0) V h (snd e)) (drop (Suc i) (int_entries n))))"
proof -
  let ?es = "int_entries n"
  obtain d where d: "int_set_entry n i (fst (?es ! i)) c = Ok (n\<lparr>tn_data := d\<rparr>)"
      "wf_internal (n\<lparr>tn_data := d\<rparr>)" "int_entries (n\<lparr>tn_data := d\<rparr>) = ?es[i := (fst (?es ! i), c)]"
    using int_set_entry_child [OF n(4)] n(6) by auto
  let ?nd = "update_crc (n\<lparr>tn_data := d, tn_generation := g\<rparr>)"
  have ty: "tn_node_type (n\<lparr>tn_data := d\<rparr>) \<noteq> None"
    using n(3) by (simp add: node_is_valid_def tn_node_type_def)
  note nd = stamped_node [OF ty, where g = g]
  have read: "st_read D b s = Ok n" using keeps_read [OF s(1) n(2)] n(1) by simp
  have key: "get_key n i = Some (fst (?es ! i))" using get_key_entries(1) [OF n(4)] n(6) by simp
  have store: "store_node ?nd s = (r, s')"
    using run by (simp add: dev_read_def read key d(1) Let_def store_node_def)
  have "wf_node ?nd" using d(2) nd(4) by (simp add: wf_internal_def)
  note law = store_node_law [OF s(2) this store]
  have kept: "keeps s0 s'" using keeps_trans [OF s(1) law(3)] .
  have new: "wf_tree (rdf s') (alive s') V (Suc h) b' lo hi \<and> tree_list (rdf s') V (Suc h) b' =
      concat (map (\<lambda>e. tree_list (rdf s0) V h (snd e)) (take i ?es)) @ tree_list (rdf s) V h c @
      concat (map (\<lambda>e. tree_list (rdf s0) V h (snd e)) (drop (Suc i) ?es))" if "r = Ok b'" for b'
  proof -
    have b': "b' \<in> alive s'" "st_read D b' s' = Ok ?nd" using law(4) [OF that] by simp_all
    have ent: "int_entries ?nd = ?es[i := (fst (?es ! i), c)]" using nd(2) d(3) by simp
    have "wf_kids (wf_tree (rdf s') (alive s') V h) lo hi (?es[i := (fst (?es ! i), c)])"
    proof (rule wf_kids_replace [OF n(5,6)])
      show "wf_tree (rdf s') (alive s') V h c (kid_lo ?es lo i) (kid_hi ?es hi i)"
        by (rule wf_tree_keeps [OF c law(3)])
    qed (rule wf_tree_keeps [OF _ kept])
    then have wf: "wf_tree (rdf s') (alive s') V (Suc h) b' lo hi"
      using b' nd(1,4) ent d(2) by simp
    have same: "tree_list (rdf s') V h (snd e) = tree_list (rdf s0) V h (snd e)" if e: "e \<in> set ?es" for e
    proof -
      obtain l u where "wf_tree (rdf s0) (alive s0) V h (snd e) l u" using wf_kids_mem [OF n(5) e] .
      then show ?thesis by (rule tree_list_keeps [OF _ kept])
    qed
    have "tree_list (rdf s') V (Suc h) b' = concat (map (\<lambda>e. tree_list (rdf s') V h (snd e)) (?es[i := (fst (?es ! i), c)]))"
      using b'(2) ent by simp
    also have "\<dots> = concat (map (\<lambda>e. tree_list (rdf s') V h (snd e)) (take i ?es)) @
        tree_list (rdf s') V h c @ concat (map (\<lambda>e. tree_list (rdf s') V h (snd e)) (drop (Suc i) ?es))"
      using concat_focus [of i "?es[i := (fst (?es ! i), c)]" "\<lambda>e. tree_list (rdf s') V h (snd e)"] n(6)
      by (simp del: length_int_entries)
    also have "tree_list (rdf s') V h c = tree_list (rdf s) V h c"
      by (rule tree_list_keeps [OF c law(3)])
    also have "map (\<lambda>e. tree_list (rdf s') V h (snd e)) (take i ?es) = map (\<lambda>e. tree_list (rdf s0) V h (snd e)) (take i ?es)"
      using same by (auto dest: in_set_takeD)
    also have "map (\<lambda>e. tree_list (rdf s') V h (snd e)) (drop (Suc i) ?es) = map (\<lambda>e. tree_list (rdf s0) V h (snd e)) (drop (Suc i) ?es)"
      using same by (auto dest: in_set_dropD)
    finally show ?thesis using wf by blast
  qed
  show ?thesis using law new by blast
qed

lemma replaces_parent:
  assumes n: "st_read D b s0 = Ok n" "b \<in> alive s0" "node_is_valid n" "wf_internal n"
      "wf_kids (wf_tree (rdf s0) (alive s0) V h) lo hi (int_entries n)" "i < length (int_entries n)"
    and c: "replaces s0 h path (kid_lo (int_entries n) lo i) (kid_hi (int_entries n) hi i) j l u pre post" "j \<le> h"
  shows "replaces s0 (Suc h) ((b, i) # path) lo hi j l u
      (concat (map (\<lambda>e. tree_list (rdf s0) V h (snd e)) (take i (int_entries n))) @ pre)
      (post @ concat (map (\<lambda>e. tree_list (rdf s0) V h (snd e)) (drop (Suc i) (int_entries n))))"
  unfolding replaces_def
proof (intro allI impI)
  fix s g nb m r s'
  assume s: "keeps s0 s" "room s (m + (Suc h - j))" "nb \<noteq> 0" "wf_tree (rdf s) (alive s) V j nb l u"
    and run: "cow_loop D g (rev (take (Suc h - j) ((b, i) # path))) nb s = (r, s')"
  obtain r1 s1 where r1: "cow_loop D g (rev (take (h - j) path)) nb s = (r1, s1)" by fastforce
  have "room s (Suc m + (h - j))" using s(2) c(2) by (simp add: Suc_diff_le)
  then have step1: "r1 \<noteq> Panic" "keeps s s1" "room s1 (Suc m)" "\<And>e. r1 = Err e \<Longrightarrow> e \<in> faults"
    "\<And>c. r1 = Ok c \<Longrightarrow> c \<noteq> 0 \<and>
      wf_tree (rdf s1) (alive s1) V h c (kid_lo (int_entries n) lo i) (kid_hi (int_entries n) hi i) \<and>
      tree_list (rdf s1) V h c = pre @ tree_list (rdf s) V j nb @ post"
    using c(1) [unfolded replaces_def] s(1,3,4) r1 by blast+
  have run': "(case r1 of Ok c \<Rightarrow> cow_loop D g [(b, i)] c s1 | Err e \<Rightarrow> (Err e, s1) | Panic \<Rightarrow> (Panic, s1)) = (r, s')"
    using run c(2) r1 by (simp add: Suc_diff_le cow_loop_append sbind_def del: cow_loop.simps(2))
  show "r \<noteq> Panic \<and> keeps s s' \<and> room s' m \<and> (\<forall>e. r = Err e \<longrightarrow> e \<in> faults) \<and>
      (\<forall>b'. r = Ok b' \<longrightarrow> b' \<noteq> 0 \<and> wf_tree (rdf s') (alive s') V (Suc h) b' lo hi \<and>
        tree_list (rdf s') V (Suc h) b' =
         (concat (map (\<lambda>e. tree_list (rdf s0) V h (snd e)) (take i (int_entries n))) @ pre) @
         tree_list (rdf s) V j nb @
         (post @ concat (map (\<lambda>e. tree_list (rdf s0) V h (snd e)) (drop (Suc i) (int_entries n)))))"
  proof (cases r1)
    case (Ok c')
    then have "cow_loop D g [(b, i)] c' s1 = (r, s')" using run' by simp
    from cow_step [OF n keeps_trans [OF s(1) step1(2)] step1(3) _ this] step1(5) [OF Ok]
    show ?thesis using keeps_trans [OF step1(2)] by auto
  next
    case (Err e)
    then show ?thesis using run' step1 room_less by auto
  next
    case Panic
    then show ?thesis using step1(1) by simp
  qed
qed

lemma focus:
  assumes "wf_tree (rdf s0) (alive s0) V h b lo hi" "lo \<le> unat key" "unat key < hi" "j \<le> h"
  shows "\<exists>sub l u pre post.
    wf_tree (rdf s0) (alive s0) V j sub l u \<and> l \<le> unat key \<and> unat key < u \<and> lo \<le> l \<and> u \<le> hi \<and>
    drop (h - j) (path_to (rdf s0) h b key) = path_to (rdf s0) j sub key \<and>
    tree_list (rdf s0) V h b = pre @ tree_list (rdf s0) V j sub @ post \<and>
    (\<forall>k \<in> fst ` set pre. unat k < l) \<and> (\<forall>k \<in> fst ` set post. u \<le> unat k) \<and>
    replaces s0 h (path_to (rdf s0) h b key) lo hi j l u pre post"
  using assms
proof (induction "h - j" arbitrary: h b lo hi)
  case 0
  then have "h = j" by simp
  then show ?case
    using 0 by (intro exI [of _ b] exI [of _ lo] exI [of _ hi] exI [of _ "[]"]) (simp add: replaces_def)
next
  case (Suc x)
  then obtain h' where h: "h = Suc h'" "j \<le> h'" by (cases h) auto
  obtain n i where n: "st_read D b s0 = Ok n" "b \<in> alive s0" "node_is_valid n" "wf_internal n"
    "wf_kids (wf_tree (rdf s0) (alive s0) V h') lo hi (int_entries n)" "sorted_keys (int_entries n)"
    "i < length (int_entries n)" "find_child n key = Some (i, snd (int_entries n ! i))"
    "wf_tree (rdf s0) (alive s0) V h' (snd (int_entries n ! i)) (kid_lo (int_entries n) lo i) (kid_hi (int_entries n) hi i)"
    "kid_lo (int_entries n) lo i \<le> unat key" "unat key < kid_hi (int_entries n) hi i"
    using descend [OF Suc.prems(1-3) [unfolded h]] by blast
  let ?es = "int_entries n" and ?f = "\<lambda>e. tree_list (rdf s0) V h' (snd e)"
  let ?c = "snd (int_entries n ! i)" and ?l = "concat (map ?f (take i ?es))" and ?r = "concat (map ?f (drop (Suc i) ?es))"
  have path: "path_to (rdf s0) h b key = (b, i) # path_to (rdf s0) h' ?c key"
    by (simp add: h n(1,8))
  have "x = h' - j" using Suc.hyps(2) h by simp
  from Suc.hyps(1) [OF this n(9,10,11) h(2)]
  obtain sub l u pre post where IH: "wf_tree (rdf s0) (alive s0) V j sub l u" "l \<le> unat key" "unat key < u"
    "kid_lo ?es lo i \<le> l" "u \<le> kid_hi ?es hi i"
    "drop (h' - j) (path_to (rdf s0) h' ?c key) = path_to (rdf s0) j sub key"
    "tree_list (rdf s0) V h' ?c = pre @ tree_list (rdf s0) V j sub @ post"
    "\<forall>k \<in> fst ` set pre. unat k < l" "\<forall>k \<in> fst ` set post. u \<le> unat k"
    "replaces s0 h' (path_to (rdf s0) h' ?c key) (kid_lo ?es lo i) (kid_hi ?es hi i) j l u pre post"
    by (elim exE conjE) (rule that)
  have "tree_list (rdf s0) V h b = (?l @ pre) @ tree_list (rdf s0) V j sub @ (post @ ?r)"
    using concat_focus [OF n(7), of ?f] IH(7) by (simp add: h n(1))
  moreover have "\<forall>k \<in> fst ` set (?l @ pre). unat k < l"
    using kids_left [OF n(5,6,7)] IH(4,8) by (fastforce simp: image_Un)
  moreover have "\<forall>k \<in> fst ` set (post @ ?r). u \<le> unat k"
    using kids_right [OF n(5,6,7)] IH(5,9) by (fastforce simp: image_Un)
  moreover have "replaces s0 h (path_to (rdf s0) h b key) lo hi j l u (?l @ pre) (post @ ?r)"
    using replaces_parent [OF n(1-5,7) IH(10) h(2)] by (simp only: path) (simp only: h(1))
  moreover have "drop (h - j) (path_to (rdf s0) h b key) = path_to (rdf s0) j sub key"
    unfolding path using IH(6) h by (simp add: Suc_diff_le)
  moreover have "lo \<le> l" "u \<le> hi"
    using kid_lo_ge [OF n(5,7)] kid_hi_le [OF n(5,7)] IH(4,5) by linarith+
  ultimately show ?case using IH(1-3) by blast
qed

subsection \<open>Search\<close>

lemma map_of_focus:
  assumes "\<forall>k \<in> fst ` set pre. unat k < l" "\<forall>k \<in> fst ` set post. u \<le> unat k" "l \<le> unat key" "unat key < u"
  shows "map_of (pre @ xs @ post) key = map_of xs key"
proof -
  have "map_of pre key = None" "map_of post key = None"
    using assms unfolding map_of_eq_None_iff by (auto simp: not_less [symmetric])
  then show ?thesis by (simp add: map_add_def split: option.splits)
qed

definition found :: "'v option \<Rightarrow> 'v search_result" where
  "found x = (case x of Some v \<Rightarrow> Found v | None \<Rightarrow> NotFound)"

lemma search_level_correct:
  "wf_tree (rdf s) (alive s) V h b lo hi \<Longrightarrow> lo \<le> unat key \<Longrightarrow> unat key < hi \<Longrightarrow>
   search_level D V h b key p s =
     Ok (found (map_of (tree_list (rdf s) V h b) key), p @ path_to (rdf s) h b key)"
proof (induction h arbitrary: b lo hi p)
  case 0
  then obtain n where n: "st_read D b s = Ok n" "node_is_valid n" "wf_leaf V n"
    by (auto split: res.splits)
  obtain r where r: "leaf_search V n key = Ok r" "pos_spec (leaf_entries V n) key r"
    using leaf_search_spec [OF n(3)] .
  show ?case
  proof (cases r)
    case (FoundAt i)
    have wf: "wf_node n" "unat (tn_item_count n) \<le> max_entries V" "sorted_keys (leaf_entries V n)"
      using n(3) by (auto simp: wf_leaf_def)
    have "map_of (leaf_entries V n) key = Some (snd (leaf_entries V n ! i))"
      using pos_spec_found [OF wf(3) r(2) [unfolded FoundAt]] .
    moreover have "get_entry V n i = Ok (Some (leaf_entries V n ! i))"
      using get_entry_at [OF wf(1), of i] wf(2) r(2) FoundAt leaf_entries_eq [OF wf(1,2)] by simp
    ultimately show ?thesis
      using n r(1) FoundAt by (simp add: found_def split_beta)
  next
    case (InsertAt i)
    then have "map_of (leaf_entries V n) key = None"
      using pos_spec_absent r(2) by (simp add: map_of_eq_None_iff)
    then show ?thesis using n r(1) InsertAt by (simp add: found_def)
  qed
next
  case (Suc h)
  obtain n i where n: "st_read D b s = Ok n" "b \<in> alive s" "node_is_valid n" "wf_internal n"
    "wf_kids (wf_tree (rdf s) (alive s) V h) lo hi (int_entries n)" "sorted_keys (int_entries n)"
    "i < length (int_entries n)" "find_child n key = Some (i, snd (int_entries n ! i))"
    "wf_tree (rdf s) (alive s) V h (snd (int_entries n ! i)) (kid_lo (int_entries n) lo i) (kid_hi (int_entries n) hi i)"
    "kid_lo (int_entries n) lo i \<le> unat key" "unat key < kid_hi (int_entries n) hi i"
    using descend [OF Suc.prems] by blast
  let ?f = "\<lambda>e. tree_list (rdf s) V h (snd e)"
  have "map_of (tree_list (rdf s) V (Suc h) b) key = map_of (?f (int_entries n ! i)) key"
  proof -
    have eq: "tree_list (rdf s) V (Suc h) b = concat (map ?f (take i (int_entries n))) @ ?f (int_entries n ! i) @
        concat (map ?f (drop (Suc i) (int_entries n)))"
      using concat_focus [OF n(7), of ?f] n(1) by simp
    have "\<forall>k \<in> fst ` set (concat (map ?f (take i (int_entries n)))). unat k < kid_lo (int_entries n) lo i"
      "\<forall>k \<in> fst ` set (concat (map ?f (drop (Suc i) (int_entries n)))). kid_hi (int_entries n) hi i \<le> unat k"
      using kids_left [OF n(5,6,7)] kids_right [OF n(5,6,7)] by blast+
    then show ?thesis unfolding eq by (rule map_of_focus [OF _ _ n(10,11)])
  qed
  then show ?case
    using n Suc.IH [OF n(9,10,11)] by (simp del: tree_list.simps)
qed

lemma tree_search_correct:
  assumes "wf_btree (rdf s) (alive s) V t"
  shows "tree_search D V t key s =
    Ok (found (map_of (btree_list (rdf s) V t) key),
        if bt_is_empty t then [] else path_to (rdf s) (unat (bt_height t)) (bt_root_block t) key)"
proof (cases "bt_is_empty t")
  case False
  then have "wf_tree (rdf s) (alive s) V (unat (bt_height t)) (bt_root_block t) 0 (2 ^ 64)"
    using assms by (simp add: wf_btree_def bt_is_empty_def)
  from search_level_correct [OF this, of key "[]"] show ?thesis
    using False unat_u64_bound [of key] by (simp add: tree_search_def btree_list_def bt_is_empty_def)
qed (simp add: tree_search_def btree_list_def bt_is_empty_def found_def)

subsection \<open>Replacing a leaf\<close>

lemma on_dev_apply: "m s = (r, s') \<Longrightarrow> on_dev m (s, t) = (r, (s', t))"
  by (simp add: on_dev_def)

lemma sbind_on_dev:
  "sbind (on_dev m) K (s, t) = (case m s of
      (Ok a, s') \<Rightarrow> K a (s', t) | (Err e, s') \<Rightarrow> (Err e, (s', t)) | (Panic, s') \<Rightarrow> (Panic, (s', t)))"
  by (auto simp: sbind_def on_dev_def split: prod.splits res.splits)

lemma on_dev_store_node:
  "sbind (on_dev (st_alloc D)) (\<lambda>b. sbind (on_dev (st_write D b nd)) (\<lambda>_. K b)) = sbind (on_dev (store_node nd)) K"
  by (auto simp: store_node_def sbind_def on_dev_def fun_eq_iff split: prod.splits res.splits)

lemma propagate_cow_eq:
  "propagate_cow D path nb (s, t) =
     (case cow_loop D (bt_generation t) (rev (butlast path)) nb s of
        (Ok b, s') \<Rightarrow> (Ok b, (s', t\<lparr>bt_root_block := b\<rparr>))
      | (Err e, s') \<Rightarrow> (Err e, (s', t)) | (Panic, s') \<Rightarrow> (Panic, (s', t)))"
proof (cases "length path \<le> 1")
  case True
  then have "butlast path = []" by (simp add: butlast_conv_take)
  then show ?thesis using True by (simp add: propagate_cow_def set_root_def)
next
  case False
  then show ?thesis
    by (auto simp: propagate_cow_def sbind_on_dev get_tree_def set_root_def split: prod.splits res.splits)
qed

text \<open>Storing a new node for the subtree at height \<open>j\<close> on the path and copying the path above it.\<close>

lemma replace_node:
  assumes rep: "replaces s0 h path lo hi j l u pre post" "rev (butlast p) = rev (take (h - j) path)"
    and s: "keeps s0 s" "room s (Suc (m + (h - j)))"
    and wfn: "wf_node nd"
    and nd: "\<And>s1 nb. keeps s s1 \<Longrightarrow> nb \<in> alive s1 \<Longrightarrow> st_read D nb s1 = Ok nd \<Longrightarrow>
      wf_tree (rdf s1) (alive s1) V j nb l u \<and> tree_list (rdf s1) V j nb = new"
    and run: "sbind (on_dev (store_node nd)) (propagate_cow D p) (s, t) = (r, (s', t'))"
  shows "r \<noteq> Panic" "keeps s s'" "room s' m"
    "r = Ok b \<Longrightarrow> t' = t\<lparr>bt_root_block := b\<rparr> \<and> b \<noteq> 0 \<and> wf_tree (rdf s') (alive s') V h b lo hi \<and>
       tree_list (rdf s') V h b = pre @ new @ post"
    "r = Err e \<Longrightarrow> t' = t \<and> e \<in> faults"
proof -
  obtain r1 s1 where r1: "store_node nd s = (r1, s1)" by fastforce
  note law = store_node_law [OF s(2) wfn r1]
  have "r \<noteq> Panic \<and> keeps s s' \<and> room s' m \<and>
    (r = Ok b \<longrightarrow> t' = t\<lparr>bt_root_block := b\<rparr> \<and> b \<noteq> 0 \<and> wf_tree (rdf s') (alive s') V h b lo hi \<and>
       tree_list (rdf s') V h b = pre @ new @ post) \<and> (r = Err e \<longrightarrow> t' = t \<and> e \<in> faults)"
  proof (cases r1)
    case (Ok nb)
    note nb = law(4) [OF Ok]
    have wf: "wf_tree (rdf s1) (alive s1) V j nb l u" and list: "tree_list (rdf s1) V j nb = new"
      using nb nd [OF law(3), of nb] by simp_all
    obtain r2 s2 where r2: "cow_loop D (bt_generation t) (rev (butlast p)) nb s1 = (r2, s2)" by fastforce
    have nz: "nb \<noteq> 0" using nb by simp
    from rep(1) [unfolded replaces_def, rule_format, OF keeps_trans [OF s(1) law(3)] law(2) nz wf r2 [unfolded rep(2)]]
    have "r2 \<noteq> Panic" "keeps s1 s2" "room s2 m" "\<And>e. r2 = Err e \<Longrightarrow> e \<in> faults"
      "\<And>b'. r2 = Ok b' \<Longrightarrow> b' \<noteq> 0 \<and> wf_tree (rdf s2) (alive s2) V h b' lo hi \<and>
        tree_list (rdf s2) V h b' = pre @ new @ post"
      unfolding list by blast+
    moreover have "(r, (s', t')) = (case (r2, s2) of
        (Ok b, s') \<Rightarrow> (Ok b, (s', t\<lparr>bt_root_block := b\<rparr>))
      | (Err e, s') \<Rightarrow> (Err e, (s', t)) | (Panic, s') \<Rightarrow> (Panic, (s', t)))"
      using run by (simp add: sbind_on_dev r1 Ok propagate_cow_eq r2)
    ultimately show ?thesis using keeps_trans [OF law(3)] by (auto split: res.splits)
  next
    case (Err e')
    then show ?thesis using run law room_diff [of s1 m "h - j"] by (auto simp: sbind_on_dev r1)
  next
    case Panic
    then show ?thesis using law(1) by simp
  qed
  then show "r \<noteq> Panic" "keeps s s'" "room s' m"
    "r = Ok b \<Longrightarrow> t' = t\<lparr>bt_root_block := b\<rparr> \<and> b \<noteq> 0 \<and> wf_tree (rdf s') (alive s') V h b lo hi \<and>
       tree_list (rdf s') V h b = pre @ new @ post"
    "r = Err e \<Longrightarrow> t' = t \<and> e \<in> faults" by blast+
qed

lemma replace_leaf:
  assumes rep: "replaces s0 h path lo hi 0 l u pre post" "length path = Suc h"
    and s: "keeps s0 s" "room s (m + Suc h)"
    and nd: "node_is_valid nd" "wf_leaf V nd" "\<forall>k \<in> fst ` set (leaf_entries V nd). l \<le> unat k \<and> unat k < u"
    and run: "sbind (on_dev (store_node nd)) (propagate_cow D path) (s, t) = (r, (s', t'))"
  shows "r \<noteq> Panic" "keeps s s'" "room s' m"
    "r = Ok b \<Longrightarrow> t' = t\<lparr>bt_root_block := b\<rparr> \<and> b \<noteq> 0 \<and> wf_tree (rdf s') (alive s') V h b lo hi \<and>
       tree_list (rdf s') V h b = pre @ leaf_entries V nd @ post"
    "r = Err e \<Longrightarrow> t' = t \<and> e \<in> faults"
proof -
  have p: "rev (butlast path) = rev (take (h - 0) path)" using rep(2) by (simp add: butlast_conv_take)
  have rm: "room s (Suc (m + (h - 0)))" using s(2) by simp
  have new: "wf_tree (rdf s1) (alive s1) V 0 nb l u \<and> tree_list (rdf s1) V 0 nb = leaf_entries V nd"
    if "keeps s s1" "nb \<in> alive s1" "st_read D nb s1 = Ok nd" for s1 nb
    using that nd by simp
  have "wf_node nd" using nd(2) by (simp add: wf_leaf_def)
  note law = replace_node [OF rep(1) p s(1) rm this new run]
  show "r \<noteq> Panic" "keeps s s'" "room s' m"
    "r = Ok b \<Longrightarrow> t' = t\<lparr>bt_root_block := b\<rparr> \<and> b \<noteq> 0 \<and> wf_tree (rdf s') (alive s') V h b lo hi \<and>
       tree_list (rdf s') V h b = pre @ leaf_entries V nd @ post"
    "r = Err e \<Longrightarrow> t' = t \<and> e \<in> faults" using law by blast+
qed

subsection \<open>Deletion\<close>

text \<open>The leaf the search ends in.\<close>

lemma leaf_on_path:
  assumes "wf_btree (rdf s) (alive s) V t" "\<not> bt_is_empty t"
  obtains n sub l u pre post where
    "tree_search D V t key s = Ok (found (map_of (btree_list (rdf s) V t) key),
       path_to (rdf s) (unat (bt_height t)) (bt_root_block t) key)"
    "length (path_to (rdf s) (unat (bt_height t)) (bt_root_block t) key) = Suc (unat (bt_height t))"
    "path_leaf_block (path_to (rdf s) (unat (bt_height t)) (bt_root_block t) key) = Some sub"
    "st_read D sub s = Ok n" "sub \<in> alive s" "node_is_valid n" "wf_leaf V n"
    "\<forall>k \<in> fst ` set (leaf_entries V n). l \<le> unat k \<and> unat k < u" "l \<le> unat key" "unat key < u"
    "btree_list (rdf s) V t = pre @ leaf_entries V n @ post"
    "\<forall>k \<in> fst ` set pre. unat k < l" "\<forall>k \<in> fst ` set post. u \<le> unat k"
    "map_of (btree_list (rdf s) V t) key = map_of (leaf_entries V n) key"
    "replaces s (unat (bt_height t)) (path_to (rdf s) (unat (bt_height t)) (bt_root_block t) key)
       0 (2 ^ 64) 0 l u pre post"
proof -
  let ?h = "unat (bt_height t)" and ?b = "bt_root_block t"
  have wf: "wf_tree (rdf s) (alive s) V ?h ?b 0 (2 ^ 64)" and key: "0 \<le> unat key" "unat key < 2 ^ 64"
    using assms unat_u64_bound [of key] by (auto simp: wf_btree_def bt_is_empty_def)
  note len = length_path_to [OF wf key]
  from focus [OF wf key le0] obtain sub l u pre post where f:
    "wf_tree (rdf s) (alive s) V 0 sub l u" "l \<le> unat key" "unat key < u"
    "drop (?h - 0) (path_to (rdf s) ?h ?b key) = path_to (rdf s) 0 sub key"
    "tree_list (rdf s) V ?h ?b = pre @ tree_list (rdf s) V 0 sub @ post"
    "\<forall>k \<in> fst ` set pre. unat k < l" "\<forall>k \<in> fst ` set post. u \<le> unat k"
    "replaces s ?h (path_to (rdf s) ?h ?b key) 0 (2 ^ 64) 0 l u pre post"
    by (elim exE conjE) (rule that)
  obtain n where n: "st_read D sub s = Ok n" "sub \<in> alive s" "node_is_valid n" "wf_leaf V n"
      "\<forall>k \<in> fst ` set (leaf_entries V n). l \<le> unat k \<and> unat k < u"
    using f(1) by (auto split: res.splits)
  have "path_to (rdf s) ?h ?b key = take ?h (path_to (rdf s) ?h ?b key) @ [(sub, 0)]"
    using f(4) append_take_drop_id [of ?h "path_to (rdf s) ?h ?b key"] by simp
  then have leaf: "path_leaf_block (path_to (rdf s) ?h ?b key) = Some sub"
    by (metis append_is_Nil_conv fst_conv last_snoc list.distinct(1) path_leaf_block_def)
  have list: "btree_list (rdf s) V t = pre @ leaf_entries V n @ post"
    using f(5) n(1) assms(2) by (simp add: btree_list_def bt_is_empty_def)
  have "map_of (btree_list (rdf s) V t) key = map_of (leaf_entries V n) key"
    unfolding list by (rule map_of_focus [OF f(6,7,2,3)])
  then show ?thesis
    using that [OF _ len leaf n f(2,3) list f(6,7) _ f(8)] tree_search_correct [OF assms(1)] assms(2) by simp
qed

lemma del_list_focus:
  assumes "\<forall>k \<in> fst ` set pre. unat k < l" "\<forall>k \<in> fst ` set post. u \<le> unat k" "l \<le> unat key" "unat key < u"
  shows "del_list key (pre @ xs @ post) = pre @ del_list key xs @ post"
proof -
  have "key \<notin> fst ` set pre" "key \<notin> fst ` set post" using assms by auto
  then show ?thesis by (simp add: del_list_append del_list_absent)
qed

lemma ins_list_focus:
  assumes "\<forall>k \<in> fst ` set pre. unat k < l" "\<forall>k \<in> fst ` set post. u \<le> unat k" "l \<le> unat key" "unat key < u"
  shows "ins_list key v (pre @ xs @ post) = pre @ ins_list key v xs @ post"
proof (rule ins_list_append)
  show "\<forall>k' \<in> fst ` set pre. k' < key" "\<forall>k' \<in> fst ` set post. key < k'"
    using assms by (auto simp: word_less_nat_alt)
qed

lemma tree_delete_law:
  assumes wf: "wf_btree (rdf s) (alive s) V t" and room: "room s (m + Suc (unat (bt_height t)))"
    and run: "tree_delete D V key (s, t) = (r, (s', t'))"
  shows "r \<noteq> Panic \<and> keeps s s' \<and> room s' m \<and> bt_height t' = bt_height t \<and>
    (case r of
       Ok v \<Rightarrow> map_of (btree_list (rdf s) V t) key = Some v \<and> \<not> bt_is_empty t' \<and> wf_btree (rdf s') (alive s') V t' \<and>
         btree_list (rdf s') V t' = del_list key (btree_list (rdf s) V t)
     | Err e \<Rightarrow> bt_root_block t' = bt_root_block t \<and>
         (case map_of (btree_list (rdf s) V t) key of
            None \<Rightarrow> e = (if bt_is_empty t then EmptyTree else KeyNotFound) | Some _ \<Rightarrow> e \<in> faults)
     | Panic \<Rightarrow> False)"
proof (cases "bt_is_empty t")
  case True
  then show ?thesis
    using run room_diff [OF room] by (auto simp: tree_delete_def get_tree_def btree_list_def bt_is_empty_def)
next
  case False
  let ?path = "path_to (rdf s) (unat (bt_height t)) (bt_root_block t) key" and ?g = "bt_generation t + 1"
  let ?list = "btree_list (rdf s) V t"
  obtain n sub l u pre post where leaf:
    "tree_search D V t key s = Ok (found (map_of ?list key), ?path)"
    "length ?path = Suc (unat (bt_height t))" "path_leaf_block ?path = Some sub"
    "st_read D sub s = Ok n" "sub \<in> alive s" "node_is_valid n" "wf_leaf V n"
    "\<forall>k \<in> fst ` set (leaf_entries V n). l \<le> unat k \<and> unat k < u" "l \<le> unat key" "unat key < u"
    "?list = pre @ leaf_entries V n @ post"
    "\<forall>k \<in> fst ` set pre. unat k < l" "\<forall>k \<in> fst ` set post. u \<le> unat k"
    "map_of ?list key = map_of (leaf_entries V n) key"
    "replaces s (unat (bt_height t)) ?path 0 (2 ^ 64) 0 l u pre post"
    using leaf_on_path [OF wf False] .
  show ?thesis
  proof (cases "map_of ?list key")
    case None
    then show ?thesis
      using run leaf(1) False room_diff [OF room]
      by (auto simp: tree_delete_def get_tree_def sbind_on_dev found_def)
  next
    case (Some v)
    then have "map_of (leaf_entries V (n\<lparr>tn_generation := ?g\<rparr>)) key = Some v" using leaf(14) by simp
    then obtain d where d:
      "leaf_delete V (n\<lparr>tn_generation := ?g\<rparr>) key =
         Ok (v, n\<lparr>tn_generation := ?g\<rparr>\<lparr>tn_data := d, tn_item_count := tn_item_count n - 1\<rparr>)"
      "wf_leaf V (n\<lparr>tn_generation := ?g\<rparr>\<lparr>tn_data := d, tn_item_count := tn_item_count n - 1\<rparr>)"
      "leaf_entries V (n\<lparr>tn_generation := ?g\<rparr>\<lparr>tn_data := d, tn_item_count := tn_item_count n - 1\<rparr>) =
         del_list key (leaf_entries V n)"
      using leaf_delete_present [of "n\<lparr>tn_generation := ?g\<rparr>" key v] leaf(7) by auto
    let ?nd = "update_crc (n\<lparr>tn_generation := ?g\<rparr>\<lparr>tn_data := d, tn_item_count := tn_item_count n - 1\<rparr>)"
    let ?t = "t\<lparr>bt_generation := ?g\<rparr>"
    obtain r1 s1 t1 where r1:
      "sbind (on_dev (store_node ?nd)) (propagate_cow D ?path) (s, ?t) = (r1, (s1, t1))" by (metis surj_pair)
    have "tree_delete D V key (s, t) =
        sbind (sbind (on_dev (store_node ?nd)) (propagate_cow D ?path)) (\<lambda>_. ret v) (s, ?t)"
      using leaf(1,3,4) False Some
      by (simp add: tree_delete_def get_tree_def sbind_on_dev [of "\<lambda>s. (tree_search D V t key s, s)"]
          sbind_on_dev [of "dev_read D sub"] dev_read_def found_def next_generation_def
          d(1) Let_def on_dev_store_node sbind_assoc)
    then have res: "(r, (s', t')) = (case r1 of Ok _ \<Rightarrow> Ok v | Err e \<Rightarrow> Err e | Panic \<Rightarrow> Panic, (s1, t1))"
      using run r1 by (cases r1) simp_all
    have valid: "node_is_valid ?nd"
      using leaf(6) by (intro update_crc_valid) (simp add: node_is_valid_def tn_node_type_def)
    have nd: "wf_leaf V ?nd" "leaf_entries V ?nd = del_list key (leaf_entries V n)" using d(2,3) by simp_all
    then have "\<forall>k \<in> fst ` set (leaf_entries V ?nd). l \<le> unat k \<and> unat k < u"
      using leaf(8) by (simp only: set_keys_del_list) blast
    note law = replace_leaf [OF leaf(15,2) keeps_refl room valid nd(1) this r1]
    show ?thesis
    proof (cases r1)
      case (Ok b)
      note new = law(4) [OF Ok]
      then have t1: "t1 = t\<lparr>bt_generation := ?g, bt_root_block := b\<rparr>" "b \<noteq> 0" by simp_all
      have "btree_list (rdf s1) V t1 = pre @ del_list key (leaf_entries V n) @ post"
        using new t1 nd(2) by (simp add: btree_list_def)
      also have "\<dots> = del_list key ?list"
        unfolding leaf(11) by (rule del_list_focus [OF leaf(12,13,9,10), symmetric])
      finally have "btree_list (rdf s1) V t1 = del_list key ?list" .
      moreover have "wf_btree (rdf s1) (alive s1) V t1" using new t1 by (simp add: wf_btree_def)
      ultimately show ?thesis using law(2,3) res Ok Some t1 by (simp add: bt_is_empty_def)
    next
      case (Err e)
      then show ?thesis using law(2,3,5) res Some by simp
    next
      case Panic
      then show ?thesis using law(1) by simp
    qed
  qed
qed

end

end
