(* ===== verification/Wfs_Cow_Insert.thy ===== *)
theory Wfs_Cow_Insert
  imports Wfs_Cow
begin

text \<open>
  Insertion into the copy-on-write B+tree, with and without a leaf split, in the context of the
  store and value contracts of \<open>Wfs_Cow\<close>.
\<close>

text \<open>The parent of the leaf that covers \<open>key\<close> has no room for another child: the case in which
  \<open>propagate_split\<close> gives up.\<close>

definition parent_full :: "(u64 \<Rightarrow> (tree_error, tree_node) res) \<Rightarrow> bplus_tree \<Rightarrow> u64 \<Rightarrow> bool" where
  "parent_full rd t key \<longleftrightarrow> 0 < unat (bt_height t) \<and>
     (case rd (fst (path_to rd (unat (bt_height t)) (bt_root_block t) key ! (unat (bt_height t) - 1))) of
        Ok n \<Rightarrow> MAX_INTERNAL_ENTRIES \<le> unat (tn_item_count n)
      | Err _ \<Rightarrow> False | Panic \<Rightarrow> False)"

context cow_tree
begin

subsection \<open>Insertion with a split\<close>

lemma wf_kids_split:
  assumes "wf_kids P lo hi es" "i < length es" "kid_lo es lo i < unat sk" "unat sk < kid_hi es hi i"
    and "\<And>c l u. P c l u \<Longrightarrow> Q c l u"
    and "Q c1 (kid_lo es lo i) (unat sk)" "Q c2 (unat sk) (kid_hi es hi i)"
  shows "wf_kids Q lo hi (take i es @ (fst (es ! i), c1) # (sk, c2) # drop (Suc i) es)" (is "wf_kids Q lo hi ?es")
proof -
  have len: "length ?es = Suc (length es)" using assms(2) by simp
  have nth: "?es ! j = (if j < i then es ! j else if j = i then (fst (es ! i), c1)
      else if j = Suc i then (sk, c2) else es ! (j - 1))" if "j < length ?es" for j
  proof -
    have "Suc (j - 2) = j - Suc 0" if "\<not> j < i" "j \<noteq> i" "j \<noteq> Suc i" using that by arith
    then show ?thesis using that assms(2) by (auto simp: nth_append nth_Cons')
  qed
  have kid: "kid_lo ?es lo j < kid_hi ?es hi j \<and> Q (snd (?es ! j)) (kid_lo ?es lo j) (kid_hi ?es hi j)"
    if j: "j < length ?es" for j
  proof -
    consider "j < i" | "j = i" | "j = Suc i" | "Suc i < j" by linarith
    then show ?thesis
    proof cases
      case 1
      have "fst (?es ! Suc j) = fst (es ! Suc j)" using 1 assms(2) nth [of "Suc j"] by (cases "Suc j = i") auto
      then have "kid_lo ?es lo j = kid_lo es lo j" "kid_hi ?es hi j = kid_hi es hi j" "?es ! j = es ! j"
        using 1 assms(2) nth [of j] len by (simp_all add: kid_lo_def kid_hi_def)
      then show ?thesis using assms(1,5) 1 assms(2) by (simp add: wf_kids_def)
    next
      case 2
      then have "kid_lo ?es lo j = kid_lo es lo i" "kid_hi ?es hi j = unat sk" "snd (?es ! j) = c1"
        using assms(2) nth [of j] nth [of "Suc j"] by (auto simp: kid_lo_def kid_hi_def)
      then show ?thesis using assms(3,6) by simp
    next
      case 3
      then have "kid_lo ?es lo j = unat sk" "kid_hi ?es hi j = kid_hi es hi i" "snd (?es ! j) = c2"
        using assms(2) nth [of j] nth [of "Suc j"] by (auto simp: kid_lo_def kid_hi_def)
      then show ?thesis using assms(4,7) by simp
    next
      case 4
      then have "kid_lo ?es lo j = kid_lo es lo (j - 1)" "kid_hi ?es hi j = kid_hi es hi (j - 1)" "?es ! j = es ! (j - 1)"
        using assms(2) j nth [of j] nth [of "Suc j"] by (auto simp: kid_lo_def kid_hi_def)
      then show ?thesis using assms(1,5) 4 j len by (simp add: wf_kids_def)
    qed
  qed
  have "fst (?es ! 0) = fst (es ! 0)" using nth [of 0] len by auto
  then show ?thesis using kid assms(1) by (simp add: wf_kids_def)
qed

text \<open>The split key goes right after the child that was split.\<close>

lemma ins_list_after:
  assumes "wf_kids P lo hi es" "sorted_keys es" "i < length es" "kid_lo es lo i < unat sk" "unat sk < kid_hi es hi i"
  shows "ins_list sk c2 (es[i := (fst (es ! i), c1)]) = take i es @ (fst (es ! i), c1) # (sk, c2) # drop (Suc i) es"
    "sk \<notin> fst ` set es"
proof -
  let ?es = "es[i := (fst (es ! i), c1)]"
  have keys: "map fst ?es = map fst es" using assms(3) by (simp add: map_update list_update_same_conv)
  have es: "?es = take (Suc i) ?es @ drop (Suc i) es" "take (Suc i) ?es = take i es @ [(fst (es ! i), c1)]"
    using assms(3) by (simp_all add: take_Suc_conv_app_nth upd_conv_take_nth_drop)
  have low: "fst (es ! j) < sk" if "j < Suc i" for j
  proof -
    have "unat (fst (es ! i)) \<le> kid_lo es lo i"
      using assms(1) by (cases i) (auto simp: kid_lo_def wf_kids_def)
    then have "fst (es ! i) < sk" using assms(4) by (simp add: word_less_nat_alt)
    then show ?thesis
      using sorted_wrt_nth_less [OF assms(2), of j i] that assms(3) by (cases "j = i") (auto dest: order.strict_trans)
  qed
  have high: "sk < fst (es ! j)" if "Suc i \<le> j" "j < length es" for j
  proof -
    have "sk < fst (es ! Suc i)" using assms(5) that by (simp add: kid_hi_def word_less_nat_alt)
    then show ?thesis
      using sorted_wrt_nth_less [OF assms(2), of "Suc i" j] that by (cases "j = Suc i") (auto dest: order.strict_trans)
  qed
  have "\<forall>k \<in> fst ` set (take (Suc i) es). k < sk" "\<forall>k \<in> fst ` set (drop (Suc i) es). sk < k"
    unfolding keys_drop keys_take [OF Suc_leI [OF assms(3)]] using low high by blast+
  moreover have "fst ` set (take (Suc i) ?es) = fst ` set (take (Suc i) es)"
    by (metis keys set_map take_map)
  moreover have "sorted_keys (take (Suc i) ?es @ drop (Suc i) es)" using es(1) keys assms(2) by metis
  ultimately have "ins_list sk c2 (take (Suc i) ?es @ drop (Suc i) es) = take (Suc i) ?es @ (sk, c2) # drop (Suc i) es"
    by (intro ins_list_split) simp_all
  then show "ins_list sk c2 ?es = take i es @ (fst (es ! i), c1) # (sk, c2) # drop (Suc i) es"
    using es by simp
  show "sk \<notin> fst ` set es"
  proof
    assume "sk \<in> fst ` set es"
    then obtain j where "j < length es" "fst (es ! j) = sk" by (auto simp: in_set_conv_nth)
    then show False using low [of j] high [of j] by (cases "j < Suc i") auto
  qed
qed

text \<open>Storing two nodes: both blocks are allocated before either is written.\<close>

definition store_two :: "tree_node \<Rightarrow> tree_node \<Rightarrow> ('s, tree_error, u64 \<times> u64) op" where
  "store_two nd1 nd2 =
     sbind (st_alloc D) (\<lambda>b1. sbind (st_alloc D) (\<lambda>b2.
     sbind (st_write D b1 nd1) (\<lambda>_. sbind (st_write D b2 nd2) (\<lambda>_. ret (b1, b2)))))"

lemma store_two_law:
  assumes "room s (Suc (Suc m))" "store_two nd1 nd2 s = (r, s')" "wf_node nd1" "wf_node nd2"
  shows "r \<noteq> Panic \<and> room s' m \<and> keeps s s' \<and> (\<forall>e. r = Err e \<longrightarrow> e \<in> faults) \<and>
    (\<forall>b1 b2. r = Ok (b1, b2) \<longrightarrow> b1 \<noteq> 0 \<and> b2 \<noteq> 0 \<and> b1 \<in> alive s' \<and> b2 \<in> alive s' \<and>
       st_read D b1 s' = Ok nd1 \<and> st_read D b2 s' = Ok nd2)"
proof -
  obtain ra sa where a: "st_alloc D s = (ra, sa)" by fastforce
  note al = alloc_keeps [OF assms(1) a]
  obtain rb sb where b: "st_alloc D sa = (rb, sb)" by fastforce
  note bl = alloc_keeps [OF al(2) b]
  note kb = keeps_trans [OF al(3) bl(3)]
  show ?thesis
  proof (cases "\<exists>b1 b2. ra = Ok b1 \<and> rb = Ok b2")
    case False
    then show ?thesis
      using assms(2) al bl kb room_less by (auto simp: store_two_def sbind_def a b split: res.splits)
  next
    case True
    then obtain b1 b2 where ok: "ra = Ok b1" "rb = Ok b2" by blast
    note f1 = al(4) [OF ok(1)] and f2 = bl(4) [OF ok(2)]
    obtain rc sc where c: "st_write D b1 nd1 sb = (rc, sc)" by fastforce
    have b1: "b1 \<in> alive sb" "b2 \<noteq> b1" using f1 f2 keeps_alive [OF bl(3)] by auto
    note cl = write_law [OF b1(1) assms(3) bl(2) c] and ck = write_fresh [OF kb assms(3) bl(2) c _ b1(1)]
    have b2: "b2 \<in> alive sc" using cl f2 b1(2) by (auto simp: same_on_def)
    obtain rd sd where d: "st_write D b2 nd2 sc = (rd, sd)" by fastforce
    have fresh2: "b2 \<notin> alive s" using f2 keeps_alive [OF al(3)] by blast
    have rc: "room sc m" using ck(2) f1 by blast
    note dl = write_law [OF b2 assms(4) rc d] and dk = write_fresh [OF ck(3) assms(4) rc d fresh2 b2]
    have keep1: "b1 \<in> alive sd \<and> st_read D b1 sd = st_read D b1 sc"
      using dl ck(4) f1 b1(2) by (auto simp: same_on_def)
    show ?thesis
    proof (cases rc)
      case (Ok x)
      have "(r, s') = (case rd of Ok _ \<Rightarrow> Ok (b1, b2) | Err e \<Rightarrow> Err e | Panic \<Rightarrow> Panic, sd)"
        using assms(2) ok Ok by (auto simp: store_two_def sbind_def a b c d split: res.splits)
      moreover have "room sd m" using dk(2) f1 by blast
      ultimately show ?thesis
        using dk(1,3,4,5,6) f1 f2 keep1 ck(5) Ok by (cases rd) auto
    next
      case (Err e)
      then show ?thesis
        using assms(2) ok ck f1 bl(2) by (auto simp: store_two_def sbind_def a b c)
    next
      case Panic
      then show ?thesis using ck(1) f1 by simp
    qed
  qed
qed

text \<open>Splitting the root: a new root with two children.\<close>

lemma int_entries_new [simp]: "int_entries (TreeNode_new ty lv g) = []"
  by (simp add: int_entries_def TreeNode_new_def)

lemma wf_internal_new: "wf_internal (TreeNode_new ty lv g)"
  by (simp add: wf_internal_def wf_node_def) (simp add: TreeNode_new_def)

lemma new_root_node:
  assumes "0 < unat sk"
  obtains n1 n2 where
    "int_insert (TreeNode_new ty 1 g) 0 b1 = Ok n1" "int_insert n1 sk b2 = Ok n2"
    "wf_internal n2" "int_entries n2 = [(0, b1), (sk, b2)]" "tn_magic n2 = node_type_magic ty"
proof -
  let ?n0 = "TreeNode_new ty 1 g"
  have c0: "tn_item_count ?n0 = 0" "tn_magic ?n0 = node_type_magic ty" by (simp_all add: TreeNode_new_def)
  obtain d1 where d1: "int_insert ?n0 0 b1 = Ok (?n0\<lparr>tn_data := d1, tn_item_count := tn_item_count ?n0 + 1\<rparr>)"
    "wf_internal (?n0\<lparr>tn_data := d1, tn_item_count := tn_item_count ?n0 + 1\<rparr>)"
    "int_entries (?n0\<lparr>tn_data := d1, tn_item_count := tn_item_count ?n0 + 1\<rparr>) = ins_list 0 b1 []"
    using int_insert_new [OF wf_internal_new, of ty 1 g 0 b1] c0 by auto
  let ?n1 = "?n0\<lparr>tn_data := d1, tn_item_count := tn_item_count ?n0 + 1\<rparr>"
  have "sk \<noteq> 0" using assms by auto
  then have "sk \<notin> fst ` set (int_entries ?n1)" using d1(3) by simp
  moreover have "unat (tn_item_count ?n1) < MAX_INTERNAL_ENTRIES" by (simp add: c0)
  ultimately obtain d2 where d2:
    "int_insert ?n1 sk b2 = Ok (?n1\<lparr>tn_data := d2, tn_item_count := tn_item_count ?n1 + 1\<rparr>)"
    "wf_internal (?n1\<lparr>tn_data := d2, tn_item_count := tn_item_count ?n1 + 1\<rparr>)"
    "int_entries (?n1\<lparr>tn_data := d2, tn_item_count := tn_item_count ?n1 + 1\<rparr>) = ins_list sk b2 (int_entries ?n1)"
    using int_insert_new [OF d1(2)] by blast
  have "ins_list sk b2 [(0, b1)] = [(0, b1), (sk, b2)]" using \<open>sk \<noteq> 0\<close> by simp
  then show ?thesis
    using that [OF d1(1) d2(1,2)] d1(3) d2(3) c0(2) by simp
qed

lemma split_root_law:
  assumes t: "bt_height t = 0" and p: "length path \<le> 1" and room: "room s (Suc m)" and sk: "0 < unat sk" "unat sk < 2 ^ 64"
    and kids: "wf_tree (rdf s) (alive s) V 0 b1 0 (unat sk)" "wf_tree (rdf s) (alive s) V 0 b2 (unat sk) (2 ^ 64)"
    and run: "propagate_split D path b1 sk b2 (s, t) = (r, (s', t'))"
  shows "r \<noteq> Panic \<and> keeps s s' \<and> room s' m \<and>
    (case r of
       Ok b \<Rightarrow> b \<noteq> 0 \<and> t' = t\<lparr>bt_root_block := b, bt_height := 1\<rparr> \<and> wf_tree (rdf s') (alive s') V 1 b 0 (2 ^ 64) \<and>
         tree_list (rdf s') V 1 b = tree_list (rdf s) V 0 b1 @ tree_list (rdf s) V 0 b2
     | Err e \<Rightarrow> t' = t \<and> e \<in> faults | Panic \<Rightarrow> False)"
proof -
  obtain n1 n2 where n: "int_insert (TreeNode_new (bt_node_type t) 1 (bt_generation t)) 0 b1 = Ok n1"
    "int_insert n1 sk b2 = Ok n2" "wf_internal n2" "int_entries n2 = [(0, b1), (sk, b2)]"
    "tn_magic n2 = node_type_magic (bt_node_type t)"
    using new_root_node [OF sk(1)] .
  let ?nd = "update_crc n2"
  have nd: "node_is_valid ?nd" "int_entries ?nd = [(0, b1), (sk, b2)]" "wf_internal ?nd"
  proof -
    show i: "int_entries ?nd = [(0, b1), (sk, b2)]" using n(4) int_entries_cong [of ?nd n2] by simp
    show "node_is_valid ?nd" using n(5) by (intro update_crc_valid) (simp add: tn_node_type_def)
    show "wf_internal ?nd" using n(3,4) i by (simp add: wf_internal_def)
  qed
  obtain r1 s1 where r1: "store_node ?nd s = (r1, s1)" by fastforce
  have "wf_node ?nd" using nd(3) by (simp add: wf_internal_def)
  note law = store_node_law [OF room this r1]
  have eq: "propagate_split D path b1 sk b2 (s, t) =
      (case (r1, s1) of
         (Ok b, s') \<Rightarrow> (Ok b, (s', t\<lparr>bt_root_block := b, bt_height := 1\<rparr>))
       | (Err e, s') \<Rightarrow> (Err e, (s', t)) | (Panic, s') \<Rightarrow> (Panic, (s', t)))"
    using p t n(1,2) r1
    by (auto simp: propagate_split_def sbind_on_dev get_tree_def new_internal_def store_node_def
        sbind_def [of "st_alloc D"] sbind_def [of "st_write D _ _"] split: prod.splits res.splits)
  show ?thesis
  proof (cases r1)
    case (Ok b)
    note b = law(4) [OF Ok]
    note k1 = wf_tree_keeps [OF kids(1) law(3)] and k2 = wf_tree_keeps [OF kids(2) law(3)]
    have "wf_kids (wf_tree (rdf s1) (alive s1) V 0) 0 (2 ^ 64) [(0, b1), (sk, b2)]"
      using k1 k2 sk by (simp add: wf_kids_def kid_lo_def kid_hi_def All_less_Suc2 numeral_2_eq_2 del: wf_tree.simps)
    then have "wf_tree (rdf s1) (alive s1) V 1 b 0 (2 ^ 64)"
      using b nd by (simp add: One_nat_def del: wf_tree.simps(1))
    moreover have "tree_list (rdf s1) V 1 b = tree_list (rdf s) V 0 b1 @ tree_list (rdf s) V 0 b2"
      using b nd(2) tree_list_keeps [OF kids(1) law(3)] tree_list_keeps [OF kids(2) law(3)]
      by (simp add: One_nat_def del: tree_list.simps(1))
    ultimately show ?thesis using run eq Ok b law(2,3) by auto
  next
    case (Err e)
    then show ?thesis using run eq law by auto
  next
    case Panic
    then show ?thesis using law(1) by simp
  qed
qed

text \<open>Splitting a leaf below a parent: the parent gets one more child, or is full.\<close>

lemma split_parent_law:
  assumes par: "st_read D sub s0 = Ok n" "sub \<in> alive s0" "node_is_valid n" "wf_internal n"
      "wf_kids (wf_tree (rdf s0) (alive s0) V 0) lo hi (int_entries n)" "sorted_keys (int_entries n)" "i < length (int_entries n)"
    and rep: "replaces s0 h path 0 (2 ^ 64) (Suc 0) lo hi pre post"
    and path: "length path = Suc h" "0 < h" "path ! (h - 1) = (sub, i)"
    and s: "keeps s0 s" "room s (m + h)"
    and sk: "kid_lo (int_entries n) lo i < unat sk" "unat sk < kid_hi (int_entries n) hi i"
    and kids: "wf_tree (rdf s) (alive s) V 0 b1 (kid_lo (int_entries n) lo i) (unat sk)"
      "wf_tree (rdf s) (alive s) V 0 b2 (unat sk) (kid_hi (int_entries n) hi i)"
    and run: "propagate_split D path b1 sk b2 (s, t) = (r, (s', t'))"
  shows "r \<noteq> Panic \<and> keeps s s' \<and> room s' m \<and>
    (case r of
       Ok b \<Rightarrow> b \<noteq> 0 \<and> t' = t\<lparr>bt_root_block := b\<rparr> \<and> wf_tree (rdf s') (alive s') V h b 0 (2 ^ 64) \<and>
         tree_list (rdf s') V h b =
           pre @ (concat (map (\<lambda>e. tree_list (rdf s0) V 0 (snd e)) (take i (int_entries n))) @
             (tree_list (rdf s) V 0 b1 @ tree_list (rdf s) V 0 b2) @
             concat (map (\<lambda>e. tree_list (rdf s0) V 0 (snd e)) (drop (Suc i) (int_entries n)))) @ post
     | Err e \<Rightarrow> t' = t \<and> (e \<in> faults \<or> e = NodeFull \<and> MAX_INTERNAL_ENTRIES \<le> unat (tn_item_count n)) | Panic \<Rightarrow> False)"
proof -
  let ?es = "int_entries n" and ?f = "\<lambda>e. tree_list (rdf s0) V 0 (snd e)"
  obtain d where d: "int_set_entry n i (fst (?es ! i)) b1 = Ok (n\<lparr>tn_data := d\<rparr>)"
      "wf_internal (n\<lparr>tn_data := d\<rparr>)" "int_entries (n\<lparr>tn_data := d\<rparr>) = ?es[i := (fst (?es ! i), b1)]"
    using int_set_entry_child [OF par(4)] par(7) by auto
  have read: "st_read D sub s = Ok n" using keeps_read [OF s(1) par(2)] par(1) by simp
  have key: "get_key n i = Some (fst (?es ! i))" using get_key_entries(1) [OF par(4)] par(7) by simp
  have idx: "length path - 2 = h - 1" "path ! (length path - 2) = (sub, i)" "\<not> length path \<le> 1"
    using path by (simp_all add: numeral_2_eq_2)
  have head: "propagate_split D path b1 sk b2 (s, t) =
    (if unat (tn_item_count n) < MAX_INTERNAL_ENTRIES then
       sbind (lift_res (int_insert (n\<lparr>tn_data := d\<rparr>) sk b2)) (\<lambda>parent.
       sbind get_tree (\<lambda>tree.
       sbind (on_dev (store_node (update_crc (parent\<lparr>tn_generation := bt_generation tree\<rparr>))))
         (propagate_cow D (take (h - 1) path @ [(sub, i)])))) (s, t)
     else (Err NodeFull, (s, t)))"
    using idx read key d(1)
    by (simp add: propagate_split_def sbind_on_dev [of "dev_read D sub"] dev_read_def Let_def on_dev_store_node)
  show ?thesis
  proof (cases "unat (tn_item_count n) < MAX_INTERNAL_ENTRIES")
    case False
    then show ?thesis using run head room_diff [OF s(2)] by auto
  next
    case True
    note ins = ins_list_after [OF par(5,6,7) sk]
    have "sk \<notin> fst ` set (int_entries (n\<lparr>tn_data := d\<rparr>))"
    proof -
      have "map fst (?es[i := (fst (?es ! i), b1)]) = map fst ?es"
        using par(7) by (simp add: map_update list_update_same_conv del: length_int_entries)
      then have "fst ` set (?es[i := (fst (?es ! i), b1)]) = fst ` set ?es" by (metis set_map)
      then show ?thesis using ins(2) d(3) by simp
    qed
    then obtain d2 where d2:
      "int_insert (n\<lparr>tn_data := d\<rparr>) sk b2 = Ok (n\<lparr>tn_data := d2, tn_item_count := tn_item_count n + 1\<rparr>)"
      "wf_internal (n\<lparr>tn_data := d2, tn_item_count := tn_item_count n + 1\<rparr>)"
      "int_entries (n\<lparr>tn_data := d2, tn_item_count := tn_item_count n + 1\<rparr>) =
        take i ?es @ (fst (?es ! i), b1) # (sk, b2) # drop (Suc i) ?es"
      using int_insert_new [OF d(2), of sk b2] True ins(1) d(3) by auto
    let ?n2 = "n\<lparr>tn_data := d2, tn_item_count := tn_item_count n + 1\<rparr>"
    let ?nd = "update_crc (?n2\<lparr>tn_generation := bt_generation t\<rparr>)"
    have "tn_node_type ?n2 \<noteq> None" using par(3) by (simp add: node_is_valid_def tn_node_type_def)
    note nd = stamped_node [OF this, where g = "bt_generation t"]
    have wfn: "wf_node ?nd" using d2(2) nd(4) by (simp add: wf_internal_def)
    have run': "sbind (on_dev (store_node ?nd)) (propagate_cow D (take (h - 1) path @ [(sub, i)])) (s, t) = (r, (s', t'))"
      using run head True d2(1) by (simp add: get_tree_def)
    have p: "rev (butlast (take (h - 1) path @ [(sub, i)])) = rev (take (h - Suc 0) path)" by simp
    have rm: "room s (Suc (m + (h - Suc 0)))" using s(2) path(2) by simp
    let ?new = "concat (map ?f (take i ?es)) @ (tree_list (rdf s) V 0 b1 @ tree_list (rdf s) V 0 b2) @
      concat (map ?f (drop (Suc i) ?es))"
    have new: "wf_tree (rdf s1) (alive s1) V (Suc 0) nb lo hi \<and> tree_list (rdf s1) V (Suc 0) nb = ?new"
      if k: "keeps s s1" and nb: "nb \<in> alive s1" "st_read D nb s1 = Ok ?nd" for s1 nb
    proof
      note k0 = keeps_trans [OF s(1) k]
      have ent: "int_entries ?nd = take i ?es @ (fst (?es ! i), b1) # (sk, b2) # drop (Suc i) ?es"
        using nd(2) d2(3) by simp
      have "wf_kids (wf_tree (rdf s1) (alive s1) V 0) lo hi (take i ?es @ (fst (?es ! i), b1) # (sk, b2) # drop (Suc i) ?es)"
      proof (rule wf_kids_split [OF par(5,7) sk])
        show "wf_tree (rdf s1) (alive s1) V 0 b1 (kid_lo ?es lo i) (unat sk)"
          "wf_tree (rdf s1) (alive s1) V 0 b2 (unat sk) (kid_hi ?es hi i)"
          using wf_tree_keeps [OF _ k] kids by blast+
      qed (rule wf_tree_keeps [OF _ k0])
      then show "wf_tree (rdf s1) (alive s1) V (Suc 0) nb lo hi"
        using nb nd(1,4) d2(2) ent by simp
      have same: "tree_list (rdf s1) V 0 (snd e) = ?f e" if e: "e \<in> set ?es" for e
      proof -
        obtain l u where "wf_tree (rdf s0) (alive s0) V 0 (snd e) l u" using wf_kids_mem [OF par(5) e] .
        then show ?thesis by (rule tree_list_keeps [OF _ k0])
      qed
      have maps: "map (\<lambda>e. tree_list (rdf s1) V 0 (snd e)) (take i ?es) = map ?f (take i ?es)"
        "map (\<lambda>e. tree_list (rdf s1) V 0 (snd e)) (drop (Suc i) ?es) = map ?f (drop (Suc i) ?es)"
        using same by (auto dest: in_set_takeD in_set_dropD simp del: tree_list.simps)
      have "tree_list (rdf s1) V (Suc 0) nb =
          concat (map (\<lambda>e. tree_list (rdf s1) V 0 (snd e)) (take i ?es)) @
          (tree_list (rdf s1) V 0 b1 @ tree_list (rdf s1) V 0 b2) @
          concat (map (\<lambda>e. tree_list (rdf s1) V 0 (snd e)) (drop (Suc i) ?es))"
        using nb(2) ent by (simp del: tree_list.simps(1))
      then show "tree_list (rdf s1) V (Suc 0) nb = ?new"
        unfolding maps tree_list_keeps [OF kids(1) k] tree_list_keeps [OF kids(2) k] .
    qed
    have law: "r \<noteq> Panic" "keeps s s'" "room s' m"
      "\<And>b. r = Ok b \<Longrightarrow> t' = t\<lparr>bt_root_block := b\<rparr> \<and> b \<noteq> 0 \<and> wf_tree (rdf s') (alive s') V h b 0 (2 ^ 64) \<and>
         tree_list (rdf s') V h b = pre @ ?new @ post"
      "\<And>e. r = Err e \<Longrightarrow> t' = t \<and> e \<in> faults"
      using replace_node [OF rep p s(1) rm wfn new run'] by blast+
    show ?thesis
    proof (cases r)
      case (Ok b)
      then show ?thesis using law(2,3) law(4) [OF Ok] by simp
    next
      case (Err e)
      then show ?thesis using law(2,3) law(5) [OF Err] by simp
    next
      case Panic
      then show ?thesis using law(1) by simp
    qed
  qed
qed

text \<open>The two halves of a split leaf and the key that separates them.\<close>

lemma split_halves:
  assumes n: "wf_leaf V n" "node_is_valid n" "leaf_is_full V n" "key \<notin> fst ` set (leaf_entries V n)" "valid v"
    and range: "\<forall>k \<in> fst ` set (leaf_entries V n). l \<le> unat k \<and> unat k < u" "l \<le> unat key" "unat key < u"
  obtains sk L R where
    "split_leaf V n (new_leaf ty g) key v = Ok (sk, L, R)"
    "node_is_valid (update_crc (L\<lparr>tn_generation := g\<rparr>))" "node_is_valid (update_crc R)"
    "wf_leaf V L" "wf_leaf V R" "l < unat sk" "unat sk < u"
    "\<forall>k \<in> fst ` set (leaf_entries V L). l \<le> unat k \<and> unat k < unat sk"
    "\<forall>k \<in> fst ` set (leaf_entries V R). unat sk \<le> unat k \<and> unat k < u"
    "leaf_entries V L @ leaf_entries V R = ins_list key v (leaf_entries V n)"
proof -
  obtain sk L R where sp: "split_leaf V n (new_leaf ty g) key v = Ok (sk, L, R)" "wf_leaf V L" "wf_leaf V R"
    "leaf_entries V L @ leaf_entries V R = ins_list key v (leaf_entries V n)"
    "leaf_entries V L \<noteq> []" "leaf_entries V R \<noteq> []" "sk = fst (hd (leaf_entries V R))"
    "tn_magic L = tn_magic n" "tn_magic R = node_type_magic ty"
    using split_leaf_correct [OF n(1,3,4,5)] .
  let ?L = "leaf_entries V L" and ?R = "leaf_entries V R"
  have "fst ` set (?L @ ?R) = insert key (fst ` set (leaf_entries V n))"
    unfolding sp(4) by (rule set_keys_ins_list)
  then have all: "\<forall>k \<in> fst ` set (?L @ ?R). l \<le> unat k \<and> unat k < u" using range by auto
  have sorted: "sorted_keys (?L @ ?R)"
    unfolding sp(4) by (rule sorted_ins_list [OF wf_leafD(3) [OF n(1)]])
  obtain v' R' where R: "?R = (sk, v') # R'" using sp(6,7) by (cases ?R) auto
  have L: "\<forall>k \<in> fst ` set ?L. k < sk" using sorted by (auto simp: R sorted_wrt_append)
  have R': "\<forall>k \<in> fst ` set ?R. sk \<le> k" using sorted by (auto simp: R sorted_wrt_append)
  obtain e where e: "e \<in> set ?L" using sp(5) by (cases ?L) auto
  have "l \<le> unat (fst e)" "fst e < sk" using all L e by auto
  then have lsk: "l < unat sk" by (simp add: word_less_nat_alt)
  have ty: "tn_node_type L \<noteq> None" "tn_node_type R \<noteq> None"
    using n(2) sp(8,9) by (simp_all add: node_is_valid_def tn_node_type_def)
  show ?thesis
  proof (rule that [OF sp(1) stamped_node(1) [OF ty(1)] update_crc_valid [OF ty(2)] sp(2,3) lsk])
    show "unat sk < u" using all R by auto
    show "\<forall>k \<in> fst ` set ?L. l \<le> unat k \<and> unat k < unat sk" using all L by (auto simp: word_less_nat_alt)
    show "\<forall>k \<in> fst ` set ?R. unat sk \<le> unat k \<and> unat k < u" using all R' by (auto simp: word_le_nat_alt)
  qed (rule sp(4))
qed

lemma insert_with_split_eq:
  assumes "path_leaf_block path = Some sub" "st_read D sub s = Ok n"
    and "split_leaf V n (new_leaf (bt_node_type t) (bt_generation t + 1)) key v = Ok (sk, L, R)"
  shows "insert_with_split D V path key v (s, t) =
    sbind (on_dev (store_two (update_crc (L\<lparr>tn_generation := bt_generation t + 1\<rparr>)) (update_crc R)))
      (\<lambda>(b1, b2). propagate_split D path b1 sk b2) (s, t\<lparr>bt_generation := bt_generation t + 1\<rparr>)"
  using assms
  by (simp add: insert_with_split_def sbind_on_dev [of "dev_read D sub"] dev_read_def next_generation_def get_tree_def Let_def)
    (auto simp: store_two_def sbind_def on_dev_def split: prod.splits res.splits)

lemma store_two_cases:
  assumes "room s (Suc (Suc k))" "wf_node nd1" "wf_node nd2"
    and "sbind (on_dev (store_two nd1 nd2)) (\<lambda>(b1, b2). K b1 b2) (s, t) = (r, (s', t'))"
  obtains (fail) e where "r = Err e" "t' = t" "keeps s s'" "room s' k" "e \<in> faults"
  | (stored) s2 b1 b2 where "keeps s s2" "room s2 k" "b1 \<in> alive s2" "b2 \<in> alive s2"
      "st_read D b1 s2 = Ok nd1" "st_read D b2 s2 = Ok nd2" "K b1 b2 (s2, t) = (r, (s', t'))"
proof -
  obtain r2 s2 where r2: "store_two nd1 nd2 s = (r2, s2)" by fastforce
  note law = store_two_law [OF assms(1) r2 assms(2,3)]
  show ?thesis
  proof (cases r2)
    case (Ok b)
    obtain b1 b2 where b: "b = (b1, b2)" by fastforce
    show ?thesis
      by (rule stored [of s2 b1 b2]) (use law assms(4) in \<open>simp_all add: sbind_on_dev r2 Ok b\<close>)
  next
    case (Err e)
    then show ?thesis using fail law assms(4) by (auto simp: sbind_on_dev r2)
  next
    case Panic
    then show ?thesis using law by simp
  qed
qed

lemma split_at_root:
  assumes wf: "wf_btree (rdf s) (alive s) V t" and ne: "\<not> bt_is_empty t" and room: "room s (m + 3)"
    and h: "bt_height t = 0" and leaf: "st_read D (bt_root_block t) s = Ok n" "leaf_is_full V n"
    and absent: "key \<notin> fst ` set (btree_list (rdf s) V t)" and v: "valid v"
    and run: "insert_with_split D V [(bt_root_block t, 0)] key v (s, t) = (r, (s', t'))"
  shows "r \<noteq> Panic \<and> keeps s s' \<and> room s' m \<and>
    (case r of
       Ok b \<Rightarrow> b = bt_root_block t' \<and> bt_height t' = 1 \<and> wf_btree (rdf s') (alive s') V t' \<and>
         btree_list (rdf s') V t' = ins_list key v (btree_list (rdf s) V t)
     | Err e \<Rightarrow> bt_root_block t' = bt_root_block t \<and> bt_height t' = bt_height t \<and> e \<in> faults
     | Panic \<Rightarrow> False)"
proof -
  have list: "btree_list (rdf s) V t = leaf_entries V n" and
    n: "wf_leaf V n" "node_is_valid n" "\<forall>k \<in> fst ` set (leaf_entries V n). 0 \<le> unat k \<and> unat k < 2 ^ 64"
    using wf ne h leaf(1) by (auto simp: wf_btree_def btree_list_def bt_is_empty_def)
  have key: "0 \<le> unat key" "unat key < 2 ^ 64" using unat_u64_bound [of key] by simp_all
  have ab: "key \<notin> fst ` set (leaf_entries V n)" using absent list by simp
  let ?g = "bt_generation t + 1"
  obtain sk L R where sp: "split_leaf V n (new_leaf (bt_node_type t) ?g) key v = Ok (sk, L, R)"
    "node_is_valid (update_crc (L\<lparr>tn_generation := ?g\<rparr>))" "node_is_valid (update_crc R)"
    "wf_leaf V L" "wf_leaf V R" "0 < unat sk" "unat sk < 2 ^ 64"
    "\<forall>k \<in> fst ` set (leaf_entries V L). 0 \<le> unat k \<and> unat k < unat sk"
    "\<forall>k \<in> fst ` set (leaf_entries V R). unat sk \<le> unat k \<and> unat k < 2 ^ 64"
    "leaf_entries V L @ leaf_entries V R = ins_list key v (leaf_entries V n)"
    using split_halves [OF n(1,2) leaf(2) ab v n(3) key] .
  have pl: "path_leaf_block [(bt_root_block t, 0)] = Some (bt_root_block t)" by (simp add: path_leaf_block_def)
  have rm: "room s (Suc (Suc (Suc m)))" using room by (simp add: numeral_3_eq_3)
  have wfn: "wf_node (update_crc (L\<lparr>tn_generation := ?g\<rparr>))" "wf_node (update_crc R)"
    using sp(4,5) by (simp_all add: wf_leaf_def) (simp_all add: wf_node_def)
  note run' = run [unfolded insert_with_split_eq [OF pl leaf(1) sp(1)]]
  show ?thesis
  proof (cases rule: store_two_cases [OF rm wfn run'])
    case (1 e)
    then show ?thesis using room_less by simp
  next
    case (2 s2 b1 b2)
    have kids: "wf_tree (rdf s2) (alive s2) V 0 b1 0 (unat sk)" "wf_tree (rdf s2) (alive s2) V 0 b2 (unat sk) (2 ^ 64)"
      "tree_list (rdf s2) V 0 b1 @ tree_list (rdf s2) V 0 b2 = ins_list key v (leaf_entries V n)"
      using 2 sp by simp_all
    from split_root_law [OF _ _ 2(2) sp(6,7) kids(1,2) 2(7)] h
    have law: "r \<noteq> Panic \<and> keeps s2 s' \<and> room s' m \<and>
      (case r of
         Ok b \<Rightarrow> b \<noteq> 0 \<and> t' = t\<lparr>bt_generation := ?g, bt_root_block := b, bt_height := 1\<rparr> \<and>
           wf_tree (rdf s') (alive s') V 1 b 0 (2 ^ 64) \<and>
           tree_list (rdf s') V 1 b = tree_list (rdf s2) V 0 b1 @ tree_list (rdf s2) V 0 b2
       | Err e \<Rightarrow> t' = t\<lparr>bt_generation := ?g\<rparr> \<and> e \<in> faults | Panic \<Rightarrow> False)" by simp
    then show ?thesis
      using keeps_trans [OF 2(1)] kids(3) list
      by (cases r) (simp_all add: wf_btree_def btree_list_def del: tree_list.simps wf_tree.simps)
  qed
qed

lemma split_at_parent:
  assumes wf: "wf_btree (rdf s) (alive s) V t" and ne: "\<not> bt_is_empty t" and room: "room s (m + (unat (bt_height t) + 3))"
    and h: "bt_height t \<noteq> 0" and path: "path = path_to (rdf s) (unat (bt_height t)) (bt_root_block t) key"
    and leaf: "path_leaf_block path = Some sub" "st_read D sub s = Ok n" "leaf_is_full V n"
    and absent: "key \<notin> fst ` set (btree_list (rdf s) V t)" and v: "valid v"
    and run: "insert_with_split D V path key v (s, t) = (r, (s', t'))"
  shows "r \<noteq> Panic \<and> keeps s s' \<and> room s' m \<and>
    (case r of
       Ok b \<Rightarrow> b = bt_root_block t' \<and> bt_height t' = bt_height t \<and> wf_btree (rdf s') (alive s') V t' \<and>
         btree_list (rdf s') V t' = ins_list key v (btree_list (rdf s) V t)
     | Err e \<Rightarrow> bt_root_block t' = bt_root_block t \<and> bt_height t' = bt_height t \<and>
         (e \<in> faults \<or> e = NodeFull \<and> parent_full (rdf s) t key)
     | Panic \<Rightarrow> False)"
proof -
  let ?h = "unat (bt_height t)" and ?b = "bt_root_block t"
  have hpos: "Suc 0 \<le> ?h" using h by (metis Suc_leI neq0_conv unat_eq_zero)
  have wft: "wf_tree (rdf s) (alive s) V ?h ?b 0 (2 ^ 64)" and key: "0 \<le> unat key" "unat key < 2 ^ 64"
    using wf ne unat_u64_bound [of key] by (auto simp: wf_btree_def bt_is_empty_def)
  have len: "length path = Suc ?h" unfolding path by (rule length_path_to [OF wft key])
  from focus [OF wft key hpos, folded path] obtain par lo hi pre post where f:
    "wf_tree (rdf s) (alive s) V (Suc 0) par lo hi" "lo \<le> unat key" "unat key < hi"
    "drop (?h - Suc 0) path = path_to (rdf s) (Suc 0) par key"
    "tree_list (rdf s) V ?h ?b = pre @ tree_list (rdf s) V (Suc 0) par @ post"
    "\<forall>k \<in> fst ` set pre. unat k < lo" "\<forall>k \<in> fst ` set post. hi \<le> unat k"
    "replaces s ?h path 0 (2 ^ 64) (Suc 0) lo hi pre post"
    by (elim exE conjE) (rule that)
  obtain p i where p: "st_read D par s = Ok p" "par \<in> alive s" "node_is_valid p" "wf_internal p"
    "wf_kids (wf_tree (rdf s) (alive s) V 0) lo hi (int_entries p)" "sorted_keys (int_entries p)"
    "i < length (int_entries p)" "find_child p key = Some (i, snd (int_entries p ! i))"
    "wf_tree (rdf s) (alive s) V 0 (snd (int_entries p ! i)) (kid_lo (int_entries p) lo i) (kid_hi (int_entries p) hi i)"
    "kid_lo (int_entries p) lo i \<le> unat key" "unat key < kid_hi (int_entries p) hi i"
    using descend [OF f(1-3)] by blast
  let ?es = "int_entries p" and ?f = "\<lambda>e. tree_list (rdf s) V 0 (snd e)"
  let ?l = "kid_lo ?es lo i" and ?u = "kid_hi ?es hi i"
  have tail: "drop (?h - Suc 0) path = [(par, i), (snd (?es ! i), 0)]" using f(4) p(1,8) by simp
  have pth: "path = take (?h - Suc 0) path @ [(par, i), (snd (?es ! i), 0)]"
    using append_take_drop_id [of "?h - Suc 0" path] tail by simp
  have sub: "sub = snd (?es ! i)" using leaf(1) by (subst (asm) pth) (simp add: path_leaf_block_def)
  have nth: "path ! (?h - 1) = (par, i)"
    using nth_via_drop [OF tail] by simp
  have n: "wf_leaf V n" "node_is_valid n" "\<forall>k \<in> fst ` set (leaf_entries V n). ?l \<le> unat k \<and> unat k < ?u"
    using p(9) leaf(2) sub by simp_all
  let ?KL = "concat (map ?f (take i ?es))" and ?KR = "concat (map ?f (drop (Suc i) ?es))"
  have list: "btree_list (rdf s) V t = (pre @ ?KL) @ leaf_entries V n @ (?KR @ post)"
    using f(5) ne concat_focus [OF p(7), of ?f] p(1) leaf(2) sub by (simp add: btree_list_def bt_is_empty_def)
  have low: "\<forall>k \<in> fst ` set (pre @ ?KL). unat k < ?l"
    using kids_left [OF p(5,6,7)] f(6) kid_lo_ge [OF p(5,7)] by (fastforce simp: image_Un)
  have high: "\<forall>k \<in> fst ` set (?KR @ post). ?u \<le> unat k"
    using kids_right [OF p(5,6,7)] f(7) kid_hi_le [OF p(5,7)] by (fastforce simp: image_Un)
  have ab: "key \<notin> fst ` set (leaf_entries V n)" using absent unfolding list by (simp add: image_Un)
  let ?g = "bt_generation t + 1"
  obtain sk L R where sp: "split_leaf V n (new_leaf (bt_node_type t) ?g) key v = Ok (sk, L, R)"
    "node_is_valid (update_crc (L\<lparr>tn_generation := ?g\<rparr>))" "node_is_valid (update_crc R)"
    "wf_leaf V L" "wf_leaf V R" "?l < unat sk" "unat sk < ?u"
    "\<forall>k \<in> fst ` set (leaf_entries V L). ?l \<le> unat k \<and> unat k < unat sk"
    "\<forall>k \<in> fst ` set (leaf_entries V R). unat sk \<le> unat k \<and> unat k < ?u"
    "leaf_entries V L @ leaf_entries V R = ins_list key v (leaf_entries V n)"
    using split_halves [OF n(1,2) leaf(3) ab v n(3) p(10,11)] .
  have rm: "room s (Suc (Suc (m + ?h)))"
    using room room_less [of s "Suc (Suc (m + ?h))"] by (simp add: numeral_3_eq_3)
  have wfn: "wf_node (update_crc (L\<lparr>tn_generation := ?g\<rparr>))" "wf_node (update_crc R)"
    using sp(4,5) by (simp_all add: wf_leaf_def) (simp_all add: wf_node_def)
  have full: "parent_full (rdf s) t key" if "MAX_INTERNAL_ENTRIES \<le> unat (tn_item_count p)"
    using that hpos nth path p(1) by (simp add: parent_full_def)
  note run' = run [unfolded insert_with_split_eq [OF leaf(1,2) sp(1)]]
  show ?thesis
  proof (cases rule: store_two_cases [OF rm wfn run'])
    case (1 e)
    then show ?thesis using room_diff [of s' m ?h] by simp
  next
    case (2 s2 b1 b2)
    have kids: "wf_tree (rdf s2) (alive s2) V 0 b1 ?l (unat sk)" "wf_tree (rdf s2) (alive s2) V 0 b2 (unat sk) ?u"
      "tree_list (rdf s2) V 0 b1 @ tree_list (rdf s2) V 0 b2 = ins_list key v (leaf_entries V n)"
      using 2 sp by simp_all
    have "0 < ?h" using hpos by simp
    note law = split_parent_law [OF p(1-7) f(8) len this nth 2(1,2) sp(6,7) kids(1,2) 2(7), unfolded kids(3)]
    have "pre @ (?KL @ ins_list key v (leaf_entries V n) @ ?KR) @ post = ins_list key v (btree_list (rdf s) V t)"
      using ins_list_focus [OF low high p(10,11), of v "leaf_entries V n"] unfolding list by simp
    then show ?thesis
      using law keeps_trans [OF 2(1)] full
      by (cases r) (simp_all add: wf_btree_def btree_list_def del: tree_list.simps wf_tree.simps, blast)
  qed
qed

subsection \<open>Insertion\<close>

lemma insert_into_empty:
  assumes "bt_is_empty t" "room s (Suc m)" "valid v" "bt_height t = 0"
    and run: "tree_insert D V key v (s, t) = (r, (s', t'))"
  shows "r \<noteq> Panic \<and> keeps s s' \<and> room s' m \<and>
    (case r of
       Ok b \<Rightarrow> b = bt_root_block t' \<and> bt_height t' = bt_height t \<and> wf_btree (rdf s') (alive s') V t' \<and> btree_list (rdf s') V t' = [(key, v)]
     | Err e \<Rightarrow> bt_root_block t' = bt_root_block t \<and> bt_height t' = bt_height t \<and> e \<in> faults
     | Panic \<Rightarrow> False)"
proof -
  let ?n0 = "new_leaf (bt_node_type t) (bt_generation t + 1)"
  have nf: "\<not> leaf_is_full V ?n0" using two_entries by (simp add: leaf_is_full_def)
  obtain d where d: "leaf_insert V ?n0 key v = Ok (?n0\<lparr>tn_data := d, tn_item_count := tn_item_count ?n0 + 1\<rparr>)"
    "wf_leaf V (?n0\<lparr>tn_data := d, tn_item_count := tn_item_count ?n0 + 1\<rparr>)"
    "leaf_entries V (?n0\<lparr>tn_data := d, tn_item_count := tn_item_count ?n0 + 1\<rparr>) = ins_list key v []"
    using leaf_insert_new [OF wf_leaf_new nf _ assms(3), of key] by auto
  let ?nd = "update_crc (?n0\<lparr>tn_data := d, tn_item_count := tn_item_count ?n0 + 1\<rparr>)"
  have valid_nd: "node_is_valid ?nd" by (intro update_crc_valid) (simp add: tn_node_type_def)
  have wfn: "wf_node ?nd" using d(2) by (simp add: wf_leaf_def)
  obtain ra sa where a: "st_alloc D s = (ra, sa)" by fastforce
  note al = alloc_keeps [OF assms(2) a]
  show ?thesis
  proof (cases ra)
    case (Ok b)
    note fresh = al(4) [OF Ok]
    obtain rw sw where w: "st_write D b ?nd sa = (rw, sw)" by fastforce
    note wr = write_fresh [OF al(3) wfn al(2) w]
    have eq: "(r, (s', t')) = (case rw of
        Ok _ \<Rightarrow> (Ok b, (sw, t\<lparr>bt_generation := bt_generation t + 1, bt_root_block := b\<rparr>))
      | Err e \<Rightarrow> (Err e, (sw, t\<lparr>bt_generation := bt_generation t + 1\<rparr>))
      | Panic \<Rightarrow> (Panic, (sw, t\<lparr>bt_generation := bt_generation t + 1\<rparr>)))"
      using run assms(1) d(1) w
      by (simp add: tree_insert_def get_tree_def sbind_on_dev a Ok next_generation_def set_root_def Let_def split: res.splits)
    show ?thesis
      using eq wr fresh al(2) assms(4) valid_nd d(2,3) unat_u64_bound [of key]
      by (cases rw) (simp_all add: wf_btree_def btree_list_def)
  next
    case (Err e)
    then show ?thesis
      using run assms(1) al by (simp add: tree_insert_def get_tree_def sbind_on_dev a) auto
  next
    case Panic
    then show ?thesis using al(1) by simp
  qed
qed

lemma tree_insert_law:
  assumes wf: "wf_btree (rdf s) (alive s) V t" and empty: "bt_is_empty t \<longrightarrow> bt_height t = 0"
    and room: "room s (m + (unat (bt_height t) + 3))" and v: "valid v"
    and run: "tree_insert D V key v (s, t) = (r, (s', t'))"
  shows "r \<noteq> Panic \<and> keeps s s' \<and> room s' m \<and>
    (case r of
       Ok b \<Rightarrow> b = bt_root_block t' \<and> (bt_height t' = bt_height t \<or>
           bt_height t = 0 \<and> bt_height t' = 1 \<and> max_entries V \<le> length (btree_list (rdf s) V t)) \<and> key \<notin> fst ` set (btree_list (rdf s) V t) \<and>
         wf_btree (rdf s') (alive s') V t' \<and> btree_list (rdf s') V t' = ins_list key v (btree_list (rdf s) V t)
     | Err e \<Rightarrow> bt_root_block t' = bt_root_block t \<and> bt_height t' = bt_height t \<and>
         (if key \<in> fst ` set (btree_list (rdf s) V t) then e = DuplicateKey
          else e \<in> faults \<or> e = NodeFull \<and> parent_full (rdf s) t key)
     | Panic \<Rightarrow> False)"
proof (cases "bt_is_empty t")
  case True
  then have list: "btree_list (rdf s) V t = []" by (simp add: btree_list_def bt_is_empty_def)
  have rm: "room s (Suc m)" using room_diff [of s "Suc m" "unat (bt_height t) + 2"] room by (simp add: numeral_3_eq_3 numeral_2_eq_2)
  have "bt_height t = 0" using empty True by simp
  from insert_into_empty [OF True rm v this run] show ?thesis by (cases r) (simp_all add: list)
next
  case False
  let ?path = "path_to (rdf s) (unat (bt_height t)) (bt_root_block t) key" and ?g = "bt_generation t + 1"
  let ?list = "btree_list (rdf s) V t"
  obtain n sub l u pre post where leaf:
    "tree_search D V t key s = Ok (found (map_of ?list key), ?path)"
    "length ?path = Suc (unat (bt_height t))" "path_leaf_block ?path = Some sub"
    "st_read D sub s = Ok n" "sub \<in> alive s" "node_is_valid n" "wf_leaf V n"
    "\<forall>k \<in> fst ` set (leaf_entries V n). l \<le> unat k \<and> unat k < u" "l \<le> unat key" "unat key < u"
    "?list = pre @ leaf_entries V n @ post"
    "\<forall>k \<in> fst ` set pre. unat k < l" "\<forall>k \<in> fst ` set post. u \<le> unat k"
    "map_of ?list key = map_of (leaf_entries V n) key"
    "replaces s (unat (bt_height t)) ?path 0 (2 ^ 64) 0 l u pre post"
    using leaf_on_path [OF wf False] .
  let ?t = "t\<lparr>bt_generation := ?g\<rparr>"
  show ?thesis
  proof (cases "map_of ?list key")
    case (Some w)
    then have "key \<in> fst ` set ?list" by (metis map_of_eq_None_iff option.distinct(1))
    then show ?thesis
      using run leaf(1) False Some room_diff [OF room]
      by (simp add: tree_insert_def get_tree_def sbind_on_dev found_def) (elim conjE, hypsubst, simp)
  next
    case None
    then have absent: "key \<notin> fst ` set ?list" by (simp add: map_of_eq_None_iff)
    have ab: "key \<notin> fst ` set (leaf_entries V n)"
      using None unfolding leaf(14) by (simp add: map_of_eq_None_iff)
    have start: "tree_insert D V key v (s, t) =
      (if \<not> leaf_is_full V n then
         sbind (lift_res (leaf_insert V (n\<lparr>tn_generation := ?g\<rparr>) key v)) (\<lambda>node.
         sbind (on_dev (store_node (update_crc node))) (propagate_cow D ?path)) (s, ?t)
       else insert_with_split D V ?path key v (s, ?t))"
      using leaf(1,3,4) False None
      by (simp add: tree_insert_def get_tree_def sbind_on_dev [of "\<lambda>s. (tree_search D V t key s, s)"]
          sbind_on_dev [of "dev_read D sub"] dev_read_def found_def next_generation_def Let_def on_dev_store_node)
    show ?thesis
    proof (cases "leaf_is_full V n")
      case False
      have wfg: "wf_leaf V (n\<lparr>tn_generation := ?g\<rparr>)" "\<not> leaf_is_full V (n\<lparr>tn_generation := ?g\<rparr>)"
        "key \<notin> fst ` set (leaf_entries V (n\<lparr>tn_generation := ?g\<rparr>))"
        using leaf(7) False ab by simp_all
      obtain d where d:
        "leaf_insert V (n\<lparr>tn_generation := ?g\<rparr>) key v =
          Ok (n\<lparr>tn_generation := ?g\<rparr>\<lparr>tn_data := d, tn_item_count := tn_item_count n + 1\<rparr>)"
        "wf_leaf V (n\<lparr>tn_generation := ?g\<rparr>\<lparr>tn_data := d, tn_item_count := tn_item_count n + 1\<rparr>)"
        "leaf_entries V (n\<lparr>tn_generation := ?g\<rparr>\<lparr>tn_data := d, tn_item_count := tn_item_count n + 1\<rparr>) =
          ins_list key v (leaf_entries V n)"
        using leaf_insert_new [OF wfg v] by auto
      let ?nd = "update_crc (n\<lparr>tn_generation := ?g\<rparr>\<lparr>tn_data := d, tn_item_count := tn_item_count n + 1\<rparr>)"
      have run': "sbind (on_dev (store_node ?nd)) (propagate_cow D ?path) (s, ?t) = (r, (s', t'))"
        using run start False d(1) by simp
      have valid: "node_is_valid ?nd"
        using leaf(6) by (intro update_crc_valid) (simp add: node_is_valid_def tn_node_type_def)
      have nd: "wf_leaf V ?nd" "leaf_entries V ?nd = ins_list key v (leaf_entries V n)" using d(2,3) by simp_all
      then have rng: "\<forall>k \<in> fst ` set (leaf_entries V ?nd). l \<le> unat k \<and> unat k < u"
        using leaf(8-10) by (simp only: set_keys_ins_list) blast
      have rm: "room s ((m + 2) + Suc (unat (bt_height t)))" using room by (simp add: numeral_3_eq_3)
      note law = replace_leaf [OF leaf(15,2) keeps_refl rm valid nd(1) rng run']
      have rm': "room s' m" using law(3) room_diff [of s' m 2] by simp
      show ?thesis
      proof (cases r)
        case (Ok b)
        note new = law(4) [OF Ok]
        then have t': "t' = t\<lparr>bt_generation := ?g, bt_root_block := b\<rparr>" "b \<noteq> 0" by simp_all
        have "btree_list (rdf s') V t' = pre @ ins_list key v (leaf_entries V n) @ post"
          using new t' nd(2) by (simp add: btree_list_def)
        also have "\<dots> = ins_list key v ?list"
          unfolding leaf(11) by (rule ins_list_focus [OF leaf(12,13,9,10), symmetric])
        finally have "btree_list (rdf s') V t' = ins_list key v ?list" .
        moreover have "wf_btree (rdf s') (alive s') V t'" using new t' by (simp add: wf_btree_def)
        ultimately show ?thesis using law(2) rm' Ok absent t' by simp
      next
        case (Err e)
        then show ?thesis using law(2,5) rm' absent by simp
      next
        case Panic
        then show ?thesis using law(1) by simp
      qed
    next
      case True
      have run': "insert_with_split D V ?path key v (s, ?t) = (r, (s', t'))" using run start True by simp
      have wft: "wf_btree (rdf s) (alive s) V ?t" "\<not> bt_is_empty ?t" "btree_list (rdf s) V ?t = ?list"
        using wf False by (simp_all add: wf_btree_def bt_is_empty_def btree_list_def)
      show ?thesis
      proof (cases "bt_height t = 0")
        case h: True
        have sub: "?path = [(bt_root_block ?t, 0)]" "sub = bt_root_block ?t"
          using leaf(3) h by (simp_all add: path_leaf_block_def)
        have rm: "room s (m + 3)" using room h by simp
        have "r \<noteq> Panic \<and> keeps s s' \<and> room s' m \<and>
          (case r of
             Ok b \<Rightarrow> b = bt_root_block t' \<and> bt_height t' = 1 \<and> wf_btree (rdf s') (alive s') V t' \<and>
               btree_list (rdf s') V t' = ins_list key v (btree_list (rdf s) V ?t)
           | Err e \<Rightarrow> bt_root_block t' = bt_root_block ?t \<and> bt_height t' = bt_height ?t \<and> e \<in> faults | Panic \<Rightarrow> False)"
          by (rule split_at_root [OF wft(1,2) rm _ leaf(4) [unfolded sub(2)] True _ v run' [unfolded sub(1)]])
            (use h absent wft(3) in simp_all)
        moreover have "max_entries V \<le> length ?list"
          using True leaf(11) wf_leafD(5) [OF leaf(7)] by (simp add: leaf_is_full_def)
        ultimately show ?thesis using absent wft(3) h by (cases r) simp_all
      next
        case h: False
        have "r \<noteq> Panic \<and> keeps s s' \<and> room s' m \<and>
          (case r of
             Ok b \<Rightarrow> b = bt_root_block t' \<and> bt_height t' = bt_height ?t \<and> wf_btree (rdf s') (alive s') V t' \<and>
               btree_list (rdf s') V t' = ins_list key v (btree_list (rdf s) V ?t)
           | Err e \<Rightarrow> bt_root_block t' = bt_root_block ?t \<and> bt_height t' = bt_height ?t \<and>
               (e \<in> faults \<or> e = NodeFull \<and> parent_full (rdf s) ?t key)
           | Panic \<Rightarrow> False)"
          by (rule split_at_parent [OF wft(1,2) _ _ _ leaf(3,4) True _ v run'])
            (use h absent wft(3) room in simp_all)
        then show ?thesis using absent wft(3) by (cases r) (auto simp: parent_full_def)
      qed
    qed
  qed
qed

end

end
