(* ===== verification/Wfs_Device.thy ===== *)
theory Wfs_Device
  imports Wfs_Cow_Insert
begin

text \<open>
  The block device and allocator of \<^verbatim>\<open>src/tools/mkfs.wfs/src/main.rs\<close> (\<open>FileBlockDevice\<close>): a disk
  image file and a bump allocator. The file is its list of bytes; a write past the end extends it
  with zeros, as a POSIX file does. Whether a call of the operating system succeeds is not decided
  by this code: \<open>fd_io\<close> lists the outcomes of the coming writes and syncs (\<open>None\<close> succeeds, \<open>Some k\<close> fails,
  a write after \<open>k\<close> bytes have reached the file; past the end of the list everything succeeds). Reads fail
  exactly at the end of the file. Writes reach the file in their order; a cache of the operating system that
  reorders them before a sync is not modelled.

  The device is an instance of the contract \<open>block_store\<close>, with faults and without, so the
  theorems on the B+tree hold on it.
\<close>

section \<open>Definitions\<close>

definition node_of_bytes :: "byte list \<Rightarrow> tree_node" where
  "node_of_bytes bs =
     \<lparr>tn_magic = dec_word (take 4 bs), tn_level = dec_word (take 2 (drop 4 bs)),
      tn_item_count = dec_word (take 2 (drop 6 bs)), tn_generation = dec_word (take 8 (drop 8 bs)),
      tn_parent_block = dec_word (take 8 (drop 16 bs)), tn_crc32 = dec_word (take 4 (drop 24 bs)),
      tn_pad = dec_word (take 4 (drop 28 bs)), tn_data = drop 32 bs\<rparr>"

record file_device =
  fd_file :: "byte list"
  fd_next :: u64
  fd_io :: "nat option list"

definition FileBlockDevice_new :: "nat \<Rightarrow> nat option list \<Rightarrow> file_device" where
  "FileBlockDevice_new sz io = \<lparr>fd_file = replicate sz 0, fd_next = 5, fd_io = io\<rparr>"

definition block_offset :: "u64 \<Rightarrow> nat" where
  "block_offset block = unat (block * of_nat BLOCK_SIZE)"

text \<open>The bytes of a file after \<open>data\<close> was written at \<open>off\<close>.\<close>

definition put_bytes :: "byte list \<Rightarrow> nat \<Rightarrow> byte list \<Rightarrow> byte list" where
  "put_bytes file off data =
     (if data = [] then file else copy_into (file @ replicate (off - length file) 0) off data)"

text \<open>\<open>write_all\<close>: everything is written, or a prefix and then an error.\<close>

definition write_all :: "nat \<Rightarrow> byte list \<Rightarrow> (file_device, tree_error, unit) op" where
  "write_all off data d =
     (case fd_io d of
        [] \<Rightarrow> (Ok (), d\<lparr>fd_file := put_bytes (fd_file d) off data\<rparr>)
      | None # io \<Rightarrow> (Ok (), d\<lparr>fd_file := put_bytes (fd_file d) off data, fd_io := io\<rparr>)
      | Some k # io \<Rightarrow> (Err TreeIoError, d\<lparr>fd_file := put_bytes (fd_file d) off (take k data), fd_io := io\<rparr>))"

definition write_block_raw :: "u64 \<Rightarrow> byte list \<Rightarrow> (file_device, tree_error, unit) op" where
  "write_block_raw block data = write_all (block_offset block) data"

definition fd_read_node :: "u64 \<Rightarrow> file_device \<Rightarrow> (tree_error, tree_node) res" where
  "fd_read_node block d =
     (let off = block_offset block in
      if off + BLOCK_SIZE \<le> length (fd_file d)
      then Ok (node_of_bytes (take BLOCK_SIZE (drop off (fd_file d))))
      else Err TreeIoError)"

definition fd_write_node :: "u64 \<Rightarrow> tree_node \<Rightarrow> (file_device, tree_error, unit) op" where
  "fd_write_node block node = write_all (block_offset block) (node_bytes node)"

definition fd_sync :: "(file_device, tree_error, unit) op" where
  "fd_sync d =
     (case fd_io d of
        [] \<Rightarrow> (Ok (), d)
      | None # io \<Rightarrow> (Ok (), d\<lparr>fd_io := io\<rparr>)
      | Some _ # io \<Rightarrow> (Err TreeIoError, d\<lparr>fd_io := io\<rparr>))"

definition fd_allocate_block :: "(file_device, tree_error, u64) op" where
  "fd_allocate_block d =
     (let block = fd_next d in
      sbind (write_block_raw block (replicate BLOCK_SIZE 0)) (\<lambda>_. ret block)
        (d\<lparr>fd_next := fd_next d + 1\<rparr>))"

definition fd_free_block :: "u64 \<Rightarrow> (file_device, tree_error, unit) op" where
  "fd_free_block block d = (Ok (), d)"

definition file_store :: "file_device store" where
  "file_store = \<lparr>st_read = fd_read_node, st_write = fd_write_node, st_sync = fd_sync,
     st_alloc = fd_allocate_block, st_free = fd_free_block\<rparr>"

section \<open>Lemmas\<close>

lemma BLOCK_SIZE_eq: "BLOCK_SIZE = 4096"
  by (simp add: BLOCK_SIZE_def)

lemma length_node_bytes: "wf_node n \<Longrightarrow> length (node_bytes n) = BLOCK_SIZE"
  by (simp add: node_bytes_def wf_node_def BLOCK_SIZE_eq)

lemma node_bytes_inverse: "node_of_bytes (node_bytes n) = n"
  by (simp add: node_of_bytes_def node_bytes_def dec_enc_word)

lemma block_offset_eq: "unat b < 2 ^ 52 \<Longrightarrow> block_offset b = unat b * BLOCK_SIZE"
  by (simp add: block_offset_def BLOCK_SIZE_eq unat_word_ariths)

lemma length_put_bytes: "length (put_bytes f off bs) = (if bs = [] then length f else max (length f) (off + length bs))"
  by (auto simp: put_bytes_def copy_into_def)

lemma put_bytes_before:
  assumes "i + n \<le> off" "i + n \<le> length f"
  shows "take n (drop i (put_bytes f off bs)) = take n (drop i f)"
  using assms by (simp add: put_bytes_def copy_into_def take_drop)

lemma put_bytes_after:
  assumes "off + length bs \<le> i" "i \<le> length f"
  shows "take n (drop i (put_bytes f off bs)) = take n (drop i f)"
  using assms slice_copy_into_after [of off bs f i n] by (simp add: put_bytes_def)

lemma put_bytes_same: "take (length bs) (drop off (put_bytes f off bs)) = bs"
  by (auto simp: put_bytes_def copy_into_def)

text \<open>A write leaves the blocks outside its range as they are.\<close>

lemma write_all_cases:
  assumes "write_all off data d = (r, d')"
  obtains k where "d' = d\<lparr>fd_file := put_bytes (fd_file d) off (take k data), fd_io := tl (fd_io d)\<rparr>"
    "r = (if fd_io d = [] \<or> hd (fd_io d) = None then Ok () else Err TreeIoError)"
    "r = Ok () \<Longrightarrow> take k data = data"
proof (cases "fd_io d = [] \<or> hd (fd_io d) = None")
  case True
  then have "d' = d\<lparr>fd_file := put_bytes (fd_file d) off (take (length data) data), fd_io := tl (fd_io d)\<rparr>" "r = Ok ()"
    using assms by (cases d; cases "fd_io d"; auto simp: write_all_def)+
  then show ?thesis using True by (intro that [of "length data"]) simp_all
next
  case False
  then obtain k io where "fd_io d = Some k # io" by (cases "fd_io d") auto
  then show ?thesis
    using assms by (intro that [of k]) (simp_all add: write_all_def)
qed

section \<open>The file device satisfies the contract of the tree\<close>

text \<open>The blocks in use: below the allocation mark and inside the file.\<close>

definition fd_alive :: "file_device \<Rightarrow> u64 set" where
  "fd_alive d = {b. unat b < unat (fd_next d) \<and> unat b < 2 ^ 52 \<and> Suc (unat b) * BLOCK_SIZE \<le> length (fd_file d)}"

definition fd_room :: "file_device \<Rightarrow> nat \<Rightarrow> bool" where
  "fd_room d n \<longleftrightarrow> 0 < unat (fd_next d) \<and> unat (fd_next d) + n \<le> 2 ^ 52"

definition fd_sound :: "file_device \<Rightarrow> nat \<Rightarrow> bool" where
  "fd_sound d n \<longleftrightarrow> fd_room d n \<and> (\<forall>x \<in> set (fd_io d). x = None)"

lemma io_irrelevant [simp]:
  "fd_alive (d\<lparr>fd_io := io\<rparr>) = fd_alive d" "fd_read_node b (d\<lparr>fd_io := io\<rparr>) = fd_read_node b d" "fd_room (d\<lparr>fd_io := io\<rparr>) n = fd_room d n"
  by (simp_all add: fd_alive_def fd_read_node_def fd_room_def Let_def)

lemma fd_sync_cases:
  assumes "fd_sync d = (r, d')"
  shows "d' = d\<lparr>fd_io := tl (fd_io d)\<rparr>" "r = Ok () \<or> r = Err TreeIoError"
proof -
  show "d' = d\<lparr>fd_io := tl (fd_io d)\<rparr>"
  proof (cases "fd_io d")
    case Nil
    then show ?thesis using assms by (cases d) (auto simp: fd_sync_def)
  next
    case (Cons x xs)
    then show ?thesis using assms by (cases x) (simp_all add: fd_sync_def)
  qed
  show "r = Ok () \<or> r = Err TreeIoError" using assms by (auto simp: fd_sync_def split: list.splits option.splits)
qed

lemma fd_sync_sound:
  assumes "fd_sound d n"
  shows "fd_sync d = (Ok (), d\<lparr>fd_io := tl (fd_io d)\<rparr>)" "fd_sound (d\<lparr>fd_io := tl (fd_io d)\<rparr>) n"
proof -
  have io: "\<forall>x \<in> set (fd_io d). x = None" "fd_room d n" using assms by (simp_all add: fd_sound_def)
  show "fd_sync d = (Ok (), d\<lparr>fd_io := tl (fd_io d)\<rparr>)"
  proof (cases "fd_io d")
    case Nil
    then show ?thesis by (cases d) (simp add: fd_sync_def)
  next
    case (Cons x xs)
    then show ?thesis using io(1) by (simp add: fd_sync_def)
  qed
  show "fd_sound (d\<lparr>fd_io := tl (fd_io d)\<rparr>) n" using io by (cases "fd_io d") (simp_all add: fd_sound_def)
qed

lemma fd_alive_read:
  "b \<in> fd_alive d \<Longrightarrow>
   fd_read_node b d = Ok (node_of_bytes (take BLOCK_SIZE (drop (unat b * BLOCK_SIZE) (fd_file d))))"
  by (simp add: fd_alive_def fd_read_node_def block_offset_eq add.commute)

lemma put_keeps_block:
  assumes "b \<in> fd_alive d" "unat c < 2 ^ 52" "b \<noteq> c" "length bs \<le> BLOCK_SIZE"
    and d': "fd_file d' = put_bytes (fd_file d) (unat c * BLOCK_SIZE) bs" "unat (fd_next d) \<le> unat (fd_next d')"
  shows "b \<in> fd_alive d' \<and> fd_read_node b d' = fd_read_node b d"
proof
  have b: "Suc (unat b) * BLOCK_SIZE \<le> length (fd_file d)" using assms(1) by (simp add: fd_alive_def)
  then show live: "b \<in> fd_alive d'"
    using assms(1) d' by (auto simp: fd_alive_def length_put_bytes)
  have "take BLOCK_SIZE (drop (unat b * BLOCK_SIZE) (fd_file d')) = take BLOCK_SIZE (drop (unat b * BLOCK_SIZE) (fd_file d))"
  proof (cases "unat b < unat c")
    case True
    then have "Suc (unat b) * BLOCK_SIZE \<le> unat c * BLOCK_SIZE" by (intro mult_le_mono1) simp
    then show ?thesis using b d'(1) by (simp add: put_bytes_before)
  next
    case False
    then have "Suc (unat c) \<le> unat b" using assms(3) by (metis Suc_leI linorder_neqE_nat word_unat_eq_iff)
    then have "Suc (unat c) * BLOCK_SIZE \<le> unat b * BLOCK_SIZE" by (intro mult_le_mono1)
    then show ?thesis using b d'(1) assms(4) by (simp add: put_bytes_after)
  qed
  then show "fd_read_node b d' = fd_read_node b d"
    using fd_alive_read [OF assms(1)] fd_alive_read [OF live] by simp
qed

lemma fd_alloc_law:
  assumes "fd_room d (Suc m)" "fd_allocate_block d = (rb, d')"
  shows "rb \<noteq> Panic \<and> (\<forall>e. rb = Err e \<longrightarrow> e = TreeIoError \<and> (\<exists>x \<in> set (fd_io d). x \<noteq> None)) \<and> fd_room d' m \<and>
    fd_io d' = tl (fd_io d) \<and>
    same_on (fd_alive d) (\<lambda>x. fd_read_node x d) (fd_alive d') (\<lambda>x. fd_read_node x d') \<and>
    (\<forall>b. rb = Ok b \<longrightarrow> b \<noteq> 0 \<and> b \<notin> fd_alive d \<and> b \<in> fd_alive d')"
proof -
  let ?c = "fd_next d" and ?z = "replicate BLOCK_SIZE (0 :: byte)"
  obtain ru d1 where w: "write_all (block_offset ?c) ?z (d\<lparr>fd_next := ?c + 1\<rparr>) = (ru, d1)" by fastforce
  then have res: "d' = d1" "rb = (case ru of Ok _ \<Rightarrow> Ok ?c | Err e \<Rightarrow> Err e | Panic \<Rightarrow> Panic)"
    using assms(2) by (auto simp: fd_allocate_block_def write_block_raw_def sbind_def split: res.splits)
  have c: "0 < unat ?c" "unat ?c < 2 ^ 52" "unat (?c + 1) = Suc (unat ?c)"
    using assms(1) by (auto simp: fd_room_def unat_word_ariths)
  from write_all_cases [OF w] obtain k where k:
    "d1 = (d\<lparr>fd_next := ?c + 1\<rparr>)\<lparr>fd_file := put_bytes (fd_file d) (unat ?c * BLOCK_SIZE) (take k ?z), fd_io := tl (fd_io d)\<rparr>"
    "ru = (if fd_io d = [] \<or> hd (fd_io d) = None then Ok () else Err TreeIoError)"
    "ru = Ok () \<Longrightarrow> take k ?z = ?z"
    using block_offset_eq [OF c(2)] by auto
  have "x \<in> fd_alive d' \<and> fd_read_node x d' = fd_read_node x d" if "x \<in> fd_alive d" for x
    by (rule put_keeps_block [OF that c(2), of "take k ?z"]) (use that k(1) res(1) c in \<open>auto simp: fd_alive_def\<close>)
  moreover have "?c \<in> fd_alive d'" if "ru = Ok ()"
    using k(1) k(3) [OF that] res(1) c by (simp add: fd_alive_def length_put_bytes BLOCK_SIZE_eq)
  moreover have "?c \<notin> fd_alive d" "?c \<noteq> 0" using c(1) by (auto simp: fd_alive_def)
  moreover have "fd_room d' m" using assms(1) k(1) res(1) c by (simp add: fd_room_def)
  moreover have "\<exists>x \<in> set (fd_io d). x \<noteq> None" if "ru = Err e" for e
    using that k(2) by (cases "fd_io d") (auto split: if_splits)
  ultimately show ?thesis
    using res k by (auto simp: same_on_def split: if_splits)
qed

lemma fd_write_law:
  assumes "b \<in> fd_alive d" "wf_node nd" "fd_write_node b nd d = (ru, d')"
  shows "ru \<noteq> Panic \<and> (\<forall>e. ru = Err e \<longrightarrow> e = TreeIoError \<and> (\<exists>x \<in> set (fd_io d). x \<noteq> None)) \<and>
    fd_next d' = fd_next d \<and> fd_io d' = tl (fd_io d) \<and>
    same_on (fd_alive d - {b}) (\<lambda>x. fd_read_node x d) (fd_alive d') (\<lambda>x. fd_read_node x d') \<and>
    b \<in> fd_alive d' \<and> (ru = Ok () \<longrightarrow> fd_read_node b d' = Ok nd)"
proof -
  have b: "unat b < 2 ^ 52" using assms(1) by (simp add: fd_alive_def)
  from write_all_cases [OF assms(3) [unfolded fd_write_node_def]] obtain k where k:
    "d' = d\<lparr>fd_file := put_bytes (fd_file d) (unat b * BLOCK_SIZE) (take k (node_bytes nd)), fd_io := tl (fd_io d)\<rparr>"
    "ru = (if fd_io d = [] \<or> hd (fd_io d) = None then Ok () else Err TreeIoError)"
    "ru = Ok () \<Longrightarrow> take k (node_bytes nd) = node_bytes nd"
    using block_offset_eq [OF b] by auto
  have "x \<in> fd_alive d' \<and> fd_read_node x d' = fd_read_node x d" if "x \<in> fd_alive d" "x \<noteq> b" for x
    by (rule put_keeps_block [OF that(1) b that(2), of "take k (node_bytes nd)"])
      (use k(1) length_node_bytes [OF assms(2)] in auto)
  moreover have live: "b \<in> fd_alive d'"
    using assms(1) k(1) by (auto simp: fd_alive_def length_put_bytes)
  moreover have "fd_read_node b d' = Ok nd" if "ru = Ok ()"
    using fd_alive_read [OF live] k(1) k(3) [OF that] put_bytes_same [of "node_bytes nd"]
      length_node_bytes [OF assms(2)] node_bytes_inverse [of nd] by simp
  moreover have "\<exists>x \<in> set (fd_io d). x \<noteq> None" if "ru = Err e" for e
    using that k(2) by (cases "fd_io d") (auto split: if_splits)
  ultimately show ?thesis
    using k by (auto simp: same_on_def)
qed

interpretation fdev: cow_tree file_store fd_alive fd_room "{TreeIoError}" u64_value "enc_word 8" dec_word "\<lambda>_. True"
proof unfold_locales
  fix d m rb d'
  assume "fd_room d (Suc m)" "st_alloc file_store d = (rb, d')"
  then show "rb \<noteq> Panic \<and> (\<forall>e. rb = Err e \<longrightarrow> e \<in> {TreeIoError}) \<and> fd_room d' m \<and>
    same_on (fd_alive d) (\<lambda>x. st_read file_store x d) (fd_alive d') (\<lambda>x. st_read file_store x d') \<and>
    (\<forall>b. rb = Ok b \<longrightarrow> b \<noteq> 0 \<and> b \<notin> fd_alive d \<and> b \<in> fd_alive d')"
    using fd_alloc_law by (simp add: file_store_def)
next
  fix b d nd m ru d'
  assume "b \<in> fd_alive d" "wf_node nd" "fd_room d m" "st_write file_store b nd d = (ru, d')"
  then show "ru \<noteq> Panic \<and> (\<forall>e. ru = Err e \<longrightarrow> e \<in> {TreeIoError}) \<and> fd_room d' m \<and>
    same_on (fd_alive d - {b}) (\<lambda>x. st_read file_store x d) (fd_alive d') (\<lambda>x. st_read file_store x d') \<and>
    b \<in> fd_alive d' \<and> (ru = Ok () \<longrightarrow> st_read file_store b d' = Ok nd)"
    using fd_write_law [of b d nd ru d'] by (simp add: file_store_def fd_room_def)
qed (simp add: fd_room_def)

lemma fd_sound_tl: "fd_sound d m \<Longrightarrow> fd_room d' n \<Longrightarrow> fd_io d' = tl (fd_io d) \<Longrightarrow> fd_sound d' n"
  by (cases "fd_io d") (simp_all add: fd_sound_def)

interpretation fdok: cow_tree file_store fd_alive fd_sound "{}" u64_value "enc_word 8" dec_word "\<lambda>_. True"
proof unfold_locales
  fix d m
  assume "fd_sound d (Suc m)"
  then show "fd_sound d m" by (simp add: fd_sound_def fd_room_def)
next
  fix d m rb d'
  assume d: "fd_sound d (Suc m)" "st_alloc file_store d = (rb, d')"
  then have "fd_room d (Suc m)" "\<forall>x \<in> set (fd_io d). x = None" by (simp_all add: fd_sound_def)
  then show "rb \<noteq> Panic \<and> (\<forall>e. rb = Err e \<longrightarrow> e \<in> {}) \<and> fd_sound d' m \<and>
    same_on (fd_alive d) (\<lambda>x. st_read file_store x d) (fd_alive d') (\<lambda>x. st_read file_store x d') \<and>
    (\<forall>b. rb = Ok b \<longrightarrow> b \<noteq> 0 \<and> b \<notin> fd_alive d \<and> b \<in> fd_alive d')"
    using fd_alloc_law [of d m rb d'] fd_sound_tl [OF d(1)] d(2) by (auto simp: file_store_def)
next
  fix b d nd m ru d'
  assume d: "b \<in> fd_alive d" "wf_node nd" "fd_sound d m" "st_write file_store b nd d = (ru, d')"
  then have "fd_room d m" "\<forall>x \<in> set (fd_io d). x = None" by (simp_all add: fd_sound_def)
  then show "ru \<noteq> Panic \<and> (\<forall>e. ru = Err e \<longrightarrow> e \<in> {}) \<and> fd_sound d' m \<and>
    same_on (fd_alive d - {b}) (\<lambda>x. st_read file_store x d) (fd_alive d') (\<lambda>x. st_read file_store x d') \<and>
    b \<in> fd_alive d' \<and> (ru = Ok () \<longrightarrow> st_read file_store b d' = Ok nd)"
    using fd_write_law [of b d nd ru d'] fd_sound_tl [OF d(3), of d' m] d(1,2,4)
    by (auto simp: file_store_def fd_room_def)
qed

end
