(* ===== verification/Wfs_Btree.thy ===== *)
theory Wfs_Btree
  imports Wfs_Device
begin

text \<open>
  What the B+tree promises on the disk image device: search, insertion and deletion refine the
  sorted association list the tree stores, and, whatever fails, every block that was in use keeps
  its contents, so the tree of the last committed root survives any sequence of operations.
\<close>

section \<open>Sequences of operations\<close>

datatype 'v tree_cmd = CInsert u64 'v | CDelete u64

fun is_ok :: "('e, 'a) res \<Rightarrow> bool" where
  "is_ok (Ok a) = True"
| "is_ok (Err e) = False"
| "is_ok Panic = False"

fun exec_cmd :: "'s store \<Rightarrow> 'v value_dict \<Rightarrow> 'v tree_cmd \<Rightarrow> 's \<times> bplus_tree \<Rightarrow> bool \<times> 's \<times> bplus_tree" where
  "exec_cmd D V (CInsert k v) st = (let (r, st') = tree_insert D V k v st in (is_ok r, st'))"
| "exec_cmd D V (CDelete k) st = (let (r, st') = tree_delete D V k st in (is_ok r, st'))"

text \<open>The commands in order, each on the state the one before left, with what succeeded.\<close>

fun run_cmds :: "'s store \<Rightarrow> 'v value_dict \<Rightarrow> 'v tree_cmd list \<Rightarrow> 's \<times> bplus_tree \<Rightarrow> bool list \<times> 's \<times> bplus_tree" where
  "run_cmds D V [] st = ([], st)"
| "run_cmds D V (c # cs) st =
     (let (ok, st') = exec_cmd D V c st; (oks, st'') = run_cmds D V cs st' in (ok # oks, st''))"

fun abs_cmd :: "'v tree_cmd \<Rightarrow> (u64 \<times> 'v) list \<Rightarrow> (u64 \<times> 'v) list" where
  "abs_cmd (CInsert k v) xs = ins_list k v xs"
| "abs_cmd (CDelete k) xs = del_list k xs"

fun abs_run :: "('v tree_cmd \<times> bool) list \<Rightarrow> (u64 \<times> 'v) list \<Rightarrow> (u64 \<times> 'v) list" where
  "abs_run [] xs = xs"
| "abs_run ((c, ok) # cs) xs = abs_run cs (if ok then abs_cmd c xs else xs)"

fun cmd_valid :: "('v \<Rightarrow> bool) \<Rightarrow> 'v tree_cmd \<Rightarrow> bool" where
  "cmd_valid P (CInsert k v) = P v"
| "cmd_valid P (CDelete k) = True"

text \<open>An empty tree has height 0.\<close>

definition height_ok :: "bplus_tree \<Rightarrow> bool" where
  "height_ok t \<longleftrightarrow> (bt_is_empty t \<longrightarrow> bt_height t = 0)"

lemma ins_list_not_Nil: "ins_list k v xs \<noteq> []"
  by (cases xs) (auto split: if_splits)

lemma btree_root_cong:
  assumes "bt_root_block t' = bt_root_block t" "bt_height t' = bt_height t"
  shows "btree_list rd V t' = btree_list rd V t" "wf_btree rd A V t' = wf_btree rd A V t"
    "height_ok t' = height_ok t"
  using assms by (simp_all add: btree_list_def wf_btree_def height_ok_def bt_is_empty_def)

lemma btree_list_not_empty: "btree_list rd V t \<noteq> [] \<Longrightarrow> \<not> bt_is_empty t"
  by (auto simp: btree_list_def bt_is_empty_def)

context cow_tree
begin

text \<open>The blocks one command may take in a tree whose height is at most \<open>h\<close>.\<close>

definition tree_inv :: "nat \<Rightarrow> 's \<Rightarrow> bplus_tree \<Rightarrow> bool" where
  "tree_inv h s t \<longleftrightarrow> wf_btree (rdf s) (alive s) V t \<and> height_ok t \<and> unat (bt_height t) \<le> h"

lemma tree_inv_same:
  assumes "tree_inv h s t" "keeps s s'" "bt_root_block t' = bt_root_block t" "bt_height t' = bt_height t"
  shows "tree_inv h s' t' \<and> btree_list (rdf s') V t' = btree_list (rdf s) V t"
proof -
  have "wf_btree (rdf s') (alive s') V t" "btree_list (rdf s') V t = btree_list (rdf s) V t"
    using assms(1) wf_btree_same btree_list_same assms(2) by (auto simp: tree_inv_def keeps_def)
  then show ?thesis
    using assms(1,4) btree_root_cong(1,2) [OF assms(3,4), where V = V] btree_root_cong(3) [OF assms(3,4)] by (simp add: tree_inv_def)
qed

lemma exec_cmd_law:
  assumes inv: "tree_inv h s t" "1 \<le> h" and room: "room s (m + (h + 3))" and c: "cmd_valid valid c"
    and run: "exec_cmd D V c (s, t) = (ok, (s', t'))"
  shows "keeps s s' \<and> room s' m \<and> tree_inv h s' t' \<and>
    btree_list (rdf s') V t' = (if ok then abs_cmd c (btree_list (rdf s) V t) else btree_list (rdf s) V t)"
proof (cases c)
  case (CInsert k v)
  obtain r where r: "tree_insert D V k v (s, t) = (r, (s', t'))" "ok = is_ok r"
    using run CInsert by (auto split: prod.splits)
  have h: "bt_is_empty t \<longrightarrow> bt_height t = 0" "wf_btree (rdf s) (alive s) V t" "valid v"
    using inv c CInsert by (auto simp: tree_inv_def height_ok_def)
  have "room s (m + (unat (bt_height t) + 3) + (h - unat (bt_height t)))"
    using room inv by (simp add: tree_inv_def ac_simps)
  note rm = room_diff [OF this]
  note law = tree_insert_law [OF h(2,1) rm h(3) r(1)]
  show ?thesis
  proof (cases r)
    case (Ok b)
    then have new: "btree_list (rdf s') V t' = ins_list k v (btree_list (rdf s) V t)" "wf_btree (rdf s') (alive s') V t'"
      "bt_height t' = bt_height t \<or> bt_height t = 0 \<and> bt_height t' = 1"
      using law by auto
    have "\<not> bt_is_empty t'" using btree_list_not_empty [of "rdf s'" V t'] new(1) ins_list_not_Nil by metis
    then have "tree_inv h s' t'" using new inv by (auto simp: tree_inv_def height_ok_def)
    then show ?thesis using law new Ok r(2) CInsert by simp
  next
    case (Err e)
    then show ?thesis using law r(2) CInsert tree_inv_same [OF inv(1), of s' t'] by auto
  next
    case Panic
    then show ?thesis using law by simp
  qed
next
  case (CDelete k)
  obtain r where r: "tree_delete D V k (s, t) = (r, (s', t'))" "ok = is_ok r"
    using run CDelete by (auto split: prod.splits)
  have "room s (m + Suc (unat (bt_height t)) + (h + 2 - unat (bt_height t)))"
    using room inv by (simp add: tree_inv_def numeral_3_eq_3)
  note law = tree_delete_law [OF _ room_diff [OF this] r(1)]
  show ?thesis
  proof (cases r)
    case (Ok b)
    then show ?thesis using law r(2) CDelete inv by (auto simp: tree_inv_def height_ok_def)
  next
    case (Err e)
    then show ?thesis using law r(2) CDelete inv tree_inv_same [OF inv(1), of s' t'] by (auto simp: tree_inv_def)
  next
    case Panic
    then show ?thesis using law inv by (simp add: tree_inv_def)
  qed
qed

lemma run_cmds_law:
  "tree_inv h s t \<Longrightarrow> 1 \<le> h \<Longrightarrow> room s (length cs * (h + 3)) \<Longrightarrow> \<forall>c \<in> set cs. cmd_valid valid c \<Longrightarrow>
   run_cmds D V cs (s, t) = (oks, (s', t')) \<Longrightarrow>
   keeps s s' \<and> tree_inv h s' t' \<and>
   btree_list (rdf s') V t' = abs_run (zip cs oks) (btree_list (rdf s) V t)"
proof (induction cs arbitrary: s t oks)
  case (Cons c cs)
  obtain ok s1 t1 where c: "exec_cmd D V c (s, t) = (ok, (s1, t1))" by (metis surj_pair)
  obtain oks' where cs: "run_cmds D V cs (s1, t1) = (oks', (s', t'))" "oks = ok # oks'"
    using Cons.prems(5) c by (auto split: prod.splits)
  have "room s (length cs * (h + 3) + (h + 3))" using Cons.prems(3) by (simp add: algebra_simps)
  note law = exec_cmd_law [OF Cons.prems(1,2) this _ c]
  then have "keeps s s1 \<and> room s1 (length cs * (h + 3)) \<and> tree_inv h s1 t1 \<and>
    btree_list (rdf s1) V t1 = (if ok then abs_cmd c (btree_list (rdf s) V t) else btree_list (rdf s) V t)"
    using Cons.prems(4) by simp
  with Cons.IH [of s1 t1 oks'] Cons.prems(2,4) cs keeps_trans [of s s1 s'] show ?case by simp
qed simp

end

section \<open>On the disk image\<close>

lemma file_cow_tree:
  assumes "tree_value V enc dec valid"
  shows "cow_tree file_store fd_alive fd_room {TreeIoError} V enc dec valid"
  by (intro cow_tree.intro assms fdev.block_store_axioms)

lemma file_cow_tree_sound:
  assumes "tree_value V enc dec valid"
  shows "cow_tree file_store fd_alive fd_sound {} V enc dec valid"
  by (intro cow_tree.intro assms fdok.block_store_axioms)

abbreviation fd_wf :: "file_device \<Rightarrow> 'v value_dict \<Rightarrow> bplus_tree \<Rightarrow> bool" where
  "fd_wf d V t \<equiv> wf_btree (\<lambda>b. st_read file_store b d) (fd_alive d) V t"

abbreviation fd_list :: "file_device \<Rightarrow> 'v value_dict \<Rightarrow> bplus_tree \<Rightarrow> (u64 \<times> 'v) list" where
  "fd_list d V t \<equiv> btree_list (\<lambda>b. st_read file_store b d) V t"

lemma st_read_file: "st_read file_store = fd_read_node"
  by (simp add: file_store_def)

lemma fd_list_new [simp]: "fd_list d V (BPlusTree_new 0 ty g) = []"
  by (simp add: btree_list_def BPlusTree_new_def)

lemma fd_wf_new [simp]: "fd_wf d V (BPlusTree_new 0 ty g)"
  by (simp add: wf_btree_def BPlusTree_new_def)

lemma height_ok_new [simp]: "height_ok (BPlusTree_new 0 ty g)" "bt_height (BPlusTree_new 0 ty g) = 0"
  by (simp_all add: height_ok_def BPlusTree_new_def)

lemma fd_room_new [simp]: "fd_room (FileBlockDevice_new sz io) n = (n + 5 \<le> 2 ^ 52)"
  by (auto simp: fd_room_def FileBlockDevice_new_def)

lemma fd_sound_new [simp]: "fd_sound (FileBlockDevice_new sz []) n = (n + 5 \<le> 2 ^ 52)"
  by (simp add: fd_sound_def) (simp add: FileBlockDevice_new_def)

lemma not_parent_full [simp]: "bt_height t = 0 \<Longrightarrow> \<not> parent_full rd t key"
  by (simp add: parent_full_def)

text \<open>The first insertion on a new image.\<close>

lemma first_insert:
  obtains b d t where
    "tree_insert file_store u64_value k v (FileBlockDevice_new 0 [], BPlusTree_new 0 ty g) = (Ok b, (d, t))"
    "fd_wf d u64_value t" "fd_list d u64_value t = [(k, v)]" "bt_height t = 0" "fd_sound d 9" "\<not> bt_is_empty t"
proof -
  let ?d = "FileBlockDevice_new 0 []" and ?t = "BPlusTree_new 0 ty g"
  obtain r d t where r: "tree_insert file_store u64_value k v (?d, ?t) = (r, (d, t))" by (metis surj_pair)
  have "fd_sound ?d (Suc 9)" "bt_is_empty ?t" by (simp_all add: bt_is_empty_def BPlusTree_new_def)
  from fdok.insert_into_empty [OF this(2,1) _ _ r]
  have law: "fd_sound d 9" "r \<noteq> Panic" "\<And>e. r \<noteq> Err e"
    "\<And>b. r = Ok b \<Longrightarrow> bt_height t = 0 \<and> fd_wf d u64_value t \<and> fd_list d u64_value t = [(k, v)]"
    by (auto split: res.splits)
  then obtain b where b: "r = Ok b" by (cases r) auto
  have "fd_list d u64_value t \<noteq> []" using law(4) [OF b] by simp
  then have "\<not> bt_is_empty t" by (rule btree_list_not_empty)
  with that [of b d t] law(1) law(4) [OF b] r b show ?thesis by simp
qed

section \<open>Properties\<close>

text \<open>C7. Searching a well-formed tree on the disk image finds exactly the value the tree stores
  under the key, and never fails.\<close>

theorem tree_search_finds:
  assumes "tree_value V enc dec valid" and "fd_wf d V t"
  shows "\<exists>path. tree_search file_store V t key d =
    Ok (case map_of (fd_list d V t) key of None \<Rightarrow> NotFound | Some v \<Rightarrow> Found v, path)"
proof -
  have ct: "cow_tree file_store fd_alive fd_room {TreeIoError} V enc dec valid"
    using file_cow_tree [OF assms(1)] .
  show ?thesis
    using cow_tree.tree_search_correct [OF ct assms(2), of key] cow_tree.found_def [OF ct] by auto
qed

theorem tree_search_finds_witness:
  "\<exists>b d t path.
     tree_insert file_store u64_value 7 42 (FileBlockDevice_new 0 [], BPlusTree_new 0 NInode 1) = (Ok b, (d, t)) \<and>
     tree_search file_store u64_value t 7 d = Ok (Found 42, path)"
proof -
  obtain b d t where f: "tree_insert file_store u64_value 7 42 (FileBlockDevice_new 0 [], BPlusTree_new 0 NInode 1) = (Ok b, (d, t))"
    "fd_wf d u64_value t" "fd_list d u64_value t = [(7, 42)]"
    by (rule first_insert)
  then show ?thesis
    using tree_search_finds [OF u64v.tree_value_axioms f(2), of 7] f(3) by (auto simp: map_of_Cons_code)
qed

text \<open>C5. Insertion on a disk image that does not fail: a key that is present is refused and the
  tree stays as it was; an absent key is inserted (the tree then stores exactly the old entries and
  the new one, in order, and is well-formed), the only exception being a full parent node below
  which a leaf would have to be split.\<close>

theorem tree_insert_refines:
  assumes "tree_value V enc dec valid" and "fd_wf d V t" and "height_ok t" and "valid v"
    and "fd_sound d (unat (bt_height t) + 3)"
    and "tree_insert file_store V key v (d, t) = (r, (d', t'))"
  shows "if key \<in> fst ` set (fd_list d V t)
    then r = Err DuplicateKey \<and> fd_list d' V t' = fd_list d V t
    else (\<exists>b. r = Ok b \<and> b = bt_root_block t' \<and> fd_wf d' V t' \<and> fd_list d' V t' = ins_list key v (fd_list d V t)) \<or>
      (r = Err NodeFull \<and> parent_full (\<lambda>b. st_read file_store b d) t key \<and> fd_list d' V t' = fd_list d V t)"
proof -
  have ct: "cow_tree file_store fd_alive fd_sound {} V enc dec valid"
    using file_cow_tree_sound [OF assms(1)] .
  have e: "bt_is_empty t \<longrightarrow> bt_height t = 0" using assms(3) by (simp add: height_ok_def)
  have rm: "fd_sound d (0 + (unat (bt_height t) + 3))" using assms(5) by simp
  note law = cow_tree.tree_insert_law [OF ct assms(2) e rm assms(4,6), unfolded fdok.keeps_def]
  then have same: "fd_list d' V t = fd_list d V t" using btree_list_same [OF assms(2)] by blast
  show ?thesis
  proof (cases r)
    case (Ok b)
    then show ?thesis using law by simp
  next
    case (Err x)
    then have "fd_list d' V t' = fd_list d V t" using law same btree_root_cong(1) [of t' t _ V] by simp
    then show ?thesis using law Err by (auto split: if_splits)
  next
    case Panic
    then show ?thesis using law by simp
  qed
qed

theorem tree_insert_refines_witness:
  "\<exists>b d t. tree_insert file_store u64_value 7 42 (FileBlockDevice_new 0 [], BPlusTree_new 0 NInode 1) = (Ok b, (d, t)) \<and>
     fd_list d u64_value t = [(7, 42)]"
proof -
  let ?d = "FileBlockDevice_new 0 []" and ?t = "BPlusTree_new 0 NInode 1"
  obtain r d t where r: "tree_insert file_store u64_value 7 42 (?d, ?t) = (r, (d, t))" by (metis surj_pair)
  from tree_insert_refines [OF u64v.tree_value_axioms _ _ _ _ r] show ?thesis
    using r by auto
qed

text \<open>C6. Deletion on a disk image that does not fail: an absent key is refused with \<open>KeyNotFound\<close>
  (\<open>EmptyTree\<close> when there is no root) and nothing changes; a key that is present is removed and its
  value returned, and the tree then stores exactly the other entries.\<close>

theorem tree_delete_refines:
  assumes "tree_value V enc dec valid" and "fd_wf d V t" and "fd_sound d (Suc (unat (bt_height t)))"
    and "tree_delete file_store V key (d, t) = (r, (d', t'))"
  shows "case map_of (fd_list d V t) key of
      None \<Rightarrow> r = Err (if bt_is_empty t then EmptyTree else KeyNotFound) \<and> fd_list d' V t' = fd_list d V t
    | Some v \<Rightarrow> r = Ok v \<and> fd_wf d' V t' \<and> fd_list d' V t' = del_list key (fd_list d V t)"
proof -
  have ct: "cow_tree file_store fd_alive fd_sound {} V enc dec valid"
    using file_cow_tree_sound [OF assms(1)] .
  have rm: "fd_sound d (0 + Suc (unat (bt_height t)))" using assms(3) by simp
  note law = cow_tree.tree_delete_law [OF ct assms(2) rm assms(4), unfolded fdok.keeps_def]
  then have same: "fd_list d' V t = fd_list d V t" using btree_list_same [OF assms(2)] by blast
  show ?thesis
  proof (cases r)
    case (Ok b)
    then show ?thesis using law by simp
  next
    case (Err x)
    then have "fd_list d' V t' = fd_list d V t" using law same btree_root_cong(1) [of t' t _ V] by simp
    then show ?thesis using law Err by (auto split: option.splits)
  next
    case Panic
    then show ?thesis using law by simp
  qed
qed

theorem tree_delete_refines_witness:
  "\<exists>b d t d' t'.
     tree_insert file_store u64_value 7 42 (FileBlockDevice_new 0 [], BPlusTree_new 0 NInode 1) = (Ok b, (d, t)) \<and>
     tree_delete file_store u64_value 7 (d, t) = (Ok 42, (d', t')) \<and> fd_list d' u64_value t' = []"
proof -
  obtain b d t where f: "tree_insert file_store u64_value 7 42 (FileBlockDevice_new 0 [], BPlusTree_new 0 NInode 1) = (Ok b, (d, t))"
    "fd_wf d u64_value t" "fd_list d u64_value t = [(7, 42)]" "bt_height t = 0" "fd_sound d 9"
    by (rule first_insert)
  obtain r d' t' where r: "tree_delete file_store u64_value 7 (d, t) = (r, (d', t'))" by (metis surj_pair)
  have "fd_sound d (Suc (unat (bt_height t)))" using f(4,5) by (simp add: fd_sound_def fd_room_def)
  from tree_delete_refines [OF u64v.tree_value_axioms f(2) this r] show ?thesis
    using f(1,3) r by (auto simp: del_list_def)
qed

text \<open>C2. Crash safety of copy-on-write. Run any sequence of insertions and deletions on a disk
  image whose writes may fail at any point, tearing the block being written. Nothing panics past an
  operation, the tree in memory is well-formed and stores what the operations that succeeded make of
  the initial entries, and every block that was in use before still holds what it held: the tree of
  the old root is still there, entry for entry, for a mount after a crash.\<close>

theorem tree_crash_safety:
  assumes "tree_value V enc dec valid" and "fd_wf d V t" and "height_ok t"
    and "\<forall>c \<in> set cs. cmd_valid valid c"
    and "fd_room d (length cs * (max 1 (unat (bt_height t)) + 3))"
    and "run_cmds file_store V cs (d, t) = (oks, (d', t'))"
  shows "fd_wf d' V t' \<and> fd_list d' V t' = abs_run (zip cs oks) (fd_list d V t) \<and>
    (\<forall>b \<in> fd_alive d. fd_read_node b d' = fd_read_node b d) \<and>
    fd_wf d' V t \<and> fd_list d' V t = fd_list d V t"
proof -
  have ct: "cow_tree file_store fd_alive fd_room {TreeIoError} V enc dec valid"
    using file_cow_tree [OF assms(1)] .
  let ?h = "max 1 (unat (bt_height t))"
  have inv: "cow_tree.tree_inv file_store fd_alive V ?h d t"
    using assms(2,3) by (simp add: cow_tree.tree_inv_def [OF ct])
  have law: "fdev.keeps d d'" "cow_tree.tree_inv file_store fd_alive V ?h d' t'"
    "fd_list d' V t' = abs_run (zip cs oks) (fd_list d V t)"
    using cow_tree.run_cmds_law [OF ct inv _ assms(5,4,6)] by simp_all
  then have same: "same_on (fd_alive d) (\<lambda>x. st_read file_store x d) (fd_alive d') (\<lambda>x. st_read file_store x d')"
    by (simp add: fdev.keeps_def)
  have "fd_wf d' V t'" using law(2) by (simp add: cow_tree.tree_inv_def [OF ct])
  then show ?thesis
    using law(3) same wf_btree_same [OF assms(2) same] btree_list_same [OF assms(2) same]
    by (simp add: same_on_def st_read_file)
qed

theorem tree_crash_safety_witness:
  "\<exists>b d t oks d' t'.
     tree_insert file_store u64_value 7 42 (FileBlockDevice_new 0 [], BPlusTree_new 0 NInode 1) = (Ok b, (d, t)) \<and>
     run_cmds file_store u64_value [CInsert 8 43, CDelete 7] (d\<lparr>fd_io := [None, None, Some 100]\<rparr>, t) = (oks, (d', t')) \<and>
     fd_list d' u64_value t' = abs_run (zip [CInsert 8 43, CDelete 7] oks) [(7, 42)] \<and>
     fd_list d' u64_value t = [(7, 42)]"
proof -
  obtain b d t where f: "tree_insert file_store u64_value 7 42 (FileBlockDevice_new 0 [], BPlusTree_new 0 NInode 1) = (Ok b, (d, t))"
    "fd_wf d u64_value t" "fd_list d u64_value t = [(7, 42)]" "bt_height t = 0" "fd_sound d 9"
    by (rule first_insert)
  let ?d = "d\<lparr>fd_io := [None, None, Some 100]\<rparr>"
  have rd: "fd_read_node b ?d = fd_read_node b d" for b by (simp add: fd_read_node_def Let_def)
  have wf: "fd_wf ?d u64_value t" "fd_list ?d u64_value t = [(7, 42)]"
    using f(2,3) by (simp_all add: st_read_file rd fd_alive_def)
  obtain oks d' t' where r: "run_cmds file_store u64_value [CInsert 8 43, CDelete 7] (?d, t) = (oks, (d', t'))"
    by (metis surj_pair)
  have h: "height_ok t" using f(4) by (simp add: height_ok_def)
  have rm: "fd_room ?d (length [CInsert 8 43, CDelete 7] * (max 1 (unat (bt_height t)) + 3))"
    using f(4,5) by (simp add: fd_sound_def fd_room_def)
  have "\<forall>c \<in> set [CInsert 8 43, CDelete 7]. cmd_valid (\<lambda>_. True) c" by simp
  from tree_crash_safety [OF u64v.tree_value_axioms wf(1) h this rm r] show ?thesis
    using f(1) r wf(2) by metis
qed

end
