(* ===== verification/Wfs_Inode.thy ===== *)
theory Wfs_Inode
  imports Wfs_Leaf
begin

text \<open>
  Inodes (\<^verbatim>\<open>src/crates/storage/wfs/src/core/inode.rs\<close>) and their storage as tree values
  (\<open>InodeValue\<close> in \<^verbatim>\<open>core/fs.rs\<close>). \<open>inode_bytes\<close> is the 256-byte \<open>repr(C)\<close> layout, which has no
  padding; \<open>serialize\<close> and \<open>deserialize\<close> copy these bytes.
\<close>

section \<open>Definitions\<close>

definition INODE_SIZE :: nat where "INODE_SIZE = 256"
definition INODE_INLINE_SIZE :: nat where "INODE_INLINE_SIZE = 160"
definition INODE_SHARED :: u32 where "INODE_SHARED = 0x0008"
definition INODE_INLINE :: u32 where "INODE_INLINE = 0x0010"

record inode =
  i_inode_num :: u64
  i_mode :: u32
  i_flags :: u32
  i_size :: u64
  i_blocks :: u64
  i_uid :: u32
  i_gid :: u32
  i_atime :: u64
  i_mtime :: u64
  i_ctime :: u64
  i_nlink :: u32
  i_pad0 :: u32
  i_extent_root :: u64
  i_refcount :: u64
  i_inline_size :: u16
  i_pad1 :: u16
  i_crc32 :: u32
  i_inline_data :: "byte list"

definition Inode_new :: "u64 \<Rightarrow> u32 \<Rightarrow> inode" where
  "Inode_new inode_num mode =
     \<lparr>i_inode_num = inode_num, i_mode = mode, i_flags = 0, i_size = 0, i_blocks = 0,
      i_uid = 0, i_gid = 0, i_atime = 0, i_mtime = 0, i_ctime = 0, i_nlink = 1, i_pad0 = 0,
      i_extent_root = 0, i_refcount = 1, i_inline_size = 0, i_pad1 = 0, i_crc32 = 0,
      i_inline_data = replicate INODE_INLINE_SIZE 0\<rparr>"

text \<open>The permission bits \<open>0o644\<close>, \<open>0o755\<close> and \<open>0o777\<close> are written in hexadecimal.\<close>

definition new_file :: "u64 \<Rightarrow> inode" where
  "new_file inode_num = Inode_new inode_num (S_IFREG OR 0x1A4)"

definition new_directory :: "u64 \<Rightarrow> inode" where
  "new_directory inode_num = (Inode_new inode_num (S_IFDIR OR 0x1ED))\<lparr>i_nlink := 2\<rparr>"

definition new_symlink :: "u64 \<Rightarrow> inode" where
  "new_symlink inode_num = Inode_new inode_num (S_IFLNK OR 0x1FF)"

definition inode_is_file :: "inode \<Rightarrow> bool" where
  "inode_is_file i \<longleftrightarrow> i_mode i AND S_IFMT = S_IFREG"

definition inode_is_directory :: "inode \<Rightarrow> bool" where
  "inode_is_directory i \<longleftrightarrow> i_mode i AND S_IFMT = S_IFDIR"

definition inode_is_symlink :: "inode \<Rightarrow> bool" where
  "inode_is_symlink i \<longleftrightarrow> i_mode i AND S_IFMT = S_IFLNK"

definition is_inline :: "inode \<Rightarrow> bool" where
  "is_inline i \<longleftrightarrow> i_flags i AND INODE_INLINE \<noteq> 0 \<or> i_inline_size i > 0"

definition inode_is_shared :: "inode \<Rightarrow> bool" where
  "inode_is_shared i \<longleftrightarrow> i_refcount i > 1 \<or> i_flags i AND INODE_SHARED \<noteq> 0"

definition can_inline :: "nat \<Rightarrow> bool" where
  "can_inline n \<longleftrightarrow> n \<le> INLINE_DATA_MAX"

definition set_inline_data :: "byte list \<Rightarrow> inode \<Rightarrow> bool \<times> inode" where
  "set_inline_data data i =
     (if length data > INODE_INLINE_SIZE then (False, i)
      else (True, i\<lparr>i_inline_data := copy_into (i_inline_data i) 0 data, i_inline_size := of_nat (length data),
        i_size := of_nat (length data), i_flags := i_flags i OR INODE_INLINE\<rparr>))"

text \<open>\<open>&inline_data[..inline_size]\<close>, which panics when \<open>inline_size\<close> exceeds the area.\<close>

definition get_inline_data :: "inode \<Rightarrow> (tree_error, byte list) res" where
  "get_inline_data i =
     (if unat (i_inline_size i) \<le> length (i_inline_data i)
      then Ok (take (unat (i_inline_size i)) (i_inline_data i)) else Panic)"

definition inode_bytes :: "inode \<Rightarrow> byte list" where
  "inode_bytes i =
     enc_word 8 (i_inode_num i) @ enc_word 4 (i_mode i) @ enc_word 4 (i_flags i) @
     enc_word 8 (i_size i) @ enc_word 8 (i_blocks i) @ enc_word 4 (i_uid i) @ enc_word 4 (i_gid i) @
     enc_word 8 (i_atime i) @ enc_word 8 (i_mtime i) @ enc_word 8 (i_ctime i) @
     enc_word 4 (i_nlink i) @ enc_word 4 (i_pad0 i) @ enc_word 8 (i_extent_root i) @
     enc_word 8 (i_refcount i) @ enc_word 2 (i_inline_size i) @ enc_word 2 (i_pad1 i) @
     enc_word 4 (i_crc32 i) @ i_inline_data i"

definition inode_of_bytes :: "byte list \<Rightarrow> inode" where
  "inode_of_bytes bs =
     \<lparr>i_inode_num = dec_word (take 8 bs), i_mode = dec_word (take 4 (drop 8 bs)),
      i_flags = dec_word (take 4 (drop 12 bs)), i_size = dec_word (take 8 (drop 16 bs)),
      i_blocks = dec_word (take 8 (drop 24 bs)), i_uid = dec_word (take 4 (drop 32 bs)),
      i_gid = dec_word (take 4 (drop 36 bs)), i_atime = dec_word (take 8 (drop 40 bs)),
      i_mtime = dec_word (take 8 (drop 48 bs)), i_ctime = dec_word (take 8 (drop 56 bs)),
      i_nlink = dec_word (take 4 (drop 64 bs)), i_pad0 = dec_word (take 4 (drop 68 bs)),
      i_extent_root = dec_word (take 8 (drop 72 bs)), i_refcount = dec_word (take 8 (drop 80 bs)),
      i_inline_size = dec_word (take 2 (drop 88 bs)), i_pad1 = dec_word (take 2 (drop 90 bs)),
      i_crc32 = dec_word (take 4 (drop 92 bs)), i_inline_data = drop 96 bs\<rparr>"

text \<open>The checksum covers the first 74 bytes.\<close>

definition inode_calculate_crc :: "inode \<Rightarrow> u32" where
  "inode_calculate_crc i = crc32 (take 74 (inode_bytes i))"

definition inode_update_crc :: "inode \<Rightarrow> inode" where
  "inode_update_crc i = i\<lparr>i_crc32 := inode_calculate_crc i\<rparr>"

definition inode_verify_crc :: "inode \<Rightarrow> bool" where
  "inode_verify_crc i \<longleftrightarrow> i_crc32 i = inode_calculate_crc i"

definition inode_inc_refcount :: "inode \<Rightarrow> inode" where
  "inode_inc_refcount i =
     (let i = i\<lparr>i_refcount := saturating_add (i_refcount i) 1\<rparr> in
      if i_refcount i > 1 then i\<lparr>i_flags := i_flags i OR INODE_SHARED\<rparr> else i)"

definition inode_dec_refcount :: "inode \<Rightarrow> u64 \<times> inode" where
  "inode_dec_refcount i =
     (let i = i\<lparr>i_refcount := saturating_sub (i_refcount i) 1\<rparr>;
          i = (if i_refcount i \<le> 1 then i\<lparr>i_flags := i_flags i AND NOT INODE_SHARED\<rparr> else i) in
      (i_refcount i, i))"

definition inode_serialize :: "inode \<Rightarrow> byte list \<Rightarrow> nat \<times> byte list" where
  "inode_serialize i buf = write_front (inode_bytes i) INODE_SIZE buf"

definition inode_deserialize :: "byte list \<Rightarrow> (inode \<times> nat) option" where
  "inode_deserialize buf =
     (if length buf \<ge> INODE_SIZE then Some (inode_of_bytes (take INODE_SIZE buf), INODE_SIZE) else None)"

definition inode_value :: "inode value_dict" where
  "inode_value = \<lparr>vd_size = INODE_SIZE, vd_serialize = inode_serialize, vd_deserialize = inode_deserialize\<rparr>"

definition wf_inode :: "inode \<Rightarrow> bool" where
  "wf_inode i \<longleftrightarrow> length (i_inline_data i) = INODE_INLINE_SIZE"

section \<open>Lemmas\<close>

lemma inode_sizes [simp]: "INODE_SIZE = 256" "INODE_INLINE_SIZE = 160"
  by (simp_all add: INODE_SIZE_def INODE_INLINE_SIZE_def)

lemma inode_bytes_inverse: "inode_of_bytes (inode_bytes i) = i"
  by (simp add: inode_of_bytes_def inode_bytes_def dec_enc_word)

lemma length_inode_bytes: "wf_inode i \<Longrightarrow> length (inode_bytes i) = 256"
  by (simp add: inode_bytes_def wf_inode_def)

interpretation inodev: tree_value inode_value inode_bytes inode_of_bytes wf_inode
  by unfold_locales
    (simp_all add: inode_value_def inode_serialize_def inode_deserialize_def length_inode_bytes
      inode_bytes_inverse wf_inode_def [of "inode_of_bytes _"], simp_all add: inode_of_bytes_def)

lemma wf_inode_ops [simp]:
  "wf_inode (Inode_new n m)" "wf_inode (new_directory n)" "wf_inode (inode_update_crc i) = wf_inode i"
  by (simp_all add: wf_inode_def Inode_new_def new_directory_def inode_update_crc_def)

text \<open>What the checksum sees of an inode.\<close>

lemma take_74_inode:
  "take 74 (inode_bytes i) =
     enc_word 8 (i_inode_num i) @ enc_word 4 (i_mode i) @ enc_word 4 (i_flags i) @
     enc_word 8 (i_size i) @ enc_word 8 (i_blocks i) @ enc_word 4 (i_uid i) @ enc_word 4 (i_gid i) @
     enc_word 8 (i_atime i) @ enc_word 8 (i_mtime i) @ enc_word 8 (i_ctime i) @
     enc_word 4 (i_nlink i) @ enc_word 4 (i_pad0 i) @ take 2 (enc_word 8 (i_extent_root i))"
  by (simp add: inode_bytes_def)

lemma take_to_le: "k \<le> n \<Longrightarrow> take k (to_le n x) = to_le k x"
proof (induction k arbitrary: n x)
  case (Suc k)
  then show ?case by (cases n) simp_all
qed simp

lemma to_le_2: "to_le 2 x = [of_nat x, of_nat (x div 256)]"
  by (simp add: numeral_2_eq_2)

lemma unat_saturating_add_1: "unat (saturating_add (r :: u64) 1) = min (unat r + 1) (2 ^ 64 - 1)"
proof -
  have "unat (- 1 :: u64) = 2 ^ 64 - 1"
    by (simp add: unsigned_minus_1_eq_mask mask_eq_exp_minus_1)
  then show ?thesis
    using unat_u64_bound [of r] by (auto simp: saturating_add_def unat_word_ariths)
qed

lemma unat_saturating_sub_1: "unat (saturating_sub (r :: u64) 1) = unat r - 1"
proof (cases "r = 0")
  case False
  then have "1 \<le> r" by (simp add: word_le_nat_alt unat_gt_0 Suc_leI)
  then show ?thesis by (simp add: saturating_sub_def unat_sub)
qed (simp add: saturating_sub_def)

lemma shared_flag:
  "(f OR INODE_SHARED) AND INODE_SHARED \<noteq> 0" "(f AND NOT INODE_SHARED) AND INODE_SHARED = 0"
proof -
  have "(f OR INODE_SHARED) AND INODE_SHARED = INODE_SHARED" by (rule word_ao_absorbs)
  then show "(f OR INODE_SHARED) AND INODE_SHARED \<noteq> 0" by (simp add: INODE_SHARED_def)
  show "(f AND NOT INODE_SHARED) AND INODE_SHARED = 0"
    by (simp add: and.assoc and.commute [of "NOT INODE_SHARED"])
qed

section \<open>Properties\<close>

text \<open>Inline data: content of at most 160 bytes is stored in the inode and read back unchanged,
  and the inode's size is its length; longer content is refused and the inode is unchanged.\<close>

lemma inline_data_roundtrip:
  assumes "wf_inode i" and "set_inline_data data i = (ok, i')"
  shows "if length data \<le> 160
    then ok \<and> get_inline_data i' = Ok data \<and> is_inline i' \<and> unat (i_size i') = length data \<and> wf_inode i'
    else \<not> ok \<and> i' = i"
proof (cases "length data \<le> 160")
  case True
  then have s: "unat (of_nat (length data) :: u16) = length data" "unat (of_nat (length data) :: u64) = length data"
    by (simp_all add: unat_of_nat)
  have f: "(i_flags i OR INODE_INLINE) AND INODE_INLINE \<noteq> 0"
    using word_ao_absorbs(5) [of "i_flags i" INODE_INLINE] by (simp add: INODE_INLINE_def)
  have "length (copy_into (i_inline_data i) 0 data) = 160"
    using assms(1) True by (simp add: wf_inode_def)
  moreover have "take (length data) (copy_into (i_inline_data i) 0 data) = data"
    using slice_copy_into_same [of 0 data "i_inline_data i"] assms(1) True by (simp add: wf_inode_def)
  ultimately show ?thesis
    using True assms(2) s f by (auto simp: set_inline_data_def get_inline_data_def is_inline_def wf_inode_def)
qed (use assms(2) in \<open>simp add: set_inline_data_def\<close>)

lemma inline_data_roundtrip_example:
  "get_inline_data (snd (set_inline_data [104, 105] (new_file 7))) = Ok [104, 105]"
proof -
  have "wf_inode (new_file 7)" by (simp add: new_file_def)
  from inline_data_roundtrip [OF this, of "[104, 105]"] show ?thesis
    by (cases "set_inline_data [104, 105] (new_file 7)") simp
qed

text \<open>The inode checksum does not protect the location of the data: it covers 74 bytes, up to
  the second byte of \<open>extent_root\<close>, although the checksum field is at offset 92. An inode whose
  extent root was replaced by any block that agrees in the low 16 bits, whose reference count, inline
  length or inline data were changed, still passes verification.\<close>

lemma inode_crc_ignores_data_location:
  assumes "e mod 65536 = unat (i_extent_root i) mod 65536"
  shows "inode_verify_crc ((inode_update_crc i)
    \<lparr>i_extent_root := of_nat e, i_refcount := r, i_inline_size := n, i_inline_data := d\<rparr>)"
proof -
  have two: "take 2 (enc_word 8 (w :: u64)) = to_le 2 (unat w mod 65536)" for w
  proof -
    have "unat w mod 65536 = 256 * (unat w div 256 mod 256) + unat w mod 256"
      using mod_mult2_eq [of "unat w" 256 256] by simp
    then have "unat w mod 65536 mod 256 = unat w mod 256" "unat w mod 65536 div 256 mod 256 = unat w div 256 mod 256"
      by simp_all
    then have "(of_nat (unat w mod 65536) :: byte) = of_nat (unat w)"
      "(of_nat (unat w mod 65536 div 256) :: byte) = of_nat (unat w div 256)"
      by (simp_all only: word_unat_eq_iff unat_of_nat) simp_all
    then show ?thesis by (simp add: enc_word_def take_to_le to_le_2)
  qed
  have "unat (of_nat e :: u64) mod 65536 = unat (i_extent_root i) mod 65536"
    using assms by (simp add: unat_of_nat mod_mod_cancel)
  then show ?thesis
    by (simp add: inode_verify_crc_def inode_update_crc_def inode_calculate_crc_def take_74_inode two)
qed

lemma inode_crc_ignores_data_location_example:
  "inode_verify_crc ((inode_update_crc (new_directory 1))\<lparr>i_extent_root := of_nat 65536, i_refcount := 9,
     i_inline_size := 3, i_inline_data := [1, 2, 3]\<rparr>)"
  using inode_crc_ignores_data_location [where e = 65536 and i = "new_directory 1" and r = 9 and n = 3 and d = "[1, 2, 3]"]
  by (simp add: new_directory_def Inode_new_def)

text \<open>Reference counts: the shared flag follows the count (it is set exactly when the count
  exceeds 1) through every increment and decrement, the count saturates at both ends instead of
  wrapping, and dropping the reference just taken restores the count.\<close>

lemma inode_refcount_correct:
  assumes "i_flags i AND INODE_SHARED \<noteq> 0 \<longleftrightarrow> i_refcount i > 1"
  shows "(let j = inode_inc_refcount i; (n, k) = inode_dec_refcount j in
      (i_flags j AND INODE_SHARED \<noteq> 0 \<longleftrightarrow> i_refcount j > 1) \<and>
      unat (i_refcount j) = min (unat (i_refcount i) + 1) (2 ^ 64 - 1) \<and>
      (i_flags k AND INODE_SHARED \<noteq> 0 \<longleftrightarrow> i_refcount k > 1) \<and> n = i_refcount k \<and>
      (unat (i_refcount i) < 2 ^ 64 - 1 \<longrightarrow> n = i_refcount i))"
proof -
  let ?r = "i_refcount i" and ?j = "inode_inc_refcount i"
  have inc: "i_refcount ?j = saturating_add ?r 1"
    "i_flags ?j AND INODE_SHARED \<noteq> 0 \<longleftrightarrow> i_refcount ?j > 1"
    using assms shared_flag unat_saturating_add_1 [of ?r]
    by (auto simp: inode_inc_refcount_def Let_def word_less_nat_alt)
  obtain n k where k: "inode_dec_refcount ?j = (n, k)" by fastforce
  have dec: "n = saturating_sub (i_refcount ?j) 1" "i_refcount k = n" "i_flags k AND INODE_SHARED \<noteq> 0 \<longleftrightarrow> n > 1"
    using inc(2) k shared_flag unat_saturating_sub_1 [of "i_refcount ?j"]
    by (auto simp: inode_dec_refcount_def Let_def word_less_nat_alt word_le_nat_alt split: if_splits)
  have "n = ?r" if "unat ?r < 2 ^ 64 - 1"
    using that unat_saturating_add_1 [of ?r] unat_saturating_sub_1 [of "i_refcount ?j"] dec(1) inc(1)
    by (simp add: word_unat_eq_iff)
  then show ?thesis
    using inc unat_saturating_add_1 [of ?r] k dec by simp
qed

lemma inode_refcount_correct_example:
  "fst (inode_dec_refcount (inode_inc_refcount (Inode_new 3 0))) = 1"
proof -
  have i: "i_flags (Inode_new 3 0) = 0" "i_refcount (Inode_new 3 0) = 1" by (simp_all add: Inode_new_def)
  show ?thesis
    using inode_refcount_correct [of "Inode_new 3 0"] by (auto simp: i Let_def case_prod_beta)
qed

end
