(* ===== verification/Wfs_Dir.thy ===== *)
theory Wfs_Dir
  imports Wfs_Leaf
begin

text \<open>
  Directory entries (\<^verbatim>\<open>src/crates/storage/wfs/src/core/dir.rs\<close>) and their storage as tree values
  (\<open>DirEntryValue\<close> in \<^verbatim>\<open>core/fs.rs\<close>). A \<open>&str\<close> is its list of UTF-8 bytes; \<open>utf8_valid\<close> is the
  validity \<open>core::str::from_utf8\<close> checks. The \<open>repr(C)\<close> layout has four padding bytes before
  \<open>name_hash\<close>, whose contents the language does not fix: they are zero here, and nothing reads them.
\<close>

section \<open>Definitions\<close>

datatype entry_type = EUnknown | EFile | EDirectory | ESymlink | EBlockDevice | ECharDevice | EFifo | ESocket

primrec entry_type_u8 :: "entry_type \<Rightarrow> byte" where
  "entry_type_u8 EUnknown = 0"
| "entry_type_u8 EFile = 1"
| "entry_type_u8 EDirectory = 2"
| "entry_type_u8 ESymlink = 3"
| "entry_type_u8 EBlockDevice = 4"
| "entry_type_u8 ECharDevice = 5"
| "entry_type_u8 EFifo = 6"
| "entry_type_u8 ESocket = 7"

definition from_u8 :: "byte \<Rightarrow> entry_type" where
  "from_u8 v =
     (if v = 1 then EFile else if v = 2 then EDirectory else if v = 3 then ESymlink
      else if v = 4 then EBlockDevice else if v = 5 then ECharDevice else if v = 6 then EFifo
      else if v = 7 then ESocket else EUnknown)"

record dir_entry =
  de_inode_num :: u64
  de_entry_type :: byte
  de_name_len :: byte
  de_pad :: u16
  de_name_hash :: u64
  de_name :: "byte list"

definition DIRENTRY_SIZE :: nat where "DIRENTRY_SIZE = 280"

definition FNV_OFFSET :: u64 where "FNV_OFFSET = 0xcbf29ce484222325"
definition FNV_PRIME :: u64 where "FNV_PRIME = 0x100000001b3"

definition hash_name :: "byte list \<Rightarrow> u64" where
  "hash_name name = fold (\<lambda>b hash. (hash XOR ucast b) * FNV_PRIME) name FNV_OFFSET"

definition DirEntry_new :: "byte list \<Rightarrow> u64 \<Rightarrow> entry_type \<Rightarrow> dir_entry option" where
  "DirEntry_new name inode_num ety =
     (if name = [] \<or> length name > MAX_FILENAME then None
      else Some \<lparr>de_inode_num = inode_num, de_entry_type = entry_type_u8 ety,
        de_name_len = of_nat (length name), de_pad = 0, de_name_hash = hash_name name,
        de_name = copy_into (replicate 256 0) 0 name\<rparr>)"

definition cont_byte :: "byte \<Rightarrow> bool" where
  "cont_byte b \<longleftrightarrow> 0x80 \<le> b \<and> b \<le> 0xBF"

fun utf8_valid :: "byte list \<Rightarrow> bool" where
  "utf8_valid [] = True"
| "utf8_valid (a # bs) =
     (if a \<le> 0x7F then utf8_valid bs
      else if 0xC2 \<le> a \<and> a \<le> 0xDF then
        (case bs of b # cs \<Rightarrow> cont_byte b \<and> utf8_valid cs | _ \<Rightarrow> False)
      else if 0xE0 \<le> a \<and> a \<le> 0xEF then
        (case bs of b # c # ds \<Rightarrow> cont_byte b \<and> cont_byte c \<and> (a = 0xE0 \<longrightarrow> 0xA0 \<le> b) \<and>
           (a = 0xED \<longrightarrow> b \<le> 0x9F) \<and> utf8_valid ds | _ \<Rightarrow> False)
      else if 0xF0 \<le> a \<and> a \<le> 0xF4 then
        (case bs of b # c # d # es \<Rightarrow> cont_byte b \<and> cont_byte c \<and> cont_byte d \<and>
           (a = 0xF0 \<longrightarrow> 0x90 \<le> b) \<and> (a = 0xF4 \<longrightarrow> b \<le> 0x8F) \<and> utf8_valid es | _ \<Rightarrow> False)
      else False)"

definition name_str :: "dir_entry \<Rightarrow> byte list" where
  "name_str e = (let s = take (unat (de_name_len e)) (de_name e) in if utf8_valid s then s else [])"

definition matches :: "dir_entry \<Rightarrow> byte list \<Rightarrow> bool" where
  "matches e name \<longleftrightarrow> de_name_hash e = hash_name name \<and> name_str e = name"

definition de_type :: "dir_entry \<Rightarrow> entry_type" where
  "de_type e = from_u8 (de_entry_type e)"

definition de_is_directory :: "dir_entry \<Rightarrow> bool" where
  "de_is_directory e \<longleftrightarrow> de_type e = EDirectory"

definition de_is_file :: "dir_entry \<Rightarrow> bool" where
  "de_is_file e \<longleftrightarrow> de_type e = EFile"

definition de_is_valid :: "dir_entry \<Rightarrow> bool" where
  "de_is_valid e \<longleftrightarrow> de_inode_num e \<noteq> 0 \<and> de_name_len e > 0 \<and> de_name_len e \<le> of_nat MAX_FILENAME"

definition dot_entry :: "u64 \<Rightarrow> dir_entry" where
  "dot_entry inode_num = the (DirEntry_new (bytes_of_string ''.'') inode_num EDirectory)"

definition dotdot_entry :: "u64 \<Rightarrow> dir_entry" where
  "dotdot_entry parent_inode = the (DirEntry_new (bytes_of_string ''..'') parent_inode EDirectory)"

definition direntry_bytes :: "dir_entry \<Rightarrow> byte list" where
  "direntry_bytes e =
     enc_word 8 (de_inode_num e) @ [de_entry_type e, de_name_len e] @ enc_word 2 (de_pad e) @
     [0, 0, 0, 0] @ enc_word 8 (de_name_hash e) @ de_name e"

definition direntry_of_bytes :: "byte list \<Rightarrow> dir_entry" where
  "direntry_of_bytes bs =
     \<lparr>de_inode_num = dec_word (take 8 bs), de_entry_type = bs ! 8, de_name_len = bs ! 9,
      de_pad = dec_word (take 2 (drop 10 bs)), de_name_hash = dec_word (take 8 (drop 16 bs)),
      de_name = drop 24 bs\<rparr>"

definition direntry_serialize :: "dir_entry \<Rightarrow> byte list \<Rightarrow> nat \<times> byte list" where
  "direntry_serialize e buf = write_front (direntry_bytes e) DIRENTRY_SIZE buf"

definition direntry_deserialize :: "byte list \<Rightarrow> (dir_entry \<times> nat) option" where
  "direntry_deserialize buf =
     (if length buf \<ge> DIRENTRY_SIZE then Some (direntry_of_bytes (take DIRENTRY_SIZE buf), DIRENTRY_SIZE) else None)"

definition direntry_value :: "dir_entry value_dict" where
  "direntry_value = \<lparr>vd_size = DIRENTRY_SIZE, vd_serialize = direntry_serialize, vd_deserialize = direntry_deserialize\<rparr>"

definition wf_direntry :: "dir_entry \<Rightarrow> bool" where
  "wf_direntry e \<longleftrightarrow> length (de_name e) = 256"

section \<open>Lemmas\<close>

lemma DIRENTRY_SIZE_eq [simp]: "DIRENTRY_SIZE = 280"
  by (simp add: DIRENTRY_SIZE_def)

lemma from_u8_inverse [simp]: "from_u8 (entry_type_u8 t) = t"
  by (cases t) (simp_all add: from_u8_def)

lemma direntry_bytes_inverse: "direntry_of_bytes (direntry_bytes e) = e"
  by (simp add: direntry_of_bytes_def direntry_bytes_def dec_enc_word nth_append)

lemma length_direntry_bytes: "wf_direntry e \<Longrightarrow> length (direntry_bytes e) = 280"
  by (simp add: direntry_bytes_def wf_direntry_def)

interpretation direntryv: tree_value direntry_value direntry_bytes direntry_of_bytes wf_direntry
  by unfold_locales
    (simp_all add: direntry_value_def direntry_serialize_def direntry_deserialize_def
      direntry_bytes_inverse length_direntry_bytes wf_direntry_def [of "direntry_of_bytes _"],
     simp_all add: direntry_of_bytes_def)

lemma DirEntry_new_fields:
  assumes "DirEntry_new name n ty = Some e"
  shows "de_inode_num e = n" "de_type e = ty" "de_name_hash e = hash_name name" "wf_direntry e"
    "take (unat (de_name_len e)) (de_name e) = name" "unat (de_name_len e) = length name" "name \<noteq> []"
proof -
  have name: "name \<noteq> []" "length name \<le> 255" and
    e: "e = \<lparr>de_inode_num = n, de_entry_type = entry_type_u8 ty, de_name_len = of_nat (length name), de_pad = 0,
      de_name_hash = hash_name name, de_name = copy_into (replicate 256 0) 0 name\<rparr>"
    using assms by (auto simp: DirEntry_new_def MAX_FILENAME_def split: if_splits)
  have len: "unat (of_nat (length name) :: byte) = length name"
    using name(2) by (simp add: unat_of_nat)
  then show "de_inode_num e = n" "de_type e = ty" "de_name_hash e = hash_name name" "wf_direntry e"
    "unat (de_name_len e) = length name" "name \<noteq> []"
    using name by (simp_all add: e de_type_def wf_direntry_def)
  show "take (unat (de_name_len e)) (de_name e) = name"
    using slice_copy_into_same [of 0 name "replicate 256 0"] name(2) len by (simp add: e)
qed

section \<open>Properties\<close>

text \<open>A directory entry is created for every non-empty name of at most 255 bytes, and only for
  those. It keeps the name, the inode and the type, also through storage on disk, is valid for a
  nonzero inode, and matches exactly the name it was created with.\<close>

lemma direntry_correct:
  assumes "utf8_valid name" and "utf8_valid other"
  shows "case DirEntry_new name n ty of
      None \<Rightarrow> name = [] \<or> length name > 255
    | Some e \<Rightarrow> name \<noteq> [] \<and> length name \<le> 255 \<and> name_str e = name \<and> de_type e = ty \<and> de_inode_num e = n \<and>
        direntry_deserialize (direntry_bytes e) = Some (e, 280) \<and>
        (de_is_valid e \<longleftrightarrow> n \<noteq> 0) \<and> (matches e other \<longleftrightarrow> other = name)"
proof (cases "DirEntry_new name n ty")
  case None
  then show ?thesis by (auto simp: DirEntry_new_def MAX_FILENAME_def split: if_splits)
next
  case (Some e)
  note f = DirEntry_new_fields [OF Some]
  have len: "length name \<le> 255" using Some by (auto simp: DirEntry_new_def MAX_FILENAME_def split: if_splits)
  have name: "name_str e = name" using assms(1) f(5) by (simp add: name_str_def)
  have "direntry_deserialize (direntry_bytes e) = Some (e, 280)"
    using direntry_bytes_inverse [of e] f(4) by (simp add: direntry_deserialize_def direntry_bytes_def wf_direntry_def)
  moreover have "de_is_valid e \<longleftrightarrow> n \<noteq> 0"
    using f(1,6,7) len by (auto simp: de_is_valid_def MAX_FILENAME_def word_less_nat_alt word_le_nat_alt)
  ultimately show ?thesis
    using Some f(1,2,3,7) len name by (auto simp: matches_def)
qed

lemma direntry_correct_example:
  "\<exists>e. DirEntry_new [97, 195, 169] 5 EFile = Some e \<and> matches e [97, 195, 169] \<and> \<not> matches e [97]"
proof -
  have "utf8_valid [97, 195, 169]" "utf8_valid [97]" by (simp_all add: cont_byte_def)
  moreover obtain e where "DirEntry_new [97, 195, 169] 5 EFile = Some e"
    by (simp add: DirEntry_new_def MAX_FILENAME_def)
  ultimately show ?thesis
    using direntry_correct [where name = "[97, 195, 169]" and other = "[97]" and n = 5 and ty = EFile]
      direntry_correct [where name = "[97, 195, 169]" and other = "[97, 195, 169]" and n = 5 and ty = EFile] by auto
qed

end
