(* ===== verification/Wfs_Extent.thy ===== *)
theory Wfs_Extent
  imports Wfs_Leaf
begin

text \<open>
  Extents (\<^verbatim>\<open>src/crates/storage/wfs/src/core/extent.rs\<close>): a run of file bytes on consecutive disk
  blocks, with splitting, merging and reference counts, and their storage as tree values
  (\<open>ExtentValue\<close> in \<^verbatim>\<open>core/fs.rs\<close>).
\<close>

section \<open>Definitions\<close>

definition EXTENT_SIZE :: nat where "EXTENT_SIZE = 40"
definition EXTENT_SHARED :: u32 where "EXTENT_SHARED = 0x0001"
definition EXTENT_HOLE :: u32 where "EXTENT_HOLE = 0x0008"

abbreviation BS :: u64 where "BS \<equiv> of_nat BLOCK_SIZE"

record extent =
  e_file_offset :: u64
  e_disk_block :: u64
  e_length :: u64
  e_flags :: u32
  e_refcount :: u32
  e_crc32 :: u32
  e_generation :: u32

definition Extent_new :: "u64 \<Rightarrow> u64 \<Rightarrow> u64 \<Rightarrow> extent" where
  "Extent_new file_offset disk_block len =
     \<lparr>e_file_offset = file_offset, e_disk_block = disk_block, e_length = len, e_flags = 0,
      e_refcount = 1, e_crc32 = 0, e_generation = 0\<rparr>"

definition Extent_hole :: "u64 \<Rightarrow> u64 \<Rightarrow> extent" where
  "Extent_hole file_offset len =
     \<lparr>e_file_offset = file_offset, e_disk_block = 0, e_length = len, e_flags = EXTENT_HOLE,
      e_refcount = 0, e_crc32 = 0, e_generation = 0\<rparr>"

definition is_hole :: "extent \<Rightarrow> bool" where
  "is_hole e \<longleftrightarrow> e_flags e AND EXTENT_HOLE \<noteq> 0"

definition extent_is_shared :: "extent \<Rightarrow> bool" where
  "extent_is_shared e \<longleftrightarrow> e_refcount e > 1 \<or> e_flags e AND EXTENT_SHARED \<noteq> 0"

definition block_count :: "extent \<Rightarrow> u64" where
  "block_count e = (e_length e + BS - 1) div BS"

definition chunk_count :: "extent \<Rightarrow> u64" where
  "chunk_count e = (e_length e + of_nat DEFAULT_CHUNK_SIZE - 1) div of_nat DEFAULT_CHUNK_SIZE"

definition file_end :: "extent \<Rightarrow> u64" where
  "file_end e = e_file_offset e + e_length e"

definition disk_end :: "extent \<Rightarrow> u64" where
  "disk_end e = e_disk_block e + block_count e"

definition contains_offset :: "extent \<Rightarrow> u64 \<Rightarrow> bool" where
  "contains_offset e off \<longleftrightarrow> off \<ge> e_file_offset e \<and> off < file_end e"

definition offset_to_block :: "extent \<Rightarrow> u64 \<Rightarrow> u64 option" where
  "offset_to_block e file_off =
     (if \<not> contains_offset e file_off then None
      else if is_hole e then None
      else
        let offset_in_extent = file_off - e_file_offset e;
            block_in_extent = offset_in_extent div BS in
        Some (e_disk_block e + block_in_extent))"

definition split_at :: "extent \<Rightarrow> u64 \<Rightarrow> (extent \<times> extent) option" where
  "split_at e split_offset =
     (if split_offset \<le> e_file_offset e \<or> split_offset \<ge> file_end e then None
      else
        let left_length = split_offset - e_file_offset e;
            right_length = e_length e - left_length;
            left_blocks = (left_length + BS - 1) div BS in
        Some
          (\<lparr>e_file_offset = e_file_offset e, e_disk_block = e_disk_block e, e_length = left_length,
            e_flags = e_flags e, e_refcount = e_refcount e, e_crc32 = 0, e_generation = e_generation e\<rparr>,
           \<lparr>e_file_offset = split_offset,
            e_disk_block = (if is_hole e then 0 else e_disk_block e + left_blocks),
            e_length = right_length, e_flags = e_flags e, e_refcount = e_refcount e, e_crc32 = 0,
            e_generation = e_generation e\<rparr>))"

definition extent_inc_refcount :: "extent \<Rightarrow> extent" where
  "extent_inc_refcount e =
     (let e = e\<lparr>e_refcount := saturating_add (e_refcount e) 1\<rparr> in
      if e_refcount e > 1 then e\<lparr>e_flags := e_flags e OR EXTENT_SHARED\<rparr> else e)"

definition extent_dec_refcount :: "extent \<Rightarrow> u32 \<times> extent" where
  "extent_dec_refcount e =
     (let e = e\<lparr>e_refcount := saturating_sub (e_refcount e) 1\<rparr>;
          e = (if e_refcount e \<le> 1 then e\<lparr>e_flags := e_flags e AND NOT EXTENT_SHARED\<rparr> else e) in
      (e_refcount e, e))"

definition can_merge_with :: "extent \<Rightarrow> extent \<Rightarrow> bool" where
  "can_merge_with e other =
     (if is_hole e \<noteq> is_hole other then False
      else if extent_is_shared e \<or> extent_is_shared other then False
      else if file_end e \<noteq> e_file_offset other then False
      else if \<not> is_hole e \<and> disk_end e \<noteq> e_disk_block other then False
      else True)"

definition merge_with :: "extent \<Rightarrow> extent \<Rightarrow> extent option" where
  "merge_with e other =
     (if \<not> can_merge_with e other then None
      else Some \<lparr>e_file_offset = e_file_offset e, e_disk_block = e_disk_block e,
        e_length = e_length e + e_length other, e_flags = e_flags e, e_refcount = 1, e_crc32 = 0,
        e_generation = max (e_generation e) (e_generation other)\<rparr>)"

definition extent_bytes :: "extent \<Rightarrow> byte list" where
  "extent_bytes e =
     enc_word 8 (e_file_offset e) @ enc_word 8 (e_disk_block e) @ enc_word 8 (e_length e) @
     enc_word 4 (e_flags e) @ enc_word 4 (e_refcount e) @ enc_word 4 (e_crc32 e) @ enc_word 4 (e_generation e)"

definition extent_of_bytes :: "byte list \<Rightarrow> extent" where
  "extent_of_bytes bs =
     \<lparr>e_file_offset = dec_word (take 8 bs), e_disk_block = dec_word (take 8 (drop 8 bs)),
      e_length = dec_word (take 8 (drop 16 bs)), e_flags = dec_word (take 4 (drop 24 bs)),
      e_refcount = dec_word (take 4 (drop 28 bs)), e_crc32 = dec_word (take 4 (drop 32 bs)),
      e_generation = dec_word (take 4 (drop 36 bs))\<rparr>"

definition extent_serialize :: "extent \<Rightarrow> byte list \<Rightarrow> nat \<times> byte list" where
  "extent_serialize e buf = write_front (extent_bytes e) EXTENT_SIZE buf"

definition extent_deserialize :: "byte list \<Rightarrow> (extent \<times> nat) option" where
  "extent_deserialize buf =
     (if length buf \<ge> EXTENT_SIZE then Some (extent_of_bytes (take EXTENT_SIZE buf), EXTENT_SIZE) else None)"

definition extent_value :: "extent value_dict" where
  "extent_value = \<lparr>vd_size = EXTENT_SIZE, vd_serialize = extent_serialize, vd_deserialize = extent_deserialize\<rparr>"

text \<open>The file range does not wrap.\<close>

definition wf_extent :: "extent \<Rightarrow> bool" where
  "wf_extent e \<longleftrightarrow> unat (e_file_offset e) + unat (e_length e) < 2 ^ 64"

section \<open>Lemmas\<close>

lemma EXTENT_SIZE_eq [simp]: "EXTENT_SIZE = 40"
  by (simp add: EXTENT_SIZE_def)

interpretation extentv: tree_value extent_value extent_bytes extent_of_bytes "\<lambda>_. True"
  by unfold_locales
    (simp_all add: extent_value_def extent_serialize_def extent_deserialize_def extent_bytes_def
      extent_of_bytes_def dec_enc_word)

lemma BS_eq: "BS = 4096" "unat BS = 4096"
  by (simp_all add: BLOCK_SIZE_def)

lemma unat_file_end: "wf_extent e \<Longrightarrow> unat (file_end e) = unat (e_file_offset e) + unat (e_length e)"
  by (simp add: wf_extent_def file_end_def unat_word_ariths)

lemma contains_offset_unat:
  "wf_extent e \<Longrightarrow> contains_offset e off \<longleftrightarrow>
    unat (e_file_offset e) \<le> unat off \<and> unat off < unat (e_file_offset e) + unat (e_length e)"
  by (simp add: contains_offset_def word_le_nat_alt word_less_nat_alt unat_file_end)

lemma unat_add_eq: "unat (a :: u64) = unat b + unat c \<Longrightarrow> a = b + c"
  by (metis of_nat_add of_nat_unat ucast_id)

text \<open>The two parts of a split, as numbers.\<close>

lemma split_at_parts:
  assumes "wf_extent e" "split_at e s = Some (l, r)"
  shows "e_file_offset l = e_file_offset e" "e_disk_block l = e_disk_block e"
    "unat (e_length l) = unat s - unat (e_file_offset e)"
    "e_file_offset r = s" "unat (e_length r) = unat (e_file_offset e) + unat (e_length e) - unat s"
    "unat (e_file_offset e) < unat s" "unat s < unat (e_file_offset e) + unat (e_length e)"
    "is_hole l = is_hole e" "is_hole r = is_hole e"
    "e_disk_block r = (if is_hole e then 0 else e_disk_block e + block_count l)"
    "wf_extent l" "wf_extent r"
proof -
  have s: "unat (e_file_offset e) < unat s" "unat s < unat (e_file_offset e) + unat (e_length e)"
    using assms(2) unat_file_end [OF assms(1)]
    by (auto simp: split_at_def word_le_nat_alt split: if_splits)
  have ll: "unat (s - e_file_offset e) = unat s - unat (e_file_offset e)"
    using s(1) by (simp add: unat_sub word_le_nat_alt)
  then have "s - e_file_offset e \<le> e_length e" using s by (simp add: word_le_nat_alt)
  then have rl: "unat (e_length e - (s - e_file_offset e)) = unat (e_file_offset e) + unat (e_length e) - unat s"
    using ll s by (simp add: unat_sub)
  show "e_file_offset l = e_file_offset e" "e_disk_block l = e_disk_block e"
    "unat (e_length l) = unat s - unat (e_file_offset e)"
    "e_file_offset r = s" "unat (e_length r) = unat (e_file_offset e) + unat (e_length e) - unat s"
    "unat (e_file_offset e) < unat s" "unat s < unat (e_file_offset e) + unat (e_length e)"
    "is_hole l = is_hole e" "is_hole r = is_hole e"
    "e_disk_block r = (if is_hole e then 0 else e_disk_block e + block_count l)"
    "wf_extent l" "wf_extent r"
    using assms s ll rl
    by (auto simp: split_at_def Let_def is_hole_def block_count_def wf_extent_def split: if_splits)
qed

text \<open>The number of blocks of an extent, rounded up.\<close>

lemma unat_block_count:
  assumes "unat (e_length e) + 4095 < 2 ^ 64"
  shows "unat (block_count e) = (unat (e_length e) + 4095) div 4096"
proof -
  have "e_length e + BS - 1 = 4095 + e_length e" by (simp add: BS_eq)
  moreover have "unat (4095 + e_length e) = unat (e_length e) + 4095" using assms by (simp add: unat_word_ariths)
  ultimately show ?thesis by (simp add: block_count_def BS_eq unat_div)
qed

lemma round_up_unaligned:
  assumes "(n :: nat) mod 4096 \<noteq> 0"
  shows "(n + 4095) div 4096 = n div 4096 + 1"
proof -
  obtain q r where n: "n = 4096 * q + r" "r < 4096" by (metis mod_less_divisor mult_div_mod_eq zero_less_numeral)
  then have "0 < r" using assms by (cases r) auto
  then have "n + 4095 = 4096 * (q + 1) + (r - 1)" "r - 1 < 4096" using n by simp_all
  then have "(n + 4095) div 4096 = q + 1" by simp
  then show ?thesis using n by simp
qed

section \<open>Properties\<close>

text \<open>Splitting an extent at a block boundary keeps every byte where it is: the two parts cover
  exactly the file range of the extent, and every offset is on the same disk block as before.\<close>

lemma extent_split_keeps_mapping:
  assumes "wf_extent e" and "split_at e s = Some (l, r)"
    and "(unat s - unat (e_file_offset e)) mod 4096 = 0"
  shows "e_file_offset l = e_file_offset e \<and> file_end l = e_file_offset r \<and> file_end r = file_end e \<and>
    (\<forall>off. offset_to_block e off = (if off < s then offset_to_block l off else offset_to_block r off))"
proof -
  note p = split_at_parts [OF assms(1,2)]
  have ends: "file_end l = e_file_offset r" "file_end r = file_end e"
    using p unat_file_end [OF p(11)] unat_file_end [OF p(12)] unat_file_end [OF assms(1)]
    by (simp_all add: word_unat_eq_iff)
  obtain q where q: "unat s = unat (e_file_offset e) + 4096 * q"
    using assms(3) p(6) by (metis add_diff_inverse_nat less_imp_le_nat linorder_not_le mod_0_imp_dvd dvdE)
  have len: "unat (e_length l) = 4096 * q" using p(3) q by simp
  have "unat (e_length l) + 4095 < 2 ^ 64"
    using len unat_u64_bound [of "e_length l"] by simp
  then have bc: "unat (block_count l) = q" using unat_block_count [of l] len by simp
  have "offset_to_block e off = (if off < s then offset_to_block l off else offset_to_block r off)" for off
  proof (cases "contains_offset e off \<and> \<not> is_hole e")
    case False
    then show ?thesis
      using p contains_offset_unat [OF assms(1)] contains_offset_unat [OF p(11)] contains_offset_unat [OF p(12)]
      by (auto simp: offset_to_block_def)
  next
    case True
    then have off: "unat (e_file_offset e) \<le> unat off" "unat off < unat (e_file_offset e) + unat (e_length e)"
      using contains_offset_unat [OF assms(1)] by auto
    show ?thesis
    proof (cases "off < s")
      case less: True
      then have "contains_offset l off"
        using off p contains_offset_unat [OF p(11)] by (simp add: word_less_nat_alt)
      then show ?thesis using True less p by (simp add: offset_to_block_def)
    next
      case False
      then have ge: "unat s \<le> unat off" by (simp add: word_less_nat_alt)
      then have r: "contains_offset r off" using off p contains_offset_unat [OF p(12)] by simp
      have "unat ((off - e_file_offset e) div BS) = unat (block_count l) + unat ((off - s) div BS)"
        using off ge q bc by (simp add: unat_div unat_sub word_le_nat_alt BS_eq)
      then have "(off - e_file_offset e) div BS = block_count l + (off - s) div BS"
        by (rule unat_add_eq)
      then have "e_disk_block e + (off - e_file_offset e) div BS = e_disk_block r + (off - s) div BS"
        using p(10) True by (simp add: add.assoc)
      then show ?thesis using True False r p by (simp add: offset_to_block_def)
    qed
  qed
  then show ?thesis using p ends by blast
qed

lemma extent_split_keeps_mapping_example:
  "\<exists>l r. split_at (Extent_new 0 100 12288) 8192 = Some (l, r) \<and> offset_to_block r 9000 = Some 102"
proof -
  let ?e = "Extent_new 0 100 12288"
  obtain l r where s: "split_at ?e 8192 = Some (l, r)"
    by (simp add: split_at_def file_end_def Extent_new_def)
  have "wf_extent ?e" by (simp add: wf_extent_def Extent_new_def)
  from extent_split_keeps_mapping [OF this s]
  have "offset_to_block ?e 9000 = offset_to_block r 9000" by (simp add: Extent_new_def)
  moreover have "offset_to_block ?e 9000 = Some 102"
    by (simp add: offset_to_block_def contains_offset_def file_end_def is_hole_def Extent_new_def BS_eq)
  ultimately show ?thesis using s by simp
qed

text \<open>Splitting inside a block loses it: the right part then starts one disk block after the
  block that holds its first byte, so that byte is read from the wrong block.\<close>

lemma extent_split_unaligned:
  assumes "wf_extent e" and "\<not> is_hole e" and "split_at e s = Some (l, r)"
    and "(unat s - unat (e_file_offset e)) mod 4096 \<noteq> 0" and "unat (e_length e) + 4095 < 2 ^ 64"
  shows "\<exists>b. offset_to_block e s = Some b \<and> offset_to_block r s = Some (b + 1)"
proof -
  note p = split_at_parts [OF assms(1,3)]
  let ?n = "unat s - unat (e_file_offset e)"
  have "unat (block_count l) = (?n + 4095) div 4096"
    using unat_block_count [of l] assms(5) p(3,6,7) by simp
  also have "\<dots> = ?n div 4096 + 1"
    by (rule round_up_unaligned [OF assms(4)])
  also have "?n div 4096 = unat ((s - e_file_offset e) div BS)"
    using p(6) by (simp add: unat_div unat_sub word_le_nat_alt BS_eq)
  finally have "block_count l = (s - e_file_offset e) div BS + 1" by (intro unat_add_eq) simp
  then show ?thesis
    using p assms(2) contains_offset_unat [OF assms(1), of s] contains_offset_unat [OF p(12), of s]
    by (simp add: offset_to_block_def add.assoc)
qed

lemma extent_split_unaligned_example:
  "\<exists>l r. split_at (Extent_new 0 100 12288) 5000 = Some (l, r) \<and>
     offset_to_block (Extent_new 0 100 12288) 5000 = Some 101 \<and> offset_to_block r 5000 = Some 102"
proof -
  let ?e = "Extent_new 0 100 12288"
  obtain l r where s: "split_at ?e 5000 = Some (l, r)"
    by (simp add: split_at_def file_end_def Extent_new_def)
  have e: "wf_extent ?e" "\<not> is_hole ?e" "unat (e_file_offset ?e) = 0" "unat (e_length ?e) = 12288"
    by (simp_all add: wf_extent_def Extent_new_def is_hole_def)
  have "offset_to_block ?e 5000 = Some 101"
    by (simp add: offset_to_block_def contains_offset_def file_end_def is_hole_def Extent_new_def BS_eq)
  then show ?thesis using extent_split_unaligned [OF e(1,2) s] s e(3,4) by auto
qed

text \<open>Merging undoes splitting: the parts of an exclusive extent can be merged again and give
  back its file range, its disk location, its flags and its generation, wherever it was split.\<close>

lemma extent_split_merge:
  assumes "wf_extent e" and "\<not> extent_is_shared e" and "split_at e s = Some (l, r)"
  shows "merge_with l r = Some (e\<lparr>e_refcount := 1, e_crc32 := 0\<rparr>)"
proof -
  note p = split_at_parts [OF assms(1,3)]
  have f: "e_flags l = e_flags e" "e_flags r = e_flags e" "e_refcount l = e_refcount e" "e_refcount r = e_refcount e"
    "e_generation l = e_generation e" "e_generation r = e_generation e"
    using assms(3) by (auto simp: split_at_def Let_def split: if_splits)
  have "unat (e_length e) = unat (e_length l) + unat (e_length r)" using p(3,5,6,7) by simp
  then have len: "e_length l + e_length r = e_length e" using unat_add_eq by metis
  have "file_end l = e_file_offset r" using p unat_file_end [OF p(11)] by (simp add: word_unat_eq_iff)
  moreover have "disk_end l = e_disk_block r" if "\<not> is_hole e" using that p(2,10) by (simp add: disk_end_def)
  ultimately have "can_merge_with l r"
    using assms(2) f p(8,9) by (auto simp: can_merge_with_def extent_is_shared_def)
  then show ?thesis
    using p(1,2) len f by (cases e) (simp add: merge_with_def)
qed

lemma extent_split_merge_example:
  "\<exists>l r. split_at (Extent_new 0 100 12288) 5000 = Some (l, r) \<and> merge_with l r = Some (Extent_new 0 100 12288)"
proof -
  let ?e = "Extent_new 0 100 12288"
  obtain l r where s: "split_at ?e 5000 = Some (l, r)"
    by (simp add: split_at_def file_end_def Extent_new_def)
  have "wf_extent ?e" "\<not> extent_is_shared ?e" "?e\<lparr>e_refcount := 1, e_crc32 := 0\<rparr> = ?e"
    by (simp_all add: wf_extent_def Extent_new_def extent_is_shared_def)
  then show ?thesis using extent_split_merge [OF _ _ s] s by simp
qed

end
