(* ===== verification/Wfs_Freespace.thy ===== *)
theory Wfs_Freespace
  imports Wfs_Structures
begin

text \<open>
  Free block ranges (\<^verbatim>\<open>src/crates/storage/wfs/src/core/freespace.rs\<close>): merging of adjacent ranges
  and allocation from a range. The specification is the set of blocks a range covers.
\<close>

section \<open>Definitions\<close>

record free_range =
  fr_start_block :: u64
  fr_block_count :: u64
  fr_freed_generation :: u64

definition FreeRange_new :: "u64 \<Rightarrow> u64 \<Rightarrow> free_range" where
  "FreeRange_new start_block block_count =
     \<lparr>fr_start_block = start_block, fr_block_count = block_count, fr_freed_generation = 0\<rparr>"

definition end_block :: "free_range \<Rightarrow> u64" where
  "end_block r = fr_start_block r + fr_block_count r"

definition size_bytes :: "free_range \<Rightarrow> u64" where
  "size_bytes r = fr_block_count r * of_nat BLOCK_SIZE"

definition can_allocate :: "free_range \<Rightarrow> u64 \<Rightarrow> bool" where
  "can_allocate r blocks_needed \<longleftrightarrow> fr_block_count r \<ge> blocks_needed"

definition is_adjacent :: "free_range \<Rightarrow> free_range \<Rightarrow> bool" where
  "is_adjacent r other \<longleftrightarrow> end_block r = fr_start_block other \<or> end_block other = fr_start_block r"

definition fr_merge :: "free_range \<Rightarrow> free_range \<Rightarrow> free_range option" where
  "fr_merge r other =
     (if end_block r = fr_start_block other then
        Some \<lparr>fr_start_block = fr_start_block r, fr_block_count = fr_block_count r + fr_block_count other,
          fr_freed_generation = max (fr_freed_generation r) (fr_freed_generation other)\<rparr>
      else if end_block other = fr_start_block r then
        Some \<lparr>fr_start_block = fr_start_block other, fr_block_count = fr_block_count r + fr_block_count other,
          fr_freed_generation = max (fr_freed_generation r) (fr_freed_generation other)\<rparr>
      else None)"

definition fr_allocate :: "free_range \<Rightarrow> u64 \<Rightarrow> (u64 \<times> free_range option) option" where
  "fr_allocate r blocks_needed =
     (if fr_block_count r < blocks_needed then None
      else
        let allocated_start = fr_start_block r in
        if fr_block_count r = blocks_needed then Some (allocated_start, None)
        else Some (allocated_start,
          Some \<lparr>fr_start_block = fr_start_block r + blocks_needed, fr_block_count = fr_block_count r - blocks_needed,
            fr_freed_generation = fr_freed_generation r\<rparr>))"

definition fr_allocate_at :: "free_range \<Rightarrow> u64 \<Rightarrow> u64 \<Rightarrow> (u64 \<times> free_range list) option" where
  "fr_allocate_at r offset blocks_needed =
     (if offset < fr_start_block r \<or> offset + blocks_needed > end_block r then None
      else
        let left = (if offset > fr_start_block r
              then [\<lparr>fr_start_block = fr_start_block r, fr_block_count = offset - fr_start_block r,
                fr_freed_generation = fr_freed_generation r\<rparr>] else []);
            alloc_end = offset + blocks_needed;
            right = (if alloc_end < end_block r
              then [\<lparr>fr_start_block = alloc_end, fr_block_count = end_block r - alloc_end,
                fr_freed_generation = fr_freed_generation r\<rparr>] else []) in
        Some (offset, left @ right))"

record pending_free =
  pf_block :: u64
  pf_count :: u64
  pf_transaction_id :: u64

definition PendingFree_new :: "u64 \<Rightarrow> u64 \<Rightarrow> u64 \<Rightarrow> pending_free" where
  "PendingFree_new block count transaction_id =
     \<lparr>pf_block = block, pf_count = count, pf_transaction_id = transaction_id\<rparr>"

definition to_range :: "pending_free \<Rightarrow> free_range" where
  "to_range p = FreeRange_new (pf_block p) (pf_count p)"

section \<open>Specification\<close>

text \<open>The blocks of a range of \<open>n\<close> blocks from \<open>b\<close>, and ranges that end inside the address space.\<close>

definition span :: "u64 \<Rightarrow> u64 \<Rightarrow> nat set" where
  "span b n = {unat b ..< unat b + unat n}"

abbreviation blocks_of :: "free_range \<Rightarrow> nat set" where
  "blocks_of r \<equiv> span (fr_start_block r) (fr_block_count r)"

definition wf_range :: "free_range \<Rightarrow> bool" where
  "wf_range r \<longleftrightarrow> unat (fr_start_block r) + unat (fr_block_count r) < 2 ^ 64"

lemma unat_end_block: "wf_range r \<Longrightarrow> unat (end_block r) = unat (fr_start_block r) + unat (fr_block_count r)"
  by (simp add: wf_range_def end_block_def unat_word_ariths)

section \<open>Properties\<close>

text \<open>Allocation from a free range takes the first blocks of the range and leaves exactly the
  others free; it fails exactly when the range is too short.\<close>

lemma free_range_allocate:
  assumes "wf_range r"
  shows "case fr_allocate r n of
      None \<Rightarrow> unat (fr_block_count r) < unat n
    | Some (b, rest) \<Rightarrow>
        b = fr_start_block r \<and> unat n \<le> unat (fr_block_count r) \<and>
        (case rest of
           None \<Rightarrow> span b n = blocks_of r
         | Some q \<Rightarrow> wf_range q \<and> span b n \<union> blocks_of q = blocks_of r \<and> span b n \<inter> blocks_of q = {})"
proof (cases "fr_block_count r < n \<or> fr_block_count r = n")
  case True
  then show ?thesis by (auto simp: fr_allocate_def word_less_nat_alt)
next
  case False
  then have n: "unat n < unat (fr_block_count r)" "n \<le> fr_block_count r"
    by (auto simp: word_less_nat_alt [symmetric])
  have "unat (fr_start_block r + n) = unat (fr_start_block r) + unat n"
    using assms n(1) by (simp add: wf_range_def unat_word_ariths)
  then show ?thesis
    using False assms n by (auto simp: fr_allocate_def Let_def span_def wf_range_def unat_sub)
qed

lemma free_range_allocate_example:
  "\<exists>q. fr_allocate (FreeRange_new 5 100) 3 = Some (5, Some q) \<and> span 5 3 \<inter> blocks_of q = {}"
proof -
  have "wf_range (FreeRange_new 5 100)" by (simp add: wf_range_def FreeRange_new_def)
  from free_range_allocate [OF this, of 3] show ?thesis
    by (simp add: fr_allocate_def FreeRange_new_def)
qed

text \<open>Allocation at a position inside a free range takes exactly the requested blocks; the
  ranges that are left are disjoint from them and from each other and cover the rest of the range.
  It is refused exactly when the request does not lie in the range.\<close>

lemma free_range_allocate_at:
  assumes "wf_range r" and "unat offset + unat n < 2 ^ 64"
  shows "case fr_allocate_at r offset n of
      None \<Rightarrow> \<not> (unat (fr_start_block r) \<le> unat offset \<and> unat offset + unat n \<le> unat (end_block r))
    | Some (b, rest) \<Rightarrow>
        b = offset \<and> (\<forall>q \<in> set rest. wf_range q \<and> blocks_of q \<noteq> {}) \<and>
        span b n \<union> \<Union> (blocks_of ` set rest) = blocks_of r \<and>
        (\<forall>q \<in> set rest. span b n \<inter> blocks_of q = {}) \<and>
        (\<forall>i j. i < j \<and> j < length rest \<longrightarrow> blocks_of (rest ! i) \<inter> blocks_of (rest ! j) = {})"
proof -
  let ?s = "unat (fr_start_block r)" and ?e = "unat (end_block r)"
  have e: "?e = ?s + unat (fr_block_count r)" by (rule unat_end_block [OF assms(1)])
  have a: "unat (offset + n) = unat offset + unat n" using assms(2) by (simp add: unat_word_ariths)
  show ?thesis
  proof (cases "?s \<le> unat offset \<and> unat offset + unat n \<le> ?e")
    case False
    then show ?thesis using a by (auto simp: fr_allocate_at_def word_less_nat_alt)
  next
    case True
    have l: "unat (offset - fr_start_block r) = unat offset - ?s" "unat (end_block r - (offset + n)) = ?e - (unat offset + unat n)"
      using True a by (simp_all add: unat_sub word_le_nat_alt)
    have lt: "offset > fr_start_block r \<longleftrightarrow> ?s < unat offset" "offset + n < end_block r \<longleftrightarrow> unat offset + unat n < ?e"
      using a by (simp_all add: word_less_nat_alt)
    define L where "L = \<lparr>fr_start_block = fr_start_block r, fr_block_count = offset - fr_start_block r,
      fr_freed_generation = fr_freed_generation r\<rparr>"
    define R where "R = \<lparr>fr_start_block = offset + n, fr_block_count = end_block r - (offset + n),
      fr_freed_generation = fr_freed_generation r\<rparr>"
    have eq: "fr_allocate_at r offset n =
        Some (offset, (if ?s < unat offset then [L] else []) @ (if unat offset + unat n < ?e then [R] else []))"
      using True a lt by (auto simp: fr_allocate_at_def Let_def L_def R_def word_less_nat_alt)
    have LR: "blocks_of L = {?s ..< unat offset}" "blocks_of R = {unat offset + unat n ..< ?e}" "wf_range L" "wf_range R"
      using l a True assms(1) e unat_u64_bound [of "end_block r"]
      by (simp_all add: L_def R_def span_def wf_range_def)
    have sets: "blocks_of r = {?s ..< ?e}" "span offset n = {unat offset ..< unat offset + unat n}"
      using e by (simp_all add: span_def)
    show ?thesis
      using True by (auto simp: eq LR sets less_Suc_eq)
  qed
qed

lemma free_range_allocate_at_example:
  "\<exists>rest. fr_allocate_at (FreeRange_new 5 100) 16 16 = Some (16, rest) \<and> length rest = 2 \<and>
     span 16 16 \<union> \<Union> (blocks_of ` set rest) = span 5 100"
proof -
  have "wf_range (FreeRange_new 5 100)" by (simp add: wf_range_def FreeRange_new_def)
  from free_range_allocate_at [OF this, of 16 16] show ?thesis
    by (simp add: fr_allocate_at_def FreeRange_new_def end_block_def)
qed

text \<open>Merging two free ranges gives the range of their blocks, and succeeds exactly when they
  are adjacent.\<close>

lemma free_range_merge:
  assumes "wf_range r" and "wf_range s" and "unat (fr_block_count r) + unat (fr_block_count s) < 2 ^ 64"
  shows "case fr_merge r s of
      None \<Rightarrow> \<not> is_adjacent r s
    | Some q \<Rightarrow> is_adjacent r s \<and> blocks_of q = blocks_of r \<union> blocks_of s"
proof -
  have c: "unat (fr_block_count r + fr_block_count s) = unat (fr_block_count r) + unat (fr_block_count s)"
    using assms(3) by (simp add: unat_word_ariths)
  show ?thesis
    using c unat_end_block [OF assms(1)] unat_end_block [OF assms(2)]
    by (auto simp: fr_merge_def is_adjacent_def span_def word_unat_eq_iff)
qed

lemma free_range_merge_example:
  "\<exists>q. fr_merge (FreeRange_new 5 10) (FreeRange_new 15 10) = Some q \<and> blocks_of q = span 5 10 \<union> span 15 10"
proof -
  have "wf_range (FreeRange_new 5 10)" "wf_range (FreeRange_new 15 10)" by (simp_all add: wf_range_def FreeRange_new_def)
  from free_range_merge [OF this] show ?thesis
    by (simp add: fr_merge_def end_block_def FreeRange_new_def)
qed

end
