(* ===== verification/Wfs_Transaction.thy ===== *)
theory Wfs_Transaction
  imports Wfs_Freespace
begin

text \<open>
  Transactions (\<^verbatim>\<open>src/crates/storage/wfs/src/core/transaction.rs\<close>): the record of what a
  transaction allocated, copied and will free, and its life cycle. \<open>txn_step\<close> is the relation of
  everything the code does to a transaction: the methods, which have no guards of their own but for \<open>begin_commit\<close>,
  and the direct assignment of the working root by \<open>InodeOps\<close>; \<open>txn_reach\<close> are the transactions it reaches.
\<close>

section \<open>Definitions\<close>

datatype transaction_state = Active | Committing | Committed | Aborted

datatype modification_type = Allocated | Copied | Modified

datatype transaction_error =
  NoActiveTransaction | TransactionAlreadyActive | InvalidState | TxnIoError | NoSpace | TooLarge

record modified_block =
  mb_original_block :: u64
  mb_new_block :: u64
  mb_mod_type :: modification_type

record transaction =
  tx_id :: u64
  tx_state :: transaction_state
  tx_generation :: u64
  tx_working_root :: u64
  tx_modified_blocks :: "modified_block list"
  tx_allocated_blocks :: "u64 list"
  tx_pending_frees :: "pending_free list"
  tx_modified_inodes :: "u64 list"
  tx_dirty :: bool

definition Transaction_new :: "u64 \<Rightarrow> u64 \<Rightarrow> u64 \<Rightarrow> transaction" where
  "Transaction_new txid generation current_root =
     \<lparr>tx_id = txid, tx_state = Active, tx_generation = generation, tx_working_root = current_root,
      tx_modified_blocks = [], tx_allocated_blocks = [], tx_pending_frees = [], tx_modified_inodes = [],
      tx_dirty = False\<rparr>"

definition is_active :: "transaction \<Rightarrow> bool" where
  "is_active t \<longleftrightarrow> tx_state t = Active"

definition is_dirty :: "transaction \<Rightarrow> bool" where
  "is_dirty t = tx_dirty t"

definition record_allocation :: "u64 \<Rightarrow> transaction \<Rightarrow> transaction" where
  "record_allocation block t =
     t\<lparr>tx_allocated_blocks := tx_allocated_blocks t @ [block], tx_dirty := True\<rparr>"

definition record_cow_copy :: "u64 \<Rightarrow> u64 \<Rightarrow> transaction \<Rightarrow> transaction" where
  "record_cow_copy original new_block t =
     t\<lparr>tx_modified_blocks := tx_modified_blocks t @
         [\<lparr>mb_original_block = original, mb_new_block = new_block, mb_mod_type = Copied\<rparr>], tx_dirty := True\<rparr>"

definition record_modification :: "u64 \<Rightarrow> u64 \<Rightarrow> transaction \<Rightarrow> transaction" where
  "record_modification original new_block t =
     t\<lparr>tx_modified_blocks := tx_modified_blocks t @
         [\<lparr>mb_original_block = original, mb_new_block = new_block, mb_mod_type = Modified\<rparr>], tx_dirty := True\<rparr>"

definition schedule_free :: "u64 \<Rightarrow> u64 \<Rightarrow> transaction \<Rightarrow> transaction" where
  "schedule_free block count t =
     t\<lparr>tx_pending_frees := tx_pending_frees t @ [PendingFree_new block count (tx_id t)], tx_dirty := True\<rparr>"

definition record_inode_modification :: "u64 \<Rightarrow> transaction \<Rightarrow> transaction" where
  "record_inode_modification inode_num t =
     (if inode_num \<in> set (tx_modified_inodes t) then t
      else t\<lparr>tx_modified_inodes := tx_modified_inodes t @ [inode_num]\<rparr>)"

definition update_working_root :: "u64 \<Rightarrow> transaction \<Rightarrow> transaction" where
  "update_working_root new_root t = t\<lparr>tx_working_root := new_root, tx_dirty := True\<rparr>"

definition begin_commit :: "transaction \<Rightarrow> bool \<times> transaction" where
  "begin_commit t = (if tx_state t \<noteq> Active then (False, t) else (True, t\<lparr>tx_state := Committing\<rparr>))"

definition complete_commit :: "transaction \<Rightarrow> transaction" where
  "complete_commit t = t\<lparr>tx_state := Committed\<rparr>"

definition tx_abort :: "transaction \<Rightarrow> transaction" where
  "tx_abort t = t\<lparr>tx_state := Aborted\<rparr>"

definition blocks_to_free_on_abort :: "transaction \<Rightarrow> u64 list" where
  "blocks_to_free_on_abort t = tx_allocated_blocks t"

definition pending_frees_on_commit :: "transaction \<Rightarrow> pending_free list" where
  "pending_frees_on_commit t = tx_pending_frees t"

definition allocated_count :: "transaction \<Rightarrow> nat" where
  "allocated_count t = length (tx_allocated_blocks t)"

definition modified_count :: "transaction \<Rightarrow> nat" where
  "modified_count t = length (tx_modified_blocks t)"

record commit_record =
  cr_transaction_id :: u64
  cr_generation :: u64
  cr_root_block :: u64
  cr_blocks_allocated :: u32
  cr_blocks_freed :: u32
  cr_timestamp :: u64

definition CommitRecord_new :: "transaction \<Rightarrow> u64 \<Rightarrow> commit_record" where
  "CommitRecord_new txn timestamp =
     \<lparr>cr_transaction_id = tx_id txn, cr_generation = tx_generation txn, cr_root_block = tx_working_root txn,
      cr_blocks_allocated = of_nat (length (tx_allocated_blocks txn)),
      cr_blocks_freed = of_nat (length (tx_pending_frees txn)), cr_timestamp = timestamp\<rparr>"

section \<open>The life cycle\<close>

datatype txn_call =
  CallAlloc u64 | CallCow u64 u64 | CallModify u64 u64 | CallFree u64 u64 | CallInode u64 | CallRoot u64 |
  CallBegin | CallComplete | CallAbort | AssignRoot u64

inductive txn_step :: "transaction \<Rightarrow> txn_call \<Rightarrow> transaction \<Rightarrow> bool" where
  alloc: "txn_step t (CallAlloc b) (record_allocation b t)"
| cow: "txn_step t (CallCow a b) (record_cow_copy a b t)"
| modify: "txn_step t (CallModify a b) (record_modification a b t)"
| free: "txn_step t (CallFree b n) (schedule_free b n t)"
| inode: "txn_step t (CallInode i) (record_inode_modification i t)"
| root: "txn_step t (CallRoot r) (update_working_root r t)"
| beginc: "txn_step t CallBegin (snd (begin_commit t))"
| complete: "txn_step t CallComplete (complete_commit t)"
| abort: "txn_step t CallAbort (tx_abort t)"
| assign: "txn_step t (AssignRoot r) (t\<lparr>tx_working_root := r\<rparr>)"

inductive txn_reach :: "transaction \<Rightarrow> txn_call list \<Rightarrow> transaction \<Rightarrow> bool" for t0 where
  start: "txn_reach t0 [] t0"
| step: "txn_reach t0 cs t \<Longrightarrow> txn_step t c t' \<Longrightarrow> txn_reach t0 (cs @ [c]) t'"

lemmas txn_op_defs = record_allocation_def record_cow_copy_def record_modification_def schedule_free_def
  record_inode_modification_def update_working_root_def begin_commit_def complete_commit_def tx_abort_def is_active_def

definition allocs :: "txn_call list \<Rightarrow> u64 list" where
  "allocs cs = concat (map (\<lambda>c. case c of CallAlloc b \<Rightarrow> [b] | _ \<Rightarrow> []) cs)"

definition frees :: "txn_call list \<Rightarrow> (u64 \<times> u64) list" where
  "frees cs = concat (map (\<lambda>c. case c of CallFree b n \<Rightarrow> [(b, n)] | _ \<Rightarrow> []) cs)"

lemma allocs_snoc [simp]: "allocs (cs @ [c]) = allocs cs @ (case c of CallAlloc b \<Rightarrow> [b] | _ \<Rightarrow> [])"
  by (simp add: allocs_def)

lemma frees_snoc [simp]: "frees (cs @ [c]) = frees cs @ (case c of CallFree b n \<Rightarrow> [(b, n)] | _ \<Rightarrow> [])"
  by (simp add: frees_def)

text \<open>The root a transaction works on: the last one it was given.\<close>

definition last_root :: "u64 \<Rightarrow> txn_call list \<Rightarrow> u64" where
  "last_root rt cs = fold (\<lambda>c r. case c of CallRoot r' \<Rightarrow> r' | AssignRoot r' \<Rightarrow> r' | _ \<Rightarrow> r) cs rt"

lemma last_root_snoc [simp]: "last_root rt (cs @ [c]) = (case c of CallRoot r \<Rightarrow> r | AssignRoot r \<Rightarrow> r | _ \<Rightarrow> last_root rt cs)"
  by (cases c) (simp_all add: last_root_def)

text \<open>The invariant of a transaction started by \<open>Transaction_new txid g root\<close>.\<close>

definition txn_inv :: "u64 \<Rightarrow> u64 \<Rightarrow> u64 \<Rightarrow> txn_call list \<Rightarrow> transaction \<Rightarrow> bool" where
  "txn_inv txid g rt cs t \<longleftrightarrow>
     tx_id t = txid \<and> tx_generation t = g \<and> tx_allocated_blocks t = allocs cs \<and>
     map (\<lambda>p. (pf_block p, pf_count p)) (tx_pending_frees t) = frees cs \<and>
     (\<forall>p \<in> set (tx_pending_frees t). pf_transaction_id p = txid) \<and>
     distinct (tx_modified_inodes t) \<and> tx_working_root t = last_root rt cs \<and>
     (\<not> tx_dirty t \<longrightarrow> tx_modified_blocks t = [] \<and> tx_allocated_blocks t = [] \<and> tx_pending_frees t = [])"

lemma txn_step_inv: "txn_step t c t' \<Longrightarrow> txn_inv txid g rt cs t \<Longrightarrow> txn_inv txid g rt (cs @ [c]) t'"
proof (induction rule: txn_step.induct)
  case (free t b n)
  then show ?case by (simp add: txn_inv_def txn_op_defs PendingFree_new_def)
qed (auto simp: txn_inv_def txn_op_defs)

section \<open>Properties\<close>

text \<open>Whatever is done to a transaction, its identity and generation are those it was started with, its root is
  the last one it was given; the blocks an abort returns are exactly the blocks that were allocated, in order, and
  the frees a commit processes exactly those that were scheduled, all under its own id; no inode is
  listed twice; and a transaction that is not dirty has no block to free, copied or allocated.\<close>

lemma transaction_invariant:
  assumes "txn_reach (Transaction_new txid g rt) cs t"
  shows "tx_id t = txid \<and> tx_generation t = g \<and> tx_working_root t = last_root rt cs \<and> blocks_to_free_on_abort t = allocs cs \<and>
    map (\<lambda>p. (pf_block p, pf_count p)) (pending_frees_on_commit t) = frees cs \<and>
    (\<forall>p \<in> set (pending_frees_on_commit t). pf_transaction_id p = txid) \<and> distinct (tx_modified_inodes t) \<and>
    (\<not> is_dirty t \<longrightarrow> allocated_count t = 0 \<and> modified_count t = 0 \<and> pending_frees_on_commit t = [])"
proof -
  from assms have "txn_inv txid g rt cs t"
  proof (induction rule: txn_reach.induct)
    case start
    then show ?case by (simp add: txn_inv_def Transaction_new_def allocs_def frees_def last_root_def)
  qed (rule txn_step_inv)
  then show ?thesis
    by (auto simp: txn_inv_def blocks_to_free_on_abort_def pending_frees_on_commit_def is_dirty_def
        allocated_count_def modified_count_def)
qed

lemma transaction_invariant_example:
  "blocks_to_free_on_abort (snd (begin_commit (record_allocation 9 (Transaction_new 1 2 3)))) = [9]"
proof -
  have "txn_reach (Transaction_new 1 2 3) (([] @ [CallAlloc 9]) @ [CallBegin]) (snd (begin_commit (record_allocation 9 (Transaction_new 1 2 3))))"
    by (rule txn_reach.step [OF txn_reach.step [OF txn_reach.start]]) (rule txn_step.intros)+
  from transaction_invariant [OF this] show ?thesis by (simp add: allocs_def)
qed

text \<open>A transaction with a new root can still report that nothing has changed: the update of the inode table
  records the inode and assigns the root, and neither marks the transaction.\<close>

lemma changed_root_not_dirty:
  "\<exists>t. txn_reach (Transaction_new 1 2 3) [CallInode 7, AssignRoot 9] t \<and> tx_working_root t = 9 \<and> \<not> is_dirty t"
proof -
  let ?t = "(record_inode_modification 7 (Transaction_new 1 2 3))\<lparr>tx_working_root := 9\<rparr>"
  have "txn_reach (Transaction_new 1 2 3) (([] @ [CallInode 7]) @ [AssignRoot 9]) ?t"
    by (rule txn_reach.step [OF txn_reach.step [OF txn_reach.start]]) (rule txn_step.intros)+
  moreover have "\<not> is_dirty ?t" by (simp add: is_dirty_def record_inode_modification_def Transaction_new_def)
  ultimately show ?thesis by (intro exI [of _ ?t]) simp
qed

end
