(* ===== verification/Wfs_Fs.thy ===== *)
theory Wfs_Fs
  imports Wfs_Btree Wfs_Inode Wfs_Dir Wfs_Extent Wfs_Transaction
begin

text \<open>
  The filesystem layer of WFS (\<^verbatim>\<open>src/crates/storage/wfs/src/core/fs.rs\<close>): filesystem state,
  transactions with the superblock commit, the inode, directory, extent, file and free-space
  operations over B+trees, path resolution and the initialisation of a new filesystem.

  An operation runs on the state \<open>'s \<times> fs_state\<close> of the device (with its allocator) and the
  filesystem; the operations on one tree run on \<open>'s \<times> bplus_tree\<close>. Path and file names are byte
  lists. \<open>free_blocks\<close>, which the trait \<open>FilesystemOps\<close> only declares, is a parameter of the commit.
\<close>

section \<open>Definitions\<close>

subsection \<open>State\<close>

record fs_state =
  fs_superblock :: superblock
  fs_inode_tree :: bplus_tree
  fs_free_tree :: bplus_tree
  fs_transaction :: "transaction option"
  fs_next_txn_id :: u64

definition FilesystemState_new :: "superblock \<Rightarrow> fs_state" where
  "FilesystemState_new sb =
     \<lparr>fs_superblock = sb,
      fs_inode_tree = BPlusTree_new (sb_root_tree_block sb) NInode (sb_root_generation sb),
      fs_free_tree = BPlusTree_new (sb_free_tree_block sb) NFreeSpace (sb_root_generation sb),
      fs_transaction = None, fs_next_txn_id = 1\<rparr>"

definition has_active_transaction :: "fs_state \<Rightarrow> bool" where
  "has_active_transaction fs = (case fs_transaction fs of None \<Rightarrow> False | Some t \<Rightarrow> is_active t)"

definition fs_root_block :: "fs_state \<Rightarrow> u64" where
  "fs_root_block fs =
     (case fs_transaction fs of Some txn \<Rightarrow> tx_working_root txn | None \<Rightarrow> sb_root_tree_block (fs_superblock fs))"

text \<open>Operations of the device, of one tree of the state, and of the state alone.\<close>

definition on_fst :: "('s, 'e, 'a) op \<Rightarrow> ('s \<times> 't, 'e, 'a) op" where
  "on_fst m st = (let (r, s') = m (fst st) in (r, (s', snd st)))"

definition on_inode_tree :: "('s \<times> bplus_tree, 'e, 'a) op \<Rightarrow> ('s \<times> fs_state, 'e, 'a) op" where
  "on_inode_tree m st =
     (let (r, (s', t')) = m (fst st, fs_inode_tree (snd st)) in (r, (s', (snd st)\<lparr>fs_inode_tree := t'\<rparr>)))"

definition on_free_tree :: "('s \<times> bplus_tree, 'e, 'a) op \<Rightarrow> ('s \<times> fs_state, 'e, 'a) op" where
  "on_free_tree m st =
     (let (r, (s', t')) = m (fst st, fs_free_tree (snd st)) in (r, (s', (snd st)\<lparr>fs_free_tree := t'\<rparr>)))"

definition modify_fs :: "(fs_state \<Rightarrow> fs_state) \<Rightarrow> ('s \<times> fs_state, 'e, unit) op" where
  "modify_fs f st = (Ok (), (fst st, f (snd st)))"

definition get_fs :: "('s \<times> fs_state, 'e, fs_state) op" where
  "get_fs st = (Ok (snd st), st)"

definition map_err_op :: "('e \<Rightarrow> 'f) \<Rightarrow> ('s, 'e, 'a) op \<Rightarrow> ('s, 'f, 'a) op" where
  "map_err_op g m s = (let (r, s') = m s in (map_err g r, s'))"

text \<open>\<open>let _ = ...\<close>: the error is dropped, a panic is not.\<close>

definition ignore_err :: "('s, 'e, 'a) op \<Rightarrow> ('s, 'f, unit) op" where
  "ignore_err m s = (case m s of (Panic, s') \<Rightarrow> (Panic, s') | (Ok _, s') \<Rightarrow> (Ok (), s') | (Err _, s') \<Rightarrow> (Ok (), s'))"

fun map_res :: "('a \<Rightarrow> 'b) \<Rightarrow> ('e, 'a) res \<Rightarrow> ('e, 'b) res" where
  "map_res f (Ok a) = Ok (f a)"
| "map_res f (Err e) = Err e"
| "map_res f Panic = Panic"

definition modify_txn :: "(transaction \<Rightarrow> transaction) \<Rightarrow> fs_state \<Rightarrow> fs_state" where
  "modify_txn f fs = fs\<lparr>fs_transaction := map_option f (fs_transaction fs)\<rparr>"

subsection \<open>Transactions\<close>

definition begin_transaction :: "('s \<times> fs_state, transaction_error, unit) op" where
  "begin_transaction st =
     (let (s, fs) = st in
      if has_active_transaction fs then (Err TransactionAlreadyActive, st)
      else
        let txn_id = fs_next_txn_id fs;
            generation = sb_root_generation (fs_superblock fs) + 1;
            current_root = sb_root_tree_block (fs_superblock fs) in
        (Ok (), (s, fs\<lparr>fs_next_txn_id := txn_id + 1,
          fs_transaction := Some (Transaction_new txn_id generation current_root)\<rparr>)))"

definition superblock_node :: "superblock \<Rightarrow> tree_node" where
  "superblock_node sb =
     TreeNode_default\<lparr>tn_data := copy_into (tn_data TreeNode_default) 0 (superblock_bytes sb)\<rparr>"

definition write_superblock :: "'s store \<Rightarrow> u64 \<Rightarrow> superblock \<Rightarrow> ('s, transaction_error, unit) op" where
  "write_superblock D block sb = map_err_op (\<lambda>_. TxnIoError) (st_write D block (superblock_node sb))"

definition read_superblock :: "'s store \<Rightarrow> u64 \<Rightarrow> 's \<Rightarrow> (transaction_error, superblock) res" where
  "read_superblock D block s =
     rbind (map_err (\<lambda>_. TxnIoError) (st_read D block s)) (\<lambda>node.
     let sb = superblock_of_bytes (tn_data node) in
     if sb_magic sb \<noteq> WFS_MAGIC then Err TxnIoError
     else if \<not> sb_verify_crc sb then Err TxnIoError
     else Ok sb)"

definition commit_transaction ::
  "'s store \<Rightarrow> (u64 \<Rightarrow> u64 \<Rightarrow> ('s \<times> fs_state, transaction_error, unit) op) \<Rightarrow>
   ('s \<times> fs_state, transaction_error, unit) op" where
  "commit_transaction D free_blocks =
     sbind get_fs (\<lambda>fs.
     case fs_transaction fs of
       None \<Rightarrow> lift_res (Err NoActiveTransaction)
     | Some txn \<Rightarrow>
         if \<not> is_active txn then lift_res (Err InvalidState)
         else
           let txn = snd (begin_commit txn);
               sb = sb_update_crc ((fs_superblock fs)
                 \<lparr>sb_root_tree_block := tx_working_root txn, sb_root_generation := tx_generation txn\<rparr>) in
           sbind (modify_fs (\<lambda>fs. fs\<lparr>fs_transaction := Some txn, fs_superblock := sb\<rparr>)) (\<lambda>_.
           sbind (on_fst (write_superblock D 0 sb)) (\<lambda>_.
           sbind (on_fst (map_err_op (\<lambda>_. TxnIoError) (st_sync D))) (\<lambda>_.
           sbind (on_fst (write_superblock D 1 sb)) (\<lambda>_.
           sbind (modify_fs (modify_txn complete_commit)) (\<lambda>_.
           sbind (for_op (\<lambda>pf. free_blocks (pf_block pf) (pf_count pf)) (tx_pending_frees txn)) (\<lambda>_.
           modify_fs (\<lambda>fs. fs\<lparr>fs_transaction := None,
             fs_inode_tree := (fs_inode_tree fs)\<lparr>bt_root_block := sb_root_tree_block (fs_superblock fs),
               bt_generation := sb_root_generation (fs_superblock fs)\<rparr>\<rparr>))))))))"

definition abort_transaction :: "'s store \<Rightarrow> ('s \<times> fs_state, transaction_error, unit) op" where
  "abort_transaction D =
     sbind get_fs (\<lambda>fs.
     case fs_transaction fs of
       None \<Rightarrow> lift_res (Err NoActiveTransaction)
     | Some txn \<Rightarrow>
         if \<not> is_active txn then lift_res (Err InvalidState)
         else
           sbind (modify_fs (modify_txn tx_abort)) (\<lambda>_.
           sbind (for_op (\<lambda>block. on_fst (ignore_err (st_free D block))) (tx_allocated_blocks txn)) (\<lambda>_.
           modify_fs (\<lambda>fs. fs\<lparr>fs_transaction := None\<rparr>))))"

subsection \<open>Inode operations\<close>

definition inode_lookup :: "'s store \<Rightarrow> fs_state \<Rightarrow> u64 \<Rightarrow> 's \<Rightarrow> (tree_error, inode option) res" where
  "inode_lookup D fs inode_num s =
     rbind (tree_search D inode_value (fs_inode_tree fs) inode_num s) (\<lambda>(result, _). Ok (result_value result))"

definition note_inode :: "u64 \<Rightarrow> fs_state \<Rightarrow> fs_state" where
  "note_inode inode_num fs =
     modify_txn (\<lambda>txn. (record_inode_modification inode_num txn)
       \<lparr>tx_working_root := bt_root_block (fs_inode_tree fs)\<rparr>) fs"

definition inode_insert :: "'s store \<Rightarrow> inode \<Rightarrow> ('s \<times> fs_state, tree_error, unit) op" where
  "inode_insert D inode =
     (let inode_num = i_inode_num inode in
      sbind (ignore_err (on_inode_tree (tree_delete D inode_value inode_num))) (\<lambda>_.
      sbind (on_inode_tree (tree_insert D inode_value inode_num inode)) (\<lambda>_.
      modify_fs (note_inode inode_num))))"

definition inode_delete :: "'s store \<Rightarrow> u64 \<Rightarrow> ('s \<times> fs_state, tree_error, inode) op" where
  "inode_delete D inode_num =
     sbind (on_inode_tree (tree_delete D inode_value inode_num)) (\<lambda>result.
     sbind (modify_fs (note_inode inode_num)) (\<lambda>_.
     ret result))"

definition allocate_inode_num :: "fs_state \<Rightarrow> u64 \<times> fs_state" where
  "allocate_inode_num fs =
     (let num = sb_next_inode (fs_superblock fs) in
      (num, fs\<lparr>fs_superblock := (fs_superblock fs)
        \<lparr>sb_next_inode := sb_next_inode (fs_superblock fs) + 1,
         sb_inode_count := sb_inode_count (fs_superblock fs) + 1\<rparr>\<rparr>))"

subsection \<open>Directory operations\<close>

definition dir_lookup :: "'s store \<Rightarrow> bplus_tree \<Rightarrow> byte list \<Rightarrow> 's \<Rightarrow> (tree_error, dir_entry option) res" where
  "dir_lookup D dir_tree name s =
     rbind (tree_search D direntry_value dir_tree (hash_name name) s) (\<lambda>(result, _).
     case result_value result of
       Some dev \<Rightarrow> if matches dev name then Ok (Some dev) else Ok None
     | None \<Rightarrow> Ok None)"

definition dir_insert :: "'s store \<Rightarrow> dir_entry \<Rightarrow> ('s \<times> bplus_tree, tree_error, unit) op" where
  "dir_insert D entry = sbind (tree_insert D direntry_value (de_name_hash entry) entry) (\<lambda>_. ret ())"

definition dir_delete :: "'s store \<Rightarrow> byte list \<Rightarrow> ('s \<times> bplus_tree, tree_error, dir_entry) op" where
  "dir_delete D name = tree_delete D direntry_value (hash_name name)"

subsection \<open>Extent operations\<close>

definition extent_lookup :: "'s store \<Rightarrow> bplus_tree \<Rightarrow> u64 \<Rightarrow> 's \<Rightarrow> (tree_error, extent option) res" where
  "extent_lookup D extent_tree file_offset s =
     rbind (tree_search D extent_value extent_tree file_offset s) (\<lambda>(result, _).
     case result_value result of
       Some ev \<Rightarrow> if contains_offset ev file_offset then Ok (Some ev) else Ok None
     | None \<Rightarrow> Ok None)"

definition extent_insert :: "'s store \<Rightarrow> extent \<Rightarrow> ('s \<times> bplus_tree, tree_error, unit) op" where
  "extent_insert D ext = sbind (tree_insert D extent_value (e_file_offset ext) ext) (\<lambda>_. ret ())"

definition extent_delete :: "'s store \<Rightarrow> u64 \<Rightarrow> ('s \<times> bplus_tree, tree_error, extent) op" where
  "extent_delete D file_offset = tree_delete D extent_value file_offset"

definition record_allocations :: "u64 \<Rightarrow> u64 \<Rightarrow> transaction \<Rightarrow> transaction" where
  "record_allocations start_block n txn =
     fold (\<lambda>i. record_allocation (start_block + of_nat i)) [0..<unat n] txn"

definition allocate_for_write :: "'s store \<Rightarrow> u64 \<Rightarrow> u64 \<Rightarrow> ('s \<times> fs_state, tree_error, extent) op" where
  "allocate_for_write D file_offset len =
     (let block_count = (len + BS - 1) div BS in
      sbind (on_fst (st_alloc D)) (\<lambda>start_block.
      sbind (for_op (\<lambda>_. sbind (on_fst (st_alloc D)) (\<lambda>_. ret ())) [1..<unat block_count]) (\<lambda>_.
      sbind (modify_fs (modify_txn (record_allocations start_block block_count))) (\<lambda>_.
      ret (Extent_new file_offset start_block len)))))"

subsection \<open>File operations\<close>

text \<open>Copying \<open>n\<close> bytes of a block from \<open>off\<close> into the buffer: the slice of the block's data area
  panics when it reaches past the area.\<close>

definition copy_block :: "byte list \<Rightarrow> nat \<Rightarrow> nat \<Rightarrow> nat \<Rightarrow> byte list \<Rightarrow> (tree_error, byte list) res" where
  "copy_block data off n pos buf =
     (if off + n \<le> length data then Ok (copy_into buf pos (take n (drop off data))) else Panic)"

lemma rbind_cong [fundef_cong]:
  "r = r' \<Longrightarrow> (\<And>a. r' = Ok a \<Longrightarrow> f a = f' a) \<Longrightarrow> rbind r f = rbind r' f'"
  by (cases r') auto

lemma contains_remaining: "contains_offset e off \<Longrightarrow> 0 < unat (e_length e - (off - e_file_offset e))"
proof -
  assume c: "contains_offset e off"
  then have le: "e_file_offset e \<le> off" "off < e_file_offset e + e_length e" by (simp_all add: contains_offset_def file_end_def)
  have "e_length e \<noteq> off - e_file_offset e"
  proof
    assume "e_length e = off - e_file_offset e"
    then have "e_file_offset e + e_length e = off" by simp
    then show False using le(2) by simp
  qed
  then show ?thesis by (simp add: unat_gt_0)
qed

lemma extent_lookup_contains: "extent_lookup D t off s = Ok (Some e) \<Longrightarrow> contains_offset e off"
  by (auto simp: extent_lookup_def split: option.splits if_splits prod.splits)

lemma read_progress: "a < b \<Longrightarrow> 0 < x \<Longrightarrow> y < z \<Longrightarrow> b - (a + min (min (b - a) x) (z - y)) < b - a" for a b x y z :: nat
  by arith

function read_loop ::
  "'s store \<Rightarrow> bplus_tree \<Rightarrow> nat \<Rightarrow> 's \<Rightarrow> nat \<Rightarrow> u64 \<Rightarrow> byte list \<Rightarrow> (tree_error, nat \<times> byte list) res" where
  "read_loop D extent_tree read_len s bytes_read current_offset buf =
     (if \<not> bytes_read < read_len then Ok (bytes_read, buf)
      else
        rbind (extent_lookup D extent_tree current_offset s) (\<lambda>ext.
        if ext \<noteq> None \<and> \<not> is_hole (the ext) then
          let ext = the ext;
              offset_in_extent = current_offset - e_file_offset ext;
              extent_remaining = e_length ext - offset_in_extent;
              to_read = min (read_len - bytes_read) (unat extent_remaining) in
          rbind (ok_or InvalidNode (offset_to_block ext current_offset)) (\<lambda>block.
          rbind (st_read D block s) (\<lambda>node.
          let block_offset = unat (offset_in_extent mod BS);
              copy_len = min to_read (BLOCK_SIZE - block_offset) in
          rbind (copy_block (tn_data node) block_offset copy_len bytes_read buf) (\<lambda>buf.
          read_loop D extent_tree read_len s (bytes_read + copy_len) (current_offset + of_nat copy_len) buf)))
        else
          let to_zero = min (read_len - bytes_read) BLOCK_SIZE in
          read_loop D extent_tree read_len s (bytes_read + to_zero) (current_offset + of_nat to_zero)
            (copy_into buf bytes_read (replicate to_zero 0))))"
  by pat_completeness auto

termination
proof (relation "measure (\<lambda>(D, t, read_len, s, bytes_read, off, buf). read_len - bytes_read)", goal_cases)
  case 1
  show ?case by simp
next
  case (2 D t read_len s bytes_read off buf x)
  then obtain e where e: "extent_lookup D t off s = Ok (Some e)" "x = Some e" by auto
  have "0 < unat (e_length e - (off - e_file_offset e))"
    by (rule contains_remaining [OF extent_lookup_contains [OF e(1)]])
  moreover have "unat ((off - e_file_offset e) mod BS) < BLOCK_SIZE"
    by (simp add: unat_mod BLOCK_SIZE_def)
  ultimately show ?case using 2 e(2) by (simp add: read_progress)
next
  case (3 D t read_len s bytes_read off buf x)
  then show ?case by (simp add: BLOCK_SIZE_def)
qed

declare read_loop.simps [simp del]

definition file_read ::
  "'s store \<Rightarrow> inode \<Rightarrow> u64 \<Rightarrow> byte list \<Rightarrow> 's \<Rightarrow> (tree_error, nat \<times> byte list) res" where
  "file_read D inode offset buf s =
     (if offset \<ge> i_size inode then Ok (0, buf)
      else
        let read_len = min (length buf) (unat (i_size inode - offset)) in
        if is_inline inode then
          rbind (get_inline_data inode) (\<lambda>inline_data.
          if unat offset < length inline_data then
            let start = unat offset;
                copy_len = min read_len (length inline_data - start) in
            Ok (copy_len, copy_into buf 0 (take copy_len (drop start inline_data)))
          else Ok (0, buf))
        else
          let extent_tree = from_root (i_extent_root inode) 0 NExtent 0 in
          read_loop D extent_tree read_len s 0 offset buf)"

text \<open>Writing the data block by block; \<open>node.data[..to_write]\<close> panics past the data area.\<close>

function write_chunks :: "'s store \<Rightarrow> u64 \<Rightarrow> u64 \<Rightarrow> byte list \<Rightarrow> ('s, tree_error, unit) op" where
  "write_chunks D generation current_block data =
     (if data = [] then ret ()
      else
        let to_write = min (length data) BLOCK_SIZE;
            node = new_leaf NExtent generation in
        if to_write > length (tn_data node) then lift_res Panic
        else
          sbind (st_write D current_block (node\<lparr>tn_data := copy_into (tn_data node) 0 (take to_write data)\<rparr>)) (\<lambda>_.
          write_chunks D generation (current_block + 1) (drop to_write data)))"
  by pat_completeness auto

termination
  by (relation "measure (\<lambda>(D, g, b, data). length data)") (auto simp: BLOCK_SIZE_def)

declare write_chunks.simps [simp del]

definition modify_inode :: "(inode \<Rightarrow> inode) \<Rightarrow> ('t \<times> inode, 'e, inode) op" where
  "modify_inode f st = (Ok (f (snd st)), (fst st, f (snd st)))"

definition file_write ::
  "'s store \<Rightarrow> u64 \<Rightarrow> byte list \<Rightarrow> (('s \<times> fs_state) \<times> inode, tree_error, nat) op" where
  "file_write D offset data =
     (let write_len = length data in
      if can_inline (unat offset + write_len) \<and> offset = 0 then
        sbind (modify_inode (\<lambda>i. inode_update_crc (snd (set_inline_data data i)))) (\<lambda>inode.
        sbind (on_fst (inode_insert D inode)) (\<lambda>_.
        ret write_len))
      else
        sbind (on_fst (allocate_for_write D offset (of_nat write_len))) (\<lambda>extent.
        sbind (on_fst get_fs) (\<lambda>fs.
        sbind (on_fst (on_fst (write_chunks D (sb_root_generation (fs_superblock fs)) (e_disk_block extent) data))) (\<lambda>_.
        sbind (modify_inode (\<lambda>i. i)) (\<lambda>inode.
        sbind (\<lambda>st.
            let t = from_root (i_extent_root inode) 0 NExtent (sb_root_generation (fs_superblock fs));
                (r, (s', t')) = extent_insert D extent (fst (fst st), t) in
            (map_res (\<lambda>_. bt_root_block t') r, ((s', snd (fst st)), snd st))) (\<lambda>root.
        sbind (modify_inode (\<lambda>i.
            let new_end = offset + of_nat write_len;
                i = i\<lparr>i_extent_root := root\<rparr>;
                i = (if new_end > i_size i then i\<lparr>i_size := new_end\<rparr> else i) in
            inode_update_crc (i\<lparr>i_blocks := (i_size i + BS - 1) div BS\<rparr>))) (\<lambda>inode.
        sbind (on_fst (inode_insert D inode)) (\<lambda>_.
        ret write_len))))))))"

subsection \<open>Free space\<close>

definition find_free_range :: "'s store \<Rightarrow> fs_state \<Rightarrow> u64 \<Rightarrow> 's \<Rightarrow> (tree_error, (u64 \<times> u64) option) res" where
  "find_free_range D fs blocks_needed s =
     rbind (tree_search D u64_value (fs_free_tree fs) 0 s) (\<lambda>(result, _).
     case result_value result of
       Some len \<Rightarrow> if len \<ge> blocks_needed then Ok (Some (0, len)) else Ok None
     | None \<Rightarrow> Ok None)"

definition fs_allocate :: "'s store \<Rightarrow> u64 \<Rightarrow> ('s \<times> fs_state, tree_error, u64) op" where
  "fs_allocate D blocks_needed =
     sbind (\<lambda>st. (find_free_range D (snd st) blocks_needed (fst st), st)) (\<lambda>range.
     sbind (lift_res (ok_or NodeFull range)) (\<lambda>(start_block, range_length).
     sbind (on_free_tree (tree_delete D u64_value start_block)) (\<lambda>_.
     sbind (if range_length > blocks_needed
        then sbind (on_free_tree (tree_insert D u64_value (start_block + blocks_needed) (range_length - blocks_needed))) (\<lambda>_. ret ())
        else ret ()) (\<lambda>_.
     sbind (modify_fs (\<lambda>fs. fs\<lparr>fs_superblock := (fs_superblock fs)
        \<lparr>sb_free_blocks := saturating_sub (sb_free_blocks (fs_superblock fs)) blocks_needed\<rparr>\<rparr>)) (\<lambda>_.
     sbind (modify_fs (modify_txn (record_allocations start_block blocks_needed))) (\<lambda>_.
     ret start_block))))))"

definition add_free_blocks :: "u64 \<Rightarrow> fs_state \<Rightarrow> fs_state" where
  "add_free_blocks n fs =
     fs\<lparr>fs_superblock := (fs_superblock fs)\<lparr>sb_free_blocks := sb_free_blocks (fs_superblock fs) + n\<rparr>\<rparr>"

definition fs_free :: "'s store \<Rightarrow> u64 \<Rightarrow> u64 \<Rightarrow> ('s \<times> fs_state, tree_error, unit) op" where
  "fs_free D start_block count =
     sbind get_fs (\<lambda>fs.
     if fs_transaction fs \<noteq> None then modify_fs (modify_txn (schedule_free start_block count))
     else
       sbind (on_free_tree (tree_insert D u64_value start_block count)) (\<lambda>_.
       modify_fs (add_free_blocks count)))"

definition process_pending_frees :: "'s store \<Rightarrow> (u64 \<times> u64) list \<Rightarrow> ('s \<times> fs_state, tree_error, unit) op" where
  "process_pending_frees D =
     for_op (\<lambda>(start, count).
       sbind (on_free_tree (tree_insert D u64_value start count)) (\<lambda>_. modify_fs (add_free_blocks count)))"

subsection \<open>Path resolution\<close>

text \<open>\<open>path.split('/')\<close>; \<open>0x2F\<close> is the slash.\<close>

fun split_slash :: "byte list \<Rightarrow> byte list list" where
  "split_slash [] = [[]]"
| "split_slash (b # bs) =
     (if b = 0x2F then [] # split_slash bs
      else case split_slash bs of [] \<Rightarrow> [[b]] | w # ws \<Rightarrow> (b # w) # ws)"

fun walk :: "'s store \<Rightarrow> fs_state \<Rightarrow> 's \<Rightarrow> inode \<Rightarrow> byte list list \<Rightarrow> (tree_error, inode option) res" where
  "walk D fs s current_inode [] = Ok (Some current_inode)"
| "walk D fs s current_inode (component # rest) =
     (if \<not> inode_is_directory current_inode then Err InvalidOperation
      else
        let dir_tree = BPlusTree_new (i_extent_root current_inode) NDirectory (bt_generation (fs_inode_tree fs)) in
        rbind (dir_lookup D dir_tree component s) (\<lambda>r.
        case r of
          Some entry \<Rightarrow>
            rbind (inode_lookup D fs (de_inode_num entry) s) (\<lambda>i.
            case i of
              Some inode \<Rightarrow> walk D fs s inode rest
            | None \<Rightarrow> Err NodeNotFound)
        | None \<Rightarrow> Ok None))"

definition resolve_path :: "'s store \<Rightarrow> fs_state \<Rightarrow> byte list \<Rightarrow> 's \<Rightarrow> (tree_error, inode option) res" where
  "resolve_path D fs path s =
     rbind (inode_lookup D fs ROOT_INODE s) (\<lambda>r.
     case r of
       None \<Rightarrow> Err NodeNotFound
     | Some current_inode \<Rightarrow>
         if path = [0x2F] \<or> path = [] then Ok (Some current_inode)
         else walk D fs s current_inode (filter (\<lambda>c. c \<noteq> []) (split_slash path)))"

subsection \<open>Initialisation\<close>

definition init_root_inode :: inode where
  "init_root_inode = inode_update_crc ((new_directory ROOT_INODE)\<lparr>i_extent_root := 4\<rparr>)"

definition init_superblock :: "u64 \<Rightarrow> superblock" where
  "init_superblock total_blocks =
     sb_update_crc ((Superblock_new total_blocks)
       \<lparr>sb_root_tree_block := 2, sb_free_tree_block := 3, sb_root_generation := 1, sb_inode_count := 1,
        sb_next_inode := 2, sb_free_blocks := saturating_sub total_blocks 5, sb_data_start_block := 5\<rparr>)"

definition init_filesystem :: "'s store \<Rightarrow> u64 \<Rightarrow> ('s, tree_error, fs_state) op" where
  "init_filesystem D total_blocks =
     (let free_count = saturating_sub total_blocks 5;
          superblock = init_superblock total_blocks in
      sbind (lift_res (map_err (\<lambda>_. NodeFull)
        (leaf_insert inode_value (new_leaf NInode 1) ROOT_INODE init_root_inode))) (\<lambda>root_tree_node.
      let root_tree_node = update_crc root_tree_node in
      sbind (lift_res (if free_count > 0
        then map_err (\<lambda>_. NodeFull) (leaf_insert u64_value (new_leaf NFreeSpace 1) 5 free_count)
        else Ok (new_leaf NFreeSpace 1))) (\<lambda>free_tree_node.
      let free_tree_node = update_crc free_tree_node;
          dot = dot_entry ROOT_INODE;
          dotdot = dotdot_entry ROOT_INODE in
      sbind (lift_res (map_err (\<lambda>_. NodeFull)
        (leaf_insert direntry_value (new_leaf NDirectory 1) (de_name_hash dot) dot))) (\<lambda>root_dir_node.
      sbind (lift_res (map_err (\<lambda>_. NodeFull)
        (leaf_insert direntry_value root_dir_node (de_name_hash dotdot) dotdot))) (\<lambda>root_dir_node.
      let root_dir_node = update_crc root_dir_node in
      sbind (st_write D 2 root_tree_node) (\<lambda>_.
      sbind (st_write D 3 free_tree_node) (\<lambda>_.
      sbind (st_write D 4 root_dir_node) (\<lambda>_.
      sbind (st_write D 0 (superblock_node superblock)) (\<lambda>_.
      sbind (st_write D 1 (superblock_node superblock)) (\<lambda>_.
      sbind (st_sync D) (\<lambda>_.
      ret (FilesystemState_new superblock))))))))))))"

end
