(* ===== verification/Wfs_Adapter.thy ===== *)
theory Wfs_Adapter
  imports Wfs_Fs Vfs_Types
begin

text \<open>
  The WFS driver of the kernel, \<^verbatim>\<open>src/crates/storage/wfs/src/vfs_adapter.rs\<close>: mounting, the VFS
  operations on paths, open files, and the adapter from the sector interface of the storage drivers
  to the block interface of the B+tree.

  The storage driver is the parameter \<open>SD\<close> (the source's type parameter \<open>D: VfsBlockDevice\<close>): reading
  sectors fills a buffer or fails, writing sectors changes the state of the device and may fail.
  Reading does not change the state of the device. The VFS operations are written over any
  block store and used with \<open>adapter_store SD\<close>. The lock around the filesystem is not modelled: every
  operation takes it first and holds it until it returns.
\<close>

section \<open>The block device adapter\<close>

record 'd sector_device =
  sd_read :: "u64 \<Rightarrow> byte list \<Rightarrow> 'd \<Rightarrow> byte list option"
  sd_write :: "u64 \<Rightarrow> byte list \<Rightarrow> 'd \<Rightarrow> bool \<times> 'd"

definition adapter_read_node :: "'d sector_device \<Rightarrow> u64 \<Rightarrow> 'd \<Rightarrow> (tree_error, tree_node) res" where
  "adapter_read_node SD block d =
     (let sector = block * of_nat (BLOCK_SIZE div 512) in
      case sd_read SD sector (node_bytes TreeNode_default) d of
        Some bytes \<Rightarrow> Ok (node_of_bytes bytes)
      | None \<Rightarrow> Err TreeIoError)"

definition adapter_write_node :: "'d sector_device \<Rightarrow> u64 \<Rightarrow> tree_node \<Rightarrow> ('d, tree_error, unit) op" where
  "adapter_write_node SD block node d =
     (let sector = block * of_nat (BLOCK_SIZE div 512);
          (done, d') = sd_write SD sector (node_bytes node) d in
      (if done then Ok () else Err TreeIoError, d'))"

definition adapter_sync :: "('d, tree_error, unit) op" where
  "adapter_sync d = (Ok (), d)"

definition adapter_allocate_block :: "('d, tree_error, u64) op" where
  "adapter_allocate_block d = (Err TreeIoError, d)"

definition adapter_free_block :: "u64 \<Rightarrow> ('d, tree_error, unit) op" where
  "adapter_free_block block d = (Ok (), d)"

definition adapter_store :: "'d sector_device \<Rightarrow> 'd store" where
  "adapter_store SD = \<lparr>st_read = adapter_read_node SD, st_write = adapter_write_node SD, st_sync = adapter_sync,
     st_alloc = adapter_allocate_block, st_free = adapter_free_block\<rparr>"

definition adapter_allocate_blocks :: "u64 \<Rightarrow> ('d \<times> fs_state, transaction_error, u64) op" where
  "adapter_allocate_blocks n st = (Err TxnIoError, st)"

definition adapter_free_blocks :: "u64 \<Rightarrow> u64 \<Rightarrow> ('d \<times> fs_state, transaction_error, unit) op" where
  "adapter_free_blocks start n st = (Ok (), st)"

section \<open>Helpers\<close>

definition trim_end_slash :: "byte list \<Rightarrow> byte list" where
  "trim_end_slash path = rev (dropWhile (\<lambda>b. b = 0x2F) (rev path))"

definition rfind_slash :: "byte list \<Rightarrow> nat option" where
  "rfind_slash path = (case dropWhile (\<lambda>b. b \<noteq> 0x2F) (rev path) of [] \<Rightarrow> None | _ # before \<Rightarrow> Some (length before))"

definition split_path :: "byte list \<Rightarrow> byte list \<times> byte list" where
  "split_path path =
     (let path = trim_end_slash path in
      case rfind_slash path of
        Some pos \<Rightarrow> (if pos = 0 then [0x2F] else take pos path, drop (pos + 1) path)
      | None \<Rightarrow> ([0x2F], path))"

fun tree_error_to_vfs :: "tree_error \<Rightarrow> vfs_error" where
  "tree_error_to_vfs NodeNotFound = vfs_error.NotFound"
| "tree_error_to_vfs KeyNotFound = vfs_error.NotFound"
| "tree_error_to_vfs CrcError = Corrupted"
| "tree_error_to_vfs InvalidNode = Corrupted"
| "tree_error_to_vfs NodeFull = NoSpace"
| "tree_error_to_vfs _ = VfsIoError"

text \<open>An operation on a tree that is a local variable: its final value is returned.\<close>

definition with_tree :: "bplus_tree \<Rightarrow> ('s \<times> bplus_tree, 'e, 'a) op \<Rightarrow> ('s \<times> 't, 'e, 'a \<times> bplus_tree) op" where
  "with_tree t m st = (let (r, (s', t')) = m (fst st, t) in (map_res (\<lambda>a. (a, t')) r, (s', snd st)))"

abbreviation vfs_try :: "('s, tree_error, 'a) op \<Rightarrow> ('s, vfs_error, 'a) op" where
  "vfs_try \<equiv> map_err_op tree_error_to_vfs"

section \<open>The filesystem\<close>

text \<open>\<open>WfsInner::new\<close>: mounting reads the primary superblock.\<close>

definition wfs_mount :: "'s store \<Rightarrow> 's \<Rightarrow> (vfs_error, fs_state) res" where
  "wfs_mount D s =
     rbind (map_err (\<lambda>_. VfsIoError) (read_superblock D 0 s)) (\<lambda>superblock.
     if \<not> sb_is_valid superblock then Err Corrupted
     else Ok (FilesystemState_new superblock))"

definition resolve_inode :: "'s store \<Rightarrow> byte list \<Rightarrow> ('s \<times> fs_state, vfs_error, inode) op" where
  "resolve_inode D path st =
     (rbind (map_err tree_error_to_vfs (resolve_path D (snd st) path (fst st))) (ok_or vfs_error.NotFound), st)"

definition inode_to_stat :: "inode \<Rightarrow> file_stat" where
  "inode_to_stat inode =
     \<lparr>st_type = (let k = i_mode inode AND S_IFMT in
        if k = S_IFDIR then Directory else if k = S_IFREG then Regular else if k = S_IFLNK then Symlink else Regular),
      st_size = i_size inode, st_nlink = i_nlink inode, st_inode = i_inode_num inode, st_dev = 0,
      st_mode = i_mode inode, st_uid = i_uid inode, st_gid = i_gid inode, st_blksize = of_nat BLOCK_SIZE,
      st_blocks = i_blocks inode, st_atime = i_atime inode, st_mtime = i_mtime inode, st_ctime = i_ctime inode\<rparr>"

record wfs_file =
  wf_inode_data :: inode
  wf_position :: u64
  wf_mode :: file_mode

definition wfs_open :: "'s store \<Rightarrow> byte list \<Rightarrow> file_mode \<Rightarrow> ('s \<times> fs_state, vfs_error, wfs_file) op" where
  "wfs_open D path mode =
     sbind (resolve_inode D path) (\<lambda>inode.
     if i_mode inode AND S_IFMT \<noteq> S_IFREG then lift_res (Err IsADirectory)
     else ret \<lparr>wf_inode_data = inode, wf_position = 0, wf_mode = mode\<rparr>)"

definition wfs_stat :: "'s store \<Rightarrow> byte list \<Rightarrow> ('s \<times> fs_state, vfs_error, file_stat) op" where
  "wfs_stat D path = sbind (resolve_inode D path) (\<lambda>inode. ret (inode_to_stat inode))"

definition dir_tree_of :: "inode \<Rightarrow> fs_state \<Rightarrow> bplus_tree" where
  "dir_tree_of inode fs = BPlusTree_new (i_extent_root inode) NDirectory (sb_root_generation (fs_superblock fs))"

text \<open>\<open>allocate_inode_num\<close> as an operation on the state.\<close>

definition new_inode_num :: "('s \<times> fs_state, 'e, u64) op" where
  "new_inode_num st = (let (n, fs) = allocate_inode_num (snd st) in (Ok n, (fst st, fs)))"

text \<open>The last steps of every change of a directory: the new root of its tree goes into its inode.\<close>

definition update_parent :: "'s store \<Rightarrow> inode \<Rightarrow> bplus_tree \<Rightarrow> ('s \<times> fs_state, vfs_error, unit) op" where
  "update_parent D parent_inode tree =
     vfs_try (inode_insert D (parent_inode\<lparr>i_extent_root := bt_root_block tree\<rparr>))"

definition wfs_mkdir :: "'s store \<Rightarrow> byte list \<Rightarrow> ('s \<times> fs_state, vfs_error, unit) op" where
  "wfs_mkdir D path =
     (let (parent_path, name) = split_path path in
      sbind (resolve_inode D parent_path) (\<lambda>parent_inode.
      if i_mode parent_inode AND S_IFMT \<noteq> S_IFDIR then lift_res (Err NotADirectory)
      else
        sbind new_inode_num (\<lambda>inode_num.
        sbind (vfs_try (on_fst (st_alloc D))) (\<lambda>dir_tree_block.
        sbind get_fs (\<lambda>fs.
        let dir_inode = (Inode_new inode_num (S_IFDIR OR 0x1ED))\<lparr>i_extent_root := dir_tree_block, i_nlink := 2\<rparr>;
            dir_tree_node = TreeNode_new NDirectory 0 (sb_root_generation (fs_superblock fs)) in
        sbind (vfs_try (on_fst (st_write D dir_tree_block dir_tree_node))) (\<lambda>_.
        sbind (vfs_try (inode_insert D dir_inode)) (\<lambda>_.
        sbind (lift_res (ok_or InvalidArgument (DirEntry_new name inode_num EDirectory))) (\<lambda>entry.
        sbind (vfs_try (with_tree (dir_tree_of parent_inode fs) (dir_insert D entry))) (\<lambda>(_, tree).
        update_parent D parent_inode tree)))))))))"

text \<open>\<open>unlink\<close> and \<open>rmdir\<close> differ only in the type they ask for and the error they report.\<close>

definition wfs_remove :: "'s store \<Rightarrow> u32 \<Rightarrow> vfs_error \<Rightarrow> byte list \<Rightarrow> ('s \<times> fs_state, vfs_error, unit) op" where
  "wfs_remove D kind err path =
     (let (parent_path, name) = split_path path in
      sbind (resolve_inode D path) (\<lambda>inode.
      sbind (resolve_inode D parent_path) (\<lambda>parent_inode.
      if i_mode inode AND S_IFMT \<noteq> kind then lift_res (Err err)
      else
        sbind get_fs (\<lambda>fs.
        sbind (vfs_try (with_tree (dir_tree_of parent_inode fs) (dir_delete D name))) (\<lambda>(_, tree).
        sbind (update_parent D parent_inode tree) (\<lambda>_.
        sbind (vfs_try (inode_delete D (i_inode_num inode))) (\<lambda>_.
        ret ())))))))"

definition wfs_unlink :: "'s store \<Rightarrow> byte list \<Rightarrow> ('s \<times> fs_state, vfs_error, unit) op" where
  "wfs_unlink D = wfs_remove D S_IFREG IsADirectory"

definition wfs_rmdir :: "'s store \<Rightarrow> byte list \<Rightarrow> ('s \<times> fs_state, vfs_error, unit) op" where
  "wfs_rmdir D = wfs_remove D S_IFDIR NotADirectory"

text \<open>\<open>readdir\<close> returns no entries (the scan of the tree is not written in the source).\<close>

definition wfs_readdir :: "'s store \<Rightarrow> byte list \<Rightarrow> ('s \<times> fs_state, vfs_error, dir_entry list) op" where
  "wfs_readdir D path =
     sbind (resolve_inode D path) (\<lambda>inode.
     if i_mode inode AND S_IFMT \<noteq> S_IFDIR then lift_res (Err NotADirectory)
     else ret [])"

definition wfs_rename :: "'s store \<Rightarrow> byte list \<Rightarrow> byte list \<Rightarrow> ('s \<times> fs_state, vfs_error, unit) op" where
  "wfs_rename D old_path new_path =
     (let (old_parent_path, old_name) = split_path old_path;
          (new_parent_path, new_name) = split_path new_path in
      sbind (resolve_inode D old_path) (\<lambda>file_inode.
      sbind (resolve_inode D old_parent_path) (\<lambda>old_parent.
      sbind (resolve_inode D new_parent_path) (\<lambda>new_parent.
      sbind get_fs (\<lambda>fs.
      sbind (vfs_try (with_tree (dir_tree_of old_parent fs) (dir_delete D old_name))) (\<lambda>(old_entry, old_tree).
      sbind (update_parent D old_parent old_tree) (\<lambda>_.
      sbind (lift_res (ok_or InvalidArgument (DirEntry_new new_name (i_inode_num file_inode) (de_type old_entry)))) (\<lambda>new_entry.
      sbind get_fs (\<lambda>fs.
      sbind (vfs_try (with_tree (dir_tree_of new_parent fs) (dir_insert D new_entry))) (\<lambda>(_, new_tree).
      update_parent D new_parent new_tree))))))))))"

definition wfs_sync :: "('s \<times> fs_state, vfs_error, unit) op" where
  "wfs_sync st = (Ok (), st)"

definition wfs_statfs :: "fs_state \<Rightarrow> fs_stats" where
  "wfs_statfs fs =
     (let sb = fs_superblock fs in
      \<lparr>fst_block_size = of_nat BLOCK_SIZE, fst_total_blocks = sb_total_blocks sb, fst_free_blocks = sb_free_blocks sb,
       fst_total_inodes = sb_inode_count sb, fst_free_inodes = - 1, fst_max_name_len = 255\<rparr>)"

definition wfs_chmod :: "'s store \<Rightarrow> byte list \<Rightarrow> u32 \<Rightarrow> ('s \<times> fs_state, vfs_error, unit) op" where
  "wfs_chmod D path mode =
     sbind (resolve_inode D path) (\<lambda>inode.
     vfs_try (inode_insert D (inode\<lparr>i_mode := (i_mode inode AND S_IFMT) OR (mode AND NOT S_IFMT)\<rparr>)))"

definition wfs_chown :: "'s store \<Rightarrow> byte list \<Rightarrow> u32 \<Rightarrow> u32 \<Rightarrow> ('s \<times> fs_state, vfs_error, unit) op" where
  "wfs_chown D path uid gid =
     sbind (resolve_inode D path) (\<lambda>inode.
     vfs_try (inode_insert D (inode\<lparr>i_uid := uid, i_gid := gid\<rparr>)))"

section \<open>Open files\<close>

text \<open>Reading returns the bytes read; slices out of range panic.\<close>

definition wfs_file_read :: "nat \<Rightarrow> (wfs_file, vfs_error, byte list) op" where
  "wfs_file_read buffer_len f =
     (if \<not> fm_read (wf_mode f) then (Err PermissionDenied, f)
      else
        let inode = wf_inode_data f in
        if i_inline_size inode > 0 then
          let inline_len = ucast (i_inline_size inode) :: u64 in
          if wf_position f \<ge> inline_len then (Ok [], f)
          else
            let available = unat (inline_len - wf_position f);
                to_read = min buffer_len available;
                start = unat (wf_position f) in
            if start + to_read > length (i_inline_data inode) then (Panic, f)
            else (Ok (take to_read (drop start (i_inline_data inode))), f\<lparr>wf_position := wf_position f + of_nat to_read\<rparr>)
        else (Err NotSupported, f))"

definition wfs_file_write :: "'s store \<Rightarrow> byte list \<Rightarrow> (('s \<times> fs_state) \<times> wfs_file, vfs_error, nat) op" where
  "wfs_file_write D buffer st =
     (let (sfs, f) = st; pos = wf_position f; len = of_nat (length buffer) :: u64 in
      if \<not> fm_write (wf_mode f) then (Err PermissionDenied, st)
      else if pos + len \<le> of_nat INODE_INLINE_SIZE then
        let start = unat pos; end_pos = unat (pos + len) in
        if start > end_pos then (Panic, st)
        else
          let inode = (wf_inode_data f)\<lparr>i_inline_data := copy_into (i_inline_data (wf_inode_data f)) start buffer,
                i_inline_size := of_nat end_pos, i_size := of_nat end_pos\<rparr>;
              f = f\<lparr>wf_inode_data := inode\<rparr>;
              (r, sfs) = vfs_try (inode_insert D inode) sfs in
          (case r of
             Ok _ \<Rightarrow> (Ok (length buffer), (sfs, f\<lparr>wf_position := wf_position f + len\<rparr>))
           | Err e \<Rightarrow> (Err e, (sfs, f))
           | Panic \<Rightarrow> (Panic, (sfs, f)))
      else (Err NotSupported, st))"

definition wfs_file_seek :: "64 word \<Rightarrow> seek_from \<Rightarrow> (wfs_file, vfs_error, u64) op" where
  "wfs_file_seek off whence f =
     (let new_pos = (case whence of
          Start \<Rightarrow> off
        | Current \<Rightarrow> wf_position f + off
        | End \<Rightarrow> i_size (wf_inode_data f) + off) in
      (Ok new_pos, f\<lparr>wf_position := new_pos\<rparr>))"

definition wfs_file_tell :: "wfs_file \<Rightarrow> u64" where
  "wfs_file_tell f = wf_position f"

definition wfs_file_stat :: "wfs_file \<Rightarrow> file_stat" where
  "wfs_file_stat f = inode_to_stat (wf_inode_data f)"

definition wfs_file_truncate :: "u64 \<Rightarrow> (wfs_file, vfs_error, unit) op" where
  "wfs_file_truncate sz f = (Ok (), f\<lparr>wf_inode_data := (wf_inode_data f)\<lparr>i_size := sz\<rparr>\<rparr>)"

section \<open>Operations that cannot succeed\<close>

text \<open>A preorder \<open>R\<close> on states says what an operation leaves as it was: \<open>quiet\<close> operations only move
  along it, \<open>refuses\<close> ones moreover never return \<open>Ok\<close>. Sequences inherit both.\<close>

locale frame =
  fixes R :: "'s \<Rightarrow> 's \<Rightarrow> bool"
  assumes refl: "R s s" and trans: "R s s' \<Longrightarrow> R s' s'' \<Longrightarrow> R s s''"
begin

definition quiet :: "('s, 'e, 'a) op \<Rightarrow> bool" where
  "quiet m \<longleftrightarrow> (\<forall>s. R s (snd (m s)))"

definition refuses :: "('s, 'e, 'a) op \<Rightarrow> bool" where
  "refuses m \<longleftrightarrow> (\<forall>s. R s (snd (m s)) \<and> (\<forall>a. fst (m s) \<noteq> Ok a))"

lemma refuses_quiet: "refuses m \<Longrightarrow> quiet m"
  by (simp add: refuses_def quiet_def)

lemma sbind_state:
  assumes "quiet m" and "\<And>a. quiet (f a)"
  shows "quiet (sbind m f)"
  unfolding quiet_def
proof
  fix s
  obtain r s' where m: "m s = (r, s')" by fastforce
  then have "R s s'" using assms(1) by (metis quiet_def snd_conv)
  then show "R s (snd (sbind m f s))"
    using m assms(2) trans by (cases r) (auto simp: sbind_def quiet_def)
qed

lemma refuses_after:
  assumes "quiet m" and "\<And>a. refuses (f a)"
  shows "refuses (sbind m f)"
  unfolding refuses_def
proof
  fix s
  obtain r s' where m: "m s = (r, s')" by fastforce
  then have "R s s'" using assms(1) by (metis quiet_def snd_conv)
  then show "R s (snd (sbind m f s)) \<and> (\<forall>a. fst (sbind m f s) \<noteq> Ok a)"
    using m assms(2) trans by (cases r) (auto simp: sbind_def refuses_def)
qed

lemma refuses_first:
  assumes "refuses m"
  shows "refuses (sbind m f)"
  unfolding refuses_def
proof
  fix s
  obtain r s' where m: "m s = (r, s')" by fastforce
  then have "R s s'" "\<forall>a. r \<noteq> Ok a" using assms by (metis refuses_def fst_conv snd_conv)+
  then show "R s (snd (sbind m f s)) \<and> (\<forall>a. fst (sbind m f s) \<noteq> Ok a)"
    using m by (cases r) (auto simp: sbind_def)
qed

lemma quiet_pure: "(\<And>s. snd (m s) = s) \<Longrightarrow> quiet m"
  by (simp add: quiet_def refl)

lemma quiet_basic: "quiet (ret a)" "quiet (lift_res r)"
  by (simp_all add: quiet_def refl ret_def lift_res_def)

lemma refuses_err: "refuses (lift_res (Err e))"
  by (simp add: refuses_def refl lift_res_def)

lemma refuses_map_err: "refuses m \<Longrightarrow> refuses (map_err_op g m)"
  by (auto simp: refuses_def map_err_op_def split_beta elim: map_err.elims)

lemma quiet_ignore: "quiet m \<Longrightarrow> quiet (ignore_err m)"
  by (auto simp: quiet_def ignore_err_def split: prod.splits res.splits) (metis snd_conv)+

lemma quiet_map_err: "quiet m \<Longrightarrow> quiet (map_err_op g m)"
  by (auto simp: quiet_def map_err_op_def split_beta)

lemma refuses_if: "(P \<Longrightarrow> refuses m) \<Longrightarrow> (\<not> P \<Longrightarrow> refuses m') \<Longrightarrow> refuses (if P then m else m')"
  by simp

lemma refuses_prod: "(\<And>a b. refuses (f a b)) \<Longrightarrow> refuses (case p of (a, b) \<Rightarrow> f a b)"
  by (cases p) simp

end

text \<open>Trees: the device and the tree's root and height stay. Filesystems: the device and the root
  and height of the inode tree.\<close>

definition same_tree :: "bplus_tree \<Rightarrow> bplus_tree \<Rightarrow> bool" where
  "same_tree t t' \<longleftrightarrow> bt_root_block t' = bt_root_block t \<and> bt_height t' = bt_height t"

definition tree_keeps :: "'s \<times> bplus_tree \<Rightarrow> 's \<times> bplus_tree \<Rightarrow> bool" where
  "tree_keeps st st' \<longleftrightarrow> fst st' = fst st \<and> same_tree (snd st) (snd st')"

definition fs_keeps :: "'s \<times> fs_state \<Rightarrow> 's \<times> fs_state \<Rightarrow> bool" where
  "fs_keeps st st' \<longleftrightarrow> fst st' = fst st \<and> same_tree (fs_inode_tree (snd st)) (fs_inode_tree (snd st'))"

interpretation tree_frame: frame tree_keeps
  by unfold_locales (auto simp: tree_keeps_def same_tree_def)

interpretation fs_frame: frame fs_keeps
  by unfold_locales (auto simp: fs_keeps_def same_tree_def)

lemma tree_ops_quiet:
  "tree_frame.quiet get_tree" "tree_frame.quiet next_generation"
  "tree_frame.quiet (on_dev (dev_read D b))" "tree_frame.quiet (on_dev (\<lambda>s. (tree_search D V t k s, s)))"
  by (auto simp: tree_frame.quiet_def get_tree_def next_generation_def on_dev_def dev_read_def tree_keeps_def same_tree_def Let_def)

lemma adapter_alloc_refuses: "tree_frame.refuses (sbind (on_dev (st_alloc (adapter_store SD))) f)"
  by (rule tree_frame.refuses_first)
    (simp add: tree_frame.refuses_def on_dev_def adapter_store_def adapter_allocate_block_def tree_keeps_def same_tree_def)

lemmas tree_refusal = adapter_alloc_refuses tree_frame.refuses_err tree_frame.refuses_if tree_frame.refuses_prod
  tree_frame.refuses_after tree_ops_quiet tree_frame.quiet_basic

lemma adapter_insert_refuses: "tree_frame.refuses (tree_insert (adapter_store SD) V k v)"
  unfolding tree_insert_def insert_with_split_def Let_def by (rule tree_refusal)+

lemma refuses_search:
  "(\<And>v. tree_frame.refuses (m v)) \<Longrightarrow> tree_frame.refuses (case r of Found v \<Rightarrow> m v
     | search_result.NotFound \<Rightarrow> lift_res (Err KeyNotFound) | SearchError e \<Rightarrow> lift_res (Err e))"
  by (cases r) (simp_all add: tree_frame.refuses_err)

lemma adapter_delete_refuses: "tree_frame.refuses (tree_delete (adapter_store SD) V k)"
  unfolding tree_delete_def Let_def by (rule tree_refusal refuses_search)+

text \<open>The same for the inode tree of a filesystem and for a directory's tree.\<close>

lemma refuses_on_inode_tree: "tree_frame.refuses m \<Longrightarrow> fs_frame.refuses (on_inode_tree m)"
  by (simp add: tree_frame.refuses_def fs_frame.refuses_def on_inode_tree_def tree_keeps_def fs_keeps_def split_beta)

lemma refuses_with_tree: "tree_frame.refuses m \<Longrightarrow> fs_frame.refuses (with_tree t m)"
  by (auto simp: tree_frame.refuses_def fs_frame.refuses_def with_tree_def tree_keeps_def fs_keeps_def same_tree_def split_beta
      elim: map_res.elims)

lemma adapter_inode_insert_refuses: "fs_frame.refuses (inode_insert (adapter_store SD) i)"
  unfolding inode_insert_def Let_def
  by (intro fs_frame.refuses_after fs_frame.quiet_ignore fs_frame.refuses_quiet fs_frame.refuses_first
      refuses_on_inode_tree adapter_insert_refuses) (rule refuses_on_inode_tree adapter_delete_refuses)+

lemma fs_ops_quiet:
  "fs_frame.quiet (resolve_inode D path)" "fs_frame.quiet get_fs" "fs_frame.quiet new_inode_num"
  by (auto simp: fs_frame.quiet_def resolve_inode_def get_fs_def new_inode_num_def fs_keeps_def same_tree_def
      allocate_inode_num_def Let_def)

lemma adapter_block_refuses: "fs_frame.refuses (on_fst (st_alloc (adapter_store SD)))"
  by (simp add: fs_frame.refuses_def on_fst_def adapter_store_def adapter_allocate_block_def fs_keeps_def same_tree_def)

lemmas fs_refusal =
  adapter_block_refuses [THEN fs_frame.refuses_map_err, THEN fs_frame.refuses_first]
  adapter_delete_refuses [THEN refuses_with_tree, THEN fs_frame.refuses_map_err, THEN fs_frame.refuses_first]

lemma adapter_mkdir_refuses: "fs_frame.refuses (wfs_mkdir (adapter_store SD) path)"
  unfolding wfs_mkdir_def Let_def
  by (intro fs_frame.refuses_prod fs_frame.refuses_after [OF fs_ops_quiet(1)] fs_frame.refuses_after [OF fs_ops_quiet(3)]
      fs_frame.refuses_if fs_frame.refuses_err) (rule fs_refusal)

lemma adapter_remove_refuses: "fs_frame.refuses (wfs_remove (adapter_store SD) kind err path)"
  unfolding wfs_remove_def Let_def dir_delete_def
  by (intro fs_frame.refuses_prod fs_frame.refuses_after [OF fs_ops_quiet(1)] fs_frame.refuses_after [OF fs_ops_quiet(2)]
      fs_frame.refuses_if fs_frame.refuses_err) (rule fs_refusal)

lemma adapter_rename_refuses: "fs_frame.refuses (wfs_rename (adapter_store SD) old new)"
  unfolding wfs_rename_def Let_def dir_delete_def
  by (intro fs_frame.refuses_prod fs_frame.refuses_after [OF fs_ops_quiet(1)] fs_frame.refuses_after [OF fs_ops_quiet(2)])
    (rule fs_refusal)

lemma adapter_attr_refuses:
  "fs_frame.refuses (wfs_chmod (adapter_store SD) path mode)" "fs_frame.refuses (wfs_chown (adapter_store SD) path uid gid)"
  unfolding wfs_chmod_def wfs_chown_def
  by (intro fs_frame.refuses_after fs_ops_quiet fs_frame.refuses_map_err adapter_inode_insert_refuses)+

text \<open>What paths resolve to depends only on the device and on the root and height of the inode tree.\<close>

lemma tree_search_same: "same_tree t t' \<Longrightarrow> tree_search D V t' k s = tree_search D V t k s"
  by (simp add: tree_search_def same_tree_def bt_is_empty_def)

lemma walk_same:
  assumes "same_tree (fs_inode_tree fs) (fs_inode_tree fs')"
  shows "walk D fs' s i path = walk D fs s i path"
proof (induction path arbitrary: i)
  case (Cons c path)
  have look: "inode_lookup D fs' n s = inode_lookup D fs n s" for n
    by (simp add: inode_lookup_def tree_search_same [OF assms])
  have "tree_search D direntry_value (BPlusTree_new b NDirectory (bt_generation (fs_inode_tree fs'))) k s =
      tree_search D direntry_value (BPlusTree_new b NDirectory (bt_generation (fs_inode_tree fs))) k s" for b k
    by (rule tree_search_same) (simp add: same_tree_def BPlusTree_new_def)
  then show ?case by (simp add: dir_lookup_def look Cons.IH Let_def)
qed simp

lemma wfs_stat_same:
  assumes "fs_keeps st st'"
  shows "fst (wfs_stat D path st') = fst (wfs_stat D path st)"
proof -
  have "same_tree (fs_inode_tree (snd st)) (fs_inode_tree (snd st'))" "fst st' = fst st"
    using assms by (simp_all add: fs_keeps_def)
  then have "resolve_path D (snd st') path (fst st') = resolve_path D (snd st) path (fst st)"
    by (simp add: resolve_path_def inode_lookup_def tree_search_same walk_same [of "snd st" "snd st'"]
        cong: option.case_cong if_cong)
  moreover have "fst (wfs_stat D path st) =
      map_res inode_to_stat (rbind (map_err tree_error_to_vfs (resolve_path D (snd st) path (fst st))) (ok_or vfs_error.NotFound))" for st
    by (cases "rbind (map_err tree_error_to_vfs (resolve_path D (snd st) path (fst st))) (ok_or vfs_error.NotFound)")
      (simp_all only: wfs_stat_def resolve_inode_def sbind_def ret_def map_res.simps res.case prod.case fst_conv)
  ultimately show ?thesis by simp
qed

text \<open>Reading a file from the start.\<close>

lemma wfs_file_read_start:
  assumes "fm_read (wf_mode f)" "wf_position f = 0" "unat (i_inline_size (wf_inode_data f)) = k" "0 < k"
    "k \<le> length (i_inline_data (wf_inode_data f))" "k \<le> n"
  shows "fst (wfs_file_read n f) = Ok (take k (i_inline_data (wf_inode_data f)))"
proof -
  let ?s = "i_inline_size (wf_inode_data f)"
  have "unat (ucast ?s :: u64) = unat ?s"
    using unsigned_less [of ?s, where ?'a = nat] by (simp add: unsigned_ucast_eq take_bit_nat_eq_self)
  then have "unat (ucast ?s :: u64) = k" using assms(3) by simp
  moreover have "?s > 0" "(ucast ?s :: u64) \<noteq> 0"
    using assms(3,4) calculation by (auto simp: word_less_nat_alt)
  ultimately show ?thesis using assms by (simp add: wfs_file_read_def Let_def)
qed

section \<open>Properties\<close>

text \<open>Nothing seen through the filesystem changes: the device is as it was and every path has the same status.
  An operation that always fails and after which nothing has changed.\<close>

definition unchanged :: "'d sector_device \<Rightarrow> 'd \<times> fs_state \<Rightarrow> 'd \<times> fs_state \<Rightarrow> bool" where
  "unchanged SD st st' \<longleftrightarrow> fst st' = fst st \<and>
     (\<forall>path. fst (wfs_stat (adapter_store SD) path st') = fst (wfs_stat (adapter_store SD) path st))"

definition fails_unchanged :: "'d sector_device \<Rightarrow> ('d \<times> fs_state, vfs_error, unit) op \<Rightarrow> bool" where
  "fails_unchanged SD m \<longleftrightarrow> (\<forall>st. fst (m st) \<noteq> Ok () \<and> unchanged SD st (snd (m st)))"

lemma unchangedI: "fs_keeps st st' \<Longrightarrow> unchanged SD st st'"
  unfolding unchanged_def using wfs_stat_same by (metis fs_keeps_def)

lemma fails_unchangedI: "fs_frame.refuses m \<Longrightarrow> fails_unchanged SD m"
  unfolding fails_unchanged_def fs_frame.refuses_def using unchangedI by blast

lemma wfs_file_write_refuses:
  "(\<nexists>n. fst (wfs_file_write (adapter_store SD) data (st, f)) = Ok n) \<and> fs_keeps st (fst (snd (wfs_file_write (adapter_store SD) data (st, f))))"
proof -
  have "(\<forall>a. fst (vfs_try (inode_insert (adapter_store SD) i) st) \<noteq> Ok a) \<and> fs_keeps st (snd (vfs_try (inode_insert (adapter_store SD) i) st))" for i
    using fs_frame.refuses_map_err [OF adapter_inode_insert_refuses, of tree_error_to_vfs SD i] unfolding fs_frame.refuses_def by blast
  moreover have "fs_keeps st st" by (rule fs_frame.refl)
  ultimately show ?thesis by (auto simp: wfs_file_write_def Let_def split_beta split: res.splits)
qed

text \<open>C23. The kernel's WFS is read-only. With any storage driver and in any state, making and removing directories,
  removing files, renaming, changing mode or owner, and writing to an open file all fail, leave the device as it was,
  and leave the status of every path as it was. Opening a file, whatever the mode asks for, changes nothing and
  succeeds exactly when the path has the status of a regular file, so it never creates one. Truncating an
  open file reports success, but acts on the handle alone: what the handle reads stays the same, only the size it
  reports is the new one.\<close>

theorem wfs_mutations_fail:
  "fails_unchanged SD (wfs_mkdir (adapter_store SD) path) \<and> fails_unchanged SD (wfs_unlink (adapter_store SD) path) \<and>
   fails_unchanged SD (wfs_rmdir (adapter_store SD) path) \<and> fails_unchanged SD (wfs_rename (adapter_store SD) path path') \<and>
   fails_unchanged SD (wfs_chmod (adapter_store SD) path mode) \<and> fails_unchanged SD (wfs_chown (adapter_store SD) path uid gid) \<and>
   (\<nexists>n. fst (wfs_file_write (adapter_store SD) data (st, f)) = Ok n) \<and>
   unchanged SD st (fst (snd (wfs_file_write (adapter_store SD) data (st, f)))) \<and>
   unchanged SD st (snd (wfs_open (adapter_store SD) path fmode st)) \<and>
   ((\<exists>h. fst (wfs_open (adapter_store SD) path fmode st) = Ok h) \<longleftrightarrow>
     (\<exists>s. fst (wfs_stat (adapter_store SD) path st) = Ok s \<and> st_mode s AND S_IFMT = S_IFREG)) \<and>
   fst (wfs_file_truncate sz f) = Ok () \<and> fst (wfs_file_read n (snd (wfs_file_truncate sz f))) = fst (wfs_file_read n f) \<and>
   wfs_file_stat (snd (wfs_file_truncate sz f)) = (wfs_file_stat f)\<lparr>st_size := sz\<rparr>"
proof (intro conjI)
  show "fails_unchanged SD (wfs_mkdir (adapter_store SD) path)" "fails_unchanged SD (wfs_unlink (adapter_store SD) path)"
    "fails_unchanged SD (wfs_rmdir (adapter_store SD) path)" "fails_unchanged SD (wfs_rename (adapter_store SD) path path')"
    "fails_unchanged SD (wfs_chmod (adapter_store SD) path mode)" "fails_unchanged SD (wfs_chown (adapter_store SD) path uid gid)"
    by (simp_all add: fails_unchangedI adapter_mkdir_refuses wfs_unlink_def wfs_rmdir_def adapter_remove_refuses
        adapter_rename_refuses adapter_attr_refuses)
  show "\<nexists>n. fst (wfs_file_write (adapter_store SD) data (st, f)) = Ok n"
    "unchanged SD st (fst (snd (wfs_file_write (adapter_store SD) data (st, f))))"
    using wfs_file_write_refuses unchangedI by blast+
  show "unchanged SD st (snd (wfs_open (adapter_store SD) path fmode st))"
    by (auto intro!: unchangedI fs_frame.refl simp: wfs_open_def sbind_def resolve_inode_def ret_def lift_res_def split: res.splits if_splits)
  show "(\<exists>h. fst (wfs_open (adapter_store SD) path fmode st) = Ok h) \<longleftrightarrow>
      (\<exists>s. fst (wfs_stat (adapter_store SD) path st) = Ok s \<and> st_mode s AND S_IFMT = S_IFREG)"
    by (auto simp: wfs_open_def wfs_stat_def sbind_def resolve_inode_def ret_def lift_res_def inode_to_stat_def split: res.splits if_splits)
  show "fst (wfs_file_truncate sz f) = Ok ()" "fst (wfs_file_read n (snd (wfs_file_truncate sz f))) = fst (wfs_file_read n f)"
    "wfs_file_stat (snd (wfs_file_truncate sz f)) = (wfs_file_stat f)\<lparr>st_size := sz\<rparr>"
    by (simp_all add: wfs_file_truncate_def wfs_file_read_def wfs_file_stat_def inode_to_stat_def Let_def)
qed

text \<open>A failed write shows. Writing at most 160 bytes in range to an open file of the kernel's WFS
  does not succeed, yet the handle keeps the new contents: reading it from the start, with a large
  enough buffer and read permission, returns the old bytes up to the position followed by the bytes
  whose writing was reported as failed.\<close>

lemma wfs_failed_write_shows:
  assumes "fm_write (wf_mode f)" and "fm_read (wf_mode f)" and "data \<noteq> []" and "length (i_inline_data (wf_inode_data f)) = 160"
    and "unat (wf_position f) + length data \<le> 160" and "160 \<le> n"
    and "wfs_file_write (adapter_store SD) data ((d, fs), f) = (r, (sfs', f'))" and "r \<noteq> Panic"
  shows "(\<exists>e. r = Err e) \<and> fst (wfs_file_read n (snd (wfs_file_seek 0 Start f'))) =
    Ok (take (unat (wf_position f)) (i_inline_data (wf_inode_data f)) @ data)"
proof -
  let ?p = "unat (wf_position f)" and ?old = "i_inline_data (wf_inode_data f)"
  let ?e = "unat (wf_position f + of_nat (length data))"
  have e: "?e = ?p + length data"
    using assms(5) by (simp add: unat_word_ariths unat_of_nat)
  let ?i = "(wf_inode_data f)\<lparr>i_inline_data := copy_into ?old ?p data, i_inline_size := of_nat ?e, i_size := of_nat ?e\<rparr>"
  obtain r1 sfs1 where ins: "vfs_try (inode_insert (adapter_store SD) ?i) (d, fs) = (r1, sfs1)" by (rule prod.exhaust)
  have no: "r1 \<noteq> Ok a" for a
    using fs_frame.refuses_map_err [OF adapter_inode_insert_refuses, of tree_error_to_vfs SD ?i] ins
    unfolding fs_frame.refuses_def by (metis fst_conv)
  have "wf_position f + of_nat (length data) \<le> of_nat INODE_INLINE_SIZE"
    using e assms(5) by (simp add: word_le_nat_alt INODE_INLINE_SIZE_def)
  then have r: "\<exists>e. r = Err e" and f': "f' = f\<lparr>wf_inode_data := ?i\<rparr>"
    using assms(1,7,8) e ins no by (cases r1; auto simp: wfs_file_write_def Let_def)+
  have "unat (of_nat m :: u16) = m" if "m \<le> 160" for m
    using that by (simp add: unat_of_nat take_bit_nat_eq_self)
  from this [of ?e] have size: "unat (of_nat ?e :: u16) = ?p + length data" "(of_nat ?e :: u16) > 0"
    using e assms(3,5) by (simp_all only: word_less_nat_alt) simp_all
  have "take (?p + length data) (copy_into ?old ?p data) = take ?p ?old @ data"
    using assms(4,5) by (simp add: copy_into_def)
  moreover have "fst (wfs_file_read n (snd (wfs_file_seek 0 Start f'))) = Ok (take (?p + length data) (copy_into ?old ?p data))"
    using wfs_file_read_start [of "snd (wfs_file_seek 0 Start f')" "?p + length data" n] assms size(1) f'
    by (simp add: wfs_file_seek_def copy_into_def)
  ultimately show ?thesis using r by simp
qed

lemma wfs_failed_write_shows_example:
  "\<exists>r sfs' f' e. wfs_file_write (adapter_store \<lparr>sd_read = \<lambda>_ _ _. None, sd_write = \<lambda>_ _ _. (False, ())\<rparr>) [0x68, 0x69]
       (((), FilesystemState_new (Superblock_new 100)),
        \<lparr>wf_inode_data = new_file 2, wf_position = 0, wf_mode = FileMode_READ_WRITE\<rparr>) = (r, (sfs', f')) \<and>
     r = Err e \<and> fst (wfs_file_read 160 (snd (wfs_file_seek 0 Start f'))) = Ok [0x68, 0x69]"
proof -
  let ?SD = "\<lparr>sd_read = \<lambda>_ _ _. None, sd_write = \<lambda>_ _ _. (False, ())\<rparr> :: unit sector_device"
  let ?fs = "FilesystemState_new (Superblock_new 100)"
  let ?f = "\<lparr>wf_inode_data = new_file 2, wf_position = 0, wf_mode = FileMode_READ_WRITE\<rparr>"
  obtain r sfs' f' where w: "wfs_file_write (adapter_store ?SD) [0x68, 0x69] (((), ?fs), ?f) = (r, (sfs', f'))"
    by (rule prod_cases3)
  have tree: "bt_root_block (fs_inode_tree ?fs) = 0"
    by (simp add: FilesystemState_new_def Superblock_new_def BPlusTree_new_def)
  have "fst (inode_insert (adapter_store ?SD) i ((), ?fs)) = Err TreeIoError" for i
    using tree by (simp add: inode_insert_def Let_def ignore_err_def on_inode_tree_def sbind_def tree_delete_def tree_insert_def
        get_tree_def bt_is_empty_def on_dev_def lift_res_def adapter_store_def adapter_allocate_block_def)
  then have "r \<noteq> Panic"
    using w by (auto simp: wfs_file_write_def Let_def map_err_op_def split_beta FileMode_READ_WRITE_def INODE_INLINE_SIZE_def
        split: res.splits if_splits)
  then have "(\<exists>e. r = Err e) \<and> fst (wfs_file_read 160 (snd (wfs_file_seek 0 Start f'))) = Ok [0x68, 0x69]"
    using wfs_failed_write_shows [OF _ _ _ _ _ _ w, of 160]
    by (simp add: FileMode_READ_WRITE_def new_file_def Inode_new_def INODE_INLINE_SIZE_def)
  then show ?thesis using w by blast
qed

end
