(* ===== verification/Wfs_Commit.thy ===== *)
theory Wfs_Commit
  imports Wfs_Fs
begin

text \<open>
  Correctness of the filesystem layer on the disk image device: the superblock protocol of the
  commit, and the inode table as an updatable map.
\<close>

section \<open>Superblocks on disk\<close>

lemma wf_superblock_node: "wf_superblock sb \<Longrightarrow> wf_node (superblock_node sb)"
  by (simp add: wf_node_def superblock_node_def TreeNode_default_def TreeNode_new_def)

lemma superblock_node_read:
  assumes "wf_superblock sb"
  shows "superblock_of_bytes (tn_data (superblock_node sb)) = sb"
  using superblock_of_bytes_append [OF assms] by (simp add: superblock_node_def copy_into_def)

lemma read_superblock_node:
  assumes "st_read D b s = Ok (superblock_node sb)" "wf_superblock sb" "sb_magic sb = WFS_MAGIC" "sb_verify_crc sb"
  shows "read_superblock D b s = Ok sb"
  using assms by (simp add: read_superblock_def superblock_node_read)

lemma init_superblock_ok [simp]:
  "wf_superblock (init_superblock n)" "sb_magic (init_superblock n) = WFS_MAGIC" "sb_verify_crc (init_superblock n)"
proof -
  show "sb_verify_crc (init_superblock n)"
    unfolding init_superblock_def using wf_superblock_new [of n]
    by (intro sb_update_crc_verifies) (simp add: wf_superblock_def)
  show "wf_superblock (init_superblock n)" "sb_magic (init_superblock n) = WFS_MAGIC"
    using wf_superblock_new [of n] by (simp_all add: init_superblock_def sb_update_crc_def wf_superblock_def Superblock_new_def)
qed

lemma read_superblock_same: "st_read D b s' = st_read D b s \<Longrightarrow> read_superblock D b s' = read_superblock D b s"
  by (simp add: read_superblock_def)

lemma write_superblock_law:
  assumes "b \<in> fd_alive d" "wf_superblock sb" "write_superblock file_store b sb d = (r, d')"
  shows "r = Ok () \<or> r = Err TxnIoError" "x \<in> fd_alive d \<Longrightarrow> x \<in> fd_alive d'"
    "x \<in> fd_alive d \<Longrightarrow> x \<noteq> b \<Longrightarrow> st_read file_store x d' = st_read file_store x d"
    "r = Ok () \<Longrightarrow> st_read file_store b d' = Ok (superblock_node sb)"
proof -
  obtain ru where w: "fd_write_node b (superblock_node sb) d = (ru, d')" "r = map_err (\<lambda>_. TxnIoError) ru"
    using assms(3) by (auto simp: write_superblock_def map_err_op_def file_store_def split: prod.splits)
  note law = fd_write_law [OF assms(1) wf_superblock_node [OF assms(2)] w(1)]
  show "r = Ok () \<or> r = Err TxnIoError" using law w(2) by (cases ru) auto
  show "x \<in> fd_alive d \<Longrightarrow> x \<in> fd_alive d'" using law by (cases "x = b") (auto simp: same_on_def)
  show "x \<in> fd_alive d \<Longrightarrow> x \<noteq> b \<Longrightarrow> st_read file_store x d' = st_read file_store x d"
    using law by (simp add: same_on_def st_read_file)
  show "r = Ok () \<Longrightarrow> st_read file_store b d' = Ok (superblock_node sb)"
    using law w(2) by (cases ru) (simp_all add: st_read_file)
qed

text \<open>What a commit relies on of \<open>free_blocks\<close>: it leaves the two superblocks alone.\<close>

definition spares_superblocks :: "(u64 \<Rightarrow> u64 \<Rightarrow> (file_device \<times> fs_state, transaction_error, unit) op) \<Rightarrow> bool" where
  "spares_superblocks fb \<longleftrightarrow> (\<forall>a n d fs r d' fs'. fb a n (d, fs) = (r, (d', fs')) \<longrightarrow>
     st_read file_store 0 d' = st_read file_store 0 d \<and> st_read file_store 1 d' = st_read file_store 1 d)"

lemma for_op_spares:
  assumes "spares_superblocks fb"
  shows "for_op (\<lambda>pf. fb (pf_block pf) (pf_count pf)) pfs (d, fs) = (r, (d', fs')) \<Longrightarrow>
    st_read file_store 0 d' = st_read file_store 0 d \<and> st_read file_store 1 d' = st_read file_store 1 d"
proof (induction pfs arbitrary: d fs)
  case (Cons p pfs)
  obtain r1 d1 fs1 where f: "fb (pf_block p) (pf_count p) (d, fs) = (r1, (d1, fs1))" by (metis surj_pair)
  note one = assms [unfolded spares_superblocks_def, rule_format, OF f]
  show ?case
  proof (cases r1)
    case (Ok u)
    then have "for_op (\<lambda>pf. fb (pf_block pf) (pf_count pf)) pfs (d1, fs1) = (r, (d', fs'))"
      using Cons.prems f by simp
    from Cons.IH [OF this] show ?thesis using one by simp
  qed (use Cons.prems f one in simp_all)
qed simp

text \<open>The superblock a commit writes.\<close>

definition committed_superblock :: "fs_state \<Rightarrow> transaction \<Rightarrow> superblock" where
  "committed_superblock fs txn = sb_update_crc ((fs_superblock fs)
     \<lparr>sb_root_tree_block := tx_working_root txn, sb_root_generation := tx_generation txn\<rparr>)"

lemma committed_superblock_ok:
  assumes "wf_superblock (fs_superblock fs)" "sb_magic (fs_superblock fs) = WFS_MAGIC"
  shows "wf_superblock (committed_superblock fs txn)" "sb_magic (committed_superblock fs txn) = WFS_MAGIC"
    "sb_verify_crc (committed_superblock fs txn)"
proof -
  let ?sb = "(fs_superblock fs)\<lparr>sb_root_tree_block := tx_working_root txn, sb_root_generation := tx_generation txn\<rparr>"
  have wf: "wf_superblock ?sb" using assms(1) by (simp add: wf_superblock_def)
  show "sb_verify_crc (committed_superblock fs txn)"
    unfolding committed_superblock_def by (rule sb_update_crc_verifies [OF wf])
  show "wf_superblock (committed_superblock fs txn)" "sb_magic (committed_superblock fs txn) = WFS_MAGIC"
    using wf assms(2) by (simp_all add: committed_superblock_def sb_update_crc_def wf_superblock_def)
qed

text \<open>What an active transaction's commit runs, once its superblock is made.\<close>

lemma commit_transaction_run:
  assumes "fs_transaction fs = Some txn" and "is_active txn"
  shows "commit_transaction file_store fb (d, fs) =
    (sbind (on_fst (write_superblock file_store 0 (committed_superblock fs txn))) (\<lambda>_.
     sbind (on_fst (map_err_op (\<lambda>_. TxnIoError) (st_sync file_store))) (\<lambda>_.
     sbind (on_fst (write_superblock file_store 1 (committed_superblock fs txn))) (\<lambda>_.
     sbind (modify_fs (modify_txn complete_commit)) (\<lambda>_.
     sbind (for_op (\<lambda>pf. fb (pf_block pf) (pf_count pf)) (tx_pending_frees txn)) (\<lambda>_.
     modify_fs (\<lambda>fs. fs\<lparr>fs_transaction := None,
       fs_inode_tree := (fs_inode_tree fs)\<lparr>bt_root_block := sb_root_tree_block (fs_superblock fs),
         bt_generation := sb_root_generation (fs_superblock fs)\<rparr>\<rparr>)))))))
    (d, fs\<lparr>fs_transaction := Some (txn\<lparr>tx_state := Committing\<rparr>), fs_superblock := committed_superblock fs txn\<rparr>)"
proof -
  have started: "snd (begin_commit txn) = txn\<lparr>tx_state := Committing\<rparr>"
    using assms(2) by (simp add: begin_commit_def is_active_def)
  have sbeq: "sb_update_crc ((fs_superblock fs)\<lparr>sb_root_tree_block := tx_working_root txn,
      sb_root_generation := tx_generation txn\<rparr>) = committed_superblock fs txn" by (simp add: committed_superblock_def)
  show ?thesis
    using assms started
    by (simp add: commit_transaction_def get_fs_def modify_fs_def Let_def sbeq)
qed

section \<open>Properties\<close>

text \<open>C1. Atomicity of the commit. Commit an active transaction on a disk image whose writes may
  fail and tear at any point and whose sync may fail. If the commit succeeds, both superblocks hold the new root and the
  transaction is over. However it ends, one superblock is intact: the primary one holds the new
  root, or the backup still holds the superblock it held before.\<close>

theorem commit_atomic:
  assumes "fs_transaction fs = Some txn" and "is_active txn"
    and "wf_superblock (fs_superblock fs)" and "sb_magic (fs_superblock fs) = WFS_MAGIC"
    and "0 \<in> fd_alive d" and "1 \<in> fd_alive d" and "spares_superblocks fb"
    and "commit_transaction file_store fb (d, fs) = (r, (d', fs'))"
  shows "(read_superblock file_store 0 d' = Ok (committed_superblock fs txn) \<or>
      read_superblock file_store 1 d' = read_superblock file_store 1 d) \<and>
    (r = Ok () \<longrightarrow>
      read_superblock file_store 0 d' = Ok (committed_superblock fs txn) \<and>
      read_superblock file_store 1 d' = Ok (committed_superblock fs txn) \<and> fs_transaction fs' = None)"
proof -
  let ?sb = "committed_superblock fs txn" and ?txn = "txn\<lparr>tx_state := Committing\<rparr>"
  let ?fs1 = "fs\<lparr>fs_transaction := Some ?txn, fs_superblock := ?sb\<rparr>"
  let ?frees = "for_op (\<lambda>pf. fb (pf_block pf) (pf_count pf)) (tx_pending_frees txn)"
  note sb = committed_superblock_ok [OF assms(3,4), of txn]
  obtain r0 d0 where w0: "write_superblock file_store 0 ?sb d = (r0, d0)" by fastforce
  note l0 = write_superblock_law [OF assms(5) sb(1) w0]
  obtain rs ds where ws: "fd_sync d0 = (rs, ds)" by fastforce
  note ls = fd_sync_cases [OF ws]
  have same: "fd_alive ds = fd_alive d0" "st_read file_store x ds = st_read file_store x d0" for x by (simp_all add: ls(1) st_read_file)
  obtain r1 d1 where w1: "write_superblock file_store 1 ?sb ds = (r1, d1)" by fastforce
  note l1 = write_superblock_law [OF l0(2) [OF assms(6), folded same(1)] sb(1) w1, unfolded same]
  let ?fs2 = "modify_txn complete_commit ?fs1"
  obtain r2 d2 fs2 where f2: "?frees (d1, ?fs2) = (r2, (d2, fs2))" by (rule prod_cases3)
  note l2 = for_op_spares [OF assms(7) f2]
  have o0: "on_fst (write_superblock file_store 0 ?sb) (d, ?fs1) = (r0, (d0, ?fs1))"
    and os: "on_fst (map_err_op (\<lambda>_. TxnIoError) (st_sync file_store)) (d0, ?fs1) = (map_err (\<lambda>_. TxnIoError) rs, (ds, ?fs1))"
    and o1: "on_fst (write_superblock file_store 1 ?sb) (ds, ?fs1) = (r1, (d1, ?fs1))"
    using ws by (simp_all add: on_fst_def w0 w1) (simp add: map_err_op_def file_store_def)
  note run = commit_transaction_run [OF assms(1,2), of fb d]
  have zero: "read_superblock file_store 0 x = Ok ?sb" if "st_read file_store 0 x = st_read file_store 0 d0" "r0 = Ok ()" for x
    using that l0(4) sb by (intro read_superblock_node) simp_all
  show ?thesis
  proof (cases "r0 = Ok ()")
    case False
    then have "r = Err TxnIoError" "d' = d0"
      using assms(8) run l0(1) o0 by auto
    moreover have "read_superblock file_store 1 d0 = read_superblock file_store 1 d"
      using l0(3) [OF assms(6)] by (intro read_superblock_same) simp
    ultimately show ?thesis by simp
  next
    case ok0: True
    have keep0: "st_read file_store 0 d1 = st_read file_store 0 d0" using l1(3) [of 0] l0(2) [OF assms(5)] by simp
    show ?thesis
    proof (cases "rs = Ok ()")
      case False
      then have "rs = Err TreeIoError" using ls(2) by simp
      then have "r = Err TxnIoError" "d' = ds" using assms(8) run ok0 o0 os by auto
      then show ?thesis using zero [OF same(2) ok0] by simp
    next
      case oks: True
    show ?thesis
    proof (cases "r1 = Ok ()")
      case False
      then have "r = Err TxnIoError" "d' = d1"
        using assms(8) run ok0 oks l1(1) o0 os o1 by auto
      then show ?thesis using zero [OF keep0 ok0] by simp
    next
      case ok1: True
      have tail: "sbind ?frees (\<lambda>_. modify_fs (\<lambda>fs. fs\<lparr>fs_transaction := None,
         fs_inode_tree := (fs_inode_tree fs)\<lparr>bt_root_block := sb_root_tree_block (fs_superblock fs),
           bt_generation := sb_root_generation (fs_superblock fs)\<rparr>\<rparr>)) (d1, ?fs2) = (r, (d', fs'))"
        using assms(8) run ok0 oks ok1 o0 os o1
        by (simp add: modify_fs_def [of "modify_txn complete_commit"])
      then have "d' = d2" "r = Ok () \<longrightarrow> fs_transaction fs' = None"
        using f2 by (cases r2; auto simp: modify_fs_def)+
      moreover have "read_superblock file_store 0 d2 = Ok ?sb" using l2 keep0 ok0 by (intro zero) simp_all
      moreover have "read_superblock file_store 1 d2 = Ok ?sb"
        using l2 l1(4) [OF ok1] sb by (intro read_superblock_node) simp_all
      ultimately show ?thesis by simp
    qed
    qed
  qed
qed

theorem commit_atomic_witness:
  "\<exists>r d' fs'.
     commit_transaction file_store (\<lambda>_ _ st. (Ok (), st)) (FileBlockDevice_new 20480 [None, Some 100],
       (FilesystemState_new (init_superblock 100))\<lparr>fs_transaction := Some (Transaction_new 1 2 7)\<rparr>) = (r, (d', fs')) \<and>
     (read_superblock file_store 0 d' = Ok (committed_superblock
        ((FilesystemState_new (init_superblock 100))\<lparr>fs_transaction := Some (Transaction_new 1 2 7)\<rparr>) (Transaction_new 1 2 7)) \<or>
      read_superblock file_store 1 d' = read_superblock file_store 1 (FileBlockDevice_new 20480 [None, Some 100]))"
proof -
  let ?d = "FileBlockDevice_new 20480 [None, Some 100]"
  let ?fs = "(FilesystemState_new (init_superblock 100))\<lparr>fs_transaction := Some (Transaction_new 1 2 7)\<rparr>"
  let ?fb = "\<lambda>_ _ st. (Ok (), st)"
  obtain r d' fs' where run: "commit_transaction file_store ?fb (?d, ?fs) = (r, (d', fs'))" by (rule prod_cases3)
  have sb: "fs_superblock ?fs = init_superblock 100" by (simp add: FilesystemState_new_def)
  have "wf_superblock (fs_superblock ?fs)" "sb_magic (fs_superblock ?fs) = WFS_MAGIC"
    unfolding sb by (simp_all add: init_superblock_ok)
  moreover have "0 \<in> fd_alive ?d" "1 \<in> fd_alive ?d"
    by (simp_all add: fd_alive_def FileBlockDevice_new_def BLOCK_SIZE_def)
  moreover have "spares_superblocks ?fb" by (simp add: spares_superblocks_def)
  moreover have "fs_transaction ?fs = Some (Transaction_new 1 2 7)" "is_active (Transaction_new 1 2 7)"
    by (simp_all add: is_active_def Transaction_new_def)
  ultimately show ?thesis using commit_atomic [OF _ _ _ _ _ _ _ run] run by blast
qed

section \<open>The inode table\<close>

interpretation fdino: cow_tree file_store fd_alive fd_sound "{}" inode_value inode_bytes inode_of_bytes wf_inode
  by (rule file_cow_tree_sound [OF inodev.tree_value_axioms])

abbreviation inode_table :: "file_device \<Rightarrow> fs_state \<Rightarrow> (u64 \<times> inode) list" where
  "inode_table d fs \<equiv> fd_list d inode_value (fs_inode_tree fs)"

definition wf_inodes :: "file_device \<Rightarrow> fs_state \<Rightarrow> bool" where
  "wf_inodes d fs \<longleftrightarrow> fd_wf d inode_value (fs_inode_tree fs) \<and> height_ok (fs_inode_tree fs)"

lemma inode_lookup_table:
  assumes "wf_inodes d fs"
  shows "inode_lookup file_store fs n d = Ok (map_of (inode_table d fs) n)"
  using fdino.tree_search_correct [of d "fs_inode_tree fs" n] assms
  by (simp add: inode_lookup_def wf_inodes_def fdino.found_def split: option.splits)

lemma max_entries_values [simp]: "max_entries inode_value = 15" "max_entries direntry_value = 14"
  by (simp_all add: max_entries_def entry_size_def inode_value_def direntry_value_def)

lemma length_del_list: "length (del_list k xs) \<le> length xs"
  by (simp add: del_list_def)

lemma length_ins_del: "length (ins_list k v (del_list k xs)) = Suc (length (del_list k xs))"
  by (rule length_ins_list) (simp add: set_keys_del_list)

lemma sorted_btree_list: "wf_btree rd A V t \<Longrightarrow> sorted_keys (btree_list rd V t)"
  by (auto simp: wf_btree_def btree_list_def intro: tree_list_sorted)

text \<open>Deleting a key, present or not.\<close>

lemma inode_remove:
  assumes "wf_inodes d fs" "fd_sound d (m + Suc (unat (bt_height (fs_inode_tree fs))))"
    and "tree_delete file_store inode_value n (d, fs_inode_tree fs) = (r, (d', t'))"
  shows "r \<noteq> Panic" "fd_sound d' m" "bt_height t' = bt_height (fs_inode_tree fs)" "fd_wf d' inode_value t'"
    "height_ok t'" "fd_list d' inode_value t' = del_list n (inode_table d fs)" "fdok.keeps d d'"
proof -
  let ?t = "fs_inode_tree fs"
  have wf: "fd_wf d inode_value ?t" "height_ok ?t" using assms(1) by (simp_all add: wf_inodes_def)
  note law = fdino.tree_delete_law [OF wf(1) assms(2,3), unfolded fdok.keeps_def]
  show "r \<noteq> Panic" "fd_sound d' m" "bt_height t' = bt_height ?t" using law by simp_all
  then show "fdok.keeps d d'" using law by (simp add: fdok.keeps_def)
  have same: "same_on (fd_alive d) (\<lambda>x. st_read file_store x d) (fd_alive d') (\<lambda>x. st_read file_store x d')"
    using law by simp
  have "fd_wf d' inode_value t' \<and> height_ok t' \<and> fd_list d' inode_value t' = del_list n (inode_table d fs)"
  proof (cases r)
    case (Ok v)
    then show ?thesis using law by (simp add: height_ok_def)
  next
    case (Err e)
    then have root: "bt_root_block t' = bt_root_block ?t" "bt_height t' = bt_height ?t"
      and none: "map_of (inode_table d fs) n = None"
      using law by (auto split: option.splits)
    have "del_list n (inode_table d fs) = inode_table d fs"
      using none by (intro del_list_absent) (simp add: map_of_eq_None_iff)
    then show ?thesis
      using btree_root_cong(1,2) [OF root, where V = inode_value] btree_root_cong(3) [OF root] wf
        wf_btree_same [OF wf(1) same] btree_list_same [OF wf(1) same] by simp
  next
    case Panic
    then show ?thesis using law by simp
  qed
  then show "fd_wf d' inode_value t'" "height_ok t'" "fd_list d' inode_value t' = del_list n (inode_table d fs)"
    by simp_all
qed

lemma inode_insert_run:
  assumes "tree_delete D inode_value (i_inode_num i) (d, fs_inode_tree fs) = (r1, (d1, t1))" "r1 \<noteq> Panic"
    and "tree_insert D inode_value (i_inode_num i) i (d1, t1) = (r2, (d2, t2))"
  shows "inode_insert D i (d, fs) =
    (case r2 of Ok _ \<Rightarrow> (Ok (), (d2, note_inode (i_inode_num i) (fs\<lparr>fs_inode_tree := t2\<rparr>)))
     | Err e \<Rightarrow> (Err e, (d2, fs\<lparr>fs_inode_tree := t2\<rparr>)) | Panic \<Rightarrow> (Panic, (d2, fs\<lparr>fs_inode_tree := t2\<rparr>)))"
proof -
  let ?n = "i_inode_num i"
  have "(ignore_err (on_inode_tree (tree_delete D inode_value ?n)) :: (_, tree_error, _) op) (d, fs) =
      (Ok (), (d1, fs\<lparr>fs_inode_tree := t1\<rparr>))"
    using assms(1,2) by (cases r1) (simp_all add: ignore_err_def on_inode_tree_def)
  moreover have "on_inode_tree (tree_insert D inode_value ?n i) (d1, fs\<lparr>fs_inode_tree := t1\<rparr>) =
      (r2, (d2, fs\<lparr>fs_inode_tree := t2\<rparr>))"
    by (simp add: on_inode_tree_def assms(3))
  ultimately show ?thesis by (cases r2) (simp_all add: inode_insert_def Let_def modify_fs_def)
qed

text \<open>What writing an inode does to the device and the inode table.\<close>

lemma inode_insert_law:
  assumes "wf_inodes d fs" and "wf_inode i"
    and "fd_sound d (m + (2 * unat (bt_height (fs_inode_tree fs)) + 4))"
    and "inode_insert file_store i (d, fs) = (r, (d', fs'))"
  shows "fdok.keeps d d' \<and> fd_sound d' m \<and>
    (r = Ok () \<and> wf_inodes d' fs' \<and> fs' = note_inode (i_inode_num i) (fs\<lparr>fs_inode_tree := fs_inode_tree fs'\<rparr>) \<and>
      (\<forall>n. map_of (inode_table d' fs') n = (if n = i_inode_num i then Some i else map_of (inode_table d fs) n)) \<and>
      length (inode_table d' fs') = Suc (length (del_list (i_inode_num i) (inode_table d fs))) \<and>
      (bt_height (fs_inode_tree fs') = bt_height (fs_inode_tree fs) \<or>
       bt_height (fs_inode_tree fs) = 0 \<and> bt_height (fs_inode_tree fs') = 1 \<and> 15 \<le> length (inode_table d fs)) \<or>
     r = Err NodeFull \<and> bt_height (fs_inode_tree fs) \<noteq> 0)"
proof -
  let ?t = "fs_inode_tree fs" and ?n = "i_inode_num i" and ?h = "unat (bt_height (fs_inode_tree fs))"
  obtain r1 d1 t1 where del: "tree_delete file_store inode_value ?n (d, ?t) = (r1, (d1, t1))" by (rule prod_cases3)
  have rm: "fd_sound d ((m + (?h + 3)) + Suc ?h)" using assms(3) by (simp add: mult_2 ac_simps numeral_eq_Suc)
  note l1 = inode_remove [OF assms(1) rm del]
  obtain r2 d2 t2 where ins: "tree_insert file_store inode_value ?n i (d1, t1) = (r2, (d2, t2))" by (rule prod_cases3)
  have rm1: "fd_sound d1 (m + (unat (bt_height t1) + 3))" using l1(2,3) by simp
  have e1: "bt_is_empty t1 \<longrightarrow> bt_height t1 = 0" using l1(5) by (simp add: height_ok_def)
  note l2 = fdino.tree_insert_law [OF l1(4) e1 rm1 assms(2) ins]
  have keep: "fdok.keeps d d2" "fd_sound d2 m" using fdok.keeps_trans [OF l1(7)] l2 by blast+
  note run = inode_insert_run [OF del l1(1) ins]
  show ?thesis
  proof (cases r2)
    case (Ok b)
    then have fs': "r = Ok ()" "d' = d2" "fs' = note_inode ?n (fs\<lparr>fs_inode_tree := t2\<rparr>)" using assms(4) run by simp_all
    then have tree: "fs_inode_tree fs' = t2" by (simp add: note_inode_def modify_txn_def)
    have wf2: "fd_wf d2 inode_value t2" and list2: "fd_list d2 inode_value t2 = ins_list ?n i (del_list ?n (inode_table d fs))"
      and h2: "bt_height t2 = bt_height ?t \<or> bt_height ?t = 0 \<and> bt_height t2 = 1 \<and> 15 \<le> length (del_list ?n (inode_table d fs))"
      using l2 Ok l1(3,6) by simp_all
    have "\<not> bt_is_empty t2" using list2 ins_list_not_Nil btree_list_not_empty by metis
    then have wfi: "wf_inodes d' fs'" using wf2 tree fs'(2) by (simp add: wf_inodes_def height_ok_def)
    have "sorted_keys (del_list ?n (inode_table d fs))"
      using assms(1) by (intro sorted_del_list sorted_btree_list [of _ "fd_alive d"]) (simp add: wf_inodes_def)
    from map_of_ins_list [OF this, of ?n i]
    have "map_of (inode_table d' fs') n = (if n = ?n then Some i else map_of (inode_table d fs) n)" for n
      using list2 tree fs'(2) by (simp add: map_of_del_list)
    moreover have "length (inode_table d' fs') = Suc (length (del_list ?n (inode_table d fs)))"
      using list2 tree fs'(2) length_ins_del by simp
    moreover have "length (del_list ?n (inode_table d fs)) \<le> length (inode_table d fs)" by (rule length_del_list)
    ultimately show ?thesis using fs' tree wfi keep h2 by auto
  next
    case (Err e)
    have absent: "?n \<notin> fst ` set (fd_list d1 inode_value t1)"
      unfolding l1(6) by (simp add: set_keys_del_list)
    have "r = Err e" "d' = d2" using Err assms(4) run by simp_all
    moreover have "e = NodeFull \<and> parent_full (\<lambda>b. st_read file_store b d1) t1 ?n" using l2 Err absent by auto
    moreover have "bt_height ?t \<noteq> 0" using calculation(3) not_parent_full [of t1] l1(3) by metis
    ultimately show ?thesis using keep by simp
  next
    case Panic
    then show ?thesis using l2 by simp
  qed
qed

text \<open>C35. The inode table is an updatable map. On a disk image that does not fail, writing an inode
  (new or not) succeeds whenever the inode tree is a single leaf, and can otherwise fail only with
  \<open>NodeFull\<close>; after a success, looking up that number returns the inode that was written, every other
  number what it returned before, and an active transaction works on the new root.\<close>

theorem inode_insert_lookup:
  assumes "wf_inodes d fs" and "wf_inode i"
    and "fd_sound d (2 * unat (bt_height (fs_inode_tree fs)) + 4)"
    and "inode_insert file_store i (d, fs) = (r, (d', fs'))"
  shows "(r = Ok () \<and> wf_inodes d' fs' \<and>
      (\<forall>n. inode_lookup file_store fs' n d' =
        (if n = i_inode_num i then Ok (Some i) else inode_lookup file_store fs n d)) \<and>
      (fs_transaction fs \<noteq> None \<longrightarrow> fs_root_block fs' = bt_root_block (fs_inode_tree fs'))) \<or>
    (r = Err NodeFull \<and> bt_height (fs_inode_tree fs) \<noteq> 0)"
proof -
  have "fd_sound d (0 + (2 * unat (bt_height (fs_inode_tree fs)) + 4))" using assms(3) by simp
  note law = inode_insert_law [OF assms(1,2) this assms(4)]
  show ?thesis
  proof (cases "r = Ok ()")
    case True
    then have wf: "wf_inodes d' fs'" and tab: "map_of (inode_table d' fs') n =
        (if n = i_inode_num i then Some i else map_of (inode_table d fs) n)"
      and fs': "fs' = note_inode (i_inode_num i) (fs\<lparr>fs_inode_tree := fs_inode_tree fs'\<rparr>)" for n
      using law by auto
    have "fs_transaction fs \<noteq> None \<longrightarrow> fs_root_block fs' = bt_root_block (fs_inode_tree fs')"
      by (subst fs') (auto simp: note_inode_def modify_txn_def fs_root_block_def)
    then show ?thesis using True wf tab inode_lookup_table [OF wf] inode_lookup_table [OF assms(1)] by simp
  qed (use law in auto)
qed

theorem inode_insert_lookup_witness:
  "\<exists>d' fs'. inode_insert file_store (new_directory 1) (FileBlockDevice_new 0 [], FilesystemState_new (Superblock_new 100)) =
       (Ok (), (d', fs')) \<and>
     inode_lookup file_store fs' 1 d' = Ok (Some (new_directory 1))"
proof -
  let ?d = "FileBlockDevice_new 0 []" and ?fs = "FilesystemState_new (Superblock_new 100)"
  obtain r d' fs' where run: "inode_insert file_store (new_directory 1) (?d, ?fs) = (r, (d', fs'))" by (rule prod_cases3)
  have t: "fs_inode_tree ?fs = BPlusTree_new 0 NInode 0" by (simp add: FilesystemState_new_def Superblock_new_def)
  have "wf_inodes ?d ?fs" "fd_sound ?d (2 * unat (bt_height (fs_inode_tree ?fs)) + 4)" "bt_height (fs_inode_tree ?fs) = 0"
    unfolding wf_inodes_def t by simp_all
  moreover have "i_inode_num (new_directory 1) = 1" by (simp add: new_directory_def Inode_new_def)
  ultimately show ?thesis
    using inode_insert_lookup [OF _ _ _ run] run by auto
qed

end
