(* ===== verification/Wfs_Init.thy ===== *)
theory Wfs_Init
  imports Wfs_Commit
begin

text \<open>
  A new filesystem: \<open>init_filesystem\<close> of \<^verbatim>\<open>core/fs.rs\<close> on the disk image device, what a mount of
  it finds, and the limits of the file and free-space operations on it.
\<close>

section \<open>Writing on a device that does not fail\<close>

lemma fd_write_ok:
  assumes "b \<in> fd_alive d" "wf_node nd" "fd_sound d m"
  obtains d' where "st_write file_store b nd d = (Ok (), d')" "fd_sound d' m" "fd_alive d \<subseteq> fd_alive d'"
    "\<And>x. x \<in> fd_alive d \<Longrightarrow> st_read file_store x d' = (if x = b then Ok nd else st_read file_store x d)"
proof -
  obtain r d' where w: "fd_write_node b nd d = (r, d')" by fastforce
  note law = fd_write_law [OF assms(1,2) w]
  have room: "fd_room d' m" "fd_io d' = tl (fd_io d)" using law assms(3) by (simp_all add: fd_sound_def fd_room_def)
  have "r \<noteq> Err e" for e using law assms(3) by (auto simp: fd_sound_def)
  then have "r = Ok ()" using law by (cases r) auto
  then have "st_write file_store b nd d = (Ok (), d')" using w by (simp add: file_store_def)
  moreover have "fd_sound d' m" by (rule fd_sound_tl [OF assms(3) room])
  moreover have "x \<in> fd_alive d' \<and> st_read file_store x d' = (if x = b then Ok nd else st_read file_store x d)"
    if "x \<in> fd_alive d" for x
    using law that \<open>r = Ok ()\<close> by (auto simp: same_on_def st_read_file)
  ultimately show ?thesis by (intro that [of d']) auto
qed

lemma sbind_ret: "sbind (ret a) f = f a"
  by (simp add: fun_eq_iff sbind_def ret_def)

lemma fd_writes_ok:
  assumes "\<forall>(b, n) \<in> set ws. b \<in> fd_alive d \<and> wf_node n" and "fd_sound d m"
  shows "\<exists>d'. for_op (\<lambda>(b, n). st_write file_store b n) ws d = (Ok (), d') \<and> fd_sound d' m \<and> fd_alive d \<subseteq> fd_alive d' \<and>
    (\<forall>x \<in> fd_alive d. st_read file_store x d' = (case map_of (rev ws) x of Some n \<Rightarrow> Ok n | None \<Rightarrow> st_read file_store x d))"
  using assms
proof (induction ws arbitrary: d)
  case (Cons w ws)
  obtain b n where w: "w = (b, n)" by fastforce
  obtain d1 where d1: "st_write file_store b n d = (Ok (), d1)" "fd_sound d1 m" "fd_alive d \<subseteq> fd_alive d1"
    "\<And>x. x \<in> fd_alive d \<Longrightarrow> st_read file_store x d1 = (if x = b then Ok n else st_read file_store x d)"
    using Cons.prems by (auto simp: w intro: fd_write_ok [of b d n m])
  have "\<forall>(b, n) \<in> set ws. b \<in> fd_alive d1 \<and> wf_node n" using Cons.prems(1) d1(3) by auto
  from Cons.IH [OF this d1(2)] obtain d' where d': "for_op (\<lambda>(b, n). st_write file_store b n) ws d1 = (Ok (), d')"
    "fd_sound d' m" "fd_alive d1 \<subseteq> fd_alive d'"
    "\<And>x. x \<in> fd_alive d1 \<Longrightarrow> st_read file_store x d' = (case map_of (rev ws) x of Some n \<Rightarrow> Ok n | None \<Rightarrow> st_read file_store x d1)"
    by blast
  have "st_read file_store x d' = (case map_of (rev (w # ws)) x of Some n \<Rightarrow> Ok n | None \<Rightarrow> st_read file_store x d)"
    if "x \<in> fd_alive d" for x
    using d'(4) [of x] d1(3) d1(4) [OF that] that by (auto simp: w map_add_def split: option.splits)
  then show ?case using d1(1) d1(3) d'(1-3) by (intro exI [of _ d']) (auto simp: w)
qed simp

text \<open>The writes followed by a sync.\<close>

lemma fd_writes_sync_ok:
  assumes "\<forall>(b, n) \<in> set ws. b \<in> fd_alive d \<and> wf_node n" and "fd_sound d m"
  shows "\<exists>d0 d'. for_op (\<lambda>(b, n). st_write file_store b n) ws d = (Ok (), d0) \<and> st_sync file_store d0 = (Ok (), d') \<and>
    fd_sound d' m \<and> fd_alive d \<subseteq> fd_alive d' \<and>
    (\<forall>x \<in> fd_alive d. st_read file_store x d' = (case map_of (rev ws) x of Some n \<Rightarrow> Ok n | None \<Rightarrow> st_read file_store x d))"
proof -
  obtain d0 where d0: "for_op (\<lambda>(b, n). st_write file_store b n) ws d = (Ok (), d0)" "fd_sound d0 m" "fd_alive d \<subseteq> fd_alive d0"
    "\<forall>x \<in> fd_alive d. st_read file_store x d0 = (case map_of (rev ws) x of Some n \<Rightarrow> Ok n | None \<Rightarrow> st_read file_store x d)"
    using fd_writes_ok [OF assms] by blast
  note s = fd_sync_sound [OF d0(2)]
  have "st_sync file_store d0 = (Ok (), d0\<lparr>fd_io := tl (fd_io d0)\<rparr>)" using s(1) by (simp add: file_store_def)
  moreover have "st_read file_store x (d0\<lparr>fd_io := tl (fd_io d0)\<rparr>) = st_read file_store x d0" for x by (simp add: st_read_file)
  ultimately show ?thesis using d0 s(2) by (intro exI [of _ d0] exI [of _ "d0\<lparr>fd_io := tl (fd_io d0)\<rparr>"]) simp
qed

section \<open>The nodes of a new filesystem\<close>

lemma wf_init_root_inode [simp]: "wf_inode init_root_inode"
proof -
  have "wf_inode ((new_directory ROOT_INODE)\<lparr>i_extent_root := 4\<rparr>)" by (simp add: wf_inode_def new_directory_def Inode_new_def)
  then show ?thesis by (simp add: init_root_inode_def)
qed

lemma init_root_inode_fields: "inode_is_directory init_root_inode" "i_extent_root init_root_inode = 4"
  by (simp_all add: init_root_inode_def inode_update_crc_def inode_is_directory_def new_directory_def Inode_new_def
      S_IFDIR_def S_IFMT_def)

text \<open>Inserting into a leaf that is stored with its checksum.\<close>

context tree_value
begin

lemma insert_into_leaf:
  assumes "wf_leaf V n" "unat (tn_item_count n) < max_entries V" "key \<notin> fst ` set (leaf_entries V n)" "valid v"
  obtains n' where "leaf_insert V n key v = Ok n'" "wf_leaf V n'" "leaf_entries V n' = ins_list key v (leaf_entries V n)"
    "tn_magic n' = tn_magic n" "tn_item_count n' = tn_item_count n + 1"
proof -
  have "\<not> leaf_is_full V n" using assms(2) by (simp add: leaf_is_full_def)
  from leaf_insert_new [OF assms(1) this assms(3,4)] obtain d where
    "leaf_insert V n key v = Ok (n\<lparr>tn_data := d, tn_item_count := tn_item_count n + 1\<rparr>)"
    "wf_leaf V (n\<lparr>tn_data := d, tn_item_count := tn_item_count n + 1\<rparr>)"
    "leaf_entries V (n\<lparr>tn_data := d, tn_item_count := tn_item_count n + 1\<rparr>) = ins_list key v (leaf_entries V n)" .
  then show ?thesis by (rule that) simp_all
qed

end

text \<open>A tree that is one stored leaf.\<close>

lemma single_leaf_tree:
  assumes "st_read file_store b d = Ok (update_crc n)" "b \<in> fd_alive d" "b \<noteq> 0" "wf_leaf V n"
    and "tn_magic n = node_type_magic ty"
  shows "fd_wf d V (BPlusTree_new b ty' g)" "fd_list d V (BPlusTree_new b ty' g) = leaf_entries V n"
proof -
  have "node_is_valid (update_crc n)" using assms(5) by (intro update_crc_valid) (simp add: tn_node_type_def)
  moreover have "wf_leaf V (update_crc n)" "leaf_entries V (update_crc n) = leaf_entries V n" using assms(4) by simp_all
  moreover have "unat (k :: u64) < 2 ^ 64" for k using unat_u64_bound [of k] by simp
  ultimately show "fd_wf d V (BPlusTree_new b ty' g)" "fd_list d V (BPlusTree_new b ty' g) = leaf_entries V n"
    using assms by (simp_all add: wf_btree_def btree_list_def BPlusTree_new_def)
qed

text \<open>The names \<open>.\<close> and \<open>..\<close>, and the entries of the root directory.\<close>

abbreviation dot :: "byte list" where "dot \<equiv> [0x2E]"
abbreviation dotdot :: "byte list" where "dotdot \<equiv> [0x2E, 0x2E]"

lemma dot_entries:
  "DirEntry_new dot n EDirectory = Some (dot_entry n)" "DirEntry_new dotdot n EDirectory = Some (dotdot_entry n)"
  by (simp_all add: dot_entry_def dotdot_entry_def bytes_of_string_def DirEntry_new_def MAX_FILENAME_def)

lemma dot_hashes: "hash_name dot \<noteq> hash_name dotdot"
  by (simp add: hash_name_def FNV_OFFSET_def FNV_PRIME_def)

lemma dot_matches:
  "matches (dot_entry n) name \<longleftrightarrow> name = dot" "matches (dotdot_entry n) name \<longleftrightarrow> name = dotdot"
  using DirEntry_new_fields(3,5) [OF dot_entries(1) [of n]] DirEntry_new_fields(3,5) [OF dot_entries(2) [of n]]
  by (auto simp: matches_def name_str_def)

interpretation fddir: cow_tree file_store fd_alive fd_sound "{}" direntry_value direntry_bytes direntry_of_bytes wf_direntry
  by (rule file_cow_tree_sound [OF direntryv.tree_value_axioms])

lemma dir_lookup_list:
  assumes "fd_wf d direntry_value t"
  shows "dir_lookup file_store t name d =
    Ok (case map_of (fd_list d direntry_value t) (hash_name name) of
          Some e \<Rightarrow> if matches e name then Some e else None | None \<Rightarrow> None)"
  using fddir.tree_search_correct [OF assms, of "hash_name name"]
  by (simp add: dir_lookup_def fddir.found_def split: option.splits)

text \<open>The four nodes that \<open>init_filesystem\<close> writes.\<close>

definition init_nodes :: "u64 \<Rightarrow> tree_node \<Rightarrow> tree_node \<Rightarrow> tree_node \<Rightarrow> bool" where
  "init_nodes tot nr nf nd \<longleftrightarrow>
     wf_leaf inode_value nr \<and> leaf_entries inode_value nr = [(ROOT_INODE, init_root_inode)] \<and>
     tn_magic nr = node_type_magic NInode \<and>
     wf_leaf u64_value nf \<and> leaf_entries u64_value nf = (if tot > 5 then [(5, tot - 5)] else []) \<and>
     tn_magic nf = node_type_magic NFreeSpace \<and>
     wf_leaf direntry_value nd \<and> tn_magic nd = node_type_magic NDirectory \<and>
     map_of (leaf_entries direntry_value nd) =
       [hash_name dot \<mapsto> dot_entry ROOT_INODE, hash_name dotdot \<mapsto> dotdot_entry ROOT_INODE]"

lemma saturating_sub_5: "saturating_sub tot 5 = (if tot > 5 then tot - 5 else 0)" for tot :: u64
  by (auto simp: saturating_sub_def)

lemma free_count_pos: "(tot :: u64) > 5 \<Longrightarrow> 0 < tot - 5"
  by (metis less_irrefl right_minus_eq word_gt_0)

lemma init_filesystem_nodes:
  obtains nr nf nd where "init_nodes tot nr nf nd"
    "init_filesystem D tot =
      sbind (st_write D 2 (update_crc nr)) (\<lambda>_. sbind (st_write D 3 (update_crc nf)) (\<lambda>_.
      sbind (st_write D 4 (update_crc nd)) (\<lambda>_. sbind (st_write D 0 (superblock_node (init_superblock tot))) (\<lambda>_.
      sbind (st_write D 1 (superblock_node (init_superblock tot))) (\<lambda>_. sbind (st_sync D) (\<lambda>_.
      ret (FilesystemState_new (init_superblock tot))))))))"
proof -
  let ?dot = "dot_entry ROOT_INODE" and ?dd = "dotdot_entry ROOT_INODE"
  note h = DirEntry_new_fields(3,4) [OF dot_entries(1) [of ROOT_INODE]] DirEntry_new_fields(3,4) [OF dot_entries(2) [of ROOT_INODE]]
  obtain nr where nr: "leaf_insert inode_value (new_leaf NInode 1) ROOT_INODE init_root_inode = Ok nr" "wf_leaf inode_value nr"
    "leaf_entries inode_value nr = [(ROOT_INODE, init_root_inode)]" "tn_magic nr = node_type_magic NInode"
    using inodev.insert_into_leaf [of "new_leaf NInode 1" ROOT_INODE init_root_inode] by auto
  obtain nf where nf: "(if saturating_sub tot 5 > 0
      then map_err (\<lambda>_. NodeFull) (leaf_insert u64_value (new_leaf NFreeSpace 1) 5 (saturating_sub tot 5))
      else Ok (new_leaf NFreeSpace 1)) = Ok nf" "wf_leaf u64_value nf"
    "leaf_entries u64_value nf = (if tot > 5 then [(5, tot - 5)] else [])" "tn_magic nf = node_type_magic NFreeSpace"
  proof (cases "tot > 5")
    case True
    obtain nf where "leaf_insert u64_value (new_leaf NFreeSpace 1) 5 (tot - 5) = Ok nf" "wf_leaf u64_value nf"
      "leaf_entries u64_value nf = [(5, tot - 5)]" "tn_magic nf = node_type_magic NFreeSpace"
      using u64v.insert_into_leaf [where n = "new_leaf NFreeSpace 1" and key = 5 and v = "tot - 5"] by auto
    then show ?thesis using True free_count_pos [OF True] by (intro that [of nf]) (simp_all add: saturating_sub_5)
  next
    case False
    then show ?thesis by (intro that [of "new_leaf NFreeSpace 1"]) (simp_all add: saturating_sub_5)
  qed
  obtain n1 where n1: "leaf_insert direntry_value (new_leaf NDirectory 1) (hash_name dot) ?dot = Ok n1"
    "wf_leaf direntry_value n1" "leaf_entries direntry_value n1 = [(hash_name dot, ?dot)]"
    "tn_magic n1 = node_type_magic NDirectory" "tn_item_count n1 = 1"
    using direntryv.insert_into_leaf [of "new_leaf NDirectory 1" "hash_name dot" ?dot] h(2) by auto
  obtain nd where nd: "leaf_insert direntry_value n1 (hash_name dotdot) ?dd = Ok nd" "wf_leaf direntry_value nd"
    "leaf_entries direntry_value nd = ins_list (hash_name dotdot) ?dd [(hash_name dot, ?dot)]"
    "tn_magic nd = node_type_magic NDirectory"
    using direntryv.insert_into_leaf [of n1 "hash_name dotdot" ?dd] h(4) n1 dot_hashes by auto
  have "map_of (leaf_entries direntry_value nd) = [hash_name dot \<mapsto> ?dot, hash_name dotdot \<mapsto> ?dd]"
    unfolding nd(3) by (subst map_of_ins_list) simp_all
  then have "init_nodes tot nr nf nd" using nr nf nd by (simp add: init_nodes_def)
  then show ?thesis
    by (rule that) (simp add: init_filesystem_def Let_def h(1,3) nr(1) nf(1) n1(1) nd(1) fun_eq_iff sbind_def)
qed

lemma init_filesystem_image:
  assumes "{0, 1, 2, 3, 4} \<subseteq> fd_alive d" and "fd_sound d 0"
  obtains nr nf nd d' where "init_nodes tot nr nf nd"
    "init_filesystem file_store tot d = (Ok (FilesystemState_new (init_superblock tot)), d')" "fd_alive d \<subseteq> fd_alive d'"
    "st_read file_store 0 d' = Ok (superblock_node (init_superblock tot))"
    "st_read file_store 1 d' = Ok (superblock_node (init_superblock tot))"
    "st_read file_store 2 d' = Ok (update_crc nr)" "st_read file_store 3 d' = Ok (update_crc nf)"
    "st_read file_store 4 d' = Ok (update_crc nd)"
proof -
  let ?sb = "init_superblock tot" and ?fs = "FilesystemState_new (init_superblock tot)"
  obtain nr nf nd where n: "init_nodes tot nr nf nd" and run: "init_filesystem file_store tot =
      sbind (st_write file_store 2 (update_crc nr)) (\<lambda>_. sbind (st_write file_store 3 (update_crc nf)) (\<lambda>_.
      sbind (st_write file_store 4 (update_crc nd)) (\<lambda>_. sbind (st_write file_store 0 (superblock_node ?sb)) (\<lambda>_.
      sbind (st_write file_store 1 (superblock_node ?sb)) (\<lambda>_. sbind (st_sync file_store) (\<lambda>_. ret ?fs))))))"
    by (rule init_filesystem_nodes)
  have wfn: "wf_node (update_crc nr)" "wf_node (update_crc nf)" "wf_node (update_crc nd)" "wf_node (superblock_node ?sb)"
    using n by (simp_all add: init_nodes_def wf_leaf_def wf_superblock_node)
  let ?ws = "[(2, update_crc nr), (3, update_crc nf), (4, update_crc nd), (0, superblock_node ?sb), (1, superblock_node ?sb)]"
  have "\<forall>(b, n) \<in> set ?ws. b \<in> fd_alive d \<and> wf_node n" using assms(1) wfn by simp
  from fd_writes_sync_ok [OF this assms(2)] obtain d4 d5 where w: "for_op (\<lambda>(b, n). st_write file_store b n) ?ws d = (Ok (), d4)"
      "st_sync file_store d4 = (Ok (), d5)"
    and s5: "fd_alive d \<subseteq> fd_alive d5"
    and rd: "\<And>x. x \<in> fd_alive d \<Longrightarrow> st_read file_store x d5 = (case map_of (rev ?ws) x of Some n \<Rightarrow> Ok n | None \<Rightarrow> st_read file_store x d)"
    by blast
  have "init_filesystem file_store tot = sbind (for_op (\<lambda>(b, n). st_write file_store b n) ?ws) (\<lambda>_. sbind (st_sync file_store) (\<lambda>_. ret ?fs))"
    unfolding run by (simp add: sbind_assoc sbind_ret)
  then have init: "init_filesystem file_store tot d = (Ok ?fs, d5)"
    using w by simp
  have reads: "st_read file_store 0 d5 = Ok (superblock_node ?sb)" "st_read file_store 1 d5 = Ok (superblock_node ?sb)"
    "st_read file_store 2 d5 = Ok (update_crc nr)" "st_read file_store 3 d5 = Ok (update_crc nf)"
    "st_read file_store 4 d5 = Ok (update_crc nd)"
    using assms(1) by (simp_all add: rd)
  show ?thesis by (rule that [OF n init s5 reads])
qed

text \<open>Paths of one component below a root directory whose entries are known.\<close>

lemma split_slash_single: "0x2F \<notin> set name \<Longrightarrow> split_slash name = [name]"
  by (induction name) auto

lemma resolve_in_root:
  assumes "inode_lookup file_store fs ROOT_INODE d = Ok (Some root)" and "inode_is_directory root"
    and "dir_lookup file_store (BPlusTree_new (i_extent_root root) NDirectory (bt_generation (fs_inode_tree fs))) name d =
      Ok (if P then Some e else None)"
    and "de_inode_num e = ROOT_INODE" and "name \<noteq> []" and "0x2F \<notin> set name"
  shows "resolve_path file_store fs (0x2F # name) d = Ok (if P then Some root else None)"
  using assms by (simp add: resolve_path_def split_slash_single)

section \<open>Properties\<close>

text \<open>C36. Making a filesystem and mounting it. On a disk image that has at least five blocks and
  does not fail, initialisation succeeds; both superblocks then read back as the superblock of the
  state it returns, and a mount from either gives that same state. The inode table holds exactly the
  root directory, the free-space tree exactly the blocks from 5 on, and paths resolve: the root,
  \<open>.\<close> and \<open>..\<close> to the root inode, every other name in the root to nothing.\<close>

theorem init_filesystem_correct:
  assumes "{0, 1, 2, 3, 4} \<subseteq> fd_alive d" and "fd_sound d 0"
  shows "\<exists>fs d'. init_filesystem file_store tot d = (Ok fs, d') \<and>
    read_superblock file_store 0 d' = Ok (fs_superblock fs) \<and> read_superblock file_store 1 d' = Ok (fs_superblock fs) \<and>
    FilesystemState_new (fs_superblock fs) = fs \<and> wf_inodes d' fs \<and>
    inode_table d' fs = [(ROOT_INODE, init_root_inode)] \<and>
    fd_list d' u64_value (fs_free_tree fs) = (if tot > 5 then [(5, tot - 5)] else []) \<and>
    (\<forall>path \<in> {[], [0x2F], 0x2F # dot, 0x2F # dotdot}. resolve_path file_store fs path d' = Ok (Some init_root_inode)) \<and>
    (\<forall>name. name \<noteq> [] \<and> 0x2F \<notin> set name \<and> name \<noteq> dot \<and> name \<noteq> dotdot \<longrightarrow>
      resolve_path file_store fs (0x2F # name) d' = Ok None)"
proof -
  let ?sb = "init_superblock tot" and ?fs = "FilesystemState_new (init_superblock tot)"
  obtain nr nf nd d5 where n: "init_nodes tot nr nf nd" and init: "init_filesystem file_store tot d = (Ok ?fs, d5)"
    and s5: "fd_alive d \<subseteq> fd_alive d5" and reads: "st_read file_store 0 d5 = Ok (superblock_node ?sb)"
    "st_read file_store 1 d5 = Ok (superblock_node ?sb)" "st_read file_store 2 d5 = Ok (update_crc nr)"
    "st_read file_store 3 d5 = Ok (update_crc nf)" "st_read file_store 4 d5 = Ok (update_crc nd)"
    by (rule init_filesystem_image [OF assms])
  have nr: "wf_leaf inode_value nr" "tn_magic nr = node_type_magic NInode"
      "leaf_entries inode_value nr = [(ROOT_INODE, init_root_inode)]"
    and nf: "wf_leaf u64_value nf" "tn_magic nf = node_type_magic NFreeSpace"
      "leaf_entries u64_value nf = (if tot > 5 then [(5, tot - 5)] else [])"
    and nd: "wf_leaf direntry_value nd" "tn_magic nd = node_type_magic NDirectory" "map_of (leaf_entries direntry_value nd) =
       [hash_name dot \<mapsto> dot_entry ROOT_INODE, hash_name dotdot \<mapsto> dotdot_entry ROOT_INODE]"
    using n by (simp_all add: init_nodes_def)
  have alive5: "2 \<in> fd_alive d5" "3 \<in> fd_alive d5" "4 \<in> fd_alive d5" using s5 assms(1) by auto
  have fields: "fs_superblock ?fs = ?sb" "fs_inode_tree ?fs = BPlusTree_new 2 NInode 1" "fs_free_tree ?fs = BPlusTree_new 3 NFreeSpace 1"
    by (simp_all add: FilesystemState_new_def init_superblock_def sb_update_crc_def)
  have inodes: "wf_inodes d5 ?fs" "inode_table d5 ?fs = [(ROOT_INODE, init_root_inode)]"
    unfolding wf_inodes_def fields(2)
    using single_leaf_tree [OF reads(3) alive5(1) _ nr(1,2)] nr(3)
    by (simp_all add: height_ok_def) (simp add: bt_is_empty_def BPlusTree_new_def)
  have free: "fd_list d5 u64_value (fs_free_tree ?fs) = (if tot > 5 then [(5, tot - 5)] else [])"
    unfolding fields(3) using single_leaf_tree(2) [OF reads(4) alive5(2) _ nf(1,2)] nf(3) by simp
  let ?dt = "BPlusTree_new 4 NDirectory 1"
  have dir: "fd_wf d5 direntry_value ?dt" "map_of (fd_list d5 direntry_value ?dt) =
      [hash_name dot \<mapsto> dot_entry ROOT_INODE, hash_name dotdot \<mapsto> dotdot_entry ROOT_INODE]"
    using single_leaf_tree [OF reads(5) alive5(3) _ nd(1,2)] nd(3) by simp_all
  have root: "inode_lookup file_store ?fs ROOT_INODE d5 = Ok (Some init_root_inode)"
    using inode_lookup_table [OF inodes(1)] inodes(2) by simp
  have gen: "bt_generation (fs_inode_tree ?fs) = 1" unfolding fields(2) by (simp add: BPlusTree_new_def)
  have path: "resolve_path file_store ?fs (0x2F # name) d5 = Ok (if name = dot \<or> name = dotdot then Some init_root_inode else None)"
    if "name \<noteq> []" "0x2F \<notin> set name" for name
    using that by (intro resolve_in_root [OF root, where e = "if name = dot then dot_entry ROOT_INODE else dotdot_entry ROOT_INODE"])
      (use dir_lookup_list [OF dir(1), of name] dot_hashes DirEntry_new_fields(1) [OF dot_entries(1)]
         DirEntry_new_fields(1) [OF dot_entries(2)] in
       \<open>auto simp: dir(2) dot_matches init_root_inode_fields gen\<close>)
  have "resolve_path file_store ?fs p d5 = Ok (Some init_root_inode)" if "p \<in> {[], [0x2F], 0x2F # dot, 0x2F # dotdot}" for p
    using that path [of dot] path [of dotdot] root by (auto simp: resolve_path_def)
  then show ?thesis
    using init reads inodes free path fields(1) read_superblock_node [of file_store _ d5 ?sb] by auto
qed

lemma new_image_blocks:
  assumes "5 * BLOCK_SIZE \<le> sz"
  shows "{0, 1, 2, 3, 4} \<subseteq> fd_alive (FileBlockDevice_new sz io)"
  using assms by (simp add: fd_alive_def FileBlockDevice_new_def BLOCK_SIZE_def)

theorem init_filesystem_correct_witness:
  "\<exists>fs d'. init_filesystem file_store 256 (FileBlockDevice_new 1048576 []) = (Ok fs, d') \<and>
     read_superblock file_store 1 d' = Ok (fs_superblock fs) \<and>
     resolve_path file_store fs [0x2F] d' = Ok (Some init_root_inode)"
proof -
  have "{0, 1, 2, 3, 4} \<subseteq> fd_alive (FileBlockDevice_new 1048576 [])" "fd_sound (FileBlockDevice_new 1048576 []) 0"
    by (rule new_image_blocks) (simp_all add: BLOCK_SIZE_def)
  from init_filesystem_correct [OF this, of 256] show ?thesis by blast
qed

text \<open>The free-space allocator cannot allocate. \<open>find_free_range\<close> looks up key 0 only, and no
  range of a new filesystem starts at block 0: every allocation from the free-space tree whose ranges
  all start past block 0 fails with \<open>NodeFull\<close>, whatever space is free, and changes nothing.\<close>

lemma free_space_not_found:
  assumes "fd_wf d u64_value (fs_free_tree fs)" and "0 \<notin> fst ` set (fd_list d u64_value (fs_free_tree fs))"
  shows "find_free_range file_store fs n d = Ok None \<and> fs_allocate file_store n (d, fs) = (Err NodeFull, (d, fs))"
proof -
  have "map_of (fd_list d u64_value (fs_free_tree fs)) 0 = None" using assms(2) by (simp add: map_of_eq_None_iff)
  then have "find_free_range file_store fs n d = Ok None"
    using fdok.tree_search_correct [OF assms(1), of 0] by (simp add: find_free_range_def fdok.found_def)
  then show ?thesis by (simp add: fs_allocate_def sbind_def)
qed

lemma free_space_not_found_example:
  "\<exists>b d t. tree_insert file_store u64_value 5 251 (FileBlockDevice_new 0 [], BPlusTree_new 0 NFreeSpace 1) = (Ok b, (d, t)) \<and>
     fs_allocate file_store 1 (d, (FilesystemState_new (init_superblock 256))\<lparr>fs_free_tree := t\<rparr>) =
       (Err NodeFull, (d, (FilesystemState_new (init_superblock 256))\<lparr>fs_free_tree := t\<rparr>))"
proof -
  obtain b d t where f: "tree_insert file_store u64_value 5 251 (FileBlockDevice_new 0 [], BPlusTree_new 0 NFreeSpace 1) = (Ok b, (d, t))"
    "fd_wf d u64_value t" "fd_list d u64_value t = [(5, 251)]"
    by (rule first_insert)
  let ?fs = "(FilesystemState_new (init_superblock 256))\<lparr>fs_free_tree := t\<rparr>"
  have "fd_wf d u64_value (fs_free_tree ?fs)" "0 \<notin> fst ` set (fd_list d u64_value (fs_free_tree ?fs))"
    using f(2,3) by simp_all
  from free_space_not_found [OF this, of 1] show ?thesis using f(1) by blast
qed

section \<open>Writing file data\<close>

lemma fd_alloc_ok:
  assumes "fd_sound d (Suc m)"
  obtains b d' where "st_alloc file_store d = (Ok b, d')" "fd_sound d' m"
proof -
  obtain r d' where a: "st_alloc file_store d = (r, d')" by fastforce
  note law = fdok.alloc_law [OF assms a]
  then obtain b where "r = Ok b" by (cases r) auto
  then show ?thesis using that a law by blast
qed

lemma alloc_loop_ok:
  "fd_sound d (length xs + m) \<Longrightarrow>
   \<exists>d'. for_op (\<lambda>_. sbind (on_fst (st_alloc file_store)) (\<lambda>_. ret ())) xs (d, fs) = (Ok (), (d', fs)) \<and> fd_sound d' m"
proof (induction xs arbitrary: d)
  case (Cons x xs)
  then obtain b d1 where "st_alloc file_store d = (Ok b, d1)" "fd_sound d1 (length xs + m)"
    using fd_alloc_ok [of d "length xs + m"] by auto
  with Cons.IH [of d1] show ?case by (auto simp: on_fst_def)
qed simp

lemma allocate_for_write_ok:
  assumes "fd_sound d (Suc (unat ((len + BS - 1) div BS)))"
  shows "\<exists>ext d' fs'. allocate_for_write file_store off len (d, fs) = (Ok ext, (d', fs'))"
proof -
  let ?n = "unat ((len + BS - 1) div BS)"
  obtain b d1 where a: "st_alloc file_store d = (Ok b, d1)" "fd_sound d1 ?n" using fd_alloc_ok [OF assms] .
  then have "fd_sound d1 (length [1..<?n] + 0)" by (auto simp: fd_sound_def fd_room_def)
  from alloc_loop_ok [where fs = fs, OF this] obtain d2 where
    "for_op (\<lambda>_. sbind (on_fst (st_alloc file_store)) (\<lambda>_. ret ())) [1..<?n] (d1, fs) = (Ok (), (d2, fs))"
    by (elim exE conjE)
  then show ?thesis by (simp add: allocate_for_write_def Let_def on_fst_def a(1) modify_fs_def)
qed

text \<open>Writing more than 4064 bytes at once panics. File blocks are written as tree nodes, whose
  data area is 32 bytes shorter than a block, but the data is cut into pieces of a whole block: the
  copy of the first piece runs past the area. This happens for every longer write, at every offset,
  on a device with room that does not fail.\<close>

lemma file_write_large_panics:
  assumes "4064 < length data" and "fd_sound d (Suc (unat ((of_nat (length data) + BS - 1) div BS)))"
  shows "fst (file_write file_store offset data ((d, fs), i)) = Panic"
proof -
  obtain ext d' fs' where a: "allocate_for_write file_store offset (of_nat (length data)) (d, fs) = (Ok ext, (d', fs'))"
    using allocate_for_write_ok [OF assms(2)] by blast
  have "\<not> can_inline (unat offset + length data)" using assms(1) by (simp add: can_inline_def INLINE_DATA_MAX_def)
  moreover have "write_chunks file_store g b data d' = (Panic, d')" for g b
    using assms(1) by (subst write_chunks.simps) (auto simp: Let_def BLOCK_SIZE_def min_def)
  ultimately show ?thesis
    by (simp add: file_write_def Let_def on_fst_def a get_fs_def)
qed

lemma file_write_large_panics_example:
  "fst (file_write file_store 0 (replicate 5000 1) ((FileBlockDevice_new 0 [], FilesystemState_new (init_superblock 256)), new_file 2)) = Panic"
proof -
  have "unat ((of_nat (length (replicate 5000 (1 :: byte))) + BS - 1) div BS) = 2"
    by (simp add: BS_eq unat_div)
  then have "fd_sound (FileBlockDevice_new 0 []) (Suc (unat ((of_nat (length (replicate 5000 (1 :: byte))) + BS - 1) div BS)))"
    by (simp only:) simp
  from file_write_large_panics [OF _ this] show ?thesis by simp
qed

end
