(* ===== verification/Wfs_Mkfs.thy ===== *)
theory Wfs_Mkfs
  imports Wfs_Init Wfs_Adapter
begin

text \<open>
  The image builder, \<^verbatim>\<open>src/tools/mkfs.wfs/src/main.rs\<close>: making an empty image, creating directories and
  small files in it, and copying a directory of the host.

  The host directory is a value of type \<open>host_entry\<close>, its entries in the order in which the host lists
  them; \<open>HostFail\<close> stands for an entry that the host fails to list, open or read. Kinds of I/O
  errors are kept, their messages are not. Printing is not modelled. The device is the
  \<open>FileBlockDevice\<close> of theory \<open>Wfs_Device\<close>; creating the image file itself does not fail.
\<close>

section \<open>Definitions\<close>

datatype io_error = IoOther | IoNotFound | IoInvalidInput

abbreviation io_try :: "('s, tree_error, 'a) op \<Rightarrow> ('s, io_error, 'a) op" where
  "io_try \<equiv> map_err_op (\<lambda>_. IoOther)"

text \<open>\<open>parse_size\<close> on ASCII text: the suffixes of both spellings are stripped repeatedly, as
  \<open>trim_end_matches\<close> does; the product wraps.\<close>

definition is_blank :: "char \<Rightarrow> bool" where
  "is_blank c \<longleftrightarrow> c \<in> {CHR '' '', CHR 0x09, CHR 0x0A, CHR 0x0B, CHR 0x0C, CHR 0x0D}"

definition upper :: "char \<Rightarrow> char" where
  "upper c = (let n = of_char c :: nat in if 97 \<le> n \<and> n \<le> 122 then char_of (n - 32) else c)"

definition trim_blank :: "string \<Rightarrow> string" where
  "trim_blank s = rev (dropWhile is_blank (rev (dropWhile is_blank s)))"

definition ends_with :: "string \<Rightarrow> string \<Rightarrow> bool" where
  "ends_with s suf \<longleftrightarrow> take (length suf) (rev s) = rev suf"

function trim_end_matches :: "string \<Rightarrow> string \<Rightarrow> string" where
  "trim_end_matches suf s =
     (if suf \<noteq> [] \<and> ends_with s suf then trim_end_matches suf (take (length s - length suf) s) else s)"
  by auto

termination
proof (relation "measure (\<lambda>(_, s). length s)")
  fix suf s :: string assume a: "suf \<noteq> [] \<and> ends_with s suf"
  then have "length (take (length suf) (rev s)) = length suf" by (simp add: ends_with_def)
  then show "((suf, take (length s - length suf) s), suf, s) \<in> measure (\<lambda>(_, s). length s)"
    using a by (cases suf) auto
qed simp

declare trim_end_matches.simps [simp del]

definition digit_value :: "char \<Rightarrow> nat option" where
  "digit_value c = (let n = of_char c in if 48 \<le> n \<and> n \<le> 57 then Some (n - 48) else None)"

fun parse_digits :: "nat \<Rightarrow> string \<Rightarrow> nat option" where
  "parse_digits acc [] = Some acc"
| "parse_digits acc (c # cs) =
     (case digit_value c of
        None \<Rightarrow> None
      | Some v \<Rightarrow> if acc * 10 + v < 2 ^ 64 then parse_digits (acc * 10 + v) cs else None)"

definition parse_u64 :: "string \<Rightarrow> u64 option" where
  "parse_u64 s =
     (let ds = (case s of CHR ''+'' # ds \<Rightarrow> ds | _ \<Rightarrow> s) in
      if ds = [] then None else map_option of_nat (parse_digits 0 ds))"

definition parse_size :: "string \<Rightarrow> u64 option" where
  "parse_size s =
     (let s = map upper (trim_blank s);
          (num_str, mult) =
            if ends_with s ''G'' \<or> ends_with s ''GB'' then (trim_end_matches ''G'' (trim_end_matches ''GB'' s), 1024 * 1024 * 1024)
            else if ends_with s ''M'' \<or> ends_with s ''MB'' then (trim_end_matches ''M'' (trim_end_matches ''MB'' s), 1024 * 1024)
            else if ends_with s ''K'' \<or> ends_with s ''KB'' then (trim_end_matches ''K'' (trim_end_matches ''KB'' s), 1024)
            else (s, 1) in
      map_option (\<lambda>n. n * mult) (parse_u64 num_str))"

definition find_entry_inode :: "'s store \<Rightarrow> fs_state \<Rightarrow> u64 \<Rightarrow> byte list \<Rightarrow> 's \<Rightarrow> (io_error, u64) res" where
  "find_entry_inode D fs parent_inode_num name s =
     rbind (map_err (\<lambda>_. IoOther) (inode_lookup D fs parent_inode_num s)) (\<lambda>p.
     rbind (ok_or IoNotFound p) (\<lambda>parent_inode.
     rbind (map_err (\<lambda>_. IoOther) (dir_lookup D (dir_tree_of parent_inode fs) name s)) (\<lambda>e.
     rbind (ok_or IoNotFound e) (\<lambda>entry.
     Ok (de_inode_num entry)))))"

definition parent_of :: "'s store \<Rightarrow> u64 \<Rightarrow> ('s \<times> fs_state, io_error, inode) op" where
  "parent_of D num st =
     (rbind (map_err (\<lambda>_. IoOther) (inode_lookup D (snd st) num (fst st))) (ok_or IoNotFound), st)"

text \<open>The common end of \<open>create_directory\<close> and \<open>create_file\<close>: the inode, the entry, the parent.\<close>

definition add_entry :: "'s store \<Rightarrow> inode \<Rightarrow> byte list \<Rightarrow> inode \<Rightarrow> entry_type \<Rightarrow> ('s \<times> fs_state, io_error, unit) op" where
  "add_entry D parent_inode name inode ety =
     sbind (io_try (inode_insert D inode)) (\<lambda>_.
     sbind (lift_res (ok_or IoInvalidInput (DirEntry_new name (i_inode_num inode) ety))) (\<lambda>entry.
     sbind get_fs (\<lambda>fs.
     sbind (io_try (with_tree (dir_tree_of parent_inode fs) (dir_insert D entry))) (\<lambda>(_, parent_dir_tree).
     io_try (inode_insert D (parent_inode\<lparr>i_extent_root := bt_root_block parent_dir_tree\<rparr>))))))"

definition create_directory :: "'s store \<Rightarrow> u64 \<Rightarrow> byte list \<Rightarrow> ('s \<times> fs_state, io_error, unit) op" where
  "create_directory D parent_inode_num name =
     sbind (parent_of D parent_inode_num) (\<lambda>parent_inode.
     sbind new_inode_num (\<lambda>inode_num.
     sbind (io_try (on_fst (st_alloc D))) (\<lambda>dir_tree_block.
     sbind get_fs (\<lambda>fs.
     let dir_inode = (Inode_new inode_num (S_IFDIR OR 0x1ED))\<lparr>i_extent_root := dir_tree_block, i_nlink := 2\<rparr>;
         dir_tree_node = update_crc (TreeNode_new NDirectory 0 (sb_root_generation (fs_superblock fs))) in
     sbind (io_try (on_fst (st_write D dir_tree_block dir_tree_node))) (\<lambda>_.
     add_entry D parent_inode name dir_inode EDirectory)))))"

definition file_inode :: "u64 \<Rightarrow> byte list \<Rightarrow> inode" where
  "file_inode inode_num data =
     (Inode_new inode_num (S_IFREG OR 0x1A4))\<lparr>i_size := of_nat (length data), i_inline_size := of_nat (length data),
       i_inline_data := copy_into (i_inline_data (Inode_new inode_num (S_IFREG OR 0x1A4))) 0 data, i_nlink := 1\<rparr>"

definition create_file :: "'s store \<Rightarrow> u64 \<Rightarrow> byte list \<Rightarrow> byte list \<Rightarrow> ('s \<times> fs_state, io_error, unit) op" where
  "create_file D parent_inode_num name data =
     (if length data > INODE_INLINE_SIZE then lift_res (Err IoInvalidInput)
      else
        sbind (parent_of D parent_inode_num) (\<lambda>parent_inode.
        sbind new_inode_num (\<lambda>inode_num.
        add_entry D parent_inode name (file_inode inode_num data) EFile)))"

subsection \<open>The empty image\<close>

definition mkfs_root_inode :: inode where
  "mkfs_root_inode = (Inode_new ROOT_INODE (S_IFDIR OR 0x1ED))\<lparr>i_extent_root := 4, i_nlink := 2\<rparr>"

definition mkfs_superblock :: "u64 \<Rightarrow> superblock" where
  "mkfs_superblock total_blocks =
     sb_update_crc ((Superblock_new total_blocks)
       \<lparr>sb_root_tree_block := 2, sb_free_tree_block := 3, sb_root_generation := 1, sb_inode_count := 1,
        sb_next_inode := 2, sb_free_blocks := total_blocks - 5, sb_data_start_block := 5\<rparr>)"

definition sb_block :: "superblock \<Rightarrow> byte list" where
  "sb_block sb = copy_into (replicate BLOCK_SIZE 0) 0 (superblock_bytes sb)"

definition write_superblocks_raw :: "superblock \<Rightarrow> (file_device, io_error, unit) op" where
  "write_superblocks_raw sb =
     sbind (io_try (write_block_raw 0 (sb_block sb))) (\<lambda>_.
     io_try (write_block_raw 1 (sb_block sb)))"

definition create_wfs_v1 :: "u64 \<Rightarrow> (file_device, io_error, fs_state) op" where
  "create_wfs_v1 sz =
     (let superblock = mkfs_superblock (sz div of_nat BLOCK_SIZE) in
      sbind (io_try (st_write file_store 2 (update_crc (TreeNode_new NInode 0 1)))) (\<lambda>_.
      sbind (io_try (st_write file_store 3 (update_crc (TreeNode_new NFreeSpace 0 1)))) (\<lambda>_.
      sbind (io_try (st_write file_store 4 (update_crc (TreeNode_new NDirectory 0 1)))) (\<lambda>_.
      sbind (write_superblocks_raw superblock) (\<lambda>_.
      sbind (io_try (st_sync file_store)) (\<lambda>_.
      (\<lambda>d. let (r, (d', state)) = sbind (io_try (inode_insert file_store mkfs_root_inode))
               (\<lambda>_. on_fst (io_try (st_sync file_store))) (d, FilesystemState_new superblock) in
         (map_res (\<lambda>_. state) r, d'))))))))"

subsection \<open>Copying a directory\<close>

datatype host_entry = HostDir "byte list" "host_entry list" | HostFile "byte list" "byte list" | HostOther "byte list" | HostFail

record counts =
  file_count :: nat
  dir_count :: nat
  skipped_count :: nat

type_synonym mkfs_state = "(file_device \<times> fs_state) \<times> counts"

definition bump :: "(counts \<Rightarrow> counts) \<Rightarrow> (mkfs_state, io_error, unit) op" where
  "bump f st = (Ok (), (fst st, f (snd st)))"

definition skip_entry :: "counts \<Rightarrow> counts" where
  "skip_entry c = c\<lparr>skipped_count := skipped_count c + 1\<rparr>"

text \<open>\<open>if let Err(e) = ... { skipped += 1; continue }\<close>: what follows a failure or a success.\<close>

definition attempt :: "(file_device \<times> fs_state, io_error, unit) op \<Rightarrow> (mkfs_state, io_error, unit) op \<Rightarrow>
   (mkfs_state, io_error, unit) op \<Rightarrow> (mkfs_state, io_error, unit) op" where
  "attempt m failed succeeded st =
     (case m (fst st) of
        (Ok _, fst') \<Rightarrow> succeeded (fst', snd st)
      | (Err _, fst') \<Rightarrow> failed (fst', snd st)
      | (Panic, fst') \<Rightarrow> (Panic, (fst', snd st)))"

fun populate_entry :: "host_entry \<Rightarrow> u64 \<Rightarrow> (mkfs_state, io_error, unit) op"
  and populate_entries :: "host_entry list \<Rightarrow> u64 \<Rightarrow> (mkfs_state, io_error, unit) op" where
  "populate_entry HostFail parent = lift_res (Err IoOther)"
| "populate_entry (HostOther name) parent = ret ()"
| "populate_entry (HostDir name entries) parent =
     (if name = dot \<or> name = dotdot then ret ()
      else attempt (create_directory file_store parent name) (bump skip_entry)
        (sbind (bump (\<lambda>c. c\<lparr>dir_count := dir_count c + 1\<rparr>)) (\<lambda>_.
         sbind (\<lambda>st. (find_entry_inode file_store (snd (fst st)) parent name (fst (fst st)), st)) (\<lambda>dir_inode_num.
         populate_entries entries dir_inode_num))))"
| "populate_entry (HostFile name data) parent =
     (if name = dot \<or> name = dotdot then ret ()
      else if length data \<le> INODE_INLINE_SIZE then
        attempt (create_file file_store parent name data) (bump skip_entry)
          (bump (\<lambda>c. c\<lparr>file_count := file_count c + 1\<rparr>))
      else bump skip_entry)"
| "populate_entries [] parent = ret ()"
| "populate_entries (e # es) parent = sbind (populate_entry e parent) (\<lambda>_. populate_entries es parent)"

definition populate_filesystem :: "host_entry list \<Rightarrow> (file_device \<times> fs_state, io_error, counts) op" where
  "populate_filesystem entries st =
     (let (r, (st', c)) = populate_entries entries ROOT_INODE (st, \<lparr>file_count = 0, dir_count = 0, skipped_count = 0\<rparr>) in
      (map_res (\<lambda>_. c) r, st'))"

text \<open>\<open>main\<close>: the arguments are the size text and the directory (\<open>Some None\<close>: one that does not exist).
  The result is the image.\<close>

definition final_sync :: "file_device \<Rightarrow> (io_error, file_device) res" where
  "final_sync device = (let (r, device) = io_try (st_sync file_store) device in rbind r (\<lambda>_. Ok device))"

definition mkfs_main :: "string \<Rightarrow> host_entry list option option \<Rightarrow> nat option list \<Rightarrow> (io_error, file_device) res" where
  "mkfs_main size_arg dir io =
     rbind (ok_or IoInvalidInput (parse_size size_arg)) (\<lambda>sz.
     if sz < 1024 * 1024 then Err IoInvalidInput
     else
       let (r, device) = create_wfs_v1 sz (FileBlockDevice_new (unat sz) io) in
       rbind r (\<lambda>state.
       case dir of
         None \<Rightarrow> final_sync device
       | Some None \<Rightarrow> Err IoNotFound
       | Some (Some entries) \<Rightarrow>
           let (r, (device, state)) = populate_filesystem entries (device, state) in
           rbind r (\<lambda>_.
           let (r, device) = write_superblocks_raw (fs_superblock state) device in
           rbind r (\<lambda>_. final_sync device))))"

section \<open>The image\<close>

lemma node_bytes_of_bytes:
  assumes "length bs = BLOCK_SIZE"
  shows "node_bytes (node_of_bytes bs) = bs" "wf_node (node_of_bytes bs)"
proof -
  let ?b = "\<lambda>i n. take n (drop i bs)"
  have "?b 0 4 @ ?b 4 2 @ ?b 6 2 @ ?b 8 8 @ ?b 16 8 @ ?b 24 4 @ ?b 28 4 @ drop 32 bs = bs"
    by (simp add: take_add [symmetric] append_assoc [symmetric] del: append_assoc)
  then show "node_bytes (node_of_bytes bs) = bs"
    using assms enc_dec_slice [of 4 0 bs, where 'a = 32]
    by (simp add: node_bytes_def node_of_bytes_def enc_dec_slice BLOCK_SIZE_def)
  show "wf_node (node_of_bytes bs)" using assms by (simp add: wf_node_def node_of_bytes_def BLOCK_SIZE_def)
qed

lemma write_block_raw_node:
  "length bs = BLOCK_SIZE \<Longrightarrow> write_block_raw b bs = st_write file_store b (node_of_bytes bs)"
  by (simp add: write_block_raw_def file_store_def fd_write_node_def node_bytes_of_bytes fun_eq_iff)

lemma sb_block_length:
  assumes "wf_superblock sb"
  shows "length (sb_block sb) = BLOCK_SIZE"
  using assms by (simp add: sb_block_def copy_into_def BLOCK_SIZE_def)

lemma mkfs_superblock_ok: "wf_superblock (mkfs_superblock n)"
  using wf_superblock_new [of n] by (simp add: mkfs_superblock_def sb_update_crc_def wf_superblock_def)

lemma mkfs_root_inode_ok [simp]: "wf_inode mkfs_root_inode" "i_inode_num mkfs_root_inode = ROOT_INODE"
  by (simp_all add: mkfs_root_inode_def Inode_new_def wf_inode_def)

lemma map_err_op_sbind: "map_err_op g (sbind m f) = sbind (map_err_op g m) (\<lambda>a. map_err_op g (f a))"
  by (auto simp: fun_eq_iff map_err_op_def sbind_def split: prod.splits res.splits)

lemma map_err_op_ret: "map_err_op g (ret a) = ret a"
  by (simp add: fun_eq_iff map_err_op_def ret_def)

lemma map_err_op_apply: "m s = (r, s') \<Longrightarrow> map_err_op g m s = (map_err g r, s')"
  by (simp add: map_err_op_def)

text \<open>Making an empty image succeeds; it has the superblock raw in block 0, an empty root directory and
  one inode.\<close>

lemma create_wfs_v1_image:
  assumes "{0, 1, 2, 3, 4} \<subseteq> fd_alive d" and "fd_sound d (m + 4)"
  shows "\<exists>fs d'. create_wfs_v1 sz d = (Ok fs, d') \<and> fd_sound d' m \<and> fd_alive d \<subseteq> fd_alive d' \<and> wf_inodes d' fs \<and>
    map_of (inode_table d' fs) = [ROOT_INODE \<mapsto> mkfs_root_inode] \<and> bt_height (fs_inode_tree fs) = 0 \<and>
    fs_superblock fs = mkfs_superblock (sz div of_nat BLOCK_SIZE) \<and>
    st_read file_store 0 d' = Ok (node_of_bytes (sb_block (mkfs_superblock (sz div of_nat BLOCK_SIZE)))) \<and>
    fd_wf d' direntry_value (BPlusTree_new 4 NDirectory 1) \<and> fd_list d' direntry_value (BPlusTree_new 4 NDirectory 1) = [] \<and>
    fd_wf d' inode_value (BPlusTree_new 2 NInode 1) \<and> fd_list d' inode_value (BPlusTree_new 2 NInode 1) = [] \<and>
    length (inode_table d' fs) = 1"
proof -
  let ?sb = "mkfs_superblock (sz div of_nat BLOCK_SIZE)" and ?n = "\<lambda>ty. new_leaf ty 1"
  let ?sn = "node_of_bytes (sb_block ?sb)"
  let ?fs = "FilesystemState_new ?sb"
  note len = sb_block_length [OF mkfs_superblock_ok, of "sz div of_nat BLOCK_SIZE"]
  let ?ws = "[(2, update_crc (?n NInode)), (3, update_crc (?n NFreeSpace)), (4, update_crc (?n NDirectory)), (0, ?sn), (1, ?sn)]"
  have "\<forall>(b, n) \<in> set ?ws. b \<in> fd_alive d \<and> wf_node n" using assms(1) node_bytes_of_bytes(2) [OF len] by simp
  from fd_writes_sync_ok [OF this assms(2)] obtain d4 d5 where w: "for_op (\<lambda>(b, n). st_write file_store b n) ?ws d = (Ok (), d4)"
      "st_sync file_store d4 = (Ok (), d5)"
    and d5: "fd_sound d5 (m + 4)" "fd_alive d \<subseteq> fd_alive d5"
    and rd: "\<And>x. x \<in> fd_alive d \<Longrightarrow> st_read file_store x d5 = (case map_of (rev ?ws) x of Some n \<Rightarrow> Ok n | None \<Rightarrow> st_read file_store x d)"
    by blast
  have reads: "st_read file_store 0 d5 = Ok ?sn" "st_read file_store 2 d5 = Ok (update_crc (?n NInode))"
    "st_read file_store 4 d5 = Ok (update_crc (?n NDirectory))" and live: "0 \<in> fd_alive d5" "2 \<in> fd_alive d5" "4 \<in> fd_alive d5"
    using assms(1) d5(2) by (auto simp: rd)
  have tree: "fs_inode_tree ?fs = BPlusTree_new 2 NInode 1"
    by (simp add: FilesystemState_new_def mkfs_superblock_def sb_update_crc_def)
  have old: "fd_wf d5 inode_value (BPlusTree_new 2 NInode 1)" "fd_list d5 inode_value (BPlusTree_new 2 NInode 1) = []"
    using single_leaf_tree [OF reads(2) live(2), of inode_value NInode NInode 1] by simp_all
  then have wfi: "wf_inodes d5 ?fs" and tab: "inode_table d5 ?fs = []"
    unfolding wf_inodes_def tree by (simp_all add: height_ok_def) (simp add: bt_is_empty_def BPlusTree_new_def)
  have dir: "fd_wf d5 direntry_value (BPlusTree_new 4 NDirectory 1)" "fd_list d5 direntry_value (BPlusTree_new 4 NDirectory 1) = []"
    using single_leaf_tree [OF reads(3) live(3), of direntry_value NDirectory NDirectory 1] by simp_all
  have h0: "bt_height (fs_inode_tree ?fs) = 0" by (simp add: tree BPlusTree_new_def)
  obtain r d6 fs where ins: "inode_insert file_store mkfs_root_inode (d5, ?fs) = (r, (d6, fs))" by (rule prod_cases3)
  let ?d7 = "d6\<lparr>fd_io := tl (fd_io d6)\<rparr>"
  have rm: "fd_sound d5 (m + (2 * unat (bt_height (fs_inode_tree ?fs)) + 4))" using d5(1) h0 by simp
  note law = inode_insert_law [OF wfi mkfs_root_inode_ok(1) rm ins]
  have k: "fdok.keeps d5 d6" "fd_sound d6 m" and r: "r = Ok ()" "wf_inodes d6 fs"
    and tab6: "map_of (inode_table d6 fs) n = (if n = ROOT_INODE then Some mkfs_root_inode else None)"
    and fs: "fs = note_inode ROOT_INODE (?fs\<lparr>fs_inode_tree := fs_inode_tree fs\<rparr>)" and h: "bt_height (fs_inode_tree fs) = 0"
    and one: "length (inode_table d6 fs) = 1" for n
    using law h0 tab by (auto simp: del_list_def)
  have same: "same_on (fd_alive d5) (\<lambda>x. st_read file_store x d5) (fd_alive d6) (\<lambda>x. st_read file_store x d6)"
    using k(1) by (simp add: fdok.keeps_def)
  have "create_wfs_v1 sz = sbind (io_try (for_op (\<lambda>(b, n). st_write file_store b n) ?ws)) (\<lambda>_.
      sbind (io_try (st_sync file_store)) (\<lambda>_.
      (\<lambda>d. let (r, (d', state)) = sbind (io_try (inode_insert file_store mkfs_root_inode))
               (\<lambda>_. on_fst (io_try (st_sync file_store))) (d, ?fs) in (map_res (\<lambda>_. state) r, d'))))"
    by (simp add: create_wfs_v1_def Let_def write_superblocks_raw_def write_block_raw_node [OF len] new_leaf_def
        map_err_op_sbind sbind_assoc map_err_op_ret sbind_ret)
  moreover have "st_sync file_store d6 = (Ok (), ?d7)" using fd_sync_sound(1) [OF k(2)] by (simp add: file_store_def)
  ultimately have "create_wfs_v1 sz d = (Ok fs, ?d7)"
    using w ins r(1) by (simp add: map_err_op_apply on_fst_def)
  moreover have "fs_superblock fs = ?sb" by (subst fs) (simp add: note_inode_def modify_txn_def FilesystemState_new_def)
  moreover have "fd_alive d \<subseteq> fd_alive d6" "st_read file_store 0 d6 = Ok ?sn"
    using d5(2) same live(1) reads(1) by (auto simp: same_on_def)
  moreover have "map_of (inode_table d6 fs) = [ROOT_INODE \<mapsto> mkfs_root_inode]" using tab6 by (simp add: fun_eq_iff)
  moreover note k(2) r(2) h wf_btree_same [OF dir(1) same] btree_list_same [OF dir(1) same, unfolded dir(2)]
    wf_btree_same [OF old(1) same] btree_list_same [OF old(1) same, unfolded old(2)] one
  ultimately show ?thesis using fd_sync_sound(2) [OF k(2)]
    by (intro exI [of _ fs] exI [of _ ?d7] conjI) (simp_all add: wf_inodes_def st_read_file)
qed

text \<open>A superblock written raw is not where \<open>read_superblock\<close> looks for it: 32 bytes further, inside the
  signature text.\<close>

definition has_signature :: "superblock \<Rightarrow> bool" where
  "has_signature sb \<longleftrightarrow> wf_superblock sb \<and> sb_signature sb = WFS_SIGNATURE"

lemma signature_mkfs: "has_signature (mkfs_superblock n)"
  using mkfs_superblock_ok [of n] by (simp add: has_signature_def mkfs_superblock_def sb_update_crc_def Superblock_new_def)

lemma raw_superblock_magic:
  assumes "has_signature sb"
  shows "sb_magic (superblock_of_bytes (tn_data (node_of_bytes (sb_block sb)))) \<noteq> WFS_MAGIC"
proof -
  have w: "wf_superblock sb" "sb_signature sb = WFS_SIGNATURE" using assms by (simp_all add: has_signature_def)
  have "take 4 (drop 32 (sb_block sb)) = take 4 (drop 32 (superblock_bytes sb))"
    using w(1) by (simp add: sb_block_def copy_into_def)
  also have "\<dots> = take 4 (drop 24 WFS_SIGNATURE)"
    using w by (simp add: superblock_bytes_def sb_head_bytes_def wf_superblock_def)
  finally show ?thesis
    by (simp add: superblock_of_bytes_def node_of_bytes_def WFS_SIGNATURE_def bytes_of_string_def WFS_MAGIC_def dec_word_def)
qed

lemma raw_superblock_mount:
  assumes "has_signature sb" and "st_read D 0 s = Ok (node_of_bytes (sb_block sb))"
  shows "wfs_mount D s = Err VfsIoError"
  using raw_superblock_magic [OF assms(1)] assms(2) by (simp add: wfs_mount_def read_superblock_def Let_def)

text \<open>Every operation of the builder keeps the signature and the layout of the superblock.\<close>

definition sb_keeps :: "'s \<times> fs_state \<Rightarrow> 's \<times> fs_state \<Rightarrow> bool" where
  "sb_keeps st st' \<longleftrightarrow> (has_signature (fs_superblock (snd st)) \<longrightarrow> has_signature (fs_superblock (snd st')))"

definition mk_keeps :: "mkfs_state \<Rightarrow> mkfs_state \<Rightarrow> bool" where
  "mk_keeps st st' \<longleftrightarrow> sb_keeps (fst st) (fst st')"

interpretation sb_frame: frame sb_keeps
  by unfold_locales (auto simp: sb_keeps_def)

interpretation mk_frame: frame mk_keeps
  by unfold_locales (auto simp: mk_keeps_def sb_keeps_def)

lemma sb_quiet:
  "sb_frame.quiet (on_fst m)" "sb_frame.quiet (on_inode_tree t)" "sb_frame.quiet (with_tree u w)"
  "sb_frame.quiet new_inode_num" "sb_frame.quiet (modify_fs (note_inode n))" "sb_frame.quiet get_fs" "sb_frame.quiet (parent_of D p)"
  by (auto simp: sb_frame.quiet_def sb_keeps_def on_fst_def on_inode_tree_def with_tree_def new_inode_num_def modify_fs_def
      note_inode_def modify_txn_def get_fs_def parent_of_def allocate_inode_num_def has_signature_def wf_superblock_def Let_def split_beta)

lemmas sb_quiets = sb_frame.sbind_state sb_frame.quiet_map_err sb_frame.quiet_ignore sb_frame.quiet_basic sb_quiet

lemma sb_quiet_insert: "sb_frame.quiet (inode_insert D i)"
  unfolding inode_insert_def Let_def by (intro sb_quiets)

lemma sb_quiet_add_entry: "sb_frame.quiet (add_entry D p name i ety)"
  unfolding add_entry_def split_beta by (intro sb_quiets sb_quiet_insert)

lemma sb_quiet_create: "sb_frame.quiet (create_directory D p name)" "sb_frame.quiet (create_file D p name data)"
  unfolding create_directory_def create_file_def Let_def
  by (intro sb_quiets sb_quiet_add_entry, auto intro!: sb_quiets sb_quiet_add_entry)

lemma mk_quiet:
  "mk_frame.quiet (bump f)" "mk_frame.quiet (\<lambda>st. (g st, st))"
  by (auto simp: mk_frame.quiet_def mk_keeps_def bump_def sb_keeps_def)

lemma mk_quiet_attempt:
  assumes "sb_frame.quiet m" "mk_frame.quiet f" "mk_frame.quiet g"
  shows "mk_frame.quiet (attempt m f g)"
  unfolding mk_frame.quiet_def
proof
  fix st :: mkfs_state
  obtain r s where m: "m (fst st) = (r, s)" by (rule prod.exhaust)
  then have "mk_keeps st (s, snd st)" using assms(1) by (metis sb_frame.quiet_def mk_keeps_def fst_conv snd_conv)
  moreover have "mk_keeps (s, snd st) (snd (f (s, snd st)))" "mk_keeps (s, snd st) (snd (g (s, snd st)))"
    using assms(2,3) unfolding mk_frame.quiet_def by blast+
  ultimately have "mk_keeps st (s, snd st)" "mk_keeps st (snd (f (s, snd st)))" "mk_keeps st (snd (g (s, snd st)))"
    using mk_frame.trans by blast+
  then show "mk_keeps st (snd (attempt m f g st))" using m by (cases r) (simp_all add: attempt_def)
qed

lemma mk_quiet_populate: "mk_frame.quiet (populate_entry e p)" "mk_frame.quiet (populate_entries es p)"
  by (induction e p and es p rule: populate_entry_populate_entries.induct)
    (auto intro!: mk_frame.sbind_state mk_frame.quiet_basic mk_quiet mk_quiet_attempt sb_quiet_create)

lemma populate_signature:
  assumes "populate_filesystem entries (d, fs) = (r, (d', fs'))" "has_signature (fs_superblock fs)"
  shows "has_signature (fs_superblock fs')"
proof -
  let ?c = "\<lparr>file_count = 0, dir_count = 0, skipped_count = 0\<rparr>"
  have "mk_keeps ((d, fs), ?c) (snd (populate_entries entries ROOT_INODE ((d, fs), ?c)))"
    using mk_quiet_populate(2) [of entries ROOT_INODE] by (simp add: mk_frame.quiet_def)
  then show ?thesis
    using assms by (auto simp: populate_filesystem_def mk_keeps_def sb_keeps_def split_beta)
qed

text \<open>After the superblocks are written raw, the first block of the file is the superblock.\<close>

lemma write_superblocks_raw_file:
  assumes "write_superblocks_raw sb d = (Ok (), d')" "wf_superblock sb"
  shows "take BLOCK_SIZE (fd_file d') = sb_block sb"
proof -
  note len = sb_block_length [OF assms(2)]
  obtain r1 d1 where w1: "write_block_raw 0 (sb_block sb) d = (r1, d1)" by (rule prod.exhaust)
  obtain r2 d2 where w2: "write_block_raw 1 (sb_block sb) d1 = (r2, d2)" by (rule prod.exhaust)
  have ok: "r1 = Ok ()" "r2 = Ok ()" "d' = d2"
    using assms(1) w1 w2 by (cases r1; cases r2; simp add: write_superblocks_raw_def map_err_op_apply sbind_def)+
  obtain k1 where d1: "d1 = d\<lparr>fd_file := put_bytes (fd_file d) 0 (sb_block sb), fd_io := tl (fd_io d)\<rparr>"
    using write_all_cases [OF w1 [unfolded write_block_raw_def]] ok(1) by (metis block_offset_def mult_zero_left unat_0)
  have one: "block_offset 1 = BLOCK_SIZE" by (simp add: block_offset_def BLOCK_SIZE_def)
  obtain k2 where d2: "d2 = d1\<lparr>fd_file := put_bytes (fd_file d1) BLOCK_SIZE (sb_block sb), fd_io := tl (fd_io d1)\<rparr>"
    using write_all_cases [OF w2 [unfolded write_block_raw_def one]] ok(2) by metis
  have ne: "sb_block sb \<noteq> []" using len by (auto simp: BLOCK_SIZE_def)
  have "take BLOCK_SIZE (drop 0 (put_bytes (fd_file d1) BLOCK_SIZE (sb_block sb))) = take BLOCK_SIZE (drop 0 (fd_file d1))"
    using len ne by (intro put_bytes_before) (simp_all add: d1 length_put_bytes)
  then have "take BLOCK_SIZE (fd_file d2) = take BLOCK_SIZE (fd_file d1)" by (simp add: d2)
  also have "\<dots> = sb_block sb" using put_bytes_same [of "sb_block sb" 0 "fd_file d"] len by (simp add: d1)
  finally show ?thesis using ok(3) by simp
qed

lemma final_sync_file: "final_sync d = Ok d' \<Longrightarrow> fd_file d' = fd_file d"
  by (cases "fd_sync d") (auto simp: final_sync_def map_err_op_def file_store_def dest: fd_sync_cases)

section \<open>Properties\<close>

text \<open>C38. The kernel cannot mount what the builder makes. Whatever size and host directory the image was made
  with, if the builder succeeds (its writes do not fail) and a storage driver returns the first block of the image for
  sector 0, mounting fails: the superblock is written at offset 0 of its block and looked for at
  offset 32.\<close>

theorem mkfs_image_unmountable:
  assumes "mkfs_main size_arg dir [] = Ok img"
    and "sd_read SD 0 (node_bytes TreeNode_default) s = Some (take BLOCK_SIZE (fd_file img))"
  shows "wfs_mount (adapter_store SD) s = Err VfsIoError"
proof -
  obtain sz where sz: "parse_size size_arg = Some sz" "\<not> sz < 1024 * 1024"
    using assms(1) by (cases "parse_size size_arg") (auto simp: mkfs_main_def ok_or_def split: if_splits)
  let ?d = "FileBlockDevice_new (unat sz) []"
  have "{0, 1, 2, 3, 4} \<subseteq> fd_alive ?d" "fd_sound ?d (0 + 4)"
    using sz(2) by (intro new_image_blocks) (simp_all add: BLOCK_SIZE_def word_less_nat_alt)
  from create_wfs_v1_image [OF this, of sz] obtain fs d' where c: "create_wfs_v1 sz ?d = (Ok fs, d')"
    "fd_alive ?d \<subseteq> fd_alive d'" "fs_superblock fs = mkfs_superblock (sz div of_nat BLOCK_SIZE)"
    "st_read file_store 0 d' = Ok (node_of_bytes (sb_block (mkfs_superblock (sz div of_nat BLOCK_SIZE))))"
    by blast
  have "\<exists>sb. has_signature sb \<and> node_of_bytes (take BLOCK_SIZE (fd_file img)) = node_of_bytes (sb_block sb)"
  proof (cases dir)
    case None
    then have "fd_file img = fd_file d'" using assms(1) sz c(1) by (auto simp: mkfs_main_def ok_or_def dest: final_sync_file)
    moreover have "st_read file_store 0 d' = Ok (node_of_bytes (take BLOCK_SIZE (fd_file d')))"
      using fd_alive_read [of 0 d'] c(2) \<open>{0, 1, 2, 3, 4} \<subseteq> fd_alive ?d\<close> by (auto simp: st_read_file)
    ultimately show ?thesis using c(4) signature_mkfs by (intro exI [of _ "mkfs_superblock (sz div of_nat BLOCK_SIZE)"]) auto
  next
    case (Some dd)
    then obtain entries where dir: "dir = Some (Some entries)"
      using assms(1) sz c(1) by (cases dd) (auto simp: mkfs_main_def ok_or_def)
    obtain r d1 fs1 where p: "populate_filesystem entries (d', fs) = (r, (d1, fs1))" by (rule prod_cases3)
    obtain r2 d2 where w: "write_superblocks_raw (fs_superblock fs1) d1 = (r2, d2)" by (rule prod.exhaust)
    have "r2 = Ok ()" "fd_file img = fd_file d2"
      using assms(1) sz c(1) dir p w by (cases r; cases r2; auto simp: mkfs_main_def ok_or_def dest: final_sync_file)+
    moreover have "has_signature (fs_superblock fs1)" by (rule populate_signature [OF p]) (simp add: c(3) signature_mkfs)
    ultimately show ?thesis using write_superblocks_raw_file [of "fs_superblock fs1" d1 d2] w by (auto simp: has_signature_def)
  qed
  then obtain sb where sb: "has_signature sb" "node_of_bytes (take BLOCK_SIZE (fd_file img)) = node_of_bytes (sb_block sb)" by blast
  have "st_read (adapter_store SD) 0 s = Ok (node_of_bytes (sb_block sb))"
    using assms(2) sb(2) by (simp add: adapter_store_def adapter_read_node_def Let_def)
  then show ?thesis by (rule raw_superblock_mount [OF sb(1)])
qed

theorem mkfs_image_unmountable_witness:
  "\<exists>img. mkfs_main ''1M'' None [] = Ok img \<and>
     wfs_mount (adapter_store \<lparr>sd_read = \<lambda>_ _ d. Some (take BLOCK_SIZE (fd_file d)), sd_write = \<lambda>_ _ d. (False, d)\<rparr>) img = Err VfsIoError"
proof -
  have sz: "parse_size ''1M'' = Some 0x100000"
    by (simp add: parse_size_def Let_def trim_blank_def is_blank_def upper_def ends_with_def trim_end_matches.simps parse_u64_def
        digit_value_def)
  have "{0, 1, 2, 3, 4} \<subseteq> fd_alive (FileBlockDevice_new (unat (0x100000 :: u64)) [])"
    "fd_sound (FileBlockDevice_new (unat (0x100000 :: u64)) []) (0 + 4)"
    by (intro new_image_blocks) (simp_all add: BLOCK_SIZE_def)
  from create_wfs_v1_image [OF this, of "0x100000"] obtain fs d where
    "create_wfs_v1 0x100000 (FileBlockDevice_new (unat (0x100000 :: u64)) []) = (Ok fs, d)" "fd_sound d 0" by blast
  then obtain img where img: "mkfs_main ''1M'' None [] = Ok img"
    using sz fd_sync_sound(1) [of d 0] by (simp add: mkfs_main_def ok_or_def final_sync_def map_err_op_def file_store_def)
  show ?thesis by (intro exI [of _ img] conjI img mkfs_image_unmountable [OF img]) simp
qed

text \<open>A new image's superblock names the wrong inode tree. For every size from 1 MiB on, making an image
  succeeds and the state it leaves in memory resolves the root path to the root directory; a state
  made from the superblock on the image does not find the root: the insertion of the root inode
  moved the tree to another block, and the superblock still names the empty tree of block 2.\<close>

lemma mkfs_root_unreachable:
  assumes "1024 * 1024 \<le> sz"
  shows "\<exists>fs img. create_wfs_v1 sz (FileBlockDevice_new (unat sz) []) = (Ok fs, img) \<and>
    resolve_path file_store fs [0x2F] img = Ok (Some mkfs_root_inode) \<and>
    resolve_path file_store (FilesystemState_new (fs_superblock fs)) [0x2F] img = Err NodeNotFound"
proof -
  let ?d = "FileBlockDevice_new (unat sz) []"
  have "{0, 1, 2, 3, 4} \<subseteq> fd_alive ?d" "fd_sound ?d (0 + 4)"
    using assms by (intro new_image_blocks) (simp_all add: BLOCK_SIZE_def word_le_nat_alt)
  from create_wfs_v1_image [OF this, of sz] obtain fs img where c: "create_wfs_v1 sz ?d = (Ok fs, img)" "wf_inodes img fs"
    "map_of (inode_table img fs) = [ROOT_INODE \<mapsto> mkfs_root_inode]" "fs_superblock fs = mkfs_superblock (sz div of_nat BLOCK_SIZE)"
    "fd_wf img inode_value (BPlusTree_new 2 NInode 1)" "fd_list img inode_value (BPlusTree_new 2 NInode 1) = []"
    by blast
  let ?fs = "FilesystemState_new (fs_superblock fs)"
  have tree: "fs_inode_tree ?fs = BPlusTree_new 2 NInode 1"
    by (simp add: c(4) FilesystemState_new_def mkfs_superblock_def sb_update_crc_def)
  have "wf_inodes img ?fs" unfolding wf_inodes_def tree using c(5) by (simp add: height_ok_def BPlusTree_new_def)
  then have "inode_lookup file_store ?fs ROOT_INODE img = Ok None"
    using inode_lookup_table tree c(6) by simp
  moreover have "inode_lookup file_store fs ROOT_INODE img = Ok (Some mkfs_root_inode)"
    using inode_lookup_table [OF c(2)] c(3) by simp
  ultimately show ?thesis using c(1) by (intro exI [of _ fs] exI [of _ img]) (simp add: resolve_path_def)
qed

lemma mkfs_root_unreachable_example:
  "\<exists>fs img. create_wfs_v1 0x100000 (FileBlockDevice_new 1048576 []) = (Ok fs, img) \<and>
     resolve_path file_store (FilesystemState_new (fs_superblock fs)) [0x2F] img = Err NodeNotFound"
  using mkfs_root_unreachable [of "0x100000"] by auto

end
