(* ===== verification/Wfs_Create.thy ===== *)
theory Wfs_Create
  imports Wfs_Mkfs
begin

text \<open>
  Files made by the image builder and read by the filesystem: \<open>create_file\<close> of
  \<^verbatim>\<open>src/tools/mkfs.wfs/src/main.rs\<close>, then the path resolution of \<^verbatim>\<open>core/fs.rs\<close> and the open files of
  \<^verbatim>\<open>vfs_adapter.rs\<close> on the same image.
\<close>

section \<open>Adding an entry\<close>

lemma DirEntry_new_matches: "DirEntry_new name n ty = Some e \<Longrightarrow> utf8_valid name \<Longrightarrow> matches e name"
  using DirEntry_new_fields [of name n ty e] by (simp add: matches_def name_str_def)

text \<open>A directory that fits one leaf takes an entry with a new hash.\<close>

lemma dir_insert_law:
  assumes "fd_wf d direntry_value t" "bt_height t = 0" "fd_sound d (m + 3)" "wf_direntry e"
    and "length (fd_list d direntry_value t) < 14" "de_name_hash e \<notin> fst ` set (fd_list d direntry_value t)"
    and "dir_insert file_store e (d, t) = (r, (d', t'))"
  shows "r = Ok ()" "fdok.keeps d d'" "fd_sound d' m" "bt_height t' = 0" "fd_wf d' direntry_value t'"
    "fd_list d' direntry_value t' = ins_list (de_name_hash e) e (fd_list d direntry_value t)"
proof -
  obtain r1 d1 t1 where ins: "tree_insert file_store direntry_value (de_name_hash e) e (d, t) = (r1, (d1, t1))"
    by (rule prod_cases3)
  have "fd_sound d (m + (unat (bt_height t) + 3))" using assms(2,3) by simp
  note law = fddir.tree_insert_law [OF assms(1) _ this assms(4) ins]
  have "r1 \<noteq> Panic" "r1 \<noteq> Err x" for x
    using law assms(2,6) not_parent_full [OF assms(2)] by (auto split: res.splits)
  then obtain b where b: "r1 = Ok b" by (cases r1) auto
  then have res: "r = Ok ()" "d' = d1" "t' = t1" using assms(7) ins by (simp_all add: dir_insert_def ret_def)
  then show "r = Ok ()" by simp
  show "fdok.keeps d d'" "fd_sound d' m" "bt_height t' = 0" "fd_wf d' direntry_value t'"
    "fd_list d' direntry_value t' = ins_list (de_name_hash e) e (fd_list d direntry_value t)"
    using law b res assms(2,5) by auto
qed

lemma wf_inodes_keeps:
  assumes "wf_inodes d fs" "fdok.keeps d d'"
  shows "wf_inodes d' fs" "inode_table d' fs = inode_table d fs"
  using assms wf_btree_same btree_list_same unfolding wf_inodes_def fdok.keeps_def by blast+

lemma note_inode_fields [simp]:
  "fs_superblock (note_inode n fs) = fs_superblock fs" "fs_inode_tree (note_inode n fs) = fs_inode_tree fs"
  by (simp_all add: note_inode_def modify_txn_def)

text \<open>The entry goes into the directory and the directory's inode into the inode table, or the inode
  tree is too large.\<close>

lemma add_to_parent_law:
  assumes wf: "wf_inodes d fs" "wf_inode parent"
    and dir: "fd_wf d direntry_value (dir_tree_of parent fs)" "length (fd_list d direntry_value (dir_tree_of parent fs)) < 14"
      "hash_name name \<notin> fst ` set (fd_list d direntry_value (dir_tree_of parent fs))"
    and e: "DirEntry_new name n ety = Some e"
    and room: "fd_sound d (2 * unat (bt_height (fs_inode_tree fs)) + 7)"
    and run: "sbind (io_try (with_tree (dir_tree_of parent fs) (dir_insert file_store e))) (\<lambda>(_, t).
      io_try (inode_insert file_store (parent\<lparr>i_extent_root := bt_root_block t\<rparr>))) (d, fs) = (r, (d', fs'))"
  shows "(\<exists>parent'. r = Ok () \<and> wf_inodes d' fs' \<and> fs_superblock fs' = fs_superblock fs \<and>
      map_of (inode_table d' fs') = (map_of (inode_table d fs))(i_inode_num parent \<mapsto> parent') \<and>
      parent' = parent\<lparr>i_extent_root := i_extent_root parent'\<rparr> \<and> fd_wf d' direntry_value (dir_tree_of parent' fs') \<and>
      fd_list d' direntry_value (dir_tree_of parent' fs') =
        ins_list (hash_name name) e (fd_list d direntry_value (dir_tree_of parent fs))) \<or>
    (r = Err IoOther \<and> bt_height (fs_inode_tree fs) \<noteq> 0)"
proof -
  let ?h = "unat (bt_height (fs_inode_tree fs))" and ?t = "dir_tree_of parent fs"
  note f = DirEntry_new_fields [OF e]
  obtain r2 d2 t2 where i2: "dir_insert file_store e (d, ?t) = (r2, (d2, t2))" by (rule prod_cases3)
  have rm2: "fd_sound d ((2 * ?h + 4) + 3)" using room by (simp add: add.commute)
  have "bt_height ?t = 0" by (simp add: dir_tree_of_def BPlusTree_new_def)
  note l2 = dir_insert_law [OF dir(1) this rm2 f(4) dir(2) _ i2, unfolded f(3), OF dir(3)]
  note wf2 = wf_inodes_keeps [OF wf(1) l2(2)]
  let ?p = "parent\<lparr>i_extent_root := bt_root_block t2\<rparr>"
  obtain r3 d3 fs3 where i3: "inode_insert file_store ?p (d2, fs) = (r3, (d3, fs3))" by (rule prod_cases3)
  have "wf_inode ?p" using wf(2) by (simp add: wf_inode_def)
  note l3 = inode_insert_law [OF wf2(1) this _ i3, of 0, unfolded add_0, OF l2(3)]
  have "io_try (with_tree ?t (dir_insert file_store e)) (d, fs) = (Ok ((), t2), (d2, fs))"
    using i2 l2(1) by (simp add: map_err_op_def with_tree_def)
  then have res: "r = map_err (\<lambda>_. IoOther) r3" "d' = d3" "fs' = fs3"
    using run i3 by (simp_all add: map_err_op_apply)
  show ?thesis
  proof (cases "r3 = Ok ()")
    case True
    then have fin: "wf_inodes d3 fs3" "fdok.keeps d2 d3" "map_of (inode_table d3 fs3) = (map_of (inode_table d2 fs))(i_inode_num parent \<mapsto> ?p)"
      and fs3: "fs3 = note_inode (i_inode_num ?p) (fs\<lparr>fs_inode_tree := fs_inode_tree fs3\<rparr>)"
      using l3 by (auto simp: fun_eq_iff)
    have sb3: "fs_superblock fs3 = fs_superblock fs" by (subst fs3) simp
    have t3: "bt_root_block (dir_tree_of ?p fs3) = bt_root_block t2" "bt_height (dir_tree_of ?p fs3) = bt_height t2"
      by (simp_all add: dir_tree_of_def BPlusTree_new_def l2(4))
    have same: "same_on (fd_alive d2) (\<lambda>x. st_read file_store x d2) (fd_alive d3) (\<lambda>x. st_read file_store x d3)"
      using fin(2) by (simp add: fdok.keeps_def)
    have "fd_wf d3 direntry_value (dir_tree_of ?p fs3)" "fd_list d3 direntry_value (dir_tree_of ?p fs3) =
        ins_list (hash_name name) e (fd_list d direntry_value ?t)"
      using btree_root_cong(1,2) [OF t3, where V = direntry_value] wf_btree_same [OF l2(5) same] btree_list_same [OF l2(5) same] l2(6) by simp_all
    then show ?thesis using True res fin(1,3) sb3 wf2(2) by (intro disjI1 exI [of _ ?p]) simp
  qed (use l3 res in auto)
qed

text \<open>The inode, the entry and the parent are written, or the inode tree is too large.\<close>

lemma add_entry_law:
  assumes wf: "wf_inodes d fs" "wf_inode i" "wf_inode parent"
    and dir: "fd_wf d direntry_value (dir_tree_of parent fs)" "length (fd_list d direntry_value (dir_tree_of parent fs)) < 14"
      "hash_name name \<notin> fst ` set (fd_list d direntry_value (dir_tree_of parent fs))"
    and e: "DirEntry_new name (i_inode_num i) ety = Some e"
    and room: "fd_sound d (4 * unat (bt_height (fs_inode_tree fs)) + 13)"
    and run: "add_entry file_store parent name i ety (d, fs) = (r, (d', fs'))"
  shows "(\<exists>parent'. r = Ok () \<and> wf_inodes d' fs' \<and> fs_superblock fs' = fs_superblock fs \<and>
      map_of (inode_table d' fs') = (map_of (inode_table d fs))(i_inode_num i \<mapsto> i, i_inode_num parent \<mapsto> parent') \<and>
      parent' = parent\<lparr>i_extent_root := i_extent_root parent'\<rparr> \<and> fd_wf d' direntry_value (dir_tree_of parent' fs') \<and>
      fd_list d' direntry_value (dir_tree_of parent' fs') =
        ins_list (hash_name name) e (fd_list d direntry_value (dir_tree_of parent fs))) \<or>
    (r = Err IoOther \<and> (bt_height (fs_inode_tree fs) \<noteq> 0 \<or> 15 \<le> length (inode_table d fs)))"
proof -
  let ?h = "unat (bt_height (fs_inode_tree fs))" and ?t = "dir_tree_of parent fs"
  obtain r1 d1 fs1 where i1: "inode_insert file_store i (d, fs) = (r1, (d1, fs1))" by (rule prod_cases3)
  have rm1: "fd_sound d ((2 * ?h + 9) + (2 * ?h + 4))" using room by (simp add: algebra_simps)
  note l1 = inode_insert_law [OF wf(1,2) rm1 i1]
  show ?thesis
  proof (cases "r1 = Ok ()")
    case False
    then have "r1 = Err NodeFull" "bt_height (fs_inode_tree fs) \<noteq> 0" using l1 by auto
    then show ?thesis using run i1 by (auto simp: add_entry_def map_err_op_apply)
  next
    case True
    then have wf1: "wf_inodes d1 fs1" and k1: "fdok.keeps d d1" "fd_sound d1 (2 * ?h + 9)"
      and tab1: "map_of (inode_table d1 fs1) = (map_of (inode_table d fs))(i_inode_num i \<mapsto> i)"
      and h1: "bt_height (fs_inode_tree fs1) = bt_height (fs_inode_tree fs) \<or>
        bt_height (fs_inode_tree fs) = 0 \<and> bt_height (fs_inode_tree fs1) = 1 \<and> 15 \<le> length (inode_table d fs)"
      and fs1: "fs1 = note_inode (i_inode_num i) (fs\<lparr>fs_inode_tree := fs_inode_tree fs1\<rparr>)"
      using l1 by (auto simp: fun_eq_iff)
    have sb1: "fs_superblock fs1 = fs_superblock fs" by (subst fs1) simp
    have t1: "dir_tree_of parent fs1 = ?t" by (simp add: dir_tree_of_def sb1)
    have same1: "same_on (fd_alive d) (\<lambda>x. st_read file_store x d) (fd_alive d1) (\<lambda>x. st_read file_store x d1)"
      using k1(1) by (simp add: fdok.keeps_def)
    note dir1 = wf_btree_same [OF dir(1) same1] btree_list_same [OF dir(1) same1]
    have "unat (bt_height (fs_inode_tree fs1)) \<le> ?h + 1" using h1 by auto
    then have "2 * unat (bt_height (fs_inode_tree fs1)) + 7 \<le> 2 * ?h + 9" by simp
    then have rm: "fd_sound d1 (2 * unat (bt_height (fs_inode_tree fs1)) + 7)" using k1(2) by (auto simp: fd_sound_def fd_room_def)
    have rest: "sbind (io_try (with_tree (dir_tree_of parent fs1) (dir_insert file_store e))) (\<lambda>(_, t).
        io_try (inode_insert file_store (parent\<lparr>i_extent_root := bt_root_block t\<rparr>))) (d1, fs1) = (r, (d', fs'))"
      using run i1 True e by (simp add: add_entry_def map_err_op_apply ok_or_def get_fs_def lift_res_def)
    have "(\<exists>parent'. r = Ok () \<and> wf_inodes d' fs' \<and> fs_superblock fs' = fs_superblock fs1 \<and>
        map_of (inode_table d' fs') = (map_of (inode_table d1 fs1))(i_inode_num parent \<mapsto> parent') \<and>
        parent' = parent\<lparr>i_extent_root := i_extent_root parent'\<rparr> \<and> fd_wf d' direntry_value (dir_tree_of parent' fs') \<and>
        fd_list d' direntry_value (dir_tree_of parent' fs') = ins_list (hash_name name) e (fd_list d1 direntry_value (dir_tree_of parent fs1))) \<or>
      (r = Err IoOther \<and> bt_height (fs_inode_tree fs1) \<noteq> 0)"
      using dir dir1 t1 by (intro add_to_parent_law [OF wf1 wf(3) _ _ _ e rm rest]) simp_all
    then show ?thesis using h1 tab1 sb1 t1 dir1(2) by auto
  qed
qed

lemma file_inode_fields [simp]:
  "i_inode_num (file_inode n data) = n" "i_mode (file_inode n data) AND S_IFMT = S_IFREG"
  by (simp_all add: file_inode_def Inode_new_def S_IFREG_def S_IFMT_def)

lemma file_inode_data:
  assumes "length data \<le> 160"
  shows "wf_inode (file_inode n data)" "unat (i_inline_size (file_inode n data)) = length data"
    "take (length data) (i_inline_data (file_inode n data)) = data" "length (i_inline_data (file_inode n data)) = 160"
  using assms by (simp_all add: file_inode_def Inode_new_def wf_inode_def INODE_INLINE_SIZE_def copy_into_def unat_of_nat take_bit_nat_eq_self)

text \<open>The generation of a directory's tree does not matter to a lookup.\<close>

lemma dir_lookup_generation:
  "dir_lookup D (BPlusTree_new (i_extent_root i) NDirectory g) name s = dir_lookup D (dir_tree_of i fs) name s"
proof -
  have "same_tree (dir_tree_of i fs) (BPlusTree_new (i_extent_root i) NDirectory g)"
    by (simp add: same_tree_def dir_tree_of_def BPlusTree_new_def)
  then show ?thesis by (simp add: dir_lookup_def tree_search_same)
qed

text \<open>A directory of the image that can take one more entry under this name.\<close>

definition takes_name :: "file_device \<Rightarrow> fs_state \<Rightarrow> inode \<Rightarrow> byte list \<Rightarrow> bool" where
  "takes_name d fs i name \<longleftrightarrow> fd_wf d direntry_value (dir_tree_of i fs) \<and> length (fd_list d direntry_value (dir_tree_of i fs)) < 14 \<and>
     hash_name name \<notin> fst ` set (fd_list d direntry_value (dir_tree_of i fs)) \<and>
     utf8_valid name \<and> name \<noteq> [] \<and> length name \<le> 255 \<and> 0x2F \<notin> set name"

text \<open>C8. What the builder writes, the filesystem reads. In a well-formed image, creating a file of 1 to 160
  bytes in a root directory that can take its name (fewer than 14 entries, none with the hash of the name), on a disk that
  does not fail, succeeds, or reports an error, and only when the inode tree is a full leaf or taller; then opening \<open>/name\<close> and reading from it
  returns exactly the data, and the other inodes and the other names of the root are as before.\<close>

theorem create_file_then_read:
  assumes wf: "wf_inodes d fs" "map_of (inode_table d fs) ROOT_INODE = Some root" "i_inode_num root = ROOT_INODE"
      "inode_is_directory root" "wf_inode root"
    and dir: "takes_name d fs root name" and data: "0 < length data" "length data \<le> 160" "160 \<le> n" "fm_read mode"
    and num: "sb_next_inode (fs_superblock fs) \<noteq> ROOT_INODE"
    and room: "fd_sound d (4 * unat (bt_height (fs_inode_tree fs)) + 13)"
    and run: "create_file file_store ROOT_INODE name data (d, fs) = (r, (d', fs'))"
  shows "(r = Ok () \<and>
      (\<exists>f. fst (wfs_open file_store (0x2F # name) mode (d', fs')) = Ok f \<and> fst (wfs_file_read n f) = Ok data) \<and>
      (\<forall>k. k \<noteq> ROOT_INODE \<and> k \<noteq> sb_next_inode (fs_superblock fs) \<longrightarrow>
        inode_lookup file_store fs' k d' = inode_lookup file_store fs k d) \<and>
      (\<forall>other. hash_name other \<noteq> hash_name name \<longrightarrow>
        find_entry_inode file_store fs' ROOT_INODE other d' = find_entry_inode file_store fs ROOT_INODE other d)) \<or>
    (r = Err IoOther \<and> (bt_height (fs_inode_tree fs) \<noteq> 0 \<or> 15 \<le> length (inode_table d fs)))"
proof -
  let ?n = "sb_next_inode (fs_superblock fs)"
  define fs0 where "fs0 = snd (allocate_inode_num fs)"
  let ?i = "file_inode ?n data" and ?t = "dir_tree_of root fs"
  have same: "fs_inode_tree fs0 = fs_inode_tree fs" "dir_tree_of i fs0 = dir_tree_of i fs" for i
    by (simp_all add: fs0_def allocate_inode_num_def Let_def dir_tree_of_def)
  have wf': "wf_inodes d fs0" using wf(1) by (simp add: wf_inodes_def same)
  obtain e where e: "DirEntry_new name ?n EFile = Some e"
    using dir by (simp add: takes_name_def DirEntry_new_def MAX_FILENAME_def)
  have "allocate_inode_num fs = (?n, fs0)" by (simp add: fs0_def allocate_inode_num_def Let_def)
  then have run': "add_entry file_store root name ?i EFile (d, fs0) = (r, (d', fs'))"
    using run data(2) inode_lookup_table [OF wf(1)] wf(2)
    by (simp add: create_file_def parent_of_def ok_or_def new_inode_num_def INODE_INLINE_SIZE_def sbind_def)
  have "(\<exists>root'. r = Ok () \<and> wf_inodes d' fs' \<and> fs_superblock fs' = fs_superblock fs0 \<and>
      map_of (inode_table d' fs') = (map_of (inode_table d fs0))(i_inode_num ?i \<mapsto> ?i, i_inode_num root \<mapsto> root') \<and>
      root' = root\<lparr>i_extent_root := i_extent_root root'\<rparr> \<and> fd_wf d' direntry_value (dir_tree_of root' fs') \<and>
      fd_list d' direntry_value (dir_tree_of root' fs') = ins_list (hash_name name) e (fd_list d direntry_value (dir_tree_of root fs0))) \<or>
    (r = Err IoOther \<and> (bt_height (fs_inode_tree fs0) \<noteq> 0 \<or> 15 \<le> length (inode_table d fs0)))"
    by (rule add_entry_law [OF wf' file_inode_data(1) [OF data(2)] wf(5) _ _ _ _ _ run'])
      (use dir e room in \<open>simp_all add: takes_name_def same\<close>)
  then consider (fails) "r = Err IoOther \<and> (bt_height (fs_inode_tree fs) \<noteq> 0 \<or> 15 \<le> length (inode_table d fs))"
    | (ok) root' where "r = Ok ()" "wf_inodes d' fs'" "root' = root\<lparr>i_extent_root := i_extent_root root'\<rparr>"
      "map_of (inode_table d' fs') = (map_of (inode_table d fs))(?n \<mapsto> ?i, ROOT_INODE \<mapsto> root')"
      "fd_wf d' direntry_value (dir_tree_of root' fs')"
      "fd_list d' direntry_value (dir_tree_of root' fs') = ins_list (hash_name name) e (fd_list d direntry_value ?t)"
    using wf(3) by (auto simp: same)
  then show ?thesis
  proof cases
    case ok
    note look = inode_lookup_table [OF ok(2)] inode_lookup_table [OF wf(1)]
    have mode: "inode_is_directory root'" using wf(4) by (subst ok(3)) (simp add: inode_is_directory_def)
    have "sorted_keys (fd_list d direntry_value ?t)" using dir by (auto simp: takes_name_def intro: sorted_btree_list)
    note entries = map_of_ins_list [OF this, of "hash_name name" e]
    note dl = dir_lookup_list [OF ok(5), unfolded ok(6) entries] dir_lookup_list [of d ?t]
    have m: "matches e name" using dir DirEntry_new_matches [OF e] by (simp add: takes_name_def)
    have "resolve_path file_store fs' (0x2F # name) d' = Ok (Some ?i)"
      using dir mode num m look ok(4) DirEntry_new_fields(1) [OF e]
      by (simp add: takes_name_def resolve_path_def split_slash_single dir_lookup_generation [where fs = fs'] dl(1))
    then have "fst (wfs_open file_store (0x2F # name) mode (d', fs')) = Ok \<lparr>wf_inode_data = ?i, wf_position = 0, wf_mode = mode\<rparr>"
      by (simp add: wfs_open_def resolve_inode_def ok_or_def sbind_def ret_def)
    moreover have "fst (wfs_file_read n \<lparr>wf_inode_data = ?i, wf_position = 0, wf_mode = mode\<rparr>) = Ok data"
      using wfs_file_read_start [of "\<lparr>wf_inode_data = ?i, wf_position = 0, wf_mode = mode\<rparr>" "length data" n]
        file_inode_data [OF data(2), of ?n] data by simp
    moreover have "find_entry_inode file_store fs' ROOT_INODE other d' = find_entry_inode file_store fs ROOT_INODE other d"
      if "hash_name other \<noteq> hash_name name" for other
      using that look ok(4) wf(2) dir dl by (simp add: find_entry_inode_def ok_or_def takes_name_def)
    ultimately show ?thesis using ok(1,4) look by auto
  qed simp
qed

theorem create_file_then_read_witness:
  "\<exists>fs img d' fs' f. create_wfs_v1 0x100000 (FileBlockDevice_new 1048576 []) = (Ok fs, img) \<and>
     create_file file_store ROOT_INODE [0x61] [0x68, 0x69] (img, fs) = (Ok (), (d', fs')) \<and>
     fst (wfs_open file_store [0x2F, 0x61] FileMode_READ (d', fs')) = Ok f \<and> fst (wfs_file_read 160 f) = Ok [0x68, 0x69]"
proof -
  have "{0, 1, 2, 3, 4} \<subseteq> fd_alive (FileBlockDevice_new 1048576 [])" "fd_sound (FileBlockDevice_new 1048576 []) (13 + 4)"
    by (intro new_image_blocks) (simp_all add: BLOCK_SIZE_def)
  from create_wfs_v1_image [OF this, of "0x100000"] obtain fs d where
    c: "create_wfs_v1 0x100000 (FileBlockDevice_new 1048576 []) = (Ok fs, d)" "fd_sound d 13" "wf_inodes d fs"
    "map_of (inode_table d fs) = [ROOT_INODE \<mapsto> mkfs_root_inode]" "bt_height (fs_inode_tree fs) = 0"
    "fs_superblock fs = mkfs_superblock (0x100000 div of_nat BLOCK_SIZE)"
    "fd_wf d direntry_value (BPlusTree_new 4 NDirectory 1)" "fd_list d direntry_value (BPlusTree_new 4 NDirectory 1) = []"
    "length (inode_table d fs) = 1"
    by blast
  obtain r d' fs' where run: "create_file file_store ROOT_INODE [0x61] [0x68, 0x69] (d, fs) = (r, (d', fs'))" by (rule prod_cases3)
  have sb: "sb_root_generation (fs_superblock fs) = 1" "sb_next_inode (fs_superblock fs) = 2"
    by (simp_all add: c(6) mkfs_superblock_def sb_update_crc_def)
  then have "dir_tree_of mkfs_root_inode fs = BPlusTree_new 4 NDirectory 1" by (simp add: dir_tree_of_def mkfs_root_inode_def)
  then have "takes_name d fs mkfs_root_inode [0x61]" using c(7,8) by (simp add: takes_name_def)
  moreover have "inode_is_directory mkfs_root_inode"
    by (simp add: mkfs_root_inode_def Inode_new_def inode_is_directory_def S_IFDIR_def S_IFMT_def)
  moreover have "fd_sound d (4 * unat (bt_height (fs_inode_tree fs)) + 13)" using c(2,5) by simp
  ultimately show ?thesis
    using create_file_then_read [where mode = FileMode_READ and n = 160, OF c(3) _ _ _ _ _ _ _ _ _ _ _ run] c run sb
    by (auto simp: FileMode_READ_def ROOT_INODE_def)
qed

end
