(* ===== verification/Spec2Isabelle.thy ===== *)
theory Spec2Isabelle
  imports Fat_Fs Fat_Table Kern_Elf Kern_Paging Kern_User_Access Paths Phys_Mem Prelude
    Rl_Buffer Rl_Complete Rl_Display Rl_Editor Rl_History Rl_Io Rl_Modes Term_Console
    Term_Grid Term_Keyboard Term_Parser Term_Render Term_State Users Vfs_Mount Vfs_Permissions
    Vfs_Pipe Vfs_Symlink Vfs_Types Wfs_Adapter Wfs_Btree Wfs_Codec Wfs_Commit Wfs_Cow
    Wfs_Cow_Insert Wfs_Create Wfs_Device Wfs_Dir Wfs_Extent Wfs_Freespace Wfs_Fs Wfs_Init
    Wfs_Inode Wfs_Internal Wfs_Leaf Wfs_Mkfs Wfs_Node Wfs_Structures Wfs_Transaction Wfs_Tree
begin

text \<open>
  \<^bold>\<open>Verification of the WATOS system core\<close>

  WATOS is a small operating system in Rust. This library models the parts of it that hold state and
  make promises - paths, the virtual filesystem, the WFS and FAT filesystems, the image builder, the
  physical page allocator, the page tables, the program loader, the user database, the terminal with its console and the
  line editor - and proves what those parts promise. All paths below are
  under \<^verbatim>\<open>src/\<close>.

  \<^bold>\<open>Parts, and the theories that model them.\<close>

  \<^item> \<^verbatim>\<open>Prelude\<close>: machine words, results with a panic, state-passing operations, byte codecs.
  \<^item> \<^verbatim>\<open>Paths\<close>: \<^verbatim>\<open>crates/core/path/src/lib.rs\<close> and \<^verbatim>\<open>crates/storage/vfs/src/path.rs\<close>. Parsing,
    normalising and joining paths; drive paths cannot leave their drive.
  \<^item> \<^verbatim>\<open>Vfs_Types\<close>, \<^verbatim>\<open>Vfs_Permissions\<close>, \<^verbatim>\<open>Vfs_Pipe\<close>, \<^verbatim>\<open>Vfs_Mount\<close>, \<^verbatim>\<open>Vfs_Symlink\<close>:
    \<^verbatim>\<open>crates/storage/vfs/src\<close>. The permission check against an access policy, pipes against a FIFO
    channel, the mount table with its invariant and longest-prefix resolution, symbolic links.
  \<^item> \<^verbatim>\<open>Wfs_Structures\<close>, \<^verbatim>\<open>Wfs_Node\<close>, \<^verbatim>\<open>Wfs_Codec\<close>: the on-disk structures of WFS, their CRC and their
    byte codecs (\<^verbatim>\<open>crates/storage/wfs/src/core/structures.rs\<close>, \<^verbatim>\<open>node.rs\<close>).
  \<^item> \<^verbatim>\<open>Wfs_Leaf\<close>, \<^verbatim>\<open>Wfs_Internal\<close>, \<^verbatim>\<open>Wfs_Tree\<close>, \<^verbatim>\<open>Wfs_Cow\<close>, \<^verbatim>\<open>Wfs_Cow_Insert\<close>, \<^verbatim>\<open>Wfs_Device\<close>,
    \<^verbatim>\<open>Wfs_Btree\<close>: the copy-on-write B+tree (\<^verbatim>\<open>core/tree.rs\<close>) over a block store. A tree on the device is
    abstracted to a map; search, insertion and deletion refine the map operations, and every block of
    the old tree is unchanged until the caller installs the new root.
  \<^item> \<^verbatim>\<open>Wfs_Inode\<close>, \<^verbatim>\<open>Wfs_Dir\<close>, \<^verbatim>\<open>Wfs_Extent\<close>, \<^verbatim>\<open>Wfs_Freespace\<close>, \<^verbatim>\<open>Wfs_Transaction\<close>: the objects stored
    in the trees and the transaction state machine (\<^verbatim>\<open>core/inode.rs\<close>, \<^verbatim>\<open>dir.rs\<close>, \<^verbatim>\<open>extent.rs\<close>,
    \<^verbatim>\<open>freespace.rs\<close>, \<^verbatim>\<open>transaction.rs\<close>).
  \<^item> \<^verbatim>\<open>Wfs_Fs\<close>, \<^verbatim>\<open>Wfs_Commit\<close>, \<^verbatim>\<open>Wfs_Init\<close>: the filesystem layer (\<^verbatim>\<open>core/fs.rs\<close>): formatting, path
    resolution, reading and writing, and the commit, which is atomic under a crash at any point.
  \<^item> \<^verbatim>\<open>Wfs_Adapter\<close>: the kernel driver (\<^verbatim>\<open>vfs_adapter.rs\<close>) over a sector device.
    \<^verbatim>\<open>Wfs_Mkfs\<close>, \<^verbatim>\<open>Wfs_Create\<close>: the image builder (\<^verbatim>\<open>tools/mkfs.wfs/src/main.rs\<close>), and the driver reading
    the files it creates.
  \<^item> \<^verbatim>\<open>Fat_Table\<close>, \<^verbatim>\<open>Fat_Fs\<close>: the FAT12/16/32 driver (\<^verbatim>\<open>crates/storage/fat/src\<close>).
  \<^item> \<^verbatim>\<open>Phys_Mem\<close>: the physical page allocator (\<^verbatim>\<open>crates/core/mem/src/phys.rs\<close>).
  \<^item> \<^verbatim>\<open>Kern_Paging\<close>, \<^verbatim>\<open>Kern_User_Access\<close>, \<^verbatim>\<open>Kern_Elf\<close>: page tables and access to user memory
    (\<^verbatim>\<open>crates/core/mem/src/paging.rs\<close>, \<^verbatim>\<open>user_access.rs\<close>) and the program loader (\<^verbatim>\<open>crates/sys/process/src/elf.rs\<close>).
    The processor's walk through the tables is the specification: mapping a page changes one translation, a new
    process sees the kernel's pages only, and loading a program makes the image its segments describe.
  \<^item> \<^verbatim>\<open>Users\<close>: the user database (\<^verbatim>\<open>crates/sys/users/src/lib.rs\<close>).
  \<^item> \<^verbatim>\<open>Term_Parser\<close>, \<^verbatim>\<open>Term_Grid\<close>, \<^verbatim>\<open>Term_State\<close>: the terminal emulator (\<^verbatim>\<open>crates/sys/terminal/src\<close>: \<^verbatim>\<open>parser.rs\<close>;
    \<^verbatim>\<open>color.rs\<close>, \<^verbatim>\<open>cell.rs\<close>, \<^verbatim>\<open>grid.rs\<close>; \<^verbatim>\<open>state.rs\<close>, \<^verbatim>\<open>terminal.rs\<close>). No byte sequence makes it panic or moves
    the cursor off the screen; control sequences round-trip; printing and the line operations refine
    operations on the list of screen lines.
  \<^item> \<^verbatim>\<open>Term_Keyboard\<close>, \<^verbatim>\<open>Term_Render\<close>, \<^verbatim>\<open>Term_Console\<close>: keyboard, renderer with framebuffer, and the console
    manager that joins them (\<^verbatim>\<open>keyboard.rs\<close>; \<^verbatim>\<open>renderer.rs\<close>, \<^verbatim>\<open>framebuffer.rs\<close>; \<^verbatim>\<open>console.rs\<close>). Modifiers against
    the history of key events; incremental rendering against the full redraw; the picture after any
    sequence of console operations.
  \<^item> \<^verbatim>\<open>Rl_Buffer\<close>, \<^verbatim>\<open>Rl_History\<close>, \<^verbatim>\<open>Rl_Modes\<close>, \<^verbatim>\<open>Rl_Io\<close>, \<^verbatim>\<open>Rl_Complete\<close>, \<^verbatim>\<open>Rl_Editor\<close>: the line editor
    (\<^verbatim>\<open>crates/sys/readline/src\<close>: \<^verbatim>\<open>buffer.rs\<close>; \<^verbatim>\<open>history.rs\<close>; \<^verbatim>\<open>emacs.rs\<close>, \<^verbatim>\<open>vi.rs\<close>; \<^verbatim>\<open>key.rs\<close>, \<^verbatim>\<open>terminal.rs\<close>; \<^verbatim>\<open>completer.rs\<close>;
    \<^verbatim>\<open>editor.rs\<close>, \<^verbatim>\<open>lib.rs\<close>). The edit buffer refines a zipper; killing and yanking give back the text; the
    escape sequences of the cursor and editing keys are read as those keys; reading a line ends when no tab was typed; completion, and where it hangs or panics.
    \<^verbatim>\<open>Rl_Display\<close>: the redraw of the line on the terminal emulator.

  \<^bold>\<open>Interaction.\<close> The VFS resolves a path through \<^verbatim>\<open>Vfs_Mount\<close> to a mounted filesystem, WFS or FAT. The
  WFS driver keeps inodes, directories, extents and free ranges in B+trees on a block store; the store
  is the interface (a record of operations) between \<^verbatim>\<open>Wfs_Tree\<close> and its two providers, the host file of
  mkfs (\<^verbatim>\<open>Wfs_Device\<close>) and the sector device of the kernel (\<^verbatim>\<open>Wfs_Adapter\<close>). Commits run through the
  transaction state machine of \<^verbatim>\<open>Wfs_Transaction\<close>. The program loader takes pages from \<^verbatim>\<open>Phys_Mem\<close> and maps them
  through \<^verbatim>\<open>Kern_Paging\<close>, whose contract is the locale \<open>address_space\<close>. The console manager feeds scancodes to the keyboard and
  output to the active terminal, whose grid records its changes in dirty flags for the renderer.

  \<^bold>\<open>Interfaces.\<close> Locales state the contracts that several definitions share: what an operation may change
  (\<open>frame\<close>), a page allocator (\<open>page_allocator\<close>), a table of FAT entries in some width (\<open>fat_table\<close>),
  and those of the B+tree and VFS theories; each is interpreted on the definitions of the model.

  \<^bold>\<open>Conventions.\<close> Integers are words of their width and wrap; indices and lengths that stay in range are
  natural numbers. A panic, a slice out of range for instance, is the value \<open>Panic\<close>. Loops over lists are
  structural; other loops are functions with a measure; loops without a bound (the FAT directory walk, the vi repeat
  command, the completion cycle) are
  partial functions whose value is \<open>None\<close> when they do not return, and a claim that they return is proved.
  Tree operations take the height of the tree as their recursion depth, as the code does. Devices,
  host files and anything else outside of the sources are parameters, with what is used of them as
  hypotheses. A storage driver's read is a function of the device and does not change it; the writes of the
  host file fail, tear, or reach the file in their order, and its sync fails or succeeds, but a cache that reorders writes is
  not modelled. The page table theorems assume of the kernel heap that it returns aligned addresses that are
  not in use, below \<open>2\<^sup>5\<^sup>2\<close>. The FAT theorems are for sectors of 512 bytes, the only size the driver works with.

  \<^bold>\<open>Not modelled.\<close> Locks (each operation holds the one lock of its object from start to end); hardware access
  (boot, descriptor tables, control registers, the TLB, drivers); the process table and the switch between processes; GW-BASIC, the DOS emulator and the command-line programs; the
  text of procfs and devfs; retired code. The manifest lists each with its reason.
\<close>

end
